(* ===== verification/GoStrings.thy ===== *)
theory GoStrings
  imports Main "HOL-Library.Sublist" "HOL-Library.Code_Target_Nat"
begin

text \<open>
  Prelude of the development: Go strings and the parts of the packages
  \<^verbatim>\<open>strings\<close>, \<^verbatim>\<open>unicode\<close> and \<^verbatim>\<open>unicode/utf8\<close> that the modelled code calls.

  A Go string is a sequence of bytes. It is modelled as a \<^typ>\<open>string\<close>, whose
  characters are the 256 byte values, so that \<^const>\<open>length\<close> is Go's \<^verbatim>\<open>len\<close>, an index
  is a byte offset and slicing is \<^const>\<open>take\<close> and \<^const>\<open>drop\<close>. Code points are
  natural numbers, decoded from the bytes as \<^verbatim>\<open>utf8.DecodeRuneInString\<close> does.
  The functions here are the language's standard library, so they have no entry in
  the map of the development; every other theory builds on them.
\<close>

named_theorems go_defs \<open>definitions of the string functions, unfolded to evaluate them\<close>

section \<open>Prefixes, suffixes, searching\<close>

definition has_prefix :: "string \<Rightarrow> string \<Rightarrow> bool" where
  "has_prefix s p = prefix p s"

definition has_suffix :: "string \<Rightarrow> string \<Rightarrow> bool" where
  "has_suffix s p = suffix p s"

text \<open>\<^verbatim>\<open>strings.Index\<close>: the first offset at which the separator occurs, \<^const>\<open>None\<close> for -1.\<close>

fun index :: "string \<Rightarrow> string \<Rightarrow> nat option" where
  "index [] sep = (if sep = [] then Some 0 else None)"
| "index (c # s) sep =
     (if prefix sep (c # s) then Some 0 else map_option Suc (index s sep))"

definition contains :: "string \<Rightarrow> string \<Rightarrow> bool" where
  "contains s sep = (index s sep \<noteq> None)"

text \<open>\<^verbatim>\<open>strings.LastIndex\<close>.\<close>

fun last_index :: "string \<Rightarrow> string \<Rightarrow> nat option" where
  "last_index [] sep = (if sep = [] then Some 0 else None)"
| "last_index (c # s) sep =
     (case last_index s sep of
        Some i \<Rightarrow> Some (Suc i)
      | None \<Rightarrow> if prefix sep (c # s) then Some 0 else None)"

definition trim_prefix :: "string \<Rightarrow> string \<Rightarrow> string" where
  "trim_prefix s p = (if has_prefix s p then drop (length p) s else s)"

definition trim_suffix :: "string \<Rightarrow> string \<Rightarrow> string" where
  "trim_suffix s p = (if has_suffix s p then take (length s - length p) s else s)"

text \<open>\<^verbatim>\<open>strings.Cut\<close>: before, after and whether the separator was found.\<close>

definition cut :: "string \<Rightarrow> string \<Rightarrow> string \<times> string \<times> bool" where
  "cut s sep = (case index s sep of
     None \<Rightarrow> (s, [], False)
   | Some i \<Rightarrow> (take i s, drop (i + length sep) s, True))"

text \<open>\<^verbatim>\<open>strings.SplitN(s, sep, 2)\<close> for a non-empty separator.\<close>

definition splitn2 :: "string \<Rightarrow> string \<Rightarrow> string list" where
  "splitn2 s sep = (case index s sep of
     None \<Rightarrow> [s]
   | Some i \<Rightarrow> [take i s, drop (i + length sep) s])"

text \<open>\<^verbatim>\<open>strings.Join\<close>.\<close>

fun join :: "string \<Rightarrow> string list \<Rightarrow> string" where
  "join sep [] = []"
| "join sep [s] = s"
| "join sep (s # t # ss) = s @ sep @ join sep (t # ss)"

text \<open>\<^verbatim>\<open>strings.ReplaceAll\<close> and \<^verbatim>\<open>strings.Replace(s, old, new, 1)\<close> for a non-empty
  \<^verbatim>\<open>old\<close>.\<close>

definition replace1 :: "string \<Rightarrow> string \<Rightarrow> string \<Rightarrow> string" where
  "replace1 s old new = (case index s old of
     None \<Rightarrow> s
   | Some i \<Rightarrow> take i s @ new @ drop (i + length old) s)"

declare has_prefix_def [go_defs] has_suffix_def [go_defs] contains_def [go_defs]
  trim_prefix_def [go_defs] trim_suffix_def [go_defs] cut_def [go_defs]
  splitn2_def [go_defs] replace1_def [go_defs]

subsection \<open>Laws of searching\<close>

lemma index_Some_split:
  "index s sep = Some i \<Longrightarrow> s = take i s @ sep @ drop (i + length sep) s \<and> i + length sep \<le> length s"
proof (induction s sep arbitrary: i rule: index.induct)
  case (1 sep)
  then show ?case by (auto split: if_splits)
next
  case (2 c s sep)
  show ?case
  proof (cases "prefix sep (c # s)")
    case True
    then obtain u where u: "c # s = sep @ u" by (auto elim: prefixE)
    from True 2(2) have "i = 0" by simp
    with u show ?thesis by simp
  next
    case False
    with 2 obtain j where j: "i = Suc j" "index s sep = Some j" by auto
    with 2(1) [OF False] have "s = take j s @ sep @ drop (j + length sep) s \<and> j + length sep \<le> length s"
      by blast
    with j show ?thesis by simp
  qed
qed

lemma index_Some_prefix: "index s sep = Some i \<Longrightarrow> prefix sep (drop i s)"
proof (induction s sep arbitrary: i rule: index.induct)
  case (1 sep)
  then show ?case by (auto split: if_splits)
next
  case (2 c s sep)
  then show ?case by (cases "prefix sep (c # s)") auto
qed

lemma index_Some_first: "index s sep = Some i \<Longrightarrow> j < i \<Longrightarrow> \<not> prefix sep (drop j s)"
proof (induction s sep arbitrary: i j rule: index.induct)
  case (1 sep)
  then show ?case by (auto split: if_splits)
next
  case (2 c s sep)
  then show ?case by (cases "prefix sep (c # s)"; cases j) auto
qed

lemma index_None_iff: "index s sep = None \<longleftrightarrow> (\<forall>j \<le> length s. \<not> prefix sep (drop j s))"
proof (induction s sep rule: index.induct)
  case (1 sep)
  then show ?case by simp
next
  case (2 c s sep)
  show ?case
  proof (cases "prefix sep (c # s)")
    case True
    then show ?thesis by (auto intro: exI [of _ 0])
  next
    case False
    with 2 have "index (c # s) sep = None \<longleftrightarrow> (\<forall>j \<le> length s. \<not> prefix sep (drop j s))"
      by simp
    also have "\<dots> \<longleftrightarrow> (\<forall>j \<le> length (c # s). \<not> prefix sep (drop j (c # s)))"
    proof -
      have "(\<forall>j \<le> Suc n. P j) \<longleftrightarrow> P 0 \<and> (\<forall>j \<le> n. P (Suc j))" for P and n :: nat
        by (metis Suc_le_mono le0 not0_implies_Suc)
      with False show ?thesis by simp
    qed
    finally show ?thesis .
  qed
qed

lemma index_SomeI:
  assumes "prefix sep (drop i s)" and "i \<le> length s"
    and "\<And>j. j < i \<Longrightarrow> \<not> prefix sep (drop j s)"
  shows "index s sep = Some i"
proof (cases "index s sep")
  case None
  with assms show ?thesis by (auto simp: index_None_iff)
next
  case (Some k)
  then have "prefix sep (drop k s)" by (rule index_Some_prefix)
  with assms(3) have "\<not> k < i" by blast
  moreover from Some assms(1) have "\<not> i < k" by (auto dest: index_Some_first)
  ultimately show ?thesis using Some by simp
qed

lemma index_le: "index s sep = Some i \<Longrightarrow> i + length sep \<le> length s"
  by (simp add: index_Some_split)

lemma contains_iff: "contains s sep \<longleftrightarrow> (\<exists>u v. s = u @ sep @ v)"
proof
  assume "contains s sep"
  then show "\<exists>u v. s = u @ sep @ v"
    by (auto simp: contains_def dest: index_Some_split)
next
  assume "\<exists>u v. s = u @ sep @ v"
  then obtain u v where s: "s = u @ sep @ v" by blast
  then have "prefix sep (drop (length u) s)" and "length u \<le> length s" by auto
  then show "contains s sep"
    by (auto simp: contains_def index_None_iff)
qed

lemma contains_char: "contains s [c] \<longleftrightarrow> c \<in> set s"
  by (auto simp: contains_iff dest: split_list)

lemma index_append_left:
  assumes "index s sep = Some i"
  shows "index (s @ t) sep = Some i"
proof (rule index_SomeI)
  from assms have "prefix sep (drop i s)" and le: "i + length sep \<le> length s"
    by (auto dest: index_Some_prefix index_le)
  then show "prefix sep (drop i (s @ t))" and "i \<le> length (s @ t)"
    by (auto simp: prefix_def)
  fix j assume j: "j < i"
  show "\<not> prefix sep (drop j (s @ t))"
  proof
    assume p: "prefix sep (drop j (s @ t))"
    have q: "prefix (drop j s) (drop j (s @ t))" using j le by (auto simp: prefix_def)
    have "prefix sep (drop j s)"
      by (rule prefix_length_prefix [OF p q]) (use j le in simp)
    with assms j show False by (blast dest: index_Some_first)
  qed
qed

lemma contains_append_left: "contains s sep \<Longrightarrow> contains (s @ t) sep"
  by (auto simp: contains_def dest: index_append_left)

section \<open>UTF-8\<close>

text \<open>
  \<^verbatim>\<open>utf8.DecodeRuneInString\<close> and \<^verbatim>\<open>utf8.DecodeLastRuneInString\<close>: the code point and its
  width. A byte that does not start a well-formed sequence decodes to
  \<^verbatim>\<open>utf8.RuneError\<close> (U+FFFD) with width 1, the empty string to width 0.
\<close>

abbreviation byte :: "char \<Rightarrow> nat" where
  "byte c \<equiv> of_char c"

definition rune_error :: nat where
  "rune_error = 0xFFFD"

definition in_range :: "nat \<Rightarrow> nat \<Rightarrow> char \<Rightarrow> bool" where
  "in_range lo hi c \<longleftrightarrow> lo \<le> byte c \<and> byte c \<le> hi"

definition decode2 :: "nat \<Rightarrow> string \<Rightarrow> nat \<times> nat" where
  "decode2 b0 s = (case s of
     c1 # _ \<Rightarrow> if in_range 0x80 0xBF c1
               then ((b0 - 0xC0) * 64 + (byte c1 - 0x80), 2) else (rune_error, 1)
   | _ \<Rightarrow> (rune_error, 1))"

definition decode3 :: "nat \<Rightarrow> nat \<Rightarrow> nat \<Rightarrow> string \<Rightarrow> nat \<times> nat" where
  "decode3 lo hi b0 s = (case s of
     c1 # c2 # _ \<Rightarrow> if in_range lo hi c1 \<and> in_range 0x80 0xBF c2
               then ((b0 - 0xE0) * 4096 + (byte c1 - 0x80) * 64 + (byte c2 - 0x80), 3)
               else (rune_error, 1)
   | _ \<Rightarrow> (rune_error, 1))"

definition decode4 :: "nat \<Rightarrow> nat \<Rightarrow> nat \<Rightarrow> string \<Rightarrow> nat \<times> nat" where
  "decode4 lo hi b0 s = (case s of
     c1 # c2 # c3 # _ \<Rightarrow>
       if in_range lo hi c1 \<and> in_range 0x80 0xBF c2 \<and> in_range 0x80 0xBF c3
       then ((b0 - 0xF0) * 262144 + (byte c1 - 0x80) * 4096
             + (byte c2 - 0x80) * 64 + (byte c3 - 0x80), 4)
       else (rune_error, 1)
   | _ \<Rightarrow> (rune_error, 1))"

fun decode_rune :: "string \<Rightarrow> nat \<times> nat" where
  "decode_rune [] = (rune_error, 0)"
| "decode_rune (c0 # s) =
     (let b0 = byte c0 in
      if b0 < 0x80 then (b0, 1)
      else if b0 < 0xC2 then (rune_error, 1)
      else if b0 \<le> 0xDF then decode2 b0 s
      else if b0 = 0xE0 then decode3 0xA0 0xBF b0 s
      else if b0 = 0xED then decode3 0x80 0x9F b0 s
      else if b0 \<le> 0xEF then decode3 0x80 0xBF b0 s
      else if b0 = 0xF0 then decode4 0x90 0xBF b0 s
      else if b0 \<le> 0xF3 then decode4 0x80 0xBF b0 s
      else if b0 = 0xF4 then decode4 0x80 0x8F b0 s
      else (rune_error, 1))"

declare decode_rune.simps(2) [simp del, go_defs]

text \<open>
  The last rune: the shortest suffix of two to four bytes that is one well-formed
  sequence, otherwise the last byte alone, which is an ASCII character or an error.
  (Go walks back to the last byte that can start a sequence and checks that the
  sequence decoded there ends at the end of the string; a well-formed sequence has
  exactly one such byte, its first.)
\<close>

definition suffix_rune :: "string \<Rightarrow> nat \<Rightarrow> bool" where
  "suffix_rune s k \<longleftrightarrow> k \<le> length s \<and> snd (decode_rune (drop (length s - k) s)) = k"

definition decode_last_rune :: "string \<Rightarrow> nat \<times> nat" where
  "decode_last_rune s =
     (if s = [] then (rune_error, 0)
      else case find (suffix_rune s) [2, 3, 4] of
             Some k \<Rightarrow> decode_rune (drop (length s - k) s)
           | None \<Rightarrow> decode_rune [last s])"

text \<open>\<^verbatim>\<open>utf8.AppendRune\<close> for the code points that are not surrogates.\<close>

definition encode_rune :: "nat \<Rightarrow> string" where
  "encode_rune r =
     (if r < 0x80 then [char_of r]
      else if r < 0x800 then [char_of (0xC0 + r div 64), char_of (0x80 + r mod 64)]
      else if r < 0x10000 then
        [char_of (0xE0 + r div 4096), char_of (0x80 + r div 64 mod 64), char_of (0x80 + r mod 64)]
      else
        [char_of (0xF0 + r div 262144), char_of (0x80 + r div 4096 mod 64),
         char_of (0x80 + r div 64 mod 64), char_of (0x80 + r mod 64)])"

text \<open>A rune decoded without error is encoded by the bytes it was decoded from.\<close>

lemma decode2_encode:
  assumes "decode2 b0 s = (r, n)" "0xC2 \<le> b0" "b0 \<le> 0xDF" "n \<noteq> 1" "char_of b0 = c0"
  shows "take n (c0 # s) = encode_rune r \<and> n \<le> length (c0 # s)"
proof -
  from assms(1,4) obtain c1 u where s: "s = c1 # u" and c1: "in_range 0x80 0xBF c1"
    and r: "r = (b0 - 0xC0) * 64 + (byte c1 - 0x80)" and n: "n = 2"
    by (auto simp: decode2_def split: list.splits if_splits)
  define y where "y = byte c1 - 0x80"
  with c1 have y: "y < 64" "byte c1 = 0x80 + y" by (auto simp: in_range_def)
  define x where "x = b0 - 0xC0"
  with assms(2,3) have x: "2 \<le> x" "x < 32" "b0 = 0xC0 + x" by auto
  from r x y have r': "r = x * 64 + y" by simp
  then have "r div 64 = x" "r mod 64 = y" "\<not> r < 0x80" "r < 0x800" using x y by auto
  with x y have "encode_rune r = [char_of b0, char_of (byte c1)]" by (simp add: encode_rune_def)
  with s n assms(5) show ?thesis by simp
qed

lemma decode3_encode:
  assumes "decode3 lo hi b0 s = (r, n)" "0xE0 \<le> b0" "b0 \<le> 0xEF" "n \<noteq> 1" "char_of b0 = c0"
    "0x80 \<le> lo" "hi \<le> 0xBF" "b0 = 0xE0 \<Longrightarrow> 0xA0 \<le> lo"
  shows "take n (c0 # s) = encode_rune r \<and> n \<le> length (c0 # s)"
proof -
  from assms(1,4) obtain c1 c2 u where s: "s = c1 # c2 # u" and c1: "in_range lo hi c1"
    and c2: "in_range 0x80 0xBF c2" and n: "n = 3"
    and r: "r = (b0 - 0xE0) * 4096 + (byte c1 - 0x80) * 64 + (byte c2 - 0x80)"
    by (auto simp: decode3_def split: list.splits if_splits)
  define z where "z = byte c2 - 0x80"
  with c2 have z: "z < 64" "byte c2 = 0x80 + z" by (auto simp: in_range_def)
  define y where "y = byte c1 - 0x80"
  with c1 assms(6,7) have y: "y < 64" "byte c1 = 0x80 + y" by (auto simp: in_range_def)
  define x where "x = b0 - 0xE0"
  with assms(2,3) have x: "x < 16" "b0 = 0xE0 + x" by auto
  have xy: "x = 0 \<Longrightarrow> 32 \<le> y" using assms(8) c1 x y by (auto simp: in_range_def)
  from r x y z have r': "r = x * 4096 + y * 64 + z" by simp
  from r' have r'': "r = (x * 64 + y) * 64 + z" by simp
  have "r mod 64 = z" by (simp only: r'' mod_mult_self3) (simp add: z)
  moreover have "r div 64 = x * 64 + y" "r div 4096 = x" using z y unfolding r'' by simp_all
  ultimately have "r div 4096 = x" "r div 64 mod 64 = y" "r mod 64 = z" using y by simp_all
  moreover have "\<not> r < 0x80" "\<not> r < 0x800" "r < 0x10000"
    using r' x y z xy by (cases "x = 0"; auto)+
  ultimately have "encode_rune r = [char_of b0, char_of (byte c1), char_of (byte c2)]"
    using x y z by (simp add: encode_rune_def)
  with s n assms(5) show ?thesis by simp
qed

lemma decode4_large:
  assumes "decode4 lo hi b0 s = (r, n)" "0xF0 \<le> b0" "n \<noteq> 1" "0x80 \<le> lo" "b0 = 0xF0 \<Longrightarrow> 0x90 \<le> lo"
  shows "0x10000 \<le> r"
proof -
  from assms(1,3) obtain c1 c2 c3 u where c1: "in_range lo hi c1"
    and r: "r = (b0 - 0xF0) * 262144 + (byte c1 - 0x80) * 4096
             + (byte c2 - 0x80) * 64 + (byte c3 - 0x80)"
    by (auto simp: decode4_def split: list.splits if_splits)
  show ?thesis
  proof (cases "b0 = 0xF0")
    case True
    with assms(5) c1 have "16 \<le> byte c1 - 0x80" by (auto simp: in_range_def)
    then show ?thesis using r by simp
  next
    case False
    with assms(2) have "1 \<le> b0 - 0xF0" by simp
    then show ?thesis using r by simp
  qed
qed

lemma decode_rune_size_pos: "s \<noteq> [] \<Longrightarrow> 0 < snd (decode_rune s) \<and> snd (decode_rune s) \<le> length s"
  by (cases s) (auto simp: decode_rune.simps Let_def decode2_def decode3_def decode4_def split: list.splits)

lemma decode_rune_encode:
  assumes "decode_rune s = (r, n)" "s \<noteq> []" "r < 0x10000" "r \<noteq> rune_error"
  shows "take n s = encode_rune r"
proof -
  from assms(2) obtain c0 u where s: "s = c0 # u" by (cases s) auto
  have n1: "r = rune_error" if "decode2 b u = (r, 1) \<or> decode3 lo hi b u = (r, 1)
      \<or> decode4 lo hi b u = (r, 1)" for b lo hi
    using that by (auto simp: decode2_def decode3_def decode4_def split: list.splits if_splits)
  consider (ascii) "byte c0 < (0x80::nat)"
    | (two) "0xC2 \<le> (byte c0 :: nat)" "byte c0 \<le> (0xDF::nat)"
    | (three) "0xE0 \<le> (byte c0 :: nat)" "byte c0 \<le> (0xEF::nat)"
    | (four) "0xF0 \<le> (byte c0 :: nat)" "byte c0 \<le> (0xF4::nat)"
    | (bad) "0x80 \<le> (byte c0 :: nat)" "byte c0 < (0xC2::nat) \<or> 0xF4 < (byte c0::nat)"
    by linarith
  then show ?thesis
  proof cases
    case ascii
    with assms(1) s show ?thesis by (auto simp: decode_rune.simps encode_rune_def)
  next
    case two
    with assms(1) s have "decode2 (byte c0) u = (r, n)" by (simp add: decode_rune.simps)
    moreover from this assms(4) n1 have "n \<noteq> 1" by blast
    ultimately show ?thesis using two s decode2_encode by fastforce
  next
    case three
    with assms(1) s obtain lo hi where d: "decode3 lo hi (byte c0) u = (r, n)"
      and lo: "0x80 \<le> lo" "hi \<le> 0xBF" "byte c0 = (0xE0::nat) \<Longrightarrow> 0xA0 \<le> lo"
      by (auto simp: decode_rune.simps Let_def split: if_splits)
    moreover from d assms(4) n1 have "n \<noteq> 1" by blast
    ultimately show ?thesis using three s decode3_encode by fastforce
  next
    case four
    with assms(1) s obtain lo hi where d: "decode4 lo hi (byte c0) u = (r, n)"
      and lo: "0x80 \<le> lo" "byte c0 = (0xF0::nat) \<Longrightarrow> 0x90 \<le> lo"
      by (auto simp: decode_rune.simps Let_def split: if_splits)
    moreover from d assms(4) n1 have "n \<noteq> 1" by blast
    ultimately have "0x10000 \<le> r" using four by (intro decode4_large) simp_all
    with assms(3) show ?thesis by simp
  next
    case bad
    with assms(1) s have "r = rune_error" by (auto simp: decode_rune.simps Let_def split: if_splits)
    with assms(4) show ?thesis by simp
  qed
qed

text \<open>\<^verbatim>\<open>strings.Split\<close>; with an empty separator the string is exploded into its runes.\<close>

function explode :: "string \<Rightarrow> string list" where
  "explode s =
     (if s = [] then [] else take (snd (decode_rune s)) s # explode (drop (snd (decode_rune s)) s))"
  by pat_completeness auto
termination
  by (relation "measure length") (auto dest: decode_rune_size_pos)

function split_all :: "string \<Rightarrow> string \<Rightarrow> string list" where
  "split_all s sep =
     (if sep = [] then explode s
      else case index s sep of
             None \<Rightarrow> [s]
           | Some i \<Rightarrow> take i s # split_all (drop (i + length sep) s) sep)"
  by pat_completeness auto
termination
  by (relation "measure (\<lambda>(s, sep). length s)") (auto dest!: index_le simp flip: length_greater_0_conv)

declare explode.simps [simp del] split_all.simps [simp del]

text \<open>Joining what splitting produced gives the string back.\<close>

lemma join_Cons: "ss \<noteq> [] \<Longrightarrow> join sep (s # ss) = s @ sep @ join sep ss"
  by (cases ss) simp_all

lemma split_all_nonempty: "sep \<noteq> [] \<Longrightarrow> split_all s sep \<noteq> []"
  by (simp add: split_all.simps [of s] split: option.splits)

lemma join_split_all: "sep \<noteq> [] \<Longrightarrow> join sep (split_all s sep) = s"
proof (induction s sep rule: split_all.induct)
  case (1 s sep)
  show ?case
  proof (cases "index s sep")
    case None
    with 1(2) show ?thesis by (simp add: split_all.simps [of s])
  next
    case (Some i)
    with 1 have "join sep (split_all (drop (i + length sep) s) sep) = drop (i + length sep) s" by blast
    with Some 1(2) show ?thesis
      using index_Some_split [OF Some]
      by (simp add: split_all.simps [of s] join_Cons split_all_nonempty)
  qed
qed

section \<open>White space and trimming\<close>

text \<open>\<^verbatim>\<open>unicode.IsSpace\<close>: the code points with the White_Space property.\<close>

definition white_space :: "nat list" where
  "white_space = [0x09, 0x0A, 0x0B, 0x0C, 0x0D, 0x20, 0x85, 0xA0, 0x1680,
     0x2000, 0x2001, 0x2002, 0x2003, 0x2004, 0x2005, 0x2006, 0x2007, 0x2008, 0x2009, 0x200A,
     0x2028, 0x2029, 0x202F, 0x205F, 0x3000]"

definition is_space :: "nat \<Rightarrow> bool" where
  "is_space r \<longleftrightarrow> r \<in> set white_space"

text \<open>\<^verbatim>\<open>strings.TrimLeftFunc(s, unicode.IsSpace)\<close> and its mirror image.\<close>

function trim_left :: "string \<Rightarrow> string" where
  "trim_left s =
     (if s = [] then []
      else if is_space (fst (decode_rune s)) then trim_left (drop (snd (decode_rune s)) s) else s)"
  by pat_completeness auto
termination
  by (relation "measure length") (auto dest: decode_rune_size_pos)

lemma decode_last_rune_size:
  assumes "s \<noteq> []"
  shows "0 < snd (decode_last_rune s) \<and> snd (decode_last_rune s) \<le> length s"
proof (cases "find (suffix_rune s) [2, 3, 4]")
  case None
  have "snd (decode_rune [last s]) = 1"
    using decode_rune_size_pos [of "[last s]"] by auto
  with None assms show ?thesis by (auto simp: decode_last_rune_def Suc_le_eq)
next
  case (Some k)
  then have "suffix_rune s k" "k \<in> {2, 3, 4}" by (auto split: if_splits)
  with Some assms show ?thesis by (auto simp: decode_last_rune_def suffix_rune_def)
qed

function trim_right :: "string \<Rightarrow> string" where
  "trim_right s =
     (if s = [] then []
      else if is_space (fst (decode_last_rune s))
           then trim_right (take (length s - snd (decode_last_rune s)) s) else s)"
  by pat_completeness auto
termination
  by (relation "measure length") (auto dest: decode_last_rune_size)

declare trim_left.simps [simp del] trim_right.simps [simp del]

definition trim_space :: "string \<Rightarrow> string" where
  "trim_space s = trim_right (trim_left s)"

text \<open>\<^verbatim>\<open>strings.IndexFunc(s, unicode.IsSpace)\<close>, with the length of the string for -1, and
  \<^verbatim>\<open>strings.Fields\<close>.\<close>

function space_index :: "string \<Rightarrow> nat" where
  "space_index s =
     (if s = [] then 0
      else if is_space (fst (decode_rune s)) then 0
      else snd (decode_rune s) + space_index (drop (snd (decode_rune s)) s))"
  by pat_completeness auto
termination
  by (relation "measure length") (auto dest: decode_rune_size_pos)

declare space_index.simps [simp del]

subsection \<open>White space as byte sequences\<close>

text \<open>
  All reasoning about trimming goes through the 25 byte sequences that encode the
  white-space code points: the head of a string is white space exactly if one of them
  is a prefix, the end exactly if one of them is a suffix.
\<close>

definition ws_tokens :: "string list" where
  "ws_tokens = map encode_rune white_space"

lemmas ws_enum = ws_tokens_def white_space_def encode_rune_def

lemma ws_token_nonempty: "t \<in> set ws_tokens \<Longrightarrow> t \<noteq> []"
  by (auto simp: ws_tokens_def encode_rune_def)

lemma decode_rune_token:
  assumes "t \<in> set ws_tokens"
  shows "is_space (fst (decode_rune (t @ u))) \<and> snd (decode_rune (t @ u)) = length t"
proof -
  have "\<forall>r \<in> set white_space. fst (decode_rune (encode_rune r @ u)) = r
      \<and> snd (decode_rune (encode_rune r @ u)) = length (encode_rune r)"
    by (simp add: white_space_def encode_rune_def decode_rune.simps Let_def decode2_def decode3_def in_range_def)
  with assms show ?thesis by (auto simp: ws_tokens_def is_space_def)
qed

lemma decode_rune_space:
  assumes "s \<noteq> []" "is_space (fst (decode_rune s))"
  shows "take (snd (decode_rune s)) s \<in> set ws_tokens"
proof -
  obtain r n where rn: "decode_rune s = (r, n)" by fastforce
  have "\<forall>r \<in> set white_space. r < 0x10000 \<and> r \<noteq> rune_error"
    by (simp add: white_space_def rune_error_def)
  with assms rn have "take n s = encode_rune r" "r \<in> set white_space"
    by (auto intro!: decode_rune_encode simp: is_space_def)
  with rn show ?thesis by (simp add: ws_tokens_def)
qed

end
