(* ===== verification/Trimming.thy ===== *)
theory Trimming
  imports GoStrings
begin

text \<open>
  The laws of \<^verbatim>\<open>strings.TrimLeftFunc\<close> and \<^verbatim>\<open>strings.TrimRightFunc\<close> with
  \<^verbatim>\<open>unicode.IsSpace\<close>, stated over the byte sequences of the white-space characters:
  how a string splits into white space and a trimmed rest, when trimming commutes with
  appending (the question a streaming parser asks at every chunk boundary), and the
  functions \<^verbatim>\<open>strings.Fields\<close> and the length of trailing white space built on them.
\<close>

section \<open>White space at the end of a string\<close>

definition cont_byte :: "char \<Rightarrow> bool" where
  "cont_byte c \<longleftrightarrow> in_range 0x80 0xBF c"

lemma decode2_wide: "snd (decode2 b s) \<noteq> 1 \<Longrightarrow> \<exists>c1 u. s = c1 # u \<and> cont_byte c1 \<and> snd (decode2 b s) = 2"
  by (auto simp: decode2_def cont_byte_def split: list.splits if_splits)

lemma decode3_wide:
  "snd (decode3 lo hi b s) \<noteq> 1 \<Longrightarrow> \<exists>c1 c2 u. s = c1 # c2 # u \<and> cont_byte c2 \<and> snd (decode3 lo hi b s) = 3"
  by (auto simp: decode3_def cont_byte_def split: list.splits if_splits)

lemma decode4_wide:
  "snd (decode4 lo hi b s) \<noteq> 1
    \<Longrightarrow> \<exists>c1 c2 c3 u. s = c1 # c2 # c3 # u \<and> cont_byte c3 \<and> snd (decode4 lo hi b s) = 4"
  by (auto simp: decode4_def cont_byte_def split: list.splits if_splits)

lemma decode_rune_wide:
  assumes "2 \<le> snd (decode_rune s)"
  shows "\<not> cont_byte (hd s) \<and> cont_byte (s ! (snd (decode_rune s) - 1))"
proof -
  from assms obtain c0 u where s: "s = c0 # u" by (cases s) auto
  from assms s have "0xC2 \<le> (byte c0 :: nat)"
    by (rule_tac ccontr) (simp add: decode_rune.simps Let_def split: if_splits)
  then have n: "\<not> cont_byte c0" by (simp add: cont_byte_def in_range_def)
  from assms s consider
      "decode_rune s = decode2 (byte c0) u" "snd (decode2 (byte c0) u) \<noteq> 1"
    | lo hi where "decode_rune s = decode3 lo hi (byte c0) u" "snd (decode3 lo hi (byte c0) u) \<noteq> 1"
    | lo hi where "decode_rune s = decode4 lo hi (byte c0) u" "snd (decode4 lo hi (byte c0) u) \<noteq> 1"
    by (fastforce simp: decode_rune.simps Let_def split: if_splits)
  then have "cont_byte (s ! (snd (decode_rune s) - 1))"
  proof cases
    case 1
    with decode2_wide [OF 1(2)] s show ?thesis by auto
  next
    case 2
    with decode3_wide [OF 2(2)] s show ?thesis by auto
  next
    case 3
    with decode4_wide [OF 3(2)] s show ?thesis by auto
  qed
  with n s show ?thesis by simp
qed

lemma suffix_rune_last:
  assumes "suffix_rune s k" "2 \<le> k"
  shows "cont_byte (last s)" and "\<not> cont_byte (s ! (length s - k))"
proof -
  let ?d = "drop (length s - k) s"
  from assms have k: "k \<le> length s" "snd (decode_rune ?d) = k" by (auto simp: suffix_rune_def)
  from decode_rune_wide [of ?d] k(2) assms(2) have w: "\<not> cont_byte (hd ?d)" "cont_byte (?d ! (k - 1))"
    by auto
  from k assms(2) have "hd ?d = s ! (length s - k)" by (simp add: hd_drop_conv_nth)
  with w show "\<not> cont_byte (s ! (length s - k))" by simp
  from k assms(2) have "?d ! (k - 1) = s ! (length s - 1)" by simp
  moreover have "s \<noteq> []" using k assms(2) by auto
  ultimately show "cont_byte (last s)" using w by (simp add: last_conv_nth)
qed

lemma ws_token_shape:
  assumes "t \<in> set ws_tokens"
  shows "(\<exists>a. t = [a] \<and> \<not> cont_byte a)
    \<or> (\<exists>a b. t = [a, b] \<and> \<not> cont_byte a \<and> cont_byte b)
    \<or> (\<exists>a b c. t = [a, b, c] \<and> \<not> cont_byte a \<and> cont_byte b \<and> cont_byte c)"
proof -
  have "\<forall>r \<in> set white_space. let t = encode_rune r in (\<exists>a. t = [a] \<and> \<not> cont_byte a)
    \<or> (\<exists>a b. t = [a, b] \<and> \<not> cont_byte a \<and> cont_byte b)
    \<or> (\<exists>a b c. t = [a, b, c] \<and> \<not> cont_byte a \<and> cont_byte b \<and> cont_byte c)"
    by (simp add: white_space_def encode_rune_def cont_byte_def in_range_def)
  with assms show ?thesis by (auto simp: ws_tokens_def Let_def)
qed

lemma decode_last_rune_token:
  assumes t: "t \<in> set ws_tokens"
  shows "is_space (fst (decode_last_rune (u @ t))) \<and> snd (decode_last_rune (u @ t)) = length t"
proof -
  from decode_rune_token [OF t, of "[]"]
  have d: "is_space (fst (decode_rune t))" "snd (decode_rune t) = length t" by auto
  from ws_token_shape [OF t] show ?thesis
  proof (elim disjE exE conjE)
    fix a assume a: "t = [a]" "\<not> cont_byte a"
    then have "\<not> suffix_rune (u @ t) k" if "2 \<le> k" for k
      using suffix_rune_last(1) [of "u @ t" k] that by auto
    with d a show ?thesis by (simp add: decode_last_rune_def)
  next
    fix a b assume "t = [a, b]"
    with d show ?thesis by (auto simp: decode_last_rune_def suffix_rune_def)
  next
    fix a b c assume a: "t = [a, b, c]" "cont_byte b"
    then have "(u @ t) ! (length (u @ t) - 2) = b" by (simp add: nth_append)
    with a have "\<not> suffix_rune (u @ t) 2"
      using suffix_rune_last(2) [of "u @ t" 2] by auto
    moreover have "suffix_rune (u @ t) 3" using d a by (simp add: suffix_rune_def)
    ultimately show ?thesis using d a by (simp add: decode_last_rune_def)
  qed
qed

lemma decode_last_rune_space:
  assumes "s \<noteq> []" "is_space (fst (decode_last_rune s))"
  shows "drop (length s - snd (decode_last_rune s)) s \<in> set ws_tokens"
proof (cases "find (suffix_rune s) [2, 3, 4]")
  case None
  with assms have sp: "is_space (fst (decode_rune [last s]))"
    and n: "snd (decode_last_rune s) = snd (decode_rune [last s])" by (auto simp: decode_last_rune_def)
  have one: "snd (decode_rune [last s]) = 1" using decode_rune_size_pos [of "[last s]"] by simp
  from decode_rune_space [OF _ sp] have "take 1 [last s] \<in> set ws_tokens" unfolding one by simp
  then have "[last s] \<in> set ws_tokens" by simp
  moreover have "drop (length s - 1) s = [last s]" using assms(1)
    by (metis append_butlast_last_id append_eq_conv_conj length_butlast)
  ultimately show ?thesis unfolding n one by simp
next
  case (Some k)
  then have k: "suffix_rune s k" "k \<in> {2, 3, 4}" by (auto split: if_splits)
  let ?d = "drop (length s - k) s"
  from Some assms have "is_space (fst (decode_rune ?d))" by (simp add: decode_last_rune_def)
  moreover have "?d \<noteq> []" using k by (auto simp: suffix_rune_def)
  ultimately have "take (snd (decode_rune ?d)) ?d \<in> set ws_tokens" by (intro decode_rune_space)
  with k Some assms(1) show ?thesis by (simp add: decode_last_rune_def suffix_rune_def)
qed

section \<open>Splitting off white space\<close>

definition ws :: "string \<Rightarrow> bool" where
  "ws s \<longleftrightarrow> (\<exists>ts. set ts \<subseteq> set ws_tokens \<and> s = concat ts)"

definition lead_ok :: "string \<Rightarrow> bool" where
  "lead_ok s \<longleftrightarrow> (\<forall>t \<in> set ws_tokens. \<not> prefix t s)"

definition end_ok :: "string \<Rightarrow> bool" where
  "end_ok s \<longleftrightarrow> (\<forall>t \<in> set ws_tokens. \<not> suffix t s)"

lemma ws_Nil [simp]: "ws []"
  by (auto simp: ws_def intro: exI [of _ "[]"])

lemma ws_append: "ws u \<Longrightarrow> ws v \<Longrightarrow> ws (u @ v)"
proof -
  assume "ws u" "ws v"
  then obtain us vs where "set us \<subseteq> set ws_tokens" "u = concat us"
    "set vs \<subseteq> set ws_tokens" "v = concat vs" by (auto simp: ws_def)
  then have "set (us @ vs) \<subseteq> set ws_tokens" "u @ v = concat (us @ vs)" by auto
  then show ?thesis unfolding ws_def by blast
qed

lemma ws_token: "t \<in> set ws_tokens \<Longrightarrow> ws t"
  unfolding ws_def by (intro exI [of _ "[t]"]) simp

lemma trim_left_token: "t \<in> set ws_tokens \<Longrightarrow> trim_left (t @ u) = trim_left u"
  using decode_rune_token [of t u] ws_token_nonempty [of t] by (simp add: trim_left.simps [of "t @ u"])

lemma trim_left_lead_ok: "lead_ok s \<Longrightarrow> trim_left s = s"
  using decode_rune_space [of s]
  by (auto simp: trim_left.simps [of s] lead_ok_def) (metis take_is_prefix)

lemma trim_left_ws_append: "ws w \<Longrightarrow> trim_left (w @ v) = trim_left v"
proof -
  have "set ts \<subseteq> set ws_tokens \<Longrightarrow> trim_left (concat ts @ v) = trim_left v" for ts
    by (induction ts) (simp_all add: trim_left_token)
  then show "ws w \<Longrightarrow> ?thesis" by (auto simp: ws_def)
qed

lemma trim_left_Nil [simp]: "trim_left [] = []"
  by (simp add: trim_left.simps)

lemma trim_left_split: "\<exists>w. ws w \<and> s = w @ trim_left s \<and> lead_ok (trim_left s)"
proof (induction s rule: trim_left.induct)
  case (1 s)
  show ?case
  proof (cases "s = [] \<or> \<not> is_space (fst (decode_rune s))")
    case True
    have "lead_ok s"
    proof (unfold lead_ok_def, safe)
      fix t assume "t \<in> set ws_tokens" "prefix t s"
      with True show False using decode_rune_token ws_token_nonempty
        by (metis prefix_def append_is_Nil_conv)
    qed
    then show ?thesis by (intro exI [of _ "[]"]) (simp add: trim_left_lead_ok)
  next
    case False
    let ?n = "snd (decode_rune s)"
    from False have t: "take ?n s \<in> set ws_tokens" by (intro decode_rune_space) auto
    from False "1.IH" obtain w where "ws w" "drop ?n s = w @ trim_left (drop ?n s)"
      "lead_ok (trim_left (drop ?n s))" by blast
    moreover have "trim_left s = trim_left (drop ?n s)"
      using False by (simp add: trim_left.simps [of s])
    ultimately have "ws (take ?n s @ w)" "s = (take ?n s @ w) @ trim_left s" "lead_ok (trim_left s)"
      using t ws_token [OF t] by (auto intro: ws_append)
    then show ?thesis by blast
  qed
qed

lemma trim_left_eqI: "ws w \<Longrightarrow> lead_ok v \<Longrightarrow> trim_left (w @ v) = v"
  by (simp add: trim_left_ws_append trim_left_lead_ok)

lemma trim_right_token: "t \<in> set ws_tokens \<Longrightarrow> trim_right (u @ t) = trim_right u"
  using decode_last_rune_token [of t u] ws_token_nonempty [of t]
  by (simp add: trim_right.simps [of "u @ t"])

lemma trim_right_end_ok: "end_ok s \<Longrightarrow> trim_right s = s"
  using decode_last_rune_space [of s]
  by (auto simp: trim_right.simps [of s] end_ok_def) (metis suffix_drop)

lemma trim_right_append_ws: "ws w \<Longrightarrow> trim_right (v @ w) = trim_right v"
proof -
  have "set ts \<subseteq> set ws_tokens \<Longrightarrow> trim_right (v @ concat ts) = trim_right v" for ts
  proof (induction ts rule: rev_induct)
    case (snoc t ts)
    then show ?case using trim_right_token [of t "v @ concat ts"] by simp
  qed simp
  then show "ws w \<Longrightarrow> ?thesis" by (auto simp: ws_def)
qed

lemma trim_right_Nil [simp]: "trim_right [] = []"
  by (simp add: trim_right.simps)

lemma trim_right_split: "\<exists>w. ws w \<and> s = trim_right s @ w \<and> end_ok (trim_right s)"
proof (induction s rule: trim_right.induct)
  case (1 s)
  show ?case
  proof (cases "s = [] \<or> \<not> is_space (fst (decode_last_rune s))")
    case True
    have "end_ok s"
    proof (unfold end_ok_def, safe)
      fix t assume "t \<in> set ws_tokens" "suffix t s"
      with True show False using decode_last_rune_token ws_token_nonempty
        by (metis suffix_def append_is_Nil_conv)
    qed
    then show ?thesis by (intro exI [of _ "[]"]) (simp add: trim_right_end_ok)
  next
    case False
    let ?n = "length s - snd (decode_last_rune s)"
    from False have t: "drop ?n s \<in> set ws_tokens" by (intro decode_last_rune_space) auto
    from False "1.IH" obtain w where "ws w" "take ?n s = trim_right (take ?n s) @ w"
      "end_ok (trim_right (take ?n s))" by blast
    moreover have "trim_right s = trim_right (take ?n s)"
      using False by (simp add: trim_right.simps [of s])
    ultimately have "ws (w @ drop ?n s)" "s = trim_right s @ w @ drop ?n s" "end_ok (trim_right s)"
      using t ws_token by (auto intro: ws_append) (metis append_assoc append_take_drop_id)
    then show ?thesis by blast
  qed
qed

lemma trim_right_eqI: "ws w \<Longrightarrow> end_ok v \<Longrightarrow> trim_right (v @ w) = v"
  by (simp add: trim_right_append_ws trim_right_end_ok)

lemma trim_left_empty_iff: "trim_left s = [] \<longleftrightarrow> ws s"
  using trim_left_split [of s] trim_left_ws_append [of s "[]"] by auto

lemma trim_right_empty_iff: "trim_right s = [] \<longleftrightarrow> ws s"
  using trim_right_split [of s] trim_right_append_ws [of s "[]"] by auto

section \<open>Trimming and appending\<close>

text \<open>
  Chunks of a stream may end in the middle of a white-space character. \<open>whole s\<close> says
  that this is not so: no proper beginning of a white-space sequence is a suffix of
  \<open>s\<close>. Every well-formed UTF-8 string has this property.
\<close>

definition whole :: "string \<Rightarrow> bool" where
  "whole s \<longleftrightarrow> (\<forall>t \<in> set ws_tokens. \<forall>i. 0 < i \<and> i < length t \<longrightarrow> \<not> suffix (take i t) s)"

lemma whole_Nil [simp]: "whole []"
  using ws_token_nonempty by (force simp: whole_def)

lemma whole_suffix: "whole s \<Longrightarrow> suffix u s \<Longrightarrow> whole u"
  by (meson suffix_order.trans whole_def)

lemma whole_drop: "whole s \<Longrightarrow> whole (drop n s)"
  by (erule whole_suffix) (rule suffix_drop)

lemma suffix_append_cases:
  assumes "suffix t (u @ v)"
  shows "suffix t v \<or> (\<exists>i > 0. i \<le> length t \<and> suffix (take i t) u \<and> v = drop i t)"
proof (cases "length t \<le> length v")
  case True
  have "suffix v (u @ v)" by (simp add: suffix_def)
  with assms True show ?thesis by (blast intro: suffix_length_suffix)
next
  case False
  from assms obtain w where w: "u @ v = w @ t" by (auto simp: suffix_def)
  let ?i = "length t - length v"
  from arg_cong [OF w, of length] False have "length u = length w + ?i" by simp
  with w have "take (length w + ?i) (w @ t) = u" "drop (length w + ?i) (w @ t) = v"
    by (metis append_eq_conv_conj)+
  then have "u = w @ take ?i t \<and> v = drop ?i t" by simp
  with False show ?thesis by (intro disjI2 exI [of _ ?i]) (auto simp: suffix_def)
qed

lemma whole_append:
  assumes "whole u" "whole v"
  shows "whole (u @ v)"
  unfolding whole_def
proof (intro ballI allI impI notI)
  fix t i assume t: "t \<in> set ws_tokens" and i: "0 < i \<and> i < length t"
    and "suffix (take i t) (u @ v)"
  then consider "suffix (take i t) v" | j where "0 < j" "j \<le> i" "suffix (take j t) u"
    by (auto simp: min_def dest!: suffix_append_cases split: if_splits)
  then show False
  proof cases
    case 1
    with assms(2) t i show False by (auto simp: whole_def)
  next
    case 2
    with assms(1) t i show False by (auto simp: whole_def)
  qed
qed

lemma whole_ascii_end: "s \<noteq> [] \<Longrightarrow> byte (last s) < (0x80::nat) \<Longrightarrow> whole s"
proof -
  have tok: "\<forall>t \<in> set ws_tokens. \<forall>i. 0 < i \<and> i < length t \<longrightarrow> 0x80 \<le> (byte (last (take i t)) :: nat)"
  proof (intro ballI allI impI)
    fix t i assume t: "t \<in> set ws_tokens" and i: "0 < i \<and> i < length t"
    then have two: "\<not> length t \<le> 1" by auto
    have "\<forall>r \<in> set white_space. length (encode_rune r) \<le> 1
        \<or> 0x80 \<le> (byte (encode_rune r ! 0) :: nat) \<and> 0x80 \<le> (byte (encode_rune r ! 1) :: nat)"
      by (simp add: white_space_def encode_rune_def)
    with t two have "0x80 \<le> (byte (t ! 0) :: nat)" "0x80 \<le> (byte (t ! 1) :: nat)"
      by (auto simp: ws_tokens_def)
    moreover from ws_token_shape [OF t] i have "i = 1 \<or> i = 2" by auto
    moreover from i have last_take: "last (take i t) = t ! (i - 1)"
      by (subst last_conv_nth) auto
    ultimately show "0x80 \<le> (byte (last (take i t)) :: nat)"
      using last_take by auto
  qed
  assume s: "s \<noteq> []" "byte (last s) < (0x80::nat)"
  show ?thesis unfolding whole_def
  proof (intro ballI allI impI notI)
    fix t i assume a: "t \<in> set ws_tokens" "0 < i \<and> i < length t" "suffix (take i t) s"
    then have "take i t \<noteq> []" by auto
    with a(3) have "last s = last (take i t)" by (auto simp: suffix_def)
    with tok a(1,2) s(2) show False by fastforce
  qed
qed

lemma lead_ok_append:
  assumes "lead_ok v" "v \<noteq> []" "whole v"
  shows "lead_ok (v @ y)"
  unfolding lead_ok_def
proof (intro ballI notI)
  fix t assume t: "t \<in> set ws_tokens" and "prefix t (v @ y)"
  then have "prefix t v \<or> (\<exists>u. t = v @ u \<and> u \<noteq> [])"
    by (auto simp: prefix_append)
  with assms(1) t obtain u where u: "t = v @ u" "u \<noteq> []" by (auto simp: lead_ok_def)
  then have "take (length v) t = v" "0 < length v \<and> length v < length t" using assms(2) by auto
  with t assms(3) show False unfolding whole_def by (metis suffix_order.refl)
qed

lemma trim_left_append_ws: "trim_left v = [] \<Longrightarrow> trim_left (v @ y) = trim_left y"
  by (simp add: trim_left_empty_iff trim_left_ws_append)

lemma trim_left_append:
  assumes "trim_left v \<noteq> []" "whole v"
  shows "trim_left (v @ y) = trim_left v @ y"
proof -
  obtain w where w: "ws w" "v = w @ trim_left v" "lead_ok (trim_left v)"
    using trim_left_split by blast
  from w(2) assms(2) have "whole (trim_left v)"
    by (metis suffix_def whole_suffix)
  with w(3) assms(1) have "lead_ok (trim_left v @ y)" by (intro lead_ok_append)
  with w(1) have "trim_left (w @ trim_left v @ y) = trim_left v @ y" by (rule trim_left_eqI)
  with w(2) show ?thesis by (metis append_assoc)
qed

lemma end_ok_append:
  assumes "end_ok v" "v \<noteq> []" "whole u \<or> \<not> cont_byte (hd v)"
  shows "end_ok (u @ v)"
  unfolding end_ok_def
proof (intro ballI notI)
  fix t assume t: "t \<in> set ws_tokens" and "suffix t (u @ v)"
  then consider "suffix t v" | i where "0 < i" "i \<le> length t" "suffix (take i t) u" "v = drop i t"
    by (auto dest: suffix_append_cases)
  then show False
  proof cases
    case 1
    with assms(1) t show False by (auto simp: end_ok_def)
  next
    case 2
    with assms(2) have i: "0 < i" "i < length t" by auto
    from ws_token_shape [OF t] i 2(4) have "cont_byte (hd v)"
      by (auto simp: less_Suc_eq numeral_2_eq_2)
    with assms(3) t 2(3) i show False by (auto simp: whole_def)
  qed
qed

lemma trim_right_append:
  assumes "end_ok u" "whole u \<or> v = [] \<or> \<not> cont_byte (hd v)"
  shows "trim_right (u @ v) = u @ trim_right v"
proof -
  obtain w where w: "ws w" "v = trim_right v @ w" "end_ok (trim_right v)"
    using trim_right_split by blast
  have "end_ok (u @ trim_right v)"
  proof (cases "trim_right v = []")
    case True
    with assms(1) show ?thesis by simp
  next
    case False
    with w(2) have "v \<noteq> []" "hd v = hd (trim_right v)" by (metis append_is_Nil_conv, metis hd_append2)
    with False w(3) assms(2) show ?thesis by (auto intro: end_ok_append)
  qed
  with w(1) have "trim_right ((u @ trim_right v) @ w) = u @ trim_right v" by (rule trim_right_eqI)
  with w(2) show ?thesis by (metis append_assoc)
qed

lemma end_ok_trim_right [simp]: "end_ok (trim_right s)"
  using trim_right_split by blast

lemma lead_ok_trim_left [simp]: "lead_ok (trim_left s)"
  using trim_left_split by blast

lemma trim_left_idem [simp]: "trim_left (trim_left s) = trim_left s"
  by (simp add: trim_left_lead_ok)

lemma trim_right_idem [simp]: "trim_right (trim_right s) = trim_right s"
  by (simp add: trim_right_end_ok)

lemma prefix_trim_right: "prefix (trim_right s) s"
  using trim_right_split [of s] by (auto simp: prefix_def)

lemma suffix_trim_left: "suffix (trim_left s) s"
  using trim_left_split [of s] by (auto simp: suffix_def)

lemma length_trim_right: "length (trim_right s) \<le> length s"
  by (intro prefix_length_le prefix_trim_right)

lemma length_trim_left: "length (trim_left s) \<le> length s"
  by (intro suffix_length_le suffix_trim_left)

section \<open>Fields\<close>

text \<open>\<^verbatim>\<open>strings.Fields\<close>: the maximal runs of non-space characters.\<close>

lemma space_index_le: "space_index s \<le> length s"
proof (induction s rule: space_index.induct)
  case (1 s)
  then show ?case
    using decode_rune_size_pos [of s] by (auto simp: space_index.simps [of s])
qed

lemma space_index_pos: "trim_left s = s \<Longrightarrow> s \<noteq> [] \<Longrightarrow> 0 < space_index s"
  using decode_rune_size_pos [of s] suffix_trim_left [of "drop (snd (decode_rune s)) s"]
  by (auto simp: space_index.simps [of s] trim_left.simps [of s] dest: suffix_length_le split: if_splits)

function fields :: "string \<Rightarrow> string list" where
  "fields s =
     (let t = trim_left s in
      if t = [] then [] else take (space_index t) t # fields (drop (space_index t) t))"
  by pat_completeness auto
termination
proof (relation "measure length", simp, unfold in_measure)
  fix s t assume t: "t = trim_left s" "t \<noteq> []"
  then have "0 < space_index t" by (intro space_index_pos) simp_all
  moreover have "length t \<le> length s" using t length_trim_left by simp
  ultimately show "length (drop (space_index t) t) < length s" using t(2) by (cases t) auto
qed

declare fields.simps [simp del]

end
