(* ===== verification/Streaming.thy ===== *)
theory Streaming
  imports Trimming
begin

text \<open>
  The machinery the streaming parsers share: the helpers \<^verbatim>\<open>overlap\<close>, \<^verbatim>\<open>splitAtTag\<close> and
  \<^verbatim>\<open>trailingWhitespaceLen\<close> of model/parsers/parsers.go with their laws, and two
  interfaces. The locale \<open>eater\<close> is the loop every parser runs over its buffer (an
  \<^verbatim>\<open>eat\<close> step that emits events and says whether to go on, and its repetition); the
  locale \<open>incremental\<close> adds the law that makes such a parser independent of how its
  input is cut into chunks.
\<close>

section \<open>The helpers of model/parsers/parsers.go\<close>

text \<open>The loop of \<^verbatim>\<open>overlap\<close>, counting down from \<open>i\<close>, and the function.\<close>

fun overlap_from :: "string \<Rightarrow> string \<Rightarrow> nat \<Rightarrow> nat" where
  "overlap_from s delim 0 = 0"
| "overlap_from s delim (Suc i) =
     (if has_suffix s (take (Suc i) delim) then Suc i else overlap_from s delim i)"

definition overlap :: "string \<Rightarrow> string \<Rightarrow> nat" where
  "overlap s delim = overlap_from s delim (min (length delim) (length s))"

text \<open>
  \<^verbatim>\<open>splitAtTag\<close> takes the builder's contents and returns the part before the tag, the
  part after it and the builder's new contents.
\<close>

definition split_at_tag :: "string \<Rightarrow> string \<Rightarrow> bool \<Rightarrow> string \<times> string \<times> string" where
  "split_at_tag sb tag trim_after =
     (case splitn2 sb tag of
        [b, a] \<Rightarrow> (let after = (if trim_after then trim_left a else a)
                   in (trim_right b, after, after))
      | b # _ \<Rightarrow> (b, [], [])
      | [] \<Rightarrow> ([], [], []))"

function trailing_ws_len :: "string \<Rightarrow> nat" where
  "trailing_ws_len remaining =
     (if remaining = [] then 0
      else case decode_last_rune remaining of (r, sz) \<Rightarrow>
        if r = rune_error \<and> sz = 1 then 0
        else if \<not> is_space r then 0
        else sz + trailing_ws_len (take (length remaining - sz) remaining))"
  by pat_completeness auto
termination
proof (relation "measure length", simp, unfold in_measure)
  fix s :: string and x r n
  assume "s \<noteq> []" "(r, n) = decode_last_rune s"
  then have "0 < n" "n \<le> length s"
    using decode_last_rune_size [of s] by (metis snd_conv)+
  then show "length (take (length s - n) s) < length s" by simp
qed

declare trailing_ws_len.simps [simp del]

section \<open>Laws of the helpers\<close>

lemma overlap_from_le: "overlap_from s d n \<le> n"
  by (induction s d n rule: overlap_from.induct) auto

lemma overlap_le: "overlap s d \<le> length s" "overlap s d \<le> length d"
  using overlap_from_le [of s d "min (length d) (length s)"] by (auto simp: overlap_def)

lemma overlap_from_suffix: "suffix (take (overlap_from s d n) d) s"
  by (induction s d n rule: overlap_from.induct) (auto simp: has_suffix_def)

lemma overlap_suffix: "suffix (take (overlap s d) d) s"
  by (simp add: overlap_def overlap_from_suffix)

lemma overlap_from_greatest:
  "overlap_from s d n < j \<Longrightarrow> j \<le> n \<Longrightarrow> \<not> suffix (take j d) s"
  by (induction s d n rule: overlap_from.induct)
    (auto simp: has_suffix_def le_Suc_eq split: if_splits)

lemma overlap_greatest:
  "overlap s d < j \<Longrightarrow> j \<le> length d \<Longrightarrow> j \<le> length s \<Longrightarrow> \<not> suffix (take j d) s"
  using overlap_from_greatest [of s d "min (length d) (length s)" j] by (simp add: overlap_def)

lemma overlap_eqI:
  assumes "j \<le> length d" "suffix (take j d) s"
    and "\<And>i. j < i \<Longrightarrow> i \<le> length d \<Longrightarrow> i \<le> length s \<Longrightarrow> \<not> suffix (take i d) s"
  shows "overlap s d = j"
proof -
  from assms(1,2) have "j \<le> length s" by (auto dest: suffix_length_le)
  with assms overlap_le overlap_suffix overlap_greatest show ?thesis
    by (metis nat_neq_iff)
qed

lemma overlap_drop: "drop (length s - overlap s d) s = take (overlap s d) d"
proof -
  from overlap_suffix [of s d] obtain u where "s = u @ take (overlap s d) d"
    by (auto simp: suffix_def)
  moreover have "length (take (overlap s d) d) = overlap s d" using overlap_le by simp
  ultimately show ?thesis by (metis append_eq_conv_conj diff_add_inverse2 length_append)
qed

lemma trailing_ws_len_eq: "trailing_ws_len s = length s - length (trim_right s)"
proof (induction s rule: trailing_ws_len.induct)
  case (1 s)
  show ?case
  proof (cases "s = [] \<or> \<not> is_space (fst (decode_last_rune s))")
    case True
    then show ?thesis
      by (auto simp: trailing_ws_len.simps [of s] trim_right.simps [of s] split: prod.splits)
  next
    case False
    obtain r n where rn: "decode_last_rune s = (r, n)" by fastforce
    with False have r: "is_space r" "r \<noteq> rune_error" "s \<noteq> []"
      by (auto simp: is_space_def white_space_def rune_error_def)
    have n: "n \<le> length s" using decode_last_rune_size [of s] r rn by simp
    have "trailing_ws_len s = n + trailing_ws_len (take (length s - n) s)"
      using rn r by (simp add: trailing_ws_len.simps [of s])
    also have "\<dots> = n + (length s - n - length (trim_right (take (length s - n) s)))"
      using "1.IH" [OF r(3) rn [symmetric]] r by simp
    also have "trim_right (take (length s - n) s) = trim_right s"
      using rn r by (simp add: trim_right.simps [of s])
    finally show ?thesis
      using n length_trim_right [of "take (length s - n) s"] rn r
      by (simp add: trim_right.simps [of s])
  qed
qed

lemma take_trailing_ws: "take (length s - trailing_ws_len s) s = trim_right s"
proof -
  have "take (length (trim_right s)) s = trim_right s"
    using prefix_trim_right [of s] by (metis append_eq_conv_conj prefixE)
  then show ?thesis using length_trim_right [of s] by (simp add: trailing_ws_len_eq)
qed

lemma split_at_tag_found:
  "index sb tag = Some i \<Longrightarrow> split_at_tag sb tag tr =
     (trim_right (take i sb),
      (if tr then trim_left (drop (i + length tag) sb) else drop (i + length tag) sb),
      (if tr then trim_left (drop (i + length tag) sb) else drop (i + length tag) sb))"
  by (simp add: split_at_tag_def splitn2_def Let_def)

text \<open>A tag is not found where its first character does not occur.\<close>

lemma index_skip: "hd tag \<notin> set x \<Longrightarrow> tag \<noteq> [] \<Longrightarrow> index (x @ s) tag = map_option ((+) (length x)) (index s tag)"
proof (induction x)
  case Nil
  then show ?case by (cases "index s tag") simp_all
next
  case (Cons c x)
  then have "\<not> prefix tag (c # x @ s)" by (cases tag) auto
  with Cons show ?case by (cases "index s tag") simp_all
qed

lemma index_here: "index (tag @ s) tag = Some 0"
  by (rule index_SomeI) simp_all

lemma index_fresh: "hd tag \<notin> set x \<Longrightarrow> tag \<noteq> [] \<Longrightarrow> index (x @ tag @ s) tag = Some (length x)"
  by (simp add: index_skip index_here)

lemma trim_left_ascii: "byte c < (0x80 :: nat) \<Longrightarrow> \<not> is_space (byte c) \<Longrightarrow> trim_left (c # s) = c # s"
  by (simp add: trim_left.simps [of "c # s"] decode_rune.simps)

text \<open>Cutting a tag off shortens the text.\<close>

lemma drop_trim_shorter:
  assumes "index b t = Some i" "0 < length t"
  shows "length (trim_left (drop (i + (length t + k)) b)) < length b"
proof -
  have "length (trim_left (drop (i + (length t + k)) b)) \<le> length b - (i + (length t + k))"
    using length_trim_left [of "drop (i + (length t + k)) b"] by simp
  with index_le [OF assms(1)] assms(2) show ?thesis by linarith
qed

lemma drop_tag_shorter:
  assumes "index b t = Some i" "0 < length t"
  shows "length b - (i + length t) < length b"
  using index_le [OF assms(1)] assms(2) by linarith

section \<open>Scanning for a tag over chunk boundaries\<close>

text \<open>
  Text before \<open>n\<close> can be released when no tag can start there, whatever input follows.
  The buffer less its longest overlap with a tag is safe for that tag.
\<close>

definition safe_cut :: "nat \<Rightarrow> string \<Rightarrow> string \<Rightarrow> bool" where
  "safe_cut n w tag \<longleftrightarrow> n \<le> length w \<and> (\<forall>j < n. \<forall>y. \<not> prefix tag (drop j w @ y))
     \<and> n \<le> length w - overlap w tag"

lemma safe_cutI:
  assumes "index w tag = None" "n \<le> length w - overlap w tag"
  shows "safe_cut n w tag"
  unfolding safe_cut_def
proof (intro conjI allI impI notI)
  fix j y assume j: "j < n" and p: "prefix tag (drop j w @ y)"
  then have "prefix tag (drop j w) \<or> (\<exists>u. tag = drop j w @ u)"
    by (auto simp: prefix_append)
  moreover have "\<not> prefix tag (drop j w)" using assms j by (auto simp: index_None_iff)
  ultimately obtain u where u: "tag = drop j w @ u" by blast
  then have "take (length w - j) tag = drop j w" by simp
  then have "suffix (take (length w - j) tag) w" by (simp add: suffix_drop)
  moreover have "overlap w tag < length w - j" using j assms(2) by simp
  moreover have "length w - j \<le> length tag" using u by simp
  ultimately show False using overlap_greatest [of w tag "length w - j"] by simp
qed (use assms(2) in auto)

lemma index_drop:
  assumes "\<And>j. j < n \<Longrightarrow> \<not> prefix tag (drop j z)" "n \<le> length z"
  shows "index z tag = map_option ((+) n) (index (drop n z) tag)"
proof (cases "index (drop n z) tag")
  case None
  have "\<not> prefix tag (drop j z)" if "j \<le> length z" for j
  proof (cases "j < n")
    case False
    then have "drop j z = drop (j - n) (drop n z)" by simp
    with None that False show ?thesis by (metis diff_le_mono index_None_iff length_drop)
  qed (rule assms(1))
  then have "index z tag = None" by (simp add: index_None_iff)
  with None show ?thesis by simp
next
  case (Some i)
  have "index z tag = Some (n + i)"
  proof (rule index_SomeI)
    show "prefix tag (drop (n + i) z)" using index_Some_prefix [OF Some] by (simp add: add.commute)
    show "n + i \<le> length z" using index_le [OF Some] assms(2) by simp
    fix j assume j: "j < n + i"
    show "\<not> prefix tag (drop j z)"
    proof (cases "j < n")
      case False
      with j have "\<not> prefix tag (drop (j - n) (drop n z))" by (intro index_Some_first [OF Some]) simp
      with False show ?thesis by simp
    qed (rule assms(1))
  qed
  with Some show ?thesis by simp
qed

lemma index_safe_cut:
  assumes "safe_cut n w tag"
  shows "index (w @ y) tag = map_option ((+) n) (index (drop n w @ y) tag)"
proof -
  from assms have n: "n \<le> length w" by (simp add: safe_cut_def)
  have "index (w @ y) tag = map_option ((+) n) (index (drop n (w @ y)) tag)"
    using assms by (intro index_drop) (auto simp: safe_cut_def)
  with n show ?thesis by simp
qed

lemma overlap_safe_cut:
  assumes cut: "safe_cut n w tag"
  shows "overlap (w @ y) tag = overlap (drop n w @ y) tag"
proof (rule sym, rule overlap_eqI)
  let ?v = "drop n w @ y" and ?z = "w @ y"
  from cut have n: "n \<le> length w" by (simp add: safe_cut_def)
  have le: "j \<le> length ?v" if j: "suffix (take j tag) ?z" "j \<le> length tag" for j
  proof (rule ccontr)
    assume a: "\<not> j \<le> length ?v"
    from j have "j \<le> length ?z" by (auto dest: suffix_length_le)
    with a have p: "length w + length y - j < n" "length y < j" using n by auto
    let ?p = "length w + length y - j"
    from j obtain u where u: "?z = u @ take j tag" by (auto simp: suffix_def)
    then have "length u = ?p" using j(2) by (metis add_diff_cancel_right' length_append length_take min.absorb2)
    with u have "take j tag = drop ?p ?z" by (metis append_eq_conv_conj)
    then have "take j tag = drop ?p w @ y" using p n by simp
    then have "tag = drop ?p w @ y @ drop j tag" by (metis append.assoc append_take_drop_id)
    then have "take (length w - ?p) tag = drop ?p w" by (metis append_eq_conv_conj length_drop)
    then have "suffix (take (length w - ?p) tag) w" by (simp add: suffix_drop)
    moreover have "overlap w tag < length w - ?p" using cut p by (auto simp: safe_cut_def)
    moreover have "length w - ?p \<le> length tag" using j(2) p by simp
    ultimately show False using overlap_greatest by (metis diff_le_self)
  qed
  have sv: "suffix ?v ?z" by (metis append_assoc append_take_drop_id suffixI)
  show "overlap ?z tag \<le> length tag" by (rule overlap_le)
  show "suffix (take (overlap ?z tag) tag) ?v"
    by (rule suffix_length_suffix [OF overlap_suffix sv])
      (use le [OF overlap_suffix overlap_le(2)] overlap_le in simp)
  fix i assume i: "overlap ?z tag < i" "i \<le> length tag" "i \<le> length ?v"
  show "\<not> suffix (take i tag) ?v"
  proof
    assume "suffix (take i tag) ?v"
    with sv have "suffix (take i tag) ?z" by (blast intro: suffix_order.trans)
    moreover from i(3) have "i \<le> length ?z" by simp
    ultimately show False using overlap_greatest [OF i(1,2)] by simp
  qed
qed

lemma cut_take: "n \<le> length b \<Longrightarrow> take (n + k) (b @ y) = take n b @ take k (drop n b @ y)"
  by (simp only: take_add) simp

lemma cut_drop: "n \<le> length b \<Longrightarrow> drop (n + k) (b @ y) = drop k (drop n b @ y)"
  by (simp add: add.commute flip: drop_drop)

lemma first_free: "tag \<noteq> [] \<Longrightarrow> index s tag = Some i \<Longrightarrow> \<not> contains (take i s) tag"
proof
  assume t: "tag \<noteq> []" and i: "index s tag = Some i" and "contains (take i s) tag"
  then obtain j where j: "index (take i s) tag = Some j" by (auto simp: contains_def)
  from index_append_left [OF j, of "drop i s"] i have "j = i" by simp
  with index_le [OF j] index_le [OF i] t show False by simp
qed

lemma contains_prefix: "prefix u s \<Longrightarrow> contains u tag \<Longrightarrow> contains s tag"
  by (auto simp: prefix_def contains_append_left)

lemma trim_free: "\<not> contains s tag \<Longrightarrow> \<not> contains (trim_right s) tag"
  using contains_prefix prefix_trim_right by blast

section \<open>Withholding an ambiguous end\<close>

text \<open>
  The fragment the parsers share when no tag is complete: the last \<open>k\<close> bytes may begin a
  tag, and the white space before them belongs to the tag's surroundings if they do.
  Everything before is released, the rest stays in the buffer.
\<close>

definition withhold :: "string \<Rightarrow> nat \<Rightarrow> string \<times> string" where
  "withhold acc overlapLen =
     (let beforePartialTag = take (length acc - overlapLen) acc;
          ambiguousStart = length beforePartialTag - trailing_ws_len beforePartialTag
      in (take ambiguousStart acc, drop ambiguousStart acc))"

lemma withhold_eq:
  "withhold b k = (let u = trim_right (take (length b - k) b) in (u, drop (length u) b))"
proof -
  let ?p = "take (length b - k) b"
  have "length ?p - trailing_ws_len ?p = length (trim_right ?p)"
    using length_trim_right [of ?p] by (simp add: trailing_ws_len_eq)
  moreover have "take (length (trim_right ?p)) b = trim_right ?p"
    using prefix_order.trans [OF prefix_trim_right [of ?p] take_is_prefix [of "length b - k" b]]
    by (metis append_eq_conv_conj prefixE)
  ultimately show ?thesis by (simp add: withhold_def Let_def)
qed

lemma withhold_append [simp]: "fst (withhold b k) @ snd (withhold b k) = b"
  by (simp add: withhold_def Let_def)

lemma withhold_0: "withhold b 0 = (trim_right b, drop (length (trim_right b)) b)"
  by (simp add: withhold_eq Let_def)

text \<open>The released part is trimmed, and what is kept does not start inside a character.\<close>

lemma ws_hd: "ws w \<Longrightarrow> w \<noteq> [] \<Longrightarrow> \<not> cont_byte (hd w)"
proof -
  have tok: "t \<in> set ws_tokens \<Longrightarrow> \<not> cont_byte (hd t)" for t
    using ws_token_shape [of t] by auto
  have "set ts \<subseteq> set ws_tokens \<Longrightarrow> concat ts \<noteq> [] \<Longrightarrow> \<not> cont_byte (hd (concat ts))" for ts
    using tok ws_token_nonempty by (induction ts) (auto simp: hd_append)
  then show "ws w \<Longrightarrow> w \<noteq> [] \<Longrightarrow> ?thesis" by (auto simp: ws_def)
qed

definition tag_start :: "string \<Rightarrow> nat \<Rightarrow> bool" where
  "tag_start b k \<longleftrightarrow> k \<le> length b \<and> (0 < k \<longrightarrow> \<not> cont_byte (b ! (length b - k)))"

lemma tag_start_overlap:
  assumes "0 < overlap b tag \<Longrightarrow> \<not> cont_byte (hd tag)"
  shows "tag_start b (overlap b tag)"
  unfolding tag_start_def
proof (intro conjI impI)
  assume "0 < overlap b tag"
  moreover have "b ! (length b - overlap b tag) = hd (drop (length b - overlap b tag) b)"
    using calculation overlap_le(1) [of b tag] by (intro hd_drop_conv_nth [symmetric]) simp
  moreover have "drop (length b - overlap b tag) b = take (overlap b tag) tag" by (rule overlap_drop)
  ultimately show "\<not> cont_byte (b ! (length b - overlap b tag))"
    using assms by simp
qed (rule overlap_le)

lemma tag_start_max: "tag_start b k \<Longrightarrow> tag_start b l \<Longrightarrow> tag_start b (max k l)"
  by (simp add: max_def)

lemma tag_start_0 [simp]: "tag_start b 0"
  by (simp add: tag_start_def)

lemma withhold_kept:
  assumes "tag_start b k" "withhold b k = (u, h)"
  shows "end_ok u" "b = u @ h" "h = [] \<or> \<not> cont_byte (hd h)" "length u \<le> length b - k"
proof -
  let ?p = "take (length b - k) b"
  from assms(2) have u: "u = trim_right ?p" and h: "h = drop (length u) b"
    by (auto simp: withhold_eq Let_def)
  show "end_ok u" by (simp add: u)
  show le: "length u \<le> length b - k" using length_trim_right [of ?p] by (simp add: u)
  show b: "b = u @ h" using withhold_append [of b k] assms(2) by simp
  obtain w where w: "ws w" "?p = u @ w" using trim_right_split [of ?p] u by auto
  have "b = ?p @ drop (length b - k) b" by simp
  then have hw: "h = w @ drop (length b - k) b" using w(2) b by (metis append_assoc same_append_eq)
  show "h = [] \<or> \<not> cont_byte (hd h)"
  proof (cases "w = []")
    case False
    with hw w(1) ws_hd show ?thesis by simp
  next
    case True
    then show ?thesis using hw assms(1)
      by (cases "k = 0") (auto simp: tag_start_def hd_drop_conv_nth)
  qed
qed

text \<open>
  After input \<open>y\<close>, scanning the whole of \<open>b @ y\<close> and scanning what was kept agree: the
  tag is found at the same place, and trimming and withholding cut at the same place.
\<close>

lemma withhold_scan:
  assumes "index b tag = None" "overlap b tag \<le> k" "tag_start b k" "withhold b k = (u, h)"
  shows "index (b @ y) tag = map_option ((+) (length u)) (index (h @ y) tag)"
    and "overlap (b @ y) tag = overlap (h @ y) tag"
proof -
  note kept = withhold_kept [OF assms(3,4)]
  have cut: "safe_cut (length u) b tag"
    using assms(1,2) kept(4) by (intro safe_cutI) simp_all
  have "h = drop (length u) b" using kept(2) by simp
  with index_safe_cut [OF cut] overlap_safe_cut [OF cut]
  show "index (b @ y) tag = map_option ((+) (length u)) (index (h @ y) tag)"
    "overlap (b @ y) tag = overlap (h @ y) tag" by simp_all
qed

lemma withhold_trim:
  assumes "whole b" "tag_start b k" "withhold b k = (u, h)"
  shows "trim_right (take (length u + i) (b @ y)) = u @ trim_right (take i (h @ y))"
proof -
  note kept = withhold_kept [OF assms(2,3)]
  have t: "take (length u + i) (b @ y) = u @ take i (h @ y)" using kept(2) by simp
  have "whole u \<or> take i (h @ y) = [] \<or> \<not> cont_byte (hd (take i (h @ y)))"
  proof (cases "h = []")
    case True
    with kept(2) assms(1) show ?thesis by simp
  next
    case False
    with kept(3) show ?thesis by (cases i) auto
  qed
  with kept(1) show ?thesis unfolding t by (rule trim_right_append)
qed

lemma withhold_again:
  assumes "whole b" "tag_start b k" "withhold b k = (u, h)" "l \<le> length (h @ y)"
  shows "withhold (b @ y) l = (u @ fst (withhold (h @ y) l), snd (withhold (h @ y) l))"
proof -
  note kept = withhold_kept [OF assms(2,3)]
  let ?i = "length (h @ y) - l"
  have "length (b @ y) - l = length u + ?i" using kept(2) assms(4) by simp
  then have "trim_right (take (length (b @ y) - l) (b @ y)) = u @ trim_right (take ?i (h @ y))"
    by (simp only: withhold_trim [OF assms(1-3)])
  then show ?thesis using kept(2) by (simp add: withhold_eq Let_def)
qed

lemma withhold_free: "\<not> contains b tag \<Longrightarrow> withhold b k = (u, h) \<Longrightarrow> \<not> contains u tag"
  by (metis contains_prefix fst_conv prefixI withhold_append)

lemma withhold_whole: "whole b \<Longrightarrow> withhold b k = (u, h) \<Longrightarrow> whole h"
  by (metis snd_conv suffixI whole_suffix withhold_append)

text \<open>Cutting and trimming keep a subsequence.\<close>

lemma subseq_trim_right: "subseq (trim_right s) s"
  using prefix_trim_right by (rule prefix_imp_subseq)

lemma subseq_trim_left: "subseq (trim_left s) s"
  using suffix_trim_left by (rule suffix_imp_subseq)

lemma subseq_trimming:
  "subseq x (trim_right s) \<Longrightarrow> subseq x s" "subseq x (trim_left s) \<Longrightarrow> subseq x s"
  using subseq_order.trans subseq_trim_left subseq_trim_right by blast+

lemma subseq_drop: "subseq (drop n s) s"
  by (metis append_take_drop_id list_emb_append2 subseq_order.refl)

lemma subseq_parts:
  assumes "subseq x (take i b)" "subseq y (drop (i + k) b)"
  shows "subseq (x @ y) b"
proof -
  have "subseq y (drop i b)"
    using assms(2) subseq_drop [of k "drop i b"] by (metis add.commute drop_drop subseq_order.trans)
  with assms(1) have "subseq (x @ y) (take i b @ drop i b)" by (rule list_emb_append_mono)
  then show ?thesis by simp
qed

lemma subseq_cut:
  "subseq (trim_right (take i b) @ drop (i + k) b) b"
  "subseq (trim_right (take i b) @ trim_left (drop (i + k) b)) b"
  "subseq (take i b @ drop (i + k) b) b"
  by (rule subseq_parts [where i = i and k = k],
      simp_all only: subseq_trim_left subseq_trim_right subseq_order.refl)+

lemma subseq_withhold: "withhold b k = (u, h) \<Longrightarrow> subseq (u @ h) b"
  using withhold_append [of b k] by simp

section \<open>The first of two tags\<close>

text \<open>Which of two tags comes first in a text, and where.\<close>

datatype which_tag = NoTag | First nat | Second nat

definition scan2 :: "string \<Rightarrow> string \<Rightarrow> string \<Rightarrow> which_tag" where
  "scan2 b T U = (case (index b T, index b U) of
     (None, None) \<Rightarrow> NoTag
   | (Some i, None) \<Rightarrow> First i
   | (None, Some j) \<Rightarrow> Second j
   | (Some i, Some j) \<Rightarrow> if j < i then Second j else First i)"

fun shift_tag :: "nat \<Rightarrow> which_tag \<Rightarrow> which_tag" where
  "shift_tag n NoTag = NoTag"
| "shift_tag n (First i) = First (n + i)"
| "shift_tag n (Second i) = Second (n + i)"

text \<open>Neither tag can begin inside the other.\<close>

definition apart :: "string \<Rightarrow> string \<Rightarrow> bool" where
  "apart T U \<longleftrightarrow> T \<noteq> [] \<and> U \<noteq> [] \<and> hd U \<notin> set (tl T) \<and> hd T \<notin> set (tl U)
     \<and> \<not> prefix U T \<and> \<not> prefix T U \<and> \<not> cont_byte (hd T) \<and> \<not> cont_byte (hd U)"

lemma index_later:
  assumes "U \<noteq> []" "hd U \<notin> set (tl T)" "\<not> prefix U T"
    and b: "index b T = None" "index b U = Some i" and j: "index (b @ y) T = Some j"
  shows "i < j"
proof (rule ccontr)
  assume "\<not> i < j"
  then have ji: "j \<le> i" by simp
  have le: "i + length U \<le> length b" using b(2) by (rule index_le)
  have pT: "prefix T (drop j b @ y)" using index_Some_prefix [OF j] ji le by simp
  have pU: "prefix U (drop i b)" using index_Some_prefix [OF b(2)] .
  have "\<not> prefix T (drop j b)" using b(1) ji le by (auto simp: index_None_iff)
  with pT obtain u where u: "T = drop j b @ u" by (auto simp: prefix_append)
  have lt: "i - j < length (drop j b)" using ji le assms(1) by (cases U) auto
  have "T ! (i - j) = b ! i" using u lt ji by (simp add: nth_append)
  moreover have "b ! i = hd (drop i b)" using lt ji by (intro hd_drop_conv_nth [symmetric]) simp
  moreover have "hd (drop i b) = hd U" using pU assms(1) by (auto elim!: prefixE)
  ultimately have hd: "T ! (i - j) = hd U" by simp
  show False
  proof (cases "i = j")
    case True
    with pU u have "prefix U T" by (simp add: prefix_prefix)
    with assms(3) show False by blast
  next
    case False
    with ji have k: "i - j = Suc (i - j - 1)" by simp
    from lt u have "i - j < length T" by simp
    then have "T ! (i - j) = tl T ! (i - j - 1)" "i - j - 1 < length (tl T)"
      using k by (metis length_tl nth_tl Suc_less_eq2 diff_Suc_1, metis k length_tl diff_less_mono One_nat_def le_add1 plus_1_eq_Suc)
    with hd assms(2) show False by (metis nth_mem)
  qed
qed

lemma scan2_append:
  assumes "apart T U" "scan2 b T U \<noteq> NoTag"
  shows "scan2 (b @ y) T U = scan2 b T U"
proof -
  note ap = assms(1) [unfolded apart_def]
  show ?thesis
  proof (cases "index b T")
    case None
    then obtain j where j: "index b U = Some j" using assms(2) by (auto simp: scan2_def split: option.splits)
    show ?thesis
      using index_later [of U T b j y] ap None j index_append_left [OF j, of y]
      by (auto simp: scan2_def split: option.splits)
  next
    case (Some i)
    note T = Some index_append_left [OF Some, of y]
    show ?thesis
    proof (cases "index b U")
      case None
      show ?thesis using index_later [of T U b i y] ap None T
        by (fastforce simp: scan2_def split: option.splits)
    next
      case (Some j)
      then show ?thesis using T index_append_left [OF Some, of y] by (simp add: scan2_def)
    qed
  qed
qed

lemma scan2_le:
  "scan2 b T U = First i \<Longrightarrow> index b T = Some i"
  "scan2 b T U = Second i \<Longrightarrow> index b U = Some i"
  by (auto simp: scan2_def split: option.splits if_splits)

lemma scan2_withhold:
  assumes ap: "apart T U" and "scan2 b T U = NoTag"
    and k: "k = max (overlap b T) (overlap b U)" and "withhold b k = (u, h)"
  shows "tag_start b k"
    and "scan2 (b @ y) T U = shift_tag (length u) (scan2 (h @ y) T U)"
    and "max (overlap (b @ y) T) (overlap (b @ y) U) = max (overlap (h @ y) T) (overlap (h @ y) U)"
proof -
  have n: "index b T = None" "index b U = None"
    using assms(2) by (auto simp: scan2_def split: option.splits if_splits)
  show t: "tag_start b k"
    unfolding k using ap by (intro tag_start_max tag_start_overlap) (simp_all add: apart_def)
  have "overlap b T \<le> k" "overlap b U \<le> k" by (simp_all add: k)
  note w = withhold_scan [OF n(1) this(1) t assms(4), of y] withhold_scan [OF n(2) this(2) t assms(4), of y]
  show "scan2 (b @ y) T U = shift_tag (length u) (scan2 (h @ y) T U)"
    using w by (auto simp: scan2_def split: option.splits)
  show "max (overlap (b @ y) T) (overlap (b @ y) U) = max (overlap (h @ y) T) (overlap (h @ y) U)"
    using w by simp
qed

lemma scan2_free:
  assumes "apart T U"
  shows "scan2 b T U = First i \<or> scan2 b T U = Second i \<Longrightarrow>
    \<not> contains (trim_right (take i b)) T \<and> \<not> contains (trim_right (take i b)) U"
proof -
  have tags: "T \<noteq> []" "U \<noteq> []" using assms by (auto simp: apart_def)
  have before: "index (take i b) V = None" if "index b V = None \<or> (\<exists>j \<ge> i. index b V = Some j)" "V \<noteq> []" for V
  proof (rule ccontr)
    assume "index (take i b) V \<noteq> None"
    then obtain j where j: "index (take i b) V = Some j" by blast
    with index_append_left [OF j, of "drop i b"] index_le [OF j] that show False
      by (cases V) auto
  qed
  assume "scan2 b T U = First i \<or> scan2 b T U = Second i"
  then have "index (take i b) T = None" "index (take i b) U = None"
    using tags by (auto simp: scan2_def intro!: before split: option.splits if_splits)
  then show ?thesis using trim_free by (simp add: contains_def)
qed

lemma scan2_none: "scan2 b T U = NoTag \<Longrightarrow> \<not> contains b T \<and> \<not> contains b U"
  by (auto simp: scan2_def contains_def split: option.splits if_splits)

section \<open>The eating loop\<close>

text \<open>
  Every parser has the loop
  \<^verbatim>\<open>for keepLooping { events, keepLooping = p.eat(); all = append(all, events...) }\<close>.
  The provider of the interface shows that its step decreases a measure whenever it asks
  to go on; the clients get induction over the loop and the transfer of invariants from
  one step to the whole run.
\<close>

locale eater =
  fixes eat :: "'s \<Rightarrow> 'e list \<times> bool \<times> 's"
    and run :: "'s \<Rightarrow> 'e list \<times> 's"
    and m :: "'s \<Rightarrow> nat"
  assumes run_unfold: "run s = (case eat s of (ev, more, s1) \<Rightarrow>
      if more then (case run s1 of (all, s2) \<Rightarrow> (ev @ all, s2)) else (ev, s1))"
    and progress: "eat s = (ev, True, s1) \<Longrightarrow> m s1 < m s"
begin

lemma run_induct [case_names step]:
  assumes "\<And>s. (\<And>ev s1. eat s = (ev, True, s1) \<Longrightarrow> P s1) \<Longrightarrow> P s"
  shows "P s"
proof (induction "m s" arbitrary: s rule: less_induct)
  case less
  show ?case by (rule assms) (auto intro: less dest: progress)
qed

lemma run_stop: "eat s = (ev, False, s1) \<Longrightarrow> run s = (ev, s1)"
  by (simp add: run_unfold)

lemma run_more: "eat s = (ev, True, s1) \<Longrightarrow> run s = (ev @ fst (run s1), snd (run s1))"
  by (subst run_unfold) (simp split: prod.splits)

lemma run_invariant:
  assumes step: "\<And>s ev more s1. I s \<Longrightarrow> eat s = (ev, more, s1) \<Longrightarrow> I s1"
  shows "I s \<Longrightarrow> I (snd (run s))"
proof (induction s rule: run_induct)
  case (step s)
  obtain ev more s1 where e: "eat s = (ev, more, s1)" by (cases "eat s") auto
  with step.prems assms have "I s1" by blast
  with e step.IH show ?case by (cases more) (auto simp: run_stop run_more)
qed

lemma run_events:
  assumes step: "\<And>s ev more s1. I s \<Longrightarrow> eat s = (ev, more, s1) \<Longrightarrow> I s1 \<and> (\<forall>e \<in> set ev. Q e)"
  shows "I s \<Longrightarrow> e \<in> set (fst (run s)) \<Longrightarrow> Q e"
proof (induction s rule: run_induct)
  case (step s)
  obtain ev more s1 where e: "eat s = (ev, more, s1)" by (cases "eat s") auto
  with step.prems assms have "I s1" "\<forall>e \<in> set ev. Q e" by blast+
  with e step show ?case by (cases more) (auto simp: run_stop run_more)
qed

text \<open>A change of the state the step does not look at commutes with the loop.\<close>

lemma run_commute:
  assumes step: "\<And>s. eat (f s) = (case eat s of (ev, more, s1) \<Rightarrow> (ev, more, f s1))"
  shows "run (f s) = (fst (run s), f (snd (run s)))"
proof (induction s rule: run_induct)
  case (step s)
  obtain ev more s1 where e: "eat s = (ev, more, s1)" by (cases "eat s") auto
  with assms have f: "eat (f s) = (ev, more, f s1)" by simp
  show ?case using e f step.IH by (cases more) (simp_all add: run_stop run_more)
qed

text \<open>The loop ends: the state it leaves was reached by a step that did not ask for more.\<close>

lemma run_final: "\<exists>s0 ev. eat s0 = (ev, False, snd (run s)) \<and> suffix ev (fst (run s))"
proof (induction s rule: run_induct)
  case (step s)
  obtain ev more s1 where e: "eat s = (ev, more, s1)" by (cases "eat s") auto
  with step show ?case
    by (cases more) (auto simp: run_stop run_more intro: suffix_appendI)
qed

end

section \<open>Independence of chunk boundaries\<close>

text \<open>Feeding a list of chunks, one after the other, with all events collected.\<close>

fun feed_all :: "('s \<Rightarrow> string \<Rightarrow> 'e list \<times> 's) \<Rightarrow> 's \<Rightarrow> string list \<Rightarrow> 'e list \<times> 's" where
  "feed_all add s [] = ([], s)"
| "feed_all add s (x # xs) =
     (case add s x of (ev, s1) \<Rightarrow> case feed_all add s1 xs of (evs, s2) \<Rightarrow> (ev @ evs, s2))"

text \<open>
  \<open>push s x\<close> writes a chunk to the buffer, \<open>out\<close> is what a client sees of a list of
  events (its text, with adjacent pieces joined), \<open>ok\<close> the invariant of the states and
  chunks. The law \<open>eat_append\<close> says that a step commutes with input that arrives after it.
\<close>

locale incremental = eater eat run m
  for eat :: "'s \<Rightarrow> 'e list \<times> bool \<times> 's" and run m +
  fixes push :: "'s \<Rightarrow> string \<Rightarrow> 's"
    and out :: "'e list \<Rightarrow> 'o"
    and ok :: "'s \<Rightarrow> bool"
    and okc :: "string \<Rightarrow> bool"
  assumes push_push: "push (push s x) y = push s (x @ y)"
    and out_cong: "out a = out b \<Longrightarrow> out (c @ a) = out (c @ b)"
    and ok_push: "ok s \<Longrightarrow> okc x \<Longrightarrow> ok (push s x)"
    and ok_eat: "ok s \<Longrightarrow> eat s = (ev, more, s1) \<Longrightarrow> ok s1"
    and eat_append: "ok s \<Longrightarrow> okc y \<Longrightarrow> eat s = (ev, more, s1) \<Longrightarrow>
      out (fst (run (push s y))) = out (ev @ fst (run (push s1 y)))
      \<and> snd (run (push s y)) = snd (run (push s1 y))"
begin

lemma run_append:
  assumes "ok s" "okc y"
  shows "out (fst (run (push s y))) = out (fst (run s) @ fst (run (push (snd (run s)) y)))
    \<and> snd (run (push s y)) = snd (run (push (snd (run s)) y))"
  using assms
proof (induction s rule: run_induct)
  case (step s)
  obtain ev more s1 where e: "eat s = (ev, more, s1)" by (cases "eat s") auto
  from eat_append [OF step.prems e]
  have law: "out (fst (run (push s y))) = out (ev @ fst (run (push s1 y)))"
    "snd (run (push s y)) = snd (run (push s1 y))" by blast+
  show ?case
  proof (cases more)
    case False
    with e law show ?thesis by (simp add: run_stop)
  next
    case True
    with e have e': "eat s = (ev, True, s1)" by simp
    from ok_eat [OF step.prems(1) e] have "ok s1" .
    from step.IH [OF e' this step.prems(2)] have ih:
      "out (fst (run (push s1 y))) = out (fst (run s1) @ fst (run (push (snd (run s1)) y)))"
      "snd (run (push s1 y)) = snd (run (push (snd (run s1)) y))" by blast+
    from out_cong [OF ih(1), of ev] law ih(2) e' show ?thesis
      by (simp add: run_more)
  qed
qed

lemma ok_run: "ok s \<Longrightarrow> ok (snd (run s))"
  by (rule run_invariant) (auto intro: ok_eat)

text \<open>However the input is cut into chunks, the output and the final state are those of the
  whole input fed at once.\<close>

theorem feed_all_concat:
  assumes "ok s" "\<forall>x \<in> set xs. okc x" "xs \<noteq> []"
    and okc_append: "\<And>x y. okc x \<Longrightarrow> okc y \<Longrightarrow> okc (x @ y)"
  shows "out (fst (feed_all (\<lambda>s x. run (push s x)) s xs)) = out (fst (run (push s (concat xs))))
    \<and> snd (feed_all (\<lambda>s x. run (push s x)) s xs) = snd (run (push s (concat xs)))"
  using assms(1-3)
proof (induction xs arbitrary: s)
  case Nil
  then show ?case by simp
next
  case (Cons x xs)
  let ?add = "\<lambda>s x. run (push s x)" and ?s1 = "snd (run (push s x))"
  have ok1: "ok (push s x)" "ok ?s1" using Cons.prems by (auto intro: ok_push ok_run)
  show ?case
  proof (cases "xs = []")
    case True
    then show ?thesis by (simp split: prod.splits)
  next
    case False
    with Cons.IH [OF ok1(2)] Cons.prems(2)
    have ih: "out (fst (feed_all ?add ?s1 xs)) = out (fst (run (push ?s1 (concat xs))))"
      "snd (feed_all ?add ?s1 xs) = snd (run (push ?s1 (concat xs)))" by simp_all
    from Cons.prems(2) False have "okc (concat xs)"
    proof (induction xs)
      case (Cons z zs)
      then show ?case by (cases zs) (auto intro: okc_append)
    qed simp
    from run_append [OF ok1(1) this] out_cong [OF ih(1), of "fst (run (push s x))"] ih(2)
    show ?thesis by (simp add: push_push case_prod_beta)
  qed
qed

end

end
