(* ===== verification/Thinking.thy ===== *)
theory Thinking
  imports Streaming
begin

text \<open>
  thinking/parser.go: the parser that separates a model's thinking, written between an
  opening and a closing tag, from the answer, over a stream of chunks. The state, the
  step \<^verbatim>\<open>eat\<close> and \<^verbatim>\<open>AddContent\<close> are modelled in full; what the parser is for is the
  function \<open>thinking_spec\<close> on the whole text, and the main results say that feeding any
  chunks computes it. The package's own copy of \<^verbatim>\<open>overlap\<close> is \<^const>\<open>overlap\<close>.
\<close>

section \<open>The parser\<close>

datatype thinking_state =
    LookingForOpening
  | ThinkingStartedEatingWhitespace
  | Thinking
  | ThinkingDoneEatingWhitespace
  | ThinkingDone

fun thinking_state_String :: "thinking_state \<Rightarrow> string" where
  "thinking_state_String LookingForOpening = ''LookingForOpening''"
| "thinking_state_String ThinkingStartedEatingWhitespace = ''ThinkingStartedEatingWhitespace''"
| "thinking_state_String Thinking = ''Thinking''"
| "thinking_state_String ThinkingDoneEatingWhitespace = ''ThinkingDoneEatingWhitespace''"
| "thinking_state_String ThinkingDone = ''ThinkingDone''"

record thinking_parser =
  tp_state :: thinking_state
  OpeningTag :: string
  ClosingTag :: string
  tp_acc :: string

text \<open>
  One call of \<^verbatim>\<open>eat\<close> yields thinking text and remaining text, or panics: with an empty tag
  \<^verbatim>\<open>strings.Split\<close> may return no element, and \<^verbatim>\<open>[1:]\<close> or \<^verbatim>\<open>[0]\<close> is then out of range.
\<close>

datatype eat_out = Out (out_thinking: string) (out_remaining: string) | Panic

fun eat :: "thinking_parser \<Rightarrow> eat_out \<times> bool \<times> thinking_parser" where
  "eat s = (case tp_state s of
     LookingForOpening \<Rightarrow>
       (let trimmed = trim_left (tp_acc s) in
        if has_prefix trimmed (OpeningTag s) then
          (case split_all trimmed (OpeningTag s) of
             [] \<Rightarrow> (Panic, False, s)
           | _ # rest \<Rightarrow>
               (let after = trim_left (join (OpeningTag s) rest) in
                (Out [] [], True,
                 s\<lparr>tp_acc := after,
                   tp_state := (if after = [] then ThinkingStartedEatingWhitespace else Thinking)\<rparr>)))
        else if has_prefix (OpeningTag s) trimmed then (Out [] [], False, s)
        else if trimmed = [] then (Out [] [], False, s)
        else (Out [] (tp_acc s), False, s\<lparr>tp_state := ThinkingDone, tp_acc := []\<rparr>))
   | ThinkingStartedEatingWhitespace \<Rightarrow>
       (let trimmed = trim_left (tp_acc s) in
        if trimmed = [] then (Out [] [], False, s\<lparr>tp_acc := []\<rparr>)
        else (Out [] [], True, s\<lparr>tp_acc := trimmed, tp_state := Thinking\<rparr>))
   | Thinking \<Rightarrow>
       (let acc = tp_acc s in
        if contains acc (ClosingTag s) then
          (case split_all acc (ClosingTag s) of
             [] \<Rightarrow> (Panic, False, s)
           | thinking # rest \<Rightarrow>
               (let remaining = trim_left (join (ClosingTag s) rest) in
                (Out thinking remaining, False,
                 s\<lparr>tp_acc := [],
                   tp_state := (if remaining = [] then ThinkingDoneEatingWhitespace
                                else ThinkingDone)\<rparr>)))
        else (let overlapLen = overlap acc (ClosingTag s) in
          if 0 < overlapLen then
            (Out (take (length acc - overlapLen) acc) [], False,
             s\<lparr>tp_acc := drop (length acc - overlapLen) acc\<rparr>)
          else (Out acc [], False, s\<lparr>tp_acc := []\<rparr>)))
   | ThinkingDoneEatingWhitespace \<Rightarrow>
       (let trimmed = trim_left (tp_acc s) in
        (Out [] trimmed, False,
         s\<lparr>tp_acc := [],
           tp_state := (if trimmed \<noteq> [] then ThinkingDone else tp_state s)\<rparr>))
   | ThinkingDone \<Rightarrow> (Out [] (tp_acc s), False, s\<lparr>tp_acc := []\<rparr>))"

declare eat.simps [simp del]

text \<open>The loop of \<^verbatim>\<open>AddContent\<close>: at most two steps ask to go on.\<close>

fun thinking_rank :: "thinking_state \<Rightarrow> nat" where
  "thinking_rank LookingForOpening = 2"
| "thinking_rank ThinkingStartedEatingWhitespace = 1"
| "thinking_rank _ = 0"

lemma eat_rank: "eat s = (ev, True, s1) \<Longrightarrow> thinking_rank (tp_state s1) < thinking_rank (tp_state s)"
  by (auto simp: eat.simps Let_def split: thinking_state.splits if_splits list.splits)

function eat_loop :: "thinking_parser \<Rightarrow> eat_out list \<times> thinking_parser" where
  "eat_loop s =
     (case eat s of (ev, keepLooping, s1) \<Rightarrow>
        if keepLooping then (case eat_loop s1 of (evs, s2) \<Rightarrow> (ev # evs, s2)) else ([ev], s1))"
  by pat_completeness auto
termination
  by (relation "measure (\<lambda>s. thinking_rank (tp_state s))") (auto dest: eat_rank [OF sym])

declare eat_loop.simps [simp del]

definition AddContent :: "thinking_parser \<Rightarrow> string \<Rightarrow> ((string \<times> string) \<times> thinking_parser) option" where
  "AddContent s content =
     (case eat_loop (s\<lparr>tp_acc := tp_acc s @ content\<rparr>) of (evs, s1) \<Rightarrow>
        if Panic \<in> set evs then None
        else Some ((concat (map out_thinking evs), concat (map out_remaining evs)), s1))"

definition new_thinking_parser :: "string \<Rightarrow> string \<Rightarrow> thinking_parser" where
  "new_thinking_parser op cl =
     \<lparr>tp_state = LookingForOpening, OpeningTag = op, ClosingTag = cl, tp_acc = []\<rparr>"

section \<open>What the parser computes\<close>

text \<open>The thinking part and the rest of a text received so far.\<close>

definition thinking_spec :: "string \<Rightarrow> string \<Rightarrow> string \<Rightarrow> string \<times> string" where
  "thinking_spec op cl s =
     (let t = trim_left s in
      if prefix op t then
        (let a = trim_left (drop (length op) t) in
         case index a cl of
           Some i \<Rightarrow> (take i a, trim_left (drop (i + length cl) a))
         | None \<Rightarrow> (take (length a - overlap a cl) a, []))
      else if prefix t op then ([], [])
      else ([], s))"

section \<open>Splitting at a tag\<close>

lemma split_all_prefix:
  "op \<noteq> [] \<Longrightarrow> prefix op t \<Longrightarrow> \<exists>x rest. split_all t op = x # rest \<and> join op rest = drop (length op) t"
proof -
  assume a: "op \<noteq> []" "prefix op t"
  then have i: "index t op = Some 0" by (intro index_SomeI) simp_all
  have "split_all t op = [] # split_all (drop (length op) t) op"
    using a(1) by (simp add: split_all.simps [of t] i)
  then show ?thesis using a(1) by (simp add: join_split_all)
qed

lemma split_all_index:
  "cl \<noteq> [] \<Longrightarrow> index a cl = Some i \<Longrightarrow>
    \<exists>rest. split_all a cl = take i a # rest \<and> join cl rest = drop (i + length cl) a"
  by (simp add: split_all.simps [of a] join_split_all)

text \<open>The step, state by state, for tags that are not empty.\<close>

lemma eat_looking:
  assumes "OpeningTag s \<noteq> []" "tp_state s = LookingForOpening"
  shows "eat s = (let t = trim_left (tp_acc s) in
     if prefix (OpeningTag s) t then
       (let after = trim_left (drop (length (OpeningTag s)) t) in
        (Out [] [], True, s\<lparr>tp_acc := after,
           tp_state := (if after = [] then ThinkingStartedEatingWhitespace else Thinking)\<rparr>))
     else if prefix t (OpeningTag s) then (Out [] [], False, s)
     else (Out [] (tp_acc s), False, s\<lparr>tp_state := ThinkingDone, tp_acc := []\<rparr>))"
  using assms split_all_prefix [OF assms(1), of "trim_left (tp_acc s)"]
  by (auto simp: eat.simps Let_def has_prefix_def split: list.splits)

lemma eat_thinking:
  assumes "ClosingTag s \<noteq> []" "tp_state s = Thinking"
  shows "eat s = (let acc = tp_acc s in
     case index acc (ClosingTag s) of
       Some i \<Rightarrow> (let r = trim_left (drop (i + length (ClosingTag s)) acc) in
         (Out (take i acc) r, False, s\<lparr>tp_acc := [],
            tp_state := (if r = [] then ThinkingDoneEatingWhitespace else ThinkingDone)\<rparr>))
     | None \<Rightarrow> (let n = length acc - overlap acc (ClosingTag s) in
         (Out (take n acc) [], False, s\<lparr>tp_acc := drop n acc\<rparr>)))"
proof (cases "index (tp_acc s) (ClosingTag s)")
  case None
  with assms show ?thesis by (simp add: eat.simps Let_def contains_def)
next
  case (Some i)
  from split_all_index [OF assms(1) Some] assms(2) Some show ?thesis
    by (auto simp: eat.simps Let_def contains_def)
qed

lemma eat_no_panic: "OpeningTag s \<noteq> [] \<Longrightarrow> ClosingTag s \<noteq> [] \<Longrightarrow> fst (eat s) \<noteq> Panic"
  using split_all_nonempty
  by (auto simp: eat.simps Let_def split: thinking_state.splits list.splits)

lemma eat_tags:
  "eat s = (ev, go, s1) \<Longrightarrow> OpeningTag s1 = OpeningTag s \<and> ClosingTag s1 = ClosingTag s"
  by (auto simp: eat.simps Let_def split: thinking_state.splits if_splits list.splits)

section \<open>The loop as an instance of the eating interface\<close>

definition eat_events :: "thinking_parser \<Rightarrow> eat_out list \<times> bool \<times> thinking_parser" where
  "eat_events s = (case eat s of (ev, go, s1) \<Rightarrow> ([ev], go, s1))"

interpretation te: eater eat_events eat_loop "\<lambda>s. thinking_rank (tp_state s)"
proof (unfold_locales, goal_cases)
  case (1 s)
  show ?case by (subst eat_loop.simps) (auto simp: eat_events_def split: prod.splits)
next
  case (2 s ev s1)
  then show ?case by (auto simp: eat_events_def split: prod.splits dest: eat_rank)
qed

definition thinking_out :: "eat_out list \<Rightarrow> string \<times> string" where
  "thinking_out evs = (concat (map out_thinking evs), concat (map out_remaining evs))"

definition push_acc :: "thinking_parser \<Rightarrow> string \<Rightarrow> thinking_parser" where
  "push_acc s x = s\<lparr>tp_acc := tp_acc s @ x\<rparr>"

lemma push_acc_simps [simp]:
  "tp_state (push_acc s x) = tp_state s" "OpeningTag (push_acc s x) = OpeningTag s"
  "ClosingTag (push_acc s x) = ClosingTag s" "tp_acc (push_acc s x) = tp_acc s @ x"
  "(push_acc s x)\<lparr>tp_acc := a\<rparr> = s\<lparr>tp_acc := a\<rparr>"
  by (simp_all add: push_acc_def)

text \<open>The result of the loop: its output, joined, and the state it leaves.\<close>

definition result :: "thinking_parser \<Rightarrow> (string \<times> string) \<times> thinking_parser" where
  "result s = (thinking_out (fst (eat_loop s)), snd (eat_loop s))"

fun also_out :: "eat_out \<Rightarrow> (string \<times> string) \<times> thinking_parser \<Rightarrow> (string \<times> string) \<times> thinking_parser" where
  "also_out ev ((t, r), s) = ((out_thinking ev @ t, out_remaining ev @ r), s)"

lemma result_stop: "eat s = (ev, False, s1) \<Longrightarrow> result s = ((out_thinking ev, out_remaining ev), s1)"
  by (simp add: result_def eat_loop.simps [of s] thinking_out_def)

lemma result_more: "eat s = (ev, True, s1) \<Longrightarrow> result s = also_out ev (result s1)"
  by (simp add: result_def eat_loop.simps [of s] thinking_out_def split: prod.splits)

lemma also_out_empty [simp]: "also_out (Out [] []) p = p"
  by (cases p) (auto elim: prod.exhaust)

lemma result_done:
  "tp_state s = ThinkingDone \<Longrightarrow> result s = (([], tp_acc s), s\<lparr>tp_acc := []\<rparr>)"
  by (simp add: result_stop eat.simps)

lemma result_done_ws:
  "tp_state s = ThinkingDoneEatingWhitespace \<Longrightarrow>
    result s = (([], trim_left (tp_acc s)), s\<lparr>tp_acc := [],
       tp_state := (if trim_left (tp_acc s) \<noteq> [] then ThinkingDone else tp_state s)\<rparr>)"
  by (simp add: result_stop eat.simps Let_def)

lemma result_thinking:
  assumes "ClosingTag s \<noteq> []" "tp_state s = Thinking"
  shows "result s = (let acc = tp_acc s in
     case index acc (ClosingTag s) of
       Some i \<Rightarrow> (let r = trim_left (drop (i + length (ClosingTag s)) acc) in
         ((take i acc, r), s\<lparr>tp_acc := [],
            tp_state := (if r = [] then ThinkingDoneEatingWhitespace else ThinkingDone)\<rparr>))
     | None \<Rightarrow> (let n = length acc - overlap acc (ClosingTag s) in
         ((take n acc, []), s\<lparr>tp_acc := drop n acc\<rparr>)))"
  using eat_thinking [OF assms] by (auto simp: Let_def result_stop split: option.splits)

lemma result_thinking_none:
  assumes "ClosingTag s \<noteq> []" "tp_state s = Thinking" "index b (ClosingTag s) = None"
    "length b - overlap b (ClosingTag s) = n"
  shows "result (s\<lparr>tp_acc := b\<rparr>) = ((take n b, []), s\<lparr>tp_acc := drop n b\<rparr>)"
  using result_thinking [of "s\<lparr>tp_acc := b\<rparr>"] assms by (simp add: Let_def)

lemma result_thinking_found:
  assumes "ClosingTag s \<noteq> []" "tp_state s = Thinking" "index b (ClosingTag s) = Some i"
    "trim_left (drop (i + length (ClosingTag s)) b) = r"
  shows "result (s\<lparr>tp_acc := b\<rparr>) = ((take i b, r), s\<lparr>tp_acc := [],
     tp_state := (if r = [] then ThinkingDoneEatingWhitespace else ThinkingDone)\<rparr>)"
  using result_thinking [of "s\<lparr>tp_acc := b\<rparr>"] assms by (simp add: Let_def)

lemma result_started:
  assumes "tp_state s = ThinkingStartedEatingWhitespace"
  shows "result s = (if trim_left (tp_acc s) = [] then (([], []), s\<lparr>tp_acc := []\<rparr>)
     else result (s\<lparr>tp_acc := trim_left (tp_acc s), tp_state := Thinking\<rparr>))"
proof (cases "trim_left (tp_acc s) = []")
  case True
  with assms show ?thesis by (simp add: result_stop eat.simps)
next
  case False
  with assms have "eat s = (Out [] [], True, s\<lparr>tp_acc := trim_left (tp_acc s), tp_state := Thinking\<rparr>)"
    by (simp add: eat.simps)
  with False show ?thesis by (simp add: result_more)
qed

text \<open>After the opening tag the two states differ only in white space still to be eaten.\<close>

lemma result_started_thinking:
  assumes "ClosingTag s \<noteq> []" "OpeningTag s \<noteq> []" "tp_state s = LookingForOpening"
    and "prefix (OpeningTag s) (trim_left (tp_acc s))"
  shows "result s = result (s\<lparr>tp_acc := drop (length (OpeningTag s)) (trim_left (tp_acc s)),
     tp_state := ThinkingStartedEatingWhitespace\<rparr>)"
  using assms eat_looking [OF assms(2,3)]
  by (auto simp: Let_def result_more result_started)

section \<open>A step commutes with later input\<close>

lemma law_thinking:
  assumes tag: "ClosingTag s \<noteq> []" and st: "tp_state s = Thinking"
    and w: "whole (tp_acc s)" and e: "eat s = (ev, go, s1)"
  shows "result (push_acc s y) = also_out ev (result (push_acc s1 y))"
proof (cases "index (tp_acc s) (ClosingTag s)")
  case (Some i)
  let ?c = "ClosingTag s" and ?b = "tp_acc s"
  let ?d = "drop (i + length ?c) ?b"
  from Some e eat_thinking [OF tag st]
  have ev: "ev = Out (take i ?b) (trim_left ?d)"
    and s1: "s1 = s\<lparr>tp_acc := [],
       tp_state := (if trim_left ?d = [] then ThinkingDoneEatingWhitespace else ThinkingDone)\<rparr>"
    by (auto simp: Let_def)
  have le: "i + length ?c \<le> length ?b" using Some by (rule index_le)
  have t: "trim_left (?d @ y) = (if trim_left ?d = [] then trim_left y else trim_left ?d @ y)"
    using w by (simp add: trim_left_append_ws trim_left_append whole_drop)
  from index_append_left [OF Some, of y] tag st le
  have "result (push_acc s y) = ((take i ?b, trim_left (?d @ y)), s\<lparr>tp_acc := [],
       tp_state := (if trim_left (?d @ y) = [] then ThinkingDoneEatingWhitespace else ThinkingDone)\<rparr>)"
    by (simp add: push_acc_def result_thinking_found)
  also have "\<dots> = also_out ev (result (push_acc s1 y))"
    unfolding ev s1 t by (simp add: result_done result_done_ws)
  finally show ?thesis .
next
  case None
  let ?c = "ClosingTag s" and ?b = "tp_acc s"
  define n where "n = length ?b - overlap ?b ?c"
  define v where "v = drop n ?b @ y"
  from None e eat_thinking [OF tag st]
  have ev: "ev = Out (take n ?b) []" and s1: "s1 = s\<lparr>tp_acc := drop n ?b\<rparr>"
    by (auto simp: Let_def n_def)
  have cut: "safe_cut n ?b ?c" using None unfolding n_def by (intro safe_cutI) simp_all
  have n: "n \<le> length ?b" by (simp add: n_def)
  have vlen: "length v = length ?b - n + length y" by (simp add: v_def)
  have push: "push_acc s y = s\<lparr>tp_acc := ?b @ y\<rparr>" "push_acc s1 y = s\<lparr>tp_acc := v\<rparr>"
    by (simp_all add: push_acc_def s1 v_def)
  have idx: "index (?b @ y) ?c = map_option ((+) n) (index v ?c)"
    unfolding v_def by (rule index_safe_cut [OF cut])
  show ?thesis
  proof (cases "index v ?c")
    case None
    let ?m = "length v - overlap v ?c"
    have k: "length (?b @ y) - overlap (?b @ y) ?c = n + ?m"
      using overlap_safe_cut [OF cut, of y] overlap_le(1) [of v ?c] n vlen by (simp flip: v_def)
    have "result (push_acc s y) = ((take (n + ?m) (?b @ y), []), s\<lparr>tp_acc := drop (n + ?m) (?b @ y)\<rparr>)"
      unfolding push using idx None by (intro result_thinking_none tag st k) simp
    also have "\<dots> = ((take n ?b @ take ?m v, []), s\<lparr>tp_acc := drop ?m v\<rparr>)"
      by (simp only: cut_take [OF n] cut_drop [OF n] v_def)
    also have "\<dots> = also_out ev (result (push_acc s1 y))"
      by (simp add: push ev result_thinking_none [OF tag st None refl])
    finally show ?thesis .
  next
    case (Some i)
    have d: "drop (n + i + length ?c) (?b @ y) = drop (i + length ?c) v"
      using cut_drop [OF n, of "i + length ?c" y] by (simp only: add.assoc v_def)
    have "index (?b @ y) ?c = Some (n + i)" using idx Some by simp
    from result_thinking_found [OF tag st this refl] result_thinking_found [OF tag st Some refl]
    show ?thesis unfolding push ev d by (simp add: cut_take [OF n] v_def del: take_append)
  qed
qed

lemma acc_state_swap: "s\<lparr>tp_state := st, tp_acc := a\<rparr> = s\<lparr>tp_acc := a, tp_state := st\<rparr>"
  by (cases s) simp

lemma law_looking:
  assumes tag: "OpeningTag s \<noteq> []" "ClosingTag s \<noteq> []" and st: "tp_state s = LookingForOpening"
    and w: "whole (tp_acc s)" and e: "eat s = (ev, go, s1)"
  shows "result (push_acc s y) = also_out ev (result (push_acc s1 y))"
proof -
  let ?o = "OpeningTag s" and ?t = "trim_left (tp_acc s)"
  let ?d = "drop (length ?o) ?t"
  note look = eat_looking [OF tag(1) st, unfolded Let_def]
  have app: "?t \<noteq> [] \<Longrightarrow> trim_left (tp_acc s @ y) = ?t @ y" using w by (rule trim_left_append [rotated])
  consider (found) "prefix ?o ?t" | (partial) "\<not> prefix ?o ?t" "prefix ?t ?o"
    | (none) "\<not> prefix ?o ?t" "\<not> prefix ?t ?o" by blast
  then show ?thesis
  proof cases
    case found
    with tag(1) have t: "?t \<noteq> []" "length ?o \<le> length ?t" by (auto dest: prefix_length_le)
    from found look e have ev: "ev = Out [] []" and s1: "s1 = s\<lparr>tp_acc := trim_left ?d,
       tp_state := (if trim_left ?d = [] then ThinkingStartedEatingWhitespace else Thinking)\<rparr>" by auto
    have whole: "whole ?d" using w suffix_trim_left whole_drop whole_suffix by blast
    have "result (push_acc s y) = result (s\<lparr>tp_acc := ?d @ y, tp_state := ThinkingStartedEatingWhitespace\<rparr>)"
      using result_started_thinking [of "push_acc s y"] tag st app t found
      by (simp add: push_acc_def)
    also have "\<dots> = result (push_acc s1 y)"
      using whole unfolding s1
      by (auto simp: push_acc_def result_started trim_left_append trim_left_append_ws acc_state_swap)
    finally show ?thesis by (simp add: ev)
  next
    case partial
    with look e have "ev = Out [] []" "s1 = s" by auto
    then show ?thesis by simp
  next
    case none
    then have t: "?t \<noteq> []" by auto
    from none have "\<not> prefix ?o (?t @ y)" "\<not> prefix (?t @ y) ?o"
      by (auto simp: prefix_append dest: append_prefixD)
    with t app look eat_looking [of "push_acc s y"] none e tag st show ?thesis
      by (auto simp: Let_def result_stop result_done)
  qed
qed

lemma law_started:
  assumes st: "tp_state s = ThinkingStartedEatingWhitespace"
    and w: "whole (tp_acc s)" and e: "eat s = (ev, go, s1)"
  shows "result (push_acc s y) = also_out ev (result (push_acc s1 y))"
proof (cases "trim_left (tp_acc s) = []")
  case True
  with st e have "ev = Out [] []" "s1 = s\<lparr>tp_acc := []\<rparr>" by (auto simp: eat.simps)
  with True st show ?thesis by (simp add: result_started trim_left_append_ws push_acc_def)
next
  case False
  with st e have "ev = Out [] []" "s1 = s\<lparr>tp_acc := trim_left (tp_acc s), tp_state := Thinking\<rparr>"
    by (auto simp: eat.simps)
  with False st w show ?thesis
    by (simp add: result_started trim_left_append push_acc_def acc_state_swap)
qed

lemma law_done_ws:
  assumes st: "tp_state s = ThinkingDoneEatingWhitespace"
    and w: "whole (tp_acc s)" and e: "eat s = (ev, go, s1)"
  shows "result (push_acc s y) = also_out ev (result (push_acc s1 y))"
  using st w e
  by (cases "trim_left (tp_acc s) = []")
    (auto simp: eat.simps Let_def result_done result_done_ws trim_left_append trim_left_append_ws)

lemma eat_law:
  assumes "OpeningTag s \<noteq> []" "ClosingTag s \<noteq> []" "whole (tp_acc s)" "eat s = (ev, go, s1)"
  shows "result (push_acc s y) = also_out ev (result (push_acc s1 y))"
proof (cases "tp_state s")
  case ThinkingDone
  with assms(4) show ?thesis by (auto simp: eat.simps result_done)
qed (use assms law_looking law_started law_thinking law_done_ws in blast)+

lemma eat_whole:
  assumes "OpeningTag s \<noteq> []" "ClosingTag s \<noteq> []" "whole (tp_acc s)" "eat s = (ev, go, s1)"
  shows "whole (tp_acc s1)"
proof -
  have t: "whole (trim_left u)" if "whole u" for u
    using that suffix_trim_left by (rule whole_suffix)
  show ?thesis
  proof (cases "tp_state s")
    case LookingForOpening
    with assms eat_looking [of s] show ?thesis
      by (auto simp: Let_def t whole_drop split: if_splits)
  next
    case Thinking
    with assms eat_thinking [of s] show ?thesis
      by (auto simp: Let_def intro: whole_drop split: option.splits)
  qed (use assms in \<open>auto simp: eat.simps Let_def intro: t split: if_splits\<close>)
qed

definition thinking_ok :: "thinking_parser \<Rightarrow> bool" where
  "thinking_ok s \<longleftrightarrow> OpeningTag s \<noteq> [] \<and> ClosingTag s \<noteq> [] \<and> whole (tp_acc s)"

interpretation ti: incremental eat_events eat_loop "\<lambda>s. thinking_rank (tp_state s)"
  push_acc thinking_out thinking_ok whole
proof (unfold_locales, goal_cases)
  case (1 s x y)
  show ?case by (simp add: push_acc_def)
next
  case (2 a b c)
  then show ?case by (simp add: thinking_out_def)
next
  case (3 s x)
  then show ?case by (simp add: thinking_ok_def whole_append)
next
  case (4 s ev go s1)
  then show ?case
    by (auto simp: thinking_ok_def eat_events_def split: prod.splits dest: eat_whole eat_tags)
next
  case (5 s y ev go s1)
  then obtain o1 where o1: "ev = [o1]" "eat s = (o1, go, s1)"
    by (auto simp: eat_events_def split: prod.splits)
  with 5 eat_law have "result (push_acc s y) = also_out o1 (result (push_acc s1 y))"
    by (auto simp: thinking_ok_def)
  with o1 show ?case by (auto simp: result_def thinking_out_def)
qed

section \<open>Properties\<close>

text \<open>Feeding chunks one by one with \<^verbatim>\<open>AddContent\<close>, the outputs appended.\<close>

fun feed_content :: "thinking_parser \<Rightarrow> string list \<Rightarrow> ((string \<times> string) \<times> thinking_parser) option" where
  "feed_content s [] = Some (([], []), s)"
| "feed_content s (x # xs) =
     (case AddContent s x of
        None \<Rightarrow> None
      | Some ((t, r), s1) \<Rightarrow>
          (case feed_content s1 xs of
             None \<Rightarrow> None
           | Some ((t', r'), s2) \<Rightarrow> Some ((t @ t', r @ r'), s2)))"

lemma eat_loop_no_panic:
  assumes "thinking_ok s"
  shows "Panic \<notin> set (fst (eat_loop s))"
proof
  assume p: "Panic \<in> set (fst (eat_loop s))"
  have step: "thinking_ok s1 \<and> (\<forall>e \<in> set ev. e \<noteq> Panic)"
    if "thinking_ok s" "eat_events s = (ev, go, s1)" for s ev go s1
    using ti.ok_eat [OF that] that eat_no_panic [of s]
    by (auto simp: eat_events_def thinking_ok_def split: prod.splits)
  have "Panic \<noteq> Panic"
    by (rule te.run_events [where I = thinking_ok and Q = "\<lambda>e. e \<noteq> Panic", OF _ assms p])
      (rule step)
  then show False by blast
qed

lemma AddContent_result:
  "thinking_ok s \<Longrightarrow> whole x \<Longrightarrow> AddContent s x = Some (result (push_acc s x))"
  using eat_loop_no_panic [of "push_acc s x"] ti.ok_push [of s x]
  by (cases "eat_loop (push_acc s x)")
    (simp add: AddContent_def push_acc_def result_def thinking_out_def)

lemma feed_content_feed_all:
  "thinking_ok s \<Longrightarrow> \<forall>x \<in> set xs. whole x \<Longrightarrow>
    feed_content s xs = Some (thinking_out (fst (feed_all (\<lambda>s x. eat_loop (push_acc s x)) s xs)),
      snd (feed_all (\<lambda>s x. eat_loop (push_acc s x)) s xs))"
proof (induction xs arbitrary: s)
  case Nil
  then show ?case by (simp add: thinking_out_def)
next
  case (Cons x xs)
  then have "thinking_ok (snd (eat_loop (push_acc s x)))"
    by (intro ti.ok_run ti.ok_push) simp_all
  with Cons show ?case
    by (simp add: AddContent_result result_def thinking_out_def split: prod.splits)
qed

lemma result_spec:
  assumes "op \<noteq> []" "cl \<noteq> []" "tp_state s = LookingForOpening" "OpeningTag s = op" "ClosingTag s = cl"
  shows "fst (result s) = thinking_spec op cl (tp_acc s)"
proof -
  let ?t = "trim_left (tp_acc s)"
  note look = eat_looking [of s, unfolded Let_def]
  show ?thesis
  proof (cases "prefix op ?t")
    case True
    let ?a = "trim_left (drop (length op) ?t)"
    from True assms result_started_thinking [of s]
    have r: "result s = (if ?a = [] then (([], []), s\<lparr>tp_acc := [], tp_state := ThinkingStartedEatingWhitespace\<rparr>)
        else result (s\<lparr>tp_acc := ?a, tp_state := Thinking\<rparr>))"
      by (simp add: result_started acc_state_swap)
    show ?thesis
      using True assms by (auto simp: r thinking_spec_def result_thinking Let_def split: option.splits)
  next
    case False
    with assms look show ?thesis by (auto simp: thinking_spec_def result_stop Let_def)
  qed
qed

text \<open>
  C14. The streaming parser computes \<open>thinking_spec\<close> of the whole text. For non-empty tags
  and any sequence of chunks that do not cut a white-space character in two, every call
  of \<^verbatim>\<open>AddContent\<close> returns, and the thinking and remaining texts emitted, concatenated over
  the calls, are those of the specification applied to the concatenated chunks.
\<close>

theorem thinking_streaming_refines_spec:
  assumes "op \<noteq> []" "cl \<noteq> []" "\<forall>x \<in> set xs. whole x"
  shows "\<exists>s. feed_content (new_thinking_parser op cl) xs = Some (thinking_spec op cl (concat xs), s)"
proof (cases "xs = []")
  case True
  with assms show ?thesis by (simp add: thinking_spec_def)
next
  case False
  let ?p = "new_thinking_parser op cl"
  have ok: "thinking_ok ?p" using assms by (simp add: thinking_ok_def new_thinking_parser_def)
  from ti.feed_all_concat [OF ok assms(3) False whole_append]
  have "feed_content ?p xs = Some (result (push_acc ?p (concat xs)))"
    using feed_content_feed_all [OF ok assms(3)] by (simp add: result_def)
  moreover have "fst (result (push_acc ?p (concat xs))) = thinking_spec op cl (concat xs)"
    using result_spec [OF assms(1,2), of "push_acc ?p (concat xs)"]
    by (simp add: new_thinking_parser_def)
  ultimately show ?thesis by (metis prod.collapse)
qed

lemma thinking_streaming_refines_spec_witness:
  "\<exists>s. feed_content (new_thinking_parser ''<think>'' ''</think>'')
      [''<thi'', ''nk> a</th'', ''ink> b''] = Some ((''a'', ''b''), s)"
proof -
  have "\<forall>x \<in> set [''<thi'', ''nk> a</th'', ''ink> b'']. whole x" by (auto intro!: whole_ascii_end)
  moreover have "thinking_spec ''<think>'' ''</think>'' ''<think> a</think> b'' = (''a'', ''b'')"
    by code_simp
  ultimately show ?thesis
    using thinking_streaming_refines_spec [of "''<think>''" "''</think>''"
      "[''<thi'', ''nk> a</th'', ''ink> b'']"] by simp
qed

lemma overlap_held:
  assumes "\<not> contains a cl" "cl \<noteq> []"
  shows "strict_prefix (drop (length a - overlap a cl) a) cl \<and>
    (\<forall>e. suffix e a \<longrightarrow> strict_prefix e cl \<longrightarrow> length e \<le> length (drop (length a - overlap a cl) a))"
proof
  have "overlap a cl \<noteq> length cl"
  proof
    assume "overlap a cl = length cl"
    with overlap_suffix [of a cl] have "suffix cl a" by simp
    with assms(1) show False by (auto simp: contains_iff suffix_def) (metis append_Nil2)
  qed
  then have "overlap a cl < length cl" using overlap_le(2) [of a cl] by simp
  then have "take (overlap a cl) cl \<noteq> cl" using assms(2) by (metis length_take min.strict_order_iff min.commute)
  then show "strict_prefix (drop (length a - overlap a cl) a) cl"
    unfolding overlap_drop by (simp add: prefix_order.less_le take_is_prefix)
  show "\<forall>e. suffix e a \<longrightarrow> strict_prefix e cl \<longrightarrow> length e \<le> length (drop (length a - overlap a cl) a)"
  proof (intro allI impI)
    fix e assume e: "suffix e a" "strict_prefix e cl"
    then have "e = take (length e) cl" by (metis append_eq_conv_conj prefix_def prefix_order.less_imp_le)
    with e have "\<not> overlap a cl < length e"
      using overlap_greatest [of a cl "length e"] suffix_length_le [OF e(1)] prefix_length_less [OF e(2)] by auto
    then show "length e \<le> length (drop (length a - overlap a cl) a)" using overlap_le(1) [of a cl] by simp
  qed
qed

text \<open>
  C16. Where all of a text goes. A text that opens with the tag is white space, the tag, white space
  and a body. What is called thinking never contains the closing tag. If that has arrived, the body
  is exactly the thinking, the tag, white space and the rest, and the rest does not begin with
  white space; if not, nothing is passed on as rest and the body is the thinking and the longest
  end of it that may begin the tag, which is held back. A text that does not open with the tag is
  passed on unchanged, or held while it may still do so. Stated for a text fed in any chunks.
\<close>

theorem thinking_text_complete:
  assumes "op \<noteq> []" "cl \<noteq> []" "\<forall>x \<in> set xs. whole x"
    and "feed_content (new_thinking_parser op cl) xs = Some ((th, rest), s)"
  shows "if prefix op (trim_left (concat xs))
    then \<exists>w1 w2 body. ws w1 \<and> ws w2 \<and> concat xs = w1 @ op @ w2 @ body \<and> trim_left body = body \<and> \<not> contains th cl \<and>
      (if contains body cl then \<exists>w3. ws w3 \<and> body = th @ cl @ w3 @ rest \<and> trim_left rest = rest
       else rest = [] \<and> (\<exists>held. body = th @ held \<and> strict_prefix held cl \<and>
         (\<forall>e. suffix e body \<longrightarrow> strict_prefix e cl \<longrightarrow> length e \<le> length held)))
    else th = [] \<and> rest = (if prefix (trim_left (concat xs)) op then [] else concat xs)"
proof -
  from thinking_streaming_refines_spec [OF assms(1-3)] assms(4)
  have sp: "thinking_spec op cl (concat xs) = (th, rest)" by force
  let ?s = "concat xs" let ?t = "trim_left ?s" let ?a = "trim_left (drop (length op) ?t)"
  obtain w1 where w1: "ws w1" "?s = w1 @ ?t" using trim_left_split by blast
  obtain w2 where w2: "ws w2" "drop (length op) ?t = w2 @ ?a" using trim_left_split by blast
  show ?thesis
  proof (cases "prefix op ?t")
    case False
    with sp show ?thesis by (simp add: thinking_spec_def Let_def split: if_splits)
  next
    case True
    then have t: "?s = w1 @ op @ w2 @ ?a" using w1 w2 by (metis append_eq_conv_conj prefixE)
    have idem: "trim_left ?a = ?a" by simp
    have "\<not> contains th cl \<and> (if contains ?a cl then \<exists>w3. ws w3 \<and> ?a = th @ cl @ w3 @ rest \<and> trim_left rest = rest
       else rest = [] \<and> (\<exists>held. ?a = th @ held \<and> strict_prefix held cl \<and>
         (\<forall>e. suffix e ?a \<longrightarrow> strict_prefix e cl \<longrightarrow> length e \<le> length held)))"
    proof (cases "index ?a cl")
      case None
      with sp True have th: "th = take (length ?a - overlap ?a cl) ?a" "rest = []"
        by (auto simp: thinking_spec_def Let_def)
      have no: "\<not> contains ?a cl" using None by (simp add: contains_def)
      then have "\<not> contains th cl"
        using contains_prefix [OF take_is_prefix, of _ ?a cl] unfolding th(1) by blast
      moreover have "?a = th @ drop (length ?a - overlap ?a cl) ?a" unfolding th(1) by (rule append_take_drop_id [symmetric])
      note held = this overlap_held [OF no assms(2), THEN conjunct1] overlap_held [OF no assms(2), THEN conjunct2]
      have "\<exists>held. ?a = th @ held \<and> strict_prefix held cl \<and> (\<forall>e. suffix e ?a \<longrightarrow> strict_prefix e cl \<longrightarrow> length e \<le> length held)"
        by (rule exI [of _ "drop (length ?a - overlap ?a cl) ?a"], intro conjI) (rule held)+
      ultimately show ?thesis unfolding if_not_P [OF no] using th(2) by blast
    next
      case (Some i)
      with sp True have th: "th = take i ?a" "rest = trim_left (drop (i + length cl) ?a)"
        by (auto simp: thinking_spec_def Let_def)
      obtain w3 where w3: "ws w3" "drop (i + length cl) ?a = w3 @ rest"
        using trim_left_split th(2) by blast
      have "?a = th @ cl @ w3 @ rest" using index_Some_split [OF Some] th(1) w3(2) by simp
      moreover have "\<not> contains th cl" using first_free [OF assms(2) Some] th(1) by simp
      moreover have "trim_left rest = rest" unfolding th(2) by simp
      moreover have "contains ?a cl" using Some by (simp add: contains_def)
      ultimately show ?thesis using w3(1) by auto
    qed
    then have *: "\<not> contains th cl" "if contains ?a cl then \<exists>w3. ws w3 \<and> ?a = th @ cl @ w3 @ rest \<and> trim_left rest = rest
       else rest = [] \<and> (\<exists>held. ?a = th @ held \<and> strict_prefix held cl \<and>
         (\<forall>e. suffix e ?a \<longrightarrow> strict_prefix e cl \<longrightarrow> length e \<le> length held))" by blast+
    show ?thesis unfolding if_P [OF True]
      by (rule exI [of _ w1], rule exI [of _ w2], rule exI [of _ ?a], intro conjI) (rule w1(1) w2(1) t idem *)+
  qed
qed

lemma thinking_text_complete_witness:
  "\<exists>th rest s. feed_content (new_thinking_parser ''<think>'' ''</think>'') ['' <think></th'', ''ink> b''] = Some ((th, rest), s) \<and>
     th = [] \<and> (\<exists>w1 w2 body w3. ws w1 \<and> ws w2 \<and> '' <think></think> b'' = w1 @ ''<think>'' @ w2 @ body \<and>
       ws w3 \<and> body = th @ ''</think>'' @ w3 @ rest \<and> trim_left rest = rest)"
proof -
  have w: "\<forall>x \<in> set ['' <think></th'', ''ink> b'']. whole x" by (auto intro!: whole_ascii_end)
  have f: "feed_content (new_thinking_parser ''<think>'' ''</think>'') ['' <think></th'', ''ink> b''] =
    Some (([], ''b''), (new_thinking_parser ''<think>'' ''</think>'')\<lparr>tp_state := ThinkingDone\<rparr>)"
    by code_simp
  have t: "trim_left (concat ['' <think></th'', ''ink> b'']) = ''<think></think> b''" by code_simp
  have p: "prefix ''<think>'' (trim_left (concat ['' <think></th'', ''ink> b'']))" unfolding t by simp
  from thinking_text_complete [OF _ _ w f, unfolded if_P [OF p]] obtain w1 w2 body where
    b: "ws w1" "ws w2" "concat ['' <think></th'', ''ink> b''] = w1 @ ''<think>'' @ w2 @ body"
      "if contains body ''</think>'' then \<exists>w3. ws w3 \<and> body = [] @ ''</think>'' @ w3 @ ''b'' \<and> trim_left ''b'' = ''b''
       else ''b'' = [] \<and> (\<exists>held. body = [] @ held \<and> strict_prefix held ''</think>'' \<and>
         (\<forall>e. suffix e body \<longrightarrow> strict_prefix e ''</think>'' \<longrightarrow> length e \<le> length held))" by blast
  then obtain w3 where "ws w3" "body = [] @ ''</think>'' @ w3 @ ''b''" "trim_left ''b'' = ''b''" by (auto split: if_splits)
  moreover have "concat ['' <think></th'', ''ink> b''] = '' <think></think> b''" by simp
  ultimately show ?thesis using f b(1-3) by metis
qed

text \<open>
  A model output that does not begin with the opening tag passes unchanged: once the text
  received is neither empty nor a beginning of the tag (after white space), everything is
  remaining text, verbatim, with the leading white space, and nothing is thinking.
\<close>

theorem thinking_passthrough:
  assumes "op \<noteq> []" "cl \<noteq> []" "\<forall>x \<in> set xs. whole x"
    and "\<not> prefix op (trim_left (concat xs))" "\<not> prefix (trim_left (concat xs)) op"
  shows "\<exists>s. feed_content (new_thinking_parser op cl) xs = Some (([], concat xs), s)"
  using thinking_streaming_refines_spec [OF assms(1-3)] assms(4,5)
  by (simp add: thinking_spec_def Let_def)

lemma thinking_passthrough_witness:
  "\<exists>s. feed_content (new_thinking_parser ''<think>'' ''</think>'') ['' <b>'', ''x''] = Some (([], '' <b>x''), s)"
proof -
  have w: "\<forall>x \<in> set ['' <b>'', ''x'']. whole x" by (auto intro!: whole_ascii_end)
  have t: "trim_left (concat ['' <b>'', ''x'']) = ''<b>x''" by code_simp
  show ?thesis
    using thinking_passthrough [OF _ _ w, of "''<think>''" "''</think>''"] unfolding t by simp
qed

text \<open>
  With an empty closing tag \<^verbatim>\<open>AddContent\<close> panics when the thinking state meets an empty
  buffer, and it never panics when both tags are non-empty, whatever the state and the bytes.
\<close>

theorem AddContent_panics_iff_empty_tag:
  "(OpeningTag s \<noteq> [] \<longrightarrow> ClosingTag s \<noteq> [] \<longrightarrow> AddContent s x \<noteq> None) \<and>
   (tp_state s = Thinking \<longrightarrow> tp_acc s = [] \<longrightarrow> ClosingTag s = [] \<longrightarrow> AddContent s [] = None)"
proof (intro conjI impI)
  assume tags: "OpeningTag s \<noteq> []" "ClosingTag s \<noteq> []"
  let ?I = "\<lambda>s. OpeningTag s \<noteq> [] \<and> ClosingTag s \<noteq> []"
  have step: "?I s1 \<and> (\<forall>e \<in> set ev. e \<noteq> Panic)" if "?I s" "eat_events s = (ev, go, s1)" for s ev go s1
    using that eat_no_panic [of s] by (auto simp: eat_events_def split: prod.splits dest: eat_tags)
  have i: "?I (s\<lparr>tp_acc := tp_acc s @ x\<rparr>)" using tags by simp
  have "Panic \<notin> set (fst (eat_loop (s\<lparr>tp_acc := tp_acc s @ x\<rparr>)))"
  proof
    assume "Panic \<in> set (fst (eat_loop (s\<lparr>tp_acc := tp_acc s @ x\<rparr>)))"
    from te.run_events [where I = ?I and Q = "\<lambda>e. e \<noteq> Panic", OF _ i this] step show False by blast
  qed
  then show "AddContent s x \<noteq> None" by (auto simp: AddContent_def split: prod.splits)
next
  assume "tp_state s = Thinking" "tp_acc s = []" "ClosingTag s = []"
  moreover have "split_all [] [] = []" by (simp add: split_all.simps explode.simps)
  ultimately have "eat s = (Panic, False, s)"
    by (simp add: eat.simps contains_def)
  then have "eat_loop s = ([Panic], s)" by (simp add: eat_loop.simps [of s])
  moreover have "s\<lparr>tp_acc := tp_acc s @ []\<rparr> = s" by simp
  ultimately show "AddContent s [] = None" unfolding AddContent_def by simp
qed

lemma AddContent_panics_iff_empty_tag_witness:
  "AddContent (new_thinking_parser ''<t>'' ''</t>'') ''x'' \<noteq> None \<and>
   AddContent ((new_thinking_parser ''<t>'' [])\<lparr>tp_state := Thinking\<rparr>) [] = None"
  using AddContent_panics_iff_empty_tag [of "new_thinking_parser ''<t>'' ''</t>''" "''x''"]
    AddContent_panics_iff_empty_tag [of "(new_thinking_parser ''<t>'' [])\<lparr>tp_state := Thinking\<rparr>" "[]"]
  by (simp add: new_thinking_parser_def)

end
