(* ===== verification/ApiTypes.thy ===== *)
theory ApiTypes
  imports Trimming
begin

text \<open>
  api/types.go: the types the parsers and renderers exchange with the server. A JSON value
  of Go type \<^verbatim>\<open>any\<close> is the datatype \<open>any\<close> (a number is kept as its literal); the arguments
  of a tool call are an ordered map built by the package go-ordered-map, which is not part
  of the repository, so their type is the parameter \<^typ>\<open>'a\<close>.
\<close>

section \<open>JSON values, tools, messages\<close>

datatype any =
    AnyNil
  | AnyBool bool
  | AnyNumber string
  | AnyString string
  | AnyList "any list"
  | AnyMap "(string \<times> any) list"

datatype tool_property = ToolProperty
  (AnyOf: "tool_property list")
  (Type: "string list")
  (Items: any)
  (Description: string)
  (Enum: "any list")
  (Properties: "(string \<times> tool_property) list option")
  (Required: "string list")

record tool_function_parameters =
  tfp_Type :: string
  tfp_Defs :: any
  tfp_Items :: any
  tfp_Required :: "string list"
  tfp_Properties :: "(string \<times> tool_property) list option"

record tool_function =
  tf_Name :: string
  tf_Description :: string
  tf_Parameters :: tool_function_parameters

record tool =
  tool_Type :: string
  tool_Items :: any
  tool_Function :: tool_function

record 'a tool_call_function =
  tcf_Index :: nat
  tcf_Name :: string
  tcf_Arguments :: 'a

record 'a tool_call =
  tc_ID :: string
  tc_Function :: "'a tool_call_function"

record 'a message =
  msg_Role :: string
  msg_Content :: string
  msg_Thinking :: string
  msg_Images :: "string list"
  msg_ToolCalls :: "'a tool_call list"
  msg_ToolName :: string
  msg_ToolCallID :: string

abbreviation tool_name :: "tool \<Rightarrow> string" where
  "tool_name t \<equiv> tf_Name (tool_Function t)"

section \<open>TypeScript types of tool parameters\<close>

definition mapToTypeScriptType :: "string \<Rightarrow> string" where
  "mapToTypeScriptType jsonType =
     (if jsonType = ''string'' then ''string''
      else if jsonType = ''number'' \<or> jsonType = ''integer'' then ''number''
      else if jsonType = ''boolean'' then ''boolean''
      else if jsonType = ''array'' then ''any[]''
      else if jsonType = ''object'' then ''Record<string, any>''
      else if jsonType = ''null'' then ''null''
      else ''any'')"

fun ToTypeScriptType :: "tool_property \<Rightarrow> string" where
  "ToTypeScriptType (ToolProperty anyOf types items descr enum props req) =
     (if 0 < length anyOf then join '' | '' (map ToTypeScriptType anyOf)
      else if length types = 0 then ''any''
      else if length types = 1 then mapToTypeScriptType (types ! 0)
      else join '' | '' (map mapToTypeScriptType types))"

section \<open>The think option\<close>

text \<open>
  \<^verbatim>\<open>ThinkValue.Value\<close> is an interface: nil, a bool, a string or a value of another type. The
  methods have a pointer receiver; \<^const>\<open>None\<close> is the nil pointer.
\<close>

datatype think_value = TVNil | TVBool bool | TVString string | TVOther

definition think_level :: "string \<Rightarrow> bool" where
  "think_level v \<longleftrightarrow> v = ''high'' \<or> v = ''medium'' \<or> v = ''low'' \<or> v = ''max''"

fun think_IsValid :: "think_value option \<Rightarrow> bool" where
  "think_IsValid None = True"
| "think_IsValid (Some TVNil) = True"
| "think_IsValid (Some (TVBool v)) = True"
| "think_IsValid (Some (TVString v)) = think_level v"
| "think_IsValid (Some TVOther) = False"

fun think_IsBool :: "think_value option \<Rightarrow> bool" where
  "think_IsBool (Some (TVBool v)) = True"
| "think_IsBool _ = False"

fun think_IsString :: "think_value option \<Rightarrow> bool" where
  "think_IsString (Some (TVString v)) = True"
| "think_IsString _ = False"

fun think_Bool :: "think_value option \<Rightarrow> bool" where
  "think_Bool None = False"
| "think_Bool (Some TVNil) = False"
| "think_Bool (Some (TVBool v)) = v"
| "think_Bool (Some (TVString v)) = think_level v"
| "think_Bool (Some TVOther) = False"

fun think_String :: "think_value option \<Rightarrow> string" where
  "think_String None = []"
| "think_String (Some TVNil) = []"
| "think_String (Some (TVString v)) = v"
| "think_String (Some (TVBool v)) = (if v then ''medium'' else [])"
| "think_String (Some TVOther) = []"

text \<open>
  \<^verbatim>\<open>UnmarshalJSON\<close>, given what \<^verbatim>\<open>json.Unmarshal\<close> makes of the data as a bool and as a
  string (\<^const>\<open>None\<close> for an error). \<^const>\<open>None\<close> as the result is an error return.
\<close>

definition think_UnmarshalJSON :: "bool option \<Rightarrow> string option \<Rightarrow> think_value option" where
  "think_UnmarshalJSON as_bool as_string =
     (case as_bool of
        Some b \<Rightarrow> Some (TVBool b)
      | None \<Rightarrow>
          (case as_string of
             Some s \<Rightarrow>
               (if s \<noteq> ''high'' \<and> s \<noteq> ''medium'' \<and> s \<noteq> ''low'' \<and> s \<noteq> ''max'' then None
                else Some (TVString s))
           | None \<Rightarrow> None))"

section \<open>Calls collected by the parsers\<close>

text \<open>
  Several parsers end \<^verbatim>\<open>Add\<close> with the loop
  \<^verbatim>\<open>for i := range calls { calls[i].Function.Index = p.callIndex; p.callIndex++ }\<close>.
\<close>

definition set_index :: "nat \<Rightarrow> 'a tool_call \<Rightarrow> 'a tool_call" where
  "set_index i c = c\<lparr>tc_Function := (tc_Function c)\<lparr>tcf_Index := i\<rparr>\<rparr>"

fun number_calls :: "nat \<Rightarrow> 'a tool_call list \<Rightarrow> 'a tool_call list \<times> nat" where
  "number_calls callIndex [] = ([], callIndex)"
| "number_calls callIndex (c # cs) =
     (case number_calls (Suc callIndex) cs of (cs', n) \<Rightarrow> (set_index callIndex c # cs', n))"

definition call_indices :: "'a tool_call list \<Rightarrow> nat list" where
  "call_indices cs = map (\<lambda>c. tcf_Index (tc_Function c)) cs"

definition new_call :: "string \<Rightarrow> 'a \<Rightarrow> 'a tool_call" where
  "new_call name args = \<lparr>tc_ID = [], tc_Function = \<lparr>tcf_Index = 0, tcf_Name = name, tcf_Arguments = args\<rparr>\<rparr>"

text \<open>What goes wrong in a call of \<^verbatim>\<open>Add\<close>.\<close>

datatype parse_error = JSONError | EmptyFunctionName | InvalidFormat | ToolNotFound string

text \<open>The four results of \<^verbatim>\<open>Add\<close>: content, thinking, calls and the error, if any.\<close>

type_synonym 'a add_result = "string \<times> string \<times> 'a tool_call list \<times> parse_error option"

lemma number_calls_indices:
  "call_indices (fst (number_calls n cs)) = [n ..< n + length cs]
    \<and> snd (number_calls n cs) = n + length cs \<and> length (fst (number_calls n cs)) = length cs"
  by (induction n cs rule: number_calls.induct)
    (auto simp: call_indices_def set_index_def upt_conv_Cons simp del: upt_Suc split: prod.splits)

lemma number_calls_append:
  "number_calls n (a @ b) =
     (fst (number_calls n a) @ fst (number_calls (n + length a) b), n + length a + length b)"
  by (induction n a rule: number_calls.induct)
    (auto simp: number_calls_indices [THEN conjunct2, THEN conjunct1] prod_eq_iff split: prod.splits)

text \<open>Decoding a list of calls stops at the first error.\<close>

fun decode_calls :: "('c \<Rightarrow> 'e + 'd) \<Rightarrow> 'c list \<Rightarrow> 'e + 'd list" where
  "decode_calls decode [] = Inr []"
| "decode_calls decode (c # cs) =
     (case decode c of
        Inl e \<Rightarrow> Inl e
      | Inr d \<Rightarrow> (case decode_calls decode cs of Inl e \<Rightarrow> Inl e | Inr ds \<Rightarrow> Inr (d # ds)))"

lemma decode_calls_Inr [simp]: "decode_calls Inr ks = Inr ks"
  by (induction ks) auto

lemma decode_calls_append:
  "decode_calls decode (a @ b) =
     (case decode_calls decode a of
        Inl e \<Rightarrow> Inl e
      | Inr x \<Rightarrow> (case decode_calls decode b of Inl e \<Rightarrow> Inl e | Inr y \<Rightarrow> Inr (x @ y)))"
  by (induction a) (auto split: sum.splits)

text \<open>The think option is enabled exactly for true and for the four levels.\<close>

lemma think_Bool_iff:
  "think_Bool t \<longleftrightarrow> t = Some (TVBool True) \<or> (\<exists>v. t = Some (TVString v) \<and> think_level v)"
  by (cases t rule: think_Bool.cases) auto

end
