(* ===== verification/TextEvents.thy ===== *)
theory TextEvents
  imports Streaming ApiTypes
begin

text \<open>
  The events of the model parsers. Each parser of model/parsers declares its own event
  structs, all of the same shape: a piece of thinking, a piece of content, or a call (its
  raw text, its name and arguments, or the decoded call). They share the datatype
  \<open>parser_event\<close>. A client of a parser sees the pieces concatenated and the list of calls;
  \<open>text_parser\<close> and \<open>incremental_text\<close> specialise the loop and chunk interfaces to this view.
\<close>

datatype 'c parser_event = EvThinking string | EvContent string | EvCall 'c

text \<open>The pattern \<^verbatim>\<open>if len(x) > 0 { events = append(events, E{content: x}) }\<close>.\<close>

definition emit :: "(string \<Rightarrow> 'c parser_event) \<Rightarrow> string \<Rightarrow> 'c parser_event list" where
  "emit ev x = (if 0 < length x then [ev x] else [])"

text \<open>Two characters of the DeepSeek tags: U+FF5C (full-width bar) and U+2581 (lower block).\<close>

definition fw_bar :: string where "fw_bar = [CHR 0xEF, CHR 0xBD, CHR 0x9C]"
definition lower_block :: string where "lower_block = [CHR 0xE2, CHR 0x96, CHR 0x81]"

definition fw_tag :: "string list \<Rightarrow> string" where
  "fw_tag words = ''<'' @ fw_bar @ join lower_block words @ fw_bar @ ''>''"

lemma fw_tag_pos [simp]: "0 < length (fw_tag words)" "fw_tag words \<noteq> []"
  by (simp_all add: fw_tag_def)

lemma fw_tag_hd [simp]: "hd (fw_tag words) = CHR ''<''"
  by (simp add: fw_tag_def)

lemma trim_left_tag [simp]: "trim_left (fw_tag words @ s) = fw_tag words @ s"
  by (simp add: fw_tag_def trim_left_ascii is_space_def white_space_def)

lemma no_tag_without: "CHR ''<'' \<notin> set s \<Longrightarrow> index s (fw_tag words) = None"
  using index_skip [of "fw_tag words" s "[]"] by simp

section \<open>What a client sees\<close>

fun ev_thinking :: "'c parser_event \<Rightarrow> string" where
  "ev_thinking (EvThinking x) = x"
| "ev_thinking _ = []"

fun ev_content :: "'c parser_event \<Rightarrow> string" where
  "ev_content (EvContent x) = x"
| "ev_content _ = []"

fun ev_calls :: "'c parser_event \<Rightarrow> 'c list" where
  "ev_calls (EvCall c) = [c]"
| "ev_calls _ = []"

definition thinking_of :: "'c parser_event list \<Rightarrow> string" where
  "thinking_of evs = concat (map ev_thinking evs)"

definition content_of :: "'c parser_event list \<Rightarrow> string" where
  "content_of evs = concat (map ev_content evs)"

definition calls_of :: "'c parser_event list \<Rightarrow> 'c list" where
  "calls_of evs = concat (map ev_calls evs)"

definition text_out :: "'c parser_event list \<Rightarrow> string \<times> string \<times> 'c list" where
  "text_out evs = (thinking_of evs, content_of evs, calls_of evs)"

fun and_then :: "string \<times> string \<times> 'c list \<Rightarrow> (string \<times> string \<times> 'c list) \<times> 's
    \<Rightarrow> (string \<times> string \<times> 'c list) \<times> 's" where
  "and_then (t, c, k) ((t', c', k'), s) = ((t @ t', c @ c', k @ k'), s)"

lemma text_of_simps [simp]:
  "thinking_of [] = []" "content_of [] = []" "calls_of [] = []"
  "thinking_of (e # evs) = ev_thinking e @ thinking_of evs"
  "content_of (e # evs) = ev_content e @ content_of evs"
  "calls_of (e # evs) = ev_calls e @ calls_of evs"
  "thinking_of (a @ b) = thinking_of a @ thinking_of b"
  "content_of (a @ b) = content_of a @ content_of b"
  "calls_of (a @ b) = calls_of a @ calls_of b"
  by (simp_all add: thinking_of_def content_of_def calls_of_def)

lemma text_of_emit [simp]:
  "thinking_of (emit EvThinking x) = x" "thinking_of (emit EvContent x) = []"
  "content_of (emit EvContent x) = x" "content_of (emit EvThinking x) = []"
  "calls_of (emit EvThinking x) = []" "calls_of (emit EvContent x) = []"
  by (simp_all add: emit_def)

lemma emit_Nil [simp]: "emit ev [] = []"
  by (simp add: emit_def)

lemma set_emit: "e \<in> set (emit ev x) \<longleftrightarrow> x \<noteq> [] \<and> e = ev x"
  by (auto simp: emit_def)

lemma and_then_empty [simp]: "and_then ([], [], []) r = r"
proof -
  obtain t c k s where "r = ((t, c, k), s)" by (metis prod.exhaust)
  then show ?thesis by simp
qed

lemma and_then_snd [simp]: "snd (and_then o1 r) = snd r"
proof -
  obtain t c k s where "r = ((t, c, k), s)" by (metis prod.exhaust)
  moreover obtain t' c' k' where "o1 = (t', c', k')" by (metis prod.exhaust)
  ultimately show ?thesis by simp
qed

lemma and_then_twice [simp]:
  "and_then (t, c, k) (and_then (t', c', k') r) = and_then (t @ t', c @ c', k @ k') r"
proof -
  obtain a b d s where "r = ((a, b, d), s)" by (metis prod.exhaust)
  then show ?thesis by simp
qed

section \<open>The interfaces\<close>

locale text_parser = eater eat run m
  for eat :: "'s \<Rightarrow> 'c parser_event list \<times> bool \<times> 's" and run m
begin

definition res :: "'s \<Rightarrow> (string \<times> string \<times> 'c list) \<times> 's" where
  "res s = (text_out (fst (run s)), snd (run s))"

lemma res_stop: "eat s = (ev, False, s1) \<Longrightarrow> res s = (text_out ev, s1)"
  by (simp add: res_def run_stop)

lemma res_more: "eat s = (ev, True, s1) \<Longrightarrow> res s = and_then (text_out ev) (res s1)"
  by (simp add: res_def run_more text_out_def)

lemma res_skip: "eat s = ([], True, s1) \<Longrightarrow> res s = res s1"
  by (simp add: res_more text_out_def)

end

locale incremental_text = text_parser eat run m
  for eat :: "'s \<Rightarrow> 'c parser_event list \<times> bool \<times> 's" and run m +
  fixes push :: "'s \<Rightarrow> string \<Rightarrow> 's"
    and ok :: "'s \<Rightarrow> bool"
    and okc :: "string \<Rightarrow> bool"
  assumes text_push: "push (push s x) y = push s (x @ y)"
    and text_ok_push: "ok s \<Longrightarrow> okc x \<Longrightarrow> ok (push s x)"
    and text_ok_eat: "ok s \<Longrightarrow> eat s = (ev, go, s1) \<Longrightarrow> ok s1"
    and text_law: "ok s \<Longrightarrow> okc y \<Longrightarrow> eat s = (ev, go, s1) \<Longrightarrow>
      res (push s y) = and_then (text_out ev) (res (push s1 y))"

sublocale incremental_text \<subseteq> incremental eat run m push text_out ok okc
proof (unfold_locales, goal_cases)
  case (5 s y ev b s1)
  from text_law [OF this] show ?case by (simp add: res_def text_out_def)
qed (auto simp: text_out_def text_push text_ok_push intro: text_ok_eat)

text \<open>
  A parser that invents nothing: the texts of the events of a step, in order, and the buffer
  it leaves are a subsequence of the buffer it found. The loop and every sequence of chunks
  inherit this.
\<close>

fun ev_text :: "('c \<Rightarrow> string) \<Rightarrow> 'c parser_event \<Rightarrow> string" where
  "ev_text raw (EvThinking x) = x"
| "ev_text raw (EvContent x) = x"
| "ev_text raw (EvCall c) = raw c"

definition texts_of :: "('c \<Rightarrow> string) \<Rightarrow> 'c parser_event list \<Rightarrow> string" where
  "texts_of raw evs = concat (map (ev_text raw) evs)"

lemma texts_of_simps [simp]:
  "texts_of raw [] = []" "texts_of raw (e # evs) = ev_text raw e @ texts_of raw evs"
  "texts_of raw (a @ b) = texts_of raw a @ texts_of raw b"
  by (simp_all add: texts_of_def)

lemma texts_of_emit [simp]:
  "texts_of raw (emit EvThinking x) = x" "texts_of raw (emit EvContent x) = x"
  by (simp_all add: emit_def)

locale conserving = text_parser eat run m
  for eat :: "'s \<Rightarrow> 'c parser_event list \<times> bool \<times> 's" and run m +
  fixes push :: "'s \<Rightarrow> string \<Rightarrow> 's"
    and buf :: "'s \<Rightarrow> string"
    and raw :: "'c \<Rightarrow> string"
  assumes eat_subseq: "eat s = (ev, go, s1) \<Longrightarrow> subseq (texts_of raw ev @ buf s1) (buf s)"
    and buf_push: "buf (push s x) = buf s @ x"
begin

lemma run_subseq: "subseq (texts_of raw (fst (run s)) @ buf (snd (run s))) (buf s)"
proof (induction s rule: run_induct)
  case (step s)
  obtain ev go s1 where e: "eat s = (ev, go, s1)" by (cases "eat s") auto
  note sub = eat_subseq [OF e]
  show ?case
  proof (cases go)
    case False
    with e sub show ?thesis by (simp add: run_stop)
  next
    case True
    with e have "eat s = (ev, True, s1)" by simp
    from step [OF this] have "subseq (texts_of raw (fst (run s1)) @ buf (snd (run s1))) (buf s1)" .
    then have "subseq (texts_of raw ev @ texts_of raw (fst (run s1)) @ buf (snd (run s1)))
        (texts_of raw ev @ buf s1)" by (simp add: subseq_append')
    from subseq_order.trans [OF this sub] True e show ?thesis by (simp add: run_more)
  qed
qed

theorem feed_subseq:
  "subseq (texts_of raw (fst (feed_all (\<lambda>s x. run (push s x)) s xs))
      @ buf (snd (feed_all (\<lambda>s x. run (push s x)) s xs)))
    (buf s @ concat xs)"
proof (induction xs arbitrary: s)
  case (Cons x xs)
  let ?s1 = "snd (run (push s x))"
  let ?t = "texts_of raw (fst (run (push s x)))"
  have "subseq (?t @ buf ?s1) (buf s @ x)" using run_subseq [of "push s x"] by (simp add: buf_push)
  then have "subseq ((?t @ buf ?s1) @ concat xs) ((buf s @ x) @ concat xs)"
    by (rule list_emb_append_mono) simp
  moreover have "subseq (?t @ texts_of raw (fst (feed_all (\<lambda>s x. run (push s x)) ?s1 xs))
      @ buf (snd (feed_all (\<lambda>s x. run (push s x)) ?s1 xs))) (?t @ buf ?s1 @ concat xs)"
    using Cons.IH [of ?s1] by (simp add: subseq_append')
  ultimately show ?case by (auto simp: case_prod_beta intro: subseq_order.trans)
qed simp

end

section \<open>Feeding a parser through \<^verbatim>\<open>Add\<close>\<close>

text \<open>
  What a client keeps of a call of \<^verbatim>\<open>Add\<close>: thinking, content and calls, or nothing after an
  error; and of a sequence of calls, all outputs appended, up to the first error.
\<close>

fun add_ok :: "'a add_result \<times> 's \<Rightarrow> ((string \<times> string \<times> 'a tool_call list) \<times> 's) option" where
  "add_ok ((content, thinking, calls, None), s) = Some ((thinking, content, calls), s)"
| "add_ok ((content, thinking, calls, Some err), s) = None"

fun feed_add :: "('s \<Rightarrow> string \<Rightarrow> 'a add_result \<times> 's) \<Rightarrow> 's \<Rightarrow> string list
    \<Rightarrow> ((string \<times> string \<times> 'a tool_call list) \<times> 's) option" where
  "feed_add add s [] = Some (([], [], []), s)"
| "feed_add add s (x # xs) =
     (case add_ok (add s x) of
        None \<Rightarrow> None
      | Some (out, s1) \<Rightarrow> map_option (and_then out) (feed_add add s1 xs))"

lemma feed_add_Cons:
  assumes "feed_add add s (x # xs) = Some ((t, c, k), s')"
  obtains t1 c1 k1 s1 t2 c2 k2 where "add_ok (add s x) = Some ((t1, c1, k1), s1)"
    "feed_add add s1 xs = Some ((t2, c2, k2), s')" "t = t1 @ t2" "c = c1 @ c2" "k = k1 @ k2"
proof -
  from assms obtain o1 s1 o2 s2 where f: "add_ok (add s x) = Some (o1, s1)" "feed_add add s1 xs = Some (o2, s2)"
    "and_then o1 (o2, s2) = ((t, c, k), s')"
    by (auto split: option.splits)
  moreover obtain t1 c1 k1 where "o1 = (t1, c1, k1)" by (metis prod.exhaust)
  moreover obtain t2 c2 k2 where "o2 = (t2, c2, k2)" by (metis prod.exhaust)
  ultimately show thesis using that by auto
qed

text \<open>An invariant of \<^verbatim>\<open>Add\<close> under which it returns no thinking.\<close>

lemma feed_add_no_thinking:
  assumes step: "\<And>s x t c k s1. I s \<Longrightarrow> add_ok (add s x) = Some ((t, c, k), s1) \<Longrightarrow> t = [] \<and> I s1"
  shows "I s \<Longrightarrow> feed_add add s xs = Some ((t, c, k), s') \<Longrightarrow> t = [] \<and> I s'"
proof (induction xs arbitrary: s t c k)
  case (Cons x xs)
  from Cons.prems(2) obtain t1 c1 k1 s1 t2 c2 k2 where
    f: "add_ok (add s x) = Some ((t1, c1, k1), s1)" "feed_add add s1 xs = Some ((t2, c2, k2), s')"
      "t = t1 @ t2"
    by (rule feed_add_Cons)
  from step [OF Cons.prems(1) f(1)] have "t1 = []" "I s1" by auto
  with Cons.IH [OF _ f(2)] f(3) show ?case by simp
qed simp

text \<open>
  A parser whose \<^verbatim>\<open>Add\<close> runs the loop, decodes the calls of the events and numbers them from
  a counter in its state that the loop does not change.
\<close>

locale numbered_parser = text_parser eat run m
  for eat :: "'s \<Rightarrow> 'c parser_event list \<times> bool \<times> 's" and run m +
  fixes push :: "'s \<Rightarrow> string \<Rightarrow> 's"
    and add :: "'s \<Rightarrow> string \<Rightarrow> 'a add_result \<times> 's"
    and decode :: "'s \<Rightarrow> 'c \<Rightarrow> parse_error + 'a tool_call"
    and idx :: "'s \<Rightarrow> nat"
    and set_idx :: "nat \<Rightarrow> 's \<Rightarrow> 's"
  assumes add_runs: "add_ok (add s x) = (case run (push s x) of (ev, s1) \<Rightarrow>
      (case decode_calls (decode s) (calls_of ev) of
         Inl e \<Rightarrow> None
       | Inr ks \<Rightarrow> Some ((thinking_of ev, content_of ev, fst (number_calls (idx s1) ks)),
           set_idx (idx s1 + length ks) s1)))"
    and idx_set_idx: "idx (set_idx n s) = n"
    and idx_eat: "eat s = (ev, go, s1) \<Longrightarrow> idx s1 = idx s"
    and idx_push: "idx (push s x) = idx s"
begin

lemma idx_run: "idx (snd (run s)) = idx s"
proof (rule run_invariant)
  fix s0 ev go s1
  assume "idx s0 = idx s" and e: "eat s0 = (ev, go, s1)"
  with idx_eat [OF e] show "idx s1 = idx s" by simp
qed (rule refl)

lemma add_indices:
  assumes "add_ok (add s x) = Some ((t, c, ks), s1)"
  shows "call_indices ks = [idx s ..< idx s + length ks] \<and> idx s1 = idx s + length ks"
proof -
  obtain ev s2 where r: "run (push s x) = (ev, s2)" by fastforce
  with idx_run [of "push s x"] have i: "idx s2 = idx s" by (simp add: idx_push)
  from assms r obtain ks0 where "ks = fst (number_calls (idx s2) ks0)" "s1 = set_idx (idx s2 + length ks0) s2"
    by (auto simp: add_runs split: sum.splits)
  with i number_calls_indices [of "idx s" ks0] show ?thesis by (simp add: idx_set_idx)
qed

text \<open>Over a sequence of chunks the calls are numbered consecutively.\<close>

lemma feed_indices:
  "feed_add add s xs = Some ((t, c, ks), s') \<Longrightarrow>
    call_indices ks = [idx s ..< idx s + length ks] \<and> idx s' = idx s + length ks"
proof (induction xs arbitrary: s t c ks)
  case Nil
  then show ?case by (simp add: call_indices_def)
next
  case (Cons x xs)
  from Cons.prems obtain t1 c1 k1 s1 t2 c2 k2 where
    f: "add_ok (add s x) = Some ((t1, c1, k1), s1)" "feed_add add s1 xs = Some ((t2, c2, k2), s')"
      and ks: "ks = k1 @ k2"
    by (rule feed_add_Cons)
  from add_indices [OF f(1)] have "call_indices k1 = [idx s ..< idx s + length k1]" "idx s1 = idx s + length k1"
    by auto
  moreover from Cons.IH [OF f(2)] have "call_indices k2 = [idx s1 ..< idx s1 + length k2]" "idx s' = idx s1 + length k2"
    by auto
  moreover have "call_indices (k1 @ k2) = call_indices k1 @ call_indices k2"
    by (simp add: call_indices_def)
  ultimately show ?case
    using upt_add_eq_append [of "idx s" "idx s + length k1" "length k2"] by (simp add: ks add.assoc)
qed

text \<open>States from which the step never emits thinking.\<close>

lemma feed_no_thinking:
  assumes step: "\<And>s ev go s1. I s \<Longrightarrow> eat s = (ev, go, s1) \<Longrightarrow>
      I s1 \<and> (\<forall>e \<in> set ev. ev_thinking e = [])"
    and push: "\<And>s x. I s \<Longrightarrow> I (push s x)" and set: "\<And>s n. I s \<Longrightarrow> I (set_idx n s)"
    and "I s" "feed_add add s xs = Some ((t, c, k), s')"
  shows "t = []"
proof -
  have "t = [] \<and> I s1" if I: "I s" and a: "add_ok (add s x) = Some ((t, c, k), s1)" for s x t c k s1
  proof -
    obtain ev s2 where r: "run (push s x) = (ev, s2)" by fastforce
    from push [OF I] have st: "I (push s x)" .
    have "I (snd (run (push s x)))"
      by (rule run_invariant [where I = I, OF _ st]) (use step in blast)
    moreover have "ev_thinking e = []" if "e \<in> set (fst (run (push s x)))" for e
      by (rule run_events [where I = I, OF _ st that]) (use step in blast)
    ultimately show ?thesis
      using a r set by (auto simp: add_runs thinking_of_def split: sum.splits)
  qed
  with feed_add_no_thinking [where I = I and add = add, OF _ assms(4,5)] show ?thesis by blast
qed

end

text \<open>A numbered parser whose loop commutes with later input.\<close>

locale chunked_parser = incremental_text eat run m push ok okc +
    numbered_parser eat run m push add decode idx set_idx
  for eat :: "'s \<Rightarrow> 'c parser_event list \<times> bool \<times> 's" and run m push ok okc
    and add :: "'s \<Rightarrow> string \<Rightarrow> 'a add_result \<times> 's" and decode idx set_idx +
  assumes eat_set_idx: "eat (set_idx n s) = (case eat s of (ev, go, s1) \<Rightarrow> (ev, go, set_idx n s1))"
    and push_set_idx: "push (set_idx n s) x = set_idx n (push s x)"
    and set_set_idx: "set_idx k (set_idx n s) = set_idx k s"
    and ok_set_idx: "ok (set_idx n s) = ok s"
    and decode_eat: "eat s = (ev, go, s1) \<Longrightarrow> decode s1 = decode s"
    and decode_push: "decode (push s x) = decode s"
    and decode_set_idx: "decode (set_idx n s) = decode s"
    and okc_append: "okc x \<Longrightarrow> okc y \<Longrightarrow> okc (x @ y)"
begin

lemma run_set_idx: "run (set_idx n s) = (fst (run s), set_idx n (snd (run s)))"
  by (rule run_commute) (rule eat_set_idx)

lemma decode_run: "decode (snd (run s)) = decode s"
proof (rule run_invariant)
  fix s0 ev go s1
  assume "decode s0 = decode s" and e: "eat s0 = (ev, go, s1)"
  with decode_eat [OF e] show "decode s1 = decode s" by simp
qed (rule refl)

text \<open>Two chunks, one after the other, are one.\<close>

lemma add_append:
  assumes ok: "ok s" "okc x" "okc y"
  shows "add_ok (add s (x @ y)) =
    (case add_ok (add s x) of
       None \<Rightarrow> None
     | Some (out, s1) \<Rightarrow> map_option (and_then out) (add_ok (add s1 y)))"
proof -
  obtain ev s1 where r1: "run (push s x) = (ev, s1)" by fastforce
  obtain ev' s2 where r2: "run (push s1 y) = (ev', s2)" by fastforce
  obtain ev'' s3 where r3: "run (push s (x @ y)) = (ev'', s3)" by fastforce
  from run_append [OF ok_push [OF ok(1,2)] ok(3)] r1 r2 r3
  have o: "text_out ev'' = text_out (ev @ ev')" "s3 = s2"
    by (simp_all add: push_push)
  then have ev'': "thinking_of ev'' = thinking_of ev @ thinking_of ev'"
    "content_of ev'' = content_of ev @ content_of ev'" "calls_of ev'' = calls_of ev @ calls_of ev'"
    by (simp_all add: text_out_def)
  have i: "idx s1 = idx s" "idx s2 = idx s"
    using idx_run [of "push s x"] idx_run [of "push s1 y"] r1 r2 by (simp_all add: idx_push)
  have r4: "run (push (set_idx n s1) y) = (ev', set_idx n s2)" for n
    using r2 by (simp add: push_set_idx run_set_idx)
  have dec: "decode (set_idx n s1) = decode s" for n
    using decode_run [of "push s x"] r1 by (simp add: decode_push decode_set_idx)
  show ?thesis
  proof (cases "decode_calls (decode s) (calls_of ev)")
    case (Inl e)
    then show ?thesis by (simp add: add_runs r1 r3 ev'' decode_calls_append)
  next
    case a: (Inr ks)
    have x: "add_ok (add s x) = Some ((thinking_of ev, content_of ev, fst (number_calls (idx s) ks)),
        set_idx (idx s + length ks) s1)"
      by (simp add: add_runs r1 a i)
    show ?thesis
    proof (cases "decode_calls (decode s) (calls_of ev')")
      case (Inl e)
      then show ?thesis by (simp add: x) (simp add: add_runs r3 r4 ev'' a dec decode_calls_append)
    next
      case (Inr ks')
      then show ?thesis
        by (simp add: x)
          (simp add: add_runs r3 r4 ev'' a dec i o(2) decode_calls_append number_calls_append
            set_set_idx idx_set_idx add.assoc)
    qed
  qed
qed

lemma ok_add:
  assumes "ok s" "okc x" "add_ok (add s x) = Some (out, s1)"
  shows "ok s1"
proof -
  obtain ev s2 where r: "run (push s x) = (ev, s2)" by fastforce
  with ok_run [OF ok_push [OF assms(1,2)]] have "ok s2" by simp
  with assms(3) r show ?thesis by (auto simp: add_runs ok_set_idx split: sum.splits)
qed

theorem feed_add_concat:
  assumes "ok s" "\<forall>x \<in> set xs. okc x" "xs \<noteq> []"
  shows "feed_add add s xs = add_ok (add s (concat xs))"
  using assms
proof (induction xs arbitrary: s)
  case Nil
  then show ?case by simp
next
  case (Cons x xs)
  show ?case
  proof (cases "xs = []")
    case True
    have "and_then out (([], [], []), s1) = (out, s1)" for out and s1 :: 's
      by (cases out) simp
    with True show ?thesis by (auto split: option.splits)
  next
    case False
    have "okc (concat xs)" using Cons.prems(2) False
    proof (induction xs)
      case (Cons z zs)
      then show ?case by (cases zs) (auto intro: okc_append)
    qed simp
    with add_append Cons.prems
    have "add_ok (add s (concat (x # xs))) = (case add_ok (add s x) of None \<Rightarrow> None
       | Some (out, s1) \<Rightarrow> map_option (and_then out) (add_ok (add s1 (concat xs))))" by simp
    also have "\<dots> = feed_add add s (x # xs)"
      using Cons.IH Cons.prems False ok_add [of s x] by (auto split: option.splits)
    finally show ?thesis by simp
  qed
qed

end

end
