(* ===== verification/Qwen3VL.thy ===== *)
theory Qwen3VL
  imports TextEvents ApiTypes
begin

text \<open>
  model/parsers/qwen3vl.go: the streaming parser of Qwen3-VL output. Thinking ends at
  \<^verbatim>\<open></think>\<close> or at a tool call; a tool call is the text between \<^verbatim>\<open><tool_call>\<close> and
  \<^verbatim>\<open></tool_call>\<close>, decoded as JSON when the event is processed. The decoding of the raw
  text into a function name and arguments (\<^verbatim>\<open>json.Unmarshal\<close> into a
  \<^verbatim>\<open>ToolCallFunction\<close>, whose arguments are built by go-ordered-map) is a parameter. The
  main result is that the output does not depend on how the text is cut into chunks.
\<close>

section \<open>The parser\<close>

definition toolOpenTag :: string where "toolOpenTag = ''<tool_call>''"
definition toolCloseTag :: string where "toolCloseTag = ''</tool_call>''"
definition thinkingCloseTag :: string where "thinkingCloseTag = ''</think>''"

datatype qwen3vl_state =
    CollectingThinkingContent
  | CollectingContent
  | CollectingToolContent
  | ThinkingDoneEatingWhitespace
  | ToolCallDoneEatingWhitespace

record qwen3vl =
  vl_state :: qwen3vl_state
  vl_buffer :: string
  vl_tools :: "tool list"
  vl_callIndex :: nat
  vl_hasThinkingSupport :: bool

definition qwen3vl_HasThinkingSupport :: "qwen3vl \<Rightarrow> bool" where
  "qwen3vl_HasThinkingSupport p = vl_hasThinkingSupport p"

definition qwen3vl_PreservedTokens :: "string list" where
  "qwen3vl_PreservedTokens = [thinkingCloseTag, toolOpenTag, toolCloseTag]"

definition qwen3vl_setInitialState :: "qwen3vl \<Rightarrow> 'a message option \<Rightarrow> qwen3vl" where
  "qwen3vl_setInitialState p lastMessage =
     (let prefill = (case lastMessage of None \<Rightarrow> False | Some m \<Rightarrow> msg_Role m = ''assistant'') in
      if \<not> qwen3vl_HasThinkingSupport p then p\<lparr>vl_state := CollectingContent\<rparr>
      else if prefill \<and> (case lastMessage of None \<Rightarrow> False | Some m \<Rightarrow> msg_Content m \<noteq> [])
      then p\<lparr>vl_state := CollectingContent\<rparr>
      else p\<lparr>vl_state := CollectingThinkingContent\<rparr>)"

definition qwen3vl_Init :: "qwen3vl \<Rightarrow> tool list \<Rightarrow> 'a message option \<Rightarrow> think_value option
    \<Rightarrow> tool list \<times> qwen3vl" where
  "qwen3vl_Init p tools lastMessage thinkValue =
     (tools, qwen3vl_setInitialState (p\<lparr>vl_tools := tools, vl_callIndex := 0\<rparr>) lastMessage)"

definition qwen3vl_eatLeadingWhitespace ::
    "qwen3vl \<Rightarrow> qwen3vl_state \<Rightarrow> string parser_event list \<times> bool \<times> qwen3vl" where
  "qwen3vl_eatLeadingWhitespace p nextState =
     (let trimmed = trim_left (vl_buffer p) in
      if trimmed = [] then ([], False, p\<lparr>vl_buffer := []\<rparr>)
      else ([], True, p\<lparr>vl_state := nextState, vl_buffer := trimmed\<rparr>))"

definition qwen3vl_eat :: "qwen3vl \<Rightarrow> string parser_event list \<times> bool \<times> qwen3vl" where
  "qwen3vl_eat p = (let buf = vl_buffer p in case vl_state p of
     CollectingContent \<Rightarrow>
       if contains buf toolOpenTag then
         (case split_at_tag buf toolOpenTag False of (before, _, sb) \<Rightarrow>
            (emit EvContent before, True, p\<lparr>vl_state := CollectingToolContent, vl_buffer := sb\<rparr>))
       else let overlapLen = overlap buf toolOpenTag in
         if 0 < overlapLen then
           (case withhold buf overlapLen of (unambiguous, ambiguous) \<Rightarrow>
              (emit EvContent unambiguous, False, p\<lparr>vl_buffer := ambiguous\<rparr>))
         else
           (case withhold buf 0 of (unambiguous, ambiguous) \<Rightarrow>
              (emit EvContent unambiguous, False, p\<lparr>vl_buffer := ambiguous\<rparr>))
   | CollectingToolContent \<Rightarrow>
       if contains buf toolCloseTag then
         (case splitn2 buf toolCloseTag of
            [before, after] \<Rightarrow>
              ([EvCall before], True, p\<lparr>vl_state := ToolCallDoneEatingWhitespace, vl_buffer := after\<rparr>)
          | _ \<Rightarrow> ([], False, p))
       else ([], False, p)
   | CollectingThinkingContent \<Rightarrow>
       (let thinkingCloseIdx = index buf thinkingCloseTag;
            toolOpenIdx = index buf toolOpenTag in
        if (case toolOpenIdx of
              None \<Rightarrow> False
            | Some i \<Rightarrow> (case thinkingCloseIdx of None \<Rightarrow> True | Some j \<Rightarrow> i < j)) then
          (case split_at_tag buf toolOpenTag False of (before, _, sb) \<Rightarrow>
             (emit EvThinking before, True, p\<lparr>vl_state := CollectingToolContent, vl_buffer := sb\<rparr>))
        else if contains buf thinkingCloseTag then
          (case split_at_tag buf thinkingCloseTag True of (thinking, remaining, sb) \<Rightarrow>
             (emit EvThinking thinking, True,
              p\<lparr>vl_state := (if remaining = [] then ThinkingDoneEatingWhitespace
                            else CollectingContent),
                vl_buffer := sb\<rparr>))
        else let overlapLen = max (overlap buf thinkingCloseTag) (overlap buf toolOpenTag) in
          if 0 < overlapLen then
            (case withhold buf overlapLen of (unambiguous, ambiguous) \<Rightarrow>
               (emit EvThinking unambiguous, False, p\<lparr>vl_buffer := ambiguous\<rparr>))
          else
            (case withhold buf 0 of (unambiguous, ambiguous) \<Rightarrow>
               (emit EvThinking unambiguous, False, p\<lparr>vl_buffer := ambiguous\<rparr>)))
   | ThinkingDoneEatingWhitespace \<Rightarrow> qwen3vl_eatLeadingWhitespace p CollectingContent
   | ToolCallDoneEatingWhitespace \<Rightarrow> qwen3vl_eatLeadingWhitespace p CollectingContent)"

text \<open>The loop: every step that asks to go on shortens the buffer or leaves a waiting state.\<close>

fun vl_rank :: "qwen3vl_state \<Rightarrow> nat" where
  "vl_rank ThinkingDoneEatingWhitespace = 1"
| "vl_rank ToolCallDoneEatingWhitespace = 1"
| "vl_rank _ = 0"

definition vl_measure :: "qwen3vl \<Rightarrow> nat" where
  "vl_measure p = 2 * length (vl_buffer p) + vl_rank (vl_state p)"

lemma vl_tags:
  "toolOpenTag \<noteq> []" "toolCloseTag \<noteq> []" "thinkingCloseTag \<noteq> []"
  "\<not> cont_byte (hd toolOpenTag)" "apart thinkingCloseTag toolOpenTag"
  by (simp_all add: toolOpenTag_def toolCloseTag_def thinkingCloseTag_def apart_def cont_byte_def in_range_def)

text \<open>The step, state by state, over the position of the tags.\<close>

lemma vl_eat_content:
  assumes "vl_state p = CollectingContent"
  shows "qwen3vl_eat p = (case index (vl_buffer p) toolOpenTag of
     Some i \<Rightarrow> (emit EvContent (trim_right (take i (vl_buffer p))), True,
       p\<lparr>vl_state := CollectingToolContent, vl_buffer := drop (i + length toolOpenTag) (vl_buffer p)\<rparr>)
   | None \<Rightarrow> (case withhold (vl_buffer p) (overlap (vl_buffer p) toolOpenTag) of (u, h) \<Rightarrow>
       (emit EvContent u, False, p\<lparr>vl_buffer := h\<rparr>)))"
  using assms by (auto simp: qwen3vl_eat_def contains_def split_at_tag_found Let_def split: option.splits)

lemma vl_eat_thinking:
  assumes "vl_state p = CollectingThinkingContent"
  shows "qwen3vl_eat p = (case scan2 (vl_buffer p) thinkingCloseTag toolOpenTag of
     Second i \<Rightarrow> (emit EvThinking (trim_right (take i (vl_buffer p))), True,
       p\<lparr>vl_state := CollectingToolContent, vl_buffer := drop (i + length toolOpenTag) (vl_buffer p)\<rparr>)
   | First i \<Rightarrow> (let r = trim_left (drop (i + length thinkingCloseTag) (vl_buffer p)) in
       (emit EvThinking (trim_right (take i (vl_buffer p))), True,
        p\<lparr>vl_state := (if r = [] then ThinkingDoneEatingWhitespace else CollectingContent), vl_buffer := r\<rparr>))
   | NoTag \<Rightarrow> (case withhold (vl_buffer p)
         (max (overlap (vl_buffer p) thinkingCloseTag) (overlap (vl_buffer p) toolOpenTag)) of (u, h) \<Rightarrow>
       (emit EvThinking u, False, p\<lparr>vl_buffer := h\<rparr>)))"
  using assms
  by (cases "index (vl_buffer p) thinkingCloseTag"; cases "index (vl_buffer p) toolOpenTag")
    (auto simp: qwen3vl_eat_def contains_def split_at_tag_found scan2_def Let_def)

lemma vl_eat_tool:
  assumes "vl_state p = CollectingToolContent"
  shows "qwen3vl_eat p = (case index (vl_buffer p) toolCloseTag of
     Some i \<Rightarrow> ([EvCall (take i (vl_buffer p))], True,
       p\<lparr>vl_state := ToolCallDoneEatingWhitespace,
         vl_buffer := drop (i + length toolCloseTag) (vl_buffer p)\<rparr>)
   | None \<Rightarrow> ([], False, p))"
  using assms by (auto simp: qwen3vl_eat_def contains_def splitn2_def Let_def split: option.splits)

lemma vl_eat_waiting:
  assumes "vl_state p = ThinkingDoneEatingWhitespace \<or> vl_state p = ToolCallDoneEatingWhitespace"
  shows "qwen3vl_eat p = (if trim_left (vl_buffer p) = [] then ([], False, p\<lparr>vl_buffer := []\<rparr>)
     else ([], True, p\<lparr>vl_state := CollectingContent, vl_buffer := trim_left (vl_buffer p)\<rparr>))"
  using assms by (auto simp: qwen3vl_eat_def qwen3vl_eatLeadingWhitespace_def Let_def)

lemma vl_progress: "qwen3vl_eat p = (ev, True, p1) \<Longrightarrow> vl_measure p1 < vl_measure p"
proof (cases "vl_state p")
  case CollectingContent
  assume "qwen3vl_eat p = (ev, True, p1)"
  with CollectingContent show ?thesis
    using index_le [of "vl_buffer p" toolOpenTag]
    by (auto simp: vl_eat_content vl_measure_def toolOpenTag_def split: option.splits prod.splits)
next
  case CollectingThinkingContent
  assume e: "qwen3vl_eat p = (ev, True, p1)"
  have t: "length (trim_left (drop k (vl_buffer p))) \<le> length (vl_buffer p) - k" for k
    using length_trim_left [of "drop k (vl_buffer p)"] by simp
  show ?thesis
  proof (cases "scan2 (vl_buffer p) thinkingCloseTag toolOpenTag")
    case (First i)
    with CollectingThinkingContent e show ?thesis
      using vl_tags(3) index_le [OF scan2_le(1) [OF First]] t [of "i + length thinkingCloseTag"]
      by (auto simp: vl_eat_thinking vl_measure_def Let_def thinkingCloseTag_def)
  next
    case (Second i)
    with CollectingThinkingContent e show ?thesis
      using index_le [OF scan2_le(2) [OF Second]]
      by (auto simp: vl_eat_thinking vl_measure_def toolOpenTag_def)
  qed (use CollectingThinkingContent e in \<open>auto simp: vl_eat_thinking split: prod.splits\<close>)
next
  case CollectingToolContent
  assume "qwen3vl_eat p = (ev, True, p1)"
  with CollectingToolContent show ?thesis
    using index_le [of "vl_buffer p" toolCloseTag]
    by (auto simp: vl_eat_tool vl_measure_def toolCloseTag_def split: option.splits)
qed (use length_trim_left [of "vl_buffer p"] in \<open>auto simp: vl_eat_waiting vl_measure_def split: if_splits\<close>)

function qwen3vl_parseEvents :: "qwen3vl \<Rightarrow> string parser_event list \<times> qwen3vl" where
  "qwen3vl_parseEvents p =
     (case qwen3vl_eat p of (events, keepLooping, p1) \<Rightarrow>
        if keepLooping then (case qwen3vl_parseEvents p1 of (all, p2) \<Rightarrow> (events @ all, p2))
        else (events, p1))"
  by pat_completeness auto
termination by (relation "measure vl_measure") (auto dest: vl_progress [OF sym])

declare qwen3vl_parseEvents.simps [simp del]

text \<open>
  \<^verbatim>\<open>parseJSONToolCall\<close>, given the decoder of the function, and the event loop of \<^verbatim>\<open>Add\<close>.
  Events after a call that fails to decode are dropped with everything before it.
\<close>

definition parseJSONToolCall ::
    "(string \<Rightarrow> 'a tool_call_function option) \<Rightarrow> string \<Rightarrow> parse_error + 'a tool_call" where
  "parseJSONToolCall unmarshal raw =
     (case unmarshal raw of
        None \<Rightarrow> Inl JSONError
      | Some toolCallFunction \<Rightarrow> Inr \<lparr>tc_ID = [], tc_Function = toolCallFunction\<rparr>)"

fun qwen3vl_handle :: "(string \<Rightarrow> 'a tool_call_function option) \<Rightarrow> string parser_event list
    \<Rightarrow> string \<Rightarrow> string \<Rightarrow> 'a tool_call list \<Rightarrow> parse_error + string \<times> string \<times> 'a tool_call list" where
  "qwen3vl_handle unmarshal [] contentSb thinkingSb calls = Inr (contentSb, thinkingSb, calls)"
| "qwen3vl_handle unmarshal (EvCall raw # events) contentSb thinkingSb calls =
     (case parseJSONToolCall unmarshal raw of
        Inl err \<Rightarrow> Inl err
      | Inr toolCall \<Rightarrow> qwen3vl_handle unmarshal events contentSb thinkingSb (calls @ [toolCall]))"
| "qwen3vl_handle unmarshal (EvThinking x # events) contentSb thinkingSb calls =
     qwen3vl_handle unmarshal events contentSb (thinkingSb @ x) calls"
| "qwen3vl_handle unmarshal (EvContent x # events) contentSb thinkingSb calls =
     qwen3vl_handle unmarshal events (contentSb @ x) thinkingSb calls"

definition vl_push :: "qwen3vl \<Rightarrow> string \<Rightarrow> qwen3vl" where
  "vl_push p x = p\<lparr>vl_buffer := vl_buffer p @ x\<rparr>"

definition qwen3vl_Add :: "(string \<Rightarrow> 'a tool_call_function option) \<Rightarrow> qwen3vl \<Rightarrow> string \<Rightarrow> bool
    \<Rightarrow> 'a add_result \<times> qwen3vl" where
  "qwen3vl_Add unmarshal p s done =
     (case qwen3vl_parseEvents (vl_push p s) of (events, p1) \<Rightarrow>
        case qwen3vl_handle unmarshal events [] [] [] of
          Inl err \<Rightarrow> (([], [], [], Some err), p1)
        | Inr (content, thinking, calls) \<Rightarrow>
            (case number_calls (vl_callIndex p1) calls of (calls', n) \<Rightarrow>
               ((content, thinking, calls', None), p1\<lparr>vl_callIndex := n\<rparr>)))"

section \<open>A step commutes with later input\<close>

interpretation vt: text_parser qwen3vl_eat qwen3vl_parseEvents vl_measure
proof (unfold_locales, goal_cases)
  case (1 p)
  show ?case by (subst qwen3vl_parseEvents.simps) (auto split: prod.splits)
qed (rule vl_progress)

lemma vl_push_simps [simp]:
  "vl_state (vl_push p x) = vl_state p" "vl_buffer (vl_push p x) = vl_buffer p @ x"
  "(vl_push p x)\<lparr>vl_buffer := b\<rparr> = p\<lparr>vl_buffer := b\<rparr>"
  "(vl_push p x)\<lparr>vl_state := st, vl_buffer := b\<rparr> = p\<lparr>vl_state := st, vl_buffer := b\<rparr>"
  "vl_push (p\<lparr>vl_buffer := b\<rparr>) x = p\<lparr>vl_buffer := b @ x\<rparr>"
  "vl_push (p\<lparr>vl_state := st, vl_buffer := b\<rparr>) x = p\<lparr>vl_state := st, vl_buffer := b @ x\<rparr>"
  by (simp_all add: vl_push_def)

lemma vl_law_content:
  assumes st: "vl_state p = CollectingContent" and w: "whole (vl_buffer p)"
    and e: "qwen3vl_eat p = (ev, go, p1)"
  shows "vt.res (vl_push p y) = and_then (text_out ev) (vt.res (vl_push p1 y))"
proof (cases "index (vl_buffer p) toolOpenTag")
  case (Some i)
  note le = index_le [OF Some]
  from e Some st have "qwen3vl_eat (vl_push p y) = (ev, True, vl_push p1 y)"
    using index_append_left [OF Some, of y] le by (auto simp: vl_eat_content)
  then show ?thesis by (rule vt.res_more)
next
  case None
  let ?k = "overlap (vl_buffer p) toolOpenTag"
  obtain u h where uh: "withhold (vl_buffer p) ?k = (u, h)" by fastforce
  with e None st have ev: "ev = emit EvContent u" and p1: "p1 = p\<lparr>vl_buffer := h\<rparr>"
    by (auto simp: vl_eat_content)
  have t: "tag_start (vl_buffer p) ?k" using vl_tags by (intro tag_start_overlap) simp
  note scan = withhold_scan [OF None order.refl t uh, of y]
  note cut = withhold_trim [OF w t uh] withhold_again [OF w t uh]
  have b: "vl_buffer p = u @ h" using withhold_kept(2) [OF t uh] .
  show ?thesis
  proof (cases "index (h @ y) toolOpenTag")
    case (Some i)
    with st scan(1) cut(1) b show ?thesis
      by (simp add: ev p1 vt.res_more vl_eat_content text_out_def)
  next
    case None
    obtain u' h' where "withhold (h @ y) (overlap (h @ y) toolOpenTag) = (u', h')" by fastforce
    with None st scan cut(2) [OF overlap_le(1)] show ?thesis
      by (simp add: ev p1 vt.res_stop vl_eat_content text_out_def)
  qed
qed

lemma vl_res_waiting:
  assumes "vl_state p = ThinkingDoneEatingWhitespace \<or> vl_state p = ToolCallDoneEatingWhitespace"
  shows "vt.res p = (if trim_left (vl_buffer p) = [] then (([], [], []), p\<lparr>vl_buffer := []\<rparr>)
     else vt.res (p\<lparr>vl_state := CollectingContent, vl_buffer := trim_left (vl_buffer p)\<rparr>))"
  using vl_eat_waiting [OF assms] by (auto simp: vt.res_stop vt.res_skip text_out_def)

lemma vl_law_thinking:
  assumes st: "vl_state p = CollectingThinkingContent" and w: "whole (vl_buffer p)"
    and e: "qwen3vl_eat p = (ev, go, p1)"
  shows "vt.res (vl_push p y) = and_then (text_out ev) (vt.res (vl_push p1 y))"
proof (cases "scan2 (vl_buffer p) thinkingCloseTag toolOpenTag")
  case (Second i)
  note le = index_le [OF scan2_le(2) [OF Second]]
  from e Second st have "qwen3vl_eat (vl_push p y) = (ev, True, vl_push p1 y)"
    using scan2_append [OF vl_tags(5), of "vl_buffer p" y] le by (auto simp: vl_eat_thinking)
  then show ?thesis by (rule vt.res_more)
next
  case (First i)
  let ?d = "drop (i + length thinkingCloseTag) (vl_buffer p)"
  note le = index_le [OF scan2_le(1) [OF First]]
  have sc: "scan2 (vl_buffer p @ y) thinkingCloseTag toolOpenTag = First i"
    using scan2_append [OF vl_tags(5), of "vl_buffer p" y] First by simp
  from e First st have ev: "ev = emit EvThinking (trim_right (take i (vl_buffer p)))"
    and p1: "p1 = p\<lparr>vl_state := (if trim_left ?d = [] then ThinkingDoneEatingWhitespace
       else CollectingContent), vl_buffer := trim_left ?d\<rparr>"
    by (auto simp: vl_eat_thinking Let_def)
  let ?r = "trim_left (?d @ y)"
  have t: "?r = (if trim_left ?d = [] then trim_left y else trim_left ?d @ y)"
    using w by (simp add: trim_left_append_ws trim_left_append whole_drop)
  have "qwen3vl_eat (vl_push p y) = (ev, True,
      p\<lparr>vl_state := (if ?r = [] then ThinkingDoneEatingWhitespace else CollectingContent), vl_buffer := ?r\<rparr>)"
    using st sc le by (simp add: vl_eat_thinking ev Let_def)
  then show ?thesis
    unfolding t p1 by (auto simp: vt.res_more vl_res_waiting)
next
  case NoTag
  let ?k = "max (overlap (vl_buffer p) thinkingCloseTag) (overlap (vl_buffer p) toolOpenTag)"
  obtain u h where uh: "withhold (vl_buffer p) ?k = (u, h)" by fastforce
  with e NoTag st have ev: "ev = emit EvThinking u" and p1: "p1 = p\<lparr>vl_buffer := h\<rparr>"
    by (auto simp: vl_eat_thinking)
  note scan = scan2_withhold [OF vl_tags(5) NoTag refl uh]
  note cut = withhold_trim [OF w scan(1) uh] withhold_again [OF w scan(1) uh]
  have b: "vl_buffer p = u @ h" using withhold_kept(2) [OF scan(1) uh] .
  let ?v = "h @ y"
  show ?thesis
  proof (cases "scan2 ?v thinkingCloseTag toolOpenTag")
    case (First i)
    with st scan(2) cut(1) b show ?thesis
      by (simp add: ev p1 vt.res_more vl_eat_thinking text_out_def Let_def add.assoc)
  next
    case (Second i)
    with st scan(2) cut(1) b show ?thesis
      by (simp add: ev p1 vt.res_more vl_eat_thinking text_out_def)
  next
    case NoTag
    let ?l = "max (overlap ?v thinkingCloseTag) (overlap ?v toolOpenTag)"
    obtain u' h' where uh': "withhold ?v ?l = (u', h')" by fastforce
    have "?l \<le> length ?v" by (intro max.boundedI overlap_le(1))
    from cut(2) [OF this] uh' NoTag st scan(2,3) show ?thesis
      by (simp add: ev p1 vt.res_stop vl_eat_thinking text_out_def)
  qed
qed

lemma vl_law_tool:
  assumes st: "vl_state p = CollectingToolContent" and e: "qwen3vl_eat p = (ev, go, p1)"
  shows "vt.res (vl_push p y) = and_then (text_out ev) (vt.res (vl_push p1 y))"
proof (cases "index (vl_buffer p) toolCloseTag")
  case None
  with st e show ?thesis by (simp add: vl_eat_tool text_out_def)
next
  case (Some i)
  from e Some st have "qwen3vl_eat (vl_push p y) = (ev, True, vl_push p1 y)"
    using index_append_left [OF Some, of y] index_le [OF Some] by (auto simp: vl_eat_tool)
  then show ?thesis by (rule vt.res_more)
qed

lemma vl_law_waiting:
  assumes st: "vl_state p = ThinkingDoneEatingWhitespace \<or> vl_state p = ToolCallDoneEatingWhitespace"
    and w: "whole (vl_buffer p)" and e: "qwen3vl_eat p = (ev, go, p1)"
  shows "vt.res (vl_push p y) = and_then (text_out ev) (vt.res (vl_push p1 y))"
proof (cases "trim_left (vl_buffer p) = []")
  case True
  with e vl_eat_waiting [OF st] have "ev = []" "p1 = p\<lparr>vl_buffer := []\<rparr>" by auto
  with True st show ?thesis
    by (simp add: vl_res_waiting trim_left_append_ws text_out_def)
next
  case False
  with e vl_eat_waiting [OF st]
  have "ev = []" "p1 = p\<lparr>vl_state := CollectingContent, vl_buffer := trim_left (vl_buffer p)\<rparr>" by auto
  with False w st show ?thesis by (simp add: vl_res_waiting trim_left_append text_out_def)
qed

lemma vl_law:
  "whole (vl_buffer p) \<Longrightarrow> qwen3vl_eat p = (ev, go, p1) \<Longrightarrow>
    vt.res (vl_push p y) = and_then (text_out ev) (vt.res (vl_push p1 y))"
  by (cases "vl_state p")
    (auto intro: vl_law_content vl_law_thinking vl_law_tool vl_law_waiting)

lemma vl_eat_whole:
  assumes w: "whole (vl_buffer p)" and e: "qwen3vl_eat p = (ev, go, p1)"
  shows "whole (vl_buffer p1)"
proof -
  have t: "whole (trim_left u)" if "whole u" for u
    using that suffix_trim_left by (rule whole_suffix)
  show ?thesis
    using w e by (cases "vl_state p")
      (auto simp: vl_eat_content vl_eat_thinking vl_eat_tool vl_eat_waiting Let_def whole_drop t
        split: option.splits prod.splits which_tag.splits if_splits intro: withhold_whole)
qed

interpretation vi: incremental_text qwen3vl_eat qwen3vl_parseEvents vl_measure
  vl_push "\<lambda>p. whole (vl_buffer p)" whole
proof (unfold_locales, goal_cases)
  case (3 p ev go p1)
  then show ?case by (rule vl_eat_whole)
next
  case (4 p y ev go p1)
  then show ?case by (intro vl_law)
qed (simp_all add: vl_push_def whole_append)

section \<open>\<^verbatim>\<open>Add\<close> as an instance of the numbered parser\<close>

lemma qwen3vl_handle_eq:
  "qwen3vl_handle u ev c t k = (case decode_calls (parseJSONToolCall u) (calls_of ev) of
     Inl e \<Rightarrow> Inl e | Inr ks \<Rightarrow> Inr (c @ content_of ev, t @ thinking_of ev, k @ ks))"
  by (induction u ev c t k rule: qwen3vl_handle.induct) (auto split: sum.splits)

definition vl_set_index :: "nat \<Rightarrow> qwen3vl \<Rightarrow> qwen3vl" where
  "vl_set_index n p = p\<lparr>vl_callIndex := n\<rparr>"

lemma vl_eat_index:
  "qwen3vl_eat p = (ev, go, p1) \<Longrightarrow> vl_callIndex p1 = vl_callIndex p"
  by (auto simp: qwen3vl_eat_def qwen3vl_eatLeadingWhitespace_def Let_def
      split: qwen3vl_state.splits if_splits prod.splits option.splits list.splits)

lemma vl_eat_set_index:
  "qwen3vl_eat (vl_set_index n p) = (case qwen3vl_eat p of (ev, go, p1) \<Rightarrow> (ev, go, vl_set_index n p1))"
proof (cases "vl_state p")
  case CollectingToolContent
  then show ?thesis by (simp add: vl_eat_tool vl_set_index_def split: option.splits)
next
  case CollectingContent
  then show ?thesis by (simp add: vl_eat_content vl_set_index_def split: option.splits prod.splits)
next
  case CollectingThinkingContent
  then show ?thesis
    by (simp add: vl_eat_thinking vl_set_index_def Let_def split: which_tag.splits prod.splits)
qed (simp_all add: vl_eat_waiting vl_set_index_def)

interpretation vn: chunked_parser qwen3vl_eat qwen3vl_parseEvents vl_measure
  vl_push "\<lambda>p. whole (vl_buffer p)" whole "\<lambda>p x. qwen3vl_Add u p x d"
  "\<lambda>_. parseJSONToolCall u" vl_callIndex vl_set_index for u d
proof (unfold_locales, goal_cases)
  case (1 p x)
  show ?case
    by (simp add: qwen3vl_Add_def qwen3vl_handle_eq vl_set_index_def prod_eq_iff
        number_calls_indices split: prod.splits sum.splits)
next
  case (3 p ev go p1)
  then show ?case by (rule vl_eat_index)
next
  case (5 n p)
  show ?case by (rule vl_eat_set_index)
qed (simp_all add: vl_push_def vl_set_index_def whole_append)

section \<open>Properties\<close>

text \<open>
  C15. The output of the Qwen3-VL parser does not depend on how the text is cut into chunks:
  calling \<^verbatim>\<open>Add\<close> on each chunk, none of which ends inside a white-space character, gives the
  same thinking, content, numbered calls and final state as one \<^verbatim>\<open>Add\<close> of the whole text, and
  fails exactly when that fails.
\<close>

theorem qwen3vl_chunk_independent:
  assumes "whole (vl_buffer p)" "\<forall>x \<in> set xs. whole x" "xs \<noteq> []"
  shows "feed_add (\<lambda>p x. qwen3vl_Add u p x d) p xs = add_ok (qwen3vl_Add u p (concat xs) d)"
  by (rule vn.feed_add_concat [OF assms])

definition vl_sample :: qwen3vl where
  "vl_sample = \<lparr>vl_state = CollectingThinkingContent, vl_buffer = [], vl_tools = [],
     vl_callIndex = 0, vl_hasThinkingSupport = True\<rparr>"

definition vl_sample_decode :: "string \<Rightarrow> string tool_call_function option" where
  "vl_sample_decode raw = (if raw = ''{}'' then
     Some \<lparr>tcf_Index = 0, tcf_Name = ''f'', tcf_Arguments = []\<rparr> else None)"

lemma qwen3vl_chunk_independent_witness:
  "feed_add (\<lambda>p x. qwen3vl_Add vl_sample_decode p x False) vl_sample
     [''a</thi'', ''nk> b <tool_call>{}</tool'', ''_call>c''] =
   Some ((''a'', ''bc'', [set_index 0 (new_call ''f'' [])]), vl_sample\<lparr>vl_callIndex := 1,
      vl_state := CollectingContent\<rparr>)"
proof -
  let ?xs = "[''a</thi'', ''nk> b <tool_call>{}</tool'', ''_call>c'']"
  have w: "\<forall>x \<in> set ?xs. whole x" by (auto intro!: whole_ascii_end)
  have "whole (vl_buffer vl_sample)" by (simp add: vl_sample_def)
  from qwen3vl_chunk_independent [OF this w, of vl_sample_decode False]
  have "feed_add (\<lambda>p x. qwen3vl_Add vl_sample_decode p x False) vl_sample ?xs =
    add_ok (qwen3vl_Add vl_sample_decode vl_sample ''a</think> b <tool_call>{}</tool_call>c'' False)" by simp
  also have "\<dots> = Some ((''a'', ''bc'', [set_index 0 (new_call ''f'' [])]), vl_sample\<lparr>vl_callIndex := 1,
      vl_state := CollectingContent\<rparr>)"
    by code_simp
  finally show ?thesis .
qed

text \<open>
  After \<^verbatim>\<open>Init\<close>, the tool calls returned over any sequence of successful calls of \<^verbatim>\<open>Add\<close>
  are numbered 0, 1, 2, and so on, with no gap and no repetition.
\<close>

theorem qwen3vl_call_indices:
  assumes "feed_add (\<lambda>p x. qwen3vl_Add u p x d) (snd (qwen3vl_Init p tools msg think)) xs =
    Some ((t, c, ks), p')"
  shows "call_indices ks = [0 ..< length ks]"
proof -
  have "vl_callIndex (snd (qwen3vl_Init p tools msg think)) = 0"
    by (simp add: qwen3vl_Init_def qwen3vl_setInitialState_def Let_def)
  with vn.feed_indices [OF assms] show ?thesis by simp
qed

text \<open>The events are free of the tags they were cut at.\<close>

fun vl_event_ok :: "string parser_event \<Rightarrow> bool" where
  "vl_event_ok (EvContent x) = (x \<noteq> [] \<and> \<not> contains x toolOpenTag)"
| "vl_event_ok (EvThinking x) = (x \<noteq> [] \<and> \<not> contains x toolOpenTag \<and> \<not> contains x thinkingCloseTag)"
| "vl_event_ok (EvCall raw) = (\<not> contains raw toolCloseTag)"

lemma vl_eat_events:
  assumes "qwen3vl_eat p = (ev, go, p1)" "e \<in> set ev"
  shows "vl_event_ok e"
proof (cases "vl_state p")
  case CollectingContent
  with assms show ?thesis
    using trim_free [OF first_free [OF vl_tags(1)]] withhold_free [of "vl_buffer p" toolOpenTag]
    by (auto simp: vl_eat_content set_emit contains_def split: option.splits prod.splits)
next
  case CollectingThinkingContent
  show ?thesis
  proof (cases "scan2 (vl_buffer p) thinkingCloseTag toolOpenTag")
    case NoTag
    with CollectingThinkingContent assms scan2_none [OF NoTag] show ?thesis
      by (auto simp: vl_eat_thinking set_emit split: prod.splits dest: withhold_free [rotated])
  next
    case (First i)
    with scan2_free [OF vl_tags(5), of "vl_buffer p" i] CollectingThinkingContent assms show ?thesis
      by (auto simp: vl_eat_thinking set_emit Let_def)
  next
    case (Second i)
    with scan2_free [OF vl_tags(5), of "vl_buffer p" i] CollectingThinkingContent assms show ?thesis
      by (auto simp: vl_eat_thinking set_emit)
  qed
next
  case CollectingToolContent
  with assms first_free [OF vl_tags(2)] show ?thesis
    by (auto simp: vl_eat_tool split: option.splits)
qed (use assms in \<open>auto simp: vl_eat_waiting split: if_splits\<close>)

text \<open>
  Every event of the loop is clean: a piece of content is not empty and contains no
  \<^verbatim>\<open><tool_call>\<close>, a piece of thinking contains neither that nor \<^verbatim>\<open></think>\<close>, and the raw
  text of a call does not contain \<^verbatim>\<open></tool_call>\<close>.
\<close>

theorem qwen3vl_events_tag_free: "list_all vl_event_ok (fst (qwen3vl_parseEvents p))"
  unfolding list_all_iff
proof
  fix e assume e: "e \<in> set (fst (qwen3vl_parseEvents p))"
  show "vl_event_ok e"
    by (rule vt.run_events [where I = "\<lambda>_. True", OF _ TrueI e]) (use vl_eat_events in blast)
qed

lemma vl_eat_no_thinking:
  assumes "vl_state p \<noteq> CollectingThinkingContent" "qwen3vl_eat p = (ev, go, p1)"
  shows "vl_state p1 \<noteq> CollectingThinkingContent \<and> (\<forall>e \<in> set ev. ev_thinking e = [])"
  using assms
  by (cases "vl_state p")
    (auto simp: vl_eat_content vl_eat_tool vl_eat_waiting set_emit split: option.splits prod.splits if_splits)

text \<open>
  Without thinking support no thinking is ever returned: after \<^verbatim>\<open>Init\<close> of a parser whose
  \<^verbatim>\<open>hasThinkingSupport\<close> is false, the thinking text of every sequence of chunks is empty, whatever
  the text contains.
\<close>

theorem qwen3vl_no_thinking:
  assumes "\<not> qwen3vl_HasThinkingSupport p"
    and "feed_add (\<lambda>p x. qwen3vl_Add u p x d) (snd (qwen3vl_Init p tools msg think)) xs =
      Some ((t, c, ks), p')"
  shows "t = []"
proof -
  have "vl_state (snd (qwen3vl_Init p tools msg think)) \<noteq> CollectingThinkingContent"
    using assms(1)
    by (simp add: qwen3vl_Init_def qwen3vl_setInitialState_def Let_def qwen3vl_HasThinkingSupport_def)
  then show ?thesis
    using vl_eat_no_thinking
    by (intro vn.feed_no_thinking [where I = "\<lambda>p. vl_state p \<noteq> CollectingThinkingContent",
          OF _ _ _ _ assms(2)]) (auto simp: vl_set_index_def)
qed

lemma qwen3vl_no_thinking_witness:
  "feed_add (\<lambda>p x. qwen3vl_Add vl_sample_decode p x False)
     (snd (qwen3vl_Init (vl_sample\<lparr>vl_hasThinkingSupport := False\<rparr>) []
        (None :: unit message option) None)) [''a</think>b''] = Some (([], ''a</think>b'', []),
     vl_sample\<lparr>vl_hasThinkingSupport := False, vl_state := CollectingContent\<rparr>) \<and> [] = ([] :: string)"
proof -
  have f: "feed_add (\<lambda>p x. qwen3vl_Add vl_sample_decode p x False)
     (snd (qwen3vl_Init (vl_sample\<lparr>vl_hasThinkingSupport := False\<rparr>) []
        (None :: unit message option) None)) [''a</think>b''] = Some (([], ''a</think>b'', []),
     vl_sample\<lparr>vl_hasThinkingSupport := False, vl_state := CollectingContent\<rparr>)"
    by code_simp
  moreover have "\<not> qwen3vl_HasThinkingSupport (vl_sample\<lparr>vl_hasThinkingSupport := False\<rparr>)"
    by (simp add: qwen3vl_HasThinkingSupport_def)
  note qwen3vl_no_thinking [OF this f]
  ultimately show ?thesis by blast
qed

lemma qwen3vl_call_indices_witness:
  "call_indices [set_index 0 (new_call ''f'' ([] :: string)), set_index 1 (new_call ''f'' [])] = [0, 1]"
proof -
  have f: "feed_add (\<lambda>p x. qwen3vl_Add vl_sample_decode p x False)
     (snd (qwen3vl_Init (vl_sample\<lparr>vl_hasThinkingSupport := False\<rparr>) []
        (None :: unit message option) None))
     [''<tool_call>{}</tool_call>'', ''<tool_call>{}</tool_call>''] =
     Some (([], [], [set_index 0 (new_call ''f'' []), set_index 1 (new_call ''f'' [])]),
     vl_sample\<lparr>vl_hasThinkingSupport := False, vl_state := ToolCallDoneEatingWhitespace,
       vl_callIndex := 2\<rparr>)"
    by code_simp
  from qwen3vl_call_indices [OF f] show ?thesis by simp
qed

end
