(* ===== verification/Qwen3.thy ===== *)
theory Qwen3
  imports TextEvents
begin

text \<open>
  model/parsers/qwen3.go: the streaming parser of Qwen3 output. Thinking ends at \<^verbatim>\<open></think>\<close>
  or at a tool call, white space around the tags is dropped, and a tool call is JSON between
  \<^verbatim>\<open><tool_call>\<close> and \<^verbatim>\<open></tool_call>\<close>. What \<^verbatim>\<open>json.Unmarshal\<close> makes of the text of a call (its
  name and its ordered map of arguments) is a parameter.
\<close>

section \<open>The parser\<close>

datatype qwen3_state =
    Qwen3LookingForThinkingOpen
  | Qwen3ThinkingStartedEatingWhitespace
  | Qwen3CollectingThinking
  | Qwen3ThinkingDoneEatingWhitespace
  | Qwen3CollectingContent
  | Qwen3ToolStartedEatingWhitespace
  | Qwen3CollectingToolContent

definition qwen3ThinkingOpenTag :: string where "qwen3ThinkingOpenTag = ''<think>''"
definition qwen3ThinkingCloseTag :: string where "qwen3ThinkingCloseTag = ''</think>''"
definition qwen3ToolOpenTag :: string where "qwen3ToolOpenTag = ''<tool_call>''"
definition qwen3ToolCloseTag :: string where "qwen3ToolCloseTag = ''</tool_call>''"

record qwen3 =
  q3_state :: qwen3_state
  q3_buffer :: string
  q3_tools :: "tool list"
  q3_callIndex :: nat
  q3_hasThinkingSupport :: bool
  q3_defaultThinking :: bool
  q3_maybeThinkingOpenAtBOL :: bool

definition qwen3_HasToolSupport :: "qwen3 \<Rightarrow> bool" where
  "qwen3_HasToolSupport p = True"

definition qwen3_HasThinkingSupport :: "qwen3 \<Rightarrow> bool" where
  "qwen3_HasThinkingSupport p = q3_hasThinkingSupport p"

definition qwen3_PreservedTokens :: "string list" where
  "qwen3_PreservedTokens =
     [qwen3ThinkingOpenTag, qwen3ThinkingCloseTag, qwen3ToolOpenTag, qwen3ToolCloseTag]"

definition qwen3_Init :: "qwen3 \<Rightarrow> tool list \<Rightarrow> 'a message option \<Rightarrow> think_value option
    \<Rightarrow> tool list \<times> qwen3" where
  "qwen3_Init p tools lastMessage thinkValue =
     (let thinkingEnabled =
            (if thinkValue = None then q3_defaultThinking p else think_Bool thinkValue);
          on = (q3_hasThinkingSupport p \<and> thinkingEnabled)
      in (tools, p\<lparr>q3_state := (if on then Qwen3CollectingThinking else Qwen3CollectingContent),
            q3_buffer := [], q3_tools := tools, q3_callIndex := 0,
            q3_maybeThinkingOpenAtBOL := on\<rparr>))"

definition qwen3_eatLeadingWhitespace ::
    "qwen3 \<Rightarrow> qwen3_state \<Rightarrow> string parser_event list \<times> bool \<times> qwen3" where
  "qwen3_eatLeadingWhitespace p nextState =
     (let trimmed = trim_left (q3_buffer p) in
      if trimmed = [] then ([], False, p\<lparr>q3_buffer := []\<rparr>)
      else ([], True, p\<lparr>q3_state := nextState, q3_buffer := trimmed\<rparr>))"

text \<open>The part of the thinking state after the check for an opening tag.\<close>

definition qwen3_eatThinking :: "qwen3 \<Rightarrow> string parser_event list \<times> bool \<times> qwen3" where
  "qwen3_eatThinking p =
     (let acc = q3_buffer p;
          thinkingCloseIdx = index acc qwen3ThinkingCloseTag;
          toolOpenIdx = index acc qwen3ToolOpenTag in
      if (case toolOpenIdx of
            None \<Rightarrow> False
          | Some i \<Rightarrow> (case thinkingCloseIdx of None \<Rightarrow> True | Some j \<Rightarrow> i < j)) then
        (case split_at_tag acc qwen3ToolOpenTag True of (before, after, sb) \<Rightarrow>
           (emit EvThinking before, True,
            p\<lparr>q3_state := (if after = [] then Qwen3ToolStartedEatingWhitespace
                          else Qwen3CollectingToolContent), q3_buffer := sb\<rparr>))
      else if contains acc qwen3ThinkingCloseTag then
        (case split_at_tag acc qwen3ThinkingCloseTag True of (thinking, remaining, sb) \<Rightarrow>
           (emit EvThinking thinking, True,
            p\<lparr>q3_state := (if remaining = [] then Qwen3ThinkingDoneEatingWhitespace
                          else Qwen3CollectingContent), q3_buffer := sb\<rparr>))
      else
        let overlapLen = max (overlap acc qwen3ThinkingCloseTag) (overlap acc qwen3ToolOpenTag) in
        if 0 < overlapLen then
          (case withhold acc overlapLen of (unambiguous, ambiguous) \<Rightarrow>
             (emit EvThinking unambiguous, False, p\<lparr>q3_buffer := ambiguous\<rparr>))
        else
          (case withhold acc 0 of (unambiguous, ambiguous) \<Rightarrow>
             (emit EvThinking unambiguous, False, p\<lparr>q3_buffer := ambiguous\<rparr>)))"

definition qwen3_eat :: "qwen3 \<Rightarrow> string parser_event list \<times> bool \<times> qwen3" where
  "qwen3_eat p = (case q3_state p of
     Qwen3LookingForThinkingOpen \<Rightarrow>
       (let trimmed = trim_left (q3_buffer p) in
        if has_prefix trimmed qwen3ThinkingOpenTag then
          (let after = trim_left (trim_prefix trimmed qwen3ThinkingOpenTag) in
           ([], True, p\<lparr>q3_state := (if after = [] then Qwen3ThinkingStartedEatingWhitespace
                                    else Qwen3CollectingThinking), q3_buffer := after\<rparr>))
        else if has_prefix qwen3ThinkingOpenTag trimmed then ([], False, p)
        else if trimmed = [] then ([], False, p)
        else ([], True, p\<lparr>q3_state := Qwen3CollectingContent\<rparr>))
   | Qwen3ThinkingStartedEatingWhitespace \<Rightarrow> qwen3_eatLeadingWhitespace p Qwen3CollectingThinking
   | Qwen3CollectingThinking \<Rightarrow>
       if q3_maybeThinkingOpenAtBOL p then
         (let trimmed = trim_left (q3_buffer p) in
          if has_prefix trimmed qwen3ThinkingOpenTag then
            (let after = trim_left (trim_prefix trimmed qwen3ThinkingOpenTag) in
             if after = [] then ([], False, p\<lparr>q3_buffer := after\<rparr>)
             else ([], True, p\<lparr>q3_buffer := after, q3_maybeThinkingOpenAtBOL := False\<rparr>))
          else if has_prefix qwen3ThinkingOpenTag trimmed then ([], False, p)
          else qwen3_eatThinking (p\<lparr>q3_maybeThinkingOpenAtBOL := False\<rparr>))
       else qwen3_eatThinking p
   | Qwen3ThinkingDoneEatingWhitespace \<Rightarrow> qwen3_eatLeadingWhitespace p Qwen3CollectingContent
   | Qwen3CollectingContent \<Rightarrow>
       (let acc = q3_buffer p in
        if contains acc qwen3ToolOpenTag then
          (case split_at_tag acc qwen3ToolOpenTag True of (before, after, sb) \<Rightarrow>
             (emit EvContent before, True,
              p\<lparr>q3_state := (if after = [] then Qwen3ToolStartedEatingWhitespace
                            else Qwen3CollectingToolContent), q3_buffer := sb\<rparr>))
        else let overlapLen = overlap acc qwen3ToolOpenTag in
          if 0 < overlapLen then
            (case withhold acc overlapLen of (unambiguous, ambiguous) \<Rightarrow>
               (emit EvContent unambiguous, False, p\<lparr>q3_buffer := ambiguous\<rparr>))
          else
            (case withhold acc 0 of (unambiguous, ambiguous) \<Rightarrow>
               (emit EvContent unambiguous, False, p\<lparr>q3_buffer := ambiguous\<rparr>)))
   | Qwen3ToolStartedEatingWhitespace \<Rightarrow> qwen3_eatLeadingWhitespace p Qwen3CollectingToolContent
   | Qwen3CollectingToolContent \<Rightarrow>
       if contains (q3_buffer p) qwen3ToolCloseTag then
         (case split_at_tag (q3_buffer p) qwen3ToolCloseTag True of (toolContent, _, sb) \<Rightarrow>
            ([EvCall toolContent], True, p\<lparr>q3_state := Qwen3CollectingContent, q3_buffer := sb\<rparr>))
       else ([], False, p))"

lemma q3_tags:
  "qwen3ThinkingOpenTag \<noteq> []" "qwen3ToolOpenTag \<noteq> []" "qwen3ToolCloseTag \<noteq> []"
  "length qwen3ThinkingOpenTag = 7" "length qwen3ThinkingCloseTag = 8"
  "length qwen3ToolOpenTag = 11" "length qwen3ToolCloseTag = 12"
  "apart qwen3ThinkingCloseTag qwen3ToolOpenTag"
  by (simp_all add: qwen3ThinkingOpenTag_def qwen3ThinkingCloseTag_def qwen3ToolOpenTag_def
      qwen3ToolCloseTag_def apart_def cont_byte_def in_range_def)

text \<open>The step, state by state, over the position of the tags.\<close>

lemma q3_eat_thinking:
  "qwen3_eatThinking p = (let b = q3_buffer p in case scan2 b qwen3ThinkingCloseTag qwen3ToolOpenTag of
     Second i \<Rightarrow> (let r = trim_left (drop (i + length qwen3ToolOpenTag) b) in
       (emit EvThinking (trim_right (take i b)), True,
        p\<lparr>q3_state := (if r = [] then Qwen3ToolStartedEatingWhitespace
                      else Qwen3CollectingToolContent), q3_buffer := r\<rparr>))
   | First i \<Rightarrow> (let r = trim_left (drop (i + length qwen3ThinkingCloseTag) b) in
       (emit EvThinking (trim_right (take i b)), True,
        p\<lparr>q3_state := (if r = [] then Qwen3ThinkingDoneEatingWhitespace
                      else Qwen3CollectingContent), q3_buffer := r\<rparr>))
   | NoTag \<Rightarrow> (case withhold b (max (overlap b qwen3ThinkingCloseTag) (overlap b qwen3ToolOpenTag)) of
       (u, h) \<Rightarrow> (emit EvThinking u, False, p\<lparr>q3_buffer := h\<rparr>)))"
  by (cases "index (q3_buffer p) qwen3ThinkingCloseTag"; cases "index (q3_buffer p) qwen3ToolOpenTag")
    (auto simp: qwen3_eatThinking_def contains_def split_at_tag_found scan2_def Let_def)

lemma q3_eat_content:
  assumes "q3_state p = Qwen3CollectingContent"
  shows "qwen3_eat p = (let b = q3_buffer p in case index b qwen3ToolOpenTag of
     Some i \<Rightarrow> (let r = trim_left (drop (i + length qwen3ToolOpenTag) b) in
       (emit EvContent (trim_right (take i b)), True,
        p\<lparr>q3_state := (if r = [] then Qwen3ToolStartedEatingWhitespace
                      else Qwen3CollectingToolContent), q3_buffer := r\<rparr>))
   | None \<Rightarrow> (case withhold b (overlap b qwen3ToolOpenTag) of
       (u, h) \<Rightarrow> (emit EvContent u, False, p\<lparr>q3_buffer := h\<rparr>)))"
  using assms by (auto simp: qwen3_eat_def contains_def split_at_tag_found Let_def split: option.splits)

lemma q3_eat_tool:
  assumes "q3_state p = Qwen3CollectingToolContent"
  shows "qwen3_eat p = (let b = q3_buffer p in case index b qwen3ToolCloseTag of
     Some i \<Rightarrow> ([EvCall (trim_right (take i b))], True,
       p\<lparr>q3_state := Qwen3CollectingContent,
         q3_buffer := trim_left (drop (i + length qwen3ToolCloseTag) b)\<rparr>)
   | None \<Rightarrow> ([], False, p))"
  using assms by (auto simp: qwen3_eat_def contains_def split_at_tag_found Let_def split: option.splits)

lemma trim_prefix_drop: "prefix t s \<Longrightarrow> trim_prefix s t = drop (length t) s"
  by (simp add: trim_prefix_def has_prefix_def)

fun q3_rank :: "qwen3_state \<Rightarrow> nat" where
  "q3_rank Qwen3LookingForThinkingOpen = 1"
| "q3_rank Qwen3ThinkingStartedEatingWhitespace = 1"
| "q3_rank Qwen3ThinkingDoneEatingWhitespace = 1"
| "q3_rank Qwen3ToolStartedEatingWhitespace = 1"
| "q3_rank _ = 0"

definition q3_measure :: "qwen3 \<Rightarrow> nat" where
  "q3_measure p = 2 * length (q3_buffer p) + q3_rank (q3_state p)"

lemma length_trim_drop: "length (trim_left (drop n s)) \<le> length s - n"
  using length_trim_left [of "drop n s"] by simp

lemma q3_eatThinking_progress:
  assumes "qwen3_eatThinking p = (ev, True, p1)"
  shows "length (q3_buffer p1) + 8 \<le> length (q3_buffer p)"
proof (cases "scan2 (q3_buffer p) qwen3ThinkingCloseTag qwen3ToolOpenTag")
  case (First i)
  with assms index_le [OF scan2_le(1) [OF First]] length_trim_drop [of "i + 8" "q3_buffer p"] show ?thesis
    by (auto simp: q3_eat_thinking Let_def q3_tags)
next
  case (Second i)
  with assms index_le [OF scan2_le(2) [OF Second]] length_trim_drop [of "i + 11" "q3_buffer p"] show ?thesis
    by (auto simp: q3_eat_thinking Let_def q3_tags)
qed (use assms in \<open>auto simp: q3_eat_thinking Let_def split: prod.splits\<close>)

lemma q3_rank_le: "q3_rank st \<le> 1"
  by (cases st) auto

lemma q3_open_progress:
  assumes "prefix qwen3ThinkingOpenTag (trim_left b)"
  shows "length (trim_left (drop 7 (trim_left b))) + 7 \<le> length b"
  using prefix_length_le [OF assms] length_trim_left [of b] length_trim_drop [of 7 "trim_left b"]
  by (simp add: q3_tags)

lemma q3_progress: "qwen3_eat p = (ev, True, p1) \<Longrightarrow> q3_measure p1 < q3_measure p"
proof (cases "q3_state p")
  case Qwen3CollectingThinking
  assume e: "qwen3_eat p = (ev, True, p1)"
  show ?thesis
  proof (cases "prefix qwen3ThinkingOpenTag (trim_left (q3_buffer p)) \<and> q3_maybeThinkingOpenAtBOL p")
    case True
    with Qwen3CollectingThinking e q3_open_progress [of "q3_buffer p"] show ?thesis
      by (auto simp: qwen3_eat_def Let_def has_prefix_def trim_prefix_drop q3_measure_def q3_tags split: if_splits)
  next
    case False
    with Qwen3CollectingThinking e obtain p0 where "qwen3_eatThinking p0 = (ev, True, p1)"
      "q3_buffer p0 = q3_buffer p"
      by (auto simp: qwen3_eat_def Let_def has_prefix_def split: if_splits)
    with q3_eatThinking_progress [of p0 ev p1] q3_rank_le [of "q3_state p1"] show ?thesis
      by (simp add: q3_measure_def)
  qed
next
  case Qwen3CollectingContent
  assume "qwen3_eat p = (ev, True, p1)"
  with Qwen3CollectingContent obtain i where i: "index (q3_buffer p) qwen3ToolOpenTag = Some i"
    "q3_buffer p1 = trim_left (drop (i + 11) (q3_buffer p))"
    by (auto simp: q3_eat_content Let_def q3_tags split: option.splits prod.splits)
  with Qwen3CollectingContent index_le [OF i(1)] length_trim_drop [of "i + 11" "q3_buffer p"]
    q3_rank_le [of "q3_state p1"] show ?thesis
    by (simp add: q3_measure_def q3_tags)
next
  case Qwen3CollectingToolContent
  assume "qwen3_eat p = (ev, True, p1)"
  with Qwen3CollectingToolContent obtain i where i: "index (q3_buffer p) qwen3ToolCloseTag = Some i"
    "q3_buffer p1 = trim_left (drop (i + 12) (q3_buffer p))"
    by (auto simp: q3_eat_tool Let_def q3_tags split: option.splits)
  with Qwen3CollectingToolContent index_le [OF i(1)] length_trim_drop [of "i + 12" "q3_buffer p"]
    q3_rank_le [of "q3_state p1"] show ?thesis
    by (simp add: q3_measure_def q3_tags)
next
  case Qwen3LookingForThinkingOpen
  assume "qwen3_eat p = (ev, True, p1)"
  with Qwen3LookingForThinkingOpen q3_open_progress [of "q3_buffer p"] show ?thesis
    by (auto simp: qwen3_eat_def Let_def has_prefix_def trim_prefix_drop q3_measure_def q3_tags
        split: if_splits)
qed (use length_trim_left [of "q3_buffer p"] in
    \<open>auto simp: qwen3_eat_def qwen3_eatLeadingWhitespace_def Let_def q3_measure_def split: if_splits\<close>)

function qwen3_parseEvents :: "qwen3 \<Rightarrow> string parser_event list \<times> qwen3" where
  "qwen3_parseEvents p =
     (case qwen3_eat p of (events, keepLooping, p1) \<Rightarrow>
        if keepLooping then (case qwen3_parseEvents p1 of (all, p2) \<Rightarrow> (events @ all, p2))
        else (events, p1))"
  by pat_completeness auto
termination by (relation "measure q3_measure") (auto dest: q3_progress [OF sym])

declare qwen3_parseEvents.simps [simp del]

text \<open>
  \<^verbatim>\<open>parseQwen3ToolCall\<close>, given what the JSON decoder yields for the raw text (name and
  arguments), and the event loop of \<^verbatim>\<open>Add\<close>, which numbers the calls as it goes: a call that
  fails leaves the counter advanced by the calls before it.
\<close>

definition parseQwen3ToolCall ::
    "(string \<Rightarrow> (string \<times> 'a) option) \<Rightarrow> string \<Rightarrow> parse_error + 'a tool_call" where
  "parseQwen3ToolCall unmarshal raw =
     (case unmarshal raw of
        None \<Rightarrow> Inl JSONError
      | Some (name, args) \<Rightarrow> if name = [] then Inl EmptyFunctionName else Inr (new_call name args))"

fun qwen3_handle :: "(string \<Rightarrow> (string \<times> 'a) option) \<Rightarrow> qwen3 \<Rightarrow> string parser_event list
    \<Rightarrow> string \<Rightarrow> string \<Rightarrow> 'a tool_call list \<Rightarrow> 'a add_result \<times> qwen3" where
  "qwen3_handle unmarshal p [] contentSb thinkingSb calls = ((contentSb, thinkingSb, calls, None), p)"
| "qwen3_handle unmarshal p (EvCall raw # events) contentSb thinkingSb calls =
     (case parseQwen3ToolCall unmarshal raw of
        Inl err \<Rightarrow> (([], [], [], Some err), p)
      | Inr toolCall \<Rightarrow>
          qwen3_handle unmarshal (p\<lparr>q3_callIndex := q3_callIndex p + 1\<rparr>) events contentSb thinkingSb
            (calls @ [set_index (q3_callIndex p) toolCall]))"
| "qwen3_handle unmarshal p (EvThinking x # events) contentSb thinkingSb calls =
     qwen3_handle unmarshal p events contentSb (thinkingSb @ x) calls"
| "qwen3_handle unmarshal p (EvContent x # events) contentSb thinkingSb calls =
     qwen3_handle unmarshal p events (contentSb @ x) thinkingSb calls"

definition q3_push :: "qwen3 \<Rightarrow> string \<Rightarrow> qwen3" where
  "q3_push p x = p\<lparr>q3_buffer := q3_buffer p @ x\<rparr>"

definition qwen3_Add :: "(string \<Rightarrow> (string \<times> 'a) option) \<Rightarrow> qwen3 \<Rightarrow> string \<Rightarrow> bool
    \<Rightarrow> 'a add_result \<times> qwen3" where
  "qwen3_Add unmarshal p s done =
     (case qwen3_parseEvents (q3_push p s) of (events, p1) \<Rightarrow>
        qwen3_handle unmarshal p1 events [] [] [])"

section \<open>The interfaces\<close>

definition q3_set_index :: "nat \<Rightarrow> qwen3 \<Rightarrow> qwen3" where
  "q3_set_index n p = p\<lparr>q3_callIndex := n\<rparr>"

lemma qwen3_handle_eq:
  "add_ok (qwen3_handle u p ev c t k) = (case decode_calls (parseQwen3ToolCall u) (calls_of ev) of
     Inl e \<Rightarrow> None
   | Inr ks \<Rightarrow> Some ((t @ thinking_of ev, c @ content_of ev,
        k @ fst (number_calls (q3_callIndex p) ks)), q3_set_index (q3_callIndex p + length ks) p))"
  by (induction u p ev c t k rule: qwen3_handle.induct)
    (auto simp: q3_set_index_def split: sum.splits prod.splits)

lemma q3_eat_index: "qwen3_eat p = (ev, go, p1) \<Longrightarrow> q3_callIndex p1 = q3_callIndex p"
proof (cases "q3_state p")
  case Qwen3CollectingThinking
  assume e: "qwen3_eat p = (ev, go, p1)"
  have "q3_callIndex p1 = q3_callIndex p0" if "qwen3_eatThinking p0 = (ev, go, p1)" for p0
    using that by (auto simp: q3_eat_thinking Let_def split: which_tag.splits prod.splits)
  with e Qwen3CollectingThinking show ?thesis
    by (fastforce simp: qwen3_eat_def Let_def split: if_splits)
qed (auto simp: q3_eat_content q3_eat_tool qwen3_eat_def qwen3_eatLeadingWhitespace_def Let_def
    split: if_splits prod.splits option.splits)

interpretation q3n: numbered_parser qwen3_eat qwen3_parseEvents q3_measure q3_push
  "\<lambda>p x. qwen3_Add u p x d" "\<lambda>_. parseQwen3ToolCall u" q3_callIndex q3_set_index for u d
proof (unfold_locales, goal_cases)
  case (1 p)
  show ?case by (subst qwen3_parseEvents.simps) (auto split: prod.splits)
next
  case (2 p ev p1)
  then show ?case by (rule q3_progress)
next
  case (3 p x)
  show ?case by (auto simp: qwen3_Add_def qwen3_handle_eq split: prod.splits sum.splits)
next
  case (5 p ev go p1)
  then show ?case by (rule q3_eat_index)
qed (simp_all add: q3_push_def q3_set_index_def)

lemma subseq_open:
  assumes "prefix t (trim_left b)"
  shows "subseq (trim_left (drop (length t) (trim_left b))) b"
  using subseq_trim_left subseq_drop subseq_order.trans by metis

lemma q3_eatThinking_subseq:
  assumes "qwen3_eatThinking p = (ev, go, p1)"
  shows "subseq (texts_of id ev @ q3_buffer p1) (q3_buffer p)"
  using assms by (auto simp: q3_eat_thinking Let_def subseq_cut split: which_tag.splits prod.splits
      dest: subseq_withhold)

lemma q3_eat_subseq:
  assumes "qwen3_eat p = (ev, go, p1)"
  shows "subseq (texts_of id ev @ q3_buffer p1) (q3_buffer p)"
proof (cases "q3_state p")
  case Qwen3CollectingThinking
  show ?thesis
  proof (cases "prefix qwen3ThinkingOpenTag (trim_left (q3_buffer p)) \<and> q3_maybeThinkingOpenAtBOL p")
    case True
    with Qwen3CollectingThinking assms subseq_open [of qwen3ThinkingOpenTag "q3_buffer p"] show ?thesis
      by (auto simp: qwen3_eat_def Let_def has_prefix_def trim_prefix_drop q3_tags split: if_splits)
  next
    case False
    with Qwen3CollectingThinking assms q3_eatThinking_subseq [of _ ev go p1] show ?thesis
      by (fastforce simp: qwen3_eat_def Let_def has_prefix_def split: if_splits)
  qed
next
  case Qwen3CollectingContent
  with assms show ?thesis
    by (auto simp: q3_eat_content Let_def subseq_cut split: option.splits prod.splits dest: subseq_withhold)
next
  case Qwen3CollectingToolContent
  with assms show ?thesis
    by (auto simp: q3_eat_tool Let_def subseq_cut split: option.splits)
next
  case Qwen3LookingForThinkingOpen
  with assms subseq_open [of qwen3ThinkingOpenTag "q3_buffer p"] show ?thesis
    by (auto simp: qwen3_eat_def Let_def has_prefix_def trim_prefix_drop split: if_splits)
qed (use assms in \<open>auto simp: qwen3_eat_def qwen3_eatLeadingWhitespace_def Let_def subseq_trim_left
      split: if_splits\<close>)

interpretation q3c: conserving qwen3_eat qwen3_parseEvents q3_measure q3_push q3_buffer id
  by unfold_locales (auto simp: q3_push_def intro: q3_eat_subseq)

section \<open>Properties\<close>

text \<open>
  C17. The Qwen3 parser invents and reorders nothing: for every sequence of chunks, the texts
  of all events in order (thinking, content and raw calls), followed by what is still in the
  buffer, are a subsequence of the old buffer followed by the text received.
\<close>

theorem qwen3_conserves_text:
  "subseq (texts_of id (fst (feed_all (\<lambda>p x. qwen3_parseEvents (q3_push p x)) p xs))
      @ q3_buffer (snd (feed_all (\<lambda>p x. qwen3_parseEvents (q3_push p x)) p xs)))
    (q3_buffer p @ concat xs)"
  by (rule q3c.feed_subseq)

definition q3_no_thinking_state :: "qwen3 \<Rightarrow> bool" where
  "q3_no_thinking_state p \<longleftrightarrow> q3_state p \<in>
     {Qwen3CollectingContent, Qwen3ToolStartedEatingWhitespace, Qwen3CollectingToolContent}"

lemma q3_no_thinking_update:
  "q3_no_thinking_state (q3_push p x) = q3_no_thinking_state p"
  "q3_no_thinking_state (q3_set_index n p) = q3_no_thinking_state p"
  by (simp_all add: q3_no_thinking_state_def q3_push_def q3_set_index_def)

lemma q3_eat_no_thinking:
  assumes "q3_no_thinking_state p" "qwen3_eat p = (ev, go, p1)"
  shows "q3_no_thinking_state p1 \<and> (\<forall>e \<in> set ev. ev_thinking e = [])"
  using assms
  by (auto simp: q3_no_thinking_state_def q3_eat_content q3_eat_tool qwen3_eat_def
      qwen3_eatLeadingWhitespace_def Let_def set_emit split: option.splits prod.splits if_splits)

text \<open>
  When thinking is off (the parser has no support, or the request sets think to false)
  the text is never taken for thinking, and the calls of every sequence of chunks are
  numbered from 0 without gaps.
\<close>

theorem qwen3_thinking_off:
  assumes "\<not> q3_hasThinkingSupport p \<or> (think \<noteq> None \<and> \<not> think_Bool think)"
    and "feed_add (\<lambda>p x. qwen3_Add u p x d) (snd (qwen3_Init p tools msg think)) xs =
      Some ((t, c, ks), p')"
  shows "t = [] \<and> call_indices ks = [0 ..< length ks]"
proof -
  let ?p = "snd (qwen3_Init p tools msg think)"
  have i: "q3_no_thinking_state ?p" "q3_callIndex ?p = 0"
    using assms(1) by (auto simp: qwen3_Init_def Let_def q3_no_thinking_state_def)
  have "t = []"
    by (rule q3n.feed_no_thinking [where I = q3_no_thinking_state, OF _ _ _ i(1) assms(2)])
      (use q3_eat_no_thinking in \<open>auto simp: q3_no_thinking_update\<close>)
  with i(2) q3n.feed_indices [OF assms(2)] show ?thesis by simp
qed

definition q3_sample :: qwen3 where
  "q3_sample = \<lparr>q3_state = Qwen3CollectingContent, q3_buffer = [], q3_tools = [], q3_callIndex = 0,
     q3_hasThinkingSupport = True, q3_defaultThinking = True, q3_maybeThinkingOpenAtBOL = False\<rparr>"

definition q3_sample_decode :: "string \<Rightarrow> (string \<times> string) option" where
  "q3_sample_decode raw = (if raw = ''{}'' then Some (''f'', []) else None)"

abbreviation q3_started :: "think_value option \<Rightarrow> qwen3" where
  "q3_started think \<equiv> snd (qwen3_Init q3_sample [] (None :: unit message option) think)"

abbreviation q3_feed :: "qwen3 \<Rightarrow> string list \<Rightarrow> ((string \<times> string \<times> string tool_call list) \<times> qwen3) option" where
  "q3_feed \<equiv> feed_add (\<lambda>p x. qwen3_Add q3_sample_decode p x False)"

lemma qwen3_thinking_off_witness:
  "[] = ([] :: string) \<and> call_indices [set_index 0 (new_call ''f'' ([] :: string))] = [0]"
proof -
  have f: "q3_feed (q3_started (Some (TVBool False))) [''</think>a<tool_call>{}</tool_call>''] =
    Some (([], ''</think>a'', [set_index 0 (new_call ''f'' [])]), q3_sample\<lparr>q3_callIndex := 1\<rparr>)"
    by code_simp
  have "\<not> q3_hasThinkingSupport q3_sample \<or>
    (Some (TVBool False) \<noteq> None \<and> \<not> think_Bool (Some (TVBool False)))" by simp
  from qwen3_thinking_off [OF this f] show ?thesis by simp
qed

text \<open>
  The output depends on how the text is cut, in two places. White space after
  \<^verbatim>\<open></tool_call>\<close> is dropped when it arrives with the tag but becomes content when it arrives in
  a later chunk (there is no state that waits for it, as the Qwen3-VL parser has). And
  \<^verbatim>\<open>Strip exactly one leading opening tag\<close> fails when the first \<^verbatim>\<open><think>\<close> ends a chunk: the flag
  stays set, and a second \<^verbatim>\<open><think>\<close> is stripped too.
\<close>

theorem qwen3_chunk_dependent:
  "map_option fst (q3_feed q3_sample [''<tool_call>{}</tool_call> x'']) =
     Some ([], ''x'', [set_index 0 (new_call ''f'' [])])
   \<and> map_option fst (q3_feed q3_sample [''<tool_call>{}</tool_call>'', '' x'']) =
     Some ([], '' x'', [set_index 0 (new_call ''f'' [])])
   \<and> map_option fst (q3_feed (q3_started None) [''<think><think>a</think>b'']) =
     Some (''<think>a'', ''b'', [])
   \<and> map_option fst (q3_feed (q3_started None) [''<think>'', ''<think>a</think>b'']) =
     Some (''a'', ''b'', [])"
  by (intro conjI; code_simp)

end
