(* ===== verification/ModelName.thy ===== *)
theory ModelName
  imports Trimming
begin

text \<open>
  types/model/name.go: model names. Parsing, merging with the defaults, printing, validity and
  the file path of a name, with the round trips between them. File paths use the separator
  \<^verbatim>\<open>/\<close>. A comparison that ignores case is only ever made here with an ASCII constant.
\<close>

section \<open>Names\<close>

definition MissingPart :: string where "MissingPart = ''!MISSING!''"
definition defaultHost :: string where "defaultHost = ''registry.ollama.ai''"
definition defaultNamespace :: string where "defaultNamespace = ''library''"
definition defaultTag :: string where "defaultTag = ''latest''"
definition defaultProtocolScheme :: string where "defaultProtocolScheme = ''https''"

datatype part_kind = KindHost | KindNamespace | KindModel | KindTag | KindDigest

fun part_kind_String :: "part_kind \<Rightarrow> string" where
  "part_kind_String KindHost = ''host''"
| "part_kind_String KindNamespace = ''namespace''"
| "part_kind_String KindModel = ''model''"
| "part_kind_String KindTag = ''tag''"
| "part_kind_String KindDigest = ''digest''"

record name =
  Host :: string
  Namespace :: string
  Model :: string
  Tag :: string
  ProtocolScheme :: string

definition zero_name :: name where
  "zero_name = \<lparr>Host = [], Namespace = [], Model = [], Tag = [], ProtocolScheme = []\<rparr>"

definition DefaultName :: name where
  "DefaultName = \<lparr>Host = defaultHost, Namespace = defaultNamespace, Model = [], Tag = defaultTag,
     ProtocolScheme = defaultProtocolScheme\<rparr>"

text \<open>\<^verbatim>\<open>cmp.Or\<close> on strings.\<close>

definition or_else :: "string \<Rightarrow> string \<Rightarrow> string" where
  "or_else a b = (if a \<noteq> [] then a else b)"

definition Merge :: "name \<Rightarrow> name \<Rightarrow> name" where
  "Merge a b = a\<lparr>Host := or_else (Host a) (Host b), Namespace := or_else (Namespace a) (Namespace b),
     Tag := or_else (Tag a) (Tag b), ProtocolScheme := or_else (ProtocolScheme a) (ProtocolScheme b)\<rparr>"

section \<open>Parsing\<close>

definition cutLast :: "string \<Rightarrow> string \<Rightarrow> string \<times> string \<times> bool" where
  "cutLast s sep = (case last_index s sep of
     Some i \<Rightarrow> (take i s, drop (i + length sep) s, True)
   | None \<Rightarrow> (s, [], False))"

definition cutPromised :: "string \<Rightarrow> string \<Rightarrow> string \<times> string \<times> bool" where
  "cutPromised s sep = (case cutLast s sep of (before, after, found) \<Rightarrow>
     if \<not> found then (before, after, False)
     else (or_else before MissingPart, or_else after MissingPart, True))"

text \<open>\<^verbatim>\<open>strings.LastIndex\<close> as the number Go compares, -1 when there is none.\<close>

definition last_index_int :: "string \<Rightarrow> string \<Rightarrow> int" where
  "last_index_int s sep = (case last_index s sep of None \<Rightarrow> - 1 | Some i \<Rightarrow> int i)"

definition ParseNameBare :: "string \<Rightarrow> name" where
  "ParseNameBare s0 =
     (let n = zero_name;
          (s, n) = (if last_index_int s0 '':'' > last_index_int s0 ''/'' then
                      (case cutPromised s0 '':'' of (s, tag, _) \<Rightarrow> (s, n\<lparr>Tag := tag\<rparr>))
                    else (s0, n))
      in case cutPromised s ''/'' of (s1, model, promised) \<Rightarrow>
         if \<not> promised then n\<lparr>Model := s1\<rparr>
         else let n = n\<lparr>Model := model\<rparr> in
           case cutPromised s1 ''/'' of (s2, namespace, promised) \<Rightarrow>
           if \<not> promised then n\<lparr>Namespace := s2\<rparr>
           else let n = n\<lparr>Namespace := namespace\<rparr> in
             case cut s2 ''://'' of (scheme, host, found) \<Rightarrow>
             if found then n\<lparr>Host := host, ProtocolScheme := scheme\<rparr> else n\<lparr>Host := scheme\<rparr>)"

definition ParseName :: "string \<Rightarrow> name" where
  "ParseName s = Merge (ParseNameBare s) DefaultName"

section \<open>Validity\<close>

definition isValidLen :: "part_kind \<Rightarrow> string \<Rightarrow> bool" where
  "isValidLen kind s = (case kind of
     KindHost \<Rightarrow> length s \<ge> 1 \<and> length s \<le> 350
   | KindTag \<Rightarrow> length s \<ge> 1 \<and> length s \<le> 80
   | _ \<Rightarrow> length s \<ge> 1 \<and> length s \<le> 80)"

definition isAlphanumericOrUnderscore :: "char \<Rightarrow> bool" where
  "isAlphanumericOrUnderscore c \<longleftrightarrow>
     byte c \<ge> byte CHR ''A'' \<and> byte c \<le> byte CHR ''Z'' \<or> byte c \<ge> byte CHR ''a'' \<and> byte c \<le> byte CHR ''z''
     \<or> byte c \<ge> byte CHR ''0'' \<and> byte c \<le> byte CHR ''9'' \<or> c = CHR ''_''"

definition valid_later :: "part_kind \<Rightarrow> char \<Rightarrow> bool" where
  "valid_later kind c =
     (if c = CHR ''_'' \<or> c = CHR ''-'' then True
      else if c = CHR ''.'' then kind \<noteq> KindNamespace
      else if c = CHR '':'' then kind = KindHost \<or> kind = KindDigest
      else isAlphanumericOrUnderscore c)"

text \<open>
  The loop \<^verbatim>\<open>for i := range s\<close> visits the first byte of each rune; \<^verbatim>\<open>first\<close> is \<^verbatim>\<open>i == 0\<close>.
\<close>

function valid_runes :: "part_kind \<Rightarrow> bool \<Rightarrow> string \<Rightarrow> bool" where
  "valid_runes kind first s =
     (if s = [] then True
      else if (if first then isAlphanumericOrUnderscore (hd s) else valid_later kind (hd s))
           then valid_runes kind False (drop (snd (decode_rune s)) s)
           else False)"
  by pat_completeness auto
termination
  by (relation "measure (\<lambda>(_, _, s). length s)") (auto dest: decode_rune_size_pos)

declare valid_runes.simps [simp del]

definition isValidPart :: "part_kind \<Rightarrow> string \<Rightarrow> bool" where
  "isValidPart kind s = (if \<not> isValidLen kind s then False else valid_runes kind True s)"

definition IsValidNamespace :: "string \<Rightarrow> bool" where
  "IsValidNamespace s = isValidPart KindNamespace s"

definition IsFullyQualified :: "name \<Rightarrow> bool" where
  "IsFullyQualified n = list_all (\<lambda>(kind, part). isValidPart kind part)
     [(KindHost, Host n), (KindNamespace, Namespace n), (KindModel, Model n), (KindTag, Tag n)]"

definition IsValid :: "name \<Rightarrow> bool" where
  "IsValid n = IsFullyQualified n"

section \<open>Printing\<close>

definition name_String :: "name \<Rightarrow> string" where
  "name_String n =
     (if Host n \<noteq> [] then Host n @ ''/'' else []) @
     (if Namespace n \<noteq> [] then Namespace n @ ''/'' else []) @
     Model n @
     (if Tag n \<noteq> [] then '':'' @ Tag n else [])"

text \<open>
  \<^verbatim>\<open>strings.EqualFold(s, t)\<close> for an ASCII \<open>t\<close>: the runes that fold to an ASCII letter are its
  two cases, U+017F for \<^verbatim>\<open>s\<close> and U+212A for \<^verbatim>\<open>k\<close>.
\<close>

definition fold_rune :: "nat \<Rightarrow> nat" where
  "fold_rune r =
     (if 65 \<le> r \<and> r \<le> 90 then r + 32 else if r = 0x17F then 115 else if r = 0x212A then 107 else r)"

function equal_fold :: "string \<Rightarrow> string \<Rightarrow> bool" where
  "equal_fold s t =
     (if s = [] \<or> t = [] then s = t
      else fold_rune (fst (decode_rune s)) = fold_rune (byte (hd t))
           \<and> equal_fold (drop (snd (decode_rune s)) s) (tl t))"
  by pat_completeness auto
termination
  by (relation "measure (\<lambda>(s, _). length s)") (auto dest: decode_rune_size_pos)

declare equal_fold.simps [simp del]

definition DisplayShortest :: "name \<Rightarrow> string" where
  "DisplayShortest n =
     (if \<not> equal_fold (Host n) defaultHost then Host n @ ''/'' @ Namespace n @ ''/''
      else if \<not> equal_fold (Namespace n) defaultNamespace then Namespace n @ ''/''
      else []) @ Model n @ '':'' @ Tag n"

definition DisplayNamespaceModel :: "name \<Rightarrow> string" where
  "DisplayNamespaceModel n = Namespace n @ ''/'' @ Model n"

text \<open>\<^verbatim>\<open>BaseURL\<close>: the scheme and host of the URL.\<close>

definition BaseURL :: "name \<Rightarrow> string \<times> string" where
  "BaseURL n = (ProtocolScheme n, Host n)"

section \<open>File paths\<close>

text \<open>
  \<^verbatim>\<open>filepath.Clean\<close> on Unix: empty elements and \<^verbatim>\<open>.\<close> are dropped, \<^verbatim>\<open>..\<close> removes the element
  before it (at the root it is dropped, at the start of a relative path kept).
\<close>

fun clean_step :: "bool \<Rightarrow> string list \<Rightarrow> string \<Rightarrow> string list" where
  "clean_step rooted out e =
     (if e = [] \<or> e = ''.'' then out
      else if e = ''..'' then
        (if out \<noteq> [] \<and> last out \<noteq> ''..'' then butlast out
         else if rooted then out else out @ [e])
      else out @ [e])"

definition path_clean :: "string \<Rightarrow> string" where
  "path_clean path =
     (if path = [] then ''.''
      else let rooted = has_prefix path ''/'';
               out = foldl (clean_step rooted) [] (split_all path ''/'')
           in if rooted then ''/'' @ join ''/'' out
              else if out = [] then ''.'' else join ''/'' out)"

definition path_join :: "string list \<Rightarrow> string" where
  "path_join elems =
     (case dropWhile (\<lambda>e. e = []) elems of
        [] \<Rightarrow> []
      | es \<Rightarrow> path_clean (join ''/'' es))"

text \<open>\<^verbatim>\<open>Filepath\<close> panics (\<^const>\<open>None\<close>) for a name that is not fully qualified.\<close>

definition Filepath :: "name \<Rightarrow> string option" where
  "Filepath n =
     (if \<not> IsFullyQualified n then None
      else Some (path_join [Host n, Namespace n, Model n, Tag n]))"

definition ParseNameFromFilepath :: "string \<Rightarrow> name" where
  "ParseNameFromFilepath s =
     (case split_all s ''/'' of
        [h, ns, m, t] \<Rightarrow>
          (let n = \<lparr>Host = h, Namespace = ns, Model = m, Tag = t, ProtocolScheme = []\<rparr> in
           if \<not> IsFullyQualified n then zero_name else n)
      | _ \<Rightarrow> zero_name)"

section \<open>Laws\<close>

lemma last_index_None: "c \<notin> set s \<Longrightarrow> last_index s [c] = None"
  by (induction s) auto

lemma last_index_last: "c \<notin> set v \<Longrightarrow> last_index (u @ c # v) [c] = Some (length u)"
  by (induction u) (auto simp: last_index_None)

lemma cutLast_last: "c \<notin> set v \<Longrightarrow> cutLast (u @ c # v) [c] = (u, v, True)"
  by (simp add: cutLast_def last_index_last)

lemma cutLast_none: "c \<notin> set s \<Longrightarrow> cutLast s [c] = (s, [], False)"
  by (simp add: cutLast_def last_index_None)

lemma cutPromised_last:
  "c \<notin> set v \<Longrightarrow> cutPromised (u @ c # v) [c] = (or_else u MissingPart, or_else v MissingPart, True)"
  by (simp add: cutPromised_def cutLast_last)

lemma cutPromised_none: "c \<notin> set s \<Longrightarrow> cutPromised s [c] = (s, [], False)"
  by (simp add: cutPromised_def cutLast_none)

lemma or_else_simps [simp]: "a \<noteq> [] \<Longrightarrow> or_else a b = a" "or_else [] b = b"
  by (simp_all add: or_else_def)

text \<open>The characters of a valid part.\<close>

lemma valid_ascii: "isAlphanumericOrUnderscore c \<or> valid_later kind c \<Longrightarrow> byte c < (0x80 :: nat)"
  by (auto simp: isAlphanumericOrUnderscore_def valid_later_def split: if_splits)

lemma decode_ascii: "byte c < (0x80 :: nat) \<Longrightarrow> decode_rune (c # s) = (byte c, 1)"
  by (simp add: go_defs)

lemma valid_runes_iff:
  "valid_runes kind first s = (case s of [] \<Rightarrow> True
     | c # t \<Rightarrow> (if first then isAlphanumericOrUnderscore c else valid_later kind c)
         \<and> list_all (valid_later kind) t)"
proof (induction kind first s rule: valid_runes.induct)
  case (1 kind first s)
  show ?case
  proof (cases s)
    case Nil
    then show ?thesis by (simp add: valid_runes.simps [of kind first "[]"])
  next
    case (Cons c t)
    show ?thesis
    proof (cases "if first then isAlphanumericOrUnderscore c else valid_later kind c")
      case True
      then have "byte c < (0x80 :: nat)" using valid_ascii by (auto split: if_splits)
      then have d: "snd (decode_rune (c # t)) = 1" by (simp add: decode_ascii)
      with 1 Cons True have "valid_runes kind False t = list_all (valid_later kind) t"
        by (cases t) simp_all
      with Cons True d show ?thesis by (cases first) (simp_all add: valid_runes.simps [of _ _ "c # t"])
    qed (use Cons in \<open>cases first, simp_all add: valid_runes.simps [of _ _ "c # t"]\<close>)
  qed
qed

lemma valid_alnum: "isAlphanumericOrUnderscore c \<Longrightarrow> valid_later kind c"
  by (auto simp: valid_later_def isAlphanumericOrUnderscore_def)

lemma isValidPart_chars:
  "isValidPart kind s \<Longrightarrow> s \<noteq> [] \<and> isAlphanumericOrUnderscore (hd s) \<and> list_all (valid_later kind) s"
  by (cases s; cases kind) (auto simp: isValidPart_def isValidLen_def valid_runes_iff valid_alnum split: if_splits)

lemma not_valid_later:
  "\<not> valid_later kind CHR ''/''" "\<not> valid_later kind CHR ''!''"
  "kind \<noteq> KindHost \<Longrightarrow> kind \<noteq> KindDigest \<Longrightarrow> \<not> valid_later kind CHR '':''"
  "\<not> isAlphanumericOrUnderscore CHR ''.''" "\<not> isAlphanumericOrUnderscore CHR ''!''"
  by (simp_all add: valid_later_def isAlphanumericOrUnderscore_def)

lemma valid_part_not_in: "isValidPart kind s \<Longrightarrow> \<not> valid_later kind c \<Longrightarrow> c \<notin> set s"
  by (auto dest!: isValidPart_chars simp: list_all_iff)

lemma valid_parts:
  assumes "IsFullyQualified n"
  shows "Host n \<noteq> []" "Namespace n \<noteq> []" "Model n \<noteq> []" "Tag n \<noteq> []"
    and "CHR ''/'' \<notin> set (Host n)" "CHR ''/'' \<notin> set (Namespace n)" "CHR ''/'' \<notin> set (Model n)"
      "CHR ''/'' \<notin> set (Tag n)"
    and "CHR '':'' \<notin> set (Namespace n)" "CHR '':'' \<notin> set (Model n)" "CHR '':'' \<notin> set (Tag n)"
  using assms valid_part_not_in [OF _ not_valid_later(1)] valid_part_not_in [OF _ not_valid_later(3)]
  by (auto simp: IsFullyQualified_def dest: isValidPart_chars)

lemma cut_no_char: "c \<notin> set s \<Longrightarrow> c \<in> set sep \<Longrightarrow> cut s sep = (s, [], False)"
proof -
  assume "c \<notin> set s" "c \<in> set sep"
  then have "\<not> contains s sep" by (auto simp: contains_iff)
  then show ?thesis by (simp add: cut_def contains_def)
qed

text \<open>A name printed with host, namespace, model and tag, none empty, is cut at its separators.\<close>

lemma ParseNameBare_full:
  assumes "h \<noteq> []" "ns \<noteq> []" "m \<noteq> []" "t \<noteq> []"
    and "CHR ''/'' \<notin> set h" "CHR ''/'' \<notin> set ns" "CHR ''/'' \<notin> set m" "CHR ''/'' \<notin> set t" "CHR '':'' \<notin> set t"
  shows "ParseNameBare (h @ ''/'' @ ns @ ''/'' @ m @ '':'' @ t) =
    \<lparr>Host = h, Namespace = ns, Model = m, Tag = t, ProtocolScheme = []\<rparr>"
proof -
  let ?u = "h @ ''/'' @ ns" let ?v = "?u @ ''/'' @ m"
  have s: "h @ ''/'' @ ns @ ''/'' @ m @ '':'' @ t = ?v @ CHR '':'' # t" by simp
  have c: "last_index (?v @ CHR '':'' # t) '':'' = Some (length ?v)" using assms by (intro last_index_last)
  have "last_index (?u @ CHR ''/'' # m @ '':'' @ t) ''/'' = Some (length ?u)"
    using assms by (intro last_index_last) simp
  then have l: "last_index (?v @ CHR '':'' # t) ''/'' = Some (length ?u)" by simp
  have gt: "last_index_int (?v @ CHR '':'' # t) '':'' > last_index_int (?v @ CHR '':'' # t) ''/''"
    unfolding last_index_int_def c l by simp
  have c1: "cutPromised (?v @ CHR '':'' # t) '':'' = (?v, t, True)"
    using cutPromised_last [of "CHR '':''" t ?v] assms by simp
  have c2: "cutPromised ?v ''/'' = (?u, m, True)"
    using cutPromised_last [of "CHR ''/''" m ?u] assms by simp
  have c3: "cutPromised ?u ''/'' = (h, ns, True)"
    using cutPromised_last [of "CHR ''/''" ns h] assms by simp
  have c4: "cut h ''://'' = (h, [], False)" using assms by (intro cut_no_char) auto
  show ?thesis
    unfolding s ParseNameBare_def Let_def using gt c1 c2 c3 c4 by (simp add: zero_name_def)
qed

section \<open>Properties\<close>

lemma IsFullyQualified_scheme [simp]: "IsFullyQualified (n\<lparr>ProtocolScheme := s\<rparr>) = IsFullyQualified n"
  by (simp add: IsFullyQualified_def)

text \<open>
  Printing a valid name and parsing it back, with or without the defaults, gives the same
  host, namespace, model and tag; the scheme is not printed, so it comes back empty, or as
  the default.
\<close>

theorem name_string_roundtrip:
  assumes "IsValid n"
  shows "ParseNameBare (name_String n) = n\<lparr>ProtocolScheme := []\<rparr>
    \<and> ParseName (name_String n) = n\<lparr>ProtocolScheme := defaultProtocolScheme\<rparr>"
proof -
  note v = valid_parts [OF assms [unfolded IsValid_def]]
  have "name_String n = Host n @ ''/'' @ Namespace n @ ''/'' @ Model n @ '':'' @ Tag n"
    using v by (simp add: name_String_def)
  then have bare: "ParseNameBare (name_String n) = n\<lparr>ProtocolScheme := []\<rparr>"
    using ParseNameBare_full [OF v(1-8) v(11)] by simp
  moreover have "ParseName (name_String n) = n\<lparr>ProtocolScheme := defaultProtocolScheme\<rparr>"
    using v unfolding ParseName_def bare by (simp add: Merge_def DefaultName_def)
  ultimately show ?thesis by blast
qed

definition sample_name :: name where
  "sample_name = \<lparr>Host = ''localhost:5000'', Namespace = ''me'', Model = ''llama3.2'', Tag = ''1b-q4_0'',
     ProtocolScheme = ''http''\<rparr>"

lemma sample_name_valid: "IsFullyQualified sample_name"
  by (simp add: sample_name_def IsFullyQualified_def isValidPart_def isValidLen_def valid_runes_iff
      isAlphanumericOrUnderscore_def valid_later_def)

lemma name_string_roundtrip_witness:
  "ParseNameBare ''localhost:5000/me/llama3.2:1b-q4_0'' = sample_name\<lparr>ProtocolScheme := []\<rparr> \<and>
   ParseName ''localhost:5000/me/llama3.2:1b-q4_0'' = sample_name\<lparr>ProtocolScheme := ''https''\<rparr>"
proof -
  have "name_String sample_name = ''localhost:5000/me/llama3.2:1b-q4_0''"
    by (simp add: name_String_def sample_name_def)
  with name_string_roundtrip [of sample_name] sample_name_valid show ?thesis
    by (simp add: IsValid_def defaultProtocolScheme_def)
qed

lemma split_all_cons:
  assumes "c \<notin> set u"
  shows "split_all (u @ c # v) [c] = u # split_all v [c]"
proof -
  have "index (u @ c # v) [c] = Some (length u)"
  proof (rule index_SomeI)
    fix j assume "j < length u"
    then have "hd (drop j (u @ c # v)) = u ! j" "u ! j \<in> set u" by (auto simp: hd_drop_conv_nth nth_append)
    with assms show "\<not> prefix [c] (drop j (u @ c # v))" by (auto simp: prefix_def)
  qed simp_all
  then show ?thesis by (simp add: split_all.simps [of "u @ c # v"])
qed

lemma split_all_one: "c \<notin> set u \<Longrightarrow> split_all u [c] = [u]"
proof -
  assume "c \<notin> set u"
  then have "\<not> contains u [c]" by (auto simp: contains_iff)
  then show ?thesis by (simp add: split_all.simps [of u] contains_def)
qed

definition plain_element :: "string \<Rightarrow> bool" where
  "plain_element e \<longleftrightarrow> e \<noteq> [] \<and> e \<noteq> ''.'' \<and> e \<noteq> ''..'' \<and> CHR ''/'' \<notin> set e"

lemma valid_plain: "isValidPart kind s \<Longrightarrow> plain_element s"
  using valid_part_not_in [OF _ not_valid_later(1)] not_valid_later(4)
  by (auto simp: plain_element_def dest!: isValidPart_chars)

lemma clean_plain: "list_all plain_element es \<Longrightarrow> foldl (clean_step r) out es = out @ es"
  by (induction es arbitrary: out) (auto simp: plain_element_def)

lemma valid_path:
  assumes "IsFullyQualified n"
  shows "Filepath n = Some (Host n @ ''/'' @ Namespace n @ ''/'' @ Model n @ ''/'' @ Tag n)"
    and "split_all (Host n @ ''/'' @ Namespace n @ ''/'' @ Model n @ ''/'' @ Tag n) ''/'' =
      [Host n, Namespace n, Model n, Tag n]"
    and "list_all plain_element [Host n, Namespace n, Model n, Tag n]"
proof -
  note v = valid_parts [OF assms]
  let ?s = "Host n @ ''/'' @ Namespace n @ ''/'' @ Model n @ ''/'' @ Tag n"
  show plain: "list_all plain_element [Host n, Namespace n, Model n, Tag n]"
    using assms by (auto simp: IsFullyQualified_def intro: valid_plain)
  show split: "split_all ?s ''/'' = [Host n, Namespace n, Model n, Tag n]"
    using v by (simp add: split_all_cons split_all_one)
  have "\<not> has_prefix ?s ''/''"
    using v(1,5) by (cases "Host n") (auto simp: has_prefix_def)
  moreover have "foldl (clean_step False) [] (split_all ?s ''/'') = [Host n, Namespace n, Model n, Tag n]"
    unfolding split by (simp only: clean_plain [OF plain]) simp
  ultimately have "path_clean ?s = ?s"
    using v(1) by (simp add: path_clean_def)
  then show "Filepath n = Some ?s"
    using assms v by (simp add: Filepath_def path_join_def)
qed

text \<open>
  C37. The file path of a valid name is exactly its four parts joined by separators: cleaning
  changes nothing, no part is empty, \<^verbatim>\<open>.\<close>, \<^verbatim>\<open>..\<close> or contains a separator (so the path stays
  four levels below the directory it is appended to), and parsing the path gives the name
  back without its scheme.
\<close>

theorem filepath_roundtrip:
  assumes "IsFullyQualified n"
  shows "\<exists>path. Filepath n = Some path \<and> split_all path ''/'' = [Host n, Namespace n, Model n, Tag n]
    \<and> list_all plain_element (split_all path ''/'')
    \<and> ParseNameFromFilepath path = n\<lparr>ProtocolScheme := []\<rparr>"
proof -
  let ?s = "Host n @ ''/'' @ Namespace n @ ''/'' @ Model n @ ''/'' @ Tag n"
  note p = valid_path [OF assms]
  have "IsFullyQualified \<lparr>Host = Host n, Namespace = Namespace n, Model = Model n, Tag = Tag n, ProtocolScheme = []\<rparr>"
    using assms by (simp add: IsFullyQualified_def)
  then have "ParseNameFromFilepath ?s = n\<lparr>ProtocolScheme := []\<rparr>"
    unfolding ParseNameFromFilepath_def p(2) Let_def by simp
  with p show ?thesis by simp
qed

lemma filepath_roundtrip_witness:
  "\<exists>path. Filepath sample_name = Some path \<and> split_all path ''/'' = [''localhost:5000'', ''me'', ''llama3.2'', ''1b-q4_0'']
    \<and> list_all plain_element (split_all path ''/'')
    \<and> ParseNameFromFilepath path = sample_name\<lparr>ProtocolScheme := []\<rparr>"
  using filepath_roundtrip [OF sample_name_valid] by (simp add: sample_name_def)

lemma ParseNameBare_two:
  assumes "ns \<noteq> []" "m \<noteq> []" "t \<noteq> []"
    and "CHR ''/'' \<notin> set ns" "CHR ''/'' \<notin> set m" "CHR ''/'' \<notin> set t" "CHR '':'' \<notin> set t"
  shows "ParseNameBare (ns @ ''/'' @ m @ '':'' @ t) = zero_name\<lparr>Namespace := ns, Model := m, Tag := t\<rparr>"
proof -
  let ?v = "ns @ ''/'' @ m"
  have s: "ns @ ''/'' @ m @ '':'' @ t = ?v @ CHR '':'' # t" by simp
  have c: "last_index (?v @ CHR '':'' # t) '':'' = Some (length ?v)" using assms by (intro last_index_last)
  have "last_index (ns @ CHR ''/'' # m @ '':'' @ t) ''/'' = Some (length ns)"
    using assms by (intro last_index_last) simp
  then have l: "last_index (?v @ CHR '':'' # t) ''/'' = Some (length ns)" by simp
  have gt: "last_index_int (?v @ CHR '':'' # t) '':'' > last_index_int (?v @ CHR '':'' # t) ''/''"
    unfolding last_index_int_def c l by simp
  have c1: "cutPromised (?v @ CHR '':'' # t) '':'' = (?v, t, True)"
    using cutPromised_last [of "CHR '':''" t ?v] assms by simp
  have c2: "cutPromised ?v ''/'' = (ns, m, True)"
    using cutPromised_last [of "CHR ''/''" m ns] assms by simp
  have c3: "cutPromised ns ''/'' = (ns, [], False)" using assms by (intro cutPromised_none)
  show ?thesis
    unfolding s ParseNameBare_def Let_def using gt c1 c2 c3 by (simp add: zero_name_def)
qed

lemma ParseNameBare_one:
  assumes "m \<noteq> []" "t \<noteq> []" "CHR ''/'' \<notin> set m" "CHR ''/'' \<notin> set t" "CHR '':'' \<notin> set t"
  shows "ParseNameBare (m @ '':'' @ t) = zero_name\<lparr>Model := m, Tag := t\<rparr>"
proof -
  have c: "last_index (m @ CHR '':'' # t) '':'' = Some (length m)" using assms by (intro last_index_last)
  have l: "last_index (m @ CHR '':'' # t) ''/'' = None" using assms by (intro last_index_None) simp
  have gt: "last_index_int (m @ CHR '':'' # t) '':'' > last_index_int (m @ CHR '':'' # t) ''/''"
    unfolding last_index_int_def c l by simp
  have c1: "cutPromised (m @ CHR '':'' # t) '':'' = (m, t, True)"
    using cutPromised_last [of "CHR '':''" t m] assms by simp
  have c2: "cutPromised m ''/'' = (m, [], False)" using assms by (intro cutPromised_none)
  show ?thesis
    unfolding ParseNameBare_def Let_def using gt c1 c2 by (simp add: zero_name_def)
qed

text \<open>
  The short form shown to users is faithful: parsing what \<^verbatim>\<open>DisplayShortest\<close> prints for a
  valid name gives the same model and tag, and the same host and namespace, except that a
  host or namespace equal to the default up to case becomes the default.
\<close>

theorem display_shortest_roundtrip:
  assumes "IsValid n"
  shows "\<exists>m. ParseName (DisplayShortest n) = m \<and> Model m = Model n \<and> Tag m = Tag n
    \<and> (Host m = Host n \<or> Host m = defaultHost \<and> equal_fold (Host n) defaultHost)
    \<and> (Namespace m = Namespace n \<or> Namespace m = defaultNamespace \<and> equal_fold (Namespace n) defaultNamespace)"
proof -
  note v = valid_parts [OF assms [unfolded IsValid_def]]
  have merge: "ParseName s = Merge m DefaultName" if "ParseNameBare s = m" for s m
    using that by (simp add: ParseName_def)
  consider (full) "\<not> equal_fold (Host n) defaultHost"
    | (two) "equal_fold (Host n) defaultHost" "\<not> equal_fold (Namespace n) defaultNamespace"
    | (one) "equal_fold (Host n) defaultHost" "equal_fold (Namespace n) defaultNamespace" by blast
  then show ?thesis
  proof cases
    case full
    then have "DisplayShortest n = Host n @ ''/'' @ Namespace n @ ''/'' @ Model n @ '':'' @ Tag n"
      by (simp add: DisplayShortest_def)
    with merge [OF ParseNameBare_full [OF v(1-8) v(11)]] v show ?thesis by (simp add: Merge_def)
  next
    case two
    then have "DisplayShortest n = Namespace n @ ''/'' @ Model n @ '':'' @ Tag n"
      by (simp add: DisplayShortest_def)
    with merge [OF ParseNameBare_two [OF v(2-4,6-8) v(11)]] v two show ?thesis
      by (simp add: Merge_def zero_name_def DefaultName_def)
  next
    case one
    then have "DisplayShortest n = Model n @ '':'' @ Tag n" by (simp add: DisplayShortest_def)
    with merge [OF ParseNameBare_one [OF v(3,4,7,8) v(11)]] v one show ?thesis
      by (simp add: Merge_def zero_name_def DefaultName_def)
  qed
qed

lemma display_shortest_roundtrip_witness:
  "\<exists>m. ParseName (DisplayShortest sample_name) = m \<and> Model m = ''llama3.2'' \<and> Tag m = ''1b-q4_0''
    \<and> (Host m = ''localhost:5000'' \<or> Host m = defaultHost \<and> equal_fold ''localhost:5000'' defaultHost)
    \<and> (Namespace m = ''me'' \<or> Namespace m = defaultNamespace \<and> equal_fold ''me'' defaultNamespace)"
  using display_shortest_roundtrip [of sample_name] sample_name_valid
  by (simp add: IsValid_def) (simp add: sample_name_def)

text \<open>A part that a separator promises but that is missing makes the name invalid.\<close>

lemma missing_invalid: "\<not> isValidPart kind MissingPart"
  using valid_part_not_in [OF _ not_valid_later(2)] by (force simp: MissingPart_def)

lemma last_index_snoc: "last_index (s @ [c]) [c] = Some (length s)"
  using last_index_last [of c "[]" s] by simp

lemma last_index_less: "last_index s [c] = Some i \<Longrightarrow> i < length s"
  by (induction s arbitrary: i) (auto split: option.splits if_splits)

lemma last_index_snoc_other:
  "c \<noteq> d \<Longrightarrow> last_index_int (s @ [d]) [c] < int (length s)"
proof -
  assume cd: "c \<noteq> d"
  have "last_index (s @ [d]) [c] = last_index s [c]" using cd by (induction s) auto
  then show ?thesis
    by (cases "last_index s [c]") (auto simp: last_index_int_def dest: last_index_less)
qed

lemma cutPromised_snoc: "cutPromised (s @ [c]) [c] = (or_else s MissingPart, MissingPart, True)"
  using cutPromised_last [of c "[]" s] by simp

text \<open>
  A name that ends with a separator is never valid: \<^verbatim>\<open>model:\<close> and \<^verbatim>\<open>namespace/\<close> promise a part
  that is missing, and the defaults do not fill it in.
\<close>

theorem dangling_separator_invalid: "\<not> IsValid (ParseName (s @ '':'')) \<and> \<not> IsValid (ParseName (s @ ''/''))"
proof -
  have "last_index_int (s @ '':'') '':'' = int (length s)"
    by (simp add: last_index_int_def last_index_snoc)
  then have colon: "last_index_int (s @ '':'') '':'' > last_index_int (s @ '':'') ''/''"
    using last_index_snoc_other [of "CHR ''/''" "CHR '':''" s] by simp
  have "Tag (ParseNameBare (s @ '':'')) = MissingPart"
    unfolding ParseNameBare_def Let_def using colon
    by (simp add: cutPromised_snoc zero_name_def split: prod.splits)
  then have "Tag (ParseName (s @ '':'')) = MissingPart"
    by (simp add: ParseName_def Merge_def MissingPart_def)
  moreover have "last_index_int (s @ ''/'') ''/'' = int (length s)"
    by (simp add: last_index_int_def last_index_snoc)
  then have slash: "\<not> last_index_int (s @ ''/'') '':'' > last_index_int (s @ ''/'') ''/''"
    using last_index_snoc_other [of "CHR '':''" "CHR ''/''" s] by simp
  have "Model (ParseNameBare (s @ ''/'')) = MissingPart"
    unfolding ParseNameBare_def Let_def using slash
    by (simp add: cutPromised_snoc zero_name_def split: prod.splits)
  then have "Model (ParseName (s @ ''/'')) = MissingPart"
    by (simp add: ParseName_def Merge_def)
  ultimately show ?thesis
    by (simp add: IsValid_def IsFullyQualified_def missing_invalid)
qed

text \<open>
  The documentation of \<^verbatim>\<open>ParseName\<close> and \<^verbatim>\<open>String\<close> promises more than the code does: a name
  with a digest (\<^verbatim>\<open>model@sha256:...\<close>), listed as a valid format, is not valid, because \<^verbatim>\<open>@\<close> is
  never a separator; and \<^verbatim>\<open>String\<close> of an invalid name is not the empty string.
\<close>

theorem name_doc_divergence:
  "\<not> IsValid (ParseName ''model@sha256:0123'') \<and> \<not> IsValid (ParseName ''@sha256-0123'')
   \<and> \<not> IsValid (zero_name\<lparr>Model := ''a b''\<rparr>) \<and> name_String (zero_name\<lparr>Model := ''a b''\<rparr>) = ''a b''"
  by (intro conjI; code_simp)

end
