(* ===== verification/ModelRef.thy ===== *)
theory ModelRef
  imports ModelName
begin

text \<open>
  internal/modelref/modelref.go and server/model_resolver.go: references to models with a
  source suffix (\<^verbatim>\<open>:cloud\<close>, \<^verbatim>\<open>:local\<close> or \<^verbatim>\<open>-cloud\<close> at the end of a tag), and their resolution to
  validated names.
\<close>

section \<open>Parsing a reference\<close>

datatype model_source = SourceUnspecified | SourceLocal | SourceCloud

datatype ref_error =
    ErrModelRequired
  | ErrConflictingSourceSuffix string
  | ErrUnqualifiedName name

record parsed_ref =
  Original :: string
  Base :: string
  Source :: model_source

text \<open>
  \<^verbatim>\<open>strings.ToLower\<close>, whose result is only compared with \<^verbatim>\<open>cloud\<close>, \<^verbatim>\<open>local\<close> and \<^verbatim>\<open>-cloud\<close>. Only
  U+0130 and U+212A have an ASCII lower case, \<^verbatim>\<open>i\<close> and \<^verbatim>\<open>k\<close>, which these words do not contain,
  so lowering the ASCII letters decides the comparisons.
\<close>

definition lower_char :: "char \<Rightarrow> char" where
  "lower_char c = (if 65 \<le> byte c \<and> byte c \<le> (90 :: nat) then char_of (byte c + (32 :: nat)) else c)"

definition to_lower :: "string \<Rightarrow> string" where
  "to_lower s = map lower_char s"

definition parseSourceSuffix :: "string \<Rightarrow> string \<times> model_source \<times> bool" where
  "parseSourceSuffix raw =
     (case last_index raw '':'' of
        None \<Rightarrow> (raw, SourceUnspecified, False)
      | Some idx \<Rightarrow>
          (let suffixRaw = trim_space (drop (idx + 1) raw);
               suffix = to_lower suffixRaw in
           if suffix = ''cloud'' then (take idx raw, SourceCloud, True)
           else if suffix = ''local'' then (take idx raw, SourceLocal, True)
           else if \<not> contains suffixRaw ''/'' \<and> has_suffix suffix ''-cloud'' then
             (take (idx + 1) raw @ take (length suffixRaw - length ''-cloud'') suffixRaw, SourceCloud, True)
           else (raw, SourceUnspecified, False)))"

definition ParseRef :: "string \<Rightarrow> ref_error + parsed_ref" where
  "ParseRef raw0 =
     (let raw = trim_space raw0 in
      if raw = [] then Inl ErrModelRequired
      else case parseSourceSuffix raw of (base, source, explicit) \<Rightarrow>
        if explicit \<and> (case parseSourceSuffix base of (_, _, nested) \<Rightarrow> nested)
        then Inl (ErrConflictingSourceSuffix raw)
        else Inr \<lparr>Original = raw, Base = base, Source = source\<rparr>)"

definition HasExplicitCloudSource :: "string \<Rightarrow> bool" where
  "HasExplicitCloudSource raw = (case ParseRef raw of Inl _ \<Rightarrow> False | Inr r \<Rightarrow> Source r = SourceCloud)"

definition HasExplicitLocalSource :: "string \<Rightarrow> bool" where
  "HasExplicitLocalSource raw = (case ParseRef raw of Inl _ \<Rightarrow> False | Inr r \<Rightarrow> Source r = SourceLocal)"

definition StripCloudSourceTag :: "string \<Rightarrow> string \<times> bool" where
  "StripCloudSourceTag raw = (case ParseRef raw of
     Inl _ \<Rightarrow> (trim_space raw, False)
   | Inr r \<Rightarrow> if Source r \<noteq> SourceCloud then (trim_space raw, False) else (Base r, True))"

definition hasExplicitTag :: "string \<Rightarrow> bool" where
  "hasExplicitTag name = (last_index_int name '':'' > last_index_int name ''/'')"

definition toLegacyCloudPullName :: "string \<Rightarrow> string" where
  "toLegacyCloudPullName base = (if hasExplicitTag base then base @ ''-cloud'' else base @ '':cloud'')"

definition NormalizePullName :: "string \<Rightarrow> ref_error + string \<times> bool" where
  "NormalizePullName raw = (case ParseRef raw of
     Inl err \<Rightarrow> Inl err
   | Inr r \<Rightarrow> if Source r \<noteq> SourceCloud then Inr (Base r, False)
              else Inr (toLegacyCloudPullName (Base r), True))"

section \<open>Resolution to a name\<close>

record parsed_model_ref = parsed_ref +
  Name :: name

definition parseAndValidateModelRef :: "string \<Rightarrow> ref_error + parsed_model_ref" where
  "parseAndValidateModelRef raw = (case ParseRef raw of
     Inl err \<Rightarrow> Inl err
   | Inr parsed \<Rightarrow>
       (let name = ParseName (Base parsed) in
        if \<not> IsValid name then Inl (ErrUnqualifiedName name)
        else Inr \<lparr>Original = Original parsed, Base = Base parsed, Source = Source parsed, Name = name\<rparr>))"

definition parseNormalizePullModelRef :: "string \<Rightarrow> ref_error + parsed_model_ref" where
  "parseNormalizePullModelRef raw = (case ParseRef raw of
     Inl err \<Rightarrow> Inl err
   | Inr parsed \<Rightarrow> (case NormalizePullName raw of
       Inl err \<Rightarrow> Inl err
     | Inr (normalizedName, _) \<Rightarrow>
         (let name = ParseName normalizedName in
          if \<not> IsValid name then Inl (ErrUnqualifiedName name)
          else Inr \<lparr>Original = Original parsed, Base = normalizedName, Source = Source parsed, Name = name\<rparr>)))"

section \<open>Properties\<close>

lemma last_index_SomeD:
  "last_index s [c] = Some i \<Longrightarrow> s = take i s @ c # drop (Suc i) s \<and> c \<notin> set (drop (Suc i) s)"
proof (induction s arbitrary: i)
  case (Cons d s)
  show ?case
  proof (cases "last_index s [c]")
    case None
    then have "c \<notin> set s"
      by (induction s) (auto split: option.splits if_splits)
    with None Cons.prems show ?thesis by (auto split: if_splits)
  next
    case (Some j)
    with Cons show ?thesis by auto
  qed
qed simp

lemma last_index_append: "c \<notin> set t \<Longrightarrow> last_index (u @ c # t) [c] = Some (length u)"
proof (induction u)
  case Nil
  have "last_index t [c] = None"
    using Nil by (induction t) (auto split: option.splits)
  then show ?case by simp
qed simp

text \<open>
  The source suffixes, as a relation between a reference, what is left without the suffix, and the
  source: \<open>:cloud\<close> or \<open>:local\<close> behind the last colon, or a tag that ends in \<open>-cloud\<close>; white space
  around it and the case of its letters do not matter.
\<close>

inductive source_suffix :: "string \<Rightarrow> string \<Rightarrow> model_source \<Rightarrow> bool" where
  cloud: "CHR '':'' \<notin> set t \<Longrightarrow> to_lower (trim_space t) = ''cloud'' \<Longrightarrow> source_suffix (u @ CHR '':'' # t) u SourceCloud"
| local: "CHR '':'' \<notin> set t \<Longrightarrow> to_lower (trim_space t) = ''local'' \<Longrightarrow> source_suffix (u @ CHR '':'' # t) u SourceLocal"
| tagged: "CHR '':'' \<notin> set t \<Longrightarrow> trim_space t = v @ w \<Longrightarrow> to_lower w = ''-cloud'' \<Longrightarrow> CHR ''/'' \<notin> set (trim_space t) \<Longrightarrow>
    source_suffix (u @ CHR '':'' # t) (u @ CHR '':'' # v) SourceCloud"

lemma to_lower_append: "to_lower (a @ b) = to_lower a @ to_lower b"
  by (simp add: to_lower_def)

lemma to_lower_length [simp]: "length (to_lower s) = length s"
  by (simp add: to_lower_def)

lemma dash_cloud:
  "has_suffix (to_lower s) ''-cloud'' \<longleftrightarrow> (\<exists>v w. s = v @ w \<and> to_lower w = ''-cloud'')"
proof
  assume "has_suffix (to_lower s) ''-cloud''"
  then obtain x where x: "to_lower s = x @ ''-cloud''" by (auto simp: go_defs suffix_def)
  let ?n = "length x"
  have "s = take ?n s @ drop ?n s" by simp
  moreover have "to_lower (drop ?n s) = ''-cloud''"
    using arg_cong [OF x, of "drop ?n"] by (simp add: to_lower_def drop_map)
  ultimately show "\<exists>v w. s = v @ w \<and> to_lower w = ''-cloud''" by blast
qed (auto simp: go_defs suffix_def to_lower_append)

lemma contains_slash: "contains s ''/'' \<longleftrightarrow> CHR ''/'' \<in> set s"
  using contains_char [of s "CHR ''/''"] by simp

lemma parseSourceSuffix_sound:
  assumes "parseSourceSuffix raw = (b, src, True)"
  shows "source_suffix raw b src"
proof (cases "last_index raw '':''")
  case None
  with assms show ?thesis by (simp add: parseSourceSuffix_def)
next
  case (Some i)
  let ?u = "take i raw" and ?t = "drop (Suc i) raw"
  let ?s = "trim_space ?t"
  have r: "raw = ?u @ CHR '':'' # ?t" "CHR '':'' \<notin> set ?t" using last_index_SomeD [OF Some] by blast+
  consider "to_lower ?s = ''cloud''" "b = ?u" "src = SourceCloud" | "to_lower ?s = ''local''" "b = ?u" "src = SourceLocal"
    | "CHR ''/'' \<notin> set ?s" "has_suffix (to_lower ?s) ''-cloud''" "src = SourceCloud"
      "b = take (i + 1) raw @ take (length ?s - length ''-cloud'') ?s"
    using assms Some by (auto simp: parseSourceSuffix_def Let_def contains_slash split: if_splits)
  then show ?thesis
  proof cases
    case 1
    then show ?thesis using source_suffix.cloud [OF r(2), of ?u] r(1) by simp
  next
    case 2
    then show ?thesis using source_suffix.local [OF r(2), of ?u] r(1) by simp
  next
    case 3
    then obtain v w where vw: "?s = v @ w" "to_lower w = ''-cloud''" unfolding dash_cloud by blast
    have "length w = length ''-cloud''" using arg_cong [OF vw(2), of length] by simp
    then have v: "take (length ?s - length ''-cloud'') ?s = v" unfolding vw(1) by simp
    have "i < length raw" using Some r by (metis drop_all length_drop linorder_not_le append_Nil2 append_eq_append_conv list.distinct(1) same_append_eq append_take_drop_id length_take min.absorb2)
    then have "take (i + 1) raw = ?u @ [CHR '':'']"
      using r(1) by (metis Suc_eq_plus1 append_eq_conv_conj length_take less_imp_le min.absorb2 nth_append_length take_Suc_conv_app_nth)
    then have "b = ?u @ CHR '':'' # v" using 3(4) v by simp
    with source_suffix.tagged [OF r(2) vw 3(1), of ?u] r(1) 3(3) show ?thesis by simp
  qed
qed

lemma parseSourceSuffix_complete:
  assumes "source_suffix raw b src"
  shows "snd (snd (parseSourceSuffix raw))"
  using assms
proof cases
  case (cloud t)
  then show ?thesis using last_index_append [of "CHR '':''" t b] by (simp add: parseSourceSuffix_def)
next
  case (local t)
  then show ?thesis using last_index_append [of "CHR '':''" t b] by (simp add: parseSourceSuffix_def)
next
  case (tagged t v w u)
  then have "has_suffix (to_lower (trim_space t)) ''-cloud''" unfolding dash_cloud by blast
  with tagged show ?thesis using last_index_append [of "CHR '':''" t u]
    by (simp add: parseSourceSuffix_def contains_slash Let_def)
qed

lemma parseSourceSuffix_plain: "\<not> snd (snd (parseSourceSuffix raw)) \<Longrightarrow> parseSourceSuffix raw = (raw, SourceUnspecified, False)"
  by (auto simp: parseSourceSuffix_def Let_def split: option.splits if_splits)

lemma explicit_source: "source_suffix raw b src \<Longrightarrow> src \<noteq> SourceUnspecified"
  by (cases rule: source_suffix.cases) auto

text \<open>
  C38. A resolved reference is sound: its name is valid and is the parse of its base; the original
  is the trimmed input and is not empty; the source is what the suffix of the original says and the
  base is the original without the suffix, or there is no suffix, the source is unspecified and the
  base is the original; and the base never has a further source suffix (\<^verbatim>\<open>x:local:cloud\<close> is refused).
\<close>

theorem resolved_ref_sound:
  assumes "parseAndValidateModelRef raw = Inr r"
  shows "IsValid (Name r) \<and> Name r = ParseName (Base r) \<and> Original r = trim_space raw \<and> Original r \<noteq> [] \<and>
    (source_suffix (Original r) (Base r) (Source r) \<or> Source r = SourceUnspecified \<and> Base r = Original r) \<and>
    (\<nexists>b src. source_suffix (Base r) b src)"
proof -
  from assms obtain p where p: "ParseRef raw = Inr p" "IsValid (ParseName (Base p))"
    "r = \<lparr>Original = Original p, Base = Base p, Source = Source p, Name = ParseName (Base p)\<rparr>"
    by (auto simp: parseAndValidateModelRef_def Let_def split: sum.splits if_splits)
  obtain b src ex where s: "parseSourceSuffix (trim_space raw) = (b, src, ex)" by (cases "parseSourceSuffix (trim_space raw)")
  then have q: "trim_space raw \<noteq> []" "p = \<lparr>Original = trim_space raw, Base = b, Source = src\<rparr>"
      "\<not> (ex \<and> snd (snd (parseSourceSuffix b)))"
    using p(1) by (auto simp: ParseRef_def Let_def split: if_splits prod.splits)
  have "(source_suffix (trim_space raw) b src \<or> src = SourceUnspecified \<and> b = trim_space raw) \<and> (\<nexists>b' src. source_suffix b b' src)"
  proof (cases ex)
    case True
    then have "source_suffix (trim_space raw) b src" using s parseSourceSuffix_sound by simp
    moreover have "\<nexists>b' src. source_suffix b b' src" using True q(3) parseSourceSuffix_complete by blast
    ultimately show ?thesis by blast
  next
    case False
    then have "\<not> snd (snd (parseSourceSuffix (trim_space raw)))" using s by simp
    moreover from parseSourceSuffix_plain [OF this] s have "src = SourceUnspecified" "b = trim_space raw" by simp_all
    ultimately show ?thesis using parseSourceSuffix_complete by blast
  qed
  with p(2,3) q(1,2) show ?thesis by simp
qed

lemma resolved_ref_sound_witness:
  "\<exists>r. parseAndValidateModelRef '' gpt-oss:20b-cloud'' = Inr r \<and> IsValid (Name r)
    \<and> source_suffix ''gpt-oss:20b-cloud'' ''gpt-oss:20b'' SourceCloud"
proof -
  obtain r where r: "parseAndValidateModelRef '' gpt-oss:20b-cloud'' = Inr r" "Base r = ''gpt-oss:20b''"
    "Source r = SourceCloud"
  proof -
    have "(case parseAndValidateModelRef '' gpt-oss:20b-cloud'' of Inl _ \<Rightarrow> False
        | Inr r \<Rightarrow> Base r = ''gpt-oss:20b'' \<and> Source r = SourceCloud)" by code_simp
    then show ?thesis using that by (auto split: sum.splits)
  qed
  have t: "trim_space '' gpt-oss:20b-cloud'' = ''gpt-oss:20b-cloud''" by code_simp
  from resolved_ref_sound [OF r(1)] r show ?thesis unfolding t by auto
qed

text \<open>References in printable ASCII, without white space.\<close>

definition printable :: "string \<Rightarrow> bool" where
  "printable s \<longleftrightarrow> list_all (\<lambda>c. 0x20 < byte c \<and> byte c < (0x80 :: nat)) s"

lemma printable_append [simp]: "printable (a @ b) \<longleftrightarrow> printable a \<and> printable b"
  by (simp add: printable_def)

lemma printable_take_drop: "printable s \<Longrightarrow> printable (take n s) \<and> printable (drop n s)"
  by (metis append_take_drop_id printable_append)

lemma printable_trim: "printable s \<Longrightarrow> trim_space s = s"
proof -
  assume p: "printable s"
  have tok: "t \<in> set ws_tokens \<Longrightarrow> \<not> printable (take 1 t) \<and> \<not> printable (drop (length t - 1) t)" for t
    by (auto simp: ws_tokens_def printable_def white_space_def encode_rune_def)
  have "lead_ok s" unfolding lead_ok_def
  proof safe
    fix t assume "t \<in> set ws_tokens" "prefix t s"
    with p tok [of t] show False by (auto simp: prefix_def dest: printable_take_drop)
  qed
  moreover have "end_ok s" unfolding end_ok_def
  proof safe
    fix t assume "t \<in> set ws_tokens" "suffix t s"
    with p tok [of t] show False by (auto simp: suffix_def dest: printable_take_drop)
  qed
  ultimately show ?thesis by (simp add: trim_space_def trim_left_lead_ok trim_right_end_ok)
qed

lemma explicit_tag_split:
  "hasExplicitTag b \<Longrightarrow> \<exists>u t. b = u @ CHR '':'' # t \<and> CHR '':'' \<notin> set t \<and> CHR ''/'' \<notin> set t"
proof -
  assume h: "hasExplicitTag b"
  then obtain i where i: "last_index b '':'' = Some i"
    by (cases "last_index b '':''") (auto simp: hasExplicitTag_def last_index_int_def split: option.splits)
  let ?u = "take i b" and ?t = "drop (Suc i) b"
  from last_index_SomeD [OF i] have b: "b = ?u @ CHR '':'' # ?t" "CHR '':'' \<notin> set ?t" by auto
  have "CHR ''/'' \<notin> set ?t"
  proof
    assume "CHR ''/'' \<in> set ?t"
    then obtain x y where xy: "?t = x @ CHR ''/'' # y" "CHR ''/'' \<notin> set y"
      by (metis split_list_last)
    with b(1) have s: "b = (?u @ CHR '':'' # x) @ CHR ''/'' # y" by (metis append_Cons append_assoc)
    have "last_index b ''/'' = Some (length (?u @ CHR '':'' # x))"
      by (subst s) (rule last_index_last [OF xy(2)])
    moreover have "length ?u = i" using last_index_less [OF i] by simp
    ultimately show False using h i by (simp add: hasExplicitTag_def last_index_int_def)
  qed
  with b show ?thesis by blast
qed

lemma no_slash: "CHR ''/'' \<notin> set t \<Longrightarrow> \<not> contains t ''/''"
  by (auto simp: contains_iff)

lemma suffix_of_cloud_tag:
  assumes "CHR '':'' \<notin> set t" "CHR ''/'' \<notin> set t" "printable (u @ CHR '':'' # t)"
  shows "parseSourceSuffix (u @ CHR '':'' # t @ ''-cloud'') = (u @ CHR '':'' # t, SourceCloud, True)"
proof -
  have i: "last_index (u @ CHR '':'' # t @ ''-cloud'') '':'' = Some (length u)"
    using assms(1) by (intro last_index_last) simp
  have "printable (t @ ''-cloud'')" using assms(3) by (simp add: printable_def)
  then have t: "trim_space (t @ ''-cloud'') = t @ ''-cloud''" by (rule printable_trim)
  have l: "to_lower (t @ ''-cloud'') = to_lower t @ ''-cloud''"
    by (simp add: to_lower_def lower_char_def)
  have "\<not> contains (t @ ''-cloud'') ''/''" using assms(2) by (intro no_slash) simp
  moreover have "x @ ''-cloud'' \<noteq> ''cloud''" "x @ ''-cloud'' \<noteq> ''local''" for x
    by (auto simp: append_eq_Cons_conv)
  ultimately show ?thesis
    using i t by (simp add: parseSourceSuffix_def Let_def l has_suffix_def suffix_def)
qed

text \<open>
  Pull names normalize without loss: the legacy name that \<^verbatim>\<open>NormalizePullName\<close> returns for a
  cloud reference in printable ASCII (\<^verbatim>\<open>m:20b:cloud\<close> becomes \<^verbatim>\<open>m:20b-cloud\<close>, \<^verbatim>\<open>m:cloud\<close> stays) is
  again a cloud reference with the same base.
\<close>

theorem normalize_pull_roundtrip:
  assumes "printable raw" "ParseRef raw = Inr r" "NormalizePullName raw = Inr (name, True)"
  shows "ParseRef name = Inr \<lparr>Original = name, Base = Base r, Source = SourceCloud\<rparr>"
proof -
  have src: "Source r = SourceCloud" and name: "name = toLegacyCloudPullName (Base r)"
    using assms(2,3) by (auto simp: NormalizePullName_def split: if_splits)
  have "\<not> snd (snd (parseSourceSuffix (Base r)))" and pr: "printable (Base r)"
    using assms(1,2) src
    by (auto simp: ParseRef_def Let_def printable_trim printable_take_drop parseSourceSuffix_def [of raw]
        split: if_splits prod.splits option.splits)
  then have nested: "parseSourceSuffix (Base r) = (x, y, z) \<Longrightarrow> \<not> z" for x y z by simp
  have "parseSourceSuffix name = (Base r, SourceCloud, True) \<and> printable name \<and> name \<noteq> []"
  proof (cases "hasExplicitTag (Base r)")
    case True
    then obtain u t where "Base r = u @ CHR '':'' # t" "CHR '':'' \<notin> set t" "CHR ''/'' \<notin> set t"
      using explicit_tag_split by blast
    with suffix_of_cloud_tag [of t u] True pr name show ?thesis
      by (simp add: toLegacyCloudPullName_def printable_def)
  next
    case False
    then have n: "name = Base r @ '':cloud''" by (simp add: name toLegacyCloudPullName_def)
    have "last_index (Base r @ CHR '':'' # ''cloud'') '':'' = Some (length (Base r))"
      by (intro last_index_last) simp
    moreover have "trim_space ''cloud'' = ''cloud''" by (rule printable_trim) (simp add: printable_def)
    ultimately show ?thesis
      using pr by (simp add: n parseSourceSuffix_def to_lower_def lower_char_def printable_def)
  qed
  then show ?thesis using nested by (auto simp: ParseRef_def Let_def printable_trim split: prod.splits)
qed

lemma normalize_pull_roundtrip_witness:
  "ParseRef ''gpt-oss:20b-cloud'' =
    Inr \<lparr>Original = ''gpt-oss:20b-cloud'', Base = ''gpt-oss:20b'', Source = SourceCloud\<rparr>"
proof -
  have "printable ''gpt-oss:20b:cloud''" by (simp add: printable_def)
  moreover have "ParseRef ''gpt-oss:20b:cloud'' =
    Inr \<lparr>Original = ''gpt-oss:20b:cloud'', Base = ''gpt-oss:20b'', Source = SourceCloud\<rparr>" by code_simp
  moreover have "NormalizePullName ''gpt-oss:20b:cloud'' = Inr (''gpt-oss:20b-cloud'', True)" by code_simp
  ultimately show ?thesis using normalize_pull_roundtrip by fastforce
qed

end
