(* ===== verification/Harmony.thy ===== *)
theory Harmony
  imports Streaming Decimal ApiTypes "HOL-Library.AList"
begin

text \<open>
  harmony/harmonyparser.go: the parser of the harmony format (messages with a header, a
  channel and content between special tokens), the handler that turns its events into
  content, thinking and tool calls, and the map between the user's function names and
  names harmony accepts. JSON decoding of the arguments of a call and the non-ASCII part of
  \<^verbatim>\<open>unicode.IsLetter\<close> and \<^verbatim>\<open>unicode.IsDigit\<close> are parameters.
\<close>

section \<open>The parser\<close>

datatype harmony_state = LookingForMessageStart | ParsingHeader | ParsingContent

fun harmony_state_String :: "harmony_state \<Rightarrow> string" where
  "harmony_state_String LookingForMessageStart = ''LookingForMessageStart''"
| "harmony_state_String ParsingHeader = ''ParsingHeader''"
| "harmony_state_String ParsingContent = ''ParsingContent''"

record harmony_parser =
  hp_state :: harmony_state
  MessageStartTag :: string
  MessageEndTag :: string
  HeaderEndTag :: string
  hp_acc :: string
  hp_lifetimeAcc :: string

record harmony_header =
  Role :: string
  Channel :: string
  Recipient :: string

text \<open>
  The events, and the panic of \<^verbatim>\<open>split[0]\<close> or \<^verbatim>\<open>split[1]\<close>, out of range when a tag is empty and
  the buffer has less than two characters.
\<close>

datatype harmony_event =
    MessageStart
  | HeaderComplete harmony_header
  | ContentEmitted string
  | MessageEnd
  | IndexPanic

definition AddImplicitStart :: "harmony_parser \<Rightarrow> harmony_parser" where
  "AddImplicitStart s = s\<lparr>hp_acc := hp_acc s @ ''<|start|>assistant''\<rparr>"

definition AddImplicitStartOrPrefill :: "harmony_parser \<Rightarrow> 'a message option \<Rightarrow> harmony_parser" where
  "AddImplicitStartOrPrefill s lastMessage =
     (case lastMessage of
        None \<Rightarrow> AddImplicitStart s
      | Some m \<Rightarrow>
          if msg_Role m = ''assistant'' then
            (if msg_Content m \<noteq> [] then
               s\<lparr>hp_acc := hp_acc s @ ''<|start|>assistant<|channel|>final<|message|>''\<rparr>
             else if msg_Thinking m \<noteq> [] then
               s\<lparr>hp_acc := hp_acc s @ ''<|start|>assistant<|channel|>analysis<|message|>''\<rparr>
             else AddImplicitStart s)
          else AddImplicitStart s)"

definition parseHeader :: "string \<Rightarrow> harmony_header" where
  "parseHeader raw0 =
     (let raw = (if contains raw0 ''<|constrain|>''
                 then trim_space (replace1 raw0 ''<|constrain|>'' '' <|constrain|>'') else raw0);
          (channel, raw) =
            (case index raw ''<|channel|>'' of
               None \<Rightarrow> ([], raw)
             | Some channelIndex \<Rightarrow>
                 (let before = take channelIndex raw;
                      after = drop (channelIndex + length ''<|channel|>'') raw;
                      idx = space_index after
                  in (take idx after, trim_space (before @ drop idx after))))
      in case Trimming.fields raw of
           [] \<Rightarrow> \<lparr>Role = [], Channel = channel, Recipient = []\<rparr>
         | role # tokens \<Rightarrow>
             (let (r, rcp) = (if has_prefix role ''to='' then (''tool'', drop 3 role) else (role, []));
                  rcp = (if rcp = [] \<and> 0 < length tokens \<and> has_prefix (tokens ! 0) ''to=''
                         then drop 3 (tokens ! 0) else rcp)
              in \<lparr>Role = r, Channel = channel, Recipient = rcp\<rparr>))"

text \<open>\<^verbatim>\<open>strings.SplitN(s, sep, 2)\<close>; an empty separator cuts after the first character.\<close>

definition splitn2_any :: "string \<Rightarrow> string \<Rightarrow> string list" where
  "splitn2_any s sep =
     (if sep = [] then
        (if s = [] then []
         else let n = snd (decode_rune s) in if length s \<le> n then [s] else [take n s, drop n s])
      else splitn2 s sep)"

definition harmony_eat :: "harmony_parser \<Rightarrow> harmony_event list \<times> bool \<times> harmony_parser" where
  "harmony_eat s = (case hp_state s of
     LookingForMessageStart \<Rightarrow>
       if contains (hp_acc s) (MessageStartTag s) then
         (case splitn2_any (hp_acc s) (MessageStartTag s) of
            [_, after] \<Rightarrow> ([MessageStart], True, s\<lparr>hp_state := ParsingHeader, hp_acc := after\<rparr>)
          | _ \<Rightarrow> ([IndexPanic], False, s))
       else ([], False, s)
   | ParsingHeader \<Rightarrow>
       if contains (hp_acc s) (HeaderEndTag s) then
         (case splitn2_any (hp_acc s) (HeaderEndTag s) of
            [header, after] \<Rightarrow>
              ([HeaderComplete (parseHeader header)], True,
               s\<lparr>hp_state := ParsingContent, hp_acc := after\<rparr>)
          | _ \<Rightarrow> ([IndexPanic], False, s))
       else ([], False, s)
   | ParsingContent \<Rightarrow>
       if contains (hp_acc s) (MessageEndTag s) then
         (case splitn2_any (hp_acc s) (MessageEndTag s) of
            [content, after] \<Rightarrow>
              ((if content \<noteq> [] then [ContentEmitted content] else []) @ [MessageEnd], True,
               s\<lparr>hp_state := LookingForMessageStart, hp_acc := after\<rparr>)
          | _ \<Rightarrow> ([IndexPanic], False, s))
       else let overlapLen = overlap (hp_acc s) (MessageEndTag s) in
         if 0 < overlapLen then
           (let content = take (length (hp_acc s) - overlapLen) (hp_acc s);
                remaining = drop (length (hp_acc s) - overlapLen) (hp_acc s)
            in ((if content = [] then [] else [ContentEmitted content]), False, s\<lparr>hp_acc := remaining\<rparr>))
         else if hp_acc s = [] then ([], False, s)
         else ([ContentEmitted (hp_acc s)], False, s\<lparr>hp_acc := []\<rparr>))"

lemma splitn2_any_shorter:
  "contains s sep \<Longrightarrow> splitn2_any s sep = [x, y] \<Longrightarrow> length y < length s"
  using index_le [of s sep] decode_rune_size_pos [of s]
  by (cases sep) (auto simp: splitn2_any_def splitn2_def contains_def Let_def split: if_splits option.splits)

lemma harmony_progress: "harmony_eat s = (ev, True, s1) \<Longrightarrow> length (hp_acc s1) < length (hp_acc s)"
  using splitn2_any_shorter
  by (auto simp: harmony_eat_def Let_def split: harmony_state.splits if_splits list.splits)

function harmony_loop :: "harmony_parser \<Rightarrow> harmony_event list \<times> harmony_parser" where
  "harmony_loop s =
     (case harmony_eat s of (newEvents, keepLooping, s1) \<Rightarrow>
        if keepLooping then (case harmony_loop s1 of (events, s2) \<Rightarrow> (newEvents @ events, s2))
        else (newEvents, s1))"
  by pat_completeness auto
termination
  by (relation "measure (\<lambda>s. length (hp_acc s))") (auto dest: harmony_progress [OF sym])

declare harmony_loop.simps [simp del]

definition harmony_push :: "harmony_parser \<Rightarrow> string \<Rightarrow> harmony_parser" where
  "harmony_push s x = s\<lparr>hp_acc := hp_acc s @ x, hp_lifetimeAcc := hp_lifetimeAcc s @ x\<rparr>"

definition harmony_AddContent :: "harmony_parser \<Rightarrow> string \<Rightarrow> harmony_event list \<times> harmony_parser" where
  "harmony_AddContent s content = harmony_loop (harmony_push s content)"

section \<open>Function names\<close>

record function_name_map =
  userToHarmony :: "(string \<times> string) list"
  harmonyToUser :: "(string \<times> string) list"

definition NewFunctionNameMap :: function_name_map where
  "NewFunctionNameMap = \<lparr>userToHarmony = [], harmonyToUser = []\<rparr>"

text \<open>
  The character test of \<^verbatim>\<open>convertToValidChars\<close>: \<open>uni\<close> says which code points beyond ASCII are
  letters or digits. A code point that is neither kept nor replaced is removed; bytes that
  are not valid UTF-8 decode to U+FFFD, which is not a letter.
\<close>

definition keep_rune :: "(nat \<Rightarrow> bool) \<Rightarrow> nat \<Rightarrow> bool" where
  "keep_rune uni r \<longleftrightarrow>
     (if r < 0x80 then 65 \<le> r \<and> r \<le> 90 \<or> 97 \<le> r \<and> r \<le> 122 \<or> 48 \<le> r \<and> r \<le> 57 \<or> r = 95 \<or> r = 36
      else r \<noteq> rune_error \<and> uni r)"

definition map_rune :: "(nat \<Rightarrow> bool) \<Rightarrow> nat \<Rightarrow> string" where
  "map_rune uni r =
     (if r = 32 \<or> r = 45 \<or> r = 46 then ''_'' else if keep_rune uni r then encode_rune r else [])"

function map_valid :: "(nat \<Rightarrow> bool) \<Rightarrow> string \<Rightarrow> string" where
  "map_valid uni s =
     (if s = [] then []
      else map_rune uni (fst (decode_rune s)) @ map_valid uni (drop (snd (decode_rune s)) s))"
  by pat_completeness auto
termination
  by (relation "measure (\<lambda>(_, s). length s)") (auto dest: decode_rune_size_pos)

declare map_valid.simps [simp del]

definition ascii_digit :: "char \<Rightarrow> bool" where
  "ascii_digit c \<longleftrightarrow> 48 \<le> byte c \<and> byte c \<le> (57 :: nat)"

definition convertToValidChars :: "(nat \<Rightarrow> bool) \<Rightarrow> string \<Rightarrow> string" where
  "convertToValidChars uni userFunctionName =
     (let candidate = map_valid uni userFunctionName in
      if candidate = [] then ''unnamed''
      else if ascii_digit (candidate ! 0) then ''_'' @ candidate
      else candidate)"

text \<open>The loop of \<^verbatim>\<open>deriveName\<close>: it ends because only finitely many names are taken.\<close>

definition numbered_name :: "string \<Rightarrow> nat \<Rightarrow> string" where
  "numbered_name original count = original @ ''_'' @ itoa count"

definition derive_measure :: "(string \<times> string) list \<Rightarrow> string \<Rightarrow> string \<Rightarrow> nat \<Rightarrow> nat" where
  "derive_measure m original candidate count =
     card {j. count \<le> j \<and> numbered_name original j \<in> fst ` set m}
     + (if candidate \<in> fst ` set m then 1 else 0)"

lemma numbered_name_inj: "numbered_name x j = numbered_name x k \<longleftrightarrow> j = k"
  by (simp add: numbered_name_def itoa_inj)

lemma finite_taken: "finite {j. count \<le> j \<and> numbered_name x j \<in> fst ` set m}"
proof (rule finite_subset)
  show "{j. count \<le> j \<and> numbered_name x j \<in> fst ` set m} \<subseteq> numbered_name x -` (fst ` set m)" by auto
  show "finite (numbered_name x -` (fst ` set m))"
    by (rule finite_vimageI) (auto simp: inj_def numbered_name_inj)
qed

lemma derive_decreases:
  assumes "candidate \<in> fst ` set m"
  shows "derive_measure m x (numbered_name x count) (Suc count) < derive_measure m x candidate count"
proof (cases "numbered_name x count \<in> fst ` set m")
  case True
  then have "{j. count \<le> j \<and> numbered_name x j \<in> fst ` set m} =
      insert count {j. Suc count \<le> j \<and> numbered_name x j \<in> fst ` set m}"
    by (auto simp: not_less_eq_eq Suc_le_eq le_less)
  with True assms finite_taken [of "Suc count" x m] show ?thesis by (simp add: derive_measure_def)
next
  case False
  have "card {j. Suc count \<le> j \<and> numbered_name x j \<in> fst ` set m}
      \<le> card {j. count \<le> j \<and> numbered_name x j \<in> fst ` set m}"
    by (rule card_mono [OF finite_taken]) auto
  with False assms show ?thesis by (simp add: derive_measure_def)
qed

function derive_loop :: "(string \<times> string) list \<Rightarrow> string \<Rightarrow> string \<Rightarrow> nat \<Rightarrow> string" where
  "derive_loop m original candidate count =
     (if map_of m candidate = None then candidate
      else derive_loop m original (numbered_name original count) (Suc count))"
  by pat_completeness auto
termination
  by (relation "measure (\<lambda>(m, original, candidate, count). derive_measure m original candidate count)")
    (auto simp: map_of_eq_None_iff intro!: derive_decreases)

declare derive_loop.simps [simp del]

definition deriveName :: "(nat \<Rightarrow> bool) \<Rightarrow> function_name_map \<Rightarrow> string \<Rightarrow> string" where
  "deriveName uni m userFunctionName =
     (let originalCandidate = convertToValidChars uni userFunctionName
      in derive_loop (harmonyToUser m) originalCandidate originalCandidate 2)"

definition builtin_name :: "string \<Rightarrow> bool" where
  "builtin_name n \<longleftrightarrow> n = ''browser.open'' \<or> n = ''browser.search'' \<or> n = ''browser.find'' \<or> n = ''python''"

definition ConvertAndAdd :: "(nat \<Rightarrow> bool) \<Rightarrow> function_name_map \<Rightarrow> string \<Rightarrow> string \<times> function_name_map" where
  "ConvertAndAdd uni m userFunctionName =
     (let harmonyFunctionName =
            (if builtin_name userFunctionName then userFunctionName else deriveName uni m userFunctionName)
      in (harmonyFunctionName,
          m\<lparr>userToHarmony := AList.update userFunctionName harmonyFunctionName (userToHarmony m),
            harmonyToUser := AList.update harmonyFunctionName userFunctionName (harmonyToUser m)\<rparr>))"

definition OriginalFromConverted :: "function_name_map \<Rightarrow> string \<Rightarrow> string" where
  "OriginalFromConverted m harmonyFunctionName =
     (case map_of (harmonyToUser m) harmonyFunctionName of
        Some userFunctionName \<Rightarrow> userFunctionName
      | None \<Rightarrow> harmonyFunctionName)"

section \<open>The message handler\<close>

datatype harmony_message_state = MsgNormal | MsgThinking | MsgToolCalling

datatype harmony_tool_call_state = ToolNormal | ToolToolCalling

record tool_accumulator =
  ta_state :: harmony_tool_call_state
  ta_acc :: string
  ta_currentToolName :: "string option"

definition SetToolName :: "tool_accumulator \<Rightarrow> string \<Rightarrow> tool_accumulator" where
  "SetToolName a toolName = a\<lparr>ta_currentToolName := Some toolName\<rparr>"

definition accumulator_Add :: "tool_accumulator \<Rightarrow> string \<Rightarrow> tool_accumulator" where
  "accumulator_Add a content = a\<lparr>ta_acc := ta_acc a @ content\<rparr>"

definition Drain :: "tool_accumulator \<Rightarrow> (string option \<times> string) \<times> tool_accumulator" where
  "Drain a = ((ta_currentToolName a, ta_acc a), a\<lparr>ta_state := ToolNormal, ta_acc := []\<rparr>)"

definition accumulator_Content :: "tool_accumulator \<Rightarrow> string" where
  "accumulator_Content a = ta_acc a"

definition CreateToolParser :: tool_accumulator where
  "CreateToolParser = \<lparr>ta_state = ToolNormal, ta_acc = [], ta_currentToolName = None\<rparr>"

text \<open>The parser and the accumulator are pointers; \<^const>\<open>None\<close> is nil.\<close>

record harmony_handler =
  hh_state :: harmony_message_state
  hh_parser :: "harmony_parser option"
  hh_names :: function_name_map
  hh_toolAccumulator :: "tool_accumulator option"
  hh_convertedTools :: "string list"

definition new_harmony_parser :: harmony_parser where
  "new_harmony_parser = \<lparr>hp_state = LookingForMessageStart, MessageStartTag = ''<|start|>'',
     MessageEndTag = ''<|end|>'', HeaderEndTag = ''<|message|>'', hp_acc = [], hp_lifetimeAcc = []\<rparr>"

definition NewHarmonyMessageHandler :: harmony_handler where
  "NewHarmonyMessageHandler = \<lparr>hh_state = MsgNormal, hh_parser = Some new_harmony_parser,
     hh_names = NewFunctionNameMap, hh_toolAccumulator = None, hh_convertedTools = []\<rparr>"

definition harmony_PreservedTokens :: "string list" where
  "harmony_PreservedTokens =
     [''<|start|>'', ''<|end|>'', ''<|message|>'', ''<|channel|>'', ''<|constrain|>'']"

text \<open>The effect of a header: the new state and tool name.\<close>

definition on_header ::
    "harmony_header \<Rightarrow> harmony_message_state \<times> tool_accumulator \<Rightarrow> harmony_message_state \<times> tool_accumulator" where
  "on_header hdr st = (case st of (state, toolParser) \<Rightarrow>
     if Channel hdr = ''analysis'' then
       (if Recipient hdr \<noteq> [] then (MsgToolCalling, SetToolName toolParser (Recipient hdr))
        else (MsgThinking, toolParser))
     else if Channel hdr = ''commentary'' then
       (if Recipient hdr \<noteq> [] then (MsgToolCalling, SetToolName toolParser (Recipient hdr))
        else (MsgNormal, toolParser))
     else if Channel hdr = ''final'' then (MsgNormal, toolParser)
     else (state, toolParser))"

text \<open>The loop over the events: content, thinking and tool content, state and accumulator.\<close>

fun harmony_handle :: "harmony_event list \<Rightarrow> harmony_message_state \<times> tool_accumulator
    \<Rightarrow> (string \<times> string \<times> string) \<times> harmony_message_state \<times> tool_accumulator" where
  "harmony_handle [] st = (([], [], []), st)"
| "harmony_handle (HeaderComplete hdr # events) st = harmony_handle events (on_header hdr st)"
| "harmony_handle (ContentEmitted x # events) st =
     (case harmony_handle events st of ((c, t, k), st') \<Rightarrow>
        ((case fst st of
            MsgNormal \<Rightarrow> (x @ c, t, k) | MsgThinking \<Rightarrow> (c, x @ t, k) | MsgToolCalling \<Rightarrow> (c, t, x @ k)), st'))"
| "harmony_handle (MessageEnd # events) st = harmony_handle events (MsgNormal, snd st)"
| "harmony_handle (e # events) st = harmony_handle events st"

text \<open>\<^verbatim>\<open>AddContent\<close> of the handler; \<^const>\<open>None\<close> is a panic (nil parser or empty tag).\<close>

definition handler_AddContent :: "harmony_handler \<Rightarrow> string \<Rightarrow> tool_accumulator
    \<Rightarrow> ((string \<times> string \<times> string) \<times> harmony_handler \<times> tool_accumulator) option" where
  "handler_AddContent h content toolParser =
     (case hh_parser h of
        None \<Rightarrow> None
      | Some p \<Rightarrow>
          (case harmony_AddContent p content of (events, p1) \<Rightarrow>
             if IndexPanic \<in> set events then None
             else case harmony_handle events (hh_state h, toolParser) of (out, state, toolParser1) \<Rightarrow>
               Some (out, h\<lparr>hh_state := state, hh_parser := Some p1\<rparr>, toolParser1)))"

fun rename_tools :: "(nat \<Rightarrow> bool) \<Rightarrow> tool list \<Rightarrow> harmony_handler \<Rightarrow> tool list \<times> harmony_handler" where
  "rename_tools uni [] h = ([], h)"
| "rename_tools uni (t # ts) h =
     (if tool_name t \<noteq> [] then
        (case ConvertAndAdd uni (hh_names h) (tool_name t) of (name, m) \<Rightarrow>
           let t' = t\<lparr>tool_Function := (tool_Function t)\<lparr>tf_Name := name\<rparr>\<rparr>;
               h' = h\<lparr>hh_names := m, hh_convertedTools := List.insert (tool_name t) (hh_convertedTools h)\<rparr>
           in (case rename_tools uni ts h' of (ts', h'') \<Rightarrow> (t' # ts', h'')))
      else (case rename_tools uni ts h of (ts', h') \<Rightarrow> (t # ts', h')))"

definition handler_Init :: "(nat \<Rightarrow> bool) \<Rightarrow> harmony_handler \<Rightarrow> tool list \<Rightarrow> 'a message option
    \<Rightarrow> think_value option \<Rightarrow> tool list \<times> harmony_handler" where
  "handler_Init uni h tools lastMessage thinkValue =
     (let p = (case hh_parser h of None \<Rightarrow> new_harmony_parser | Some p \<Rightarrow> p);
          p1 = (if lastMessage \<noteq> None then AddImplicitStartOrPrefill p lastMessage else AddImplicitStart p);
          h1 = h\<lparr>hh_parser := Some p1, hh_toolAccumulator := Some CreateToolParser\<rparr>
      in if length tools = 0 then (tools, h1) else rename_tools uni tools h1)"

text \<open>\<^verbatim>\<open>Add\<close>, given the decoder of the arguments of a call.\<close>

definition handler_Add :: "(string \<Rightarrow> 'a option) \<Rightarrow> harmony_handler \<Rightarrow> string \<Rightarrow> bool
    \<Rightarrow> ('a add_result \<times> harmony_handler) option" where
  "handler_Add unmarshal h s done =
     (case hh_toolAccumulator h of
        None \<Rightarrow> None
      | Some acc \<Rightarrow>
          (case handler_AddContent h s acc of
             None \<Rightarrow> None
           | Some ((content, thinking, toolContent), h1, acc1) \<Rightarrow>
               (let acc2 = (if toolContent \<noteq> [] then accumulator_Add acc1 toolContent else acc1) in
                if \<not> done then
                  Some ((content, thinking, [], None), h1\<lparr>hh_toolAccumulator := Some acc2\<rparr>)
                else case Drain acc2 of ((toolName, raw), acc3) \<Rightarrow>
                  let h2 = h1\<lparr>hh_toolAccumulator := Some acc3\<rparr> in
                  case toolName of
                    None \<Rightarrow> Some ((content, thinking, [], None), h2)
                  | Some n \<Rightarrow>
                      (let name = OriginalFromConverted (hh_names h) (trim_prefix n ''functions.'') in
                       case unmarshal raw of
                         None \<Rightarrow> Some (([], [], [], Some JSONError), h2)
                       | Some args \<Rightarrow> Some ((content, thinking, [new_call name args], None), h2)))))"

section \<open>A step commutes with later input\<close>

text \<open>The events with adjacent pieces of content joined.\<close>

fun join_events :: "harmony_event list \<Rightarrow> harmony_event list" where
  "join_events [] = []"
| "join_events (ContentEmitted x # events) =
     (case join_events events of
        ContentEmitted y # r \<Rightarrow> ContentEmitted (x @ y) # r
      | r \<Rightarrow> ContentEmitted x # r)"
| "join_events (e # events) = e # join_events events"

lemma join_events_cong: "join_events a = join_events b \<Longrightarrow> join_events (c @ a) = join_events (c @ b)"
  by (induction c rule: join_events.induct) auto

lemma harmony_handle_Content:
  "harmony_handle (ContentEmitted (x @ y) # ev) st = harmony_handle (ContentEmitted x # ContentEmitted y # ev) st"
  by (auto split: prod.splits harmony_message_state.splits)

lemma harmony_handle_join: "harmony_handle (join_events ev) st = harmony_handle ev st"
proof (induction ev arbitrary: st rule: join_events.induct)
  case (2 x ev)
  have "harmony_handle (ContentEmitted x # join_events ev) st = harmony_handle (ContentEmitted x # ev) st"
    using 2 by simp
  then show ?case
    by (auto simp del: harmony_handle.simps(3) simp: harmony_handle_Content
        split: list.splits harmony_event.splits)
qed simp_all

lemma panic_join: "IndexPanic \<in> set (join_events ev) \<longleftrightarrow> IndexPanic \<in> set ev"
  by (induction ev rule: join_events.induct) (auto split: list.splits harmony_event.splits)

definition tags_ok :: "harmony_parser \<Rightarrow> bool" where
  "tags_ok s \<longleftrightarrow> MessageStartTag s \<noteq> [] \<and> MessageEndTag s \<noteq> [] \<and> HeaderEndTag s \<noteq> []"

text \<open>The step for non-empty tags.\<close>

lemma eat_start:
  assumes "tags_ok s" "hp_state s = LookingForMessageStart"
  shows "harmony_eat s = (case index (hp_acc s) (MessageStartTag s) of
     Some i \<Rightarrow> ([MessageStart], True, s\<lparr>hp_state := ParsingHeader,
       hp_acc := drop (i + length (MessageStartTag s)) (hp_acc s)\<rparr>)
   | None \<Rightarrow> ([], False, s))"
  using assms by (auto simp: harmony_eat_def contains_def splitn2_any_def splitn2_def tags_ok_def split: option.splits)

lemma eat_header:
  assumes "tags_ok s" "hp_state s = ParsingHeader"
  shows "harmony_eat s = (case index (hp_acc s) (HeaderEndTag s) of
     Some i \<Rightarrow> ([HeaderComplete (parseHeader (take i (hp_acc s)))], True, s\<lparr>hp_state := ParsingContent,
       hp_acc := drop (i + length (HeaderEndTag s)) (hp_acc s)\<rparr>)
   | None \<Rightarrow> ([], False, s))"
  using assms by (auto simp: harmony_eat_def contains_def splitn2_any_def splitn2_def tags_ok_def split: option.splits)

definition content_events :: "string \<Rightarrow> harmony_event list" where
  "content_events x = (if x = [] then [] else [ContentEmitted x])"

lemma eat_body:
  assumes "tags_ok s" "hp_state s = ParsingContent"
  shows "harmony_eat s = (case index (hp_acc s) (MessageEndTag s) of
     Some i \<Rightarrow> (content_events (take i (hp_acc s)) @ [MessageEnd], True, s\<lparr>hp_state := LookingForMessageStart,
       hp_acc := drop (i + length (MessageEndTag s)) (hp_acc s)\<rparr>)
   | None \<Rightarrow> (let n = length (hp_acc s) - overlap (hp_acc s) (MessageEndTag s) in
       (content_events (take n (hp_acc s)), False, s\<lparr>hp_acc := drop n (hp_acc s)\<rparr>)))"
  using assms
  by (auto simp: harmony_eat_def contains_def splitn2_any_def splitn2_def tags_ok_def content_events_def
      Let_def split: option.splits)

lemma eat_body_found:
  assumes "tags_ok s" "hp_state s = ParsingContent" "hp_acc s = b" "MessageEndTag s = c"
    and "index b c = Some i" "take i b = x" "drop (i + length c) b = r"
  shows "harmony_eat s = (content_events x @ [MessageEnd], True,
    s\<lparr>hp_state := LookingForMessageStart, hp_acc := r\<rparr>)"
  using assms eat_body [OF assms(1,2)] by simp

lemma eat_body_none:
  assumes "tags_ok s" "hp_state s = ParsingContent" "hp_acc s = b" "MessageEndTag s = c"
    and "index b c = None" "length b - overlap b c = n" "take n b = x" "drop n b = r"
  shows "harmony_eat s = (content_events x, False, s\<lparr>hp_acc := r\<rparr>)"
  using assms eat_body [OF assms(1,2)] by (simp add: Let_def)

lemma join_content_content:
  "join_events (content_events x @ content_events y @ ev) = join_events (content_events (x @ y) @ ev)"
  by (auto simp: content_events_def split: list.splits harmony_event.splits)

interpretation he: eater harmony_eat harmony_loop "\<lambda>s. length (hp_acc s)"
proof (unfold_locales, goal_cases)
  case (1 s)
  show ?case by (subst harmony_loop.simps) (auto split: prod.splits)
qed (rule harmony_progress)

lemma harmony_push_simps [simp]:
  "hp_state (harmony_push s x) = hp_state s" "hp_acc (harmony_push s x) = hp_acc s @ x"
  "MessageStartTag (harmony_push s x) = MessageStartTag s" "MessageEndTag (harmony_push s x) = MessageEndTag s"
  "HeaderEndTag (harmony_push s x) = HeaderEndTag s" "tags_ok (harmony_push s x) = tags_ok s"
  by (simp_all add: harmony_push_def tags_ok_def)

text \<open>A step that finds its tag takes the same step when more input has arrived.\<close>

lemma harmony_found_append:
  assumes "tags_ok s" "harmony_eat s = (ev, True, s1)"
  shows "harmony_eat (harmony_push s y) = (ev, True, harmony_push s1 y)"
proof (cases "hp_state s")
  case LookingForMessageStart
  with assms obtain i where i: "index (hp_acc s) (MessageStartTag s) = Some i"
    by (auto simp: eat_start split: option.splits)
  with assms LookingForMessageStart index_append_left [OF i] index_le [OF i] show ?thesis
    by (auto simp: eat_start harmony_push_def tags_ok_def)
next
  case ParsingHeader
  with assms obtain i where i: "index (hp_acc s) (HeaderEndTag s) = Some i"
    by (auto simp: eat_header split: option.splits)
  with assms ParsingHeader index_append_left [OF i] index_le [OF i] show ?thesis
    by (auto simp: eat_header harmony_push_def tags_ok_def)
next
  case ParsingContent
  with assms obtain i where i: "index (hp_acc s) (MessageEndTag s) = Some i"
    by (auto simp: eat_body Let_def split: option.splits)
  with assms ParsingContent index_append_left [OF i] index_le [OF i] show ?thesis
    by (auto simp: eat_body harmony_push_def tags_ok_def)
qed

text \<open>A step that stops in the middle of a message has emitted what no later input changes.\<close>

lemma harmony_stop_append:
  assumes ok: "tags_ok s" and e: "harmony_eat s = (ev, False, s1)"
  shows "join_events (fst (harmony_loop (harmony_push s y))) =
      join_events (ev @ fst (harmony_loop (harmony_push s1 y)))
    \<and> snd (harmony_loop (harmony_push s y)) = snd (harmony_loop (harmony_push s1 y))"
proof (cases "hp_state s")
  case LookingForMessageStart
  with ok e show ?thesis by (auto simp: eat_start split: option.splits)
next
  case ParsingHeader
  with ok e show ?thesis by (auto simp: eat_header split: option.splits)
next
  case st: ParsingContent
  let ?c = "MessageEndTag s" and ?b = "hp_acc s"
  define n where "n = length ?b - overlap ?b ?c"
  define v where "v = drop n ?b @ y"
  from ok e st have none: "index ?b ?c = None" and ev: "ev = content_events (take n ?b)"
    and s1: "s1 = s\<lparr>hp_acc := drop n ?b\<rparr>"
    by (auto simp: eat_body Let_def n_def split: option.splits)
  have cut: "safe_cut n ?b ?c" using none unfolding n_def by (intro safe_cutI) simp_all
  have n: "n \<le> length ?b" by (simp add: n_def)
  have idx: "index (?b @ y) ?c = map_option ((+) n) (index v ?c)"
    unfolding v_def by (rule index_safe_cut [OF cut])
  have ok1: "tags_ok (harmony_push s y)" "tags_ok (harmony_push s1 y)"
    using ok by (simp_all add: tags_ok_def s1)
  have acc: "hp_acc (harmony_push s y) = ?b @ y" "hp_acc (harmony_push s1 y) = v"
    by (simp_all add: s1 v_def)
  have st1: "hp_state (harmony_push s y) = ParsingContent" "hp_state (harmony_push s1 y) = ParsingContent"
    "MessageEndTag (harmony_push s y) = ?c" "MessageEndTag (harmony_push s1 y) = ?c"
    using st by (simp_all add: s1)
  have upd: "(harmony_push s y)\<lparr>hp_acc := r\<rparr> = (harmony_push s1 y)\<lparr>hp_acc := r\<rparr>"
    "(harmony_push s y)\<lparr>hp_state := q, hp_acc := r\<rparr> = (harmony_push s1 y)\<lparr>hp_state := q, hp_acc := r\<rparr>"
    for r q by (simp_all add: s1 harmony_push_def)
  show ?thesis
  proof (cases "index v ?c")
    case (Some i)
    have t: "take (n + i) (?b @ y) = take n ?b @ take i v" unfolding v_def by (rule cut_take [OF n])
    have d: "drop (n + i + length ?c) (?b @ y) = drop (i + length ?c) v"
      using cut_drop [OF n, of "i + length ?c" y] by (simp only: add.assoc v_def)
    have "index (?b @ y) ?c = Some (n + i)" using idx Some by simp
    note r1 = eat_body_found [OF ok1(1) st1(1) acc(1) st1(3) this t d]
    note r2 = eat_body_found [OF ok1(2) st1(2) acc(2) st1(4) Some refl refl]
    show ?thesis
      using join_content_content [of "take n ?b" "take i v"]
      by (simp add: he.run_more [OF r1] he.run_more [OF r2] ev upd)
  next
    case None
    let ?m = "length v - overlap v ?c"
    have k: "length (?b @ y) - overlap (?b @ y) ?c = n + ?m"
      using overlap_safe_cut [OF cut, of y] overlap_le(1) [of v ?c] n by (simp flip: v_def) (simp add: v_def)
    have t: "take (n + ?m) (?b @ y) = take n ?b @ take ?m v" unfolding v_def by (rule cut_take [OF n])
    have d: "drop (n + ?m) (?b @ y) = drop ?m v" unfolding v_def by (rule cut_drop [OF n])
    have "index (?b @ y) ?c = None" using idx None by simp
    note r1 = eat_body_none [OF ok1(1) st1(1) acc(1) st1(3) this k t d]
    note r2 = eat_body_none [OF ok1(2) st1(2) acc(2) st1(4) None refl refl refl]
    show ?thesis
      using join_content_content [of "take n ?b" "take ?m v" "[]"]
      by (simp add: he.run_stop [OF r1] he.run_stop [OF r2] ev upd)
  qed
qed

lemma content_events_no_panic [simp]: "IndexPanic \<notin> set (content_events x)"
  by (simp add: content_events_def)

lemma harmony_eat_tags: "tags_ok s \<Longrightarrow> harmony_eat s = (ev, go, s1) \<Longrightarrow> tags_ok s1 \<and> IndexPanic \<notin> set ev"
  by (cases "hp_state s")
    (auto simp: eat_start eat_header eat_body tags_ok_def Let_def split: option.splits)

interpretation hi: incremental harmony_eat harmony_loop "\<lambda>s. length (hp_acc s)"
  harmony_push join_events tags_ok "\<lambda>_. True"
proof (unfold_locales, goal_cases)
  case (1 s x y)
  show ?case by (simp add: harmony_push_def)
next
  case (2 a b c)
  then show ?case by (rule join_events_cong)
next
  case (4 s ev go s1)
  then show ?case by (blast dest: harmony_eat_tags)
next
  case (5 s y ev go s1)
  show ?case
  proof (cases go)
    case True
    with 5 have "harmony_eat (harmony_push s y) = (ev, True, harmony_push s1 y)"
      by (intro harmony_found_append) simp_all
    then show ?thesis by (simp add: he.run_more)
  next
    case False
    with 5 show ?thesis by (intro harmony_stop_append) simp_all
  qed
qed simp

section \<open>The handler over chunks\<close>

lemma harmony_no_panic: "tags_ok s \<Longrightarrow> IndexPanic \<notin> set (fst (harmony_loop s))"
proof
  assume ok: "tags_ok s" and p: "IndexPanic \<in> set (fst (harmony_loop s))"
  have "IndexPanic \<noteq> IndexPanic"
    by (rule he.run_events [where I = tags_ok and Q = "\<lambda>e. e \<noteq> IndexPanic", OF _ ok p])
      (use harmony_eat_tags in blast)
  then show False by blast
qed

lemma harmony_handle_append:
  "harmony_handle (a @ b) st = (case harmony_handle a st of ((c, t, k), st1) \<Rightarrow>
     case harmony_handle b st1 of ((c', t', k'), st2) \<Rightarrow> ((c @ c', t @ t', k @ k'), st2))"
  by (induction a st rule: harmony_handle.induct)
    (auto split: prod.splits harmony_message_state.splits)

fun set_ta_acc :: "string \<Rightarrow> (string \<times> string \<times> string) \<times> harmony_message_state \<times> tool_accumulator
    \<Rightarrow> (string \<times> string \<times> string) \<times> harmony_message_state \<times> tool_accumulator" where
  "set_ta_acc z (out, state, a) = (out, state, a\<lparr>ta_acc := z\<rparr>)"

lemma on_header_acc:
  "on_header hdr (state, a\<lparr>ta_acc := z\<rparr>) =
     (fst (on_header hdr (state, a)), (snd (on_header hdr (state, a)))\<lparr>ta_acc := z\<rparr>)"
  by (simp add: on_header_def SetToolName_def)

lemma harmony_handle_acc:
  "harmony_handle ev (state, a\<lparr>ta_acc := z\<rparr>) = set_ta_acc z (harmony_handle ev (state, a))"
proof (induction ev "(state, a)" arbitrary: state a rule: harmony_handle.induct)
  case (2 hdr ev)
  then show ?case by (cases "on_header hdr (state, a)") (auto simp: on_header_acc)
next
  case (3 x ev)
  then show ?case by (auto split: prod.splits harmony_message_state.splits)
qed simp_all

lemma harmony_handle_keeps_acc: "ta_acc (snd (snd (harmony_handle ev st))) = ta_acc (snd st)"
  by (induction ev st rule: harmony_handle.induct)
    (auto simp: on_header_def SetToolName_def split: prod.splits harmony_message_state.splits)

lemma handler_AddContent_ok:
  assumes "hh_parser h = Some p" "tags_ok p"
  shows "handler_AddContent h x a = (case harmony_handle (fst (harmony_AddContent p x)) (hh_state h, a) of
     (out, state, a1) \<Rightarrow>
       Some (out, h\<lparr>hh_state := state, hh_parser := Some (snd (harmony_AddContent p x))\<rparr>, a1))"
  using assms harmony_no_panic [of "harmony_push p x"]
  by (auto simp: handler_AddContent_def harmony_AddContent_def split: prod.splits)

lemma harmony_AddContent_append:
  assumes "tags_ok p"
  shows "join_events (fst (harmony_AddContent p (x @ y))) =
      join_events (fst (harmony_AddContent p x) @ fst (harmony_AddContent (snd (harmony_AddContent p x)) y))"
    and "snd (harmony_AddContent p (x @ y)) = snd (harmony_AddContent (snd (harmony_AddContent p x)) y)"
    and "tags_ok (snd (harmony_AddContent p x))"
  using hi.run_append [of "harmony_push p x" y] hi.ok_run [of "harmony_push p x"] assms
  by (simp_all add: harmony_AddContent_def hi.push_push)

text \<open>One call of \<^verbatim>\<open>Add\<close> after another, as a client concatenates them.\<close>

fun after_add :: "string \<Rightarrow> string \<Rightarrow> ('a add_result \<times> harmony_handler) option
    \<Rightarrow> ('a add_result \<times> harmony_handler) option" where
  "after_add c t (Some ((c', t', calls, None), h)) = Some ((c @ c', t @ t', calls, None), h)"
| "after_add c t r = r"

lemma handler_Add_append:
  assumes "hh_parser h = Some p" "tags_ok p" "hh_toolAccumulator h = Some a"
  shows "handler_Add u h (x @ y) d = (case handler_Add u h x False of
     None \<Rightarrow> None
   | Some ((c, t, _, _), h1) \<Rightarrow> after_add c t (handler_Add u h1 y d))"
proof -
  let ?p1 = "snd (harmony_AddContent p x)" let ?p2 = "snd (harmony_AddContent ?p1 y)"
  let ?e1 = "fst (harmony_AddContent p x)" let ?e2 = "fst (harmony_AddContent ?p1 y)"
  note app = harmony_AddContent_append [OF assms(2)]
  obtain c1 t1 k1 s1 a1 where r1: "harmony_handle ?e1 (hh_state h, a) = ((c1, t1, k1), s1, a1)"
    by (metis prod.exhaust)
  obtain c2 t2 k2 s2 a2 where r2: "harmony_handle ?e2 (s1, a1) = ((c2, t2, k2), s2, a2)"
    by (metis prod.exhaust)
  have a1: "ta_acc a1 = ta_acc a" "ta_acc a2 = ta_acc a1"
    using harmony_handle_keeps_acc [of ?e1 "(hh_state h, a)"] harmony_handle_keeps_acc [of ?e2 "(s1, a1)"] r1 r2
    by simp_all
  have "harmony_handle (fst (harmony_AddContent p (x @ y))) (hh_state h, a) =
      harmony_handle (?e1 @ ?e2) (hh_state h, a)"
    using app(1) by (metis harmony_handle_join)
  then have r: "harmony_handle (fst (harmony_AddContent p (x @ y))) (hh_state h, a) =
      ((c1 @ c2, t1 @ t2, k1 @ k2), s2, a2)"
    by (simp add: harmony_handle_append r1 r2)
  let ?h1 = "h\<lparr>hh_state := s1, hh_parser := Some ?p1\<rparr>"
  let ?b = "a1\<lparr>ta_acc := ta_acc a @ k1\<rparr>"
  have x: "handler_AddContent h x a = Some ((c1, t1, k1), ?h1, a1)"
    using handler_AddContent_ok [OF assms(1,2)] r1 by simp
  have xy: "handler_AddContent h (x @ y) a =
      Some ((c1 @ c2, t1 @ t2, k1 @ k2), h\<lparr>hh_state := s2, hh_parser := Some ?p2\<rparr>, a2)"
    using handler_AddContent_ok [OF assms(1,2)] r by (simp add: app(2))
  have "harmony_handle ?e2 (s1, ?b) = ((c2, t2, k2), s2, a2\<lparr>ta_acc := ta_acc a @ k1\<rparr>)"
    using r2 by (simp add: harmony_handle_acc)
  then have y: "handler_AddContent (?h1\<lparr>hh_toolAccumulator := Some ?b\<rparr>) y ?b =
      Some ((c2, t2, k2), h\<lparr>hh_state := s2, hh_parser := Some ?p2, hh_toolAccumulator := Some ?b\<rparr>,
        a2\<lparr>ta_acc := ta_acc a @ k1\<rparr>)"
    using handler_AddContent_ok [of "?h1\<lparr>hh_toolAccumulator := Some ?b\<rparr>" ?p1] app(3) by simp
  have add: "(if k \<noteq> [] then accumulator_Add b k else b) = b\<lparr>ta_acc := ta_acc b @ k\<rparr>" for b k
    by (simp add: accumulator_Add_def)
  show ?thesis
    using a1 by (auto simp: handler_Add_def assms(3) x xy y add Let_def Drain_def split: option.splits)
qed

text \<open>Chunks fed one by one, the last one with \<^verbatim>\<open>done\<close> set.\<close>

fun feed_harmony :: "(string \<Rightarrow> 'a option) \<Rightarrow> harmony_handler \<Rightarrow> string \<Rightarrow> string list
    \<Rightarrow> ('a add_result \<times> harmony_handler) option" where
  "feed_harmony u h x [] = handler_Add u h x True"
| "feed_harmony u h x (y # ys) =
     (case handler_Add u h x False of
        None \<Rightarrow> None
      | Some ((c, t, _, _), h1) \<Rightarrow> after_add c t (feed_harmony u h1 y ys))"

definition handler_ready :: "harmony_handler \<Rightarrow> bool" where
  "handler_ready h \<longleftrightarrow> (\<exists>p a. hh_parser h = Some p \<and> tags_ok p \<and> hh_toolAccumulator h = Some a)"

lemma handler_Add_ready:
  assumes "handler_ready h"
  shows "\<exists>r h1. handler_Add u h x d = Some (r, h1) \<and> handler_ready h1"
proof -
  from assms obtain p a where h: "hh_parser h = Some p" "tags_ok p" "hh_toolAccumulator h = Some a"
    by (auto simp: handler_ready_def)
  obtain c t k s1 a1 where r: "harmony_handle (fst (harmony_AddContent p x)) (hh_state h, a) = ((c, t, k), s1, a1)"
    by (metis prod.exhaust)
  from handler_AddContent_ok [OF h(1,2)] r harmony_AddContent_append(3) [OF h(2), of x] show ?thesis
    by (auto simp: handler_Add_def h(3) Let_def Drain_def handler_ready_def split: option.splits)
qed

lemma rename_tools_frame:
  "hh_parser (snd (rename_tools uni ts h)) = hh_parser h
   \<and> hh_toolAccumulator (snd (rename_tools uni ts h)) = hh_toolAccumulator h"
  by (induction uni ts h rule: rename_tools.induct) (auto simp: Let_def split: prod.splits)

lemma handler_Init_ready: "handler_ready (snd (handler_Init uni NewHarmonyMessageHandler tools msg think))"
proof -
  have "tags_ok (AddImplicitStartOrPrefill new_harmony_parser m)" "tags_ok (AddImplicitStart new_harmony_parser)"
    for m :: "'b message option"
    by (auto simp: AddImplicitStartOrPrefill_def AddImplicitStart_def tags_ok_def new_harmony_parser_def
        split: option.splits)
  then show ?thesis
    using rename_tools_frame
    by (auto simp: handler_Init_def NewHarmonyMessageHandler_def handler_ready_def Let_def)
qed

section \<open>Properties\<close>

text \<open>
  C36. The harmony handler does not depend on how the text is cut: after \<^verbatim>\<open>Init\<close>, feeding the
  chunks one by one, the last with \<^verbatim>\<open>done\<close>, gives the same content, thinking, tool call, error
  and state as the whole text in one call, and never panics. No assumption on the chunks is
  needed, not even that they are valid UTF-8.
\<close>

theorem harmony_chunk_independent:
  fixes u uni tools msg think
  defines "h \<equiv> snd (handler_Init uni NewHarmonyMessageHandler tools msg think)"
  shows "feed_harmony u h x xs = handler_Add u h (x @ concat xs) True \<and> feed_harmony u h x xs \<noteq> None"
proof -
  have "feed_harmony u h x xs = handler_Add u h (x @ concat xs) True" if "handler_ready h" for h x
    using that
  proof (induction xs arbitrary: h x)
    case (Cons y ys)
    then obtain r h1 where r: "handler_Add u h x False = Some (r, h1)" "handler_ready h1"
      using handler_Add_ready by blast
    from Cons.prems obtain p a where "hh_parser h = Some p" "tags_ok p" "hh_toolAccumulator h = Some a"
      by (auto simp: handler_ready_def)
    from handler_Add_append [OF this, of u x "concat (y # ys)" True] Cons.IH [OF r(2), of y] r(1)
    show ?case by (simp split: prod.splits)
  qed simp
  with handler_Init_ready [of uni tools msg think] handler_Add_ready [of h u "x @ concat xs" True] show ?thesis
    unfolding h_def by auto
qed

text \<open>The name that \<^verbatim>\<open>deriveName\<close> returns is not taken.\<close>

lemma derive_loop_fresh: "map_of m (derive_loop m original candidate count) = None"
proof (induction m original candidate count rule: derive_loop.induct)
  case (1 m original candidate count)
  then show ?case by (simp add: derive_loop.simps [of m original candidate count])
qed

lemma deriveName_fresh: "map_of (harmonyToUser m) (deriveName uni m n) = None"
  by (simp add: deriveName_def Let_def derive_loop_fresh)

lemma ConvertAndAdd_lookup:
  "map_of (harmonyToUser (snd (ConvertAndAdd uni m n))) =
     (map_of (harmonyToUser m))(fst (ConvertAndAdd uni m n) \<mapsto> n)"
  by (simp add: ConvertAndAdd_def Let_def update_conv')

lemma rename_tools_names:
  assumes "\<forall>t \<in> set ts. tool_name t \<noteq> [] \<and> \<not> builtin_name (tool_name t)"
    and "rename_tools uni ts h = (ts', h')"
  shows "distinct (map tool_name ts')
    \<and> (\<forall>n \<in> set (map tool_name ts'). map_of (harmonyToUser (hh_names h)) n = None)
    \<and> (\<forall>n v. map_of (harmonyToUser (hh_names h)) n = Some v \<longrightarrow> map_of (harmonyToUser (hh_names h')) n = Some v)
    \<and> map (OriginalFromConverted (hh_names h')) (map tool_name ts') = map tool_name ts"
  using assms
proof (induction ts arbitrary: h ts' h')
  case (Cons t ts)
  let ?n = "tool_name t"
  obtain name m where c: "ConvertAndAdd uni (hh_names h) ?n = (name, m)" by fastforce
  let ?h1 = "h\<lparr>hh_names := m, hh_convertedTools := List.insert ?n (hh_convertedTools h)\<rparr>"
  obtain ts1 h1 where r: "rename_tools uni ts ?h1 = (ts1, h1)" by fastforce
  from Cons.prems c r have ts': "ts' = t\<lparr>tool_Function := (tool_Function t)\<lparr>tf_Name := name\<rparr>\<rparr> # ts1" "h' = h1"
    by (auto simp: Let_def)
  have name: "name = deriveName uni (hh_names h) ?n"
    using c Cons.prems(1) by (auto simp: ConvertAndAdd_def Let_def)
  have look: "map_of (harmonyToUser m) = (map_of (harmonyToUser (hh_names h)))(name \<mapsto> ?n)"
    using ConvertAndAdd_lookup [of uni "hh_names h" ?n] c by simp
  from deriveName_fresh [of "hh_names h" uni ?n] have fresh: "map_of (harmonyToUser (hh_names h)) name = None"
    by (simp add: name)
  from Cons.IH [OF _ r] Cons.prems(1) have ih: "distinct (map tool_name ts1)"
    "\<forall>n \<in> set (map tool_name ts1). map_of (harmonyToUser m) n = None"
    "\<forall>n v. map_of (harmonyToUser m) n = Some v \<longrightarrow> map_of (harmonyToUser (hh_names h1)) n = Some v"
    "map (OriginalFromConverted (hh_names h1)) (map tool_name ts1) = map tool_name ts"
    by simp_all
  from ih(2) look have "name \<notin> set (map tool_name ts1)" by force
  moreover have "map_of (harmonyToUser (hh_names h1)) name = Some ?n" using ih(3) look by simp
  moreover have "\<forall>n \<in> set (map tool_name ts1). map_of (harmonyToUser (hh_names h)) n = None"
    using ih(2) look by (auto split: if_splits)
  moreover have "\<forall>n v. map_of (harmonyToUser (hh_names h)) n = Some v \<longrightarrow>
      map_of (harmonyToUser (hh_names h1)) n = Some v"
    using ih(3) look fresh by (metis fun_upd_other option.distinct(1))
  ultimately show ?case using ih(1,4) fresh by (auto simp: ts' OriginalFromConverted_def [of _ name])
qed simp

text \<open>
  Tool names survive the translation to harmony names: renaming any list of tools whose
  names are not empty and not built in gives pairwise different harmony names, and
  \<^verbatim>\<open>OriginalFromConverted\<close> maps each of them back to the name of its tool.
\<close>

theorem harmony_names_roundtrip:
  assumes "\<forall>t \<in> set tools. tool_name t \<noteq> [] \<and> \<not> builtin_name (tool_name t)"
    and "rename_tools uni tools h = (renamed, h')"
  shows "distinct (map tool_name renamed)
    \<and> map (OriginalFromConverted (hh_names h')) (map tool_name renamed) = map tool_name tools"
  using rename_tools_names [OF assms] by blast

definition sample_tool :: "string \<Rightarrow> tool" where
  "sample_tool n = \<lparr>tool_Type = ''function'', tool_Items = AnyNil, tool_Function =
     \<lparr>tf_Name = n, tf_Description = [], tf_Parameters =
       \<lparr>tfp_Type = ''object'', tfp_Defs = AnyNil, tfp_Items = AnyNil, tfp_Required = [], tfp_Properties = None\<rparr>\<rparr>\<rparr>"

lemma harmony_names_roundtrip_witness:
  "\<exists>renamed h'. rename_tools (\<lambda>_. False) [sample_tool ''get-time'', sample_tool ''get.time'']
     NewHarmonyMessageHandler = (renamed, h') \<and> map tool_name renamed = [''get_time'', ''get_time_2'']
     \<and> map (OriginalFromConverted (hh_names h')) (map tool_name renamed) = [''get-time'', ''get.time'']"
proof -
  let ?ts = "[sample_tool ''get-time'', sample_tool ''get.time'']"
  obtain renamed h' where r: "rename_tools (\<lambda>_. False) ?ts NewHarmonyMessageHandler = (renamed, h')" by fastforce
  have "map tool_name (fst (rename_tools (\<lambda>_. False) ?ts NewHarmonyMessageHandler)) = [''get_time'', ''get_time_2'']"
    by code_simp
  moreover have "\<forall>t \<in> set ?ts. tool_name t \<noteq> [] \<and> \<not> builtin_name (tool_name t)"
    by (simp add: sample_tool_def builtin_name_def)
  ultimately show ?thesis using harmony_names_roundtrip [OF _ r] r by (simp add: sample_tool_def)
qed

text \<open>The characters of a converted name.\<close>

definition name_byte :: "char \<Rightarrow> bool" where
  "name_byte c \<longleftrightarrow> (0x80 :: nat) \<le> byte c \<or> keep_rune (\<lambda>_. False) (byte c)"

lemma high_byte: "0x80 \<le> n \<Longrightarrow> n < 256 \<Longrightarrow> name_byte (char_of (n :: nat))"
  by (simp add: name_byte_def byte_char_of)

lemma encode_rune_name:
  assumes "keep_rune uni r" "r < 0x400000"
  shows "list_all name_byte (encode_rune r)"
proof -
  have m: "name_byte (char_of (0x80 + x mod 64))" for x :: nat
  proof (rule high_byte)
    have "x mod 64 < 64" by simp
    then show "0x80 + x mod 64 < 256" by linarith
  qed simp
  consider "r < 0x80" | "0x80 \<le> r" "r < 0x800" | "0x800 \<le> r" "r < 0x10000" | "0x10000 \<le> r" by linarith
  then show ?thesis
  proof cases
    case 1
    then have "byte (char_of r) = r" by (intro byte_char_of) simp
    with 1 assms(1) show ?thesis by (auto simp: encode_rune_def name_byte_def keep_rune_def)
  next
    case 2
    then have "name_byte (char_of (0xC0 + r div 64))" by (intro high_byte) linarith+
    with 2 m show ?thesis by (simp add: encode_rune_def)
  next
    case 3
    then have "name_byte (char_of (0xE0 + r div 4096))" by (intro high_byte) linarith+
    with 3 m show ?thesis by (simp add: encode_rune_def)
  next
    case 4
    with assms(2) have "name_byte (char_of (0xF0 + r div 262144))" by (intro high_byte) linarith+
    with 4 m show ?thesis by (simp add: encode_rune_def)
  qed
qed

lemma byte_less: "byte c < (256 :: nat)"
  by (metis of_char_mod_256 mod_less_divisor zero_less_numeral)

lemma decode_rune_bound: "fst (decode_rune s) < 0x400000"
proof (cases s)
  case Nil
  then show ?thesis by (simp add: rune_error_def)
next
  case (Cons c u)
  have b: "byte d - k < (256 :: nat)" for d k using byte_less [of d] by linarith
  have d2: "fst (decode2 x u) < 0x400000" if "x < 256" for x
    using that b byte_less by (auto simp: decode2_def rune_error_def in_range_def split: list.splits)
  have d3: "fst (decode3 lo hi x u) < 0x400000" if "x < 256" for x lo hi
  proof -
    have "(x - 0xE0) * 4096 + (byte c1 - 0x80) * 64 + (byte c2 - 0x80) < (0x400000 :: nat)" for c1 c2
      using that b [of c1 "0x80"] b [of c2 "0x80"] by linarith
    then show ?thesis by (auto simp: decode3_def rune_error_def split: list.splits)
  qed
  have d4: "fst (decode4 lo hi x u) < 0x400000" if "x \<le> 0xF4" for x lo hi
  proof -
    have "(x - 0xF0) * 262144 + (byte c1 - 0x80) * 4096 + (byte c2 - 0x80) * 64 + (byte c3 - 0x80) < (0x400000 :: nat)"
      for c1 c2 c3 using that b [of c1 "0x80"] b [of c2 "0x80"] b [of c3 "0x80"] by linarith
    then show ?thesis by (auto simp: decode4_def rune_error_def split: list.splits)
  qed
  show ?thesis
    using d2 d3 d4 byte_less [of c]
    by (auto simp: Cons decode_rune.simps Let_def rune_error_def)
qed

lemma map_valid_names: "list_all name_byte (map_valid uni s)"
proof (induction uni s rule: map_valid.induct)
  case (1 uni s)
  have "list_all name_byte (map_rune uni (fst (decode_rune s)))"
    using encode_rune_name [OF _ decode_rune_bound [of s]]
    by (auto simp: map_rune_def name_byte_def keep_rune_def)
  with 1 show ?case by (cases "s = []") (simp_all add: map_valid.simps [of uni s] map_valid.simps [of uni "[]"])
qed

text \<open>
  The names sent to the model are usable identifiers: a derived name is not empty, does not
  start with a digit, and has no ASCII character but letters, digits, \<^verbatim>\<open>_\<close> and \<^verbatim>\<open>$\<close>, whatever
  the user's name and whichever names are taken.
\<close>

theorem derived_name_valid:
  "deriveName uni m n \<noteq> [] \<and> \<not> ascii_digit (hd (deriveName uni m n)) \<and> list_all name_byte (deriveName uni m n)"
proof -
  let ?P = "\<lambda>x. x \<noteq> [] \<and> \<not> ascii_digit (hd x) \<and> list_all name_byte x"
  have conv: "?P (convertToValidChars uni n)"
    using map_valid_names [of uni n]
    by (auto simp: convertToValidChars_def Let_def hd_conv_nth ascii_digit_def name_byte_def keep_rune_def)
  have num: "?P (numbered_name x k)" if "?P x" for x k
    using that itoa_digits [of _ k]
    by (auto simp: numbered_name_def list_all_iff name_byte_def keep_rune_def)
  have "?P (derive_loop taken orig cand k)" if "?P orig" "?P cand" for taken orig cand k
    using that
  proof (induction taken orig cand k rule: derive_loop.induct)
    case (1 taken orig cand k)
    with num [of orig k] show ?case by (simp add: derive_loop.simps [of taken orig cand k])
  qed
  with conv show ?thesis by (simp add: deriveName_def Let_def)
qed

text \<open>
  A built-in name takes over a harmony name that is already in use: with the tools
  \<^verbatim>\<open>python!\<close> and \<^verbatim>\<open>python\<close>, in this order, both are sent to the model as \<^verbatim>\<open>python\<close>, and a call of
  either comes back as \<^verbatim>\<open>python\<close>; in the other order the names stay apart.
\<close>

theorem builtin_name_collision:
  "(case rename_tools (\<lambda>_. False) [sample_tool ''python!'', sample_tool ''python''] NewHarmonyMessageHandler of
      (renamed, h) \<Rightarrow> map tool_name renamed = [''python'', ''python''] \<and>
        map (OriginalFromConverted (hh_names h)) (map tool_name renamed) = [''python'', ''python''])
   \<and> (case rename_tools (\<lambda>_. False) [sample_tool ''python'', sample_tool ''python!''] NewHarmonyMessageHandler of
      (renamed, h) \<Rightarrow> map tool_name renamed = [''python'', ''python_2''] \<and>
        map (OriginalFromConverted (hh_names h)) (map tool_name renamed) = [''python'', ''python!''])"
  by (rule conjI; code_simp)

end
