(* ===== verification/Cogito.thy ===== *)
theory Cogito
  imports TextEvents
begin

text \<open>
  model/parsers/cogito.go: the parser of Cogito output, with thinking before \<^verbatim>\<open></think>\<close>, blocks
  of tool calls whose arguments are fenced JSON, and blocks of tool output that are dropped.
  The decoding of the arguments of a call is a parameter.
\<close>

section \<open>The parser\<close>

datatype cogito_state =
    CogitoCollectingThinking
  | CogitoCollectingContent
  | CogitoCollectingToolCalls
  | CogitoCollectingToolOutput

definition cogitoThinkingCloseTag :: string where "cogitoThinkingCloseTag = ''</think>''"
definition cogitoToolCallsBeginTag :: string where
  "cogitoToolCallsBeginTag = fw_tag [''tool'', ''calls'', ''begin'']"
definition cogitoToolCallsEndTag :: string where
  "cogitoToolCallsEndTag = fw_tag [''tool'', ''calls'', ''end'']"
definition cogitoToolCallBeginTag :: string where
  "cogitoToolCallBeginTag = fw_tag [''tool'', ''call'', ''begin'']"
definition cogitoToolCallEndTag :: string where
  "cogitoToolCallEndTag = fw_tag [''tool'', ''call'', ''end'']"
definition cogitoToolSepTag :: string where "cogitoToolSepTag = fw_tag [''tool'', ''sep'']"
definition cogitoToolOutputBeginTag :: string where
  "cogitoToolOutputBeginTag = fw_tag [''tool'', ''output'', ''begin'']"
definition cogitoToolOutputEndTag :: string where
  "cogitoToolOutputEndTag = fw_tag [''tool'', ''output'', ''end'']"
definition cogitoToolOutputsBeginTag :: string where
  "cogitoToolOutputsBeginTag = fw_tag [''tool'', ''outputs'', ''begin'']"
definition cogitoToolOutputsEndTag :: string where
  "cogitoToolOutputsEndTag = fw_tag [''tool'', ''outputs'', ''end'']"

record cogito =
  cg_state :: cogito_state
  cg_buffer :: string
  cg_callIndex :: nat

definition cogito_PreservedTokens :: "string list" where
  "cogito_PreservedTokens = [cogitoThinkingCloseTag, cogitoToolCallsBeginTag, cogitoToolCallsEndTag,
     cogitoToolCallBeginTag, cogitoToolCallEndTag, cogitoToolSepTag, cogitoToolOutputBeginTag,
     cogitoToolOutputEndTag, cogitoToolOutputsBeginTag, cogitoToolOutputsEndTag]"

definition cogito_setInitialState ::
    "cogito \<Rightarrow> 'a message option \<Rightarrow> tool list \<Rightarrow> think_value option \<Rightarrow> cogito" where
  "cogito_setInitialState p lastMessage tools thinkValue =
     (let prefill = (case lastMessage of None \<Rightarrow> False | Some m \<Rightarrow> msg_Role m = ''assistant'');
          thinkingEnabled = (thinkValue \<noteq> None \<and> think_Bool thinkValue) in
      if \<not> thinkingEnabled then p\<lparr>cg_state := CogitoCollectingContent\<rparr>
      else if prefill \<and> (case lastMessage of None \<Rightarrow> False | Some m \<Rightarrow> msg_Content m \<noteq> [])
      then p\<lparr>cg_state := CogitoCollectingContent\<rparr>
      else if 0 < length tools then p\<lparr>cg_state := CogitoCollectingContent\<rparr>
      else p\<lparr>cg_state := CogitoCollectingThinking\<rparr>)"

definition cogito_Init :: "cogito \<Rightarrow> tool list \<Rightarrow> 'a message option \<Rightarrow> think_value option
    \<Rightarrow> tool list \<times> cogito" where
  "cogito_Init p tools lastMessage thinkValue =
     (tools, cogito_setInitialState (p\<lparr>cg_callIndex := 0\<rparr>) lastMessage tools thinkValue)"

text \<open>
  \<^verbatim>\<open>parseToolCallContent\<close>: the name stands between the separator and a line that opens a JSON
  fence, the arguments before the line that closes it.
\<close>

definition json_open :: string where
  "json_open = [CHR 0x0A] @ ''```json'' @ [CHR 0x0A]"

definition json_close :: string where
  "json_close = [CHR 0x0A] @ ''```''"

definition cogito_parseToolCallContent ::
    "(string \<Rightarrow> 'a option) \<Rightarrow> string \<Rightarrow> parse_error + 'a tool_call" where
  "cogito_parseToolCallContent unmarshal content =
     (case splitn2 content cogitoToolSepTag of
        [_, nameAndArgs] \<Rightarrow>
          (case index nameAndArgs json_open of
             None \<Rightarrow> Inl InvalidFormat
           | Some jsonStart \<Rightarrow>
               (let toolName = trim_space (take jsonStart nameAndArgs);
                    jsonContent = drop (jsonStart + length json_open) nameAndArgs in
                case index jsonContent json_close of
                  None \<Rightarrow> Inl InvalidFormat
                | Some jsonEnd \<Rightarrow>
                    (case unmarshal (take jsonEnd jsonContent) of
                       None \<Rightarrow> Inl JSONError
                     | Some args \<Rightarrow> Inr (new_call toolName args))))
      | _ \<Rightarrow> Inl InvalidFormat)"

text \<open>The tool-call state: a complete and well-formed call, else the end of the block.\<close>

definition cogito_eatToolCalls ::
    "(string \<Rightarrow> 'a option) \<Rightarrow> cogito \<Rightarrow> 'a tool_call parser_event list \<times> bool \<times> cogito" where
  "cogito_eatToolCalls unmarshal p =
     (let bufStr = cg_buffer p;
          call = (case index bufStr cogitoToolCallBeginTag of
                    None \<Rightarrow> None
                  | Some idx \<Rightarrow>
                      (let startIdx = idx + length cogitoToolCallBeginTag in
                       case index (drop startIdx bufStr) cogitoToolCallEndTag of
                         None \<Rightarrow> None
                       | Some endIdx \<Rightarrow>
                           (case cogito_parseToolCallContent unmarshal (take endIdx (drop startIdx bufStr)) of
                              Inl _ \<Rightarrow> None
                            | Inr toolCall \<Rightarrow>
                                Some (toolCall, trim_left (drop (startIdx + endIdx + length cogitoToolCallEndTag) bufStr)))))
      in case call of
           Some (toolCall, remaining) \<Rightarrow> ([EvCall toolCall], True, p\<lparr>cg_buffer := remaining\<rparr>)
         | None \<Rightarrow>
             (case index bufStr cogitoToolCallsEndTag of
                Some idx \<Rightarrow>
                  ([], True, p\<lparr>cg_state := CogitoCollectingContent,
                     cg_buffer := trim_left (drop (idx + length cogitoToolCallsEndTag) bufStr)\<rparr>)
              | None \<Rightarrow> ([], False, p)))"

definition cogito_eatToolOutput :: "cogito \<Rightarrow> 'c parser_event list \<times> bool \<times> cogito" where
  "cogito_eatToolOutput p =
     (let bufStr = cg_buffer p;
          one = (case index bufStr cogitoToolOutputBeginTag of
                   None \<Rightarrow> None
                 | Some idx \<Rightarrow>
                     (let startIdx = idx + length cogitoToolOutputBeginTag in
                      case index (drop startIdx bufStr) cogitoToolOutputEndTag of
                        None \<Rightarrow> None
                      | Some endIdx \<Rightarrow>
                          Some (trim_left (drop (startIdx + endIdx + length cogitoToolOutputEndTag) bufStr))))
      in case one of
           Some remaining \<Rightarrow> ([], True, p\<lparr>cg_buffer := remaining\<rparr>)
         | None \<Rightarrow>
             (case index bufStr cogitoToolOutputsEndTag of
                Some idx \<Rightarrow>
                  ([], True, p\<lparr>cg_state := CogitoCollectingContent,
                     cg_buffer := trim_left (drop (idx + length cogitoToolOutputsEndTag) bufStr)\<rparr>)
              | None \<Rightarrow> ([], False, p)))"

definition cogito_eat ::
    "(string \<Rightarrow> 'a option) \<Rightarrow> cogito \<Rightarrow> 'a tool_call parser_event list \<times> bool \<times> cogito" where
  "cogito_eat unmarshal p = (let bufStr = cg_buffer p in
     if bufStr = [] then ([], False, p)
     else case cg_state p of
       CogitoCollectingThinking \<Rightarrow>
         if contains bufStr cogitoThinkingCloseTag then
           (case splitn2 bufStr cogitoThinkingCloseTag of
              [thinking, remaining] \<Rightarrow>
                (emit EvThinking (trim_right thinking), True,
                 p\<lparr>cg_state := CogitoCollectingContent, cg_buffer := trim_left remaining\<rparr>)
            | _ \<Rightarrow> ([], False, p))
         else let overlapLen = overlap bufStr cogitoThinkingCloseTag in
           if 0 < overlapLen then
             (case withhold bufStr overlapLen of (unambiguous, ambiguous) \<Rightarrow>
                (emit EvThinking unambiguous, False, p\<lparr>cg_buffer := ambiguous\<rparr>))
           else
             (case withhold bufStr 0 of (unambiguous, ambiguous) \<Rightarrow>
                (emit EvThinking unambiguous, False, p\<lparr>cg_buffer := ambiguous\<rparr>))
     | CogitoCollectingContent \<Rightarrow>
         if contains bufStr cogitoToolCallsBeginTag then
           (case splitn2 bufStr cogitoToolCallsBeginTag of
              [before, remaining] \<Rightarrow>
                (emit EvContent (trim_right before), True,
                 p\<lparr>cg_state := CogitoCollectingToolCalls, cg_buffer := remaining\<rparr>)
            | _ \<Rightarrow> ([], False, p))
         else if contains bufStr cogitoToolOutputsBeginTag then
           (case splitn2 bufStr cogitoToolOutputsBeginTag of
              [before, remaining] \<Rightarrow>
                (emit EvContent (trim_right before), True,
                 p\<lparr>cg_state := CogitoCollectingToolOutput, cg_buffer := remaining\<rparr>)
            | _ \<Rightarrow> ([], False, p))
         else (emit EvContent bufStr, False, p\<lparr>cg_buffer := []\<rparr>)
     | CogitoCollectingToolCalls \<Rightarrow> cogito_eatToolCalls unmarshal p
     | CogitoCollectingToolOutput \<Rightarrow> cogito_eatToolOutput p)"

lemmas cg_tag_defs = cogitoToolCallsBeginTag_def cogitoToolCallsEndTag_def cogitoToolCallBeginTag_def
  cogitoToolCallEndTag_def cogitoToolOutputBeginTag_def cogitoToolOutputEndTag_def
  cogitoToolOutputsBeginTag_def cogitoToolOutputsEndTag_def cogitoToolSepTag_def

lemma cogito_progress: "cogito_eat u p = (ev, True, p1) \<Longrightarrow> length (cg_buffer p1) < length (cg_buffer p)"
proof (cases "cg_state p")
  case CogitoCollectingThinking
  assume "cogito_eat u p = (ev, True, p1)"
  with CogitoCollectingThinking show ?thesis
    using drop_trim_shorter [of "cg_buffer p" cogitoThinkingCloseTag _ 0]
    by (auto simp: cogito_eat_def Let_def contains_def splitn2_def cogitoThinkingCloseTag_def
        split: if_splits option.splits prod.splits)
next
  case CogitoCollectingContent
  assume "cogito_eat u p = (ev, True, p1)"
  with CogitoCollectingContent show ?thesis
    using drop_tag_shorter [of "cg_buffer p" cogitoToolCallsBeginTag]
      drop_tag_shorter [of "cg_buffer p" cogitoToolOutputsBeginTag]
    by (auto simp: cogito_eat_def Let_def contains_def splitn2_def cg_tag_defs
        split: if_splits option.splits)
next
  case CogitoCollectingToolCalls
  assume "cogito_eat u p = (ev, True, p1)"
  with CogitoCollectingToolCalls show ?thesis
    using drop_trim_shorter [of "cg_buffer p" cogitoToolCallBeginTag]
      drop_trim_shorter [of "cg_buffer p" cogitoToolCallsEndTag _ 0]
    by (auto simp: cogito_eat_def cogito_eatToolCalls_def Let_def cg_tag_defs add.assoc
        split: if_splits option.splits sum.splits)
next
  case CogitoCollectingToolOutput
  assume "cogito_eat u p = (ev, True, p1)"
  with CogitoCollectingToolOutput show ?thesis
    using drop_trim_shorter [of "cg_buffer p" cogitoToolOutputBeginTag]
      drop_trim_shorter [of "cg_buffer p" cogitoToolOutputsEndTag _ 0]
    by (auto simp: cogito_eat_def cogito_eatToolOutput_def Let_def cg_tag_defs add.assoc
        split: if_splits option.splits)
qed

function cogito_parseEvents ::
    "(string \<Rightarrow> 'a option) \<Rightarrow> cogito \<Rightarrow> 'a tool_call parser_event list \<times> cogito" where
  "cogito_parseEvents unmarshal p =
     (case cogito_eat unmarshal p of (events, keepLooping, p1) \<Rightarrow>
        if keepLooping then (case cogito_parseEvents unmarshal p1 of (all, p2) \<Rightarrow> (events @ all, p2))
        else (events, p1))"
  by pat_completeness auto
termination
  by (relation "measure (\<lambda>(_, p). length (cg_buffer p))") (auto dest: cogito_progress [OF sym])

declare cogito_parseEvents.simps [simp del]

definition cg_push :: "cogito \<Rightarrow> string \<Rightarrow> cogito" where
  "cg_push p x = p\<lparr>cg_buffer := cg_buffer p @ x\<rparr>"

definition cogito_Add :: "(string \<Rightarrow> 'a option) \<Rightarrow> cogito \<Rightarrow> string \<Rightarrow> bool \<Rightarrow> 'a add_result \<times> cogito" where
  "cogito_Add unmarshal p s done =
     (case cogito_parseEvents unmarshal (cg_push p s) of (events, p1) \<Rightarrow>
        case number_calls (cg_callIndex p1) (calls_of events) of (toolCalls, n) \<Rightarrow>
          ((content_of events, thinking_of events, toolCalls, None), p1\<lparr>cg_callIndex := n\<rparr>))"

section \<open>The interfaces\<close>

definition cg_set_index :: "nat \<Rightarrow> cogito \<Rightarrow> cogito" where
  "cg_set_index n p = p\<lparr>cg_callIndex := n\<rparr>"

lemma cogito_eat_index: "cogito_eat u p = (ev, go, p1) \<Longrightarrow> cg_callIndex p1 = cg_callIndex p"
  by (cases "cg_state p")
    (auto simp: cogito_eat_def cogito_eatToolCalls_def cogito_eatToolOutput_def Let_def
      split: if_splits prod.splits option.splits list.splits sum.splits)

interpretation cgn: numbered_parser "cogito_eat u" "cogito_parseEvents u" "\<lambda>p. length (cg_buffer p)" cg_push
  "\<lambda>p x. cogito_Add u p x d" "\<lambda>_. Inr" cg_callIndex cg_set_index for u d
proof (unfold_locales, goal_cases)
  case (1 p)
  show ?case by (subst cogito_parseEvents.simps) (auto split: prod.splits)
next
  case (2 p ev p1)
  then show ?case by (rule cogito_progress)
next
  case (3 p x)
  show ?case
    by (simp add: cogito_Add_def cg_set_index_def number_calls_indices prod_eq_iff
        split: prod.splits)
next
  case (5 p ev go p1)
  then show ?case by (rule cogito_eat_index)
qed (simp_all add: cg_push_def cg_set_index_def)

section \<open>Well-formed tool calls\<close>

definition cg_call_text :: "string \<times> string \<Rightarrow> string" where
  "cg_call_text c = ''function'' @ cogitoToolSepTag @ fst c @ json_open @ snd c @ json_close"

definition cg_render :: "string \<times> string \<Rightarrow> string" where
  "cg_render c = cogitoToolCallBeginTag @ cg_call_text c @ cogitoToolCallEndTag"

text \<open>
  A call as the model writes it: a trimmed name, and arguments in compact JSON (which has no
  raw line break, and where Go's encoder escapes \<^verbatim>\<open><\<close>).
\<close>

definition cg_call_ok :: "string \<times> string \<Rightarrow> bool" where
  "cg_call_ok c \<longleftrightarrow> trim_space (fst c) = fst c \<and> CHR ''<'' \<notin> set (fst c) \<and> CHR ''<'' \<notin> set (snd c)
     \<and> CHR 0x0A \<notin> set (fst c) \<and> CHR 0x0A \<notin> set (snd c)"

lemma cg_parse_ok:
  assumes "cg_call_ok c"
  shows "cogito_parseToolCallContent u (cg_call_text c) =
    (case u (snd c) of None \<Rightarrow> Inl JSONError | Some v \<Rightarrow> Inr (new_call (fst c) v))"
proof -
  let ?n = "fst c" and ?a = "snd c"
  have 1: "index (cg_call_text c) cogitoToolSepTag = Some (length ''function'')"
    unfolding cg_call_text_def by (rule index_fresh) (simp_all add: cg_tag_defs)
  have 2: "index (?n @ json_open @ ?a @ json_close) json_open = Some (length ?n)"
    using assms by (intro index_fresh) (simp_all add: json_open_def cg_call_ok_def)
  have 3: "index (?a @ json_close @ []) json_close = Some (length ?a)"
    using assms by (intro index_fresh) (simp_all add: json_close_def cg_call_ok_def)
  have "splitn2 (cg_call_text c) cogitoToolSepTag = [''function'', ?n @ json_open @ ?a @ json_close]"
    unfolding splitn2_def 1 by (simp add: cg_call_text_def)
  with 2 3 assms show ?thesis
    by (simp add: cogito_parseToolCallContent_def Let_def cg_call_ok_def split: option.splits)
qed

lemma cg_end_not_sep: "\<not> prefix cogitoToolCallEndTag (cogitoToolSepTag @ s)"
  by (simp add: cg_tag_defs fw_tag_def fw_bar_def lower_block_def)

lemma cg_call_end:
  assumes "cg_call_ok c"
  shows "index (cg_call_text c @ cogitoToolCallEndTag @ s) cogitoToolCallEndTag = Some (length (cg_call_text c))"
proof -
  let ?e = cogitoToolCallEndTag
  let ?r = "fst c @ json_open @ snd c @ json_close"
  have e: "hd ?e = CHR ''<''" "?e \<noteq> []" by (simp_all add: cg_tag_defs)
  obtain x where x: "cogitoToolSepTag = CHR ''<'' # x" "CHR ''<'' \<notin> set x"
    by (simp add: cg_tag_defs fw_tag_def fw_bar_def lower_block_def)
  have r: "hd ?e \<notin> set ?r" using assms by (simp add: e cg_call_ok_def json_open_def json_close_def)
  have "index (cogitoToolSepTag @ ?r @ ?e @ s) ?e = map_option Suc (index ((x @ ?r) @ ?e @ s) ?e)"
    using cg_end_not_sep [of "?r @ ?e @ s"] by (simp add: x(1))
  also have "\<dots> = Some (length (cogitoToolSepTag @ ?r))"
    using r x(2) e by (subst index_fresh) (simp_all add: x(1))
  finally have s: "index (cogitoToolSepTag @ ?r @ ?e @ s) ?e = Some (length (cogitoToolSepTag @ ?r))" .
  have "index (''function'' @ cogitoToolSepTag @ ?r @ ?e @ s) ?e =
      map_option ((+) (length ''function'')) (index (cogitoToolSepTag @ ?r @ ?e @ s) ?e)"
    using e by (intro index_skip) simp_all
  also have "\<dots> = Some (length (cg_call_text c))" unfolding s by (simp add: cg_call_text_def)
  finally show ?thesis by (simp add: cg_call_text_def)
qed

lemma cg_eat_call:
  assumes "cg_state p = CogitoCollectingToolCalls" "cg_buffer p = cg_render c @ s" "cg_call_ok c"
    and "u (snd c) = Some v"
  shows "cogito_eat u p = ([EvCall (new_call (fst c) v)], True, p\<lparr>cg_buffer := trim_left s\<rparr>)"
proof -
  let ?b = cogitoToolCallBeginTag and ?t = "cg_call_text c" and ?e = cogitoToolCallEndTag
  have buf: "cg_buffer p = ?b @ ?t @ ?e @ s" using assms(2) by (simp add: cg_render_def)
  have 1: "index (cg_buffer p) ?b = Some 0" unfolding buf by (rule index_here)
  have 2: "index (drop (length ?b) (cg_buffer p)) ?e = Some (length ?t)"
    using cg_call_end [OF assms(3)] by (simp add: buf)
  have 3: "take (length ?t) (drop (length ?b) (cg_buffer p)) = ?t" by (simp add: buf)
  have 4: "drop (length ?b + length ?t + length ?e) (cg_buffer p) = s" by (simp add: buf)
  have ne: "cg_buffer p \<noteq> []" by (simp add: buf cg_tag_defs)
  show ?thesis
    using assms(1) ne cg_parse_ok [OF assms(3), of u] assms(4)
    by (simp add: cogito_eat_def cogito_eatToolCalls_def Let_def 1 2 3 4)
qed

text \<open>The calls of a block, one after the other, and its end.\<close>

lemma cg_run_block:
  assumes "list_all cg_call_ok cs" "list_all (\<lambda>c. u (snd c) \<noteq> None) cs" "\<not> contains after cogitoToolCallBeginTag"
    and "cg_state p = CogitoCollectingToolCalls"
    and "cg_buffer p = concat (map cg_render cs) @ cogitoToolCallsEndTag @ after"
  shows "cogito_parseEvents u p =
    (map (\<lambda>c. EvCall (new_call (fst c) (the (u (snd c))))) cs @
       fst (cogito_parseEvents u (p\<lparr>cg_state := CogitoCollectingContent, cg_buffer := trim_left after\<rparr>)),
     snd (cogito_parseEvents u (p\<lparr>cg_state := CogitoCollectingContent, cg_buffer := trim_left after\<rparr>)))"
  using assms
proof (induction cs arbitrary: p)
  case Nil
  let ?b = cogitoToolCallBeginTag and ?e = cogitoToolCallsEndTag
  obtain x where x: "?e = CHR ''<'' # x" "CHR ''<'' \<notin> set x"
    by (simp add: cg_tag_defs fw_tag_def fw_bar_def lower_block_def)
  have "\<not> prefix ?b (?e @ after)"
    by (simp add: cg_tag_defs fw_tag_def fw_bar_def lower_block_def)
  then have "index (?e @ after) ?b = map_option Suc (index (x @ after) ?b)" by (simp add: x(1))
  also have "index (x @ after) ?b = None"
    using Nil(3) x(2) by (subst index_skip) (simp_all add: cg_tag_defs contains_def)
  finally have none: "index (?e @ after) ?b = None" by simp
  have "cogito_eat u p = ([], True, p\<lparr>cg_state := CogitoCollectingContent, cg_buffer := trim_left after\<rparr>)"
    using Nil(4,5) none index_here [of ?e after]
    by (simp add: cogito_eat_def cogito_eatToolCalls_def Let_def) (simp add: cg_tag_defs)
  from cgn.run_more [OF this] show ?case by simp
next
  case (Cons c cs)
  let ?s = "concat (map cg_render cs) @ cogitoToolCallsEndTag @ after"
  let ?p1 = "p\<lparr>cg_buffer := ?s\<rparr>"
  have "trim_left ?s = ?s"
    by (cases cs) (simp_all add: cg_render_def cg_tag_defs)
  moreover obtain v where v: "u (snd c) = Some v" using Cons.prems(2) by auto
  ultimately have e: "cogito_eat u p = ([EvCall (new_call (fst c) v)], True, ?p1)"
    using cg_eat_call [of p c ?s u v] Cons.prems by simp
  have "cg_state ?p1 = CogitoCollectingToolCalls" "cg_buffer ?p1 = ?s" using Cons.prems(4) by simp_all
  with Cons.IH [of ?p1] Cons.prems(1-3) v show ?case by (simp add: cgn.run_more [OF e])
qed

lemma cg_run_plain:
  assumes "cg_state p = CogitoCollectingContent" "CHR ''<'' \<notin> set (cg_buffer p)"
  shows "cogito_parseEvents u p = (emit EvContent (cg_buffer p), p\<lparr>cg_buffer := []\<rparr>)"
proof (cases "cg_buffer p = []")
  case True
  then have "cogito_eat u p = ([], False, p)" by (simp add: cogito_eat_def)
  then show ?thesis using True cgn.run_stop [of u p "[]" p] by simp
next
  case False
  with assms have "cogito_eat u p = (emit EvContent (cg_buffer p), False, p\<lparr>cg_buffer := []\<rparr>)"
    by (simp add: cogito_eat_def contains_def cg_tag_defs no_tag_without)
  then show ?thesis by (rule cgn.run_stop)
qed

section \<open>Properties\<close>

text \<open>
  A complete block of tool calls is decoded completely: text, a block of any number of
  well-formed calls whose arguments decode, and more text, given to \<^verbatim>\<open>Add\<close> in the content
  state, yield the two texts with the white space around the block dropped, and exactly the
  calls of the block, in order, named and numbered from the call index.
\<close>

theorem cogito_block_decoded:
  assumes "cg_state p = CogitoCollectingContent" "cg_buffer p = []"
    and "CHR ''<'' \<notin> set before" "CHR ''<'' \<notin> set after"
    and "list_all cg_call_ok cs" "list_all (\<lambda>c. u (snd c) \<noteq> None) cs"
  shows "cogito_Add u p (before @ cogitoToolCallsBeginTag @ concat (map cg_render cs) @ cogitoToolCallsEndTag @ after) d =
    ((trim_right before @ trim_left after, [],
      fst (number_calls (cg_callIndex p) (map (\<lambda>c. new_call (fst c) (the (u (snd c)))) cs)), None),
     p\<lparr>cg_callIndex := cg_callIndex p + length cs\<rparr>)"
proof -
  let ?s = "concat (map cg_render cs) @ cogitoToolCallsEndTag @ after"
  let ?b = "before @ cogitoToolCallsBeginTag @ ?s"
  let ?p1 = "p\<lparr>cg_state := CogitoCollectingToolCalls, cg_buffer := ?s\<rparr>"
  let ?p2 = "p\<lparr>cg_state := CogitoCollectingContent, cg_buffer := trim_left after\<rparr>"
  have i: "index ?b cogitoToolCallsBeginTag = Some (length before)"
    using assms(3) by (intro index_fresh) (simp_all add: cg_tag_defs)
  have push: "cg_push p ?b = p\<lparr>cg_buffer := ?b\<rparr>" using assms(2) by (simp add: cg_push_def)
  have ne: "?b \<noteq> []" by (simp add: cg_tag_defs)
  have "cogito_eat u (p\<lparr>cg_buffer := ?b\<rparr>) = (emit EvContent (trim_right before), True, ?p1)"
    using assms(1) ne by (simp add: cogito_eat_def Let_def contains_def splitn2_def i)
  from cgn.run_more [OF this] have r1: "cogito_parseEvents u (cg_push p ?b) =
      (emit EvContent (trim_right before) @ fst (cogito_parseEvents u ?p1), snd (cogito_parseEvents u ?p1))"
    by (simp add: push)
  have "\<not> contains after cogitoToolCallBeginTag"
    using assms(4) by (simp add: contains_def cg_tag_defs no_tag_without)
  from cg_run_block [OF assms(5,6) this, of ?p1]
  have r2: "cogito_parseEvents u ?p1 = (map (\<lambda>c. EvCall (new_call (fst c) (the (u (snd c))))) cs @
      fst (cogito_parseEvents u ?p2), snd (cogito_parseEvents u ?p2))"
    by simp
  have "CHR ''<'' \<notin> set (trim_left after)"
    using assms(4) set_mono_suffix [OF suffix_trim_left [of after]] by blast
  then have r3: "cogito_parseEvents u ?p2 = (emit EvContent (trim_left after), p)"
    using cg_run_plain [of ?p2 u] assms(1,2) by simp
  have calls: "thinking_of (map (\<lambda>c. EvCall (f c)) cs) = []" "content_of (map (\<lambda>c. EvCall (f c)) cs) = []"
    "calls_of (map (\<lambda>c. EvCall (f c)) cs) = map f cs" for f :: "_ \<Rightarrow> 'a tool_call"
    by (induction cs) simp_all
  let ?ks = "map (\<lambda>c. new_call (fst c) (the (u (snd c)))) cs"
  have "number_calls (cg_callIndex p) ?ks =
      (fst (number_calls (cg_callIndex p) ?ks), cg_callIndex p + length cs)"
    using number_calls_indices [of "cg_callIndex p" ?ks] by (simp add: prod_eq_iff)
  then show ?thesis
    unfolding cogito_Add_def r1 r2 r3 by (auto simp: calls split: prod.splits)
qed

definition cg_sample :: cogito where
  "cg_sample = \<lparr>cg_state = CogitoCollectingContent, cg_buffer = [], cg_callIndex = 0\<rparr>"

definition cg_sample_decode :: "string \<Rightarrow> string option" where
  "cg_sample_decode s = (if s = ''{}'' then Some s else None)"

lemma cogito_block_decoded_witness:
  "cogito_Add cg_sample_decode cg_sample (''a '' @ cogitoToolCallsBeginTag @
      concat (map cg_render [(''f'', ''{}''), (''g'', ''{}'')]) @ cogitoToolCallsEndTag @ '' b'') False =
    ((trim_right ''a '' @ trim_left '' b'', [],
      fst (number_calls 0 [new_call ''f'' ''{}'', new_call ''g'' ''{}'']), None), cg_sample\<lparr>cg_callIndex := 2\<rparr>)"
proof -
  have "trim_space ''f'' = ''f''" "trim_space ''g'' = ''g''" by code_simp+
  then have "list_all cg_call_ok [(''f'', ''{}''), (''g'', ''{}'')]" by (simp add: cg_call_ok_def)
  with cogito_block_decoded [of cg_sample "''a ''" "'' b''" "[(''f'', ''{}''), (''g'', ''{}'')]" cg_sample_decode False]
  show ?thesis by (simp add: cg_sample_def cg_sample_decode_def)
qed

text \<open>
  Thinking is only collected when the request asks for it and there are no tools: otherwise,
  after \<^verbatim>\<open>Init\<close>, no sequence of chunks yields thinking, and the calls are numbered from 0
  without gaps.
\<close>

theorem cogito_thinking_off:
  assumes "\<not> (think \<noteq> None \<and> think_Bool think) \<or> tools \<noteq> []"
    and "feed_add (\<lambda>p x. cogito_Add u p x d) (snd (cogito_Init p tools msg think)) xs = Some ((t, c, ks), p')"
  shows "t = [] \<and> call_indices ks = [0 ..< length ks]"
proof -
  let ?p = "snd (cogito_Init p tools msg think)"
  have i: "cg_state ?p \<noteq> CogitoCollectingThinking" "cg_callIndex ?p = 0"
    using assms(1) by (auto simp: cogito_Init_def cogito_setInitialState_def Let_def)
  have step: "cg_state p1 \<noteq> CogitoCollectingThinking \<and> (\<forall>e \<in> set ev. ev_thinking e = [])"
    if "cg_state p \<noteq> CogitoCollectingThinking" "cogito_eat u p = (ev, go, p1)" for p p1 ev go
    using that by (cases "cg_state p")
      (auto simp: cogito_eat_def cogito_eatToolCalls_def cogito_eatToolOutput_def Let_def splitn2_def contains_def set_emit
        split: if_splits option.splits sum.splits)
  have "t = []"
    by (rule cgn.feed_no_thinking [where I = "\<lambda>p. cg_state p \<noteq> CogitoCollectingThinking", OF _ _ _ i(1) assms(2)])
      (use step in \<open>auto simp: cg_push_def cg_set_index_def\<close>)
  with i(2) cgn.feed_indices [OF assms(2)] show ?thesis by simp
qed

lemma cogito_thinking_off_witness:
  "[] = ([] :: string) \<and> call_indices ([] :: string tool_call list) = [0 ..< length ([] :: string tool_call list)]"
proof -
  have "feed_add (\<lambda>p x. cogito_Add cg_sample_decode p x False)
     (snd (cogito_Init cg_sample [] (None :: unit message option) (Some (TVBool False)))) [''a</think>b''] =
    Some (([], ''a</think>b'', []), cg_sample)" by code_simp
  from cogito_thinking_off [OF _ this] show ?thesis by simp
qed

text \<open>
  In the tool-call state the parser looks for the next call before the end of the block, and
  keeps a malformed call in front of the buffer. So text between two blocks that arrive in one
  chunk is dropped (it is kept when they arrive in two), and a malformed call discards the
  well-formed calls after it in its block.
\<close>

theorem cogito_lost_text:
  "(let block = (\<lambda>cs. cogitoToolCallsBeginTag @ concat (map cg_render cs) @ cogitoToolCallsEndTag);
        feed = (\<lambda>xs. map_option fst (feed_add (\<lambda>p x. cogito_Add cg_sample_decode p x False) cg_sample xs));
        f = new_call ''f'' ''{}''; f1 = set_index 1 f
    in feed [block [(''f'', ''{}'')] @ ''text'' @ block [(''f'', ''{}'')]] = Some ([], [], [f, f1])
     \<and> feed [block [(''f'', ''{}'')], ''text'' @ block [(''f'', ''{}'')]] = Some ([], ''text'', [f, f1])
     \<and> feed [block [(''f'', ''{''), (''f'', ''{}'')]] = Some ([], [], []))"
  by code_simp

end
