(* ===== verification/DeepSeek3.thy ===== *)
theory DeepSeek3
  imports TextEvents
begin

text \<open>
  model/parsers/deepseek3.go: the parser of DeepSeek-V3 output. It differs from the Cogito
  parser in the form of a call (name, separator, JSON) and in passing tool output through as
  content, with its white space. The decoding of the arguments of a call is a parameter.
\<close>

section \<open>The parser\<close>

datatype deepseek3_state =
    DeepSeekCollectingThinking
  | DeepSeekCollectingContent
  | DeepSeekCollectingToolCalls
  | DeepSeekCollectingToolOutput

definition deepseekThinkingCloseTag :: string where "deepseekThinkingCloseTag = ''</think>''"
definition deepseekToolCallsBeginTag :: string where
  "deepseekToolCallsBeginTag = fw_tag [''tool'', ''calls'', ''begin'']"
definition deepseekToolCallsEndTag :: string where
  "deepseekToolCallsEndTag = fw_tag [''tool'', ''calls'', ''end'']"
definition deepseekToolCallBeginTag :: string where
  "deepseekToolCallBeginTag = fw_tag [''tool'', ''call'', ''begin'']"
definition deepseekToolCallEndTag :: string where
  "deepseekToolCallEndTag = fw_tag [''tool'', ''call'', ''end'']"
definition deepseekToolSepTag :: string where "deepseekToolSepTag = fw_tag [''tool'', ''sep'']"
definition deepseekToolOutputBeginTag :: string where
  "deepseekToolOutputBeginTag = fw_tag [''tool'', ''output'', ''begin'']"
definition deepseekToolOutputEndTag :: string where
  "deepseekToolOutputEndTag = fw_tag [''tool'', ''output'', ''end'']"

record deepseek3 =
  ds_state :: deepseek3_state
  ds_buffer :: string
  ds_callIndex :: nat
  ds_hasThinkingSupport :: bool

definition deepseek3_HasThinkingSupport :: "deepseek3 \<Rightarrow> bool" where
  "deepseek3_HasThinkingSupport p = ds_hasThinkingSupport p"

definition deepseek3_PreservedTokens :: "string list" where
  "deepseek3_PreservedTokens = [deepseekThinkingCloseTag, deepseekToolCallsBeginTag,
     deepseekToolCallsEndTag, deepseekToolCallBeginTag, deepseekToolCallEndTag, deepseekToolSepTag,
     deepseekToolOutputBeginTag, deepseekToolOutputEndTag]"

definition deepseek3_setInitialState ::
    "deepseek3 \<Rightarrow> 'a message option \<Rightarrow> tool list \<Rightarrow> think_value option \<Rightarrow> deepseek3" where
  "deepseek3_setInitialState p lastMessage tools thinkValue =
     (let prefill = (case lastMessage of None \<Rightarrow> False | Some m \<Rightarrow> msg_Role m = ''assistant'');
          thinkingEnabled =
            (deepseek3_HasThinkingSupport p \<and> (thinkValue \<noteq> None \<and> think_Bool thinkValue)) in
      if \<not> thinkingEnabled then p\<lparr>ds_state := DeepSeekCollectingContent\<rparr>
      else if prefill \<and> (case lastMessage of None \<Rightarrow> False | Some m \<Rightarrow> msg_Content m \<noteq> [])
      then p\<lparr>ds_state := DeepSeekCollectingContent\<rparr>
      else p\<lparr>ds_state := DeepSeekCollectingThinking\<rparr>)"

definition deepseek3_Init :: "deepseek3 \<Rightarrow> tool list \<Rightarrow> 'a message option \<Rightarrow> think_value option
    \<Rightarrow> tool list \<times> deepseek3" where
  "deepseek3_Init p tools lastMessage thinkValue =
     (tools, deepseek3_setInitialState (p\<lparr>ds_callIndex := 0\<rparr>) lastMessage tools thinkValue)"

definition deepseek3_parseToolCallContent ::
    "(string \<Rightarrow> 'a option) \<Rightarrow> string \<Rightarrow> parse_error + 'a tool_call" where
  "deepseek3_parseToolCallContent unmarshal content =
     (case splitn2 content deepseekToolSepTag of
        [n, a] \<Rightarrow>
          (let toolName = trim_space n; argsJSON = trim_space a in
           case unmarshal argsJSON of
             None \<Rightarrow> Inl JSONError
           | Some args \<Rightarrow> Inr (new_call toolName args))
      | _ \<Rightarrow> Inl InvalidFormat)"

definition deepseek3_eatToolCalls ::
    "(string \<Rightarrow> 'a option) \<Rightarrow> deepseek3 \<Rightarrow> 'a tool_call parser_event list \<times> bool \<times> deepseek3" where
  "deepseek3_eatToolCalls unmarshal p =
     (let bufStr = ds_buffer p;
          call = (case index bufStr deepseekToolCallBeginTag of
                    None \<Rightarrow> None
                  | Some idx \<Rightarrow>
                      (let startIdx = idx + length deepseekToolCallBeginTag in
                       case index (drop startIdx bufStr) deepseekToolCallEndTag of
                         None \<Rightarrow> None
                       | Some endIdx \<Rightarrow>
                           (case deepseek3_parseToolCallContent unmarshal (take endIdx (drop startIdx bufStr)) of
                              Inl _ \<Rightarrow> None
                            | Inr toolCall \<Rightarrow>
                                Some (toolCall, trim_left (drop (startIdx + endIdx + length deepseekToolCallEndTag) bufStr)))))
      in case call of
           Some (toolCall, remaining) \<Rightarrow> ([EvCall toolCall], True, p\<lparr>ds_buffer := remaining\<rparr>)
         | None \<Rightarrow>
             (case index bufStr deepseekToolCallsEndTag of
                Some idx \<Rightarrow>
                  ([], True, p\<lparr>ds_state := DeepSeekCollectingContent,
                     ds_buffer := trim_left (drop (idx + length deepseekToolCallsEndTag) bufStr)\<rparr>)
              | None \<Rightarrow> ([], False, p)))"

definition deepseek3_eat ::
    "(string \<Rightarrow> 'a option) \<Rightarrow> deepseek3 \<Rightarrow> 'a tool_call parser_event list \<times> bool \<times> deepseek3" where
  "deepseek3_eat unmarshal p = (let bufStr = ds_buffer p in
     if bufStr = [] then ([], False, p)
     else case ds_state p of
       DeepSeekCollectingThinking \<Rightarrow>
         if contains bufStr deepseekThinkingCloseTag then
           (case splitn2 bufStr deepseekThinkingCloseTag of
              [thinking, remaining] \<Rightarrow>
                (emit EvThinking (trim_right thinking), True,
                 p\<lparr>ds_state := DeepSeekCollectingContent, ds_buffer := trim_left remaining\<rparr>)
            | _ \<Rightarrow> ([], False, p))
         else let overlapLen = overlap bufStr deepseekThinkingCloseTag in
           if 0 < overlapLen then
             (case withhold bufStr overlapLen of (unambiguous, ambiguous) \<Rightarrow>
                (emit EvThinking unambiguous, False, p\<lparr>ds_buffer := ambiguous\<rparr>))
           else
             (case withhold bufStr 0 of (unambiguous, ambiguous) \<Rightarrow>
                (emit EvThinking unambiguous, False, p\<lparr>ds_buffer := ambiguous\<rparr>))
     | DeepSeekCollectingContent \<Rightarrow>
         if contains bufStr deepseekToolCallsBeginTag then
           (case splitn2 bufStr deepseekToolCallsBeginTag of
              [before, remaining] \<Rightarrow>
                (emit EvContent (trim_right before), True,
                 p\<lparr>ds_state := DeepSeekCollectingToolCalls, ds_buffer := remaining\<rparr>)
            | _ \<Rightarrow> ([], False, p))
         else if contains bufStr deepseekToolOutputBeginTag then
           (case splitn2 bufStr deepseekToolOutputBeginTag of
              [before, remaining] \<Rightarrow>
                (emit EvContent before, True,
                 p\<lparr>ds_state := DeepSeekCollectingToolOutput, ds_buffer := remaining\<rparr>)
            | _ \<Rightarrow> ([], False, p))
         else (emit EvContent bufStr, False, p\<lparr>ds_buffer := []\<rparr>)
     | DeepSeekCollectingToolCalls \<Rightarrow> deepseek3_eatToolCalls unmarshal p
     | DeepSeekCollectingToolOutput \<Rightarrow>
         (case index bufStr deepseekToolOutputEndTag of
            Some idx \<Rightarrow>
              (emit EvContent (take idx bufStr), True,
               p\<lparr>ds_state := DeepSeekCollectingContent,
                 ds_buffer := drop (idx + length deepseekToolOutputEndTag) bufStr\<rparr>)
          | None \<Rightarrow> ([], False, p)))"

lemmas ds_tag_defs = deepseekToolCallsBeginTag_def deepseekToolCallsEndTag_def
  deepseekToolCallBeginTag_def deepseekToolCallEndTag_def deepseekToolOutputBeginTag_def
  deepseekToolOutputEndTag_def deepseekToolSepTag_def

lemma deepseek3_progress:
  "deepseek3_eat u p = (ev, True, p1) \<Longrightarrow> length (ds_buffer p1) < length (ds_buffer p)"
proof (cases "ds_state p")
  case DeepSeekCollectingThinking
  assume "deepseek3_eat u p = (ev, True, p1)"
  with DeepSeekCollectingThinking show ?thesis
    using drop_trim_shorter [of "ds_buffer p" deepseekThinkingCloseTag _ 0]
    by (auto simp: deepseek3_eat_def Let_def contains_def splitn2_def deepseekThinkingCloseTag_def
        split: if_splits option.splits prod.splits)
next
  case DeepSeekCollectingContent
  assume "deepseek3_eat u p = (ev, True, p1)"
  with DeepSeekCollectingContent show ?thesis
    using drop_tag_shorter [of "ds_buffer p" deepseekToolCallsBeginTag]
      drop_tag_shorter [of "ds_buffer p" deepseekToolOutputBeginTag]
    by (auto simp: deepseek3_eat_def Let_def contains_def splitn2_def ds_tag_defs
        split: if_splits option.splits)
next
  case DeepSeekCollectingToolCalls
  assume "deepseek3_eat u p = (ev, True, p1)"
  with DeepSeekCollectingToolCalls show ?thesis
    using drop_trim_shorter [of "ds_buffer p" deepseekToolCallBeginTag]
      drop_trim_shorter [of "ds_buffer p" deepseekToolCallsEndTag _ 0]
    by (auto simp: deepseek3_eat_def deepseek3_eatToolCalls_def Let_def ds_tag_defs add.assoc
        split: if_splits option.splits sum.splits)
next
  case DeepSeekCollectingToolOutput
  assume "deepseek3_eat u p = (ev, True, p1)"
  with DeepSeekCollectingToolOutput show ?thesis
    using drop_tag_shorter [of "ds_buffer p" deepseekToolOutputEndTag]
    by (auto simp: deepseek3_eat_def Let_def ds_tag_defs split: if_splits option.splits)
qed

function deepseek3_parseEvents ::
    "(string \<Rightarrow> 'a option) \<Rightarrow> deepseek3 \<Rightarrow> 'a tool_call parser_event list \<times> deepseek3" where
  "deepseek3_parseEvents unmarshal p =
     (case deepseek3_eat unmarshal p of (events, keepLooping, p1) \<Rightarrow>
        if keepLooping then (case deepseek3_parseEvents unmarshal p1 of (all, p2) \<Rightarrow> (events @ all, p2))
        else (events, p1))"
  by pat_completeness auto
termination
  by (relation "measure (\<lambda>(_, p). length (ds_buffer p))") (auto dest: deepseek3_progress [OF sym])

declare deepseek3_parseEvents.simps [simp del]

definition ds_push :: "deepseek3 \<Rightarrow> string \<Rightarrow> deepseek3" where
  "ds_push p x = p\<lparr>ds_buffer := ds_buffer p @ x\<rparr>"

definition deepseek3_Add ::
    "(string \<Rightarrow> 'a option) \<Rightarrow> deepseek3 \<Rightarrow> string \<Rightarrow> bool \<Rightarrow> 'a add_result \<times> deepseek3" where
  "deepseek3_Add unmarshal p s done =
     (case deepseek3_parseEvents unmarshal (ds_push p s) of (events, p1) \<Rightarrow>
        case number_calls (ds_callIndex p1) (calls_of events) of (toolCalls, n) \<Rightarrow>
          ((content_of events, thinking_of events, toolCalls, None), p1\<lparr>ds_callIndex := n\<rparr>))"

section \<open>The interfaces\<close>

definition ds_set_index :: "nat \<Rightarrow> deepseek3 \<Rightarrow> deepseek3" where
  "ds_set_index n p = p\<lparr>ds_callIndex := n\<rparr>"

lemma deepseek3_eat_index: "deepseek3_eat u p = (ev, go, p1) \<Longrightarrow> ds_callIndex p1 = ds_callIndex p"
  by (cases "ds_state p")
    (auto simp: deepseek3_eat_def deepseek3_eatToolCalls_def Let_def
      split: if_splits prod.splits option.splits list.splits sum.splits)

interpretation dsn: numbered_parser "deepseek3_eat u" "deepseek3_parseEvents u" "\<lambda>p. length (ds_buffer p)"
  ds_push "\<lambda>p x. deepseek3_Add u p x d" "\<lambda>_. Inr" ds_callIndex ds_set_index for u d
proof (unfold_locales, goal_cases)
  case (1 p)
  show ?case by (subst deepseek3_parseEvents.simps) (auto split: prod.splits)
next
  case (2 p ev p1)
  then show ?case by (rule deepseek3_progress)
next
  case (3 p x)
  show ?case
    by (simp add: deepseek3_Add_def ds_set_index_def number_calls_indices prod_eq_iff
        split: prod.splits)
next
  case (5 p ev go p1)
  then show ?case by (rule deepseek3_eat_index)
qed (simp_all add: ds_push_def ds_set_index_def)

lemma ds_run_plain:
  assumes "ds_state p = DeepSeekCollectingContent" "CHR ''<'' \<notin> set (ds_buffer p)"
  shows "deepseek3_parseEvents u p = (emit EvContent (ds_buffer p), p\<lparr>ds_buffer := []\<rparr>)"
proof (cases "ds_buffer p = []")
  case True
  then have "deepseek3_eat u p = ([], False, p)" by (simp add: deepseek3_eat_def)
  then show ?thesis using True dsn.run_stop [of u p "[]" p] by simp
next
  case False
  with assms have "deepseek3_eat u p = (emit EvContent (ds_buffer p), False, p\<lparr>ds_buffer := []\<rparr>)"
    by (simp add: deepseek3_eat_def contains_def ds_tag_defs no_tag_without)
  then show ?thesis by (rule dsn.run_stop)
qed

section \<open>Properties\<close>

text \<open>
  Tool output is passed through: text, an output block and more text, given to \<^verbatim>\<open>Add\<close> in
  the content state, come back as content with only the two tags removed and every space
  kept, and the parser is ready for more content.
\<close>

theorem deepseek3_tool_output_verbatim:
  assumes "ds_state p = DeepSeekCollectingContent" "ds_buffer p = []"
    and "CHR ''<'' \<notin> set before" "CHR ''<'' \<notin> set output" "CHR ''<'' \<notin> set after"
  shows "deepseek3_Add u p (before @ deepseekToolOutputBeginTag @ output @ deepseekToolOutputEndTag @ after) d =
    ((before @ output @ after, [], [], None), p)"
proof -
  let ?s = "output @ deepseekToolOutputEndTag @ after"
  let ?b = "before @ deepseekToolOutputBeginTag @ ?s"
  let ?p1 = "p\<lparr>ds_state := DeepSeekCollectingToolOutput, ds_buffer := ?s\<rparr>"
  let ?p2 = "p\<lparr>ds_state := DeepSeekCollectingContent, ds_buffer := after\<rparr>"
  have i: "index ?b deepseekToolOutputBeginTag = Some (length before)"
    using assms(3) by (intro index_fresh) (simp_all add: ds_tag_defs)
  obtain x where x: "deepseekToolOutputBeginTag = CHR ''<'' # x" "CHR ''<'' \<notin> set x"
    by (simp add: ds_tag_defs fw_tag_def fw_bar_def lower_block_def)
  obtain z where z: "deepseekToolOutputEndTag = CHR ''<'' # z" "CHR ''<'' \<notin> set z"
    by (simp add: ds_tag_defs fw_tag_def fw_bar_def lower_block_def)
  let ?t = deepseekToolCallsBeginTag
  have t: "hd ?t = CHR ''<''" "?t \<noteq> []" by (simp_all add: ds_tag_defs)
  have "\<not> prefix ?t (deepseekToolOutputBeginTag @ y)" "\<not> prefix ?t (deepseekToolOutputEndTag @ y)" for y
    by (simp_all add: ds_tag_defs fw_tag_def fw_bar_def lower_block_def)
  then have at: "index (deepseekToolOutputBeginTag @ y) ?t = map_option Suc (index (x @ y) ?t)"
    "index (deepseekToolOutputEndTag @ y) ?t = map_option Suc (index (z @ y) ?t)" for y
    by (simp_all add: x(1) z(1))
  have "index after ?t = None"
    using assms(5) unfolding ds_tag_defs(1) by (rule no_tag_without)
  then have "index ?b ?t = None"
    using assms(3,4) x(2) z(2) t by (simp add: index_skip at)
  then have nb: "\<not> contains ?b ?t" by (simp add: contains_def)
  have push: "ds_push p ?b = p\<lparr>ds_buffer := ?b\<rparr>" using assms(2) by (simp add: ds_push_def)
  have ne: "?b \<noteq> []" "?s \<noteq> []" by (simp_all add: ds_tag_defs)
  have "deepseek3_eat u (p\<lparr>ds_buffer := ?b\<rparr>) = (emit EvContent before, True, ?p1)"
    using assms(1) ne nb by (simp add: deepseek3_eat_def Let_def contains_def splitn2_def i)
  from dsn.run_more [OF this] have r1: "deepseek3_parseEvents u (ds_push p ?b) =
      (emit EvContent before @ fst (deepseek3_parseEvents u ?p1), snd (deepseek3_parseEvents u ?p1))"
    by (simp add: push)
  have "index ?s deepseekToolOutputEndTag = Some (length output)"
    using assms(4) by (intro index_fresh) (simp_all add: ds_tag_defs)
  then have "deepseek3_eat u ?p1 = (emit EvContent output, True, ?p2)"
    using ne(2) by (simp add: deepseek3_eat_def Let_def)
  from dsn.run_more [OF this] have r2: "deepseek3_parseEvents u ?p1 =
      (emit EvContent output @ fst (deepseek3_parseEvents u ?p2), snd (deepseek3_parseEvents u ?p2))" .
  have r3: "deepseek3_parseEvents u ?p2 = (emit EvContent after, p)"
    using ds_run_plain [of ?p2 u] assms(1,2,5) by simp
  show ?thesis unfolding deepseek3_Add_def r1 r2 r3 by simp
qed

definition ds_sample :: deepseek3 where
  "ds_sample = \<lparr>ds_state = DeepSeekCollectingContent, ds_buffer = [], ds_callIndex = 0,
     ds_hasThinkingSupport = True\<rparr>"

lemma deepseek3_tool_output_verbatim_witness:
  "deepseek3_Add (\<lambda>_. Some ()) ds_sample
     (''a '' @ deepseekToolOutputBeginTag @ '' x '' @ deepseekToolOutputEndTag @ '' b'') False =
   ((''a  x  b'', [], [], None), ds_sample)"
  using deepseek3_tool_output_verbatim [of ds_sample "''a ''" "'' x ''" "'' b''" "\<lambda>_. Some ()" False]
  by (simp add: ds_sample_def)

text \<open>
  Without thinking support, or when the request does not ask for thinking, no sequence of
  chunks yields thinking, and the calls are numbered from 0 without gaps.
\<close>

theorem deepseek3_thinking_off:
  assumes "\<not> ds_hasThinkingSupport p \<or> \<not> think_Bool think"
    and "feed_add (\<lambda>p x. deepseek3_Add u p x d) (snd (deepseek3_Init p tools msg think)) xs = Some ((t, c, ks), p')"
  shows "t = [] \<and> call_indices ks = [0 ..< length ks]"
proof -
  let ?p = "snd (deepseek3_Init p tools msg think)"
  have i: "ds_state ?p \<noteq> DeepSeekCollectingThinking" "ds_callIndex ?p = 0"
    using assms(1)
    by (auto simp: deepseek3_Init_def deepseek3_setInitialState_def deepseek3_HasThinkingSupport_def Let_def)
  have step: "ds_state p1 \<noteq> DeepSeekCollectingThinking \<and> (\<forall>e \<in> set ev. ev_thinking e = [])"
    if "ds_state p \<noteq> DeepSeekCollectingThinking" "deepseek3_eat u p = (ev, go, p1)" for p p1 ev go
    using that by (cases "ds_state p")
      (auto simp: deepseek3_eat_def deepseek3_eatToolCalls_def Let_def splitn2_def contains_def set_emit
        split: if_splits option.splits sum.splits)
  have "t = []"
    by (rule dsn.feed_no_thinking [where I = "\<lambda>p. ds_state p \<noteq> DeepSeekCollectingThinking", OF _ _ _ i(1) assms(2)])
      (use step in \<open>auto simp: ds_push_def ds_set_index_def\<close>)
  with i(2) dsn.feed_indices [OF assms(2)] show ?thesis by simp
qed

lemma deepseek3_thinking_off_witness:
  "[] = ([] :: string) \<and> call_indices ([] :: unit tool_call list) = [0 ..< length ([] :: unit tool_call list)]"
proof -
  have "feed_add (\<lambda>p x. deepseek3_Add (\<lambda>_. Some ()) p x False)
     (snd (deepseek3_Init ds_sample [] (None :: unit message option) None)) [''a</think>b''] =
    Some (([], ''a</think>b'', []), ds_sample)" by code_simp
  from deepseek3_thinking_off [OF _ this] show ?thesis by simp
qed

end
