(* ===== verification/JsonScan.thy ===== *)
theory JsonScan
  imports Trimming
begin

text \<open>
  Scanning JSON for its extent: \<^verbatim>\<open>findJSONEnd\<close> of model/parsers/ministral.go, which finds the
  end of the first object or array, and \<^verbatim>\<open>scanJSONObjects\<close> of model/parsers/cohere.go, which
  collects the top-level objects. Both only track brackets, strings and escapes, so they are
  specified over bracketed text: plain characters, string literals and groups.
\<close>

section \<open>The scanners\<close>

text \<open>The loop \<^verbatim>\<open>for i, r := range s\<close>: \<open>i\<close> is the byte offset of the rune.\<close>

function json_end :: "nat \<Rightarrow> int \<Rightarrow> bool \<Rightarrow> bool \<Rightarrow> string \<Rightarrow> nat option" where
  "json_end i depth inString escaped s =
     (if s = [] then None
      else let r = fst (decode_rune s); n = snd (decode_rune s) in
        if inString then
          (if escaped then json_end (i + n) depth inString False (drop n s)
           else if r = byte (CHR 0x5C) then json_end (i + n) depth inString True (drop n s)
           else if r = byte (CHR 0x22) then json_end (i + n) depth False escaped (drop n s)
           else json_end (i + n) depth inString escaped (drop n s))
        else if r = byte (CHR 0x22) then json_end (i + n) depth True escaped (drop n s)
        else if r = byte CHR ''{'' \<or> r = byte CHR ''['' then
          json_end (i + n) (depth + 1) inString escaped (drop n s)
        else if r = byte CHR ''}'' \<or> r = byte CHR '']'' then
          (if depth - 1 = 0 then Some i else json_end (i + n) (depth - 1) inString escaped (drop n s))
        else json_end (i + n) depth inString escaped (drop n s))"
  by pat_completeness auto
termination
  by (relation "measure (\<lambda>(_, _, _, _, s). length s)") (auto dest: decode_rune_size_pos)

declare json_end.simps [simp del]

definition findJSONEnd :: "string \<Rightarrow> nat option" where
  "findJSONEnd s = json_end 0 0 False False s"

text \<open>The loop over the bytes of \<open>s\<close> from offset \<open>i\<close>; \<open>rest\<close> is what remains of it.\<close>

fun scan_objects :: "string \<Rightarrow> nat \<Rightarrow> int \<Rightarrow> nat option \<Rightarrow> bool \<Rightarrow> bool \<Rightarrow> string \<Rightarrow> string list" where
  "scan_objects s i depth start inString escaped [] = []"
| "scan_objects s i depth start inString escaped (c # rest) =
     (if escaped then scan_objects s (i + 1) depth start inString False rest
      else if c = CHR 0x5C \<and> inString then scan_objects s (i + 1) depth start inString True rest
      else if c = CHR 0x22 then scan_objects s (i + 1) depth start (\<not> inString) escaped rest
      else if inString then scan_objects s (i + 1) depth start inString escaped rest
      else if c = CHR ''{'' then
        scan_objects s (i + 1) (depth + 1) (if depth = 0 then Some i else start) inString escaped rest
      else if c = CHR ''}'' then
        (if depth > 0 then
           (case start of
              Some st \<Rightarrow>
                if depth - 1 = 0
                then drop st (take (i + 1) s) # scan_objects s (i + 1) (depth - 1) None inString escaped rest
                else scan_objects s (i + 1) (depth - 1) start inString escaped rest
            | None \<Rightarrow> scan_objects s (i + 1) (depth - 1) start inString escaped rest)
         else scan_objects s (i + 1) depth start inString escaped rest)
      else scan_objects s (i + 1) depth start inString escaped rest)"

definition scanJSONObjects :: "string \<Rightarrow> string list" where
  "scanJSONObjects s = scan_objects s 0 0 None False False s"

section \<open>Bracketed text\<close>

datatype jitem = JPlain char | JText string | JGroup char char "jitem list"

fun jprint :: "jitem \<Rightarrow> string" where
  "jprint (JPlain c) = [c]"
| "jprint (JText body) = CHR 0x22 # body @ [CHR 0x22]"
| "jprint (JGroup op cl items) = op # concat (map jprint items) @ [cl]"

text \<open>The body of a string literal: every quote is escaped, and no escape is left open.\<close>

fun body_ok :: "bool \<Rightarrow> string \<Rightarrow> bool" where
  "body_ok escaped [] = (\<not> escaped)"
| "body_ok escaped (c # s) =
     (if escaped then body_ok False s
      else if c = CHR 0x5C then body_ok True s
      else c \<noteq> CHR 0x22 \<and> body_ok False s)"

fun jwf :: "jitem \<Rightarrow> bool" where
  "jwf (JPlain c) = (c \<notin> {CHR 0x22, CHR ''{'', CHR ''['', CHR ''}'', CHR '']''})"
| "jwf (JText body) = body_ok False body"
| "jwf (JGroup op cl items) =
     ((op = CHR ''{'' \<and> cl = CHR ''}'' \<or> op = CHR ''['' \<and> cl = CHR '']'') \<and> list_all jwf items)"

section \<open>The end of a value\<close>

text \<open>The scanner over bytes: characters beyond ASCII only end an escape.\<close>

definition byte_step :: "int \<Rightarrow> bool \<Rightarrow> bool \<Rightarrow> char \<Rightarrow> (int \<times> bool \<times> bool) option" where
  "byte_step depth inString escaped c =
     (if inString then
        (if escaped then Some (depth, inString, False)
         else if c = CHR 0x5C then Some (depth, inString, True)
         else if c = CHR 0x22 then Some (depth, False, escaped)
         else Some (depth, inString, escaped))
      else if c = CHR 0x22 then Some (depth, True, escaped)
      else if c = CHR ''{'' \<or> c = CHR ''['' then Some (depth + 1, inString, escaped)
      else if c = CHR ''}'' \<or> c = CHR '']'' then
        (if depth - 1 = 0 then None else Some (depth - 1, inString, escaped))
      else Some (depth, inString, escaped))"

fun byte_end :: "nat \<Rightarrow> int \<Rightarrow> bool \<Rightarrow> bool \<Rightarrow> string \<Rightarrow> nat option" where
  "byte_end i depth inString escaped [] = None"
| "byte_end i depth inString escaped (c # s) =
     (case byte_step depth inString escaped c of
        None \<Rightarrow> Some i
      | Some (d, a, e) \<Rightarrow> byte_end (Suc i) d a e s)"

abbreviation high :: "string \<Rightarrow> bool" where
  "high \<equiv> list_all (\<lambda>d. (0x80 :: nat) \<le> byte d)"

lemma decode2_high:
  "decode2 b s = (r, n) \<Longrightarrow> 0xC2 \<le> b \<Longrightarrow> 0x80 \<le> r \<and> 0 < n \<and> high (take (n - 1) s)"
  by (auto simp: decode2_def in_range_def rune_error_def split: list.splits if_splits)

lemma decode3_high:
  "decode3 lo hi b s = (r, n) \<Longrightarrow> 0x80 \<le> lo \<Longrightarrow> 0xE1 \<le> b \<or> 0xA0 \<le> lo \<Longrightarrow>
    0x80 \<le> r \<and> 0 < n \<and> high (take (n - 1) s)"
  by (auto simp: decode3_def in_range_def rune_error_def split: list.splits if_splits)

lemma decode4_high:
  "decode4 lo hi b s = (r, n) \<Longrightarrow> 0x80 \<le> lo \<Longrightarrow> 0xF1 \<le> b \<or> 0x90 \<le> lo \<Longrightarrow>
    0x80 \<le> r \<and> 0 < n \<and> high (take (n - 1) s)"
  by (auto simp: decode4_def in_range_def rune_error_def split: list.splits if_splits)

lemma decode_rune_high:
  assumes "(0x80 :: nat) \<le> byte c" "decode_rune (c # s) = (r, n)"
  shows "0x80 \<le> r \<and> 0 < n \<and> high (take (n - 1) s)"
proof -
  have e: "(rune_error, 1 :: nat) = (r, n) \<Longrightarrow> ?thesis" by (auto simp: rune_error_def)
  from assms show ?thesis
    by (auto simp: decode_rune.simps Let_def rune_error_def split: if_splits dest!: decode2_high decode3_high decode4_high e)
qed

lemma high_not_ascii: "(0x80 :: nat) \<le> byte c \<Longrightarrow> byte d < (0x80 :: nat) \<Longrightarrow> c \<noteq> d"
  by auto

lemma byte_end_high:
  "high u \<Longrightarrow> u \<noteq> [] \<Longrightarrow> byte_end i d a e (u @ t) = byte_end (i + length u) d a (if a then False else e) t"
proof (induction u arbitrary: i e)
  case (Cons c u)
  have c: "c \<notin> {CHR 0x22, CHR 0x5C, CHR ''{'', CHR ''['', CHR ''}'', CHR '']''}"
    using Cons.prems(1) by (auto dest: high_not_ascii)
  then have "byte_end i d a e ((c # u) @ t) = byte_end (Suc i) d a (if a then False else e) (u @ t)"
    by (auto simp: byte_step_def)
  with Cons show ?case by (cases "u = []") simp_all
qed simp

lemma byte_codes:
  "byte c = (0x22 :: nat) \<longleftrightarrow> c = CHR 0x22" "byte c = (0x5C :: nat) \<longleftrightarrow> c = CHR 0x5C"
  "byte c = (0x7B :: nat) \<longleftrightarrow> c = CHR ''{''" "byte c = (0x5B :: nat) \<longleftrightarrow> c = CHR ''[''"
  "byte c = (0x7D :: nat) \<longleftrightarrow> c = CHR ''}''" "byte c = (0x5D :: nat) \<longleftrightarrow> c = CHR '']''"
  using of_char_eq_iff [of c "CHR 0x22", where 'a = nat] of_char_eq_iff [of c "CHR 0x5C", where 'a = nat]
    of_char_eq_iff [of c "CHR ''{''", where 'a = nat] of_char_eq_iff [of c "CHR ''[''", where 'a = nat]
    of_char_eq_iff [of c "CHR ''}''", where 'a = nat] of_char_eq_iff [of c "CHR '']''", where 'a = nat]
  by simp_all

lemma json_end_bytes: "json_end i d a e s = byte_end i d a e s"
proof (induction "length s" arbitrary: i d a e s rule: less_induct)
  case (less s i d a e)
  show ?case
  proof (cases s)
    case Nil
    then show ?thesis by (simp add: json_end.simps [of i d a e "[]"])
  next
    case (Cons c t)
    show ?thesis
    proof (cases "byte c < (0x80 :: nat)")
      case True
      then have "decode_rune s = (byte c, 1)" by (simp add: Cons go_defs)
      moreover have "json_end j x b f t = byte_end j x b f t" for j x b f
        by (rule less) (simp add: Cons)
      ultimately show ?thesis
        using Cons by (simp add: json_end.simps [of i d a e "c # t"] byte_codes byte_step_def Let_def)
    next
      case False
      obtain r n where rn: "decode_rune (c # t) = (r, n)" by fastforce
      with False decode_rune_high [of c t r n] decode_rune_size_pos [of "c # t"]
      have r: "0x80 \<le> r" "high (take (n - 1) t)" and n: "0 < n" "n \<le> length s"
        by (auto simp: Cons)
      let ?u = "take n s"
      have u: "high ?u" "?u \<noteq> []" "length ?u = n"
        using False r n by (auto simp: Cons take_Cons')
      have "json_end i d a e s = json_end (i + n) d a (if a then False else e) (drop n s)"
        using r(1) rn Cons by (simp add: json_end.simps [of i d a e "c # t"] Let_def)
      also have "\<dots> = byte_end (i + n) d a (if a then False else e) (drop n s)"
        using n by (intro less) simp
      also have "\<dots> = byte_end i d a e s"
        using byte_end_high [OF u(1,2), of i d a e "drop n s"] u(3) by simp
      finally show ?thesis .
    qed
  qed
qed

text \<open>The scan passes over bracketed text inside a group.\<close>

lemma byte_end_body:
  "body_ok e body \<Longrightarrow> byte_end i d True e (body @ CHR 0x22 # t) = byte_end (i + length body + 1) d False False t"
  by (induction e body arbitrary: i rule: body_ok.induct) (auto simp: byte_step_def split: if_splits)

lemma byte_end_list:
  assumes "\<And>x i d t. x \<in> set xs \<Longrightarrow> 0 < d \<Longrightarrow>
      byte_end i d False False (jprint x @ t) = byte_end (i + length (jprint x)) d False False t"
    and "0 < d"
  shows "byte_end i d False False (concat (map jprint xs) @ t) =
    byte_end (i + length (concat (map jprint xs))) d False False t"
  using assms(1)
proof (induction xs arbitrary: i)
  case (Cons x xs)
  have "byte_end i d False False (jprint x @ concat (map jprint xs) @ t) =
      byte_end (i + length (jprint x)) d False False (concat (map jprint xs) @ t)"
    using Cons.prems assms(2) by simp
  also have "\<dots> = byte_end (i + length (jprint x) + length (concat (map jprint xs))) d False False t"
    using Cons by simp
  finally show ?case by (simp add: add.assoc)
qed simp

lemma byte_end_item:
  "jwf x \<Longrightarrow> 0 < d \<Longrightarrow>
    byte_end i d False False (jprint x @ t) = byte_end (i + length (jprint x)) d False False t"
proof (induction x arbitrary: i d t)
  case (JText body)
  then show ?case using byte_end_body [of False body "Suc i" d t] by (simp add: byte_step_def)
next
  case (JGroup op cl items)
  have "byte_end (Suc i) (d + 1) False False (concat (map jprint items) @ cl # t) =
      byte_end (Suc i + length (concat (map jprint items))) (d + 1) False False (cl # t)"
    using JGroup by (intro byte_end_list) (auto simp: list_all_iff)
  with JGroup.prems show ?case by (auto simp: byte_step_def)
qed (auto simp: byte_step_def)

lemma byte_end_group:
  assumes "jwf (JGroup op cl items)"
  shows "byte_end i 0 False False (jprint (JGroup op cl items) @ t) =
    Some (i + length (jprint (JGroup op cl items)) - 1)"
proof -
  have "byte_end (Suc i) 1 False False (concat (map jprint items) @ cl # t) =
      byte_end (Suc i + length (concat (map jprint items))) 1 False False (cl # t)"
    using assms by (intro byte_end_list) (auto simp: list_all_iff byte_end_item)
  with assms show ?thesis by (auto simp: byte_step_def)
qed

lemma byte_end_plain:
  "list_all (\<lambda>c. jwf (JPlain c)) u \<Longrightarrow> byte_end i d False False (u @ t) = byte_end (i + length u) d False False t"
  by (induction u arbitrary: i) (auto simp: byte_step_def)

lemma byte_end_append: "byte_end i d a e s = Some k \<Longrightarrow> byte_end i d a e (s @ t) = Some k"
  by (induction i d a e s rule: byte_end.induct) (auto split: option.splits)

lemma byte_end_less: "byte_end i d a e s = Some k \<Longrightarrow> k < i + length s"
  by (induction i d a e s rule: byte_end.induct) (auto split: option.splits)

lemma findJSONEnd_less: "findJSONEnd s = Some k \<Longrightarrow> k < length s"
  using byte_end_less [of 0 0 False False s k] by (simp add: findJSONEnd_def json_end_bytes)

section \<open>The objects of a text\<close>

lemma scan_body:
  "body_ok e body \<Longrightarrow> scan_objects s i d st True e (body @ CHR 0x22 # t) =
    scan_objects s (i + length body + 1) d st False False t"
  by (induction e body arbitrary: i rule: body_ok.induct) (auto split: if_splits)

lemma scan_list:
  assumes "\<And>x i d t. x \<in> set xs \<Longrightarrow> 0 < d \<Longrightarrow>
      scan_objects s i d st False False (jprint x @ t) = scan_objects s (i + length (jprint x)) d st False False t"
    and "0 < d"
  shows "scan_objects s i d st False False (concat (map jprint xs) @ t) =
    scan_objects s (i + length (concat (map jprint xs))) d st False False t"
  using assms(1)
proof (induction xs arbitrary: i)
  case (Cons x xs)
  have "scan_objects s i d st False False (jprint x @ concat (map jprint xs) @ t) =
      scan_objects s (i + length (jprint x)) d st False False (concat (map jprint xs) @ t)"
    using Cons.prems assms(2) by simp
  also have "\<dots> = scan_objects s (i + length (jprint x) + length (concat (map jprint xs))) d st False False t"
    using Cons by simp
  finally show ?case by (simp add: add.assoc)
qed simp

lemma scan_item:
  "jwf x \<Longrightarrow> 0 < d \<Longrightarrow>
    scan_objects s i d st False False (jprint x @ t) = scan_objects s (i + length (jprint x)) d st False False t"
proof (induction x arbitrary: i d t)
  case (JText body)
  then show ?case using scan_body [of False body s "Suc i" d st t] by simp
next
  case (JGroup op cl items)
  show ?case
  proof (cases "op = CHR ''{''")
    case True
    have "scan_objects s (Suc i) (d + 1) st False False (concat (map jprint items) @ cl # t) =
        scan_objects s (Suc i + length (concat (map jprint items))) (d + 1) st False False (cl # t)"
      using JGroup by (intro scan_list) (auto simp: list_all_iff)
    with JGroup.prems True show ?thesis by (auto split: option.splits)
  next
    case False
    have "scan_objects s (Suc i) d st False False (concat (map jprint items) @ cl # t) =
        scan_objects s (Suc i + length (concat (map jprint items))) d st False False (cl # t)"
      using JGroup by (intro scan_list) (auto simp: list_all_iff)
    with JGroup.prems False show ?thesis by auto
  qed
qed auto

lemma scan_object:
  assumes "jwf (JGroup (CHR ''{'') cl items)" "drop i s = jprint (JGroup (CHR ''{'') cl items) @ t" "i \<le> length s"
  shows "scan_objects s i 0 None False False (jprint (JGroup (CHR ''{'') cl items) @ t) =
    jprint (JGroup (CHR ''{'') cl items) #
      scan_objects s (i + length (jprint (JGroup (CHR ''{'') cl items))) 0 None False False t"
proof -
  let ?g = "jprint (JGroup (CHR ''{'') cl items)" let ?m = "concat (map jprint items)"
  have "scan_objects s (Suc i) 1 (Some i) False False (?m @ cl # t) =
      scan_objects s (Suc i + length ?m) 1 (Some i) False False (cl # t)"
    using assms(1) by (intro scan_list) (auto simp: list_all_iff scan_item)
  moreover have "take (i + length ?g) s = take i s @ ?g"
    using assms(2,3) by (simp only: take_add) simp
  then have "drop i (take (Suc (Suc i + length ?m)) s) = ?g"
    using assms(3) by (simp add: add.commute add.left_commute)
  ultimately show ?thesis using assms(1) by auto
qed

text \<open>The objects of bracketed text at depth 0: brackets are transparent to the scan.\<close>

fun jobjects :: "jitem \<Rightarrow> string list" where
  "jobjects (JGroup op cl items) =
     (if op = CHR ''{'' then [jprint (JGroup op cl items)] else concat (map jobjects items))"
| "jobjects _ = []"

lemma scan_no_close: "CHR ''}'' \<notin> set t \<Longrightarrow> scan_objects s i d st a e t = []"
  by (induction s i d st a e t rule: scan_objects.induct) auto

lemma scan_top_list:
  assumes "\<And>x i t. x \<in> set xs \<Longrightarrow> drop i s = jprint x @ t \<Longrightarrow> i \<le> length s \<Longrightarrow>
      scan_objects s i 0 None False False (jprint x @ t) =
        jobjects x @ scan_objects s (i + length (jprint x)) 0 None False False t"
    and "drop i s = concat (map jprint xs) @ t" "i \<le> length s"
  shows "scan_objects s i 0 None False False (concat (map jprint xs) @ t) =
    concat (map jobjects xs) @ scan_objects s (i + length (concat (map jprint xs))) 0 None False False t"
  using assms
proof (induction xs arbitrary: i)
  case (Cons x xs)
  let ?r = "concat (map jprint xs) @ t"
  have d: "drop i s = jprint x @ ?r" using Cons.prems(2) by simp
  then have d': "drop (i + length (jprint x)) s = ?r"
    by (metis add.commute append_eq_conv_conj drop_drop)
  have l: "i + length (jprint x) \<le> length s"
    using arg_cong [OF d, of length] Cons.prems(3) by simp
  have "scan_objects s i 0 None False False (jprint x @ ?r) =
      jobjects x @ scan_objects s (i + length (jprint x)) 0 None False False ?r"
    using Cons.prems(1) [of x, OF _ d Cons.prems(3)] by simp
  also have "scan_objects s (i + length (jprint x)) 0 None False False ?r = concat (map jobjects xs) @
      scan_objects s (i + length (jprint x) + length (concat (map jprint xs))) 0 None False False t"
    by (rule Cons.IH [OF _ d' l]) (use Cons.prems(1) in simp)
  finally show ?case by (simp add: add.assoc)
qed simp

lemma scan_top_item:
  "jwf x \<Longrightarrow> drop i s = jprint x @ t \<Longrightarrow> i \<le> length s \<Longrightarrow>
    scan_objects s i 0 None False False (jprint x @ t) =
      jobjects x @ scan_objects s (i + length (jprint x)) 0 None False False t"
proof (induction x arbitrary: i t)
  case (JText body)
  then show ?case using scan_body [of False body s "Suc i" 0 None t] by simp
next
  case (JGroup op cl items)
  show ?case
  proof (cases "op = CHR ''{''")
    case True
    with JGroup.prems scan_object [of cl items i s t] show ?thesis by simp
  next
    case False
    have d1: "drop (Suc i) s = concat (map jprint items) @ cl # t"
      using arg_cong [OF JGroup.prems(2), of tl] by (simp add: drop_Suc tl_drop)
    have d2: "Suc i \<le> length s"
      using arg_cong [OF JGroup.prems(2), of length] by simp
    have "scan_objects s (Suc i) 0 None False False (concat (map jprint items) @ cl # t) =
        concat (map jobjects items) @
          scan_objects s (Suc i + length (concat (map jprint items))) 0 None False False (cl # t)"
      by (rule scan_top_list [OF _ d1 d2]) (use JGroup in \<open>auto simp: list_all_iff\<close>)
    with JGroup.prems(1) False show ?thesis by auto
  qed
qed auto

text \<open>Outside the objects a bracket need not be matched.\<close>

fun jtop :: "jitem \<Rightarrow> bool" where
  "jtop (JPlain c) = (c \<notin> {CHR 0x22, CHR ''{'', CHR ''}''})"
| "jtop x = jwf x"

lemma scan_top:
  "jtop x \<Longrightarrow> drop i s = jprint x @ t \<Longrightarrow> i \<le> length s \<Longrightarrow>
    scan_objects s i 0 None False False (jprint x @ t) =
      jobjects x @ scan_objects s (i + length (jprint x)) 0 None False False t"
  by (cases x) (auto simp: scan_top_item simp del: jprint.simps(2,3) jobjects.simps(1))

lemma scan_complete:
  assumes "list_all jtop items" "CHR ''}'' \<notin> set tail"
  shows "scanJSONObjects (concat (map jprint items) @ tail) = concat (map jobjects items)"
proof -
  have "scan_objects (concat (map jprint items) @ tail) 0 0 None False False (concat (map jprint items) @ tail) =
      concat (map jobjects items) @ scan_objects (concat (map jprint items) @ tail)
        (0 + length (concat (map jprint items))) 0 None False False tail"
    by (rule scan_top_list) (use assms(1) in \<open>auto simp: list_all_iff scan_top\<close>)
  then show ?thesis using assms(2) by (simp add: scanJSONObjects_def scan_no_close)
qed

lemma json_end_group:
  assumes "list_all (\<lambda>c. jwf (JPlain c)) u" "jwf (JGroup op cl items)"
  shows "findJSONEnd (u @ jprint (JGroup op cl items) @ rest) =
    Some (length (u @ jprint (JGroup op cl items)) - 1)"
  using byte_end_plain [OF assms(1), of 0 0 "jprint (JGroup op cl items) @ rest"]
    byte_end_group [OF assms(2), of "length u" rest]
  by (simp add: findJSONEnd_def json_end_bytes)

section \<open>Properties\<close>

text \<open>
  \<^verbatim>\<open>findJSONEnd\<close> finds the closing bracket of the first JSON object or array, whatever
  nesting and string literals it holds and whatever follows it, and no earlier chunk of the
  text satisfies it: a call is complete exactly when its last bracket has arrived.
\<close>

theorem findJSONEnd_value:
  assumes "list_all (\<lambda>c. jwf (JPlain c)) u" "jwf (JGroup op cl items)"
  shows "findJSONEnd (u @ jprint (JGroup op cl items) @ rest) =
      Some (length (u @ jprint (JGroup op cl items)) - 1) \<and>
    (\<forall>n < length (u @ jprint (JGroup op cl items)).
      findJSONEnd (take n (u @ jprint (JGroup op cl items) @ rest)) = None)"
proof -
  let ?g = "jprint (JGroup op cl items)"
  have f: "findJSONEnd (u @ ?g @ rest) = Some (length (u @ ?g) - 1)"
    using assms by (rule json_end_group)
  moreover have "findJSONEnd (take n (u @ ?g @ rest)) = None" if "n < length (u @ ?g)" for n
  proof (rule ccontr)
    assume "findJSONEnd (take n (u @ ?g @ rest)) \<noteq> None"
    then obtain k where k: "findJSONEnd (take n (u @ ?g @ rest)) = Some k" by blast
    then have "findJSONEnd (u @ ?g @ rest) = Some k"
      using byte_end_append [of 0 0 False False "take n (u @ ?g @ rest)" k "drop n (u @ ?g @ rest)"]
      by (simp only: findJSONEnd_def json_end_bytes append_take_drop_id)
    with f have "k = length (u @ ?g) - 1" by simp
    moreover have "k < n" using findJSONEnd_less [OF k] by simp
    ultimately show False using that by simp
  qed
  ultimately show ?thesis by blast
qed

lemma findJSONEnd_value_witness:
  "findJSONEnd '' {[],}]}'' = Some 5 \<and> findJSONEnd '' {[],'' = None"
proof -
  let ?items = "[JGroup (CHR ''['') (CHR '']'') [], JPlain (CHR '','')]"
  have a: "list_all (\<lambda>c. jwf (JPlain c)) '' ''" "jwf (JGroup (CHR ''{'') (CHR ''}'') ?items)" by simp_all
  note v = findJSONEnd_value [OF a, of "'']}''"]
  have "findJSONEnd (take 5 ('' '' @ jprint (JGroup (CHR ''{'') (CHR ''}'') ?items) @ '']}'')) = None"
    using conjunct2 [OF v] by (rule allE [of _ 5]) simp
  with conjunct1 [OF v] show ?thesis by simp
qed

text \<open>
  \<^verbatim>\<open>scanJSONObjects\<close> returns exactly the outermost objects of the text, in order, looking
  through array brackets and ignoring braces inside string literals; a truncated tail (no
  closing brace) adds nothing and loses none of the complete objects before it.
\<close>

theorem scanJSONObjects_complete:
  assumes "list_all jtop items" "CHR ''}'' \<notin> set tail"
  shows "scanJSONObjects (concat (map jprint items) @ tail) = concat (map jobjects items)"
  using assms by (rule scan_complete)

lemma scanJSONObjects_complete_witness:
  "scanJSONObjects (''[{1},{'' @ [CHR 0x22] @ ''}'' @ [CHR 0x22] @ ''},{2'') =
    [''{1}'', ''{'' @ [CHR 0x22] @ ''}'' @ [CHR 0x22] @ ''}'']"
proof -
  let ?a = "JGroup (CHR ''{'') (CHR ''}'') [JPlain (CHR ''1'')]"
  let ?b = "JGroup (CHR ''{'') (CHR ''}'') [JText ''}'']"
  have "jobjects ?a = [''{1}'']" by simp
  have "scanJSONObjects (concat (map jprint [?a, JPlain (CHR '',''), ?b, JPlain (CHR '','')]) @ ''{2'') =
      concat (map jobjects [?a, JPlain (CHR '',''), ?b, JPlain (CHR '','')])"
    by (rule scanJSONObjects_complete) simp_all
  then show ?thesis by (simp add: scanJSONObjects_def)
qed

end
