(* ===== verification/Ministral.thy ===== *)
theory Ministral
  imports TextEvents JsonScan
begin

text \<open>
  model/parsers/ministral.go: the parser of Ministral output. A tool call is a name between
  \<^verbatim>\<open>[TOOL_CALLS]\<close> and \<^verbatim>\<open>[ARGS]\<close> followed by a JSON value, whose end \<^verbatim>\<open>findJSONEnd\<close> finds.
  Decoding the arguments is a parameter.
\<close>

section \<open>The parser\<close>

datatype ministral_state =
    MinistralCollectingContent
  | MinistralCollectingThinkingContent
  | MinistralCollectingToolName
  | MinistralCollectingToolArgs

definition ministralToolCallsTag :: string where "ministralToolCallsTag = ''[TOOL_CALLS]''"
definition ministralThinkTag :: string where "ministralThinkTag = ''[THINK]''"
definition ministralThinkEndTag :: string where "ministralThinkEndTag = ''[/THINK]''"
definition ministralArgsTag :: string where "ministralArgsTag = ''[ARGS]''"

record ministral =
  mi_state :: ministral_state
  mi_buffer :: string
  mi_tools :: "tool list"
  mi_callIndex :: nat
  mi_hasThinkingSupport :: bool
  mi_pendingToolName :: string

definition ministral_HasThinkingSupport :: "ministral \<Rightarrow> bool" where
  "ministral_HasThinkingSupport p = mi_hasThinkingSupport p"

definition ministral_PreservedTokens :: "string list" where
  "ministral_PreservedTokens =
     [ministralToolCallsTag, ministralThinkTag, ministralThinkEndTag, ministralArgsTag]"

definition ministral_setInitialState :: "ministral \<Rightarrow> 'a message option \<Rightarrow> ministral" where
  "ministral_setInitialState p lastMessage =
     (let prefill = (case lastMessage of None \<Rightarrow> False | Some m \<Rightarrow> msg_Role m = ''assistant'') in
      if \<not> ministral_HasThinkingSupport p then p\<lparr>mi_state := MinistralCollectingContent\<rparr>
      else if prefill \<and> (case lastMessage of None \<Rightarrow> False | Some m \<Rightarrow> msg_Content m \<noteq> [])
      then p\<lparr>mi_state := MinistralCollectingContent\<rparr>
      else p\<lparr>mi_state := MinistralCollectingThinkingContent\<rparr>)"

definition ministral_Init :: "ministral \<Rightarrow> tool list \<Rightarrow> 'a message option \<Rightarrow> think_value option
    \<Rightarrow> tool list \<times> ministral" where
  "ministral_Init p tools lastMessage thinkValue =
     (tools, ministral_setInitialState (p\<lparr>mi_tools := tools, mi_callIndex := 0\<rparr>) lastMessage)"

fun toolByName :: "tool list \<Rightarrow> string \<Rightarrow> tool option" where
  "toolByName [] n = None"
| "toolByName (t # ts) n = (if tool_name t = n then Some t else toolByName ts n)"

definition ministral_eat ::
    "ministral \<Rightarrow> (string \<times> string) parser_event list \<times> bool \<times> ministral" where
  "ministral_eat p = (let bufStr = mi_buffer p in case mi_state p of
     MinistralCollectingContent \<Rightarrow>
       if contains bufStr ministralToolCallsTag then
         (case splitn2 bufStr ministralToolCallsTag of
            [before, after] \<Rightarrow>
              (emit EvContent (trim_right before), True,
               p\<lparr>mi_state := MinistralCollectingToolName, mi_buffer := after\<rparr>)
          | _ \<Rightarrow> ([], False, p))
       else if contains bufStr ministralThinkTag then
         (case splitn2 bufStr ministralThinkTag of
            [before, after] \<Rightarrow>
              (emit EvContent (trim_right before), True,
               p\<lparr>mi_state := MinistralCollectingThinkingContent, mi_buffer := after\<rparr>)
          | _ \<Rightarrow> ([], False, p))
       else let maxOverlap = max (overlap bufStr ministralToolCallsTag) (overlap bufStr ministralThinkTag) in
         if 0 < maxOverlap then
           (case withhold bufStr maxOverlap of (unambiguous, ambiguous) \<Rightarrow>
              (emit EvContent unambiguous, False, p\<lparr>mi_buffer := ambiguous\<rparr>))
         else
           (case withhold bufStr 0 of (unambiguous, ambiguous) \<Rightarrow>
              (emit EvContent unambiguous, False, p\<lparr>mi_buffer := ambiguous\<rparr>))
   | MinistralCollectingThinkingContent \<Rightarrow>
       if contains bufStr ministralThinkEndTag then
         (case splitn2 bufStr ministralThinkEndTag of
            [thinkingContent, after] \<Rightarrow>
              (emit EvThinking thinkingContent, True,
               p\<lparr>mi_state := MinistralCollectingContent, mi_buffer := trim_left after\<rparr>)
          | _ \<Rightarrow> ([], False, p))
       else let overlapLen = overlap bufStr ministralThinkEndTag in
         if 0 < overlapLen then
           (emit EvThinking (take (length bufStr - overlapLen) bufStr), False,
            p\<lparr>mi_buffer := drop (length bufStr - overlapLen) bufStr\<rparr>)
         else (emit EvThinking bufStr, False, p\<lparr>mi_buffer := []\<rparr>)
   | MinistralCollectingToolName \<Rightarrow>
       if contains bufStr ministralArgsTag then
         (case splitn2 bufStr ministralArgsTag of
            [toolName, after] \<Rightarrow>
              ([], True, p\<lparr>mi_state := MinistralCollectingToolArgs, mi_buffer := after,
                 mi_pendingToolName := toolName\<rparr>)
          | _ \<Rightarrow> ([], False, p))
       else ([], False, p)
   | MinistralCollectingToolArgs \<Rightarrow>
       (case findJSONEnd bufStr of
          Some jsonEnd \<Rightarrow>
            (let jsonStr = take (jsonEnd + 1) bufStr; remaining = drop (jsonEnd + 1) bufStr in
             ([EvCall (mi_pendingToolName p, jsonStr)], True,
              p\<lparr>mi_state := MinistralCollectingContent, mi_buffer := remaining, mi_pendingToolName := []\<rparr>))
        | None \<Rightarrow> ([], False, p)))"

lemma mi_tags:
  "0 < length ministralToolCallsTag" "0 < length ministralThinkTag"
  "0 < length ministralThinkEndTag" "0 < length ministralArgsTag"
  by (simp_all add: ministralToolCallsTag_def ministralThinkTag_def ministralThinkEndTag_def
      ministralArgsTag_def)

lemma ministral_progress: "ministral_eat p = (ev, True, p1) \<Longrightarrow> length (mi_buffer p1) < length (mi_buffer p)"
proof (cases "mi_state p")
  case MinistralCollectingContent
  assume "ministral_eat p = (ev, True, p1)"
  with MinistralCollectingContent show ?thesis
    using drop_tag_shorter [OF _ mi_tags(1), of "mi_buffer p"] drop_tag_shorter [OF _ mi_tags(2), of "mi_buffer p"]
    by (auto simp: ministral_eat_def Let_def contains_def splitn2_def
        split: if_splits option.splits prod.splits)
next
  case MinistralCollectingThinkingContent
  assume "ministral_eat p = (ev, True, p1)"
  with MinistralCollectingThinkingContent show ?thesis
    using drop_trim_shorter [OF _ mi_tags(3), of "mi_buffer p" _ 0]
    by (auto simp: ministral_eat_def Let_def contains_def splitn2_def split: if_splits option.splits)
next
  case MinistralCollectingToolName
  assume "ministral_eat p = (ev, True, p1)"
  with MinistralCollectingToolName show ?thesis
    using drop_tag_shorter [OF _ mi_tags(4), of "mi_buffer p"]
    by (auto simp: ministral_eat_def Let_def contains_def splitn2_def split: if_splits option.splits)
next
  case MinistralCollectingToolArgs
  assume "ministral_eat p = (ev, True, p1)"
  with MinistralCollectingToolArgs show ?thesis
    using findJSONEnd_less [of "mi_buffer p"]
    by (fastforce simp: ministral_eat_def Let_def split: option.splits)
qed

function ministral_parseEvents :: "ministral \<Rightarrow> (string \<times> string) parser_event list \<times> ministral" where
  "ministral_parseEvents p =
     (case ministral_eat p of (events, keepLooping, p1) \<Rightarrow>
        if keepLooping then (case ministral_parseEvents p1 of (all, p2) \<Rightarrow> (events @ all, p2))
        else (events, p1))"
  by pat_completeness auto
termination by (relation "measure (\<lambda>p. length (mi_buffer p))") (auto dest: ministral_progress [OF sym])

declare ministral_parseEvents.simps [simp del]

text \<open>
  The event loop of \<^verbatim>\<open>Add\<close>. An unknown tool or undecodable arguments return what was collected
  so far, with calls that are not numbered yet.
\<close>

fun ministral_handle :: "(string \<Rightarrow> 'a option) \<Rightarrow> tool list \<Rightarrow> (string \<times> string) parser_event list
    \<Rightarrow> string \<Rightarrow> string \<Rightarrow> 'a tool_call list \<Rightarrow> 'a add_result" where
  "ministral_handle unmarshal tools [] c t toolCalls = (c, t, toolCalls, None)"
| "ministral_handle unmarshal tools (EvContent x # events) c t toolCalls =
     ministral_handle unmarshal tools events (c @ x) t toolCalls"
| "ministral_handle unmarshal tools (EvThinking x # events) c t toolCalls =
     ministral_handle unmarshal tools events c (t @ x) toolCalls"
| "ministral_handle unmarshal tools (EvCall (name, args) # events) c t toolCalls =
     (case toolByName tools name of
        None \<Rightarrow> (c, t, toolCalls, Some (ToolNotFound name))
      | Some tool \<Rightarrow>
          (case unmarshal args of
             None \<Rightarrow> (c, t, toolCalls, Some JSONError)
           | Some v \<Rightarrow>
               ministral_handle unmarshal tools events c t (toolCalls @ [new_call (tool_name tool) v])))"

definition mi_push :: "ministral \<Rightarrow> string \<Rightarrow> ministral" where
  "mi_push p x = p\<lparr>mi_buffer := mi_buffer p @ x\<rparr>"

definition ministral_Add ::
    "(string \<Rightarrow> 'a option) \<Rightarrow> ministral \<Rightarrow> string \<Rightarrow> bool \<Rightarrow> 'a add_result \<times> ministral" where
  "ministral_Add unmarshal p s done =
     (case ministral_parseEvents (mi_push p s) of (events, p1) \<Rightarrow>
        case ministral_handle unmarshal (mi_tools p1) events [] [] [] of
          (content, thinking, toolCalls, Some err) \<Rightarrow> ((content, thinking, toolCalls, Some err), p1)
        | (content, thinking, toolCalls, None) \<Rightarrow>
            (case number_calls (mi_callIndex p1) toolCalls of (toolCalls', n) \<Rightarrow>
               ((content, thinking, toolCalls', None), p1\<lparr>mi_callIndex := n\<rparr>)))"

section \<open>The interface\<close>

definition mi_set_index :: "nat \<Rightarrow> ministral \<Rightarrow> ministral" where
  "mi_set_index n p = p\<lparr>mi_callIndex := n\<rparr>"

definition mi_decode :: "(string \<Rightarrow> 'a option) \<Rightarrow> tool list \<Rightarrow> string \<times> string \<Rightarrow> parse_error + 'a tool_call" where
  "mi_decode u tools = (\<lambda>(name, args).
     case toolByName tools name of
       None \<Rightarrow> Inl (ToolNotFound name)
     | Some tool \<Rightarrow> (case u args of None \<Rightarrow> Inl JSONError | Some v \<Rightarrow> Inr (new_call (tool_name tool) v)))"

lemma ministral_handle_eq:
  "(case ministral_handle u tools ev c t k of
      (c', t', k', Some e) \<Rightarrow> decode_calls (mi_decode u tools) (calls_of ev) = Inl e
    | (c', t', k', None) \<Rightarrow> \<exists>ks. decode_calls (mi_decode u tools) (calls_of ev) = Inr ks
        \<and> c' = c @ content_of ev \<and> t' = t @ thinking_of ev \<and> k' = k @ ks)"
proof (induction u tools ev c t k rule: ministral_handle.induct)
  case (4 u tools name args ev c t k)
  show ?case
  proof (cases "toolByName tools name")
    case None
    then show ?thesis by (simp add: mi_decode_def)
  next
    case (Some tool)
    note n = this
    show ?thesis
    proof (cases "u args")
      case None
      with n show ?thesis by (simp add: mi_decode_def)
    next
      case (Some v)
      then have "mi_decode u tools (name, args) = Inr (new_call (tool_name tool) v)"
        using n by (simp add: mi_decode_def)
      with 4 [OF n Some] n Some show ?thesis by (auto split: option.splits prod.splits)
    qed
  qed
qed (auto split: option.splits prod.splits)

lemma ministral_eat_frame:
  "ministral_eat p = (ev, go, p1) \<Longrightarrow> mi_callIndex p1 = mi_callIndex p \<and> mi_tools p1 = mi_tools p"
  by (cases "mi_state p")
    (auto simp: ministral_eat_def Let_def split: if_splits prod.splits option.splits list.splits)

interpretation mie: text_parser ministral_eat ministral_parseEvents "\<lambda>p. length (mi_buffer p)"
proof (unfold_locales, goal_cases)
  case (1 p)
  show ?case by (subst ministral_parseEvents.simps) (auto split: prod.splits)
qed (rule ministral_progress)

lemma ministral_run_tools: "mi_tools (snd (ministral_parseEvents p)) = mi_tools p"
proof (rule mie.run_invariant)
  fix s0 ev go s1
  assume "mi_tools s0 = mi_tools p" "ministral_eat s0 = (ev, go, s1)"
  then show "mi_tools s1 = mi_tools p" by (simp add: ministral_eat_frame)
qed (rule refl)

interpretation min: numbered_parser ministral_eat ministral_parseEvents "\<lambda>p. length (mi_buffer p)"
  mi_push "\<lambda>p x. ministral_Add u p x d" "\<lambda>p. mi_decode u (mi_tools p)" mi_callIndex mi_set_index for u d
proof (unfold_locales, goal_cases)
  case (1 p x)
  obtain ev p1 where r: "ministral_parseEvents (mi_push p x) = (ev, p1)" by fastforce
  with ministral_run_tools [of "mi_push p x"] have t: "mi_tools p1 = mi_tools p" by (simp add: mi_push_def)
  show ?case
    using ministral_handle_eq [of u "mi_tools p" ev "[]" "[]" "[]"]
    by (auto simp: ministral_Add_def r t mi_set_index_def number_calls_indices
        split: prod.splits option.splits sum.splits) (metis number_calls_indices snd_conv)+
next
  case (3 p ev go p1)
  then show ?case by (simp add: ministral_eat_frame)
qed (simp_all add: mi_push_def mi_set_index_def)

section \<open>Properties\<close>

lemma mi_run_plain:
  assumes "mi_state p = MinistralCollectingContent" "CHR ''['' \<notin> set (mi_buffer p)"
  shows "ministral_parseEvents p = (emit EvContent (trim_right (mi_buffer p)),
    p\<lparr>mi_buffer := drop (length (trim_right (mi_buffer p))) (mi_buffer p)\<rparr>)"
proof -
  have no: "index (mi_buffer p) tag = None" if "hd tag = CHR ''[''" "tag \<noteq> []" for tag
    using that assms(2) index_skip [of tag "mi_buffer p" "[]"] by simp
  have ov: "overlap (mi_buffer p) tag = 0" if "hd tag = CHR ''[''" "tag \<noteq> []" for tag
  proof (rule ccontr)
    assume "overlap (mi_buffer p) tag \<noteq> 0"
    with that have "CHR ''['' \<in> set (take (overlap (mi_buffer p) tag) tag)" by (cases tag) (auto simp: take_Cons')
    with overlap_suffix [of "mi_buffer p" tag] assms(2) show False by (auto dest: set_mono_suffix)
  qed
  have "ministral_eat p = (emit EvContent (trim_right (mi_buffer p)), False,
      p\<lparr>mi_buffer := drop (length (trim_right (mi_buffer p))) (mi_buffer p)\<rparr>)"
    using assms(1) by (simp add: ministral_eat_def Let_def contains_def no ov withhold_0 ministralToolCallsTag_def
        ministralThinkTag_def)
  then show ?thesis by (rule mie.run_stop)
qed

text \<open>
  A tool call given to \<^verbatim>\<open>Add\<close> in the content state is decoded: the text before it is
  content, its arguments are the whole JSON value (brackets and tags inside string literals
  included), a known tool with arguments that decode is returned as a numbered call, an
  unknown tool and arguments that do not decode are errors, and the parser goes on with the
  text after the value.
\<close>

theorem ministral_call_decoded:
  assumes "mi_state p = MinistralCollectingContent" "mi_buffer p = []"
    and "CHR ''['' \<notin> set before" "CHR ''['' \<notin> set name" "CHR ''['' \<notin> set after"
    and "jwf (JGroup op cl items)"
  shows "fst (ministral_Add unmarshal p (before @ ministralToolCallsTag @ name @ ministralArgsTag @
        jprint (JGroup op cl items) @ after) d) =
      (case toolByName (mi_tools p) name of
         None \<Rightarrow> (trim_right before, [], [], Some (ToolNotFound name))
       | Some tool \<Rightarrow> (case unmarshal (jprint (JGroup op cl items)) of
           None \<Rightarrow> (trim_right before, [], [], Some JSONError)
         | Some v \<Rightarrow> (trim_right before @ trim_right after, [],
             [set_index (mi_callIndex p) (new_call (tool_name tool) v)], None)))"
proof -
  let ?g = "jprint (JGroup op cl items)"
  let ?s2 = "?g @ after" let ?s1 = "name @ ministralArgsTag @ ?s2"
  let ?b = "before @ ministralToolCallsTag @ ?s1"
  let ?p1 = "p\<lparr>mi_state := MinistralCollectingToolName, mi_buffer := ?s1\<rparr>"
  let ?p2 = "p\<lparr>mi_state := MinistralCollectingToolArgs, mi_buffer := ?s2, mi_pendingToolName := name\<rparr>"
  let ?p3 = "p\<lparr>mi_state := MinistralCollectingContent, mi_buffer := after, mi_pendingToolName := []\<rparr>"
  let ?p4 = "?p3\<lparr>mi_buffer := drop (length (trim_right after)) after\<rparr>"
  have "index ?b ministralToolCallsTag = Some (length before)"
    using assms(3) by (intro index_fresh) (simp_all add: ministralToolCallsTag_def)
  then have e0: "ministral_eat (mi_push p ?b) = (emit EvContent (trim_right before), True, ?p1)"
    using assms(1,2) by (simp add: ministral_eat_def mi_push_def contains_def splitn2_def)
  have "index ?s1 ministralArgsTag = Some (length name)"
    using assms(4) by (intro index_fresh) (simp_all add: ministralArgsTag_def)
  then have e1: "ministral_eat ?p1 = ([], True, ?p2)"
    by (simp add: ministral_eat_def contains_def splitn2_def)
  have "findJSONEnd ?s2 = Some (length ?g - 1)" "0 < length ?g"
    using json_end_group [of "[]", OF _ assms(6), of after] by simp_all
  then have e2: "ministral_eat ?p2 = ([EvCall (name, ?g)], True, ?p3)"
    by (simp add: ministral_eat_def Let_def del: jprint.simps)
  have r3: "ministral_parseEvents ?p3 = (emit EvContent (trim_right after), ?p4)"
    using mi_run_plain [of ?p3] assms(5) by simp
  have r: "ministral_parseEvents (mi_push p ?b) =
      (emit EvContent (trim_right before) @ [EvCall (name, ?g)] @ emit EvContent (trim_right after), ?p4)"
    by (simp only: mie.run_more [OF e0] mie.run_more [OF e1] mie.run_more [OF e2] r3 fst_conv snd_conv append_Nil)
  have text_step: "ministral_handle unmarshal tools (emit EvContent x @ evs) c t k =
      ministral_handle unmarshal tools evs (c @ x) t k" for tools x evs c t k
    by (simp add: emit_def)
  show ?thesis
    unfolding ministral_Add_def r
    using text_step [of _ "trim_right after" "[]"]
    by (auto simp: text_step number_calls_indices split: option.splits)
qed

definition mi_sample :: "tool \<Rightarrow> ministral" where
  "mi_sample t = \<lparr>mi_state = MinistralCollectingContent, mi_buffer = [], mi_tools = [t], mi_callIndex = 3,
     mi_hasThinkingSupport = True, mi_pendingToolName = []\<rparr>"

definition mi_tool :: tool where
  "mi_tool = \<lparr>tool_Type = ''function'', tool_Items = AnyNil, tool_Function = \<lparr>tf_Name = ''f'', tf_Description = [],
     tf_Parameters = \<lparr>tfp_Type = ''object'', tfp_Defs = AnyNil, tfp_Items = AnyNil, tfp_Required = [],
       tfp_Properties = None\<rparr>\<rparr>\<rparr>"

lemma ministral_call_decoded_witness:
  "fst (ministral_Add (\<lambda>x. Some x) (mi_sample mi_tool)
      (''ok '' @ ministralToolCallsTag @ ''f'' @ ministralArgsTag @ ''{[]}'' @ '' x'') False) =
    (''ok x'', [], [set_index 3 (new_call ''f'' ''{[]}'')], None)"
proof -
  have t: "trim_right ''ok '' = ''ok''" "trim_right '' x'' = '' x''" by code_simp+
  show ?thesis
    using ministral_call_decoded [of "mi_sample mi_tool" "''ok ''" "''f''" "'' x''" "CHR ''{''" "CHR ''}''"
        "[JGroup (CHR ''['') (CHR '']'') []]" "\<lambda>x. Some x" False]
    by (simp add: mi_sample_def mi_tool_def t)
qed

text \<open>
  Over any chunks after \<^verbatim>\<open>Init\<close>, as long as no chunk ends in an error, the calls are
  numbered 0, 1, 2, ... without gaps.
\<close>

theorem ministral_call_indices:
  assumes "feed_add (\<lambda>p x. ministral_Add u p x d) (snd (ministral_Init p tools msg think)) xs = Some ((t, c, ks), p')"
  shows "call_indices ks = [0 ..< length ks] \<and> mi_callIndex p' = length ks"
proof -
  have "mi_callIndex (snd (ministral_Init p tools msg think)) = 0"
    by (auto simp: ministral_Init_def ministral_setInitialState_def Let_def split: option.splits)
  with min.feed_indices [OF assms] show ?thesis by simp
qed

lemma ministral_call_indices_witness:
  "call_indices [set_index 0 (new_call ''f'' ''{1}''), set_index 1 (new_call ''f'' ''{2}'')] =
    [0 ..< length [set_index 0 (new_call ''f'' ''{1}''), set_index 1 (new_call ''f'' ''{2}'')]]"
proof -
  let ?p = "(mi_sample mi_tool)\<lparr>mi_callIndex := 2\<rparr>"
  have "feed_add (\<lambda>p x. ministral_Add (\<lambda>x. Some x) p x False)
      (snd (ministral_Init (mi_sample mi_tool) [mi_tool] (None :: unit message option) None))
      [''t[/THINK][TOOL_CALLS]f[ARGS]{1}[TOOL_'', ''CALLS]f[ARGS]{2}''] =
    Some ((''t'', [], [set_index 0 (new_call ''f'' ''{1}''), set_index 1 (new_call ''f'' ''{2}'')]), ?p)"
    by code_simp
  from ministral_call_indices [OF this] show ?thesis by simp
qed

end
