(* ===== verification/Cohere.thy ===== *)
theory Cohere
  imports TextEvents JsonScan
begin

text \<open>
  model/parsers/cohere.go: the parser of Cohere output. Thinking ends at
  \<^verbatim>\<open><|END_THINKING|>\<close>; then text and action blocks follow. An action block is a JSON array
  of calls; when it does not parse as a whole, its objects are parsed one by one. The two
  uses of \<^verbatim>\<open>json.Unmarshal\<close> (an array of calls, one call) are parameters.
\<close>

section \<open>The parser\<close>

datatype cohere_state =
    CohereCollectingThinking
  | CohereAwaitingBlock
  | CohereCollectingContent
  | CohereCollectingAction

definition cohereStartThinking :: string where "cohereStartThinking = ''<|START_THINKING|>''"
definition cohereEndThinking :: string where "cohereEndThinking = ''<|END_THINKING|>''"
definition cohereStartText :: string where "cohereStartText = ''<|START_TEXT|>''"
definition cohereEndText :: string where "cohereEndText = ''<|END_TEXT|>''"
definition cohereStartAction :: string where "cohereStartAction = ''<|START_ACTION|>''"
definition cohereEndAction :: string where "cohereEndAction = ''<|END_ACTION|>''"
definition cohereEndOfTurn :: string where "cohereEndOfTurn = ''<|END_OF_TURN_TOKEN|>''"
definition cohereStartResponse :: string where "cohereStartResponse = ''<|START_RESPONSE|>''"
definition cohereEndResponse :: string where "cohereEndResponse = ''<|END_RESPONSE|>''"

record cohere =
  co_state :: cohere_state
  co_buffer :: string
  co_callIndex :: nat

definition cohere_PreservedTokens :: "string list" where
  "cohere_PreservedTokens =
     [cohereStartThinking, cohereEndThinking, cohereStartText, cohereEndText, cohereStartAction,
      cohereEndAction, cohereStartResponse, cohereEndResponse]"

definition cohere_Init :: "cohere \<Rightarrow> tool list \<Rightarrow> 'a message option \<Rightarrow> think_value option
    \<Rightarrow> tool list \<times> cohere" where
  "cohere_Init p tools lastMessage thinkValue =
     (let p = p\<lparr>co_buffer := [], co_callIndex := 0\<rparr>;
          thinkingEnabled = (thinkValue = None \<or> think_Bool thinkValue);
          assistantPrefill = (case lastMessage of None \<Rightarrow> False
            | Some m \<Rightarrow> msg_Role m = ''assistant'' \<and> msg_Content m \<noteq> []) in
      (tools, p\<lparr>co_state :=
         (if assistantPrefill then CohereCollectingContent
          else if thinkingEnabled then CohereCollectingThinking
          else CohereAwaitingBlock)\<rparr>))"

record 'a cohere_tool_call =
  ct_ToolCallID :: string
  ct_ToolName :: string
  ct_Parameters :: 'a

definition cohere_toolCall :: "'a cohere_tool_call \<Rightarrow> 'a tool_call" where
  "cohere_toolCall c =
     \<lparr>tc_ID = ct_ToolCallID c,
      tc_Function = \<lparr>tcf_Index = 0, tcf_Name = ct_ToolName c, tcf_Arguments = ct_Parameters c\<rparr>\<rparr>"

text \<open>The loop over the objects: one that does not parse is logged and skipped.\<close>

fun cohere_salvage :: "(string \<Rightarrow> 'a cohere_tool_call option) \<Rightarrow> string list \<Rightarrow> 'a tool_call list" where
  "cohere_salvage unmarshal [] = []"
| "cohere_salvage unmarshal (obj # objs) =
     (case unmarshal obj of
        None \<Rightarrow> cohere_salvage unmarshal objs
      | Some c \<Rightarrow> cohere_toolCall c # cohere_salvage unmarshal objs)"

definition parseCohereActions :: "(string \<Rightarrow> 'a cohere_tool_call list option)
    \<Rightarrow> (string \<Rightarrow> 'a cohere_tool_call option) \<Rightarrow> string \<Rightarrow> 'a tool_call list" where
  "parseCohereActions unmarshal_array unmarshal payload0 =
     (let payload = trim_space payload0 in
      if payload = [] then []
      else case unmarshal_array payload of
        Some parsed \<Rightarrow> map cohere_toolCall parsed
      | None \<Rightarrow> cohere_salvage unmarshal (scanJSONObjects payload))"

definition maybePartialTag :: "string \<Rightarrow> bool" where
  "maybePartialTag s =
     list_ex (\<lambda>tag. length s < length tag \<and> has_prefix tag s)
       [cohereStartText, cohereStartResponse, cohereStartAction, cohereEndOfTurn]"

text \<open>The first of the tags, in the order of the list, that occurs in the buffer, and where.\<close>

fun first_of :: "string \<Rightarrow> string list \<Rightarrow> (nat \<times> string) option" where
  "first_of buf [] = None"
| "first_of buf (tag # tags) =
     (case index buf tag of Some idx \<Rightarrow> Some (idx, tag) | None \<Rightarrow> first_of buf tags)"

definition cohere_eatThinking :: "cohere \<Rightarrow> (string \<times> string \<times> 'a tool_call list) \<times> bool \<times> cohere" where
  "cohere_eatThinking p = (let buf = co_buffer p in
     case index buf cohereEndThinking of
       Some idx \<Rightarrow>
         (([], trim_right (take idx buf), []), True,
          p\<lparr>co_buffer := drop (idx + length cohereEndThinking) buf, co_state := CohereAwaitingBlock\<rparr>)
     | None \<Rightarrow>
         (let keep = overlap buf cohereEndThinking;
              emitEnd = length buf - keep;
              emitEnd = emitEnd - trailing_ws_len (take emitEnd buf) in
          if 0 < emitEnd then (([], take emitEnd buf, []), False, p\<lparr>co_buffer := drop emitEnd buf\<rparr>)
          else (([], [], []), False, p)))"

definition cohere_eatAwaiting :: "cohere \<Rightarrow> bool \<Rightarrow> (string \<times> string \<times> 'a tool_call list) \<times> bool \<times> cohere" where
  "cohere_eatAwaiting p done = (let buf = co_buffer p in
     case first_of buf [cohereStartText, cohereStartResponse] of
       Some (idx, open) \<Rightarrow>
         (([], [], []), True, p\<lparr>co_buffer := drop (idx + length open) buf, co_state := CohereCollectingContent\<rparr>)
     | None \<Rightarrow>
         (case index buf cohereStartAction of
            Some idx \<Rightarrow>
              (([], [], []), True,
               p\<lparr>co_buffer := drop (idx + length cohereStartAction) buf, co_state := CohereCollectingAction\<rparr>)
          | None \<Rightarrow>
              (let trimmed = trim_left buf in
               if has_prefix trimmed cohereEndOfTurn
               then (([], [], []), True, p\<lparr>co_buffer := drop (length cohereEndOfTurn) trimmed\<rparr>)
               else if trimmed = []
               then (([], [], []), False, if done then p\<lparr>co_buffer := []\<rparr> else p)
               else if \<not> done \<and> maybePartialTag trimmed then (([], [], []), False, p)
               else (([], [], []), True, p\<lparr>co_state := CohereCollectingContent, co_buffer := trimmed\<rparr>))))"

definition cohere_eatContent :: "cohere \<Rightarrow> bool \<Rightarrow> (string \<times> string \<times> 'a tool_call list) \<times> bool \<times> cohere" where
  "cohere_eatContent p done = (let buf = co_buffer p in
     case first_of buf [cohereEndText, cohereEndResponse, cohereEndOfTurn] of
       Some (idx, close) \<Rightarrow>
         ((take idx buf, [], []), True,
          p\<lparr>co_buffer := drop (idx + length close) buf, co_state := CohereAwaitingBlock\<rparr>)
     | None \<Rightarrow>
         (let keep = max (overlap buf cohereEndText) (max (overlap buf cohereEndResponse) (overlap buf cohereEndOfTurn));
              emitEnd = length buf - keep;
              (content, p1) = (if 0 < emitEnd then (take emitEnd buf, p\<lparr>co_buffer := drop emitEnd buf\<rparr>)
                               else ([], p)) in
          if done \<and> 0 < length (co_buffer p1)
          then ((content @ co_buffer p1, [], []), False, p1\<lparr>co_buffer := []\<rparr>)
          else ((content, [], []), False, p1)))"

definition cohere_eatAction :: "(string \<Rightarrow> 'a tool_call list) \<Rightarrow> cohere \<Rightarrow> bool
    \<Rightarrow> (string \<times> string \<times> 'a tool_call list) \<times> bool \<times> cohere" where
  "cohere_eatAction actions p done = (let buf = co_buffer p in
     case index buf cohereEndAction of
       Some idx \<Rightarrow>
         (([], [], actions (take idx buf)), True,
          p\<lparr>co_buffer := drop (idx + length cohereEndAction) buf, co_state := CohereAwaitingBlock\<rparr>)
     | None \<Rightarrow>
         if done then (([], [], actions buf), False, p\<lparr>co_buffer := []\<rparr>)
         else (([], [], []), False, p))"

definition cohere_eat :: "(string \<Rightarrow> 'a tool_call list) \<Rightarrow> bool \<Rightarrow> cohere
    \<Rightarrow> (string \<times> string \<times> 'a tool_call list) \<times> bool \<times> cohere" where
  "cohere_eat actions done p =
     (if co_buffer p = [] then (([], [], []), False, p)
      else case co_state p of
        CohereCollectingThinking \<Rightarrow> cohere_eatThinking p
      | CohereAwaitingBlock \<Rightarrow> cohere_eatAwaiting p done
      | CohereCollectingContent \<Rightarrow> cohere_eatContent p done
      | CohereCollectingAction \<Rightarrow> cohere_eatAction actions p done)"

text \<open>
  The loop of \<^verbatim>\<open>Add\<close> ends: a repeated step consumes a tag, or moves from waiting to content
  without growing the buffer.
\<close>

definition co_measure :: "cohere \<Rightarrow> nat" where
  "co_measure p = 2 * length (co_buffer p) + (if co_state p = CohereAwaitingBlock then 1 else 0)"

lemmas co_tag_defs = cohereEndThinking_def cohereStartText_def cohereEndText_def cohereStartAction_def
  cohereEndAction_def cohereEndOfTurn_def cohereStartResponse_def cohereEndResponse_def

lemma co_tags [simp]:
  "cohereEndThinking \<noteq> []" "cohereStartText \<noteq> []" "cohereEndText \<noteq> []"
  "cohereStartAction \<noteq> []" "cohereEndAction \<noteq> []" "cohereEndOfTurn \<noteq> []"
  "cohereStartResponse \<noteq> []" "cohereEndResponse \<noteq> []"
  by (simp_all add: co_tag_defs)

lemma co_cut: "index s tag = Some i \<Longrightarrow> tag \<noteq> [] \<Longrightarrow> Suc (2 * (length s - (i + length tag))) < 2 * length s"
  using index_le [of s tag i] by (cases tag) auto

lemma cohere_progress:
  assumes "cohere_eat actions done p = (out, True, p1)"
  shows "co_measure p1 < co_measure p"
proof (cases "co_state p")
  case CohereCollectingThinking
  with assms show ?thesis
    by (auto dest!: co_cut simp: cohere_eat_def cohere_eatThinking_def co_measure_def Let_def split: if_splits option.splits)
next
  case CohereAwaitingBlock
  with assms show ?thesis
    using length_trim_left [of "co_buffer p"]
    by (auto dest!: co_cut simp: cohere_eat_def cohere_eatAwaiting_def co_measure_def Let_def has_prefix_def prefix_def
        split: if_splits option.splits) (simp_all add: cohereEndOfTurn_def)
next
  case CohereCollectingContent
  with assms show ?thesis
    by (auto dest!: co_cut simp: cohere_eat_def cohere_eatContent_def co_measure_def Let_def split: if_splits option.splits)
next
  case CohereCollectingAction
  with assms show ?thesis
    by (auto dest!: co_cut simp: cohere_eat_def cohere_eatAction_def co_measure_def Let_def split: if_splits option.splits)
qed

function cohere_loop :: "(string \<Rightarrow> 'a tool_call list) \<Rightarrow> bool \<Rightarrow> cohere
    \<Rightarrow> (string \<times> string \<times> 'a tool_call list) \<times> cohere" where
  "cohere_loop actions done p =
     (case cohere_eat actions done p of ((c, t, tc), go, p1) \<Rightarrow>
        if go then (case cohere_loop actions done p1 of ((c', t', tc'), p2) \<Rightarrow> ((c @ c', t @ t', tc @ tc'), p2))
        else ((c, t, tc), p1))"
  by pat_completeness auto
termination
  by (relation "measure (\<lambda>(_, _, p). co_measure p)") (auto dest: cohere_progress [OF sym])

declare cohere_loop.simps [simp del]

definition co_push :: "cohere \<Rightarrow> string \<Rightarrow> cohere" where
  "co_push p x = p\<lparr>co_buffer := co_buffer p @ x\<rparr>"

definition cohere_Add :: "(string \<Rightarrow> 'a tool_call list) \<Rightarrow> cohere \<Rightarrow> string \<Rightarrow> bool \<Rightarrow> 'a add_result \<times> cohere" where
  "cohere_Add actions p s done =
     (case cohere_loop actions done (co_push p s) of ((content, thinking, calls), p1) \<Rightarrow>
        case number_calls (co_callIndex p1) calls of (calls', n) \<Rightarrow>
          ((content, thinking, calls', None), p1\<lparr>co_callIndex := n\<rparr>))"

section \<open>One step of the loop\<close>

lemma cohere_loop_stop:
  "cohere_eat actions done p = (out, False, p1) \<Longrightarrow> cohere_loop actions done p = (out, p1)"
  by (simp add: cohere_loop.simps [of actions "done" p] split: prod.splits)

lemma cohere_loop_more:
  "cohere_eat actions done p = ((c, t, k), True, p1) \<Longrightarrow>
    cohere_loop actions done p =
      ((c @ fst (fst (cohere_loop actions done p1)), t @ fst (snd (fst (cohere_loop actions done p1))),
        k @ snd (snd (fst (cohere_loop actions done p1)))), snd (cohere_loop actions done p1))"
  by (simp add: cohere_loop.simps [of actions "done" p] case_prod_beta)

lemma cohere_induct [case_names step]:
  "(\<And>p. (\<And>out p1. cohere_eat actions done p = (out, True, p1) \<Longrightarrow> P p1) \<Longrightarrow> P p) \<Longrightarrow> P p"
  by (rule measure_induct [where f = co_measure and P = P]) (use cohere_progress in blast)

lemma cohere_loop_index: "co_callIndex (snd (cohere_loop actions done p)) = co_callIndex p"
proof (induction p rule: cohere_induct [of actions "done"])
  case (step p)
  obtain c t k go p1 where e: "cohere_eat actions done p = ((c, t, k), go, p1)" by (metis prod.exhaust)
  then have i: "co_callIndex p1 = co_callIndex p"
    by (auto simp: cohere_eat_def cohere_eatThinking_def cohere_eatAwaiting_def cohere_eatContent_def
        cohere_eatAction_def Let_def split: if_splits option.splits prod.splits cohere_state.splits)
  show ?case
  proof (cases go)
    case True
    with step [of "(c, t, k)" p1] e i show ?thesis by (simp add: cohere_loop_more)
  next
    case False
    with e i show ?thesis by (simp add: cohere_loop_stop)
  qed
qed

text \<open>After the last chunk nothing is left in the buffer, unless thinking never ended.\<close>

lemma cohere_loop_drains:
  assumes "done"
  shows "co_state (snd (cohere_loop actions done p)) = CohereCollectingThinking \<or>
    co_buffer (snd (cohere_loop actions done p)) = []"
proof (induction p rule: cohere_induct [of actions "done"])
  case (step p)
  obtain c t k go p1 where e: "cohere_eat actions done p = ((c, t, k), go, p1)" by (metis prod.exhaust)
  show ?case
  proof (cases go)
    case True
    with step [of "(c, t, k)" p1] e show ?thesis by (simp add: cohere_loop_more)
  next
    case False
    with e have "co_state p1 = CohereCollectingThinking \<or> co_buffer p1 = []"
      using assms
      by (auto simp: cohere_eat_def cohere_eatThinking_def cohere_eatAwaiting_def cohere_eatContent_def
          cohere_eatAction_def Let_def split: if_splits option.splits prod.splits cohere_state.splits)
    with False e show ?thesis by (simp add: cohere_loop_stop)
  qed
qed

text \<open>Content without a closing tag is released up to a possible beginning of one.\<close>

lemma cohere_content_step:
  assumes "co_state p = CohereCollectingContent"
    and "first_of (co_buffer p) [cohereEndText, cohereEndResponse, cohereEndOfTurn] = None"
  shows "\<exists>u v. cohere_loop actions done p = ((u, [], []), p\<lparr>co_buffer := v\<rparr>) \<and> u @ v = co_buffer p \<and>
    (done \<longrightarrow> v = [])"
proof (cases "co_buffer p = []")
  case True
  then have "cohere_eat actions done p = (([], [], []), False, p)" by (simp add: cohere_eat_def)
  from cohere_loop_stop [OF this] True show ?thesis by simp
next
  case False
  let ?k = "max (overlap (co_buffer p) cohereEndText)
    (max (overlap (co_buffer p) cohereEndResponse) (overlap (co_buffer p) cohereEndOfTurn))"
  let ?n = "if done then length (co_buffer p) else length (co_buffer p) - ?k"
  have "cohere_eat actions done p = ((take ?n (co_buffer p), [], []), False, p\<lparr>co_buffer := drop ?n (co_buffer p)\<rparr>)"
    using assms False by (auto simp: cohere_eat_def cohere_eatContent_def Let_def)
  from cohere_loop_stop [OF this] show ?thesis
    by (intro exI [of _ "take ?n (co_buffer p)"] exI [of _ "drop ?n (co_buffer p)"]) simp
qed

lemma first_of_None: "first_of s tags = None \<longleftrightarrow> (\<forall>t \<in> set tags. \<not> contains s t)"
  by (induction tags) (auto simp: contains_def split: option.splits)

lemma contains_suffix: "suffix u s \<Longrightarrow> contains u tag \<Longrightarrow> contains s tag"
  by (metis append.assoc contains_iff suffix_def)

abbreviation cohere_closers :: "string list" where
  "cohere_closers \<equiv> [cohereEndText, cohereEndResponse, cohereEndOfTurn]"

lemma cohere_content_Add:
  assumes "co_state p = CohereCollectingContent"
    and "\<forall>tag \<in> set cohere_closers. \<not> contains (co_buffer p @ x) tag"
  shows "\<exists>u v. cohere_Add actions p x d = ((u, [], [], None), p\<lparr>co_buffer := v\<rparr>) \<and>
    u @ v = co_buffer p @ x \<and> (d \<longrightarrow> v = [])"
proof -
  have "first_of (co_buffer (co_push p x)) cohere_closers = None"
    using assms(2) unfolding first_of_None by (simp add: co_push_def)
  moreover have "co_state (co_push p x) = CohereCollectingContent" using assms(1) by (simp add: co_push_def)
  ultimately obtain u v where "cohere_loop actions d (co_push p x) = ((u, [], []), (co_push p x)\<lparr>co_buffer := v\<rparr>)"
    "u @ v = co_buffer (co_push p x)" "d \<longrightarrow> v = []"
    using cohere_content_step by blast
  then show ?thesis by (auto simp: cohere_Add_def co_push_def)
qed

lemma cohere_content_feed:
  assumes "co_state p = CohereCollectingContent"
    and "\<forall>tag \<in> set cohere_closers. \<not> contains (co_buffer p @ concat xs) tag"
  shows "\<exists>c b. feed_add (\<lambda>p x. cohere_Add actions p x False) p xs = Some (([], c, []), p\<lparr>co_buffer := b\<rparr>) \<and>
    c @ b = co_buffer p @ concat xs"
  using assms
proof (induction xs arbitrary: p)
  case Nil
  then show ?case by simp
next
  case (Cons x xs)
  have "\<forall>tag \<in> set cohere_closers. \<not> contains (co_buffer p @ x) tag"
    using Cons.prems(2) contains_append_left [of "co_buffer p @ x" _ "concat xs"] by auto
  from cohere_content_Add [OF Cons.prems(1) this, of actions False] obtain u v where
    a: "cohere_Add actions p x False = ((u, [], [], None), p\<lparr>co_buffer := v\<rparr>)" and uv: "u @ v = co_buffer p @ x"
    by blast
  let ?p1 = "p\<lparr>co_buffer := v\<rparr>"
  have uvx: "u @ v @ concat xs = co_buffer p @ x @ concat xs" using uv by (metis append.assoc)
  then have "suffix (v @ concat xs) (co_buffer p @ x @ concat xs)" by (metis suffixI)
  then have "\<forall>tag \<in> set cohere_closers. \<not> contains (co_buffer ?p1 @ concat xs) tag"
    using Cons.prems(2) contains_suffix by fastforce
  moreover have "co_state ?p1 = CohereCollectingContent" using Cons.prems(1) by simp
  ultimately obtain c b where
    "feed_add (\<lambda>p x. cohere_Add actions p x False) ?p1 xs = Some (([], c, []), ?p1\<lparr>co_buffer := b\<rparr>)"
    "c @ b = co_buffer ?p1 @ concat xs"
    using Cons.IH [of ?p1] by blast
  with a uvx show ?case by (intro exI [of _ "u @ c"] exI [of _ b]) simp
qed

section \<open>Properties\<close>

text \<open>
  Content is streamed without loss: however the text is cut into chunks, as long as it
  holds no closing tag, what \<^verbatim>\<open>Add\<close> returns before and at the last chunk is the text itself,
  including an unfinished tag that was held back.
\<close>

theorem cohere_content_streamed:
  assumes "co_state p = CohereCollectingContent" "co_buffer p = []"
    and "\<forall>tag \<in> set cohere_closers. \<not> contains (concat xs @ x) tag"
  shows "\<exists>c p1 c'. feed_add (\<lambda>p x. cohere_Add actions p x False) p xs = Some (([], c, []), p1) \<and>
    cohere_Add actions p1 x True = ((c', [], [], None), p) \<and> c @ c' = concat xs @ x"
proof -
  have "\<forall>tag \<in> set cohere_closers. \<not> contains (co_buffer p @ concat xs) tag"
    using assms(2,3) by (auto dest: contains_append_left [of "concat xs" _ x])
  from cohere_content_feed [OF assms(1) this, of actions] obtain c b where
    f: "feed_add (\<lambda>p x. cohere_Add actions p x False) p xs = Some (([], c, []), p\<lparr>co_buffer := b\<rparr>)"
    and cb: "c @ b = concat xs" using assms(2) by auto
  let ?p1 = "p\<lparr>co_buffer := b\<rparr>"
  have "suffix (b @ x) (concat xs @ x)" unfolding cb [symmetric] by (simp add: suffix_def)
  then have "\<forall>tag \<in> set cohere_closers. \<not> contains (co_buffer ?p1 @ x) tag"
    using assms(3) contains_suffix by fastforce
  from cohere_content_Add [OF _ this, of actions True] assms(1)
  have "cohere_Add actions ?p1 x True = ((b @ x, [], [], None), p\<lparr>co_buffer := []\<rparr>)" by auto
  moreover have "p\<lparr>co_buffer := []\<rparr> = p" using assms(2) by simp
  ultimately have "cohere_Add actions ?p1 x True = ((b @ x, [], [], None), p)" by simp
  with f cb show ?thesis by (metis append.assoc)
qed

definition co_sample :: cohere where
  "co_sample = \<lparr>co_state = CohereCollectingContent, co_buffer = [], co_callIndex = 0\<rparr>"

lemma cohere_content_streamed_witness:
  "\<exists>c p1 c'. feed_add (\<lambda>p x. cohere_Add (\<lambda>_. [new_call ''f'' ()]) p x False) co_sample [''a <|END'', ''_T''] =
      Some (([], c, []), p1) \<and>
    cohere_Add (\<lambda>_. [new_call ''f'' ()]) p1 ''EX'' True = ((c', [], [], None), co_sample) \<and>
    c @ c' = ''a <|END_TEX''"
proof -
  have "\<forall>tag \<in> set cohere_closers. \<not> contains (concat [''a <|END'', ''_T''] @ ''EX'') tag" by code_simp
  from cohere_content_streamed [OF _ _ this, of co_sample] show ?thesis by (simp add: co_sample_def)
qed

text \<open>
  The last chunk drains the parser: after a call of \<^verbatim>\<open>Add\<close> with \<^verbatim>\<open>done\<close> nothing is left in
  the buffer, unless the model never closed its thinking; the calls returned are numbered on
  from the counter of the parser.
\<close>

theorem cohere_done_drains:
  assumes "cohere_Add actions p x True = ((c, t, ks, err), p1)"
  shows "(co_state p1 \<noteq> CohereCollectingThinking \<longrightarrow> co_buffer p1 = []) \<and> err = None \<and>
    call_indices ks = [co_callIndex p ..< co_callIndex p1] \<and> length ks = co_callIndex p1 - co_callIndex p"
proof -
  obtain c0 t0 k0 p0 where l: "cohere_loop actions True (co_push p x) = ((c0, t0, k0), p0)"
    by (metis prod.exhaust)
  with cohere_loop_index [of actions True "co_push p x"] have i: "co_callIndex p0 = co_callIndex p"
    by (simp add: co_push_def)
  from assms l have "ks = fst (number_calls (co_callIndex p0) k0)" "err = None"
    "p1 = p0\<lparr>co_callIndex := snd (number_calls (co_callIndex p0) k0)\<rparr>"
    by (auto simp: cohere_Add_def split: prod.splits)
  then show ?thesis
    using cohere_loop_drains [of True actions "co_push p x"] l i by (auto simp: number_calls_indices)
qed

lemma cohere_done_drains_witness:
  "(co_state co_sample \<noteq> CohereCollectingThinking) \<and> co_buffer co_sample = [] \<and>
    call_indices ([] :: unit tool_call list) = [co_callIndex co_sample ..< co_callIndex co_sample]"
proof -
  have "cohere_Add (\<lambda>_. [new_call ''f'' ()]) co_sample ''a<|'' True = ((''a<|'', [], [], None), co_sample)"
    by code_simp
  from cohere_done_drains [OF this] show ?thesis by (simp add: co_sample_def)
qed

text \<open>
  One malformed call does not drop its siblings: when the array as a whole does not
  parse, each complete object of it is parsed on its own, in order, and those that parse are
  the calls, also when the array is cut off.
\<close>

theorem cohere_siblings_survive:
  assumes "list_all jtop items" "CHR ''}'' \<notin> set tail"
    and "trim_space payload = concat (map jprint items) @ tail"
    and "unmarshal_array (trim_space payload) = None"
  shows "parseCohereActions unmarshal_array unmarshal payload =
    map cohere_toolCall (List.map_filter unmarshal (concat (map jobjects items)))"
proof -
  have sal: "cohere_salvage unmarshal os = map cohere_toolCall (List.map_filter unmarshal os)" for os
    by (induction os) (auto simp: List.map_filter_simps split: option.splits)
  note objects = scan_complete [OF assms(1,2), folded assms(3)]
  show ?thesis
  proof (cases "trim_space payload = []")
    case True
    then have none: "concat (map jobjects items) = []" using objects by (simp add: scanJSONObjects_def)
    show ?thesis unfolding none using True by (simp add: parseCohereActions_def List.map_filter_simps)
  next
    case False
    with assms(4) objects sal show ?thesis by (simp add: parseCohereActions_def)
  qed
qed

definition co_unmarshal :: "string \<Rightarrow> string cohere_tool_call option" where
  "co_unmarshal s = (if s = ''{1}'' then Some \<lparr>ct_ToolCallID = ''0'', ct_ToolName = ''f'', ct_Parameters = s\<rparr> else None)"

lemma cohere_siblings_survive_witness:
  "parseCohereActions (\<lambda>_. None) co_unmarshal '' [{x} {1},{1'' =
    [cohere_toolCall \<lparr>ct_ToolCallID = ''0'', ct_ToolName = ''f'', ct_Parameters = ''{1}''\<rparr>]"
proof -
  let ?a = "JGroup (CHR ''{'') (CHR ''}'') [JPlain (CHR ''x'')]"
  let ?b = "JGroup (CHR ''{'') (CHR ''}'') [JPlain (CHR ''1'')]"
  let ?items = "[JPlain (CHR ''[''), ?a, JPlain (CHR '' ''), ?b, JPlain (CHR '','')]"
  have t: "trim_space '' [{x} {1},{1'' = concat (map jprint ?items) @ ''{1''" by code_simp
  have "parseCohereActions (\<lambda>_. None) co_unmarshal '' [{x} {1},{1'' =
      map cohere_toolCall (List.map_filter co_unmarshal (concat (map jobjects ?items)))"
    by (rule cohere_siblings_survive [OF _ _ t]) simp_all
  then show ?thesis by (simp add: co_unmarshal_def List.map_filter_simps)
qed

definition co_waiting :: cohere where
  "co_waiting = \<lparr>co_state = CohereAwaitingBlock, co_buffer = [], co_callIndex = 0\<rparr>"

definition co_block :: string where
  "co_block = cohereStartAction @ ''[]'' @ cohereEndAction"

definition co_text :: string where
  "co_text = cohereStartText @ ''hi'' @ cohereEndText"

text \<open>
  A call can be lost: while waiting for a block, an opening text tag anywhere in the
  buffer is looked for before an action tag. When an action block and a text block arrive in
  one chunk the call is dropped; in two chunks it is returned.
\<close>

theorem cohere_call_lost:
  "feed_add (\<lambda>p x. cohere_Add (\<lambda>_. [new_call ''f'' ()]) p x False) co_waiting [co_block @ co_text] =
     Some (([], ''hi'', []), co_waiting) \<and>
   feed_add (\<lambda>p x. cohere_Add (\<lambda>_. [new_call ''f'' ()]) p x False) co_waiting [co_block, co_text] =
     Some (([], ''hi'', [new_call ''f'' ()]), co_waiting\<lparr>co_callIndex := 1\<rparr>)"
  by (intro conjI; code_simp)

end
