(* ===== verification/Olmo3Think.thy ===== *)
theory Olmo3Think
  imports TextEvents
begin

text \<open>
  model/parsers/olmo3_think.go: the parser of the OLMo 3 thinking models, which always think
  first and make no tool calls.
\<close>

section \<open>The parser\<close>

datatype olmo3_think_state = Olmo3CollectingThink | Olmo3CollectingContent

definition olmo3ThinkCloseTag :: string where "olmo3ThinkCloseTag = ''</think>''"

record olmo3_think =
  ot_state :: olmo3_think_state
  ot_buffer :: string

definition olmo3_think_HasToolSupport :: bool where "olmo3_think_HasToolSupport = False"
definition olmo3_think_HasThinkingSupport :: bool where "olmo3_think_HasThinkingSupport = True"

definition olmo3_think_PreservedTokens :: "string list" where
  "olmo3_think_PreservedTokens = [olmo3ThinkCloseTag]"

definition olmo3_think_setInitialState :: "olmo3_think \<Rightarrow> 'a message option \<Rightarrow> olmo3_think" where
  "olmo3_think_setInitialState p lastMessage =
     (let prefill = (case lastMessage of None \<Rightarrow> False | Some m \<Rightarrow> msg_Role m = ''assistant'') in
      if prefill \<and> (case lastMessage of None \<Rightarrow> False | Some m \<Rightarrow> msg_Content m \<noteq> [])
      then p\<lparr>ot_state := Olmo3CollectingContent\<rparr>
      else p\<lparr>ot_state := Olmo3CollectingThink\<rparr>)"

definition olmo3_think_Init :: "olmo3_think \<Rightarrow> tool list \<Rightarrow> 'a message option \<Rightarrow> think_value option
    \<Rightarrow> tool list \<times> olmo3_think" where
  "olmo3_think_Init p tools lastMessage thinkValue = (tools, olmo3_think_setInitialState p lastMessage)"

definition olmo3_think_eat :: "olmo3_think \<Rightarrow> unit parser_event list \<times> bool \<times> olmo3_think" where
  "olmo3_think_eat p = (let bufStr = ot_buffer p in
     if bufStr = [] then ([], False, p)
     else case ot_state p of
       Olmo3CollectingThink \<Rightarrow>
         if contains bufStr olmo3ThinkCloseTag then
           (case splitn2 bufStr olmo3ThinkCloseTag of
              [before, after] \<Rightarrow>
                (let thinking = trim_right before; remaining = trim_left after in
                 (emit EvThinking thinking, True,
                  p\<lparr>ot_buffer := remaining, ot_state := Olmo3CollectingContent\<rparr>))
            | _ \<Rightarrow> ([], False, p))
         else let overlapLen = overlap bufStr olmo3ThinkCloseTag in
           if 0 < overlapLen then
             (case withhold bufStr overlapLen of (unambiguous, ambiguous) \<Rightarrow>
                (emit EvThinking unambiguous, False, p\<lparr>ot_buffer := ambiguous\<rparr>))
           else
             (case withhold bufStr 0 of (unambiguous, ambiguous) \<Rightarrow>
                (emit EvThinking unambiguous, False, p\<lparr>ot_buffer := ambiguous\<rparr>))
     | Olmo3CollectingContent \<Rightarrow> (emit EvContent bufStr, False, p\<lparr>ot_buffer := []\<rparr>))"

lemma ot_tag [simp]: "olmo3ThinkCloseTag \<noteq> []"
  by (simp add: olmo3ThinkCloseTag_def)

lemma olmo3_think_progress:
  "olmo3_think_eat p = (ev, True, p1) \<Longrightarrow> length (ot_buffer p1) < length (ot_buffer p)"
  using drop_trim_shorter [of "ot_buffer p" olmo3ThinkCloseTag _ 0]
  by (auto simp: olmo3_think_eat_def Let_def contains_def splitn2_def
      split: if_splits option.splits prod.splits olmo3_think_state.splits)

function olmo3_think_parseEvents :: "olmo3_think \<Rightarrow> unit parser_event list \<times> olmo3_think" where
  "olmo3_think_parseEvents p =
     (case olmo3_think_eat p of (events, keepLooping, p1) \<Rightarrow>
        if keepLooping then (case olmo3_think_parseEvents p1 of (all, p2) \<Rightarrow> (events @ all, p2))
        else (events, p1))"
  by pat_completeness auto
termination by (relation "measure (\<lambda>p. length (ot_buffer p))") (auto dest: olmo3_think_progress [OF sym])

declare olmo3_think_parseEvents.simps [simp del]

definition ot_push :: "olmo3_think \<Rightarrow> string \<Rightarrow> olmo3_think" where
  "ot_push p x = p\<lparr>ot_buffer := ot_buffer p @ x\<rparr>"

definition olmo3_think_Add :: "olmo3_think \<Rightarrow> string \<Rightarrow> bool \<Rightarrow> 'a add_result \<times> olmo3_think" where
  "olmo3_think_Add p s done =
     (case olmo3_think_parseEvents (ot_push p s) of (events, p1) \<Rightarrow>
        ((content_of events, thinking_of events, [], None), p1))"

section \<open>What one chunk yields\<close>

interpretation ote: text_parser olmo3_think_eat olmo3_think_parseEvents "\<lambda>p. length (ot_buffer p)"
proof (unfold_locales, goal_cases)
  case (1 p)
  show ?case by (subst olmo3_think_parseEvents.simps) (auto split: prod.splits)
qed (rule olmo3_think_progress)

lemma ot_run_content:
  assumes "ot_state p = Olmo3CollectingContent"
  shows "olmo3_think_parseEvents p = (emit EvContent (ot_buffer p), p\<lparr>ot_buffer := []\<rparr>)"
proof -
  have "olmo3_think_eat p = (emit EvContent (ot_buffer p), False, p\<lparr>ot_buffer := []\<rparr>)"
    using assms by (cases p) (simp add: olmo3_think_eat_def Let_def)
  then show ?thesis by (rule ote.run_stop)
qed

lemma ot_run_found:
  assumes "ot_state p = Olmo3CollectingThink" "index (ot_buffer p) olmo3ThinkCloseTag = Some i"
  shows "olmo3_think_parseEvents p =
    (emit EvThinking (trim_right (take i (ot_buffer p))) @
     emit EvContent (trim_left (drop (i + length olmo3ThinkCloseTag) (ot_buffer p))),
     p\<lparr>ot_state := Olmo3CollectingContent, ot_buffer := []\<rparr>)"
proof -
  let ?p1 = "p\<lparr>ot_state := Olmo3CollectingContent,
    ot_buffer := trim_left (drop (i + length olmo3ThinkCloseTag) (ot_buffer p))\<rparr>"
  have "ot_buffer p \<noteq> []" using assms(2) by (cases "ot_buffer p") (auto split: if_splits)
  then have "olmo3_think_eat p = (emit EvThinking (trim_right (take i (ot_buffer p))), True, ?p1)"
    using assms by (simp add: olmo3_think_eat_def Let_def contains_def splitn2_def)
  from ote.run_more [OF this] show ?thesis by (simp add: ot_run_content [of ?p1])
qed

lemma ot_run_open:
  assumes "ot_state p = Olmo3CollectingThink" "index (ot_buffer p) olmo3ThinkCloseTag = None"
    and "withhold (ot_buffer p) (overlap (ot_buffer p) olmo3ThinkCloseTag) = (u, h)"
  shows "olmo3_think_parseEvents p = (emit EvThinking u, p\<lparr>ot_buffer := h\<rparr>)"
proof -
  have "olmo3_think_eat p = (emit EvThinking u, False, p\<lparr>ot_buffer := h\<rparr>)"
  proof (cases "ot_buffer p = []")
    case True
    with assms(3) have "u = []" "h = []" by (simp_all add: withhold_def Let_def)
    with True show ?thesis by (cases p) (simp add: olmo3_think_eat_def)
  next
    case False
    with assms show ?thesis by (auto simp: olmo3_think_eat_def contains_def Let_def split: prod.splits)
  qed
  then show ?thesis by (rule ote.run_stop)
qed

text \<open>In the content state every chunk is passed through.\<close>

lemma ot_feed_content:
  "ot_state p = Olmo3CollectingContent \<Longrightarrow> ot_buffer p = [] \<Longrightarrow>
    feed_add (\<lambda>p x. olmo3_think_Add p x d) p xs = Some (([], concat xs, [] :: 'a tool_call list), p)"
proof (induction xs)
  case (Cons x xs)
  have "olmo3_think_Add p x d = ((x, [], [] :: 'a tool_call list, None), p)"
    using Cons.prems ot_run_content [of "ot_push p x"] by (simp add: olmo3_think_Add_def ot_push_def)
  with Cons show ?case by simp
qed simp

text \<open>The text so far is \<open>b\<close>, what was held back of it is \<open>h\<close>; the chunks \<open>xs\<close> follow.\<close>

lemma ot_feed_thinking:
  assumes "ot_state p = Olmo3CollectingThink" "whole (ot_buffer p)" "\<forall>x \<in> set xs. whole x"
    and "feed_add (\<lambda>p x. olmo3_think_Add p x d) p xs = Some ((t, c, k), p')"
    and "index (ot_buffer p) olmo3ThinkCloseTag = None"
    and "withhold (ot_buffer p) (overlap (ot_buffer p) olmo3ThinkCloseTag) = ([], ot_buffer p)"
  shows "(case index (ot_buffer p @ concat xs) olmo3ThinkCloseTag of
      None \<Rightarrow> (t, ot_buffer p') = withhold (ot_buffer p @ concat xs)
          (overlap (ot_buffer p @ concat xs) olmo3ThinkCloseTag) \<and> c = []
    | Some i \<Rightarrow> t = trim_right (take i (ot_buffer p @ concat xs)) \<and>
        (\<exists>w. ws w \<and> drop (i + length olmo3ThinkCloseTag) (ot_buffer p @ concat xs) = w @ c))"
  using assms
proof (induction xs arbitrary: p t c k)
  case Nil
  then show ?case by simp
next
  case (Cons x xs)
  let ?tag = olmo3ThinkCloseTag
  let ?b = "ot_buffer p @ x"
  let ?y = "concat xs"
  have w: "whole ?b" using Cons.prems(2,3) by (simp add: whole_append)
  from Cons.prems(4) obtain t1 c1 k1 p1 t2 c2 k2 where
    f: "add_ok (olmo3_think_Add p x d) = Some ((t1, c1, k1), p1)"
      "feed_add (\<lambda>p x. olmo3_think_Add p x d) p1 xs = Some ((t2, c2, k2), p')"
      "t = t1 @ t2" "c = c1 @ c2" "k = k1 @ k2"
    by (rule feed_add_Cons)
  show ?case
  proof (cases "index ?b ?tag")
    case (Some i)
    let ?r = "drop (i + length ?tag) ?b"
    have le: "i + length ?tag \<le> length ?b" by (rule index_le [OF Some])
    have "olmo3_think_parseEvents (ot_push p x) = (emit EvThinking (trim_right (take i ?b)) @
        emit EvContent (trim_left ?r), p\<lparr>ot_state := Olmo3CollectingContent, ot_buffer := []\<rparr>)"
      using ot_run_found [of "ot_push p x" i] Cons.prems(1) Some by (simp add: ot_push_def)
    with f(1) have o: "t1 = trim_right (take i ?b)" "c1 = trim_left ?r"
      "p1 = p\<lparr>ot_state := Olmo3CollectingContent, ot_buffer := []\<rparr>"
      by (auto simp: olmo3_think_Add_def)
    with f(2) have r: "t2 = []" "c2 = ?y" by (simp_all add: ot_feed_content)
    obtain v where "ws v" "?r = v @ trim_left ?r" using trim_left_split by blast
    with index_append_left [OF Some, of ?y] le o r f(3,4) show ?thesis by auto
  next
    case None
    obtain u h where uh: "withhold ?b (overlap ?b ?tag) = (u, h)" by fastforce
    have ts: "tag_start ?b (overlap ?b ?tag)"
      by (rule tag_start_overlap) (simp add: olmo3ThinkCloseTag_def cont_byte_def in_range_def)
    note kept = withhold_kept [OF ts uh]
    have "olmo3_think_parseEvents (ot_push p x) = (emit EvThinking u, p\<lparr>ot_buffer := h\<rparr>)"
      using ot_run_open [of "ot_push p x" u h] Cons.prems(1) None uh by (simp add: ot_push_def)
    with f(1) have o: "t1 = u" "c1 = []" "p1 = p\<lparr>ot_buffer := h\<rparr>" by (auto simp: olmo3_think_Add_def)
    note scan = withhold_scan [OF None order.refl ts uh]
    note cut = withhold_trim [OF w ts uh] withhold_again [OF w ts uh]
    have no: "index h ?tag = None" and ov: "overlap h ?tag = overlap ?b ?tag"
      using scan [of "[]"] None by (simp_all split: option.splits)
    have again: "withhold h (overlap h ?tag) = ([], h)"
    proof -
      have "(u, h) = (u @ fst (withhold h (overlap h ?tag)), snd (withhold h (overlap h ?tag)))"
        using cut(2) [of "overlap h ?tag" "[]"] overlap_le(1) [of h ?tag] uh ov by simp
      then show ?thesis by (simp add: prod_eq_iff)
    qed
    have wh: "whole h" using withhold_whole [OF w uh] .
    have IH: "case index (h @ ?y) ?tag of
        None \<Rightarrow> (t2, ot_buffer p') = withhold (h @ ?y) (overlap (h @ ?y) ?tag) \<and> c2 = []
      | Some i \<Rightarrow> t2 = trim_right (take i (h @ ?y)) \<and> (\<exists>w. ws w \<and> drop (i + length ?tag) (h @ ?y) = w @ c2)"
    proof -
      have p1: "ot_buffer p1 = h" "ot_state p1 = Olmo3CollectingThink" "\<forall>x \<in> set xs. whole x"
        using o(3) Cons.prems(1,3) by simp_all
      show ?thesis
        using Cons.IH [OF p1(2) _ p1(3) f(2)] wh no again unfolding p1(1) by blast
    qed
    have bx: "ot_buffer p @ concat (x # xs) = ?b @ ?y" by simp
    show ?thesis
    proof (cases "index (h @ ?y) ?tag")
      case (Some i)
      have "drop (length u + i + length ?tag) (?b @ ?y) = drop (i + length ?tag) (h @ ?y)"
        unfolding kept(2) by (simp add: add.assoc)
      with Some IH scan(1) [of ?y] cut(1) [of i ?y] f(3,4) o show ?thesis unfolding bx
        by (simp del: append_assoc)
    next
      case None
      with IH scan [of ?y] cut(2) [OF overlap_le(1), of ?y] f(3,4) o show ?thesis unfolding bx
        by (simp add: prod_eq_iff del: append_assoc)
    qed
  qed
qed

section \<open>Properties\<close>

text \<open>
  The thinking of an OLMo 3 answer does not depend on how it is cut into chunks (each
  ending at a character): once the closing tag has arrived it is the text before the tag
  without trailing white space, and the content is the text after the tag up to leading
  white space. Before that the thinking returned is all but a possible beginning of the tag
  and the white space before it, which stay in the buffer.
\<close>

theorem olmo3_thinking_exact:
  assumes "\<not> (\<exists>m. msg = Some m \<and> msg_Role m = ''assistant'' \<and> msg_Content m \<noteq> [])"
    and "ot_buffer p = []" "\<forall>x \<in> set xs. whole x"
    and "feed_add (\<lambda>p x. olmo3_think_Add p x d) (snd (olmo3_think_Init p tools msg think)) xs = Some ((t, c, k), p')"
  shows "(case index (concat xs) olmo3ThinkCloseTag of
      None \<Rightarrow> (t, ot_buffer p') = withhold (concat xs) (overlap (concat xs) olmo3ThinkCloseTag) \<and> c = []
    | Some i \<Rightarrow> t = trim_right (take i (concat xs)) \<and>
        (\<exists>w. ws w \<and> drop (i + length olmo3ThinkCloseTag) (concat xs) = w @ c))"
proof -
  let ?p = "snd (olmo3_think_Init p tools msg think)"
  have s: "ot_state ?p = Olmo3CollectingThink" and b: "ot_buffer ?p = []"
    using assms(1,2) by (auto simp: olmo3_think_Init_def olmo3_think_setInitialState_def Let_def
        split: option.splits)
  have h: "withhold [] (overlap [] olmo3ThinkCloseTag) = ([], [])" by (simp add: withhold_def Let_def)
  have "whole (ot_buffer ?p)" "index (ot_buffer ?p) olmo3ThinkCloseTag = None"
    "withhold (ot_buffer ?p) (overlap (ot_buffer ?p) olmo3ThinkCloseTag) = ([], ot_buffer ?p)"
    by (simp_all add: b h)
  from ot_feed_thinking [OF s this(1) assms(3,4) this(2,3)] show ?thesis unfolding b append_Nil .
qed

lemma olmo3_thinking_exact_witness:
  "''a b'' = trim_right (take 4 (concat [''a'', '' b </th'', ''ink> c'', ''d''])) \<and>
    (\<exists>w. ws w \<and> drop 12 (concat [''a'', '' b </th'', ''ink> c'', ''d'']) = w @ ''cd'')"
proof -
  let ?p = "\<lparr>ot_state = Olmo3CollectingContent, ot_buffer = []\<rparr>"
  let ?xs = "[''a'', '' b </th'', ''ink> c'', ''d'']"
  have f: "feed_add (\<lambda>p x. olmo3_think_Add p x False)
      (snd (olmo3_think_Init ?p [] (None :: unit message option) None)) ?xs =
    Some ((''a b'', ''cd'', [] :: unit tool_call list), ?p)" by code_simp
  have w: "\<forall>x \<in> set ?xs. whole x" by (auto intro!: whole_ascii_end)
  have i: "index (concat ?xs) olmo3ThinkCloseTag = Some 4" by code_simp
  from olmo3_thinking_exact [OF _ _ w f] i show ?thesis by (simp add: olmo3ThinkCloseTag_def)
qed

end
