(* ===== verification/CacheTrie.thy ===== *)
theory CacheTrie
  imports "HOL-Library.Word" "HOL-Library.Sublist" "HOL-Library.Code_Target_Nat" "HOL-Library.Code_Target_Int"
begin

text \<open>
  x/mlxrunner/cache_trie.go: the compressed prefix trie under the prompt cache. The nodes of
  the Go program are structs linked by parent and child pointers, so the model is a store
  from addresses to nodes: an operation reads and updates the store, and that the pointers
  form a trie is an invariant, not a part of the types. A node taken out of the trie leaves
  the store. A panic is the result \<^const>\<open>None\<close>.

  The snapshots a node holds, one per cache layer, belong to implementations of the
  interfaces \<open>Cache\<close> and \<open>Snapshot\<close> over device arrays; what the trie calls of them is the
  record \<open>layers\<close>: the size of a snapshot in bytes, and splitting and merging in each layer.
  The counter of paged-out bytes the Go functions get as a pointer is a field of the store.
  A lazy snapshot has size 0 until it is materialised, which \<open>materialize\<close> models.
\<close>

section \<open>Nodes and the store\<close>

type_synonym trie_key = "64 word"

record 'snap trie_node =
  tn_tokens :: "trie_key list"
  tn_endOffset :: int
  tn_parent :: "nat option"
  tn_children :: "nat list"
  tn_lastUsed :: int
  tn_snapshots :: "'snap option list"
  tn_user :: bool

record 'snap trie =
  tr_nodes :: "nat \<Rightarrow> 'snap trie_node option"
  tr_next :: nat
  tr_counter :: int

record 'snap layers =
  la_size :: "'snap \<Rightarrow> int"
  la_split :: "nat \<Rightarrow> 'snap \<Rightarrow> int \<Rightarrow> 'snap option \<times> 'snap option"
  la_merge :: "nat \<Rightarrow> 'snap option \<Rightarrow> 'snap option \<Rightarrow> 'snap option"
  la_count :: nat

definition node_at :: "'snap trie \<Rightarrow> nat \<Rightarrow> 'snap trie_node" where
  "node_at t n = the (tr_nodes t n)"

definition upd :: "nat \<Rightarrow> ('snap trie_node \<Rightarrow> 'snap trie_node) \<Rightarrow> 'snap trie \<Rightarrow> 'snap trie" where
  "upd n f t = t\<lparr>tr_nodes := (tr_nodes t)(n := map_option f (tr_nodes t n))\<rparr>"

definition alloc :: "'snap trie_node \<Rightarrow> 'snap trie \<Rightarrow> nat \<times> 'snap trie" where
  "alloc nd t = (tr_next t, t\<lparr>tr_nodes := (tr_nodes t)(tr_next t \<mapsto> nd), tr_next := tr_next t + 1\<rparr>)"

definition drop_node :: "nat \<Rightarrow> 'snap trie \<Rightarrow> 'snap trie" where
  "drop_node n t = t\<lparr>tr_nodes := (tr_nodes t)(n := None)\<rparr>"

definition startOffset :: "'snap trie_node \<Rightarrow> int" where
  "startOffset n = tn_endOffset n - int (length (tn_tokens n))"

definition snaps_bytes :: "'snap layers \<Rightarrow> 'snap option list \<Rightarrow> int" where
  "snaps_bytes L snaps = sum_list (map (\<lambda>s. case s of None \<Rightarrow> 0 | Some s \<Rightarrow> la_size L s) snaps)"

definition snapshotBytes :: "'snap layers \<Rightarrow> 'snap trie_node \<Rightarrow> int" where
  "snapshotBytes L n = snaps_bytes L (tn_snapshots n)"

definition swapSnapshots :: "'snap layers \<Rightarrow> nat \<Rightarrow> 'snap option list \<Rightarrow> 'snap trie
    \<Rightarrow> 'snap option list \<times> 'snap trie" where
  "swapSnapshots L n snaps t =
     (let old = tn_snapshots (node_at t n);
          t1 = t\<lparr>tr_counter := tr_counter t - snapshotBytes L (node_at t n)\<rparr>;
          t2 = upd n (\<lambda>nd. nd\<lparr>tn_snapshots := snaps\<rparr>) t1 in
      (old, t2\<lparr>tr_counter := tr_counter t2 + snapshotBytes L (node_at t2 n)\<rparr>))"

definition setSnapshots :: "'snap layers \<Rightarrow> nat \<Rightarrow> 'snap option list \<Rightarrow> 'snap trie \<Rightarrow> 'snap trie" where
  "setSnapshots L n snaps t = snd (swapSnapshots L n snaps t)"

text \<open>The hook of a lazy snapshot: layer \<open>j\<close> of the node becomes \<open>s\<close> and its growth is counted.\<close>

definition materialize :: "'snap layers \<Rightarrow> nat \<Rightarrow> nat \<Rightarrow> 'snap \<Rightarrow> 'snap trie \<Rightarrow> 'snap trie" where
  "materialize L n j s t =
     (let old = tn_snapshots (node_at t n);
          t1 = upd n (\<lambda>nd. nd\<lparr>tn_snapshots := (tn_snapshots nd)[j := Some s]\<rparr>) t in
      t1\<lparr>tr_counter := tr_counter t1 + (la_size L s - (case old ! j of None \<Rightarrow> 0 | Some x \<Rightarrow> la_size L x))\<rparr>)"

definition hasSnapshots :: "'snap trie_node \<Rightarrow> bool" where
  "hasSnapshots n = list_ex (\<lambda>s. s \<noteq> None) (tn_snapshots n)"

definition hasAllSnapshots :: "'snap trie_node \<Rightarrow> bool" where
  "hasAllSnapshots n \<longleftrightarrow> 0 < length (tn_snapshots n) \<and> None \<notin> set (tn_snapshots n)"

section \<open>Searching\<close>

fun match_len :: "trie_key list \<Rightarrow> trie_key list \<Rightarrow> nat" where
  "match_len (x # xs) (y # ys) = (if x = y then Suc (match_len xs ys) else 0)"
| "match_len _ _ = 0"

text \<open>The loop over the children of a node: the best one so far, what it matches, and whether fully.\<close>

fun best_child :: "'snap trie \<Rightarrow> trie_key list \<Rightarrow> nat list \<Rightarrow> (nat \<times> nat \<times> bool) option
    \<Rightarrow> (nat \<times> nat \<times> bool) option" where
  "best_child t tokens [] best = best"
| "best_child t tokens (child # children) best =
     (let edge = tn_tokens (node_at t child) in
      if edge = [] then best_child t tokens children best
      else if hd edge \<noteq> hd tokens then best_child t tokens children best
      else let j = match_len edge tokens; full = (j = length edge) in
        best_child t tokens children
          (case best of
             None \<Rightarrow> Some (child, j, full)
           | Some (b, bestMatched, bestFull) \<Rightarrow>
               if full \<and> \<not> bestFull \<or> full = bestFull \<and> bestMatched < j then Some (child, j, full)
               else best))"

lemma match_len_pos: "xs \<noteq> [] \<Longrightarrow> ys \<noteq> [] \<Longrightarrow> hd xs = hd ys \<Longrightarrow> 0 < match_len xs ys"
  by (cases xs; cases ys) auto

lemma best_child_pos:
  "best_child t tokens cs best = Some (b, j, full) \<Longrightarrow> tokens \<noteq> [] \<Longrightarrow>
    (\<And>b j full. best = Some (b, j, full) \<Longrightarrow> 0 < j) \<Longrightarrow> 0 < j"
  by (induction t tokens cs best rule: best_child.induct)
    (auto simp: Let_def match_len_pos split: if_splits option.splits)

function find_loop :: "'snap trie \<Rightarrow> nat \<Rightarrow> trie_key list \<Rightarrow> nat list \<times> nat" where
  "find_loop t n tokens =
     (if tokens = [] then ([], 0)
      else case best_child t tokens (tn_children (node_at t n)) None of
        None \<Rightarrow> ([], 0)
      | Some (best, bestMatched, bestFull) \<Rightarrow>
          if \<not> bestFull then ([best], bestMatched)
          else (case find_loop t best (drop bestMatched tokens) of
            (path, k) \<Rightarrow> (best # path, bestMatched + k)))"
  by pat_completeness auto
termination
  by (relation "measure (\<lambda>(t, n, tokens). length tokens)") (auto dest: best_child_pos)

declare find_loop.simps [simp del]

definition findBestMatch :: "'snap trie \<Rightarrow> nat option \<Rightarrow> trie_key list \<Rightarrow> nat list \<times> nat" where
  "findBestMatch t root tokens =
     (case root of
        None \<Rightarrow> ([], 0)
      | Some r \<Rightarrow> (case find_loop t r tokens of (path, pos) \<Rightarrow> (r # path, pos)))"

section \<open>Changing the trie\<close>

definition appendTokens :: "nat \<Rightarrow> nat \<Rightarrow> trie_key list \<Rightarrow> int \<Rightarrow> 'snap trie \<Rightarrow> nat \<times> 'snap trie" where
  "appendTokens n root tokens endOffset t =
     (if n = root \<or> 0 < length (tn_children (node_at t n)) \<or> hasSnapshots (node_at t n) then
        (case alloc \<lparr>tn_tokens = tokens, tn_endOffset = endOffset, tn_parent = Some n, tn_children = [],
             tn_lastUsed = tn_lastUsed (node_at t n), tn_snapshots = [], tn_user = False\<rparr> t of
           (child, t1) \<Rightarrow> (child, upd n (\<lambda>nd. nd\<lparr>tn_children := tn_children nd @ [child]\<rparr>) t1))
      else (n, upd n (\<lambda>nd. nd\<lparr>tn_tokens := tn_tokens nd @ tokens, tn_endOffset := endOffset\<rparr>) t))"

definition removeNode :: "'snap layers \<Rightarrow> nat \<Rightarrow> 'snap trie \<Rightarrow> 'snap trie option" where
  "removeNode L node t =
     (case tn_parent (node_at t node) of
        None \<Rightarrow> None
      | Some p \<Rightarrow>
          if 0 < length (tn_children (node_at t node)) then None
          else
            (let t1 = upd p (\<lambda>nd. nd\<lparr>tn_children := remove1 node (tn_children nd)\<rparr>) t;
                 t2 = upd node (\<lambda>nd. nd\<lparr>tn_parent := None\<rparr>) t1;
                 t3 = setSnapshots L node [] t2 in
             Some (drop_node node t3)))"

text \<open>The first occurrence of a child is replaced (the loop breaks there).\<close>

fun replace_first :: "nat \<Rightarrow> nat \<Rightarrow> nat list \<Rightarrow> nat list" where
  "replace_first x y [] = []"
| "replace_first x y (z # zs) = (if z = x then y # zs else z # replace_first x y zs)"

fun split_snaps :: "'snap layers \<Rightarrow> int \<Rightarrow> nat \<Rightarrow> 'snap option list \<Rightarrow> ('snap option list \<times> 'snap option list) option" where
  "split_snaps L at i [] = Some ([], [])"
| "split_snaps L at i (None # snaps) =
     map_option (\<lambda>(ps, cs). (None # ps, None # cs)) (split_snaps L at (Suc i) snaps)"
| "split_snaps L at i (Some snap # snaps) =
     (if la_count L \<le> i then None
      else (case la_split L i snap at of (p, c) \<Rightarrow>
        map_option (\<lambda>(ps, cs). (p # ps, c # cs)) (split_snaps L at (Suc i) snaps)))"

definition splitNode :: "'snap layers \<Rightarrow> nat \<Rightarrow> int \<Rightarrow> 'snap trie \<Rightarrow> (nat \<times> 'snap trie) option" where
  "splitNode L node at t =
     (if at \<le> 0 \<or> int (length (tn_tokens (node_at t node))) \<le> at then None
      else
        (let nd = node_at t node in
         case alloc \<lparr>tn_tokens = take (nat at) (tn_tokens nd), tn_endOffset = startOffset nd + at,
             tn_parent = tn_parent nd, tn_children = [node], tn_lastUsed = tn_lastUsed nd,
             tn_snapshots = [], tn_user = False\<rparr> t of
           (newParent, t1) \<Rightarrow>
             (let t2 = upd node (\<lambda>x. x\<lparr>tn_tokens := drop (nat at) (tn_tokens x)\<rparr>) t1;
                  snaps =
                    (if hasSnapshots (node_at t2 node) then
                       (case swapSnapshots L node [] t2 of (oldSnaps, t3) \<Rightarrow>
                          (case split_snaps L (startOffset nd + at) 0 oldSnaps of
                             None \<Rightarrow> None
                           | Some (parentSnaps, childSnaps) \<Rightarrow>
                               Some (setSnapshots L node childSnaps (setSnapshots L newParent parentSnaps t3))))
                     else Some t2)
              in case snaps of
                   None \<Rightarrow> None
                 | Some t4 \<Rightarrow>
                     (let t5 = (case tn_parent nd of
                           None \<Rightarrow> t4
                         | Some p \<Rightarrow> upd p (\<lambda>x. x\<lparr>tn_children := replace_first node newParent (tn_children x)\<rparr>) t4)
                      in Some (newParent, upd node (\<lambda>x. x\<lparr>tn_parent := Some newParent\<rparr>) t5)))))"

text \<open>\<^verbatim>\<open>snaps[i]\<close> where the slice is nil or has an entry for the layer.\<close>

definition snap_entry :: "'snap option list \<Rightarrow> nat \<Rightarrow> 'snap option option" where
  "snap_entry snaps i =
     (if snaps = [] then Some None else if i < length snaps then Some (snaps ! i) else None)"

fun merge_snaps :: "'snap layers \<Rightarrow> 'snap option list \<Rightarrow> 'snap option list \<Rightarrow> nat list \<Rightarrow> 'snap option list option" where
  "merge_snaps L nodeSnaps childSnaps [] = Some []"
| "merge_snaps L nodeSnaps childSnaps (i # is) =
     (case (snap_entry nodeSnaps i, snap_entry childSnaps i) of
        (Some ps, Some cs) \<Rightarrow>
          map_option (\<lambda>ms. la_merge L i ps cs # ms) (merge_snaps L nodeSnaps childSnaps is)
      | _ \<Rightarrow> None)"

definition mergeWithChild :: "'snap layers \<Rightarrow> nat \<Rightarrow> 'snap trie \<Rightarrow> 'snap trie option" where
  "mergeWithChild L node t =
     (case tn_children (node_at t node) of
        [child] \<Rightarrow>
          (let cd = node_at t child;
               t1 = upd node (\<lambda>x. x\<lparr>tn_tokens := tn_tokens x @ tn_tokens cd, tn_endOffset := tn_endOffset cd\<rparr>) t;
               snaps =
                 (if 0 < length (tn_snapshots (node_at t1 node)) \<or> 0 < length (tn_snapshots cd) then
                    (case swapSnapshots L node [] t1 of (nodeSnaps, t2) \<Rightarrow>
                       case swapSnapshots L child [] t2 of (childSnaps, t3) \<Rightarrow>
                         map_option (\<lambda>merged. setSnapshots L node merged t3)
                           (merge_snaps L nodeSnaps childSnaps [0 ..< la_count L]))
                  else Some t1)
           in case snaps of
                None \<Rightarrow> None
              | Some t4 \<Rightarrow>
                  (let t5 = upd node (\<lambda>x. x\<lparr>tn_children := tn_children cd, tn_user := tn_user cd,
                         tn_lastUsed := (if tn_lastUsed x < tn_lastUsed cd then tn_lastUsed cd else tn_lastUsed x)\<rparr>) t4;
                       t6 = fold (\<lambda>gc. upd gc (\<lambda>x. x\<lparr>tn_parent := Some node\<rparr>)) (tn_children cd) t5
                   in Some (drop_node child t6)))
      | _ \<Rightarrow> None)"

text \<open>
  \<^verbatim>\<open>walkNodes\<close> visits the nodes depth first; \<open>fuel\<close> bounds the depth. A node lies no deeper
  than its end offset, so the largest end offset is enough.
\<close>

fun walk :: "nat \<Rightarrow> 'snap trie \<Rightarrow> nat \<Rightarrow> nat list" where
  "walk 0 t n = []"
| "walk (Suc fuel) t n = n # concat (map (walk fuel t) (tn_children (node_at t n)))"

definition walk_fuel :: "'snap trie \<Rightarrow> nat" where
  "walk_fuel t = Suc (foldr (\<lambda>n k. case tr_nodes t n of None \<Rightarrow> k | Some nd \<Rightarrow> max (nat (tn_endOffset nd)) k)
     [0 ..< tr_next t] 0)"

definition walkNodes :: "'snap trie \<Rightarrow> nat \<Rightarrow> nat list" where
  "walkNodes t root = walk (walk_fuel t) t root"

section \<open>The shape of the trie\<close>

text \<open>
  The store holds a trie with the given root: every node but the root is a child of its
  parent and of no other node, no edge but the root's is empty, offsets add up along the
  edges, and the edges of siblings start with different keys.
\<close>

definition child_of :: "'snap trie \<Rightarrow> nat \<Rightarrow> 'snap trie_node \<Rightarrow> nat \<Rightarrow> bool" where
  "child_of t p pd c \<longleftrightarrow> (\<exists>cd. tr_nodes t c = Some cd \<and> tn_parent cd = Some p \<and> tn_tokens cd \<noteq> [] \<and>
     tn_endOffset cd = tn_endOffset pd + int (length (tn_tokens cd)))"

definition node_ok :: "'snap trie \<Rightarrow> nat \<Rightarrow> nat \<Rightarrow> 'snap trie_node \<Rightarrow> bool" where
  "node_ok t root n nd \<longleftrightarrow> n < tr_next t \<and> 0 \<le> tn_endOffset nd \<and> distinct (tn_children nd) \<and>
     (\<forall>c \<in> set (tn_children nd). child_of t n nd c) \<and>
     inj_on (\<lambda>c. hd (tn_tokens (node_at t c))) (set (tn_children nd)) \<and>
     (if n = root then tn_parent nd = None \<and> tn_tokens nd = [] \<and> tn_endOffset nd = 0
      else \<exists>p pd. tn_parent nd = Some p \<and> tr_nodes t p = Some pd \<and> n \<in> set (tn_children pd))"

definition trie_ok :: "nat \<Rightarrow> 'snap trie \<Rightarrow> bool" where
  "trie_ok root t \<longleftrightarrow> tr_nodes t root \<noteq> None \<and>
     (\<forall>n nd. tr_nodes t n = Some nd \<longrightarrow> node_ok t root n nd)"

lemma node_atI [simp]: "tr_nodes t n = Some nd \<Longrightarrow> node_at t n = nd"
  by (simp add: node_at_def)

lemma trie_okD: "trie_ok root t \<Longrightarrow> tr_nodes t n = Some nd \<Longrightarrow> node_ok t root n nd"
  by (simp add: trie_ok_def)

lemma trie_child:
  assumes "trie_ok root t" "tr_nodes t n = Some nd" "c \<in> set (tn_children nd)"
  obtains cd where "tr_nodes t c = Some cd" "tn_parent cd = Some n" "tn_tokens cd \<noteq> []"
    "tn_endOffset cd = tn_endOffset nd + int (length (tn_tokens cd))" "c \<noteq> root"
proof -
  from trie_okD [OF assms(1,2)] assms(3) obtain cd where
    c: "tr_nodes t c = Some cd" "tn_parent cd = Some n" "tn_tokens cd \<noteq> []"
      "tn_endOffset cd = tn_endOffset nd + int (length (tn_tokens cd))"
    by (auto simp: node_ok_def child_of_def)
  moreover have "c \<noteq> root" using trie_okD [OF assms(1) c(1)] c(2) by (auto simp: node_ok_def)
  ultimately show thesis by (rule that)
qed

lemma trie_edge:
  assumes "trie_ok root t" "tr_nodes t n = Some nd" "c \<in> set (tn_children nd)"
  shows "tn_tokens (node_at t c) \<noteq> []" "tr_nodes t c \<noteq> None"
  using trie_child [OF assms] by (metis node_atI, metis option.distinct(1))

lemma trie_parent:
  assumes "trie_ok root t" "tr_nodes t n = Some nd" "n \<noteq> root"
  obtains p pd where "tn_parent nd = Some p" "tr_nodes t p = Some pd" "n \<in> set (tn_children pd)"
    "tn_tokens nd \<noteq> []" "tn_endOffset nd = tn_endOffset pd + int (length (tn_tokens nd))" "p \<noteq> n"
proof -
  from trie_okD [OF assms(1,2)] assms(3) obtain p pd where
    p: "tn_parent nd = Some p" "tr_nodes t p = Some pd" "n \<in> set (tn_children pd)"
    by (auto simp: node_ok_def)
  from trie_child [OF assms(1) p(2,3)] assms(2) have
    q: "tn_tokens nd \<noteq> []" "tn_endOffset nd = tn_endOffset pd + int (length (tn_tokens nd))"
    by (metis option.inject)+
  moreover have "p \<noteq> n" using q p(2) assms(2) by auto
  ultimately show thesis using p that by blast
qed

text \<open>What can be read below a node: the edges along a path, and the prefixes of such texts.\<close>

inductive reach :: "'snap trie \<Rightarrow> nat \<Rightarrow> nat \<Rightarrow> trie_key list \<Rightarrow> bool" for t where
  reach_refl: "reach t n n []"
| reach_step: "tr_nodes t n = Some nd \<Longrightarrow> c \<in> set (tn_children nd) \<Longrightarrow> tr_nodes t c = Some cd \<Longrightarrow>
    reach t c m w \<Longrightarrow> reach t n m (tn_tokens cd @ w)"

definition stored :: "'snap trie \<Rightarrow> nat \<Rightarrow> trie_key list \<Rightarrow> bool" where
  "stored t n ks \<longleftrightarrow> (\<exists>m w. reach t n m w \<and> prefix ks w)"

lemma reach_trans: "reach t a b v \<Longrightarrow> reach t b c w \<Longrightarrow> reach t a c (v @ w)"
  by (induction rule: reach.induct) (auto intro: reach_step)

lemma reach_child: "tr_nodes t n = Some nd \<Longrightarrow> c \<in> set (tn_children nd) \<Longrightarrow> tr_nodes t c = Some cd \<Longrightarrow>
    reach t n c (tn_tokens cd)"
  using reach_step [OF _ _ _ reach_refl] by force

lemma reach_in:
  "reach t n m w \<Longrightarrow> trie_ok root t \<Longrightarrow> tr_nodes t n = Some nd \<Longrightarrow>
    \<exists>md. tr_nodes t m = Some md \<and> tn_endOffset md = tn_endOffset nd + int (length w)"
proof (induction arbitrary: nd rule: reach.induct)
  case (reach_step n nd' c cd m w)
  from reach_step.IH [OF reach_step.prems(1) reach_step.hyps(3)] obtain md where
    "tr_nodes t m = Some md" "tn_endOffset md = tn_endOffset cd + int (length w)" by blast
  moreover have "tn_endOffset cd = tn_endOffset nd' + int (length (tn_tokens cd))"
    using trie_child [OF reach_step.prems(1) reach_step.hyps(1,2)] reach_step.hyps(3) by (metis option.inject)
  ultimately show ?case using reach_step.hyps(1) reach_step.prems(2) by simp
qed simp

lemma stored_Nil [simp]: "stored t n []"
  by (auto simp: stored_def intro: reach_refl)

lemma stored_prefix: "stored t n ks \<Longrightarrow> prefix js ks \<Longrightarrow> stored t n js"
  by (meson prefix_order.trans stored_def)

text \<open>Every node is reached from the root, by the text whose length is its end offset.\<close>

lemma reach_root:
  assumes "trie_ok root t"
  shows "tr_nodes t n = Some nd \<Longrightarrow> \<exists>w. reach t root n w \<and> int (length w) = tn_endOffset nd"
proof (induction "nat (tn_endOffset nd)" arbitrary: n nd rule: less_induct)
  case less
  show ?case
  proof (cases "n = root")
    case True
    with trie_okD [OF assms less.prems] have "tn_endOffset nd = 0" by (auto simp: node_ok_def)
    with True reach_refl show ?thesis by fastforce
  next
    case False
    from trie_parent [OF assms less.prems False] obtain p pd where
      p: "tr_nodes t p = Some pd" "n \<in> set (tn_children pd)" "tn_tokens nd \<noteq> []"
        "tn_endOffset nd = tn_endOffset pd + int (length (tn_tokens nd))" "p \<noteq> n" by metis
    have "0 \<le> tn_endOffset pd" using trie_okD [OF assms p(1)] by (simp add: node_ok_def)
    moreover have "0 < int (length (tn_tokens nd))" using p(3) by simp
    ultimately have "nat (tn_endOffset pd) < nat (tn_endOffset nd)" using p(4) by linarith
    from less.hyps [OF this p(1)] obtain w where "reach t root p w" "int (length w) = tn_endOffset pd" by blast
    moreover from this have "reach t root n (w @ tn_tokens nd)"
      using reach_trans reach_child [OF p(1,2) less.prems] by blast
    ultimately show ?thesis using p(4) by (intro exI [of _ "w @ tn_tokens nd"]) simp
  qed
qed

section \<open>The search finds the longest stored prefix\<close>

lemma match_len_le: "match_len xs ys \<le> length xs \<and> match_len xs ys \<le> length ys"
  by (induction xs ys rule: match_len.induct) auto

lemma match_len_take: "take (match_len xs ys) xs = take (match_len xs ys) ys"
  by (induction xs ys rule: match_len.induct) auto

lemma match_len_greatest: "k \<le> length ys \<Longrightarrow> prefix (take k ys) xs \<longleftrightarrow> k \<le> match_len xs ys"
proof (induction xs arbitrary: ys k)
  case Nil
  then show ?case by (cases ys) auto
next
  case (Cons x xs)
  then show ?case by (cases ys; cases k) auto
qed

lemma best_child_None:
  "best_child t tokens cs best = None \<longleftrightarrow> best = None \<and>
    (\<forall>c \<in> set cs. tn_tokens (node_at t c) = [] \<or> hd (tn_tokens (node_at t c)) \<noteq> hd tokens)"
  by (induction t tokens cs best rule: best_child.induct) (auto simp: Let_def split: option.splits if_splits)

lemma best_child_Some:
  "best_child t tokens cs best = Some (c, j, full) \<Longrightarrow> best = Some (c, j, full) \<or>
    c \<in> set cs \<and> tn_tokens (node_at t c) \<noteq> [] \<and> hd (tn_tokens (node_at t c)) = hd tokens \<and>
    j = match_len (tn_tokens (node_at t c)) tokens \<and> full = (j = length (tn_tokens (node_at t c)))"
proof (induction cs arbitrary: best)
  case (Cons child cs)
  let ?e = "tn_tokens (node_at t child)"
  show ?case
  proof (cases "?e = [] \<or> hd ?e \<noteq> hd tokens")
    case True
    then have "best_child t tokens cs best = Some (c, j, full)"
      using Cons.prems by (cases "?e = []") (simp_all add: Let_def)
    from Cons.IH [OF this] show ?thesis by auto
  next
    case False
    let ?new = "(child, match_len ?e tokens, match_len ?e tokens = length ?e)"
    obtain best' where b: "best_child t tokens cs best' = Some (c, j, full)" "best' = Some ?new \<or> best' = best"
      using Cons.prems False by (auto simp: Let_def split: option.splits if_splits)
    from Cons.IH [OF b(1)] b(2) False show ?thesis by auto
  qed
qed simp

text \<open>A stored text begins with a part of the edge of a child, or with a whole edge.\<close>

lemma stored_iff:
  assumes "trie_ok root t" "tr_nodes t n = Some nd"
  shows "stored t n ks \<longleftrightarrow> ks = [] \<or> (\<exists>c \<in> set (tn_children nd). prefix ks (tn_tokens (node_at t c)) \<or>
    (\<exists>ks'. ks = tn_tokens (node_at t c) @ ks' \<and> stored t c ks'))" (is "_ \<longleftrightarrow> ?r")
proof
  assume "stored t n ks"
  then obtain m w where "reach t n m w" "prefix ks w" by (auto simp: stored_def)
  then show ?r
  proof (cases rule: reach.cases)
    case (reach_step nd' c cd w')
    then have "prefix ks (tn_tokens cd) \<or> (\<exists>ks'. ks = tn_tokens cd @ ks' \<and> prefix ks' w')"
      using \<open>prefix ks w\<close> by (auto simp: prefix_append)
    moreover have "node_at t c = cd" "c \<in> set (tn_children nd)" using reach_step assms(2) by auto
    ultimately have "c \<in> set (tn_children nd)" "prefix ks (tn_tokens (node_at t c)) \<or>
        (\<exists>ks'. ks = tn_tokens (node_at t c) @ ks' \<and> stored t c ks')"
      using reach_step(5) by (auto simp: stored_def)
    then show ?thesis by blast
  qed simp
next
  assume ?r
  then show "stored t n ks"
  proof (elim disjE bexE exE conjE)
    fix c assume c: "c \<in> set (tn_children nd)" "prefix ks (tn_tokens (node_at t c))"
    from trie_child [OF assms c(1)] obtain cd where "tr_nodes t c = Some cd" by blast
    with c reach_child [OF assms(2) c(1)] show ?thesis by (auto simp: stored_def)
  next
    fix c ks' assume c: "c \<in> set (tn_children nd)" "ks = tn_tokens (node_at t c) @ ks'" "stored t c ks'"
    from trie_child [OF assms c(1)] obtain cd where "tr_nodes t c = Some cd" by blast
    with c reach_step [OF assms(2) c(1)] show ?thesis by (fastforce simp: stored_def)
  qed simp
qed

lemma hd_start: "xs \<noteq> [] \<Longrightarrow> ks \<noteq> [] \<Longrightarrow> prefix ks xs \<or> (\<exists>ys. ks = xs @ ys) \<Longrightarrow> hd xs = hd ks"
  by (auto simp: prefix_def)

lemma trie_siblings:
  assumes "trie_ok root t" "tr_nodes t n = Some nd" "c \<in> set (tn_children nd)" "d \<in> set (tn_children nd)"
    and "hd (tn_tokens (node_at t c)) = hd (tn_tokens (node_at t d))"
  shows "c = d"
  using trie_okD [OF assms(1,2)] assms(3-5) by (auto simp: node_ok_def inj_on_def)

text \<open>Below a node, only the child whose edge starts with the first key matters.\<close>

lemma stored_child:
  assumes "trie_ok root t" "tr_nodes t n = Some nd" "c \<in> set (tn_children nd)"
    and "hd (tn_tokens (node_at t c)) = hd ks" "ks \<noteq> []"
  shows "stored t n ks \<longleftrightarrow> prefix ks (tn_tokens (node_at t c)) \<or>
    (\<exists>ks'. ks = tn_tokens (node_at t c) @ ks' \<and> stored t c ks')"
proof -
  have "d = c" if d: "d \<in> set (tn_children nd)"
    "prefix ks (tn_tokens (node_at t d)) \<or> (\<exists>ks'. ks = tn_tokens (node_at t d) @ ks' \<and> stored t d ks')" for d
  proof -
    note ne = trie_edge(1) [OF assms(1,2) d(1)]
    from ne have "hd (tn_tokens (node_at t d)) = hd ks"
      using hd_start [of "tn_tokens (node_at t d)" ks] d(2) assms(5) by blast
    then show ?thesis using trie_siblings [OF assms(1,2) d(1) assms(3)] assms(4) by simp
  qed
  with assms(3,5) show ?thesis unfolding stored_iff [OF assms(1,2)] by blast
qed

lemma find_loop_longest:
  assumes "trie_ok root t"
  shows "tr_nodes t n \<noteq> None \<Longrightarrow> find_loop t n tokens = (path, k) \<Longrightarrow>
    k \<le> length tokens \<and> (\<forall>j \<le> length tokens. stored t n (take j tokens) \<longleftrightarrow> j \<le> k)"
  using assms
proof (induction t n tokens arbitrary: path k rule: find_loop.induct)
  case (1 t n tokens)
  from "1.prems"(1) obtain nd where nd: "tr_nodes t n = Some nd" by blast
  note ok = "1.prems"(3)
  show ?case
  proof (cases "tokens = []")
    case True
    with "1.prems"(2) show ?thesis by (simp add: find_loop.simps)
  next
    case ne: False
    show ?thesis
    proof (cases "best_child t tokens (tn_children (node_at t n)) None")
      case None
      then have no: "\<forall>c \<in> set (tn_children nd). hd (tn_tokens (node_at t c)) \<noteq> hd tokens"
        using nd trie_edge(1) [OF ok nd] by (simp add: best_child_None)
      have "\<not> stored t n (take j tokens)" if j: "0 < j" for j
      proof
        assume "stored t n (take j tokens)"
        then obtain c where c: "c \<in> set (tn_children nd)" "prefix (take j tokens) (tn_tokens (node_at t c)) \<or>
            (\<exists>ks'. take j tokens = tn_tokens (node_at t c) @ ks')"
          using j ne unfolding stored_iff [OF ok nd] by auto
        have "hd (tn_tokens (node_at t c)) = hd (take j tokens)"
          using hd_start [OF trie_edge(1) [OF ok nd c(1)], of "take j tokens"] c(2) j ne by simp
        with no c(1) j show False by (simp add: hd_take)
      qed
      with None ne "1.prems"(2) show ?thesis by (auto simp: find_loop.simps)
    next
      case (Some b)
      obtain c j full where b: "b = (c, j, full)" by (metis prod.exhaust)
      let ?e = "tn_tokens (node_at t c)"
      from best_child_Some [OF Some [unfolded b]] nd have
        c: "c \<in> set (tn_children nd)" "?e \<noteq> []" "hd ?e = hd tokens" "j = match_len ?e tokens" "full = (j = length ?e)"
        by auto
      have st: "stored t n (take i tokens) \<longleftrightarrow> prefix (take i tokens) ?e \<or>
          (\<exists>ks'. take i tokens = ?e @ ks' \<and> stored t c ks')" if "0 < i" for i
        using stored_child [OF ok nd c(1), of "take i tokens"] c(3) that ne by (simp add: hd_take)
      note le = match_len_le [of ?e tokens] and tk = match_len_take [of ?e tokens]
      show ?thesis
      proof (cases full)
        case False
        with "1.prems"(2) Some b ne have k: "k = j" by (auto simp: find_loop.simps [of t n tokens])
        have lt: "j < length ?e" using False c(4,5) le by auto
        have "stored t n (take i tokens) \<longleftrightarrow> i \<le> j" if i: "i \<le> length tokens" for i
        proof (cases "0 < i")
          case True
          have "\<not> (\<exists>ks'. take i tokens = ?e @ ks')"
          proof
            assume "\<exists>ks'. take i tokens = ?e @ ks'"
            then obtain ks' where eq: "take i tokens = ?e @ ks'" by blast
            then have "length ?e \<le> length tokens" using i by (metis length_append length_take le_add1 min.bounded_iff)
            moreover have "take (length ?e) tokens = ?e" using eq i
              by (metis append_eq_conv_conj length_append length_take le_add1 min.absorb2 min.bounded_iff take_take)
            ultimately have "length ?e \<le> match_len ?e tokens"
              using match_len_greatest [of "length ?e" tokens ?e] by simp
            with lt c(4) show False by simp
          qed
          with st [OF True] match_len_greatest [OF i, of ?e] c(4) show ?thesis by blast
        qed simp
        with k c(4) le show ?thesis by blast
      next
        case True
        then have j: "j = length ?e" "0 < j" using c(2,5) by auto
        then have pre: "take j tokens = ?e" using tk c(4) by simp
        obtain path' k' where r: "find_loop t c (drop j tokens) = (path', k')" by fastforce
        with "1.prems"(2) Some b ne True have k: "k = j + k'" by (auto simp: find_loop.simps [of t n tokens])
        have "tr_nodes t c \<noteq> None" by (rule trie_edge(2) [OF ok nd c(1)])
        from "1.IH" [OF ne Some b [symmetric] refl _ this r ok] True have
          IH: "k' \<le> length (drop j tokens)" "\<And>i. i \<le> length (drop j tokens) \<Longrightarrow> stored t c (take i (drop j tokens)) \<longleftrightarrow> i \<le> k'"
          by auto
        have "stored t n (take i tokens) \<longleftrightarrow> i \<le> k" if i: "i \<le> length tokens" for i
        proof (cases "i \<le> j")
          case True
          have "prefix (take i tokens) ?e" using True pre by (metis min.absorb1 take_is_prefix take_take)
          with st [of i] True k show ?thesis by (cases "0 < i") auto
        next
          case False
          then have split: "take i tokens = ?e @ take (i - j) (drop j tokens)"
            using pre by (metis le_add_diff_inverse nat_le_linear take_add)
          moreover have "\<not> prefix (take i tokens) ?e"
            using False j(1) i by (auto dest: prefix_length_le)
          ultimately have "stored t n (take i tokens) \<longleftrightarrow> stored t c (take (i - j) (drop j tokens))"
            using st [of i] False by auto
          with IH(2) [of "i - j"] i False k show ?thesis by auto
        qed
        with IH(1) k c(4) le show ?thesis by auto
      qed
    qed
  qed
qed

text \<open>The nodes of the path are children of one another, and it ends where the match ends.\<close>

fun is_path :: "'snap trie \<Rightarrow> nat \<Rightarrow> nat list \<Rightarrow> bool" where
  "is_path t n [] = True"
| "is_path t n (c # cs) = (c \<in> set (tn_children (node_at t n)) \<and> is_path t c cs)"

lemma find_loop_path:
  assumes "trie_ok root t"
  shows "tr_nodes t n \<noteq> None \<Longrightarrow> find_loop t n tokens = (path, k) \<Longrightarrow>
    is_path t n path \<and> (path = [] \<longrightarrow> k = 0) \<and>
    (\<exists>w. reach t n (last (n # path)) w \<and> k \<le> length w \<and> take k tokens = take k w \<and>
      (path \<noteq> [] \<longrightarrow> length w < k + length (tn_tokens (node_at t (last path)))))"
  using assms
proof (induction t n tokens arbitrary: path k rule: find_loop.induct)
  case (1 t n tokens)
  from "1.prems"(1) obtain nd where nd: "tr_nodes t n = Some nd" by blast
  note ok = "1.prems"(3)
  show ?case
  proof (cases "tokens = [] \<or> best_child t tokens (tn_children (node_at t n)) None = None")
    case True
    with "1.prems"(2) have "path = []" "k = 0"
      by (auto simp: find_loop.simps [of t n tokens] split: if_splits)
    then show ?thesis by (auto intro: reach_refl)
  next
    case False
    then obtain c j full where b: "best_child t tokens (tn_children (node_at t n)) None = Some (c, j, full)"
      and ne: "tokens \<noteq> []" by auto
    let ?e = "tn_tokens (node_at t c)"
    from best_child_Some [OF b] nd have
      c: "c \<in> set (tn_children nd)" "hd ?e = hd tokens" "j = match_len ?e tokens" "full = (j = length ?e)"
      by auto
    note e = trie_edge [OF ok nd c(1)]
    have jpos: "0 < j" unfolding c(3) by (rule match_len_pos [OF e(1) ne c(2)])
    have "reach t n c ?e" using reach_child [OF nd c(1)] e(2) by force
    note le = match_len_le [of ?e tokens] and tk = match_len_take [of ?e tokens]
    show ?thesis
    proof (cases full)
      case False
      with "1.prems"(2) b ne have "path = [c]" "k = j" by (auto simp: find_loop.simps [of t n tokens])
      with \<open>reach t n c ?e\<close> c nd le tk jpos show ?thesis by auto
    next
      case True
      obtain path' k' where r: "find_loop t c (drop j tokens) = (path', k')" by fastforce
      with "1.prems"(2) b ne True have pk: "path = c # path'" "k = j + k'"
        by (auto simp: find_loop.simps [of t n tokens])
      from "1.IH" [OF ne b refl refl _ e(2) r ok] True obtain w where
        IH: "is_path t c path'" "path' = [] \<longrightarrow> k' = 0" "reach t c (last (c # path')) w" "k' \<le> length w"
          "take k' (drop j tokens) = take k' w"
          "path' \<noteq> [] \<longrightarrow> length w < k' + length (tn_tokens (node_at t (last path')))" by auto
      have "reach t n (last (n # path)) (?e @ w)"
        using reach_trans [OF \<open>reach t n c ?e\<close> IH(3)] pk(1) by simp
      moreover have "k \<le> length (?e @ w)" using True c(4) IH(4) pk(2) by simp
      moreover have "take k tokens = take k (?e @ w)"
        using True c(3,4) tk IH(5) pk(2) by (simp add: take_add)
      moreover have "length (?e @ w) < k + length (tn_tokens (node_at t (last path)))"
      proof (cases "path' = []")
        case True
        with IH(3) have "reach t c c w" by simp
        from reach_in [OF this ok] e(2) have "w = []" by force
        with True pk jpos c(4) \<open>full\<close> show ?thesis by simp
      next
        case False
        with IH(6) pk True c(4) show ?thesis by simp
      qed
      ultimately show ?thesis using IH(1) c(1) nd pk by auto
    qed
  qed
qed

section \<open>Updates that keep the shape\<close>

definition same_shape :: "'snap trie \<Rightarrow> 'snap trie \<Rightarrow> bool" where
  "same_shape t t' \<longleftrightarrow> tr_next t' = tr_next t \<and>
     (\<forall>n. map_option (\<lambda>nd. (tn_tokens nd, tn_endOffset nd, tn_parent nd, tn_children nd)) (tr_nodes t' n) =
          map_option (\<lambda>nd. (tn_tokens nd, tn_endOffset nd, tn_parent nd, tn_children nd)) (tr_nodes t n))"

lemma same_shape_refl [simp]: "same_shape t t"
  by (simp add: same_shape_def)

lemma same_shape_trans: "same_shape t1 t2 \<Longrightarrow> same_shape t2 t3 \<Longrightarrow> same_shape t1 t3"
  by (simp add: same_shape_def)

lemma same_shape_sym: "same_shape t1 t2 \<Longrightarrow> same_shape t2 t1"
  by (simp add: same_shape_def)

lemma same_shape_node:
  "same_shape t t' \<Longrightarrow> tr_nodes t n = Some nd \<Longrightarrow> \<exists>nd'. tr_nodes t' n = Some nd' \<and> tn_tokens nd' = tn_tokens nd \<and>
    tn_endOffset nd' = tn_endOffset nd \<and> tn_parent nd' = tn_parent nd \<and> tn_children nd' = tn_children nd"
  by (auto simp: same_shape_def dest!: spec [of _ n])

lemma same_shape_None: "same_shape t t' \<Longrightarrow> tr_nodes t' n = None \<longleftrightarrow> tr_nodes t n = None"
  by (auto simp: same_shape_def dest!: spec [of _ n])

lemma same_shape_ok:
  assumes "same_shape t t'" "trie_ok root t"
  shows "trie_ok root t'"
  unfolding trie_ok_def
proof (intro conjI allI impI)
  show "tr_nodes t' root \<noteq> None" using assms by (simp add: same_shape_None trie_ok_def)
  fix n nd' assume n': "tr_nodes t' n = Some nd'"
  from same_shape_node [OF same_shape_sym [OF assms(1)] n'] obtain nd where
    n: "tr_nodes t n = Some nd" "tn_tokens nd = tn_tokens nd'" "tn_endOffset nd = tn_endOffset nd'"
      "tn_parent nd = tn_parent nd'" "tn_children nd = tn_children nd'" by blast
  note nok = trie_okD [OF assms(2) n(1)]
  have c: "child_of t' n nd' c" if "c \<in> set (tn_children nd')" for c
  proof -
    from nok that n have "child_of t n nd c" by (simp add: node_ok_def)
    then show ?thesis using same_shape_node [OF assms(1), of c] n by (fastforce simp: child_of_def)
  qed
  have tok: "tn_tokens (node_at t' c) = tn_tokens (node_at t c)" if "c \<in> set (tn_children nd')" for c
    using nok that n same_shape_node [OF assms(1), of c] by (fastforce simp: node_ok_def child_of_def)
  have par: "\<exists>pd'. tr_nodes t' p = Some pd' \<and> n \<in> set (tn_children pd')"
    if "tr_nodes t p = Some pd" "n \<in> set (tn_children pd)" for p pd
    using same_shape_node [OF assms(1) that(1)] that(2) by auto
  have "inj_on (\<lambda>c. hd (tn_tokens (node_at t' c))) (set (tn_children nd'))"
    using nok n(5) tok by (auto simp: node_ok_def inj_on_def)
  with nok n c par assms(1) show "node_ok t' root n nd'"
    by (auto simp: node_ok_def same_shape_def)
qed

lemma same_shape_reach: "reach t n m w \<Longrightarrow> same_shape t t' \<Longrightarrow> reach t' n m w"
proof (induction rule: reach.induct)
  case (reach_step n nd c cd m w)
  from same_shape_node [OF reach_step.prems reach_step.hyps(1)] same_shape_node [OF reach_step.prems reach_step.hyps(3)]
  obtain nd' cd' where "tr_nodes t' n = Some nd'" "c \<in> set (tn_children nd')" "tr_nodes t' c = Some cd'"
    "tn_tokens cd' = tn_tokens cd" using reach_step.hyps(2) by auto
  with reach.reach_step [of t' n nd' c cd' m w] reach_step show ?case by simp
qed (rule reach_refl)

lemma same_shape_stored: "same_shape t t' \<Longrightarrow> stored t' n ks \<longleftrightarrow> stored t n ks"
  using same_shape_reach same_shape_sym unfolding stored_def by blast

text \<open>
  The bytes of all snapshots in the trie, which the counter follows; a node has no snapshots
  or an entry for every layer.
\<close>

definition node_bytes :: "'snap layers \<Rightarrow> 'snap trie \<Rightarrow> nat \<Rightarrow> int" where
  "node_bytes L t n = (case tr_nodes t n of None \<Rightarrow> 0 | Some nd \<Rightarrow> snapshotBytes L nd)"

definition per_layer :: "'snap layers \<Rightarrow> 'snap option list \<Rightarrow> bool" where
  "per_layer L snaps \<longleftrightarrow> snaps = [] \<or> length snaps = la_count L"

definition counted :: "'snap layers \<Rightarrow> 'snap trie \<Rightarrow> bool" where
  "counted L t \<longleftrightarrow> tr_counter t = (\<Sum>n<tr_next t. node_bytes L t n) \<and>
     (\<forall>n nd. tr_nodes t n = Some nd \<longrightarrow> per_layer L (tn_snapshots nd))"

lemma per_layer_Nil [simp]: "per_layer L []"
  by (simp add: per_layer_def)

lemma counted_layers: "counted L t \<Longrightarrow> tr_nodes t n = Some nd \<Longrightarrow> per_layer L (tn_snapshots nd)"
  by (simp add: counted_def)

lemma sum_point:
  fixes f :: "nat \<Rightarrow> int"
  assumes "\<And>m. m \<noteq> n \<Longrightarrow> g m = f m" "n < k"
  shows "sum g {..<k} = sum f {..<k} - f n + g n"
proof -
  have "sum g ({..<k} - {n}) = sum f ({..<k} - {n})" using assms(1) by (intro sum.cong) auto
  with assms(2) show ?thesis by (simp add: sum_diff1)
qed

lemma upd_simps [simp]:
  "tr_next (upd n f t) = tr_next t" "tr_counter (upd n f t) = tr_counter t"
  "tr_nodes (upd n f t) m = (if m = n then map_option f (tr_nodes t m) else tr_nodes t m)"
  by (simp_all add: upd_def)

lemma counted_upd:
  assumes "counted L t" "\<And>nd. tn_snapshots (f nd) = tn_snapshots nd"
  shows "counted L (upd n f t)"
proof -
  have "node_bytes L (upd n f t) m = node_bytes L t m" for m
    using assms(2) by (auto simp: node_bytes_def snapshotBytes_def split: option.splits)
  moreover have "per_layer L (tn_snapshots nd)" if "tr_nodes (upd n f t) m = Some nd" for m nd
    using that assms by (auto simp: counted_def split: if_splits)
  ultimately show ?thesis using assms(1) by (simp add: counted_def)
qed

lemma swap_simps:
  "fst (swapSnapshots L n snaps t) = tn_snapshots (node_at t n)"
  "setSnapshots L n snaps t = snd (swapSnapshots L n snaps t)"
  by (simp_all add: swapSnapshots_def setSnapshots_def Let_def)

lemma swap_nodes [simp]:
  "tr_next (snd (swapSnapshots L n snaps t)) = tr_next t"
  "tr_nodes (snd (swapSnapshots L n snaps t)) m =
    (if m = n then map_option (\<lambda>nd. nd\<lparr>tn_snapshots := snaps\<rparr>) (tr_nodes t m) else tr_nodes t m)"
  by (simp_all add: swapSnapshots_def Let_def)

lemma same_shape_swap [simp]: "same_shape t (snd (swapSnapshots L n snaps t))"
  by (simp add: same_shape_def option.map_comp comp_def)

lemma counted_swap:
  assumes "counted L t" "tr_nodes t n = Some nd" "n < tr_next t" "per_layer L snaps"
  shows "counted L (snd (swapSnapshots L n snaps t))"
proof -
  let ?t = "snd (swapSnapshots L n snaps t)"
  have "sum (node_bytes L ?t) {..<tr_next t} =
      sum (node_bytes L t) {..<tr_next t} - node_bytes L t n + node_bytes L ?t n"
    by (rule sum_point [OF _ assms(3)]) (simp add: node_bytes_def)
  moreover have "tr_counter ?t = tr_counter t - node_bytes L t n + node_bytes L ?t n"
    using assms(2) by (simp add: swapSnapshots_def Let_def node_bytes_def node_at_def)
  moreover have "per_layer L (tn_snapshots md)" if "tr_nodes ?t m = Some md" for m md
    using that assms(1,4) by (auto simp: counted_def split: if_splits)
  ultimately show ?thesis using assms(1) by (simp add: counted_def)
qed

lemma counted_alloc:
  assumes "counted L t" "tr_nodes t (tr_next t) = None" "tn_snapshots nd = []"
  shows "counted L (snd (alloc nd t))"
proof -
  have "node_bytes L (snd (alloc nd t)) m = node_bytes L t m" for m
    using assms(2,3) by (auto simp: node_bytes_def alloc_def snapshotBytes_def snaps_bytes_def)
  moreover have "per_layer L (tn_snapshots md)" if "tr_nodes (snd (alloc nd t)) m = Some md" for m md
    using that assms(1,3) by (auto simp: counted_def alloc_def split: if_splits)
  ultimately show ?thesis using assms(1,2) by (simp add: counted_def alloc_def node_bytes_def)
qed

lemma counted_drop:
  assumes "counted L t" "node_bytes L t n = 0"
  shows "counted L (drop_node n t)"
proof -
  have "node_bytes L (drop_node n t) m = node_bytes L t m" for m
    using assms(2) by (auto simp: node_bytes_def drop_node_def)
  with assms(1) show ?thesis by (auto simp: counted_def drop_node_def)
qed

lemma counted_materialize:
  assumes "counted L t" "tr_nodes t n = Some nd" "n < tr_next t" "j < length (tn_snapshots nd)"
  shows "counted L (materialize L n j s t)"
proof -
  let ?t = "materialize L n j s t"
  let ?v = "\<lambda>x. case x of None \<Rightarrow> 0 | Some y \<Rightarrow> la_size L y"
  have up: "snaps_bytes L (xs[j := Some s]) = snaps_bytes L xs + (la_size L s - ?v (xs ! j))"
    if "j < length xs" for xs
    using that
  proof (induction xs arbitrary: j)
    case (Cons x xs)
    then show ?case by (cases j) (simp_all add: snaps_bytes_def)
  qed simp
  have "sum (node_bytes L ?t) {..<tr_next t} =
      sum (node_bytes L t) {..<tr_next t} - node_bytes L t n + node_bytes L ?t n"
    by (rule sum_point [OF _ assms(3)]) (simp add: node_bytes_def materialize_def Let_def)
  moreover have "node_bytes L ?t n = node_bytes L t n + (la_size L s - ?v (tn_snapshots nd ! j))"
    using assms(2,4) up by (simp add: node_bytes_def materialize_def Let_def snapshotBytes_def)
  moreover have "tr_counter ?t = tr_counter t + (la_size L s - ?v (tn_snapshots nd ! j))"
    using assms(2) by (simp add: materialize_def Let_def)
  moreover have "per_layer L (tn_snapshots md)" if "tr_nodes ?t m = Some md" for m md
    using that assms(2) counted_layers [OF assms(1), of m md] counted_layers [OF assms(1,2)]
    by (cases "m = n") (auto simp: materialize_def Let_def per_layer_def)
  ultimately show ?thesis using assms(1) by (simp add: counted_def materialize_def Let_def)
qed

end
