(* ===== verification/TrieInsert.thy ===== *)
theory TrieInsert
  imports CacheTrie
begin

text \<open>
  The operations of the prefix trie that insert: splitting an edge and appending tokens. Each
  keeps the shape of the trie and the count of bytes; a split changes nothing of what is
  stored, appending adds exactly the new text.
\<close>

section \<open>Splitting an edge\<close>

lemma split_snaps_Some: "i + length snaps \<le> la_count L \<Longrightarrow> \<exists>ps cs. split_snaps L at i snaps = Some (ps, cs)"
proof (induction snaps arbitrary: i)
  case (Cons s snaps)
  from Cons.IH [of "Suc i"] Cons.prems obtain ps cs where "split_snaps L at (Suc i) snaps = Some (ps, cs)" by auto
  with Cons.prems show ?case by (cases s) (auto split: prod.splits)
qed simp

lemma split_snaps_length:
  "split_snaps L at i snaps = Some (ps, cs) \<Longrightarrow> length ps = length snaps \<and> length cs = length snaps"
  by (induction L at i snaps arbitrary: ps cs rule: split_snaps.induct) (auto split: if_splits prod.splits)

lemma replace_first_set:
  "distinct xs \<Longrightarrow> x \<in> set xs \<Longrightarrow> y \<notin> set xs \<Longrightarrow>
    distinct (replace_first x y xs) \<and> set (replace_first x y xs) = insert y (set xs - {x})"
  by (induction xs) auto

lemma trie_fresh: "trie_ok root t \<Longrightarrow> tr_nodes t (tr_next t) = None"
  using trie_okD [of root t "tr_next t"] by (cases "tr_nodes t (tr_next t)") (auto simp: node_ok_def)

lemma trie_bound: "trie_ok root t \<Longrightarrow> tr_nodes t n = Some nd \<Longrightarrow> n < tr_next t"
  using trie_okD [of root t n] by (simp add: node_ok_def)

lemma alloc_simps [simp]:
  "fst (alloc nd t) = tr_next t" "tr_next (snd (alloc nd t)) = Suc (tr_next t)"
  "tr_nodes (snd (alloc nd t)) m = (if m = tr_next t then Some nd else tr_nodes t m)"
  by (simp_all add: alloc_def)

text \<open>The store after a split, up to snapshots.\<close>

definition split_store :: "'snap trie \<Rightarrow> nat \<Rightarrow> 'snap trie_node \<Rightarrow> int \<Rightarrow> nat \<Rightarrow> 'snap trie_node \<Rightarrow> nat \<Rightarrow> 'snap trie \<Rightarrow> bool" where
  "split_store t node nd at p pd np t' \<longleftrightarrow> np = tr_next t \<and> tr_next t' = Suc np \<and>
     tn_parent nd = Some p \<and> tr_nodes t p = Some pd \<and> node \<in> set (tn_children pd) \<and> p \<noteq> node \<and>
     (\<exists>s1 s2. tr_nodes t' = (tr_nodes t)(np \<mapsto> \<lparr>tn_tokens = take (nat at) (tn_tokens nd), tn_endOffset = startOffset nd + at,
        tn_parent = Some p, tn_children = [node], tn_lastUsed = tn_lastUsed nd, tn_snapshots = s1, tn_user = False\<rparr>,
      node \<mapsto> nd\<lparr>tn_tokens := drop (nat at) (tn_tokens nd), tn_snapshots := s2, tn_parent := Some np\<rparr>,
      p \<mapsto> pd\<lparr>tn_children := replace_first node np (tn_children pd)\<rparr>))"

lemma splitNode_eq:
  assumes "trie_ok root t" "tr_nodes t node = Some nd" "0 < at" "at < int (length (tn_tokens nd))"
    and "length (tn_snapshots nd) \<le> la_count L"
  shows "\<exists>np t' p pd. splitNode L node at t = Some (np, t') \<and> split_store t node nd at p pd np t' \<and>
    (counted L t \<longrightarrow> counted L t')"
proof -
  let ?np = "tr_next t"
  have "node \<noteq> root" using trie_okD [OF assms(1,2)] assms(3,4) by (auto simp: node_ok_def)
  from trie_parent [OF assms(1,2) this] obtain p pd where p: "tn_parent nd = Some p" "tr_nodes t p = Some pd"
    "node \<in> set (tn_children pd)" "p \<noteq> node" by metis
  have ne: "?np \<noteq> node" "?np \<noteq> p"
    using trie_bound [OF assms(1,2)] trie_bound [OF assms(1) p(2)] by auto
  define a where "a = alloc \<lparr>tn_tokens = take (nat at) (tn_tokens nd), tn_endOffset = startOffset nd + at,
    tn_parent = tn_parent nd, tn_children = [node], tn_lastUsed = tn_lastUsed nd, tn_snapshots = [], tn_user = False\<rparr> t"
  define t2 where "t2 = upd node (\<lambda>x. x\<lparr>tn_tokens := drop (nat at) (tn_tokens x)\<rparr>) (snd a)"
  have n2: "tr_nodes t2 node = Some (nd\<lparr>tn_tokens := drop (nat at) (tn_tokens nd)\<rparr>)"
    using ne assms(2) by (simp add: t2_def a_def)
  have c2: "counted L t \<longrightarrow> counted L t2"
    unfolding t2_def a_def by (intro impI counted_upd counted_alloc trie_fresh [OF assms(1)]) simp_all
  define t4 where "t4 = (if hasSnapshots (node_at t2 node) then
      (case split_snaps L (startOffset nd + at) 0 (tn_snapshots nd) of
         Some (ps, cs) \<Rightarrow> setSnapshots L node cs (setSnapshots L ?np ps (snd (swapSnapshots L node [] t2)))
       | None \<Rightarrow> t2) else t2)"
  obtain ps cs where sp: "split_snaps L (startOffset nd + at) 0 (tn_snapshots nd) = Some (ps, cs)"
    using split_snaps_Some [of 0 "tn_snapshots nd" L "startOffset nd + at"] assms(5) by auto
  let ?t' = "upd node (\<lambda>x. x\<lparr>tn_parent := Some ?np\<rparr>)
    (upd p (\<lambda>x. x\<lparr>tn_children := replace_first node ?np (tn_children x)\<rparr>) t4)"
  have eq: "splitNode L node at t = Some (?np, ?t')"
    using assms(2-4) p(1) sp ne
    by (simp add: splitNode_def case_prod_beta Let_def t4_def t2_def a_def swap_simps node_at_def)
  have nx: "tr_next t4 = Suc ?np" by (simp add: t4_def sp swap_simps t2_def a_def)
  obtain s1 s2 where n4: "tr_nodes t4 = (tr_nodes t)(?np \<mapsto> \<lparr>tn_tokens = take (nat at) (tn_tokens nd),
        tn_endOffset = startOffset nd + at, tn_parent = Some p, tn_children = [node], tn_lastUsed = tn_lastUsed nd,
        tn_snapshots = s1, tn_user = False\<rparr>,
      node \<mapsto> nd\<lparr>tn_tokens := drop (nat at) (tn_tokens nd), tn_snapshots := s2\<rparr>)"
  proof (cases "hasSnapshots (node_at t2 node)")
    case True
    with that [of ps cs] ne p(1) assms(2) show thesis
      by (auto simp: t4_def sp swap_simps t2_def a_def fun_eq_iff)
  next
    case False
    with that [of "[]" "tn_snapshots nd"] ne p(1) assms(2) show thesis
      by (auto simp: t4_def t2_def a_def fun_eq_iff)
  qed
  have c4: "counted L t \<longrightarrow> counted L t4"
  proof (cases "hasSnapshots (node_at t2 node)")
    case True
    have b: "node < tr_next t2" "?np < tr_next t2"
      using trie_bound [OF assms(1,2)] by (simp_all add: t2_def a_def)
    have "tr_nodes t2 ?np \<noteq> None" using ne by (simp add: t2_def a_def)
    moreover have "counted L t \<Longrightarrow> per_layer L ps \<and> per_layer L cs"
      using counted_layers [of L t, OF _ assms(2)] split_snaps_length [OF sp] by (auto simp: per_layer_def)
    ultimately show ?thesis using True c2 n2 b ne
      by (auto simp: t4_def sp swap_simps intro!: counted_swap)
  next
    case False
    with c2 show ?thesis by (simp add: t4_def)
  qed
  have "counted L t \<longrightarrow> counted L ?t'" using c4 by (auto intro!: counted_upd)
  moreover have "split_store t node nd at p pd ?np ?t'"
    unfolding split_store_def using n4 p ne nx by (auto simp: fun_eq_iff)
  ultimately show ?thesis using eq by blast
qed

lemma hd_inj_cong:
  assumes "inj_on (\<lambda>c. hd (tn_tokens (node_at t c))) A"
    and "\<And>c. c \<in> A \<Longrightarrow> hd (tn_tokens (node_at t' c)) = hd (tn_tokens (node_at t c))"
  shows "inj_on (\<lambda>c. hd (tn_tokens (node_at t' c))) A"
  using assms by (simp cong: inj_on_cong)

lemma trie_inj: "trie_ok root t \<Longrightarrow> tr_nodes t n = Some nd \<Longrightarrow>
    inj_on (\<lambda>c. hd (tn_tokens (node_at t c))) (set (tn_children nd))"
  using trie_okD [of root t n nd] by (simp add: node_ok_def)

text \<open>The pointers still form a trie.\<close>

lemma splitNode_ok:
  assumes "trie_ok root t" "tr_nodes t node = Some nd" "0 < at" "at < int (length (tn_tokens nd))"
    and "length (tn_snapshots nd) \<le> la_count L" "splitNode L node at t = Some (np, t')"
  shows "trie_ok root t'"
proof -
  from splitNode_eq [OF assms(1-5)] assms(6) obtain p pd where "split_store t node nd at p pd np t'" by auto
  then obtain s1 s2 where
    np: "np = tr_next t" "tr_next t' = Suc np" and
    p: "tn_parent nd = Some p" "tr_nodes t p = Some pd" "node \<in> set (tn_children pd)" "p \<noteq> node" and
    eq: "tr_nodes t' = (tr_nodes t)(np \<mapsto> \<lparr>tn_tokens = take (nat at) (tn_tokens nd), tn_endOffset = startOffset nd + at,
        tn_parent = Some p, tn_children = [node], tn_lastUsed = tn_lastUsed nd, tn_snapshots = s1, tn_user = False\<rparr>,
      node \<mapsto> nd\<lparr>tn_tokens := drop (nat at) (tn_tokens nd), tn_snapshots := s2, tn_parent := Some np\<rparr>,
      p \<mapsto> pd\<lparr>tn_children := replace_first node np (tn_children pd)\<rparr>)"
    unfolding split_store_def by blast
  have fresh: "tr_nodes t np = None" unfolding np(1) by (rule trie_fresh [OF assms(1)])
  have ne: "np \<noteq> node" "np \<noteq> p" using fresh assms(2) p(2) by auto
  note okn = trie_okD [OF assms(1,2)] and okp = trie_okD [OF assms(1) p(2)]
  have edge: "tn_endOffset nd = tn_endOffset pd + int (length (tn_tokens nd))"
    using trie_child [OF assms(1) p(2,3)] assms(2) by (metis option.inject)
  have rs: "distinct (replace_first node np (tn_children pd)) \<and>
      set (replace_first node np (tn_children pd)) = insert np (set (tn_children pd) - {node})"
  proof (rule replace_first_set)
    show "distinct (tn_children pd)" using okp by (simp add: node_ok_def)
    show "np \<notin> set (tn_children pd)" using okp fresh by (auto simp: node_ok_def child_of_def)
  qed (rule p(3))
  have at: "0 < nat at" "nat at < length (tn_tokens nd)" using assms(3,4) by auto
  have hdnp: "hd (take (nat at) (tn_tokens nd)) = hd (tn_tokens nd)" using at by (simp add: hd_take)
  have np_at: "node_at t' np = \<lparr>tn_tokens = take (nat at) (tn_tokens nd), tn_endOffset = startOffset nd + at,
        tn_parent = Some p, tn_children = [node], tn_lastUsed = tn_lastUsed nd, tn_snapshots = s1, tn_user = False\<rparr>"
    using ne by (simp add: node_at_def eq)
  have p_at: "node_at t' p = pd\<lparr>tn_children := replace_first node np (tn_children pd)\<rparr>"
    by (simp add: node_at_def eq)
  have other: "tr_nodes t' m = tr_nodes t m" if "m \<noteq> np" "m \<noteq> node" "m \<noteq> p" for m
    using that by (simp add: eq)
  have tok: "tn_tokens (node_at t' c) = tn_tokens (node_at t c)" if "c \<noteq> np" "c \<noteq> node" for c
    using that p(2) by (simp add: node_at_def eq)
  have child: "child_of t' m md' c" if "child_of t m md c" "c \<noteq> node" "tn_endOffset md' = tn_endOffset md" for m md md' c
  proof (cases "c = p")
    case True
    with that(1,3) p(2) show ?thesis unfolding child_of_def eq by simp
  next
    case False
    have "c \<noteq> np" using that(1) fresh by (auto simp: child_of_def)
    with that False show ?thesis unfolding child_of_def other [OF \<open>c \<noteq> np\<close> that(2) False] by simp
  qed
  have only: "m = p" if "tr_nodes t m = Some md" "node \<in> set (tn_children md)" for m md
    using trie_okD [OF assms(1) that(1)] that(2) assms(2) p(1) by (auto simp: node_ok_def child_of_def)
  have old: "node_ok t' root m md'"
    if m: "tr_nodes t m = Some md" "m \<noteq> p" "m \<noteq> node" and md': "md' = md" for m md md'
  proof -
    note ok = trie_okD [OF assms(1) m(1)]
    have nn: "node \<notin> set (tn_children md)" using only m by blast
    have nnp: "np \<notin> set (tn_children md)" using ok fresh by (auto simp: node_ok_def child_of_def)
    have "inj_on (\<lambda>c. hd (tn_tokens (node_at t' c))) (set (tn_children md))"
      by (rule hd_inj_cong [OF trie_inj [OF assms(1) m(1)]]) (metis nn nnp tok)
    moreover have "\<exists>q qd. tn_parent md = Some q \<and> tr_nodes t' q = Some qd \<and> m \<in> set (tn_children qd)" if mr: "m \<noteq> root"
    proof -
      from trie_parent [OF assms(1) m(1) mr] obtain q qd where
        q: "tn_parent md = Some q" "tr_nodes t q = Some qd" "m \<in> set (tn_children qd)" by metis
      have "q \<noteq> np" using q(2) fresh by auto
      with q m(2,3) rs p(2) assms(2) show ?thesis by (cases "q = p"; cases "q = node") (auto simp: eq)
    qed
    moreover have "child_of t' m md' c" if "c \<in> set (tn_children md)" for c
      using child [of m md c md'] ok nn md' that by (auto simp: node_ok_def)
    ultimately show ?thesis
      using ok np(2) md' by (auto simp: node_ok_def np(1))
  qed
  show ?thesis
    unfolding trie_ok_def
  proof (intro conjI allI impI)
    show "tr_nodes t' root \<noteq> None" using assms(1) by (auto simp: trie_ok_def eq)
  next
    fix m md' assume m': "tr_nodes t' m = Some md'"
    consider "m = np" | "m = node" | "m = p" | "m \<noteq> np" "m \<noteq> node" "m \<noteq> p" by blast
    then show "node_ok t' root m md'"
    proof cases
      case 1
      have "md' = \<lparr>tn_tokens = take (nat at) (tn_tokens nd), tn_endOffset = startOffset nd + at,
        tn_parent = Some p, tn_children = [node], tn_lastUsed = tn_lastUsed nd, tn_snapshots = s1, tn_user = False\<rparr>"
        using m' np_at 1 by auto
      moreover have "np \<noteq> root" using fresh assms(1) by (auto simp: trie_ok_def)
      moreover have "0 \<le> tn_endOffset pd" using okp by (simp add: node_ok_def)
      moreover have "tr_nodes t' p = Some (pd\<lparr>tn_children := replace_first node np (tn_children pd)\<rparr>)" by (simp add: eq)
      moreover have "tr_nodes t' node = Some (nd\<lparr>tn_tokens := drop (nat at) (tn_tokens nd), tn_snapshots := s2, tn_parent := Some np\<rparr>)"
        using p(4) by (simp add: eq)
      ultimately show ?thesis using 1 rs np(2) at assms(3) edge
        by (auto simp: node_ok_def child_of_def startOffset_def)
    next
      case 2
      have md': "md' = nd\<lparr>tn_tokens := drop (nat at) (tn_tokens nd), tn_snapshots := s2, tn_parent := Some np\<rparr>"
        using m' 2 p(4) by (simp add: eq)
      have nr: "node \<noteq> root" using okn p(1) by (auto simp: node_ok_def)
      have nn: "node \<notin> set (tn_children nd)" using only [OF assms(2)] p(4) by blast
      have nnp: "np \<notin> set (tn_children nd)" using okn fresh by (auto simp: node_ok_def child_of_def)
      have "inj_on (\<lambda>c. hd (tn_tokens (node_at t' c))) (set (tn_children nd))"
        by (rule hd_inj_cong [OF trie_inj [OF assms(1,2)]]) (metis nn nnp tok)
      moreover have "tr_nodes t' np \<noteq> None" "node \<in> set (tn_children (node_at t' np))"
        using ne by (simp_all add: eq np_at)
      moreover have "child_of t' node md' c" if "c \<in> set (tn_children nd)" for c
        using child [of node nd c md'] okn nn md' that by (auto simp: node_ok_def)
      ultimately show ?thesis using 2 md' okn nr np by (auto simp: node_ok_def node_at_def)
    next
      case 3
      have md': "md' = pd\<lparr>tn_children := replace_first node np (tn_children pd)\<rparr>" using m' 3 by (simp add: eq)
      have "child_of t' p md' np"
        using at assms(3) edge ne by (auto simp: child_of_def eq md' startOffset_def)
      moreover have "child_of t' p md' c" if "c \<in> set (tn_children pd)" "c \<noteq> node" for c
        using child [of p pd c md'] okp that md' by (simp add: node_ok_def)
      moreover have "inj_on (\<lambda>c. hd (tn_tokens (node_at t' c))) (set (tn_children md'))"
      proof (rule inj_onI)
        fix c d assume cd: "c \<in> set (tn_children md')" "d \<in> set (tn_children md')"
          "hd (tn_tokens (node_at t' c)) = hd (tn_tokens (node_at t' d))"
        have h: "hd (tn_tokens (node_at t' c)) = hd (tn_tokens (node_at t (if c = np then node else c)))"
          if "c \<in> set (tn_children md')" for c
          using that rs md' tok [of c] hdnp np_at assms(2) by auto
        have in': "(if c = np then node else c) \<in> set (tn_children pd)" if "c \<in> set (tn_children md')" for c
          using that rs md' p(3) by auto
        have "(if c = np then node else c) = (if d = np then node else d)"
          using trie_siblings [OF assms(1) p(2) in' [OF cd(1)] in' [OF cd(2)]] h [OF cd(1)] h [OF cd(2)] cd(3)
          by presburger
        then show "c = d" using cd(1,2) rs md' by (auto split: if_splits)
      qed
      moreover have "\<exists>q qd. tn_parent pd = Some q \<and> tr_nodes t' q = Some qd \<and> p \<in> set (tn_children qd)" if "p \<noteq> root"
      proof -
        from trie_parent [OF assms(1) p(2) that] obtain q qd where
          q: "tn_parent pd = Some q" "tr_nodes t q = Some qd" "p \<in> set (tn_children qd)" "q \<noteq> p" by metis
        have "q \<noteq> np" using q(2) fresh by auto
        with q assms(2) show ?thesis by (cases "q = node") (auto simp: eq)
      qed
      ultimately show ?thesis using 3 md' okp rs np by (auto simp: node_ok_def)
    next
      case 4
      with m' old other show ?thesis by auto
    qed
  qed
qed

text \<open>Splitting an edge changes nothing of what is stored.\<close>

lemma split_store_nodes:
  assumes "trie_ok root t" "tr_nodes t node = Some nd" "split_store t node nd at p pd np t'"
  shows "tr_nodes t np = None" "np \<noteq> node" "np \<noteq> p" "p \<noteq> node"
    and "tn_children (node_at t' np) = [node]" "tn_tokens (node_at t' np) = take (nat at) (tn_tokens nd)"
    and "tr_nodes t' np \<noteq> None" "tr_nodes t' node \<noteq> None"
    and "tn_tokens (node_at t' node) = drop (nat at) (tn_tokens nd)"
    and "set (tn_children (node_at t' p)) = insert np (set (tn_children pd) - {node})"
    and "m \<noteq> np \<Longrightarrow> m \<noteq> node \<Longrightarrow> tn_tokens (node_at t' m) = tn_tokens (node_at t m)"
    and "m \<noteq> np \<Longrightarrow> m \<noteq> p \<Longrightarrow> tn_children (node_at t' m) = tn_children (node_at t m)"
    and "m \<noteq> np \<Longrightarrow> tr_nodes t' m = None \<longleftrightarrow> tr_nodes t m = None"
    and "\<And>m md. tr_nodes t m = Some md \<Longrightarrow> node \<in> set (tn_children md) \<Longrightarrow> m = p"
proof -
  from assms(3) obtain s1 s2 where
    np: "np = tr_next t" "tr_next t' = Suc np" and
    p: "tn_parent nd = Some p" "tr_nodes t p = Some pd" "node \<in> set (tn_children pd)" "p \<noteq> node" and
    eq: "tr_nodes t' = (tr_nodes t)(np \<mapsto> \<lparr>tn_tokens = take (nat at) (tn_tokens nd), tn_endOffset = startOffset nd + at,
        tn_parent = Some p, tn_children = [node], tn_lastUsed = tn_lastUsed nd, tn_snapshots = s1, tn_user = False\<rparr>,
      node \<mapsto> nd\<lparr>tn_tokens := drop (nat at) (tn_tokens nd), tn_snapshots := s2, tn_parent := Some np\<rparr>,
      p \<mapsto> pd\<lparr>tn_children := replace_first node np (tn_children pd)\<rparr>)"
    unfolding split_store_def by blast
  show fresh: "tr_nodes t np = None" unfolding np(1) by (rule trie_fresh [OF assms(1)])
  show ne: "np \<noteq> node" "np \<noteq> p" "p \<noteq> node" using fresh assms(2) p(2,4) by auto
  note okp = trie_okD [OF assms(1) p(2)]
  have "np \<notin> set (tn_children pd)" "distinct (tn_children pd)" using okp fresh by (auto simp: node_ok_def child_of_def)
  then show "set (tn_children (node_at t' p)) = insert np (set (tn_children pd) - {node})"
    using replace_first_set p(3) by (simp add: node_at_def eq)
  show "m = p" if "tr_nodes t m = Some md" "node \<in> set (tn_children md)" for m md
    using trie_okD [OF assms(1) that(1)] that(2) assms(2) p(1) by (auto simp: node_ok_def child_of_def)
  show "tn_children (node_at t' np) = [node]" "tn_tokens (node_at t' np) = take (nat at) (tn_tokens nd)"
    "tr_nodes t' np \<noteq> None" "tr_nodes t' node \<noteq> None"
    "tn_tokens (node_at t' node) = drop (nat at) (tn_tokens nd)"
    using ne by (simp_all add: node_at_def eq)
  show "m \<noteq> np \<Longrightarrow> m \<noteq> node \<Longrightarrow> tn_tokens (node_at t' m) = tn_tokens (node_at t m)"
    "m \<noteq> np \<Longrightarrow> m \<noteq> p \<Longrightarrow> tn_children (node_at t' m) = tn_children (node_at t m)"
    "m \<noteq> np \<Longrightarrow> tr_nodes t' m = None \<longleftrightarrow> tr_nodes t m = None"
    using assms(2) p(2) by (auto simp: node_at_def eq)
qed

lemma reach_stepI: "tr_nodes t n \<noteq> None \<Longrightarrow> c \<in> set (tn_children (node_at t n)) \<Longrightarrow> tr_nodes t c \<noteq> None \<Longrightarrow>
    reach t c m w \<Longrightarrow> reach t n m (tn_tokens (node_at t c) @ w)"
  by (auto intro: reach_step simp: node_at_def)

lemma stored_stepI: "tr_nodes t n \<noteq> None \<Longrightarrow> c \<in> set (tn_children (node_at t n)) \<Longrightarrow> tr_nodes t c \<noteq> None \<Longrightarrow>
    stored t c w \<Longrightarrow> stored t n (tn_tokens (node_at t c) @ w)"
  unfolding stored_def using reach_stepI by (metis prefixE prefixI append_assoc)

lemma stored_edge: "tr_nodes t n \<noteq> None \<Longrightarrow> c \<in> set (tn_children (node_at t n)) \<Longrightarrow> tr_nodes t c \<noteq> None \<Longrightarrow>
    prefix w (tn_tokens (node_at t c)) \<Longrightarrow> stored t n w"
  using stored_stepI [of t n c "[]"] stored_prefix by fastforce

lemma split_reach_new:
  assumes "trie_ok root t" "tr_nodes t node = Some nd" "split_store t node nd at p pd np t'"
  shows "reach t n m w \<Longrightarrow> n \<noteq> np \<Longrightarrow> reach t' n m w"
proof (induction rule: reach.induct)
  case (reach_step n md c cd m w)
  note S = split_store_nodes [OF assms]
  have c: "c \<noteq> np" using S(1) reach_step.hyps(3) by auto
  have n': "tr_nodes t' n \<noteq> None" and c': "tr_nodes t' c \<noteq> None"
    using S(13) reach_step.hyps(1,3) reach_step.prems c by auto
  show ?case
  proof (cases "c = node")
    case True
    with S(14) [OF reach_step.hyps(1)] reach_step.hyps(2) have n: "n = p" by simp
    have "reach t' np m (drop (nat at) (tn_tokens nd) @ w)"
      using reach_stepI [OF S(7), of node m w] S(5,8,9) reach_step.IH [OF c] True by simp
    then have "reach t' p m (take (nat at) (tn_tokens nd) @ drop (nat at) (tn_tokens nd) @ w)"
      using reach_stepI [of t' p np] n' n S(6,7,10) by simp
    with True reach_step.hyps(3) assms(2) n show ?thesis by (simp flip: append_assoc)
  next
    case False
    have "c \<in> set (tn_children (node_at t' n))"
      using S(10,12) reach_step.hyps(1,2) reach_step.prems False assms(3)
      by (cases "n = p") (auto simp: split_store_def)
    from reach_stepI [OF n' this c' reach_step.IH [OF c]] S(11) [OF c False] reach_step.hyps(3)
    show ?thesis by simp
  qed
qed (rule reach_refl)

lemma split_reach_old:
  assumes "trie_ok root t" "tr_nodes t node = Some nd" "split_store t node nd at p pd np t'"
  shows "reach t' n m w \<Longrightarrow> (n \<noteq> np \<longrightarrow> stored t n w) \<and>
    (n = np \<longrightarrow> w = [] \<or> (\<exists>u. w = drop (nat at) (tn_tokens nd) @ u \<and> stored t node u))"
proof (induction rule: reach.induct)
  case (reach_step n md c cd m w)
  note S = split_store_nodes [OF assms]
  have cd: "tn_tokens cd = tn_tokens (node_at t' c)" "tn_children md = tn_children (node_at t' n)"
    using reach_step.hyps by simp_all
  show ?case
  proof (cases "n = np")
    case True
    then have "c = node" using S(5) reach_step.hyps(1,2) by simp
    with reach_step.IH S(2,9) True cd show ?thesis by auto
  next
    case n: False
    then have nt: "tr_nodes t n \<noteq> None" using S(13) [of n] reach_step.hyps(1) by auto
    show ?thesis
    proof (cases "c = np")
      case True
      have "n = p"
      proof (rule ccontr)
        assume "n \<noteq> p"
        with S(12) n True reach_step.hyps(2) cd nt obtain y where y: "tr_nodes t n = Some y" "np \<in> set (tn_children y)" by auto
        from trie_edge(2) [OF assms(1) y] S(1) show False by simp
      qed
      have pn: "tr_nodes t p = Some pd" "node \<in> set (tn_children pd)" using assms(3) by (auto simp: split_store_def)
      from reach_step.IH True have "w = [] \<or> (\<exists>u. w = drop (nat at) (tn_tokens nd) @ u \<and> stored t node u)" by simp
      then have "stored t p (take (nat at) (tn_tokens nd) @ w)"
      proof (elim disjE exE conjE)
        assume "w = []"
        then show ?thesis using stored_edge [of t p node] pn assms(2) by (simp add: take_is_prefix)
      next
        fix u assume "w = drop (nat at) (tn_tokens nd) @ u" "stored t node u"
        then show ?thesis using stored_stepI [of t p node u] pn assms(2) by (simp flip: append_assoc)
      qed
      with True \<open>n = p\<close> S(3,6) cd show ?thesis by simp
    next
      case False
      have cn: "c \<noteq> node \<and> c \<in> set (tn_children (node_at t n))"
      proof (cases "n = p")
        case True
        with S(10) reach_step.hyps(2) cd False assms(3) show ?thesis by (auto simp: split_store_def)
      next
        case False
        with S(12) n reach_step.hyps(2) cd have "c \<in> set (tn_children (node_at t n))" by simp
        moreover have "c \<noteq> node" using S(14) [of n] nt calculation False by auto
        ultimately show ?thesis by simp
      qed
      have "tr_nodes t c \<noteq> None" using S(13) [of c] False reach_step.hyps(3) by auto
      from stored_stepI [OF nt conjunct2 [OF cn] this] reach_step.IH False cn S(11) cd n show ?thesis by simp
    qed
  qed
qed simp

lemma split_stored:
  assumes "trie_ok root t" "tr_nodes t node = Some nd" "split_store t node nd at p pd np t'" "n \<noteq> np"
  shows "stored t' n ks \<longleftrightarrow> stored t n ks"
proof
  assume "stored t' n ks"
  then obtain m w where "reach t' n m w" "prefix ks w" by (auto simp: stored_def)
  with split_reach_old [OF assms(1-3) this(1)] assms(4) stored_prefix show "stored t n ks" by blast
next
  assume "stored t n ks"
  then show "stored t' n ks" using split_reach_new [OF assms(1-3)] assms(4) unfolding stored_def by blast
qed

section \<open>Appending tokens\<close>

text \<open>A new leaf below \<open>n\<close>, and a longer leaf.\<close>

definition leaf_store :: "'snap trie \<Rightarrow> nat \<Rightarrow> 'snap trie_node \<Rightarrow> trie_key list \<Rightarrow> int \<Rightarrow> 'snap trie \<Rightarrow> bool" where
  "leaf_store t n nd tokens e t' \<longleftrightarrow> tr_next t' = Suc (tr_next t) \<and>
     tr_nodes t' = (tr_nodes t)(tr_next t \<mapsto> \<lparr>tn_tokens = tokens, tn_endOffset = e, tn_parent = Some n,
         tn_children = [], tn_lastUsed = tn_lastUsed nd, tn_snapshots = [], tn_user = False\<rparr>,
       n \<mapsto> nd\<lparr>tn_children := tn_children nd @ [tr_next t]\<rparr>)"

definition grown_store :: "'snap trie \<Rightarrow> nat \<Rightarrow> 'snap trie_node \<Rightarrow> trie_key list \<Rightarrow> int \<Rightarrow> 'snap trie \<Rightarrow> bool" where
  "grown_store t n nd tokens e t' \<longleftrightarrow> tr_next t' = tr_next t \<and>
     tr_nodes t' = (tr_nodes t)(n \<mapsto> nd\<lparr>tn_tokens := tn_tokens nd @ tokens, tn_endOffset := e\<rparr>)"

lemma appendTokens_eq:
  assumes "trie_ok root t" "tr_nodes t n = Some nd" "appendTokens n root tokens e t = (n', t')"
  shows "(counted L t \<longrightarrow> counted L t') \<and>
    (if n = root \<or> tn_children nd \<noteq> [] \<or> hasSnapshots nd then n' = tr_next t \<and> leaf_store t n nd tokens e t'
     else n' = n \<and> grown_store t n nd tokens e t')"
proof -
  have "n \<noteq> tr_next t" using trie_bound [OF assms(1,2)] by simp
  with assms(2,3) show ?thesis
    using trie_fresh [OF assms(1)]
    by (auto simp: appendTokens_def leaf_store_def grown_store_def alloc_def upd_def fun_eq_iff
        split: if_splits prod.splits intro!: counted_upd counted_alloc [unfolded alloc_def, simplified]
        simp flip: upd_def)
qed

lemma leaf_store_ok:
  assumes "trie_ok root t" "tr_nodes t n = Some nd" "leaf_store t n nd tokens e t'"
    and "tokens \<noteq> []" "e = tn_endOffset nd + int (length tokens)"
    and "\<forall>c \<in> set (tn_children nd). hd (tn_tokens (node_at t c)) \<noteq> hd tokens"
  shows "trie_ok root t'"
proof -
  let ?c = "tr_next t"
  let ?nd = "nd\<lparr>tn_children := tn_children nd @ [?c]\<rparr>"
  let ?cd = "\<lparr>tn_tokens = tokens, tn_endOffset = e, tn_parent = Some n,
         tn_children = [], tn_lastUsed = tn_lastUsed nd, tn_snapshots = [], tn_user = False\<rparr>"
  note fresh = trie_fresh [OF assms(1)] and okn = trie_okD [OF assms(1,2)]
  have ne: "?c \<noteq> n" "?c \<noteq> root" using fresh assms(1,2) by (auto simp: trie_ok_def)
  have nx: "tr_next t' = Suc ?c" and new: "tr_nodes t' ?c = Some ?cd" and here: "tr_nodes t' n = Some ?nd"
    and other: "\<And>m. m \<noteq> ?c \<Longrightarrow> m \<noteq> n \<Longrightarrow> tr_nodes t' m = tr_nodes t m"
    using assms(3) ne by (auto simp: leaf_store_def)
  have tok: "tn_tokens (node_at t' m) = tn_tokens (node_at t m)" if "m \<noteq> ?c" for m
    using that here other [of m] assms(2) by (cases "m = n") (simp_all add: node_at_def)
  have child: "child_of t' m md' c" if "child_of t m md c" "tn_endOffset md' = tn_endOffset md" for m md md' c
  proof -
    have "c \<noteq> ?c" using that(1) fresh by (auto simp: child_of_def)
    with that here other [of c] assms(2) show ?thesis by (cases "c = n") (auto simp: child_of_def)
  qed
  have old: "c \<noteq> ?c" if "tr_nodes t m = Some md" "c \<in> set (tn_children md)" for m md c
    using trie_edge(2) [OF assms(1) that] fresh by auto
  have par: "\<exists>q qd. tn_parent md = Some q \<and> tr_nodes t' q = Some qd \<and> m \<in> set (tn_children qd)"
    if "tr_nodes t m = Some md" "m \<noteq> root" for m md
  proof -
    from trie_parent [OF assms(1) that] obtain q qd where
      q: "tn_parent md = Some q" "tr_nodes t q = Some qd" "m \<in> set (tn_children qd)" by metis
    have "q \<noteq> ?c" using q(2) fresh by auto
    with q assms(2) here other [of q] show ?thesis by (cases "q = n") auto
  qed
  show ?thesis
    unfolding trie_ok_def
  proof (intro conjI allI impI)
    show "tr_nodes t' root \<noteq> None" using assms(1) here other [of root] ne by (cases "root = n") (auto simp: trie_ok_def)
    fix m md' assume m': "tr_nodes t' m = Some md'"
    consider "m = ?c" | "m = n" | "m \<noteq> ?c" "m \<noteq> n" by blast
    then show "node_ok t' root m md'"
    proof cases
      case 1
      with m' new here ne nx assms(5) okn show ?thesis by (auto simp: node_ok_def)
    next
      case 2
      have md': "md' = ?nd" using m' here 2 by simp
      have "child_of t' n ?nd ?c" using new assms(4,5) by (simp add: child_of_def)
      moreover have "child_of t' n ?nd c" if "c \<in> set (tn_children nd)" for c
        using child [of n nd c ?nd] okn that by (simp add: node_ok_def)
      moreover have "inj_on (\<lambda>c. hd (tn_tokens (node_at t' c))) (set (tn_children ?nd))"
      proof -
        have "inj_on (\<lambda>c. hd (tn_tokens (node_at t' c))) (set (tn_children nd))"
          by (rule hd_inj_cong [OF trie_inj [OF assms(1,2)]]) (metis old [OF assms(2)] tok)
        moreover have "hd (tn_tokens (node_at t' c)) \<noteq> hd (tn_tokens (node_at t' ?c))" if "c \<in> set (tn_children nd)" for c
          using assms(6) that tok [OF old [OF assms(2) that]] new by (auto simp: node_at_def)
        then have "hd (tn_tokens (node_at t' ?c)) \<notin>
            (\<lambda>c. hd (tn_tokens (node_at t' c))) ` (set (tn_children nd) - {?c})"
          by (metis (no_types, lifting) DiffD1 imageE)
        ultimately show ?thesis by (simp add: inj_on_insert)
      qed
      moreover have "?c \<notin> set (tn_children nd)" using old [OF assms(2)] by blast
      ultimately show ?thesis using 2 md' okn nx par [OF assms(2)] by (auto simp: node_ok_def)
    next
      case 3
      then have m: "tr_nodes t m = Some md'" using m' other by simp
      note ok = trie_okD [OF assms(1) m]
      have "inj_on (\<lambda>c. hd (tn_tokens (node_at t' c))) (set (tn_children md'))"
        by (rule hd_inj_cong [OF trie_inj [OF assms(1) m]]) (metis old [OF m] tok)
      moreover have "child_of t' m md' c" if "c \<in> set (tn_children md')" for c
        using child [of m md' c md'] ok that by (simp add: node_ok_def)
      ultimately show ?thesis using ok nx par [OF m] by (auto simp: node_ok_def)
    qed
  qed
qed

lemma grown_store_ok:
  assumes "trie_ok root t" "tr_nodes t n = Some nd" "grown_store t n nd tokens e t'"
    and "n \<noteq> root" "tn_children nd = []" "e = tn_endOffset nd + int (length tokens)"
  shows "trie_ok root t'"
proof -
  let ?nd = "nd\<lparr>tn_tokens := tn_tokens nd @ tokens, tn_endOffset := e\<rparr>"
  note okn = trie_okD [OF assms(1,2)]
  have nx: "tr_next t' = tr_next t" and here: "tr_nodes t' n = Some ?nd"
    and other: "\<And>m. m \<noteq> n \<Longrightarrow> tr_nodes t' m = tr_nodes t m"
    using assms(3) by (auto simp: grown_store_def)
  from trie_parent [OF assms(1,2,4)] have ne: "tn_tokens nd \<noteq> []" by metis
  have tok: "hd (tn_tokens (node_at t' m)) = hd (tn_tokens (node_at t m))" for m
    using here other [of m] assms(2) ne by (cases "m = n") (simp_all add: node_at_def)
  have child: "child_of t' m md c" if "child_of t m md c" for m md c
    using that here other [of c] assms(2,6) by (cases "c = n") (auto simp: child_of_def)
  have par: "\<exists>q qd. tn_parent md = Some q \<and> tr_nodes t' q = Some qd \<and> m \<in> set (tn_children qd)"
    if "tr_nodes t m = Some md" "m \<noteq> root" for m md
  proof -
    from trie_parent [OF assms(1) that] obtain q qd where
      q: "tn_parent md = Some q" "tr_nodes t q = Some qd" "m \<in> set (tn_children qd)" by metis
    with assms(2) here other [of q] show ?thesis by (cases "q = n") auto
  qed
  show ?thesis
    unfolding trie_ok_def
  proof (intro conjI allI impI)
    show "tr_nodes t' root \<noteq> None" using assms(1,4) other [of root] by (simp add: trie_ok_def)
    fix m md' assume m': "tr_nodes t' m = Some md'"
    show "node_ok t' root m md'"
    proof (cases "m = n")
      case True
      with m' here have "md' = ?nd" by simp
      with True okn nx par [OF assms(2,4)] assms(4-6) show ?thesis by (auto simp: node_ok_def)
    next
      case False
      then have m: "tr_nodes t m = Some md'" using m' other by simp
      note ok = trie_okD [OF assms(1) m]
      have "inj_on (\<lambda>c. hd (tn_tokens (node_at t' c))) (set (tn_children md'))"
        by (rule hd_inj_cong [OF trie_inj [OF assms(1) m]]) (rule tok)
      with ok nx par [OF m] child show ?thesis by (auto simp: node_ok_def)
    qed
  qed
qed

text \<open>What is stored afterwards: what was stored before, and the new text.\<close>

lemma stored_added:
  assumes "\<And>m w. reach t x m w \<Longrightarrow> \<exists>m' u. reach t' x m' (w @ u)"
    and "\<And>w. reach t x n w \<Longrightarrow> \<exists>m'. reach t' x m' (w @ tokens)"
    and "\<And>m w. reach t' x m w \<Longrightarrow> (\<exists>m'. reach t x m' w) \<or> (\<exists>w0. reach t x n w0 \<and> w = w0 @ tokens)"
  shows "stored t' x ks \<longleftrightarrow> stored t x ks \<or> (\<exists>w. reach t x n w \<and> prefix ks (w @ tokens))"
proof
  assume "stored t' x ks"
  then obtain m w where m: "reach t' x m w" "prefix ks w" by (auto simp: stored_def)
  from assms(3) [OF m(1)] m(2) show "stored t x ks \<or> (\<exists>w. reach t x n w \<and> prefix ks (w @ tokens))"
    by (auto simp: stored_def)
next
  assume "stored t x ks \<or> (\<exists>w. reach t x n w \<and> prefix ks (w @ tokens))"
  then show "stored t' x ks"
  proof
    assume "stored t x ks"
    then obtain m w where m: "reach t x m w" "prefix ks w" by (auto simp: stored_def)
    from assms(1) [OF m(1)] obtain m' u where "reach t' x m' (w @ u)" by blast
    moreover have "prefix ks (w @ u)" using m(2) by simp
    ultimately show ?thesis unfolding stored_def by blast
  next
    assume "\<exists>w. reach t x n w \<and> prefix ks (w @ tokens)"
    with assms(2) show ?thesis unfolding stored_def by blast
  qed
qed

lemma leaf_store_stored:
  assumes "trie_ok root t" "tr_nodes t n = Some nd" "leaf_store t n nd tokens e t'" "x \<noteq> tr_next t"
  shows "stored t' x ks \<longleftrightarrow> stored t x ks \<or> (\<exists>w. reach t x n w \<and> prefix ks (w @ tokens))"
    and "reach t x m w \<Longrightarrow> reach t' x m w"
    and "reach t x n w \<Longrightarrow> reach t' x (tr_next t) (w @ tokens)"
proof -
  let ?c = "tr_next t"
  note fresh = trie_fresh [OF assms(1)]
  have ne: "?c \<noteq> n" using fresh assms(2) by auto
  have new: "tr_nodes t' ?c \<noteq> None" "tn_tokens (node_at t' ?c) = tokens" "tn_children (node_at t' ?c) = []"
    and here: "tr_nodes t' n = Some (nd\<lparr>tn_children := tn_children nd @ [?c]\<rparr>)"
    and other: "\<And>m. m \<noteq> ?c \<Longrightarrow> m \<noteq> n \<Longrightarrow> tr_nodes t' m = tr_nodes t m"
    using assms(3) ne by (auto simp: leaf_store_def node_at_def)
  have fwd: "reach t x m w \<Longrightarrow> reach t' x m w" for x m w
  proof (induction rule: reach.induct)
    case (reach_step x md c cd m w)
    have "c \<noteq> ?c" "x \<noteq> ?c" using reach_step.hyps(1,3) fresh by auto
    then have "tr_nodes t' x \<noteq> None" "c \<in> set (tn_children (node_at t' x))" "tr_nodes t' c \<noteq> None"
      "tn_tokens (node_at t' c) = tn_tokens cd"
      using reach_step.hyps here other [of x] other [of c] assms(2)
      by (cases "x = n"; cases "c = n"; auto simp: node_at_def)+
    with reach_stepI [of t' x c m w] reach_step.IH show ?case by simp
  qed (rule reach_refl)
  then show "reach t x m w \<Longrightarrow> reach t' x m w" .
  have end': "reach t' n ?c tokens"
    using reach_stepI [of t' n ?c ?c "[]"] here new reach_refl [of t' ?c] by simp
  show "reach t x n w \<Longrightarrow> reach t' x (tr_next t) (w @ tokens)"
    using reach_trans [OF fwd end'] by blast
  have bwd: "reach t' x m w \<Longrightarrow> x \<noteq> ?c \<Longrightarrow> reach t x m w \<or> (\<exists>w0. reach t x n w0 \<and> w = w0 @ tokens)" for x m w
  proof (induction rule: reach.induct)
    case (reach_step x md c cd m w)
    show ?case
    proof (cases "c = ?c")
      case True
      have "x = n"
      proof (rule ccontr)
        assume "x \<noteq> n"
        with other [of x] reach_step.hyps(1,2) reach_step.prems True have y: "tr_nodes t x = Some md" "?c \<in> set (tn_children md)" by auto
        from trie_edge(2) [OF assms(1) y] fresh show False by simp
      qed
      moreover have "w = []" using reach_step.hyps(4) True new by (cases rule: reach.cases) (auto simp: node_at_def)
      ultimately show ?thesis using True new reach_step.hyps(3) reach_refl [of t n] by (auto simp: node_at_def)
    next
      case False
      have x: "tr_nodes t x \<noteq> None" "c \<in> set (tn_children (node_at t x))"
      proof -
        show "tr_nodes t x \<noteq> None"
          using reach_step.hyps(1) reach_step.prems other [of x] assms(2) by (cases "x = n") simp_all
        show "c \<in> set (tn_children (node_at t x))"
        proof (cases "x = n")
          case True
          with reach_step.hyps(1,2) here False assms(2) show ?thesis by auto
        next
          case False
          with reach_step.hyps(1,2) reach_step.prems other [of x] show ?thesis by simp
        qed
      qed
      have c: "tr_nodes t c \<noteq> None" "tn_tokens (node_at t c) = tn_tokens cd"
      proof -
        show "tr_nodes t c \<noteq> None"
          using reach_step.hyps(3) False other [of c] assms(2) by (cases "c = n") simp_all
        show "tn_tokens (node_at t c) = tn_tokens cd"
        proof (cases "c = n")
          case True
          with reach_step.hyps(3) here assms(2) show ?thesis by auto
        next
          case ne: False
          with reach_step.hyps(3) False other [of c] show ?thesis by simp
        qed
      qed
      from reach_step.IH [OF False] show ?thesis
      proof
        assume "reach t c m w"
        from reach_stepI [OF x c(1) this] c(2) show ?thesis by simp
      next
        assume "\<exists>w0. reach t c n w0 \<and> w = w0 @ tokens"
        then obtain w0 where w0: "reach t c n w0" "w = w0 @ tokens" by blast
        with reach_stepI [OF x c(1) w0(1)] c(2) show ?thesis
          by (intro disjI2 exI [of _ "tn_tokens cd @ w0"]) simp
      qed
    qed
  qed (simp add: reach_refl)
  show "stored t' x ks \<longleftrightarrow> stored t x ks \<or> (\<exists>w. reach t x n w \<and> prefix ks (w @ tokens))"
  proof (rule stored_added)
    show "\<exists>m' u. reach t' x m' (w @ u)" if "reach t x m w" for m w
      by (intro exI [of _ m] exI [of _ "[]"]) (simp add: fwd that)
    show "\<exists>m'. reach t' x m' (w @ tokens)" if "reach t x n w" for w
      using reach_trans [OF fwd [OF that] end'] by blast
    show "(\<exists>m'. reach t x m' w) \<or> (\<exists>w0. reach t x n w0 \<and> w = w0 @ tokens)" if "reach t' x m w" for m w
      using bwd [OF that assms(4)] by blast
  qed
qed

lemma grown_store_stored:
  assumes "trie_ok root t" "tr_nodes t n = Some nd" "grown_store t n nd tokens e t'" "tn_children nd = []" "x \<noteq> n"
  shows "stored t' x ks \<longleftrightarrow> stored t x ks \<or> (\<exists>w. reach t x n w \<and> prefix ks (w @ tokens))"
    and "m \<noteq> n \<Longrightarrow> reach t x m w \<Longrightarrow> reach t' x m w"
    and "reach t x n w \<Longrightarrow> reach t' x n (w @ tokens)"
proof -
  have here: "tr_nodes t' n \<noteq> None" "tn_tokens (node_at t' n) = tn_tokens nd @ tokens" "tn_children (node_at t' n) = []"
    and other: "\<And>m. m \<noteq> n \<Longrightarrow> tr_nodes t' m = tr_nodes t m"
    using assms(3,4) by (auto simp: grown_store_def node_at_def)
  have leaf: "reach t n m w \<Longrightarrow> m = n \<and> w = []" for m w
    by (cases rule: reach.cases) (use assms(2,4) in auto)
  have leaf': "reach t' n m w \<Longrightarrow> m = n \<and> w = []" for m w
    by (cases rule: reach.cases) (use here in \<open>auto simp: node_at_def\<close>)
  have fwd: "reach t x m w \<Longrightarrow> x \<noteq> n \<Longrightarrow> reach t' x m (if m = n then w @ tokens else w)" for x m w
  proof (induction rule: reach.induct)
    case (reach_step x md c cd m w)
    have x: "tr_nodes t' x \<noteq> None" "c \<in> set (tn_children (node_at t' x))"
      using reach_step.hyps(1,2) reach_step.prems other [of x] by (auto simp: node_at_def)
    show ?case
    proof (cases "c = n")
      case True
      with leaf reach_step.hyps(4) have "m = n" "w = []" by auto
      with True reach_stepI [OF x _ reach_refl] here assms(2) reach_step.hyps(3) show ?thesis by simp
    next
      case False
      with reach_stepI [OF x _ reach_step.IH [OF False]] other [OF False] reach_step.hyps(3)
      show ?thesis by (simp add: node_at_def split: if_splits)
    qed
  qed (auto intro: reach_refl)
  then show "m \<noteq> n \<Longrightarrow> reach t x m w \<Longrightarrow> reach t' x m w" "reach t x n w \<Longrightarrow> reach t' x n (w @ tokens)"
    using assms(5) by fastforce+
  have bwd: "reach t' x m w \<Longrightarrow> x \<noteq> n \<Longrightarrow> \<exists>w0. reach t x m w0 \<and> w = (if m = n then w0 @ tokens else w0)" for x m w
  proof (induction rule: reach.induct)
    case (reach_step x md c cd m w)
    have x: "tr_nodes t x \<noteq> None" "c \<in> set (tn_children (node_at t x))"
      using reach_step.hyps(1,2) reach_step.prems other [of x] by (auto simp: node_at_def)
    show ?case
    proof (cases "c = n")
      case True
      with leaf' reach_step.hyps(4) have "m = n" "w = []" by auto
      with True reach_stepI [OF x _ reach_refl] here assms(2) reach_step.hyps(3) show ?thesis
        by (intro exI [of _ "tn_tokens nd"]) (simp add: node_at_def)
    next
      case False
      with reach_step.IH obtain w0 where w0: "reach t c m w0" "w = (if m = n then w0 @ tokens else w0)" by blast
      have "tr_nodes t c = Some cd" using other [OF False] reach_step.hyps(3) by simp
      with reach_stepI [OF x _ w0(1)] have "reach t x m (tn_tokens cd @ w0)" by simp
      with w0(2) show ?thesis by (intro exI [of _ "tn_tokens cd @ w0"]) simp
    qed
  qed (auto intro: reach_refl)
  show "stored t' x ks \<longleftrightarrow> stored t x ks \<or> (\<exists>w. reach t x n w \<and> prefix ks (w @ tokens))"
  proof (rule stored_added)
    show "\<exists>m' u. reach t' x m' (w @ u)" if "reach t x m w" for m w
      by (intro exI [of _ m] exI [of _ "if m = n then tokens else []"])
        (use fwd [OF that assms(5)] in \<open>simp split: if_splits\<close>)
    show "\<exists>m'. reach t' x m' (w @ tokens)" if "reach t x n w" for w
      using fwd [OF that assms(5)] by auto
    show "(\<exists>m'. reach t x m' w) \<or> (\<exists>w0. reach t x n w0 \<and> w = w0 @ tokens)" if "reach t' x m w" for m w
      using bwd [OF that assms(5)] by (metis (full_types))
  qed
qed

end
