(* ===== verification/TrieEvict.thy ===== *)
theory TrieEvict
  imports TrieInsert
begin

text \<open>
  The operations of the prefix trie that evict: removing a leaf and merging a node with its
  only child, and the walk over all nodes. Each keeps the shape of the trie and the count of
  bytes; a merge changes nothing of what is stored, a removal forgets only the leaf's edge.
\<close>

section \<open>Removing a leaf\<close>

lemma remove1_set: "distinct xs \<Longrightarrow> distinct (remove1 x xs) \<and> set (remove1 x xs) = set xs - {x}"
  by simp

definition cut_store :: "'snap trie \<Rightarrow> nat \<Rightarrow> nat \<Rightarrow> 'snap trie_node \<Rightarrow> 'snap trie \<Rightarrow> bool" where
  "cut_store t n p pd t' \<longleftrightarrow> tr_next t' = tr_next t \<and> tr_nodes t p = Some pd \<and> n \<in> set (tn_children pd) \<and> p \<noteq> n \<and>
     tr_nodes t' = (tr_nodes t)(n := None, p \<mapsto> pd\<lparr>tn_children := remove1 n (tn_children pd)\<rparr>)"

lemma removeNode_eq:
  assumes "trie_ok root t" "tr_nodes t n = Some nd" "n \<noteq> root" "tn_children nd = []"
  shows "\<exists>p pd t'. removeNode L n t = Some t' \<and> cut_store t n p pd t' \<and> (counted L t \<longrightarrow> counted L t')"
proof -
  from trie_parent [OF assms(1-3)] obtain p pd where
    p: "tn_parent nd = Some p" "tr_nodes t p = Some pd" "n \<in> set (tn_children pd)" "p \<noteq> n" by metis
  define t2 where "t2 = upd n (\<lambda>nd. nd\<lparr>tn_parent := None\<rparr>) (upd p (\<lambda>nd. nd\<lparr>tn_children := remove1 n (tn_children nd)\<rparr>) t)"
  let ?t3 = "snd (swapSnapshots L n [] t2)"
  have r: "removeNode L n t = Some (drop_node n ?t3)"
    using assms(2,4) p(1) by (simp add: removeNode_def t2_def swap_simps)
  have n2: "tr_nodes t2 n = Some (nd\<lparr>tn_parent := None\<rparr>)" using assms(2) p(4) by (simp add: t2_def)
  have b: "n < tr_next t2" using trie_bound [OF assms(1,2)] by (simp add: t2_def)
  have "counted L t \<longrightarrow> counted L ?t3"
  proof
    assume "counted L t"
    then have "counted L t2" unfolding t2_def by (intro counted_upd) simp_all
    from counted_swap [OF this n2 b per_layer_Nil] show "counted L ?t3" .
  qed
  moreover have "node_bytes L ?t3 n = 0"
    using n2 by (simp add: node_bytes_def snapshotBytes_def snaps_bytes_def)
  ultimately have "counted L t \<longrightarrow> counted L (drop_node n ?t3)" by (simp add: counted_drop)
  moreover have "cut_store t n p pd (drop_node n ?t3)"
    using p assms(2) by (auto simp: cut_store_def drop_node_def t2_def fun_eq_iff)
  ultimately show ?thesis using r by blast
qed

lemma cut_store_ok:
  assumes "trie_ok root t" "tr_nodes t n = Some nd" "n \<noteq> root" "tn_children nd = []" "cut_store t n p pd t'"
  shows "trie_ok root t'"
proof -
  let ?pd = "pd\<lparr>tn_children := remove1 n (tn_children pd)\<rparr>"
  have nx: "tr_next t' = tr_next t" and p: "tr_nodes t p = Some pd" "n \<in> set (tn_children pd)" "p \<noteq> n"
    and gone: "tr_nodes t' n = None" and here: "tr_nodes t' p = Some ?pd"
    and other: "\<And>m. m \<noteq> n \<Longrightarrow> m \<noteq> p \<Longrightarrow> tr_nodes t' m = tr_nodes t m"
    using assms(5) by (auto simp: cut_store_def)
  note okp = trie_okD [OF assms(1) p(1)]
  have rs: "distinct (tn_children pd)" "set (tn_children ?pd) = set (tn_children pd) - {n}"
    using okp by (simp_all add: node_ok_def)
  have tok: "tn_tokens (node_at t' m) = tn_tokens (node_at t m)" if "m \<noteq> n" for m
    using that here other [of m] p(1) by (cases "m = p") (simp_all add: node_at_def)
  have child: "child_of t' m md' c" if "child_of t m md c" "c \<noteq> n" "tn_endOffset md' = tn_endOffset md" for m md md' c
    using that here other [of c] p(1) by (cases "c = p") (auto simp: child_of_def)
  have only: "m = p" if "tr_nodes t m = Some md" "n \<in> set (tn_children md)" for m md
  proof -
    have "child_of t m md n" using trie_okD [OF assms(1) that(1)] that(2) by (simp add: node_ok_def)
    moreover have "child_of t p pd n" using okp p(2) by (simp add: node_ok_def)
    ultimately show ?thesis by (auto simp: child_of_def)
  qed
  have par: "\<exists>q qd. tn_parent md = Some q \<and> tr_nodes t' q = Some qd \<and> m \<in> set (tn_children qd)"
    if m: "tr_nodes t m = Some md" "m \<noteq> root" "m \<noteq> n" for m md
  proof -
    from trie_parent [OF assms(1) m(1,2)] obtain q qd where
      q: "tn_parent md = Some q" "tr_nodes t q = Some qd" "m \<in> set (tn_children qd)" by metis
    have "q \<noteq> n" using q(2,3) assms(2,4) by auto
    with q m(3) here other [of q] p(1) rs show ?thesis by (cases "q = p") auto
  qed
  show ?thesis
    unfolding trie_ok_def
  proof (intro conjI allI impI)
    show "tr_nodes t' root \<noteq> None"
      using assms(1,3) here other [of root] by (cases "root = p") (auto simp: trie_ok_def)
    fix m md' assume m': "tr_nodes t' m = Some md'"
    then have mn: "m \<noteq> n" using gone by auto
    show "node_ok t' root m md'"
    proof (cases "m = p")
      case True
      then have md': "md' = ?pd" using m' here by simp
      have "inj_on (\<lambda>c. hd (tn_tokens (node_at t' c))) (set (tn_children ?pd))"
        by (rule hd_inj_cong [OF inj_on_subset [OF trie_inj [OF assms(1) p(1)]]]) (use rs tok in auto)
      moreover have "child_of t' p ?pd c" if "c \<in> set (tn_children ?pd)" for c
        using child [of p pd c ?pd] okp that rs by (simp add: node_ok_def)
      moreover have "distinct (tn_children ?pd)" using rs by simp
      ultimately show ?thesis using True md' okp nx par [OF p(1)] p(3) by (auto simp: node_ok_def)
    next
      case False
      then have m: "tr_nodes t m = Some md'" using m' other mn by simp
      note ok = trie_okD [OF assms(1) m]
      have nn: "n \<notin> set (tn_children md')" using only [OF m] False by blast
      have "inj_on (\<lambda>c. hd (tn_tokens (node_at t' c))) (set (tn_children md'))"
        by (rule hd_inj_cong [OF trie_inj [OF assms(1) m]]) (metis nn tok)
      moreover have "child_of t' m md' c" if "c \<in> set (tn_children md')" for c
        using child [of m md' c md'] ok that nn by (auto simp: node_ok_def)
      ultimately show ?thesis using ok nx par [OF m] mn by (auto simp: node_ok_def)
    qed
  qed
qed

text \<open>Every other node keeps its text.\<close>

lemma cut_store_reach:
  assumes "trie_ok root t" "tr_nodes t n = Some nd" "tn_children nd = []" "cut_store t n p pd t'" "x \<noteq> n"
  shows "reach t' x m w \<longleftrightarrow> reach t x m w \<and> m \<noteq> n"
proof -
  let ?pd = "pd\<lparr>tn_children := remove1 n (tn_children pd)\<rparr>"
  have p: "tr_nodes t p = Some pd" "n \<in> set (tn_children pd)" "p \<noteq> n"
    and gone: "tr_nodes t' n = None" and here: "tr_nodes t' p = Some ?pd"
    and other: "\<And>m. m \<noteq> n \<Longrightarrow> m \<noteq> p \<Longrightarrow> tr_nodes t' m = tr_nodes t m"
    using assms(4) by (auto simp: cut_store_def)
  have rs: "set (remove1 n (tn_children pd)) = set (tn_children pd) - {n}"
    using trie_okD [OF assms(1) p(1)] by (simp add: node_ok_def)
  have leaf: "reach t n m w \<Longrightarrow> m = n" for m w
    by (cases rule: reach.cases) (use assms(2,3) in auto)
  have nodes: "tr_nodes t' x \<noteq> None \<and> tn_tokens (node_at t' x) = tn_tokens (node_at t x) \<and>
      set (tn_children (node_at t' x)) = set (tn_children (node_at t x)) - {n}"
    if "tr_nodes t x = Some xd" "x \<noteq> n" for x xd
  proof (cases "x = p")
    case True
    with here rs p(1) show ?thesis by simp
  next
    case False
    have "n \<notin> set (tn_children xd)"
    proof
      assume "n \<in> set (tn_children xd)"
      then have "child_of t x xd n" using trie_okD [OF assms(1) that(1)] by (simp add: node_ok_def)
      moreover have "child_of t p pd n" using trie_okD [OF assms(1) p(1)] p(2) by (simp add: node_ok_def)
      ultimately show False using False by (auto simp: child_of_def)
    qed
    with that other [OF that(2) False] show ?thesis by (simp add: node_at_def)
  qed
  have "reach t x m w \<Longrightarrow> m \<noteq> n \<Longrightarrow> x \<noteq> n \<Longrightarrow> reach t' x m w"
  proof (induction rule: reach.induct)
    case (reach_step x xd c cd m w)
    have c: "c \<noteq> n" using leaf reach_step.hyps(4) reach_step.prems(1) by auto
    from nodes [OF reach_step.hyps(1) reach_step.prems(2)] nodes [OF reach_step.hyps(3) c] c reach_step.hyps
      reach_stepI [of t' x c m w] reach_step.IH [OF reach_step.prems(1) c] show ?case by auto
  qed (rule reach_refl)
  moreover have "reach t' x m w \<Longrightarrow> x \<noteq> n \<Longrightarrow> reach t x m w \<and> m \<noteq> n"
  proof (induction rule: reach.induct)
    case (reach_step x xd c cd m w)
    have c: "c \<noteq> n" using reach_step.hyps(3) gone by auto
    have "tr_nodes t x \<noteq> None"
      using reach_step.hyps(1) reach_step.prems other [of x] p(1) by (cases "x = p") simp_all
    moreover have "tr_nodes t c \<noteq> None"
      using reach_step.hyps(3) c other [of c] p(1) by (cases "c = p") simp_all
    ultimately obtain x0 c0 where x0: "tr_nodes t x = Some x0" and c0: "tr_nodes t c = Some c0" by blast
    have "c \<in> set (tn_children x0)" "tn_tokens cd = tn_tokens c0"
      using nodes [OF x0 reach_step.prems] nodes [OF c0 c] reach_step.hyps x0 c0 by (auto simp: node_at_def)
    with reach.reach_step [OF x0 _ c0, of m w] reach_step.IH [OF c] show ?case by simp
  qed (simp add: reach_refl)
  ultimately show ?thesis using assms(5) by blast
qed

section \<open>Merging a node with its only child\<close>

definition merge_store :: "'snap trie \<Rightarrow> nat \<Rightarrow> 'snap trie_node \<Rightarrow> nat \<Rightarrow> 'snap trie_node \<Rightarrow> 'snap trie \<Rightarrow> bool" where
  "merge_store t n nd c cd t' \<longleftrightarrow> tr_next t' = tr_next t \<and>
     (\<exists>s u l. \<forall>m. tr_nodes t' m =
       (if m = c then None
        else if m = n then Some (nd\<lparr>tn_tokens := tn_tokens nd @ tn_tokens cd, tn_endOffset := tn_endOffset cd,
          tn_snapshots := s, tn_children := tn_children cd, tn_user := u, tn_lastUsed := l\<rparr>)
        else if m \<in> set (tn_children cd) then map_option (\<lambda>x. x\<lparr>tn_parent := Some n\<rparr>) (tr_nodes t m)
        else tr_nodes t m))"

lemma fold_upd:
  "distinct cs \<Longrightarrow> tr_next (fold (\<lambda>c. upd c f) cs t) = tr_next t \<and>
    tr_nodes (fold (\<lambda>c. upd c f) cs t) m = (if m \<in> set cs then map_option f (tr_nodes t m) else tr_nodes t m)"
  by (induction cs arbitrary: t) auto

lemmas fold_upd_next = fold_upd [THEN conjunct1] and fold_upd_nodes = fold_upd [THEN conjunct2]

lemma counted_fold_upd:
  "(\<And>nd. tn_snapshots (f nd) = tn_snapshots nd) \<Longrightarrow> counted L t \<Longrightarrow> counted L (fold (\<lambda>c. upd c f) cs t)"
  by (induction cs arbitrary: t) (auto intro: counted_upd)

lemma merge_snaps_Some:
  assumes "a = [] \<or> la_count L \<le> length a" "b = [] \<or> la_count L \<le> length b" "\<forall>i \<in> set is. i < la_count L"
  shows "\<exists>ms. merge_snaps L a b is = Some ms"
  using assms(3)
proof (induction "is")
  case (Cons i "is")
  then obtain ms where "merge_snaps L a b is = Some ms" by auto
  moreover have "\<exists>x. snap_entry a i = Some x" "\<exists>x. snap_entry b i = Some x"
    using assms(1,2) Cons.prems by (auto simp: snap_entry_def)
  ultimately show ?case by auto
qed simp

lemma merge_snaps_length: "merge_snaps L a b is = Some ms \<Longrightarrow> length ms = length is"
  by (induction L a b "is" arbitrary: ms rule: merge_snaps.induct) (auto split: option.splits)

lemma mergeWithChild_eq:
  assumes "trie_ok root t" "tr_nodes t n = Some nd" "tn_children nd = [c]" "tr_nodes t c = Some cd"
    and "tn_snapshots nd = [] \<or> la_count L \<le> length (tn_snapshots nd)"
    and "tn_snapshots cd = [] \<or> la_count L \<le> length (tn_snapshots cd)"
  shows "\<exists>t'. mergeWithChild L n t = Some t' \<and> merge_store t n nd c cd t' \<and> (counted L t \<longrightarrow> counted L t')"
proof -
  have "child_of t n nd c" using trie_okD [OF assms(1,2)] assms(3) by (simp add: node_ok_def)
  then have ne: "c \<noteq> n" using assms(2,4) by (auto simp: child_of_def)
  have gc: "distinct (tn_children cd)" "c \<notin> set (tn_children cd)" "n \<notin> set (tn_children cd)"
  proof -
    note okc = trie_okD [OF assms(1,4)]
    show "distinct (tn_children cd)" using okc by (simp add: node_ok_def)
    show "c \<notin> set (tn_children cd)" using okc assms(4) by (auto simp: node_ok_def child_of_def)
    have "tn_endOffset cd = tn_endOffset nd + int (length (tn_tokens cd))" "tn_tokens cd \<noteq> []"
      using \<open>child_of t n nd c\<close> assms(4) by (auto simp: child_of_def)
    moreover have "tn_tokens nd \<noteq> [] \<and> tn_endOffset nd = tn_endOffset cd + int (length (tn_tokens nd))"
      if "n \<in> set (tn_children cd)"
    proof -
      have "child_of t c cd n" using okc that by (simp add: node_ok_def)
      then show ?thesis using assms(2) by (auto simp: child_of_def)
    qed
    moreover have "0 < int (length (tn_tokens cd))" using calculation(2) by simp
    ultimately show "n \<notin> set (tn_children cd)" by linarith
  qed
  define t1 where "t1 = upd n (\<lambda>x. x\<lparr>tn_tokens := tn_tokens x @ tn_tokens cd, tn_endOffset := tn_endOffset cd\<rparr>) t"
  let ?nd1 = "nd\<lparr>tn_tokens := tn_tokens nd @ tn_tokens cd, tn_endOffset := tn_endOffset cd\<rparr>"
  have n1: "tr_nodes t1 n = Some ?nd1" "tr_nodes t1 c = Some cd" using assms(2,4) ne by (simp_all add: t1_def)
  obtain ms where ms: "merge_snaps L (tn_snapshots nd) (tn_snapshots cd) [0 ..< la_count L] = Some ms"
    using merge_snaps_Some [OF assms(5,6), of "[0 ..< la_count L]"] by auto
  define t4 where "t4 = (if 0 < length (tn_snapshots nd) \<or> 0 < length (tn_snapshots cd)
    then snd (swapSnapshots L n ms (snd (swapSnapshots L c [] (snd (swapSnapshots L n [] t1))))) else t1)"
  define t6 where "t6 = fold (\<lambda>gc. upd gc (\<lambda>x. x\<lparr>tn_parent := Some n\<rparr>)) (tn_children cd)
    (upd n (\<lambda>x. x\<lparr>tn_children := tn_children cd, tn_user := tn_user cd,
       tn_lastUsed := (if tn_lastUsed x < tn_lastUsed cd then tn_lastUsed cd else tn_lastUsed x)\<rparr>) t4)"
  have eq: "mergeWithChild L n t = Some (drop_node c t6)"
  proof -
    have "node_at (snd (swapSnapshots L n [] t1)) c = cd" using n1 ne by (simp add: node_at_def)
    then show ?thesis
      using assms(2-4) ms n1
      by (simp add: mergeWithChild_def t1_def [symmetric] Let_def case_prod_beta swap_simps t4_def t6_def)
  qed
  have b: "n < tr_next t" "c < tr_next t" using trie_bound [OF assms(1,2)] trie_bound [OF assms(1,4)] by auto
  have c1: "counted L t \<longrightarrow> counted L t1" unfolding t1_def by (auto intro!: counted_upd)
  let ?b = "snd (swapSnapshots L n [] t1)" let ?c = "snd (swapSnapshots L c [] ?b)"
  have nx: "tr_next t1 = tr_next t" by (simp add: t1_def)
  have "counted L t1 \<longrightarrow> counted L ?b" using counted_swap [OF _ n1(1)] b nx by auto
  moreover have "counted L ?b \<longrightarrow> counted L ?c"
    using counted_swap [of L ?b c cd "[]"] n1(2) ne b nx by auto
  moreover have "counted L ?c \<longrightarrow> counted L (snd (swapSnapshots L n ms ?c))"
    using counted_swap [of L ?c n "?nd1\<lparr>tn_snapshots := []\<rparr>" ms] n1(1) ne b nx
      merge_snaps_length [OF ms] by (auto simp: per_layer_def)
  ultimately have c4: "counted L t1 \<longrightarrow> counted L t4" by (simp add: t4_def)
  have c6: "counted L t4 \<longrightarrow> counted L t6"
    unfolding t6_def by (intro impI counted_fold_upd counted_upd) simp_all
  have zero: "node_bytes L t6 c = 0"
    using gc(2) n1(2) ne
    by (auto simp: t6_def node_bytes_def t4_def snapshotBytes_def snaps_bytes_def fold_upd_nodes [OF gc(1)])
  have "counted L t \<longrightarrow> counted L (drop_node c t6)" using c1 c4 c6 counted_drop [OF _ zero] by blast
  moreover have "merge_store t n nd c cd (drop_node c t6)"
  proof (cases "0 < length (tn_snapshots nd) \<or> 0 < length (tn_snapshots cd)")
    case True
    have "tr_nodes (drop_node c t6) m =
       (if m = c then None
        else if m = n then Some (nd\<lparr>tn_tokens := tn_tokens nd @ tn_tokens cd, tn_endOffset := tn_endOffset cd,
          tn_snapshots := ms, tn_children := tn_children cd, tn_user := tn_user cd,
          tn_lastUsed := (if tn_lastUsed nd < tn_lastUsed cd then tn_lastUsed cd else tn_lastUsed nd)\<rparr>)
        else if m \<in> set (tn_children cd) then map_option (\<lambda>x. x\<lparr>tn_parent := Some n\<rparr>) (tr_nodes t m)
        else tr_nodes t m)" for m
      using True gc ne assms(2) by (simp add: drop_node_def t6_def t4_def t1_def fold_upd_nodes [OF gc(1)])
    moreover have "tr_next (drop_node c t6) = tr_next t"
      using True by (simp add: drop_node_def t6_def t4_def t1_def fold_upd_next [OF gc(1)])
    ultimately show ?thesis unfolding merge_store_def by blast
  next
    case False
    have "tr_nodes (drop_node c t6) m =
       (if m = c then None
        else if m = n then Some (nd\<lparr>tn_tokens := tn_tokens nd @ tn_tokens cd, tn_endOffset := tn_endOffset cd,
          tn_snapshots := tn_snapshots nd, tn_children := tn_children cd, tn_user := tn_user cd,
          tn_lastUsed := (if tn_lastUsed nd < tn_lastUsed cd then tn_lastUsed cd else tn_lastUsed nd)\<rparr>)
        else if m \<in> set (tn_children cd) then map_option (\<lambda>x. x\<lparr>tn_parent := Some n\<rparr>) (tr_nodes t m)
        else tr_nodes t m)" for m
      using False gc ne assms(2) by (simp add: drop_node_def t6_def t4_def t1_def fold_upd_nodes [OF gc(1)])
    moreover have "tr_next (drop_node c t6) = tr_next t"
      using False by (simp add: drop_node_def t6_def t4_def t1_def fold_upd_next [OF gc(1)])
    ultimately show ?thesis unfolding merge_store_def by blast
  qed
  ultimately show ?thesis using eq by blast
qed

lemma merge_store_nodes:
  assumes "trie_ok root t" "tr_nodes t n = Some nd" "n \<noteq> root" "tn_children nd = [c]" "tr_nodes t c = Some cd"
    and "merge_store t n nd c cd t'"
  shows "c \<noteq> n" "c \<noteq> root" "n \<notin> set (tn_children cd)" "c \<notin> set (tn_children cd)" "tr_nodes t' c = None"
    and "\<exists>nd'. tr_nodes t' n = Some nd' \<and> tn_tokens nd' = tn_tokens nd @ tn_tokens cd \<and>
      tn_endOffset nd' = tn_endOffset cd \<and> tn_children nd' = tn_children cd \<and> tn_parent nd' = tn_parent nd"
    and "\<And>m md. m \<noteq> c \<Longrightarrow> m \<noteq> n \<Longrightarrow> tr_nodes t m = Some md \<Longrightarrow> \<exists>md'. tr_nodes t' m = Some md' \<and>
      tn_tokens md' = tn_tokens md \<and> tn_endOffset md' = tn_endOffset md \<and> tn_children md' = tn_children md \<and>
      tn_parent md' = (if m \<in> set (tn_children cd) then Some n else tn_parent md)"
    and "\<And>m. m \<noteq> c \<Longrightarrow> tr_nodes t' m = None \<longleftrightarrow> tr_nodes t m = None"
    and "\<And>m md. tr_nodes t m = Some md \<Longrightarrow> c \<in> set (tn_children md) \<Longrightarrow> m = n"
    and "\<And>m md x. tr_nodes t m = Some md \<Longrightarrow> x \<in> set (tn_children md) \<Longrightarrow> x \<in> set (tn_children cd) \<Longrightarrow> m = c"
proof -
  have cn: "child_of t n nd c" using trie_okD [OF assms(1,2)] assms(4) by (simp add: node_ok_def)
  note okc = trie_okD [OF assms(1,5)]
  show ne: "c \<noteq> n" using cn assms(2) by (auto simp: child_of_def)
  show "c \<noteq> root" using okc cn assms(5) by (auto simp: node_ok_def child_of_def)
  have par: "m = m'" if "tr_nodes t m = Some md" "x \<in> set (tn_children md)" "tr_nodes t m' = Some md'"
      "x \<in> set (tn_children md')" for m md m' md' x
  proof -
    have "child_of t m md x" "child_of t m' md' x"
      using trie_okD [OF assms(1) that(1)] trie_okD [OF assms(1) that(3)] that(2,4) by (simp_all add: node_ok_def)
    then show ?thesis by (auto simp: child_of_def)
  qed
  show "m = n" if "tr_nodes t m = Some md" "c \<in> set (tn_children md)" for m md
    using par [OF that assms(2)] assms(4) by simp
  show "m = c" if "tr_nodes t m = Some md" "x \<in> set (tn_children md)" "x \<in> set (tn_children cd)" for m md x
    using par [OF that(1,2) assms(5) that(3)] .
  show "c \<notin> set (tn_children cd)" using par [OF assms(5) _ assms(2), of c] assms(4) ne by auto
  have "tn_endOffset cd = tn_endOffset nd + int (length (tn_tokens cd))" "tn_tokens cd \<noteq> []"
    using cn assms(5) by (auto simp: child_of_def)
  moreover have "tn_endOffset nd = tn_endOffset cd + int (length (tn_tokens nd))" if "n \<in> set (tn_children cd)"
  proof -
    have "child_of t c cd n" using okc that by (simp add: node_ok_def)
    then show ?thesis using assms(2) by (auto simp: child_of_def)
  qed
  moreover have "0 < int (length (tn_tokens cd))" using calculation(2) by simp
  ultimately show nn: "n \<notin> set (tn_children cd)" by (metis add_less_cancel_left add_less_same_cancel1 less_add_same_cancel1
      not_less_iff_gr_or_eq of_nat_less_0_iff add.commute add_less_le_mono add_pos_nonneg of_nat_0_le_iff)
  from assms(6) obtain s u l where eq: "\<And>m. tr_nodes t' m =
       (if m = c then None
        else if m = n then Some (nd\<lparr>tn_tokens := tn_tokens nd @ tn_tokens cd, tn_endOffset := tn_endOffset cd,
          tn_snapshots := s, tn_children := tn_children cd, tn_user := u, tn_lastUsed := l\<rparr>)
        else if m \<in> set (tn_children cd) then map_option (\<lambda>x. x\<lparr>tn_parent := Some n\<rparr>) (tr_nodes t m)
        else tr_nodes t m)"
    unfolding merge_store_def by blast
  show "tr_nodes t' c = None" by (simp add: eq)
  show "\<exists>nd'. tr_nodes t' n = Some nd' \<and> tn_tokens nd' = tn_tokens nd @ tn_tokens cd \<and>
      tn_endOffset nd' = tn_endOffset cd \<and> tn_children nd' = tn_children cd \<and> tn_parent nd' = tn_parent nd"
    using ne by (simp add: eq)
  show "\<exists>md'. tr_nodes t' m = Some md' \<and> tn_tokens md' = tn_tokens md \<and> tn_endOffset md' = tn_endOffset md \<and>
      tn_children md' = tn_children md \<and> tn_parent md' = (if m \<in> set (tn_children cd) then Some n else tn_parent md)"
    if "m \<noteq> c" "m \<noteq> n" "tr_nodes t m = Some md" for m md
    using that by (simp add: eq)
  show "tr_nodes t' m = None \<longleftrightarrow> tr_nodes t m = None" if "m \<noteq> c" for m
    using that assms(2) by (simp add: eq)
qed

lemma merge_store_ok:
  assumes "trie_ok root t" "tr_nodes t n = Some nd" "n \<noteq> root" "tn_children nd = [c]" "tr_nodes t c = Some cd"
    and "merge_store t n nd c cd t'"
  shows "trie_ok root t'"
proof -
  note M = merge_store_nodes [OF assms]
  from M(6) obtain nd' where n': "tr_nodes t' n = Some nd'" "tn_tokens nd' = tn_tokens nd @ tn_tokens cd"
    "tn_endOffset nd' = tn_endOffset cd" "tn_children nd' = tn_children cd" "tn_parent nd' = tn_parent nd" by blast
  have nx: "tr_next t' = tr_next t" using assms(6) by (simp add: merge_store_def)
  from trie_parent [OF assms(1-3)] obtain p pd where p: "tn_parent nd = Some p" "tr_nodes t p = Some pd"
    "n \<in> set (tn_children pd)" "tn_tokens nd \<noteq> []" by metis
  have cn: "child_of t n nd c" using trie_okD [OF assms(1,2)] assms(4) by (simp add: node_ok_def)
  note okc = trie_okD [OF assms(1,5)]
  have tok: "hd (tn_tokens (node_at t' m)) = hd (tn_tokens (node_at t m))" if "tr_nodes t m \<noteq> None" "m \<noteq> c" for m
  proof (cases "m = n")
    case True
    with n' p(4) assms(2) show ?thesis by simp
  next
    case False
    with M(7) [of m] that show ?thesis by (auto simp: node_at_def)
  qed
  have child: "child_of t' m md' x" if "child_of t m md x" "x \<noteq> c" "x \<notin> set (tn_children cd)"
      "tn_endOffset md' = tn_endOffset md" for m md md' x
  proof (cases "x = n")
    case True
    have "tn_endOffset cd = tn_endOffset nd + int (length (tn_tokens cd))" using cn assms(5) by (auto simp: child_of_def)
    with True that n' assms(2) show ?thesis by (auto simp: child_of_def)
  next
    case False
    from that(1) obtain xd where x: "tr_nodes t x = Some xd" by (auto simp: child_of_def)
    from M(7) [OF that(2) False x] that x show ?thesis by (auto simp: child_of_def)
  qed
  have gchild: "child_of t' n nd' x" if x: "x \<in> set (tn_children cd)" for x
  proof -
    have "child_of t c cd x" using okc x by (simp add: node_ok_def)
    moreover have "x \<noteq> c" "x \<noteq> n" using x M(3,4) by auto
    ultimately show ?thesis using M(7) [of x] x n'(3) by (fastforce simp: child_of_def)
  qed
  have inj: "inj_on (\<lambda>x. hd (tn_tokens (node_at t' x))) (set (tn_children md))"
    if m: "tr_nodes t m = Some md" "c \<notin> set (tn_children md)" for m md
    by (rule hd_inj_cong [OF trie_inj [OF assms(1) m(1)]]) (metis m(2) tok trie_edge(2) [OF assms(1) m(1)])
  have par: "\<exists>q qd. tn_parent md' = Some q \<and> tr_nodes t' q = Some qd \<and> m \<in> set (tn_children qd)"
    if m: "tr_nodes t m = Some md" "m \<noteq> root" "m \<noteq> c" "m \<notin> set (tn_children cd)" "tn_parent md' = tn_parent md" for m md md'
  proof -
    from trie_parent [OF assms(1) m(1,2)] obtain q qd where
      q: "tn_parent md = Some q" "tr_nodes t q = Some qd" "m \<in> set (tn_children qd)" by metis
    have "q \<noteq> c" "q \<noteq> n" using q(2,3) m(3,4) assms(2,4,5) by auto
    with M(7) [OF this q(2)] q m(5) show ?thesis by auto
  qed
  show ?thesis
    unfolding trie_ok_def
  proof (intro conjI allI impI)
    show "tr_nodes t' root \<noteq> None" using assms(1) M(2,8) by (auto simp: trie_ok_def)
    fix m md' assume m': "tr_nodes t' m = Some md'"
    then have mc: "m \<noteq> c" using M(5) by auto
    with m' M(8) obtain md where m: "tr_nodes t m = Some md" by fastforce
    note ok = trie_okD [OF assms(1) m]
    show "node_ok t' root m md'"
    proof (cases "m = n")
      case True
      have md: "md = nd" "md' = nd'" using True m m' assms(2) n' by auto
      have "\<exists>q qd. tn_parent nd' = Some q \<and> tr_nodes t' q = Some qd \<and> n \<in> set (tn_children qd)"
        using par [OF assms(2,3)] M(1,3) n'(5) by blast
      moreover have "inj_on (\<lambda>x. hd (tn_tokens (node_at t' x))) (set (tn_children cd))" by (rule inj [OF assms(5) M(4)])
      ultimately show ?thesis using True md ok okc gchild n' nx assms(3) by (auto simp: node_ok_def)
    next
      case False
      from M(7) [OF mc False m] m' have md: "tn_tokens md' = tn_tokens md" "tn_endOffset md' = tn_endOffset md"
        "tn_children md' = tn_children md" "tn_parent md' = (if m \<in> set (tn_children cd) then Some n else tn_parent md)" by auto
      have nc: "c \<notin> set (tn_children md)" using M(9) [OF m] False by blast
      have ch: "child_of t' m md' x" if x: "x \<in> set (tn_children md)" for x
      proof (rule child [of m md])
        show "child_of t m md x" using ok x by (simp add: node_ok_def)
        show "x \<noteq> c" using x nc by auto
        show "x \<notin> set (tn_children cd)" using M(10) [OF m x] mc by blast
      qed (rule md)
      have pr: "if m = root then tn_parent md' = None \<and> tn_tokens md' = [] \<and> tn_endOffset md' = 0
        else \<exists>q qd. tn_parent md' = Some q \<and> tr_nodes t' q = Some qd \<and> m \<in> set (tn_children qd)"
      proof (cases "m \<in> set (tn_children cd)")
        case True
        moreover have "m \<noteq> root" using trie_child [OF assms(1,5) True] by metis
        ultimately show ?thesis using md n' by simp
      next
        case False
        then show ?thesis using ok md par [OF m _ mc False] by (auto simp: node_ok_def)
      qed
      show ?thesis
        unfolding node_ok_def
      proof (intro conjI pr)
        show "m < tr_next t'" "0 \<le> tn_endOffset md'" "distinct (tn_children md')" using ok nx md by (auto simp: node_ok_def)
        show "\<forall>c \<in> set (tn_children md'). child_of t' m md' c" using ch md by simp
        show "inj_on (\<lambda>c. hd (tn_tokens (node_at t' c))) (set (tn_children md'))" using inj [OF m nc] md by simp
      qed
    qed
  qed
qed

text \<open>What can be read below \<open>n\<close> afterwards is what could be read below its child.\<close>

lemma merge_reach_old:
  assumes "trie_ok root t" "tr_nodes t n = Some nd" "n \<noteq> root" "tn_children nd = [c]" "tr_nodes t c = Some cd"
    and "merge_store t n nd c cd t'"
  shows "reach t' x m w \<Longrightarrow> (x \<noteq> n \<longrightarrow> reach t x (if m = n then c else m) w) \<and>
    (x = n \<longrightarrow> reach t c (if m = n then c else m) w)"
proof (induction rule: reach.induct)
  case (reach_step x xd y yd m w)
  note M = merge_store_nodes [OF assms]
  from M(6) obtain nd' where n': "tr_nodes t' n = Some nd'" "tn_tokens nd' = tn_tokens nd @ tn_tokens cd"
    "tn_children nd' = tn_children cd" by blast
  have yc: "y \<noteq> c" "x \<noteq> c" using reach_step.hyps(1,3) M(5) by auto
  obtain x0 where x0: "tr_nodes t x = Some x0" using M(8) [OF yc(2)] reach_step.hyps(1) by fastforce
  obtain y0 where y0: "tr_nodes t y = Some y0" using M(8) [OF yc(1)] reach_step.hyps(3) by fastforce
  have down: "reach t y (if m = n then c else m) w" if "y \<noteq> n"
    using reach_step.IH that by blast
  show ?case
  proof (cases "x = n")
    case True
    have "y \<in> set (tn_children cd)" "y \<noteq> n" using reach_step.hyps(1,2) True n' M(3) by auto
    moreover have "tn_tokens yd = tn_tokens y0" using M(7) [OF yc(1) \<open>y \<noteq> n\<close> y0] reach_step.hyps(3) by auto
    ultimately show ?thesis using True reach.reach_step [OF assms(5) _ y0 down] by simp
  next
    case False
    have yx: "y \<in> set (tn_children x0)" using M(7) [OF yc(2) False x0] reach_step.hyps(1,2) by auto
    show ?thesis
    proof (cases "y = n")
      case True
      have "reach t c (if m = n then c else m) w" using reach_step.IH True by simp
      then have "reach t n (if m = n then c else m) (tn_tokens cd @ w)"
        using reach.reach_step [OF assms(2) _ assms(5)] assms(4) by simp
      then have "reach t x (if m = n then c else m) (tn_tokens nd @ tn_tokens cd @ w)"
        using reach.reach_step [OF x0 yx] True assms(2) by simp
      with False n' True reach_step.hyps(3) show ?thesis by simp
    next
      case ny: False
      have "tn_tokens yd = tn_tokens y0" using M(7) [OF yc(1) ny y0] reach_step.hyps(3) by auto
      with reach.reach_step [OF x0 yx y0 down [OF ny]] False show ?thesis by simp
    qed
  qed
qed (auto intro: reach_refl)

lemma merge_reach_new:
  assumes "trie_ok root t" "tr_nodes t n = Some nd" "n \<noteq> root" "tn_children nd = [c]" "tr_nodes t c = Some cd"
    and "merge_store t n nd c cd t'"
  shows "reach t x m w \<Longrightarrow> (x \<noteq> n \<and> x \<noteq> c \<longrightarrow> stored t' x w) \<and> (x = c \<longrightarrow> stored t' n w) \<and>
    (x = n \<longrightarrow> w = [] \<or> (\<exists>u. w = tn_tokens cd @ u \<and> stored t' n u))"
proof (induction rule: reach.induct)
  case (reach_step x xd y yd m w)
  note M = merge_store_nodes [OF assms]
  from M(6) obtain nd' where n': "tr_nodes t' n = Some nd'" "tn_tokens nd' = tn_tokens nd @ tn_tokens cd"
    "tn_children nd' = tn_children cd" by blast
  consider "x = n" | "x \<noteq> n" "y = n" | "x \<noteq> n" "y \<noteq> n" by blast
  then show ?case
  proof cases
    case 1
    then have "y = c" using reach_step.hyps(1,2) assms(2,4) by auto
    with 1 reach_step.IH reach_step.hyps(3) assms(5) M(1) show ?thesis by auto
  next
    case 2
    have xc: "x \<noteq> c" using reach_step.hyps(1,2) 2 M(3) assms(5) by auto
    from M(7) [OF xc 2(1) reach_step.hyps(1)] obtain xd' where x': "tr_nodes t' x = Some xd'" "tn_children xd' = tn_children xd" by blast
    have yd: "yd = nd" using 2 reach_step.hyps(3) assms(2) by simp
    have "stored t' x (tn_tokens nd @ w)"
      using reach_step.IH 2
    proof (elim conjE, simp, elim disjE exE conjE)
      assume "w = []"
      then show ?thesis using stored_edge [of t' x n "tn_tokens nd"] x' reach_step.hyps(2) 2 n' by simp
    next
      fix u assume "w = tn_tokens cd @ u" "stored t' n u"
      then show ?thesis using stored_stepI [of t' x n u] x' reach_step.hyps(2) 2 n' by simp
    qed
    with xc 2 yd show ?thesis by simp
  next
    case 3
    have yc: "y \<noteq> c" using M(9) [OF reach_step.hyps(1)] reach_step.hyps(2) 3 by auto
    from M(7) [OF yc 3(2) reach_step.hyps(3)] have y': "tr_nodes t' y \<noteq> None" "tn_tokens (node_at t' y) = tn_tokens yd" by auto
    have IH: "stored t' y w" using reach_step.IH 3 yc by simp
    show ?thesis
    proof (cases "x = c")
      case True
      have "y \<in> set (tn_children (node_at t' n))" using True reach_step.hyps(1,2) assms(5) n' by simp
      from stored_stepI [OF _ this y'(1) IH] n' y'(2) True 3 show ?thesis by simp
    next
      case False
      from M(7) [OF False 3(1) reach_step.hyps(1)] have "tr_nodes t' x \<noteq> None" "y \<in> set (tn_children (node_at t' x))"
        using reach_step.hyps(2) by auto
      from stored_stepI [OF this y'(1) IH] y'(2) False 3 show ?thesis by simp
    qed
  qed
qed simp

lemma merge_stored:
  assumes "trie_ok root t" "tr_nodes t n = Some nd" "n \<noteq> root" "tn_children nd = [c]" "tr_nodes t c = Some cd"
    and "merge_store t n nd c cd t'" "x \<noteq> n" "x \<noteq> c"
  shows "stored t' x ks \<longleftrightarrow> stored t x ks"
proof
  assume "stored t' x ks"
  then obtain m w where m: "reach t' x m w" "prefix ks w" by (auto simp: stored_def)
  with merge_reach_old [OF assms(1-6) m(1)] assms(7) show "stored t x ks" unfolding stored_def by blast
next
  assume "stored t x ks"
  then obtain m w where m: "reach t x m w" "prefix ks w" by (auto simp: stored_def)
  with merge_reach_new [OF assms(1-6) m(1)] assms(7,8) stored_prefix show "stored t' x ks" by blast
qed

section \<open>The walk visits every node\<close>

lemma walk_fuel_enough:
  assumes "trie_ok root t" "tr_nodes t n = Some nd"
  shows "tn_endOffset nd < int (walk_fuel t)"
proof -
  have "n \<in> set ns \<Longrightarrow> nat (tn_endOffset nd) \<le>
      foldr (\<lambda>n k. case tr_nodes t n of None \<Rightarrow> k | Some nd \<Rightarrow> max (nat (tn_endOffset nd)) k) ns 0" for ns
    using assms(2) by (induction ns) (auto split: option.splits)
  from this [of "[0 ..< tr_next t]"] trie_bound [OF assms] show ?thesis by (simp add: walk_fuel_def)
qed

lemma walk_reach:
  "reach t n m w \<Longrightarrow> trie_ok root t \<Longrightarrow> length w < fuel \<Longrightarrow> m \<in> set (walk fuel t n)"
proof (induction arbitrary: fuel rule: reach.induct)
  case (reach_refl n)
  then show ?case by (cases fuel) auto
next
  case (reach_step n nd c cd m w)
  have "tn_tokens cd \<noteq> []" using trie_edge(1) [OF reach_step.prems(1) reach_step.hyps(1,2)] reach_step.hyps(3) by simp
  then have l: "1 \<le> length (tn_tokens cd)" by (cases "tn_tokens cd") simp_all
  obtain f where f: "fuel = Suc f" using reach_step.prems(2) by (cases fuel) auto
  have "length (tn_tokens cd) + length w < Suc f" using reach_step.prems(2) f by simp
  with l have "length w < f" by linarith
  from reach_step.IH [OF reach_step.prems(1) this] f reach_step.hyps(1,2) show ?case by auto
qed

lemma walk_in:
  "trie_ok root t \<Longrightarrow> tr_nodes t n \<noteq> None \<Longrightarrow> m \<in> set (walk fuel t n) \<Longrightarrow> tr_nodes t m \<noteq> None"
proof (induction fuel arbitrary: n)
  case (Suc fuel)
  from Suc.prems(2) obtain nd where nd: "tr_nodes t n = Some nd" by blast
  from Suc.prems(3) have "m = n \<or> (\<exists>c \<in> set (tn_children nd). m \<in> set (walk fuel t c))" using nd by auto
  then show ?case
  proof
    assume "\<exists>c \<in> set (tn_children nd). m \<in> set (walk fuel t c)"
    then obtain c where c: "c \<in> set (tn_children nd)" "m \<in> set (walk fuel t c)" by blast
    from Suc.IH [OF Suc.prems(1) trie_edge(2) [OF Suc.prems(1) nd c(1)] c(2)] show ?thesis .
  qed (use Suc.prems(2) in simp)
qed simp

lemma walk_all:
  assumes "trie_ok root t"
  shows "m \<in> set (walkNodes t root) \<longleftrightarrow> tr_nodes t m \<noteq> None"
proof
  assume "m \<in> set (walkNodes t root)"
  then show "tr_nodes t m \<noteq> None"
    using walk_in [OF assms, of root m] assms unfolding walkNodes_def trie_ok_def by blast
next
  assume "tr_nodes t m \<noteq> None"
  then obtain md where md: "tr_nodes t m = Some md" by blast
  from reach_root [OF assms md] obtain w where w: "reach t root m w" "int (length w) = tn_endOffset md" by blast
  from walk_reach [OF w(1) assms] w(2) walk_fuel_enough [OF assms md]
  show "m \<in> set (walkNodes t root)" by (simp add: walkNodes_def)
qed

end
