(* ===== verification/PrefixCache.thy ===== *)
theory PrefixCache
  imports TrieEvict
begin

text \<open>
  x/mlxrunner/prefix_cache.go: the prompt cache over the prefix trie. One path of the trie is
  active: its state is live in the caches of the layers. A session looks the prompt up,
  switches the live state to the longest stored prefix, and stores what was evaluated.

  The caches of the layers implement the interface \<open>Cache\<close> over device arrays; the record
  \<open>cache_ops\<close> holds what this code calls of it; restoring, freeing and scheduling are \<^const>\<open>None\<close>
  when the call panics. A cache may be nil (\<^const>\<open>None\<close>). The clock is an argument. A lazy snapshot materialised inside a call of a cache is the separate step
  \<open>materialize\<close>.
\<close>

section \<open>State\<close>

record ('c, 'snap) cache_ops =
  co_offset :: "'c \<Rightarrow> int"
  co_restore :: "'c \<Rightarrow> 'snap option \<Rightarrow> int \<Rightarrow> (bool \<times> 'c) option"
  co_free :: "'c \<Rightarrow> 'c option"
  co_snapshot :: "'c \<Rightarrow> int \<Rightarrow> 'snap option \<times> 'c"
  co_prepare :: "'c \<Rightarrow> int list \<Rightarrow> 'c option"
  co_take :: "'c \<Rightarrow> 'snap option list \<times> 'c"

definition maxPagedOutBytes :: int where "maxPagedOutBytes = 8 * 2 ^ 30"

record ('c, 'snap) prefix_cache =
  pc_trie :: "'snap trie"
  pc_root :: "nat option"
  pc_activePath :: "nat list"
  pc_caches :: "'c option list"
  pc_draftLookahead :: nat

record pending_snapshot =
  ps_offset :: int
  ps_user :: bool

record cache_session =
  se_inputs :: "32 word list"
  se_outputs :: "32 word list"
  se_remaining :: "32 word list"
  se_pending :: "pending_snapshot list"

section \<open>Keys\<close>

text \<open>Tokens are \<^verbatim>\<open>int32\<close>; a key is sign extended, or packs a token and the next one.\<close>

definition pack_key :: "32 word \<Rightarrow> 32 word \<Rightarrow> trie_key" where
  "pack_key a b = or (push_bit 32 (ucast a)) (ucast b)"

definition cache_key :: "nat \<Rightarrow> 32 word list \<Rightarrow> trie_key list option" where
  "cache_key lookahead tokens =
     (let n = length tokens - lookahead in
      if lookahead = 0 then Some (map scast tokens)
      else if lookahead = 1 then Some (map (\<lambda>i. pack_key (tokens ! i) (tokens ! (i + 1))) [0 ..< n])
      else None)"

section \<open>Offsets\<close>

fun min_offset :: "('c, 'snap) cache_ops \<Rightarrow> 'c option list \<Rightarrow> int option \<Rightarrow> int option" where
  "min_offset C [] found = found"
| "min_offset C (None # kvs) found = min_offset C kvs found"
| "min_offset C (Some kv # kvs) found =
     min_offset C kvs (case found of
        None \<Rightarrow> Some (co_offset C kv)
      | Some off \<Rightarrow> if co_offset C kv < off then Some (co_offset C kv) else found)"

definition minCacheOffset :: "('c, 'snap) cache_ops \<Rightarrow> 'c option list \<Rightarrow> int" where
  "minCacheOffset C kvs = (case min_offset C kvs None of None \<Rightarrow> 0 | Some off \<Rightarrow> off)"

text \<open>A loop over the caches that are not nil; a panic in any of them ends the call.\<close>

fun each_layer :: "('c \<Rightarrow> 'c option) \<Rightarrow> 'c option list \<Rightarrow> 'c option list option" where
  "each_layer f [] = Some []"
| "each_layer f (None # kvs) = map_option (\<lambda>ks. None # ks) (each_layer f kvs)"
| "each_layer f (Some kv # kvs) =
     (case f kv of
        None \<Rightarrow> None
      | Some kv1 \<Rightarrow> map_option (\<lambda>ks. Some kv1 # ks) (each_layer f kvs))"

definition freeAll :: "('c, 'snap) cache_ops \<Rightarrow> 'c option list \<Rightarrow> 'c option list option" where
  "freeAll C kvs = each_layer (co_free C) kvs"

section \<open>Eviction\<close>

text \<open>Is \<open>n\<close> evicted rather than \<open>best\<close>: older, then deeper, then larger.\<close>

definition evict_before :: "'snap layers \<Rightarrow> 'snap trie_node \<Rightarrow> 'snap trie_node \<Rightarrow> bool" where
  "evict_before L n best \<longleftrightarrow>
     (if tn_lastUsed n \<noteq> tn_lastUsed best then tn_lastUsed n < tn_lastUsed best
      else if tn_endOffset best \<noteq> tn_endOffset n then tn_endOffset best < tn_endOffset n
      else snapshotBytes L best < snapshotBytes L n)"

definition evictable :: "'snap trie \<Rightarrow> nat \<Rightarrow> nat list \<Rightarrow> nat \<Rightarrow> bool" where
  "evictable t root active n \<longleftrightarrow> \<not> (n = root \<or> n \<in> set active \<or> 1 < length (tn_children (node_at t n)))"

fun pick_victim :: "'snap layers \<Rightarrow> 'snap trie \<Rightarrow> nat \<Rightarrow> nat list \<Rightarrow> nat list \<Rightarrow> nat option \<Rightarrow> nat option" where
  "pick_victim L t root active [] best = best"
| "pick_victim L t root active (n # ns) best =
     pick_victim L t root active ns
       (if \<not> evictable t root active n then best
        else case best of
          None \<Rightarrow> Some n
        | Some b \<Rightarrow> if evict_before L (node_at t n) (node_at t b) then Some n else best)"

definition evictNode :: "'snap layers \<Rightarrow> nat \<Rightarrow> 'snap trie \<Rightarrow> 'snap trie option" where
  "evictNode L node t =
     (if length (tn_children (node_at t node)) = 0 then removeNode L node t
      else if length (tn_children (node_at t node)) = 1 then mergeWithChild L node t
      else None)"

text \<open>The loop of \<^verbatim>\<open>enforceEvictionPolicy\<close>; every round removes a node, so their number is enough fuel.\<close>

fun evict_loop :: "nat \<Rightarrow> 'snap layers \<Rightarrow> nat \<Rightarrow> nat list \<Rightarrow> 'snap trie \<Rightarrow> 'snap trie option" where
  "evict_loop 0 L root active t = Some t"
| "evict_loop (Suc fuel) L root active t =
     (if tr_counter t \<le> maxPagedOutBytes then Some t
      else case pick_victim L t root active (walkNodes t root) None of
        None \<Rightarrow> Some t
      | Some best \<Rightarrow>
          (case evictNode L best t of None \<Rightarrow> None | Some t1 \<Rightarrow> evict_loop fuel L root active t1))"

definition live_nodes :: "'snap trie \<Rightarrow> nat" where
  "live_nodes t = length (filter (\<lambda>n. tr_nodes t n \<noteq> None) [0 ..< tr_next t])"

definition enforceEvictionPolicy :: "'snap layers \<Rightarrow> nat \<Rightarrow> nat list \<Rightarrow> 'snap trie \<Rightarrow> 'snap trie option" where
  "enforceEvictionPolicy L root active t = evict_loop (live_nodes t) L root active t"

section \<open>Switching paths\<close>

fun common_len :: "nat list \<Rightarrow> nat list \<Rightarrow> nat" where
  "common_len (x # xs) (y # ys) = (if x = y then Suc (common_len xs ys) else 0)"
| "common_len _ _ = 0"

text \<open>Page out: a snapshot of every layer's cache, from the start of the leaf's edge.\<close>

fun snapshot_all :: "('c, 'snap) cache_ops \<Rightarrow> int \<Rightarrow> 'c option list \<Rightarrow> 'snap option list \<times> 'c option list" where
  "snapshot_all C from0 [] = ([], [])"
| "snapshot_all C from0 (None # kvs) = (case snapshot_all C from0 kvs of (ss, ks) \<Rightarrow> (None # ss, None # ks))"
| "snapshot_all C from0 (Some kv # kvs) =
     (case co_snapshot C kv from0 of (s, kv1) \<Rightarrow>
        case snapshot_all C from0 kvs of (ss, ks) \<Rightarrow> (s # ss, Some kv1 # ks))"

definition rewind_or_free :: "('c, 'snap) cache_ops \<Rightarrow> int \<Rightarrow> 'c \<Rightarrow> 'c option" where
  "rewind_or_free C target kv =
     (case co_restore C kv None target of
        None \<Rightarrow> None
      | Some (ok, kv1) \<Rightarrow> if ok then Some kv1 else co_free C kv1)"

text \<open>Page in one node: layer by layer, until a restore fails.\<close>

fun page_in_node :: "('c, 'snap) cache_ops \<Rightarrow> int \<Rightarrow> 'snap option list \<Rightarrow> nat \<Rightarrow> 'c option list
    \<Rightarrow> (bool \<times> 'c option list) option" where
  "page_in_node C target snaps j [] = Some (True, [])"
| "page_in_node C target snaps j (None # kvs) =
     map_option (\<lambda>(ok, ks). (ok, None # ks)) (page_in_node C target snaps (j + 1) kvs)"
| "page_in_node C target snaps j (Some kv # kvs) =
     (if length snaps \<le> j \<or> snaps ! j = None \<or> target \<le> co_offset C kv then
        map_option (\<lambda>(ok, ks). (ok, Some kv # ks)) (page_in_node C target snaps (j + 1) kvs)
      else (case co_restore C kv (snaps ! j) target of
        None \<Rightarrow> None
      | Some (ok, kv1) \<Rightarrow>
          if \<not> ok then Some (False, Some kv1 # kvs)
          else map_option (\<lambda>(ok, ks). (ok, Some kv1 # ks)) (page_in_node C target snaps (j + 1) kvs)))"

fun page_in :: "('c, 'snap) cache_ops \<Rightarrow> 'snap trie \<Rightarrow> int \<Rightarrow> nat list \<Rightarrow> 'c option list \<Rightarrow> 'c option list option" where
  "page_in C t matched [] kvs = Some kvs"
| "page_in C t matched (n # ns) kvs =
     (if \<not> hasSnapshots (node_at t n) then page_in C t matched ns kvs
      else (case page_in_node C (min (tn_endOffset (node_at t n)) matched) (tn_snapshots (node_at t n)) 0 kvs of
        None \<Rightarrow> None
      | Some (ok, kvs1) \<Rightarrow> if ok then page_in C t matched ns kvs1 else Some kvs1))"

text \<open>Align the layers; \<^const>\<open>False\<close> when a cache cannot be rewound and all have to be freed.\<close>

fun align_all :: "('c, 'snap) cache_ops \<Rightarrow> int \<Rightarrow> 'c option list \<Rightarrow> (bool \<times> 'c option list) option" where
  "align_all C target [] = Some (True, [])"
| "align_all C target (None # kvs) = map_option (\<lambda>(ok, ks). (ok, None # ks)) (align_all C target kvs)"
| "align_all C target (Some kv # kvs) =
     (if co_offset C kv = target then map_option (\<lambda>(ok, ks). (ok, Some kv # ks)) (align_all C target kvs)
      else (case co_restore C kv None target of
        None \<Rightarrow> None
      | Some (ok, kv1) \<Rightarrow>
          if \<not> ok then Some (False, Some kv1 # kvs)
          else map_option (\<lambda>(ok, ks). (ok, Some kv1 # ks)) (align_all C target kvs)))"

text \<open>The loop that shortens the active path, from its end.\<close>

fun shorten :: "'snap trie \<Rightarrow> int \<Rightarrow> nat list \<Rightarrow> nat list option" where
  "shorten t minOff [] = None"
| "shorten t minOff (n # rev_path) =
     (if tn_endOffset (node_at t n) \<le> minOff then Some (rev (n # rev_path)) else shorten t minOff rev_path)"

text \<open>
  \<^verbatim>\<open>switchToPath\<close> in the order of the code: page out the leaf of the old path when the new path
  leaves it or the match ends before it, rewind and page in the caches and align them, cut the
  path to what they hold, and evict.
\<close>

definition page_out :: "'snap layers \<Rightarrow> ('c, 'snap) cache_ops \<Rightarrow> nat list \<Rightarrow> nat \<Rightarrow> int
    \<Rightarrow> 'snap trie \<times> 'c option list \<Rightarrow> 'snap trie \<times> 'c option list" where
  "page_out L C active commonLen matched st =
     (case st of (t, kvs) \<Rightarrow>
       let leaf = length active - 1; node = active ! leaf;
           leafDiverges = commonLen \<le> leaf;
           leafNeedsRewind = matched < tn_endOffset (node_at t node)
       in if (leafDiverges \<or> leafNeedsRewind) \<and> \<not> hasAllSnapshots (node_at t node)
          then (case snapshot_all C (startOffset (node_at t node)) kvs of
                  (snaps, kvs) \<Rightarrow> (setSnapshots L node snaps t, kvs))
          else (t, kvs))"

definition move_caches :: "('c, 'snap) cache_ops \<Rightarrow> 'snap trie \<Rightarrow> nat list \<Rightarrow> int \<Rightarrow> int \<Rightarrow> 'c option list
    \<Rightarrow> (int \<times> 'c option list) option" where
  "move_caches C t newPath ancestorOffset matched kvs =
     (case each_layer (rewind_or_free C (min ancestorOffset matched)) kvs of
        None \<Rightarrow> None
      | Some kvs \<Rightarrow> (case page_in C t matched newPath kvs of
          None \<Rightarrow> None
        | Some kvs \<Rightarrow>
            (let minOff = minCacheOffset C kvs in
             case align_all C minOff kvs of
               None \<Rightarrow> None
             | Some (ok, ks) \<Rightarrow> map_option (\<lambda>ks. (minOff, ks)) (if ok then Some ks else freeAll C ks))))"

definition cut_path :: "'snap trie \<Rightarrow> int \<Rightarrow> nat list \<Rightarrow> nat list" where
  "cut_path t minOff path = (case shorten t minOff (rev path) of None \<Rightarrow> path | Some path' \<Rightarrow> path')"

definition switchToPath :: "'snap layers \<Rightarrow> ('c, 'snap) cache_ops \<Rightarrow> int \<Rightarrow> nat list \<Rightarrow> int
    \<Rightarrow> ('c, 'snap) prefix_cache \<Rightarrow> ('c, 'snap) prefix_cache option" where
  "switchToPath L C now newPath matched c =
     (if pc_activePath c = [] then None
      else
        (let active = pc_activePath c;
             commonLen = common_len active newPath;
             ancestorOffset = (if 0 < commonLen then tn_endOffset (node_at (pc_trie c) (active ! (commonLen - 1))) else 0);
             (t, kvs) = page_out L C active commonLen matched (pc_trie c, pc_caches c)
         in case move_caches C t newPath ancestorOffset matched kvs of
              None \<Rightarrow> None
            | Some (minOff, kvs) \<Rightarrow>
                (let path = cut_path t minOff newPath;
                     t = (if 0 < length path then upd (last path) (\<lambda>nd. nd\<lparr>tn_lastUsed := now\<rparr>) t else t)
                 in case pc_root c of
                      None \<Rightarrow> None
                    | Some root \<Rightarrow>
                        map_option (\<lambda>t. c\<lparr>pc_trie := t, pc_activePath := path, pc_caches := kvs\<rparr>)
                          (enforceEvictionPolicy L root path t))))"

section \<open>A session\<close>

definition ensureRoot :: "int \<Rightarrow> ('c, 'snap) prefix_cache \<Rightarrow> ('c, 'snap) prefix_cache" where
  "ensureRoot now c =
     (case pc_root c of
        Some r \<Rightarrow> c
      | None \<Rightarrow>
          (case alloc \<lparr>tn_tokens = [], tn_endOffset = 0, tn_parent = None, tn_children = [], tn_lastUsed = now,
               tn_snapshots = [], tn_user = False\<rparr> (pc_trie c) of
             (r, t) \<Rightarrow> c\<lparr>pc_trie := t, pc_root := Some r, pc_activePath := [r]\<rparr>))"

definition begin_session :: "'snap layers \<Rightarrow> ('c, 'snap) cache_ops \<Rightarrow> int \<Rightarrow> 32 word list
    \<Rightarrow> ('c, 'snap) prefix_cache \<Rightarrow> (cache_session \<times> ('c, 'snap) prefix_cache) option" where
  "begin_session L C now inputs c0 =
     (let c = ensureRoot now c0 in
      case cache_key (pc_draftLookahead c) inputs of
        None \<Rightarrow> None
      | Some keys \<Rightarrow>
          (let (matchPath, matched) = findBestMatch (pc_trie c) (pc_root c) keys;
               (matchPath, matched) =
                 (if matched = length inputs \<and> 0 < matched
                  then findBestMatch (pc_trie c) (pc_root c) (take (matched - 1) keys)
                  else (matchPath, matched))
           in case switchToPath L C now matchPath (int matched) c of
                None \<Rightarrow> None
              | Some c \<Rightarrow>
                  (let prefix = minCacheOffset C (pc_caches c) in
                   if prefix < 0 \<or> int (length inputs) < prefix then None
                   else Some (\<lparr>se_inputs = inputs, se_outputs = [], se_remaining = drop (nat prefix) inputs,
                          se_pending = (if prefix < int matched
                            then [\<lparr>ps_offset = int matched, ps_user = False\<rparr>] else [])\<rparr>, c))))"

text \<open>The offsets to capture: merged with the scheduled ones, sorted, and passed to the caches.\<close>

fun add_pending :: "int \<Rightarrow> pending_snapshot list \<Rightarrow> pending_snapshot list" where
  "add_pending off [] = [\<lparr>ps_offset = off, ps_user = True\<rparr>]"
| "add_pending off (p # ps) =
     (if ps_offset p = off then p\<lparr>ps_user := True\<rparr> # ps else p # add_pending off ps)"

definition prepare_all :: "('c, 'snap) cache_ops \<Rightarrow> int list \<Rightarrow> 'c option list \<Rightarrow> 'c option list option" where
  "prepare_all C offs kvs = each_layer (\<lambda>kv. co_prepare C kv offs) kvs"

definition schedulePrefillSnapshots :: "('c, 'snap) cache_ops \<Rightarrow> int list \<Rightarrow> cache_session
    \<Rightarrow> ('c, 'snap) prefix_cache \<Rightarrow> (cache_session \<times> ('c, 'snap) prefix_cache) option" where
  "schedulePrefillSnapshots C offsets s c =
     (let base = minCacheOffset C (pc_caches c);
          pending = fold (\<lambda>off ps. let off = off - int (pc_draftLookahead c) in
              if off \<le> base \<or> int (length (se_inputs s)) < off then ps else add_pending off ps)
            offsets (se_pending s);
          pending = sort_key ps_offset pending;
          s = s\<lparr>se_pending := pending\<rparr>
      in if pending = [] then Some (s, c)
         else map_option (\<lambda>kvs. (s, c\<lparr>pc_caches := kvs\<rparr>)) (prepare_all C (map ps_offset pending) (pc_caches c)))"

definition discardPrefillSnapshots :: "('c, 'snap) cache_ops \<Rightarrow> cache_session \<Rightarrow> ('c, 'snap) prefix_cache
    \<Rightarrow> cache_session \<times> ('c, 'snap) prefix_cache" where
  "discardPrefillSnapshots C s c =
     (if se_pending s = [] then (s, c)
      else (s\<lparr>se_pending := []\<rparr>, c\<lparr>pc_caches := map (map_option (\<lambda>kv. snd (co_take C kv))) (pc_caches c)\<rparr>))"

definition advancePath :: "'snap layers \<Rightarrow> nat \<Rightarrow> trie_key list \<Rightarrow> int \<Rightarrow> ('c, 'snap) prefix_cache
    \<Rightarrow> (nat \<times> ('c, 'snap) prefix_cache) option" where
  "advancePath L frontier tokens endOffset c =
     (let t = pc_trie c;
          (matchPath, matched) = findBestMatch t (Some frontier) tokens;
          remaining = drop matched tokens;
          lastNode = last matchPath;
          matchedInEdge = tn_endOffset (node_at t frontier) + int matched - startOffset (node_at t lastNode)
      in case
           (if 1 < length matchPath \<and> 0 < matchedInEdge \<and> matchedInEdge < int (length (tn_tokens (node_at t lastNode)))
            then map_option (\<lambda>(np, t). (butlast matchPath @ [np], t)) (splitNode L lastNode matchedInEdge t)
            else Some (matchPath, t)) of
           None \<Rightarrow> None
         | Some (matchPath, t) \<Rightarrow>
             (let active = pc_activePath c @ tl matchPath; dest = last matchPath in
              if 0 < length remaining then
                (case pc_root c of
                   None \<Rightarrow> None
                 | Some root \<Rightarrow>
                     (let t = (if length (tn_children (node_at t dest)) = 0 \<and> \<not> tn_user (node_at t dest)
                               then setSnapshots L dest [] t else t)
                      in case appendTokens dest root remaining endOffset t of
                           (newDest, t) \<Rightarrow>
                             Some (newDest, c\<lparr>pc_trie := t,
                               pc_activePath := (if newDest \<noteq> dest then active @ [newDest] else active)\<rparr>)))
              else Some (dest, c\<lparr>pc_trie := t, pc_activePath := active\<rparr>)))"

section \<open>Attaching captured snapshots and closing\<close>

definition attachCapturedSnapshots :: "'snap layers \<Rightarrow> int \<Rightarrow> nat \<Rightarrow> 'snap option list \<Rightarrow> ('c, 'snap) prefix_cache
    \<Rightarrow> ('c, 'snap) prefix_cache option" where
  "attachCapturedSnapshots L now node snaps c =
     (let t = upd node (\<lambda>nd. nd\<lparr>tn_lastUsed := now\<rparr>) (setSnapshots L node snaps (pc_trie c)) in
      case pc_root c of
        None \<Rightarrow> None
      | Some root \<Rightarrow> map_option (\<lambda>t. c\<lparr>pc_trie := t\<rparr>) (enforceEvictionPolicy L root (pc_activePath c) t))"

text \<open>The slice \<^verbatim>\<open>stored[from:to]\<close>; out of range it panics.\<close>

definition slice_keys :: "trie_key list \<Rightarrow> int \<Rightarrow> int \<Rightarrow> trie_key list option" where
  "slice_keys ks from0 to =
     (if from0 < 0 \<or> to < from0 \<or> int (length ks) < to then None
      else Some (take (nat (to - from0)) (drop (nat from0) ks)))"

text \<open>Row \<open>i\<close> holds the captures of all layers for pending offset \<open>i\<close>.\<close>

definition capture_rows :: "nat \<Rightarrow> 'snap option list option list \<Rightarrow> 'snap option list list" where
  "capture_rows n takens =
     map (\<lambda>i. map (\<lambda>tk. case tk of None \<Rightarrow> None | Some ss \<Rightarrow> if i < length ss then ss ! i else None) takens) [0 ..< n]"

fun attach_rows :: "'snap layers \<Rightarrow> int \<Rightarrow> int \<Rightarrow> trie_key list \<Rightarrow> (pending_snapshot \<times> 'snap option list) list
    \<Rightarrow> ('c, 'snap) prefix_cache \<Rightarrow> ('c, 'snap) prefix_cache option" where
  "attach_rows L now reached keys [] c = Some c"
| "attach_rows L now reached keys ((p, row) # rest) c =
     (if reached < ps_offset p then attach_rows L now reached keys rest c
      else if pc_activePath c = [] then None
      else
        (let frontier = last (pc_activePath c); fe = tn_endOffset (node_at (pc_trie c) frontier) in
         case (if fe < ps_offset p
               then (case slice_keys keys fe (ps_offset p) of
                       None \<Rightarrow> None
                     | Some edge \<Rightarrow> advancePath L frontier edge (ps_offset p) c)
               else Some (frontier, c)) of
           None \<Rightarrow> None
         | Some (frontier, c) \<Rightarrow>
             (let c = (if ps_user p then c\<lparr>pc_trie := upd frontier (\<lambda>nd. nd\<lparr>tn_user := True\<rparr>) (pc_trie c)\<rparr> else c) in
              case attachCapturedSnapshots L now frontier row c of
                None \<Rightarrow> None
              | Some c \<Rightarrow> attach_rows L now reached keys rest c)))"

definition attachPrefillSnapshots :: "'snap layers \<Rightarrow> ('c, 'snap) cache_ops \<Rightarrow> int \<Rightarrow> cache_session
    \<Rightarrow> ('c, 'snap) prefix_cache \<Rightarrow> (cache_session \<times> ('c, 'snap) prefix_cache) option" where
  "attachPrefillSnapshots L C now s c =
     (if se_pending s = [] then Some (s, c)
      else
        (let takes = map (map_option (co_take C)) (pc_caches c);
             rows = capture_rows (length (se_pending s)) (map (map_option fst) takes);
             c = c\<lparr>pc_caches := map (map_option snd) takes\<rparr>
         in case cache_key (pc_draftLookahead c) (se_inputs s @ se_outputs s) of
              None \<Rightarrow> None
            | Some keys \<Rightarrow>
                map_option (\<lambda>c. (s\<lparr>se_pending := []\<rparr>, c))
                  (attach_rows L now (minCacheOffset C (pc_caches c)) keys (zip (se_pending s) rows) c)))"

text \<open>\<^verbatim>\<open>close\<close>; evaluating the arrays of the caches changes nothing of this state.\<close>

definition close_session :: "'snap layers \<Rightarrow> ('c, 'snap) cache_ops \<Rightarrow> int \<Rightarrow> cache_session
    \<Rightarrow> ('c, 'snap) prefix_cache \<Rightarrow> (cache_session \<times> ('c, 'snap) prefix_cache) option" where
  "close_session L C now s0 c0 =
     (case discardPrefillSnapshots C s0 c0 of (s, c) \<Rightarrow>
       let off = minCacheOffset C (pc_caches c) in
       if off \<le> 0 then Some (s, c)
       else case cache_key (pc_draftLookahead c) (se_inputs s @ se_outputs s) of
         None \<Rightarrow> None
       | Some keys \<Rightarrow>
           if int (length keys) < off then None
           else if pc_activePath c = [] then Some (s, c)
           else
             (let frontier = last (pc_activePath c); fe = tn_endOffset (node_at (pc_trie c) frontier) in
              case (if fe < off
                    then (case slice_keys keys fe off of
                            None \<Rightarrow> None
                          | Some new \<Rightarrow> map_option snd (advancePath L frontier new off c))
                    else Some c) of
                None \<Rightarrow> None
              | Some c \<Rightarrow> Some (s, c\<lparr>pc_trie := upd (last (pc_activePath c)) (\<lambda>nd. nd\<lparr>tn_lastUsed := now\<rparr>) (pc_trie c)\<rparr>)))"

section \<open>The interface of a layer's cache\<close>

text \<open>
  What the prompt cache relies on of the implementations of \<open>Cache\<close>: a restore that
  succeeds moves the cache to the target and one that fails leaves its offset alone; it returns,
  without a panic, when it is given no snapshot or one the cache still knows (\<open>live\<close>: not closed).
  A new snapshot is live, and no operation makes another one unknown. A cache can always be freed
  and is then empty; taking or scheduling snapshots does not move it.
\<close>

locale layer_cache =
  fixes C :: "('c, 'snap) cache_ops" and valid :: "'c \<Rightarrow> bool" and live :: "'c \<Rightarrow> 'snap \<Rightarrow> bool"
  assumes offset_nonneg: "valid kv \<Longrightarrow> 0 \<le> co_offset C kv"
    and restore_law: "valid kv \<Longrightarrow> co_restore C kv s target = Some (ok, kv') \<Longrightarrow>
      valid kv' \<and> co_offset C kv' = (if ok then target else co_offset C kv) \<and> (\<forall>x. live kv x \<longrightarrow> live kv' x)"
    and restore_returns: "valid kv \<Longrightarrow> (\<And>x. s = Some x \<Longrightarrow> live kv x) \<Longrightarrow> co_restore C kv s target \<noteq> None"
    and free_law: "valid kv \<Longrightarrow>
      \<exists>kv'. co_free C kv = Some kv' \<and> valid kv' \<and> co_offset C kv' = 0 \<and> (\<forall>x. live kv x \<longrightarrow> live kv' x)"
    and snapshot_law: "valid kv \<Longrightarrow> 0 \<le> from0 \<Longrightarrow> co_snapshot C kv from0 = (s, kv') \<Longrightarrow>
      valid kv' \<and> co_offset C kv' = co_offset C kv \<and> (\<forall>x. live kv x \<or> s = Some x \<longrightarrow> live kv' x)"
    and take_valid: "valid kv \<Longrightarrow> valid (snd (co_take C kv))"
    and take_offset: "valid kv \<Longrightarrow> co_offset C (snd (co_take C kv)) = co_offset C kv"

end
