(* ===== verification/PrefixCacheProofs.thy ===== *)
theory PrefixCacheProofs
  imports PrefixCache
begin

text \<open>
  The prompt cache keeps the trie: storing the tokens of a session adds exactly their
  prefixes, eviction ends and spares the active path, and a session always has a token left
  to evaluate.
\<close>

section \<open>Storing a text\<close>

lemma reach_same: "trie_ok root t \<Longrightarrow> tr_nodes t n = Some nd \<Longrightarrow> reach t n n w \<Longrightarrow> w = []"
  using reach_in [of t n n w root nd] by auto

lemma reach_last:
  "reach t x m v \<Longrightarrow> trie_ok root t \<Longrightarrow> x \<noteq> m \<Longrightarrow> \<exists>p pd v0. v = v0 @ tn_tokens (node_at t m) \<and> reach t x p v0 \<and>
    tr_nodes t p = Some pd \<and> m \<in> set (tn_children pd) \<and> tr_nodes t m \<noteq> None"
proof (induction rule: reach.induct)
  case (reach_step n nd c cd m w)
  show ?case
  proof (cases "c = m")
    case True
    with reach_same [OF reach_step.prems(1) reach_step.hyps(3)] reach_step.hyps(4) have "w = []" by simp
    with True reach_step.hyps reach_refl [of t n] show ?thesis by auto
  next
    case False
    with reach_step.IH reach_step.prems(1) obtain p pd v0 where p: "w = v0 @ tn_tokens (node_at t m)" "reach t c p v0"
      "tr_nodes t p = Some pd" "m \<in> set (tn_children pd)" "tr_nodes t m \<noteq> None" by blast
    with reach.reach_step [OF reach_step.hyps(1-3) p(2)] show ?thesis
      by (intro exI [of _ p] exI [of _ pd] exI [of _ "tn_tokens cd @ v0"]) simp
  qed
qed simp

text \<open>The nodes of a path lie deeper and deeper.\<close>

lemma is_path_offset:
  "trie_ok root t \<Longrightarrow> tr_nodes t n \<noteq> None \<Longrightarrow> is_path t n ps \<Longrightarrow> m \<in> set ps \<Longrightarrow>
    tr_nodes t m \<noteq> None \<and> tn_endOffset (node_at t n) < tn_endOffset (node_at t m)"
proof (induction ps arbitrary: n)
  case (Cons c ps)
  from Cons.prems(2) obtain nd where nd: "tr_nodes t n = Some nd" by blast
  have c: "c \<in> set (tn_children nd)" using Cons.prems(3) nd by simp
  from trie_child [OF Cons.prems(1) nd c] obtain cd where cd: "tr_nodes t c = Some cd" "tn_tokens cd \<noteq> []"
    "tn_endOffset cd = tn_endOffset nd + int (length (tn_tokens cd))" by metis
  have lt: "tn_endOffset (node_at t n) < tn_endOffset (node_at t c)" using nd cd by simp
  show ?case
  proof (cases "m = c")
    case True
    with lt cd show ?thesis by simp
  next
    case False
    with Cons.IH [OF Cons.prems(1), of c] Cons.prems(3,4) cd lt show ?thesis by auto
  qed
qed simp

lemma is_path_last_max:
  assumes "trie_ok root t" "tr_nodes t n \<noteq> None" "is_path t n ps" "m \<in> set (n # ps)"
  shows "tn_endOffset (node_at t m) \<le> tn_endOffset (node_at t (last (n # ps)))"
  using assms
proof (induction ps arbitrary: n m)
  case (Cons c ps)
  have c: "tr_nodes t c \<noteq> None" "tn_endOffset (node_at t n) < tn_endOffset (node_at t c)"
    using is_path_offset [OF Cons.prems(1-3), of c] by simp_all
  have IH: "k \<in> set (c # ps) \<Longrightarrow> tn_endOffset (node_at t k) \<le> tn_endOffset (node_at t (last (c # ps)))" for k
    using Cons.IH [OF Cons.prems(1) c(1), of k] Cons.prems(3) by simp
  show ?case using IH [of m] IH [of c] c(2) Cons.prems(4) by auto
qed simp

lemma is_path_mono:
  assumes "\<And>m c. m \<in> set (n # ps) \<Longrightarrow> c \<in> set ps \<Longrightarrow> c \<in> set (tn_children (node_at t m)) \<Longrightarrow>
    c \<in> set (tn_children (node_at t' m))"
  shows "is_path t n ps \<Longrightarrow> is_path t' n ps"
  using assms by (induction ps arbitrary: n) auto

lemma is_path_append: "is_path t n (a @ b) \<longleftrightarrow> is_path t n a \<and> is_path t (last (n # a)) b"
  by (induction a arbitrary: n) auto

lemma same_shape_at:
  "same_shape t t' \<Longrightarrow> tr_nodes t n \<noteq> None \<Longrightarrow> tn_children (node_at t' n) = tn_children (node_at t n) \<and>
    tn_tokens (node_at t' n) = tn_tokens (node_at t n) \<and> tn_endOffset (node_at t' n) = tn_endOffset (node_at t n) \<and>
    tr_nodes t' n \<noteq> None"
  using same_shape_node [of t t' n] by (auto simp: node_at_def)

text \<open>
  The first half of \<^verbatim>\<open>advancePath\<close>: match the tokens and split an edge matched in part. Then a
  node carries exactly the matched tokens, and nothing stored has changed.
\<close>

lemma advance_match:
  assumes "trie_ok root t" "counted L t" "tr_nodes t frontier \<noteq> None" "find_loop t frontier tokens = (path, k)"
  defines "l \<equiv> last (frontier # path)"
  defines "at \<equiv> tn_endOffset (node_at t frontier) + int k - startOffset (node_at t l)"
  obtains path' t1 where
    "(if 1 < length (frontier # path) \<and> 0 < at \<and> at < int (length (tn_tokens (node_at t l)))
      then map_option (\<lambda>(np, t). (butlast (frontier # path) @ [np], t)) (splitNode L l at t)
      else Some (frontier # path, t)) = Some (frontier # path', t1)"
    "trie_ok root t1" "counted L t1" "reach t1 frontier (last (frontier # path')) (take k tokens)"
    "\<And>x ks. tr_nodes t x \<noteq> None \<Longrightarrow> stored t1 x ks = stored t x ks"
    "\<And>x m w. tr_nodes t x \<noteq> None \<Longrightarrow> reach t x m w \<Longrightarrow> reach t1 x m w"
    "is_path t1 frontier path'"
    "\<And>n ps. tr_nodes t n \<noteq> None \<Longrightarrow> is_path t n ps \<Longrightarrow> last (n # ps) = frontier \<Longrightarrow> is_path t1 n ps"
    "tr_nodes t1 frontier \<noteq> None \<and> tn_endOffset (node_at t1 frontier) = tn_endOffset (node_at t frontier)"
proof -
  from assms(3) obtain fd where fd: "tr_nodes t frontier = Some fd" by blast
  from find_loop_path [OF assms(1,3,4)] obtain w where
    F: "is_path t frontier path" "path = [] \<longrightarrow> k = 0" "reach t frontier l w" "k \<le> length w" "take k tokens = take k w"
      "path \<noteq> [] \<longrightarrow> length w < k + length (tn_tokens (node_at t l))"
    unfolding l_def by auto
  from reach_in [OF F(3) assms(1) fd] obtain ld where
    ld: "tr_nodes t l = Some ld" "tn_endOffset ld = tn_endOffset fd + int (length w)" by blast
  have at: "at = int k - int (length w) + int (length (tn_tokens ld))"
    using fd ld by (simp add: at_def startOffset_def)
  show thesis
  proof (cases "path = [] \<or> k = length w")
    case True
    then have k: "k = length w"
    proof
      assume "path = []"
      then have "l = frontier" by (simp add: l_def)
      with reach_same [OF assms(1) fd, of w] F(2,3) \<open>path = []\<close> show ?thesis by simp
    qed
    have "take k tokens = w" using F(5) k by simp
    moreover have "\<not> (1 < length (frontier # path) \<and> 0 < at \<and> at < int (length (tn_tokens (node_at t l))))"
      using at k ld by auto
    ultimately have sel: "(if 1 < length (frontier # path) \<and> 0 < at \<and> at < int (length (tn_tokens (node_at t l)))
      then map_option (\<lambda>(np, t). (butlast (frontier # path) @ [np], t)) (splitNode L l at t)
      else Some (frontier # path, t)) = Some (frontier # path, t)" and tk: "take k tokens = w" by auto
    show thesis
    proof (rule that [OF sel assms(1,2)])
      show "reach t frontier (last (frontier # path)) (take k tokens)" using F(3) tk unfolding l_def by simp
    qed (use F(1) assms(3) in auto)
  next
    case False
    then have kw: "k < length w" and ne: "path \<noteq> []" using F(4) by auto
    have a: "0 < at" "at < int (length (tn_tokens ld))" using at F(6) ne kw ld by auto
    have "length (tn_snapshots ld) \<le> la_count L" using counted_layers [OF assms(2) ld(1)] by (auto simp: per_layer_def)
    from splitNode_eq [OF assms(1) ld(1) a this] obtain np t1 p pd where
      S: "splitNode L l at t = Some (np, t1)" "split_store t l ld at p pd np t1" "counted L t \<longrightarrow> counted L t1" by blast
    note N = split_store_nodes [OF assms(1) ld(1) S(2)]
    have ok: "trie_ok root t1"
      using splitNode_ok [OF assms(1) ld(1) a _ S(1)] counted_layers [OF assms(2) ld(1)] by (auto simp: per_layer_def)
    have fl: "l \<noteq> frontier"
    proof
      assume "l = frontier"
      with reach_same [OF assms(1) fd, of w] F(3) kw show False by simp
    qed
    from reach_last [OF F(3) assms(1)] fl obtain q qd v0 where
      q: "w = v0 @ tn_tokens ld" "reach t frontier q v0" "tr_nodes t q = Some qd" "l \<in> set (tn_children qd)"
      using ld(1) by auto
    have qp: "q = p" using N(14) [OF q(3,4)] .
    have fnp: "frontier \<noteq> np" using N(1) fd by auto
    have "reach t1 frontier p v0" using split_reach_new [OF assms(1) ld(1) S(2) q(2) fnp] qp by simp
    moreover have "reach t1 p np (take (nat at) (tn_tokens ld))"
      using reach_stepI [of t1 p np np "[]"] N(3,6,7,10,13) q(3) qp reach_refl [of t1 np] by simp
    ultimately have "reach t1 frontier np (v0 @ take (nat at) (tn_tokens ld))" by (rule reach_trans)
    moreover have "v0 @ take (nat at) (tn_tokens ld) = take k tokens"
    proof -
      have "nat at = k - length v0" "length v0 \<le> k" using at a q(1) by auto
      then show ?thesis using F(5) q(1) by simp
    qed
    ultimately have R: "reach t1 frontier np (take k tokens)" by simp
    have path: "frontier # path = butlast (frontier # path) @ [l]" by (simp add: l_def)
    obtain path0 where p0: "path = path0 @ [l]" using ne by (metis append_butlast_last_id l_def last_ConsR)
    have P: "is_path t1 frontier (path0 @ [np])"
    proof -
      have 1: "is_path t frontier path0" "l \<in> set (tn_children (node_at t (last (frontier # path0))))"
        using F(1) p0 by (simp_all add: is_path_append)
      have lastp: "last (frontier # path0) = p"
      proof (rule N(14))
        have "last (frontier # path0) \<in> set (frontier # path0)" by (rule last_in_set) simp
        then have "tr_nodes t (last (frontier # path0)) \<noteq> None"
          using is_path_offset [OF assms(1,3) 1(1)] assms(3) by (metis set_ConsD)
        then show "tr_nodes t (last (frontier # path0)) = Some (node_at t (last (frontier # path0)))"
          by (auto simp: node_at_def)
      qed (rule 1(2))
      have lend: "c \<noteq> l" if "c \<in> set path0" for c
      proof
        assume "c = l"
        have "is_path t (last (frontier # path0)) [l]" using 1(2) by simp
        have in0: "tr_nodes t p \<noteq> None" using q(3) qp by simp
        have "tn_endOffset (node_at t l) \<le> tn_endOffset (node_at t p)"
          using is_path_last_max [OF assms(1,3) 1(1), of l] that \<open>c = l\<close> lastp by simp
        moreover have "tn_endOffset (node_at t p) < tn_endOffset (node_at t l)"
          using is_path_offset [OF assms(1) in0, of "[l]" l] 1(2) lastp by simp
        ultimately show False by simp
      qed
      have "is_path t1 frontier path0"
      proof (rule is_path_mono [OF _ 1(1)])
        fix m c assume m: "m \<in> set (frontier # path0)" "c \<in> set path0" "c \<in> set (tn_children (node_at t m))"
        have "tr_nodes t m \<noteq> None" using m(1) is_path_offset [OF assms(1,3) 1(1)] assms(3) by auto
        then have "m \<noteq> np" using N(1) by auto
        with m N(10) N(12) [of m] lend q(3) qp show "c \<in> set (tn_children (node_at t1 m))"
          by (cases "m = p") (use S(2) in \<open>auto simp: split_store_def\<close>)
      qed
      with N(10) lastp show ?thesis by (simp add: is_path_append)
    qed
    have old: "is_path t1 n ps" if n: "tr_nodes t n \<noteq> None" "is_path t n ps" "last (n # ps) = frontier" for n ps
    proof (rule is_path_mono [OF _ n(2)])
      fix m c assume m: "m \<in> set (n # ps)" "c \<in> set ps" "c \<in> set (tn_children (node_at t m))"
      have "tn_endOffset (node_at t c) \<le> tn_endOffset fd"
        using is_path_last_max [OF assms(1) n(1,2), of c] m(2) n(3) fd by simp
      then have "c \<noteq> l" using ld kw by auto
      have "tr_nodes t m \<noteq> None" using m(1) is_path_offset [OF assms(1) n(1,2)] n(1) by auto
      then have "m \<noteq> np" using N(1) by auto
      with m(3) N(10) N(12) [of m] \<open>c \<noteq> l\<close> show "c \<in> set (tn_children (node_at t1 m))"
        by (cases "m = p") (use S(2) in \<open>auto simp: split_store_def\<close>)
    qed
    have fr: "tr_nodes t1 frontier \<noteq> None \<and> tn_endOffset (node_at t1 frontier) = tn_endOffset (node_at t frontier)"
    proof -
      have ff: "tr_nodes t1 frontier \<noteq> None" using N(13) [OF fnp] fd by simp
      from reach_root [OF assms(1) fd] obtain v where v: "reach t root frontier v" "int (length v) = tn_endOffset fd" by blast
      have "root \<noteq> np" using N(1) assms(1) by (auto simp: trie_ok_def)
      from split_reach_new [OF assms(1) ld(1) S(2) v(1) this] have "reach t1 root frontier v" .
      moreover obtain rd where rd: "tr_nodes t1 root = Some rd" using ok by (auto simp: trie_ok_def)
      moreover have "tn_endOffset rd = 0" using trie_okD [OF ok rd] by (simp add: node_ok_def)
      ultimately show ?thesis using reach_in [of t1 root frontier v root rd] ok v(2) fd ff by auto
    qed
    show thesis
    proof (rule that [of "path0 @ [np]" t1])
      show "(if 1 < length (frontier # path) \<and> 0 < at \<and> at < int (length (tn_tokens (node_at t l)))
        then map_option (\<lambda>(np, t). (butlast (frontier # path) @ [np], t)) (splitNode L l at t)
        else Some (frontier # path, t)) = Some (frontier # path0 @ [np], t1)"
        using a ne ld S(1) p0 by (simp add: butlast_append)
      show "reach t1 frontier (last (frontier # path0 @ [np])) (take k tokens)" using R by simp
      show "stored t1 x ks = stored t x ks" if "tr_nodes t x \<noteq> None" for x ks
        using split_stored [OF assms(1) ld(1) S(2)] N(1) that by metis
      show "reach t1 x m w" if "tr_nodes t x \<noteq> None" "reach t x m w" for x m w
        using split_reach_new [OF assms(1) ld(1) S(2) that(2)] N(1) that(1) by metis
    qed (use ok S(3) assms(2) P old fr in auto)
  qed
qed

lemma same_shape_upd:
  assumes "\<And>nd. tn_tokens (f nd) = tn_tokens nd \<and> tn_endOffset (f nd) = tn_endOffset nd \<and>
      tn_parent (f nd) = tn_parent nd \<and> tn_children (f nd) = tn_children nd"
  shows "same_shape t (upd n f t)"
  using assms by (auto simp: same_shape_def option.map_comp comp_def)

lemma same_shape_path: "same_shape t t' \<Longrightarrow> trie_ok root t \<Longrightarrow> tr_nodes t n \<noteq> None \<Longrightarrow> is_path t n ps \<Longrightarrow> is_path t' n ps"
proof (induction ps arbitrary: n)
  case (Cons c ps)
  obtain nd where nd: "tr_nodes t n = Some nd" using Cons.prems(3) by blast
  have "tr_nodes t c \<noteq> None" using trie_edge(2) [OF Cons.prems(2) nd] Cons.prems(4) nd by simp
  with Cons.IH [OF Cons.prems(1,2)] Cons.prems(4) same_shape_at [OF Cons.prems(1,3)] show ?case by simp
qed simp

lemma reach_length:
  assumes "trie_ok root t" "reach t root d v" "reach t root d w"
  shows "length v = length w"
proof -
  obtain rd where rd: "tr_nodes t root = Some rd" using assms(1) by (auto simp: trie_ok_def)
  from reach_in [OF assms(2,1) rd] reach_in [OF assms(3,1) rd] show ?thesis by auto
qed

lemma reach_unique:
  assumes "trie_ok root t"
  shows "reach t root d v \<Longrightarrow> reach t root d w \<Longrightarrow> v = w"
proof (induction "length v" arbitrary: v w d rule: less_induct)
  case less
  obtain rd where rd: "tr_nodes t root = Some rd" using assms by (auto simp: trie_ok_def)
  show ?case
  proof (cases "root = d")
    case True
    with reach_same [OF assms rd, of v] reach_same [OF assms rd, of w] less.prems show ?thesis by simp
  next
    case False
    from reach_last [OF less.prems(1) assms False] obtain p pd v0 where
      p: "v = v0 @ tn_tokens (node_at t d)" "reach t root p v0" "tr_nodes t p = Some pd" "d \<in> set (tn_children pd)" by blast
    from reach_last [OF less.prems(2) assms False] obtain q qd w0 where
      q: "w = w0 @ tn_tokens (node_at t d)" "reach t root q w0" "tr_nodes t q = Some qd" "d \<in> set (tn_children qd)" by blast
    from trie_child [OF assms p(3,4)] trie_child [OF assms q(3,4)] have "p = q" by (metis option.inject)
    have "tn_tokens (node_at t d) \<noteq> []" by (rule trie_edge(1) [OF assms p(3,4)])
    with p(1) have "length v0 < length v" by simp
    from less.hyps [OF this p(2)] q(2) \<open>p = q\<close> p(1) q(1) show ?thesis by simp
  qed
qed

text \<open>The second half: the rest becomes a new leaf or lengthens the leaf it ends in.\<close>

lemma append_stores:
  assumes "trie_ok root t" "counted L t" "tr_nodes t d = Some dd" "reach t root d v" "tokens \<noteq> []"
    and "e = tn_endOffset dd + int (length tokens)" "\<not> stored t d [hd tokens]"
    and "appendTokens d root tokens e t = (n, t')" "is_path t root ps" "last (root # ps) = d"
  shows "trie_ok root t' \<and> counted L t' \<and> reach t' root n (v @ tokens) \<and>
    (\<forall>ks. stored t' root ks \<longleftrightarrow> stored t root ks \<or> prefix ks (v @ tokens)) \<and>
    is_path t' root (if n \<noteq> d then ps @ [n] else ps)"
proof -
  note A = appendTokens_eq [OF assms(1,3,8), of L]
  have uniq: "(\<exists>w. reach t root d w \<and> prefix ks (w @ tokens)) \<longleftrightarrow> prefix ks (v @ tokens)" for ks
    using reach_unique [OF assms(1) _ assms(4)] assms(4) by blast
  have heads: "\<forall>c \<in> set (tn_children dd). hd (tn_tokens (node_at t c)) \<noteq> hd tokens"
  proof
    fix c assume c: "c \<in> set (tn_children dd)"
    have ne: "tn_tokens (node_at t c) \<noteq> []" "tr_nodes t c \<noteq> None" using trie_edge [OF assms(1,3) c] by auto
    have "stored t d [hd (tn_tokens (node_at t c))]"
      using stored_edge [of t d c "[hd (tn_tokens (node_at t c))]"] assms(3) c ne
      by (cases "tn_tokens (node_at t c)") auto
    with assms(7) show "hd (tn_tokens (node_at t c)) \<noteq> hd tokens" by auto
  qed
  have root: "tr_nodes t root \<noteq> None" using assms(1) by (simp add: trie_ok_def)
  have below: "m \<in> set (root # ps) \<Longrightarrow> tr_nodes t m \<noteq> None" for m
    using is_path_offset [OF assms(1) root assms(9)] root by auto
  show ?thesis
  proof (cases "d = root \<or> tn_children dd \<noteq> [] \<or> hasSnapshots dd")
    case True
    with A have n: "n = tr_next t" and ls: "leaf_store t d dd tokens e t'" and ct: "counted L t'" using assms(2) by auto
    have fresh: "root \<noteq> n" "d \<noteq> n" using trie_fresh [OF assms(1)] root assms(3) n by auto
    have ok: "trie_ok root t'" by (rule leaf_store_ok [OF assms(1,3) ls assms(5,6) heads])
    note S = leaf_store_stored [OF assms(1,3) ls fresh(1) [unfolded n]]
    have "is_path t' root (ps @ [n])"
    proof -
      have "is_path t' root ps"
      proof (rule is_path_mono [OF _ assms(9)])
        fix m c assume "m \<in> set (root # ps)" "c \<in> set (tn_children (node_at t m))"
        with below [of m] trie_fresh [OF assms(1)] ls assms(3)
        show "c \<in> set (tn_children (node_at t' m))" by (auto simp: leaf_store_def node_at_def)
      qed
      moreover have "n \<in> set (tn_children (node_at t' d))" using ls n fresh by (auto simp: leaf_store_def node_at_def)
      ultimately show ?thesis using assms(10) by (simp add: is_path_append)
    qed
    moreover have "reach t' root n (v @ tokens)" unfolding n by (rule S(3) [OF assms(4)])
    moreover have "\<forall>ks. stored t' root ks \<longleftrightarrow> stored t root ks \<or> prefix ks (v @ tokens)"
      unfolding S(1) uniq by simp
    ultimately show ?thesis using ok ct fresh(2) by simp
  next
    case False
    with A have n: "n = d" and gs: "grown_store t d dd tokens e t'" and ct: "counted L t'" using assms(2) by auto
    have dr: "d \<noteq> root" "tn_children dd = []" using False by auto
    have ok: "trie_ok root t'" by (rule grown_store_ok [OF assms(1,3) gs dr assms(6)])
    note S = grown_store_stored [OF assms(1,3) gs dr(2), of root]
    have "is_path t' root ps"
    proof (rule is_path_mono [OF _ assms(9)])
      fix m c assume "m \<in> set (root # ps)" "c \<in> set (tn_children (node_at t m))"
      with gs assms(3) show "c \<in> set (tn_children (node_at t' m))" by (auto simp: grown_store_def node_at_def)
    qed
    moreover have "reach t' root n (v @ tokens)" unfolding n using S(3) [OF _ assms(4)] dr(1) by simp
    moreover have "\<forall>ks. stored t' root ks \<longleftrightarrow> stored t root ks \<or> prefix ks (v @ tokens)"
      using S(1) dr(1) uniq by simp
    ultimately show ?thesis using ok ct n by simp
  qed
qed


text \<open>
  The invariant of the prompt cache: the store holds a trie with the root of the cache, the
  counter is what the snapshots take, and the active path leads from the root along the edges.
\<close>

definition cache_ok :: "'snap layers \<Rightarrow> nat \<Rightarrow> ('c, 'snap) prefix_cache \<Rightarrow> bool" where
  "cache_ok L root c \<longleftrightarrow> pc_root c = Some root \<and> trie_ok root (pc_trie c) \<and> counted L (pc_trie c) \<and>
     (\<exists>ps. pc_activePath c = root # ps \<and> is_path (pc_trie c) root ps)"

lemma path_live: "trie_ok root t \<Longrightarrow> is_path t root ps \<Longrightarrow> m \<in> set (root # ps) \<Longrightarrow> tr_nodes t m \<noteq> None"
  using is_path_offset [of root t root ps m] by (auto simp: trie_ok_def)

lemma path_reach: "trie_ok root t \<Longrightarrow> tr_nodes t n \<noteq> None \<Longrightarrow> is_path t n ps \<Longrightarrow> \<exists>w. reach t n (last (n # ps)) w"
proof (induction ps arbitrary: n)
  case Nil
  show ?case using reach_refl [of t n] by auto
next
  case (Cons c ps)
  have c: "tr_nodes t c \<noteq> None" using is_path_offset [OF Cons.prems, of c] by simp
  with Cons.IH [OF Cons.prems(1) c] Cons.prems(3) obtain w where w: "reach t c (last (c # ps)) w" by auto
  from reach_stepI [OF Cons.prems(2) _ c w] Cons.prems(3) show ?case by auto
qed

text \<open>After a maximal match, the next key continues no edge of the node it ended in.\<close>

lemma match_maximal:
  assumes "trie_ok root t" "tr_nodes t f \<noteq> None" "find_loop t f tokens = (path, k)" "k < length tokens"
    and "reach t1 f d (take k tokens)" "\<And>ks. stored t1 f ks = stored t f ks"
  shows "\<not> stored t1 d [hd (drop k tokens)]"
proof
  assume "stored t1 d [hd (drop k tokens)]"
  then obtain m u where u: "reach t1 d m u" "prefix [hd (drop k tokens)] u" by (auto simp: stored_def)
  from reach_trans [OF assms(5) u(1)] have "reach t1 f m (take k tokens @ u)" .
  moreover have "prefix (take (Suc k) tokens) (take k tokens @ u)"
    using u(2) assms(4) by (simp add: take_Suc_conv_app_nth hd_drop_conv_nth)
  ultimately have "stored t1 f (take (Suc k) tokens)" by (auto simp: stored_def)
  with assms(6) find_loop_longest [OF assms(1-3)] assms(4) show False
    by (metis Suc_leI Suc_n_not_le_n)
qed

lemma set_snapshots_facts:
  assumes "trie_ok root t" "counted L t" "tr_nodes t d \<noteq> None" "per_layer L snaps"
  shows "trie_ok root (setSnapshots L d snaps t)" "counted L (setSnapshots L d snaps t)"
    "same_shape t (setSnapshots L d snaps t)"
proof -
  show s: "same_shape t (setSnapshots L d snaps t)" by (simp add: swap_simps)
  show "trie_ok root (setSnapshots L d snaps t)" by (rule same_shape_ok [OF s assms(1)])
  from assms(3) obtain dd where dd: "tr_nodes t d = Some dd" by blast
  show "counted L (setSnapshots L d snaps t)"
    using counted_swap [OF assms(2) dd trie_bound [OF assms(1) dd] assms(4)] by (simp add: swap_simps)
qed

lemma same_shape_stored_reach:
  assumes "same_shape t t'"
  shows "stored t' n ks \<longleftrightarrow> stored t n ks" "reach t' n m w \<longleftrightarrow> reach t n m w"
  using same_shape_stored [OF assms] same_shape_reach [OF _ assms] same_shape_reach [OF _ same_shape_sym [OF assms]]
  by blast+


text \<open>Storing the tokens after a frontier, the end of the active path.\<close>

lemma advance_stores:
  assumes "cache_ok L root c" "frontier = last (pc_activePath c)" "reach (pc_trie c) root frontier w"
    and "e = tn_endOffset (node_at (pc_trie c) frontier) + int (length tokens)"
  shows "\<exists>dest c'. advancePath L frontier tokens e c = Some (dest, c') \<and> cache_ok L root c' \<and>
    last (pc_activePath c') = dest \<and> reach (pc_trie c') root dest (w @ tokens) \<and>
    (\<forall>ks. stored (pc_trie c') root ks \<longleftrightarrow> stored (pc_trie c) root ks \<or> prefix ks (w @ tokens)) \<and>
    pc_caches c' = pc_caches c \<and> pc_draftLookahead c' = pc_draftLookahead c"
proof -
  define t where "t = pc_trie c"
  obtain ps where ok: "pc_root c = Some root" "trie_ok root t" "counted L t" "pc_activePath c = root # ps" "is_path t root ps"
    using assms(1) by (auto simp: cache_ok_def t_def)
  have fr: "frontier = last (root # ps)" using assms(2) ok(4) by simp
  have fl: "tr_nodes t frontier \<noteq> None" using path_live [OF ok(2,5), of frontier] fr by (metis last_in_set list.distinct(1))
  have rl: "tr_nodes t root \<noteq> None" using ok(2) by (simp add: trie_ok_def)
  obtain path k where fl1: "find_loop t frontier tokens = (path, k)" by (cases "find_loop t frontier tokens")
  define l where "l = last (frontier # path)"
  define at where "at = tn_endOffset (node_at t frontier) + int k - startOffset (node_at t l)"
  from advance_match [OF ok(2,3) fl fl1] obtain path' t1 where
    sel: "(if 1 < length (frontier # path) \<and> 0 < at \<and> at < int (length (tn_tokens (node_at t l)))
      then map_option (\<lambda>(np, t). (butlast (frontier # path) @ [np], t)) (splitNode L l at t)
      else Some (frontier # path, t)) = Some (frontier # path', t1)"
    and M: "trie_ok root t1" "counted L t1" "reach t1 frontier (last (frontier # path')) (take k tokens)"
    "\<And>x ks. tr_nodes t x \<noteq> None \<Longrightarrow> stored t1 x ks = stored t x ks"
    "\<And>x m w. tr_nodes t x \<noteq> None \<Longrightarrow> reach t x m w \<Longrightarrow> reach t1 x m w"
    "is_path t1 frontier path'"
    "\<And>n ps. tr_nodes t n \<noteq> None \<Longrightarrow> is_path t n ps \<Longrightarrow> last (n # ps) = frontier \<Longrightarrow> is_path t1 n ps"
    "tr_nodes t1 frontier \<noteq> None \<and> tn_endOffset (node_at t1 frontier) = tn_endOffset (node_at t frontier)"
    unfolding l_def at_def by blast
  define d where "d = last (frontier # path')"
  have w: "reach t root frontier w" using assms(3) by (simp add: t_def)
  have rd: "reach t1 root d (w @ take k tokens)"
    using reach_trans [OF M(5) [OF rl w] M(3)] by (simp add: d_def)
  have P1: "is_path t1 root (ps @ path')"
    using M(7) [OF rl ok(5)] M(6) fr by (simp add: is_path_append)
  have lastd: "last (root # ps @ path') = d" using fr by (cases path') (simp_all add: d_def)
  have S1: "stored t1 root ks = stored t root ks" for ks by (rule M(4) [OF rl])
  have k: "k \<le> length tokens" using find_loop_longest [OF ok(2) fl fl1] by simp
  have pcp: "pc_activePath c @ tl (frontier # path') = root # ps @ path'" using ok(4) by simp
  have adv: "advancePath L frontier tokens e c =
    (if drop k tokens \<noteq> [] then
       (case appendTokens d root (drop k tokens) e
          (if length (tn_children (node_at t1 d)) = 0 \<and> \<not> tn_user (node_at t1 d) then setSnapshots L d [] t1 else t1) of
          (newDest, t') \<Rightarrow> Some (newDest, c\<lparr>pc_trie := t',
            pc_activePath := (if newDest \<noteq> d then (root # ps @ path') @ [newDest] else root # ps @ path')\<rparr>))
     else Some (d, c\<lparr>pc_trie := t1, pc_activePath := root # ps @ path'\<rparr>))"
    unfolding advancePath_def findBestMatch_def t_def [symmetric] Let_def option.case fl1 prod.case
      l_def [symmetric] at_def [symmetric] sel pcp d_def [symmetric] ok(1) by simp
  show ?thesis
  proof (cases "drop k tokens = []")
    case True
    then have tk: "take k tokens = tokens" by simp
    have "prefix ks (w @ tokens) \<longrightarrow> stored t root ks" for ks
      using rd unfolding tk S1 [symmetric] by (auto simp: stored_def)
    then show ?thesis
      using True adv M(1,2) P1 lastd rd S1 by (auto simp: cache_ok_def tk ok t_def)
  next
    case False
    then have kl: "k < length tokens" by simp
    define t2 where "t2 = (if length (tn_children (node_at t1 d)) = 0 \<and> \<not> tn_user (node_at t1 d) then setSnapshots L d [] t1 else t1)"
    have dl: "tr_nodes t1 d \<noteq> None" using path_live [OF M(1) P1, of d] lastd by (metis last_in_set list.distinct(1))
    have T2: "trie_ok root t2" "counted L t2" "same_shape t1 t2"
      using set_snapshots_facts [OF M(1,2) dl, of "[]"] M(1,2) by (simp_all add: t2_def)
    obtain dd where dd: "tr_nodes t2 d = Some dd" using same_shape_at [OF T2(3) dl] by blast
    have rd2: "reach t2 root d (w @ take k tokens)" by (rule same_shape_reach [OF rd T2(3)])
    obtain r2 where r2: "tr_nodes t2 root = Some r2" "tn_endOffset r2 = 0"
      using T2(1) trie_okD [OF T2(1)] by (fastforce simp: trie_ok_def node_ok_def)
    obtain rr where rr: "tr_nodes t root = Some rr" "tn_endOffset rr = 0"
      using ok(2) trie_okD [OF ok(2)] by (fastforce simp: trie_ok_def node_ok_def)
    have "e = int (length w) + int (length tokens)"
      using reach_in [OF w ok(2) rr(1)] rr(2) assms(4) by (auto simp: t_def)
    moreover have "tn_endOffset dd = int (length w) + int k"
      using reach_in [OF rd2 T2(1) r2(1)] r2(2) dd k by auto
    ultimately have e: "e = tn_endOffset dd + int (length (drop k tokens))" using k by simp
    have nst: "\<not> stored t2 d [hd (drop k tokens)]"
      using match_maximal [OF ok(2) fl fl1 kl _ M(4) [OF fl], of d] M(3)
      unfolding same_shape_stored_reach(1) [OF T2(3)] by (simp add: d_def)
    obtain n t' where ap: "appendTokens d root (drop k tokens) e t2 = (n, t')"
      by (cases "appendTokens d root (drop k tokens) e t2")
    have P2: "is_path t2 root (ps @ path')"
      by (rule same_shape_path [OF T2(3) M(1) _ P1]) (use M(1) in \<open>simp add: trie_ok_def\<close>)
    from append_stores [OF T2(1,2) dd rd2 False e nst ap P2 lastd]
    have A: "trie_ok root t'" "counted L t'" "reach t' root n (w @ tokens)"
      "\<forall>ks. stored t' root ks \<longleftrightarrow> stored t2 root ks \<or> prefix ks (w @ tokens)"
      "is_path t' root (if n \<noteq> d then (ps @ path') @ [n] else ps @ path')"
      by simp_all
    have "advancePath L frontier tokens e c = Some (n, c\<lparr>pc_trie := t',
        pc_activePath := (if n \<noteq> d then (root # ps @ path') @ [n] else root # ps @ path')\<rparr>)"
      using adv False ap by (simp add: t2_def)
    then show ?thesis
      using A lastd S1 by (auto simp: cache_ok_def ok t_def same_shape_stored_reach(1) [OF T2(3)])
  qed
qed


section \<open>Eviction\<close>

lemma pick_victim_Some:
  "pick_victim L t root active ns best = Some b \<Longrightarrow> best = Some b \<or> b \<in> set ns \<and> evictable t root active b"
  by (induction L t root active ns best rule: pick_victim.induct) (auto split: if_splits option.splits)

lemma pick_victim_None:
  "pick_victim L t root active ns best = None \<longleftrightarrow> best = None \<and> (\<forall>n \<in> set ns. \<not> evictable t root active n)"
  by (induction L t root active ns best rule: pick_victim.induct) (auto split: if_splits option.splits)

text \<open>The victim is the first in the order: no candidate should go before it.\<close>

lemma evict_before_trans: "evict_before L a b \<Longrightarrow> \<not> evict_before L c b \<Longrightarrow> \<not> evict_before L c a"
  by (auto simp: evict_before_def split: if_splits)

lemma pick_victim_first:
  "pick_victim L t root active ns best = Some b \<Longrightarrow>
    (\<forall>n. n \<in> set ns \<and> evictable t root active n \<or> best = Some n \<longrightarrow> \<not> evict_before L (node_at t n) (node_at t b))"
proof (induction L t root active ns best rule: pick_victim.induct)
  case (1 L t root active best)
  then show ?case by (auto simp: evict_before_def)
next
  case (2 L t root active n ns best)
  show ?case
  proof (cases "evictable t root active n")
    case False
    with 2 show ?thesis by auto
  next
    case True
    show ?thesis
    proof (cases best)
      case None
      with 2 True show ?thesis by auto
    next
      case (Some b0)
      show ?thesis
      proof (cases "evict_before L (node_at t n) (node_at t b0)")
        case E: True
        from "2.prems" Some True E have "pick_victim L t root active ns (Some n) = Some b" by simp
        with "2.IH" Some True E have IH: "\<And>m. m \<in> set ns \<and> evictable t root active m \<or> m = n \<Longrightarrow>
          \<not> evict_before L (node_at t m) (node_at t b)" by auto
        have "\<not> evict_before L (node_at t b0) (node_at t b)"
        proof
          assume "evict_before L (node_at t b0) (node_at t b)"
          with E IH [of n] evict_before_trans [of L "node_at t b0" "node_at t b" "node_at t n"] show False by simp
        qed
        with IH Some show ?thesis by auto
      next
        case E: False
        from "2.prems" Some True E have "pick_victim L t root active ns (Some b0) = Some b" by simp
        with "2.IH" Some True E have IH: "\<And>m. m \<in> set ns \<and> evictable t root active m \<or> m = b0 \<Longrightarrow>
          \<not> evict_before L (node_at t m) (node_at t b)" by auto
        have "\<not> evict_before L (node_at t n) (node_at t b)"
          using E IH [of b0] by (auto simp: evict_before_def split: if_splits)
        with IH Some show ?thesis by auto
      qed
    qed
  qed
qed

lemma live_nodes_less:
  fixes t t' :: "'snap trie"
  assumes "tr_next t' = tr_next t" "\<And>m. tr_nodes t' m \<noteq> None \<Longrightarrow> tr_nodes t m \<noteq> None"
    and "tr_nodes t n \<noteq> None" "n < tr_next t" "tr_nodes t' n = None"
  shows "live_nodes t' < live_nodes t"
proof -
  have eq: "live_nodes s = card {i. i < tr_next s \<and> tr_nodes s i \<noteq> None}" for s :: "'snap trie"
  proof -
    have "live_nodes s = card {i. i < tr_next s \<and> tr_nodes s ([0 ..< tr_next s] ! i) \<noteq> None}"
      by (simp add: live_nodes_def length_filter_conv_card)
    also have "{i. i < tr_next s \<and> tr_nodes s ([0 ..< tr_next s] ! i) \<noteq> None} = {i. i < tr_next s \<and> tr_nodes s i \<noteq> None}"
      by auto
    finally show ?thesis .
  qed
  have "{i. i < tr_next t' \<and> tr_nodes t' i \<noteq> None} \<subset> {i. i < tr_next t \<and> tr_nodes t i \<noteq> None}"
  proof
    show "{i. i < tr_next t' \<and> tr_nodes t' i \<noteq> None} \<subseteq> {i. i < tr_next t \<and> tr_nodes t i \<noteq> None}"
    proof
      fix i assume "i \<in> {i. i < tr_next t' \<and> tr_nodes t' i \<noteq> None}"
      then have "i < tr_next t'" "tr_nodes t' i \<noteq> None" by simp_all
      then show "i \<in> {i. i < tr_next t \<and> tr_nodes t i \<noteq> None}" using assms(1) assms(2) [of i] by simp
    qed
    have "n \<in> {i. i < tr_next t \<and> tr_nodes t i \<noteq> None}" "n \<notin> {i. i < tr_next t' \<and> tr_nodes t' i \<noteq> None}"
      using assms(3-5) by simp_all
    then show "{i. i < tr_next t' \<and> tr_nodes t' i \<noteq> None} \<noteq> {i. i < tr_next t \<and> tr_nodes t i \<noteq> None}" by blast
  qed
  then show ?thesis unfolding eq by (intro psubset_card_mono) auto
qed

text \<open>What one or more evictions keep: the path, the texts of its nodes, and nothing stored is made up.\<close>

definition spares :: "'snap trie \<Rightarrow> 'snap trie \<Rightarrow> nat \<Rightarrow> nat list \<Rightarrow> bool" where
  "spares t t' root ps \<longleftrightarrow> is_path t' root ps \<and> (\<forall>m w. reach t' root m w \<longrightarrow> stored t root w) \<and>
     (\<forall>m \<in> set (root # ps). \<forall>w. reach t' root m w \<longleftrightarrow> reach t root m w) \<and>
     (\<forall>m \<in> set (root # ps). tn_endOffset (node_at t' m) = tn_endOffset (node_at t m))"

lemma spares_path_reach:
  assumes "trie_ok root t" "trie_ok root t'" "is_path t root ps" "is_path t' root ps"
    and "\<And>m w. m \<in> set (root # ps) \<Longrightarrow> reach t' root m w \<Longrightarrow> reach t root m w" "m \<in> set (root # ps)"
  shows "reach t' root m w \<longleftrightarrow> reach t root m w" "tn_endOffset (node_at t' m) = tn_endOffset (node_at t m)"
proof -
  have "tr_nodes t m \<noteq> None" "tr_nodes t' m \<noteq> None"
    using path_live [OF assms(1,3,6)] path_live [OF assms(2,4,6)] by auto
  then obtain d d' where d: "tr_nodes t m = Some d" "tr_nodes t' m = Some d'" by blast
  from reach_root [OF assms(2) d(2)] obtain v where v: "reach t' root m v" "int (length v) = tn_endOffset d'" by blast
  from reach_root [OF assms(1) d(1)] obtain u where u: "reach t root m u" "int (length u) = tn_endOffset d" by blast
  have uv: "u = v" by (rule reach_unique [OF assms(1) u(1) assms(5) [OF assms(6) v(1)]])
  show "tn_endOffset (node_at t' m) = tn_endOffset (node_at t m)" using u v uv d by simp
  show "reach t' root m w \<longleftrightarrow> reach t root m w"
  proof
    assume "reach t root m w"
    with reach_unique [OF assms(1) u(1), of w] uv v(1) show "reach t' root m w" by simp
  qed (rule assms(5) [OF assms(6)])
qed

lemma sparesI:
  assumes "trie_ok root t" "trie_ok root t'" "is_path t root ps" "is_path t' root ps"
    and "\<forall>m w. reach t' root m w \<longrightarrow> (\<exists>m'. reach t root m' w)"
    and "\<forall>m w. m \<in> set (root # ps) \<longrightarrow> reach t' root m w \<longrightarrow> reach t root m w"
  shows "spares t t' root ps"
  unfolding spares_def
proof (intro conjI ballI allI impI)
  show "is_path t' root ps" by (rule assms(4))
  show "stored t root w" if "reach t' root m w" for m w using assms(5) that unfolding stored_def by blast
  have r: "\<And>m w. m \<in> set (root # ps) \<Longrightarrow> reach t' root m w \<Longrightarrow> reach t root m w" using assms(6) by blast
  show "reach t' root m w \<longleftrightarrow> reach t root m w" if "m \<in> set (root # ps)" for m w
    by (rule spares_path_reach(1) [OF assms(1-4) r that])
  show "tn_endOffset (node_at t' m) = tn_endOffset (node_at t m)" if "m \<in> set (root # ps)" for m
    by (rule spares_path_reach(2) [OF assms(1-4) r that])
qed

lemma path_parent:
  assumes "is_path t n ps" "c \<in> set ps"
  shows "\<exists>m \<in> set (n # ps). c \<in> set (tn_children (node_at t m))"
  using assms by (induction ps arbitrary: n) auto

lemma evictNode_spares:
  assumes "trie_ok root t" "counted L t" "is_path t root ps" "tr_nodes t n \<noteq> None" "evictable t root (root # ps) n"
  shows "\<exists>t'. evictNode L n t = Some t' \<and> trie_ok root t' \<and> counted L t' \<and> spares t t' root ps \<and>
    live_nodes t' < live_nodes t"
proof -
  obtain nd where nd: "tr_nodes t n = Some nd" using assms(4) by blast
  have n: "n \<noteq> root" "n \<notin> set (root # ps)" "length (tn_children nd) \<le> 1" using assms(5) nd by (auto simp: evictable_def)
  note nb = trie_bound [OF assms(1) nd]
  have lv: "tr_nodes t m \<noteq> None" if "m \<in> set (root # ps)" for m by (rule path_live [OF assms(1,3) that])
  show ?thesis
  proof (cases "tn_children nd = []")
    case True
    from removeNode_eq [OF assms(1) nd n(1) True, of L] obtain p pd t' where
      R: "removeNode L n t = Some t'" "cut_store t n p pd t'" "counted L t'" using assms(2) by blast
    have ok: "trie_ok root t'" by (rule cut_store_ok [OF assms(1) nd n(1) True R(2)])
    note X = cut_store_reach [OF assms(1) nd True R(2)]
    have P: "is_path t' root ps"
    proof (rule is_path_mono [OF _ assms(3)])
      fix m c assume m: "m \<in> set (root # ps)" "c \<in> set ps" "c \<in> set (tn_children (node_at t m))"
      then have "m \<noteq> n" "c \<noteq> n" using n(2) by auto
      with m(3) R(2) show "c \<in> set (tn_children (node_at t' m))" by (auto simp: cut_store_def node_at_def)
    qed
    have "spares t t' root ps"
      by (rule sparesI [OF assms(1) ok assms(3) P]) (use X [of root] n(1) in auto)
    moreover have "live_nodes t' < live_nodes t"
      by (rule live_nodes_less [of _ _ n]) (use R(2) nd nb in \<open>auto simp: cut_store_def split: if_splits\<close>)
    ultimately show ?thesis using R(1,3) ok nd True by (auto simp: evictNode_def)
  next
    case False
    then obtain c where c: "tn_children nd = [c]" using n(3) by (cases "tn_children nd") auto
    from trie_child [OF assms(1) nd, of c] c obtain cd where cd: "tr_nodes t c = Some cd" by auto
    from mergeWithChild_eq [OF assms(1) nd c cd, of L] counted_layers [OF assms(2) nd] counted_layers [OF assms(2) cd]
    obtain t' where R: "mergeWithChild L n t = Some t'" "merge_store t n nd c cd t'" "counted L t'"
      using assms(2) by (auto simp: per_layer_def)
    have ok: "trie_ok root t'" by (rule merge_store_ok [OF assms(1) nd n(1) c cd R(2)])
    note N = merge_store_nodes [OF assms(1) nd n(1) c cd R(2)]
    note X = merge_reach_old [OF assms(1) nd n(1) c cd R(2), of root]
    have ca: "c \<notin> set (root # ps)"
    proof
      assume "c \<in> set (root # ps)"
      then have "c \<in> set ps" using N(2) by auto
      from path_parent [OF assms(3) this] obtain m where m: "m \<in> set (root # ps)" "c \<in> set (tn_children (node_at t m))" by blast
      obtain md where md: "tr_nodes t m = Some md" using lv [OF m(1)] by blast
      from N(9) [OF md] m(2) md have "m = n" by simp
      with m(1) n(2) show False by simp
    qed
    have P: "is_path t' root ps"
    proof (rule is_path_mono [OF _ assms(3)])
      fix m x assume m: "m \<in> set (root # ps)" "x \<in> set (tn_children (node_at t m))"
      then have mm: "m \<noteq> n" "m \<noteq> c" using n(2) ca by auto
      obtain md where md: "tr_nodes t m = Some md" using lv [OF m(1)] by blast
      from N(7) [OF mm(2,1) md] m(2) md show "x \<in> set (tn_children (node_at t' m))" by auto
    qed
    have "spares t t' root ps"
    proof (rule sparesI [OF assms(1) ok assms(3) P])
      show "\<forall>m w. reach t' root m w \<longrightarrow> (\<exists>m'. reach t root m' w)" using X n(1) by auto
      show "\<forall>m w. m \<in> set (root # ps) \<longrightarrow> reach t' root m w \<longrightarrow> reach t root m w"
      proof (intro allI impI)
        fix m w assume "m \<in> set (root # ps)" "reach t' root m w"
        with X [of m w] n show "reach t root m w" by (cases "m = n") auto
      qed
    qed
    moreover have "live_nodes t' < live_nodes t"
    proof (rule live_nodes_less [of _ _ c])
      show "tr_next t' = tr_next t" using R(2) by (simp add: merge_store_def)
      show "tr_nodes t m \<noteq> None" if "tr_nodes t' m \<noteq> None" for m using N(5,8) that by metis
    qed (use cd trie_bound [OF assms(1) cd] N(5) in auto)
    ultimately show ?thesis using R(1,3) ok nd c by (auto simp: evictNode_def)
  qed
qed

lemma spares_stored: "spares t t' root ps \<Longrightarrow> stored t' root ks \<Longrightarrow> stored t root ks"
  by (auto simp: spares_def stored_def [of t'] intro: stored_prefix)

lemma spares_trans: "spares t1 t2 root ps \<Longrightarrow> spares t2 t3 root ps \<Longrightarrow> spares t1 t3 root ps"
  using spares_stored [of t1 t2 root ps] unfolding spares_def by simp

lemma spares_refl: "trie_ok root t \<Longrightarrow> is_path t root ps \<Longrightarrow> spares t t root ps"
  unfolding spares_def stored_def by blast

text \<open>The loop ends: under the limit, or with no node left to evict.\<close>

lemma evict_loop_ends:
  assumes "trie_ok root t" "counted L t" "is_path t root ps" "live_nodes t \<le> fuel"
  shows "\<exists>t'. evict_loop fuel L root (root # ps) t = Some t' \<and> trie_ok root t' \<and> counted L t' \<and> spares t t' root ps \<and>
    (tr_counter t' \<le> maxPagedOutBytes \<or> (\<forall>n. tr_nodes t' n \<noteq> None \<longrightarrow> \<not> evictable t' root (root # ps) n))"
  using assms
proof (induction fuel arbitrary: t)
  case 0
  obtain rd where rd: "tr_nodes t root = Some rd" using "0.prems"(1) by (auto simp: trie_ok_def)
  from rd trie_bound [OF "0.prems"(1) rd] have "root \<in> set (filter (\<lambda>n. tr_nodes t n \<noteq> None) [0 ..< tr_next t])" by simp
  then have "0 < live_nodes t" unfolding live_nodes_def by (rule length_pos_if_in_set)
  with "0.prems"(4) show ?case by simp
next
  case (Suc fuel)
  show ?case
  proof (cases "tr_counter t \<le> maxPagedOutBytes")
    case True
    with Suc.prems spares_refl [OF Suc.prems(1,3)] show ?thesis by auto
  next
    case False
    show ?thesis
    proof (cases "pick_victim L t root (root # ps) (walkNodes t root) None")
      case None
      then have "\<forall>n. tr_nodes t n \<noteq> None \<longrightarrow> \<not> evictable t root (root # ps) n"
        unfolding pick_victim_None using walk_all [OF Suc.prems(1)] by blast
      with None Suc.prems spares_refl [OF Suc.prems(1,3)] show ?thesis by simp
    next
      case (Some b)
      from pick_victim_Some [OF Some] walk_all [OF Suc.prems(1), of b] have b: "tr_nodes t b \<noteq> None" "evictable t root (root # ps) b"
        by auto
      from evictNode_spares [OF Suc.prems(1-3) b] obtain t1 where
        E: "evictNode L b t = Some t1" "trie_ok root t1" "counted L t1" "spares t t1 root ps" "live_nodes t1 < live_nodes t"
        by blast
      have "is_path t1 root ps" using E(4) by (simp add: spares_def)
      from Suc.IH [OF E(2,3) this] E(5) Suc.prems(4) obtain t' where
        T: "evict_loop fuel L root (root # ps) t1 = Some t'" "trie_ok root t'" "counted L t'" "spares t1 t' root ps"
        "tr_counter t' \<le> maxPagedOutBytes \<or> (\<forall>n. tr_nodes t' n \<noteq> None \<longrightarrow> \<not> evictable t' root (root # ps) n)"
        by auto
      from spares_trans [OF E(4) T(4)] T False Some E(1) show ?thesis by auto
    qed
  qed
qed

end
