(* ===== verification/PrefixSession.thy ===== *)
theory PrefixSession
  imports PrefixCacheProofs
begin

text \<open>
  Sessions over the prompt cache: what a key match says about the tokens, that beginning a
  session aligns the layers and leaves a token to evaluate, and that closing one stores what
  it evaluated. The caches of the layers are used through the interface \<open>layer_cache\<close>.
\<close>

section \<open>Keys\<close>

lemma bit_beyond: "\<not> bit (x :: 32 word) (n + 32)"
  using bit_imp_le_length [of x "n + 32"] by auto

lemma pack_key_inject: "pack_key a b = pack_key c d \<longleftrightarrow> a = c \<and> b = d"
proof
  assume eq: "pack_key a b = pack_key c d"
  have "bit a n = bit c n" if "n < 32" for n
    using arg_cong [OF eq, of "\<lambda>k. bit k (n + 32)"] that
    by (simp add: pack_key_def bit_or_iff bit_push_bit_iff bit_ucast_iff bit_beyond)
  moreover have "bit b n = bit d n" if "n < 32" for n
    using arg_cong [OF eq, of "\<lambda>k. bit k n"] that
    by (simp add: pack_key_def bit_or_iff bit_push_bit_iff bit_ucast_iff)
  ultimately show "a = c \<and> b = d" by (auto intro!: bit_word_eqI)
qed simp


lemma scast_key_inject: "(scast (a :: 32 word) :: trie_key) = scast b \<longleftrightarrow> a = b"
proof
  assume eq: "(scast a :: trie_key) = scast b"
  have "bit a n = bit b n" if "n < 32" for n
    using arg_cong [OF eq, of "\<lambda>k. bit k n"] that by (simp add: bit_word_scast_iff)
  then show "a = b" by (auto intro!: bit_word_eqI)
qed simp

lemma cache_key_length: "cache_key l tokens = Some ks \<Longrightarrow> length ks = length tokens - l"
  by (auto simp: cache_key_def Let_def split: if_splits)

lemma cache_key_Some: "l \<le> 1 \<Longrightarrow> \<exists>ks. cache_key l tokens = Some ks"
  by (auto simp: cache_key_def Let_def)

lemma cache_key_append: "cache_key l a = Some ks \<Longrightarrow> cache_key l (a @ b) = Some ls \<Longrightarrow> prefix ks ls"
proof -
  assume *: "cache_key l a = Some ks" "cache_key l (a @ b) = Some ls"
  show ?thesis
  proof (cases "l = 0")
    case True
    with * show ?thesis by (auto simp: cache_key_def Let_def)
  next
    case False
    with * have l: "l = 1" by (auto simp: cache_key_def Let_def split: if_splits)
    from * l have k: "ks = map (\<lambda>i. pack_key (a ! i) (a ! (i + 1))) [0 ..< length a - 1]"
      and ls: "ls = map (\<lambda>i. pack_key ((a @ b) ! i) ((a @ b) ! (i + 1))) [0 ..< length (a @ b) - 1]"
      by (auto simp: cache_key_def Let_def)
    have "take (length a - 1) ls = ks"
      unfolding ls k by (rule nth_equalityI) (auto simp: nth_append)
    then show ?thesis by (metis take_is_prefix)
  qed
qed

text \<open>Matching keys verify the tokens they cover and as many more as the draft looks ahead.\<close>

lemma keys_verify_tokens:
  assumes "cache_key l xs = Some ks" "cache_key l ys = Some ls" "take k ks = take k ls"
    and "0 < k" "k \<le> length ks" "k \<le> length ls"
  shows "take (k + l) xs = take (k + l) ys"
proof (cases "l = 0")
  case True
  with assms have "map scast (take k xs) = (map scast (take k ys) :: trie_key list)"
    by (auto simp: cache_key_def Let_def simp flip: take_map)
  then have "take k xs = take k ys" by (rule map_injective) (auto simp: inj_def scast_key_inject)
  with True show ?thesis by simp
next
  case False
  with assms(1) have l: "l = 1" by (auto simp: cache_key_def Let_def split: if_splits)
  have len: "k + 1 \<le> length xs" "k + 1 \<le> length ys"
    using cache_key_length [OF assms(1)] cache_key_length [OF assms(2)] assms(4-6) l by auto
  have eq: "xs ! i = ys ! i \<and> xs ! (i + 1) = ys ! (i + 1)" if i: "i < k" for i
  proof -
    have "ks ! i = ls ! i" using arg_cong [OF assms(3), of "\<lambda>zs. zs ! i"] i by simp
    moreover have "ks ! i = pack_key (xs ! i) (xs ! (i + 1))" "ls ! i = pack_key (ys ! i) (ys ! (i + 1))"
      using assms(1,2,5,6) l i len by (auto simp: cache_key_def Let_def)
    ultimately show ?thesis by (simp add: pack_key_inject)
  qed
  have "xs ! i = ys ! i" if i: "i < k + 1" for i
  proof (cases "i < k")
    case False
    with i assms(4) have "i = (k - 1) + 1" by simp
    with eq [of "k - 1"] assms(4) show ?thesis by simp
  qed (use eq in blast)
  with len l show ?thesis by (intro nth_equalityI) auto
qed


section \<open>Aligning the layers\<close>

definition all_layers :: "('c \<Rightarrow> bool) \<Rightarrow> 'c option list \<Rightarrow> bool" where
  "all_layers P kvs \<longleftrightarrow> (\<forall>kv. Some kv \<in> set kvs \<longrightarrow> P kv)"

lemma all_layers_simps [simp]:
  "all_layers P []" "all_layers P (None # kvs) \<longleftrightarrow> all_layers P kvs"
  "all_layers P (Some kv # kvs) \<longleftrightarrow> P kv \<and> all_layers P kvs"
  by (auto simp: all_layers_def)

lemma all_layers_map: "(\<And>kv. P kv \<Longrightarrow> Q (f kv)) \<Longrightarrow> all_layers P kvs \<Longrightarrow> all_layers Q (map (map_option f) kvs)"
proof (induction kvs)
  case (Cons k kvs)
  then show ?case by (cases k) simp_all
qed simp

lemma finite_layers: "finite {kv. Some kv \<in> set kvs}"
  using finite_vimageI [OF finite_set [of kvs], of Some] by (simp add: vimage_def)

lemma all_layers_mono: "all_layers P kvs \<Longrightarrow> (\<And>kv. P kv \<Longrightarrow> Q kv) \<Longrightarrow> all_layers Q kvs"
  by (auto simp: all_layers_def)

lemma min_offset_eq:
  "min_offset C kvs found = (if found = None \<and> (\<forall>kv. Some kv \<notin> set kvs) then None
     else Some (Min (set_option found \<union> co_offset C ` {kv. Some kv \<in> set kvs})))"
proof (induction C kvs found rule: min_offset.induct)
  case (1 C found)
  then show ?case by (cases found) auto
next
  case (2 C kvs found)
  then show ?case by simp
next
  case (3 C kv kvs found)
  define S where "S = co_offset C ` {kv. Some kv \<in> set kvs}"
  have fin: "finite S" unfolding S_def by (rule finite_imageI [OF finite_layers])
  have ins: "co_offset C ` {x. x = kv \<or> Some x \<in> set kvs} = insert (co_offset C kv) S" by (auto simp: S_def)
  show ?case
  proof (cases found)
    case None
    with 3 show ?thesis by (auto simp: ins S_def)
  next
    case (Some off)
    have "Min (insert (if co_offset C kv < off then co_offset C kv else off) S) = Min (insert (co_offset C kv) (insert off S))"
      using fin by (cases "S = {}") (auto simp: min_def)
    with 3 Some show ?thesis by (simp add: ins S_def split: if_splits)
  qed
qed

lemma minCacheOffset_layers:
  assumes "all_layers (\<lambda>kv. 0 \<le> co_offset C kv \<and> co_offset C kv \<le> m) kvs" "0 \<le> m"
  shows "0 \<le> minCacheOffset C kvs" "minCacheOffset C kvs \<le> m"
proof -
  define S where "S = co_offset C ` {kv. Some kv \<in> set kvs}"
  have fin: "finite S" unfolding S_def by (rule finite_imageI [OF finite_layers])
  have "S \<noteq> {} \<Longrightarrow> Min S \<in> S" using fin by simp
  moreover have "\<And>x. x \<in> S \<Longrightarrow> 0 \<le> x \<and> x \<le> m" using assms(1) by (auto simp: S_def all_layers_def)
  ultimately show "0 \<le> minCacheOffset C kvs" "minCacheOffset C kvs \<le> m"
    using assms(2) unfolding minCacheOffset_def min_offset_eq by (auto simp: S_def [symmetric]) (auto simp: S_def)
qed

lemma minCacheOffset_same:
  assumes "all_layers (\<lambda>kv. co_offset C kv = m) kvs" "Some kv \<in> set kvs"
  shows "minCacheOffset C kvs = m"
proof -
  have "co_offset C ` {kv. Some kv \<in> set kvs} = {m}" using assms by (auto simp: all_layers_def)
  with assms(2) show ?thesis unfolding minCacheOffset_def min_offset_eq by auto
qed

lemma snapshot_lengths:
  "length (snd (snapshot_all C from0 kvs)) = length kvs"
  "length (fst (snapshot_all C from0 kvs)) = length kvs"
proof -
  show "length (snd (snapshot_all C from0 kvs)) = length kvs"
  proof (induction kvs)
    case (Cons k kvs)
    then show ?case by (cases k) (simp_all add: case_prod_beta)
  qed simp
  show "length (fst (snapshot_all C from0 kvs)) = length kvs"
  proof (induction kvs)
    case (Cons k kvs)
    then show ?case by (cases k) (simp_all add: case_prod_beta)
  qed simp
qed

section \<open>Snapshots the layers know\<close>

text \<open>A cache later on forgets no snapshot; the caches of all layers later on, layer by layer.\<close>

definition keeps :: "('c \<Rightarrow> 'snap \<Rightarrow> bool) \<Rightarrow> 'c \<Rightarrow> 'c \<Rightarrow> bool" where
  "keeps live a b \<longleftrightarrow> (\<forall>x. live a x \<longrightarrow> live b x)"

fun later :: "('c \<Rightarrow> 'snap \<Rightarrow> bool) \<Rightarrow> 'c option list \<Rightarrow> 'c option list \<Rightarrow> bool" where
  "later live [] [] \<longleftrightarrow> True"
| "later live (None # kvs) (None # ks) \<longleftrightarrow> later live kvs ks"
| "later live (Some a # kvs) (Some b # ks) \<longleftrightarrow> keeps live a b \<and> later live kvs ks"
| "later live _ _ \<longleftrightarrow> False"

text \<open>The snapshots a node holds, one per layer, are known to the caches of these layers.\<close>

definition snaps_live :: "('c \<Rightarrow> 'snap \<Rightarrow> bool) \<Rightarrow> 'snap option list \<Rightarrow> nat \<Rightarrow> 'c option list \<Rightarrow> bool" where
  "snaps_live live snaps j kvs \<longleftrightarrow> (\<forall>i < length kvs. \<forall>kv x. kvs ! i = Some kv \<longrightarrow>
     j + i < length snaps \<longrightarrow> snaps ! (j + i) = Some x \<longrightarrow> live kv x)"

definition trie_live :: "('c \<Rightarrow> 'snap \<Rightarrow> bool) \<Rightarrow> 'snap trie \<Rightarrow> 'c option list \<Rightarrow> bool" where
  "trie_live live t kvs \<longleftrightarrow> (\<forall>n nd. tr_nodes t n = Some nd \<longrightarrow> snaps_live live (tn_snapshots nd) 0 kvs)"

lemma keeps_refl [simp]: "keeps live a a"
  by (simp add: keeps_def)

lemma keeps_trans: "keeps live a b \<Longrightarrow> keeps live b c \<Longrightarrow> keeps live a c"
  by (simp add: keeps_def)

lemma later_refl [simp]: "later live kvs kvs"
proof (induction kvs)
  case (Cons k kvs)
  then show ?case by (cases k) simp_all
qed simp

lemma later_trans: "later live a b \<Longrightarrow> later live b c \<Longrightarrow> later live a c"
proof (induction live a b arbitrary: c rule: later.induct)
  case (2 live kvs ks)
  from 2(3) obtain cs where "c = None # cs" "later live ks cs" by (cases "(live, None # ks, c)" rule: later.cases) auto
  with 2 show ?case by simp
next
  case (3 live x kvs y ks)
  from 3(3) obtain z cs where "c = Some z # cs" "keeps live y z" "later live ks cs"
    by (cases "(live, Some y # ks, c)" rule: later.cases) auto
  with 3 show ?case by (auto intro: keeps_trans)
qed simp_all

lemma later_length: "later live kvs ks \<Longrightarrow> length ks = length kvs"
  by (induction live kvs ks rule: later.induct) simp_all

lemma later_nth: "later live kvs ks \<Longrightarrow> i < length ks \<Longrightarrow> ks ! i = Some b \<Longrightarrow> \<exists>a. kvs ! i = Some a \<and> keeps live a b"
proof (induction live kvs ks arbitrary: i rule: later.induct)
  case (2 live kvs ks)
  then show ?case by (cases i) simp_all
next
  case (3 live x kvs y ks)
  then show ?case by (cases i) simp_all
qed simp_all

lemma later_live: "later live kvs ks \<Longrightarrow> snaps_live live snaps j kvs \<Longrightarrow> snaps_live live snaps j ks"
  using later_length later_nth unfolding snaps_live_def keeps_def by metis

lemma snaps_live_simps [simp]:
  "snaps_live live snaps j []"
  "snaps_live live snaps j (None # kvs) \<longleftrightarrow> snaps_live live snaps (j + 1) kvs"
  "snaps_live live snaps j (Some kv # kvs) \<longleftrightarrow>
     (\<forall>x. j < length snaps \<longrightarrow> snaps ! j = Some x \<longrightarrow> live kv x) \<and> snaps_live live snaps (j + 1) kvs"
proof -
  show "snaps_live live snaps j []" by (simp add: snaps_live_def)
  show "snaps_live live snaps j (None # kvs) \<longleftrightarrow> snaps_live live snaps (j + 1) kvs"
    by (simp add: snaps_live_def All_less_Suc2)
  show "snaps_live live snaps j (Some kv # kvs) \<longleftrightarrow>
     (\<forall>x. j < length snaps \<longrightarrow> snaps ! j = Some x \<longrightarrow> live kv x) \<and> snaps_live live snaps (j + 1) kvs"
    by (simp add: snaps_live_def All_less_Suc2)
qed

context layer_cache
begin

lemmas restore_law' = restore_law [folded keeps_def]
lemmas free_law' = free_law [folded keeps_def]

lemma snapshot_law': "valid kv \<Longrightarrow> 0 \<le> from0 \<Longrightarrow> co_snapshot C kv from0 = (s, kv') \<Longrightarrow>
  valid kv' \<and> co_offset C kv' = co_offset C kv \<and> keeps live kv kv' \<and> (\<forall>x. s = Some x \<longrightarrow> live kv' x)"
  using snapshot_law [of kv from0 s kv'] by (auto simp: keeps_def)

lemma snapshot_layers:
  assumes "0 \<le> from0" "all_layers valid kvs"
  shows "all_layers valid (snd (snapshot_all C from0 kvs)) \<and> later live kvs (snd (snapshot_all C from0 kvs))
    \<and> list_all2 (\<lambda>s k. \<forall>x kv. s = Some x \<longrightarrow> k = Some kv \<longrightarrow> live kv x)
        (fst (snapshot_all C from0 kvs)) (snd (snapshot_all C from0 kvs))"
  using assms(2)
proof (induction kvs)
  case (Cons k kvs)
  show ?case
  proof (cases k)
    case None
    with Cons show ?thesis by (simp add: case_prod_beta)
  next
    case (Some kv)
    obtain x kv1 where x: "co_snapshot C kv from0 = (x, kv1)" by (cases "co_snapshot C kv from0")
    with Cons Some snapshot_law' [OF _ assms(1) x] show ?thesis by (simp add: case_prod_beta)
  qed
qed simp

text \<open>Going back and freeing never panic, and no layer ends past the target.\<close>

lemma rewind_layer:
  assumes "valid kv" "0 \<le> target" "target \<le> m"
  shows "\<exists>kv1. rewind_or_free C target kv = Some kv1 \<and> valid kv1 \<and> co_offset C kv1 \<le> m
    \<and> keeps live kv kv1"
proof -
  obtain ok kv1 where r: "co_restore C kv None target = Some (ok, kv1)"
    using restore_returns [OF assms(1), of None target] by auto
  note R = restore_law' [OF assms(1) r]
  from free_law' [of kv1] R obtain kv2 where
    "co_free C kv1 = Some kv2" "valid kv2" "co_offset C kv2 = 0" "keeps live kv1 kv2" by blast
  with r R assms(2,3) show ?thesis by (cases ok) (auto simp: rewind_or_free_def intro: keeps_trans)
qed

lemma each_layer_returns:
  assumes "\<And>kv. valid kv \<Longrightarrow> \<exists>kv1. f kv = Some kv1 \<and> P kv1 \<and> keeps live kv kv1"
  shows "all_layers valid kvs \<Longrightarrow> \<exists>ks. each_layer f kvs = Some ks \<and> all_layers P ks \<and> later live kvs ks"
proof (induction kvs)
  case (Cons k kvs)
  from Cons obtain ks where ks: "each_layer f kvs = Some ks" "all_layers P ks" "later live kvs ks"
    by (cases k) auto
  show ?case
  proof (cases k)
    case None
    with ks show ?thesis by simp
  next
    case (Some kv)
    with Cons.prems assms [of kv] obtain kv1 where "f kv = Some kv1" "P kv1" "keeps live kv kv1" by auto
    with Some ks show ?thesis by auto
  qed
qed simp

text \<open>Paging in a node leaves the layers below the bound, and panics only on an unknown snapshot.\<close>

lemma page_in_node_layers:
  assumes "target \<le> m" "page_in_node C target snaps j kvs = Some (ok, ks)"
    and "all_layers (\<lambda>kv. valid kv \<and> co_offset C kv \<le> m) kvs"
  shows "all_layers (\<lambda>kv. valid kv \<and> co_offset C kv \<le> m) ks \<and> later live kvs ks"
  using assms(2,3)
proof (induction kvs arbitrary: j ok ks)
  case (Cons k kvs)
  show ?case
  proof (cases k)
    case None
    with Cons show ?thesis by (auto split: prod.splits)
  next
    case (Some kv)
    show ?thesis
    proof (cases "length snaps \<le> j \<or> snaps ! j = None \<or> target \<le> co_offset C kv")
      case True
      with Cons Some show ?thesis by (auto split: prod.splits)
    next
      case False
      with Cons.prems Some obtain ok1 kv1 where r: "co_restore C kv (snaps ! j) target = Some (ok1, kv1)"
        by (auto split: option.splits if_splits)
      have "valid kv" "co_offset C kv \<le> m" using Cons.prems Some by auto
      with restore_law' [OF _ r] assms(1)
      have kv1: "valid kv1 \<and> co_offset C kv1 \<le> m" "keeps live kv kv1" by (auto split: if_splits)
      show ?thesis
      proof (cases ok1)
        case True
        with Cons.prems False Some r obtain ok2 ks2 where
          "page_in_node C target snaps (j + 1) kvs = Some (ok2, ks2)" "ks = Some kv1 # ks2"
          by (auto split: prod.splits)
        with Cons Some kv1 show ?thesis by auto
      next
        case no: False
        then have "ks = Some kv1 # kvs" using Cons.prems(1) Some r False by auto
        with Cons.prems(2) Some kv1 show ?thesis by auto
      qed
    qed
  qed
qed simp

lemma page_in_node_returns:
  "all_layers valid kvs \<Longrightarrow> snaps_live live snaps j kvs \<Longrightarrow> page_in_node C target snaps j kvs \<noteq> None"
proof (induction kvs arbitrary: j)
  case (Cons k kvs)
  show ?case
  proof (cases k)
    case None
    with Cons show ?thesis by simp
  next
    case (Some kv)
    then have IH: "page_in_node C target snaps (j + 1) kvs \<noteq> None" and v: "valid kv" using Cons by auto
    have "co_restore C kv (snaps ! j) target \<noteq> None" if "\<not> length snaps \<le> j"
      using restore_returns [OF v] that Cons.prems(2) Some by auto
    with IH Some show ?thesis by (auto split: option.splits)
  qed
qed simp

lemma page_in_layers:
  assumes "page_in C t m ns kvs = Some ks" "all_layers (\<lambda>kv. valid kv \<and> co_offset C kv \<le> m) kvs"
  shows "all_layers (\<lambda>kv. valid kv \<and> co_offset C kv \<le> m) ks \<and> later live kvs ks"
  using assms
proof (induction ns arbitrary: kvs)
  case (Cons n ns)
  let ?s = "tn_snapshots (node_at t n)" and ?t = "min (tn_endOffset (node_at t n)) m"
  show ?case
  proof (cases "hasSnapshots (node_at t n)")
    case True
    with Cons.prems(1) obtain ok k1 where p: "page_in_node C ?t ?s 0 kvs = Some (ok, k1)"
      "(if ok then page_in C t m ns k1 else Some k1) = Some ks"
      by (auto split: option.splits)
    have "?t \<le> m" by simp
    from page_in_node_layers [OF this p(1) Cons.prems(2)] p(2) Cons.IH [of k1] show ?thesis
      by (auto split: if_splits intro: later_trans)
  qed (use Cons in simp)
qed simp

lemma page_in_returns:
  assumes "all_layers (\<lambda>kv. valid kv \<and> co_offset C kv \<le> m) kvs"
    "\<forall>n \<in> set ns. snaps_live live (tn_snapshots (node_at t n)) 0 kvs"
  shows "page_in C t m ns kvs \<noteq> None"
  using assms
proof (induction ns arbitrary: kvs)
  case (Cons n ns)
  let ?s = "tn_snapshots (node_at t n)" and ?t = "min (tn_endOffset (node_at t n)) m"
  have "all_layers valid kvs" by (rule all_layers_mono [OF Cons.prems(1)]) simp
  from page_in_node_returns [OF this, of ?s 0 ?t] Cons.prems(2)
  obtain ok k1 where p: "page_in_node C ?t ?s 0 kvs = Some (ok, k1)" by auto
  have "?t \<le> m" by simp
  note L = page_in_node_layers [OF this p Cons.prems(1)]
  have "\<forall>x \<in> set ns. snaps_live live (tn_snapshots (node_at t x)) 0 k1"
    using later_live [OF conjunct2 [OF L]] Cons.prems(2) by auto
  with Cons.IH [OF conjunct1 [OF L]] have "page_in C t m ns k1 \<noteq> None" by blast
  with p Cons.IH [OF Cons.prems(1)] Cons.prems(2) show ?case by auto
qed simp

lemma align_layers:
  "all_layers valid kvs \<Longrightarrow> \<exists>ok ks. align_all C target kvs = Some (ok, ks) \<and> all_layers valid ks \<and> later live kvs ks \<and>
    (ok \<longrightarrow> all_layers (\<lambda>kv. co_offset C kv = target) ks)"
proof (induction kvs)
  case (Cons k kvs)
  then obtain ok ks where ks: "align_all C target kvs = Some (ok, ks)" "all_layers valid ks" "later live kvs ks"
    "ok \<longrightarrow> all_layers (\<lambda>kv. co_offset C kv = target) ks" by (cases k) auto
  show ?case
  proof (cases k)
    case None
    with ks show ?thesis by simp
  next
    case (Some kv)
    then have v: "valid kv" using Cons.prems by simp
    obtain ok1 kv1 where r: "co_restore C kv None target = Some (ok1, kv1)"
      using restore_returns [OF v, of None target] by auto
    from restore_law' [OF v r] Cons.prems Some ks r show ?thesis by (cases ok1) auto
  qed
qed auto

text \<open>However the caches were, they end at one common offset, not past the match.\<close>

lemma move_caches_aligned:
  assumes "all_layers valid kvs" "0 \<le> m" "0 \<le> a"
    and "(\<forall>n \<in> set path. snaps_live live (tn_snapshots (node_at t n)) 0 kvs) \<or> move_caches C t path a m kvs \<noteq> None"
  shows "\<exists>mo ks off. move_caches C t path a m kvs = Some (mo, ks) \<and> 0 \<le> mo \<and> mo \<le> m \<and> 0 \<le> off \<and> off \<le> m \<and>
    all_layers (\<lambda>kv. valid kv \<and> co_offset C kv = off) ks \<and> later live kvs ks"
proof -
  have "0 \<le> min a m" using assms(2,3) by simp
  with rewind_layer [of _ "min a m" m]
  have rew: "\<exists>kv1. rewind_or_free C (min a m) kv = Some kv1 \<and> (valid kv1 \<and> co_offset C kv1 \<le> m)
      \<and> keeps live kv kv1" if "valid kv" for kv using that by auto
  from each_layer_returns [of "rewind_or_free C (min a m)", OF rew assms(1)] obtain k1 where
    k1: "each_layer (rewind_or_free C (min a m)) kvs = Some k1"
      "all_layers (\<lambda>kv. valid kv \<and> co_offset C kv \<le> m) k1" "later live kvs k1" by blast
  have "page_in C t m path k1 \<noteq> None"
    using assms(4) page_in_returns [OF k1(2), of path t] later_live [OF k1(3)]
    by (cases "page_in C t m path k1") (auto simp: move_caches_def k1(1))
  then obtain k2 where p: "page_in C t m path k1 = Some k2" by blast
  from page_in_layers [OF p k1(2)] have k2: "all_layers (\<lambda>kv. valid kv \<and> co_offset C kv \<le> m) k2" "later live k1 k2"
    by simp_all
  define mo where "mo = minCacheOffset C k2"
  have "all_layers (\<lambda>kv. 0 \<le> co_offset C kv \<and> co_offset C kv \<le> m) k2"
    by (rule all_layers_mono [OF k2(1)]) (simp add: offset_nonneg)
  note mo = minCacheOffset_layers [OF this assms(2), folded mo_def]
  have "all_layers valid k2" by (rule all_layers_mono [OF k2(1)]) simp
  from align_layers [OF this, of mo] obtain ok ks where
    al: "align_all C mo k2 = Some (ok, ks)" "all_layers valid ks" "later live k2 ks"
      "ok \<longrightarrow> all_layers (\<lambda>kv. co_offset C kv = mo) ks" by blast
  have eq: "move_caches C t path a m kvs = map_option (\<lambda>ks. (mo, ks)) (if ok then Some ks else freeAll C ks)"
    by (simp add: move_caches_def k1(1) p mo_def [symmetric] al(1))
  have lt: "later live kvs ks" by (rule later_trans [OF later_trans [OF k1(3) k2(2)] al(3)])
  show ?thesis
  proof (cases ok)
    case True
    with al(2,4) have "all_layers (\<lambda>kv. valid kv \<and> co_offset C kv = mo) ks" by (simp add: all_layers_def)
    with True eq mo lt show ?thesis by auto
  next
    case False
    from each_layer_returns [of "co_free C" "\<lambda>kv. valid kv \<and> co_offset C kv = 0", OF _ al(2)] free_law'
    obtain k3 where "freeAll C ks = Some k3" "all_layers (\<lambda>kv. valid kv \<and> co_offset C kv = 0) k3" "later live ks k3"
      unfolding freeAll_def by blast
    with False eq mo lt assms(2) show ?thesis by (intro exI [of _ mo] exI [of _ k3] exI [of _ 0]) (auto intro: later_trans)
  qed
qed

end

lemma shorten_path:
  "shorten t m (rev path) = None \<Longrightarrow> \<forall>n \<in> set path. m < tn_endOffset (node_at t n)"
  "shorten t m (rev path) = Some p \<Longrightarrow> prefix p path \<and> p \<noteq> [] \<and> tn_endOffset (node_at t (last p)) \<le> m"
proof -
  show "shorten t m (rev path) = None \<Longrightarrow> \<forall>n \<in> set path. m < tn_endOffset (node_at t n)"
    by (induction path rule: rev_induct) (auto split: if_splits)
  show "shorten t m (rev path) = Some p \<Longrightarrow> prefix p path \<and> p \<noteq> [] \<and> tn_endOffset (node_at t (last p)) \<le> m"
    by (induction path rule: rev_induct) (auto split: if_splits intro: prefix_order.trans)
qed

lemma cut_path_root:
  assumes "tn_endOffset (node_at t root) = 0" "0 \<le> m"
  shows "\<exists>ps. cut_path t m (root # path) = root # ps \<and> prefix ps path \<and> tn_endOffset (node_at t (last (root # ps))) \<le> m"
proof (cases "shorten t m (rev (root # path))")
  case None
  from shorten_path(1) [OF this] assms show ?thesis by auto
next
  case (Some p)
  from shorten_path(2) [OF this] obtain ps where "p = root # ps" "prefix ps path" "tn_endOffset (node_at t (last p)) \<le> m"
    by (cases p) auto
  with Some show ?thesis by (auto simp: cut_path_def)
qed

section \<open>Switching to a path\<close>

lemma common_len_le: "common_len xs ys \<le> length xs"
  by (induction xs ys rule: common_len.induct) auto

lemma path_prefix: "is_path t n (a @ b) \<Longrightarrow> is_path t n a"
  by (simp add: is_path_append)

lemma prefix_is_path: "is_path t n path \<Longrightarrow> prefix ps path \<Longrightarrow> is_path t n ps"
  by (auto simp: prefix_def path_prefix)

text \<open>The conditions a switch starts from, and what holds after it.\<close>

definition layers_ok :: "'snap layers \<Rightarrow> ('c \<Rightarrow> bool) \<Rightarrow> 'c option list \<Rightarrow> bool" where
  "layers_ok L P kvs \<longleftrightarrow> length kvs = la_count L \<and> all_layers P kvs"

definition bounded_or_pinned :: "nat \<Rightarrow> ('c, 'snap) prefix_cache \<Rightarrow> bool" where
  "bounded_or_pinned root c \<longleftrightarrow> tr_counter (pc_trie c) \<le> maxPagedOutBytes \<or>
     (\<forall>n. tr_nodes (pc_trie c) n \<noteq> None \<longrightarrow> \<not> evictable (pc_trie c) root (pc_activePath c) n)"

lemma enforce_ends:
  assumes "trie_ok root t" "counted L t" "is_path t root ps"
  shows "\<exists>t'. enforceEvictionPolicy L root (root # ps) t = Some t' \<and> trie_ok root t' \<and> counted L t' \<and> spares t t' root ps \<and>
    (tr_counter t' \<le> maxPagedOutBytes \<or> (\<forall>n. tr_nodes t' n \<noteq> None \<longrightarrow> \<not> evictable t' root (root # ps) n))"
  unfolding enforceEvictionPolicy_def by (rule evict_loop_ends [OF assms order_refl])

lemma page_out_shape:
  assumes "trie_ok root t" "counted L t" "active \<noteq> []" "\<forall>m \<in> set active. tr_nodes t m \<noteq> None" "length kvs = la_count L"
    and "page_out L C active n m (t, kvs) = (t', kvs')"
  shows "trie_ok root t'" "counted L t'" "same_shape t t'"
    and "kvs' = kvs \<and> t' = t \<or> (\<exists>from0 \<ge> 0. kvs' = snd (snapshot_all C from0 kvs) \<and>
      (\<exists>node. t' = setSnapshots L node (fst (snapshot_all C from0 kvs)) t))"
proof -
  define node where "node = active ! (length active - 1)"
  have nl: "tr_nodes t node \<noteq> None" using assms(3,4) by (simp add: node_def)
  define st where "st = (if (n \<le> length active - 1 \<or> m < tn_endOffset (node_at t node)) \<and> \<not> hasAllSnapshots (node_at t node)
    then (setSnapshots L node (fst (snapshot_all C (startOffset (node_at t node)) kvs)) t,
      snd (snapshot_all C (startOffset (node_at t node)) kvs))
    else (t, kvs))"
  have "page_out L C active n m (t, kvs) = st"
    unfolding page_out_def node_def [symmetric] Let_def st_def by (simp only: case_prod_beta fst_conv snd_conv)
  then have st: "(t', kvs') = st" using assms(6) by simp
  have "per_layer L (fst (snapshot_all C (startOffset (node_at t node)) kvs))"
    by (simp add: per_layer_def snapshot_lengths assms(5))
  note S = set_snapshots_facts [OF assms(1,2) nl this]
  show "trie_ok root t'" "counted L t'" "same_shape t t'"
    using st S assms(1,2) by (auto simp: st_def split: if_splits)
  have "0 \<le> startOffset (node_at t node)"
  proof -
    obtain nd where nd: "tr_nodes t node = Some nd" using nl by blast
    show ?thesis
    proof (cases "node = root")
      case True
      with nd trie_okD [OF assms(1) nd] show ?thesis by (simp add: startOffset_def node_ok_def)
    next
      case False
      from trie_parent [OF assms(1) nd False] obtain p pd where "tr_nodes t p = Some pd"
        "tn_endOffset nd = tn_endOffset pd + int (length (tn_tokens nd))" by metis
      with nd trie_okD [OF assms(1), of p pd] show ?thesis by (simp add: startOffset_def node_ok_def)
    qed
  qed
  then show "kvs' = kvs \<and> t' = t \<or> (\<exists>from0 \<ge> 0. kvs' = snd (snapshot_all C from0 kvs) \<and>
      (\<exists>node. t' = setSnapshots L node (fst (snapshot_all C from0 kvs)) t))"
    using st by (auto simp: st_def split: if_splits)
qed

context layer_cache
begin

lemma page_out_live:
  assumes "all_layers valid kvs" "trie_live live t kvs"
    and "kvs' = kvs \<and> t' = t \<or> (\<exists>from0 \<ge> 0. kvs' = snd (snapshot_all C from0 kvs) \<and>
      (\<exists>node. t' = setSnapshots L node (fst (snapshot_all C from0 kvs)) t))"
  shows "trie_live live t' kvs'"
proof (cases "kvs' = kvs \<and> t' = t")
  case False
  with assms(3) obtain from0 node where f: "0 \<le> from0" "kvs' = snd (snapshot_all C from0 kvs)"
    "t' = setSnapshots L node (fst (snapshot_all C from0 kvs)) t" by blast
  note S = snapshot_layers [OF f(1) assms(1)]
  have new: "snaps_live live (fst (snapshot_all C from0 kvs)) 0 kvs'"
    using S unfolding f(2) by (auto simp: snaps_live_def list_all2_conv_all_nth)
  have old: "snaps_live live (tn_snapshots nd) 0 kvs'" if "tr_nodes t n = Some nd" for n nd
    using later_live S that assms(2) unfolding f(2) trie_live_def by blast
  show ?thesis
    unfolding trie_live_def f(3)
    by (auto simp: setSnapshots_def swapSnapshots_def Let_def upd_def new old split: if_splits)
qed (use assms in simp)

lemma switch_path:
  assumes "cache_ok L root c" "layers_ok L valid (pc_caches c)" "is_path (pc_trie c) root path" "0 \<le> m"
    and "trie_live live (pc_trie c) (pc_caches c) \<or> switchToPath L C now (root # path) m c \<noteq> None"
  shows "\<exists>c' ps off. switchToPath L C now (root # path) m c = Some c' \<and> cache_ok L root c' \<and>
    later live (pc_caches c) (pc_caches c') \<and>
    layers_ok L (\<lambda>kv. valid kv \<and> co_offset C kv = off) (pc_caches c') \<and> 0 \<le> off \<and> off \<le> m \<and>
    pc_activePath c' = root # ps \<and> prefix ps path \<and> tn_endOffset (node_at (pc_trie c) (last (root # ps))) \<le> m \<and>
    spares (pc_trie c) (pc_trie c') root ps \<and> bounded_or_pinned root c' \<and> pc_draftLookahead c' = pc_draftLookahead c"
proof -
  define active where "active = pc_activePath c"
  define n where "n = common_len active (root # path)"
  define anc where "anc = (if 0 < n then tn_endOffset (node_at (pc_trie c) (active ! (n - 1))) else 0)"
  obtain t1 k1 where P: "page_out L C active n m (pc_trie c, pc_caches c) = (t1, k1)"
    by (cases "page_out L C active n m (pc_trie c, pc_caches c)")
  have ok: "pc_root c = Some root" "trie_ok root (pc_trie c)" "counted L (pc_trie c)" "active \<noteq> []"
    using assms(1) by (auto simp: cache_ok_def active_def)
  have live: "\<forall>x \<in> set active. tr_nodes (pc_trie c) x \<noteq> None"
    using assms(1) path_live by (fastforce simp: cache_ok_def active_def)
  have len: "length (pc_caches c) = la_count L" "all_layers valid (pc_caches c)" using assms(2) by (auto simp: layers_ok_def)
  note S = page_out_shape [OF ok(2-4) live len(1) P]
  have k1: "all_layers valid k1" "length k1 = la_count L" "later live (pc_caches c) k1"
    using S(4) len snapshot_layers [OF _ len(2)] by (auto simp: snapshot_lengths)
  have nonneg: "0 \<le> tn_endOffset (node_at (pc_trie c) x)" if "x \<in> set active" for x
    using live that trie_okD [OF ok(2)] by (fastforce simp: node_ok_def)
  have "n \<le> length active" unfolding n_def by (rule common_len_le)
  have anc: "0 \<le> anc" using nonneg [of "active ! (n - 1)"] \<open>n \<le> length active\<close> by (auto simp: anc_def)
  have none: "switchToPath L C now (root # path) m c = None" if "move_caches C t1 (root # path) anc m k1 = None"
    using that unfolding switchToPath_def active_def [symmetric] Let_def n_def [symmetric] anc_def [symmetric] P
    by simp
  have snaps: "snaps_live live (tn_snapshots (node_at t1 x)) 0 k1"
    if "trie_live live (pc_trie c) (pc_caches c)" "x \<in> set (root # path)" for x
  proof -
    from same_shape_path [OF S(3) ok(2) _ assms(3)] have "is_path t1 root path" using ok(2) by (simp add: trie_ok_def)
    with path_live [OF S(1) _ that(2)] have "tr_nodes t1 x \<noteq> None" by blast
    with page_out_live [OF len(2) that(1) S(4)] show ?thesis by (auto simp: trie_live_def)
  qed
  have "(\<forall>x \<in> set (root # path). snaps_live live (tn_snapshots (node_at t1 x)) 0 k1) \<or>
      move_caches C t1 (root # path) anc m k1 \<noteq> None"
    using assms(5) snaps none by (metis (full_types))
  from move_caches_aligned [OF k1(1) assms(4) anc this] obtain mo k2 off where M:
    "move_caches C t1 (root # path) anc m k1 = Some (mo, k2)" "0 \<le> mo" "mo \<le> m" "0 \<le> off" "off \<le> m"
    "all_layers (\<lambda>kv. valid kv \<and> co_offset C kv = off) k2" "later live k1 k2" by blast
  have r1: "tr_nodes (pc_trie c) root \<noteq> None" using ok(2) by (simp add: trie_ok_def)
  have root0: "tn_endOffset (node_at t1 root) = 0"
    using S(1) trie_okD [OF S(1)] by (fastforce simp: trie_ok_def node_ok_def)
  obtain ps where cut: "cut_path t1 mo (root # path) = root # ps" "prefix ps path"
    "tn_endOffset (node_at t1 (last (root # ps))) \<le> mo"
    using cut_path_root [OF root0, of mo path] M(2) by blast
  define t2 where "t2 = upd (last (root # ps)) (\<lambda>nd. nd\<lparr>tn_lastUsed := now\<rparr>) t1"
  have s2: "same_shape t1 t2" unfolding t2_def by (rule same_shape_upd) simp
  have t2: "trie_ok root t2" "counted L t2"
    using same_shape_ok [OF s2 S(1)] counted_upd [OF S(2)] by (auto simp: t2_def)
  have s02: "same_shape (pc_trie c) t2" by (rule same_shape_trans [OF S(3) s2])
  have pp: "is_path (pc_trie c) root ps" by (rule prefix_is_path [OF assms(3) cut(2)])
  have p2: "is_path t2 root ps" by (rule same_shape_path [OF s02 ok(2) r1 pp])
  from enforce_ends [OF t2 p2] obtain t3 where E: "enforceEvictionPolicy L root (root # ps) t2 = Some t3" "trie_ok root t3"
    "counted L t3" "spares t2 t3 root ps"
    "tr_counter t3 \<le> maxPagedOutBytes \<or> (\<forall>n. tr_nodes t3 n \<noteq> None \<longrightarrow> \<not> evictable t3 root (root # ps) n)" by blast
  have "switchToPath L C now (root # path) m c =
    Some (c\<lparr>pc_trie := t3, pc_activePath := root # ps, pc_caches := k2\<rparr>)"
    using ok(4) E(1) unfolding switchToPath_def active_def [symmetric] Let_def n_def [symmetric] anc_def [symmetric] P
      prod.case M(1) option.case by (simp add: cut(1) ok(1) t2_def split del: if_split)
  moreover have "cache_ok L root (c\<lparr>pc_trie := t3, pc_activePath := root # ps, pc_caches := k2\<rparr>)"
    using E ok(1) by (auto simp: cache_ok_def spares_def)
  moreover have "layers_ok L (\<lambda>kv. valid kv \<and> co_offset C kv = off) k2"
    using M(6) k1(2) later_length [OF M(7)] by (simp add: layers_ok_def)
  moreover have "later live (pc_caches c) k2" by (rule later_trans [OF k1(3) M(7)])
  moreover have "tn_endOffset (node_at (pc_trie c) (last (root # ps))) \<le> m"
  proof -
    have "last (root # ps) \<in> set (root # ps)" by (rule last_in_set) simp
    then have "tr_nodes (pc_trie c) (last (root # ps)) \<noteq> None" by (rule path_live [OF ok(2) pp])
    from same_shape_at [OF S(3) this] cut(3) M(3) show ?thesis by simp
  qed
  moreover have "spares (pc_trie c) t3 root ps"
  proof -
    have "spares (pc_trie c) t2 root ps"
      using p2 same_shape_stored_reach [OF s02] same_shape_at [OF s02] path_live [OF ok(2) pp]
      unfolding spares_def stored_def by auto
    then show ?thesis using E(4) by (rule spares_trans)
  qed
  moreover have "bounded_or_pinned root (c\<lparr>pc_trie := t3, pc_activePath := root # ps, pc_caches := k2\<rparr>)"
    using E(5) by (simp add: bounded_or_pinned_def)
  ultimately show ?thesis
    by (intro exI [of _ "c\<lparr>pc_trie := t3, pc_activePath := root # ps, pc_caches := k2\<rparr>"] exI [of _ ps] exI [of _ off])
      (simp add: cut(2) M(4,5))
qed

end

section \<open>Beginning a session\<close>

text \<open>A cache is empty, as \<^verbatim>\<open>newPrefixCache\<close> makes it, or holds a trie.\<close>

definition cache_inv :: "'snap layers \<Rightarrow> ('c, 'snap) prefix_cache \<Rightarrow> bool" where
  "cache_inv L c \<longleftrightarrow> pc_draftLookahead c \<le> 1 \<and>
     (case pc_root c of
        None \<Rightarrow> tr_nodes (pc_trie c) = Map.empty \<and> tr_counter (pc_trie c) = 0
      | Some root \<Rightarrow> cache_ok L root c)"

lemma ensureRoot_ok:
  assumes "cache_inv L c"
  shows "\<exists>root. cache_ok L root (ensureRoot now c) \<and> pc_caches (ensureRoot now c) = pc_caches c \<and>
    pc_draftLookahead (ensureRoot now c) = pc_draftLookahead c \<and>
    (pc_root c \<noteq> None \<longrightarrow> ensureRoot now c = c) \<and> (pc_root c = None \<longrightarrow> (\<forall>n. tn_children (node_at (pc_trie (ensureRoot now c)) n) = [] \<or> n \<noteq> root))"
proof (cases "pc_root c")
  case (Some root)
  with assms show ?thesis by (auto simp: cache_inv_def ensureRoot_def)
next
  case None
  define nd :: "'a trie_node" where "nd = \<lparr>tn_tokens = [], tn_endOffset = 0, tn_parent = None, tn_children = [],
    tn_lastUsed = now, tn_snapshots = [], tn_user = False\<rparr>"
  define t where "t = snd (alloc nd (pc_trie c))"
  define r where "r = tr_next (pc_trie c)"
  from None assms have e: "tr_nodes (pc_trie c) = Map.empty" "tr_counter (pc_trie c) = 0" by (simp_all add: cache_inv_def)
  have al: "alloc nd (pc_trie c) = (r, t)" by (simp add: t_def r_def alloc_def)
  have E: "ensureRoot now c = c\<lparr>pc_trie := t, pc_root := Some r, pc_activePath := [r]\<rparr>"
    using None al by (simp add: ensureRoot_def nd_def)
  have nodes: "tr_nodes t n = (if n = r then Some nd else None)" for n using e by (simp add: t_def r_def)
  have "trie_ok r t" using nodes by (auto simp: trie_ok_def node_ok_def nd_def t_def r_def)
  moreover have "counted L (pc_trie c)" using e by (auto simp: counted_def node_bytes_def)
  from counted_alloc [OF this] have "counted L t" using e by (simp add: t_def nd_def)
  ultimately have "cache_ok L r (ensureRoot now c)" by (simp add: E cache_ok_def)
  moreover have "tn_children (node_at t r) = []" using nodes by (simp add: nd_def)
  ultimately show ?thesis using None by (intro exI [of _ r]) (auto simp: E)
qed

lemma ensureRoot_live:
  "cache_inv L c \<Longrightarrow> trie_live live (pc_trie c) (pc_caches c) \<Longrightarrow>
     trie_live live (pc_trie (ensureRoot now c)) (pc_caches (ensureRoot now c))"
  by (auto simp: trie_live_def ensureRoot_def alloc_def snaps_live_def split: option.splits if_splits)

text \<open>The text of the active path is a prefix of the keys.\<close>

definition on_path :: "nat \<Rightarrow> ('c, 'snap) prefix_cache \<Rightarrow> trie_key list \<Rightarrow> bool" where
  "on_path root c keys \<longleftrightarrow> (\<exists>v. reach (pc_trie c) root (last (pc_activePath c)) v \<and> prefix v keys)"

lemma path_text_prefix:
  assumes "trie_ok root t" "is_path t root path" "prefix ps path" "reach t root (last (root # path)) w"
    and "reach t root (last (root # ps)) v"
  shows "prefix v w"
proof -
  obtain qs where q: "path = ps @ qs" using assms(3) by (auto simp: prefix_def)
  have root: "tr_nodes t root \<noteq> None" using assms(1) by (simp add: trie_ok_def)
  have p: "is_path t root ps" "is_path t (last (root # ps)) qs" using assms(2) q by (simp_all add: is_path_append)
  have "tr_nodes t (last (root # ps)) \<noteq> None" by (rule path_live [OF assms(1) p(1) last_in_set]) simp
  from path_reach [OF assms(1) this p(2)] obtain u where u: "reach t (last (root # ps)) (last (last (root # ps) # qs)) u" by blast
  have "last (last (root # ps) # qs) = last (root # path)" using q by (cases qs) auto
  with reach_trans [OF assms(5) u] have "reach t root (last (root # path)) (v @ u)" by simp
  from reach_unique [OF assms(1) this assms(4)] show ?thesis by (metis prefixI)
qed

context layer_cache
begin

lemma begin_ok:
  assumes "cache_inv L c" "layers_ok L valid (pc_caches c)"
    and "trie_live live (pc_trie c) (pc_caches c) \<or> begin_session L C now inputs c \<noteq> None"
  shows "\<exists>s c' root keys. begin_session L C now inputs c = Some (s, c') \<and> later live (pc_caches c) (pc_caches c') \<and>
    cache_key (pc_draftLookahead c) inputs = Some keys \<and>
    cache_ok L root c' \<and> pc_draftLookahead c' = pc_draftLookahead c \<and>
    (\<exists>off. layers_ok L (\<lambda>kv. valid kv \<and> co_offset C kv = off) (pc_caches c')) \<and>
    se_inputs s = inputs \<and> se_outputs s = [] \<and> (inputs \<noteq> [] \<longrightarrow> se_remaining s \<noteq> []) \<and>
    se_remaining s = drop (nat (minCacheOffset C (pc_caches c'))) inputs \<and>
    on_path root c' (take (snd (findBestMatch (pc_trie (ensureRoot now c)) (Some root) keys)) keys) \<and>
    (\<forall>ks. stored (pc_trie c') root ks \<longrightarrow> stored (pc_trie (ensureRoot now c)) root ks) \<and> bounded_or_pinned root c'"
proof -
  define e where "e = ensureRoot now c"
  obtain root where R: "cache_ok L root e" "pc_caches e = pc_caches c" "pc_draftLookahead e = pc_draftLookahead c"
    using ensureRoot_ok [OF assms(1), of now] by (auto simp: e_def)
  have la: "pc_draftLookahead c \<le> 1" using assms(1) by (simp add: cache_inv_def)
  obtain keys where K: "cache_key (pc_draftLookahead c) inputs = Some keys" using cache_key_Some [OF la, of inputs] by blast
  have klen: "length keys = length inputs - pc_draftLookahead c" by (rule cache_key_length [OF K])
  have ok: "trie_ok root (pc_trie e)" "pc_root e = Some root" using R(1) by (auto simp: cache_ok_def)
  have rl: "tr_nodes (pc_trie e) root \<noteq> None" using ok(1) by (simp add: trie_ok_def)
  obtain path0 k0 where F0: "find_loop (pc_trie e) root keys = (path0, k0)" by (cases "find_loop (pc_trie e) root keys")
  define again where "again \<longleftrightarrow> k0 = length inputs \<and> 0 < k0"
  define keys1 where "keys1 = (if again then take (k0 - 1) keys else keys)"
  obtain path k where F: "find_loop (pc_trie e) root keys1 = (path, k)" by (cases "find_loop (pc_trie e) root keys1")
  have k0: "k0 \<le> length keys" using find_loop_longest [OF ok(1) rl F0] by simp
  have k: "k \<le> length keys1" using find_loop_longest [OF ok(1) rl F] by simp
  have same: "\<not> again \<Longrightarrow> path = path0 \<and> k = k0" using F F0 by (simp add: keys1_def)
  have less: "again \<Longrightarrow> k \<le> k0 - 1" using k by (simp add: keys1_def)
  have kk: "k \<le> k0" using same less by (cases again) auto
  have klt: "inputs \<noteq> [] \<longrightarrow> k < length inputs"
    using same less k0 klen by (cases inputs; cases again) (auto simp: again_def)
  have klei: "k \<le> length inputs" using kk k0 klen by simp
  have sel: "(if k0 = length inputs \<and> 0 < k0 then findBestMatch (pc_trie e) (pc_root e) (take (k0 - 1) keys)
      else (root # path0, k0)) = (root # path, k)"
    unfolding again_def [symmetric]
    using F same ok(2) by (cases again) (simp_all add: keys1_def findBestMatch_def)
  from find_loop_path [OF ok(1) rl F] obtain w where
    W: "is_path (pc_trie e) root path" "reach (pc_trie e) root (last (root # path)) w" "k \<le> length w" "take k keys1 = take k w"
    by blast
  have lo: "layers_ok L valid (pc_caches e)" using assms(2) R(2) by simp
  have "begin_session L C now inputs c = None" if "switchToPath L C now (root # path) (int k) e = None"
    unfolding begin_session_def e_def [symmetric] Let_def R(3) K option.case
    using that sel F0 ok(2) by (simp add: findBestMatch_def [of _ "Some root" keys] split: if_splits)
  moreover have "trie_live live (pc_trie e) (pc_caches e)" if "trie_live live (pc_trie c) (pc_caches c)"
    using ensureRoot_live [OF assms(1) that] by (simp add: e_def)
  ultimately have sl: "trie_live live (pc_trie e) (pc_caches e) \<or> switchToPath L C now (root # path) (int k) e \<noteq> None"
    using assms(3) by blast
  have "0 \<le> int k" by simp
  from switch_path [OF R(1) lo W(1) this sl] obtain c' ps off where
    S: "switchToPath L C now (root # path) (int k) e = Some c'" "cache_ok L root c'"
      "layers_ok L (\<lambda>kv. valid kv \<and> co_offset C kv = off) (pc_caches c')" "0 \<le> off" "off \<le> int k"
      "pc_activePath c' = root # ps" "prefix ps path" "tn_endOffset (node_at (pc_trie e) (last (root # ps))) \<le> int k"
      "spares (pc_trie e) (pc_trie c') root ps" "bounded_or_pinned root c'" "pc_draftLookahead c' = pc_draftLookahead e"
      "later live (pc_caches e) (pc_caches c')"
    by blast
  have lo1: "all_layers (\<lambda>kv. valid kv \<and> co_offset C kv = off) (pc_caches c')" using S(3) by (simp add: layers_ok_def)
  have "all_layers (\<lambda>kv. 0 \<le> co_offset C kv \<and> co_offset C kv \<le> int k) (pc_caches c')"
    by (rule all_layers_mono [OF lo1]) (use S(4,5) in auto)
  from minCacheOffset_layers [OF this] have mo: "0 \<le> minCacheOffset C (pc_caches c')" "minCacheOffset C (pc_caches c') \<le> int k"
    by auto
  define s where "s = \<lparr>se_inputs = inputs, se_outputs = [], se_remaining = drop (nat (minCacheOffset C (pc_caches c'))) inputs,
    se_pending = (if minCacheOffset C (pc_caches c') < int k then [\<lparr>ps_offset = int k, ps_user = False\<rparr>] else [])\<rparr>"
  have "begin_session L C now inputs c = Some (s, c')"
    using mo klei unfolding begin_session_def e_def [symmetric] Let_def R(3) K option.case
    using sel S(1) F0 ok(2) by (simp add: findBestMatch_def [of _ "Some root" keys] s_def split: if_splits)
  moreover have "on_path root c' (take k0 keys)"
  proof -
    have live: "tr_nodes (pc_trie e) (last (root # ps)) \<noteq> None"
      by (rule path_live [OF ok(1) prefix_is_path [OF W(1) S(7)] last_in_set]) simp
    then obtain ld where ld: "tr_nodes (pc_trie e) (last (root # ps)) = Some ld" by blast
    from reach_root [OF ok(1) ld] obtain v where
      v: "reach (pc_trie e) root (last (root # ps)) v" "int (length v) = tn_endOffset ld" by blast
    have pv: "prefix v w" by (rule path_text_prefix [OF ok(1) W(1) S(7) W(2) v(1)])
    have lv: "length v \<le> k" using v(2) S(8) ld by simp
    from pv have "v = take (length v) w" by (auto simp: prefix_def)
    also have "\<dots> = take (length v) (take k w)" using lv by (simp add: min_def)
    also have "\<dots> = take (length v) keys1" unfolding W(4) [symmetric] using lv by (simp add: min_def)
    finally have "prefix v (take k0 keys)" using lv kk k
      by (metis F F0 append_eq_conv_conj keys1_def prefix_def take_is_prefix take_take min.absorb1 le_trans min_def)
    moreover have "reach (pc_trie c') root (last (root # ps)) v"
      using S(9) v(1) by (auto simp: spares_def split: if_splits)
    ultimately show ?thesis using S(6) by (auto simp: on_path_def)
  qed
  ultimately show ?thesis
    using S mo klt spares_stored [OF S(9)] R(2,3) K
    by (intro exI [of _ s] exI [of _ c'] exI [of _ root] exI [of _ keys])
      (auto simp: s_def e_def [symmetric] findBestMatch_def F0)
qed

end

section \<open>Closing a session\<close>

lemma slice_keys_Some:
  "0 \<le> a \<Longrightarrow> a \<le> b \<Longrightarrow> b \<le> int (length ks) \<Longrightarrow> slice_keys ks a b = Some (take (nat (b - a)) (drop (nat a) ks))"
  by (simp add: slice_keys_def)

lemma cache_ok_touch:
  assumes "cache_ok L root c" "\<And>nd. tn_tokens (f nd) = tn_tokens nd \<and> tn_endOffset (f nd) = tn_endOffset nd \<and>
      tn_parent (f nd) = tn_parent nd \<and> tn_children (f nd) = tn_children nd" "\<And>nd. tn_snapshots (f nd) = tn_snapshots nd"
  shows "cache_ok L root (c\<lparr>pc_trie := upd n f (pc_trie c)\<rparr>)" "stored (upd n f (pc_trie c)) m ks \<longleftrightarrow> stored (pc_trie c) m ks"
proof -
  have s: "same_shape (pc_trie c) (upd n f (pc_trie c))" by (rule same_shape_upd [OF assms(2)])
  show "stored (upd n f (pc_trie c)) m ks \<longleftrightarrow> stored (pc_trie c) m ks" by (rule same_shape_stored_reach(1) [OF s])
  have ok: "trie_ok root (pc_trie c)" "counted L (pc_trie c)" using assms(1) by (auto simp: cache_ok_def)
  then have "tr_nodes (pc_trie c) root \<noteq> None" by (simp add: trie_ok_def)
  then show "cache_ok L root (c\<lparr>pc_trie := upd n f (pc_trie c)\<rparr>)"
    using assms(1) same_shape_ok [OF s ok(1)] counted_upd [OF ok(2) assms(3)] same_shape_path [OF s ok(1)]
    by (auto simp: cache_ok_def)
qed

text \<open>Storing the keys up to an offset, from wherever the active path ends.\<close>

lemma store_up_to:
  assumes "cache_ok L root c" "on_path root c keys" "0 \<le> off" "off \<le> int (length keys)"
  defines "fe \<equiv> tn_endOffset (node_at (pc_trie c) (last (pc_activePath c)))"
  shows "\<exists>c'. (if fe < off
        then (case slice_keys keys fe off of
                None \<Rightarrow> None
              | Some new \<Rightarrow> map_option snd (advancePath L (last (pc_activePath c)) new off c))
        else Some c) = Some c' \<and> cache_ok L root c' \<and> on_path root c' keys \<and>
      (\<forall>ks. stored (pc_trie c') root ks \<longleftrightarrow> stored (pc_trie c) root ks \<or> prefix ks (take (nat off) keys))"
proof -
  obtain v where v: "reach (pc_trie c) root (last (pc_activePath c)) v" "prefix v keys"
    using assms(2) by (auto simp: on_path_def)
  have ok: "trie_ok root (pc_trie c)" using assms(1) by (simp add: cache_ok_def)
  obtain rd where rd: "tr_nodes (pc_trie c) root = Some rd" "tn_endOffset rd = 0"
    using ok trie_okD [OF ok] by (fastforce simp: trie_ok_def node_ok_def)
  have fe: "fe = int (length v)" using reach_in [OF v(1) ok rd(1)] rd(2) by (auto simp: fe_def)
  obtain u where u: "keys = v @ u" using v(2) by (auto simp: prefix_def)
  show ?thesis
  proof (cases "fe < off")
    case True
    define new where "new = take (nat (off - fe)) u"
    have sl: "slice_keys keys fe off = Some new"
      using slice_keys_Some [of fe off keys] True fe assms(4) u by (simp add: new_def)
    have len: "int (length new) = off - fe" using True assms(4) u fe by (simp add: new_def)
    have off: "off = tn_endOffset (node_at (pc_trie c) (last (pc_activePath c))) + int (length new)"
      using len by (simp add: fe_def)
    from advance_stores [OF assms(1) refl v(1) off] obtain d c' where
      A: "advancePath L (last (pc_activePath c)) new off c = Some (d, c')" "cache_ok L root c'" "last (pc_activePath c') = d"
        "reach (pc_trie c') root d (v @ new)"
        "\<forall>ks. stored (pc_trie c') root ks \<longleftrightarrow> stored (pc_trie c) root ks \<or> prefix ks (v @ new)" by blast
    have tk: "v @ new = take (nat off) keys"
      using True fe by (simp add: new_def u nat_diff_distrib)
    have "on_path root c' keys" using A(3,4) unfolding on_path_def tk by (metis take_is_prefix)
    with True sl A show ?thesis by (simp add: tk)
  next
    case False
    have "prefix (take (nat off) keys) v" using False fe u assms(3) by (simp add: take_is_prefix)
    then have "prefix ks (take (nat off) keys) \<Longrightarrow> stored (pc_trie c) root ks" for ks
      using v(1) unfolding stored_def by (metis prefix_order.trans)
    with False assms(1,2) show ?thesis by auto
  qed
qed

context layer_cache
begin

lemma close_ok:
  assumes "cache_ok L root c" "layers_ok L valid (pc_caches c)"
    and "cache_key (pc_draftLookahead c) (se_inputs s @ se_outputs s) = Some keys" "on_path root c keys"
    and "\<forall>kv. Some kv \<in> set (pc_caches c) \<longrightarrow> co_offset C kv = int off" "off \<le> length keys"
    and "\<exists>kv. Some kv \<in> set (pc_caches c)"
  shows "\<exists>s' c'. close_session L C now s c = Some (s', c') \<and> cache_ok L root c' \<and> se_pending s' = [] \<and>
    (\<forall>ks. stored (pc_trie c') root ks \<longleftrightarrow> stored (pc_trie c) root ks \<or> prefix ks (take off keys))"
proof -
  define s1 where "s1 = fst (discardPrefillSnapshots C s c)"
  define c1 where "c1 = snd (discardPrefillSnapshots C s c)"
  have d: "discardPrefillSnapshots C s c = (s1, c1)" by (simp add: s1_def c1_def)
  have same: "pc_trie c1 = pc_trie c" "pc_root c1 = pc_root c" "pc_activePath c1 = pc_activePath c"
    "pc_draftLookahead c1 = pc_draftLookahead c" "se_inputs s1 = se_inputs s" "se_outputs s1 = se_outputs s" "se_pending s1 = []"
    using d by (auto simp: discardPrefillSnapshots_def split: if_splits)
  have kvs: "all_layers (\<lambda>kv. valid kv \<and> co_offset C kv = int off) (pc_caches c)"
    using assms(2,5) by (auto simp: layers_ok_def all_layers_def)
  have "all_layers (\<lambda>kv. co_offset C kv = int off) (map (map_option (\<lambda>kv. snd (co_take C kv))) (pc_caches c))"
    by (rule all_layers_map [OF _ kvs]) (simp add: take_offset)
  with all_layers_mono [OF kvs, of "\<lambda>kv. co_offset C kv = int off"]
  have kvs1: "all_layers (\<lambda>kv. co_offset C kv = int off) (pc_caches c1)"
    using d by (auto simp: discardPrefillSnapshots_def split: if_splits)
  obtain kv where kv: "Some kv \<in> set (pc_caches c)" using assms(7) by blast
  then have "Some (snd (co_take C kv)) \<in> set (map (map_option (\<lambda>kv. snd (co_take C kv))) (pc_caches c))" by force
  moreover have "pc_caches c1 = pc_caches c \<or> pc_caches c1 = map (map_option (\<lambda>kv. snd (co_take C kv))) (pc_caches c)"
    using d by (auto simp: discardPrefillSnapshots_def split: if_splits)
  ultimately have "\<exists>kv. Some kv \<in> set (pc_caches c1)" using kv by metis
  then have mo: "minCacheOffset C (pc_caches c1) = int off" using minCacheOffset_same [OF kvs1] by blast
  have ok1: "cache_ok L root c1" "on_path root c1 keys"
    using assms(1,4) by (auto simp: cache_ok_def on_path_def same)
  have K: "cache_key (pc_draftLookahead c1) (se_inputs s1 @ se_outputs s1) = Some keys" by (simp add: same assms(3))
  show ?thesis
  proof (cases "off = 0")
    case True
    then show ?thesis using ok1 mo d by (auto simp: close_session_def same)
  next
    case False
    have ne: "pc_activePath c1 \<noteq> []" using ok1(1) by (auto simp: cache_ok_def)
    from store_up_to [OF ok1, of "int off"] assms(6) obtain c2 where
      A: "(if tn_endOffset (node_at (pc_trie c1) (last (pc_activePath c1))) < int off
        then (case slice_keys keys (tn_endOffset (node_at (pc_trie c1) (last (pc_activePath c1)))) (int off) of
                None \<Rightarrow> None
              | Some new \<Rightarrow> map_option snd (advancePath L (last (pc_activePath c1)) new (int off) c1))
        else Some c1) = Some c2" "cache_ok L root c2"
      "\<forall>ks. stored (pc_trie c2) root ks \<longleftrightarrow> stored (pc_trie c1) root ks \<or> prefix ks (take off keys)" by auto
    define c3 where "c3 = c2\<lparr>pc_trie := upd (last (pc_activePath c2)) (\<lambda>nd. nd\<lparr>tn_lastUsed := now\<rparr>) (pc_trie c2)\<rparr>"
    have "close_session L C now s c = Some (s1, c3)"
      using False assms(6) ne unfolding close_session_def d prod.case Let_def mo K option.case
      by (simp add: A(1) c3_def split del: if_split)
    moreover have "cache_ok L root c3" unfolding c3_def by (rule cache_ok_touch(1) [OF A(2)]) simp_all
    moreover have "stored (pc_trie c3) root ks \<longleftrightarrow> stored (pc_trie c2) root ks" for ks
      unfolding c3_def by (simp, rule cache_ok_touch(2) [OF A(2)]) simp_all
    ultimately show ?thesis using A(3) same by auto
  qed
qed

end

lemma advance_lookahead: "advancePath L n tokens e c = Some (d, c') \<Longrightarrow> pc_draftLookahead c' = pc_draftLookahead c"
  unfolding advancePath_def Let_def by (auto split: prod.splits option.splits if_splits)

lemma close_lookahead:
  assumes "close_session L C now s c = Some (s', c')"
  shows "pc_draftLookahead c' = pc_draftLookahead c"
proof -
  obtain s1 c1 where d: "discardPrefillSnapshots C s c = (s1, c1)" by (cases "discardPrefillSnapshots C s c")
  have "pc_draftLookahead c1 = pc_draftLookahead c" using d by (auto simp: discardPrefillSnapshots_def split: if_splits)
  moreover have "pc_draftLookahead c' = pc_draftLookahead c1"
    using assms unfolding close_session_def d prod.case Let_def
    by (auto split: option.splits if_splits dest: advance_lookahead)
  ultimately show ?thesis by simp
qed

end
