(* ===== verification/KVCache.thy ===== *)
theory KVCache
  imports PrefixSession
begin

text \<open>
  x/mlxrunner/cache/cache.go and kvcache.go: the key/value cache of an attention layer and its
  lazy snapshots. A slot of the buffer is one position of the key and value arrays, a value of
  a type with a zero (\<^verbatim>\<open>mlx.Zeros\<close>); the buffer is the list of its slots. Snapshots are structs
  shared by pointer with the trie, so they live in a heap of the cache, addressed by numbers.
  A snapshot is lazy while it holds no data of its own and names a range of the buffer. A
  closed snapshot leaves the heap; using it afterwards is a panic, the result \<^const>\<open>None\<close>.
\<close>

section \<open>State\<close>

record 'kv kv_snapshot =
  ks_data :: "'kv list option"
  ks_from :: int
  ks_to :: int
  ks_hook :: bool

record pending_snapshots =
  pe_offsets :: "int list"
  pe_captured :: "nat option list option"
  pe_base :: int

record 'kv kv_cache =
  kc_buf :: "'kv list option"
  kc_offset :: int
  kc_step :: int
  kc_pending :: pending_snapshots
  kc_lazy :: "nat list"
  kc_rewound :: bool
  kc_heap :: "nat \<Rightarrow> 'kv kv_snapshot option"
  kc_next :: nat
  kc_fired :: "(nat \<times> nat) list"

definition no_pending :: pending_snapshots where
  "no_pending = \<lparr>pe_offsets = [], pe_captured = None, pe_base = 0\<rparr>"

definition NewKVCache :: "'kv kv_cache" where
  "NewKVCache = \<lparr>kc_buf = None, kc_offset = 0, kc_step = 256, kc_pending = no_pending, kc_lazy = [],
     kc_rewound = False, kc_heap = Map.empty, kc_next = 0, kc_fired = []\<rparr>"

text \<open>\<^verbatim>\<open>Slice(from, to)\<close> of the sequence dimension.\<close>

definition slots :: "int \<Rightarrow> int \<Rightarrow> 'kv list \<Rightarrow> 'kv list" where
  "slots from0 to b = take (nat (to - from0)) (drop (nat from0) b)"

section \<open>The schedule of captures\<close>

fun ascending_from :: "int list \<Rightarrow> bool" where
  "ascending_from (a # b # os) \<longleftrightarrow> a < b \<and> ascending_from (b # os)"
| "ascending_from _ \<longleftrightarrow> True"

definition pending_prepare :: "int \<Rightarrow> int list \<Rightarrow> pending_snapshots \<Rightarrow> pending_snapshots option" where
  "pending_prepare cur offsets p =
     (if pe_captured p \<noteq> None then None
      else if list_ex (\<lambda>off. off < cur) offsets \<or> \<not> ascending_from offsets then None
      else Some \<lparr>pe_offsets = offsets, pe_captured = Some (replicate (length offsets) None), pe_base = cur\<rparr>)"

definition pending_take :: "pending_snapshots \<Rightarrow> nat option list \<times> pending_snapshots" where
  "pending_take p = (case pe_captured p of None \<Rightarrow> [] | Some cs \<Rightarrow> cs, p\<lparr>pe_offsets := [], pe_captured := None\<rparr>)"

definition scheduledIn :: "int \<Rightarrow> int \<Rightarrow> pending_snapshots \<Rightarrow> int list" where
  "scheduledIn start stop p = filter (\<lambda>off. start \<le> off \<and> off \<le> stop) (pe_offsets p)"

section \<open>Snapshots\<close>

definition dropLazySnapshot :: "nat \<Rightarrow> 'kv kv_cache \<Rightarrow> 'kv kv_cache" where
  "dropLazySnapshot s c = c\<lparr>kc_lazy := remove1 s (kc_lazy c)\<rparr>"

definition closeSnapshot :: "nat \<Rightarrow> 'kv kv_cache \<Rightarrow> 'kv kv_cache" where
  "closeSnapshot s c = (dropLazySnapshot s c)\<lparr>kc_heap := (kc_heap c)(s := None)\<rparr>"

definition copyOut :: "nat \<Rightarrow> 'kv kv_cache \<Rightarrow> 'kv kv_cache option" where
  "copyOut s c =
     (case kc_heap c s of
        None \<Rightarrow> None
      | Some sn \<Rightarrow>
          if ks_data sn \<noteq> None then Some c
          else (case kc_buf c of
            None \<Rightarrow> None
          | Some b \<Rightarrow>
              let data = slots (ks_from sn) (ks_to sn) b;
                  c = (dropLazySnapshot s c)\<lparr>kc_heap := (kc_heap c)(s \<mapsto> sn\<lparr>ks_data := Some data, ks_hook := False\<rparr>)\<rparr>
              in Some (if ks_hook sn then c\<lparr>kc_fired := kc_fired c @ [(s, length data)]\<rparr> else c)))"

definition Size :: "nat \<Rightarrow> 'kv kv_cache \<Rightarrow> nat" where
  "Size s c = (case kc_heap c s of None \<Rightarrow> 0 | Some sn \<Rightarrow> (case ks_data sn of None \<Rightarrow> 0 | Some d \<Rightarrow> length d))"

definition SetMaterializeHook :: "nat \<Rightarrow> bool \<Rightarrow> 'kv kv_cache \<Rightarrow> 'kv kv_cache" where
  "SetMaterializeHook s hook c =
     c\<lparr>kc_heap := (kc_heap c)(s := map_option (\<lambda>sn. sn\<lparr>ks_hook := hook\<rparr>) (kc_heap c s))\<rparr>"

definition new_snapshot :: "'kv kv_snapshot \<Rightarrow> 'kv kv_cache \<Rightarrow> nat \<times> 'kv kv_cache" where
  "new_snapshot sn c =
     (kc_next c, c\<lparr>kc_heap := (kc_heap c)(kc_next c \<mapsto> sn), kc_next := kc_next c + 1,
        kc_lazy := (if ks_data sn = None then kc_lazy c @ [kc_next c] else kc_lazy c)\<rparr>)"

definition lazySnapshot :: "int \<Rightarrow> int \<Rightarrow> 'kv kv_cache \<Rightarrow> nat option \<times> 'kv kv_cache" where
  "lazySnapshot from0 to c =
     (if kc_buf c = None \<or> to \<le> from0 then (None, c)
      else (case new_snapshot \<lparr>ks_data = None, ks_from = from0, ks_to = to, ks_hook = False\<rparr> c of
              (s, c) \<Rightarrow> (Some s, c)))"

definition Snapshot :: "int \<Rightarrow> 'kv kv_cache \<Rightarrow> nat option \<times> 'kv kv_cache" where
  "Snapshot from0 c = lazySnapshot from0 (kc_offset c) c"

text \<open>\<^verbatim>\<open>captureReached\<close>: every entry due at the offset and still empty; then the cursor moves.\<close>

fun capture_entries :: "int \<Rightarrow> int list \<Rightarrow> nat option list \<Rightarrow> 'kv kv_cache \<Rightarrow> nat option list \<times> bool \<times> 'kv kv_cache" where
  "capture_entries reached (off # offs) (cap # caps) c =
     (if cap = None \<and> off = reached then
        (case lazySnapshot (pe_base (kc_pending c)) reached c of
           (s, c) \<Rightarrow> (case capture_entries reached offs caps c of (cs, _, c) \<Rightarrow> (s # cs, True, c)))
      else (case capture_entries reached offs caps c of (cs, hit, c) \<Rightarrow> (cap # cs, hit, c)))"
| "capture_entries reached _ _ c = ([], False, c)"

definition captureReached :: "int \<Rightarrow> 'kv kv_cache \<Rightarrow> 'kv kv_cache" where
  "captureReached reached c =
     (case pe_captured (kc_pending c) of
        None \<Rightarrow> c
      | Some caps \<Rightarrow>
          (case capture_entries reached (pe_offsets (kc_pending c)) caps c of
             (cs, hit, c) \<Rightarrow> c\<lparr>kc_pending := (kc_pending c)\<lparr>pe_captured := Some cs,
               pe_base := (if hit then reached else pe_base (kc_pending c))\<rparr>\<rparr>))"

definition captureLazySnapshots :: "int \<Rightarrow> int \<Rightarrow> 'kv kv_cache \<Rightarrow> 'kv kv_cache" where
  "captureLazySnapshots start stop c = fold captureReached (scheduledIn start stop (kc_pending c)) c"

section \<open>Writing\<close>

fun copy_out_all :: "nat list \<Rightarrow> 'kv kv_cache \<Rightarrow> 'kv kv_cache option" where
  "copy_out_all [] c = Some c"
| "copy_out_all (s # ss) c = (case copyOut s c of None \<Rightarrow> None | Some c1 \<Rightarrow> copy_out_all ss c1)"

definition snap_at :: "'kv kv_cache \<Rightarrow> nat \<Rightarrow> 'kv kv_snapshot" where
  "snap_at c s = the (kc_heap c s)"

definition overlapping :: "int \<Rightarrow> int \<Rightarrow> 'kv kv_cache \<Rightarrow> nat list" where
  "overlapping prev stop c = filter (\<lambda>s. ks_from (snap_at c s) < stop \<and> prev < ks_to (snap_at c s)) (kc_lazy c)"

definition grow :: "int \<Rightarrow> int \<Rightarrow> int \<Rightarrow> ('kv :: zero) list option \<Rightarrow> 'kv list" where
  "grow step prev n buf =
     (let zeros = replicate (nat ((step + n - 1) div step * step)) 0 in
      case buf of
        None \<Rightarrow> zeros
      | Some b \<Rightarrow>
          if int (length b) < prev + n
          then (if prev mod step \<noteq> 0 then slots 0 prev b else b) @ zeros
          else b)"

definition appendKV :: "('kv :: zero) list \<Rightarrow> 'kv kv_cache \<Rightarrow> 'kv kv_cache option" where
  "appendKV kv c =
     (let n = int (length kv); prev = kc_offset c in
      case (if kc_rewound c
            then map_option (\<lambda>c. c\<lparr>kc_rewound := False\<rparr>) (copy_out_all (overlapping prev (prev + n) c) c)
            else Some c) of
        None \<Rightarrow> None
      | Some c \<Rightarrow>
          let b = grow (kc_step c) prev n (kc_buf c) in
          Some (c\<lparr>kc_offset := prev + n,
            kc_buf := Some (take (nat prev) b @ kv @ drop (nat (prev + n)) b)\<rparr>))"

definition Update :: "('kv :: zero) list \<Rightarrow> 'kv kv_cache \<Rightarrow> 'kv kv_cache option" where
  "Update kv c = map_option (\<lambda>c1. captureLazySnapshots (kc_offset c) (kc_offset c1) c1) (appendKV kv c)"

section \<open>Restoring, merging, splitting and freeing\<close>

definition Restore :: "nat option \<Rightarrow> int \<Rightarrow> ('kv :: zero) kv_cache \<Rightarrow> (bool \<times> 'kv kv_cache) option" where
  "Restore snapshot target c =
     (if target < 0 then Some (False, c)
      else case snapshot of
        None \<Rightarrow> if kc_offset c < target then Some (False, c) else Some (True, c\<lparr>kc_offset := target, kc_rewound := True\<rparr>)
      | Some s \<Rightarrow>
          (case kc_heap c s of
             None \<Rightarrow> None
           | Some sn \<Rightarrow>
               if ks_to sn < target \<or> kc_offset c < ks_from sn then Some (False, c)
               else if ks_data sn = None then Some (True, c\<lparr>kc_offset := min target (ks_to sn), kc_rewound := True\<rparr>)
               else (case copyOut s c of
                 None \<Rightarrow> None
               | Some c \<Rightarrow>
                   (case appendKV (the (ks_data (snap_at c s))) (c\<lparr>kc_offset := ks_from sn, kc_rewound := True\<rparr>) of
                      None \<Rightarrow> None
                    | Some c \<Rightarrow> Some (True, if target < kc_offset c then c\<lparr>kc_offset := target\<rparr> else c)))))"

definition Merge :: "nat option \<Rightarrow> nat option \<Rightarrow> 'kv kv_cache \<Rightarrow> (nat option \<times> 'kv kv_cache) option" where
  "Merge parent child c =
     (case (parent, child) of
        (None, None) \<Rightarrow> Some (None, c)
      | (Some p, None) \<Rightarrow> Some (None, closeSnapshot p c)
      | (None, Some ch) \<Rightarrow> Some (None, closeSnapshot ch c)
      | (Some p, Some ch) \<Rightarrow>
          (case (kc_heap c p, kc_heap c ch) of
             (Some ps, Some cs) \<Rightarrow>
               if ks_data ps = None \<and> ks_data cs = None \<and> ks_to ps = ks_from cs then
                 (case new_snapshot \<lparr>ks_data = None, ks_from = ks_from ps, ks_to = ks_to cs, ks_hook = False\<rparr> c of
                    (m, c) \<Rightarrow> Some (Some m, closeSnapshot ch (closeSnapshot p c)))
               else (case copy_out_all [p, ch] c of
                 None \<Rightarrow> None
               | Some c \<Rightarrow>
                   (case new_snapshot \<lparr>ks_data = Some (the (ks_data (snap_at c p)) @ the (ks_data (snap_at c ch))),
                        ks_from = ks_from ps, ks_to = ks_to cs, ks_hook = False\<rparr> (closeSnapshot ch (closeSnapshot p c)) of
                      (m, c) \<Rightarrow> Some (Some m, c)))
           | _ \<Rightarrow> None))"

definition Split :: "nat option \<Rightarrow> int \<Rightarrow> 'kv kv_cache \<Rightarrow> ((nat option \<times> nat option) \<times> 'kv kv_cache) option" where
  "Split snapshot at c =
     (case snapshot of
        None \<Rightarrow> Some ((None, None), c)
      | Some s \<Rightarrow>
          (case kc_heap c s of
             None \<Rightarrow> None
           | Some sn \<Rightarrow>
               (let splitIdx = at - ks_from sn; seqLen = ks_to sn - ks_from sn in
                if splitIdx \<le> 0 then Some ((None, snapshot), c)
                else if seqLen \<le> splitIdx then Some ((snapshot, None), c)
                else (case ks_data sn of
                  None \<Rightarrow>
                    (case new_snapshot \<lparr>ks_data = None, ks_from = ks_from sn, ks_to = at, ks_hook = False\<rparr> c of
                       (p, c) \<Rightarrow>
                         (case new_snapshot \<lparr>ks_data = None, ks_from = at, ks_to = ks_to sn, ks_hook = False\<rparr> c of
                            (ch, c) \<Rightarrow> Some ((Some p, Some ch), closeSnapshot s c)))
                | Some d \<Rightarrow>
                    (case new_snapshot \<lparr>ks_data = Some (slots 0 splitIdx d), ks_from = ks_from sn, ks_to = at,
                         ks_hook = False\<rparr> (closeSnapshot s c) of
                       (p, c) \<Rightarrow>
                         (case new_snapshot \<lparr>ks_data = Some (slots splitIdx seqLen d), ks_from = at, ks_to = ks_to sn,
                              ks_hook = False\<rparr> c of
                            (ch, c) \<Rightarrow> Some ((Some p, Some ch), c)))))))"

definition Free :: "'kv kv_cache \<Rightarrow> 'kv kv_cache option" where
  "Free c =
     map_option (\<lambda>c. c\<lparr>kc_buf := None, kc_offset := 0, kc_rewound := False, kc_pending := no_pending\<rparr>)
       (copy_out_all (kc_lazy c) c)"

definition PrepareSnapshots :: "int list \<Rightarrow> 'kv kv_cache \<Rightarrow> 'kv kv_cache option" where
  "PrepareSnapshots offsets c = map_option (\<lambda>p. c\<lparr>kc_pending := p\<rparr>) (pending_prepare (kc_offset c) offsets (kc_pending c))"

definition TakeSnapshots :: "'kv kv_cache \<Rightarrow> nat option list \<times> 'kv kv_cache" where
  "TakeSnapshots c = (case pending_take (kc_pending c) of (ss, p) \<Rightarrow> (ss, c\<lparr>kc_pending := p\<rparr>))"

section \<open>The invariant\<close>

text \<open>What a snapshot reads: its own data, or the range it names in the buffer.\<close>

definition snap_data :: "'kv kv_cache \<Rightarrow> nat \<Rightarrow> 'kv list option" where
  "snap_data c s =
     (case kc_heap c s of
        None \<Rightarrow> None
      | Some sn \<Rightarrow> (case ks_data sn of None \<Rightarrow> map_option (slots (ks_from sn) (ks_to sn)) (kc_buf c) | Some d \<Rightarrow> Some d))"

definition snap_ok :: "'kv kv_cache \<Rightarrow> nat \<Rightarrow> 'kv kv_snapshot \<Rightarrow> bool" where
  "snap_ok c s sn \<longleftrightarrow> s < kc_next c \<and> 0 \<le> ks_from sn \<and> ks_from sn < ks_to sn \<and>
     (case ks_data sn of
        None \<Rightarrow> s \<in> set (kc_lazy c) \<and> (\<exists>b. kc_buf c = Some b \<and> ks_to sn \<le> int (length b))
      | Some d \<Rightarrow> s \<notin> set (kc_lazy c) \<and> int (length d) = ks_to sn - ks_from sn)"

definition fits :: "int \<Rightarrow> 'kv list option \<Rightarrow> bool" where
  "fits off buf \<longleftrightarrow> (case buf of None \<Rightarrow> off = 0 | Some b \<Rightarrow> off \<le> int (length b))"

definition kv_ok :: "'kv kv_cache \<Rightarrow> bool" where
  "kv_ok c \<longleftrightarrow> 0 < kc_step c \<and> 0 \<le> kc_offset c \<and> distinct (kc_lazy c) \<and>
     fits (kc_offset c) (kc_buf c) \<and>
     (\<forall>s sn. kc_heap c s = Some sn \<longrightarrow> snap_ok c s sn) \<and>
     (\<forall>s \<in> set (kc_lazy c). \<exists>sn. kc_heap c s = Some sn \<and> ks_data sn = None) \<and>
     0 \<le> pe_base (kc_pending c)"

lemma kv_okD: "kv_ok c \<Longrightarrow> kc_heap c s = Some sn \<Longrightarrow> snap_ok c s sn"
  by (simp add: kv_ok_def)

lemma kv_okI:
  assumes "0 < kc_step c" "0 \<le> kc_offset c" "distinct (kc_lazy c)"
    and "fits (kc_offset c) (kc_buf c)"
    and "0 \<le> pe_base (kc_pending c)" "\<And>s sn. kc_heap c s = Some sn \<Longrightarrow> snap_ok c s sn"
    and "\<And>s. s \<in> set (kc_lazy c) \<Longrightarrow> \<exists>sn. kc_heap c s = Some sn \<and> ks_data sn = None"
  shows "kv_ok c"
  using assms by (simp add: kv_ok_def)

lemma kv_ok_state:
  assumes "kv_ok c"
  shows "0 < kc_step c" "0 \<le> kc_offset c" "distinct (kc_lazy c)"
    and "fits (kc_offset c) (kc_buf c)"
    and "0 \<le> pe_base (kc_pending c)"
  using assms by (simp_all add: kv_ok_def)

lemma kv_ok_update [simp]:
  "kv_ok (c\<lparr>kc_rewound := r\<rparr>) = kv_ok c"
  "0 \<le> pe_base p \<Longrightarrow> 0 \<le> pe_base (kc_pending c) \<Longrightarrow> kv_ok (c\<lparr>kc_pending := p\<rparr>) = kv_ok c"
  by (simp_all add: kv_ok_def snap_ok_def cong: option.case_cong)

lemma snap_data_update [simp]:
  "snap_data (c\<lparr>kc_rewound := r\<rparr>) s = snap_data c s" "snap_data (c\<lparr>kc_pending := p\<rparr>) s = snap_data c s"
  "snap_data (c\<lparr>kc_offset := off\<rparr>) s = snap_data c s"
  by (simp_all add: snap_data_def cong: option.case_cong)

lemma kv_lazyD: "kv_ok c \<Longrightarrow> s \<in> set (kc_lazy c) \<Longrightarrow>
    \<exists>sn b. kc_heap c s = Some sn \<and> ks_data sn = None \<and> kc_buf c = Some b \<and> 0 \<le> ks_from sn \<and> ks_from sn < ks_to sn \<and>
      ks_to sn \<le> int (length b)"
  using kv_okD [of c s] by (fastforce simp: kv_ok_def snap_ok_def)

lemma NewKVCache_ok: "kv_ok NewKVCache"
  by (simp add: kv_ok_def NewKVCache_def no_pending_def fits_def)

lemma slots_length: "0 \<le> a \<Longrightarrow> a \<le> b \<Longrightarrow> b \<le> int (length xs) \<Longrightarrow> int (length (slots a b xs)) = b - a"
  by (simp add: slots_def)

text \<open>Copying a lazy snapshot out changes no snapshot's data and nothing of the buffer.\<close>

lemma copyOut_lazy:
  assumes "kv_ok c" "s \<in> set (kc_lazy c)"
  shows "\<exists>c'. copyOut s c = Some c' \<and> kv_ok c' \<and> kc_lazy c' = remove1 s (kc_lazy c) \<and> kc_buf c' = kc_buf c \<and>
    kc_offset c' = kc_offset c \<and> kc_step c' = kc_step c \<and> kc_pending c' = kc_pending c \<and> kc_next c' = kc_next c \<and>
    kc_rewound c' = kc_rewound c \<and> (\<forall>r. snap_data c' r = snap_data c r) \<and>
    (\<forall>r. map_option (\<lambda>sn. (ks_from sn, ks_to sn)) (kc_heap c' r) = map_option (\<lambda>sn. (ks_from sn, ks_to sn)) (kc_heap c r))"
proof -
  from kv_lazyD [OF assms] obtain sn b where
    s: "kc_heap c s = Some sn" "ks_data sn = None" "kc_buf c = Some b" "0 \<le> ks_from sn" "ks_from sn < ks_to sn"
      "ks_to sn \<le> int (length b)" by blast
  define d where "d = slots (ks_from sn) (ks_to sn) b"
  define c1 where "c1 = (dropLazySnapshot s c)\<lparr>kc_heap := (kc_heap c)(s \<mapsto> sn\<lparr>ks_data := Some d, ks_hook := False\<rparr>)\<rparr>"
  define c' where "c' = (if ks_hook sn then c1\<lparr>kc_fired := kc_fired c1 @ [(s, length d)]\<rparr> else c1)"
  have eq: "copyOut s c = Some c'"
    using s(1-3) by (simp add: copyOut_def c'_def c1_def d_def Let_def dropLazySnapshot_def)
  have f: "kc_lazy c' = remove1 s (kc_lazy c)" "kc_buf c' = kc_buf c" "kc_offset c' = kc_offset c" "kc_step c' = kc_step c"
    "kc_pending c' = kc_pending c" "kc_next c' = kc_next c" "kc_rewound c' = kc_rewound c"
    "kc_heap c' = (kc_heap c)(s \<mapsto> sn\<lparr>ks_data := Some d, ks_hook := False\<rparr>)"
    by (simp_all add: c'_def c1_def dropLazySnapshot_def)
  have dist: "distinct (kc_lazy c)" using assms(1) by (simp add: kv_ok_def)
  have len: "int (length d) = ks_to sn - ks_from sn" unfolding d_def by (rule slots_length) (use s in auto)
  have "kv_ok c'"
  proof -
    have "snap_ok c' r rn" if r: "kc_heap c' r = Some rn" for r rn
    proof (cases "r = s")
      case True
      with r f kv_okD [OF assms(1) s(1)] len dist show ?thesis by (auto simp: snap_ok_def)
    next
      case False
      with r f have "kc_heap c r = Some rn" by simp
      from kv_okD [OF assms(1) this] False f show ?thesis by (auto simp: snap_ok_def split: option.splits)
    qed
    moreover have "\<exists>rn. kc_heap c' r = Some rn \<and> ks_data rn = None" if "r \<in> set (kc_lazy c')" for r
      using that f dist kv_lazyD [OF assms(1), of r] by auto
    ultimately show ?thesis using kv_ok_state [OF assms(1)] by (intro kv_okI) (simp_all add: f distinct_remove1)
  qed
  moreover have "snap_data c' r = snap_data c r" for r
    using s(1-3) unfolding snap_data_def f by (auto simp: d_def split: option.splits)
  ultimately show ?thesis using eq f s(1) by auto
qed

lemma copy_out_all_lazy:
  "kv_ok c \<Longrightarrow> distinct ss \<Longrightarrow> set ss \<subseteq> set (kc_lazy c) \<Longrightarrow>
    \<exists>c'. copy_out_all ss c = Some c' \<and> kv_ok c' \<and> set (kc_lazy c') = set (kc_lazy c) - set ss \<and> kc_buf c' = kc_buf c \<and>
    kc_offset c' = kc_offset c \<and> kc_step c' = kc_step c \<and> kc_pending c' = kc_pending c \<and> kc_next c' = kc_next c \<and>
    kc_rewound c' = kc_rewound c \<and> (\<forall>r. snap_data c' r = snap_data c r) \<and>
    (\<forall>r. map_option (\<lambda>sn. (ks_from sn, ks_to sn)) (kc_heap c' r) = map_option (\<lambda>sn. (ks_from sn, ks_to sn)) (kc_heap c r))"
proof (induction ss arbitrary: c)
  case (Cons s ss)
  from copyOut_lazy [OF Cons.prems(1), of s] Cons.prems(3) obtain c1 where
    c1: "copyOut s c = Some c1" "kv_ok c1" "kc_lazy c1 = remove1 s (kc_lazy c)" "kc_buf c1 = kc_buf c"
      "kc_offset c1 = kc_offset c" "kc_step c1 = kc_step c" "kc_pending c1 = kc_pending c" "kc_next c1 = kc_next c"
      "kc_rewound c1 = kc_rewound c" "\<forall>r. snap_data c1 r = snap_data c r"
      "\<forall>r. map_option (\<lambda>sn. (ks_from sn, ks_to sn)) (kc_heap c1 r) = map_option (\<lambda>sn. (ks_from sn, ks_to sn)) (kc_heap c r)"
    by auto
  have l1: "set (kc_lazy c1) = set (kc_lazy c) - {s}" using c1(3) Cons.prems(1) by (simp add: kv_ok_def)
  have "distinct ss" "set ss \<subseteq> set (kc_lazy c1)" using Cons.prems(2,3) l1 by auto
  from Cons.IH [OF c1(2) this] obtain c2 where
    c2: "copy_out_all ss c1 = Some c2" "kv_ok c2" "set (kc_lazy c2) = set (kc_lazy c1) - set ss" "kc_buf c2 = kc_buf c1"
      "kc_offset c2 = kc_offset c1" "kc_step c2 = kc_step c1" "kc_pending c2 = kc_pending c1" "kc_next c2 = kc_next c1"
      "kc_rewound c2 = kc_rewound c1" "\<forall>r. snap_data c2 r = snap_data c1 r"
      "\<forall>r. map_option (\<lambda>sn. (ks_from sn, ks_to sn)) (kc_heap c2 r) = map_option (\<lambda>sn. (ks_from sn, ks_to sn)) (kc_heap c1 r)"
    by auto
  show ?case using c1 c2 l1 by auto
qed simp

section \<open>Writing keeps the snapshots\<close>

definition buf_slots :: "'kv list option \<Rightarrow> 'kv list" where
  "buf_slots buf = (case buf of None \<Rightarrow> [] | Some b \<Rightarrow> b)"

text \<open>The history the layer attends to: \<^verbatim>\<open>State\<close>.\<close>

definition State :: "'kv kv_cache \<Rightarrow> 'kv list" where
  "State c = slots 0 (kc_offset c) (buf_slots (kc_buf c))"

lemma round_up: "0 < step \<Longrightarrow> 0 \<le> n \<Longrightarrow> (n :: int) \<le> (step + n - 1) div step * step"
proof -
  assume "0 < step" "0 \<le> n"
  have "(step + n - 1) div step * step = step + n - 1 - (step + n - 1) mod step" by (simp add: minus_mod_eq_div_mult)
  moreover have "(step + n - 1) mod step < step" using \<open>0 < step\<close> by simp
  ultimately show ?thesis by simp
qed

lemma grow_room:
  fixes buf :: "('kv :: zero) list option"
  assumes "0 < step" "0 \<le> prev" "0 \<le> n" "fits prev buf"
  shows "prev + n \<le> int (length (grow step prev n buf))" "length (buf_slots buf) \<le> length (grow step prev n buf)"
    and "take (nat prev) (grow step prev n buf) = take (nat prev) (buf_slots buf)"
    and "prev + n \<le> int (length (buf_slots buf)) \<Longrightarrow> grow step prev n buf = buf_slots buf \<or> buf = None"
proof -
  define z :: "'kv list" where "z = replicate (nat ((step + n - 1) div step * step)) 0"
  have z: "n \<le> int (length z)" using round_up [OF assms(1,3)] assms(3) by (simp add: z_def)
  have G: "grow step prev n buf = (case buf of None \<Rightarrow> z
      | Some b \<Rightarrow> if int (length b) < prev + n then (if prev mod step \<noteq> 0 then slots 0 prev b else b) @ z else b)"
    unfolding grow_def z_def Let_def by (rule refl)
  show "prev + n \<le> int (length (grow step prev n buf))" "length (buf_slots buf) \<le> length (grow step prev n buf)"
    "take (nat prev) (grow step prev n buf) = take (nat prev) (buf_slots buf)"
    "prev + n \<le> int (length (buf_slots buf)) \<Longrightarrow> grow step prev n buf = buf_slots buf \<or> buf = None"
    using assms z unfolding G by (auto simp: fits_def slots_def buf_slots_def min_def split: option.splits)
qed

lemma slots_write:
  assumes "0 \<le> prev" "prev + int (length kv) \<le> int (length g)" "0 \<le> a" "b \<le> prev \<or> prev + int (length kv) \<le> a"
  shows "slots a b (take (nat prev) g @ kv @ drop (nat (prev + int (length kv))) g) = slots a b g"
proof (rule nth_equalityI)
  define g' where "g' = take (nat prev) g @ kv @ drop (nat (prev + int (length kv))) g"
  have len: "length g' = length g" using assms(1,2) by (simp add: g'_def)
  then show "length (slots a b g') = length (slots a b g)" by (simp add: slots_def)
  fix i assume i: "i < length (slots a b g')"
  then have "i < nat (b - a)" "i < length g - nat a" using len by (simp_all add: slots_def)
  then have "i < nat (b - a)" "nat a + i < length g" by linarith+
  moreover from this have "g' ! (nat a + i) = g ! (nat a + i)"
    using assms by (auto simp: g'_def nth_append nat_add_distrib algebra_simps)
  ultimately show "slots a b g' ! i = slots a b g ! i" using len by (simp add: slots_def)
qed

definition settled :: "'kv kv_cache \<Rightarrow> bool" where
  "settled c \<longleftrightarrow> (\<forall>s \<in> set (kc_lazy c). ks_to (snap_at c s) \<le> kc_offset c)"

lemma snap_at_range:
  "map_option (\<lambda>sn. (ks_from sn, ks_to sn)) (kc_heap c' r) = map_option (\<lambda>sn. (ks_from sn, ks_to sn)) (kc_heap c r) \<Longrightarrow>
    kc_heap c r \<noteq> None \<Longrightarrow> ks_from (snap_at c' r) = ks_from (snap_at c r) \<and> ks_to (snap_at c' r) = ks_to (snap_at c r)"
  by (auto simp: snap_at_def)

text \<open>The write itself, once no lazy snapshot names one of its slots.\<close>

lemma write_keeps:
  fixes c :: "('kv :: zero) kv_cache" and kv :: "'kv list"
  assumes "kv_ok c"
  defines "n \<equiv> int (length kv)" and "prev \<equiv> kc_offset c"
  defines "g \<equiv> grow (kc_step c) prev n (kc_buf c)"
  defines "c' \<equiv> c\<lparr>kc_offset := prev + n, kc_buf := Some (take (nat prev) g @ kv @ drop (nat (prev + n)) g)\<rparr>"
  shows "kv_ok c'" "State c' = State c @ kv"
    and "\<And>s sn. kc_heap c s = Some sn \<Longrightarrow> ks_data sn \<noteq> None \<or> ks_to sn \<le> prev \<or> prev + n \<le> ks_from sn \<Longrightarrow>
      snap_data c' s = snap_data c s"
proof -
  note K = kv_ok_state [OF assms(1)]
  have n: "0 \<le> n" by (simp add: n_def)
  note G = grow_room [OF K(1) K(2) n K(4), folded prev_def, folded g_def]
  have prev: "0 \<le> prev" using K(2) by (simp add: prev_def)
  define b' where "b' = take (nat prev) g @ kv @ drop (nat (prev + n)) g"
  have len: "length b' = length g" using G(1) prev by (simp add: b'_def n_def)
  have c': "c' = c\<lparr>kc_offset := prev + n, kc_buf := Some b'\<rparr>" by (simp add: c'_def b'_def)
  show "kv_ok c'"
  proof (rule kv_okI)
    show "0 < kc_step c'" "0 \<le> kc_offset c'" "distinct (kc_lazy c')" "0 \<le> pe_base (kc_pending c')"
      using K n prev by (simp_all add: c')
    show "fits (kc_offset c') (kc_buf c')" using G(1) len by (simp add: c' fits_def)
    fix s
    show "snap_ok c' s sn" if "kc_heap c' s = Some sn" for sn
    proof -
      have "snap_ok c s sn" using that kv_okD [OF assms(1), of s sn] by (simp add: c')
      then show ?thesis using G(2) len by (auto simp: snap_ok_def c' buf_slots_def split: option.splits)
    qed
    show "s \<in> set (kc_lazy c') \<Longrightarrow> \<exists>sn. kc_heap c' s = Some sn \<and> ks_data sn = None"
      using kv_lazyD [OF assms(1), of s] by (auto simp: c')
  qed
  have lb: "length (take (nat prev) g) = nat prev" using G(1) n prev by simp
  have "State c' = take (nat (prev + n)) b'" by (simp add: State_def slots_def c' buf_slots_def)
  also have "\<dots> = take (nat prev) g @ kv"
    using lb prev n unfolding b'_def by (simp add: n_def nat_add_distrib)
  also have "take (nat prev) g = State c" unfolding G(3) by (simp add: State_def slots_def prev_def)
  finally show "State c' = State c @ kv" .
  fix s sn
  assume s: "kc_heap c s = Some sn" "ks_data sn \<noteq> None \<or> ks_to sn \<le> prev \<or> prev + n \<le> ks_from sn"
  show "snap_data c' s = snap_data c s"
  proof (cases "ks_data sn")
    case (Some d)
    with s(1) show ?thesis by (simp add: snap_data_def c')
  next
    case None
    with kv_okD [OF assms(1) s(1)] obtain b where
      b: "kc_buf c = Some b" "0 \<le> ks_from sn" "ks_from sn < ks_to sn" "ks_to sn \<le> int (length b)"
      by (auto simp: snap_ok_def)
    have "slots (ks_from sn) (ks_to sn) b' = slots (ks_from sn) (ks_to sn) g"
      unfolding b'_def n_def by (rule slots_write) (use prev G(1) b s(2) None in \<open>auto simp: n_def\<close>)
    also have "\<dots> = slots (ks_from sn) (ks_to sn) b"
    proof (cases "ks_to sn \<le> prev")
      case True
      have "slots (ks_from sn) (ks_to sn) xs = slots (ks_from sn) (ks_to sn) (take (nat prev) xs)" for xs :: "'kv list"
        using True b(2,3) by (simp add: slots_def take_drop min_def)
      from this [of g] this [of b] G(3) b(1) show ?thesis by (simp add: buf_slots_def)
    next
      case False
      with s(2) None b G(4) show ?thesis by (simp add: buf_slots_def)
    qed
    finally show ?thesis using None s(1) b(1) by (simp add: snap_data_def c')
  qed
qed

lemma appendKV_keeps:
  assumes "kv_ok c"
  shows "\<exists>c'. appendKV kv c = Some c' \<and> kv_ok c' \<and> State c' = State c @ kv \<and> kc_offset c' = kc_offset c + int (length kv) \<and>
    kc_pending c' = kc_pending c \<and> kc_next c' = kc_next c \<and> \<not> kc_rewound c' \<and>
    (kc_rewound c \<or> settled c \<longrightarrow> (\<forall>s. snap_data c' s = snap_data c s)) \<and>
    (settled c \<longrightarrow> settled c') \<and>
    (\<forall>r. map_option (\<lambda>sn. (ks_from sn, ks_to sn)) (kc_heap c' r) = map_option (\<lambda>sn. (ks_from sn, ks_to sn)) (kc_heap c r))"
proof -
  define n where "n = int (length kv)"
  define prev where "prev = kc_offset c"
  define ss where "ss = overlapping prev (prev + n) c"
  have "distinct ss" "set ss \<subseteq> set (kc_lazy c)"
    using kv_ok_state(3) [OF assms] by (auto simp: ss_def overlapping_def)
  from copy_out_all_lazy [OF assms this] obtain c0 where
    C0: "copy_out_all ss c = Some c0" "kv_ok c0" "set (kc_lazy c0) = set (kc_lazy c) - set ss" "kc_buf c0 = kc_buf c"
      "kc_offset c0 = kc_offset c" "kc_step c0 = kc_step c" "kc_pending c0 = kc_pending c" "kc_next c0 = kc_next c"
      "\<forall>r. snap_data c0 r = snap_data c r"
      "\<forall>r. map_option (\<lambda>sn. (ks_from sn, ks_to sn)) (kc_heap c0 r) = map_option (\<lambda>sn. (ks_from sn, ks_to sn)) (kc_heap c r)"
    by auto
  define c1 where "c1 = (if kc_rewound c then c0\<lparr>kc_rewound := False\<rparr> else c)"
  have ok1: "kv_ok c1" using C0(2) assms by (simp add: c1_def)
  have f1: "kc_offset c1 = prev" "kc_buf c1 = kc_buf c" "kc_pending c1 = kc_pending c" "kc_next c1 = kc_next c"
    "\<not> kc_rewound c1" "State c1 = State c" "\<And>s. snap_data c1 s = snap_data c s"
    "\<And>r. map_option (\<lambda>sn. (ks_from sn, ks_to sn)) (kc_heap c1 r) = map_option (\<lambda>sn. (ks_from sn, ks_to sn)) (kc_heap c r)"
    "set (kc_lazy c1) = (if kc_rewound c then set (kc_lazy c) - set ss else set (kc_lazy c))"
    using C0 by (auto simp: c1_def prev_def State_def)
  define g where "g = grow (kc_step c1) prev n (kc_buf c1)"
  define c' where "c' = c1\<lparr>kc_offset := prev + n, kc_buf := Some (take (nat prev) g @ kv @ drop (nat (prev + n)) g)\<rparr>"
  have eq: "appendKV kv c = Some c'"
    using C0(1) by (auto simp: appendKV_def Let_def n_def [symmetric] prev_def [symmetric] ss_def [symmetric] c'_def c1_def g_def)
  note W = write_keeps [OF ok1, where kv = kv, unfolded f1(1), folded n_def, folded g_def, folded c'_def]
  have lz: "\<exists>sn. kc_heap c1 s = Some sn \<and> ks_data sn = None \<and> snap_at c1 s = sn \<and> snap_at c' s = sn \<and>
      ks_from sn = ks_from (snap_at c s) \<and> ks_to sn = ks_to (snap_at c s)" if "s \<in> set (kc_lazy c1)" for s
  proof -
    from kv_lazyD [OF ok1 that] obtain sn where sn: "kc_heap c1 s = Some sn" "ks_data sn = None" by blast
    have "s \<in> set (kc_lazy c)" using that f1(9) by (auto split: if_splits)
    from kv_lazyD [OF assms this] have "kc_heap c s \<noteq> None" by auto
    from snap_at_range [OF f1(8) this] sn show ?thesis by (simp add: snap_at_def c'_def)
  qed
  have keep: "snap_data c' s = snap_data c s" if "kc_rewound c \<or> settled c" for s
  proof (cases "kc_heap c1 s")
    case None
    then show ?thesis using f1(7) [of s] by (simp add: snap_data_def c'_def)
  next
    case (Some sn)
    have "ks_data sn \<noteq> None \<or> ks_to sn \<le> prev \<or> prev + n \<le> ks_from sn"
    proof (cases "ks_data sn = None")
      case True
      with kv_okD [OF ok1 Some] have l: "s \<in> set (kc_lazy c1)" by (simp add: snap_ok_def)
      from lz [OF l] Some have r: "ks_from sn = ks_from (snap_at c s)" "ks_to sn = ks_to (snap_at c s)" by auto
      from that show ?thesis
      proof
        assume "kc_rewound c"
        with l f1(9) r show ?thesis by (auto simp: ss_def overlapping_def)
      next
        assume "settled c"
        moreover have "s \<in> set (kc_lazy c)" using l f1(9) by (auto split: if_splits)
        ultimately show ?thesis using r by (simp add: settled_def prev_def)
      qed
    qed simp
    from W(3) [OF Some this] f1(7) show ?thesis by simp
  qed
  have "settled c'" if "settled c"
    unfolding settled_def
  proof
    fix s assume "s \<in> set (kc_lazy c')"
    then have l: "s \<in> set (kc_lazy c1)" by (simp add: c'_def)
    then have "s \<in> set (kc_lazy c)" using f1(9) by (auto split: if_splits)
    with that lz [OF l] show "ks_to (snap_at c' s) \<le> kc_offset c'" by (auto simp: settled_def c'_def prev_def n_def)
  qed
  moreover have "kc_offset c' = kc_offset c + int (length kv)" "kc_pending c' = kc_pending c" "kc_next c' = kc_next c"
    "\<not> kc_rewound c'" "\<And>r. kc_heap c' r = kc_heap c1 r"
    using f1 by (simp_all add: c'_def prev_def n_def)
  ultimately show ?thesis using eq W(1,2) keep f1(6,8) by auto
qed

section \<open>Taking, closing and dividing snapshots\<close>

lemma next_free: "kv_ok c \<Longrightarrow> kc_heap c (kc_next c) = None"
  using kv_okD [of c "kc_next c"] by (cases "kc_heap c (kc_next c)") (auto simp: snap_ok_def)

text \<open>The parts of the state a snapshot operation leaves alone.\<close>

definition same_buffer :: "'kv kv_cache \<Rightarrow> 'kv kv_cache \<Rightarrow> bool" where
  "same_buffer c c' \<longleftrightarrow> kc_buf c' = kc_buf c \<and> kc_offset c' = kc_offset c \<and> kc_step c' = kc_step c \<and>
     kc_rewound c' = kc_rewound c \<and> kc_pending c' = kc_pending c"

lemma same_buffer_refl [simp]: "same_buffer c c"
  by (simp add: same_buffer_def)

lemma same_buffer_trans: "same_buffer a b \<Longrightarrow> same_buffer b c \<Longrightarrow> same_buffer a c"
  by (simp add: same_buffer_def)

lemma same_buffer_State: "same_buffer c c' \<Longrightarrow> State c' = State c"
  by (simp add: same_buffer_def State_def)

definition data_fits :: "'kv kv_cache \<Rightarrow> 'kv kv_snapshot \<Rightarrow> bool" where
  "data_fits c sn \<longleftrightarrow> 0 \<le> ks_from sn \<and> ks_from sn < ks_to sn \<and>
     (case ks_data sn of
        None \<Rightarrow> (\<exists>b. kc_buf c = Some b \<and> ks_to sn \<le> int (length b))
      | Some d \<Rightarrow> int (length d) = ks_to sn - ks_from sn)"

lemma data_fits_ok: "kv_ok c \<Longrightarrow> kc_heap c s = Some sn \<Longrightarrow> data_fits c sn"
  using kv_okD [of c s sn] by (auto simp: snap_ok_def data_fits_def split: option.splits)

lemma data_fits_same: "same_buffer c c' \<Longrightarrow> data_fits c' sn = data_fits c sn"
  by (simp add: data_fits_def same_buffer_def cong: option.case_cong)

lemma new_snapshot_ok:
  assumes "kv_ok c" "data_fits c sn" "new_snapshot sn c = (s, c')"
  shows "s = kc_next c" "kv_ok c'" "same_buffer c c'"
    and "snap_data c' s = (case ks_data sn of None \<Rightarrow> map_option (slots (ks_from sn) (ks_to sn)) (kc_buf c) | Some d \<Rightarrow> Some d)"
    and "r \<noteq> s \<Longrightarrow> snap_data c' r = snap_data c r" "r \<noteq> s \<Longrightarrow> kc_heap c' r = kc_heap c r" "kc_heap c' s = Some sn"
    and "kc_lazy c' = (if ks_data sn = None then kc_lazy c @ [s] else kc_lazy c)"
proof -
  have c': "s = kc_next c" "c' = c\<lparr>kc_heap := (kc_heap c)(s \<mapsto> sn), kc_next := s + 1,
      kc_lazy := (if ks_data sn = None then kc_lazy c @ [s] else kc_lazy c)\<rparr>"
    using assms(3) by (auto simp: new_snapshot_def)
  have fresh: "kc_heap c s = None" using next_free [OF assms(1)] c'(1) by simp
  then have ns: "s \<notin> set (kc_lazy c)" using kv_lazyD [OF assms(1), of s] by auto
  show "s = kc_next c" by (rule c'(1))
  show "same_buffer c c'" by (simp add: same_buffer_def c'(2))
  show "snap_data c' s = (case ks_data sn of None \<Rightarrow> map_option (slots (ks_from sn) (ks_to sn)) (kc_buf c) | Some d \<Rightarrow> Some d)"
    unfolding snap_data_def c'(2) by (simp cong: option.case_cong)
  show "r \<noteq> s \<Longrightarrow> snap_data c' r = snap_data c r"
    unfolding snap_data_def c'(2) by (simp cong: option.case_cong)
  show "r \<noteq> s \<Longrightarrow> kc_heap c' r = kc_heap c r" "kc_heap c' s = Some sn"
    "kc_lazy c' = (if ks_data sn = None then kc_lazy c @ [s] else kc_lazy c)" by (simp_all add: c'(2))
  show "kv_ok c'"
  proof (rule kv_okI)
    show "distinct (kc_lazy c')" using kv_ok_state(3) [OF assms(1)] ns by (simp add: c'(2))
    fix r
    show "snap_ok c' r rn" if r: "kc_heap c' r = Some rn" for rn
    proof (cases "r = s")
      case True
      with r assms(2) ns show ?thesis by (auto simp: snap_ok_def data_fits_def c'(2) split: option.splits)
    next
      case False
      with r have "snap_ok c r rn" using kv_okD [OF assms(1), of r rn] by (simp add: c'(2))
      with False c'(1) show ?thesis by (auto simp: snap_ok_def c'(2) split: option.splits)
    qed
    show "\<exists>rn. kc_heap c' r = Some rn \<and> ks_data rn = None" if "r \<in> set (kc_lazy c')"
      using that kv_lazyD [OF assms(1), of r] ns by (auto simp: c'(2) split: if_splits)
  qed (use kv_ok_state [OF assms(1)] in \<open>simp_all add: c'(2)\<close>)
qed

lemma closeSnapshot_ok:
  assumes "kv_ok c"
  shows "kv_ok (closeSnapshot s c)" "same_buffer c (closeSnapshot s c)"
    and "snap_data (closeSnapshot s c) r = (if r = s then None else snap_data c r)"
    and "kc_heap (closeSnapshot s c) = (kc_heap c)(s := None)" "set (kc_lazy (closeSnapshot s c)) = set (kc_lazy c) - {s}"
proof -
  have d: "distinct (kc_lazy c)" by (rule kv_ok_state(3) [OF assms])
  define c' where "c' = closeSnapshot s c"
  have f: "kc_buf c' = kc_buf c" "kc_offset c' = kc_offset c" "kc_step c' = kc_step c" "kc_pending c' = kc_pending c"
    "kc_rewound c' = kc_rewound c" "kc_next c' = kc_next c" "kc_lazy c' = remove1 s (kc_lazy c)" "kc_heap c' = (kc_heap c)(s := None)"
    by (simp_all add: c'_def closeSnapshot_def dropLazySnapshot_def)
  have "kv_ok c'"
  proof (rule kv_okI)
    fix r
    show "snap_ok c' r rn" if "kc_heap c' r = Some rn" for rn
    proof -
      have "snap_ok c r rn" "r \<noteq> s" using that kv_okD [OF assms, of r rn] f(8) by (auto split: if_splits)
      then show ?thesis by (auto simp: snap_ok_def f d split: option.splits)
    qed
    show "\<exists>rn. kc_heap c' r = Some rn \<and> ks_data rn = None" if "r \<in> set (kc_lazy c')"
      using that kv_lazyD [OF assms, of r] d by (auto simp: f)
  qed (use kv_ok_state [OF assms] d in \<open>simp_all add: f distinct_remove1\<close>)
  then show "kv_ok (closeSnapshot s c)" by (simp add: c'_def)
  show "same_buffer c (closeSnapshot s c)" "kc_heap (closeSnapshot s c) = (kc_heap c)(s := None)"
    "set (kc_lazy (closeSnapshot s c)) = set (kc_lazy c) - {s}"
    using f d by (simp_all add: same_buffer_def c'_def)
  show "snap_data (closeSnapshot s c) r = (if r = s then None else snap_data c r)"
    unfolding snap_data_def c'_def [symmetric] f by simp
qed

text \<open>A lazy snapshot of a range below the offset reads what the layer attends to there.\<close>

lemma lazySnapshot_ok:
  assumes "kv_ok c" "0 \<le> from0" "to \<le> kc_offset c" "lazySnapshot from0 to c = (s, c')"
  shows "kv_ok c'" "same_buffer c c'" "r < kc_next c \<Longrightarrow> snap_data c' r = snap_data c r" "kc_next c \<le> kc_next c'"
    and "settled c \<Longrightarrow> settled c'"
    and "s = None \<longleftrightarrow> to \<le> from0"
    and "s = Some n \<Longrightarrow> n = kc_next c \<and> n < kc_next c' \<and> snap_data c' n = Some (slots from0 to (State c))"
proof -
  have b: "from0 < to \<Longrightarrow> \<exists>b. kc_buf c = Some b \<and> kc_offset c \<le> int (length b)"
    using kv_ok_state(4) [OF assms(1)] assms(2,3) by (auto simp: fits_def split: option.splits)
  show n: "s = None \<longleftrightarrow> to \<le> from0"
  proof (cases "to \<le> from0")
    case False
    with b obtain b where "kc_buf c = Some b" by force
    with False assms(4) show ?thesis by (auto simp: lazySnapshot_def split: prod.splits)
  qed (use assms(4) in \<open>auto simp: lazySnapshot_def\<close>)
  consider "to \<le> from0" | "from0 < to" by linarith
  then have "kv_ok c' \<and> same_buffer c c' \<and> (\<forall>r < kc_next c. snap_data c' r = snap_data c r) \<and> kc_next c \<le> kc_next c' \<and>
    (settled c \<longrightarrow> settled c') \<and> (\<forall>n. s = Some n \<longrightarrow> n = kc_next c \<and> n < kc_next c' \<and> snap_data c' n = Some (slots from0 to (State c)))"
  proof cases
    case 1
    with assms(4) have "s = None" "c' = c" by (auto simp: lazySnapshot_def)
    with assms(1) show ?thesis by simp
  next
    case 2
    from b [OF 2] obtain b where b: "kc_buf c = Some b" "kc_offset c \<le> int (length b)" by blast
    define sn :: "'a kv_snapshot" where "sn = \<lparr>ks_data = None, ks_from = from0, ks_to = to, ks_hook = False\<rparr>"
    obtain k where k: "new_snapshot sn c = (k, c')" "s = Some k"
      using assms(4) 2 b(1) by (auto simp: lazySnapshot_def sn_def split: prod.splits)
    have fits: "data_fits c sn" using 2 assms(2,3) b by (simp add: data_fits_def sn_def)
    note N = new_snapshot_ok [OF assms(1) fits k(1)]
    have "slots from0 to b = slots from0 to (State c)"
      using assms(2,3) b(1) by (simp add: State_def buf_slots_def slots_def drop_take min_def)
    moreover have "settled c'" if "settled c"
      unfolding settled_def
    proof
      fix r assume "r \<in> set (kc_lazy c')"
      then have "r \<in> set (kc_lazy c) \<or> r = k" using N(8) by (auto simp: sn_def)
      then show "ks_to (snap_at c' r) \<le> kc_offset c'"
        using that N(1,3,7) N(6) [of r] assms(3) by (cases "r = k") (auto simp: settled_def snap_at_def same_buffer_def sn_def)
    qed
    moreover have "kc_next c' = kc_next c + 1" using k(1) by (auto simp: new_snapshot_def)
    ultimately show ?thesis using N k(2) b(1) by (auto simp: sn_def)
  qed
  then show "kv_ok c'" "same_buffer c c'" "r < kc_next c \<Longrightarrow> snap_data c' r = snap_data c r" "kc_next c \<le> kc_next c'"
    "settled c \<Longrightarrow> settled c'" "s = Some n \<Longrightarrow> n = kc_next c \<and> n < kc_next c' \<and> snap_data c' n = Some (slots from0 to (State c))"
    by auto
qed

section \<open>Scheduled captures\<close>

text \<open>The state apart from the schedule and the snapshots.\<close>

definition same_live :: "'kv kv_cache \<Rightarrow> 'kv kv_cache \<Rightarrow> bool" where
  "same_live c c' \<longleftrightarrow> kc_buf c' = kc_buf c \<and> kc_offset c' = kc_offset c \<and> kc_step c' = kc_step c \<and>
     kc_rewound c' = kc_rewound c \<and> kc_next c \<le> kc_next c' \<and>
     (\<forall>r < kc_next c. snap_data c' r = snap_data c r) \<and> (settled c \<longrightarrow> settled c')"

lemma same_live_refl [simp]: "same_live c c"
  by (simp add: same_live_def)

lemma same_live_trans: "same_live a b \<Longrightarrow> same_live b c \<Longrightarrow> same_live a c"
  by (auto simp: same_live_def)

lemma same_live_State: "same_live c c' \<Longrightarrow> State c' = State c"
  by (simp add: same_live_def State_def)

lemma same_live_pending [simp]: "same_live c (c'\<lparr>kc_pending := p\<rparr>) = same_live c c'"
  by (simp add: same_live_def settled_def snap_at_def)

lemma lazySnapshot_live:
  assumes "kv_ok c" "0 \<le> from0" "to \<le> kc_offset c" "lazySnapshot from0 to c = (s, c')"
  shows "kv_ok c'" "same_live c c'" "kc_pending c' = kc_pending c"
  using lazySnapshot_ok [OF assms] by (auto simp: same_live_def same_buffer_def)

lemma capture_entries_ok:
  "kv_ok c \<Longrightarrow> reached \<le> kc_offset c \<Longrightarrow> capture_entries reached offs caps c = (cs, hit, c') \<Longrightarrow>
    kv_ok c' \<and> same_live c c' \<and> kc_pending c' = kc_pending c"
proof (induction reached offs caps c arbitrary: cs hit c' rule: capture_entries.induct)
  case (1 reached off offs cap caps c)
  show ?case
  proof (cases "cap = None \<and> off = reached")
    case True
    obtain s c1 where s: "lazySnapshot (pe_base (kc_pending c)) reached c = (s, c1)"
      by (cases "lazySnapshot (pe_base (kc_pending c)) reached c")
    note L = lazySnapshot_live [OF "1.prems"(1) kv_ok_state(5) [OF "1.prems"(1)] "1.prems"(2) s]
    obtain cs1 h1 where r: "capture_entries reached offs caps c1 = (cs1, h1, c')"
      using "1.prems"(3) True s by (auto split: prod.splits)
    have "reached \<le> kc_offset c1" using L(2) "1.prems"(2) by (simp add: same_live_def)
    from "1.IH"(1) [OF True s [symmetric] L(1) this r] L same_live_trans [OF L(2), of c'] show ?thesis by simp
  next
    case False
    obtain cs1 where r: "capture_entries reached offs caps c = (cs1, hit, c')"
      using "1.prems"(3) False by (auto split: prod.splits if_splits)
    from "1.IH"(2) [OF False "1.prems"(1,2) r] show ?thesis .
  qed
qed auto

lemma captureReached_ok:
  assumes "kv_ok c" "reached \<le> kc_offset c" "0 \<le> reached"
  shows "kv_ok (captureReached reached c) \<and> same_live c (captureReached reached c) \<and>
    pe_offsets (kc_pending (captureReached reached c)) = pe_offsets (kc_pending c)"
proof (cases "pe_captured (kc_pending c)")
  case None
  then show ?thesis using assms(1) by (simp add: captureReached_def)
next
  case (Some caps)
  obtain cs hit c1 where r: "capture_entries reached (pe_offsets (kc_pending c)) caps c = (cs, hit, c1)"
    by (cases "capture_entries reached (pe_offsets (kc_pending c)) caps c")
  from capture_entries_ok [OF assms(1,2) r] have c1: "kv_ok c1" "same_live c c1" "kc_pending c1 = kc_pending c" by auto
  with kv_ok_state(5) [OF c1(1)] assms(3) Some r show ?thesis by (simp add: captureReached_def)
qed

lemma capture_fold_ok:
  "kv_ok c \<Longrightarrow> \<forall>off \<in> set offs. 0 \<le> off \<and> off \<le> kc_offset c \<Longrightarrow>
    kv_ok (fold captureReached offs c) \<and> same_live c (fold captureReached offs c)"
proof (induction offs arbitrary: c)
  case (Cons off offs)
  have s: "kv_ok (captureReached off c)" "same_live c (captureReached off c)"
    using captureReached_ok [OF Cons.prems(1), of off] Cons.prems(2) by auto
  have "\<forall>x \<in> set offs. 0 \<le> x \<and> x \<le> kc_offset (captureReached off c)"
    using s(2) Cons.prems(2) by (simp add: same_live_def)
  from Cons.IH [OF s(1) this] same_live_trans [OF s(2)] show ?case by simp
qed simp

lemma captureLazy_ok:
  assumes "kv_ok c" "0 \<le> start"
  shows "kv_ok (captureLazySnapshots start (kc_offset c) c)" "same_live c (captureLazySnapshots start (kc_offset c) c)"
proof -
  have "\<forall>off \<in> set (scheduledIn start (kc_offset c) (kc_pending c)). 0 \<le> off \<and> off \<le> kc_offset c"
    using assms(2) by (auto simp: scheduledIn_def)
  from capture_fold_ok [OF assms(1) this]
  show "kv_ok (captureLazySnapshots start (kc_offset c) c)" "same_live c (captureLazySnapshots start (kc_offset c) c)"
    by (simp_all add: captureLazySnapshots_def)
qed

text \<open>The schedule in the order of the offsets: the entries behind the cursor, then the open ones.\<close>

lemma capture_entries_skip:
  "reached \<notin> set offs \<Longrightarrow> length caps = length offs \<Longrightarrow> capture_entries reached offs caps c = (caps, False, c)"
proof (induction offs arbitrary: caps)
  case (Cons off offs)
  then show ?case by (cases caps) auto
qed simp

lemma capture_entries_at:
  assumes "reached \<notin> set before" "reached \<notin> set after" "length cb = length before" "length ca = length after"
    and "lazySnapshot (pe_base (kc_pending c)) reached c = (s, c')"
  shows "capture_entries reached (before @ reached # after) (cb @ None # ca) c = (cb @ s # ca, True, c')"
  using assms
proof (induction before arbitrary: cb)
  case Nil
  then show ?case using capture_entries_skip [of reached after ca c'] by simp
next
  case (Cons off before)
  then obtain k ks where "cb = k # ks" "length ks = length before" by (cases cb) auto
  with Cons show ?case by simp
qed

lemma capture_fold_edges:
  assumes "kv_ok c" "pe_offsets (kc_pending c) = before @ todo" "distinct (before @ todo)"
    and "pe_captured (kc_pending c) = Some (cb @ replicate (length todo) None)" "length cb = length before"
    and "\<forall>off \<in> set todo. 0 \<le> off \<and> off \<le> kc_offset c"
  shows "\<exists>ns. pe_captured (kc_pending (fold captureReached todo c)) = Some (cb @ ns) \<and> length ns = length todo \<and>
    (\<forall>i < length todo. let lo = (pe_base (kc_pending c) # todo) ! i in
      (ns ! i = None \<longleftrightarrow> todo ! i \<le> lo) \<and>
      (\<forall>n. ns ! i = Some n \<longrightarrow> n < kc_next (fold captureReached todo c) \<and>
        snap_data (fold captureReached todo c) n = Some (slots lo (todo ! i) (State c))))"
  using assms
proof (induction todo arbitrary: c before cb)
  case (Cons off todo)
  obtain s c1 where s: "lazySnapshot (pe_base (kc_pending c)) off c = (s, c1)"
    by (cases "lazySnapshot (pe_base (kc_pending c)) off c")
  have off: "0 \<le> off" "off \<le> kc_offset c" using Cons.prems(6) by auto
  note L = lazySnapshot_ok [OF Cons.prems(1) kv_ok_state(5) [OF Cons.prems(1)] off(2) s]
  have pend: "kc_pending c1 = kc_pending c" using L(2) by (simp add: same_buffer_def)
  have "capture_entries off (before @ off # todo) (cb @ None # replicate (length todo) None) c =
      (cb @ s # replicate (length todo) None, True, c1)"
    by (rule capture_entries_at) (use Cons.prems(3,5) s in auto)
  then have R: "captureReached off c = c1\<lparr>kc_pending := (kc_pending c)\<lparr>pe_captured := Some ((cb @ [s]) @ replicate (length todo) None),
      pe_base := off\<rparr>\<rparr>"
    using Cons.prems(2,4) pend by (simp add: captureReached_def)
  define c2 where "c2 = captureReached off c"
  have C2: "kv_ok c2" "same_live c c2" "pe_offsets (kc_pending c2) = (before @ [off]) @ todo"
    using captureReached_ok [OF Cons.prems(1) off(2,1)] Cons.prems(2) by (simp_all add: c2_def)
  have cap2: "pe_captured (kc_pending c2) = Some ((cb @ [s]) @ replicate (length todo) None)" "pe_base (kc_pending c2) = off"
    by (simp_all add: c2_def R)
  have "distinct ((before @ [off]) @ todo)" "length (cb @ [s]) = length (before @ [off])"
    "\<forall>x \<in> set todo. 0 \<le> x \<and> x \<le> kc_offset c2"
    using Cons.prems(3,5,6) C2(2) by (auto simp: same_live_def)
  from Cons.IH [OF C2(1,3) this(1) cap2(1) this(2,3)] obtain ns where
    N: "pe_captured (kc_pending (fold captureReached todo c2)) = Some ((cb @ [s]) @ ns)" "length ns = length todo"
      "\<forall>i < length todo. let lo = (off # todo) ! i in
        (ns ! i = None \<longleftrightarrow> todo ! i \<le> lo) \<and>
        (\<forall>n. ns ! i = Some n \<longrightarrow> n < kc_next (fold captureReached todo c2) \<and>
          snap_data (fold captureReached todo c2) n = Some (slots lo (todo ! i) (State c2)))"
    unfolding cap2(2) by blast
  have live: "same_live c2 (fold captureReached todo c2)"
    using capture_fold_ok [OF C2(1), of todo] \<open>\<forall>x \<in> set todo. 0 \<le> x \<and> x \<le> kc_offset c2\<close> by simp
  have first: "n < kc_next (fold captureReached todo c2) \<and>
      snap_data (fold captureReached todo c2) n = Some (slots (pe_base (kc_pending c)) off (State c))" if "s = Some n" for n
  proof -
    from L(7) [OF that] have "n < kc_next c1" "snap_data c1 n = Some (slots (pe_base (kc_pending c)) off (State c))" by auto
    moreover have "kc_next c2 = kc_next c1" "snap_data c2 n = snap_data c1 n" by (simp_all add: c2_def R)
    ultimately show ?thesis using live by (auto simp: same_live_def)
  qed
  show ?case
  proof (intro exI [of _ "s # ns"] conjI allI impI)
    show "pe_captured (kc_pending (fold captureReached (off # todo) c)) = Some (cb @ s # ns)" using N(1) by (simp add: c2_def)
    show "length (s # ns) = length (off # todo)" using N(2) by simp
    fix i assume i: "i < length (off # todo)"
    show "let lo = (pe_base (kc_pending c) # off # todo) ! i in
      ((s # ns) ! i = None \<longleftrightarrow> (off # todo) ! i \<le> lo) \<and>
      (\<forall>n. (s # ns) ! i = Some n \<longrightarrow> n < kc_next (fold captureReached (off # todo) c) \<and>
        snap_data (fold captureReached (off # todo) c) n = Some (slots lo ((off # todo) ! i) (State c)))"
    proof (cases i)
      case 0
      with first L(6) show ?thesis by (simp add: c2_def)
    next
      case (Suc j)
      with N(3) i same_live_State [OF C2(2)] show ?thesis by (simp add: c2_def)
    qed
  qed
qed simp

section \<open>Every operation keeps the invariant and the snapshots\<close>

lemma kv_next_data: "kv_ok c \<Longrightarrow> snap_data c s \<noteq> None \<Longrightarrow> s < kc_next c"
  using kv_okD [of c s] by (cases "kc_heap c s") (auto simp: snap_data_def snap_ok_def)

lemma Update_ok:
  assumes "kv_ok c"
  shows "\<exists>c'. Update kv c = Some c' \<and> kv_ok c' \<and> State c' = State c @ kv \<and> kc_offset c' = kc_offset c + int (length kv) \<and>
    (settled c \<longrightarrow> settled c') \<and>
    (kc_rewound c \<or> settled c \<longrightarrow> (\<forall>s. snap_data c s \<noteq> None \<longrightarrow> snap_data c' s = snap_data c s))"
proof -
  from appendKV_keeps [OF assms, of kv] obtain c1 where A: "appendKV kv c = Some c1" "kv_ok c1" "State c1 = State c @ kv"
    "kc_offset c1 = kc_offset c + int (length kv)" "kc_next c1 = kc_next c" "settled c \<longrightarrow> settled c1"
    "kc_rewound c \<or> settled c \<longrightarrow> (\<forall>s. snap_data c1 s = snap_data c s)" by blast
  note L = captureLazy_ok [OF A(2) kv_ok_state(2) [OF assms]]
  define c2 where "c2 = captureLazySnapshots (kc_offset c) (kc_offset c1) c1"
  have "snap_data c2 s = snap_data c s" if "kc_rewound c \<or> settled c" "snap_data c s \<noteq> None" for s
    using that A(5,7) kv_next_data [OF assms that(2)] L(2) by (auto simp: same_live_def c2_def)
  with A L same_live_State [OF L(2)] show ?thesis
    by (intro exI [of _ c2]) (auto simp: Update_def same_live_def c2_def)
qed

lemma Restore_live:
  assumes "kv_ok c" "0 \<le> target" "target \<le> kc_offset c"
  shows "Restore None target c = Some (True, c\<lparr>kc_offset := target, kc_rewound := True\<rparr>)"
    and "kv_ok (c\<lparr>kc_offset := target, kc_rewound := True\<rparr>)"
    and "State (c\<lparr>kc_offset := target, kc_rewound := True\<rparr>) = take (nat target) (State c)"
proof -
  show "Restore None target c = Some (True, c\<lparr>kc_offset := target, kc_rewound := True\<rparr>)" using assms by (simp add: Restore_def)
  have "fits target (kc_buf c)" using kv_ok_state(4) [OF assms(1)] assms by (auto simp: fits_def split: option.splits)
  then show "kv_ok (c\<lparr>kc_offset := target, kc_rewound := True\<rparr>)"
    using assms by (simp add: kv_ok_def snap_ok_def cong: option.case_cong)
  show "State (c\<lparr>kc_offset := target, kc_rewound := True\<rparr>) = take (nat target) (State c)"
    using assms by (simp add: State_def slots_def min_def)
qed

text \<open>A move of the offset inside the buffer; what is live changes, the snapshots do not.\<close>

lemma move_offset_ok:
  assumes "kv_ok c" "0 \<le> target" "fits target (kc_buf c)"
  shows "kv_ok (c\<lparr>kc_offset := target\<rparr>)" "kv_ok (c\<lparr>kc_offset := target, kc_rewound := r\<rparr>)"
    and "snap_data (c\<lparr>kc_offset := target, kc_rewound := r\<rparr>) s = snap_data c s"
  using assms by (simp_all add: kv_ok_def snap_ok_def snap_data_def cong: option.case_cong)

lemma Restore_snapshot:
  assumes "kv_ok c" "kc_heap c s = Some sn" "0 \<le> target" "target \<le> ks_to sn" "ks_from sn \<le> kc_offset c"
  shows "\<exists>c' d. Restore (Some s) target c = Some (True, c') \<and> kv_ok c' \<and> kc_offset c' = target \<and>
    snap_data c s = Some d \<and> State c' = take (nat target) (take (nat (ks_from sn)) (State c) @ d) \<and>
    (\<forall>r. snap_data c' r = snap_data c r)"
proof (cases "ks_data sn")
  case None
  with kv_okD [OF assms(1,2)] obtain b where b: "kc_buf c = Some b" "0 \<le> ks_from sn" "ks_from sn < ks_to sn"
    "ks_to sn \<le> int (length b)" by (auto simp: snap_ok_def)
  define c' where "c' = c\<lparr>kc_offset := target, kc_rewound := True\<rparr>"
  have "Restore (Some s) target c = Some (True, c')"
    using assms(2-5) None by (simp add: Restore_def c'_def min_def)
  moreover have "fits target (kc_buf c)" using b assms(4) by (simp add: fits_def)
  note M = move_offset_ok(2,3) [OF assms(1,3) this, where r = True, folded c'_def]
  moreover have "take (nat (ks_from sn)) (State c) = take (nat (ks_from sn)) b"
    using assms(5) b by (simp add: State_def slots_def buf_slots_def min_def)
  then have "take (nat (ks_from sn)) (State c) @ slots (ks_from sn) (ks_to sn) b = take (nat (ks_to sn)) b"
    using b(2,3) by (simp add: slots_def nat_diff_distrib' flip: take_add)
  then have "State c' = take (nat target) (take (nat (ks_from sn)) (State c) @ slots (ks_from sn) (ks_to sn) b)"
    using assms(4) b(1) by (simp add: State_def slots_def buf_slots_def c'_def min_def)
  ultimately show ?thesis using None assms(2) b(1)
    by (intro exI [of _ c'] exI [of _ "slots (ks_from sn) (ks_to sn) b"]) (simp add: snap_data_def [of c s], simp add: c'_def)
next
  case (Some d)
  with kv_okD [OF assms(1,2)] have d: "0 \<le> ks_from sn" "ks_from sn < ks_to sn" "int (length d) = ks_to sn - ks_from sn"
    by (auto simp: snap_ok_def)
  define c0 where "c0 = c\<lparr>kc_offset := ks_from sn, kc_rewound := True\<rparr>"
  have f0: "fits (ks_from sn) (kc_buf c)" using kv_ok_state(4) [OF assms(1)] assms(5) d(1) by (auto simp: fits_def split: option.splits)
  note M0 = move_offset_ok(2,3) [OF assms(1) d(1) f0, where r = True, folded c0_def]
  have "kc_rewound c0" by (simp add: c0_def)
  with appendKV_keeps [OF M0(1), of d] obtain c1 where A: "appendKV d c0 = Some c1" "kv_ok c1" "State c1 = State c0 @ d"
    "kc_offset c1 = ks_to sn" "\<forall>s. snap_data c1 s = snap_data c s"
    using d(3) M0(2) by (auto simp: c0_def)
  define c' where "c' = (if target < kc_offset c1 then c1\<lparr>kc_offset := target\<rparr> else c1)"
  have t: "kc_offset c' = target" "c' = c1\<lparr>kc_offset := target\<rparr>" using A(4) assms(4) by (auto simp: c'_def)
  have R: "Restore (Some s) target c = Some (True, c')"
    using assms(2-5) Some A(1) by (simp add: Restore_def copyOut_def snap_at_def c0_def c'_def)
  have "fits target (kc_buf c1)" using kv_ok_state(4) [OF A(2)] A(4) assms(3,4) d by (auto simp: fits_def split: option.splits)
  then have "kv_ok c'" unfolding t(2) by (rule move_offset_ok(1) [OF A(2) assms(3)])
  moreover have "State c0 = take (nat (ks_from sn)) (State c)"
    using assms(5) by (simp add: State_def slots_def c0_def min_def)
  moreover have "State c' = take (nat target) (State c1)"
    using A(4) assms(4) by (simp add: State_def slots_def t(2) min_def)
  moreover have "snap_data c s = Some d" using Some assms(2) by (simp add: snap_data_def)
  moreover have "\<forall>r. snap_data c' r = snap_data c r" unfolding t(2) using A(5) by simp
  ultimately show ?thesis using R t(1) unfolding A(3) by auto
qed

lemma Restore_law:
  assumes "kv_ok c" "Restore s target c = Some (ok, c')"
  shows "kv_ok c' \<and> kc_offset c' = (if ok then target else kc_offset c)"
proof (cases s)
  case None
  with assms Restore_live(2) [OF assms(1), of target] show ?thesis by (auto simp: Restore_def split: if_splits)
next
  case (Some k)
  show ?thesis
  proof (cases "0 \<le> target \<and> (\<exists>sn. kc_heap c k = Some sn \<and> target \<le> ks_to sn \<and> ks_from sn \<le> kc_offset c)")
    case True
    then obtain sn where "kc_heap c k = Some sn" "0 \<le> target" "target \<le> ks_to sn" "ks_from sn \<le> kc_offset c" by blast
    from Restore_snapshot [OF assms(1) this] assms(2) Some show ?thesis by auto
  next
    case False
    with assms Some have "ok = False \<and> c' = c" by (auto simp: Restore_def split: if_splits option.splits)
    with assms(1) show ?thesis by simp
  qed
qed

lemma Free_ok:
  assumes "kv_ok c"
  shows "\<exists>c'. Free c = Some c' \<and> kv_ok c' \<and> kc_offset c' = 0 \<and> State c' = [] \<and> settled c' \<and>
    (\<forall>s. snap_data c' s = snap_data c s)"
proof -
  from copy_out_all_lazy [OF assms kv_ok_state(3) [OF assms] subset_refl] obtain c1 where
    C: "copy_out_all (kc_lazy c) c = Some c1" "kv_ok c1" "set (kc_lazy c1) = {}" "\<forall>r. snap_data c1 r = snap_data c r" by auto
  define c' where "c' = c1\<lparr>kc_buf := None, kc_offset := 0, kc_rewound := False, kc_pending := no_pending\<rparr>"
  have own: "ks_data sn \<noteq> None" if "kc_heap c1 s = Some sn" for s sn
    using kv_okD [OF C(2) that] C(3) by (cases "ks_data sn") (simp_all add: snap_ok_def)
  have "kv_ok c'"
  proof (rule kv_okI)
    fix s
    show "snap_ok c' s sn" if "kc_heap c' s = Some sn" for sn
    proof -
      have h: "kc_heap c1 s = Some sn" using that by (simp add: c'_def)
      from kv_okD [OF C(2) h] own [OF h] show ?thesis by (auto simp: snap_ok_def c'_def)
    qed
    show "\<exists>sn. kc_heap c' s = Some sn \<and> ks_data sn = None" if "s \<in> set (kc_lazy c')"
      using that C(3) by (simp add: c'_def)
  qed (use kv_ok_state [OF C(2)] C(3) in \<open>simp_all add: c'_def no_pending_def fits_def\<close>)
  moreover have "snap_data c' s = snap_data c1 s" for s
    using own [of s] by (auto simp: snap_data_def c'_def split: option.splits)
  ultimately show ?thesis using C
    by (intro exI [of _ c']) (auto simp: Free_def c'_def State_def slots_def settled_def)
qed

lemma Take_ok:
  assumes "kv_ok c" "TakeSnapshots c = (ss, c')"
  shows "kv_ok c'" "kc_offset c' = kc_offset c" "State c' = State c" "snap_data c' s = snap_data c s" "settled c' = settled c"
  using assms kv_ok_state(5) [OF assms(1)]
  by (auto simp: TakeSnapshots_def pending_take_def State_def settled_def snap_at_def)

lemma Prepare_ok:
  assumes "kv_ok c" "PrepareSnapshots offs c = Some c'"
  shows "kv_ok c'" "c' = c\<lparr>kc_pending := \<lparr>pe_offsets = offs, pe_captured = Some (replicate (length offs) None), pe_base = kc_offset c\<rparr>\<rparr>"
    and "\<forall>off \<in> set offs. kc_offset c \<le> off" "ascending_from offs"
proof -
  show eq: "c' = c\<lparr>kc_pending := \<lparr>pe_offsets = offs, pe_captured = Some (replicate (length offs) None), pe_base = kc_offset c\<rparr>\<rparr>"
    using assms(2) by (auto simp: PrepareSnapshots_def pending_prepare_def split: if_splits)
  show "kv_ok c'" unfolding eq using assms(1) kv_ok_state(2,5) [OF assms(1)] by simp
  show "\<forall>off \<in> set offs. kc_offset c \<le> off" "ascending_from offs"
    using assms(2) by (auto simp: PrepareSnapshots_def pending_prepare_def list_ex_iff split: if_splits)
qed

text \<open>Dividing a snapshot divides its data; merging two adjacent ones joins it.\<close>

lemma slots_split:
  assumes "a \<le> b" "b \<le> c" "0 \<le> a"
  shows "slots a b xs @ slots b c xs = slots a c xs"
proof -
  have "nat b = nat (b - a) + nat a" "nat (c - a) = nat (b - a) + nat (c - b)" using assms by auto
  then show ?thesis by (simp add: slots_def take_add add.commute)
qed

lemma Split_ok:
  assumes "kv_ok c" "kc_heap c s = Some sn" "ks_from sn < at" "at < ks_to sn"
  shows "\<exists>p ch c' d dp dc. Split (Some s) at c = Some ((Some p, Some ch), c') \<and> kv_ok c' \<and> same_buffer c c' \<and>
    snap_data c s = Some d \<and> snap_data c' p = Some dp \<and> snap_data c' ch = Some dc \<and> d = dp @ dc \<and> p \<noteq> ch \<and>
    ks_from (snap_at c' p) = ks_from sn \<and> ks_to (snap_at c' p) = at \<and>
    ks_from (snap_at c' ch) = at \<and> ks_to (snap_at c' ch) = ks_to sn \<and> kc_heap c' p \<noteq> None \<and> kc_heap c' ch \<noteq> None \<and>
    (\<forall>r. r \<noteq> s \<longrightarrow> kc_heap c r \<noteq> None \<longrightarrow> snap_data c' r = snap_data c r)"
proof -
  note fits = data_fits_ok [OF assms(1,2)]
  have sn: "s < kc_next c" using kv_okD [OF assms(1,2)] by (simp add: snap_ok_def)
  have old: "r < kc_next c" if "kc_heap c r \<noteq> None" for r using that kv_okD [OF assms(1), of r] by (auto simp: snap_ok_def)
  show ?thesis
  proof (cases "ks_data sn")
    case None
    with fits obtain b where b: "kc_buf c = Some b" "0 \<le> ks_from sn" "ks_to sn \<le> int (length b)" by (auto simp: data_fits_def)
    define pn where "pn = (\<lparr>ks_data = None, ks_from = ks_from sn, ks_to = at, ks_hook = False\<rparr> :: 'a kv_snapshot)"
    define cn where "cn = (\<lparr>ks_data = None, ks_from = at, ks_to = ks_to sn, ks_hook = False\<rparr> :: 'a kv_snapshot)"
    obtain p c1 where c1: "new_snapshot pn c = (p, c1)" by (cases "new_snapshot pn c")
    obtain ch c2 where c2: "new_snapshot cn c1 = (ch, c2)" by (cases "new_snapshot cn c1")
    note P = new_snapshot_ok [OF assms(1) _ c1]
    have pf: "data_fits c pn" using assms(3,4) b by (simp add: data_fits_def pn_def)
    have "data_fits c cn" using assms(3,4) b by (simp add: data_fits_def cn_def)
    then have cf: "data_fits c1 cn" using data_fits_same [OF P(3) [OF pf]] by simp
    note C = new_snapshot_ok [OF P(2) [OF pf] cf c2]
    have next1: "kc_next c1 = kc_next c + 1" using c1 by (auto simp: new_snapshot_def)
    have ids: "p \<noteq> ch" "s \<noteq> p" "s \<noteq> ch" "p = kc_next c" "ch = kc_next c + 1"
      using P(1) [OF pf] C(1) next1 sn by auto
    define c' where "c' = closeSnapshot s c2"
    note X = closeSnapshot_ok [OF C(2), of s, folded c'_def]
    have "Split (Some s) at c = Some ((Some p, Some ch), c')"
      using assms None c1 c2 by (simp add: Split_def Let_def pn_def cn_def c'_def)
    moreover have "same_buffer c c'" by (rule same_buffer_trans [OF P(3) [OF pf] same_buffer_trans [OF C(3) X(2)]])
    moreover have "kc_buf c1 = Some b" using P(3) [OF pf] b(1) by (simp add: same_buffer_def)
    moreover have "snap_data c s = Some (slots (ks_from sn) at b @ slots at (ks_to sn) b)"
      using None assms(2) b(1,2) slots_split [of "ks_from sn" at "ks_to sn" b] assms(3,4) by (simp add: snap_data_def)
    moreover have "snap_data c' r = snap_data c r" if "r \<noteq> s" "kc_heap c r \<noteq> None" for r
      using that old [OF that(2)] ids X(3) [of r] C(5) [of r] P(5) [OF pf, of r] by simp
    moreover have "kc_heap c' p = Some pn" "kc_heap c' ch = Some cn"
      using ids X(4) C(6) [of p] C(7) P(7) [OF pf] by auto
    ultimately show ?thesis
      using X(1) X(3) [of p] X(3) [of ch] C(4) C(5) [of p] P(4) [OF pf] ids(1-3) b(1)
      by (intro exI [of _ p] exI [of _ ch] exI [of _ c']) (simp add: pn_def cn_def snap_at_def)
  next
    case (Some d)
    with fits have d: "0 \<le> ks_from sn" "int (length d) = ks_to sn - ks_from sn" by (auto simp: data_fits_def)
    define i where "i = at - ks_from sn"
    define n where "n = ks_to sn - ks_from sn"
    define c0 where "c0 = closeSnapshot s c"
    note X = closeSnapshot_ok [OF assms(1), of s, folded c0_def]
    define pn where "pn = \<lparr>ks_data = Some (slots 0 i d), ks_from = ks_from sn, ks_to = at, ks_hook = False\<rparr>"
    define cn where "cn = \<lparr>ks_data = Some (slots i n d), ks_from = at, ks_to = ks_to sn, ks_hook = False\<rparr>"
    obtain p c1 where c1: "new_snapshot pn c0 = (p, c1)" by (cases "new_snapshot pn c0")
    obtain ch c' where c2: "new_snapshot cn c1 = (ch, c')" by (cases "new_snapshot cn c1")
    have pf: "data_fits c0 pn" and cf: "data_fits c1 cn"
      using assms(3,4) d slots_length [of 0 i d] slots_length [of i n d] by (simp_all add: data_fits_def pn_def cn_def i_def n_def)
    note P = new_snapshot_ok [OF X(1) pf c1]
    note C = new_snapshot_ok [OF P(2) cf c2]
    have nx: "kc_next c0 = kc_next c" by (simp add: c0_def closeSnapshot_def dropLazySnapshot_def)
    have next1: "kc_next c1 = kc_next c0 + 1" using c1 by (auto simp: new_snapshot_def)
    have ids: "p \<noteq> ch" "p = kc_next c" "ch = kc_next c + 1" using P(1) C(1) next1 nx by auto
    have "Split (Some s) at c = Some ((Some p, Some ch), c')"
      using assms Some c1 c2 by (simp add: Split_def Let_def pn_def cn_def c0_def i_def n_def)
    moreover have "same_buffer c c'" by (rule same_buffer_trans [OF X(2) same_buffer_trans [OF P(3) C(3)]])
    moreover have "snap_data c s = Some (slots 0 i d @ slots i n d)"
      using Some assms(2-4) d slots_split [of 0 i n d] by (simp add: snap_data_def i_def n_def slots_def)
    moreover have "snap_data c' r = snap_data c r" if "r \<noteq> s" "kc_heap c r \<noteq> None" for r
      using that old [OF that(2)] ids X(3) [of r] C(5) [of r] P(5) [of r] by simp
    moreover have "kc_heap c' p = Some pn" "kc_heap c' ch = Some cn" using ids C(6) [of p] C(7) P(7) by auto
    ultimately show ?thesis
      using C(2,4) C(5) [of p] P(4) ids(1)
      by (intro exI [of _ p] exI [of _ ch] exI [of _ c']) (simp add: pn_def cn_def snap_at_def)
  qed
qed

lemma Merge_ok:
  assumes "kv_ok c" "kc_heap c p = Some ps" "kc_heap c ch = Some cs" "ks_to ps = ks_from cs"
  shows "\<exists>m c' dp dc. Merge (Some p) (Some ch) c = Some (Some m, c') \<and> kv_ok c' \<and> same_buffer c c' \<and>
    snap_data c p = Some dp \<and> snap_data c ch = Some dc \<and> snap_data c' m = Some (dp @ dc) \<and>
    ks_from (snap_at c' m) = ks_from ps \<and> ks_to (snap_at c' m) = ks_to cs \<and>
    (\<forall>r. r \<noteq> p \<longrightarrow> r \<noteq> ch \<longrightarrow> kc_heap c r \<noteq> None \<longrightarrow> snap_data c' r = snap_data c r)"
proof -
  note pf = data_fits_ok [OF assms(1,2)] and cf = data_fits_ok [OF assms(1,3)]
  have old: "r < kc_next c" if "kc_heap c r \<noteq> None" for r using that kv_okD [OF assms(1), of r] by (auto simp: snap_ok_def)
  have pc: "p \<noteq> ch"
  proof
    assume "p = ch"
    with assms(2,3) have "ps = cs" by simp
    with assms(4) pf show False by (simp add: data_fits_def)
  qed
  show ?thesis
  proof (cases "ks_data ps = None \<and> ks_data cs = None")
    case True
    with pf cf assms(4) obtain b where b: "kc_buf c = Some b" "ks_to cs \<le> int (length b)" "0 \<le> ks_from ps"
      "ks_from ps < ks_to ps" "ks_from cs < ks_to cs" by (auto simp: data_fits_def)
    define mn where "mn = (\<lparr>ks_data = None, ks_from = ks_from ps, ks_to = ks_to cs, ks_hook = False\<rparr> :: 'a kv_snapshot)"
    obtain m c1 where c1: "new_snapshot mn c = (m, c1)" by (cases "new_snapshot mn c")
    have mf: "data_fits c mn" using b assms(4) by (simp add: data_fits_def mn_def)
    note M = new_snapshot_ok [OF assms(1) mf c1]
    define c2 where "c2 = closeSnapshot p c1"
    note X = closeSnapshot_ok [OF M(2), of p, folded c2_def]
    define c' where "c' = closeSnapshot ch c2"
    note Y = closeSnapshot_ok [OF X(1), of ch, folded c'_def]
    have ids: "m \<noteq> p" "m \<noteq> ch" using M(1) old [of p] old [of ch] assms(2,3) by auto
    have "Merge (Some p) (Some ch) c = Some (Some m, c')"
      using True assms(2-4) c1 by (simp add: Merge_def mn_def c'_def c2_def)
    moreover have "same_buffer c c'" by (rule same_buffer_trans [OF M(3) same_buffer_trans [OF X(2) Y(2)]])
    moreover have "snap_data c p = Some (slots (ks_from ps) (ks_to ps) b)" "snap_data c ch = Some (slots (ks_to ps) (ks_to cs) b)"
      using True assms(2-4) b(1) by (simp_all add: snap_data_def)
    moreover have "snap_data c' m = Some (slots (ks_from ps) (ks_to ps) b @ slots (ks_to ps) (ks_to cs) b)"
      using ids X(3) [of m] Y(3) [of m] M(4) b assms(4) slots_split [of "ks_from ps" "ks_to ps" "ks_to cs" b] by (simp add: mn_def)
    moreover have "snap_data c' r = snap_data c r" if "r \<noteq> p" "r \<noteq> ch" "kc_heap c r \<noteq> None" for r
      using that old [OF that(3)] M(1) X(3) [of r] Y(3) [of r] M(5) [of r] by simp
    moreover have "kc_heap c' m = Some mn" using ids X(4) Y(4) M(7) by simp
    ultimately show ?thesis using Y(1)
      by (intro exI [of _ m] exI [of _ c'] exI [of _ "slots (ks_from ps) (ks_to ps) b"] exI [of _ "slots (ks_to ps) (ks_to cs) b"])
        (simp add: mn_def snap_at_def)
  next
    case False
    have step: "\<exists>c1 d. copyOut r a = Some c1 \<and> kv_ok c1 \<and> same_buffer a c1 \<and> (\<forall>s. snap_data c1 s = snap_data a s) \<and>
        (\<forall>s. s \<noteq> r \<longrightarrow> kc_heap c1 s = kc_heap a s) \<and> kc_next c1 = kc_next a \<and>
        (\<exists>rn'. kc_heap c1 r = Some rn' \<and> ks_data rn' = Some d \<and> ks_from rn' = ks_from rn \<and> ks_to rn' = ks_to rn) \<and>
        snap_data a r = Some d" if "kv_ok a" "kc_heap a r = Some rn" for a r and rn :: "'a kv_snapshot"
    proof (cases "ks_data rn")
      case (Some d)
      with that show ?thesis by (intro exI [of _ a] exI [of _ d]) (auto simp: copyOut_def snap_data_def)
    next
      case None
      with kv_okD [OF that] have "r \<in> set (kc_lazy a)" by (simp add: snap_ok_def)
      from copyOut_lazy [OF that(1) this] obtain c1 where c1: "copyOut r a = Some c1" "kv_ok c1" "same_buffer a c1"
        "\<forall>s. snap_data c1 s = snap_data a s" "kc_next c1 = kc_next a" by (auto simp: same_buffer_def)
      from None kv_okD [OF that] obtain b where b: "kc_buf a = Some b" by (auto simp: snap_ok_def)
      have "kc_heap c1 = (kc_heap a)(r \<mapsto> rn\<lparr>ks_data := Some (slots (ks_from rn) (ks_to rn) b), ks_hook := False\<rparr>)"
        using c1(1) that(2) None b by (auto simp: copyOut_def Let_def dropLazySnapshot_def split: if_splits)
      with c1 that(2) None b show ?thesis
        by (intro exI [of _ c1] exI [of _ "slots (ks_from rn) (ks_to rn) b"]) (simp add: snap_data_def [of a])
    qed
    from step [OF assms(1,2)] obtain c1 dp p1 where c1: "copyOut p c = Some c1" "kv_ok c1" "same_buffer c c1"
      "\<forall>s. snap_data c1 s = snap_data c s" "\<forall>s. s \<noteq> p \<longrightarrow> kc_heap c1 s = kc_heap c s" "kc_next c1 = kc_next c"
      "kc_heap c1 p = Some p1" "ks_data p1 = Some dp" "ks_from p1 = ks_from ps" "ks_to p1 = ks_to ps" "snap_data c p = Some dp"
      by blast
    have "kc_heap c1 ch = Some cs" using c1(5) pc assms(3) by simp
    from step [OF c1(2) this] obtain c2 dc q1 where c2: "copyOut ch c1 = Some c2" "kv_ok c2" "same_buffer c1 c2"
      "\<forall>s. snap_data c2 s = snap_data c1 s" "\<forall>s. s \<noteq> ch \<longrightarrow> kc_heap c2 s = kc_heap c1 s" "kc_next c2 = kc_next c1"
      "kc_heap c2 ch = Some q1" "ks_data q1 = Some dc" "ks_from q1 = ks_from cs" "ks_to q1 = ks_to cs" "snap_data c1 ch = Some dc"
      by blast
    have p2: "kc_heap c2 p = Some p1" using c2(5) pc c1(7) by simp
    note X = closeSnapshot_ok [OF c2(2), of p]
    define c3 where "c3 = closeSnapshot ch (closeSnapshot p c2)"
    note Y = closeSnapshot_ok [OF X(1), of ch, folded c3_def]
    define mn where "mn = \<lparr>ks_data = Some (dp @ dc), ks_from = ks_from ps, ks_to = ks_to cs, ks_hook = False\<rparr>"
    obtain m c' where m: "new_snapshot mn c3 = (m, c')" by (cases "new_snapshot mn c3")
    have "data_fits c3 mn"
      using data_fits_ok [OF c2(2) p2] data_fits_ok [OF c2(2,7)] c1(8-10) c2(8-10) assms(4) by (simp add: data_fits_def mn_def)
    note M = new_snapshot_ok [OF Y(1) this m]
    have nx: "kc_next c3 = kc_next c" using c1(6) c2(6) by (simp add: c3_def closeSnapshot_def dropLazySnapshot_def)
    have "Merge (Some p) (Some ch) c = Some (Some m, c')"
      using False assms(2-4) c1(1,8) c2(1,7,8) p2 m by (auto simp: Merge_def mn_def c3_def snap_at_def)
    moreover have "same_buffer c c'"
      by (rule same_buffer_trans [OF c1(3) same_buffer_trans [OF c2(3) same_buffer_trans [OF X(2) same_buffer_trans [OF Y(2) M(3)]]]])
    moreover have "snap_data c ch = Some dc" using c2(11) c1(4) by simp
    moreover have "snap_data c' r = snap_data c r" if "r \<noteq> p" "r \<noteq> ch" "kc_heap c r \<noteq> None" for r
      using that old [OF that(3)] nx M(1) X(3) [of r] Y(3) [of r] M(5) [of r] c1(4) c2(4) by simp
    ultimately show ?thesis using M(2,4,7) c1(11)
      by (intro exI [of _ m] exI [of _ c'] exI [of _ dp] exI [of _ dc]) (simp add: mn_def snap_at_def)
  qed
qed

section \<open>The cache behind the interface\<close>

text \<open>A snapshot is known while it is not closed; only closing it changes that.\<close>

definition kv_live :: "'kv kv_cache \<Rightarrow> nat \<Rightarrow> bool" where
  "kv_live c s \<longleftrightarrow> kc_heap c s \<noteq> None"

lemma copyOut_live: "copyOut s c = Some c' \<Longrightarrow> kv_live c x \<Longrightarrow> kv_live c' x"
  by (auto simp: copyOut_def kv_live_def dropLazySnapshot_def Let_def split: option.splits if_splits)

lemma copy_out_all_live: "copy_out_all ss c = Some c' \<Longrightarrow> kv_live c x \<Longrightarrow> kv_live c' x"
  by (induction ss arbitrary: c) (auto split: option.splits dest: copyOut_live)

lemma appendKV_live:
  assumes "appendKV kv c = Some c'" "kv_live c x"
  shows "kv_live c' x"
proof (cases "kc_rewound c")
  case True
  with assms(1) obtain c1 where c1: "copy_out_all (overlapping (kc_offset c) (kc_offset c + int (length kv)) c) c = Some c1"
    "kc_heap c' = kc_heap c1"
    by (auto simp: appendKV_def Let_def split: option.splits)
  with copy_out_all_live [OF c1(1) assms(2)] show ?thesis by (simp add: kv_live_def)
next
  case False
  with assms show ?thesis by (auto simp: appendKV_def Let_def kv_live_def)
qed

lemma Restore_keeps_live:
  assumes "Restore s target c = Some (ok, c')" "kv_live c x"
  shows "kv_live c' x"
proof -
  consider "kc_heap c' = kc_heap c"
    | k c1 kv d c2 where "copyOut k c = Some c1" "appendKV d (c1\<lparr>kc_offset := kv, kc_rewound := True\<rparr>) = Some c2" "kc_heap c' = kc_heap c2"
    using assms(1) by (auto simp: Restore_def split: option.splits if_splits)
  then show ?thesis
  proof cases
    case 2
    have "kv_live (c1\<lparr>kc_offset := kv, kc_rewound := True\<rparr>) x"
      using copyOut_live [OF 2(1) assms(2)] by (simp add: kv_live_def)
    from appendKV_live [OF 2(2) this] 2(3) show ?thesis by (simp add: kv_live_def)
  qed (use assms(2) in \<open>simp add: kv_live_def\<close>)
qed

lemma Restore_returns:
  assumes "kv_ok c" "\<And>x. s = Some x \<Longrightarrow> kv_live c x"
  shows "Restore s target c \<noteq> None"
proof (cases s)
  case None
  then show ?thesis by (simp add: Restore_def del: not_None_eq)
next
  case (Some k)
  with assms(2) obtain sn where sn: "kc_heap c k = Some sn" by (auto simp: kv_live_def)
  show ?thesis
  proof (cases "0 \<le> target \<and> target \<le> ks_to sn \<and> ks_from sn \<le> kc_offset c")
    case True
    with Restore_snapshot [OF assms(1) sn, of target] Some show ?thesis by auto
  next
    case False
    with Some sn show ?thesis by (auto simp: Restore_def)
  qed
qed

lemma Free_keeps_live: "Free c = Some c' \<Longrightarrow> kv_live c x \<Longrightarrow> kv_live c' x"
  by (auto simp: Free_def kv_live_def dest: copy_out_all_live [unfolded kv_live_def])

lemma Snapshot_live: "Snapshot from0 c = (s, c') \<Longrightarrow> kv_live c x \<or> s = Some x \<Longrightarrow> kv_live c' x"
  by (auto simp: Snapshot_def lazySnapshot_def new_snapshot_def kv_live_def split: if_splits)

definition kv_ops :: "(('kv :: zero) kv_cache, nat) cache_ops" where
  "kv_ops = \<lparr>co_offset = kc_offset,
     co_restore = (\<lambda>c s target. Restore s target c),
     co_free = Free,
     co_snapshot = (\<lambda>c from0. Snapshot from0 c),
     co_prepare = (\<lambda>c offs. PrepareSnapshots offs c),
     co_take = TakeSnapshots\<rparr>"

interpretation kv: layer_cache kv_ops kv_ok kv_live
proof
  fix c c' :: "('a :: zero) kv_cache" and s :: "nat option" and target from0 :: int and ok
  assume valid: "kv_ok c"
  show "0 \<le> co_offset kv_ops c" using kv_ok_state(2) [OF valid] by (simp add: kv_ops_def)
  show "kv_ok c' \<and> co_offset kv_ops c' = (if ok then target else co_offset kv_ops c) \<and> (\<forall>x. kv_live c x \<longrightarrow> kv_live c' x)"
    if "co_restore kv_ops c s target = Some (ok, c')"
    using that Restore_law [OF valid, of s target ok c'] Restore_keeps_live [of s target c ok c'] by (simp add: kv_ops_def)
  show "co_restore kv_ops c s target \<noteq> None" if "\<And>x. s = Some x \<Longrightarrow> kv_live c x"
    using Restore_returns [OF valid that] by (simp add: kv_ops_def)
  show "\<exists>c'. co_free kv_ops c = Some c' \<and> kv_ok c' \<and> co_offset kv_ops c' = 0 \<and> (\<forall>x. kv_live c x \<longrightarrow> kv_live c' x)"
    using Free_ok [OF valid] Free_keeps_live by (auto simp: kv_ops_def)
  show "kv_ok c' \<and> co_offset kv_ops c' = co_offset kv_ops c \<and> (\<forall>x. kv_live c x \<or> s = Some x \<longrightarrow> kv_live c' x)"
    if "0 \<le> from0" "co_snapshot kv_ops c from0 = (s, c')"
  proof -
    have S: "Snapshot from0 c = (s, c')" using that(2) by (simp add: kv_ops_def)
    then have "kv_ok c'" using lazySnapshot_ok(1) [OF valid that(1) order_refl] by (simp add: Snapshot_def)
    moreover have "kc_offset c' = kc_offset c"
      using S by (auto simp: Snapshot_def lazySnapshot_def new_snapshot_def split: if_splits)
    ultimately show ?thesis using Snapshot_live [OF S] by (simp add: kv_ops_def)
  qed
  show "kv_ok (snd (co_take kv_ops c))" "co_offset kv_ops (snd (co_take kv_ops c)) = co_offset kv_ops c"
    using Take_ok(1,2) [OF valid, of "fst (TakeSnapshots c)" "snd (TakeSnapshots c)"] by (simp_all add: kv_ops_def)
qed

section \<open>Properties of the cache\<close>

lemma ascending_distinct: "ascending_from offs \<Longrightarrow> sorted_wrt (<) offs"
proof (induction offs rule: ascending_from.induct)
  case (1 a b offs)
  then have "a < b" "sorted_wrt (<) (b # offs)" by simp_all
  then show ?case by (auto dest: less_trans)
qed auto

text \<open>
  C28. Captures scheduled before a write tile what it wrote: when the write has passed all the
  scheduled offsets, \<^verbatim>\<open>TakeSnapshots\<close> returns one entry per offset, in order. Entry \<open>i\<close> reads
  exactly the history from the previous offset (or the position of the cache) to its own, and
  is nil only for an empty range. The history itself is extended by the write, whatever was
  scheduled.
\<close>

theorem kv_captures_tile:
  assumes "kv_ok c" "PrepareSnapshots offs c = Some c1"
    and "\<forall>off \<in> set offs. off \<le> kc_offset c + int (length kv)"
  shows "\<exists>c2 ns c3. Update kv c1 = Some c2 \<and> TakeSnapshots c2 = (ns, c3) \<and> State c3 = State c @ kv \<and>
    length ns = length offs \<and>
    (\<forall>i < length offs. let lo = (kc_offset c # offs) ! i in
      (ns ! i = None \<longleftrightarrow> offs ! i = lo) \<and>
      (\<forall>n. ns ! i = Some n \<longrightarrow> snap_data c3 n = Some (slots lo (offs ! i) (State c @ kv))))"
proof -
  note P = Prepare_ok [OF assms(1,2)]
  from appendKV_keeps [OF P(1), of kv] obtain c2 where A: "appendKV kv c1 = Some c2" "kv_ok c2" "State c2 = State c @ kv"
    "kc_offset c2 = kc_offset c + int (length kv)" "kc_pending c2 = kc_pending c1"
    by (auto simp: P(2) State_def)
  have off: "\<forall>off \<in> set offs. 0 \<le> off \<and> off \<le> kc_offset c2"
    using P(3) kv_ok_state(2) [OF assms(1)] assms(3) A(4) by force
  have pend: "pe_offsets (kc_pending c2) = [] @ offs" "pe_base (kc_pending c2) = kc_offset c"
    "pe_captured (kc_pending c2) = Some ([] @ replicate (length offs) None)" by (simp_all add: A(5) P(2))
  have sorted: "sorted_wrt (<) offs" by (rule ascending_distinct [OF P(4)])
  then have "distinct ([] @ offs)" by (simp add: strict_sorted_iff)
  from capture_fold_edges [OF A(2) pend(1) this pend(3) _ off] obtain ns where
    N: "pe_captured (kc_pending (fold captureReached offs c2)) = Some ns" "length ns = length offs"
      "\<forall>i < length offs. let lo = (kc_offset c # offs) ! i in
        (ns ! i = None \<longleftrightarrow> offs ! i \<le> lo) \<and>
        (\<forall>n. ns ! i = Some n \<longrightarrow> n < kc_next (fold captureReached offs c2) \<and>
          snap_data (fold captureReached offs c2) n = Some (slots lo (offs ! i) (State c2)))"
    by (auto simp: pend(2))
  define c2' where "c2' = fold captureReached offs c2"
  have "same_live c2 c2'" using capture_fold_ok [OF A(2) off] by (simp add: c2'_def)
  note live = same_live_State [OF this]
  have sched: "scheduledIn (kc_offset c1) (kc_offset c2) (kc_pending c2) = offs"
    using P(3) off by (auto simp: scheduledIn_def pend(1) P(2) intro!: filter_True)
  have U: "Update kv c1 = Some c2'" by (simp add: Update_def A(1) captureLazySnapshots_def sched c2'_def)
  obtain c3 where T: "TakeSnapshots c2' = (ns, c3)" "c3 = c2'\<lparr>kc_pending := (kc_pending c2')\<lparr>pe_offsets := [], pe_captured := None\<rparr>\<rparr>"
    using N(1) by (simp add: TakeSnapshots_def pending_take_def c2'_def)
  have lo: "(kc_offset c # offs) ! i \<le> offs ! i" if "i < length offs" for i
  proof (cases i)
    case 0
    with P(3) that show ?thesis by (cases offs) auto
  next
    case (Suc j)
    with sorted that show ?thesis by (auto simp: sorted_wrt_iff_nth_less intro: less_imp_le)
  qed
  have hist: "State c3 = State c @ kv" unfolding T(2) using live A(3) by (simp add: State_def)
  have "let lo = (kc_offset c # offs) ! i in (ns ! i = None \<longleftrightarrow> offs ! i = lo) \<and>
      (\<forall>n. ns ! i = Some n \<longrightarrow> snap_data c3 n = Some (slots lo (offs ! i) (State c @ kv)))" if "i < length offs" for i
    using N(3) lo [OF that] that unfolding T(2) A(3) c2'_def by (auto simp: Let_def)
  then show ?thesis using U T(1) N(2) hist by blast
qed

text \<open>A small cache to apply the properties to: four written positions, two of them in a lazy snapshot each.\<close>

definition demo_cache :: "int kv_cache" where
  "demo_cache = \<lparr>kc_buf = Some [1, 2, 3, 4], kc_offset = 4, kc_step = 4, kc_pending = no_pending, kc_lazy = [0, 1],
     kc_rewound = False,
     kc_heap = [0 \<mapsto> \<lparr>ks_data = None, ks_from = 0, ks_to = 2, ks_hook = True\<rparr>,
                1 \<mapsto> \<lparr>ks_data = None, ks_from = 2, ks_to = 4, ks_hook = False\<rparr>],
     kc_next = 2, kc_fired = []\<rparr>"

lemma demo_cache_ok: "kv_ok demo_cache"
  by (auto simp: kv_ok_def snap_ok_def demo_cache_def no_pending_def fits_def split: if_splits)

lemma demo_cache_settled: "settled demo_cache"
  by (simp add: settled_def snap_at_def demo_cache_def)

theorem kv_captures_tile_witness:
  "\<exists>c1 c2 ns c3. PrepareSnapshots [4, 5, 7] demo_cache = Some c1 \<and> Update [5, 6, 7] c1 = Some c2 \<and>
    TakeSnapshots c2 = (ns, c3) \<and> State c3 = [1, 2, 3, 4, 5, 6, 7] \<and> ns ! 0 = None \<and>
    (\<exists>n. ns ! 2 = Some n \<and> snap_data c3 n = Some [6, 7])"
proof -
  obtain c1 where P: "PrepareSnapshots [4, 5, 7] demo_cache = Some c1"
    by (simp add: PrepareSnapshots_def pending_prepare_def demo_cache_def no_pending_def)
  have st: "State demo_cache = [1, 2, 3, 4]" "kc_offset demo_cache = 4"
    by (simp_all add: State_def slots_def buf_slots_def demo_cache_def)
  have "\<forall>off \<in> set [4, 5, 7]. off \<le> kc_offset demo_cache + int (length [5, 6, 7 :: int])" by (simp add: st)
  from kv_captures_tile [OF demo_cache_ok P this] obtain c2 ns c3 where
    U: "Update [5, 6, 7] c1 = Some c2" "TakeSnapshots c2 = (ns, c3)" "State c3 = [1, 2, 3, 4] @ [5, 6, 7]" and
    A: "\<forall>i < length [4, 5, 7 :: int]. let lo = (4 # [4, 5, 7]) ! i in (ns ! i = None \<longleftrightarrow> [4, 5, 7] ! i = lo) \<and>
      (\<forall>n. ns ! i = Some n \<longrightarrow> snap_data c3 n = Some (slots lo ([4, 5, 7] ! i) ([1, 2, 3, 4] @ [5, 6, 7])))"
    unfolding st by blast
  have "ns ! 0 = None" using spec [OF A, of 0] by simp
  moreover have "\<exists>n. ns ! 2 = Some n \<and> snap_data c3 n = Some [6, 7]"
  proof -
    from spec [OF A, of 2] have two: "ns ! 2 \<noteq> None"
      "\<forall>n. ns ! 2 = Some n \<longrightarrow> snap_data c3 n = Some (slots 5 7 ([1, 2, 3, 4] @ [5, 6, 7]))"
      by (simp_all add: numeral_2_eq_2)
    then show ?thesis by (auto simp: slots_def)
  qed
  ultimately show ?thesis using P U by auto
qed

text \<open>
  C5. Restoring from a snapshot. It succeeds exactly when the target is not negative and not
  past the snapshot and the cache already holds everything before the snapshot; then the
  history is what was live before the snapshot followed by the snapshot's data, cut at the
  target, whether the snapshot is lazy or owns a copy. A failed restore changes nothing, and
  the data of every snapshot survives either way.
\<close>

theorem kv_restore_history:
  assumes "kv_ok c" "kc_heap c s = Some sn"
  shows "\<exists>ok c' d. Restore (Some s) target c = Some (ok, c') \<and> kv_ok c' \<and> snap_data c s = Some d \<and>
    (ok \<longleftrightarrow> 0 \<le> target \<and> target \<le> ks_to sn \<and> ks_from sn \<le> kc_offset c) \<and>
    (if ok then kc_offset c' = target \<and> State c' = take (nat target) (take (nat (ks_from sn)) (State c) @ d) else c' = c) \<and>
    (\<forall>r. snap_data c' r = snap_data c r)"
proof (cases "0 \<le> target \<and> target \<le> ks_to sn \<and> ks_from sn \<le> kc_offset c")
  case True
  then have t: "0 \<le> target" "target \<le> ks_to sn" "ks_from sn \<le> kc_offset c" by auto
  from Restore_snapshot [OF assms t] obtain c' d where "Restore (Some s) target c = Some (True, c')" "kv_ok c'"
    "kc_offset c' = target" "snap_data c s = Some d" "State c' = take (nat target) (take (nat (ks_from sn)) (State c) @ d)"
    "\<forall>r. snap_data c' r = snap_data c r" by blast
  with t show ?thesis by (intro exI [of _ True] exI [of _ c'] exI [of _ d]) simp
next
  case False
  have "\<exists>d. snap_data c s = Some d"
    using kv_okD [OF assms] assms(2) by (auto simp: snap_data_def snap_ok_def split: option.splits)
  moreover have "Restore (Some s) target c = Some (False, c)" using False assms(2) by (auto simp: Restore_def)
  ultimately show ?thesis using False assms(1) by auto
qed

theorem kv_restore_history_witness:
  "\<exists>c' d. Restore (Some 1) 3 demo_cache = Some (True, c') \<and> State c' = [1, 2, 3] \<and> snap_data demo_cache 1 = Some d \<and> d = [3, 4]"
proof -
  have h: "kc_heap demo_cache 1 = Some \<lparr>ks_data = None, ks_from = 2, ks_to = 4, ks_hook = False\<rparr>"
    and d: "snap_data demo_cache 1 = Some [3, 4]" and st: "State demo_cache = [1, 2, 3, 4]" "kc_offset demo_cache = 4"
    by (simp_all add: demo_cache_def snap_data_def State_def slots_def buf_slots_def)
  from kv_restore_history [OF demo_cache_ok h, of 3] d st show ?thesis by auto
qed

text \<open>
  Splitting a snapshot strictly inside its range and merging the two parts gives a
  snapshot with the data and the range it had, lazy or not, without touching the history or
  any other snapshot.
\<close>

theorem kv_split_merge:
  assumes "kv_ok c" "kc_heap c s = Some sn" "ks_from sn < at" "at < ks_to sn"
  shows "\<exists>p ch c1 m c2. Split (Some s) at c = Some ((Some p, Some ch), c1) \<and>
    Merge (Some p) (Some ch) c1 = Some (Some m, c2) \<and> kv_ok c2 \<and> State c2 = State c \<and>
    snap_data c2 m = snap_data c s \<and> ks_from (snap_at c2 m) = ks_from sn \<and> ks_to (snap_at c2 m) = ks_to sn \<and>
    (\<forall>r. r \<noteq> s \<longrightarrow> kc_heap c r \<noteq> None \<longrightarrow> r < kc_next c \<longrightarrow> snap_data c1 r = snap_data c r)"
proof -
  from Split_ok [OF assms] obtain p ch c1 d dp dc where S: "Split (Some s) at c = Some ((Some p, Some ch), c1)" "kv_ok c1"
    "same_buffer c c1" "snap_data c s = Some d" "snap_data c1 p = Some dp" "snap_data c1 ch = Some dc" "d = dp @ dc"
    "ks_from (snap_at c1 p) = ks_from sn" "ks_to (snap_at c1 p) = at" "ks_from (snap_at c1 ch) = at"
    "ks_to (snap_at c1 ch) = ks_to sn" "kc_heap c1 p \<noteq> None" "kc_heap c1 ch \<noteq> None"
    "\<forall>r. r \<noteq> s \<longrightarrow> kc_heap c r \<noteq> None \<longrightarrow> snap_data c1 r = snap_data c r" by blast
  obtain ps cs where h: "kc_heap c1 p = Some ps" "kc_heap c1 ch = Some cs" using S(12,13) by blast
  have r: "ks_to ps = ks_from cs" "ks_from ps = ks_from sn" "ks_to cs = ks_to sn" using S(8-11) h by (simp_all add: snap_at_def)
  from Merge_ok [OF S(2) h r(1)] obtain m c2 dp' dc' where M: "Merge (Some p) (Some ch) c1 = Some (Some m, c2)" "kv_ok c2"
    "same_buffer c1 c2" "snap_data c1 p = Some dp'" "snap_data c1 ch = Some dc'" "snap_data c2 m = Some (dp' @ dc')"
    "ks_from (snap_at c2 m) = ks_from ps" "ks_to (snap_at c2 m) = ks_to cs" by blast
  have "State c2 = State c" using same_buffer_State [OF S(3)] same_buffer_State [OF M(3)] by simp
  with S M r show ?thesis by auto
qed

theorem kv_split_merge_witness:
  "\<exists>p ch c1 m c2. Split (Some 1) 3 demo_cache = Some ((Some p, Some ch), c1) \<and>
    Merge (Some p) (Some ch) c1 = Some (Some m, c2) \<and> snap_data c2 m = Some [3, 4]"
proof -
  have h: "kc_heap demo_cache 1 = Some \<lparr>ks_data = None, ks_from = 2, ks_to = 4, ks_hook = False\<rparr>"
    and d: "snap_data demo_cache 1 = Some [3, 4]" by (simp_all add: demo_cache_def snap_data_def slots_def)
  from kv_split_merge [OF demo_cache_ok h, of 3] d show ?thesis by auto
qed

text \<open>
  A write never changes what a snapshot reads, provided the cache was just rewound or no
  lazy snapshot names a position past the offset; it extends the history by the written
  positions.
\<close>

theorem kv_write_keeps_snapshots:
  assumes "kv_ok c" "kc_rewound c \<or> settled c"
  shows "\<exists>c'. Update kv c = Some c' \<and> kv_ok c' \<and> State c' = State c @ kv \<and>
    (\<forall>s. snap_data c s \<noteq> None \<longrightarrow> snap_data c' s = snap_data c s)"
  using Update_ok [OF assms(1), of kv] assms(2) by blast

theorem kv_write_keeps_snapshots_witness:
  "\<exists>c c'. Restore None 1 demo_cache = Some (True, c) \<and> Update [9] c = Some c' \<and> State c' = [1, 9] \<and>
    snap_data c' 0 = Some [1, 2] \<and> snap_data c' 1 = Some [3, 4]"
proof -
  define c where "c = demo_cache\<lparr>kc_offset := 1, kc_rewound := True\<rparr>"
  have off: "kc_offset demo_cache = 4" by (simp add: demo_cache_def)
  from Restore_live [OF demo_cache_ok, of 1] off have R: "Restore None 1 demo_cache = Some (True, c)" "kv_ok c"
    by (simp_all add: c_def)
  have "kc_rewound c \<or> settled c" by (simp add: c_def)
  from kv_write_keeps_snapshots [OF R(2) this, of "[9]"] obtain c' where
    U: "Update [9] c = Some c'" "State c' = State c @ [9]" "\<forall>s. snap_data c s \<noteq> None \<longrightarrow> snap_data c' s = snap_data c s" by blast
  have "snap_data c 0 = Some [1, 2]" "snap_data c 1 = Some [3, 4]" "State c = [1]"
    by (simp_all add: c_def demo_cache_def snap_data_def State_def slots_def buf_slots_def)
  with R U show ?thesis by auto
qed

text \<open>
  The proviso of the preceding property matters. The flag that a rewind sets is cleared by the first write after it, but
  that write copies out only the snapshots it overlaps; a lazy snapshot further on is
  overwritten by the second write, and a later restore from it succeeds with foreign data.
\<close>

theorem kv_second_write_clobbers:
  "\<exists>c1 c2 c3 c4. Restore None 0 demo_cache = Some (True, c1) \<and> Update [9] c1 = Some c2 \<and> Update [8, 7] c2 = Some c3 \<and>
    snap_data demo_cache 1 = Some [3, 4] \<and> snap_data c3 1 = Some [7, 4] \<and>
    Restore (Some 1) 4 c3 = Some (True, c4) \<and> State c4 = [9, 8, 7, 4]"
  by (simp add: demo_cache_def Restore_def Update_def appendKV_def overlapping_def snap_at_def copyOut_def slots_def
      dropLazySnapshot_def grow_def captureLazySnapshots_def scheduledIn_def no_pending_def snap_data_def State_def
      buf_slots_def Let_def)

text \<open>The demonstration cache is what a new cache with a smaller growth step holds after two writes.\<close>

theorem demo_cache_reached:
  "\<exists>c1 s1 c2 c3 s2 c4. Update [1, 2] (NewKVCache\<lparr>kc_step := 4\<rparr>) = Some c1 \<and> Snapshot 0 c1 = (Some s1, c2) \<and>
    Update [3, 4] (SetMaterializeHook s1 True c2) = Some c3 \<and> Snapshot 2 c3 = (Some s2, c4) \<and> c4 = demo_cache"
  by (simp add: demo_cache_def NewKVCache_def Update_def appendKV_def grow_def captureLazySnapshots_def scheduledIn_def
      no_pending_def Snapshot_def lazySnapshot_def new_snapshot_def SetMaterializeHook_def slots_def Let_def fun_eq_iff)

end
