(* ===== verification/PromptCache.thy ===== *)
theory PromptCache
  imports KVCache
begin

text \<open>
  What the prompt cache of x/mlxrunner promises: the longest stored prefix is found, a session
  stores exactly what it evaluated, eviction ends and spares the active path, and the next
  session finds what the last one stored. The layers are the key/value caches.
\<close>

section \<open>Small instances\<close>

text \<open>One layer whose snapshots have no size; a trie with the edge 5, 6, 7 below the root.\<close>

definition demo_layers :: "nat layers" where
  "demo_layers = \<lparr>la_size = (\<lambda>s. 0), la_split = (\<lambda>j s at. (None, Some s)), la_merge = (\<lambda>j a b. None), la_count = 1\<rparr>"

definition demo_trie :: "nat trie" where
  "demo_trie = \<lparr>tr_nodes = [0 \<mapsto> \<lparr>tn_tokens = [], tn_endOffset = 0, tn_parent = None, tn_children = [1], tn_lastUsed = 0,
       tn_snapshots = [], tn_user = False\<rparr>,
     1 \<mapsto> \<lparr>tn_tokens = [5, 6, 7], tn_endOffset = 3, tn_parent = Some 0, tn_children = [], tn_lastUsed = 1,
       tn_snapshots = [], tn_user = False\<rparr>], tr_next = 2, tr_counter = 0\<rparr>"

definition demo_prompt :: "(int kv_cache, nat) prefix_cache" where
  "demo_prompt = \<lparr>pc_trie = demo_trie, pc_root = Some 0, pc_activePath = [0], pc_caches = [Some NewKVCache],
     pc_draftLookahead = 0\<rparr>"

lemma demo_trie_ok: "trie_ok 0 demo_trie"
  by (auto simp: trie_ok_def node_ok_def child_of_def demo_trie_def split: if_splits)

lemma demo_trie_counted: "counted L demo_trie"
proof -
  have "node_bytes L demo_trie n = 0" for n
    by (simp add: node_bytes_def demo_trie_def snapshotBytes_def snaps_bytes_def)
  moreover have "tr_counter demo_trie = 0" by (simp add: demo_trie_def)
  moreover have "per_layer L (tn_snapshots nd)" if "tr_nodes demo_trie n = Some nd" for n nd
    using that by (auto simp: demo_trie_def per_layer_def split: if_splits)
  ultimately show ?thesis by (simp add: counted_def)
qed

lemma demo_prompt_ok: "cache_ok demo_layers 0 demo_prompt"
  using demo_trie_ok demo_trie_counted by (simp add: cache_ok_def demo_prompt_def)

section \<open>Searching\<close>

text \<open>
  C27. \<^verbatim>\<open>findBestMatch\<close> finds the longest stored prefix: the number of keys it reports is such
  that exactly the prefixes of the tokens up to this length are stored in the trie. The path
  it returns leads from the root along the edges, and the text along it starts with the
  matched keys.
\<close>

theorem findBestMatch_longest:
  assumes "trie_ok root t" "findBestMatch t (Some root) tokens = (path, k)"
  shows "k \<le> length tokens \<and> (\<forall>j \<le> length tokens. stored t root (take j tokens) \<longleftrightarrow> j \<le> k) \<and>
    (\<exists>ps w. path = root # ps \<and> is_path t root ps \<and> reach t root (last path) w \<and> take k tokens = take k w \<and> k \<le> length w)"
proof -
  obtain ps where ps: "find_loop t root tokens = (ps, k)" "path = root # ps"
    using assms(2) by (auto simp: findBestMatch_def split: prod.splits)
  have live: "tr_nodes t root \<noteq> None" using assms(1) by (simp add: trie_ok_def)
  from find_loop_longest [OF assms(1) live ps(1)] find_loop_path [OF assms(1) live ps(1)] ps(2) show ?thesis by auto
qed

theorem findBestMatch_longest_witness:
  "\<exists>path. findBestMatch demo_trie (Some 0) [5, 6, 9] = (path, 2) \<and> stored demo_trie 0 [5, 6] \<and> \<not> stored demo_trie 0 [5, 6, 9]"
proof -
  have f: "findBestMatch demo_trie (Some 0) [5, 6, 9] = ([0, 1], 2)"
    by (simp add: findBestMatch_def find_loop.simps demo_trie_def node_at_def Let_def)
  from findBestMatch_longest [OF demo_trie_ok f] have
    A: "\<forall>j \<le> length [5, 6, 9 :: trie_key]. stored demo_trie 0 (take j [5, 6, 9]) \<longleftrightarrow> j \<le> 2" by blast
  from spec [OF A, of 2] spec [OF A, of 3] f show ?thesis by (simp add: numeral_2_eq_2 numeral_3_eq_3)
qed

section \<open>Keys\<close>

text \<open>
  Keys verify tokens. When two token sequences agree on their first \<open>k\<close> keys, they agree on
  their first \<open>k\<close> tokens and on as many more as the draft caches look ahead; so a match of \<open>k\<close>
  keys is a valid restore point also for slots paired with the next token.
\<close>

theorem key_match_verifies:
  assumes "cache_key l xs = Some ks" "cache_key l ys = Some ls" "take k ks = take k ls"
    and "0 < k" "k \<le> length ks" "k \<le> length ls"
  shows "take (k + l) xs = take (k + l) ys"
  by (rule keys_verify_tokens [OF assms])

theorem key_match_verifies_witness:
  "\<exists>ks ls. cache_key 1 [1, 2, 3] = Some ks \<and> cache_key 1 [1, 2, 4] = Some ls \<and> take 1 ks = take 1 ls \<and>
    take 2 [1, 2, 3 :: 32 word] = take 2 [1, 2, 4]"
proof -
  obtain ks ls where K: "cache_key 1 [1, 2, 3 :: 32 word] = Some ks" "cache_key 1 [1, 2, 4 :: 32 word] = Some ls"
    by (simp add: cache_key_def)
  have "take 1 ks = take 1 ls" "1 \<le> length ks" "1 \<le> length ls"
    using K by (auto simp: cache_key_def Let_def numeral_2_eq_2)
  with key_match_verifies [OF K, of 1] K show ?thesis by auto
qed

section \<open>Storing\<close>

text \<open>
  C3. \<^verbatim>\<open>advancePath\<close> stores a text: called with the end of the active path and the keys that
  follow it, it never panics, splits at most one edge and makes the prefixes of the whole
  text, and nothing else, newly stored. The trie stays well formed, the counter of paged-out
  bytes stays exact, and the active path ends at the node that carries the text.
\<close>

theorem advancePath_stores_text:
  assumes "cache_ok L root c" "reach (pc_trie c) root (last (pc_activePath c)) w"
    and "e = tn_endOffset (node_at (pc_trie c) (last (pc_activePath c))) + int (length tokens)"
  shows "\<exists>dest c'. advancePath L (last (pc_activePath c)) tokens e c = Some (dest, c') \<and> cache_ok L root c' \<and>
    last (pc_activePath c') = dest \<and> reach (pc_trie c') root dest (w @ tokens) \<and>
    (\<forall>ks. stored (pc_trie c') root ks \<longleftrightarrow> stored (pc_trie c) root ks \<or> prefix ks (w @ tokens))"
  using advance_stores [OF assms(1) refl assms(2,3)] by blast

theorem advancePath_stores_text_witness:
  "\<exists>dest c'. advancePath demo_layers 0 [5, 6, 9] 3 demo_prompt = Some (dest, c') \<and> stored (pc_trie c') 0 [5, 6, 9] \<and>
    stored (pc_trie c') 0 [5, 6, 7] \<and> \<not> stored (pc_trie c') 0 [9]"
proof -
  have l: "last (pc_activePath demo_prompt) = 0" and t: "pc_trie demo_prompt = demo_trie" by (simp_all add: demo_prompt_def)
  have e: "(3 :: int) = tn_endOffset (node_at (pc_trie demo_prompt) (last (pc_activePath demo_prompt))) + int (length [5, 6, 9 :: trie_key])"
    by (simp add: l t demo_trie_def node_at_def)
  from advancePath_stores_text [OF demo_prompt_ok _ e, of "[]"] obtain dest c' where
    A: "advancePath demo_layers 0 [5, 6, 9] 3 demo_prompt = Some (dest, c')"
      "\<forall>ks. stored (pc_trie c') 0 ks \<longleftrightarrow> stored demo_trie 0 ks \<or> prefix ks [5, 6, 9]"
    unfolding l t using reach_refl by auto
  have f: "findBestMatch demo_trie (Some 0) [5, 6, 7] = ([0, 1], 3)" "findBestMatch demo_trie (Some 0) [9] = ([0], 0)"
    by (simp_all add: findBestMatch_def find_loop.simps demo_trie_def node_at_def Let_def)
  have "stored demo_trie 0 (take 3 [5, 6, 7])"
    using find_loop_longest [OF demo_trie_ok, of 0 "[5, 6, 7]" "[1]" 3] f(1)
    by (auto simp: findBestMatch_def demo_trie_def split: prod.splits)
  moreover have "\<not> stored demo_trie 0 (take 1 [9])"
    using find_loop_longest [OF demo_trie_ok, of 0 "[9]" "[]" 0] f(2)
    by (auto simp: findBestMatch_def demo_trie_def split: prod.splits)
  ultimately show ?thesis using A by (auto simp: numeral_3_eq_3)
qed

section \<open>Eviction\<close>

text \<open>
  C4. Eviction ends and spares what is in use. \<^verbatim>\<open>enforceEvictionPolicy\<close> returns without a panic,
  with the paged-out bytes within the limit or with no node left that may be evicted. The
  active path is still a path with the same texts and offsets, every text stored afterwards
  was stored before, and the trie and its byte counter stay consistent.
\<close>

theorem eviction_ends:
  assumes "cache_ok L root c"
  shows "\<exists>t'. enforceEvictionPolicy L root (pc_activePath c) (pc_trie c) = Some t' \<and> cache_ok L root (c\<lparr>pc_trie := t'\<rparr>) \<and>
    bounded_or_pinned root (c\<lparr>pc_trie := t'\<rparr>) \<and> (\<forall>ks. stored t' root ks \<longrightarrow> stored (pc_trie c) root ks) \<and>
    (\<forall>n \<in> set (pc_activePath c). tn_endOffset (node_at t' n) = tn_endOffset (node_at (pc_trie c) n) \<and>
      (\<forall>w. reach t' root n w \<longleftrightarrow> reach (pc_trie c) root n w))"
proof -
  obtain ps where ok: "pc_root c = Some root" "trie_ok root (pc_trie c)" "counted L (pc_trie c)" "pc_activePath c = root # ps"
    "is_path (pc_trie c) root ps" using assms by (auto simp: cache_ok_def)
  from enforce_ends [OF ok(2,3,5)] obtain t' where E: "enforceEvictionPolicy L root (root # ps) (pc_trie c) = Some t'"
    "trie_ok root t'" "counted L t'" "spares (pc_trie c) t' root ps"
    "tr_counter t' \<le> maxPagedOutBytes \<or> (\<forall>n. tr_nodes t' n \<noteq> None \<longrightarrow> \<not> evictable t' root (root # ps) n)" by blast
  have "is_path t' root ps" "\<forall>m \<in> set (root # ps). \<forall>w. reach t' root m w \<longleftrightarrow> reach (pc_trie c) root m w"
    "\<forall>m \<in> set (root # ps). tn_endOffset (node_at t' m) = tn_endOffset (node_at (pc_trie c) m)"
    using E(4) by (simp_all add: spares_def)
  with E spares_stored [OF E(4)] ok show ?thesis by (auto simp: cache_ok_def bounded_or_pinned_def)
qed

text \<open>A trie over the limit: a snapshot of nine gigabytes at the node below the root.\<close>

definition big_layers :: "nat layers" where
  "big_layers = demo_layers\<lparr>la_size := (\<lambda>s. 9 * 2 ^ 30)\<rparr>"

definition big_prompt :: "(int kv_cache, nat) prefix_cache" where
  "big_prompt = demo_prompt\<lparr>pc_trie := setSnapshots big_layers 1 [Some 0] demo_trie\<rparr>"

lemma big_prompt_ok: "cache_ok big_layers 0 big_prompt"
proof -
  have "tr_nodes demo_trie 1 \<noteq> None" "per_layer big_layers [Some 0]"
    by (simp_all add: demo_trie_def per_layer_def big_layers_def demo_layers_def)
  then show ?thesis using set_snapshots_facts [OF demo_trie_ok demo_trie_counted, of 1 big_layers "[Some 0]"]
    by (simp add: cache_ok_def big_prompt_def demo_prompt_def)
qed

theorem eviction_ends_witness:
  "maxPagedOutBytes < tr_counter (pc_trie big_prompt) \<and>
    (\<exists>t'. enforceEvictionPolicy big_layers 0 [0] (pc_trie big_prompt) = Some t' \<and> tr_nodes t' 1 = None)"
proof -
  have big: "maxPagedOutBytes < tr_counter (pc_trie big_prompt)"
    by (simp add: big_prompt_def setSnapshots_def swapSnapshots_def demo_trie_def big_layers_def demo_layers_def snapshotBytes_def
        snaps_bytes_def node_at_def upd_def maxPagedOutBytes_def Let_def)
  have act: "pc_activePath big_prompt = [0]" by (simp add: big_prompt_def demo_prompt_def)
  from eviction_ends [OF big_prompt_ok] obtain t' where
    E: "enforceEvictionPolicy big_layers 0 [0] (pc_trie big_prompt) = Some t'" "cache_ok big_layers 0 (big_prompt\<lparr>pc_trie := t'\<rparr>)"
      "bounded_or_pinned 0 (big_prompt\<lparr>pc_trie := t'\<rparr>)" unfolding act by blast
  have "tr_nodes t' 1 = None"
  proof -
    have w: "walkNodes (pc_trie big_prompt) 0 = [0, 1]"
      by (simp add: walkNodes_def walk_fuel_def big_prompt_def setSnapshots_def swapSnapshots_def demo_trie_def upd_def node_at_def
          Let_def numeral_2_eq_2 eval_nat_numeral)
    have v: "pick_victim big_layers (pc_trie big_prompt) 0 [0] [0, 1] None = Some 1"
      by (simp add: evictable_def big_prompt_def setSnapshots_def swapSnapshots_def demo_trie_def upd_def node_at_def Let_def)
    have n: "live_nodes (pc_trie big_prompt) = Suc (Suc 0)"
      by (simp add: live_nodes_def big_prompt_def setSnapshots_def swapSnapshots_def demo_trie_def upd_def Let_def eval_nat_numeral)
    obtain t1 where t1: "evictNode big_layers 1 (pc_trie big_prompt) = Some t1" "tr_nodes t1 1 = None" "tr_counter t1 \<le> maxPagedOutBytes"
      by (simp add: evictNode_def removeNode_def drop_node_def big_prompt_def setSnapshots_def swapSnapshots_def demo_trie_def
          upd_def node_at_def Let_def maxPagedOutBytes_def snapshotBytes_def snaps_bytes_def big_layers_def)
    have "enforceEvictionPolicy big_layers 0 [0] (pc_trie big_prompt) = Some t1"
      using big t1(1,3) v unfolding enforceEvictionPolicy_def n
      by (simp add: w del: pick_victim.simps)
    with E(1) t1(2) show ?thesis by simp
  qed
  with big E(1) show ?thesis by blast
qed

text \<open>
  The victim of a round of eviction is a node that may be evicted, neither root nor active
  nor a branch point, and no other such node comes before it: it is the least recently used,
  among those the deepest, among those the largest. A round finds none only when there is none.
\<close>

theorem victim_is_oldest:
  assumes "trie_ok root t"
  shows "case pick_victim L t root active (walkNodes t root) None of
      None \<Rightarrow> \<forall>n. tr_nodes t n \<noteq> None \<longrightarrow> \<not> evictable t root active n
    | Some b \<Rightarrow> tr_nodes t b \<noteq> None \<and> evictable t root active b \<and>
        (\<forall>n. tr_nodes t n \<noteq> None \<longrightarrow> evictable t root active n \<longrightarrow> \<not> evict_before L (node_at t n) (node_at t b))"
proof (cases "pick_victim L t root active (walkNodes t root) None")
  case None
  then have "\<forall>n \<in> set (walkNodes t root). \<not> evictable t root active n" unfolding pick_victim_None by blast
  then show ?thesis unfolding None option.case using walk_all [OF assms] by blast
next
  case (Some b)
  from pick_victim_Some [OF Some] have b: "b \<in> set (walkNodes t root)" "evictable t root active b" by auto
  from pick_victim_first [OF Some] have "\<forall>n. n \<in> set (walkNodes t root) \<and> evictable t root active n \<longrightarrow>
    \<not> evict_before L (node_at t n) (node_at t b)" by blast
  with b show ?thesis unfolding Some option.case walk_all [OF assms] by blast
qed

theorem victim_is_oldest_witness:
  "pick_victim demo_layers demo_trie 0 [0] (walkNodes demo_trie 0) None = Some 1"
proof -
  from victim_is_oldest [OF demo_trie_ok, where L = demo_layers and active = "[0]"]
  have A: "case pick_victim demo_layers demo_trie 0 [0] (walkNodes demo_trie 0) None of
      None \<Rightarrow> \<forall>n. tr_nodes demo_trie n \<noteq> None \<longrightarrow> \<not> evictable demo_trie 0 [0] n
    | Some b \<Rightarrow> tr_nodes demo_trie b \<noteq> None \<and> evictable demo_trie 0 [0] b" by (auto split: option.splits)
  have ev: "evictable demo_trie 0 [0] n \<longleftrightarrow> n \<noteq> 0 \<and> length (tn_children (node_at demo_trie n)) \<le> 1" for n
    by (auto simp: evictable_def)
  have nodes: "tr_nodes demo_trie n \<noteq> None \<longleftrightarrow> n = 0 \<or> n = 1" for n by (simp add: demo_trie_def)
  have "evictable demo_trie 0 [0] 1" unfolding ev by (simp add: demo_trie_def node_at_def)
  with A nodes show ?thesis by (auto simp: ev split: option.splits)
qed

section \<open>Sessions\<close>

lemma on_path_prefix: "on_path root c ks \<Longrightarrow> prefix ks ls \<Longrightarrow> on_path root c ls"
  unfolding on_path_def using prefix_order.trans by blast








text \<open>
  C1. What a session evaluated is found again. A session begins, the forward pass brings all
  layers to an offset within the keys of the prompt and its outputs, and the session closes:
  this never panics, and the search of any later prompt that agrees on the keys up to the
  offset matches at least that many of them.
\<close>

theorem session_roundtrip:
  fixes c :: "(('kv :: zero) kv_cache, nat) prefix_cache"
  assumes "cache_inv L c" "layers_ok L kv_ok (pc_caches c)" "begin_session L kv_ops now inputs c = Some (s, c1)"
    and "layers_ok L (\<lambda>kv. kv_ok kv \<and> kc_offset kv = int off) kvs" "Some kv0 \<in> set kvs"
    and "cache_key (pc_draftLookahead c) (inputs @ outputs) = Some keys" "off \<le> length keys"
    and "take off keys2 = take off keys" "off \<le> length keys2"
  shows "\<exists>s2 c2. close_session L kv_ops now2 (s\<lparr>se_outputs := outputs\<rparr>) (c1\<lparr>pc_caches := kvs\<rparr>) = Some (s2, c2) \<and>
    cache_inv L c2 \<and> off \<le> snd (findBestMatch (pc_trie c2) (pc_root c2) keys2)"
proof -
  have "trie_live kv_live (pc_trie c) (pc_caches c) \<or> begin_session L kv_ops now inputs c \<noteq> None" using assms(3) by simp
  from kv.begin_ok [OF assms(1,2) this] assms(3) obtain root ks0 where
    B: "cache_key (pc_draftLookahead c) inputs = Some ks0" "cache_ok L root c1" "pc_draftLookahead c1 = pc_draftLookahead c"
      "se_inputs s = inputs" "on_path root c1 (take (snd (findBestMatch (pc_trie (ensureRoot now c)) (Some root) ks0)) ks0)"
    by auto
  have pre: "prefix ks0 keys" by (rule cache_key_append [OF B(1) assms(6)])
  define c0 where "c0 = c1\<lparr>pc_caches := kvs\<rparr>"
  define s0 where "s0 = s\<lparr>se_outputs := outputs\<rparr>"
  have c0: "cache_ok L root c0" using B(2) by (auto simp: cache_ok_def c0_def)
  have lay: "layers_ok L kv_ok (pc_caches c0)"
    using assms(4) all_layers_mono [of "\<lambda>kv. kv_ok kv \<and> kc_offset kv = int off" kvs kv_ok] by (simp add: layers_ok_def c0_def)
  have K: "cache_key (pc_draftLookahead c0) (se_inputs s0 @ se_outputs s0) = Some keys"
    using assms(6) B(3,4) by (simp add: c0_def s0_def)
  have on: "on_path root c0 keys"
    using on_path_prefix [OF on_path_prefix [OF B(5) take_is_prefix] pre] by (simp add: on_path_def c0_def)
  have offs: "\<forall>kv. Some kv \<in> set (pc_caches c0) \<longrightarrow> co_offset kv_ops kv = int off"
    using assms(4) by (auto simp: layers_ok_def all_layers_def c0_def kv_ops_def)
  have "\<exists>kv. Some kv \<in> set (pc_caches c0)" using assms(5) by (auto simp: c0_def)
  from kv.close_ok [OF c0 lay K on offs assms(7) this, of now2] obtain s2 c2 where
    C: "close_session L kv_ops now2 s0 c0 = Some (s2, c2)" "cache_ok L root c2"
      "\<forall>ks. stored (pc_trie c2) root ks \<longleftrightarrow> stored (pc_trie c0) root ks \<or> prefix ks (take off keys)" by blast
  have la: "pc_draftLookahead c2 = pc_draftLookahead c0" by (rule close_lookahead [OF C(1)])
  have r2: "pc_root c2 = Some root" "trie_ok root (pc_trie c2)" using C(2) by (auto simp: cache_ok_def)
  have "cache_inv L c2" using assms(1) C(2) la B(3) r2(1) by (simp add: cache_inv_def c0_def)
  moreover have "off \<le> snd (findBestMatch (pc_trie c2) (pc_root c2) keys2)"
  proof -
    obtain path k where f: "find_loop (pc_trie c2) root keys2 = (path, k)" by (cases "find_loop (pc_trie c2) root keys2")
    have "tr_nodes (pc_trie c2) root \<noteq> None" using r2(2) by (simp add: trie_ok_def)
    from find_loop_longest [OF r2(2) this f] assms(9) have "stored (pc_trie c2) root (take off keys2) \<longleftrightarrow> off \<le> k" by blast
    moreover have "stored (pc_trie c2) root (take off keys2)" using C(3) assms(8) by simp
    ultimately show ?thesis by (simp add: findBestMatch_def r2(1) f)
  qed
  ultimately show ?thesis using C(1) by (auto simp: c0_def s0_def)
qed


end
