(* ===== verification/RotatingCache.thy ===== *)
theory RotatingCache
  imports KVCache
begin

text \<open>
  x/mlxrunner/cache/rotating.go: the key/value cache of a layer with sliding-window attention. The
  buffer is a list of slots, a slot being one position of the key and value arrays; it is in
  logical order after a batched write and a ring after single-token writes. Snapshots live in a
  heap of the cache and are lazy while they hold no data, as in the theory KVCache, whose schedule
  of captures is shared. A closed snapshot leaves the heap; using it is a panic, \<^const>\<open>None\<close>.
\<close>

section \<open>State\<close>

record 'kv rot_snapshot =
  rs_data :: "'kv list option"
  rs_from :: int
  rs_to :: int
  rs_idx :: int
  rs_sliceStart :: int
  rs_sliceEnd :: int
  rs_hook :: bool

record 'kv rot_cache =
  rc_buf :: "'kv list option"
  rc_offset :: int
  rc_step :: int
  rc_maxSize :: int
  rc_idx :: int
  rc_pending :: pending_snapshots
  rc_lazy :: "nat list"
  rc_heap :: "nat \<Rightarrow> 'kv rot_snapshot option"
  rc_next :: nat
  rc_fired :: "(nat \<times> nat) list"

definition NewRotatingKVCache :: "int \<Rightarrow> 'kv rot_cache" where
  "NewRotatingKVCache maxSize = \<lparr>rc_buf = None, rc_offset = 0, rc_step = 256, rc_maxSize = maxSize, rc_idx = 0,
     rc_pending = no_pending, rc_lazy = [], rc_heap = Map.empty, rc_next = 0, rc_fired = []\<rparr>"

text \<open>\<^verbatim>\<open>State\<close>: the live slots.\<close>

definition rot_State :: "'kv rot_cache \<Rightarrow> 'kv list option" where
  "rot_State c = (case rc_buf c of
     None \<Rightarrow> None
   | Some b \<Rightarrow> Some (slots 0 (min (rc_offset c) (int (length b))) b))"

section \<open>Snapshots\<close>

definition rot_dropLazySnapshot :: "nat \<Rightarrow> 'kv rot_cache \<Rightarrow> 'kv rot_cache" where
  "rot_dropLazySnapshot s c = c\<lparr>rc_lazy := remove1 s (rc_lazy c)\<rparr>"

definition rot_Close :: "nat \<Rightarrow> 'kv rot_cache \<Rightarrow> 'kv rot_cache" where
  "rot_Close s c = (rot_dropLazySnapshot s c)\<lparr>rc_heap := (rc_heap c)(s := None)\<rparr>"

definition rot_copyOut :: "nat \<Rightarrow> 'kv rot_cache \<Rightarrow> 'kv rot_cache option" where
  "rot_copyOut s c =
     (case rc_heap c s of
        None \<Rightarrow> None
      | Some sn \<Rightarrow>
          if rs_data sn \<noteq> None then Some c
          else (case rc_buf c of
            None \<Rightarrow> None
          | Some b \<Rightarrow>
              let data = slots (rs_sliceStart sn) (rs_sliceEnd sn) b;
                  c = (rot_dropLazySnapshot s c)\<lparr>rc_heap := (rc_heap c)(s \<mapsto> sn\<lparr>rs_data := Some data, rs_hook := False\<rparr>)\<rparr>
              in Some (if rs_hook sn then c\<lparr>rc_fired := rc_fired c @ [(s, length data)]\<rparr> else c)))"

fun rot_copy_out_all :: "nat list \<Rightarrow> 'kv rot_cache \<Rightarrow> 'kv rot_cache option" where
  "rot_copy_out_all [] c = Some c"
| "rot_copy_out_all (s # ss) c = (case rot_copyOut s c of None \<Rightarrow> None | Some c1 \<Rightarrow> rot_copy_out_all ss c1)"

definition copyOutLazySnapshots :: "'kv rot_cache \<Rightarrow> 'kv rot_cache option" where
  "copyOutLazySnapshots c = rot_copy_out_all (rc_lazy c) c"

definition rot_Size :: "nat \<Rightarrow> 'kv rot_cache \<Rightarrow> nat" where
  "rot_Size s c = (case rc_heap c s of None \<Rightarrow> 0 | Some sn \<Rightarrow> (case rs_data sn of None \<Rightarrow> 0 | Some d \<Rightarrow> length d))"

definition rot_SetMaterializeHook :: "nat \<Rightarrow> bool \<Rightarrow> 'kv rot_cache \<Rightarrow> 'kv rot_cache" where
  "rot_SetMaterializeHook s hook c =
     c\<lparr>rc_heap := (rc_heap c)(s := map_option (\<lambda>sn. sn\<lparr>rs_hook := hook\<rparr>) (rc_heap c s))\<rparr>"

definition rot_new_snapshot :: "'kv rot_snapshot \<Rightarrow> 'kv rot_cache \<Rightarrow> nat option \<times> 'kv rot_cache" where
  "rot_new_snapshot sn c =
     (Some (rc_next c), c\<lparr>rc_heap := (rc_heap c)(rc_next c \<mapsto> sn), rc_next := rc_next c + 1,
        rc_lazy := (if rs_data sn = None then rc_lazy c @ [rc_next c] else rc_lazy c)\<rparr>)"

definition rot_Snapshot :: "int \<Rightarrow> 'kv rot_cache \<Rightarrow> nat option \<times> 'kv rot_cache" where
  "rot_Snapshot fromOffset c =
     (case rot_State c of
        None \<Rightarrow> (None, c)
      | Some state \<Rightarrow>
          if rc_offset c \<le> fromOffset then (None, c)
          else rot_new_snapshot \<lparr>rs_data = Some state, rs_from = fromOffset, rs_to = rc_offset c, rs_idx = rc_idx c,
                 rs_sliceStart = 0, rs_sliceEnd = 0, rs_hook = False\<rparr> c)"

definition lazyRotatingSnapshot :: "int \<Rightarrow> 'kv rot_cache \<Rightarrow> nat option \<times> 'kv rot_cache" where
  "lazyRotatingSnapshot off c =
     (case rc_buf c of
        None \<Rightarrow> (None, c)
      | Some b \<Rightarrow>
          (let bufBase = rc_offset c - int (length b);
               liveLen = min off (rc_maxSize c);
               sliceStart = off - liveLen - bufBase;
               sliceEnd = off - bufBase in
           if sliceEnd \<le> sliceStart then (None, c)
           else rot_new_snapshot \<lparr>rs_data = None, rs_from = off - liveLen, rs_to = off, rs_idx = liveLen,
                  rs_sliceStart = sliceStart, rs_sliceEnd = sliceEnd, rs_hook = False\<rparr> c))"

text \<open>\<^verbatim>\<open>captureReached\<close> with the way to take a snapshot as an argument, for any kind of cache.\<close>

fun capture_with :: "('c \<Rightarrow> nat option \<times> 'c) \<Rightarrow> int \<Rightarrow> int list \<Rightarrow> nat option list
    \<Rightarrow> 'c \<Rightarrow> nat option list \<times> bool \<times> 'c" where
  "capture_with snap reached (off # offs) (cap # caps) c =
     (if cap = None \<and> off = reached then
        (case snap c of
           (s, c) \<Rightarrow> (case capture_with snap reached offs caps c of (cs, _, c) \<Rightarrow> (s # cs, True, c)))
      else (case capture_with snap reached offs caps c of (cs, hit, c) \<Rightarrow> (cap # cs, hit, c)))"
| "capture_with snap reached _ _ c = ([], False, c)"

definition rot_captureReached :: "int \<Rightarrow> ('kv rot_cache \<Rightarrow> nat option \<times> 'kv rot_cache) \<Rightarrow> 'kv rot_cache \<Rightarrow> 'kv rot_cache" where
  "rot_captureReached reached snap c =
     (case pe_captured (rc_pending c) of
        None \<Rightarrow> c
      | Some caps \<Rightarrow>
          (case capture_with snap reached (pe_offsets (rc_pending c)) caps c of
             (cs, hit, c) \<Rightarrow> c\<lparr>rc_pending := (rc_pending c)\<lparr>pe_captured := Some cs,
               pe_base := (if hit then reached else pe_base (rc_pending c))\<rparr>\<rparr>))"

definition captureStartBoundary :: "int \<Rightarrow> 'kv rot_cache \<Rightarrow> 'kv rot_cache" where
  "captureStartBoundary start c =
     (if length (pe_offsets (rc_pending c)) = 0 then c
      else rot_captureReached start (rot_Snapshot 0) c)"

definition rot_captureLazySnapshots :: "int \<Rightarrow> int \<Rightarrow> bool \<Rightarrow> 'kv rot_cache \<Rightarrow> 'kv rot_cache" where
  "rot_captureLazySnapshots start stop batched c =
     (if length (pe_offsets (rc_pending c)) = 0 then c
      else fold (\<lambda>off c. if off = start then c
             else rot_captureReached off
               (\<lambda>c. if batched then lazyRotatingSnapshot off c
                    else rot_Snapshot (off - min off (rc_maxSize c)) c) c)
           (scheduledIn start stop (rc_pending c)) c)"

section \<open>Writing\<close>

definition concat_kv :: "'kv list \<Rightarrow> 'kv rot_cache \<Rightarrow> ('kv list \<times> 'kv rot_cache) option" where
  "concat_kv kv c0 =
     (case copyOutLazySnapshots c0 of
        None \<Rightarrow> None
      | Some c \<Rightarrow>
          let b = (case rc_buf c of
            None \<Rightarrow> kv
          | Some b0 \<Rightarrow>
              (case (if rc_idx c < int (length b0) then
                       (if rc_offset c \<le> rc_maxSize c then (slots 0 (rc_idx c) b0, rc_idx c)
                        else (slots (rc_idx c) (int (length b0)) b0 @ slots 0 (rc_idx c) b0, int (length b0)))
                     else (b0, rc_idx c)) of
                 (b1, idx) \<Rightarrow>
                   let trim = idx - rc_maxSize c + 1 in
                   (if 0 < trim then slots trim (int (length b1)) b1 else b1) @ kv))
          in Some (b, c\<lparr>rc_buf := Some b, rc_offset := rc_offset c + int (length kv), rc_idx := int (length b)\<rparr>))"

definition update_kv :: "('kv :: zero) list \<Rightarrow> 'kv rot_cache \<Rightarrow> ('kv list \<times> 'kv rot_cache) option" where
  "update_kv kv c0 =
     (case copyOutLazySnapshots c0 of
        None \<Rightarrow> None
      | Some c \<Rightarrow>
          let n = int (length kv); prev = rc_offset c; W = rc_maxSize c;
              zeros = replicate (nat (min (rc_step c) (W - prev))) 0 in
          case (case rc_buf c of
                  None \<Rightarrow> (zeros, prev)
                | Some b \<Rightarrow> if int (length b) \<le> prev \<and> int (length b) < W then (b @ zeros, prev) else (b, rc_idx c)) of
            (b1, idx1) \<Rightarrow>
              let trim = int (length b1) - W in
              case (if 0 < trim then (slots trim (int (length b1)) b1, W) else (b1, idx1)) of
                (b2, idx2) \<Rightarrow>
                  let idx3 = (if W \<le> idx2 then 0 else idx2);
                      b3 = slots 0 idx3 b2 @ kv @ slots (idx3 + n) (int (length b2)) b2;
                      off = prev + n in
                  Some (slots 0 (min off W) b3, c\<lparr>rc_buf := Some b3, rc_offset := off, rc_idx := idx3 + n\<rparr>))"

text \<open>The applier that goes with a history: its columns, queries, window and write cursor.\<close>

record rot_applier =
  ra_K :: int
  ra_L :: int
  ra_window :: int
  ra_ringIdx :: int

definition rot_Update :: "('kv :: zero) list \<Rightarrow> 'kv rot_cache \<Rightarrow> (('kv list \<times> rot_applier) \<times> 'kv rot_cache) option" where
  "rot_Update kv c0 =
     (let start = rc_offset c0; c1 = captureStartBoundary start c0; batched = length kv > 1 in
      case (if batched then concat_kv kv c1 else update_kv kv c1) of
        None \<Rightarrow> None
      | Some (new, c2) \<Rightarrow>
          let c = rot_captureLazySnapshots start (rc_offset c2) batched c2 in
          Some ((new, \<lparr>ra_K = int (length new), ra_L = int (length kv), ra_window = rc_maxSize c, ra_ringIdx = rc_idx c\<rparr>), c))"

text \<open>\<^verbatim>\<open>View\<close> on an empty cache panics.\<close>

definition rot_View :: "'kv rot_cache \<Rightarrow> ('kv list \<times> rot_applier) option" where
  "rot_View c = (case rot_State c of
     None \<Rightarrow> None
   | Some k \<Rightarrow>
       let K = int (length k); W = rc_maxSize c in
       Some (if K > W then (slots (K - W) K k, \<lparr>ra_K = W, ra_L = 1, ra_window = W, ra_ringIdx = 0\<rparr>)
             else (k, \<lparr>ra_K = K, ra_L = 1, ra_window = W, ra_ringIdx = rc_idx c\<rparr>)))"

text \<open>\<^verbatim>\<open>gatherRingCols\<close> on the columns of a row; a wrong width or no columns panic.\<close>

definition gatherRingCols :: "'m list \<Rightarrow> int \<Rightarrow> int \<Rightarrow> 'm list option" where
  "gatherRingCols arr ringIdx K =
     (if length arr \<noteq> 1 \<and> int (length arr) \<noteq> K \<or> K = 0 then None
      else let r = ringIdx mod K in
        if r = 0 \<or> length arr = 1 then Some arr
        else Some (slots (K - r) K arr @ slots 0 (K - r) arr))"

section \<open>Restoring, merging, splitting and freeing\<close>

definition clamp_to :: "int \<Rightarrow> 'kv rot_cache \<Rightarrow> 'kv rot_cache" where
  "clamp_to target c = (if target < rc_offset c then c\<lparr>rc_offset := target, rc_idx := target\<rparr> else c)"

definition rot_Restore :: "nat option \<Rightarrow> int \<Rightarrow> 'kv rot_cache \<Rightarrow> (bool \<times> 'kv rot_cache) option" where
  "rot_Restore snapshot target c =
     (if target < 0 then Some (False, c)
      else case snapshot of
        None \<Rightarrow>
          if rc_offset c \<le> target then Some (target = rc_offset c, c)
          else if rc_maxSize c < rc_offset c then Some (False, c)
          else Some (True, c\<lparr>rc_offset := target, rc_idx := target\<rparr>)
      | Some s \<Rightarrow>
          (case rc_heap c s of
             None \<Rightarrow> None
           | Some sn \<Rightarrow>
               if rs_to sn < target then Some (False, c)
               else if target < rs_to sn \<and> rc_maxSize c < rs_to sn then Some (False, c)
               else (case rs_data sn of
                 None \<Rightarrow>
                   (case copyOutLazySnapshots (rot_dropLazySnapshot s c) of
                      None \<Rightarrow> None
                    | Some c1 \<Rightarrow>
                        (case rc_buf c1 of
                           None \<Rightarrow> None
                         | Some b \<Rightarrow>
                             let liveLen = rs_sliceEnd sn - rs_sliceStart sn in
                             Some (True, clamp_to target
                               (c1\<lparr>rc_buf := Some (slots (rs_sliceStart sn) (rs_sliceEnd sn) b),
                                   rc_heap := (rc_heap c1)(s \<mapsto> sn\<lparr>rs_sliceStart := 0, rs_sliceEnd := liveLen\<rparr>),
                                   rc_lazy := rc_lazy c1 @ [s], rc_offset := rs_to sn, rc_idx := rs_idx sn\<rparr>))))
               | Some data \<Rightarrow>
                   (case copyOutLazySnapshots c of
                      None \<Rightarrow> None
                    | Some c1 \<Rightarrow>
                        Some (True, clamp_to target
                          (c1\<lparr>rc_buf := Some data, rc_offset := rs_to sn, rc_idx := rs_idx sn\<rparr>))))))"

definition rot_Merge :: "nat option \<Rightarrow> nat option \<Rightarrow> 'kv rot_cache \<Rightarrow> nat option \<times> 'kv rot_cache" where
  "rot_Merge parent child c =
     (child, case parent of None \<Rightarrow> c | Some p \<Rightarrow> rot_Close p c)"

definition rot_Split :: "nat option \<Rightarrow> int \<Rightarrow> 'kv rot_cache \<Rightarrow> (nat option \<times> nat option) \<times> 'kv rot_cache" where
  "rot_Split snapshot at c = ((None, snapshot), c)"

definition rot_Free :: "'kv rot_cache \<Rightarrow> 'kv rot_cache option" where
  "rot_Free c =
     map_option (\<lambda>c. c\<lparr>rc_buf := None, rc_offset := 0, rc_idx := 0, rc_pending := no_pending\<rparr>)
       (copyOutLazySnapshots c)"

definition rot_PrepareSnapshots :: "int list \<Rightarrow> 'kv rot_cache \<Rightarrow> 'kv rot_cache option" where
  "rot_PrepareSnapshots offsets c =
     map_option (\<lambda>p. c\<lparr>rc_pending := p\<rparr>) (pending_prepare (rc_offset c) offsets (rc_pending c))"

definition rot_TakeSnapshots :: "'kv rot_cache \<Rightarrow> nat option list \<times> 'kv rot_cache" where
  "rot_TakeSnapshots c = (case pending_take (rc_pending c) of (ss, p) \<Rightarrow> (ss, c\<lparr>rc_pending := p\<rparr>))"
end
