(* ===== verification/RotatingProofs.thy ===== *)
theory RotatingProofs
  imports RotatingCache
begin

text \<open>
  The correctness of the rotating cache. A layout says how a buffer and its cursor stand for the
  window of a history; the two ways of writing keep it, and the snapshots, lazy or owned, stand for
  the histories of their moments, which are ghosts of the invariant \<open>rot_ok\<close>. The last sections
  interpret the interface \<open>layer_cache\<close> and state the properties.
\<close>

section \<open>Layouts\<close>

text \<open>The last \<open>n\<close> entries.\<close>

definition lastn :: "nat \<Rightarrow> 'a list \<Rightarrow> 'a list" where
  "lastn n xs = drop (length xs - n) xs"

lemma lastn_length [simp]: "length (lastn n xs) = min n (length xs)"
  by (simp add: lastn_def)

lemma lastn_all: "length xs \<le> n \<Longrightarrow> lastn n xs = xs"
  by (simp add: lastn_def)

lemma lastn_append: "lastn n xs @ ys = lastn (n + length ys) (xs @ ys)"
  by (simp add: lastn_def)

lemma drop_lastn: "n \<le> length xs \<Longrightarrow> drop k (lastn n xs) = lastn (n - k) xs"
proof (cases "k \<le> n")
  case True
  assume "n \<le> length xs"
  with True have "k + (length xs - n) = length xs - (n - k)" by linarith
  then show ?thesis by (simp add: lastn_def)
qed (simp add: lastn_def)

lemma lastn_take: "k \<le> n \<Longrightarrow> n \<le> length xs \<Longrightarrow> lastn k (take n xs) = take k (drop (n - k) xs)"
  by (simp add: lastn_def drop_take)

lemma slots_int [simp]: "slots (int a) (int d) b = take (d - a) (drop a b)"
  by (simp add: slots_def nat_diff_distrib')

text \<open>
  The buffer \<open>b\<close> with the write cursor \<open>i\<close> holds what a window of \<open>w\<close> needs of a history: all of it
  while it fits, else its end, in logical order with the cursor behind it or as a full ring.
\<close>

definition layout :: "nat \<Rightarrow> 'a list \<Rightarrow> nat \<Rightarrow> 'a list \<Rightarrow> bool" where
  "layout w b i h \<longleftrightarrow>
     (if length h \<le> w then i = length h \<and> length h \<le> length b \<and> length b \<le> w \<and> take i b = h
      else w \<le> length b \<and> length b \<le> length h \<and>
        (i = length b \<and> b = lastn (length b) h
         \<or> length b = w \<and> 0 < i \<and> i < w \<and> drop i b @ take i b = lastn w h))"

lemma layout_small:
  assumes "layout w b i h" "length h \<le> w"
  shows "i = length h" "length h \<le> length b" "length b \<le> w" "take (length h) b = h"
proof -
  have *: "i = length h \<and> length h \<le> length b \<and> length b \<le> w \<and> take i b = h"
    using assms(1) unfolding layout_def if_P [OF assms(2)] .
  from * show "i = length h" "length h \<le> length b" "length b \<le> w" by blast+
  from * show "take (length h) b = h" by metis
qed

lemma layout_large:
  assumes "layout w b i h" "\<not> length h \<le> w"
  shows "w \<le> length b" "length b \<le> length h"
    "i = length b \<and> b = lastn (length b) h
     \<or> length b = w \<and> 0 < i \<and> i < w \<and> drop i b @ take i b = lastn w h"
  using assms(1) unfolding layout_def if_not_P [OF assms(2)] by blast+

lemma layout_full: "h \<noteq> [] \<or> 0 < w \<Longrightarrow> length b \<le> length h \<Longrightarrow> (length h \<le> w \<longrightarrow> length b = length h) \<Longrightarrow> (w < length h \<longrightarrow> w \<le> length b) \<Longrightarrow>
    b = lastn (length b) h \<Longrightarrow> layout w b (length b) h"
  by (auto simp: layout_def lastn_all)

text \<open>A batched write: the buffer is put into logical order, trimmed and extended.\<close>

definition linear :: "nat \<Rightarrow> 'a list \<Rightarrow> nat \<Rightarrow> nat \<Rightarrow> 'a list \<times> nat" where
  "linear w b i off = (if i < length b then (if off \<le> w then (take i b, i) else (drop i b @ take i b, length b)) else (b, i))"

lemma linear_layout:
  assumes "layout w b i h"
  shows "\<exists>n. linear w b i (length h) = (lastn n h, n) \<and> n \<le> length h \<and> min w (length h) \<le> n"
proof (cases "length h \<le> w")
  case True
  note l = layout_small [OF assms True]
  have "linear w b i (length h) = (h, length h)"
  proof (cases "length h < length b")
    case True
    with l \<open>length h \<le> w\<close> show ?thesis unfolding linear_def by simp
  next
    case False
    with l(2) have "length h = length b" by simp
    with l(4) have "b = h" by (metis order_refl take_all)
    then show ?thesis using l(1) by (simp add: linear_def)
  qed
  then show ?thesis by (intro exI [of _ "length h"]) (simp add: lastn_all)
next
  case False
  note d = layout_large [OF assms False]
  have "linear w b i (length h) = (lastn (length b) h, length b)"
    using d(3)
  proof
    assume "i = length b \<and> b = lastn (length b) h"
    then show ?thesis by (simp add: linear_def)
  next
    assume "length b = w \<and> 0 < i \<and> i < w \<and> drop i b @ take i b = lastn w h"
    with False show ?thesis by (simp add: linear_def)
  qed
  with d(1,2) show ?thesis by (intro exI [of _ "length b"]) simp
qed

lemma concat_layout:
  assumes "layout w b i h" "0 < w" "kv \<noteq> []" "linear w b i (length h) = (b1, i1)"
  shows "let b' = drop (i1 + 1 - w) b1 @ kv; m = min (length h) (w - 1) in
    b' = lastn (length b') (h @ kv) \<and> length b' = m + length kv \<and> layout w b' (length b') (h @ kv)"
proof -
  obtain n where n: "b1 = lastn n h" "i1 = n" "n \<le> length h" "min w (length h) \<le> n"
    using linear_layout [OF assms(1)] assms(4) by auto
  have m: "n - (n + 1 - w) = min (length h) (w - 1)" using n(3,4) assms(2) by linarith
  then have b: "drop (i1 + 1 - w) b1 @ kv = lastn (min (length h) (w - 1) + length kv) (h @ kv)"
    unfolding n(1,2) using n(3) by (simp add: drop_lastn lastn_append)
  have len: "length (lastn (min (length h) (w - 1) + length kv) (h @ kv)) = min (length h) (w - 1) + length kv"
    by simp
  have "layout w (lastn (min (length h) (w - 1) + length kv) (h @ kv))
      (length (lastn (min (length h) (w - 1) + length kv) (h @ kv))) (h @ kv)"
  proof (rule layout_full)
    have "1 \<le> length kv" using assms(3) by (cases kv) simp_all
    then show "length (h @ kv) \<le> w \<longrightarrow> length (lastn (min (length h) (w - 1) + length kv) (h @ kv)) = length (h @ kv)"
      "w < length (h @ kv) \<longrightarrow> w \<le> length (lastn (min (length h) (w - 1) + length kv) (h @ kv))"
      unfolding len by auto
    show "lastn (min (length h) (w - 1) + length kv) (h @ kv)
        = lastn (length (lastn (min (length h) (w - 1) + length kv) (h @ kv))) (h @ kv)"
      unfolding len ..
  qed (use assms(2) in simp_all)
  then show ?thesis unfolding b Let_def len by simp
qed

text \<open>A single-token write into a buffer that has grown if there was no room.\<close>

definition rotate_trim :: "nat \<Rightarrow> 'a list \<Rightarrow> nat \<Rightarrow> 'a list \<times> nat" where
  "rotate_trim w b i = (if w < length b then (drop (length b - w) b, 0) else (b, if w \<le> i then 0 else i))"

lemma update_layout:
  assumes "layout w b i h" "0 < w" "length h < w \<longrightarrow> length h < length b" "rotate_trim w b i = (b2, i2)"
  shows "let b' = take i2 b2 @ [x] @ drop (i2 + 1) b2 in
    i2 < length b2 \<and> layout w b' (i2 + 1) (h @ [x]) \<and> min (length h + 1) w \<le> length b'"
proof (cases "length h < w")
  case True
  then have *: "i = length h" "length h < length b" "length b \<le> w" "take i b = h"
    using layout_small [OF assms(1)] assms(3) by simp_all
  with assms(4) True have "b2 = b" "i2 = i" by (auto simp: rotate_trim_def split: if_splits)
  with * True show ?thesis by (auto simp: layout_def Let_def)
next
  case False
  have ring: "length b2 = w \<and> i2 < w \<and> drop i2 b2 @ take i2 b2 = lastn w h"
  proof (cases "length h = w")
    case True
    then have "length h \<le> w" by simp
    note s = layout_small [OF assms(1) this]
    have l: "i = w" "length b = w" using s True by simp_all
    have e: "b = h" using s(4) l(2) True by simp
    have "b2 = b" "i2 = 0" using assms(4) l(1,2) by (simp_all add: rotate_trim_def)
    with l(2) e assms(2) show ?thesis by (simp add: lastn_all)
  next
    case f: False
    with False have "\<not> length h \<le> w" by simp
    from layout_large [OF assms(1) this] consider
        "i = length b" "w \<le> length b" "length b \<le> length h" "b = lastn (length b) h"
      | "length b = w" "0 < i" "i < w" "drop i b @ take i b = lastn w h"
      by blast
    then show ?thesis
    proof cases
      case 1
      show ?thesis
      proof (cases "w < length b")
        case True
        have "drop (length b - w) b = lastn w h"
          using 1 True by (metis diff_diff_cancel drop_lastn less_imp_le)
        with True 1 assms(2,4) show ?thesis by (auto simp: rotate_trim_def)
      next
        case False
        with 1 assms(2,4) show ?thesis by (auto simp: rotate_trim_def)
      qed
    next
      case 2
      with assms(4) show ?thesis by (auto simp: rotate_trim_def)
    qed
  qed
  define b' where "b' = take i2 b2 @ [x] @ drop (i2 + 1) b2"
  have r: "length b2 = w" "i2 < w" using ring by blast+
  have len: "length b' = w" using r by (simp add: b'_def)
  have "drop (i2 + 1) b' @ take (i2 + 1) b' = drop (i2 + 1) b2 @ take i2 b2 @ [x]"
    using r by (simp add: b'_def)
  also have "\<dots> = drop 1 (drop i2 b2 @ take i2 b2) @ [x]"
    using r by simp
  also have "\<dots> = lastn (w - 1) h @ [x]"
  proof -
    have "drop i2 b2 @ take i2 b2 = lastn w h" using ring by blast
    then have "drop 1 (drop i2 b2 @ take i2 b2) = drop 1 (lastn w h)" by (rule arg_cong)
    also have "\<dots> = lastn (w - 1) h" using False by (intro drop_lastn) simp
    finally show ?thesis by (rule arg_cong)
  qed
  also have "\<dots> = lastn w (h @ [x])"
    using assms(2) by (simp add: lastn_append)
  finally have rot: "drop (i2 + 1) b' @ take (i2 + 1) b' = lastn w (h @ [x])" .
  have "layout w b' (i2 + 1) (h @ [x])"
  proof (cases "i2 + 1 < w")
    case True
    with len rot False ring show ?thesis by (auto simp: layout_def)
  next
    case f: False
    then have "i2 + 1 = w" using ring by simp
    with len rot False show ?thesis by (simp add: layout_def)
  qed
  then show ?thesis using ring len by (simp add: b'_def Let_def)
qed

text \<open>What a layout shows: the history while it fits, else the slots from the cursor on and around.\<close>

lemma layout_live:
  assumes "layout w b i h"
  shows "layout w (take (min (length h) (length b)) b) i h"
proof (cases "length h \<le> w")
  case True
  then have "min (length h) (length b) = length h" "take (length h) b = h" "i = length h"
    using layout_small [OF assms] by simp_all
  with True show ?thesis by (simp add: layout_def)
next
  case False
  then have "min (length h) (length b) = length b" using assms by (simp add: layout_def)
  with assms show ?thesis by simp
qed

lemma layout_cut:
  assumes "layout w b i h" "length h \<le> w" "t \<le> length h"
  shows "layout w b t (take t h)"
proof -
  note l = layout_small [OF assms(1,2)]
  then have "take t b = take t h" using assms(3) by (metis min.absorb1 take_take)
  with assms(2,3) l(2,3) show ?thesis by (simp add: layout_def)
qed


section \<open>The invariant\<close>

text \<open>
  The ghosts are the history \<open>h\<close> of the slots written up to the offset and, for every snapshot, the
  history \<open>G s\<close> at its moment.
\<close>

definition holds :: "nat \<Rightarrow> 'kv list option \<Rightarrow> 'kv rot_snapshot \<Rightarrow> 'kv list \<Rightarrow> bool" where
  "holds w buf sn g \<longleftrightarrow> rs_to sn = int (length g) \<and> 0 \<le> rs_idx sn \<and>
     (case rs_data sn of
        Some d \<Rightarrow> layout w d (nat (rs_idx sn)) g
      | None \<Rightarrow> (\<exists>b. buf = Some b \<and> 0 \<le> rs_sliceStart sn \<and> rs_sliceStart sn \<le> rs_sliceEnd sn
          \<and> rs_sliceEnd sn \<le> int (length b) \<and> layout w (slots (rs_sliceStart sn) (rs_sliceEnd sn) b) (nat (rs_idx sn)) g))"

definition snaps_ok :: "nat set \<Rightarrow> nat \<Rightarrow> 'kv list option \<Rightarrow> nat list \<Rightarrow> (nat \<Rightarrow> 'kv rot_snapshot option) \<Rightarrow> nat
    \<Rightarrow> (nat \<Rightarrow> 'kv list) \<Rightarrow> bool" where
  "snaps_ok X w buf lazy hp nxt G \<longleftrightarrow> distinct lazy \<and>
     (\<forall>s sn. hp s = Some sn \<longrightarrow> s < nxt \<and> holds w buf sn (G s) \<and> (s \<in> X \<or> (rs_data sn = None \<longleftrightarrow> s \<in> set lazy))) \<and>
     (\<forall>s \<in> set lazy. s \<notin> X \<and> hp s \<noteq> None)"

definition pend_ok :: "pending_snapshots \<Rightarrow> nat \<Rightarrow> (nat \<Rightarrow> 'kv list) \<Rightarrow> bool" where
  "pend_ok p nxt G \<longleftrightarrow> (case pe_captured p of
     None \<Rightarrow> True
   | Some cs \<Rightarrow> \<forall>off s. (off, Some s) \<in> set (zip (pe_offsets p) cs) \<longrightarrow> s < nxt \<and> int (length (G s)) = off)"

definition buffer_ok :: "'kv rot_cache \<Rightarrow> 'kv list \<Rightarrow> bool" where
  "buffer_ok c h \<longleftrightarrow> 0 < rc_maxSize c \<and> 0 < rc_step c \<and> rc_offset c = int (length h) \<and> 0 \<le> rc_idx c \<and>
     (case rc_buf c of None \<Rightarrow> h = [] \<and> rc_idx c = 0 | Some b \<Rightarrow> layout (nat (rc_maxSize c)) b (nat (rc_idx c)) h)"

abbreviation rot_window :: "'kv rot_cache \<Rightarrow> nat" where
  "rot_window c \<equiv> nat (rc_maxSize c)"

definition snapshots_ok :: "nat set \<Rightarrow> 'kv rot_cache \<Rightarrow> (nat \<Rightarrow> 'kv list) \<Rightarrow> bool" where
  "snapshots_ok X c G \<longleftrightarrow> snaps_ok X (rot_window c) (rc_buf c) (rc_lazy c) (rc_heap c) (rc_next c) G"

definition rot_ok :: "'kv rot_cache \<Rightarrow> 'kv list \<Rightarrow> (nat \<Rightarrow> 'kv list) \<Rightarrow> bool" where
  "rot_ok c h G \<longleftrightarrow> buffer_ok c h \<and> snapshots_ok {} c G \<and> pend_ok (rc_pending c) (rc_next c) G"

text \<open>The part of the state that taking a snapshot does not change.\<close>

definition core :: "'kv rot_cache \<Rightarrow> 'kv list option \<times> int \<times> int \<times> int \<times> int \<times> int list" where
  "core c = (rc_buf c, rc_offset c, rc_step c, rc_maxSize c, rc_idx c, pe_offsets (rc_pending c))"

lemma buffer_ok_core: "core c = core d \<Longrightarrow> buffer_ok c h = buffer_ok d h"
  by (auto simp: core_def buffer_ok_def split: option.splits)

text \<open>Copying out.\<close>

lemma holds_copied:
  "holds w buf sn g \<Longrightarrow> rs_data sn = None \<Longrightarrow> buf = Some b \<Longrightarrow>
     holds w buf' (sn\<lparr>rs_data := Some (slots (rs_sliceStart sn) (rs_sliceEnd sn) b), rs_hook := False\<rparr>) g"
  by (auto simp: holds_def)

lemma holds_owned: "holds w buf sn g \<Longrightarrow> rs_data sn \<noteq> None \<Longrightarrow> holds w buf' sn g"
  by (auto simp: holds_def)

lemma copyOut_step:
  assumes "snapshots_ok X c G" "s \<in> set (rc_lazy c)"
  shows "\<exists>c'. rot_copyOut s c = Some c' \<and> snapshots_ok X c' G \<and> core c' = core c \<and> rc_pending c' = rc_pending c
    \<and> rc_next c' = rc_next c \<and> rc_lazy c' = remove1 s (rc_lazy c) \<and> (\<forall>r. r \<noteq> s \<longrightarrow> rc_heap c' r = rc_heap c r)
    \<and> (\<forall>r. rc_heap c' r = None \<longleftrightarrow> rc_heap c r = None)"
proof -
  note ok = assms(1) [unfolded snapshots_ok_def snaps_ok_def]
  from ok assms(2) obtain sn where sn: "rc_heap c s = Some sn" "s \<notin> X" by blast
  with ok assms(2) have d: "rs_data sn = None" "holds (rot_window c) (rc_buf c) sn (G s)" "s < rc_next c" by blast+
  then obtain b where b: "rc_buf c = Some b" by (auto simp: holds_def)
  let ?sn = "sn\<lparr>rs_data := Some (slots (rs_sliceStart sn) (rs_sliceEnd sn) b), rs_hook := False\<rparr>"
  define c1 where "c1 = (rot_dropLazySnapshot s c)\<lparr>rc_heap := (rc_heap c)(s \<mapsto> ?sn)\<rparr>"
  define c' where "c' = (if rs_hook sn then c1\<lparr>rc_fired := rc_fired c1 @ [(s, length (slots (rs_sliceStart sn) (rs_sliceEnd sn) b))]\<rparr> else c1)"
  have eq: "rot_copyOut s c = Some c'"
    using sn d b by (simp add: rot_copyOut_def c'_def c1_def Let_def rot_dropLazySnapshot_def)
  have f: "rc_buf c' = rc_buf c" "rc_offset c' = rc_offset c" "rc_step c' = rc_step c" "rc_maxSize c' = rc_maxSize c"
    "rc_idx c' = rc_idx c" "rc_pending c' = rc_pending c" "rc_next c' = rc_next c"
    "rc_lazy c' = remove1 s (rc_lazy c)" "rc_heap c' = (rc_heap c)(s \<mapsto> ?sn)"
    by (simp_all add: c'_def c1_def rot_dropLazySnapshot_def)
  have l: "set (remove1 s (rc_lazy c)) = set (rc_lazy c) - {s}" using ok by (simp add: set_remove1_eq)
  have "snapshots_ok X c' G"
    unfolding snapshots_ok_def snaps_ok_def f
  proof (intro conjI allI impI ballI)
    show "distinct (remove1 s (rc_lazy c))" using ok by (simp add: distinct_remove1)
  next
    fix r sr assume r: "((rc_heap c)(s \<mapsto> ?sn)) r = Some sr"
    show "r < rc_next c" using r ok d(3) by (auto split: if_splits)
    show "holds (rot_window c) (rc_buf c) sr (G r)"
      using r ok holds_copied [OF d(2,1) b] by (auto split: if_splits)
    show "r \<in> X \<or> (rs_data sr = None) = (r \<in> set (remove1 s (rc_lazy c)))"
      unfolding l using r ok by (auto split: if_splits)
  next
    fix r assume "r \<in> set (remove1 s (rc_lazy c))"
    then have "r \<in> set (rc_lazy c)" "r \<noteq> s" unfolding l by blast+
    with ok show "r \<notin> X" "((rc_heap c)(s \<mapsto> ?sn)) r \<noteq> None" by auto
  qed
  with eq f sn(1) show ?thesis by (auto simp: core_def)
qed

lemma copy_out_all_step:
  assumes "snapshots_ok X c G" "set ss \<subseteq> set (rc_lazy c)" "distinct ss"
  shows "\<exists>c'. rot_copy_out_all ss c = Some c' \<and> snapshots_ok X c' G \<and> core c' = core c \<and> rc_pending c' = rc_pending c
    \<and> rc_next c' = rc_next c \<and> set (rc_lazy c') = set (rc_lazy c) - set ss \<and> (\<forall>r. r \<notin> set ss \<longrightarrow> rc_heap c' r = rc_heap c r)
    \<and> (\<forall>r. rc_heap c' r = None \<longleftrightarrow> rc_heap c r = None)"
  using assms
proof (induction ss arbitrary: c)
  case (Cons s ss)
  from copyOut_step [OF Cons.prems(1), of s] Cons.prems(2) obtain c1 where
    1: "rot_copyOut s c = Some c1" "snapshots_ok X c1 G" "core c1 = core c" "rc_pending c1 = rc_pending c"
      "rc_next c1 = rc_next c" "rc_lazy c1 = remove1 s (rc_lazy c)" "\<forall>r. r \<noteq> s \<longrightarrow> rc_heap c1 r = rc_heap c r"
      "\<forall>r. rc_heap c1 r = None \<longleftrightarrow> rc_heap c r = None" by auto
  have l: "set (rc_lazy c1) = set (rc_lazy c) - {s}"
    using Cons.prems(1) 1(6) by (simp add: snapshots_ok_def snaps_ok_def set_remove1_eq)
  then have "set ss \<subseteq> set (rc_lazy c1)" using Cons.prems(2,3) by auto
  from Cons.IH [OF 1(2) this] Cons.prems(3) obtain c2 where
    2: "rot_copy_out_all ss c1 = Some c2" "snapshots_ok X c2 G" "core c2 = core c1" "rc_pending c2 = rc_pending c1"
      "rc_next c2 = rc_next c1" "set (rc_lazy c2) = set (rc_lazy c1) - set ss"
      "\<forall>r. r \<notin> set ss \<longrightarrow> rc_heap c2 r = rc_heap c1 r" "\<forall>r. rc_heap c2 r = None \<longleftrightarrow> rc_heap c1 r = None" by auto
  have "rot_copy_out_all (s # ss) c = Some c2" using 1(1) 2(1) by simp
  moreover have "set (rc_lazy c2) = set (rc_lazy c) - set (s # ss)" using 2(6) l by auto
  ultimately show ?case using 1 2 by (intro exI [of _ c2]) auto
qed simp

lemma copyOutLazy_step:
  assumes "snapshots_ok X c G"
  shows "\<exists>c'. copyOutLazySnapshots c = Some c' \<and> snapshots_ok X c' G \<and> core c' = core c \<and> rc_pending c' = rc_pending c
    \<and> rc_next c' = rc_next c \<and> rc_lazy c' = [] \<and> (\<forall>r. r \<notin> set (rc_lazy c) \<longrightarrow> rc_heap c' r = rc_heap c r)
    \<and> (\<forall>r. rc_heap c' r = None \<longleftrightarrow> rc_heap c r = None)"
proof -
  have "distinct (rc_lazy c)" using assms by (simp add: snapshots_ok_def snaps_ok_def)
  from copy_out_all_step [OF assms order_refl this] show ?thesis
    unfolding copyOutLazySnapshots_def by auto
qed

text \<open>Without lazy snapshots the buffer may change.\<close>

lemma snaps_frozen:
  assumes "snaps_ok {} w buf [] hp nxt G"
  shows "snaps_ok {} w buf' [] hp nxt G"
  using assms holds_owned unfolding snaps_ok_def by fastforce

section \<open>Taking snapshots\<close>

definition extends :: "'kv list \<Rightarrow> 'kv rot_cache \<Rightarrow> (nat \<Rightarrow> 'kv list) \<Rightarrow> 'kv rot_cache \<Rightarrow> (nat \<Rightarrow> 'kv list) \<Rightarrow> bool" where
  "extends h c G c' G' \<longleftrightarrow> core c' = core c \<and> rc_next c \<le> rc_next c' \<and>
     (\<forall>s < rc_next c. G' s = G s \<and> rc_heap c' s = rc_heap c s) \<and>
     (\<forall>s. rc_next c \<le> s \<longrightarrow> s < rc_next c' \<longrightarrow> (\<exists>n \<le> length h. G' s = take n h))"

lemma extends_refl [simp]: "extends h c G c G"
  by (simp add: extends_def)

lemma extends_trans:
  assumes "extends h c G c1 G1" "extends h c1 G1 c2 G2"
  shows "extends h c G c2 G2"
proof -
  have "\<exists>n \<le> length h. G2 s = take n h" if "rc_next c \<le> s" "s < rc_next c2" for s
    using assms that by (cases "s < rc_next c1") (auto simp: extends_def)
  with assms show ?thesis by (auto simp: extends_def)
qed

lemma new_snapshot_step:
  assumes "snapshots_ok {} c G" "holds (rot_window c) (rc_buf c) sn (take n h)" "n \<le> length h"
    "rot_new_snapshot sn c = (s, c')"
  shows "\<exists>G'. snapshots_ok {} c' G' \<and> extends h c G c' G' \<and> rc_pending c' = rc_pending c
    \<and> s = Some (rc_next c) \<and> rc_next c < rc_next c' \<and> G' (rc_next c) = take n h"
proof -
  let ?n = "rc_next c" and ?G = "G(rc_next c := take n h)"
  note ok = assms(1) [unfolded snapshots_ok_def snaps_ok_def]
  from assms(4) have c': "s = Some ?n" "rc_buf c' = rc_buf c" "rc_maxSize c' = rc_maxSize c" "core c' = core c"
      "rc_pending c' = rc_pending c" "rc_next c' = ?n + 1" "rc_heap c' = (rc_heap c)(?n \<mapsto> sn)"
      "rc_lazy c' = (if rs_data sn = None then rc_lazy c @ [?n] else rc_lazy c)"
    by (auto simp: rot_new_snapshot_def core_def)
  have fresh: "rc_heap c ?n = None" using ok by (metis less_irrefl option.exhaust)
  then have nl: "?n \<notin> set (rc_lazy c)" using ok by blast
  have "snapshots_ok {} c' ?G"
    unfolding snapshots_ok_def snaps_ok_def c'
  proof (intro conjI allI impI ballI)
    show "distinct (if rs_data sn = None then rc_lazy c @ [?n] else rc_lazy c)" using ok nl by simp
  next
    fix r sr assume r: "((rc_heap c)(?n \<mapsto> sn)) r = Some sr"
    show "r < ?n + 1" using r ok by (fastforce split: if_splits)
    show "holds (rot_window c) (rc_buf c) sr (?G r)"
      using r ok assms(2) by (auto split: if_splits)
    show "r \<in> {} \<or> (rs_data sr = None) = (r \<in> set (if rs_data sn = None then rc_lazy c @ [?n] else rc_lazy c))"
      using r ok nl by (auto split: if_splits)
  next
    fix r assume "r \<in> set (if rs_data sn = None then rc_lazy c @ [?n] else rc_lazy c)"
    then have "r = ?n \<or> r \<in> set (rc_lazy c)" by (auto split: if_splits)
    with ok show "((rc_heap c)(?n \<mapsto> sn)) r \<noteq> None" by auto
  qed simp
  moreover have "extends h c G c' ?G"
    using c' assms(3) by (auto simp: extends_def less_Suc_eq)
  ultimately show ?thesis using c' by (intro exI [of _ ?G]) simp
qed

lemma rot_Snapshot_step:
  assumes "buffer_ok c h" "snapshots_ok {} c G" "rot_Snapshot from0 c = (s, c')"
  shows "\<exists>G'. snapshots_ok {} c' G' \<and> extends h c G c' G' \<and> rc_pending c' = rc_pending c
    \<and> (\<forall>k. s = Some k \<longrightarrow> k < rc_next c' \<and> G' k = h)"
proof (cases "s = None")
  case True
  with assms(3) have "c' = c"
    by (auto simp: rot_Snapshot_def rot_new_snapshot_def split: option.splits if_splits)
  with assms(2) True show ?thesis by auto
next
  case False
  then obtain b where b: "rc_buf c = Some b" using assms(3) by (auto simp: rot_Snapshot_def rot_State_def split: option.splits)
  let ?d = "slots 0 (min (rc_offset c) (int (length b))) b"
  let ?sn = "\<lparr>rs_data = Some ?d, rs_from = from0, rs_to = rc_offset c, rs_idx = rc_idx c,
                 rs_sliceStart = 0, rs_sliceEnd = 0, rs_hook = False\<rparr>"
  have new: "rot_new_snapshot ?sn c = (s, c')"
    using assms(3) False b by (auto simp: rot_Snapshot_def rot_State_def split: if_splits)
  have bo: "rc_offset c = int (length h)" "0 \<le> rc_idx c" "layout (rot_window c) b (nat (rc_idx c)) h"
    using assms(1) b by (simp_all add: buffer_ok_def)
  have "?d = take (min (length h) (length b)) b"
    using bo(1) by (simp add: slots_def min_def)
  then have "holds (rot_window c) (rc_buf c) ?sn (take (length h) h)"
    using bo layout_live [OF bo(3)] by (simp add: holds_def)
  from new_snapshot_step [OF assms(2) this order_refl new] show ?thesis by auto
qed

lemma lazy_step:
  assumes "buffer_ok c h" "snapshots_ok {} c G" "lazyRotatingSnapshot (int n) c = (s, c')"
    "n \<le> length h" "rc_buf c = Some b" "b = lastn (length b) h" "length b \<le> length h"
    "length h - length b \<le> n - min n (rot_window c)"
  shows "\<exists>G'. snapshots_ok {} c' G' \<and> extends h c G c' G' \<and> rc_pending c' = rc_pending c
    \<and> (\<forall>k. s = Some k \<longrightarrow> k < rc_next c' \<and> G' k = take n h)"
proof (cases "s = None")
  case True
  with assms(3) have "c' = c"
    by (auto simp: lazyRotatingSnapshot_def rot_new_snapshot_def Let_def split: option.splits if_splits)
  with assms(2) True show ?thesis by auto
next
  case False
  let ?w = "rot_window c"
  have W: "0 < rc_maxSize c" "rc_maxSize c = int ?w" "rc_offset c = int (length h)"
    using assms(1) by (simp_all add: buffer_ok_def)
  define base where "base = length h - length b"
  define live where "live = min n ?w"
  have base: "rc_offset c - int (length b) = int base" using W(3) assms(7) by (simp add: base_def of_nat_diff)
  have live: "min (int n) (rc_maxSize c) = int live" using W(1) by (auto simp: live_def min_def)
  have le: "base \<le> n - live" "live \<le> n" "n \<le> length h" using assms(4,8) by (simp_all add: base_def live_def)
  have st: "int n - int live - int base = int (n - live - base)" "int n - int base = int (n - base)"
    using le by (simp_all add: of_nat_diff)
  let ?sn = "\<lparr>rs_data = None, rs_from = int n - int live, rs_to = int n, rs_idx = int live,
                  rs_sliceStart = int (n - live - base), rs_sliceEnd = int (n - base), rs_hook = False\<rparr>"
  have new: "rot_new_snapshot ?sn c = (s, c')"
    using assms(3) False unfolding lazyRotatingSnapshot_def assms(5) option.case Let_def base live st
    by (auto split: if_splits)
  have b: "b = drop base h" using assms(6) by (simp add: base_def lastn_def)
  have slice: "slots (int (n - live - base)) (int (n - base)) b = lastn live (take n h)"
  proof -
    have "n - base - (n - live - base) = live" "n - live - base + base = n - live"
      using le by linarith+
    moreover have "live \<le> n" "n \<le> length h" using le by simp_all
    ultimately show ?thesis by (simp only: slots_int b drop_drop lastn_take)
  qed
  have ll: "length (lastn live (take n h)) = live" using le by simp
  have "layout ?w (lastn live (take n h)) live (take n h)"
  proof (cases "n \<le> ?w")
    case True
    then have "live = n" by (simp add: live_def)
    with True le(3) show ?thesis by (simp add: layout_def lastn_all)
  next
    case f: False
    then have "live = ?w" by (simp add: live_def)
    with f le ll show ?thesis unfolding layout_def by simp
  qed
  moreover have "n - base \<le> length b" using le(3) by (simp add: b)
  ultimately have "holds ?w (rc_buf c) ?sn (take n h)"
    using le slice unfolding holds_def assms(5)
    by (simp only: rot_snapshot.simps option.case length_take nat_int min.absorb2 of_nat_0_le_iff of_nat_le_iff option.inject
        ex_simps simp_thms conj_assoc)
  from new_snapshot_step [OF assms(2) this assms(4) new] show ?thesis by auto
qed

text \<open>\<^verbatim>\<open>captureReached\<close> with a way of taking snapshots of the first \<open>n\<close> slots.\<close>

definition takes :: "('kv rot_cache \<Rightarrow> nat option \<times> 'kv rot_cache) \<Rightarrow> 'kv rot_cache \<Rightarrow> 'kv list \<Rightarrow> nat \<Rightarrow> bool" where
  "takes snap c0 h n \<longleftrightarrow> n \<le> length h \<and> (\<forall>c G s c'. core c = core c0 \<longrightarrow> snapshots_ok {} c G \<longrightarrow> snap c = (s, c') \<longrightarrow>
     (\<exists>G'. snapshots_ok {} c' G' \<and> extends h c G c' G' \<and> rc_pending c' = rc_pending c
        \<and> (\<forall>k. s = Some k \<longrightarrow> k < rc_next c' \<and> G' k = take n h)))"

definition caps_ok :: "int list \<Rightarrow> nat option list \<Rightarrow> nat \<Rightarrow> (nat \<Rightarrow> 'kv list) \<Rightarrow> bool" where
  "caps_ok offs cs nxt G \<longleftrightarrow> (\<forall>off s. (off, Some s) \<in> set (zip offs cs) \<longrightarrow> s < nxt \<and> int (length (G s)) = off)"

lemma caps_ok_extends: "caps_ok offs cs (rc_next c) G \<Longrightarrow> extends h c G c' G' \<Longrightarrow> caps_ok offs cs (rc_next c') G'"
  by (fastforce simp: caps_ok_def extends_def)

lemma capture_entries_step:
  assumes "takes snap c0 h n" "core c = core c0" "snapshots_ok {} c G" "caps_ok offs cs (rc_next c) G"
    "capture_with snap (int n) offs cs c = (cs', hit, c')"
  shows "\<exists>G'. snapshots_ok {} c' G' \<and> extends h c G c' G' \<and> rc_pending c' = rc_pending c \<and> caps_ok offs cs' (rc_next c') G'"
  using assms(2-5)
proof (induction offs arbitrary: cs c G cs' hit c')
  case Nil
  then show ?case by (auto simp: caps_ok_def)
next
  case (Cons off offs)
  show ?case
  proof (cases cs)
    case Nil
    with Cons.prems show ?thesis by (auto simp: caps_ok_def)
  next
    case cs: (Cons cap caps)
    have tail: "caps_ok offs caps (rc_next c) G" using Cons.prems(3) cs by (auto simp: caps_ok_def)
    show ?thesis
    proof (cases "cap = None \<and> off = int n")
      case True
      obtain s c1 where s: "snap c = (s, c1)" by (cases "snap c")
      obtain cs1 hit1 c2 where e: "capture_with snap (int n) offs caps c1 = (cs1, hit1, c2)"
        by (cases "capture_with snap (int n) offs caps c1")
      have r: "cs' = s # cs1" "c' = c2" using Cons.prems(4) cs True s e by auto
      obtain G1 where G1: "snapshots_ok {} c1 G1" "extends h c G c1 G1" "rc_pending c1 = rc_pending c"
          "\<forall>k. s = Some k \<longrightarrow> k < rc_next c1 \<and> G1 k = take n h"
        using assms(1) Cons.prems(1,2) s unfolding takes_def by blast
      have "core c1 = core c0" using G1(2) Cons.prems(1) by (simp add: extends_def)
      from Cons.IH [OF this G1(1) caps_ok_extends [OF tail G1(2)] e] obtain G2 where
        G2: "snapshots_ok {} c2 G2" "extends h c1 G1 c2 G2" "rc_pending c2 = rc_pending c1" "caps_ok offs cs1 (rc_next c2) G2"
        by blast
      have "n \<le> length h" using assms(1) by (simp add: takes_def)
      then have "\<forall>k. s = Some k \<longrightarrow> k < rc_next c2 \<and> int (length (G2 k)) = off"
        using G1(4) G2(2) True by (auto simp: extends_def)
      with G2(4) have "caps_ok (off # offs) (s # cs1) (rc_next c2) G2"
        by (auto simp: caps_ok_def)
      with G1 G2 r extends_trans [OF G1(2) G2(2)] show ?thesis by auto
    next
      case False
      obtain cs1 hit1 c2 where e: "capture_with snap (int n) offs caps c = (cs1, hit1, c2)"
        by (cases "capture_with snap (int n) offs caps c")
      have r: "cs' = cap # cs1" "c' = c2" using Cons.prems(4) cs False e by auto
      from Cons.IH [OF Cons.prems(1,2) tail e] obtain G2 where
        G2: "snapshots_ok {} c2 G2" "extends h c G c2 G2" "rc_pending c2 = rc_pending c" "caps_ok offs cs1 (rc_next c2) G2"
        by blast
      have "\<forall>k. cap = Some k \<longrightarrow> k < rc_next c2 \<and> int (length (G2 k)) = off"
        using Cons.prems(3) cs G2(2) by (fastforce simp: caps_ok_def extends_def)
      with G2(4) have "caps_ok (off # offs) (cap # cs1) (rc_next c2) G2"
        by (auto simp: caps_ok_def)
      with G2 r show ?thesis by auto
    qed
  qed
qed

lemma pend_ok_caps:
  "pend_ok p nxt G \<longleftrightarrow> (case pe_captured p of None \<Rightarrow> True | Some cs \<Rightarrow> caps_ok (pe_offsets p) cs nxt G)"
  by (simp add: pend_ok_def caps_ok_def split: option.splits)

lemma captureReached_step:
  assumes "takes snap c0 h n" "core c = core c0" "snapshots_ok {} c G" "pend_ok (rc_pending c) (rc_next c) G"
  shows "\<exists>G'. snapshots_ok {} (rot_captureReached (int n) snap c) G' \<and> extends h c G (rot_captureReached (int n) snap c) G'
    \<and> pend_ok (rc_pending (rot_captureReached (int n) snap c)) (rc_next (rot_captureReached (int n) snap c)) G'"
proof (cases "pe_captured (rc_pending c)")
  case None
  with assms(3,4) show ?thesis by (auto simp: rot_captureReached_def)
next
  case (Some caps)
  obtain cs' hit c' where e: "capture_with snap (int n) (pe_offsets (rc_pending c)) caps c = (cs', hit, c')"
    by (cases "capture_with snap (int n) (pe_offsets (rc_pending c)) caps c")
  have "caps_ok (pe_offsets (rc_pending c)) caps (rc_next c) G" using assms(4) Some by (simp add: pend_ok_caps)
  from capture_entries_step [OF assms(1-3) this e] obtain G' where
    G': "snapshots_ok {} c' G'" "extends h c G c' G'" "rc_pending c' = rc_pending c"
      "caps_ok (pe_offsets (rc_pending c)) cs' (rc_next c') G'" by blast
  let ?c = "c'\<lparr>rc_pending := (rc_pending c')\<lparr>pe_captured := Some cs', pe_base := (if hit then int n else pe_base (rc_pending c'))\<rparr>\<rparr>"
  have "rot_captureReached (int n) snap c = ?c" using Some e by (simp add: rot_captureReached_def)
  moreover have "snapshots_ok {} ?c G'" using G'(1) by (simp add: snapshots_ok_def)
  moreover have "extends h c G ?c G'" using G'(2) by (simp add: extends_def core_def)
  moreover have "pend_ok (rc_pending ?c) (rc_next ?c) G'" using G'(3,4) by (simp add: pend_ok_caps)
  ultimately show ?thesis by auto
qed

section \<open>Writing\<close>

lemma layout_ring:
  assumes "layout w b i h" "length b \<le> w"
  shows "i \<le> length (take (min (length h) w) b)
    \<and> drop i (take (min (length h) w) b) @ take i (take (min (length h) w) b) = lastn w h"
proof (cases "length h \<le> w")
  case True
  note l = layout_small [OF assms(1) True]
  have "take (min (length h) w) b = h" using True l(4) by (simp only: min.absorb1)
  with True l(1) show ?thesis by (simp add: lastn_all)
next
  case False
  note l = layout_large [OF assms(1) False]
  then have "length b = w" using assms(2) by simp
  then have v: "take (min (length h) w) b = b" using False by simp
  from l(3) show ?thesis unfolding v
  proof
    assume i: "i = length b \<and> b = lastn (length b) h"
    have "drop i b @ take i b = b" using i by simp
    also have "b = lastn w h" using i \<open>length b = w\<close> by metis
    finally show "i \<le> length b \<and> drop i b @ take i b = lastn w h" using i by simp
  next
    assume "length b = w \<and> 0 < i \<and> i < w \<and> drop i b @ take i b = lastn w h"
    then show "i \<le> length b \<and> drop i b @ take i b = lastn w h" by auto
  qed
qed

lemma slots_to_end [simp]: "slots (int a) (int (length b)) b = drop a b"
  by (simp add: slots_def nat_diff_distrib')

lemma concat_step:
  assumes "buffer_ok c h" "snapshots_ok {} c G" "kv \<noteq> []"
  shows "\<exists>new c'. concat_kv kv c = Some (new, c') \<and> rc_buf c' = Some new \<and> buffer_ok c' (h @ kv) \<and> snapshots_ok {} c' G
    \<and> new = lastn (length new) (h @ kv) \<and> length new = min (length h) (rot_window c - 1) + length kv
    \<and> rc_maxSize c' = rc_maxSize c \<and> rc_pending c' = rc_pending c \<and> rc_next c' = rc_next c
    \<and> (\<forall>r. rc_heap c' r = None \<longleftrightarrow> rc_heap c r = None)"
proof -
  from copyOutLazy_step [OF assms(2)] obtain c1 where
    1: "copyOutLazySnapshots c = Some c1" "snapshots_ok {} c1 G" "core c1 = core c" "rc_pending c1 = rc_pending c"
      "rc_next c1 = rc_next c" "rc_lazy c1 = []" "\<forall>r. rc_heap c1 r = None \<longleftrightarrow> rc_heap c r = None" by auto
  have f: "rc_buf c1 = rc_buf c" "rc_offset c1 = rc_offset c" "rc_maxSize c1 = rc_maxSize c" "rc_idx c1 = rc_idx c"
      "rc_step c1 = rc_step c"
    using 1(3) by (simp_all add: core_def)
  define w where "w = rot_window c"
  have W: "rc_maxSize c = int w" "0 < w" "rc_offset c = int (length h)" "0 < rc_step c"
    using assms(1) by (simp_all add: buffer_ok_def w_def)
  have n: "0 < length kv" using assms(3) by simp
  define new where "new = (case rc_buf c of None \<Rightarrow> kv | Some b0 \<Rightarrow>
     (case linear w b0 (nat (rc_idx c)) (length h) of (b1, i1) \<Rightarrow> drop (i1 + 1 - w) b1 @ kv))"
  let ?c = "c1\<lparr>rc_buf := Some new, rc_offset := rc_offset c1 + int (length kv), rc_idx := int (length new)\<rparr>"
  have res: "concat_kv kv c = Some (new, ?c) \<and> new = lastn (length new) (h @ kv)
    \<and> length new = min (length h) (w - 1) + length kv \<and> layout w new (length new) (h @ kv)"
  proof (cases "rc_buf c")
    case None
    then have h: "h = []" using assms(1) by (simp add: buffer_ok_def)
    have "new = kv" using None by (simp add: new_def)
    moreover have "layout w kv (length kv) ([] @ kv)"
      using W(2) by (intro layout_full) (auto simp: lastn_all)
    ultimately show ?thesis using None h 1(1) f by (simp add: concat_kv_def Let_def lastn_all)
  next
    case (Some b0)
    define i where "i = nat (rc_idx c)"
    have i: "rc_idx c = int i" "layout w b0 i h" using assms(1) Some by (simp_all add: buffer_ok_def i_def w_def)
    obtain b1 i1 where l: "linear w b0 i (length h) = (b1, i1)" by (cases "linear w b0 i (length h)")
    have "(if rc_idx c < int (length b0) then
             (if rc_offset c \<le> rc_maxSize c then (slots 0 (rc_idx c) b0, rc_idx c)
              else (slots (rc_idx c) (int (length b0)) b0 @ slots 0 (rc_idx c) b0, int (length b0)))
           else (b0, rc_idx c)) = (b1, int i1)"
      using l slots_int [of 0 i b0] by (auto simp: linear_def i(1) W(1,3) split: if_splits)
    moreover have "(if 0 < int i1 - rc_maxSize c + 1 then slots (int i1 - rc_maxSize c + 1) (int (length b1)) b1 else b1)
        = drop (i1 + 1 - w) b1"
    proof (cases "w \<le> i1")
      case True
      then have t: "int i1 - rc_maxSize c + 1 = int (i1 + 1 - w)" using W(1) by simp
      have "0 < int (i1 + 1 - w)" using True by simp
      then show ?thesis unfolding t by (simp only: if_True slots_to_end)
    next
      case False
      then show ?thesis using W(1) by simp
    qed
    moreover have nw: "new = drop (i1 + 1 - w) b1 @ kv" using Some l by (simp add: new_def i_def)
    ultimately have "concat_kv kv c = Some (new, ?c)"
      unfolding concat_kv_def 1(1) option.case Let_def f Some by simp
    moreover have "new = lastn (length new) (h @ kv) \<and> length new = min (length h) (w - 1) + length kv
        \<and> layout w new (length new) (h @ kv)"
      using concat_layout [OF i(2) W(2) assms(3) l] unfolding Let_def nw [symmetric] .
    ultimately show ?thesis by blast
  qed
  from res have 2: "concat_kv kv c = Some (new, ?c)" "new = lastn (length new) (h @ kv)"
      "length new = min (length h) (rot_window c - 1) + length kv" "layout w new (length new) (h @ kv)"
    unfolding w_def by blast+
  have 3: "buffer_ok ?c (h @ kv)" using 2(4) W f by (simp add: buffer_ok_def)
  have 4: "snapshots_ok {} ?c G"
    using 1(2,6) f(3) snaps_frozen by (auto simp: snapshots_ok_def)
  have 5: "rc_buf ?c = Some new" "rc_maxSize ?c = rc_maxSize c" "rc_pending ?c = rc_pending c" "rc_next ?c = rc_next c"
      "\<forall>r. rc_heap ?c r = None \<longleftrightarrow> rc_heap c r = None"
    using 1(4,5,7) f(3) by simp_all
  show ?thesis
    by (rule exI [of _ new], rule exI [of _ ?c], intro conjI) (rule 2 3 4 5)+
qed

lemma update_step:
  fixes c :: "('kv :: zero) rot_cache"
  assumes "buffer_ok c h" "snapshots_ok {} c G"
  shows "\<exists>new c'. update_kv [x] c = Some (new, c') \<and> buffer_ok c' (h @ [x]) \<and> snapshots_ok {} c' G
    \<and> nat (rc_idx c') \<le> length new \<and> 0 < rc_idx c'
    \<and> drop (nat (rc_idx c')) new @ take (nat (rc_idx c')) new = lastn (rot_window c) (h @ [x])
    \<and> rc_maxSize c' = rc_maxSize c \<and> rc_pending c' = rc_pending c \<and> rc_next c' = rc_next c
    \<and> (\<forall>r. rc_heap c' r = None \<longleftrightarrow> rc_heap c r = None)"
proof -
  from copyOutLazy_step [OF assms(2)] obtain c1 where
    1: "copyOutLazySnapshots c = Some c1" "snapshots_ok {} c1 G" "core c1 = core c" "rc_pending c1 = rc_pending c"
      "rc_next c1 = rc_next c" "rc_lazy c1 = []" "\<forall>r. rc_heap c1 r = None \<longleftrightarrow> rc_heap c r = None" by auto
  have f: "rc_buf c1 = rc_buf c" "rc_offset c1 = rc_offset c" "rc_maxSize c1 = rc_maxSize c" "rc_idx c1 = rc_idx c"
      "rc_step c1 = rc_step c"
    using 1(3) by (simp_all add: core_def)
  define w where "w = rot_window c"
  have W: "rc_maxSize c = int w" "0 < w" "rc_offset c = int (length h)" "0 < rc_step c"
    using assms(1) by (simp_all add: buffer_ok_def w_def)
  let ?z = "replicate (nat (min (rc_step c1) (rc_maxSize c1 - rc_offset c1))) (0 :: 'kv)"
  define g where "g = (case rc_buf c1 of
                  None \<Rightarrow> (?z, rc_offset c1)
                | Some b \<Rightarrow> if int (length b) \<le> rc_offset c1 \<and> int (length b) < rc_maxSize c1 then (b @ ?z, rc_offset c1)
                           else (b, rc_idx c1))"
  obtain b1 i1 where g1: "g = (b1, i1)" by (cases g)
  have z: "length h < w \<Longrightarrow> 0 < length ?z \<and> length h + length ?z \<le> w"
    using W f by auto
  have grown: "0 \<le> i1 \<and> layout w b1 (nat i1) h \<and> (length h < w \<longrightarrow> length h < length b1)"
  proof (cases "rc_buf c1")
    case None
    then have "h = []" using assms(1) f by (simp add: buffer_ok_def)
    moreover from None g1 have "b1 = ?z" "i1 = 0" using W(3) f \<open>h = []\<close> by (simp_all add: g_def)
    ultimately show ?thesis using z W(2) by (simp add: layout_def)
  next
    case (Some b)
    have i: "0 \<le> rc_idx c" "layout w b (nat (rc_idx c)) h"
      using assms(1) Some f by (simp_all add: buffer_ok_def w_def)
    show ?thesis
    proof (cases "length b \<le> length h \<and> length b < w")
      case True
      then have hw: "length h \<le> w" using i(2) layout_large(1) by (metis linorder_not_le)
      note l = layout_small [OF i(2) hw]
      have lb: "length b = length h" using l(2) True by simp
      with l(4) have "b = h" by (metis order_refl take_all)
      have "int (length b) \<le> rc_offset c1 \<and> int (length b) < rc_maxSize c1" using True W f by simp
      then have "g = (b @ ?z, rc_offset c1)" unfolding g_def Some option.case by (rule if_P)
      then have "b1 = b @ ?z" "i1 = int (length h)" using g1 W(3) f(2) by simp_all
      with \<open>b = h\<close> z lb True W show ?thesis by (simp add: layout_def)
    next
      case False
      then have "b1 = b" "i1 = rc_idx c" using g1 Some W f by (auto simp: g_def)
      moreover have "length h < length b" if "length h < w"
        using False layout_small(2) [OF i(2)] that by auto
      ultimately show ?thesis using i by blast
    qed
  qed
  obtain b2 i2 where r: "rotate_trim w b1 (nat i1) = (b2, i2)" by (cases "rotate_trim w b1 (nat i1)")
  define b3 where "b3 = take i2 b2 @ [x] @ drop (i2 + 1) b2"
  have u: "i2 < length b2" "layout w b3 (i2 + 1) (h @ [x])" "min (length h + 1) w \<le> length b3"
    using update_layout [of w b1 "nat i1" h b2 i2 x] grown W(2) r by (auto simp: b3_def Let_def)
  have lb2: "length b2 \<le> w" using r by (auto simp: rotate_trim_def split: if_splits)
  have lb3: "length b3 \<le> w" using lb2 u(1) by (simp add: b3_def)
  let ?c = "c1\<lparr>rc_buf := Some b3, rc_offset := rc_offset c1 + 1, rc_idx := int i2 + 1\<rparr>"
  let ?new = "take (min (length (h @ [x])) w) b3"
  have tr: "(if 0 < int (length b1) - rc_maxSize c1 then (slots (int (length b1) - rc_maxSize c1) (int (length b1)) b1, rc_maxSize c1)
      else (b1, i1)) = (b2, if w < length b1 then int w else i1)"
  proof (cases "w < length b1")
    case True
    then have e: "int (length b1) - rc_maxSize c1 = int (length b1 - w)" using W(1) f by (simp add: of_nat_diff)
    have "0 < int (length b1 - w)" using True by simp
    moreover have "b2 = drop (length b1 - w) b1" using True r by (simp add: rotate_trim_def)
    ultimately show ?thesis using True unfolding e by (simp only: if_True slots_to_end W(1) f)
  next
    case False
    with r show ?thesis by (simp add: rotate_trim_def W(1) f)
  qed
  have i3: "(if rc_maxSize c1 \<le> (if w < length b1 then int w else i1) then 0 else (if w < length b1 then int w else i1)) = int i2"
    using r grown by (auto simp: rotate_trim_def W(1) f split: if_splits)
  have sl: "slots 0 (int i2) b2 @ [x] @ slots (int i2 + 1) (int (length b2)) b2 = b3"
    using slots_int [of 0 i2 b2] slots_to_end [of "i2 + 1" b2] by (simp add: b3_def add.commute)
  have vl: "slots 0 (min (rc_offset c1 + 1) (rc_maxSize c1)) b3 = ?new"
  proof -
    have "min (rc_offset c1 + 1) (rc_maxSize c1) = int (min (length (h @ [x])) w)"
      using W f by (simp add: min_def)
    then show ?thesis using slots_int [of 0 "min (length (h @ [x])) w" b3] by simp
  qed
  have 2: "update_kv [x] c = Some (?new, ?c)"
    unfolding update_kv_def 1(1) option.case Let_def g_def [symmetric] g1 prod.case tr i3
    using sl vl by simp
  have 3: "buffer_ok ?c (h @ [x])" using u(2) W f by (simp add: buffer_ok_def nat_add_distrib)
  have 4: "snapshots_ok {} ?c G"
    using 1(2,6) f(3) snaps_frozen by (auto simp: snapshots_ok_def)
  have i: "nat (rc_idx ?c) = i2 + 1" by (simp add: nat_add_distrib)
  from layout_ring [OF u(2) lb3] have 5: "nat (rc_idx ?c) \<le> length ?new"
      "drop (nat (rc_idx ?c)) ?new @ take (nat (rc_idx ?c)) ?new = lastn (rot_window c) (h @ [x])"
    unfolding i w_def by blast+
  have 6: "0 < rc_idx ?c" "rc_maxSize ?c = rc_maxSize c" "rc_pending ?c = rc_pending c" "rc_next ?c = rc_next c"
      "\<forall>r. rc_heap ?c r = None \<longleftrightarrow> rc_heap c r = None"
    using 1(4,5,7) f(3) by simp_all
  show ?thesis
    by (rule exI [of _ ?new], rule exI [of _ ?c], intro conjI) (rule 2 3 4 5 6)+
qed

text \<open>The captures of a write, each of the history up to its offset.\<close>

lemma rot_ok_parts:
  assumes "rot_ok c h G"
  shows "buffer_ok c h" "snapshots_ok {} c G" "pend_ok (rc_pending c) (rc_next c) G"
  using assms by (simp_all add: rot_ok_def)

lemma takes_whole: "buffer_ok c h \<Longrightarrow> takes (rot_Snapshot from0) c h (length h)"
  unfolding takes_def using rot_Snapshot_step buffer_ok_core by (metis order_refl take_all)

lemma start_boundary_step:
  assumes "rot_ok c h G"
  shows "\<exists>G'. rot_ok (captureStartBoundary (rc_offset c) c) h G' \<and> extends h c G (captureStartBoundary (rc_offset c) c) G'"
proof (cases "length (pe_offsets (rc_pending c)) = 0")
  case True
  then show ?thesis using assms by (auto simp: captureStartBoundary_def)
next
  case False
  note r = rot_ok_parts [OF assms]
  have o: "rc_offset c = int (length h)" using r(1) by (simp add: buffer_ok_def)
  from captureReached_step [OF takes_whole [OF r(1)] refl r(2,3)] obtain G' where
    "snapshots_ok {} (rot_captureReached (int (length h)) (rot_Snapshot 0) c) G'"
    "extends h c G (rot_captureReached (int (length h)) (rot_Snapshot 0) c) G'"
    "pend_ok (rc_pending (rot_captureReached (int (length h)) (rot_Snapshot 0) c))
       (rc_next (rot_captureReached (int (length h)) (rot_Snapshot 0) c)) G'" by blast
  moreover from this(2) have "buffer_ok (rot_captureReached (int (length h)) (rot_Snapshot 0) c) h"
    using r(1) buffer_ok_core unfolding extends_def by blast
  ultimately show ?thesis using False by (auto simp: captureStartBoundary_def rot_ok_def o)
qed

lemma capture_fold_step:
  assumes "\<forall>off \<in> set offs. off = start \<or> (\<exists>n. off = int n \<and> takes (snap off) c0 h n)"
    "core c = core c0" "rot_ok c h G"
  shows "\<exists>G'. rot_ok (fold (\<lambda>off c. if off = start then c else rot_captureReached off (snap off) c) offs c) h G'
    \<and> extends h c G (fold (\<lambda>off c. if off = start then c else rot_captureReached off (snap off) c) offs c) G'"
  using assms
proof (induction offs arbitrary: c G)
  case Nil
  then show ?case by auto
next
  case (Cons off offs)
  have rest: "\<forall>off \<in> set offs. off = start \<or> (\<exists>n. off = int n \<and> takes (snap off) c0 h n)"
    using Cons.prems(1) by simp
  show ?case
  proof (cases "off = start")
    case True
    with Cons.IH [OF rest Cons.prems(2,3)] show ?thesis by simp
  next
    case False
    then obtain n where n: "off = int n" "takes (snap off) c0 h n" using Cons.prems(1) by auto
    let ?c = "rot_captureReached (int n) (snap off) c"
    note r = rot_ok_parts [OF Cons.prems(3)]
    from captureReached_step [OF n(2) Cons.prems(2) r(2,3)] obtain G1 where
      1: "snapshots_ok {} ?c G1" "extends h c G ?c G1" "pend_ok (rc_pending ?c) (rc_next ?c) G1" by blast
    have c1: "core ?c = core c0" using 1(2) Cons.prems(2) by (simp add: extends_def)
    have b: "buffer_ok ?c h" using r(1) 1(2) buffer_ok_core unfolding extends_def by blast
    have "rot_ok ?c h G1" using 1 b by (simp add: rot_ok_def)
    from Cons.IH [OF rest c1 this] obtain G2 where
      G2: "rot_ok (fold (\<lambda>off c. if off = start then c else rot_captureReached off (snap off) c) offs ?c) h G2"
      "extends h ?c G1 (fold (\<lambda>off c. if off = start then c else rot_captureReached off (snap off) c) offs ?c) G2" by blast
    have "fold (\<lambda>off c. if off = start then c else rot_captureReached off (snap off) c) (off # offs) c
        = fold (\<lambda>off c. if off = start then c else rot_captureReached off (snap off) c) offs ?c"
      using False n(1) by simp
    with G2(1) extends_trans [OF 1(2) G2(2)] show ?thesis by auto
  qed
qed

lemma takes_lazy:
  assumes "buffer_ok c h" "n \<le> length h" "rc_buf c = Some b" "b = lastn (length b) h" "length b \<le> length h"
    "length h - length b \<le> n - min n (rot_window c)"
  shows "takes (lazyRotatingSnapshot (int n)) c h n"
  unfolding takes_def
proof (intro conjI allI impI)
  fix d G s c'
  assume d: "core d = core c" "snapshots_ok {} d G" "lazyRotatingSnapshot (int n) d = (s, c')"
  then have f: "rc_buf d = rc_buf c" "rc_maxSize d = rc_maxSize c" by (simp_all add: core_def)
  have "buffer_ok d h" using assms(1) buffer_ok_core [OF d(1)] by simp
  then show "\<exists>G'. snapshots_ok {} c' G' \<and> extends h d G c' G' \<and> rc_pending c' = rc_pending d
      \<and> (\<forall>k. s = Some k \<longrightarrow> k < rc_next c' \<and> G' k = take n h)"
    by (rule lazy_step [OF _ d(2,3) assms(2) _ assms(4,5)]) (simp_all add: f assms(3,6))
qed (rule assms(2))

text \<open>The snapshots of a write: the old ones keep their histories, the new ones are prefixes.\<close>

definition grows :: "'kv list \<Rightarrow> 'kv rot_cache \<Rightarrow> (nat \<Rightarrow> 'kv list) \<Rightarrow> 'kv rot_cache \<Rightarrow> (nat \<Rightarrow> 'kv list) \<Rightarrow> bool" where
  "grows h c G c' G' \<longleftrightarrow> rc_maxSize c' = rc_maxSize c \<and> rc_next c \<le> rc_next c' \<and> (\<forall>s < rc_next c. G' s = G s \<and> (rc_heap c' s = None \<longleftrightarrow> rc_heap c s = None)) \<and>
     (\<forall>s. rc_next c \<le> s \<longrightarrow> s < rc_next c' \<longrightarrow> (\<exists>n \<le> length h. G' s = take n h))"

lemma extends_grows: "extends h c G c' G' \<Longrightarrow> grows (h @ kv) c G c' G'"
proof -
  assume e: "extends h c G c' G'"
  have "\<exists>n \<le> length (h @ kv). G' s = take n (h @ kv)" if "rc_next c \<le> s" "s < rc_next c'" for s
  proof -
    from e that obtain n where "n \<le> length h" "G' s = take n h" unfolding extends_def by blast
    then have "n \<le> length (h @ kv) \<and> G' s = take n (h @ kv)" by simp
    then show ?thesis by blast
  qed
  with e show ?thesis unfolding extends_def grows_def core_def by simp
qed

lemma grows_trans:
  assumes "grows h c G c1 G1" "grows h c1 G1 c2 G2"
  shows "grows h c G c2 G2"
proof -
  have "\<exists>n \<le> length h. G2 s = take n h" if "rc_next c \<le> s" "s < rc_next c2" for s
    using assms that by (cases "s < rc_next c1") (auto simp: grows_def)
  with assms show ?thesis by (auto simp: grows_def)
qed

lemma write_step:
  fixes c :: "('kv :: zero) rot_cache"
  assumes "buffer_ok c h" "snapshots_ok {} c G" "pend_ok (rc_pending c) (rc_next c) G" "kv \<noteq> []"
  shows "\<exists>new c'. (if length kv > 1 then concat_kv kv c else update_kv kv c) = Some (new, c') \<and> rot_ok c' (h @ kv) G
    \<and> nat (rc_idx c') \<le> length new \<and> rc_idx c' = int (nat (rc_idx c'))
    \<and> drop (nat (rc_idx c')) new @ take (nat (rc_idx c')) new = lastn (length new) (h @ kv)
    \<and> length new = (if length kv > 1 then min (length h) (rot_window c - 1) + length kv else min (length h + 1) (rot_window c))
    \<and> rc_maxSize c' = rc_maxSize c \<and> rc_next c' = rc_next c
    \<and> (\<forall>r. rc_heap c' r = None \<longleftrightarrow> rc_heap c r = None)
    \<and> (length kv > 1 \<longrightarrow> rc_buf c' = Some new \<and> new = lastn (length new) (h @ kv))"
proof (cases "length kv > 1")
  case True
  from concat_step [OF assms(1,2,4)] obtain new c' where
    c': "concat_kv kv c = Some (new, c')" "rc_buf c' = Some new" "buffer_ok c' (h @ kv)" "snapshots_ok {} c' G"
      "new = lastn (length new) (h @ kv)" "length new = min (length h) (rot_window c - 1) + length kv"
      "rc_maxSize c' = rc_maxSize c" "rc_pending c' = rc_pending c" "rc_next c' = rc_next c"
      "\<forall>r. rc_heap c' r = None \<longleftrightarrow> rc_heap c r = None" by blast
  have w: "(if length kv > 1 then concat_kv kv c else update_kv kv c) = Some (new, c')" using True c'(1) by simp
  have ok: "rot_ok c' (h @ kv) G" using c'(3,4,8,9) assms(3) by (simp add: rot_ok_def)
  have "rc_idx c' = int (length new)"
    using c'(1) by (auto simp: concat_kv_def Let_def split: option.splits prod.splits)
  then have i: "nat (rc_idx c') = length new" "rc_idx c' = int (nat (rc_idx c'))" "nat (rc_idx c') \<le> length new" by simp_all
  have l: "length new = (if length kv > 1 then min (length h) (rot_window c - 1) + length kv
      else min (length h + 1) (rot_window c))" using True c'(6) by simp
  have d: "drop (nat (rc_idx c')) new @ take (nat (rc_idx c')) new = lastn (length new) (h @ kv)"
    unfolding i(1) c'(5) [symmetric] by simp
  have n: "length kv > 1 \<longrightarrow> rc_buf c' = Some new \<and> new = lastn (length new) (h @ kv)" using c'(2,5) by blast
  show ?thesis
    by (rule exI [of _ new], rule exI [of _ c'], intro conjI) (rule w ok i l d n c'(7,9,10))+
next
  case False
  with assms(4) obtain x where x: "kv = [x]" by (cases kv) auto
  from update_step [OF assms(1,2), of x] obtain new c' where
    c': "update_kv [x] c = Some (new, c')" "buffer_ok c' (h @ [x])" "snapshots_ok {} c' G" "nat (rc_idx c') \<le> length new"
      "0 < rc_idx c'" "drop (nat (rc_idx c')) new @ take (nat (rc_idx c')) new = lastn (rot_window c) (h @ [x])"
      "rc_maxSize c' = rc_maxSize c" "rc_pending c' = rc_pending c" "rc_next c' = rc_next c"
      "\<forall>r. rc_heap c' r = None \<longleftrightarrow> rc_heap c r = None" by blast
  have w: "(if length kv > 1 then concat_kv kv c else update_kv kv c) = Some (new, c')" using False c'(1) x by simp
  have ok: "rot_ok c' (h @ kv) G" using c'(2,3,8,9) assms(3) x by (simp add: rot_ok_def)
  have l1: "length new = min (length h + 1) (rot_window c)"
  proof -
    have "length (drop (nat (rc_idx c')) new @ take (nat (rc_idx c')) new) = length (lastn (rot_window c) (h @ [x]))"
      by (rule arg_cong [OF c'(6)])
    then show ?thesis using c'(4) by simp
  qed
  have "lastn (rot_window c) (h @ [x]) = lastn (length new) (h @ [x])"
    unfolding l1 by (simp add: lastn_def min_def)
  with c'(6) have d: "drop (nat (rc_idx c')) new @ take (nat (rc_idx c')) new = lastn (length new) (h @ kv)"
    unfolding x by (rule trans)
  have l: "length new = (if length kv > 1 then min (length h) (rot_window c - 1) + length kv
      else min (length h + 1) (rot_window c))" unfolding l1 using False by simp
  have i: "rc_idx c' = int (nat (rc_idx c'))" using c'(5) by simp
  have n: "length kv > 1 \<longrightarrow> rc_buf c' = Some new \<and> new = lastn (length new) (h @ kv)" using False by blast
  show ?thesis
    by (rule exI [of _ new], rule exI [of _ c'], intro conjI) (rule w ok i l d n c'(4,7,9,10))+
qed

lemma rot_Update_step:
  fixes c :: "('kv :: zero) rot_cache"
  assumes "rot_ok c h G" "kv \<noteq> []"
  shows "\<exists>new m c' G'. rot_Update kv c = Some ((new, m), c') \<and> rot_ok c' (h @ kv) G' \<and> grows (h @ kv) c G c' G'
    \<and> ra_K m = int (length new) \<and> ra_L m = int (length kv) \<and> ra_window m = rc_maxSize c
    \<and> 0 \<le> ra_ringIdx m \<and> ra_ringIdx m \<le> ra_K m
    \<and> drop (nat (ra_ringIdx m)) new @ take (nat (ra_ringIdx m)) new = lastn (length new) (h @ kv)
    \<and> length new = (if length kv > 1 then min (length h) (rot_window c - 1) + length kv else min (length h + 1) (rot_window c))"
proof -
  let ?c1 = "captureStartBoundary (rc_offset c) c"
  from start_boundary_step [OF assms(1)] obtain G1 where
    1: "rot_ok ?c1 h G1" "extends h c G ?c1 G1" by blast
  note r = rot_ok_parts [OF 1(1)]
  from write_step [OF r assms(2)] obtain new c2 where
    2: "(if length kv > 1 then concat_kv kv ?c1 else update_kv kv ?c1) = Some (new, c2)" "rot_ok c2 (h @ kv) G1"
      "nat (rc_idx c2) \<le> length new" "rc_idx c2 = int (nat (rc_idx c2))"
      "drop (nat (rc_idx c2)) new @ take (nat (rc_idx c2)) new = lastn (length new) (h @ kv)"
      "length new = (if length kv > 1 then min (length h) (rot_window ?c1 - 1) + length kv else min (length h + 1) (rot_window ?c1))"
      "rc_maxSize c2 = rc_maxSize ?c1" "rc_next c2 = rc_next ?c1" "\<forall>r. rc_heap c2 r = None \<longleftrightarrow> rc_heap ?c1 r = None"
      "length kv > 1 \<longrightarrow> rc_buf c2 = Some new \<and> new = lastn (length new) (h @ kv)" by blast
  let ?snap = "\<lambda>off c. if length kv > 1 then lazyRotatingSnapshot off c else rot_Snapshot (off - min off (rc_maxSize c)) c"
  let ?offs = "scheduledIn (rc_offset c) (rc_offset c2) (rc_pending c2)"
  let ?c3 = "rot_captureLazySnapshots (rc_offset c) (rc_offset c2) (length kv > 1) c2"
  note b2 = rot_ok_parts(1) [OF 2(2)]
  have m1: "rc_maxSize ?c1 = rc_maxSize c" using 1(2) by (simp add: extends_def core_def)
  have off: "rc_offset c = int (length h)" "rc_offset c2 = int (length h + length kv)"
    using rot_ok_parts(1) [OF assms(1)] b2 by (simp_all add: buffer_ok_def)
  have snaps: "\<forall>off \<in> set ?offs. off = rc_offset c \<or> (\<exists>n. off = int n \<and> takes (?snap off) c2 (h @ kv) n)"
  proof
    fix o' assume "o' \<in> set ?offs"
    then have o': "int (length h) \<le> o'" "o' \<le> int (length h + length kv)" using off by (simp_all add: scheduledIn_def)
    then obtain n where n: "o' = int n" "length h \<le> n" "n \<le> length (h @ kv)"
      by (metis length_append of_nat_le_iff nonneg_int_cases of_nat_0_le_iff order_trans)
    show "o' = rc_offset c \<or> (\<exists>n. o' = int n \<and> takes (?snap o') c2 (h @ kv) n)"
    proof (cases "n = length h")
      case True
      with n(1) off(1) show ?thesis by simp
    next
      case nh: False
      have "takes (?snap o') c2 (h @ kv) n"
      proof (cases "length kv > 1")
        case True
        have l: "length new = min (length h) (rot_window c2 - 1) + length kv" using 2(6,7) True by simp
        have "takes (lazyRotatingSnapshot (int n)) c2 (h @ kv) n"
        proof (rule takes_lazy [OF b2 n(3)])
          show "rc_buf c2 = Some new" "new = lastn (length new) (h @ kv)" using 2(10) True by blast+
          show "length new \<le> length (h @ kv)" unfolding l by simp
          show "length (h @ kv) - length new \<le> n - min n (rot_window c2)" unfolding l using n nh by simp
        qed
        then show ?thesis using True n(1) by simp
      next
        case False
        then have "length kv = 1" using assms(2) by (cases kv) auto
        then have "n = length (h @ kv)" using n nh by simp
        with False takes_whole [OF b2] show ?thesis unfolding takes_def by simp
      qed
      with n(1) show ?thesis by blast
    qed
  qed
  have "\<exists>G3. rot_ok ?c3 (h @ kv) G3 \<and> extends (h @ kv) c2 G1 ?c3 G3"
  proof (cases "length (pe_offsets (rc_pending c2)) = 0")
    case True
    then show ?thesis using 2(2) by (auto simp: rot_captureLazySnapshots_def)
  next
    case False
    show ?thesis unfolding rot_captureLazySnapshots_def if_not_P [OF False]
      by (rule capture_fold_step [OF snaps refl 2(2)])
  qed
  then obtain G3 where 3: "rot_ok ?c3 (h @ kv) G3" "extends (h @ kv) c2 G1 ?c3 G3" by blast
  have f: "rc_idx ?c3 = rc_idx c2" "rc_maxSize ?c3 = rc_maxSize c"
    using 3(2) 2(7) m1 by (simp_all add: extends_def core_def)
  let ?m = "\<lparr>ra_K = int (length new), ra_L = int (length kv), ra_window = rc_maxSize ?c3, ra_ringIdx = rc_idx ?c3\<rparr>"
  have U: "rot_Update kv c = Some ((new, ?m), ?c3)"
    unfolding rot_Update_def Let_def using 2(1) by simp
  have g1: "grows (h @ kv) c G ?c1 G1" by (rule extends_grows [OF 1(2)])
  have g2: "grows (h @ kv) c2 G1 ?c3 G3" using extends_grows [OF 3(2), of "[]"] by simp
  have "grows (h @ kv) ?c1 G1 ?c3 G3" using g2 2(9) unfolding grows_def 2(7,8) by blast
  then have g3: "grows (h @ kv) c G ?c3 G3" by (rule grows_trans [OF g1])
  have i: "0 \<le> rc_idx c2" "rc_idx c2 \<le> int (length new)" using 2(3,4) by linarith+
  have m: "ra_K ?m = int (length new)" "ra_L ?m = int (length kv)" "ra_window ?m = rc_maxSize c"
      "0 \<le> ra_ringIdx ?m" "ra_ringIdx ?m \<le> ra_K ?m"
      "drop (nat (ra_ringIdx ?m)) new @ take (nat (ra_ringIdx ?m)) new = lastn (length new) (h @ kv)"
    unfolding rot_applier.simps f by (rule refl i 2(5))+
  show ?thesis
    by (rule exI [of _ new], rule exI [of _ ?m], rule exI [of _ ?c3], rule exI [of _ G3], intro conjI)
      (rule U 3(1) g3 m 2(6) [unfolded m1])+
qed

section \<open>Going back\<close>

lemma snaps_closed:
  assumes "snapshots_ok X c G" "s \<notin> X"
  shows "snapshots_ok X (rot_Close s c) G"
proof -
  note ok = assms(1) [unfolded snapshots_ok_def snaps_ok_def]
  have l: "set (remove1 s (rc_lazy c)) = set (rc_lazy c) - {s}" using ok by (simp add: set_remove1_eq)
  have f: "rc_maxSize (rot_Close s c) = rc_maxSize c" "rc_buf (rot_Close s c) = rc_buf c" "rc_next (rot_Close s c) = rc_next c"
      "rc_lazy (rot_Close s c) = remove1 s (rc_lazy c)" "rc_heap (rot_Close s c) = (rc_heap c)(s := None)"
    by (simp_all add: rot_Close_def rot_dropLazySnapshot_def)
  show ?thesis
    unfolding snapshots_ok_def snaps_ok_def f
  proof (intro conjI allI impI ballI)
    show "distinct (remove1 s (rc_lazy c))" using ok by (simp add: distinct_remove1)
  next
    fix r sr assume "((rc_heap c)(s := None)) r = Some sr"
    then have r: "r \<noteq> s" "rc_heap c r = Some sr" by (auto split: if_splits)
    then show "r < rc_next c" "holds (rot_window c) (rc_buf c) sr (G r)" using ok by blast+
    show "r \<in> X \<or> (rs_data sr = None) = (r \<in> set (remove1 s (rc_lazy c)))" unfolding l using r ok by blast
  next
    fix r assume "r \<in> set (remove1 s (rc_lazy c))"
    then have "r \<in> set (rc_lazy c)" "r \<noteq> s" unfolding l by blast+
    with ok show "r \<notin> X" "((rc_heap c)(s := None)) r \<noteq> None" by auto
  qed
qed

lemma rot_Close_ok:
  assumes "rot_ok c h G"
  shows "rot_ok (rot_Close s c) h G"
proof -
  note r = rot_ok_parts [OF assms]
  have "core (rot_Close s c) = core c" "rc_pending (rot_Close s c) = rc_pending c" "rc_next (rot_Close s c) = rc_next c"
    by (simp_all add: rot_Close_def rot_dropLazySnapshot_def core_def)
  with r snaps_closed [OF r(2), of s] buffer_ok_core show ?thesis unfolding rot_ok_def by (metis empty_iff)
qed

lemma clamp_ok:
  assumes "buffer_ok c g" "0 \<le> target" "target \<le> int (length g)" "target = int (length g) \<or> length g \<le> rot_window c"
  shows "buffer_ok (clamp_to target c) (take (nat target) g)"
proof (cases "target < rc_offset c")
  case False
  then have "target = int (length g)" using assms(1,3) by (simp add: buffer_ok_def)
  with False assms(1) show ?thesis by (simp add: clamp_to_def)
next
  case True
  then have w: "length g \<le> rot_window c" using assms(1,4) by (simp add: buffer_ok_def)
  show ?thesis
  proof (cases "rc_buf c")
    case None
    then have "g = []" using assms(1) by (simp add: buffer_ok_def)
    with True assms(1,2) show ?thesis by (simp add: buffer_ok_def)
  next
    case (Some b)
    then have "layout (rot_window c) b (nat (rc_idx c)) g" using assms(1) by (simp add: buffer_ok_def)
    then have "layout (rot_window c) b (nat target) (take (nat target) g)"
      by (rule layout_cut [OF _ w]) (use assms(3) in simp)
    with True Some assms show ?thesis by (simp add: buffer_ok_def clamp_to_def)
  qed
qed

lemma clamp_fields [simp]:
  "rc_buf (clamp_to t c) = rc_buf c" "rc_maxSize (clamp_to t c) = rc_maxSize c" "rc_lazy (clamp_to t c) = rc_lazy c"
  "rc_heap (clamp_to t c) = rc_heap c" "rc_next (clamp_to t c) = rc_next c" "rc_pending (clamp_to t c) = rc_pending c"
  by (simp_all add: clamp_to_def)

lemma drop_lazy_excluded:
  assumes "snapshots_ok {} c G" "rc_heap c s = Some sn"
  shows "snapshots_ok {s} (rot_dropLazySnapshot s c) G"
proof -
  note ok = assms(1) [unfolded snapshots_ok_def snaps_ok_def]
  have l: "set (remove1 s (rc_lazy c)) = set (rc_lazy c) - {s}" using ok by (simp add: set_remove1_eq)
  show ?thesis
    unfolding snapshots_ok_def snaps_ok_def rot_dropLazySnapshot_def
    using ok by (auto simp: distinct_remove1 l)
qed

lemma restore_eager:
  assumes "rot_ok c h G" "rc_heap c s = Some sn" "rs_data sn = Some d" "g = G s"
    "0 \<le> target" "target \<le> int (length g)" "target = int (length g) \<or> length g \<le> rot_window c"
  shows "\<exists>c'. rot_Restore (Some s) target c = Some (True, c') \<and> rot_ok c' (take (nat target) g) G"
proof -
  note r = rot_ok_parts [OF assms(1)]
  have W: "0 < rc_maxSize c" "0 < rc_step c" using r(1) by (simp_all add: buffer_ok_def)
  have sn: "holds (rot_window c) (rc_buf c) sn g" using r(2) assms(2,4) by (auto simp: snapshots_ok_def snaps_ok_def)
  then have to: "rs_to sn = int (length g)" "0 \<le> rs_idx sn" "layout (rot_window c) d (nat (rs_idx sn)) g"
    using assms(3) by (simp_all add: holds_def)
  from copyOutLazy_step [OF r(2)] obtain c1 where
    1: "copyOutLazySnapshots c = Some c1" "snapshots_ok {} c1 G" "core c1 = core c" "rc_pending c1 = rc_pending c"
      "rc_next c1 = rc_next c" "rc_lazy c1 = []" by auto
  let ?c = "c1\<lparr>rc_buf := Some d, rc_offset := rs_to sn, rc_idx := rs_idx sn\<rparr>"
  have m: "rc_maxSize c1 = rc_maxSize c" "rc_step c1 = rc_step c" using 1(3) by (simp_all add: core_def)
  have b: "buffer_ok ?c g" using to m W by (simp add: buffer_ok_def)
  have "buffer_ok (clamp_to target ?c) (take (nat target) g)"
    by (rule clamp_ok [OF b assms(5,6)]) (use assms(7) m in simp)
  moreover have "snapshots_ok {} (clamp_to target ?c) G"
    using snaps_frozen 1(2,6) by (simp add: snapshots_ok_def)
  moreover have "pend_ok (rc_pending (clamp_to target ?c)) (rc_next (clamp_to target ?c)) G"
    using r(3) 1(4,5) by simp
  moreover have "rot_Restore (Some s) target c = Some (True, clamp_to target ?c)"
    using assms(2,3,5-7) to 1(1) by (auto simp: rot_Restore_def)
  ultimately show ?thesis by (simp add: rot_ok_def)
qed

lemma restore_lazy:
  assumes "rot_ok c h G" "rc_heap c s = Some sn" "rs_data sn = None" "g = G s"
    "0 \<le> target" "target \<le> int (length g)" "target = int (length g) \<or> length g \<le> rot_window c"
  shows "\<exists>c'. rot_Restore (Some s) target c = Some (True, c') \<and> rot_ok c' (take (nat target) g) G"
proof -
  note r = rot_ok_parts [OF assms(1)]
  have W: "0 < rc_maxSize c" "0 < rc_step c" using r(1) by (simp_all add: buffer_ok_def)
  have sn: "holds (rot_window c) (rc_buf c) sn g" "s < rc_next c" using r(2) assms(2,4) by (auto simp: snapshots_ok_def snaps_ok_def)
  then obtain b where to: "rs_to sn = int (length g)" "0 \<le> rs_idx sn" "rc_buf c = Some b" "0 \<le> rs_sliceStart sn"
      "rs_sliceStart sn \<le> rs_sliceEnd sn" "rs_sliceEnd sn \<le> int (length b)"
      "layout (rot_window c) (slots (rs_sliceStart sn) (rs_sliceEnd sn) b) (nat (rs_idx sn)) g"
    using assms(3) by (auto simp: holds_def)
  let ?b = "slots (rs_sliceStart sn) (rs_sliceEnd sn) b" and ?n = "rs_sliceEnd sn - rs_sliceStart sn"
  from copyOutLazy_step [OF drop_lazy_excluded [OF r(2) assms(2)]] obtain c1 where
    1: "copyOutLazySnapshots (rot_dropLazySnapshot s c) = Some c1" "snapshots_ok {s} c1 G"
      "core c1 = core (rot_dropLazySnapshot s c)" "rc_pending c1 = rc_pending (rot_dropLazySnapshot s c)"
      "rc_next c1 = rc_next (rot_dropLazySnapshot s c)" "rc_lazy c1 = []" by blast
  let ?sn = "sn\<lparr>rs_sliceStart := 0, rs_sliceEnd := ?n\<rparr>"
  let ?c = "c1\<lparr>rc_buf := Some ?b, rc_heap := (rc_heap c1)(s \<mapsto> ?sn), rc_lazy := rc_lazy c1 @ [s],
      rc_offset := rs_to sn, rc_idx := rs_idx sn\<rparr>"
  have m: "rc_maxSize c1 = rc_maxSize c" "rc_step c1 = rc_step c" "rc_buf c1 = Some b" "rc_pending c1 = rc_pending c" "rc_next c1 = rc_next c"
    using 1(3-5) to(3) by (simp_all add: core_def rot_dropLazySnapshot_def)
  have lb: "int (length ?b) = ?n" using to(4-6) by (simp add: slots_def nat_diff_distrib')
  have whole: "slots 0 ?n ?b = ?b" unfolding lb [symmetric] using slots_int [of 0 "length ?b" ?b] by simp
  have b: "buffer_ok ?c g" using to m W by (simp add: buffer_ok_def)
  have "buffer_ok (clamp_to target ?c) (take (nat target) g)"
    by (rule clamp_ok [OF b assms(5,6)]) (use assms(7) m in simp)
  moreover have f: "rc_maxSize (clamp_to target ?c) = rc_maxSize c1" "rc_buf (clamp_to target ?c) = Some ?b"
      "rc_lazy (clamp_to target ?c) = [s]" "rc_heap (clamp_to target ?c) = (rc_heap c1)(s \<mapsto> ?sn)"
      "rc_next (clamp_to target ?c) = rc_next c1"
    by (simp_all add: 1(6))
  have "snapshots_ok {} (clamp_to target ?c) G"
    unfolding snapshots_ok_def snaps_ok_def f
  proof (intro conjI allI impI ballI)
    note ok = 1(2) [unfolded snapshots_ok_def snaps_ok_def 1(6)]
    have hs: "holds (rot_window c1) (Some ?b) ?sn (G s)"
      using to lb whole assms(3,4) by (simp add: holds_def m(1))
    fix r sr
    assume "((rc_heap c1)(s \<mapsto> ?sn)) r = Some sr"
    then consider "r = s" "sr = ?sn" | "r \<noteq> s" "rc_heap c1 r = Some sr" by (auto split: if_splits)
    then have "r < rc_next c1 \<and> holds (rot_window c1) (Some ?b) sr (G r) \<and> (rs_data sr = None) = (r = s)"
    proof cases
      case 1
      then show ?thesis
        using hs sn(2) m(5) assms(3) by simp
    next
      case 2
      then have "rs_data sr \<noteq> None" "holds (rot_window c1) (rc_buf c1) sr (G r)" "r < rc_next c1" using ok by auto
      with 2 holds_owned show ?thesis by blast
    qed
    then show "r < rc_next c1" "holds (rot_window c1) (Some ?b) sr (G r)" "r \<in> {} \<or> (rs_data sr = None) = (r \<in> set [s])"
      by simp_all
  qed simp_all
  moreover have "pend_ok (rc_pending (clamp_to target ?c)) (rc_next (clamp_to target ?c)) G"
    using r(3) m by simp
  moreover have "rot_Restore (Some s) target c = Some (True, clamp_to target ?c)"
    using assms(2,3,5-7) to(1) 1(1) m(3) by (auto simp: rot_Restore_def Let_def)
  ultimately show ?thesis by (simp add: rot_ok_def)
qed

text \<open>The history a restore goes back into: that of the snapshot, or without one the cache's own.\<close>

definition source_history :: "'kv list \<Rightarrow> (nat \<Rightarrow> 'kv list) \<Rightarrow> nat option \<Rightarrow> 'kv list" where
  "source_history h G s = (case s of None \<Rightarrow> h | Some k \<Rightarrow> G k)"

definition rewindable :: "nat \<Rightarrow> 'kv list \<Rightarrow> int \<Rightarrow> bool" where
  "rewindable w g target \<longleftrightarrow> 0 \<le> target \<and> (target = int (length g) \<or> target < int (length g) \<and> length g \<le> w)"

lemma rot_Restore_law:
  assumes "rot_ok c h G" "s \<noteq> None \<Longrightarrow> rc_heap c (the s) \<noteq> None"
  shows "if rewindable (rot_window c) (source_history h G s) target
    then \<exists>c'. rot_Restore s target c = Some (True, c') \<and> rot_ok c' (take (nat target) (source_history h G s)) G
    else rot_Restore s target c = Some (False, c)"
proof (cases s)
  case None
  note r = rot_ok_parts [OF assms(1)]
  have o: "rc_offset c = int (length h)" "0 < rc_maxSize c" using r(1) by (simp_all add: buffer_ok_def)
  let ?c = "c\<lparr>rc_offset := target, rc_idx := target\<rparr>"
  have "rot_ok ?c (take (nat target) h) G" if "0 \<le> target" "target < int (length h)" "length h \<le> rot_window c"
  proof -
    have "buffer_ok (clamp_to target c) (take (nat target) h)"
      by (rule clamp_ok [OF r(1)]) (use that in simp_all)
    then have "buffer_ok ?c (take (nat target) h)" using that(2) o by (simp add: clamp_to_def)
    then show ?thesis using r by (simp add: rot_ok_def snapshots_ok_def)
  qed
  then show ?thesis using None o assms(1)
    by (auto simp: source_history_def rewindable_def rot_Restore_def)
next
  case (Some k)
  then obtain sn where sn: "rc_heap c k = Some sn" using assms(2) by auto
  note r = rot_ok_parts [OF assms(1)]
  have to: "rs_to sn = int (length (G k))" "0 < rc_maxSize c"
    using r(1,2) sn by (auto simp: snapshots_ok_def snaps_ok_def holds_def buffer_ok_def)
  show ?thesis
  proof (cases "rewindable (rot_window c) (G k) target")
    case True
    then have t: "0 \<le> target" "target \<le> int (length (G k))" "target = int (length (G k)) \<or> length (G k) \<le> rot_window c"
      by (auto simp: rewindable_def)
    have "\<exists>c'. rot_Restore (Some k) target c = Some (True, c') \<and> rot_ok c' (take (nat target) (G k)) G"
    proof (cases "rs_data sn")
      case None
      then show ?thesis by (rule restore_lazy [OF assms(1) sn _ refl t])
    next
      case (Some d)
      then show ?thesis by (rule restore_eager [OF assms(1) sn _ refl t])
    qed
    with True Some show ?thesis by (simp add: source_history_def)
  next
    case False
    then have "rot_Restore (Some k) target c = Some (False, c)"
      using sn to by (auto simp: rot_Restore_def rewindable_def)
    with False Some show ?thesis by (simp add: source_history_def)
  qed
qed

lemma rot_Free_ok:
  assumes "rot_ok c h G"
  shows "\<exists>c'. rot_Free c = Some c' \<and> rot_ok c' [] G"
proof -
  note r = rot_ok_parts [OF assms]
  from copyOutLazy_step [OF r(2)] obtain c1 where
    1: "copyOutLazySnapshots c = Some c1" "snapshots_ok {} c1 G" "core c1 = core c" "rc_lazy c1 = []" by blast
  let ?c = "c1\<lparr>rc_buf := None, rc_offset := 0, rc_idx := 0, rc_pending := no_pending\<rparr>"
  have "buffer_ok ?c []" using r(1) 1(3) by (simp add: buffer_ok_def core_def)
  moreover have "snapshots_ok {} ?c G" using snaps_frozen 1(2,4) by (simp add: snapshots_ok_def)
  moreover have "pend_ok (rc_pending ?c) (rc_next ?c) G" by (simp add: pend_ok_def no_pending_def)
  ultimately show ?thesis using 1(1) by (simp add: rot_Free_def rot_ok_def)
qed

lemma rot_Snapshot_ok:
  assumes "rot_ok c h G"
  shows "\<exists>G'. rot_ok (snd (rot_Snapshot from0 c)) h G' \<and> extends h c G (snd (rot_Snapshot from0 c)) G'
    \<and> (\<forall>k. fst (rot_Snapshot from0 c) = Some k \<longrightarrow> k < rc_next (snd (rot_Snapshot from0 c)) \<and> G' k = h)"
proof -
  note r = rot_ok_parts [OF assms]
  obtain s c' where e: "rot_Snapshot from0 c = (s, c')" by (cases "rot_Snapshot from0 c")
  from rot_Snapshot_step [OF r(1,2) e] obtain G' where
    G': "snapshots_ok {} c' G'" "extends h c G c' G'" "rc_pending c' = rc_pending c"
      "\<forall>k. s = Some k \<longrightarrow> k < rc_next c' \<and> G' k = h" by blast
  have "buffer_ok c' h" using r(1) G'(2) buffer_ok_core unfolding extends_def by blast
  moreover have "pend_ok (rc_pending c') (rc_next c') G'"
    using r(3) G'(2,3) caps_ok_extends by (fastforce simp: pend_ok_caps split: option.splits)
  ultimately show ?thesis using G' e by (auto simp: rot_ok_def)
qed

lemma rot_Take_ok: "rot_ok c h G \<Longrightarrow> rot_ok (snd (rot_TakeSnapshots c)) h G"
  by (auto simp: rot_ok_def rot_TakeSnapshots_def pending_take_def buffer_ok_def snapshots_ok_def pend_ok_def
      split: option.splits)

lemma rot_Prepare_ok: "rot_ok c h G \<Longrightarrow> rot_PrepareSnapshots offs c = Some c' \<Longrightarrow> rot_ok c' h G"
  by (auto simp: rot_ok_def rot_PrepareSnapshots_def pending_prepare_def buffer_ok_def snapshots_ok_def pend_ok_def
      split: option.splits if_splits dest!: set_zip_rightD)

lemma NewRotatingKVCache_ok: "0 < w \<Longrightarrow> rot_ok (NewRotatingKVCache w) [] G"
  by (simp add: rot_ok_def NewRotatingKVCache_def buffer_ok_def snapshots_ok_def snaps_ok_def pend_ok_def no_pending_def)

definition rot_valid :: "'kv rot_cache \<Rightarrow> bool" where
  "rot_valid c \<longleftrightarrow> (\<exists>h G. rot_ok c h G)"

text \<open>A snapshot is known while it is not closed; only closing it changes that.\<close>

definition rot_live :: "'kv rot_cache \<Rightarrow> nat \<Rightarrow> bool" where
  "rot_live c s \<longleftrightarrow> rc_heap c s \<noteq> None"

lemma rot_copyOut_live: "rot_copyOut s c = Some c' \<Longrightarrow> rot_live c x \<Longrightarrow> rot_live c' x"
  by (auto simp: rot_copyOut_def rot_live_def rot_dropLazySnapshot_def Let_def split: option.splits if_splits)

lemma copyOutLazy_live: "copyOutLazySnapshots c = Some c' \<Longrightarrow> rot_live c x \<Longrightarrow> rot_live c' x"
proof -
  have "rot_copy_out_all ss c = Some c' \<Longrightarrow> rot_live c x \<Longrightarrow> rot_live c' x" for ss c
    by (induction ss arbitrary: c) (auto split: option.splits dest: rot_copyOut_live)
  then show "copyOutLazySnapshots c = Some c' \<Longrightarrow> rot_live c x \<Longrightarrow> rot_live c' x"
    unfolding copyOutLazySnapshots_def by blast
qed

lemma rot_Restore_keeps_live:
  assumes "rot_Restore s target c = Some (ok, c')" "rot_live c x"
  shows "rot_live c' x"
proof -
  have heap: "rc_heap (clamp_to t d) = rc_heap d" for t and d :: "'a rot_cache" by (simp add: clamp_to_def)
  have drop: "rot_live (rot_dropLazySnapshot k c) x" for k
    using assms(2) by (simp add: rot_live_def rot_dropLazySnapshot_def)
  from assms show ?thesis
    by (auto simp: rot_Restore_def rot_live_def heap Let_def split: option.splits if_splits
        dest: copyOutLazy_live [OF _ assms(2), unfolded rot_live_def] copyOutLazy_live [OF _ drop, unfolded rot_live_def])
qed

lemma rot_Free_keeps_live: "rot_Free c = Some c' \<Longrightarrow> rot_live c x \<Longrightarrow> rot_live c' x"
  by (auto simp: rot_Free_def rot_live_def dest: copyOutLazy_live [unfolded rot_live_def])

lemma rot_Snapshot_live: "rot_Snapshot from0 c = (s, c') \<Longrightarrow> rot_live c x \<or> s = Some x \<Longrightarrow> rot_live c' x"
  by (auto simp: rot_Snapshot_def rot_new_snapshot_def rot_live_def split: option.splits if_splits)

definition rot_ops :: "('kv rot_cache, nat) cache_ops" where
  "rot_ops = \<lparr>co_offset = rc_offset,
     co_restore = (\<lambda>c s target. rot_Restore s target c),
     co_free = rot_Free,
     co_snapshot = (\<lambda>c from0. rot_Snapshot from0 c),
     co_prepare = (\<lambda>c offs. rot_PrepareSnapshots offs c),
     co_take = rot_TakeSnapshots\<rparr>"

lemma rot_ok_offset: "rot_ok c h G \<Longrightarrow> rc_offset c = int (length h)"
  by (simp add: rot_ok_def buffer_ok_def)

lemma rot_restore_interface:
  assumes "rot_ok c h G" "rot_Restore s target c = Some (ok, c')"
  shows "rot_valid c' \<and> rc_offset c' = (if ok then target else rc_offset c)"
proof (cases "s \<noteq> None \<longrightarrow> rc_heap c (the s) \<noteq> None")
  case True
  let ?g = "source_history h G s"
  have law: "if rewindable (rot_window c) ?g target
    then \<exists>c'. rot_Restore s target c = Some (True, c') \<and> rot_ok c' (take (nat target) ?g) G
    else rot_Restore s target c = Some (False, c)"
    using rot_Restore_law [OF assms(1)] True by blast
  show ?thesis
  proof (cases "rewindable (rot_window c) ?g target")
    case r: True
    then have "length (take (nat target) ?g) = nat target" "0 \<le> target" by (auto simp: rewindable_def)
    with law r assms(2) show ?thesis using rot_ok_offset by (fastforce simp: rot_valid_def)
  next
    case False
    with law assms show ?thesis by (auto simp: rot_valid_def)
  qed
next
  case False
  then obtain k where "s = Some k" "rc_heap c k = None" by auto
  with assms show ?thesis by (auto simp: rot_Restore_def rot_valid_def split: if_splits)
qed

interpretation rot: layer_cache rot_ops rot_valid rot_live
proof
  fix c c' :: "'a rot_cache" and s :: "nat option" and target from0 :: int and ok
  assume "rot_valid c"
  then obtain h G where valid: "rot_ok c h G" unfolding rot_valid_def by blast
  show "0 \<le> co_offset rot_ops c" using rot_ok_offset [OF valid] by (simp add: rot_ops_def)
  show "rot_valid c' \<and> co_offset rot_ops c' = (if ok then target else co_offset rot_ops c) \<and> (\<forall>x. rot_live c x \<longrightarrow> rot_live c' x)"
    if "co_restore rot_ops c s target = Some (ok, c')"
    using that rot_restore_interface [OF valid, of s target ok c'] rot_Restore_keeps_live [of s target c ok c']
    by (simp add: rot_ops_def)
  show "co_restore rot_ops c s target \<noteq> None" if "\<And>x. s = Some x \<Longrightarrow> rot_live c x"
  proof -
    have "s \<noteq> None \<Longrightarrow> rc_heap c (the s) \<noteq> None" using that by (auto simp: rot_live_def)
    from rot_Restore_law [OF valid this, of target] show ?thesis by (auto simp: rot_ops_def split: if_splits)
  qed
  show "\<exists>c'. co_free rot_ops c = Some c' \<and> rot_valid c' \<and> co_offset rot_ops c' = 0 \<and> (\<forall>x. rot_live c x \<longrightarrow> rot_live c' x)"
    using rot_Free_ok [OF valid] rot_ok_offset rot_Free_keeps_live by (fastforce simp: rot_ops_def rot_valid_def)
  show "rot_valid c' \<and> co_offset rot_ops c' = co_offset rot_ops c \<and> (\<forall>x. rot_live c x \<or> s = Some x \<longrightarrow> rot_live c' x)"
    if "co_snapshot rot_ops c from0 = (s, c')"
  proof -
    have S: "rot_Snapshot from0 c = (s, c')" using that by (simp add: rot_ops_def)
    with rot_Snapshot_ok [OF valid, of from0] have "rot_valid c' \<and> rc_offset c' = rc_offset c"
      by (auto simp: rot_valid_def extends_def core_def)
    with rot_Snapshot_live [OF S] show ?thesis by (simp add: rot_ops_def)
  qed
  show "rot_valid (snd (co_take rot_ops c))" using rot_Take_ok [OF valid] by (auto simp: rot_ops_def rot_valid_def)
  show "co_offset rot_ops (snd (co_take rot_ops c)) = co_offset rot_ops c"
    by (simp add: rot_ops_def rot_TakeSnapshots_def split: prod.splits)
qed

section \<open>Reading\<close>

lemma gather_columns:
  assumes "drop r new @ take r new = cols" "r \<le> length new" "new \<noteq> []"
  shows "gatherRingCols cols (int r) (int (length new)) = Some new"
proof (cases "r = length new \<or> r = 0")
  case True
  then have "cols = new" using assms(1) by auto
  then show ?thesis using assms(3) True by (auto simp: gatherRingCols_def)
next
  case False
  then have r: "0 < r" "r < length new" using assms(2) by simp_all
  have l: "length cols = length new" using assms(1,2) by (metis add.commute append_take_drop_id length_append)
  have "int r mod int (length new) = int r" using r by simp
  moreover have "int (length new) - int r = int (length new - r)" using r by simp
  moreover have "drop (length new - r) cols = take r new" "take (length new - r) cols = drop r new"
    using r unfolding assms(1) [symmetric] by simp_all
  ultimately show ?thesis
    using r l slots_to_end [of "length new - r" cols] slots_int [of 0 "length new - r" cols]
    by (auto simp: gatherRingCols_def Let_def)
qed

lemma view_layout:
  assumes "rot_ok c h G" "h \<noteq> []"
  shows "\<exists>k m. rot_View c = Some (k, m) \<and> length k = min (length h) (rot_window c) \<and> ra_K m = int (length k)
    \<and> 0 \<le> ra_ringIdx m \<and> nat (ra_ringIdx m) \<le> length k
    \<and> drop (nat (ra_ringIdx m)) k @ take (nat (ra_ringIdx m)) k = lastn (length k) h"
proof -
  note r = rot_ok_parts(1) [OF assms(1)]
  from r assms(2) obtain b where b: "rc_buf c = Some b" by (auto simp: buffer_ok_def split: option.splits)
  define w i where "w = rot_window c" and "i = nat (rc_idx c)"
  have B: "rc_offset c = int (length h)" "rc_maxSize c = int w" "0 < w" "rc_idx c = int i" "layout w b i h"
    using r b by (simp_all add: buffer_ok_def w_def i_def)
  define k where "k = take (min (length h) (length b)) b"
  have st: "rot_State c = Some k"
  proof -
    have "min (rc_offset c) (int (length b)) = int (min (length h) (length b))" using B(1) by simp
    then show ?thesis
      using b slots_int [of 0 "min (length h) (length b)" b] unfolding rot_State_def k_def by (simp del: of_nat_min)
  qed
  have L: "layout w k i h" unfolding k_def by (rule layout_live [OF B(5)])
  have lk: "length k = min (length h) (length b)" by (simp add: k_def)
  show ?thesis unfolding w_def [symmetric]
  proof (cases "w < length k")
    case True
    then have "\<not> length h \<le> w" using lk by simp
    from layout_large [OF L this] True have i: "i = length k" "k = lastn (length k) h" "length k \<le> length h" by auto
    have "int (length k) - int w = int (length k - w)" using True by simp
    then have "rot_View c = Some (drop (length k - w) k, \<lparr>ra_K = int w, ra_L = 1, ra_window = int w, ra_ringIdx = 0\<rparr>)"
      using st True slots_to_end [of "length k - w" k] by (simp add: rot_View_def B(2) Let_def)
    moreover have "drop (length k - w) k = lastn w h"
      using i(2,3) True by (metis diff_diff_cancel drop_lastn less_imp_le)
    ultimately show "\<exists>k m. rot_View c = Some (k, m) \<and> length k = min (length h) w \<and> ra_K m = int (length k)
        \<and> 0 \<le> ra_ringIdx m \<and> nat (ra_ringIdx m) \<le> length k
        \<and> drop (nat (ra_ringIdx m)) k @ take (nat (ra_ringIdx m)) k = lastn (length k) h"
      using True i(3) by (simp add: min_def)
  next
    case False
    have v: "rot_View c = Some (k, \<lparr>ra_K = int (length k), ra_L = 1, ra_window = int w, ra_ringIdx = int i\<rparr>)"
      using st False by (simp add: rot_View_def B(2,4) Let_def)
    have l: "length k = min (length h) w"
    proof (cases "length h \<le> w")
      case True
      then show ?thesis using layout_small(2) [OF L] lk by simp
    next
      case f: False
      then show ?thesis using layout_large(1) [OF L f] False by simp
    qed
    have "take (min (length h) w) k = k" unfolding l [symmetric] by simp
    with layout_ring [OF L] False have "i \<le> length k \<and> drop i k @ take i k = lastn w h" by simp
    moreover have "lastn w h = lastn (length k) h" unfolding l by (simp add: lastn_def min_def)
    ultimately show "\<exists>k m. rot_View c = Some (k, m) \<and> length k = min (length h) w \<and> ra_K m = int (length k)
        \<and> 0 \<le> ra_ringIdx m \<and> nat (ra_ringIdx m) \<le> length k
        \<and> drop (nat (ra_ringIdx m)) k @ take (nat (ra_ringIdx m)) k = lastn (length k) h"
      using v l by simp
  qed
qed

text \<open>A sequence of writes, each with the captures scheduled at its time.\<close>

fun rot_writes :: "('kv :: zero) list list \<Rightarrow> 'kv rot_cache \<Rightarrow> 'kv rot_cache option" where
  "rot_writes [] c = Some c"
| "rot_writes (kv # kvs) c = (case rot_Update kv c of None \<Rightarrow> None | Some (_, c1) \<Rightarrow> rot_writes kvs c1)"

lemma rot_writes_ok:
  assumes "rot_ok c h G" "[] \<notin> set kvs"
  shows "\<exists>c' G'. rot_writes kvs c = Some c' \<and> rot_ok c' (h @ concat kvs) G' \<and> rc_maxSize c' = rc_maxSize c
    \<and> (\<forall>s < rc_next c. G' s = G s \<and> (rc_heap c' s = None \<longleftrightarrow> rc_heap c s = None))"
  using assms
proof (induction kvs arbitrary: c h G)
  case (Cons kv kvs)
  from rot_Update_step [OF Cons.prems(1), of kv] Cons.prems(2) obtain out c1 G1 where
    1: "rot_Update kv c = Some (out, c1)" "rot_ok c1 (h @ kv) G1" "grows (h @ kv) c G c1 G1" by auto
  from Cons.IH [OF 1(2)] Cons.prems(2) obtain c2 G2 where
    2: "rot_writes kvs c1 = Some c2" "rot_ok c2 ((h @ kv) @ concat kvs) G2" "rc_maxSize c2 = rc_maxSize c1"
      "\<forall>s < rc_next c1. G2 s = G1 s \<and> (rc_heap c2 s = None \<longleftrightarrow> rc_heap c1 s = None)" by auto
  have "\<forall>s < rc_next c. G2 s = G s \<and> (rc_heap c2 s = None \<longleftrightarrow> rc_heap c s = None)"
  proof (intro allI impI)
    fix s assume s: "s < rc_next c"
    then have "s < rc_next c1" using 1(3) unfolding grows_def by linarith
    with s show "G2 s = G s \<and> (rc_heap c2 s = None \<longleftrightarrow> rc_heap c s = None)" using 1(3) 2(4) unfolding grows_def by simp
  qed
  moreover have "rc_maxSize c2 = rc_maxSize c" using 1(3) 2(3) by (simp add: grows_def)
  moreover have "rot_writes (kv # kvs) c = Some c2" "rot_ok c2 (h @ concat (kv # kvs)) G2" using 1(1) 2(1,2) by simp_all
  ultimately show ?case by blast
qed auto

section \<open>Properties of the cache\<close>

text \<open>
  C6. A write extends the history of the rotating cache by the new slots, single or batched, from
  any buffer: grown or trimmed, in order or a ring. The attention gets the last positions: for a
  single token as many as the window holds, for a batch the new slots and the window before the
  first of them. The mask columns gathered with the returned cursor are the returned slots, so
  column \<open>j\<close> of a logical mask meets the key of position \<open>j\<close>. Earlier snapshots keep the histories
  they were taken of, and what was captured on the way are prefixes of the new one.
\<close>

theorem rotating_write:
  assumes "rot_ok c h G" "kv \<noteq> []"
  shows "\<exists>new m c' G'. rot_Update kv c = Some ((new, m), c') \<and> rot_ok c' (h @ kv) G' \<and> grows (h @ kv) c G c' G' \<and>
    length new = (if length kv > 1 then min (length h) (rot_window c - 1) + length kv else min (length h + 1) (rot_window c)) \<and>
    ra_L m = int (length kv) \<and> ra_window m = rc_maxSize c \<and>
    gatherRingCols (lastn (length new) (h @ kv)) (ra_ringIdx m) (ra_K m) = Some new"
proof -
  from rot_Update_step [OF assms] obtain new m c' G' where
    u: "rot_Update kv c = Some ((new, m), c')" "rot_ok c' (h @ kv) G'" "grows (h @ kv) c G c' G'"
      "ra_K m = int (length new)" "ra_L m = int (length kv)" "ra_window m = rc_maxSize c"
      "0 \<le> ra_ringIdx m" "ra_ringIdx m \<le> ra_K m"
      "drop (nat (ra_ringIdx m)) new @ take (nat (ra_ringIdx m)) new = lastn (length new) (h @ kv)"
      "length new = (if length kv > 1 then min (length h) (rot_window c - 1) + length kv else min (length h + 1) (rot_window c))"
    by blast
  have W: "0 < rot_window c" using assms(1) by (simp add: rot_ok_def buffer_ok_def)
  have "new \<noteq> []" using u(10) assms(2) W by (cases kv) (auto split: if_splits)
  have "gatherRingCols (lastn (length new) (h @ kv)) (int (nat (ra_ringIdx m))) (int (length new)) = Some new"
    by (rule gather_columns [OF u(9) _ \<open>new \<noteq> []\<close>]) (use u(4,7,8) in linarith)
  then have "gatherRingCols (lastn (length new) (h @ kv)) (ra_ringIdx m) (ra_K m) = Some new"
    using u(4,7) by simp
  with u(1-3,5,6,10) show ?thesis by blast
qed

text \<open>The same cache as a ring of two slots, behind a longer history.\<close>

definition demo_ring :: "int rot_cache" where
  "demo_ring = (NewRotatingKVCache 2)\<lparr>rc_buf := Some [4, 3], rc_offset := 4, rc_idx := 1\<rparr>"

lemma demo_ring_ok: "rot_ok demo_ring [1, 2, 3, 4] (\<lambda>_. [])"
  by (simp add: rot_ok_def demo_ring_def NewRotatingKVCache_def buffer_ok_def layout_def lastn_def snapshots_ok_def
      snaps_ok_def pend_ok_def no_pending_def)

theorem rotating_write_witness:
  "\<exists>m c' G'. rot_Update [5] demo_ring = Some (([4, 5], m), c') \<and> rot_ok c' [1, 2, 3, 4, 5] G' \<and>
     gatherRingCols [4, 5 :: int] (ra_ringIdx m) (ra_K m) = Some [4, 5]"
proof -
  from rotating_write [OF demo_ring_ok, of "[5]"] obtain new m c' G' where
    u: "rot_Update [5] demo_ring = Some ((new, m), c')" "rot_ok c' ([1, 2, 3, 4] @ [5]) G'"
      "gatherRingCols (lastn (length new) ([1, 2, 3, 4] @ [5])) (ra_ringIdx m) (ra_K m) = Some new"
    by blast
  have "fst (fst (the (rot_Update [5] demo_ring))) = [4, 5]" by code_simp
  with u(1) have "new = [4, 5]" by simp
  with u show ?thesis by (auto simp: lastn_def)
qed

text \<open>
  C7. Going back keeps the window honest: \<^verbatim>\<open>Restore\<close>, with a snapshot or without, succeeds exactly
  for the end of the history it goes back into, or for an earlier position when the whole of that
  history still fits the window, so that no slot the window needs has been overwritten (after a
  batched write the buffer may still hold more than a window; an earlier position is refused all the
  same). Then the
  cache holds the history cut at the target, whether the snapshot was lazy or owned its data, and
  every other snapshot still holds its own. Refused, it changes nothing.
\<close>

theorem rotating_restore:
  assumes "rot_ok c h G" "s \<noteq> None \<Longrightarrow> rc_heap c (the s) \<noteq> None"
  shows "if rewindable (rot_window c) (source_history h G s) target
    then \<exists>c'. rot_Restore s target c = Some (True, c') \<and> rot_ok c' (take (nat target) (source_history h G s)) G
    else rot_Restore s target c = Some (False, c)"
  by (rule rot_Restore_law [OF assms])

definition demo_small :: "int rot_cache" where
  "demo_small = (NewRotatingKVCache 4)\<lparr>rc_buf := Some [1, 2, 3], rc_offset := 3, rc_idx := 3\<rparr>"

lemma demo_small_ok: "rot_ok demo_small [1, 2, 3] (\<lambda>_. [])"
  by (simp add: rot_ok_def demo_small_def NewRotatingKVCache_def buffer_ok_def layout_def snapshots_ok_def
      snaps_ok_def pend_ok_def no_pending_def)

theorem rotating_restore_witness:
  "(\<exists>c'. rot_Restore None 2 demo_small = Some (True, c') \<and> rot_ok c' [1, 2] (\<lambda>_. []))
   \<and> rot_Restore None 2 demo_ring = Some (False, demo_ring)"
  using rotating_restore [OF demo_small_ok, of None 2] rotating_restore [OF demo_ring_ok, of None 2]
  by (simp add: rewindable_def source_history_def demo_small_def demo_ring_def NewRotatingKVCache_def)

text \<open>
  What a draft model reads through \<^verbatim>\<open>View\<close> is the window: as many slots as the history and the
  window allow, the last ones of the history, and a logical mask row gathered with the cursor of
  the view falls on the slots it speaks of, also after a batched write has left the buffer longer
  than the window.
\<close>

theorem rotating_view:
  assumes "rot_ok c h G" "h \<noteq> []"
  shows "\<exists>k m. rot_View c = Some (k, m) \<and> length k = min (length h) (rot_window c) \<and> ra_K m = int (length k) \<and>
    gatherRingCols (lastn (length k) h) (ra_ringIdx m) (ra_K m) = Some k"
proof -
  from view_layout [OF assms] obtain k m where
    v: "rot_View c = Some (k, m)" "length k = min (length h) (rot_window c)" "ra_K m = int (length k)"
      "0 \<le> ra_ringIdx m" "nat (ra_ringIdx m) \<le> length k"
      "drop (nat (ra_ringIdx m)) k @ take (nat (ra_ringIdx m)) k = lastn (length k) h" by blast
  have "0 < rot_window c" using assms(1) by (simp add: rot_ok_def buffer_ok_def)
  then have "0 < length k" unfolding v(2) using assms(2) by (simp only: min_less_iff_conj length_greater_0_conv simp_thms)
  then have "k \<noteq> []" by simp
  from gather_columns [OF v(6,5) this] v show ?thesis by simp
qed

theorem rotating_view_witness:
  "\<exists>m. rot_View demo_ring = Some ([4, 3], m) \<and> gatherRingCols [3, 4 :: int] (ra_ringIdx m) (ra_K m) = Some [4, 3]"
proof -
  from rotating_view [OF demo_ring_ok] obtain k m where
    v: "rot_View demo_ring = Some (k, m)" "gatherRingCols (lastn (length k) [1, 2, 3, 4]) (ra_ringIdx m) (ra_K m) = Some k"
    by blast
  have "fst (the (rot_View demo_ring)) = [4, 3]" by code_simp
  with v show ?thesis by (auto simp: lastn_def)
qed

text \<open>
  C8. Rolling back undoes any writes: a snapshot of the rotating cache, taken and then followed by
  any sequence of single and batched writes, whatever they trimmed, overwrote or captured,
  restores to the position it was taken at, and the cache holds the history of that moment.
\<close>

theorem rotating_rollback:
  assumes "rot_ok c h G" "h \<noteq> []" "[] \<notin> set kvs"
  shows "\<exists>s c1 c2 c3 G'. rot_Snapshot 0 c = (Some s, c1) \<and> rot_writes kvs c1 = Some c2 \<and>
    rot_ok c2 (h @ concat kvs) G' \<and> rot_Restore (Some s) (int (length h)) c2 = Some (True, c3) \<and> rot_ok c3 h G'"
proof -
  obtain s c1 where e: "rot_Snapshot 0 c = (s, c1)" by (cases "rot_Snapshot 0 c")
  note b = rot_ok_parts(1) [OF assms(1)]
  from rot_Snapshot_ok [OF assms(1), of 0] e obtain G1 where
    1: "rot_ok c1 h G1" "\<forall>k. s = Some k \<longrightarrow> k < rc_next c1 \<and> G1 k = h" by auto
  from b assms(2) obtain buf where buf: "rc_buf c = Some buf" "rc_offset c = int (length h)"
    by (auto simp: buffer_ok_def split: option.splits)
  then have s: "s = Some (rc_next c)" "rc_heap c1 (rc_next c) \<noteq> None"
    using e assms(2) by (auto simp: rot_Snapshot_def rot_State_def rot_new_snapshot_def)
  from rot_writes_ok [OF 1(1) assms(3)] obtain c2 G2 where
    2: "rot_writes kvs c1 = Some c2" "rot_ok c2 (h @ concat kvs) G2"
      "\<forall>s < rc_next c1. G2 s = G1 s \<and> (rc_heap c2 s = None \<longleftrightarrow> rc_heap c1 s = None)" by blast
  have k: "rc_heap c2 (rc_next c) \<noteq> None" "G2 (rc_next c) = h" using 1(2) 2(3) s by auto
  then have "source_history (h @ concat kvs) G2 (Some (rc_next c)) = h" by (simp add: source_history_def)
  with rot_Restore_law [OF 2(2), of "Some (rc_next c)" "int (length h)"] k
  obtain c3 where "rot_Restore (Some (rc_next c)) (int (length h)) c2 = Some (True, c3)" "rot_ok c3 h G2"
    by (auto simp: rewindable_def)
  with e s(1) 2(1,2) show ?thesis by blast
qed

theorem rotating_rollback_witness:
  "\<exists>s c1 c2 c3 G'. rot_Snapshot 0 demo_ring = (Some s, c1) \<and> rot_writes [[5], [6, 7, 8], [9]] c1 = Some c2 \<and>
    rot_Restore (Some s) 4 c2 = Some (True, c3) \<and> rot_ok c3 [1, 2, 3, 4] G'"
  using rotating_rollback [OF demo_ring_ok, of "[[5], [6, 7, 8], [9]]"] by auto

end
