(* ===== verification/RecurrentCache.thy ===== *)
theory RecurrentCache
  imports RotatingCache
begin

text \<open>
  x/mlxrunner/cache/recurrent.go, the cache of a layer with a recurrent state, and the wrappers of
  x/models/nn/recurrent.go that feed it. The state is a pair of arrays that are set together: the
  last inputs of a causal convolution, a list of columns with its batch size and element type, and
  the accumulator of the recurrence. There is one sequence. The kernels are parameters: the
  convolution, from a window to its outputs, and the scan, from an accumulator, inputs and a mask.
\<close>

section \<open>The cache\<close>

record 'x conv_array =
  ca_batch :: int
  ca_dtype :: nat
  ca_row :: "'x list"

type_synonym ('x, 'd) rec_state = "'x conv_array \<times> 'd"

record ('x, 'd) rec_snapshot =
  rq_state :: "('x, 'd) rec_state"
  rq_offset :: int

record ('x, 'd) rec_cache =
  re_state :: "('x, 'd) rec_state option"
  re_offset :: int
  re_convTail :: nat
  re_pending :: pending_snapshots
  re_heap :: "nat \<Rightarrow> ('x, 'd) rec_snapshot option"
  re_next :: nat

definition NewRecurrentCache :: "nat \<Rightarrow> ('x, 'd) rec_cache" where
  "NewRecurrentCache convTail = \<lparr>re_state = None, re_offset = 0, re_convTail = convTail, re_pending = no_pending,
     re_heap = Map.empty, re_next = 0\<rparr>"

definition newRecurrentSnapshot :: "('x, 'd) rec_state \<Rightarrow> int \<Rightarrow> ('x, 'd) rec_cache \<Rightarrow> nat option \<times> ('x, 'd) rec_cache" where
  "newRecurrentSnapshot st off c =
     (Some (re_next c), c\<lparr>re_heap := (re_heap c)(re_next c \<mapsto> \<lparr>rq_state = st, rq_offset = off\<rparr>), re_next := re_next c + 1\<rparr>)"

definition captureBoundary :: "int \<Rightarrow> ('x, 'd) rec_state option \<Rightarrow> ('x, 'd) rec_cache \<Rightarrow> ('x, 'd) rec_cache" where
  "captureBoundary reached st c =
     (case pe_captured (re_pending c) of
        None \<Rightarrow> c
      | Some caps \<Rightarrow>
          (case capture_with (\<lambda>c. case st of None \<Rightarrow> (None, c) | Some st \<Rightarrow> newRecurrentSnapshot st reached c) reached
              (pe_offsets (re_pending c)) caps c of
             (cs, hit, c) \<Rightarrow> c\<lparr>re_pending := (re_pending c)\<lparr>pe_captured := Some cs,
               pe_base := (if hit then reached else pe_base (re_pending c))\<rparr>\<rparr>))"

definition rec_PrepareSnapshots :: "int list \<Rightarrow> ('x, 'd) rec_cache \<Rightarrow> ('x, 'd) rec_cache option" where
  "rec_PrepareSnapshots offsets c =
     map_option (\<lambda>p. captureBoundary (re_offset c) (re_state c) (c\<lparr>re_pending := p\<rparr>))
       (pending_prepare (re_offset c) offsets (re_pending c))"

definition rec_TakeSnapshots :: "('x, 'd) rec_cache \<Rightarrow> nat option list \<times> ('x, 'd) rec_cache" where
  "rec_TakeSnapshots c = (case pending_take (re_pending c) of (ss, p) \<Rightarrow> (ss, c\<lparr>re_pending := p\<rparr>))"

definition SnapshotSplits :: "int \<Rightarrow> ('x, 'd) rec_cache \<Rightarrow> int list" where
  "SnapshotSplits forwardLen c =
     map (\<lambda>off. off - re_offset c)
       (filter (\<lambda>off. re_offset c < off \<and> off < re_offset c + forwardLen) (pe_offsets (re_pending c)))"

text \<open>\<^verbatim>\<open>Get\<close>; another batch size or element type panics.\<close>

definition rec_Get :: "int \<Rightarrow> nat \<Rightarrow> ('x :: zero, 'd :: zero) rec_cache \<Rightarrow> (('x, 'd) rec_state \<times> ('x, 'd) rec_cache) option" where
  "rec_Get batch0 dtype c =
     (let batch = (if batch0 \<le> 0 then 1 else batch0) in
      case re_state c of
        Some st \<Rightarrow>
          if ca_batch (fst st) \<noteq> batch \<or> ca_dtype (fst st) \<noteq> dtype then None else Some (st, c)
      | None \<Rightarrow>
          let st = (\<lparr>ca_batch = batch, ca_dtype = dtype, ca_row = replicate (re_convTail c) 0\<rparr>, 0)
          in Some (st, c\<lparr>re_state := Some st\<rparr>))"

definition rec_Put :: "int \<Rightarrow> 'x conv_array list \<Rightarrow> 'd list \<Rightarrow> ('x, 'd) rec_cache \<Rightarrow> ('x, 'd) rec_cache option" where
  "rec_Put queryLen convStates deltaStates c =
     (if length convStates \<noteq> length deltaStates \<or> length convStates = 0 then None
      else
        let start = re_offset c; splits = SnapshotSplits queryLen c in
        if int (length splits) \<noteq> int (length convStates) - 1 then None
        else
          let c1 = fold (\<lambda>(s, st) c. captureBoundary (start + s) (Some st) c) (zip splits (zip convStates deltaStates)) c;
              c2 = c1\<lparr>re_state := Some (last convStates, last deltaStates), re_offset := re_offset c1 + queryLen\<rparr>
          in Some (captureBoundary (re_offset c2) (re_state c2) c2))"

text \<open>A closed snapshot no longer holds its arrays, so it leaves the store; restoring it is \<^const>\<open>None\<close>.\<close>

definition rec_Close :: "nat \<Rightarrow> ('x, 'd) rec_cache \<Rightarrow> ('x, 'd) rec_cache" where
  "rec_Close s c = c\<lparr>re_heap := (re_heap c)(s := None)\<rparr>"

definition rec_Snapshot :: "int \<Rightarrow> ('x, 'd) rec_cache \<Rightarrow> nat option \<times> ('x, 'd) rec_cache" where
  "rec_Snapshot fromOffset c = (case re_state c of None \<Rightarrow> (None, c) | Some st \<Rightarrow> newRecurrentSnapshot st (re_offset c) c)"

definition rec_Restore :: "nat option \<Rightarrow> int \<Rightarrow> ('x, 'd) rec_cache \<Rightarrow> (bool \<times> ('x, 'd) rec_cache) option" where
  "rec_Restore snapshot target c =
     (case snapshot of
        None \<Rightarrow> Some (target = re_offset c, c)
      | Some s \<Rightarrow>
          (case re_heap c s of
             None \<Rightarrow> None
           | Some sn \<Rightarrow>
               if target \<noteq> rq_offset sn then Some (False, c)
               else Some (True, c\<lparr>re_state := Some (rq_state sn), re_offset := rq_offset sn\<rparr>)))"

definition rec_Merge :: "nat option \<Rightarrow> nat option \<Rightarrow> ('x, 'd) rec_cache \<Rightarrow> nat option \<times> ('x, 'd) rec_cache" where
  "rec_Merge parent child c = (child, case parent of None \<Rightarrow> c | Some p \<Rightarrow> rec_Close p c)"

definition rec_Split :: "nat option \<Rightarrow> int \<Rightarrow> ('x, 'd) rec_cache \<Rightarrow> (nat option \<times> nat option) \<times> ('x, 'd) rec_cache" where
  "rec_Split snapshot at0 c = ((None, snapshot), c)"

definition rec_Free :: "('x, 'd) rec_cache \<Rightarrow> ('x, 'd) rec_cache" where
  "rec_Free c = c\<lparr>re_state := None, re_offset := 0, re_pending := no_pending\<rparr>"

section \<open>The wrappers of the kernels\<close>

text \<open>The mask of a row of \<open>L\<close> inputs of which \<open>n\<close> are real, nil when all are.\<close>

definition paddingMask :: "nat \<Rightarrow> nat \<Rightarrow> bool list option" where
  "paddingMask n L = (if n < L then Some (map (\<lambda>j. j < n) [0 ..< L]) else None)"

fun segments_from :: "int \<Rightarrow> int list \<Rightarrow> int \<Rightarrow> (int \<times> int) list" where
  "segments_from start [] L = [(start, L)]"
| "segments_from start (e # es) L = (start, e) # segments_from e es L"

definition segmentRanges :: "int list \<Rightarrow> int \<Rightarrow> (int \<times> int) list" where
  "segmentRanges splits L = segments_from 0 splits L"

definition sliceSeg :: "'a list option \<Rightarrow> int \<times> int \<Rightarrow> 'a list option" where
  "sliceSeg x s = map_option (slots (fst s) (snd s)) x"

definition convStateAt :: "'x list \<Rightarrow> int \<Rightarrow> nat \<Rightarrow> int \<Rightarrow> 'x list" where
  "convStateAt window queryLen convTail boundary =
     (if queryLen < boundary \<and> 0 < convTail
      then map (\<lambda>k. window ! (nat (min boundary queryLen) + k)) [0 ..< convTail]
      else slots boundary (boundary + int convTail) window)"

definition CausalConv1D :: "('x :: zero list \<Rightarrow> 'y list) \<Rightarrow> nat \<Rightarrow> nat \<Rightarrow> int list \<Rightarrow> 'x conv_array \<Rightarrow> 'x list
    \<Rightarrow> 'y list \<times> 'x conv_array list" where
  "CausalConv1D conv convTail n splits prior input0 =
     (let L = length input0;
          input = (case paddingMask n L of None \<Rightarrow> input0 | Some m \<Rightarrow> map (\<lambda>(b, x). if b then x else 0) (zip m input0));
          window = ca_row prior @ input
      in (conv window,
          map (\<lambda>s. prior\<lparr>ca_row := convStateAt window (int n) convTail (snd s)\<rparr>) (segmentRanges splits (int L))))"

fun scan_segments :: "('d \<Rightarrow> 'y list \<Rightarrow> bool list option \<Rightarrow> 'o list \<times> 'd) \<Rightarrow> 'd \<Rightarrow> 'y list \<Rightarrow> bool list option
    \<Rightarrow> (int \<times> int) list \<Rightarrow> 'o list \<times> 'd list" where
  "scan_segments kern state ys msk [] = ([], [])"
| "scan_segments kern state ys msk (s # segs) =
     (case kern state (slots (fst s) (snd s) ys) (sliceSeg msk s) of
        (out, state) \<Rightarrow> (case scan_segments kern state ys msk segs of (outs, states) \<Rightarrow> (out @ outs, state # states)))"

definition GatedDelta :: "('d \<Rightarrow> 'y list \<Rightarrow> bool list option \<Rightarrow> 'o list \<times> 'd) \<Rightarrow> nat \<Rightarrow> int list \<Rightarrow> 'd \<Rightarrow> 'y list
    \<Rightarrow> 'o list \<times> 'd list" where
  "GatedDelta kern n splits prior ys =
     (let L = length ys; msk = paddingMask n L; segs = segmentRanges splits (int L) in
      if length segs \<le> 1 then (case kern prior ys msk of (out, st) \<Rightarrow> (out, [st]))
      else scan_segments kern prior ys msk segs)"

text \<open>
  The part of a forward pass of a layer that uses the cache (\<^verbatim>\<open>x/models/qwen3_5\<close>): a row of inputs,
  of which \<open>n\<close> are real.
\<close>

definition recurrent_forward :: "('x :: zero list \<Rightarrow> 'y list) \<Rightarrow> ('d :: zero \<Rightarrow> 'y list \<Rightarrow> bool list option \<Rightarrow> 'o list \<times> 'd)
    \<Rightarrow> nat \<Rightarrow> nat \<Rightarrow> 'x list \<Rightarrow> ('x, 'd) rec_cache \<Rightarrow> ('o list \<times> ('x, 'd) rec_cache) option" where
  "recurrent_forward conv kern dtype n xs c0 =
     (case rec_Get 1 dtype c0 of
        None \<Rightarrow> None
      | Some ((prior, delta), c) \<Rightarrow>
          let splits = SnapshotSplits (int (length xs)) c in
          (case CausalConv1D conv (re_convTail c) n splits prior xs of
             (ys, convStates) \<Rightarrow>
               (case GatedDelta kern n splits delta ys of
                  (out, deltaStates) \<Rightarrow> map_option (Pair out) (rec_Put (int n) convStates deltaStates c))))"
end
