(* ===== verification/RecurrentProofs.thy ===== *)
theory RecurrentProofs
  imports RecurrentCache RotatingProofs
begin

text \<open>
  The cache of a recurrent layer stands for a history: the tail of the convolution and the
  accumulator are those of running the recurrence over all real inputs so far, snapshots are those of
  prefixes of a history, and a segmented forward pass computes what one pass computes. The cache
  interprets the interface \<open>layer_cache\<close>.
\<close>

section \<open>The recurrence on a history\<close>

text \<open>The kernels by their laws: a scan is a run of one step per input, in which a masked input
  leaves the accumulator alone, and the convolution sees at each place its window.\<close>

fun run :: "('d \<Rightarrow> 'y \<Rightarrow> 'o \<times> 'd) \<Rightarrow> 'd \<Rightarrow> ('y \<times> bool) list \<Rightarrow> 'o list \<times> 'd" where
  "run step d [] = ([], d)"
| "run step d ((y, b) # ys) =
     (case step d y of (out, d1) \<Rightarrow> (case run step (if b then d1 else d) ys of (outs, d2) \<Rightarrow> (out # outs, d2)))"

definition lawful_scan :: "('d \<Rightarrow> 'y list \<Rightarrow> bool list option \<Rightarrow> 'o list \<times> 'd) \<Rightarrow> ('d \<Rightarrow> 'y \<Rightarrow> 'o \<times> 'd) \<Rightarrow> bool" where
  "lawful_scan kern step \<longleftrightarrow> (\<forall>d ys. kern d ys None = run step d (zip ys (replicate (length ys) True))) \<and>
     (\<forall>d ys m. length m = length ys \<longrightarrow> kern d ys (Some m) = run step d (zip ys m))"

definition lawful_conv :: "nat \<Rightarrow> ('x list \<Rightarrow> 'y list) \<Rightarrow> ('x list \<Rightarrow> 'y) \<Rightarrow> bool" where
  "lawful_conv T conv at_window \<longleftrightarrow>
     (\<forall>w. T \<le> length w \<longrightarrow> conv w = map (\<lambda>j. at_window (take (T + 1) (drop j w))) [0 ..< length w - T])"

definition padded :: "nat \<Rightarrow> 'x :: zero list \<Rightarrow> 'x list" where
  "padded T h = replicate T 0 @ h"

definition conv_outs :: "('x list \<Rightarrow> 'y) \<Rightarrow> nat \<Rightarrow> 'x :: zero list \<Rightarrow> 'y list" where
  "conv_outs f T h = map (\<lambda>j. f (take (T + 1) (drop j (padded T h)))) [0 ..< length h]"

definition conv_tail :: "nat \<Rightarrow> 'x :: zero list \<Rightarrow> 'x list" where
  "conv_tail T h = drop (length h) (padded T h)"

definition all_real :: "'y list \<Rightarrow> ('y \<times> bool) list" where
  "all_real ys = map (\<lambda>y. (y, True)) ys"

definition outputs :: "('x list \<Rightarrow> 'y) \<Rightarrow> ('d :: zero \<Rightarrow> 'y \<Rightarrow> 'o \<times> 'd) \<Rightarrow> nat \<Rightarrow> 'x :: zero list \<Rightarrow> 'o list" where
  "outputs f step T h = fst (run step 0 (all_real (conv_outs f T h)))"

definition accumulated :: "('x list \<Rightarrow> 'y) \<Rightarrow> ('d :: zero \<Rightarrow> 'y \<Rightarrow> 'o \<times> 'd) \<Rightarrow> nat \<Rightarrow> 'x :: zero list \<Rightarrow> 'd" where
  "accumulated f step T h = snd (run step 0 (all_real (conv_outs f T h)))"

lemma run_appended:
  "run step d (ys @ zs) = (case run step d ys of (o1, d1) \<Rightarrow> (case run step d1 zs of (o2, d2) \<Rightarrow> (o1 @ o2, d2)))"
proof (induction ys arbitrary: d)
  case (Cons p ys)
  obtain y b where "p = (y, b)" by (cases p)
  with Cons show ?case by (auto split: prod.splits)
qed simp

lemma run_length [simp]: "length (fst (run step d ys)) = length ys"
proof (induction ys arbitrary: d)
  case (Cons p ys)
  obtain y b where p: "p = (y, b)" by (cases p)
  obtain out d1 where "step d y = (out, d1)" by (cases "step d y")
  with p Cons [of "if b then d1 else d"] show ?case by (auto split: prod.splits)
qed simp

lemma run_masked_tail: "\<forall>p \<in> set ys. \<not> snd p \<Longrightarrow> snd (run step d ys) = d"
proof (induction ys)
  case (Cons p ys)
  then obtain y where p: "p = (y, False)" by (cases p) auto
  obtain out d1 where "step d y = (out, d1)" by (cases "step d y")
  with p Cons show ?case by (auto split: prod.splits)
qed simp

lemma all_real_zip: "zip ys (replicate (length ys) True) = all_real ys"
  by (simp add: all_real_def zip_replicate2)

lemma conv_tail_length [simp]: "length (conv_tail T h) = T"
  by (simp add: conv_tail_def padded_def)

lemma window_shift:
  "drop j (conv_tail T h @ xs) = drop (length h + j) (padded T (h @ xs))"
proof -
  have "conv_tail T h @ xs = drop (length h) (padded T h @ xs)" by (simp add: conv_tail_def padded_def)
  also have "padded T h @ xs = padded T (h @ xs)" by (simp add: padded_def)
  finally show ?thesis by (simp add: add.commute)
qed

lemma conv_outs_append:
  "conv_outs f T (h @ xs) =
     conv_outs f T h @ map (\<lambda>j. f (take (T + 1) (drop j (conv_tail T h @ xs)))) [0 ..< length xs]"
proof -
  have 1: "take (T + 1) (drop j (padded T (h @ xs))) = take (T + 1) (drop j (padded T h))" if "j < length h" for j
    using that by (simp add: padded_def)
  have 2: "[0 ..< length (h @ xs)] = [0 ..< length h] @ map (\<lambda>j. length h + j) [0 ..< length xs]"
    using upt_add_eq_append [of 0 "length h" "length xs"] map_add_upt [of "length h" "length xs"] by (simp add: add.commute)
  have "conv_outs f T (h @ xs) = map (\<lambda>j. f (take (T + 1) (drop j (padded T (h @ xs))))) [0 ..< length h]
      @ map (\<lambda>j. f (take (T + 1) (drop (length h + j) (padded T (h @ xs))))) [0 ..< length xs]"
    unfolding conv_outs_def 2 by simp
  also have "map (\<lambda>j. f (take (T + 1) (drop j (padded T (h @ xs))))) [0 ..< length h] = conv_outs f T h"
    unfolding conv_outs_def using 1 by (intro map_cong) auto
  finally show ?thesis unfolding window_shift .
qed

lemma conv_tail_append:
  "conv_tail T (h @ xs) = drop (length xs) (conv_tail T h @ xs)"
  unfolding window_shift by (simp add: conv_tail_def padded_def)

text \<open>What is behind the real inputs of a row does not matter.\<close>

lemma conv_outs_padded:
  assumes "n \<le> length xs" "length w = T"
  shows "take n (map (\<lambda>j. f (take (T + 1) (drop j (w @ xs)))) [0 ..< length xs])
       = map (\<lambda>j. f (take (T + 1) (drop j (w @ take n xs)))) [0 ..< n]"
proof -
  have "take (T + 1) (drop j (w @ xs)) = take (T + 1) (drop j (w @ take n xs))" if "j < n" for j
  proof -
    have "w @ xs = (w @ take n xs) @ drop n xs" by simp
    moreover have "T + 1 \<le> length (drop j (w @ take n xs))" using that assms by simp
    ultimately show ?thesis by (metis (no_types, lifting) drop_append take_append take_all_iff diff_is_0_eq append_Nil2 take_0)
  qed
  moreover have "take n [0 ..< length xs] = [0 ..< n]" using assms by (simp add: take_upt)
  ultimately show ?thesis unfolding take_map by (intro map_cong) auto
qed

text \<open>The new outputs of the convolution behind a history.\<close>

definition new_outs :: "('x list \<Rightarrow> 'y) \<Rightarrow> nat \<Rightarrow> 'x :: zero list \<Rightarrow> 'x list \<Rightarrow> 'y list" where
  "new_outs f T h xs = map (\<lambda>j. f (take (T + 1) (drop j (conv_tail T h @ xs)))) [0 ..< length xs]"

lemma new_outs_length [simp]: "length (new_outs f T h xs) = length xs"
  by (simp add: new_outs_def)

lemma new_outs_take: "e \<le> length xs \<Longrightarrow> take e (new_outs f T h xs) = new_outs f T h (take e xs)"
  unfolding new_outs_def using conv_outs_padded [of e xs "conv_tail T h" T f] by simp

lemma accumulated_append:
  "accumulated f step T (h @ xs) = snd (run step (accumulated f step T h) (all_real (new_outs f T h xs)))"
  by (simp add: accumulated_def conv_outs_append new_outs_def all_real_def run_appended split: prod.splits)

lemma outputs_append:
  "outputs f step T (h @ xs) = outputs f step T h @ fst (run step (accumulated f step T h) (all_real (new_outs f T h xs)))"
  by (simp add: outputs_def accumulated_def conv_outs_append new_outs_def all_real_def run_appended split: prod.splits)

section \<open>The wrappers\<close>

definition ends_of :: "int list \<Rightarrow> int \<Rightarrow> int list" where
  "ends_of cuts L = map snd (segmentRanges cuts L)"

lemma ends_of: "ends_of cuts L = cuts @ [L]"
proof -
  have "map snd (segments_from a cuts L) = cuts @ [L]" for a by (induction cuts arbitrary: a) auto
  then show ?thesis by (simp add: ends_of_def segmentRanges_def)
qed

text \<open>A segmented scan threads the accumulator through the pieces.\<close>

lemma scan_segments_run:
  assumes k: "\<And>d a b. a \<le> b \<Longrightarrow> b \<le> length zs \<Longrightarrow>
      kern d (slots (int a) (int b) ys) (sliceSeg msk (int a, int b)) = run step d (take (b - a) (drop a zs))"
    and "sorted (a # cuts)" "\<forall>e0 \<in> set cuts. e0 \<le> L" "L = length zs" "a \<le> L"
  shows "scan_segments kern d ys msk (segments_from (int a) (map int cuts) (int L)) =
    (fst (run step d (drop a zs)), map (\<lambda>e. snd (run step d (take (e - a) (drop a zs)))) (cuts @ [L]))"
  using assms(2,3,5)
proof (induction cuts arbitrary: a d)
  case Nil
  then show ?case using k [of a L d] assms(4) by (simp split: prod.splits)
next
  case (Cons e0 cuts)
  have le: "a \<le> e0" "e0 \<le> L" "e0 \<le> length zs" using Cons.prems assms(4) by simp_all
  let ?r = "run step d (take (e0 - a) (drop a zs))"
  have s: "sorted (e0 # cuts)" "\<forall>c \<in> set cuts. c \<le> L" using Cons.prems by simp_all
  note IH = Cons.IH [OF s(1,2) le(2), of "snd ?r"]
  have dd: "drop (e0 - a) (drop a zs) = drop e0 zs" using le(1) by simp
  have whole: "run step d (drop a zs) = (fst ?r @ fst (run step (snd ?r) (drop e0 zs)), snd (run step (snd ?r) (drop e0 zs)))"
    using run_appended [of step d "take (e0 - a) (drop a zs)" "drop (e0 - a) (drop a zs)"]
    unfolding dd append_take_drop_id [of "e0 - a" "drop a zs", unfolded dd] by (simp split: prod.splits)
  have piece: "run step d (take (e - a) (drop a zs)) = (fst ?r @ fst (run step (snd ?r) (take (e - e0) (drop e0 zs))),
      snd (run step (snd ?r) (take (e - e0) (drop e0 zs))))" if "e0 \<le> e" for e
  proof -
    have "e - a = (e0 - a) + (e - e0)" using that le(1) by simp
    then have "take (e - a) (drop a zs) = take (e0 - a) (drop a zs) @ take (e - e0) (drop e0 zs)"
      by (metis take_add dd)
    then show ?thesis by (simp add: run_appended split: prod.splits)
  qed
  have later: "e0 \<le> e" if "e \<in> set (cuts @ [L])" for e using that s(1) le(2) by auto
  have rest: "map (\<lambda>e. snd (run step (snd ?r) (take (e - e0) (drop e0 zs)))) (cuts @ [L])
      = map (\<lambda>e. snd (run step d (take (e - a) (drop a zs)))) (cuts @ [L])"
    by (intro map_cong refl) (erule piece [OF later, THEN arg_cong [of _ _ snd], unfolded snd_conv, symmetric])
  have "scan_segments kern d ys msk (segments_from (int a) (map int (e0 # cuts)) (int L))
      = (case ?r of (out, d1) \<Rightarrow>
          (case scan_segments kern d1 ys msk (segments_from (int e0) (map int cuts) (int L)) of (outs, states) \<Rightarrow> (out @ outs, d1 # states)))"
    by (simp only: list.map segments_from.simps scan_segments.simps fst_conv snd_conv k [OF le(1,3)])
  also have "\<dots> = (case scan_segments kern (snd ?r) ys msk (segments_from (int e0) (map int cuts) (int L)) of
      (outs, states) \<Rightarrow> (fst ?r @ outs, snd ?r # states))"
    by (simp only: case_prod_beta)
  also have "\<dots> = (fst (run step d (drop a zs)), map (\<lambda>e. snd (run step d (take (e - a) (drop a zs)))) ((e0 # cuts) @ [L]))"
    unfolding IH whole prod.case rest by (simp only: fst_conv append_Cons list.map)
  finally show ?case .
qed

text \<open>The flags of a row and the row with its padding blanked.\<close>

definition flags :: "nat \<Rightarrow> nat \<Rightarrow> bool list" where
  "flags n L = map (\<lambda>j. j < n) [0 ..< L]"

lemma flags_length [simp]: "length (flags n L) = L"
  by (simp add: flags_def)

lemma flags_take: "e \<le> n \<Longrightarrow> e \<le> L \<Longrightarrow> take e (flags n L) = replicate e True"
  by (simp add: flags_def take_map take_upt list_eq_iff_nth_eq)

lemma paddingMask_flags: "n \<le> L \<Longrightarrow> paddingMask n L = (if n < L then Some (flags n L) else None)"
  by (simp add: paddingMask_def flags_def)

lemma flags_full: "flags L L = replicate L True"
  using flags_take [of L L L] by simp

definition blanked :: "nat \<Rightarrow> 'x :: zero list \<Rightarrow> 'x list" where
  "blanked n xs = (case paddingMask n (length xs) of None \<Rightarrow> xs | Some m \<Rightarrow> map (\<lambda>(b, x). if b then x else 0) (zip m xs))"

lemma blanked_length [simp]: "length (blanked n xs) = length xs"
  by (simp add: blanked_def paddingMask_def)

lemma blanked_take:
  assumes "e \<le> n" "n \<le> length xs"
  shows "take e (blanked n xs) = take e xs"
proof (cases "n < length xs")
  case True
  then have "blanked n xs = map (\<lambda>(b, x). if b then x else 0) (zip (flags n (length xs)) xs)"
    by (simp add: blanked_def paddingMask_flags)
  then show ?thesis using assms by (auto simp: take_map take_zip flags_def intro!: nth_equalityI)
next
  case False
  then show ?thesis by (simp add: blanked_def paddingMask_def)
qed

lemma conv_state_at:
  assumes "e \<le> n" "n \<le> length xs"
  shows "convStateAt (conv_tail T h @ blanked n xs) (int n) T (int e) = conv_tail T (h @ take e xs)"
proof -
  let ?C = "conv_tail T h"
  have b: "blanked n xs = take e xs @ drop e (blanked n xs)"
    using blanked_take [OF assms] by (metis append_take_drop_id)
  have "take T (drop e (?C @ blanked n xs)) = take T (drop e (?C @ take e xs) @ drop e (blanked n xs))"
    using assms by (subst b) simp
  also have "\<dots> = drop e (?C @ take e xs)" using assms by simp
  also have "\<dots> = conv_tail T (h @ take e xs)" using assms conv_tail_append [of T h "take e xs"] by simp
  finally show ?thesis using assms slots_int [of e "e + T" "?C @ blanked n xs"] by (simp add: convStateAt_def)
qed

lemma conv_state_end:
  assumes "n \<le> length xs"
  shows "convStateAt (conv_tail T h @ blanked n xs) (int n) T (int (length xs)) = conv_tail T (h @ take n xs)"
proof (cases "n = length xs")
  case True
  then show ?thesis using conv_state_at [of n n xs T h] by simp
next
  case False
  then have n: "n < length xs" using assms by simp
  let ?w = "conv_tail T h @ blanked n xs"
  show ?thesis
  proof (cases "T = 0")
    case True
    then have "conv_tail T (h @ take n xs) = []" by (metis conv_tail_length length_0_conv)
    with True show ?thesis using slots_int [of "length xs" "length xs" ?w] by (simp add: convStateAt_def)
  next
    case f: False
    then have "convStateAt ?w (int n) T (int (length xs)) = map (\<lambda>k. ?w ! (n + k)) [0 ..< T]"
      using n by (simp add: convStateAt_def)
    also have "\<dots> = take T (drop n ?w)" using n by (intro nth_equalityI) (simp_all del: drop_append)
    also have "\<dots> = convStateAt ?w (int n) T (int n)" using slots_int [of n "n + T" ?w] by (simp add: convStateAt_def)
    finally show ?thesis using conv_state_at [OF order_refl assms] by simp
  qed
qed

lemma CausalConv1D_law:
  assumes "lawful_conv T conv f" "ca_row prior = conv_tail T h" "n \<le> length xs" "\<forall>e \<in> set cuts. e \<le> n"
  shows "\<exists>ys. CausalConv1D conv T n (map int cuts) prior xs =
      (ys, map (\<lambda>e. prior\<lparr>ca_row := conv_tail T (h @ take e xs)\<rparr>) (cuts @ [n])) \<and>
    length ys = length xs \<and> take n ys = new_outs f T h (take n xs)"
proof -
  let ?w = "conv_tail T h @ blanked n xs" and ?L = "int (length xs)"
  have ends: "map (\<lambda>s. F (snd s)) (segmentRanges (map int cuts) ?L) = map F (map int cuts @ [?L])" for F :: "int \<Rightarrow> 'z"
    using ends_of [of "map int cuts" ?L] unfolding ends_of_def by (metis (no_types, lifting) map_map comp_apply map_cong)
  have "map (\<lambda>s. prior\<lparr>ca_row := convStateAt ?w (int n) T (snd s)\<rparr>) (segmentRanges (map int cuts) ?L)
      = map (\<lambda>e. prior\<lparr>ca_row := convStateAt ?w (int n) T e\<rparr>) (map int cuts @ [?L])" by (rule ends)
  also have "\<dots> = map (\<lambda>e. prior\<lparr>ca_row := conv_tail T (h @ take e xs)\<rparr>) (cuts @ [n])"
    using conv_state_at [OF _ assms(3)] conv_state_end [OF assms(3)] assms(4) by simp
  finally have st: "map (\<lambda>s. prior\<lparr>ca_row := convStateAt ?w (int n) T (snd s)\<rparr>) (segmentRanges (map int cuts) ?L)
      = map (\<lambda>e. prior\<lparr>ca_row := conv_tail T (h @ take e xs)\<rparr>) (cuts @ [n])" .
  have c: "conv ?w = new_outs f T h (blanked n xs)"
    using assms(1) by (simp add: lawful_conv_def new_outs_def)
  have "CausalConv1D conv T n (map int cuts) prior xs =
      (conv ?w, map (\<lambda>e. prior\<lparr>ca_row := conv_tail T (h @ take e xs)\<rparr>) (cuts @ [n]))"
    unfolding CausalConv1D_def Let_def assms(2) blanked_def [symmetric] st ..
  moreover have "take n (conv ?w) = new_outs f T h (take n xs)"
    unfolding c using new_outs_take [of n "blanked n xs" f T h] assms(3) blanked_take [OF order_refl assms(3)] by simp
  ultimately show ?thesis unfolding c by simp
qed

text \<open>A row under its flags: the real inputs run, the padding leaves the accumulator alone.\<close>

lemma run_flags:
  assumes "e \<le> n" "n \<le> length ys"
  shows "run step d (take e (zip ys (flags n (length ys)))) = run step d (all_real (take e ys))"
  using assms all_real_zip [of "take e ys"] flags_take [of e n "length ys"] by (simp add: take_zip)

lemma run_flags_end:
  assumes "n \<le> length ys"
  shows "snd (run step d (zip ys (flags n (length ys)))) = snd (run step d (all_real (take n ys)))"
    "take n (fst (run step d (zip ys (flags n (length ys))))) = fst (run step d (all_real (take n ys)))"
proof -
  let ?z = "zip ys (flags n (length ys))"
  let ?r = "run step d (all_real (take n ys))"
  have "run step d (take n ?z @ drop n ?z) =
      (fst ?r @ fst (run step (snd ?r) (drop n ?z)), snd (run step (snd ?r) (drop n ?z)))"
    unfolding run_appended run_flags [OF order_refl assms] by (simp split: prod.splits)
  then have e: "run step d ?z = (fst ?r @ fst (run step (snd ?r) (drop n ?z)), snd (run step (snd ?r) (drop n ?z)))" by simp
  have "\<forall>p \<in> set (drop n ?z). \<not> snd p"
    by (auto simp: set_conv_nth flags_def)
  then show "snd (run step d ?z) = snd ?r" unfolding e by (simp add: run_masked_tail)
  have "length (fst ?r) = n" using assms by (simp add: all_real_def)
  then show "take n (fst (run step d ?z)) = fst ?r" unfolding e by simp
qed

lemma GatedDelta_law:
  assumes "lawful_scan kern step" "n \<le> length ys" "sorted cuts" "\<forall>e \<in> set cuts. e \<le> n"
  shows "\<exists>out. GatedDelta kern n (map int cuts) d ys =
      (out, map (\<lambda>e. snd (run step d (all_real (take e ys)))) (cuts @ [n])) \<and>
    take n out = fst (run step d (all_real (take n ys)))"
proof -
  let ?z = "zip ys (flags n (length ys))" and ?m = "paddingMask n (length ys)"
  have whole: "kern d ys ?m = run step d ?z"
    using assms(1,2) flags_full [of "length ys"] unfolding paddingMask_flags [OF assms(2)] lawful_scan_def
    by (cases "n < length ys") simp_all
  have piece: "kern d (slots (int a) (int b) ys) (sliceSeg ?m (int a, int b)) = run step d (take (b - a) (drop a ?z))"
    if "a \<le> b" "b \<le> length ?z" for d a b
  proof -
    have l: "length (take (b - a) (drop a ys)) = b - a" using that by simp
    have z: "take (b - a) (drop a ?z) = zip (take (b - a) (drop a ys)) (take (b - a) (drop a (flags n (length ys))))"
      by (simp add: take_zip drop_zip)
    show ?thesis
    proof (cases "n < length ys")
      case True
      then have "sliceSeg ?m (int a, int b) = Some (take (b - a) (drop a (flags n (length ys))))"
        unfolding paddingMask_flags [OF assms(2)] by (simp add: sliceSeg_def)
      then show ?thesis unfolding z using assms(1) l that by (simp add: lawful_scan_def)
    next
      case False
      then have n: "n = length ys" using assms(2) by simp
      then have "sliceSeg ?m (int a, int b) = None"
        unfolding paddingMask_flags [OF assms(2)] by (simp add: sliceSeg_def)
      moreover have "take (b - a) (drop a (flags n (length ys))) = replicate (b - a) True"
        unfolding n flags_full using that by (simp add: n)
      ultimately show ?thesis unfolding z using assms(1) l by (simp add: lawful_scan_def)
    qed
  qed
  have ends: "map (\<lambda>e. snd (run step d (take e ?z))) (cuts @ [length ys]) = map (\<lambda>e. snd (run step d (all_real (take e ys)))) (cuts @ [n])"
  proof -
    have "snd (run step d (take e ?z)) = snd (run step d (all_real (take e ys)))" if "e \<in> set cuts" for e
      using run_flags [of e n ys step d] that assms(2,4) by simp
    moreover have "snd (run step d (take (length ys) ?z)) = snd (run step d (all_real (take n ys)))"
      using run_flags_end(1) [OF assms(2)] by simp
    ultimately show ?thesis by simp
  qed
  show ?thesis
  proof (cases cuts)
    case Nil
    then have "GatedDelta kern n (map int cuts) d ys = (fst (run step d ?z), [snd (run step d ?z)])"
      using whole by (simp add: GatedDelta_def segmentRanges_def Let_def split: prod.splits)
    then show ?thesis using Nil run_flags_end [OF assms(2), of step d] by simp
  next
    case (Cons e0 es)
    have s: "sorted (0 # cuts)" "\<forall>e \<in> set cuts. e \<le> length ys" using assms by auto
    have "scan_segments kern d ys ?m (segments_from 0 (map int cuts) (int (length ys))) =
        (fst (run step d ?z), map (\<lambda>e. snd (run step d (take e ?z))) (cuts @ [length ys]))"
      using scan_segments_run [of ?z kern ys ?m step 0 cuts "length ys" d, OF piece s] by simp
    moreover have "1 < length (segmentRanges (map int cuts) (int (length ys)))"
      using Cons by (cases es) (simp_all add: segmentRanges_def)
    ultimately have "GatedDelta kern n (map int cuts) d ys =
        (fst (run step d ?z), map (\<lambda>e. snd (run step d (take e ?z))) (cuts @ [length ys]))"
      by (simp add: GatedDelta_def segmentRanges_def Let_def)
    then show ?thesis unfolding ends using run_flags_end(2) [OF assms(2)] by simp
  qed
qed

section \<open>The invariant\<close>

definition stands_for :: "('x list \<Rightarrow> 'y) \<Rightarrow> ('d :: zero \<Rightarrow> 'y \<Rightarrow> 'o \<times> 'd) \<Rightarrow> nat \<Rightarrow> nat \<Rightarrow> ('x :: zero, 'd) rec_state \<Rightarrow> 'x list \<Rightarrow> bool" where
  "stands_for f step T dtype st h \<longleftrightarrow> ca_batch (fst st) = 1 \<and> ca_dtype (fst st) = dtype \<and>
     ca_row (fst st) = conv_tail T h \<and> snd st = accumulated f step T h"

definition rec_snaps :: "(('x, 'd) rec_state \<Rightarrow> 'x list \<Rightarrow> bool) \<Rightarrow> ('x, 'd) rec_cache \<Rightarrow> (nat \<Rightarrow> 'x list) \<Rightarrow> bool" where
  "rec_snaps good c G \<longleftrightarrow>
     (\<forall>s sn. re_heap c s = Some sn \<longrightarrow> s < re_next c \<and> rq_offset sn = int (length (G s)) \<and> good (rq_state sn) (G s))"

definition rec_ok :: "(('x, 'd) rec_state \<Rightarrow> 'x list \<Rightarrow> bool) \<Rightarrow> ('x, 'd) rec_cache \<Rightarrow> 'x list \<Rightarrow> (nat \<Rightarrow> 'x list) \<Rightarrow> bool" where
  "rec_ok good c h G \<longleftrightarrow> re_offset c = int (length h) \<and>
     (case re_state c of None \<Rightarrow> h = [] | Some st \<Rightarrow> good st h) \<and>
     rec_snaps good c G \<and> pend_ok (re_pending c) (re_next c) G \<and> sorted (pe_offsets (re_pending c))"

text \<open>The parts of the state that captures do not change, and the snapshots they may add.\<close>

definition rec_core :: "('x, 'd) rec_cache \<Rightarrow> ('x, 'd) rec_state option \<times> int \<times> nat \<times> int list" where
  "rec_core c = (re_state c, re_offset c, re_convTail c, pe_offsets (re_pending c))"

definition rec_grows :: "'x list \<Rightarrow> ('x, 'd) rec_cache \<Rightarrow> (nat \<Rightarrow> 'x list) \<Rightarrow> ('x, 'd) rec_cache \<Rightarrow> (nat \<Rightarrow> 'x list) \<Rightarrow> bool" where
  "rec_grows h c G c' G' \<longleftrightarrow> re_next c \<le> re_next c' \<and>
     (\<forall>s < re_next c. G' s = G s \<and> re_heap c' s = re_heap c s) \<and>
     (\<forall>s. re_next c \<le> s \<longrightarrow> s < re_next c' \<longrightarrow> (\<exists>n \<le> length h. G' s = take n h))"

lemma rec_grows_refl [simp]: "rec_grows h c G c G"
  by (simp add: rec_grows_def)

lemma rec_grows_trans:
  assumes "rec_grows h c G c1 G1" "rec_grows h c1 G1 c2 G2"
  shows "rec_grows h c G c2 G2"
proof -
  have "\<exists>n \<le> length h. G2 s = take n h" if "re_next c \<le> s" "s < re_next c2" for s
    using assms that by (cases "s < re_next c1") (auto simp: rec_grows_def)
  with assms show ?thesis by (auto simp: rec_grows_def)
qed

lemma rec_caps_grow: "caps_ok offs cs (re_next c) G \<Longrightarrow> rec_grows h c G c' G' \<Longrightarrow> caps_ok offs cs (re_next c') G'"
  by (fastforce simp: caps_ok_def rec_grows_def)

text \<open>One snapshot of a prefix.\<close>

lemma newRecurrentSnapshot_step:
  assumes "rec_snaps good c G" "good st (take n h)" "n \<le> length h" "newRecurrentSnapshot st (int n) c = (s, c')"
  shows "\<exists>G'. rec_snaps good c' G' \<and> rec_grows h c G c' G' \<and> rec_core c' = rec_core c \<and> re_pending c' = re_pending c
    \<and> s = Some (re_next c) \<and> re_next c' = re_next c + 1 \<and> G' (re_next c) = take n h"
proof -
  let ?G = "G(re_next c := take n h)"
  have "rec_snaps good c' ?G"
    using assms by (auto simp: rec_snaps_def newRecurrentSnapshot_def less_Suc_eq)
  moreover have "rec_grows h c G c' ?G"
    using assms(3,4) by (auto simp: rec_grows_def newRecurrentSnapshot_def less_Suc_eq)
  moreover have "rec_core c' = rec_core c" "re_pending c' = re_pending c" "s = Some (re_next c)" "re_next c' = re_next c + 1"
    using assms(4) by (auto simp: newRecurrentSnapshot_def rec_core_def)
  ultimately show ?thesis by (intro exI [of _ ?G]) simp
qed

abbreviation boundary_snap :: "('x, 'd) rec_state option \<Rightarrow> int \<Rightarrow> ('x, 'd) rec_cache \<Rightarrow> nat option \<times> ('x, 'd) rec_cache" where
  "boundary_snap st off c \<equiv> (case st of None \<Rightarrow> (None, c) | Some st \<Rightarrow> newRecurrentSnapshot st off c)"

lemma rec_capture_entries:
  assumes "\<And>st'. st = Some st' \<Longrightarrow> good st' (take n h)" "n \<le> length h"
    and "rec_snaps good c G" "caps_ok offs cs (re_next c) G"
    and "capture_with (boundary_snap st (int n)) (int n) offs cs c = (cs', hit, c')"
  shows "\<exists>G'. rec_snaps good c' G' \<and> rec_grows h c G c' G' \<and> rec_core c' = rec_core c \<and> re_pending c' = re_pending c
    \<and> caps_ok offs cs' (re_next c') G'"
  using assms(3-5)
proof (induction offs arbitrary: cs c G cs' hit c')
  case Nil
  then show ?case by (auto simp: caps_ok_def)
next
  case (Cons off offs)
  show ?case
  proof (cases cs)
    case Nil
    with Cons.prems show ?thesis by (auto simp: caps_ok_def)
  next
    case cs: (Cons cap caps)
    have tail: "caps_ok offs caps (re_next c) G" using Cons.prems(2) cs by (auto simp: caps_ok_def)
    show ?thesis
    proof (cases "cap = None \<and> off = int n")
      case True
      obtain s c1 where s: "boundary_snap st (int n) c = (s, c1)" by (cases "boundary_snap st (int n) c")
      obtain cs1 hit1 c2 where e: "capture_with (boundary_snap st (int n)) (int n) offs caps c1 = (cs1, hit1, c2)"
        by (cases "capture_with (boundary_snap st (int n)) (int n) offs caps c1")
      have r: "cs' = s # cs1" "c' = c2" using Cons.prems(3) cs True s e by auto
      have "\<exists>G1. rec_snaps good c1 G1 \<and> rec_grows h c G c1 G1 \<and> rec_core c1 = rec_core c \<and> re_pending c1 = re_pending c
          \<and> (\<forall>k. s = Some k \<longrightarrow> k < re_next c1 \<and> G1 k = take n h)"
      proof (cases st)
        case None
        with s Cons.prems(1) show ?thesis by auto
      next
        case (Some st')
        with s have "newRecurrentSnapshot st' (int n) c = (s, c1)" by simp
        from newRecurrentSnapshot_step [OF Cons.prems(1) assms(1) [OF Some] assms(2) this] show ?thesis by auto
      qed
      then obtain G1 where G1: "rec_snaps good c1 G1" "rec_grows h c G c1 G1" "rec_core c1 = rec_core c" "re_pending c1 = re_pending c"
          "\<forall>k. s = Some k \<longrightarrow> k < re_next c1 \<and> G1 k = take n h" by blast
      from Cons.IH [OF G1(1) rec_caps_grow [OF tail G1(2)] e] obtain G2 where
        G2: "rec_snaps good c2 G2" "rec_grows h c1 G1 c2 G2" "rec_core c2 = rec_core c1" "re_pending c2 = re_pending c1"
          "caps_ok offs cs1 (re_next c2) G2" by blast
      have "\<forall>k. s = Some k \<longrightarrow> k < re_next c2 \<and> int (length (G2 k)) = off"
        using G1(5) G2(2) True assms(2) by (auto simp: rec_grows_def)
      with G2(5) have "caps_ok (off # offs) (s # cs1) (re_next c2) G2" by (auto simp: caps_ok_def)
      with G1 G2 r rec_grows_trans [OF G1(2) G2(2)] show ?thesis by auto
    next
      case False
      obtain cs1 hit1 c2 where e: "capture_with (boundary_snap st (int n)) (int n) offs caps c = (cs1, hit1, c2)"
        by (cases "capture_with (boundary_snap st (int n)) (int n) offs caps c")
      have r: "cs' = cap # cs1" "c' = c2" using Cons.prems(3) cs False e by auto
      from Cons.IH [OF Cons.prems(1) tail e] obtain G2 where
        G2: "rec_snaps good c2 G2" "rec_grows h c G c2 G2" "rec_core c2 = rec_core c" "re_pending c2 = re_pending c"
          "caps_ok offs cs1 (re_next c2) G2" by blast
      have "\<forall>k. cap = Some k \<longrightarrow> k < re_next c2 \<and> int (length (G2 k)) = off"
        using Cons.prems(2) cs G2(2) by (fastforce simp: caps_ok_def rec_grows_def)
      with G2(5) have "caps_ok (off # offs) (cap # cs1) (re_next c2) G2" by (auto simp: caps_ok_def)
      with G2 r show ?thesis by auto
    qed
  qed
qed

lemma captureBoundary_step:
  assumes "\<And>st'. st = Some st' \<Longrightarrow> good st' (take n h)" "n \<le> length h"
    and "rec_snaps good c G" "pend_ok (re_pending c) (re_next c) G"
  shows "\<exists>G'. rec_snaps good (captureBoundary (int n) st c) G' \<and> rec_grows h c G (captureBoundary (int n) st c) G'
    \<and> rec_core (captureBoundary (int n) st c) = rec_core c
    \<and> pend_ok (re_pending (captureBoundary (int n) st c)) (re_next (captureBoundary (int n) st c)) G'"
proof (cases "pe_captured (re_pending c)")
  case None
  with assms(3,4) show ?thesis by (auto simp: captureBoundary_def)
next
  case (Some caps)
  obtain cs' hit c' where e: "capture_with (boundary_snap st (int n)) (int n) (pe_offsets (re_pending c)) caps c = (cs', hit, c')"
    by (cases "capture_with (boundary_snap st (int n)) (int n) (pe_offsets (re_pending c)) caps c")
  have "caps_ok (pe_offsets (re_pending c)) caps (re_next c) G" using assms(4) Some by (simp add: pend_ok_caps)
  from rec_capture_entries [OF assms(1,2,3) this e] obtain G' where
    G': "rec_snaps good c' G'" "rec_grows h c G c' G'" "rec_core c' = rec_core c" "re_pending c' = re_pending c"
      "caps_ok (pe_offsets (re_pending c)) cs' (re_next c') G'" by blast
  let ?c = "c'\<lparr>re_pending := (re_pending c')\<lparr>pe_captured := Some cs', pe_base := (if hit then int n else pe_base (re_pending c'))\<rparr>\<rparr>"
  have "captureBoundary (int n) st c = ?c" using Some e by (simp add: captureBoundary_def)
  moreover have "rec_snaps good ?c G'" using G'(1) by (simp add: rec_snaps_def)
  moreover have "rec_grows h c G ?c G'" using G'(2) by (simp add: rec_grows_def)
  moreover have "rec_core ?c = rec_core c" using G'(3,4) by (simp add: rec_core_def)
  moreover have "pend_ok (re_pending ?c) (re_next ?c) G'" using G'(4,5) by (simp add: pend_ok_caps)
  ultimately show ?thesis by auto
qed

lemma capture_boundaries_step:
  assumes "\<forall>(s, st) \<in> set bs. \<exists>n \<le> length h. start + s = int n \<and> good st (take n h)"
    and "rec_snaps good c G" "pend_ok (re_pending c) (re_next c) G"
  shows "\<exists>G'. let c' = fold (\<lambda>(s, st) c. captureBoundary (start + s) (Some st) c) bs c in
    rec_snaps good c' G' \<and> rec_grows h c G c' G' \<and> rec_core c' = rec_core c \<and> pend_ok (re_pending c') (re_next c') G'"
  using assms
proof (induction bs arbitrary: c G)
  case (Cons b bs)
  obtain s st where b: "b = (s, st)" by (cases b)
  with Cons.prems(1) obtain n where n: "n \<le> length h" "start + s = int n" "good st (take n h)" by auto
  let ?c = "captureBoundary (start + s) (Some st) c"
  have "\<And>st'. Some st = Some st' \<Longrightarrow> good st' (take n h)" using n(3) by simp
  from captureBoundary_step [OF this n(1) Cons.prems(2,3)] obtain G1 where
    1: "rec_snaps good ?c G1" "rec_grows h c G ?c G1" "rec_core ?c = rec_core c" "pend_ok (re_pending ?c) (re_next ?c) G1"
    unfolding n(2) by blast
  have "\<forall>(s, st) \<in> set bs. \<exists>n \<le> length h. start + s = int n \<and> good st (take n h)" using Cons.prems(1) by simp
  from Cons.IH [OF this 1(1,4)] obtain G2 where
    2: "let c' = fold (\<lambda>(s, st) c. captureBoundary (start + s) (Some st) c) bs ?c in
      rec_snaps good c' G2 \<and> rec_grows h ?c G1 c' G2 \<and> rec_core c' = rec_core ?c \<and> pend_ok (re_pending c') (re_next c') G2" by blast
  show ?case using 2 1(3) rec_grows_trans [OF 1(2)] unfolding b Let_def by (intro exI [of _ G2]) auto
qed (auto simp: Let_def)

lemma rec_ok_parts:
  assumes "rec_ok good c h G"
  shows "re_offset c = int (length h)" "rec_snaps good c G" "pend_ok (re_pending c) (re_next c) G"
    "sorted (pe_offsets (re_pending c))" "re_state c = None \<Longrightarrow> h = []" "re_state c = Some st \<Longrightarrow> good st h"
  using assms by (simp_all add: rec_ok_def)

lemma rec_Put_step:
  assumes "rec_ok good c h G" "SnapshotSplits (int n) c = map int cuts" "\<forall>e \<in> set cuts. e \<le> n" "n \<le> length xs"
    and "\<forall>e \<in> set (cuts @ [n]). good (C e, D e) (h @ take e xs)"
  shows "\<exists>c' G'. rec_Put (int n) (map C (cuts @ [n])) (map D (cuts @ [n])) c = Some c' \<and> rec_ok good c' (h @ take n xs) G' \<and>
    rec_grows (h @ take n xs) c G c' G' \<and> re_convTail c' = re_convTail c"
proof -
  let ?h = "h @ take n xs" and ?bs = "map (\<lambda>e. (int e, (C e, D e))) cuts"
  note r = rec_ok_parts [OF assms(1)]
  have z: "zip (map int cuts) (zip (map C (cuts @ [n])) (map D (cuts @ [n]))) = ?bs"
  proof -
    have "zip (map int cuts) (zip (map C cuts) (map D cuts) @ [(C n, D n)]) = zip (map int cuts) (zip (map C cuts) (map D cuts))"
      by (simp add: zip_append1 [symmetric] zip_append2)
    also have "\<dots> = ?bs" by (simp add: zip_map_map zip_same_conv_map comp_def)
    finally show ?thesis by simp
  qed
  have pre: "take (length h + e) ?h = h @ take e xs" if "e \<le> n" for e using that by (simp add: min_def)
  have "\<forall>(s, st) \<in> set ?bs. \<exists>k \<le> length ?h. re_offset c + s = int k \<and> good st (take k ?h)"
  proof -
    have "\<exists>k \<le> length ?h. re_offset c + int e = int k \<and> good (C e, D e) (take k ?h)" if "e \<in> set cuts" for e
    proof -
      have "e \<le> n" "good (C e, D e) (h @ take e xs)" using that assms(3,5) by auto
      then show ?thesis using pre [of e] r(1) assms(4) by (intro exI [of _ "length h + e"]) simp
    qed
    then show ?thesis by auto
  qed
  from capture_boundaries_step [OF this r(2,3)] obtain G1 where
    1: "let c1 = fold (\<lambda>(s, st) c. captureBoundary (re_offset c + s) (Some st) c) [] c in True"
      "let c1 = fold (\<lambda>(s, st) c'. captureBoundary (re_offset c + s) (Some st) c') ?bs c in
        rec_snaps good c1 G1 \<and> rec_grows ?h c G c1 G1 \<and> rec_core c1 = rec_core c \<and> pend_ok (re_pending c1) (re_next c1) G1"
    by auto
  define c1 where "c1 = fold (\<lambda>(s, st) c'. captureBoundary (re_offset c + s) (Some st) c') ?bs c"
  have c1: "rec_snaps good c1 G1" "rec_grows ?h c G c1 G1" "rec_core c1 = rec_core c" "pend_ok (re_pending c1) (re_next c1) G1"
    using 1(2) unfolding c1_def Let_def by blast+
  define c2 where "c2 = c1\<lparr>re_state := Some (C n, D n), re_offset := re_offset c1 + int n\<rparr>"
  have c2: "rec_snaps good c2 G1" "rec_grows ?h c G c2 G1" "pend_ok (re_pending c2) (re_next c2) G1"
      "re_offset c2 = int (length ?h)" "re_state c2 = Some (C n, D n)" "re_convTail c2 = re_convTail c"
      "pe_offsets (re_pending c2) = pe_offsets (re_pending c)"
    using c1 r(1) assms(4) by (auto simp: c2_def rec_snaps_def rec_grows_def rec_core_def)
  have g: "good (C n, D n) ?h" using assms(5) by simp
  have "\<And>st'. Some (C n, D n) = Some st' \<Longrightarrow> good st' (take (length ?h) ?h)" using g unfolding take_all [OF order_refl] by blast
  from captureBoundary_step [OF this order_refl c2(1,3)] obtain G2 where
    3: "rec_snaps good (captureBoundary (int (length ?h)) (Some (C n, D n)) c2) G2"
      "rec_grows ?h c2 G1 (captureBoundary (int (length ?h)) (Some (C n, D n)) c2) G2"
      "rec_core (captureBoundary (int (length ?h)) (Some (C n, D n)) c2) = rec_core c2"
      "pend_ok (re_pending (captureBoundary (int (length ?h)) (Some (C n, D n)) c2))
        (re_next (captureBoundary (int (length ?h)) (Some (C n, D n)) c2)) G2" by blast
  let ?c = "captureBoundary (int (length ?h)) (Some (C n, D n)) c2"
  have "rec_Put (int n) (map C (cuts @ [n])) (map D (cuts @ [n])) c = Some ?c"
    unfolding rec_Put_def Let_def assms(2) z c1_def [symmetric] using c2(4,5) by (simp add: c2_def)
  moreover have "re_state ?c = Some (C n, D n)" "re_offset ?c = int (length ?h)" "re_convTail ?c = re_convTail c"
      "pe_offsets (re_pending ?c) = pe_offsets (re_pending c)"
    using 3(3) c2 by (simp_all add: rec_core_def)
  moreover have "rec_ok good ?c ?h G2"
    unfolding rec_ok_def using 3(1,4) calculation(2-) g r(4) by simp
  ultimately show ?thesis using rec_grows_trans [OF c2(2) 3(2)] by blast
qed

lemma stands_for_start: "stands_for f step T dtype (\<lparr>ca_batch = 1, ca_dtype = dtype, ca_row = replicate T 0\<rparr>, 0) []"
  by (simp add: stands_for_def conv_tail_def padded_def accumulated_def conv_outs_def all_real_def)

lemma rec_Get_step:
  assumes "rec_ok (stands_for f step T dtype) c h G" "re_convTail c = T"
  shows "\<exists>st c'. rec_Get 1 dtype c = Some (st, c') \<and> stands_for f step T dtype st h \<and> rec_ok (stands_for f step T dtype) c' h G
    \<and> re_next c' = re_next c \<and> re_heap c' = re_heap c \<and> re_convTail c' = T \<and> re_pending c' = re_pending c"
proof (cases "re_state c")
  case None
  let ?st = "(\<lparr>ca_batch = 1, ca_dtype = dtype, ca_row = replicate T 0\<rparr>, 0)"
  have "h = []" using assms(1) None by (simp add: rec_ok_def)
  then have "stands_for f step T dtype ?st h" using stands_for_start by simp
  moreover from this have "rec_ok (stands_for f step T dtype) (c\<lparr>re_state := Some ?st\<rparr>) h G"
    using assms(1) by (simp add: rec_ok_def rec_snaps_def)
  moreover have "rec_Get 1 dtype c = Some (?st, c\<lparr>re_state := Some ?st\<rparr>)"
    using None assms(2) by (simp add: rec_Get_def Let_def)
  ultimately show ?thesis using assms(2) by auto
next
  case (Some st)
  then have g: "stands_for f step T dtype st h" using assms(1) by (simp add: rec_ok_def)
  then have "rec_Get 1 dtype c = Some (st, c)" using Some by (simp add: rec_Get_def stands_for_def)
  with g assms show ?thesis by auto
qed

text \<open>The splits of a row are offsets into it, the same for its real inputs.\<close>

definition cuts_of :: "nat \<Rightarrow> nat \<Rightarrow> int list \<Rightarrow> nat list" where
  "cuts_of k n offs = map (\<lambda>off. nat (off - int k)) (filter (\<lambda>off. int k < off \<and> off < int k + int n) offs)"

lemma SnapshotSplits_cuts:
  assumes "re_offset c = int k"
  shows "SnapshotSplits (int n) c = map int (cuts_of k n (pe_offsets (re_pending c)))"
  unfolding SnapshotSplits_def cuts_of_def assms map_map by (intro map_cong) auto

lemma cuts_of_real:
  assumes "n \<le> L" "\<forall>off \<in> set offs. \<not> (int k + int n \<le> off \<and> off < int k + int L)"
  shows "cuts_of k L offs = cuts_of k n offs"
proof -
  have "filter (\<lambda>off. int k < off \<and> off < int k + int L) offs = filter (\<lambda>off. int k < off \<and> off < int k + int n) offs"
    using assms by (intro filter_cong) auto
  then show ?thesis by (simp add: cuts_of_def)
qed

lemma cuts_of_sorted: "sorted offs \<Longrightarrow> sorted (cuts_of k n offs)"
  unfolding cuts_of_def by (induction offs) (auto intro: nat_mono)

lemma cuts_of_below: "e \<in> set (cuts_of k n offs) \<Longrightarrow> e \<le> n"
  by (auto simp: cuts_of_def)

lemma recurrent_forward_step:
  assumes "lawful_conv T conv f" "lawful_scan kern step" "rec_ok (stands_for f step T dtype) c h G" "re_convTail c = T"
    and "n \<le> length xs" "\<forall>off \<in> set (pe_offsets (re_pending c)). \<not> (re_offset c + int n \<le> off \<and> off < re_offset c + int (length xs))"
  shows "\<exists>out c' G'. recurrent_forward conv kern dtype n xs c = Some (out, c') \<and>
    rec_ok (stands_for f step T dtype) c' (h @ take n xs) G' \<and> rec_grows (h @ take n xs) c G c' G' \<and> re_convTail c' = T \<and>
    outputs f step T (h @ take n xs) = outputs f step T h @ take n out"
proof -
  let ?good = "stands_for f step T dtype"
  from rec_Get_step [OF assms(3,4)] obtain prior d c1 where
    g: "rec_Get 1 dtype c = Some ((prior, d), c1)" "?good (prior, d) h" "rec_ok ?good c1 h G" "re_next c1 = re_next c \<and> re_heap c1 = re_heap c"
      "re_convTail c1 = T" "re_pending c1 = re_pending c" by fastforce
  define cuts where "cuts = cuts_of (length h) n (pe_offsets (re_pending c))"
  note r = rec_ok_parts [OF g(3)]
  have off: "re_offset c = int (length h)" using rec_ok_parts(1) [OF assms(3)] .
  have splits: "SnapshotSplits (int (length xs)) c1 = map int cuts" "SnapshotSplits (int n) c1 = map int cuts"
    using SnapshotSplits_cuts [OF r(1)] cuts_of_real [OF assms(5), of "pe_offsets (re_pending c)" "length h"] assms(6)
    unfolding cuts_def g(6) off by simp_all
  have below: "\<forall>e \<in> set cuts. e \<le> n" using cuts_of_below by (simp add: cuts_def)
  have srt: "sorted cuts" using r(4) cuts_of_sorted unfolding cuts_def g(6) by blast
  have p: "ca_row prior = conv_tail T h" "d = accumulated f step T h" "ca_batch prior = 1" "ca_dtype prior = dtype"
    using g(2) by (simp_all add: stands_for_def)
  from CausalConv1D_law [OF assms(1) p(1) assms(5) below] obtain ys where
    y: "CausalConv1D conv T n (map int cuts) prior xs = (ys, map (\<lambda>e. prior\<lparr>ca_row := conv_tail T (h @ take e xs)\<rparr>) (cuts @ [n]))"
      "length ys = length xs" "take n ys = new_outs f T h (take n xs)" by blast
  have "n \<le> length ys" using y(2) assms(5) by simp
  from GatedDelta_law [OF assms(2) this srt below, of d] obtain out where
    o: "GatedDelta kern n (map int cuts) d ys = (out, map (\<lambda>e. snd (run step d (all_real (take e ys)))) (cuts @ [n]))"
      "take n out = fst (run step d (all_real (take n ys)))" by blast
  have pre: "take e ys = new_outs f T h (take e xs)" if "e \<le> n" for e
  proof -
    have "take e ys = take e (take n ys)" using that by (simp add: min_def)
    also have "\<dots> = new_outs f T h (take e (take n xs))" unfolding y(3) using that assms(5) by (intro new_outs_take) simp
    finally show ?thesis using that by (simp add: min_def)
  qed
  have "?good (prior\<lparr>ca_row := conv_tail T (h @ take e xs)\<rparr>, snd (run step d (all_real (take e ys)))) (h @ take e xs)"
    if "e \<in> set (cuts @ [n])" for e
  proof -
    have "e \<le> n" using that below by auto
    then show ?thesis using p pre accumulated_append [of f step T h "take e xs"] by (simp add: stands_for_def)
  qed
  then have good: "\<forall>e \<in> set (cuts @ [n]). ?good ((\<lambda>e. prior\<lparr>ca_row := conv_tail T (h @ take e xs)\<rparr>) e,
      (\<lambda>e. snd (run step d (all_real (take e ys)))) e) (h @ take e xs)" by blast
  from rec_Put_step [OF g(3) splits(2) below assms(5) good] obtain c' G' where
    P: "rec_Put (int n) (map (\<lambda>e. prior\<lparr>ca_row := conv_tail T (h @ take e xs)\<rparr>) (cuts @ [n]))
        (map (\<lambda>e. snd (run step d (all_real (take e ys)))) (cuts @ [n])) c1 = Some c'"
      "rec_ok ?good c' (h @ take n xs) G'" "rec_grows (h @ take n xs) c1 G c' G'" "re_convTail c' = re_convTail c1" by blast
  have "recurrent_forward conv kern dtype n xs c = Some (out, c')"
    unfolding recurrent_forward_def g(1) option.case prod.case Let_def splits(1) g(5) y(1) o(1) P(1) by simp
  moreover have "rec_grows (h @ take n xs) c G c' G'"
    using P(3) unfolding rec_grows_def g(4) [THEN conjunct1] g(4) [THEN conjunct2] .
  moreover have "outputs f step T (h @ take n xs) = outputs f step T h @ take n out"
    unfolding o(2) outputs_append pre [OF order_refl] p(2) ..
  ultimately show ?thesis using P(2,4) g(5) by blast
qed

section \<open>Going back and the other operations\<close>

lemma rec_Restore_law:
  assumes "rec_ok good c h G" "s \<noteq> None \<Longrightarrow> re_heap c (the s) \<noteq> None"
  defines "g \<equiv> (case s of None \<Rightarrow> h | Some k \<Rightarrow> G k)"
  shows "if target = int (length g)
    then \<exists>c'. rec_Restore s target c = Some (True, c') \<and> rec_ok good c' g G \<and> re_convTail c' = re_convTail c
    else rec_Restore s target c = Some (False, c)"
proof (cases s)
  case None
  then show ?thesis using assms(1) rec_ok_parts(1) [OF assms(1)] by (auto simp: rec_Restore_def g_def)
next
  case (Some k)
  with assms(2) obtain sn where sn: "re_heap c k = Some sn" by auto
  have k: "rq_offset sn = int (length (G k))" "good (rq_state sn) (G k)"
    using rec_ok_parts(2) [OF assms(1)] sn by (auto simp: rec_snaps_def)
  then show ?thesis
    using Some sn assms(1) by (auto simp: rec_Restore_def g_def rec_ok_def rec_snaps_def)
qed

lemma rec_Snapshot_ok:
  assumes "rec_ok good c h G" "rec_Snapshot from0 c = (s, c')"
  shows "\<exists>G'. rec_ok good c' h G' \<and> rec_grows h c G c' G' \<and> (\<forall>k. s = Some k \<longrightarrow> G' k = h) \<and> (s = None \<longrightarrow> h = [])"
proof (cases "re_state c")
  case None
  with assms show ?thesis by (auto simp: rec_Snapshot_def rec_ok_def)
next
  case (Some st)
  note r = rec_ok_parts [OF assms(1)]
  have "newRecurrentSnapshot st (int (length h)) c = (s, c')" using assms(2) Some r(1) by (simp add: rec_Snapshot_def)
  moreover have "good st (take (length h) h)" using r(6) [OF Some] by simp
  ultimately obtain G' where G': "rec_snaps good c' G'" "rec_grows h c G c' G'" "rec_core c' = rec_core c"
      "re_pending c' = re_pending c" "s = Some (re_next c)" "G' (re_next c) = take (length h) h"
    using newRecurrentSnapshot_step [OF r(2) _ order_refl] by blast
  have "pend_ok (re_pending c') (re_next c') G'"
    using r(3) rec_caps_grow [OF _ G'(2)] G'(4) by (auto simp: pend_ok_caps split: option.splits)
  with G' assms(1) have "rec_ok good c' h G'" by (simp add: rec_ok_def rec_core_def)
  with G' show ?thesis by auto
qed

lemma ascending_sorted: "ascending_from offs \<Longrightarrow> sorted offs"
  using ascending_distinct strict_sorted_imp_sorted by blast

lemma rec_Prepare_ok:
  assumes "rec_ok good c h G" "rec_PrepareSnapshots offs c = Some c'"
  shows "\<exists>G'. rec_ok good c' h G' \<and> rec_grows h c G c' G'"
proof -
  note r = rec_ok_parts [OF assms(1)]
  obtain p where p: "pending_prepare (re_offset c) offs (re_pending c) = Some p"
      "c' = captureBoundary (re_offset c) (re_state c) (c\<lparr>re_pending := p\<rparr>)"
    using assms(2) by (auto simp: rec_PrepareSnapshots_def)
  have pd: "sorted (pe_offsets p)" "pend_ok p (re_next c) G"
    using p(1) by (auto simp: pending_prepare_def pend_ok_def ascending_sorted split: if_splits dest!: set_zip_rightD)
  let ?c = "c\<lparr>re_pending := p\<rparr>"
  have s: "rec_snaps good ?c G" using r(2) by (simp add: rec_snaps_def)
  have good: "\<And>st'. re_state c = Some st' \<Longrightarrow> good st' (take (length h) h)" using r(6) by simp
  from captureBoundary_step [where st = "re_state c" and n = "length h" and h = h and good = good, OF good order_refl s] pd(2)
  obtain G' where G': "rec_snaps good c' G'" "rec_grows h ?c G c' G'" "rec_core c' = rec_core ?c"
      "pend_ok (re_pending c') (re_next c') G'"
    unfolding p(2) r(1) by auto
  have "rec_ok good c' h G'"
    using G' pd(1) assms(1) by (auto simp: rec_ok_def rec_core_def)
  moreover have "rec_grows h c G c' G'" using G'(2) by (simp add: rec_grows_def)
  ultimately show ?thesis by blast
qed

lemma rec_Take_ok: "rec_ok good c h G \<Longrightarrow> rec_ok good (snd (rec_TakeSnapshots c)) h G"
  by (simp add: rec_ok_def rec_TakeSnapshots_def pending_take_def pend_ok_def rec_snaps_def)

lemma rec_Free_ok: "rec_ok good c h G \<Longrightarrow> rec_ok good (rec_Free c) [] G"
  by (simp add: rec_ok_def rec_Free_def rec_snaps_def pend_ok_def no_pending_def)

lemma NewRecurrentCache_ok: "rec_ok good (NewRecurrentCache T) [] G"
  by (simp add: rec_ok_def NewRecurrentCache_def rec_snaps_def pend_ok_def no_pending_def)

section \<open>The cache behind the interface\<close>

definition rec_valid :: "('x, 'd) rec_cache \<Rightarrow> bool" where
  "rec_valid c \<longleftrightarrow> (\<exists>h G. rec_ok (\<lambda>_ _. True) c h G)"

definition rec_live :: "('x, 'd) rec_cache \<Rightarrow> nat \<Rightarrow> bool" where
  "rec_live c s \<longleftrightarrow> re_heap c s \<noteq> None"

definition rec_ops :: "(('x, 'd) rec_cache, nat) cache_ops" where
  "rec_ops = \<lparr>co_offset = re_offset,
     co_restore = (\<lambda>c s target. rec_Restore s target c),
     co_free = (\<lambda>c. Some (rec_Free c)),
     co_snapshot = (\<lambda>c from0. rec_Snapshot from0 c),
     co_prepare = (\<lambda>c offs. rec_PrepareSnapshots offs c),
     co_take = rec_TakeSnapshots\<rparr>"

interpretation recurrent: layer_cache rec_ops rec_valid rec_live
proof
  fix c c' :: "('a, 'b) rec_cache" and s :: "nat option" and target from0 :: int and ok
  assume "rec_valid c"
  then obtain h G where valid: "rec_ok (\<lambda>_ _. True) c h G" unfolding rec_valid_def by blast
  note off = rec_ok_parts(1)
  show "0 \<le> co_offset rec_ops c" using off [OF valid] by (simp add: rec_ops_def)
  show "rec_valid c' \<and> co_offset rec_ops c' = (if ok then target else co_offset rec_ops c) \<and> (\<forall>x. rec_live c x \<longrightarrow> rec_live c' x)"
    if "co_restore rec_ops c s target = Some (ok, c')"
  proof -
    have R: "rec_Restore s target c = Some (ok, c')" using that by (simp add: rec_ops_def)
    then have n: "s \<noteq> None \<Longrightarrow> re_heap c (the s) \<noteq> None" by (auto simp: rec_Restore_def split: option.splits)
    have "re_heap c' = re_heap c" using R by (auto simp: rec_Restore_def split: option.splits if_splits)
    moreover have "rec_valid c' \<and> re_offset c' = (if ok then target else re_offset c)"
    proof (cases "target = int (length (case s of None \<Rightarrow> h | Some k \<Rightarrow> G k))")
      case True
      with rec_Restore_law [OF valid n, of target] R
      have "ok" "rec_ok (\<lambda>_ _. True) c' (case s of None \<Rightarrow> h | Some k \<Rightarrow> G k) G" by auto
      with True off show ?thesis unfolding rec_valid_def by fastforce
    next
      case False
      with rec_Restore_law [OF valid n, of target] R have "\<not> ok" "c' = c" by auto
      with valid show ?thesis unfolding rec_valid_def by auto
    qed
    ultimately show ?thesis by (simp add: rec_ops_def rec_live_def)
  qed
  show "co_restore rec_ops c s target \<noteq> None" if "\<And>x. s = Some x \<Longrightarrow> rec_live c x"
    using that by (cases s) (auto simp: rec_ops_def rec_Restore_def rec_live_def)
  show "\<exists>c'. co_free rec_ops c = Some c' \<and> rec_valid c' \<and> co_offset rec_ops c' = 0 \<and> (\<forall>x. rec_live c x \<longrightarrow> rec_live c' x)"
    using rec_Free_ok [OF valid] by (auto simp: rec_ops_def rec_valid_def rec_live_def rec_Free_def)
  show "rec_valid c' \<and> co_offset rec_ops c' = co_offset rec_ops c \<and> (\<forall>x. rec_live c x \<or> s = Some x \<longrightarrow> rec_live c' x)"
    if "co_snapshot rec_ops c from0 = (s, c')"
  proof -
    have S: "rec_Snapshot from0 c = (s, c')" using that by (simp add: rec_ops_def)
    from rec_Snapshot_ok [OF valid S] have "rec_valid c'" by (auto simp: rec_valid_def)
    with S show ?thesis
      by (auto simp: rec_ops_def rec_live_def rec_Snapshot_def newRecurrentSnapshot_def split: option.splits)
  qed
  show "rec_valid (snd (co_take rec_ops c))" using rec_Take_ok [OF valid] by (auto simp: rec_ops_def rec_valid_def)
  show "co_offset rec_ops (snd (co_take rec_ops c)) = co_offset rec_ops c"
    by (simp add: rec_ops_def rec_TakeSnapshots_def split: prod.splits)
qed

section \<open>Properties\<close>

text \<open>
  A forward pass of a recurrent layer over a row of inputs, of which \<open>n\<close> are real, continues the
  recurrence: its outputs for the real inputs are those of one run over the whole history, the state
  afterwards is that of the history with the real inputs, and the snapshots captured on the way, also
  inside the row, are of prefixes of it, wherever the scheduled offsets cut the row.
\<close>

theorem recurrent_forward_continues:
  assumes "lawful_conv T conv f" "lawful_scan kern step" "rec_ok (stands_for f step T dtype) c h G" "re_convTail c = T"
    and "n \<le> length xs" "\<forall>off \<in> set (pe_offsets (re_pending c)). \<not> (re_offset c + int n \<le> off \<and> off < re_offset c + int (length xs))"
  shows "\<exists>out c' G'. recurrent_forward conv kern dtype n xs c = Some (out, c') \<and>
    rec_ok (stands_for f step T dtype) c' (h @ take n xs) G' \<and> rec_grows (h @ take n xs) c G c' G' \<and> re_convTail c' = T \<and>
    outputs f step T (h @ take n xs) = outputs f step T h @ take n out"
  by (rule recurrent_forward_step [OF assms])

text \<open>
  A recurrent state cannot be cut: restoring succeeds exactly for the end of the history of the
  snapshot (of the cache itself without one), and then the cache stands for that history.
\<close>

theorem recurrent_restore:
  assumes "rec_ok (stands_for f step T dtype) c h G" "s \<noteq> None \<Longrightarrow> re_heap c (the s) \<noteq> None"
  defines "g \<equiv> (case s of None \<Rightarrow> h | Some k \<Rightarrow> G k)"
  shows "if target = int (length g)
    then \<exists>c'. rec_Restore s target c = Some (True, c') \<and> rec_ok (stands_for f step T dtype) c' g G
    else rec_Restore s target c = Some (False, c)"
  unfolding g_def using rec_Restore_law [OF assms(1,2), of target] by (auto split: if_splits)

text \<open>Offsets to cut at are taken as they come: repeated, and past the end.\<close>

lemma segmentRanges_unfiltered: "segmentRanges [5, 5, 9] 4 = [(0, 5), (5, 5), (5, 9), (9, 4)]"
  by (simp add: segmentRanges_def)

text \<open>Concrete kernels: windows are summed, and so is what has been seen.\<close>

definition sum_conv :: "nat \<Rightarrow> int list \<Rightarrow> int list" where
  "sum_conv T w = map (\<lambda>j. sum_list (take (T + 1) (drop j w))) [0 ..< length w - T]"

definition sum_step :: "int \<Rightarrow> int \<Rightarrow> int \<times> int" where
  "sum_step d y = (d + y, d + y)"

definition sum_scan :: "int \<Rightarrow> int list \<Rightarrow> bool list option \<Rightarrow> int list \<times> int" where
  "sum_scan d ys m = run sum_step d (zip ys (case m of None \<Rightarrow> replicate (length ys) True | Some m \<Rightarrow> m))"

lemma sum_kernels: "lawful_conv T (sum_conv T) sum_list" "lawful_scan sum_scan sum_step"
  by (simp_all add: lawful_conv_def sum_conv_def lawful_scan_def sum_scan_def)

lemma recurrent_forward_example:
  "\<exists>out c'. recurrent_forward (sum_conv 1) sum_scan 0 2 [3, 4, 9] (NewRecurrentCache 1) = Some (out, c')
    \<and> take 2 out = outputs sum_list sum_step 1 [3, 4]"
proof -
  have "rec_ok (stands_for sum_list sum_step 1 0) (NewRecurrentCache 1) [] (\<lambda>_. [])" by (rule NewRecurrentCache_ok)
  from recurrent_forward_continues [OF sum_kernels this, of 2 "[3, 4, 9]"]
  show ?thesis by (auto simp: NewRecurrentCache_def no_pending_def outputs_def conv_outs_def all_real_def)
qed

end
