(* ===== verification/SchedPlacement.thy ===== *)
theory SchedPlacement
  imports "HOL-Library.Word" ModelName
begin

text \<open>
  server/sched.go, the part of the scheduler that decides how a model is loaded: the context
  size, the batch size, the devices, and whether the file is mapped. Memory sizes are
  \<^verbatim>\<open>uint64\<close>, so sums and percentages wrap; the decisions are modelled with the wrap-around and
  the theorems say where it matters. What the code asks the operating system, the model file
  and the memory predictor for are arguments.
\<close>

section \<open>Data\<close>

type_synonym bytes64 = "64 word"

record device_info =
  di_ID :: string
  di_Library :: string
  di_Name :: string
  di_ComputeMajor :: int
  di_ComputeMinor :: int
  di_DriverMajor :: int
  di_Integrated :: bool
  di_TotalMemory :: bytes64
  di_FreeMemory :: bytes64

record system_info =
  si_TotalMemory :: bytes64
  si_FreeMemory :: bytes64
  si_FreeSwap :: bytes64

record runner_options =
  ro_NumCtx :: int
  ro_NumBatch :: int
  ro_NumGPU :: int
  ro_MainGPU :: "int option"
  ro_UseMMap :: "bool option"
  ro_NumThread :: int
  ro_DraftNumPredict :: int

datatype flash_attention = FlashAttentionAuto | FlashAttentionDisabled | FlashAttentionEnabled

definition MebiByte :: bytes64 where "MebiByte = 1024 * 1024"
definition GibiByte :: bytes64 where "GibiByte = MebiByte * 1024"
definition GigaByte :: bytes64 where "GigaByte = 1000 * 1000 * 1000"

section \<open>Models and their keys\<close>

record sched_model =
  sm_Name :: string
  sm_ShortName :: string
  sm_ModelPath :: string
  sm_Digest :: string
  sm_Family :: string
  sm_Families :: "string list"
  sm_Format :: string
  sm_Capabilities :: "string list"
  sm_AdapterPaths :: "string list"
  sm_ProjectorPaths :: "string list"

definition schedulerModelKey :: "sched_model option \<Rightarrow> string" where
  "schedulerModelKey m = (case m of
     None \<Rightarrow> []
   | Some m \<Rightarrow>
       if sm_ModelPath m \<noteq> [] then sm_ModelPath m
       else if sm_Digest m \<noteq> [] then ''digest:'' @ sm_Digest m
       else if sm_Name m \<noteq> [] then ''name:'' @ sm_Name m
       else if sm_ShortName m \<noteq> [] then ''short:'' @ sm_ShortName m
       else [])"

definition supportsContextShift :: "sched_model option \<Rightarrow> bool" where
  "supportsContextShift m = (case m of
     None \<Rightarrow> True
   | Some m \<Rightarrow> \<not> (sm_Family m = ''deepseek2'' \<or> ''deepseek2'' \<in> set (sm_Families m)))"

definition resolveContextShift :: "bool option \<Rightarrow> sched_model option \<Rightarrow> bool" where
  "resolveContextShift shift m = (case shift of Some b \<Rightarrow> b | None \<Rightarrow> supportsContextShift m)"

section \<open>Context sizes\<close>

definition effectiveContext :: "int \<Rightarrow> int \<Rightarrow> int" where
  "effectiveContext numCtx trainCtx = (if 0 < trainCtx \<and> trainCtx < numCtx then trainCtx else numCtx)"

text \<open>What the scheduler reads of the metadata of a model file.\<close>

record model_meta =
  mm_ContextLength :: int
  mm_BlockCount :: bytes64
  mm_HeadCountKVMin :: bytes64
  mm_HeadCountMax :: bytes64
  mm_EmbeddingLength :: bytes64

definition modelTrainContext :: "model_meta option \<Rightarrow> int" where
  "modelTrainContext f = (case f of None \<Rightarrow> 0 | Some f \<Rightarrow> mm_ContextLength f)"

definition effectiveModelContext :: "int \<Rightarrow> model_meta option \<Rightarrow> int" where
  "effectiveModelContext numCtx f = effectiveContext numCtx (modelTrainContext f)"

definition effectiveLlamaServerContext :: "int \<Rightarrow> model_meta option \<Rightarrow> int \<Rightarrow> int" where
  "effectiveLlamaServerContext numCtx f numParallel = effectiveModelContext numCtx f * max numParallel 1"

definition explicitPartialGPUOffload :: "runner_options \<Rightarrow> model_meta option \<Rightarrow> bool" where
  "explicitPartialGPUOffload opts f = (case f of
     None \<Rightarrow> False
   | Some f \<Rightarrow> if ro_NumGPU opts \<le> 0 then False else (word_of_int (ro_NumGPU opts) :: bytes64) < mm_BlockCount f + 1)"

definition nextLowerAutoNumCtx :: "int \<Rightarrow> int option" where
  "nextLowerAutoNumCtx numCtx = (if 32768 < numCtx then Some 32768 else if 4096 < numCtx then Some 4096 else None)"

section \<open>Batch sizes\<close>

definition batchDefault :: int where "batchDefault = 512"
definition batchConstrained :: int where "batchConstrained = 256"
definition batchMedium :: int where "batchMedium = 1024"
definition batchLarge :: int where "batchLarge = 2048"

definition hasCUDADevice :: "device_info list \<Rightarrow> bool" where
  "hasCUDADevice gpus = list_ex (\<lambda>gpu. di_Library gpu = ''CUDA'') gpus"

definition constrainedCUDAWithoutFlashAttention :: "int \<Rightarrow> device_info list \<Rightarrow> bool" where
  "constrainedCUDAWithoutFlashAttention effectiveCtx gpus =
     (if effectiveCtx \<le> 4096 then False
      else list_ex (\<lambda>gpu.
        if di_Library gpu \<noteq> ''CUDA'' then False
        else (let memory = (if di_FreeMemory gpu = 0 \<or> (0 < di_TotalMemory gpu \<and> di_TotalMemory gpu < di_FreeMemory gpu)
                then di_TotalMemory gpu else di_FreeMemory gpu)
              in 0 < memory \<and> memory \<le> 8 * GibiByte)) gpus)"

definition generationBatchForContext :: "int \<Rightarrow> int" where
  "generationBatchForContext effectiveCtx =
     (if 32768 < effectiveCtx then batchLarge else if 4096 < effectiveCtx then batchMedium else batchDefault)"

definition generationBatchHasHeadroom :: "int \<Rightarrow> bytes64 \<Rightarrow> bytes64 \<Rightarrow> bool" where
  "generationBatchHasHeadroom batch predictedVRAM availableMemory =
     (if batchLarge \<le> batch then predictedVRAM \<le> availableMemory * 60 div 100
      else if batchMedium \<le> batch then predictedVRAM \<le> availableMemory * 75 div 100
      else True)"

definition generationBatchSurcharge :: "int \<Rightarrow> bytes64" where
  "generationBatchSurcharge batch =
     (if batchLarge \<le> batch then 2 * GibiByte else if batchMedium \<le> batch then 768 * MebiByte else 0)"

definition generationBatchSurchargeForCompletion :: "bool \<Rightarrow> int \<Rightarrow> bytes64" where
  "generationBatchSurchargeForCompletion completion batch = (if \<not> completion then 0 else generationBatchSurcharge batch)"

definition generationBatchFits :: "int \<Rightarrow> bytes64 \<Rightarrow> bytes64 \<Rightarrow> bool" where
  "generationBatchFits batch predictedVRAM availableMemory =
     (if predictedVRAM = 0 \<or> availableMemory = 0 then True
      else let threshold = availableMemory * 80 div 100 in
        if threshold < predictedVRAM then False
        else if \<not> generationBatchHasHeadroom batch predictedVRAM availableMemory then False
        else generationBatchSurcharge batch \<le> threshold - predictedVRAM)"

definition nextLowerGenerationBatch :: "int \<Rightarrow> int" where
  "nextLowerGenerationBatch batch = (if batchMedium < batch then batchMedium else batchDefault)"

lemma nextLower_less: "batchDefault < batch \<Longrightarrow> nextLowerGenerationBatch batch < batch \<and> batchDefault \<le> nextLowerGenerationBatch batch"
  by (auto simp: nextLowerGenerationBatch_def batchDefault_def batchMedium_def)

function batch_loop :: "bytes64 \<Rightarrow> bytes64 \<Rightarrow> int \<Rightarrow> int" where
  "batch_loop predictedVRAM availableMemory batch =
     (if batchDefault < batch \<and> \<not> generationBatchFits batch predictedVRAM availableMemory
      then batch_loop predictedVRAM availableMemory (nextLowerGenerationBatch batch)
      else batch)"
  by pat_completeness auto
termination
  by (relation "measure (\<lambda>(p, a, batch). nat (batch - batchDefault))") (auto dest: nextLower_less)

declare batch_loop.simps [simp del]

definition automaticGenerationBatch :: "int \<Rightarrow> bytes64 \<Rightarrow> bytes64 \<Rightarrow> flash_attention \<Rightarrow> device_info list \<Rightarrow> int" where
  "automaticGenerationBatch effectiveCtx predictedVRAM availableMemory flashAttention gpus =
     (if flashAttention = FlashAttentionDisabled \<and> hasCUDADevice gpus
      then (if constrainedCUDAWithoutFlashAttention effectiveCtx gpus then batchConstrained else batchDefault)
      else batch_loop predictedVRAM availableMemory (generationBatchForContext effectiveCtx))"

section \<open>Flash attention and the memory prediction\<close>

definition cudaFlashAttentionSupported :: "device_info \<Rightarrow> bool" where
  "cudaFlashAttentionSupported gpu =
     (if di_Library gpu \<noteq> ''CUDA'' \<or> di_ComputeMajor gpu < 6 \<or> (di_ComputeMajor gpu = 7 \<and> di_ComputeMinor gpu = 2)
      then False
      else if di_DriverMajor gpu = 0 then True
      else 7 \<le> di_DriverMajor gpu)"

definition FlashAttentionSupported :: "device_info list \<Rightarrow> bool" where
  "FlashAttentionSupported l = list_all (\<lambda>gpu.
     di_Library gpu = ''cpu'' \<or> di_Name gpu = ''Metal'' \<or> di_Library gpu = ''Metal'' \<or>
     cudaFlashAttentionSupported gpu \<or> di_Library gpu = ''ROCm'' \<or> di_Library gpu = ''Vulkan'') l"

text \<open>\<open>env\<close> reads the setting \<^verbatim>\<open>OLLAMA_FLASH_ATTENTION\<close>, and gives its argument when it is unset.\<close>

definition LlamaServerFlashAttention :: "(bool \<Rightarrow> bool) \<Rightarrow> device_info list \<Rightarrow> flash_attention" where
  "LlamaServerFlashAttention env gpus =
     (let enabled = env False; userSet = (enabled = env True) in
      if userSet then (if enabled then FlashAttentionEnabled else FlashAttentionDisabled)
      else if \<not> FlashAttentionSupported gpus then FlashAttentionDisabled
      else FlashAttentionAuto)"

text \<open>\<open>weights\<close> is the size of the model file, 0 when it cannot be read.\<close>

definition PredictServerVRAM :: "bytes64 \<Rightarrow> model_meta \<Rightarrow> int \<Rightarrow> bytes64" where
  "PredictServerVRAM weights f numCtx =
     (let layers = mm_BlockCount f;
          kvHeads = (if mm_HeadCountKVMin f = 0 then 1 else mm_HeadCountKVMin f);
          headDim = (if 0 < mm_HeadCountMax f then mm_EmbeddingLength f div mm_HeadCountMax f else 0)
      in weights + 2 * layers * kvHeads * headDim * word_of_int numCtx * 2)"

section \<open>Available memory\<close>

definition sum64 :: "bytes64 list \<Rightarrow> bytes64" where
  "sum64 xs = foldl (+) 0 xs"

definition availableMemoryForLoad :: "system_info \<Rightarrow> device_info list \<Rightarrow> bytes64 \<times> bytes64 \<times> bool" where
  "availableMemoryForLoad sys gpus =
     (let gpuFree = sum64 (map di_FreeMemory gpus);
          shared = sum64 (map di_FreeMemory (filter di_Integrated gpus));
          discrete = sum64 (map di_FreeMemory (filter (\<lambda>g. \<not> di_Integrated g) gpus))
      in if 0 < si_FreeMemory sys \<and> 0 < shared \<and> si_FreeMemory sys < shared
         then (discrete + si_FreeMemory sys, gpuFree, True)
         else (gpuFree, gpuFree, False))"

definition availableMemoryForGPU :: "system_info \<Rightarrow> device_info \<Rightarrow> bytes64" where
  "availableMemoryForGPU sys gpu =
     (if di_Integrated gpu \<and> 0 < si_FreeMemory sys \<and> si_FreeMemory sys < di_FreeMemory gpu
      then si_FreeMemory sys else di_FreeMemory gpu)"

definition gpusForPlacement :: "device_info list \<Rightarrow> runner_options \<Rightarrow> device_info list" where
  "gpusForPlacement gpus opts = (case ro_MainGPU opts of
     Some i \<Rightarrow> if 0 \<le> i \<and> i < int (length gpus) then [gpus ! nat i] else gpus
   | None \<Rightarrow> gpus)"

definition availableMemoryForPlacement :: "system_info \<Rightarrow> device_info list \<Rightarrow> runner_options
    \<Rightarrow> bytes64 \<times> bytes64 \<times> bool" where
  "availableMemoryForPlacement sys gpus opts =
     (let placementGpus = gpusForPlacement gpus opts in
      if length placementGpus = 1 \<and> ro_MainGPU opts \<noteq> None then
        (let gpuFree = di_FreeMemory (hd placementGpus); available = availableMemoryForGPU sys (hd placementGpus)
         in (available, gpuFree, available < gpuFree))
      else availableMemoryForLoad sys placementGpus)"

section \<open>Choosing devices\<close>

text \<open>\<^verbatim>\<open>ml.ByLibrary\<close>: the groups in the order of first appearance.\<close>

fun add_to_group :: "device_info \<Rightarrow> device_info list list \<Rightarrow> device_info list list" where
  "add_to_group d [] = [[d]]"
| "add_to_group d (g # gs) =
     (if di_Library (hd g) = di_Library d then (g @ [d]) # gs else g # add_to_group d gs)"

definition ByLibrary :: "device_info list \<Rightarrow> device_info list list" where
  "ByLibrary l = foldl (\<lambda>gs d. add_to_group d gs) [] l"

definition betterPlacementGPU :: "device_info \<Rightarrow> bytes64 \<Rightarrow> device_info \<Rightarrow> bytes64 \<Rightarrow> bool" where
  "betterPlacementGPU candidate candidateAvailable current currentAvailable =
     (if di_Integrated candidate \<noteq> di_Integrated current then \<not> di_Integrated candidate
      else currentAvailable < candidateAvailable)"

definition hasDiscreteGPU :: "device_info list \<Rightarrow> bool" where
  "hasDiscreteGPU gpus = list_ex (\<lambda>g. \<not> di_Integrated g) gpus"

definition betterPlacementGroup :: "device_info list \<Rightarrow> bytes64 \<Rightarrow> device_info list \<Rightarrow> bytes64 \<Rightarrow> bool" where
  "betterPlacementGroup candidate candidateAvailable current currentAvailable =
     (if hasDiscreteGPU candidate \<noteq> hasDiscreteGPU current then hasDiscreteGPU candidate
      else currentAvailable < candidateAvailable)"

text \<open>The scans keep the best candidate so far.\<close>

fun best_gpu :: "system_info \<Rightarrow> device_info list \<Rightarrow> (device_info \<times> bytes64) option \<Rightarrow> (device_info \<times> bytes64) option" where
  "best_gpu sys [] best = best"
| "best_gpu sys (c # cs) best =
     (let a = availableMemoryForGPU sys c in
      best_gpu sys cs (case best of
          None \<Rightarrow> Some (c, a)
        | Some (gpu, available) \<Rightarrow> if betterPlacementGPU c a gpu available then Some (c, a) else best))"

definition bestExplicitMainGPU :: "system_info \<Rightarrow> device_info list list \<Rightarrow> int \<Rightarrow> (device_info \<times> bytes64) option" where
  "bestExplicitMainGPU sys groups mainGPU =
     (if mainGPU < 0 then None
      else best_gpu sys (map (\<lambda>g. g ! nat mainGPU) (filter (\<lambda>g. mainGPU < int (length g)) groups)) None)"

definition fits80 :: "bytes64 \<Rightarrow> bytes64 \<Rightarrow> bool" where
  "fits80 predictedVRAM available \<longleftrightarrow> \<not> available * 80 div 100 < predictedVRAM"

definition bestSingleGPUFit :: "system_info \<Rightarrow> device_info list list \<Rightarrow> bytes64 \<Rightarrow> (device_info \<times> bytes64) option" where
  "bestSingleGPUFit sys groups predictedVRAM =
     best_gpu sys (filter (\<lambda>c. fits80 predictedVRAM (availableMemoryForGPU sys c)) (concat groups)) None"

fun best_group :: "system_info \<Rightarrow> device_info list list \<Rightarrow> (device_info list \<times> bytes64) option
    \<Rightarrow> (device_info list \<times> bytes64) option" where
  "best_group sys [] best = best"
| "best_group sys (g # gs) best =
     (let a = fst (availableMemoryForLoad sys g) in
      best_group sys gs (case best of
          None \<Rightarrow> Some (g, a)
        | Some (b, available) \<Rightarrow> if betterPlacementGroup g a b available then Some (g, a) else best))"

definition bestGPUGroupByAvailableMemory :: "system_info \<Rightarrow> device_info list list \<Rightarrow> device_info list" where
  "bestGPUGroupByAvailableMemory sys groups = (case best_group sys groups None of None \<Rightarrow> [] | Some (g, _) \<Rightarrow> g)"

definition singleLlamaServerGPUPlacement :: "device_info \<Rightarrow> runner_options \<Rightarrow> device_info list \<times> runner_options" where
  "singleLlamaServerGPUPlacement gpu opts = ([gpu], opts\<lparr>ro_MainGPU := Some 0\<rparr>)"

text \<open>\<open>spread\<close> is the environment setting \<^verbatim>\<open>OLLAMA_SCHED_SPREAD\<close>.\<close>

definition selectLlamaServerPlacement :: "bool \<Rightarrow> system_info \<Rightarrow> device_info list \<Rightarrow> bytes64 \<Rightarrow> runner_options
    \<Rightarrow> device_info list \<times> runner_options" where
  "selectLlamaServerPlacement spread sys gpus predictedVRAM opts =
     (if length gpus \<le> 1 \<or> ro_NumGPU opts = 0 then (gpus, opts)
      else let groups = ByLibrary gpus in
        if length groups = 0 then (gpus, opts)
        else case ro_MainGPU opts of
          Some mainGPU \<Rightarrow>
            (case bestExplicitMainGPU sys groups mainGPU of
               None \<Rightarrow> (bestGPUGroupByAvailableMemory sys groups, opts)
             | Some (gpu, _) \<Rightarrow> singleLlamaServerGPUPlacement gpu opts)
        | None \<Rightarrow>
            (case (if \<not> spread \<and> 0 < predictedVRAM then bestSingleGPUFit sys groups predictedVRAM else None) of
               Some (gpu, _) \<Rightarrow> singleLlamaServerGPUPlacement gpu opts
             | None \<Rightarrow> (bestGPUGroupByAvailableMemory sys groups, opts)))"

section \<open>Requests\<close>

record load_request =
  rq_opts :: runner_options
  rq_numCtxAuto :: bool
  rq_numBatchAuto :: bool
  rq_useMMapAuto :: bool
  rq_oomRetryAttempted :: bool

definition applyAutomaticGenerationBatch :: "bool \<Rightarrow> int \<Rightarrow> bytes64 \<Rightarrow> bytes64 \<Rightarrow> flash_attention \<Rightarrow> device_info list
    \<Rightarrow> load_request \<Rightarrow> load_request" where
  "applyAutomaticGenerationBatch completion effectiveCtx predictedVRAM availableMemory flashAttention gpus req =
     (if \<not> completion \<or> \<not> rq_numBatchAuto req then req
      else req\<lparr>rq_opts := (rq_opts req)\<lparr>ro_NumBatch :=
        automaticGenerationBatch effectiveCtx predictedVRAM availableMemory flashAttention gpus\<rparr>\<rparr>)"

text \<open>
  The retry after running out of memory. \<open>None\<close> is the panic of \<^verbatim>\<open>f.KV()\<close> on a model without
  metadata; otherwise the request and whether its context was lowered.
\<close>

definition reduceAutoNumCtxForLoadOOM :: "(bool \<Rightarrow> bool) \<Rightarrow> bytes64 \<Rightarrow> model_meta option \<Rightarrow> int \<Rightarrow> bool \<Rightarrow> system_info
    \<Rightarrow> device_info list \<Rightarrow> runner_options \<Rightarrow> load_request \<Rightarrow> (load_request \<times> bool) option" where
  "reduceAutoNumCtxForLoadOOM env weights f numParallel completion sys gpus launchOpts req =
     (if \<not> rq_numCtxAuto req then Some (req, False)
      else let oldNumCtx = ro_NumCtx (rq_opts req); effectiveNumCtx = effectiveContext oldNumCtx (modelTrainContext f) in
        (case nextLowerAutoNumCtx effectiveNumCtx of
           None \<Rightarrow> Some (req, False)
         | Some newNumCtx \<Rightarrow>
             if oldNumCtx \<le> newNumCtx then Some (req, False)
             else let req = req\<lparr>rq_opts := (rq_opts req)\<lparr>ro_NumCtx := newNumCtx\<rparr>\<rparr>;
                      predictedCtx = effectiveLlamaServerContext newNumCtx f numParallel in
               (case f of
                  None \<Rightarrow> None
                | Some meta \<Rightarrow>
                    let predictedVRAM = PredictServerVRAM weights meta predictedCtx;
                        available = fst (availableMemoryForPlacement sys gpus launchOpts)
                    in Some (applyAutomaticGenerationBatch completion predictedCtx predictedVRAM available
                               (LlamaServerFlashAttention env gpus) gpus req, True))))"

section \<open>Mapping the model file\<close>

definition hasDeviceLibrary :: "device_info list \<Rightarrow> string \<Rightarrow> bool" where
  "hasDeviceLibrary gpus lib = list_ex (\<lambda>gpu. equal_fold (di_Library gpu) lib) gpus"

definition allDevicesLibrary :: "device_info list \<Rightarrow> string \<Rightarrow> bool" where
  "allDevicesLibrary gpus lib = (if gpus = [] then False else list_all (\<lambda>gpu. equal_fold (di_Library gpu) lib) gpus)"

definition disableMmapDefaultReason :: "string \<Rightarrow> runner_options \<Rightarrow> device_info list \<Rightarrow> bytes64 \<Rightarrow> bytes64 \<Rightarrow> bytes64 \<Rightarrow> string" where
  "disableMmapDefaultReason goos opts gpus blockCount predictedVRAM availableVRAM =
     (if ro_UseMMap opts \<noteq> None then []
      else if ro_NumGPU opts = 0 \<or> gpus = [] \<or> allDevicesLibrary gpus ''cpu'' then ''cpu''
      else if goos = ''windows'' \<and> hasDeviceLibrary gpus ''cuda'' then ''windows_cuda''
      else if hasDeviceLibrary gpus ''metal'' \<and> 0 < ro_NumGPU opts \<and> 0 < blockCount
              \<and> (word_of_int (ro_NumGPU opts) :: bytes64) < blockCount + 1 then ''metal_partial_offload''
      else if hasDeviceLibrary gpus ''metal'' \<and> ro_NumGPU opts < 0 \<and> 0 < predictedVRAM \<and> 0 < availableVRAM
              \<and> availableVRAM < predictedVRAM then ''metal_partial_offload''
      else [])"

definition allDiscreteGPUs :: "device_info list \<Rightarrow> bool" where
  "allDiscreteGPUs gpus = (if gpus = [] then False else list_all (\<lambda>gpu. \<not> di_Integrated gpu) gpus)"

definition mmapHostPressureHeadroom :: "bytes64 \<Rightarrow> bytes64" where
  "mmapHostPressureHeadroom totalMemory =
     (if totalMemory = 0 then 8 * GigaByte else max (8 * GigaByte) (totalMemory div 10))"

definition disableMmapForHostPressure :: "string \<Rightarrow> runner_options \<Rightarrow> system_info \<Rightarrow> device_info list \<Rightarrow> bytes64 \<Rightarrow> bytes64
    \<Rightarrow> bytes64 \<Rightarrow> bytes64 \<Rightarrow> bool" where
  "disableMmapForHostPressure goos opts sys gpus modelSize loadedMmapSize predictedVRAM availableVRAM =
     (if ro_UseMMap opts \<noteq> None \<or> goos \<noteq> ''linux'' \<or> modelSize = 0 \<or> si_FreeMemory sys = 0 \<or> \<not> allDiscreteGPUs gpus
      then False
      else if predictedVRAM = 0 \<or> availableVRAM = 0 \<or> availableVRAM * 80 div 100 < predictedVRAM then False
      else si_FreeMemory sys < modelSize + loadedMmapSize + mmapHostPressureHeadroom (si_TotalMemory sys))"

text \<open>A loaded runner, for the mapped memory: its options, the size of its file and its own size.\<close>

record mmap_runner =
  mr_Options :: "runner_options option"
  mr_fileSize :: bytes64
  mr_totalSize :: bytes64

definition runnerUsesMmap :: "mmap_runner \<Rightarrow> bool" where
  "runnerUsesMmap r = (case mr_Options r of None \<Rightarrow> True | Some opts \<Rightarrow> (case ro_UseMMap opts of None \<Rightarrow> True | Some b \<Rightarrow> b))"

definition loadedMmapModelSizeLocked :: "mmap_runner list \<Rightarrow> bytes64" where
  "loadedMmapModelSizeLocked runners =
     foldl (\<lambda>total r. if \<not> runnerUsesMmap r then total
                     else if 0 < mr_fileSize r then total + mr_fileSize r else total + mr_totalSize r) 0 runners"

definition disable_mmap :: "load_request \<Rightarrow> load_request" where
  "disable_mmap req = req\<lparr>rq_opts := (rq_opts req)\<lparr>ro_UseMMap := Some False\<rparr>, rq_useMMapAuto := True\<rparr>"

definition maybeDisableMmapForHostPressure :: "string \<Rightarrow> mmap_runner list \<Rightarrow> bytes64 \<Rightarrow> load_request \<Rightarrow> runner_options
    \<Rightarrow> system_info \<Rightarrow> device_info list \<Rightarrow> model_meta \<Rightarrow> int \<Rightarrow> load_request" where
  "maybeDisableMmapForHostPressure goos loaded modelSize req launchOpts sys gpus f numParallel =
     (let predictedCtx = effectiveLlamaServerContext (ro_NumCtx (rq_opts req)) (Some f) numParallel;
          predictedVRAM = PredictServerVRAM modelSize f predictedCtx;
          availableVRAM = fst (availableMemoryForPlacement sys gpus launchOpts)
      in if \<not> disableMmapForHostPressure goos (rq_opts req) sys (gpusForPlacement gpus launchOpts) modelSize
               (loadedMmapModelSizeLocked loaded) predictedVRAM availableVRAM
         then req else disable_mmap req)"

definition applyLlamaServerMmapDefaults :: "string \<Rightarrow> mmap_runner list \<Rightarrow> bytes64 \<Rightarrow> load_request \<Rightarrow> runner_options
    \<Rightarrow> system_info \<Rightarrow> device_info list \<Rightarrow> model_meta \<Rightarrow> int \<Rightarrow> load_request \<times> runner_options" where
  "applyLlamaServerMmapDefaults goos loaded modelSize req launchOpts sys gpus f numParallel =
     (let predictedCtx = effectiveLlamaServerContext (ro_NumCtx (rq_opts req)) (Some f) numParallel;
          predictedVRAM = PredictServerVRAM modelSize f predictedCtx;
          availableVRAM = fst (availableMemoryForPlacement sys gpus launchOpts);
          req = (if disableMmapDefaultReason goos (rq_opts req) gpus (mm_BlockCount f) predictedVRAM availableVRAM \<noteq> []
                 then disable_mmap req
                 else maybeDisableMmapForHostPressure goos loaded modelSize req launchOpts sys gpus f numParallel)
      in (req, launchOpts\<lparr>ro_UseMMap := ro_UseMMap (rq_opts req)\<rparr>))"

section \<open>Free memory after the loaded models\<close>

type_synonym device_id = "string \<times> string"

definition DeviceID :: "device_info \<Rightarrow> device_id" where
  "DeviceID d = (di_ID d, di_Library d)"

text \<open>A runner is \<open>None\<close> when it has no server, else the memory its server uses on a device.\<close>

definition add_predictions :: "device_info list \<Rightarrow> (device_id \<Rightarrow> bytes64) \<Rightarrow> (device_id \<rightharpoonup> bytes64) \<Rightarrow> (device_id \<rightharpoonup> bytes64)" where
  "add_predictions gpus vram m =
     foldl (\<lambda>m gpu. m(DeviceID gpu \<mapsto> (case m (DeviceID gpu) of None \<Rightarrow> 0 | Some p \<Rightarrow> p) + vram (DeviceID gpu))) m gpus"

definition predicted_usage :: "device_info list \<Rightarrow> (device_id \<Rightarrow> bytes64) option list \<Rightarrow> (device_id \<rightharpoonup> bytes64)" where
  "predicted_usage gpus runners =
     foldl (\<lambda>m r. case r of None \<Rightarrow> m | Some vram \<Rightarrow> add_predictions gpus vram m) Map.empty runners"

definition update_gpu :: "(device_id \<rightharpoonup> bytes64) \<Rightarrow> device_info \<Rightarrow> device_info" where
  "update_gpu predMap gpu = (case predMap (DeviceID gpu) of
     None \<Rightarrow> gpu
   | Some p \<Rightarrow>
       if di_TotalMemory gpu < p then gpu\<lparr>di_FreeMemory := 0\<rparr>
       else if di_TotalMemory gpu - p < di_FreeMemory gpu then gpu\<lparr>di_FreeMemory := di_TotalMemory gpu - p\<rparr>
       else gpu)"

definition updateFreeSpace :: "device_info list \<Rightarrow> (device_id \<Rightarrow> bytes64) option list \<Rightarrow> device_info list" where
  "updateFreeSpace allGpus runners =
     (if allGpus = [] then [] else map (update_gpu (predicted_usage allGpus runners)) allGpus)"

section \<open>Planning a load\<close>

definition serial_families :: "string list" where
  "serial_families = [''mllama'', ''qwen3vl'', ''qwen3vlmoe'', ''qwen35'', ''qwen35moe'', ''qwen3next'', ''lfm2'',
     ''lfm2moe'', ''nemotron_h'', ''nemotron_h_moe'', ''nemotron_h_omni'']"

definition load_numParallel :: "int \<Rightarrow> bool \<Rightarrow> string \<Rightarrow> int" where
  "load_numParallel envParallel completion family =
     (let numParallel = (if completion then max envParallel 1 else 1)
      in if family \<in> set serial_families \<and> numParallel \<noteq> 1 then 1 else numParallel)"

text \<open>What \<open>load\<close> decides before it starts a server: evict first, or launch on these devices.\<close>

datatype load_decision = EvictFirst | Launch "device_info list" runner_options

record load_env =
  le_spread :: bool
  le_flash :: "bool \<Rightarrow> bool"
  le_goos :: string
  le_loaded :: "mmap_runner list"
  le_fileSize :: bytes64

definition plan_load :: "load_env \<Rightarrow> system_info \<Rightarrow> device_info list \<Rightarrow> model_meta \<Rightarrow> int \<Rightarrow> bool \<Rightarrow> bool \<Rightarrow> load_request
    \<Rightarrow> load_request \<times> load_decision" where
  "plan_load env sys gpus f numParallel completion requireFull req =
     (let predictedCtx = effectiveLlamaServerContext (ro_NumCtx (rq_opts req)) (Some f) numParallel;
          predicted = PredictServerVRAM (le_fileSize env) f predictedCtx;
          (loadGpus, launchOpts) = selectLlamaServerPlacement (le_spread env) sys gpus predicted (rq_opts req);
          available = fst (availableMemoryForPlacement sys loadGpus launchOpts);
          req = applyAutomaticGenerationBatch completion predictedCtx predicted available
                  (LlamaServerFlashAttention (le_flash env) loadGpus) loadGpus req;
          launchOpts = launchOpts\<lparr>ro_NumBatch := ro_NumBatch (rq_opts req)\<rparr>;
          predictedForLoad = predicted + generationBatchSurchargeForCompletion completion (ro_NumBatch launchOpts)
      in if requireFull \<and> \<not> explicitPartialGPUOffload launchOpts (Some f) \<and> le_loaded env \<noteq> [] \<and> loadGpus \<noteq> []
            \<and> fst (availableMemoryForPlacement sys loadGpus launchOpts) * 80 div 100 < predictedForLoad
         then (req, EvictFirst)
         else let (req, launchOpts) = applyLlamaServerMmapDefaults (le_goos env) (le_loaded env) (le_fileSize env)
                                        req launchOpts sys loadGpus f numParallel
              in (req, Launch loadGpus launchOpts))"


section \<open>Choosing devices: the scans\<close>

text \<open>\<open>better\<close> orders discrete devices before integrated ones, then by memory; it is a strict weak order.\<close>

lemma not_better_trans:
  assumes "\<not> betterPlacementGPU a x b y" "\<not> betterPlacementGPU b y c z"
  shows "\<not> betterPlacementGPU a x c z"
  using assms by (auto simp: betterPlacementGPU_def split: if_splits)

lemma better_asym: "betterPlacementGPU a x b y \<Longrightarrow> \<not> betterPlacementGPU b y a x"
  by (auto simp: betterPlacementGPU_def split: if_splits)

lemma best_gpu_keeps_some: "best_gpu sys cs (Some b) \<noteq> None"
  by (induction cs arbitrary: b) (auto simp: Let_def split: prod.splits)

lemma best_gpu_None: "best_gpu sys cs None = None \<longleftrightarrow> cs = []"
  by (cases cs) (auto simp: Let_def best_gpu_keeps_some)

lemma best_gpu_member:
  "best_gpu sys cs best = Some (g, a) \<Longrightarrow> best = Some (g, a) \<or> (g \<in> set cs \<and> a = availableMemoryForGPU sys g)"
proof (induction cs arbitrary: best)
  case (Cons c cs)
  show ?case using Cons.IH[OF Cons.prems[unfolded best_gpu.simps Let_def]] by (auto split: option.splits if_splits)
qed simp

lemma best_gpu_unbeaten:
  "best_gpu sys cs best = Some (g, a) \<Longrightarrow>
   (\<forall>c \<in> set cs. \<not> betterPlacementGPU c (availableMemoryForGPU sys c) g a) \<and>
   (\<forall>b x. best = Some (b, x) \<longrightarrow> \<not> betterPlacementGPU b x g a)"
proof (induction cs arbitrary: best)
  case Nil
  then show ?case by (auto simp: betterPlacementGPU_def)
next
  case (Cons c cs)
  let ?a = "availableMemoryForGPU sys c"
  show ?case
  proof (cases best)
    case None
    then show ?thesis using Cons.IH[of "Some (c, ?a)"] Cons.prems by (auto simp: Let_def)
  next
    case (Some p)
    obtain b x where b: "p = (b, x)" by (cases p)
    show ?thesis
    proof (cases "betterPlacementGPU c ?a b x")
      case True
      have ih: "\<forall>c \<in> set cs. \<not> betterPlacementGPU c (availableMemoryForGPU sys c) g a" "\<not> betterPlacementGPU c ?a g a"
        using Cons.IH[of "Some (c, ?a)"] Cons.prems Some b True by (auto simp: Let_def)
      show ?thesis
        using ih not_better_trans[OF better_asym[OF True] ih(2)] Some b by auto
    next
      case False
      have ih: "\<forall>c \<in> set cs. \<not> betterPlacementGPU c (availableMemoryForGPU sys c) g a" "\<not> betterPlacementGPU b x g a"
        using Cons.IH[of "Some (b, x)"] Cons.prems Some b False by (auto simp: Let_def)
      show ?thesis
        using ih not_better_trans[OF False ih(2)] Some b by auto
    qed
  qed
qed

lemma best_group_member:
  "best_group sys gs best = Some (g, a) \<Longrightarrow> best = Some (g, a) \<or> g \<in> set gs \<and> a = fst (availableMemoryForLoad sys g)"
proof (induction gs arbitrary: best)
  case (Cons c gs)
  show ?case using Cons.IH[OF Cons.prems[unfolded best_group.simps Let_def]] by (auto split: option.splits if_splits)
qed simp

lemma best_group_keeps_some: "best_group sys gs (Some b) \<noteq> None"
  by (induction gs arbitrary: b) (auto simp: Let_def split: prod.splits)

lemma bestGPUGroup_in: "gs \<noteq> [] \<Longrightarrow> bestGPUGroupByAvailableMemory sys gs \<in> set gs"
proof (cases gs)
  case (Cons g gs')
  then obtain b a where b: "best_group sys gs None = Some (b, a)"
    using best_group_keeps_some[of sys gs' "(g, fst (availableMemoryForLoad sys g))"] by (auto simp: Let_def)
  show ?thesis using best_group_member[OF b] b by (simp add: bestGPUGroupByAvailableMemory_def)
qed simp

section \<open>Grouping by library\<close>

abbreviation group_lib :: "device_info list \<Rightarrow> string" where
  "group_lib g \<equiv> di_Library (hd g)"

definition groups_ok :: "device_info list \<Rightarrow> device_info list list \<Rightarrow> bool" where
  "groups_ok l gs \<longleftrightarrow> (\<forall>g \<in> set gs. g \<noteq> [] \<and> g = filter (\<lambda>d. di_Library d = group_lib g) l)
     \<and> distinct (map group_lib gs) \<and> di_Library ` set l = group_lib ` set gs"

lemma groups_okI:
  "(\<And>g. g \<in> set gs \<Longrightarrow> g \<noteq> [] \<and> g = filter (\<lambda>d. di_Library d = group_lib g) l) \<Longrightarrow> distinct (map group_lib gs)
   \<Longrightarrow> di_Library ` set l = group_lib ` set gs \<Longrightarrow> groups_ok l gs"
  unfolding groups_ok_def by blast

lemma groups_ok_mem:
  assumes "groups_ok l gs" "g \<in> set gs"
  shows "d \<in> set g \<longleftrightarrow> d \<in> set l \<and> di_Library d = group_lib g"
proof -
  have "g = filter (\<lambda>d. di_Library d = group_lib g) l" using assms by (simp only: groups_ok_def)
  then have "set g = {d \<in> set l. di_Library d = group_lib g}" by (metis set_filter)
  then show ?thesis by blast
qed

lemma groups_ok_ne: "groups_ok l gs \<Longrightarrow> g \<in> set gs \<Longrightarrow> g \<noteq> []"
  unfolding groups_ok_def by blast

lemma groups_ok_libs: "groups_ok l gs \<Longrightarrow> di_Library ` set l = group_lib ` set gs"
  unfolding groups_ok_def by blast

lemma add_to_group_alt:
  assumes "distinct (map group_lib gs)"
  shows "add_to_group d gs =
    (if di_Library d \<in> group_lib ` set gs
     then map (\<lambda>g. if group_lib g = di_Library d then g @ [d] else g) gs
     else gs @ [[d]])"
  using assms
proof (induction gs)
  case (Cons g gs)
  have "map (\<lambda>h. if group_lib h = di_Library d then h @ [d] else h) gs = gs" if "di_Library d \<notin> group_lib ` set gs"
    using that by (intro map_idI) (auto simp: image_iff)
  moreover have "group_lib g \<notin> group_lib ` set gs" using Cons.prems by simp
  ultimately show ?case using Cons by (cases "group_lib g = di_Library d") simp_all
qed simp

lemma groups_ok_add:
  assumes ok: "groups_ok l gs"
  shows "groups_ok (l @ [d]) (add_to_group d gs)"
proof -
  have ds: "distinct (map group_lib gs)" and libs: "di_Library ` set l = group_lib ` set gs"
    and gr: "\<And>g. g \<in> set gs \<Longrightarrow> g \<noteq> [] \<and> g = filter (\<lambda>d. di_Library d = group_lib g) l"
    using ok by (auto simp: groups_ok_def)
  note ne = conjunct1[OF gr] and fl = conjunct2[OF gr]
  let ?up = "\<lambda>g. if group_lib g = di_Library d then g @ [d] else g"
  have lib: "group_lib (?up g) = group_lib g" if "g \<in> set gs" for g using ne[OF that] by simp
  show ?thesis
  proof (cases "di_Library d \<in> group_lib ` set gs")
    case True
    have a: "add_to_group d gs = map ?up gs" using True by (simp add: add_to_group_alt[OF ds])
    have m: "map group_lib (map ?up gs) = map group_lib gs" using lib by simp
    have "group_lib ` set (map ?up gs) = group_lib ` set gs" by (metis m list.set_map)
    moreover have "g' \<noteq> [] \<and> g' = filter (\<lambda>e. di_Library e = group_lib g') (l @ [d])" if "g' \<in> set (map ?up gs)" for g'
    proof -
      have "g' \<in> ?up ` set gs" using that by simp
      then obtain g where g: "g' = ?up g" "g \<in> set gs" by (rule imageE)
      have l: "group_lib g' = group_lib g" unfolding g(1) by (rule lib[OF g(2)])
      show ?thesis unfolding l unfolding g(1) using ne[OF g(2)] fl[OF g(2)] by auto
    qed
    moreover have "di_Library ` set (l @ [d]) = group_lib ` set gs" using libs True by auto
    ultimately show ?thesis unfolding a using ds m by (intro groups_okI) (blast, metis, metis)
  next
    case False
    have a: "add_to_group d gs = gs @ [[d]]" using False by (simp add: add_to_group_alt[OF ds])
    have e: "filter (\<lambda>e. di_Library e = di_Library d) l = []"
      unfolding filter_empty_conv using False libs by (metis imageI)
    have "g' \<noteq> [] \<and> g' = filter (\<lambda>e. di_Library e = group_lib g') (l @ [d])" if "g' \<in> set (gs @ [[d]])" for g'
    proof (cases "g' \<in> set gs")
      case True
      then have n: "di_Library d \<noteq> group_lib g'" using False by blast
      have "filter (\<lambda>e. di_Library e = group_lib g') (l @ [d]) = g'"
        unfolding filter_append conjunct2[OF gr[OF True], symmetric] using n by simp
      then show ?thesis using ne[OF True] by metis
    next
      case False
      then have "g' = [d]" using that by simp
      then show ?thesis using e by simp
    qed
    moreover have "distinct (map group_lib (gs @ [[d]]))" using ds False by simp
    moreover have "di_Library ` set (l @ [d]) = group_lib ` set (gs @ [[d]])" using libs by simp
    ultimately show ?thesis unfolding a by (intro groups_okI) blast+
  qed
qed

lemma ByLibrary_ok: "groups_ok l (ByLibrary l)"
proof (induction l rule: rev_induct)
  case Nil
  show ?case by (simp add: ByLibrary_def groups_ok_def)
next
  case (snoc d l)
  show ?case using groups_ok_add[OF snoc, of d] by (simp add: ByLibrary_def)
qed

lemma ByLibrary_set: "set (concat (ByLibrary l)) = set l"
proof -
  have ok: "groups_ok l (ByLibrary l)" by (rule ByLibrary_ok)
  have "d \<in> set (concat (ByLibrary l))" if "d \<in> set l" for d
  proof -
    have "di_Library d \<in> group_lib ` set (ByLibrary l)" using that groups_ok_libs[OF ok] by blast
    then obtain g where "di_Library d = group_lib g" "g \<in> set (ByLibrary l)" by (rule imageE)
    then show ?thesis using groups_ok_mem[OF ok, of g d] that by (simp add: bexI[of _ g])
  qed
  then show ?thesis using groups_ok_mem[OF ok] by auto
qed

lemma ByLibrary_nonempty: "l \<noteq> [] \<Longrightarrow> ByLibrary l \<noteq> []"
  using ByLibrary_set[of l] by auto

section \<open>What the placement promises\<close>

lemma bestSingleGPUFit_spec:
  assumes "bestSingleGPUFit sys groups predictedVRAM = Some (g, a)"
  shows "g \<in> set (concat groups)" "fits80 predictedVRAM (availableMemoryForGPU sys g)"
    "\<And>c. c \<in> set (concat groups) \<Longrightarrow> fits80 predictedVRAM (availableMemoryForGPU sys c) \<Longrightarrow>
       \<not> betterPlacementGPU c (availableMemoryForGPU sys c) g (availableMemoryForGPU sys g)"
  using best_gpu_member[OF assms[unfolded bestSingleGPUFit_def]]
    best_gpu_unbeaten[OF assms[unfolded bestSingleGPUFit_def]] by auto

lemma bestSingleGPUFit_None:
  assumes "bestSingleGPUFit sys groups predictedVRAM = None" "c \<in> set (concat groups)"
  shows "\<not> fits80 predictedVRAM (availableMemoryForGPU sys c)"
  using assms unfolding bestSingleGPUFit_def best_gpu_None filter_empty_conv by blast

lemma bestExplicitMainGPU_member:
  assumes "bestExplicitMainGPU sys groups i = Some (g, a)"
  shows "\<exists>gr \<in> set groups. g \<in> set gr \<and> 0 \<le> i \<and> i < int (length gr) \<and> g = gr ! nat i"
proof -
  have i: "\<not> i < 0" using assms by (auto simp: bestExplicitMainGPU_def)
  have b: "best_gpu sys (map (\<lambda>g. g ! nat i) (filter (\<lambda>g. i < int (length g)) groups)) None = Some (g, a)"
    using assms i by (simp add: bestExplicitMainGPU_def)
  then obtain gr where "gr \<in> set groups" "i < int (length gr)" "g = gr ! nat i"
    using best_gpu_member[OF b] by auto
  then show ?thesis using i by (intro bexI[of _ gr]) auto
qed

definition one_library :: "device_info list \<Rightarrow> bool" where
  "one_library ds \<longleftrightarrow> (\<forall>d \<in> set ds. di_Library d = di_Library (hd ds))"

lemma group_one_library: "groups_ok l gs \<Longrightarrow> g \<in> set gs \<Longrightarrow> one_library g"
  using groups_ok_mem by (auto simp: one_library_def)

lemma bestGroup_sound:
  assumes "gpus \<noteq> []"
  shows "bestGPUGroupByAvailableMemory sys (ByLibrary gpus) \<noteq> []"
    "set (bestGPUGroupByAvailableMemory sys (ByLibrary gpus)) \<subseteq> set gpus"
    "one_library (bestGPUGroupByAvailableMemory sys (ByLibrary gpus))"
proof -
  let ?g = "bestGPUGroupByAvailableMemory sys (ByLibrary gpus)"
  have g: "?g \<in> set (ByLibrary gpus)" by (rule bestGPUGroup_in[OF ByLibrary_nonempty[OF assms]])
  show "?g \<noteq> []" by (rule groups_ok_ne[OF ByLibrary_ok g])
  show "set ?g \<subseteq> set gpus" using groups_ok_mem[OF ByLibrary_ok g] by blast
  show "one_library ?g" by (rule group_one_library[OF ByLibrary_ok g])
qed

text \<open>
  C32. Placement chooses from what there is. With several devices and offloading on, the devices a
  model is placed on are some of the given ones, at least one, and of a single library; every other
  option is kept; and the main device is either the request's or, when one device was singled out,
  index 0 of a list of exactly one.
\<close>

theorem placement_sound:
  assumes "1 < length gpus" "ro_NumGPU opts \<noteq> 0"
    and "selectLlamaServerPlacement spread sys gpus predictedVRAM opts = (ds, opts')"
  shows "ds \<noteq> [] \<and> set ds \<subseteq> set gpus \<and> one_library ds
    \<and> opts' = opts\<lparr>ro_MainGPU := ro_MainGPU opts'\<rparr>
    \<and> (ro_MainGPU opts' = ro_MainGPU opts \<or> ro_MainGPU opts' = Some 0 \<and> length ds = 1)"
proof -
  have ne: "gpus \<noteq> []" and l: "\<not> length gpus \<le> 1" using assms(1) by auto
  then have gr: "length (ByLibrary gpus) \<noteq> 0" by (simp add: ByLibrary_nonempty)
  note group = bestGroup_sound[OF ne, of sys]
  have single: "[g] \<noteq> [] \<and> set [g] \<subseteq> set gpus \<and> one_library [g]" if "g \<in> set (concat (ByLibrary gpus))" for g
    using that unfolding ByLibrary_set by (simp add: one_library_def)
  have plain: ?thesis if "(ds, opts') = (bestGPUGroupByAvailableMemory sys (ByLibrary gpus), opts)"
    using that group by simp
  have one: ?thesis if "(ds, opts') = singleLlamaServerGPUPlacement g opts" "g \<in> set (concat (ByLibrary gpus))" for g
    using that(1) single[OF that(2)] by (simp add: singleLlamaServerGPUPlacement_def)
  show ?thesis
  proof (cases "ro_MainGPU opts")
    case None
    have r: "(ds, opts') = (case (if \<not> spread \<and> 0 < predictedVRAM then bestSingleGPUFit sys (ByLibrary gpus) predictedVRAM else None) of
        Some (gpu, _) \<Rightarrow> singleLlamaServerGPUPlacement gpu opts
      | None \<Rightarrow> (bestGPUGroupByAvailableMemory sys (ByLibrary gpus), opts))"
      using assms(2,3) l gr None by (simp add: selectLlamaServerPlacement_def Let_def)
    show ?thesis
    proof (cases "if \<not> spread \<and> 0 < predictedVRAM then bestSingleGPUFit sys (ByLibrary gpus) predictedVRAM else None")
      case N: None
      show ?thesis by (rule plain) (use r N in simp)
    next
      case (Some p)
      obtain g a where p: "p = (g, a)" by (cases p)
      have "bestSingleGPUFit sys (ByLibrary gpus) predictedVRAM = Some (g, a)" using Some p by (auto split: if_splits)
      from bestSingleGPUFit_spec(1)[OF this] show ?thesis by (rule one[rotated]) (use r Some p in simp)
    qed
  next
    case (Some i)
    have r: "(ds, opts') = (case bestExplicitMainGPU sys (ByLibrary gpus) i of
        None \<Rightarrow> (bestGPUGroupByAvailableMemory sys (ByLibrary gpus), opts)
      | Some (gpu, _) \<Rightarrow> singleLlamaServerGPUPlacement gpu opts)"
      using assms(2,3) l gr Some by (simp add: selectLlamaServerPlacement_def Let_def)
    show ?thesis
    proof (cases "bestExplicitMainGPU sys (ByLibrary gpus) i")
      case None
      show ?thesis by (rule plain) (use r None in simp)
    next
      case S: (Some p)
      obtain g a where p: "p = (g, a)" by (cases p)
      have "g \<in> set (concat (ByLibrary gpus))" using bestExplicitMainGPU_member[OF S[unfolded p]] by auto
      then show ?thesis by (rule one[rotated]) (use r S p in simp)
    qed
  qed
qed

definition demo_gpu :: "string \<Rightarrow> string \<Rightarrow> bool \<Rightarrow> bytes64 \<Rightarrow> device_info" where
  "demo_gpu i lib integrated free = \<lparr>di_ID = i, di_Library = lib, di_Name = lib, di_ComputeMajor = 8, di_ComputeMinor = 6,
     di_DriverMajor = 12, di_Integrated = integrated, di_TotalMemory = free, di_FreeMemory = free\<rparr>"

definition demo_sys :: system_info where
  "demo_sys = \<lparr>si_TotalMemory = 64 * GibiByte, si_FreeMemory = 32 * GibiByte, si_FreeSwap = 0\<rparr>"

definition demo_gpus :: "device_info list" where
  "demo_gpus = [demo_gpu ''0'' ''CUDA'' False (24 * GibiByte), demo_gpu ''0'' ''Vulkan'' True (48 * GibiByte),
     demo_gpu ''1'' ''CUDA'' False (12 * GibiByte)]"

definition demo_opts :: runner_options where
  "demo_opts = \<lparr>ro_NumCtx = 8192, ro_NumBatch = 512, ro_NumGPU = -1, ro_MainGPU = None, ro_UseMMap = None,
     ro_NumThread = 0, ro_DraftNumPredict = 0\<rparr>"

lemmas demo_sched_defs = demo_gpu_def demo_sys_def demo_gpus_def demo_opts_def GibiByte_def MebiByte_def

lemma demo_placement:
  "selectLlamaServerPlacement False demo_sys demo_gpus (30 * GibiByte) demo_opts =
    ([demo_gpu ''0'' ''CUDA'' False (24 * GibiByte), demo_gpu ''1'' ''CUDA'' False (12 * GibiByte)], demo_opts)"
  by code_simp

theorem placement_sound_witness:
  "one_library [demo_gpu ''0'' ''CUDA'' False (24 * GibiByte), demo_gpu ''1'' ''CUDA'' False (12 * GibiByte)]"
  using placement_sound[OF _ _ demo_placement] by (simp add: demo_gpus_def demo_opts_def)

text \<open>
  A model goes to one device exactly when it fits one. Without a requested main device and without
  spreading, for a model whose size is predicted: if some device has four fifths of its available
  memory left for it, the model is placed on one such device alone, and no other that fits is
  better (discrete before integrated, then more memory); if none does, it goes to a whole group.
\<close>

theorem placement_single_fit:
  assumes "1 < length gpus" "ro_NumGPU opts \<noteq> 0" "ro_MainGPU opts = None" "0 < predictedVRAM"
  shows "if \<exists>c \<in> set gpus. fits80 predictedVRAM (availableMemoryForGPU sys c)
    then \<exists>g \<in> set gpus. selectLlamaServerPlacement False sys gpus predictedVRAM opts = ([g], opts\<lparr>ro_MainGPU := Some 0\<rparr>)
      \<and> fits80 predictedVRAM (availableMemoryForGPU sys g)
      \<and> list_all (\<lambda>c. fits80 predictedVRAM (availableMemoryForGPU sys c) \<longrightarrow>
           \<not> betterPlacementGPU c (availableMemoryForGPU sys c) g (availableMemoryForGPU sys g)) gpus
    else selectLlamaServerPlacement False sys gpus predictedVRAM opts = (bestGPUGroupByAvailableMemory sys (ByLibrary gpus), opts)"
proof -
  have ne: "gpus \<noteq> []" and l: "\<not> length gpus \<le> 1" using assms(1) by auto
  then have gr: "length (ByLibrary gpus) \<noteq> 0" by (simp add: ByLibrary_nonempty)
  have r: "selectLlamaServerPlacement False sys gpus predictedVRAM opts =
      (case bestSingleGPUFit sys (ByLibrary gpus) predictedVRAM of
         Some (gpu, _) \<Rightarrow> singleLlamaServerGPUPlacement gpu opts
       | None \<Rightarrow> (bestGPUGroupByAvailableMemory sys (ByLibrary gpus), opts))"
    using assms l gr by (simp add: selectLlamaServerPlacement_def Let_def)
  show ?thesis
  proof (cases "bestSingleGPUFit sys (ByLibrary gpus) predictedVRAM")
    case None
    have "\<not> (\<exists>c \<in> set gpus. fits80 predictedVRAM (availableMemoryForGPU sys c))"
      using bestSingleGPUFit_None[OF None] unfolding ByLibrary_set by blast
    then show ?thesis using r None by simp
  next
    case (Some p)
    obtain g a where p: "p = (g, a)" by (cases p)
    note spec = bestSingleGPUFit_spec[OF Some[unfolded p], unfolded ByLibrary_set]
    have "selectLlamaServerPlacement False sys gpus predictedVRAM opts = ([g], opts\<lparr>ro_MainGPU := Some 0\<rparr>)"
      using r Some p by (simp add: singleLlamaServerGPUPlacement_def)
    then show ?thesis using spec by (auto simp: list_all_iff)
  qed
qed

theorem placement_single_fit_witness:
  "\<exists>g \<in> set demo_gpus. selectLlamaServerPlacement False demo_sys demo_gpus (8 * GibiByte) demo_opts = ([g], demo_opts\<lparr>ro_MainGPU := Some 0\<rparr>)"
proof -
  have fit: "\<exists>c \<in> set demo_gpus. fits80 (8 * GibiByte) (availableMemoryForGPU demo_sys c)" by code_simp
  have "0 < 8 * GibiByte" by (simp add: GibiByte_def MebiByte_def)
  then show ?thesis
    using placement_single_fit[of demo_gpus demo_opts "8 * GibiByte" demo_sys] fit
    by (auto simp: demo_opts_def demo_gpus_def)
qed

section \<open>Batch sizes\<close>

lemma nextLower_cases: "batchDefault < batch \<Longrightarrow> batch \<in> {512, 1024, 2048} \<Longrightarrow> nextLowerGenerationBatch batch \<in> {512, 1024}"
  by (auto simp: nextLowerGenerationBatch_def batchDefault_def batchMedium_def)

lemma batch_loop_spec:
  assumes "batch \<in> {512, 1024, 2048}"
  shows "batch_loop p a batch \<in> {512, 1024, 2048} \<and> batch_loop p a batch \<le> batch \<and>
    (batch_loop p a batch = 512 \<or> generationBatchFits (batch_loop p a batch) p a) \<and>
    (\<forall>b \<in> {1024, 2048}. batch_loop p a batch < b \<longrightarrow> b \<le> batch \<longrightarrow> \<not> generationBatchFits b p a)"
  using assms
proof (induction p a batch rule: batch_loop.induct)
  case (1 p a batch)
  show ?case
  proof (cases "batchDefault < batch \<and> \<not> generationBatchFits batch p a")
    case True
    have nb: "nextLowerGenerationBatch batch \<in> {512, 1024, 2048}" using nextLower_cases 1(2) True by blast
    have gap: "b \<le> nextLowerGenerationBatch batch \<or> b = batch \<or> batch < b" if "b \<in> {1024, 2048}" for b
      using that 1(2) True by (auto simp: nextLowerGenerationBatch_def batchDefault_def batchMedium_def)
    have r: "batch_loop p a batch = batch_loop p a (nextLowerGenerationBatch batch)"
      using True by (simp add: batch_loop.simps[of p a batch])
    have le: "nextLowerGenerationBatch batch \<le> batch" using nextLower_less True by (simp add: less_imp_le)
    note ih = 1(1)[OF True nb]
    have "\<not> generationBatchFits b p a"
      if "b \<in> {1024, 2048}" "batch_loop p a (nextLowerGenerationBatch batch) < b" "b \<le> batch" for b
      using gap[OF that(1)] ih that True by auto
    then show ?thesis unfolding r using ih le by auto
  next
    case False
    have r: "batch_loop p a batch = batch" using False by (auto simp: batch_loop.simps[of p a batch])
    show ?thesis unfolding r using 1(2) False by (auto simp: batchDefault_def)
  qed
qed

lemma unat_threshold:
  fixes a :: bytes64
  assumes "unat a < 2 ^ 57" "k \<le> 100"
  shows "unat (a * of_nat k div 100) = unat a * k div 100"
proof -
  have m: "unat a * k < 2 ^ 64"
  proof -
    have "unat a * k \<le> (2 ^ 57 - 1) * 100" using assms by (intro mult_mono) auto
    also have "\<dots> < 2 ^ 64" by simp
    finally show ?thesis .
  qed
  have "unat (of_nat k :: bytes64) = k" using assms(2) by (simp add: unat_of_nat take_bit_nat_eq_self)
  then have "unat (a * of_nat k) = unat a * k" using m by (simp add: unat_mult_lem[THEN iffD1])
  then show ?thesis by (simp add: unat_div)
qed

text \<open>
  C33. Automatic batch sizes are safe. The size chosen is 256, 512, 1024 or 2048; above 512 it never
  exceeds what the context asks for, and, for memory below \<open>2 ^ 57\<close> bytes, when both the model's
  size and the available memory are known, the model with the batch's surcharge stays within four
  fifths of the available memory: without wrap-around, as a fact about numbers.
\<close>

theorem automatic_batch_fits:
  assumes "unat availableMemory < 2 ^ 57" "batch = automaticGenerationBatch effectiveCtx predictedVRAM availableMemory fa gpus"
  shows "batch \<in> {256, 512, 1024, 2048} \<and>
    (512 < batch \<longrightarrow> batch \<le> generationBatchForContext effectiveCtx \<and>
       (predictedVRAM = 0 \<or> availableMemory = 0 \<or>
        unat predictedVRAM + unat (generationBatchSurcharge batch) \<le> unat availableMemory * 80 div 100))"
proof (cases "fa = FlashAttentionDisabled \<and> hasCUDADevice gpus")
  case True
  then show ?thesis using assms(2)
    by (simp add: automaticGenerationBatch_def batchConstrained_def batchDefault_def)
next
  case False
  have b: "batch = batch_loop predictedVRAM availableMemory (generationBatchForContext effectiveCtx)"
    using assms(2) False by (simp only: automaticGenerationBatch_def if_False)
  have c: "generationBatchForContext effectiveCtx \<in> {512, 1024, 2048}"
    by (simp add: generationBatchForContext_def batchDefault_def batchMedium_def batchLarge_def)
  note spec = batch_loop_spec[OF c, of predictedVRAM availableMemory, folded b]
  have "unat predictedVRAM + unat (generationBatchSurcharge batch) \<le> unat availableMemory * 80 div 100"
    if "512 < batch" "predictedVRAM \<noteq> 0" "availableMemory \<noteq> 0"
  proof -
    have fits: "generationBatchFits batch predictedVRAM availableMemory" using spec that(1) by auto
    let ?t = "availableMemory * 80 div 100"
    have le: "predictedVRAM \<le> ?t" and s: "generationBatchSurcharge batch \<le> ?t - predictedVRAM"
      using fits that(2,3) by (auto simp: generationBatchFits_def Let_def split: if_splits)
    have "unat (generationBatchSurcharge batch) \<le> unat ?t - unat predictedVRAM"
      using s le by (simp add: word_le_nat_alt unat_sub)
    moreover have "unat predictedVRAM \<le> unat ?t" using le by (simp add: word_le_nat_alt)
    moreover have "unat ?t = unat availableMemory * 80 div 100" using unat_threshold[OF assms(1), of 80] by simp
    ultimately show ?thesis by simp
  qed
  then show ?thesis using spec by auto
qed

theorem automatic_batch_fits_witness:
  "automaticGenerationBatch 65536 (10 * GibiByte) (24 * GibiByte) FlashAttentionAuto [] = 2048 \<and>
   unat (10 * GibiByte) + unat (generationBatchSurcharge 2048) \<le> unat (24 * GibiByte) * 80 div 100"
proof -
  have b: "automaticGenerationBatch 65536 (10 * GibiByte) (24 * GibiByte) FlashAttentionAuto [] = 2048" by code_simp
  have a: "unat (24 * GibiByte) < 2 ^ 57" by (simp add: GibiByte_def MebiByte_def)
  have "10 * GibiByte \<noteq> 0" "24 * GibiByte \<noteq> 0" by (simp_all add: GibiByte_def MebiByte_def)
  then show ?thesis using automatic_batch_fits[OF a b[symmetric]] b by simp
qed

section \<open>Retrying with a smaller context\<close>

lemma nextLowerAuto_less: "nextLowerAutoNumCtx n = Some m \<Longrightarrow> m < n \<and> m \<in> {4096, 32768}"
  by (auto simp: nextLowerAutoNumCtx_def split: if_splits)

lemma applyBatch_opts:
  "ro_NumCtx (rq_opts (applyAutomaticGenerationBatch c x p a fa gpus req)) = ro_NumCtx (rq_opts req)"
  "rq_numCtxAuto (applyAutomaticGenerationBatch c x p a fa gpus req) = rq_numCtxAuto req"
  by (simp_all add: applyAutomaticGenerationBatch_def)

lemma effectiveContext_le: "effectiveContext n t \<le> n"
  by (simp add: effectiveContext_def)

text \<open>
  C34. The retry after running out of memory: an automatic context is lowered to 32768 or 4096,
  strictly below the context in effect; an explicit one, or one already at most 4096, is left alone
  with every other option; and it panics exactly when the model has no metadata and the context
  would be lowered, which is the case of a model run by MLX.
\<close>

theorem oom_retry_lowers:
  "case reduceAutoNumCtxForLoadOOM env weights f numParallel completion sys gpus launchOpts req of
     None \<Rightarrow> rq_numCtxAuto req \<and> f = None \<and> 4096 < ro_NumCtx (rq_opts req)
   | Some (req', True) \<Rightarrow> rq_numCtxAuto req \<and> ro_NumCtx (rq_opts req') \<in> {4096, 32768} \<and> f \<noteq> None
       \<and> ro_NumCtx (rq_opts req') < effectiveModelContext (ro_NumCtx (rq_opts req)) f
       \<and> effectiveModelContext (ro_NumCtx (rq_opts req')) f < effectiveModelContext (ro_NumCtx (rq_opts req)) f
   | Some (req', False) \<Rightarrow> req' = req \<and>
       (rq_numCtxAuto req \<longrightarrow> effectiveModelContext (ro_NumCtx (rq_opts req)) f \<le> 4096)"
proof -
  let ?n = "ro_NumCtx (rq_opts req)"
  let ?e = "effectiveContext ?n (modelTrainContext f)"
  have le: "?e \<le> ?n" by (rule effectiveContext_le)
  show ?thesis
  proof (cases "rq_numCtxAuto req")
    case False
    then show ?thesis by (simp add: reduceAutoNumCtxForLoadOOM_def)
  next
    case True
    show ?thesis
    proof (cases "nextLowerAutoNumCtx ?e")
      case None
      then have "?e \<le> 4096" by (auto simp: nextLowerAutoNumCtx_def split: if_splits)
      then show ?thesis using None True by (simp add: reduceAutoNumCtxForLoadOOM_def effectiveModelContext_def Let_def)
    next
      case (Some m)
      have m: "m < ?e" "m \<in> {4096, 32768}" using nextLowerAuto_less[OF Some] by auto
      have "\<not> ?n \<le> m" using m(1) le by simp
      moreover have "effectiveContext m (modelTrainContext f) < ?e"
        using m(1) effectiveContext_le[of m "modelTrainContext f"] by simp
      moreover have "4096 < ?n" using m le by auto
      ultimately show ?thesis
        using Some True m by (auto simp: reduceAutoNumCtxForLoadOOM_def effectiveModelContext_def Let_def applyBatch_opts split: option.splits)
    qed
  qed
qed

definition demo_req :: load_request where
  "demo_req = \<lparr>rq_opts = demo_opts\<lparr>ro_NumCtx := 4096\<rparr>, rq_numCtxAuto = True, rq_numBatchAuto = True,
     rq_useMMapAuto = False, rq_oomRetryAttempted = False\<rparr>"

theorem oom_retry_lowers_witness:
  "effectiveModelContext (ro_NumCtx (rq_opts demo_req)) None \<le> 4096"
proof -
  have "reduceAutoNumCtxForLoadOOM (\<lambda>d. d) 0 None 1 True demo_sys [] demo_opts demo_req = Some (demo_req, False)"
    by code_simp
  then show ?thesis
    using oom_retry_lowers[where env = "\<lambda>d. d" and weights = 0 and f = None and numParallel = 1 and completion = True
      and sys = demo_sys and gpus = "[]" and launchOpts = demo_opts and req = demo_req] by (simp add: demo_req_def)
qed

section \<open>Mapping and free memory\<close>

text \<open>
  What \<open>updateFreeSpace\<close> adds up for a device: over the loaded runners, and for each of them
  over the devices of the list that carry the same identity, in the 64-bit arithmetic of the code.
\<close>

definition summed_use :: "device_info list \<Rightarrow> (device_id \<Rightarrow> bytes64) option list \<Rightarrow> device_id \<Rightarrow> bytes64" where
  "summed_use gpus runners x = (\<Sum>v\<leftarrow>List.map_filter (\<lambda>r. r) runners. \<Sum>g\<leftarrow>filter (\<lambda>g. DeviceID g = x) gpus. v (DeviceID g))"

lemma add_predictions_sum:
  "add_predictions ds v m x =
     (if filter (\<lambda>g. DeviceID g = x) ds = [] then m x
      else Some ((case m x of None \<Rightarrow> 0 | Some p \<Rightarrow> p) + (\<Sum>g\<leftarrow>filter (\<lambda>g. DeviceID g = x) ds. v (DeviceID g))))"
  unfolding add_predictions_def
  by (induction ds rule: rev_induct) (auto simp: add.assoc split: option.splits if_splits)

lemma predicted_usage_sum:
  assumes g: "filter (\<lambda>g. DeviceID g = x) gpus \<noteq> []"
  shows "predicted_usage gpus runners x =
    (if List.map_filter (\<lambda>r. r) runners = [] then None else Some (summed_use gpus runners x))"
proof (induction runners rule: rev_induct)
  case Nil
  then show ?case by (simp add: predicted_usage_def map_filter_simps)
next
  case (snoc r rs)
  have app: "List.map_filter (\<lambda>r. r) (rs @ [r]) = List.map_filter (\<lambda>r. r) rs @ (case r of None \<Rightarrow> [] | Some v \<Rightarrow> [v])"
    by (cases r) (simp_all add: List.map_filter_def)
  show ?case
  proof (cases r)
    case None
    then show ?thesis using snoc app[unfolded None] by (simp add: predicted_usage_def None summed_use_def)
  next
    case (Some v)
    have "predicted_usage gpus (rs @ [r]) x = add_predictions gpus v (predicted_usage gpus rs) x"
      by (simp add: predicted_usage_def Some)
    then show ?thesis using snoc g app[unfolded Some] by (simp add: Some add_predictions_sum summed_use_def)
  qed
qed

text \<open>
  C35. Free memory after the loaded models: with no loaded runner every device is unchanged;
  otherwise each device keeps its identity, its total and its place, and its free memory becomes the
  smaller of what it reported and of what the total leaves once the use of ALL the loaded runners on
  this device, added up, is taken from it, nothing when that sum exceeds the total. So it never grows.
\<close>

theorem updateFreeSpace_bounds:
  assumes "i < length gpus"
  shows "length (updateFreeSpace gpus runners) = length gpus
    \<and> updateFreeSpace gpus runners ! i =
        (if list_all (\<lambda>r. r = None) runners then gpus ! i
         else let total = di_TotalMemory (gpus ! i);
                  used = (\<Sum>v\<leftarrow>List.map_filter (\<lambda>r. r) runners.
                            \<Sum>g\<leftarrow>filter (\<lambda>g. DeviceID g = DeviceID (gpus ! i)) gpus. v (DeviceID g))
              in (gpus ! i)\<lparr>di_FreeMemory := min (di_FreeMemory (gpus ! i)) (if total < used then 0 else total - used)\<rparr>)
    \<and> di_FreeMemory (updateFreeSpace gpus runners ! i) \<le> di_FreeMemory (gpus ! i)"
proof -
  let ?g = "gpus ! i"
  have g: "filter (\<lambda>g. DeviceID g = DeviceID ?g) gpus \<noteq> []"
    using assms nth_mem by (fastforce simp: filter_empty_conv)
  have n: "List.map_filter (\<lambda>r. r) runners = [] \<longleftrightarrow> list_all (\<lambda>r. r = None) runners"
    by (induction runners) (auto simp: map_filter_simps split: option.splits)
  have u: "updateFreeSpace gpus runners ! i = update_gpu (predicted_usage gpus runners) ?g"
    using assms by (auto simp: updateFreeSpace_def)
  have keep: "?g = ?g\<lparr>di_FreeMemory := di_FreeMemory ?g\<rparr>" by simp
  have "updateFreeSpace gpus runners ! i =
        (if list_all (\<lambda>r. r = None) runners then ?g
         else ?g\<lparr>di_FreeMemory := min (di_FreeMemory ?g)
                (if di_TotalMemory ?g < summed_use gpus runners (DeviceID ?g) then 0
                 else di_TotalMemory ?g - summed_use gpus runners (DeviceID ?g))\<rparr>)"
    unfolding u update_gpu_def predicted_usage_sum[OF g] n by (auto simp: min_def)
  then show ?thesis by (simp add: Let_def summed_use_def updateFreeSpace_def)
qed

text \<open>Two loaded runners of 10 GiB each: their uses add up on the first device.\<close>

theorem updateFreeSpace_bounds_witness:
  "di_FreeMemory (updateFreeSpace demo_gpus [Some (\<lambda>_. 10 * GibiByte), None, Some (\<lambda>_. 10 * GibiByte)] ! 0) = 4 * GibiByte"
  using updateFreeSpace_bounds[of 0 demo_gpus "[Some (\<lambda>_. 10 * GibiByte), None, Some (\<lambda>_. 10 * GibiByte)]"]
  by (simp add: demo_sched_defs DeviceID_def map_filter_simps Let_def)

end
