(* ===== verification/Machine.thy ===== *)
theory Machine
  imports Main
begin

text \<open>
  Runs of a machine given by a partial step function, and invariants of the runs whose steps
  satisfy a side condition. The invariant may count the steps, for bounds that a long run breaks.
\<close>

fun run_steps :: "('s \<Rightarrow> 'a \<Rightarrow> 's option) \<Rightarrow> 's \<Rightarrow> 'a list \<Rightarrow> 's option" where
  "run_steps step s [] = Some s"
| "run_steps step s (a # as) = (case step s a of None \<Rightarrow> None | Some s' \<Rightarrow> run_steps step s' as)"

fun ok_run :: "('s \<Rightarrow> 'a \<Rightarrow> 's option) \<Rightarrow> ('s \<Rightarrow> 'a \<Rightarrow> bool) \<Rightarrow> 's \<Rightarrow> 'a list \<Rightarrow> bool" where
  "ok_run step ok s [] = True"
| "ok_run step ok s (a # as) = (ok s a \<and> (case step s a of None \<Rightarrow> True | Some s' \<Rightarrow> ok_run step ok s' as))"

lemma run_steps_append:
  "run_steps step s (as @ bs) = (case run_steps step s as of None \<Rightarrow> None | Some t \<Rightarrow> run_steps step t bs)"
  by (induction as arbitrary: s) (auto split: option.splits)

locale guarded_machine =
  fixes step :: "'s \<Rightarrow> 'a \<Rightarrow> 's option"
    and ok :: "'s \<Rightarrow> 'a \<Rightarrow> bool"
    and keeps :: "nat \<Rightarrow> 's \<Rightarrow> bool"
    and bound :: nat
  assumes keep: "keeps n s \<Longrightarrow> n < bound \<Longrightarrow> ok s a \<Longrightarrow> step s a = Some t \<Longrightarrow> keeps (Suc n) t"
begin

lemma run_keeps:
  "keeps n s \<Longrightarrow> n + length as \<le> bound \<Longrightarrow> ok_run step ok s as \<Longrightarrow> run_steps step s as = Some t \<Longrightarrow>
   keeps (n + length as) t"
proof (induction as arbitrary: n s)
  case Nil
  then show ?case by simp
next
  case (Cons a as)
  obtain u where u: "step s a = Some u" "run_steps step u as = Some t"
    using Cons.prems(4) by (auto split: option.splits)
  have "keeps (Suc n) u" using keep[OF Cons.prems(1) _ _ u(1)] Cons.prems by simp
  then show ?case using Cons.IH[of "Suc n" u] Cons.prems u by simp
qed

end

end
