(* ===== verification/Sched.thy ===== *)
theory Sched
  imports SchedPlacement Machine "HOL-Library.AList" "HOL-Library.List_Lexorder" "HOL-Library.Char_ord"
    "HOL-Library.Product_Lexorder"
begin

text \<open>
  server/sched.go, the scheduler itself: the loaded runners, their reference counts, and the
  channels between the callers, the loop of pending requests, the loop of completed requests, the
  timers and the goroutines of loads. Runners and requests are addresses into two stores. A step is
  one section of the code between two releases of a lock, or one send or receive, so the steps of
  different goroutines interleave as the code lets them; a step that has to wait for a lock or for
  room in a channel is not enabled.
\<close>

section \<open>State\<close>

record runner_ref =
  rr_refCount :: "64 word"
  rr_open :: bool
  rr_pid :: int
  rr_loading :: bool
  rr_locked :: bool
  rr_isImagegen :: bool
  rr_vram :: "device_id \<Rightarrow> bytes64"
  rr_totalSize :: bytes64
  rr_sessionDuration :: int
  rr_timer :: bool
  rr_model :: "sched_model option"
  rr_modelPath :: string
  rr_modelKey :: string
  rr_Options :: "runner_options option"
  rr_numCtxAuto :: bool
  rr_numBatchAuto :: bool
  rr_useMMapAuto :: bool
  rr_contextShift :: bool
  rr_trainContext :: int

text \<open>\<open>sq_vision\<close> and \<open>sq_completion\<close> are what \<^verbatim>\<open>CheckCapabilities\<close> says of the model.\<close>

record sched_request =
  sq_model :: sched_model
  sq_load :: load_request
  sq_sessionDuration :: "int option"
  sq_contextShift :: bool
  sq_shift :: "bool option"
  sq_vision :: bool
  sq_completion :: bool
  sq_cancelled :: bool
  sq_schedAttempts :: "64 word"

text \<open>
  Where a request is: its caller looked its runner up, or found it usable; it is queued; its
  runner is loading; it holds a runner; its context is done and it is on the finished channel; or
  it is over, with or without an error.
\<close>

datatype phase = Fresh | Looked nat | Checked nat | Queued | Loading nat | Holding nat | Finished nat | Over | Failed

text \<open>The loop of pending requests, between two of its steps.\<close>

datatype pending_loop =
    PIdle
  | PTry nat
  | PFound nat nat
  | PUse nat nat
  | PLoad nat bool
  | PChoose nat
  | PExpire nat nat
  | PEvict nat "nat list" nat
  | PWait nat
  | PDrain nat nat

text \<open>
  The loop of completed requests: ready to receive, about to report an unload, or blocked for
  good on its own full channel.
\<close>

datatype completed_loop = CReady | CSend | CStuck

record sched =
  sc_runner :: "nat \<Rightarrow> runner_ref"
  sc_next :: nat
  sc_loaded :: "(string \<times> nat) list"
  sc_activeLoading :: "string option"
  sc_request :: "nat \<Rightarrow> sched_request"
  sc_phase :: "nat \<Rightarrow> phase"
  sc_pendingCh :: "nat list"
  sc_finishedCh :: "nat list"
  sc_expiredCh :: "nat list"
  sc_unloadedCh :: nat
  sc_pending :: pending_loop
  sc_completed :: completed_loop
  sc_fired :: "nat list"
  sc_retry :: "nat list"
  sc_expiring :: "nat list"
  sc_maxRunners :: nat
  sc_panicked :: bool

definition loaded_at :: "sched \<Rightarrow> string \<Rightarrow> nat option" where
  "loaded_at s k = map_of (sc_loaded s) k"

definition request_key :: "sched \<Rightarrow> nat \<Rightarrow> string" where
  "request_key s q = schedulerModelKey (Some (sq_model (sc_request s q)))"

definition set_runner :: "nat \<Rightarrow> runner_ref \<Rightarrow> sched \<Rightarrow> sched" where
  "set_runner r x s = s\<lparr>sc_runner := (sc_runner s)(r := x)\<rparr>"

definition set_phase :: "nat \<Rightarrow> phase \<Rightarrow> sched \<Rightarrow> sched" where
  "set_phase q p s = s\<lparr>sc_phase := (sc_phase s)(q := p)\<rparr>"

definition set_request :: "nat \<Rightarrow> sched_request \<Rightarrow> sched \<Rightarrow> sched" where
  "set_request q x s = s\<lparr>sc_request := (sc_request s)(q := x)\<rparr>"

section \<open>Runners\<close>

text \<open>\<^verbatim>\<open>unload\<close> stops the timer, closes the server and clears what a later check looks at.\<close>

definition unload :: "runner_ref \<Rightarrow> runner_ref" where
  "unload r = r\<lparr>rr_timer := False, rr_open := False, rr_model := None, rr_Options := None, rr_contextShift := False\<rparr>"

definition IsMLX :: "sched_model \<Rightarrow> bool" where
  "IsMLX m \<longleftrightarrow> sm_Format m = ''safetensors''"

text \<open>\<open>ping\<close> is whether the server answers.\<close>

definition needsReload :: "bool \<Rightarrow> runner_ref \<Rightarrow> sched_request \<Rightarrow> bool" where
  "needsReload ping runner req =
     (if rr_isImagegen runner \<noteq> (''image'' \<in> set (sm_Capabilities (sq_model req))) then True
      else case rr_Options runner of
        None \<Rightarrow> True
      | Some optsExisting \<Rightarrow>
          let optsNew = rq_opts (sq_load req);
              optsNew = optsNew\<lparr>ro_NumCtx := effectiveContext (ro_NumCtx optsNew) (rr_trainContext runner)\<rparr>;
              optsNew = (if rr_numCtxAuto runner \<and> rq_numCtxAuto (sq_load req)
                         then optsNew\<lparr>ro_NumCtx := ro_NumCtx optsExisting\<rparr> else optsNew);
              optsNew = (if rr_numBatchAuto runner \<and> rq_numBatchAuto (sq_load req)
                         then optsNew\<lparr>ro_NumBatch := ro_NumBatch optsExisting\<rparr> else optsNew);
              optsNew = (if rr_useMMapAuto runner \<and> ro_UseMMap optsNew = None
                         then optsNew\<lparr>ro_UseMMap := ro_UseMMap optsExisting\<rparr> else optsNew);
              (optsExisting, optsNew) = (if ro_NumGPU optsNew < 0
                         then (optsExisting\<lparr>ro_NumGPU := -1\<rparr>, optsNew\<lparr>ro_NumGPU := -1\<rparr>) else (optsExisting, optsNew));
              contextShift = (if sm_ModelPath (sq_model req) \<noteq> [] then resolveContextShift (sq_shift req) (Some (sq_model req))
                              else sq_contextShift req)
          in if rr_contextShift runner \<noteq> contextShift then True
             else case rr_model runner of
               None \<Rightarrow> True
             | Some m \<Rightarrow>
                 sm_AdapterPaths m \<noteq> sm_AdapterPaths (sq_model req) \<or>
                 sm_ProjectorPaths m \<noteq> sm_ProjectorPaths (sq_model req) \<or>
                 (\<not> IsMLX m \<and> optsExisting \<noteq> optsNew) \<or> \<not> ping)"

text \<open>The order in which runners are unloaded: by session duration as \<^verbatim>\<open>uint64\<close>, then by name.\<close>

definition runner_rank :: "runner_ref \<Rightarrow> 64 word \<times> string" where
  "runner_rank r = (word_of_int (rr_sessionDuration r), if rr_modelPath r = [] then rr_modelKey r else rr_modelPath r)"

text \<open>The scan for an idle runner reads each count under its lock: \<open>None\<close> while it has to wait.\<close>

fun first_idle :: "sched \<Rightarrow> nat list \<Rightarrow> nat option option" where
  "first_idle s [] = Some None"
| "first_idle s (r # rs) =
     (if rr_locked (sc_runner s r) then None
      else if rr_refCount (sc_runner s r) = 0 then Some (Some r) else first_idle s rs)"

definition findRunnerToUnload :: "sched \<Rightarrow> nat option option" where
  "findRunnerToUnload s =
     (let runnerList = sort_key (\<lambda>r. runner_rank (sc_runner s r)) (map snd (sc_loaded s)) in
      if runnerList = [] then Some None
      else case first_idle s runnerList of
        None \<Rightarrow> None
      | Some (Some r) \<Rightarrow> Some (Some r)
      | Some None \<Rightarrow> Some (Some (hd runnerList)))"

section \<open>Callers\<close>

text \<open>What \<^verbatim>\<open>getRunner\<close> makes of the options of a request.\<close>

definition prepare_request :: "sched_request \<Rightarrow> sched_request" where
  "prepare_request req =
     (let opts = rq_opts (sq_load req);
          opts = (if ro_NumCtx opts < 4 then opts\<lparr>ro_NumCtx := 4\<rparr> else opts);
          opts = (if sq_vision req then opts\<lparr>ro_NumCtx := max (ro_NumCtx opts) 2048\<rparr> else opts)
      in req\<lparr>sq_load := (sq_load req)\<lparr>rq_opts := opts\<rparr>,
             sq_contextShift := (if sm_ModelPath (sq_model req) \<noteq> [] then resolveContextShift (sq_shift req) (Some (sq_model req)) else False)\<rparr>)"

text \<open>A request that finds no usable runner is queued, or fails when the queue is full.\<close>

definition enqueue :: "nat \<Rightarrow> nat \<Rightarrow> sched \<Rightarrow> sched" where
  "enqueue maxQueue q s =
     (if length (sc_pendingCh s) < maxQueue
      then set_phase q Queued (s\<lparr>sc_pendingCh := sc_pendingCh s @ [q]\<rparr>)
      else set_phase q Failed s)"

definition get_runner :: "nat \<Rightarrow> nat \<Rightarrow> sched \<Rightarrow> sched" where
  "get_runner maxQueue q s =
     (let s = set_request q (prepare_request (sc_request s q)) s in
      case loaded_at s (request_key s q) of
        None \<Rightarrow> enqueue maxQueue q s
      | Some r \<Rightarrow> set_phase q (Looked r) s)"

definition useLoadedRunner :: "nat \<Rightarrow> nat \<Rightarrow> sched \<Rightarrow> sched" where
  "useLoadedRunner q r s =
     (let x = sc_runner s r;
          x = x\<lparr>rr_refCount := rr_refCount x + 1, rr_timer := False\<rparr>;
          x = (case sq_sessionDuration (sc_request s q) of None \<Rightarrow> x | Some d \<Rightarrow> x\<lparr>rr_sessionDuration := d\<rparr>)
      in set_phase q (Holding r) (set_runner r x s))"

text \<open>
  Expiring a runner at once: \<^verbatim>\<open>expireRunner\<close>, \<^verbatim>\<open>expireRunnersForRuntimeOOM\<close>, \<^verbatim>\<open>evictAllAndWait\<close> and
  the loop of pending requests share it.
\<close>

definition expire_now :: "nat \<Rightarrow> sched \<Rightarrow> sched" where
  "expire_now r s =
     (let x = (sc_runner s r)\<lparr>rr_timer := False, rr_sessionDuration := 0\<rparr>;
          s = set_runner r x s
      in if rr_refCount x = 0 then s\<lparr>sc_expiredCh := sc_expiredCh s @ [r]\<rparr> else s)"

text \<open>It blocks when the event does not fit on the channel.\<close>

definition can_expire :: "nat \<Rightarrow> nat \<Rightarrow> sched \<Rightarrow> bool" where
  "can_expire maxQueue r s \<longleftrightarrow> \<not> rr_locked (sc_runner s r) \<and>
     (rr_refCount (sc_runner s r) = 0 \<longrightarrow> length (sc_expiredCh s) < maxQueue)"

section \<open>Loading\<close>

text \<open>What \<^verbatim>\<open>Load\<close> answers: it needs memory, it failed (by running out of memory or not), or it started a process.\<close>

datatype load_result = LoadRequiredFull | LoadFailed bool | LoadOk

text \<open>What a load asks of the world.\<close>

record load_world =
  lw_env :: load_env
  lw_sys :: system_info
  lw_gpus :: "device_info list"
  lw_meta :: "model_meta option"
  lw_fileSize :: "string \<Rightarrow> bytes64"
  lw_numParallel :: int
  lw_keepAlive :: int
  lw_serverError :: bool
  lw_result :: load_result
  lw_pid :: int
  lw_contextLength :: int
  lw_vram :: "device_id \<Rightarrow> bytes64"
  lw_totalSize :: bytes64

definition zero_options :: runner_options where
  "zero_options = \<lparr>ro_NumCtx = 0, ro_NumBatch = 0, ro_NumGPU = 0, ro_MainGPU = None, ro_UseMMap = None,
     ro_NumThread = 0, ro_DraftNumPredict = 0\<rparr>"

definition fail_request :: "nat \<Rightarrow> sched \<Rightarrow> sched" where
  "fail_request q s = set_phase q Failed s"

definition set_load :: "nat \<Rightarrow> load_request \<Rightarrow> sched \<Rightarrow> sched" where
  "set_load q lr s = set_request q ((sc_request s q)\<lparr>sq_load := lr\<rparr>) s"

text \<open>The runner a successful load makes, with its lock held until the server runs or fails.\<close>

definition new_runner :: "load_world \<Rightarrow> sched_request \<Rightarrow> model_meta option \<Rightarrow> int \<Rightarrow> runner_ref" where
  "new_runner w req f sessionDuration =
     \<lparr>rr_refCount = 0, rr_open = True, rr_pid = lw_pid w, rr_loading = True, rr_locked = True,
      rr_isImagegen = (''image'' \<in> set (sm_Capabilities (sq_model req))),
      rr_vram = lw_vram w, rr_totalSize = lw_totalSize w,
      rr_sessionDuration = sessionDuration, rr_timer = False,
      rr_model = Some (sq_model req), rr_modelPath = sm_ModelPath (sq_model req),
      rr_modelKey = schedulerModelKey (Some (sq_model req)), rr_Options = Some (rq_opts (sq_load req)),
      rr_numCtxAuto = rq_numCtxAuto (sq_load req), rr_numBatchAuto = rq_numBatchAuto (sq_load req),
      rr_useMMapAuto = rq_useMMapAuto (sq_load req), rr_contextShift = sq_contextShift req,
      rr_trainContext = modelTrainContext f\<rparr>"

text \<open>The context the server reports replaces the one asked for.\<close>

definition settle_context :: "load_world \<Rightarrow> sched_request \<Rightarrow> sched_request" where
  "settle_context w req =
     (if sm_ModelPath (sq_model req) \<noteq> [] \<and> 0 < lw_contextLength w
      then req\<lparr>sq_load := (sq_load req)\<lparr>rq_opts := (rq_opts (sq_load req))\<lparr>ro_NumCtx := lw_contextLength w\<rparr>\<rparr>,
               sq_contextShift := resolveContextShift (sq_shift req) (Some (sq_model req))\<rparr>
      else req)"

definition install_runner :: "nat \<Rightarrow> runner_ref \<Rightarrow> sched \<Rightarrow> sched" where
  "install_runner q x s =
     (let r = sc_next s;
          s = (case loaded_at s (rr_modelKey x) of
                 None \<Rightarrow> s
               | Some old \<Rightarrow> set_runner old (unload (sc_runner s old)) s)
      in set_phase q (Loading r)
           ((set_runner r x s)\<lparr>sc_next := Suc r, sc_activeLoading := None, sc_loaded := AList.update (rr_modelKey x) r (sc_loaded s)\<rparr>))"

text \<open>The part of \<^verbatim>\<open>load\<close> from starting the server on; the Boolean asks for an eviction.\<close>

definition start_server :: "load_world \<Rightarrow> nat \<Rightarrow> model_meta option \<Rightarrow> device_info list \<Rightarrow> runner_options \<Rightarrow> int \<Rightarrow> int \<Rightarrow> bool
    \<Rightarrow> sched \<Rightarrow> sched \<times> bool" where
  "start_server w q f loadGpus launchOpts numParallel sessionDuration requireFull s =
     (case lw_result w of
        LoadRequiredFull \<Rightarrow>
          if \<not> requireFull then (fail_request q (s\<lparr>sc_activeLoading := None\<rparr>), False) else (s, True)
      | LoadFailed oom \<Rightarrow>
          let s = s\<lparr>sc_activeLoading := None\<rparr>;
              lr = sq_load (sc_request s q);
              otherLoaded = (sc_loaded s \<noteq> []);
              retry = (if \<not> rq_oomRetryAttempted lr \<and> oom
                       then reduceAutoNumCtxForLoadOOM (le_flash (lw_env w)) (lw_fileSize w (sm_ModelPath (sq_model (sc_request s q))))
                              f numParallel (sq_completion (sc_request s q)) (lw_sys w) loadGpus launchOpts lr
                       else Some (lr, False))
          in (case retry of
                None \<Rightarrow> (s\<lparr>sc_panicked := True\<rparr>, False)
              | Some (lr', True) \<Rightarrow> (set_load q (lr'\<lparr>rq_oomRetryAttempted := True\<rparr>) s, True)
              | Some (_, False) \<Rightarrow>
                  if otherLoaded \<and> \<not> rq_oomRetryAttempted lr \<and> oom
                  then (set_load q (lr\<lparr>rq_oomRetryAttempted := True\<rparr>) s, True)
                  else (fail_request q s, False))
      | LoadOk \<Rightarrow>
          let req = settle_context w (sc_request s q)
          in (install_runner q (new_runner w req f sessionDuration) (set_request q req s), False))"

definition mmap_runner_of :: "load_world \<Rightarrow> runner_ref \<Rightarrow> mmap_runner" where
  "mmap_runner_of w x = \<lparr>mr_Options = rr_Options x, mr_fileSize = lw_fileSize w (rr_modelPath x), mr_totalSize = rr_totalSize x\<rparr>"

definition load :: "load_world \<Rightarrow> nat \<Rightarrow> device_info list \<Rightarrow> bool \<Rightarrow> sched \<Rightarrow> sched \<times> bool" where
  "load w q gpus requireFull s =
     (let req = sc_request s q; m = sq_model req;
          numParallel = load_numParallel (lw_numParallel w) (sq_completion req) (sm_Family m);
          sessionDuration = (case sq_sessionDuration req of None \<Rightarrow> lw_keepAlive w | Some d \<Rightarrow> d)
      in case sc_activeLoading s of
        Some path \<Rightarrow>
          if path \<noteq> (if sm_ModelPath m = [] then sm_ShortName m else sm_ModelPath m)
          then (s\<lparr>sc_panicked := True\<rparr>, False)
          else start_server w q None gpus zero_options numParallel sessionDuration requireFull s
      | None \<Rightarrow>
          if IsMLX m then
            (if lw_serverError w then (fail_request q s, False)
             else start_server w q None gpus zero_options numParallel sessionDuration requireFull
                    (s\<lparr>sc_activeLoading := Some (sm_ShortName m)\<rparr>))
          else (case lw_meta w of
              None \<Rightarrow> (fail_request q s, False)
            | Some f \<Rightarrow>
                let env = (lw_env w)\<lparr>le_loaded := map (\<lambda>(k, r). mmap_runner_of w (sc_runner s r)) (sc_loaded s),
                                     le_fileSize := lw_fileSize w (sm_ModelPath m)\<rparr> in
                (case plan_load env (lw_sys w) gpus f numParallel (sq_completion req) requireFull (sq_load req) of
                   (lr, EvictFirst) \<Rightarrow> (set_load q lr s, True)
                 | (lr, Launch loadGpus launchOpts) \<Rightarrow>
                     let s = set_request q (req\<lparr>sq_load := lr, sq_contextShift := resolveContextShift (sq_shift req) (Some m)\<rparr>) s
                     in if lw_serverError w then (fail_request q s, False)
                        else start_server w q (Some f) loadGpus launchOpts numParallel sessionDuration requireFull
                               (s\<lparr>sc_activeLoading := Some (sm_ModelPath m)\<rparr>))))"


section \<open>The loop of pending requests\<close>

definition ploop :: "pending_loop \<Rightarrow> sched \<Rightarrow> sched" where
  "ploop p s = s\<lparr>sc_pending := p\<rparr>"

definition take_pending :: "sched \<Rightarrow> sched option" where
  "take_pending s = (case sc_pendingCh s of
     [] \<Rightarrow> None
   | q # qs \<Rightarrow>
       let req = sc_request s q;
           s = set_request q (req\<lparr>sq_schedAttempts := sq_schedAttempts req + 1\<rparr>) (s\<lparr>sc_pendingCh := qs\<rparr>)
       in Some (if sq_cancelled req then set_phase q Over s else ploop (PTry q) s))"

text \<open>The snapshot at the top of the inner loop.\<close>

definition lookup_pending :: "nat \<Rightarrow> sched \<Rightarrow> sched" where
  "lookup_pending q s = (case loaded_at s (request_key s q) of
     Some r \<Rightarrow> ploop (PFound q r) s
   | None \<Rightarrow>
       if 0 < sc_maxRunners s \<and> sc_maxRunners s \<le> length (sc_loaded s)
       then ploop (PChoose q) s
       else ploop (PLoad q (sc_loaded s = [])) s)"

definition check_pending :: "bool \<Rightarrow> nat \<Rightarrow> nat \<Rightarrow> sched \<Rightarrow> sched" where
  "check_pending ping q r s =
     (if needsReload ping (sc_runner s r) (sc_request s q) then ploop (PExpire q r) s else ploop (PUse q r) s)"

definition choose_pending :: "nat \<Rightarrow> sched \<Rightarrow> sched option" where
  "choose_pending q s = (case findRunnerToUnload s of
     None \<Rightarrow> None
   | Some None \<Rightarrow> Some (ploop (PTry q) s)
   | Some (Some r) \<Rightarrow> Some (ploop (PExpire q r) s))"

definition defaultModelsPerGPU :: nat where "defaultModelsPerGPU = 3"

text \<open>
  The attempt to load. Without a setting, the limit on loaded models is fixed on the first attempt.
  A first model is loaded as well as it fits; another has to fit with the others, and otherwise
  all of them are evicted (after it ran out of memory) or one is.
\<close>

definition load_pending :: "load_world \<Rightarrow> nat \<Rightarrow> bool \<Rightarrow> sched \<Rightarrow> sched" where
  "load_pending w q noneLoaded s =
     (let gpus = (if ro_NumGPU (rq_opts (sq_load (sc_request s q))) = 0 then [] else lw_gpus w);
          s = (if sc_maxRunners s = 0
               then s\<lparr>sc_maxRunners := defaultModelsPerGPU * max (length (lw_gpus w)) 1\<rparr> else s);
          gpus = updateFreeSpace gpus (map (\<lambda>(k, r). Some (rr_vram (sc_runner s r))) (sc_loaded s));
          (s, needEvict) = load w q gpus (\<not> noneLoaded) s
      in if \<not> needEvict then ploop PIdle s
         else if noneLoaded then ploop (PTry q) s
         else if rq_oomRetryAttempted (sq_load (sc_request s q))
         then (let rs = map snd (filter (\<lambda>(k, r). k \<noteq> request_key s q) (sc_loaded s)) in ploop (PEvict q rs (length rs)) s)
         else ploop (PChoose q) s)"

text \<open>With devices it first sums their use by the loaded runners, under the lock of each.\<close>

definition can_load :: "load_world \<Rightarrow> nat \<Rightarrow> sched \<Rightarrow> bool" where
  "can_load w q s \<longleftrightarrow> ro_NumGPU (rq_opts (sq_load (sc_request s q))) = 0 \<or> lw_gpus w = [] \<or>
     list_all (\<lambda>(k, r). \<not> rr_locked (sc_runner s r)) (sc_loaded s)"

section \<open>The loop of completed requests\<close>

text \<open>
  The loop sends on the channel it alone receives from, holding the lock of the runner: with no room
  it blocks for good.
\<close>

definition send_expired :: "nat \<Rightarrow> nat \<Rightarrow> sched \<Rightarrow> sched" where
  "send_expired maxQueue r s =
     (if length (sc_expiredCh s) < maxQueue then s\<lparr>sc_expiredCh := sc_expiredCh s @ [r]\<rparr>
      else set_runner r ((sc_runner s r)\<lparr>rr_locked := True\<rparr>) (s\<lparr>sc_completed := CStuck\<rparr>))"

definition finish_runner :: "nat \<Rightarrow> nat \<Rightarrow> sched \<Rightarrow> sched" where
  "finish_runner maxQueue r s =
     (let x = sc_runner s r; x = x\<lparr>rr_refCount := rr_refCount x - 1\<rparr> in
      if rr_refCount x = 0
      then (if rr_sessionDuration x \<le> 0 then send_expired maxQueue r (set_runner r (x\<lparr>rr_timer := False\<rparr>) s)
            else set_runner r (x\<lparr>rr_timer := True\<rparr>) s)
      else set_runner r x s)"

definition completed_finished :: "nat \<Rightarrow> sched \<Rightarrow> sched option" where
  "completed_finished maxQueue s = (case sc_finishedCh s of
     [] \<Rightarrow> None
   | q # qs \<Rightarrow>
       let s' = set_phase q Over (s\<lparr>sc_finishedCh := qs\<rparr>) in
       (case loaded_at s (request_key s q) of
          None \<Rightarrow> Some s'
        | Some r \<Rightarrow> if rr_locked (sc_runner s r) then None else Some (finish_runner maxQueue r s')))"

definition remove_loaded :: "string \<Rightarrow> sched \<Rightarrow> sched" where
  "remove_loaded k s = s\<lparr>sc_loaded := AList.delete k (sc_loaded s)\<rparr>"

definition completed_expired :: "sched \<Rightarrow> sched option" where
  "completed_expired s = (case sc_expiredCh s of
     [] \<Rightarrow> None
   | r # rs \<Rightarrow>
       let x = sc_runner s r; s' = s\<lparr>sc_expiredCh := rs\<rparr> in
       if rr_locked x then None
       else if rr_refCount x \<noteq> 0 then Some (s'\<lparr>sc_retry := sc_retry s @ [r]\<rparr>)
       else (case loaded_at s (rr_modelKey x) of
               None \<Rightarrow> Some s'
             | Some r' \<Rightarrow>
                 if rr_pid x \<noteq> rr_pid (sc_runner s r') then Some (set_runner r (unload x) s')
                 else Some (remove_loaded (rr_modelKey x) (set_runner r (unload x) s')\<lparr>sc_completed := CSend\<rparr>)))"

section \<open>Steps\<close>

datatype step =
    Get nat
  | Check nat bool
  | Use nat
  | Cancel nat
  | Done nat
  | Take
  | IgnoreUnload
  | LookupPending
  | CheckPending bool
  | UsePending
  | ChoosePending
  | LoadPending load_world
  | ExpirePending
  | EvictPending
  | WakePending
  | DrainPending
  | LoadReady nat int
  | LoadFail nat
  | CompleteFinished
  | CompleteExpired
  | CompleteSent
  | TimerFires nat
  | TimerRuns nat
  | RetryExpired nat
  | ExpireModel string
  | RuntimeOOM
  | ExpireStep nat

text \<open>\<^verbatim>\<open>evictAllAndWait\<close>: expire the runners one by one, then wait for as many unloadings.\<close>

definition evict_step :: "nat \<Rightarrow> sched \<Rightarrow> sched option" where
  "evict_step maxQueue s = (case sc_pending s of
     PEvict q (r # rs) n \<Rightarrow> if can_expire maxQueue r s then Some (ploop (PEvict q rs n) (expire_now r s)) else None
   | PEvict q [] n \<Rightarrow> Some (ploop (if n = 0 then PTry q else PDrain q n) s)
   | _ \<Rightarrow> None)"

definition drain_step :: "sched \<Rightarrow> sched option" where
  "drain_step s = (case sc_pending s of
     PDrain q n \<Rightarrow>
       if 0 < sc_unloadedCh s
       then Some (ploop (if n \<le> 1 then PTry q else PDrain q (n - 1)) (s\<lparr>sc_unloadedCh := sc_unloadedCh s - 1\<rparr>)) else None
   | _ \<Rightarrow> None)"

text \<open>The goroutine of a load: the server runs, or it failed.\<close>

definition load_ready :: "nat \<Rightarrow> int \<Rightarrow> sched \<Rightarrow> sched option" where
  "load_ready q pid s = (case sc_phase s q of
     Loading r \<Rightarrow>
       let x = sc_runner s r;
           x = (if rr_pid x < 0 then x\<lparr>rr_pid := pid\<rparr> else x)
       in Some (set_phase q (Holding r)
            (set_runner r (x\<lparr>rr_refCount := rr_refCount x + 1, rr_loading := False, rr_locked := False\<rparr>) s))
   | _ \<Rightarrow> None)"

definition load_failed :: "nat \<Rightarrow> nat \<Rightarrow> sched \<Rightarrow> sched option" where
  "load_failed maxQueue q s = (case sc_phase s q of
     Loading r \<Rightarrow>
       if length (sc_expiredCh s) < maxQueue
       then Some (set_phase q Failed (set_runner r ((sc_runner s r)\<lparr>rr_locked := False\<rparr>)
              (s\<lparr>sc_expiredCh := sc_expiredCh s @ [r]\<rparr>))) else None
   | _ \<Rightarrow> None)"

text \<open>The callback of a keep-alive timer.\<close>

definition timer_callback :: "nat \<Rightarrow> nat \<Rightarrow> sched \<Rightarrow> sched option" where
  "timer_callback maxQueue r s =
     (if r \<in> set (sc_fired s) \<and> \<not> rr_locked (sc_runner s r) \<and> length (sc_expiredCh s) < maxQueue
      then Some (set_runner r ((sc_runner s r)\<lparr>rr_timer := False\<rparr>)
             (s\<lparr>sc_fired := remove1 r (sc_fired s), sc_expiredCh := sc_expiredCh s @ [r]\<rparr>)) else None)"

text \<open>
  \<^verbatim>\<open>expireRunner\<close> and \<^verbatim>\<open>expireRunnersForRuntimeOOM\<close> look the runners up first and expire them
  afterwards, one by one.
\<close>

definition expireRunner :: "string \<Rightarrow> sched \<Rightarrow> sched" where
  "expireRunner k s = (case loaded_at s k of None \<Rightarrow> s | Some r \<Rightarrow> s\<lparr>sc_expiring := sc_expiring s @ [r]\<rparr>)"

definition expireRunnersForRuntimeOOM :: "sched \<Rightarrow> sched" where
  "expireRunnersForRuntimeOOM s = s\<lparr>sc_expiring := sc_expiring s @ map snd (sc_loaded s)\<rparr>"

definition sched_step :: "nat \<Rightarrow> sched \<Rightarrow> step \<Rightarrow> sched option" where
  "sched_step maxQueue s st =
     (if sc_panicked s then None else case st of
        Get q \<Rightarrow> if sc_phase s q = Fresh then Some (get_runner maxQueue q s) else None
      | Check q ping \<Rightarrow>
          (case sc_phase s q of
             Looked r \<Rightarrow>
               if rr_locked (sc_runner s r) then None
               else if needsReload ping (sc_runner s r) (sc_request s q) then Some (enqueue maxQueue q s)
               else Some (set_phase q (Checked r) s)
           | _ \<Rightarrow> None)
      | Use q \<Rightarrow>
          (case sc_phase s q of
             Checked r \<Rightarrow> if rr_locked (sc_runner s r) then None else Some (useLoadedRunner q r s)
           | _ \<Rightarrow> None)
      | Cancel q \<Rightarrow> Some (set_request q ((sc_request s q)\<lparr>sq_cancelled := True\<rparr>) s)
      | Done q \<Rightarrow>
          (case sc_phase s q of
             Holding r \<Rightarrow>
               if length (sc_finishedCh s) < maxQueue
               then Some (set_phase q (Finished r) (s\<lparr>sc_finishedCh := sc_finishedCh s @ [q]\<rparr>)) else None
           | _ \<Rightarrow> None)
      | Take \<Rightarrow> if sc_pending s = PIdle then take_pending s else None
      | IgnoreUnload \<Rightarrow>
          if sc_pending s = PIdle \<and> 0 < sc_unloadedCh s then Some (s\<lparr>sc_unloadedCh := sc_unloadedCh s - 1\<rparr>) else None
      | LookupPending \<Rightarrow> (case sc_pending s of PTry q \<Rightarrow> Some (lookup_pending q s) | _ \<Rightarrow> None)
      | CheckPending ping \<Rightarrow>
          (case sc_pending s of
             PFound q r \<Rightarrow> if rr_locked (sc_runner s r) then None else Some (check_pending ping q r s)
           | _ \<Rightarrow> None)
      | UsePending \<Rightarrow>
          (case sc_pending s of
             PUse q r \<Rightarrow> if rr_locked (sc_runner s r) then None else Some (ploop PIdle (useLoadedRunner q r s))
           | _ \<Rightarrow> None)
      | ChoosePending \<Rightarrow> (case sc_pending s of PChoose q \<Rightarrow> choose_pending q s | _ \<Rightarrow> None)
      | LoadPending w \<Rightarrow> (case sc_pending s of PLoad q none \<Rightarrow> if can_load w q s then Some (load_pending w q none s) else None | _ \<Rightarrow> None)
      | ExpirePending \<Rightarrow>
          (case sc_pending s of
             PExpire q r \<Rightarrow> if can_expire maxQueue r s then Some (ploop (PWait q) (expire_now r s)) else None
           | _ \<Rightarrow> None)
      | EvictPending \<Rightarrow> evict_step maxQueue s
      | WakePending \<Rightarrow>
          (case sc_pending s of
             PWait q \<Rightarrow> if 0 < sc_unloadedCh s then Some (ploop (PTry q) (s\<lparr>sc_unloadedCh := sc_unloadedCh s - 1\<rparr>)) else None
           | _ \<Rightarrow> None)
      | DrainPending \<Rightarrow> drain_step s
      | LoadReady q pid \<Rightarrow> load_ready q pid s
      | LoadFail q \<Rightarrow> load_failed maxQueue q s
      | CompleteFinished \<Rightarrow> if sc_completed s = CReady then completed_finished maxQueue s else None
      | CompleteExpired \<Rightarrow> if sc_completed s = CReady then completed_expired s else None
      | CompleteSent \<Rightarrow>
          if sc_completed s = CSend \<and> sc_unloadedCh s < maxQueue
          then Some (s\<lparr>sc_completed := CReady, sc_unloadedCh := sc_unloadedCh s + 1\<rparr>) else None
      | TimerFires r \<Rightarrow>
          if rr_timer (sc_runner s r) then Some (s\<lparr>sc_fired := sc_fired s @ [r]\<rparr>) else None
      | TimerRuns r \<Rightarrow> timer_callback maxQueue r s
      | RetryExpired r \<Rightarrow>
          if r \<in> set (sc_retry s) \<and> length (sc_expiredCh s) < maxQueue
          then Some (s\<lparr>sc_retry := remove1 r (sc_retry s), sc_expiredCh := sc_expiredCh s @ [r]\<rparr>) else None
      | ExpireModel k \<Rightarrow> Some (expireRunner k s)
      | RuntimeOOM \<Rightarrow> Some (expireRunnersForRuntimeOOM s)
      | ExpireStep r \<Rightarrow>
          if r \<in> set (sc_expiring s) \<and> can_expire maxQueue r s
          then Some (expire_now r (s\<lparr>sc_expiring := remove1 r (sc_expiring s)\<rparr>)) else None)"

lemmas sched_step_unfold = sched_step_def evict_step_def drain_step_def load_ready_def load_failed_def timer_callback_def
  expireRunner_def expireRunnersForRuntimeOOM_def

definition sched_run :: "nat \<Rightarrow> sched \<Rightarrow> step list \<Rightarrow> sched option" where
  "sched_run maxQueue = run_steps (sched_step maxQueue)"

text \<open>\<^verbatim>\<open>InitScheduler\<close>: nothing is loaded, the requests are those callers will make.\<close>

definition empty_runner :: runner_ref where
  "empty_runner = \<lparr>rr_refCount = 0, rr_open = False, rr_pid = 0, rr_loading = False, rr_locked = False,
     rr_isImagegen = False, rr_vram = (\<lambda>_. 0), rr_totalSize = 0, rr_sessionDuration = 0, rr_timer = False,
     rr_model = None, rr_modelPath = [], rr_modelKey = [], rr_Options = None, rr_numCtxAuto = False,
     rr_numBatchAuto = False, rr_useMMapAuto = False, rr_contextShift = False, rr_trainContext = 0\<rparr>"

definition InitScheduler :: "nat \<Rightarrow> (nat \<Rightarrow> sched_request) \<Rightarrow> sched" where
  "InitScheduler maxRunners reqs = \<lparr>sc_runner = (\<lambda>_. empty_runner), sc_next = 0, sc_loaded = [], sc_activeLoading = None,
     sc_request = reqs, sc_phase = (\<lambda>_. Fresh), sc_pendingCh = [], sc_finishedCh = [], sc_expiredCh = [], sc_unloadedCh = 0,
     sc_pending = PIdle, sc_completed = CReady, sc_fired = [], sc_retry = [], sc_expiring = [],
     sc_maxRunners = maxRunners, sc_panicked = False\<rparr>"

end
