(* ===== verification/SchedProofs.thy ===== *)
theory SchedProofs
  imports Sched
begin

text \<open>
  What the scheduler keeps: the reference count of a runner is the number of requests that hold it,
  a runner in use is loaded and open, every request is in one place, and a load never meets a
  loaded runner of the same model.
\<close>

section \<open>Field laws\<close>

lemma set_runner_simps [simp]:
  "sc_runner (set_runner r x s) = (sc_runner s)(r := x)" "sc_next (set_runner r x s) = sc_next s"
  "sc_loaded (set_runner r x s) = sc_loaded s" "sc_activeLoading (set_runner r x s) = sc_activeLoading s"
  "sc_request (set_runner r x s) = sc_request s" "sc_phase (set_runner r x s) = sc_phase s"
  "sc_pendingCh (set_runner r x s) = sc_pendingCh s" "sc_finishedCh (set_runner r x s) = sc_finishedCh s"
  "sc_pending (set_runner r x s) = sc_pending s" "sc_expiredCh (set_runner r x s) = sc_expiredCh s"
  "sc_completed (set_runner r x s) = sc_completed s" "sc_panicked (set_runner r x s) = sc_panicked s"
  "sc_fired (set_runner r x s) = sc_fired s" "sc_retry (set_runner r x s) = sc_retry s"
  "sc_expiring (set_runner r x s) = sc_expiring s" "sc_unloadedCh (set_runner r x s) = sc_unloadedCh s"
  by (simp_all add: set_runner_def)

lemma set_phase_simps [simp]:
  "sc_runner (set_phase q p s) = sc_runner s" "sc_next (set_phase q p s) = sc_next s"
  "sc_loaded (set_phase q p s) = sc_loaded s" "sc_activeLoading (set_phase q p s) = sc_activeLoading s"
  "sc_request (set_phase q p s) = sc_request s" "sc_phase (set_phase q p s) = (sc_phase s)(q := p)"
  "sc_pendingCh (set_phase q p s) = sc_pendingCh s" "sc_finishedCh (set_phase q p s) = sc_finishedCh s"
  "sc_pending (set_phase q p s) = sc_pending s" "sc_expiredCh (set_phase q p s) = sc_expiredCh s"
  "sc_completed (set_phase q p s) = sc_completed s" "sc_panicked (set_phase q p s) = sc_panicked s"
  "sc_fired (set_phase q p s) = sc_fired s" "sc_retry (set_phase q p s) = sc_retry s"
  "sc_expiring (set_phase q p s) = sc_expiring s" "sc_unloadedCh (set_phase q p s) = sc_unloadedCh s"
  by (simp_all add: set_phase_def)

lemma set_request_simps [simp]:
  "sc_runner (set_request q p s) = sc_runner s" "sc_next (set_request q p s) = sc_next s"
  "sc_loaded (set_request q p s) = sc_loaded s" "sc_activeLoading (set_request q p s) = sc_activeLoading s"
  "sc_request (set_request q p s) = (sc_request s)(q := p)" "sc_phase (set_request q p s) = sc_phase s"
  "sc_pendingCh (set_request q p s) = sc_pendingCh s" "sc_finishedCh (set_request q p s) = sc_finishedCh s"
  "sc_pending (set_request q p s) = sc_pending s" "sc_expiredCh (set_request q p s) = sc_expiredCh s"
  "sc_completed (set_request q p s) = sc_completed s" "sc_panicked (set_request q p s) = sc_panicked s"
  "sc_fired (set_request q p s) = sc_fired s" "sc_retry (set_request q p s) = sc_retry s"
  "sc_expiring (set_request q p s) = sc_expiring s" "sc_unloadedCh (set_request q p s) = sc_unloadedCh s"
  by (simp_all add: set_request_def)

lemma ploop_simps [simp]:
  "sc_runner (ploop p s) = sc_runner s" "sc_next (ploop p s) = sc_next s"
  "sc_loaded (ploop p s) = sc_loaded s" "sc_activeLoading (ploop p s) = sc_activeLoading s"
  "sc_request (ploop p s) = sc_request s" "sc_phase (ploop p s) = sc_phase s"
  "sc_pendingCh (ploop p s) = sc_pendingCh s" "sc_finishedCh (ploop p s) = sc_finishedCh s"
  "sc_pending (ploop p s) = p" "sc_expiredCh (ploop p s) = sc_expiredCh s"
  "sc_completed (ploop p s) = sc_completed s" "sc_panicked (ploop p s) = sc_panicked s"
  "sc_fired (ploop p s) = sc_fired s" "sc_retry (ploop p s) = sc_retry s"
  "sc_expiring (ploop p s) = sc_expiring s" "sc_unloadedCh (ploop p s) = sc_unloadedCh s"
  by (simp_all add: ploop_def)

section \<open>The invariant\<close>

definition holders :: "sched \<Rightarrow> nat \<Rightarrow> nat set" where
  "holders s r = {q. sc_phase s q = Holding r \<or> sc_phase s q = Finished r}"

definition inv_loaded :: "sched \<Rightarrow> bool" where
  "inv_loaded s \<longleftrightarrow> distinct (map fst (sc_loaded s)) \<and>
     (\<forall>k r. loaded_at s k = Some r \<longrightarrow> r < sc_next s \<and> rr_modelKey (sc_runner s r) = k \<and>
        rr_open (sc_runner s r) \<and> rr_Options (sc_runner s r) \<noteq> None) \<and>
     inj_on (\<lambda>r. rr_pid (sc_runner s r)) {..<sc_next s}"

definition inv_count :: "nat \<Rightarrow> sched \<Rightarrow> bool" where
  "inv_count n s \<longleftrightarrow> (\<forall>r. finite (holders s r) \<and> card (holders s r) \<le> n \<and>
     (r < sc_next s \<longrightarrow> rr_refCount (sc_runner s r) = of_nat (card (holders s r))))"

fun phase_runner :: "phase \<Rightarrow> nat option" where
  "phase_runner (Holding r) = Some r"
| "phase_runner (Finished r) = Some r"
| "phase_runner (Loading r) = Some r"
| "phase_runner _ = None"

definition inv_use :: "sched \<Rightarrow> bool" where
  "inv_use s \<longleftrightarrow> (\<forall>q r. phase_runner (sc_phase s q) = Some r \<longrightarrow> loaded_at s (request_key s q) = Some r) \<and>
     (\<forall>q r. sc_phase s q = Loading r \<longrightarrow> rr_locked (sc_runner s r)) \<and>
     (\<forall>q q' r. sc_phase s q = Loading r \<longrightarrow> sc_phase s q' = Loading r \<longrightarrow> q = q') \<and>
     distinct (sc_finishedCh s) \<and> (\<forall>q. q \<in> set (sc_finishedCh s) \<longleftrightarrow> (\<exists>r. sc_phase s q = Finished r))"

fun loop_request :: "pending_loop \<Rightarrow> nat option" where
  "loop_request PIdle = None"
| "loop_request (PTry q) = Some q"
| "loop_request (PFound q r) = Some q"
| "loop_request (PUse q r) = Some q"
| "loop_request (PLoad q b) = Some q"
| "loop_request (PChoose q) = Some q"
| "loop_request (PExpire q r) = Some q"
| "loop_request (PEvict q rs n) = Some q"
| "loop_request (PWait q) = Some q"
| "loop_request (PDrain q n) = Some q"

definition want_path :: "sched_model \<Rightarrow> string" where
  "want_path m = (if sm_ModelPath m = [] then sm_ShortName m else sm_ModelPath m)"

definition inv_loop :: "sched \<Rightarrow> bool" where
  "inv_loop s \<longleftrightarrow> distinct (sc_pendingCh s) \<and> (\<forall>q \<in> set (sc_pendingCh s). sc_phase s q = Queued) \<and>
     (\<forall>q. loop_request (sc_pending s) = Some q \<longrightarrow> sc_phase s q = Queued \<and> q \<notin> set (sc_pendingCh s)) \<and>
     (\<forall>q b. sc_pending s = PLoad q b \<longrightarrow> loaded_at s (request_key s q) = None)"

definition sched_inv :: "nat \<Rightarrow> sched \<Rightarrow> bool" where
  "sched_inv n s \<longleftrightarrow> inv_loaded s \<and> inv_count n s \<and> inv_use s \<and> inv_loop s"

lemmas inv_defs = inv_loaded_def inv_count_def inv_use_def inv_loop_def

lemma sched_inv_weaken: "sched_inv n s \<Longrightarrow> n \<le> m \<Longrightarrow> sched_inv m s"
  by (auto simp: sched_inv_def inv_count_def intro: le_trans)

section \<open>Steps that change nothing the invariant is about\<close>

definition runner_core :: "runner_ref \<Rightarrow> 64 word \<times> bool \<times> runner_options option \<times> string \<times> int \<times> bool" where
  "runner_core x = (rr_refCount x, rr_open x, rr_Options x, rr_modelKey x, rr_pid x, rr_locked x)"

definition same_core :: "sched \<Rightarrow> sched \<Rightarrow> bool" where
  "same_core s t \<longleftrightarrow> (\<forall>r. runner_core (sc_runner t r) = runner_core (sc_runner s r)) \<and> sc_next t = sc_next s \<and>
     sc_loaded t = sc_loaded s \<and> (\<forall>q. sq_model (sc_request t q) = sq_model (sc_request s q)) \<and>
     sc_phase t = sc_phase s \<and> sc_pendingCh t = sc_pendingCh s \<and> sc_finishedCh t = sc_finishedCh s"

lemma request_key_model: "sq_model (sc_request t q) = sq_model (sc_request s q) \<Longrightarrow> request_key t q = request_key s q"
  by (simp add: request_key_def)

lemma sched_inv_frame:
  assumes "sched_inv n s" "same_core s t"
    and "loop_request (sc_pending t) = None \<or> loop_request (sc_pending t) = loop_request (sc_pending s)"
    and "\<And>q b. sc_pending t = PLoad q b \<Longrightarrow> loaded_at s (request_key s q) = None"
  shows "sched_inv n t"
proof -
  have k: "request_key t = request_key s" and l: "loaded_at t = loaded_at s" and h: "holders t = holders s"
    using assms(2) by (auto simp: same_core_def loaded_at_def holders_def fun_eq_iff intro: request_key_model)
  have c: "rr_refCount (sc_runner t r) = rr_refCount (sc_runner s r)" "rr_open (sc_runner t r) = rr_open (sc_runner s r)"
    "rr_Options (sc_runner t r) = rr_Options (sc_runner s r)" "rr_modelKey (sc_runner t r) = rr_modelKey (sc_runner s r)"
    "rr_pid (sc_runner t r) = rr_pid (sc_runner s r)" "rr_locked (sc_runner t r) = rr_locked (sc_runner s r)" for r
    using assms(2) by (simp_all add: same_core_def runner_core_def)
  have f: "sc_next t = sc_next s" "sc_loaded t = sc_loaded s" "sc_phase t = sc_phase s"
    "sc_pendingCh t = sc_pendingCh s" "sc_finishedCh t = sc_finishedCh s" using assms(2) by (simp_all add: same_core_def)
  have "inv_loaded t" using assms(1) unfolding sched_inv_def inv_loaded_def l f c by blast
  moreover have "inv_count n t" using assms(1) unfolding sched_inv_def inv_count_def h f c by blast
  moreover have "inv_use t" using assms(1) unfolding sched_inv_def inv_use_def l k f c by blast
  moreover have "inv_loop t" using assms(1,3,4) unfolding sched_inv_def inv_loop_def l k f by force
  ultimately show ?thesis by (simp add: sched_inv_def)
qed

lemma expire_now_core: "same_core s (expire_now r s)" "sc_pending (expire_now r s) = sc_pending s"
  by (auto simp: expire_now_def same_core_def runner_core_def Let_def)

section \<open>Phases\<close>

text \<open>A request that holds no runner moves between phases that hold none.\<close>

definition idle_phase :: "phase \<Rightarrow> bool" where
  "idle_phase p \<longleftrightarrow> phase_runner p = None"

lemma idle_phase_simps [simp]:
  "idle_phase Fresh" "idle_phase (Looked r)" "idle_phase (Checked r)" "idle_phase Queued" "idle_phase Over" "idle_phase Failed"
  "\<not> idle_phase (Holding r)" "\<not> idle_phase (Finished r)" "\<not> idle_phase (Loading r)"
  by (simp_all add: idle_phase_def)

lemma request_key_simps [simp]:
  "request_key (set_runner r x s) = request_key s" "request_key (set_phase q p s) = request_key s"
  "request_key (ploop l s) = request_key s"
  "request_key (s\<lparr>sc_pendingCh := ch\<rparr>) = request_key s" "request_key (s\<lparr>sc_finishedCh := ch\<rparr>) = request_key s"
  "request_key (s\<lparr>sc_expiredCh := ch\<rparr>) = request_key s" "request_key (s\<lparr>sc_completed := c\<rparr>) = request_key s"
  by (simp_all add: request_key_def fun_eq_iff)

lemma loaded_at_simps [simp]:
  "loaded_at (set_runner r x s) = loaded_at s" "loaded_at (set_phase q p s) = loaded_at s"
  "loaded_at (set_request q rq s) = loaded_at s" "loaded_at (ploop l s) = loaded_at s"
  "loaded_at (s\<lparr>sc_pendingCh := ch\<rparr>) = loaded_at s" "loaded_at (s\<lparr>sc_finishedCh := ch\<rparr>) = loaded_at s"
  "loaded_at (s\<lparr>sc_expiredCh := ch\<rparr>) = loaded_at s" "loaded_at (s\<lparr>sc_completed := c\<rparr>) = loaded_at s"
  by (simp_all add: loaded_at_def fun_eq_iff)

lemma holders_idle:
  assumes "idle_phase (sc_phase s q) \<or> (\<exists>r. sc_phase s q = Loading r)" "idle_phase p \<or> (\<exists>r. p = Loading r)"
    "sc_phase t = (sc_phase s)(q := p)"
  shows "holders t = holders s"
  using assms by (auto simp: holders_def fun_eq_iff)

lemma inv_use_idle:
  assumes "inv_use s" "idle_phase (sc_phase s q)" "idle_phase p"
    and "sc_phase t = (sc_phase s)(q := p)" "sc_loaded t = sc_loaded s" "sc_finishedCh t = sc_finishedCh s"
    and "\<And>r. rr_locked (sc_runner t r) = rr_locked (sc_runner s r)" "request_key t = request_key s"
  shows "inv_use t"
proof -
  have l: "loaded_at t = loaded_at s" by (simp add: loaded_at_def fun_eq_iff assms(5))
  have "phase_runner p = None" "p \<noteq> Finished r" "p \<noteq> Loading r" for r using assms(3) by (auto simp: idle_phase_def)
  moreover have "sc_phase s q \<noteq> Finished r" for r using assms(2) by auto
  ultimately show ?thesis using assms(1) unfolding inv_use_def l assms(4,6,7,8) by (auto simp: fun_upd_apply)
qed

lemma sched_inv_idle:
  assumes inv: "sched_inv n s" and ph: "idle_phase (sc_phase s q)" "idle_phase p" "sc_phase s q \<noteq> Queued" "p \<noteq> Queued"
  shows "sched_inv n (set_phase q p s)"
proof -
  have h: "holders (set_phase q p s) = holders s" by (rule holders_idle) (use ph in auto)
  have "inv_loaded (set_phase q p s)" using inv by (simp add: sched_inv_def inv_loaded_def)
  moreover have "inv_count n (set_phase q p s)" using inv by (simp add: sched_inv_def inv_count_def h)
  moreover have "inv_use (set_phase q p s)" by (rule inv_use_idle[where s = s and q = q and p = p]) (use inv ph in \<open>auto simp: sched_inv_def\<close>)
  moreover have "inv_loop (set_phase q p s)" using inv ph(3) by (auto simp: sched_inv_def inv_loop_def)
  ultimately show ?thesis by (simp add: sched_inv_def)
qed

lemma sched_inv_enqueue:
  assumes inv: "sched_inv n s" and ph: "idle_phase (sc_phase s q)" "sc_phase s q \<noteq> Queued"
  shows "sched_inv n (enqueue maxQueue q s)"
proof (cases "length (sc_pendingCh s) < maxQueue")
  case True
  let ?t = "set_phase q Queued (s\<lparr>sc_pendingCh := sc_pendingCh s @ [q]\<rparr>)"
  have h: "holders ?t = holders s" by (rule holders_idle) (use ph in auto)
  have "inv_loaded ?t" using inv by (simp add: sched_inv_def inv_loaded_def)
  moreover have "inv_count n ?t" using inv by (simp add: sched_inv_def inv_count_def h)
  moreover have "inv_use ?t" by (rule inv_use_idle[where s = s and q = q and p = Queued]) (use inv ph in \<open>auto simp: sched_inv_def\<close>)
  moreover have "q \<notin> set (sc_pendingCh s)" "loop_request (sc_pending s) \<noteq> Some q"
    using inv ph(2) by (auto simp: sched_inv_def inv_loop_def)
  then have "inv_loop ?t" using inv by (auto simp: sched_inv_def inv_loop_def)
  ultimately show ?thesis using True by (simp add: sched_inv_def enqueue_def)
next
  case False
  then show ?thesis using sched_inv_idle[OF inv ph(1), of Failed] ph(2) by (simp add: enqueue_def)
qed

lemma inv_loadedI:
  "distinct (map fst (sc_loaded s)) \<Longrightarrow> inj_on (\<lambda>r. rr_pid (sc_runner s r)) {..<sc_next s} \<Longrightarrow>
   (\<And>k r. loaded_at s k = Some r \<Longrightarrow> r < sc_next s \<and> rr_modelKey (sc_runner s r) = k \<and>
        rr_open (sc_runner s r) \<and> rr_Options (sc_runner s r) \<noteq> None) \<Longrightarrow> inv_loaded s"
  unfolding inv_loaded_def by blast

lemma inv_loadedD:
  "inv_loaded s \<Longrightarrow> loaded_at s k = Some r \<Longrightarrow> r < sc_next s \<and> rr_modelKey (sc_runner s r) = k \<and>
        rr_open (sc_runner s r) \<and> rr_Options (sc_runner s r) \<noteq> None"
  unfolding inv_loaded_def by blast

lemma inv_useD: "inv_use s \<Longrightarrow> phase_runner (sc_phase s q) = Some r \<Longrightarrow> loaded_at s (request_key s q) = Some r"
  unfolding inv_use_def by blast

section \<open>Handing out, finishing, unloading\<close>

lemma use_core:
  "sc_runner (useLoadedRunner q r s) = (sc_runner s)(r := sc_runner (useLoadedRunner q r s) r)"
  "sc_phase (useLoadedRunner q r s) = (sc_phase s)(q := Holding r)"
  "rr_refCount (sc_runner (useLoadedRunner q r s) r) = rr_refCount (sc_runner s r) + 1"
  "rr_open (sc_runner (useLoadedRunner q r s) r) = rr_open (sc_runner s r)"
  "rr_Options (sc_runner (useLoadedRunner q r s) r) = rr_Options (sc_runner s r)"
  "rr_modelKey (sc_runner (useLoadedRunner q r s) r) = rr_modelKey (sc_runner s r)"
  "rr_pid (sc_runner (useLoadedRunner q r s) r) = rr_pid (sc_runner s r)"
  "rr_locked (sc_runner (useLoadedRunner q r s) r) = rr_locked (sc_runner s r)"
  "sc_next (useLoadedRunner q r s) = sc_next s" "sc_loaded (useLoadedRunner q r s) = sc_loaded s"
  "sc_request (useLoadedRunner q r s) = sc_request s" "sc_pendingCh (useLoadedRunner q r s) = sc_pendingCh s"
  "sc_finishedCh (useLoadedRunner q r s) = sc_finishedCh s" "sc_pending (useLoadedRunner q r s) = sc_pending s"
  by (auto simp: useLoadedRunner_def Let_def split: option.splits)

text \<open>
  A request gains a runner: the general form of \<open>useLoadedRunner\<close> and of a load that is ready.
  The runner keeps everything but its count, its lock, and a process id still unknown.
\<close>

lemma sched_inv_gain:
  assumes inv: "sched_inv n s"
    and q: "idle_phase (sc_phase s q) \<or> sc_phase s q = Loading r" "q \<notin> set (sc_pendingCh s)" "loop_request (sc_pending t) \<noteq> Some q"
    and r: "loaded_at s (request_key s q) = Some r"
    and t: "sc_runner t = (sc_runner s)(r := x)" "sc_phase t = (sc_phase s)(q := Holding r)"
      "sc_next t = sc_next s" "sc_loaded t = sc_loaded s" "request_key t = request_key s"
      "sc_pendingCh t = sc_pendingCh s" "sc_finishedCh t = sc_finishedCh s"
      "sc_pending t = sc_pending s \<or> sc_pending t = PIdle"
    and x: "rr_refCount x = rr_refCount (sc_runner s r) + 1" "rr_open x = rr_open (sc_runner s r)"
      "rr_Options x = rr_Options (sc_runner s r)" "rr_modelKey x = rr_modelKey (sc_runner s r)"
      "rr_pid x = rr_pid (sc_runner s r) \<or> (\<forall>r' < sc_next s. r' \<noteq> r \<longrightarrow> rr_pid x \<noteq> rr_pid (sc_runner s r'))"
      "rr_locked x = rr_locked (sc_runner s r) \<or> sc_phase s q = Loading r"
  shows "sched_inv (Suc n) t"
proof -
  have l: "loaded_at t = loaded_at s" by (simp add: loaded_at_def fun_eq_iff t)
  have i: "inv_loaded s" "inv_count n s" "inv_use s" "inv_loop s" using inv by (simp_all add: sched_inv_def)
  have rn: "r < sc_next s" using i(1) r by (simp add: inv_loaded_def)
  have qh: "q \<notin> holders s r'" for r' using q(1) by (auto simp: holders_def)
  have h: "holders t r' = (if r' = r then insert q (holders s r) else holders s r')" for r'
    using q(1) by (auto simp: holders_def t(2))
  have other: "rr_pid x \<noteq> rr_pid (sc_runner s r')" if "r' < sc_next s" "r' \<noteq> r" for r'
    using x(5) that i(1) rn unfolding inv_loaded_def inj_on_def by auto
  have pid: "inj_on (\<lambda>r'. rr_pid (sc_runner t r')) {..<sc_next t}"
  proof (rule inj_onI)
    fix a b
    assume ab: "a \<in> {..<sc_next t}" "b \<in> {..<sc_next t}" "rr_pid (sc_runner t a) = rr_pid (sc_runner t b)"
    have in_s: "inj_on (\<lambda>r. rr_pid (sc_runner s r)) {..<sc_next s}" using i(1) by (simp add: inv_loaded_def)
    show "a = b"
      using ab other[of a] other[of b] inj_onD[OF in_s, of a b] unfolding t(1,3)
      by (cases "a = r"; cases "b = r") auto
  qed
  have "inv_loaded t"
    using i(1) pid unfolding inv_loaded_def l t(1,3,4) by (auto simp: fun_upd_apply x)
  moreover have "inv_count (Suc n) t"
    unfolding inv_count_def
  proof (intro allI)
    fix r'
    have f: "finite (holders s r)" "card (holders s r) \<le> n" "rr_refCount (sc_runner s r) = of_nat (card (holders s r))"
      using i(2) rn by (auto simp: inv_count_def)
    show "finite (holders t r') \<and> card (holders t r') \<le> Suc n \<and>
        (r' < sc_next t \<longrightarrow> rr_refCount (sc_runner t r') = of_nat (card (holders t r')))"
    proof (cases "r' = r")
      case True
      then show ?thesis using f qh by (simp add: h t x)
    next
      case False
      then show ?thesis using i(2) by (simp add: h t inv_count_def le_Suc_eq)
    qed
  qed
  moreover have "inv_use t"
  proof -
    have fin: "q \<notin> set (sc_finishedCh s)" using i(3) q(1) by (auto simp: inv_use_def)
    have lk: "rr_locked (sc_runner t r')" if "sc_phase t q' = Loading r'" for q' r'
    proof -
      have n: "q' \<noteq> q" "sc_phase s q' = Loading r'" using that by (auto simp: t(2) split: if_splits)
      then have "rr_locked (sc_runner s r')" using i(3) by (simp add: inv_use_def)
      moreover have "r' \<noteq> r" if "sc_phase s q = Loading r" using i(3) n that by (auto simp: inv_use_def)
      ultimately show ?thesis using x(6) by (auto simp: t(1))
    qed
    have ph: "\<forall>q' r'. phase_runner (sc_phase t q') = Some r' \<longrightarrow> loaded_at s (request_key s q') = Some r'"
      using i(3) r by (auto simp: t(2) inv_use_def)
    have un: "\<forall>a b r'. sc_phase t a = Loading r' \<longrightarrow> sc_phase t b = Loading r' \<longrightarrow> a = b"
      using i(3) by (auto simp: t(2) inv_use_def)
    have fc: "distinct (sc_finishedCh t) \<and> (\<forall>a. a \<in> set (sc_finishedCh t) \<longleftrightarrow> (\<exists>r'. sc_phase t a = Finished r'))"
      using i(3) fin by (auto simp: t inv_use_def)
    show ?thesis unfolding inv_use_def l t(5) using lk ph un fc by blast
  qed
  moreover have "inv_loop t"
    using t(8)
  proof
    assume "sc_pending t = sc_pending s"
    then show ?thesis using i(4) q unfolding inv_loop_def l t(2,5,6) by auto
  next
    assume "sc_pending t = PIdle"
    then show ?thesis using i(4) q unfolding inv_loop_def l t(2,5,6) by auto
  qed
  ultimately show ?thesis by (simp add: sched_inv_def)
qed

lemma sched_inv_use:
  assumes "sched_inv n s" "idle_phase (sc_phase s q)" "sc_phase s q \<noteq> Queued" "loaded_at s (request_key s q) = Some r"
  shows "sched_inv (Suc n) (useLoadedRunner q r s)"
proof -
  have "q \<notin> set (sc_pendingCh s)" "loop_request (sc_pending s) \<noteq> Some q"
    using assms(1,3) by (auto simp: sched_inv_def inv_loop_def)
  moreover have "request_key (useLoadedRunner q r s) = request_key s" by (simp add: request_key_def fun_eq_iff use_core)
  ultimately show ?thesis
    by (intro sched_inv_gain[where s = s and q = q and r = r and x = "sc_runner (useLoadedRunner q r s) r"])
       (use assms in \<open>auto simp: use_core(3-14) intro: use_core(1,2)\<close>)
qed

lemma sched_inv_use_pending:
  assumes "sched_inv n s" "sc_pending s = PUse q r'" "loaded_at s (request_key s q) = Some r"
  shows "sched_inv (Suc n) (ploop PIdle (useLoadedRunner q r s))"
proof -
  have "q \<notin> set (sc_pendingCh s)" "sc_phase s q = Queued"
    using assms(1,2) by (auto simp: sched_inv_def inv_loop_def)
  moreover have "request_key (useLoadedRunner q r s) = request_key s" by (simp add: request_key_def fun_eq_iff use_core)
  ultimately show ?thesis
    by (intro sched_inv_gain[where s = s and q = q and r = r and x = "sc_runner (useLoadedRunner q r s) r"])
       (use assms in \<open>auto simp: use_core(3-14) intro: use_core(1,2)\<close>)
qed

text \<open>A request is done: it still counts until the loop of completed requests has seen it.\<close>

lemma sched_inv_done:
  assumes inv: "sched_inv n s" and q: "sc_phase s q = Holding r"
  shows "sched_inv n (set_phase q (Finished r) (s\<lparr>sc_finishedCh := sc_finishedCh s @ [q]\<rparr>))"
proof -
  let ?t = "set_phase q (Finished r) (s\<lparr>sc_finishedCh := sc_finishedCh s @ [q]\<rparr>)"
  have i: "inv_loaded s" "inv_count n s" "inv_use s" "inv_loop s" using inv by (simp_all add: sched_inv_def)
  have h: "holders ?t = holders s" using q by (auto simp: holders_def fun_eq_iff)
  have "q \<notin> set (sc_finishedCh s)" using i(3) q by (auto simp: inv_use_def)
  moreover have "loaded_at s (request_key s q) = Some r" using i(3) q by (simp add: inv_use_def)
  ultimately have "inv_use ?t" using i(3) by (auto simp: inv_use_def)
  moreover have "inv_loaded ?t" "inv_count n ?t" using i(1,2) by (simp_all add: inv_loaded_def inv_count_def h)
  moreover have "inv_loop ?t" using i(4) q by (auto simp: inv_loop_def)
  ultimately show ?thesis by (simp add: sched_inv_def)
qed

lemma finish_core:
  "sc_phase (finish_runner m r s) = sc_phase s" "sc_next (finish_runner m r s) = sc_next s"
  "sc_loaded (finish_runner m r s) = sc_loaded s" "sc_request (finish_runner m r s) = sc_request s"
  "sc_pendingCh (finish_runner m r s) = sc_pendingCh s" "sc_finishedCh (finish_runner m r s) = sc_finishedCh s"
  "sc_pending (finish_runner m r s) = sc_pending s"
  "sc_runner (finish_runner m r s) = (sc_runner s)(r := sc_runner (finish_runner m r s) r)"
  "rr_refCount (sc_runner (finish_runner m r s) r) = rr_refCount (sc_runner s r) - 1"
  "rr_open (sc_runner (finish_runner m r s) r) = rr_open (sc_runner s r)"
  "rr_Options (sc_runner (finish_runner m r s) r) = rr_Options (sc_runner s r)"
  "rr_modelKey (sc_runner (finish_runner m r s) r) = rr_modelKey (sc_runner s r)"
  "rr_pid (sc_runner (finish_runner m r s) r) = rr_pid (sc_runner s r)"
  "rr_locked (sc_runner s r) \<Longrightarrow> rr_locked (sc_runner (finish_runner m r s) r)"
  by (auto simp: finish_runner_def send_expired_def Let_def)

lemma of_nat_card_remove:
  "finite A \<Longrightarrow> a \<in> A \<Longrightarrow> (of_nat (card A) :: 64 word) - 1 = of_nat (card (A - {a}))"
  by (simp add: card_Diff_singleton card_gt_0_iff of_nat_diff Suc_leI) (metis One_nat_def Suc_leI card_gt_0_iff empty_iff of_nat_1 of_nat_diff)

text \<open>The loop of completed requests takes a finished request off its runner.\<close>

lemma sched_inv_finish:
  assumes inv: "sched_inv n s" and f: "sc_finishedCh s = q # qs" and r: "loaded_at s (request_key s q) = Some r"
  shows "sched_inv n (finish_runner m r (set_phase q Over (s\<lparr>sc_finishedCh := qs\<rparr>)))"
proof -
  let ?u = "set_phase q Over (s\<lparr>sc_finishedCh := qs\<rparr>)"
  let ?t = "finish_runner m r ?u"
  have i: "inv_loaded s" "inv_count n s" "inv_use s" "inv_loop s" using inv by (simp_all add: sched_inv_def)
  have "q \<in> set (sc_finishedCh s)" using f by simp
  then obtain r' where "sc_phase s q = Finished r'" using i(3) unfolding inv_use_def by blast
  moreover from this have "r' = r" using i(3) r by (simp add: inv_use_def)
  ultimately have ph: "sc_phase s q = Finished r" by simp
  have rn: "r < sc_next s" using i(1) r by (simp add: inv_loaded_def)
  have k: "request_key ?t = request_key s" by (simp add: request_key_def fun_eq_iff finish_core(1-7))
  have l: "loaded_at ?t = loaded_at s" by (simp add: loaded_at_def fun_eq_iff finish_core(1-7))
  have rt: "sc_runner ?t a = (if a = r then sc_runner ?t r else sc_runner s a)" for a
    using fun_cong[OF finish_core(8)[where m = m and r = r and s = ?u], of a] by (simp split: if_splits)
  have cr: "rr_open (sc_runner ?t a) = rr_open (sc_runner s a)" "rr_Options (sc_runner ?t a) = rr_Options (sc_runner s a)"
    "rr_modelKey (sc_runner ?t a) = rr_modelKey (sc_runner s a)" "rr_pid (sc_runner ?t a) = rr_pid (sc_runner s a)"
    "rr_locked (sc_runner s a) \<Longrightarrow> rr_locked (sc_runner ?t a)" for a
    by (cases "a = r"; use rt[of a] finish_core(10-14)[where m = m and r = r and s = ?u] in simp)+
  have h: "holders ?t a = (if a = r then holders s r - {q} else holders s a)" for a
    using ph by (auto simp: holders_def finish_core(1-7))
  have qr: "q \<in> holders s r" using ph by (simp add: holders_def)
  have "inv_loaded ?t" using i(1) unfolding inv_loaded_def l cr finish_core(2,3) by simp
  moreover have "inv_count n ?t"
    unfolding inv_count_def
  proof (intro allI)
    fix a
    have f: "finite (holders s a)" "card (holders s a) \<le> n" "a < sc_next s \<Longrightarrow> rr_refCount (sc_runner s a) = of_nat (card (holders s a))"
      using i(2) by (auto simp: inv_count_def)
    show "finite (holders ?t a) \<and> card (holders ?t a) \<le> n \<and>
        (a < sc_next ?t \<longrightarrow> rr_refCount (sc_runner ?t a) = of_nat (card (holders ?t a)))"
    proof (cases "a = r")
      case True
      have "rr_refCount (sc_runner ?t r) = of_nat (card (holders s r)) - 1"
        using finish_core(9)[where m = m and r = r and s = ?u] f(3) rn True by simp
      then show ?thesis
        using f True qr of_nat_card_remove[of "holders s r" q] card_Diff1_le[of "holders s r" q] by (simp add: h)
    next
      case False
      then show ?thesis using f rt[of a] by (simp add: h finish_core(1-7))
    qed
  qed
  moreover have "inv_use ?t"
  proof -
    have d: "distinct qs" "q \<notin> set qs" using i(3) f by (auto simp: inv_use_def)
    have "\<forall>a. a \<in> set qs \<longleftrightarrow> (\<exists>b. sc_phase ?t a = Finished b)"
      using i(3) f d by (auto simp: inv_use_def finish_core(1-7))
    moreover have "\<forall>a b. sc_phase ?t a = Loading b \<longrightarrow> rr_locked (sc_runner ?t b)"
      using i(3) cr(5) by (auto simp: inv_use_def finish_core(1) split: if_splits)
    ultimately show ?thesis using i(3) d unfolding inv_use_def l k by (auto simp: finish_core(1-7))
  qed
  moreover have "inv_loop ?t" using i(4) ph unfolding inv_loop_def l k by (auto simp: finish_core(1-7))
  ultimately show ?thesis by (simp add: sched_inv_def)
qed

lemma no_holders:
  assumes inv: "sched_inv n s" and n: "n < 2 ^ 64" and r: "r < sc_next s" "rr_refCount (sc_runner s r) = 0"
  shows "holders s r = {}"
proof -
  have f: "finite (holders s r)" "card (holders s r) < 2 ^ 64" "of_nat (card (holders s r)) = (0 :: 64 word)"
    using inv n r by (auto simp: sched_inv_def inv_count_def intro: le_less_trans)
  have "unat (of_nat (card (holders s r)) :: 64 word) = card (holders s r)"
    using f(2) by (simp add: unat_of_nat take_bit_nat_eq_self)
  then have "card (holders s r) = 0" using f(3) by simp
  then show ?thesis using f(1) by simp
qed

text \<open>An idle runner is unloaded.\<close>

lemma sched_inv_unload:
  assumes inv: "sched_inv n s" and r: "loaded_at s (rr_modelKey (sc_runner s r)) = Some r"
    and idle: "holders s r = {}" "\<not> rr_locked (sc_runner s r)"
    and t: "sc_runner t = (sc_runner s)(r := unload (sc_runner s r))" "sc_loaded t = AList.delete (rr_modelKey (sc_runner s r)) (sc_loaded s)"
      "sc_phase t = sc_phase s" "sc_next t = sc_next s" "request_key t = request_key s"
      "sc_pendingCh t = sc_pendingCh s" "sc_finishedCh t = sc_finishedCh s" "sc_pending t = sc_pending s"
  shows "sched_inv n t"
proof -
  let ?k = "rr_modelKey (sc_runner s r)"
  have i: "inv_loaded s" "inv_count n s" "inv_use s" "inv_loop s" using inv by (simp_all add: sched_inv_def)
  have l: "loaded_at t k = (if k = ?k then None else loaded_at s k)" for k
    by (simp add: loaded_at_def t(2) AList.delete_conv')
  have key: "r' \<noteq> r" if "loaded_at s k = Some r'" "k \<noteq> ?k" for k r'
    using i(1) that by (auto simp: inv_loaded_def)
  have h: "holders t = holders s" by (simp add: holders_def fun_eq_iff t(3))
  have un: "rr_refCount (unload x) = rr_refCount x" "rr_pid (unload x) = rr_pid x" "rr_locked (unload x) = rr_locked x" for x
    by (simp_all add: unload_def)
  have pt: "rr_pid (sc_runner t a) = rr_pid (sc_runner s a)" for a by (simp add: t(1) un)
  have "inj_on (\<lambda>a. rr_pid (sc_runner t a)) {..<sc_next t}"
    unfolding pt t(4) using i(1) unfolding inv_loaded_def by blast
  moreover have "distinct (map fst (sc_loaded t))"
    using i(1) by (simp add: inv_loaded_def t(2) distinct_delete)
  moreover have "a < sc_next t \<and> rr_modelKey (sc_runner t a) = k \<and> rr_open (sc_runner t a) \<and> rr_Options (sc_runner t a) \<noteq> None"
    if "loaded_at t k = Some a" for k a
  proof -
    have a: "loaded_at s k = Some a" "k \<noteq> ?k" using that by (auto simp: l split: if_splits)
    then show ?thesis using inv_loadedD[OF i(1) a(1)] key[OF a] by (simp add: t(1,4))
  qed
  ultimately have "inv_loaded t" by (intro inv_loadedI)
  moreover have "inv_count n t" using i(2) by (auto simp: inv_count_def h t(1,4) un)
  moreover have "inv_use t"
  proof -
    have nr: "phase_runner (sc_phase s q) \<noteq> Some r" for q
    proof (cases "sc_phase s q")
      case (Loading a)
      then show ?thesis using i(3) idle(2) by (auto simp: inv_use_def)
    qed (use idle(1) in \<open>auto simp: holders_def\<close>)
    have "loaded_at t (request_key s q) = Some a" if "phase_runner (sc_phase s q) = Some a" for q a
    proof -
      have "loaded_at s (request_key s q) = Some a" using i(3) that by (simp add: inv_use_def)
      moreover have "a \<noteq> r" using nr that by auto
      ultimately show ?thesis using r by (auto simp: l)
    qed
    then show ?thesis using i(3) unfolding inv_use_def t(3,5,7) by (auto simp: t(1) un)
  qed
  moreover have "inv_loop t" using i(4) unfolding inv_loop_def l t(3,5,6,8) by auto
  ultimately show ?thesis by (simp add: sched_inv_def)
qed

text \<open>A runner that is loaded nowhere may be closed again.\<close>

lemma sched_inv_close:
  assumes inv: "sched_inv n s" and r: "\<And>k. loaded_at s k \<noteq> Some r"
    and t: "sc_runner t = (sc_runner s)(r := unload (sc_runner s r))" "sc_loaded t = sc_loaded s"
      "sc_phase t = sc_phase s" "sc_next t = sc_next s" "request_key t = request_key s"
      "sc_pendingCh t = sc_pendingCh s" "sc_finishedCh t = sc_finishedCh s" "sc_pending t = sc_pending s"
  shows "sched_inv n t"
proof -
  have i: "inv_loaded s" "inv_count n s" "inv_use s" "inv_loop s" using inv by (simp_all add: sched_inv_def)
  have l: "loaded_at t = loaded_at s" by (simp add: loaded_at_def fun_eq_iff t(2))
  have h: "holders t = holders s" by (simp add: holders_def fun_eq_iff t(3))
  have un: "rr_refCount (unload x) = rr_refCount x" "rr_pid (unload x) = rr_pid x" "rr_locked (unload x) = rr_locked x" for x
    by (simp_all add: unload_def)
  have pt: "rr_pid (sc_runner t a) = rr_pid (sc_runner s a)" for a by (simp add: t(1) un)
  have "inj_on (\<lambda>a. rr_pid (sc_runner t a)) {..<sc_next t}"
    unfolding pt t(4) using i(1) unfolding inv_loaded_def by blast
  moreover have "a < sc_next t \<and> rr_modelKey (sc_runner t a) = k \<and> rr_open (sc_runner t a) \<and> rr_Options (sc_runner t a) \<noteq> None"
    if "loaded_at t k = Some a" for k a
  proof -
    have a: "loaded_at s k = Some a" using that by (simp add: l)
    then show ?thesis using inv_loadedD[OF i(1) a] r[of k] by (auto simp: t(1,4))
  qed
  moreover have "distinct (map fst (sc_loaded t))" using i(1) by (simp add: inv_loaded_def t(2))
  ultimately have "inv_loaded t" by (intro inv_loadedI)
  moreover have "inv_count n t" using i(2) by (auto simp: inv_count_def h t(1,4) un)
  moreover have "inv_use t" using i(3) unfolding inv_use_def l t(3,5,7) by (auto simp: t(1) un)
  moreover have "inv_loop t" using i(4) unfolding inv_loop_def l t(3,5,6,8) by auto
  ultimately show ?thesis by (simp add: sched_inv_def)
qed

text \<open>A load installs a runner for a request whose model is not loaded.\<close>

lemma install_core:
  assumes "loaded_at s (rr_modelKey x) = None"
  shows "sc_runner (install_runner q x s) = (sc_runner s)(sc_next s := x)"
    "sc_next (install_runner q x s) = Suc (sc_next s)" "sc_loaded (install_runner q x s) = AList.update (rr_modelKey x) (sc_next s) (sc_loaded s)"
    "sc_phase (install_runner q x s) = (sc_phase s)(q := Loading (sc_next s))" "sc_request (install_runner q x s) = sc_request s"
    "sc_pendingCh (install_runner q x s) = sc_pendingCh s" "sc_finishedCh (install_runner q x s) = sc_finishedCh s"
    "sc_pending (install_runner q x s) = sc_pending s"
  using assms by (simp_all add: install_runner_def Let_def)

lemma sched_inv_install:
  assumes inv: "sched_inv n s" and q: "loop_request (sc_pending s) = Some q"
    and k: "loaded_at s (request_key s q) = None" "rr_modelKey x = request_key s q"
    and x: "rr_open x" "rr_Options x \<noteq> None" "rr_locked x" "rr_refCount x = 0"
      "\<And>r. r < sc_next s \<Longrightarrow> rr_pid x \<noteq> rr_pid (sc_runner s r)"
  shows "sched_inv n (ploop PIdle (install_runner q x s))"
proof -
  let ?t = "ploop PIdle (install_runner q x s)"
  let ?r = "sc_next s"
  note core = install_core[OF k(1)[folded k(2)], of q]
  have i: "inv_loaded s" "inv_count n s" "inv_use s" "inv_loop s" using inv by (simp_all add: sched_inv_def)
  have ph: "sc_phase s q = Queued" "q \<notin> set (sc_pendingCh s)" using i(4) q by (simp_all add: inv_loop_def)
  have rk: "request_key ?t = request_key s" by (simp add: request_key_def fun_eq_iff core)
  have l: "loaded_at ?t a = (if a = request_key s q then Some ?r else loaded_at s a)" for a
    by (simp add: loaded_at_def core k(2) AList.update_conv')
  have old: "a < ?r" if "loaded_at s b = Some a" for a b using i(1) that by (simp add: inv_loaded_def)
  have used: "phase_runner (sc_phase s a) = Some b \<Longrightarrow> b < ?r" for a b using i(3) old by (auto simp: inv_use_def)
  have "phase_runner (sc_phase s a) \<noteq> Some ?r" for a using used[of a ?r] by auto
  then have hn: "holders s ?r = {}" by (auto simp: holders_def) (metis phase_runner.simps(1,2))+
  have h: "holders ?t = holders s" using ph by (auto simp: holders_def fun_eq_iff core)
  have "inj_on (\<lambda>a. rr_pid (sc_runner ?t a)) {..<sc_next ?t}"
  proof (rule inj_onI)
    fix a b
    assume ab: "a \<in> {..<sc_next ?t}" "b \<in> {..<sc_next ?t}" "rr_pid (sc_runner ?t a) = rr_pid (sc_runner ?t b)"
    have in_s: "inj_on (\<lambda>r. rr_pid (sc_runner s r)) {..<?r}" using i(1) by (simp add: inv_loaded_def)
    show "a = b"
      using ab x(5)[of a] x(5)[of b] inj_onD[OF in_s, of a b]
      by (cases "a = ?r"; cases "b = ?r") (auto simp: core less_Suc_eq)
  qed
  moreover have "distinct (map fst (sc_loaded ?t))" using i(1) by (simp add: inv_loaded_def core distinct_update)
  moreover have "a < sc_next ?t \<and> rr_modelKey (sc_runner ?t a) = b \<and> rr_open (sc_runner ?t a) \<and> rr_Options (sc_runner ?t a) \<noteq> None"
    if "loaded_at ?t b = Some a" for a b
  proof (cases "b = request_key s q")
    case True
    then have "a = ?r" using that unfolding l by simp
    then show ?thesis using True x k(2) by (simp add: core)
  next
    case False
    then have b: "loaded_at s b = Some a" using that unfolding l by simp
    show ?thesis using inv_loadedD[OF i(1) b] old[OF b] by (auto simp: core)
  qed
  ultimately have "inv_loaded ?t" by (intro inv_loadedI)
  moreover have "inv_count n ?t" using i(2) hn x(4) by (auto simp: inv_count_def h core less_Suc_eq)
  moreover have "inv_use ?t"
  proof -
    have "loaded_at ?t (request_key s a) = Some b" if "phase_runner (sc_phase ?t a) = Some b" for a b
      unfolding l using that k(1) inv_useD[OF i(3), of a b] by (auto simp: core split: if_splits)
    moreover have "rr_locked (sc_runner ?t b)" if "sc_phase ?t a = Loading b" for a b
      using that i(3) x(3) by (auto simp: inv_use_def core split: if_splits)
    moreover have "a = c" if "sc_phase ?t a = Loading b" "sc_phase ?t c = Loading b" for a b c
      using that i(3) used[of a b] used[of c b] by (auto simp: inv_use_def core split: if_splits)
    moreover have "distinct (sc_finishedCh ?t) \<and> (\<forall>a. a \<in> set (sc_finishedCh ?t) \<longleftrightarrow> (\<exists>b. sc_phase ?t a = Finished b))"
      using i(3) ph by (auto simp: inv_use_def core)
    ultimately show ?thesis unfolding inv_use_def rk by blast
  qed
  moreover have "inv_loop ?t" using i(4) ph by (auto simp: inv_loop_def core)
  ultimately show ?thesis by (simp add: sched_inv_def)
qed
section \<open>Calm runs\<close>

text \<open>
  What the environment and the interleaving have to grant. A runner that was found usable is still
  loaded when it is handed out (the locks are released in between), and the processes of different
  runners have different ids.
\<close>

definition calm :: "sched \<Rightarrow> step \<Rightarrow> bool" where
  "calm s st = (case st of
     Use q \<Rightarrow> (case sc_phase s q of Checked r \<Rightarrow> loaded_at s (request_key s q) = Some r | _ \<Rightarrow> True)
   | UsePending \<Rightarrow> (case sc_pending s of PUse q r \<Rightarrow> loaded_at s (request_key s q) = Some r | _ \<Rightarrow> True)
   | LoadPending w \<Rightarrow> list_all (\<lambda>r. lw_pid w \<noteq> rr_pid (sc_runner s r)) [0..<sc_next s]
   | LoadReady q pid \<Rightarrow> (case sc_phase s q of
       Loading r \<Rightarrow> list_all (\<lambda>r'. r' = r \<or> pid \<noteq> rr_pid (sc_runner s r')) [0..<sc_next s] | _ \<Rightarrow> True)
   | _ \<Rightarrow> True)"

definition calm_run :: "nat \<Rightarrow> sched \<Rightarrow> step list \<Rightarrow> bool" where
  "calm_run maxQueue = ok_run (sched_step maxQueue) calm"

lemma same_core_refl [simp]: "same_core s s" by (simp add: same_core_def)

lemma prepare_model [simp]: "sq_model (prepare_request req) = sq_model req"
  by (simp add: prepare_request_def Let_def)

text \<open>A step that only moves the loop of pending requests on, for the same request.\<close>

lemma sched_inv_ploop:
  assumes "sched_inv n s" "same_core s t" "sc_pending t = sc_pending s"
    "loop_request p = None \<or> loop_request p = loop_request (sc_pending s)"
    "\<And>q b. p = PLoad q b \<Longrightarrow> loaded_at s (request_key s q) = None"
  shows "sched_inv n (ploop p t)"
  by (rule sched_inv_frame[OF assms(1)]) (use assms in \<open>auto simp: same_core_def\<close>)

lemma inv_get_runner:
  assumes "sched_inv n s" "sc_phase s q = Fresh"
  shows "sched_inv n (get_runner m q s)"
proof -
  let ?u = "set_request q (prepare_request (sc_request s q)) s"
  have u: "sched_inv n ?u"
    by (rule sched_inv_frame[OF assms(1)]) (use assms(1) in \<open>auto simp: same_core_def sched_inv_def inv_loop_def\<close>)
  have "sched_inv n (enqueue m q ?u)" "sched_inv n (set_phase q (Looked r) ?u)" for r
    using sched_inv_enqueue[OF u, of q m] sched_inv_idle[OF u, of q "Looked r"] assms(2) by simp_all
  then show ?thesis by (auto simp: get_runner_def Let_def split: option.splits)
qed

lemma inv_take:
  assumes "sched_inv n s" "sc_pending s = PIdle" "take_pending s = Some t"
  shows "sched_inv n t"
proof -
  obtain q qs where ch: "sc_pendingCh s = q # qs" using assms(3) by (auto simp: take_pending_def split: list.splits)
  let ?u = "set_request q ((sc_request s q)\<lparr>sq_schedAttempts := sq_schedAttempts (sc_request s q) + 1\<rparr>) (s\<lparr>sc_pendingCh := qs\<rparr>)"
  have k: "request_key ?u = request_key s" "loaded_at ?u = loaded_at s"
    by (simp_all add: request_key_def loaded_at_def fun_eq_iff)
  have i: "inv_loaded s" "inv_count n s" "inv_use s" "inv_loop s" using assms(1) by (simp_all add: sched_inv_def)
  have q: "sc_phase s q = Queued" "q \<notin> set qs" "distinct qs" using i(4) ch by (auto simp: inv_loop_def)
  have p: "sched_inv n (ploop (PTry q) ?u)"
  proof -
    have h: "holders (ploop (PTry q) ?u) = holders s" by (simp add: holders_def fun_eq_iff)
    have kp: "request_key (ploop (PTry q) ?u) = request_key s" using k(1) by simp
    have lp: "loaded_at (ploop (PTry q) ?u) = loaded_at s" using k(2) by simp
    have "inv_loaded (ploop (PTry q) ?u)" using i(1) unfolding inv_loaded_def lp by simp
    moreover have "inv_count n (ploop (PTry q) ?u)" using i(2) unfolding inv_count_def h by simp
    moreover have "inv_use (ploop (PTry q) ?u)" using i(3) unfolding inv_use_def lp kp by simp
    moreover have "inv_loop (ploop (PTry q) ?u)" using i(4) q ch unfolding inv_loop_def lp kp by auto
    ultimately show ?thesis by (simp add: sched_inv_def)
  qed
  have c: "sched_inv n (set_phase q Over ?u)"
  proof -
    let ?t = "set_phase q Over ?u"
    have h: "holders ?t = holders s" by (rule holders_idle) (use q in auto)
    have kp: "request_key ?t = request_key s" using k(1) by simp
    have "inv_loaded ?t" using i(1) unfolding inv_loaded_def by (simp add: k)
    moreover have "inv_count n ?t" using i(2) unfolding inv_count_def h by simp
    moreover have "inv_use ?t" by (rule inv_use_idle[OF i(3), where q = q and p = Over]) (use q k in \<open>auto simp: request_key_def fun_eq_iff\<close>)
    moreover have "inv_loop ?t" using i(4) q ch assms(2) unfolding inv_loop_def kp by auto
    ultimately show ?thesis by (simp add: sched_inv_def)
  qed
  show ?thesis using assms(3) p c by (auto simp: take_pending_def ch Let_def split: if_splits)
qed

lemma inv_lookup:
  assumes "sched_inv n s" "sc_pending s = PTry q"
  shows "sched_inv n (lookup_pending q s)"
  unfolding lookup_pending_def
  by (auto split: option.splits intro!: sched_inv_ploop[OF assms(1)] simp: assms(2))

lemma inv_check_pending:
  assumes "sched_inv n s" "sc_pending s = PFound q r"
  shows "sched_inv n (check_pending ping q r s)"
  unfolding check_pending_def
  by (auto intro!: sched_inv_ploop[OF assms(1)] simp: assms(2))

lemma inv_choose:
  assumes "sched_inv n s" "sc_pending s = PChoose q" "choose_pending q s = Some t"
  shows "sched_inv n t"
  using assms(3) unfolding choose_pending_def
  by (auto split: option.splits intro!: sched_inv_ploop[OF assms(1)] simp: assms(2))

lemma inv_ready:
  assumes inv: "sched_inv n s" and ph: "sc_phase s q = Loading r"
    and pid: "list_all (\<lambda>r'. r' = r \<or> pid \<noteq> rr_pid (sc_runner s r')) [0..<sc_next s]"
  defines "x \<equiv> (if rr_pid (sc_runner s r) < 0 then (sc_runner s r)\<lparr>rr_pid := pid\<rparr> else sc_runner s r)"
  shows "sched_inv (Suc n) (set_phase q (Holding r)
    (set_runner r (x\<lparr>rr_refCount := rr_refCount x + 1, rr_loading := False, rr_locked := False\<rparr>) s))" (is "sched_inv _ ?t")
proof -
  have i: "inv_loop s" "inv_use s" using inv by (simp_all add: sched_inv_def)
  have q: "q \<notin> set (sc_pendingCh s)" "loop_request (sc_pending s) \<noteq> Some q" using i(1) ph by (auto simp: inv_loop_def)
  have l: "loaded_at s (request_key s q) = Some r" by (rule inv_useD[OF i(2)]) (simp add: ph)
  show ?thesis
    by (rule sched_inv_gain[where s = s and q = q and r = r
          and x = "x\<lparr>rr_refCount := rr_refCount x + 1, rr_loading := False, rr_locked := False\<rparr>"])
       (use inv ph q l pid in \<open>auto simp: x_def list_all_iff\<close>)
qed

lemma inv_load_fail:
  assumes inv: "sched_inv n s" and ph: "sc_phase s q = Loading r"
  shows "sched_inv n (set_phase q Failed (set_runner r ((sc_runner s r)\<lparr>rr_locked := False\<rparr>) (s\<lparr>sc_expiredCh := ch\<rparr>)))"
    (is "sched_inv _ ?t")
proof -
  have i: "inv_loaded s" "inv_count n s" "inv_use s" "inv_loop s" using inv by (simp_all add: sched_inv_def)
  have h: "holders ?t = holders s" by (rule holders_idle) (use ph in auto)
  have rk: "request_key ?t = request_key s" and l: "loaded_at ?t = loaded_at s"
    by (simp_all add: request_key_def loaded_at_def fun_eq_iff)
  have c: "rr_refCount (sc_runner ?t a) = rr_refCount (sc_runner s a)" "rr_open (sc_runner ?t a) = rr_open (sc_runner s a)"
    "rr_Options (sc_runner ?t a) = rr_Options (sc_runner s a)" "rr_modelKey (sc_runner ?t a) = rr_modelKey (sc_runner s a)"
    "rr_pid (sc_runner ?t a) = rr_pid (sc_runner s a)" for a by simp_all
  have "inv_loaded ?t" using i(1) unfolding inv_loaded_def l c by simp
  moreover have "inv_count n ?t" using i(2) unfolding inv_count_def h c by simp
  moreover have "inv_use ?t"
  proof -
    have "b \<noteq> r" if "sc_phase s a = Loading b" "a \<noteq> q" for a b using i(3) ph that by (auto simp: inv_use_def)
    then show ?thesis using i(3) ph unfolding inv_use_def l rk by auto
  qed
  moreover have "inv_loop ?t" using i(4) ph unfolding inv_loop_def l rk by auto
  ultimately show ?thesis by (simp add: sched_inv_def)
qed

lemma inv_expired:
  assumes inv: "sched_inv n s" and n: "n < 2 ^ 64" and refs: "set (sc_expiredCh s) \<subseteq> {..<sc_next s}"
    and st: "completed_expired s = Some t"
  shows "sched_inv n t"
proof -
  obtain r rs where ch: "sc_expiredCh s = r # rs" using st by (auto simp: completed_expired_def split: list.splits)
  have i: "inv_loaded s" "inv_use s" using inv by (simp_all add: sched_inv_def)
  let ?x = "sc_runner s r" and ?u = "s\<lparr>sc_expiredCh := rs\<rparr>"
  have nl: "\<not> rr_locked ?x" using st ch by (auto simp: completed_expired_def Let_def)
  have frame: "sched_inv n u" if "same_core s u" "sc_pending u = sc_pending s" for u
    by (rule sched_inv_frame[OF inv that(1)]) (use that(2) inv in \<open>auto simp: sched_inv_def inv_loop_def\<close>)
  show ?thesis
  proof (cases "rr_refCount ?x \<noteq> 0")
    case True
    then have "t = ?u\<lparr>sc_retry := sc_retry s @ [r]\<rparr>" using st ch nl by (simp add: completed_expired_def Let_def)
    then show ?thesis using frame[of t] by (simp add: same_core_def)
  next
    case False
    show ?thesis
    proof (cases "loaded_at s (rr_modelKey ?x)")
      case None
      then have "t = ?u" using st ch nl False by (simp add: completed_expired_def Let_def)
      then show ?thesis using frame[of t] by (simp add: same_core_def)
    next
      case (Some r')
      note d = inv_loadedD[OF i(1) Some]
      show ?thesis
      proof (cases "rr_pid ?x = rr_pid (sc_runner s r')")
        case True
        then have tt: "t = remove_loaded (rr_modelKey ?x) (set_runner r (unload ?x) ?u)\<lparr>sc_completed := CSend\<rparr>"
          using st ch nl False Some by (simp add: completed_expired_def Let_def)
        have rn: "r < sc_next s" using refs ch by simp
        have "inj_on (\<lambda>r. rr_pid (sc_runner s r)) {..<sc_next s}" using i(1) by (simp add: inv_loaded_def)
        then have "r' = r" using True d rn by (auto dest: inj_onD)
        then have self: "loaded_at s (rr_modelKey ?x) = Some r" using Some by simp
        have "holders s r = {}" using no_holders[OF inv n rn] False by simp
        then show ?thesis
          by (rule sched_inv_unload[OF inv self _ nl]) (simp_all add: tt remove_loaded_def request_key_def fun_eq_iff)
      next
        case F: False
        then have tt: "t = set_runner r (unload ?x) ?u"
          using st ch nl False Some by (simp add: completed_expired_def Let_def)
        have "loaded_at s k \<noteq> Some r" for k using inv_loadedD[OF i(1), of k r] Some F by auto
        then show ?thesis
          by (rule sched_inv_close[OF inv]) (simp_all add: tt request_key_def fun_eq_iff)
      qed
    qed
  qed
qed

text \<open>A load.\<close>

definition same_but_load :: "sched \<Rightarrow> sched \<Rightarrow> bool" where
  "same_but_load s t \<longleftrightarrow> sc_runner t = sc_runner s \<and> sc_next t = sc_next s \<and> sc_loaded t = sc_loaded s \<and>
     (\<forall>q. sq_model (sc_request t q) = sq_model (sc_request s q)) \<and> sc_pendingCh t = sc_pendingCh s \<and>
     sc_finishedCh t = sc_finishedCh s \<and> sc_pending t = sc_pending s \<and> sc_expiredCh t = sc_expiredCh s \<and>
     sc_fired t = sc_fired s \<and> sc_retry t = sc_retry s \<and> sc_expiring t = sc_expiring s \<and> sc_unloadedCh t = sc_unloadedCh s"

text \<open>
  Its outcomes: nothing happened to the request's phase; it failed; or a runner was installed for
  it. Only the first asks for an eviction.
\<close>

inductive load_outcome :: "load_world \<Rightarrow> nat \<Rightarrow> sched \<Rightarrow> sched \<times> bool \<Rightarrow> bool" for w q s where
  keep: "same_but_load s t \<Longrightarrow> sc_phase t = sc_phase s \<Longrightarrow> b \<or> sc_panicked t \<Longrightarrow> load_outcome w q s (t, b)"
| fail: "same_but_load s t \<Longrightarrow> sc_phase t = (sc_phase s)(q := Failed) \<Longrightarrow> load_outcome w q s (t, False)"
| made: "same_but_load s t \<Longrightarrow> sc_phase t = sc_phase s \<Longrightarrow>
     rr_open x \<and> rr_Options x \<noteq> None \<and> rr_locked x \<and> rr_refCount x = 0 \<and> rr_pid x = lw_pid w \<and> rr_modelKey x = request_key s q \<Longrightarrow>
     load_outcome w q s (install_runner q x t, False)"

lemma same_but_load_trans: "same_but_load s t \<Longrightarrow> same_but_load t u \<Longrightarrow> same_but_load s u"
  by (auto simp: same_but_load_def)

lemma same_but_load_upd [simp]:
  "same_but_load s s" "same_but_load s (s\<lparr>sc_activeLoading := a\<rparr>)" "same_but_load s (s\<lparr>sc_panicked := b\<rparr>)"
  "same_but_load s (set_phase q p s)" "same_but_load s (set_load q lr s)"
  by (simp_all add: same_but_load_def set_load_def)

lemma start_server_outcome:
  assumes "same_but_load s t" "sc_phase t = sc_phase s"
  shows "load_outcome w q s (start_server w q f gs lo np sd rf t)"
proof (cases "lw_result w")
  case LoadRequiredFull
  show ?thesis
    unfolding start_server_def LoadRequiredFull using assms
    by (auto simp: fail_request_def same_but_load_def intro!: load_outcome.intros)
next
  case (LoadFailed oom)
  show ?thesis
    unfolding start_server_def LoadFailed using assms
    by (auto simp: fail_request_def Let_def set_load_def split: option.splits bool.splits
        simp: same_but_load_def intro: load_outcome.keep load_outcome.fail)
next
  case LoadOk
  let ?req = "settle_context w (sc_request t q)"
  have m: "sq_model ?req = sq_model (sc_request t q)" by (simp add: settle_context_def)
  have "same_but_load s (set_request q ?req t)" using assms(1) by (auto simp: same_but_load_def m)
  moreover have "request_key s q = schedulerModelKey (Some (sq_model ?req))"
    using assms(1) by (simp add: request_key_def m same_but_load_def)
  ultimately show ?thesis
    unfolding start_server_def LoadOk using assms(2)
    by (auto simp: Let_def new_runner_def intro!: load_outcome.made)
qed

lemma load_cases: "load_outcome w q s (load w q gpus rf s)"
proof -
  note st = start_server_outcome[where s = s and w = w and q = q]
  show ?thesis
  proof (cases "sc_activeLoading s")
    case (Some p)
    then show ?thesis unfolding load_def
      by (auto simp: Let_def intro!: st load_outcome.keep)
  next
    case None
    show ?thesis
    proof (cases "IsMLX (sq_model (sc_request s q))")
      case True
      then show ?thesis unfolding load_def using None
        by (auto simp: Let_def fail_request_def intro!: st load_outcome.fail)
    next
      case False
      show ?thesis unfolding load_def using None False
        by (auto simp: Let_def fail_request_def set_load_def same_but_load_def split: option.splits prod.splits load_decision.splits
            intro!: st load_outcome.fail load_outcome.keep)
    qed
  qed
qed
lemma sched_inv_fail:
  assumes inv: "sched_inv n s" and q: "loop_request (sc_pending s) = Some q"
    and t: "same_but_load s t" "sc_phase t = (sc_phase s)(q := Failed)"
  shows "sched_inv n (ploop PIdle t)"
proof -
  have ph: "sc_phase s q = Queued" "q \<notin> set (sc_pendingCh s)" using inv q by (simp_all add: sched_inv_def inv_loop_def)
  have rk: "request_key (ploop PIdle t) = request_key s" using t(1) by (simp add: request_key_def fun_eq_iff same_but_load_def)
  have l: "loaded_at (ploop PIdle t) = loaded_at s" using t(1) by (simp add: loaded_at_def fun_eq_iff same_but_load_def)
  have i: "inv_loaded s" "inv_count n s" "inv_use s" "inv_loop s" using inv by (simp_all add: sched_inv_def)
  have f: "sc_runner t = sc_runner s" "sc_next t = sc_next s" "sc_loaded t = sc_loaded s" "sc_pendingCh t = sc_pendingCh s"
    "sc_finishedCh t = sc_finishedCh s" using t(1) by (simp_all add: same_but_load_def)
  have h: "holders (ploop PIdle t) = holders s" by (rule holders_idle[where q = q and p = Failed]) (use ph t(2) in auto)
  have "inv_loaded (ploop PIdle t)" using i(1) unfolding inv_loaded_def l by (simp add: f)
  moreover have "inv_count n (ploop PIdle t)" using i(2) unfolding inv_count_def h by (simp add: f)
  moreover have "inv_use (ploop PIdle t)" by (rule inv_use_idle[OF i(3), where q = q and p = Failed]) (use ph t(2) rk f in auto)
  moreover have "inv_loop (ploop PIdle t)" using i(4) ph t(2) unfolding inv_loop_def rk l by (auto simp: f)
  ultimately show ?thesis by (simp add: sched_inv_def)
qed

lemma same_core_load: "same_but_load s t \<Longrightarrow> sc_phase t = sc_phase s \<Longrightarrow> same_core s t"
  by (simp add: same_but_load_def same_core_def)

definition after_load :: "nat \<Rightarrow> bool \<Rightarrow> sched \<Rightarrow> bool \<Rightarrow> pending_loop" where
  "after_load q none t evict =
     (if \<not> evict then PIdle
      else if none then PTry q
      else if rq_oomRetryAttempted (sq_load (sc_request t q))
      then (let rs = map snd (filter (\<lambda>(k, r). k \<noteq> request_key t q) (sc_loaded t)) in PEvict q rs (length rs))
      else PChoose q)"

lemma after_load_request: "loop_request (after_load q b t e) = (if e then Some q else None)" "after_load q b t e \<noteq> PLoad q' b'"
  by (simp_all add: after_load_def Let_def)

lemma load_pending_shape:
  obtains s1 t evict where "load_outcome w q s1 (t, evict)" "load_pending w q b s = ploop (after_load q b t evict) t"
    "s1 = s \<or> (\<exists>k. s1 = s\<lparr>sc_maxRunners := k\<rparr>)"
proof -
  define s1 where "s1 = (if sc_maxRunners s = 0 then s\<lparr>sc_maxRunners := defaultModelsPerGPU * max (length (lw_gpus w)) 1\<rparr> else s)"
  define gpus where "gpus = updateFreeSpace (if ro_NumGPU (rq_opts (sq_load (sc_request s q))) = 0 then [] else lw_gpus w)
     (map (\<lambda>(k, r). Some (rr_vram (sc_runner s1 r))) (sc_loaded s1))"
  obtain t evict where r: "load w q gpus (\<not> b) s1 = (t, evict)" by (cases "load w q gpus (\<not> b) s1")
  have lp: "load_pending w q b s = ploop (after_load q b t evict) t"
    unfolding load_pending_def Let_def s1_def[symmetric] gpus_def[symmetric] r by (simp add: after_load_def Let_def)
  have lo: "load_outcome w q s1 (t, evict)" using load_cases[of w q s1 gpus "\<not> b"] by (simp add: r)
  show ?thesis by (rule that[OF lo lp]) (auto simp: s1_def)
qed

lemma inv_load_pending:
  assumes inv: "sched_inv n s" and p: "sc_pending s = PLoad q b"
    and pid: "list_all (\<lambda>r. lw_pid w \<noteq> rr_pid (sc_runner s r)) [0..<sc_next s]"
  shows "sched_inv n (load_pending w q b s)"
proof -
  obtain s1 t evict where lo: "load_outcome w q s1 (t, evict)" and lp: "load_pending w q b s = ploop (after_load q b t evict) t"
    and s1: "s1 = s \<or> (\<exists>k. s1 = s\<lparr>sc_maxRunners := k\<rparr>)" by (rule load_pending_shape)
  have c1: "same_core s s1" "sc_pending s1 = sc_pending s" using s1 by (auto simp: same_core_def)
  have none: "loaded_at s (request_key s q) = None" using inv p by (simp add: sched_inv_def inv_loop_def)
  have i1: "sched_inv n s1" by (rule sched_inv_frame[OF inv c1(1)]) (use c1(2) none p in auto)
  have k1: "request_key s1 = request_key s" "loaded_at s1 = loaded_at s"
    using s1 by (auto simp: request_key_def loaded_at_def fun_eq_iff)
  have kept: ?thesis if "same_core s1 t" "sc_pending t = sc_pending s1"
    unfolding lp by (rule sched_inv_ploop[OF i1 that]) (auto simp: after_load_request c1(2) p)
  show ?thesis using lo
  proof cases
    case keep
    show ?thesis by (rule kept) (use keep in \<open>auto simp: same_core_load same_but_load_def\<close>)
  next
    case fail
    show ?thesis unfolding lp using sched_inv_fail[OF i1 _ fail(2,3)] fail(1) c1(2) p by (simp add: after_load_def)
  next
    case (made t' x)
    have t': "sched_inv n t'" by (rule sched_inv_frame[OF i1 same_core_load[OF made(3,4)]]) (use made(3) c1 p none k1 in \<open>auto simp: same_but_load_def\<close>)
    have k: "request_key t' = request_key s1" "loaded_at t' = loaded_at s1"
      using made(3) by (simp_all add: same_but_load_def request_key_def loaded_at_def fun_eq_iff)
    have "sched_inv n (ploop PIdle (install_runner q x t'))"
      by (rule sched_inv_install[OF t'])
         (use made(3,5) c1 p none k k1 pid s1 in \<open>auto simp: same_but_load_def list_all_iff\<close>)
    then show ?thesis unfolding lp using made(1,2) by (simp add: after_load_def)
  qed
qed

section \<open>References to runners\<close>

fun loop_runners :: "pending_loop \<Rightarrow> nat set" where
  "loop_runners (PFound q r) = {r}"
| "loop_runners (PUse q r) = {r}"
| "loop_runners (PExpire q r) = {r}"
| "loop_runners (PEvict q rs n) = set rs"
| "loop_runners _ = {}"

definition refs_ok :: "sched \<Rightarrow> bool" where
  "refs_ok s \<longleftrightarrow> set (sc_expiredCh s) \<union> set (sc_fired s) \<union> set (sc_retry s) \<union> set (sc_expiring s)
     \<union> loop_runners (sc_pending s) \<subseteq> {..<sc_next s} \<and> (\<forall>r. rr_timer (sc_runner s r) \<longrightarrow> r < sc_next s)"

lemma first_idle_mem: "first_idle s rs = Some (Some r) \<Longrightarrow> r \<in> set rs"
  by (induction rs) (auto split: if_splits)

lemma findRunner_mem: "findRunnerToUnload s = Some (Some r) \<Longrightarrow> r \<in> snd ` set (sc_loaded s)"
proof -
  assume a: "findRunnerToUnload s = Some (Some r)"
  let ?l = "sort_key (\<lambda>r. runner_rank (sc_runner s r)) (map snd (sc_loaded s))"
  have "r \<in> set ?l"
    using a first_idle_mem[of s ?l r] hd_in_set[of ?l] by (auto simp: findRunnerToUnload_def Let_def split: option.splits if_splits)
  then show ?thesis by simp
qed

lemma loaded_lt:
  assumes "inv_loaded s" "r \<in> snd ` set (sc_loaded s)" shows "r < sc_next s"
proof -
  obtain k where "(k, r) \<in> set (sc_loaded s)" using assms(2) by auto
  then have "loaded_at s k = Some r" using assms(1) by (simp add: loaded_at_def inv_loaded_def)
  then show ?thesis using inv_loadedD[OF assms(1)] by blast
qed
section \<open>Every step keeps the invariant\<close>

lemma sched_inv_step:
  assumes inv: "sched_inv n s" and n: "n < 2 ^ 64" and refs: "refs_ok s" and calm: "calm s st"
    and st: "sched_step m s st = Some t"
  shows "sched_inv (Suc n) t"
proof -
  have up: "sched_inv n u \<Longrightarrow> sched_inv (Suc n) u" for u by (erule sched_inv_weaken) simp
  have frame: "sched_inv (Suc n) u" if "same_core s u" "sc_pending u = sc_pending s" for u
    by (rule up[OF sched_inv_frame[OF inv that(1)]]) (use that(2) inv in \<open>auto simp: sched_inv_def inv_loop_def\<close>)
  have move: "sched_inv (Suc n) (ploop p u)"
    if "same_core s u" "sc_pending u = sc_pending s" "loop_request p = None \<or> loop_request p = loop_request (sc_pending s)" "\<And>q b. p \<noteq> PLoad q b" for p u
    by (rule up[OF sched_inv_ploop[OF inv that(1,2,3)]]) (use that(4) in auto)
  have np: "\<not> sc_panicked s" using st by (auto simp: sched_step_def)
  note st = st[unfolded sched_step_unfold if_not_P[OF np]]
  show ?thesis
  proof (cases st)
    case (Get q)
    then show ?thesis using st inv_get_runner[OF inv] by (auto intro: up split: if_splits)
  next
    case (Check q ping)
    then obtain r where r: "sc_phase s q = Looked r" using st by (auto split: phase.splits)
    show ?thesis using st Check r sched_inv_enqueue[OF inv, of q m] sched_inv_idle[OF inv, of q "Checked r"]
      by (auto intro: up split: if_splits)
  next
    case (Use q)
    then obtain r where r: "sc_phase s q = Checked r" using st by (auto split: phase.splits)
    show ?thesis using st Use r calm sched_inv_use[OF inv, of q r] by (auto simp: calm_def split: if_splits)
  next
    case (Cancel q)
    then show ?thesis using st by (auto intro!: frame simp: same_core_def)
  next
    case (Done q)
    then obtain r where r: "sc_phase s q = Holding r" using st by (auto split: phase.splits)
    show ?thesis using st Done r sched_inv_done[OF inv r] by (auto intro: up split: if_splits)
  next
    case Take
    then show ?thesis using st inv_take[OF inv] by (auto intro: up split: if_splits)
  next
    case IgnoreUnload
    then show ?thesis using st by (auto intro!: frame simp: same_core_def split: if_splits)
  next
    case LookupPending
    then obtain q where q: "sc_pending s = PTry q" using st by (auto split: pending_loop.splits)
    show ?thesis using st LookupPending q inv_lookup[OF inv q] by (auto intro: up)
  next
    case (CheckPending ping)
    then obtain q r where q: "sc_pending s = PFound q r" using st by (auto split: pending_loop.splits)
    show ?thesis using st CheckPending q inv_check_pending[OF inv q] by (auto intro: up split: if_splits)
  next
    case UsePending
    then obtain q r where q: "sc_pending s = PUse q r" using st by (auto split: pending_loop.splits)
    show ?thesis using st UsePending q calm sched_inv_use_pending[OF inv q] by (auto simp: calm_def split: if_splits)
  next
    case ChoosePending
    then obtain q where q: "sc_pending s = PChoose q" using st by (auto split: pending_loop.splits)
    show ?thesis using st ChoosePending q inv_choose[OF inv q] by (auto intro: up)
  next
    case (LoadPending w)
    then obtain q b where q: "sc_pending s = PLoad q b" using st by (auto split: pending_loop.splits)
    show ?thesis using st LoadPending q calm inv_load_pending[OF inv q] by (auto simp: calm_def intro: up split: if_splits)
  next
    case ExpirePending
    then obtain q r where q: "sc_pending s = PExpire q r" using st by (auto split: pending_loop.splits)
    show ?thesis using st ExpirePending q by (auto intro!: move simp: expire_now_core split: if_splits)
  next
    case EvictPending
    then obtain q rs k where q: "sc_pending s = PEvict q rs k" using st by (auto split: pending_loop.splits)
    show ?thesis using st EvictPending q by (cases rs) (auto intro!: move simp: expire_now_core split: if_splits)
  next
    case WakePending
    then obtain q where q: "sc_pending s = PWait q" using st by (auto split: pending_loop.splits)
    show ?thesis using st WakePending q by (auto intro!: move simp: same_core_def split: if_splits)
  next
    case DrainPending
    then obtain q k where q: "sc_pending s = PDrain q k" using st by (auto split: pending_loop.splits)
    show ?thesis using st DrainPending q by (auto intro!: move simp: same_core_def split: if_splits)
  next
    case (LoadReady q pid)
    then obtain r where r: "sc_phase s q = Loading r" using st by (auto split: phase.splits)
    show ?thesis using st LoadReady r calm inv_ready[OF inv r, of pid] by (auto simp: calm_def Let_def)
  next
    case (LoadFail q)
    then obtain r where r: "sc_phase s q = Loading r" using st by (auto split: phase.splits)
    show ?thesis using st LoadFail r inv_load_fail[OF inv r] by (auto intro: up split: if_splits)
  next
    case CompleteFinished
    then have c: "completed_finished m s = Some t" using st by (simp split: if_splits)
    then obtain q qs where f: "sc_finishedCh s = q # qs" by (auto simp: completed_finished_def split: list.splits)
    have u: "inv_use s" using inv by (simp add: sched_inv_def)
    have "q \<in> set (sc_finishedCh s)" using f by simp
    then obtain r where "sc_phase s q = Finished r" using u unfolding inv_use_def by blast
    then have r: "loaded_at s (request_key s q) = Some r" using inv_useD[OF u, of q r] by simp
    show ?thesis using c f r sched_inv_finish[OF inv f r, of m]
      by (auto simp: completed_finished_def Let_def intro: up split: if_splits)
  next
    case CompleteExpired
    then have c: "completed_expired s = Some t" using st by (simp split: if_splits)
    show ?thesis by (rule up[OF inv_expired[OF inv n _ c]]) (use refs in \<open>simp add: refs_ok_def\<close>)
  next
    case CompleteSent
    then show ?thesis using st by (auto intro!: frame simp: same_core_def split: if_splits)
  next
    case (TimerFires r)
    then show ?thesis using st by (auto intro!: frame simp: same_core_def split: if_splits)
  next
    case (TimerRuns r)
    then show ?thesis using st by (auto intro!: frame simp: same_core_def runner_core_def split: if_splits)
  next
    case (RetryExpired r)
    then show ?thesis using st by (auto intro!: frame simp: same_core_def split: if_splits)
  next
    case (ExpireModel k)
    then show ?thesis using st by (auto intro!: frame simp: same_core_def split: option.splits)
  next
    case RuntimeOOM
    then show ?thesis using st by (auto intro!: frame simp: same_core_def)
  next
    case (ExpireStep r)
    then show ?thesis using st by (auto intro!: frame simp: expire_now_def Let_def same_core_def runner_core_def split: if_splits)
  qed
qed

lemma in_remove1: "x \<in> set (remove1 y l) \<Longrightarrow> x \<in> set l"
  using set_remove1_subset by fast

lemma refs_ok_load:
  assumes refs: "refs_ok s" and inv: "sched_inv n s" and p: "sc_pending s = PLoad q b"
  shows "refs_ok (load_pending w q b s)"
proof -
  obtain s1 t evict where lo: "load_outcome w q s1 (t, evict)" and lp: "load_pending w q b s = ploop (after_load q b t evict) t"
    and s1: "s1 = s \<or> (\<exists>k. s1 = s\<lparr>sc_maxRunners := k\<rparr>)" by (rule load_pending_shape)
  have none: "loaded_at s (request_key s q) = None" and il: "inv_loaded s" using inv p by (simp_all add: sched_inv_def inv_loop_def)
  have al: "loop_runners (after_load q b t evict) \<subseteq> snd ` set (sc_loaded t)" by (auto simp: after_load_def Let_def)
  have kept: "refs_ok (ploop (after_load q b t evict) t)" if "same_but_load s1 t"
  proof -
    have "sc_loaded t = sc_loaded s" "sc_next t = sc_next s" using that s1 by (auto simp: same_but_load_def)
    then have "snd ` set (sc_loaded t) \<subseteq> {..<sc_next t}" using loaded_lt[OF il] by (metis lessThan_iff subsetI)
    then have "loop_runners (after_load q b t evict) \<subseteq> {..<sc_next t}" using al by (rule order_trans[rotated])
    then show ?thesis using that s1 refs by (auto simp: refs_ok_def same_but_load_def)
  qed
  show ?thesis using lo
  proof cases
    case (made t' x)
    have "loaded_at t' (rr_modelKey x) = None"
      using made(3,5) none s1 by (auto simp: same_but_load_def loaded_at_def request_key_def)
    then have "refs_ok (ploop PIdle (install_runner q x t'))"
      using made(3) refs s1 by (auto simp: refs_ok_def same_but_load_def install_runner_def Let_def less_Suc_eq)
    then show ?thesis unfolding lp using made(1,2) by (simp add: after_load_def)
  qed (use kept in \<open>auto simp: lp\<close>)
qed

lemma refs_ok_step:
  assumes refs: "refs_ok s" and inv: "sched_inv n s" and st: "sched_step m s st = Some t"
  shows "refs_ok t"
proof -
  have np: "\<not> sc_panicked s" using st by (auto simp: sched_step_def)
  have il: "inv_loaded s" "inv_use s" using inv by (simp_all add: sched_inv_def)
  note lt = loaded_lt[OF il(1)]
  have at: "loaded_at s k = Some r \<Longrightarrow> r < sc_next s" for k r using inv_loadedD[OF il(1)] by blast
  have ph: "phase_runner (sc_phase s q) = Some r \<Longrightarrow> r < sc_next s" for q r using at inv_useD[OF il(2)] by blast
  note st = st[unfolded sched_step_unfold if_not_P[OF np]]
  note d = refs_ok_def
  show ?thesis
  proof (cases st)
    case (Get q)
    then show ?thesis using st refs by (auto simp: d get_runner_def enqueue_def Let_def split: if_splits option.splits)
  next
    case (Check q ping)
    then show ?thesis using st refs by (auto simp: d enqueue_def split: if_splits phase.splits)
  next
    case (Use q)
    then show ?thesis using st refs by (auto simp: d useLoadedRunner_def Let_def split: if_splits phase.splits option.splits)
  next
    case Take
    then show ?thesis using st refs by (auto simp: d take_pending_def Let_def split: if_splits list.splits)
  next
    case LookupPending
    then show ?thesis using st refs at by (auto simp: d lookup_pending_def split: pending_loop.splits option.splits if_splits)
  next
    case (CheckPending ping)
    then show ?thesis using st refs by (auto simp: d check_pending_def split: pending_loop.splits if_splits)
  next
    case UsePending
    then show ?thesis using st refs by (auto simp: d useLoadedRunner_def Let_def split: if_splits pending_loop.splits option.splits)
  next
    case ChoosePending
    then show ?thesis using st refs findRunner_mem lt by (auto simp: d choose_pending_def split: pending_loop.splits option.splits)
  next
    case (LoadPending w)
    then obtain q b where q: "sc_pending s = PLoad q b" "load_pending w q b s = t" using st by (auto split: pending_loop.splits if_splits)
    show ?thesis using refs_ok_load[OF refs inv q(1), of w] q(2) by simp
  next
    case ExpirePending
    then show ?thesis using st refs by (auto simp: d expire_now_def Let_def split: pending_loop.splits if_splits)
  next
    case EvictPending
    then show ?thesis using st refs by (auto simp: d expire_now_def Let_def split: pending_loop.splits if_splits list.splits)
  next
    case (LoadReady q pid)
    then show ?thesis using st refs by (auto simp: d Let_def split: phase.splits if_splits)
  next
    case (LoadFail q)
    then obtain r where "sc_phase s q = Loading r" using st by (auto split: phase.splits)
    then show ?thesis using st refs LoadFail ph[of q r] by (auto simp: d split: if_splits)
  next
    case CompleteFinished
    then show ?thesis using st refs at
      by (auto simp: d completed_finished_def finish_runner_def send_expired_def Let_def split: if_splits list.splits option.splits)
  next
    case CompleteExpired
    then show ?thesis using st refs
      by (auto simp: d completed_expired_def remove_loaded_def unload_def Let_def split: if_splits list.splits option.splits)
  next
    case (TimerRuns r)
    then show ?thesis using st refs by (auto simp: d split: if_splits dest!: in_remove1)
  next
    case (RetryExpired r)
    then show ?thesis using st refs by (auto simp: d split: if_splits dest!: in_remove1)
  next
    case (ExpireModel k)
    then show ?thesis using st refs at by (auto simp: d split: option.splits)
  next
    case RuntimeOOM
    have "snd ` set (sc_loaded s) \<subseteq> {..<sc_next s}" using lt by auto
    moreover have "t = s\<lparr>sc_expiring := sc_expiring s @ map snd (sc_loaded s)\<rparr>" using st RuntimeOOM by simp
    ultimately show ?thesis using refs by (simp add: d)
  next
    case (ExpireStep r)
    then show ?thesis using st refs by (auto simp: d expire_now_def Let_def split: if_splits dest!: in_remove1)
  qed (use st refs in \<open>auto simp: d split: if_splits pending_loop.splits phase.splits\<close>)
qed
section \<open>Calm runs keep the invariant\<close>

interpretation sched_machine: guarded_machine "sched_step m" calm "\<lambda>n s. sched_inv n s \<and> refs_ok s" "2 ^ 64"
  by unfold_locales (auto intro: sched_inv_step refs_ok_step)

lemma sched_inv_init: "sched_inv 0 (InitScheduler k reqs)" "refs_ok (InitScheduler k reqs)"
  by (auto simp: sched_inv_def inv_defs InitScheduler_def loaded_at_def holders_def refs_ok_def empty_runner_def)

lemma calm_run_inv:
  assumes "sched_run m (InitScheduler k reqs) sts = Some s" "calm_run m (InitScheduler k reqs) sts" "length sts \<le> 2 ^ 64"
  shows "sched_inv (length sts) s" "refs_ok s"
  using sched_machine.run_keeps[of 0 "InitScheduler k reqs" sts m s] assms sched_inv_init[of k reqs]
  by (simp_all add: sched_run_def calm_run_def)

end
