(* ===== verification/Scheduler.thy ===== *)
theory Scheduler
  imports SchedProofs
begin

text \<open>
  What the scheduler of server/sched.go guarantees, and where it does not: a runner in use stays
  loaded, an idle one is on its way out, the queues are bounded; and three runs in which the
  interleaving of the goroutines breaks what the code means to do.
\<close>

section \<open>Example runs\<close>

definition demo_model :: "string \<Rightarrow> sched_model" where
  "demo_model path = \<lparr>sm_Name = path, sm_ShortName = path, sm_ModelPath = path, sm_Digest = [], sm_Family = ''llama'',
     sm_Families = [''llama''], sm_Format = ''gguf'', sm_Capabilities = [], sm_AdapterPaths = [], sm_ProjectorPaths = []\<rparr>"

definition demo_request :: "string \<Rightarrow> int option \<Rightarrow> sched_request" where
  "demo_request path keep = \<lparr>sq_model = demo_model path, sq_load = demo_req\<lparr>rq_opts := demo_opts\<lparr>ro_NumCtx := 4096, ro_NumGPU := 0\<rparr>\<rparr>, sq_sessionDuration = keep,
     sq_contextShift = False, sq_shift = None, sq_vision = False, sq_completion = True, sq_cancelled = False, sq_schedAttempts = 0\<rparr>"

definition demo_meta :: model_meta where
  "demo_meta = \<lparr>mm_ContextLength = 8192, mm_BlockCount = 0, mm_HeadCountKVMin = 0, mm_HeadCountMax = 0, mm_EmbeddingLength = 0\<rparr>"

definition demo_world :: "int \<Rightarrow> load_world" where
  "demo_world pid = \<lparr>lw_env = \<lparr>le_spread = False, le_flash = (\<lambda>d. d), le_goos = ''linux'', le_loaded = [], le_fileSize = 0\<rparr>,
     lw_sys = \<lparr>si_TotalMemory = 0, si_FreeMemory = 0, si_FreeSwap = 0\<rparr>, lw_gpus = [], lw_meta = Some demo_meta, lw_fileSize = (\<lambda>_. 0), lw_numParallel = 1,
     lw_keepAlive = 300, lw_serverError = False, lw_result = LoadOk, lw_pid = pid, lw_contextLength = 4096,
     lw_vram = (\<lambda>_. 0), lw_totalSize = 0\<rparr>"

text \<open>Requests 0 and 1 for model \<open>a\<close>, request 2 for \<open>a\<close> to be kept for ever, request 3 for \<open>b\<close>.\<close>

definition demo_requests :: "nat \<Rightarrow> sched_request" where
  "demo_requests q = (if q = 3 then demo_request ''b'' None else demo_request ''a'' (if q = 2 then Some (2 ^ 63 - 1) else None))"

definition first_load :: "step list" where
  "first_load = [Get 0, Take, LookupPending, LoadPending (demo_world 7), LoadReady 0 7]"

definition race_run :: "step list" where
  "race_run = first_load @ [Done 0, CompleteFinished, Get 1, Check 1 True, TimerFires 0, TimerRuns 0, CompleteExpired, Use 1]"

lemma race_run_end:
  "map_option (\<lambda>s. (sc_phase s 1, rr_open (sc_runner s 0), sc_loaded s)) (sched_run 4 (InitScheduler 0 demo_requests) race_run)
   = Some (Holding 0, False, [])"
  by code_simp


definition served_run :: "step list" where
  "served_run = first_load @ [Get 1, Check 1 True, Use 1, Done 0, CompleteFinished]"

section \<open>A runner in use stays loaded\<close>

text \<open>
  C18. Reference counts do their work. In every run of at most \<open>2 ^ 64\<close> steps in which a runner is
  still loaded when it is handed out and the processes have different ids, a request that holds a
  runner holds the one loaded for its model; that runner is open; and its reference count is the
  number of requests that hold it or whose end has not been seen yet.
\<close>

theorem runner_in_use_stays_loaded:
  assumes "sched_run maxQueue (InitScheduler k reqs) sts = Some s" "calm_run maxQueue (InitScheduler k reqs) sts"
    and "length sts \<le> 2 ^ 64" and "sc_phase s q = Holding r"
  shows "loaded_at s (request_key s q) = Some r \<and> rr_open (sc_runner s r) \<and> rr_Options (sc_runner s r) \<noteq> None
    \<and> rr_refCount (sc_runner s r) = of_nat (card {q. sc_phase s q = Holding r \<or> sc_phase s q = Finished r})"
proof -
  have i: "inv_loaded s" "inv_count (length sts) s" "inv_use s"
    using calm_run_inv(1)[OF assms(1-3)] by (simp_all add: sched_inv_def)
  have l: "loaded_at s (request_key s q) = Some r" using inv_useD[OF i(3), of q r] assms(4) by simp
  show ?thesis using l inv_loadedD[OF i(1) l] i(2) by (auto simp: inv_count_def holders_def)
qed

lemma served_run_end:
  "map_option (\<lambda>s. (sc_phase s 1, sc_loaded s, rr_refCount (sc_runner s 0))) (sched_run 4 (InitScheduler 0 demo_requests) served_run)
   = Some (Holding 0, [(''a'', 0)], 1)"
  "calm_run 4 (InitScheduler 0 demo_requests) served_run" "length served_run \<le> 2 ^ 64"
  by code_simp+

theorem runner_in_use_stays_loaded_witness:
  "\<exists>s. sched_run 4 (InitScheduler 0 demo_requests) served_run = Some s \<and> sc_phase s 1 = Holding 0 \<and> rr_open (sc_runner s 0)"
proof -
  obtain s where s: "sched_run 4 (InitScheduler 0 demo_requests) served_run = Some s" "sc_phase s 1 = Holding 0"
    using served_run_end(1) by (auto simp: map_option_eq_Some)
  show ?thesis using runner_in_use_stays_loaded[OF s(1) served_run_end(2,3) s(2)] s by blast
qed

text \<open>
  C24. The safeguard of \<open>load\<close> never acts. In such a run, when the loop of pending requests is about
  to load, no runner of that model is loaded, so no loaded runner is ever replaced; loaded runners
  are filed under their own keys, each key once, and all of them are open.
\<close>

theorem load_replaces_no_runner:
  assumes "sched_run maxQueue (InitScheduler k reqs) sts = Some s" "calm_run maxQueue (InitScheduler k reqs) sts"
    and "length sts \<le> 2 ^ 64"
  shows "distinct (map fst (sc_loaded s)) \<and>
    list_all (\<lambda>(key, r). rr_modelKey (sc_runner s r) = key \<and> rr_open (sc_runner s r)) (sc_loaded s) \<and>
    (case sc_pending s of PLoad q _ \<Rightarrow> loaded_at s (request_key s q) = None | _ \<Rightarrow> True)"
proof -
  have i: "inv_loaded s" "inv_loop s" using calm_run_inv(1)[OF assms] by (simp_all add: sched_inv_def)
  have d: "distinct (map fst (sc_loaded s))" using i(1) by (simp add: inv_loaded_def)
  have "rr_modelKey (sc_runner s r) = key \<and> rr_open (sc_runner s r)" if "(key, r) \<in> set (sc_loaded s)" for key r
    using inv_loadedD[OF i(1), of key r] that d by (simp add: loaded_at_def)
  then show ?thesis using d i(2) by (auto simp: list_all_iff inv_loop_def split: pending_loop.splits)
qed

theorem load_replaces_no_runner_witness:
  "\<exists>s. sched_run 4 (InitScheduler 0 demo_requests) served_run = Some s \<and> distinct (map fst (sc_loaded s))"
proof -
  obtain s where s: "sched_run 4 (InitScheduler 0 demo_requests) served_run = Some s"
    using served_run_end(1) by (auto simp: map_option_eq_Some)
  show ?thesis using load_replaces_no_runner[OF s served_run_end(2,3)] s by blast
qed

text \<open>
  Without that condition a closed runner can be handed out. Request 1 finds runner 0 usable;
  before it takes it the keep-alive timer fires and the loop of completed requests unloads it; then
  request 1 is given the closed runner, which is loaded no more.
\<close>

theorem closed_runner_handed_out:
  "\<exists>s. sched_run 4 (InitScheduler 0 demo_requests) race_run = Some s \<and> sc_phase s 1 = Holding 0
    \<and> \<not> rr_open (sc_runner s 0) \<and> sc_loaded s = []"
  using race_run_end by (auto simp: map_option_eq_Some)

section \<open>An idle runner is on its way out\<close>

definition events :: "sched \<Rightarrow> nat set" where
  "events s = set (sc_expiredCh s) \<union> set (sc_retry s) \<union> set (sc_fired s)"

definition idle_ok :: "sched \<Rightarrow> bool" where
  "idle_ok s \<longleftrightarrow> (\<forall>k r. loaded_at s k = Some r \<longrightarrow> rr_refCount (sc_runner s r) = 0 \<longrightarrow> \<not> rr_locked (sc_runner s r) \<longrightarrow>
     rr_timer (sc_runner s r) \<or> r \<in> events s)"

lemma idle_okD: "idle_ok s \<Longrightarrow> loaded_at s k = Some r \<Longrightarrow> rr_refCount (sc_runner s r) = 0 \<Longrightarrow> \<not> rr_locked (sc_runner s r) \<Longrightarrow>
     rr_timer (sc_runner s r) \<or> r \<in> events s"
  unfolding idle_ok_def by blast

text \<open>Steps that disarm no timer, drop no event, and load nothing new.\<close>

lemma idle_ok_frame:
  assumes "idle_ok s" "\<And>k r. loaded_at t k = Some r \<Longrightarrow> loaded_at s k = Some r"
    and "\<And>r. rr_timer (sc_runner s r) \<Longrightarrow> rr_refCount (sc_runner t r) = 0 \<Longrightarrow> rr_timer (sc_runner t r) \<or> r \<in> events t"
    and "\<And>r. rr_refCount (sc_runner t r) = 0 \<Longrightarrow> \<not> rr_locked (sc_runner t r) \<Longrightarrow>
           rr_refCount (sc_runner s r) = 0 \<and> \<not> rr_locked (sc_runner s r) \<or> rr_timer (sc_runner t r) \<or> r \<in> events t"
    and "\<And>k r. r \<in> events s \<Longrightarrow> loaded_at t k = Some r \<Longrightarrow> r \<in> events t"
  shows "idle_ok t"
  unfolding idle_ok_def
proof (intro allI impI)
  fix k r
  assume t: "loaded_at t k = Some r" "rr_refCount (sc_runner t r) = 0" "\<not> rr_locked (sc_runner t r)"
  show "rr_timer (sc_runner t r) \<or> r \<in> events t"
    using assms(4)[OF t(2,3)] idle_okD[OF assms(1) assms(2)[OF t(1)]] assms(3)[OF _ t(2)] assms(5)[OF _ t(1)] by blast
qed

lemma events_expire_now: "events (expire_now r s) = (if rr_refCount (sc_runner s r) = 0 then insert r (events s) else events s)"
  by (auto simp: events_def expire_now_def Let_def)

lemma idle_ok_expire_now:
  assumes "idle_ok s" shows "idle_ok (expire_now r s)"
  by (rule idle_ok_frame[OF assms]) (auto simp: expire_now_def events_def Let_def split: if_splits)

lemma idle_ok_same:
  assumes "idle_ok s" "sc_runner t = sc_runner s" "sc_loaded t = sc_loaded s" "events s \<subseteq> events t"
  shows "idle_ok t"
  by (rule idle_ok_frame[OF assms(1)]) (use assms in \<open>auto simp: loaded_at_def\<close>)

text \<open>A request that takes a runner makes its count positive: the count invariant after the step says so.\<close>

lemma counted_positive:
  assumes "sched_inv n t" "n < 2 ^ 64" "sc_phase t q = Holding r"
  shows "rr_refCount (sc_runner t r) \<noteq> 0"
proof -
  have i: "inv_loaded t" "inv_use t" using assms(1) by (simp_all add: sched_inv_def)
  have "loaded_at t (request_key t q) = Some r" using inv_useD[OF i(2), of q r] assms(3) by simp
  then have "r < sc_next t" using inv_loadedD[OF i(1)] by blast
  then show ?thesis using no_holders[OF assms(1,2)] assms(3) by (auto simp: holders_def)
qed

lemma idle_ok_gain:
  assumes "idle_ok s" "sched_inv n t" "n < 2 ^ 64" "sc_phase t q = Holding r"
    and "sc_runner t = (sc_runner s)(r := x)" "sc_loaded t = sc_loaded s" "events t = events s"
  shows "idle_ok t"
  unfolding idle_ok_def
proof (intro allI impI)
  fix k r'
  assume t: "loaded_at t k = Some r'" "rr_refCount (sc_runner t r') = 0" "\<not> rr_locked (sc_runner t r')"
  have "r' \<noteq> r" using t(2) counted_positive[OF assms(2-4)] by auto
  then show "rr_timer (sc_runner t r') \<or> r' \<in> events t"
    using t idle_okD[OF assms(1), of k r'] assms(5-7) by (simp add: loaded_at_def)
qed

lemma events_use [simp]: "events (useLoadedRunner q r s) = events s" "events (ploop p s) = events s"
  "events (set_phase q ph s) = events s" "events (set_runner r x s) = events s" "events (set_request q y s) = events s"
  by (auto simp: events_def useLoadedRunner_def Let_def split: option.splits)

lemma idle_ok_load:
  assumes idle: "idle_ok s" and inv: "sched_inv n s" and p: "sc_pending s = PLoad q b"
  shows "idle_ok (load_pending w q b s)"
proof -
  obtain s1 t evict where lo: "load_outcome w q s1 (t, evict)" and lp: "load_pending w q b s = ploop (after_load q b t evict) t"
    and s1: "s1 = s \<or> (\<exists>k. s1 = s\<lparr>sc_maxRunners := k\<rparr>)" by (rule load_pending_shape)
  have none: "loaded_at s (request_key s q) = None" using inv p by (simp add: sched_inv_def inv_loop_def)
  have il: "inv_loaded s" using inv by (simp add: sched_inv_def)
  have kept: "idle_ok (ploop l t)" if "same_but_load s1 t" for l
    by (rule idle_ok_same[OF idle]) (use that s1 in \<open>auto simp: same_but_load_def events_def\<close>)
  show ?thesis using lo
  proof cases
    case (made t' x)
    have n: "loaded_at t' (rr_modelKey x) = None"
      using made(3,5) none s1 by (auto simp: same_but_load_def loaded_at_def request_key_def)
    note core = install_core[OF n, of q]
    have sm: "sc_runner t' = sc_runner s" "sc_loaded t' = sc_loaded s" "sc_next t' = sc_next s" "events t' = events s"
      using made(3) s1 by (auto simp: same_but_load_def events_def)
    have ev: "events (ploop l (install_runner q x t')) = events s" for l
      using sm by (simp add: events_def install_runner_def n Let_def)
    have "idle_ok (ploop l (install_runner q x t'))" for l
      unfolding idle_ok_def
    proof (intro allI impI)
      fix k r
      let ?t = "ploop l (install_runner q x t')"
      assume t: "loaded_at ?t k = Some r" "rr_refCount (sc_runner ?t r) = 0" "\<not> rr_locked (sc_runner ?t r)"
      have r: "r \<noteq> sc_next s" using t(3) made(5) sm by (auto simp: core)
      have "loaded_at s k = Some r" using t(1) r sm by (auto simp: loaded_at_def core AList.update_conv' split: if_splits)
      then show "rr_timer (sc_runner ?t r) \<or> r \<in> events ?t"
        using idle_okD[OF idle, of k r] t r sm ev by (simp add: core)
    qed
    then show ?thesis unfolding lp using made(1,2) by simp
  qed (auto simp: lp kept)
qed

lemma idle_ok_expired:
  assumes idle: "idle_ok s" and inv: "inv_loaded s" and st: "completed_expired s = Some t"
  shows "idle_ok t"
proof -
  obtain r rs where ch: "sc_expiredCh s = r # rs" using st by (auto simp: completed_expired_def split: list.splits)
  let ?x = "sc_runner s r" and ?u = "s\<lparr>sc_expiredCh := rs\<rparr>"
  have nl: "\<not> rr_locked ?x" using st ch by (auto simp: completed_expired_def Let_def)
  have ev: "r' \<in> set rs \<union> set (sc_retry s) \<union> set (sc_fired s)" if "r' \<in> events s" "r' \<noteq> r" for r'
    using that ch by (auto simp: events_def)
  have own: "k = rr_modelKey ?x" if "loaded_at s k = Some r" for k using inv_loadedD[OF inv that] by simp
  show ?thesis
  proof (cases "rr_refCount ?x \<noteq> 0")
    case True
    then have "t = ?u\<lparr>sc_retry := sc_retry s @ [r]\<rparr>" using st ch nl by (simp add: completed_expired_def Let_def)
    then show ?thesis by (intro idle_ok_same[OF idle]) (auto simp: events_def ch)
  next
    case False
    show ?thesis
    proof (cases "loaded_at s (rr_modelKey ?x)")
      case None
      then have t: "t = ?u" using st ch nl False by (simp add: completed_expired_def Let_def)
      show ?thesis
        by (rule idle_ok_frame[OF idle]) (use t ev own None in \<open>force simp: loaded_at_def events_def\<close>)+
    next
      case (Some r')
      then have t: "t = set_runner r (unload ?x) ?u \<and> r' \<noteq> r \<or>
          t = remove_loaded (rr_modelKey ?x) (set_runner r (unload ?x) ?u)\<lparr>sc_completed := CSend\<rparr>"
        using st ch nl False
        by (cases "rr_pid ?x = rr_pid (sc_runner s r')") (auto simp: completed_expired_def Let_def)
      have l: "loaded_at s k = Some a \<and> a \<noteq> r" if "loaded_at t k = Some a" for k a
        using t that own[of k] Some by (auto simp: loaded_at_def remove_loaded_def AList.delete_conv' split: if_splits)
      have rt: "sc_runner t a = sc_runner s a" if "a \<noteq> r" for a using t that by (auto simp: remove_loaded_def)
      have et: "a \<in> events t" if "a \<in> events s" "a \<noteq> r" for a
        using ev[OF that] t by (auto simp: events_def remove_loaded_def)
      show ?thesis
        unfolding idle_ok_def
      proof (intro allI impI)
        fix k a
        assume a: "loaded_at t k = Some a" "rr_refCount (sc_runner t a) = 0" "\<not> rr_locked (sc_runner t a)"
        then show "rr_timer (sc_runner t a) \<or> a \<in> events t"
          using l[OF a(1)] rt[of a] et[of a] idle_okD[OF idle, of k a] by auto
      qed
    qed
  qed
qed

lemma idle_ok_finish:
  assumes idle: "idle_ok s" and st: "completed_finished m s = Some t"
  shows "idle_ok t"
proof -
  obtain q qs where f: "sc_finishedCh s = q # qs" using st by (auto simp: completed_finished_def split: list.splits)
  let ?u = "set_phase q Over (s\<lparr>sc_finishedCh := qs\<rparr>)"
  have u: "idle_ok ?u" by (rule idle_ok_same[OF idle]) (auto simp: events_def)
  have "idle_ok (finish_runner m r ?u)" for r
    unfolding idle_ok_def
  proof (intro allI impI)
    fix k a
    let ?t = "finish_runner m r ?u"
    assume a: "loaded_at ?t k = Some a" "rr_refCount (sc_runner ?t a) = 0" "\<not> rr_locked (sc_runner ?t a)"
    show "rr_timer (sc_runner ?t a) \<or> a \<in> events ?t"
    proof (cases "a = r")
      case True
      then show ?thesis using a by (auto simp: finish_runner_def send_expired_def Let_def events_def split: if_splits)
    next
      case False
      then have "loaded_at s k = Some a" "sc_runner ?t a = sc_runner s a" "events s \<subseteq> events ?t"
        using a(1) by (auto simp: finish_runner_def send_expired_def Let_def loaded_at_def events_def split: if_splits)
      then show ?thesis using idle_okD[OF idle, of k a] a by auto
    qed
  qed
  then show ?thesis using st u by (auto simp: completed_finished_def f Let_def split: option.splits if_splits)
qed

lemma idle_ok_step:
  assumes idle: "idle_ok s" and inv: "sched_inv n s" and inv': "sched_inv (Suc n) t" and n: "Suc n < 2 ^ 64"
    and st: "sched_step m s st = Some t"
  shows "idle_ok t"
proof -
  have np: "\<not> sc_panicked s" using st by (auto simp: sched_step_def)
  have il: "inv_loaded s" using inv by (simp add: sched_inv_def)
  note step = st[unfolded sched_step_unfold if_not_P[OF np]]
  note same = idle_ok_same[OF idle]
  show ?thesis
  proof (cases st)
    case (Get q)
    then show ?thesis using step
      by (auto simp: get_runner_def enqueue_def Let_def events_def split: if_splits option.splits intro!: same)
  next
    case (Check q ping)
    then show ?thesis using step by (auto simp: enqueue_def events_def split: if_splits phase.splits intro!: same)
  next
    case (Use q)
    then obtain r where t: "t = useLoadedRunner q r s" using step by (auto split: phase.splits if_splits)
    show ?thesis by (rule idle_ok_gain[OF idle inv' n, of q r]) (use t use_core in \<open>auto intro: use_core(1)\<close>)
  next
    case Take
    then show ?thesis using step by (auto simp: take_pending_def Let_def events_def split: if_splits list.splits intro!: same)
  next
    case LookupPending
    then show ?thesis using step by (auto simp: lookup_pending_def events_def split: pending_loop.splits option.splits if_splits intro!: same)
  next
    case (CheckPending ping)
    then show ?thesis using step by (auto simp: check_pending_def events_def split: pending_loop.splits if_splits intro!: same)
  next
    case UsePending
    then obtain q r where t: "t = ploop PIdle (useLoadedRunner q r s)" using step by (auto split: pending_loop.splits if_splits)
    show ?thesis by (rule idle_ok_gain[OF idle inv' n, of q r]) (use t use_core in \<open>auto intro: use_core(1)\<close>)
  next
    case ChoosePending
    then show ?thesis using step by (auto simp: choose_pending_def events_def split: pending_loop.splits option.splits intro!: same)
  next
    case (LoadPending w)
    then obtain q b where q: "sc_pending s = PLoad q b" "load_pending w q b s = t" using step by (auto split: pending_loop.splits if_splits)
    show ?thesis using idle_ok_load[OF idle inv q(1), of w] q(2) by simp
  next
    case ExpirePending
    then obtain q r where t: "t = ploop (PWait q) (expire_now r s)" using step by (auto split: pending_loop.splits if_splits)
    show ?thesis unfolding t by (rule idle_ok_same[OF idle_ok_expire_now[OF idle, of r]]) simp_all
  next
    case EvictPending
    then obtain p r where t: "t = ploop p (expire_now r s) \<or> t = ploop p s"
      using step by (auto split: pending_loop.splits if_splits list.splits)
    show ?thesis using t idle_ok_same[OF idle_ok_expire_now[OF idle, of r], of "ploop p (expire_now r s)"] same[of "ploop p s"] by auto
  next
    case (LoadReady q pid)
    then obtain r x where t: "t = set_phase q (Holding r) (set_runner r x s)" using step by (auto simp: Let_def split: phase.splits)
    show ?thesis by (rule idle_ok_gain[OF idle inv' n, of q r]) (simp_all add: t)
  next
    case (LoadFail q)
    then show ?thesis using step
      by (auto split: phase.splits if_splits intro!: idle_ok_frame[OF idle] simp: loaded_at_def events_def)
  next
    case CompleteFinished
    then show ?thesis using step idle_ok_finish[OF idle] by (auto split: if_splits)
  next
    case CompleteExpired
    then show ?thesis using step idle_ok_expired[OF idle il] by (auto split: if_splits)
  next
    case (TimerRuns r)
    then show ?thesis using step
      by (auto split: if_splits intro!: idle_ok_frame[OF idle] simp: loaded_at_def events_def)
  next
    case (RetryExpired r)
    then show ?thesis using step by (auto split: if_splits intro!: same simp: events_def)
  next
    case (ExpireModel k)
    then show ?thesis using step by (auto split: option.splits intro!: same simp: events_def)
  next
    case (ExpireStep r)
    then obtain rs where t: "t = expire_now r (s\<lparr>sc_expiring := rs\<rparr>)" using step by (auto split: if_splits)
    have "idle_ok (s\<lparr>sc_expiring := rs\<rparr>)" by (rule same) (simp_all add: events_def)
    then show ?thesis unfolding t by (rule idle_ok_expire_now)
  qed (use step in \<open>auto split: if_splits pending_loop.splits phase.splits intro!: same simp: events_def\<close>)
qed

interpretation idle_machine: guarded_machine "sched_step m" calm "\<lambda>n s. sched_inv n s \<and> refs_ok s \<and> idle_ok s" "2 ^ 64 - 1"
proof
  fix n s st t
  assume a: "sched_inv n s \<and> refs_ok s \<and> idle_ok s" "n < 2 ^ 64 - 1" "calm s st" "sched_step m s st = Some t"
  have i: "sched_inv (Suc n) t" by (rule sched_inv_step[of n s st m t]) (use a in auto)
  then show "sched_inv (Suc n) t \<and> refs_ok t \<and> idle_ok t"
    using refs_ok_step[of s n m st t] idle_ok_step[of s n t m st] a by simp
qed

text \<open>
  C23. No idle runner is forgotten. In a calm run a loaded runner that no request holds, and whose lock
  is free, has its unloading under way: its keep-alive timer is armed, or an event that will unload
  it is on the channel, waiting to be sent again, or about to be sent by its timer.
\<close>

theorem idle_runner_on_its_way_out:
  assumes "sched_run maxQueue (InitScheduler k reqs) sts = Some s" "calm_run maxQueue (InitScheduler k reqs) sts"
    and "length sts < 2 ^ 64" and "loaded_at s key = Some r" "\<not> rr_locked (sc_runner s r)"
    and "rr_refCount (sc_runner s r) = 0"
  shows "rr_timer (sc_runner s r) \<or> r \<in> set (sc_expiredCh s) \<union> set (sc_retry s) \<union> set (sc_fired s)"
proof -
  have i: "idle_ok (InitScheduler k reqs)" by (simp add: idle_ok_def InitScheduler_def loaded_at_def)
  have "idle_ok s"
    using idle_machine.run_keeps[of 0 "InitScheduler k reqs" sts maxQueue s] assms(1-3) sched_inv_init[of k reqs] i
    by (simp add: sched_run_def calm_run_def)
  then show ?thesis using idle_okD[of s key r] assms(4-6) by (simp add: events_def)
qed

theorem idle_runner_on_its_way_out_witness:
  "\<exists>s. sched_run 4 (InitScheduler 0 demo_requests) (first_load @ [Done 0, CompleteFinished]) = Some s \<and>
     (rr_timer (sc_runner s 0) \<or> 0 \<in> set (sc_expiredCh s) \<union> set (sc_retry s) \<union> set (sc_fired s))"
proof -
  have e: "map_option (\<lambda>s. (loaded_at s ''a'', rr_locked (sc_runner s 0), rr_refCount (sc_runner s 0)))
      (sched_run 4 (InitScheduler 0 demo_requests) (first_load @ [Done 0, CompleteFinished])) = Some (Some 0, False, 0)"
    and c: "calm_run 4 (InitScheduler 0 demo_requests) (first_load @ [Done 0, CompleteFinished])"
    and l: "length (first_load @ [Done 0, CompleteFinished]) < 2 ^ 64"
    by code_simp+
  obtain s where s: "sched_run 4 (InitScheduler 0 demo_requests) (first_load @ [Done 0, CompleteFinished]) = Some s"
    "loaded_at s ''a'' = Some 0" "\<not> rr_locked (sc_runner s 0)" "rr_refCount (sc_runner s 0) = 0"
    using e by (auto simp: map_option_eq_Some)
  show ?thesis using idle_runner_on_its_way_out[OF s(1) c l s(2-4)] s(1) by blast
qed

section \<open>Which runner makes room\<close>

lemma sort_key_hd_least: "x \<in> set xs \<Longrightarrow> f (hd (sort_key f xs)) \<le> f x"
proof -
  assume x: "x \<in> set xs"
  have "x \<in> set (sort_key f xs)" using x by simp
  moreover from this have "sort_key f xs \<noteq> []" by (metis empty_iff list.set(1))
  moreover have "sorted (map f (sort_key f xs))" by simp
  ultimately show ?thesis by (cases "sort_key f xs") auto
qed

lemma first_idle_least:
  "first_idle s rs = Some (Some r) \<Longrightarrow> sorted (map f rs) \<Longrightarrow>
   r \<in> set rs \<and> rr_refCount (sc_runner s r) = 0 \<and>
   (\<forall>r' \<in> set rs. rr_refCount (sc_runner s r') = 0 \<longrightarrow> f r \<le> f r')"
  by (induction rs) (auto split: if_splits)

lemma first_idle_none:
  "first_idle s rs = Some None \<Longrightarrow> r \<in> set rs \<Longrightarrow> rr_refCount (sc_runner s r) \<noteq> 0"
  by (induction rs) (auto split: if_splits)

text \<open>
  The runner chosen to make room. The choice waits for the lock of a runner that is loading;
  otherwise it finds none exactly when none is loaded; it takes an idle runner whenever one is loaded,
  and among the idle ones, or among all when none is idle, the one of the smallest rank (session
  duration read as unsigned, then name).
\<close>

theorem findRunnerToUnload_least:
  "case findRunnerToUnload s of
     None \<Rightarrow> list_ex (\<lambda>(k, r). rr_locked (sc_runner s r)) (sc_loaded s)
   | Some None \<Rightarrow> sc_loaded s = []
   | Some (Some r) \<Rightarrow> r \<in> snd ` set (sc_loaded s) \<and>
       (\<forall>r' \<in> snd ` set (sc_loaded s).
          (rr_refCount (sc_runner s r') = 0 \<longrightarrow> rr_refCount (sc_runner s r) = 0 \<and> runner_rank (sc_runner s r) \<le> runner_rank (sc_runner s r')) \<and>
          (rr_refCount (sc_runner s r) \<noteq> 0 \<longrightarrow> runner_rank (sc_runner s r) \<le> runner_rank (sc_runner s r')))"
proof -
  let ?f = "\<lambda>r. runner_rank (sc_runner s r)"
  let ?l = "sort_key ?f (map snd (sc_loaded s))"
  have st: "set ?l = snd ` set (sc_loaded s)" and so: "sorted (map ?f ?l)" by simp_all
  have locked: "first_idle s rs = None \<Longrightarrow> \<exists>r \<in> set rs. rr_locked (sc_runner s r)" for rs
    by (induction rs) (auto split: if_splits)
  show ?thesis
  proof (cases "sc_loaded s = []")
    case True
    then show ?thesis by (simp add: findRunnerToUnload_def Let_def)
  next
    case False
    then have ne: "?l \<noteq> []" by (metis map_is_Nil_conv set_empty set_sort)
    show ?thesis
    proof (cases "first_idle s ?l")
      case None
      then have "\<exists>r \<in> snd ` set (sc_loaded s). rr_locked (sc_runner s r)" using locked[OF None] unfolding st by blast
      then show ?thesis using None ne by (auto simp: findRunnerToUnload_def Let_def list_ex_iff)
    next
      case (Some o')
      show ?thesis
      proof (cases o')
        case None
        then have busy: "\<And>r. r \<in> snd ` set (sc_loaded s) \<Longrightarrow> rr_refCount (sc_runner s r) \<noteq> 0"
          using first_idle_none[of s ?l] Some st by blast
        have m: "hd ?l \<in> snd ` set (sc_loaded s)" using hd_in_set[OF ne] st by blast
        have "?f (hd ?l) \<le> ?f r'" if "r' \<in> snd ` set (sc_loaded s)" for r'
          using sort_key_hd_least[of r' "map snd (sc_loaded s)" ?f] that by simp
        then show ?thesis using Some None ne m busy by (simp add: findRunnerToUnload_def Let_def)
      next
        case S: (Some r)
        have "r \<in> set ?l \<and> rr_refCount (sc_runner s r) = 0 \<and> (\<forall>r' \<in> set ?l. rr_refCount (sc_runner s r') = 0 \<longrightarrow> ?f r \<le> ?f r')"
          by (rule first_idle_least[where f = ?f]) (use Some S so in simp_all)
        then show ?thesis using Some S ne unfolding st by (simp add: findRunnerToUnload_def Let_def)
      qed
    qed
  qed
qed

definition demo_pair :: sched where
  "demo_pair = (InitScheduler 0 demo_requests)\<lparr>sc_loaded := [(''a'', 0), (''b'', 1)], sc_next := 2,
     sc_runner := (\<lambda>r. if r = 0 then empty_runner\<lparr>rr_refCount := 2, rr_sessionDuration := 5\<rparr> else empty_runner\<lparr>rr_sessionDuration := 9\<rparr>)\<rparr>"

theorem findRunnerToUnload_least_witness:
  "findRunnerToUnload demo_pair = Some (Some 1) \<and> 1 \<in> snd ` set (sc_loaded demo_pair)"
proof -
  have c: "findRunnerToUnload demo_pair = Some (Some 1)" by code_simp
  show ?thesis using findRunnerToUnload_least[of demo_pair] unfolding c by simp
qed

section \<open>Bounds of the channels\<close>

definition channels_ok :: "nat \<Rightarrow> sched \<Rightarrow> bool" where
  "channels_ok m s \<longleftrightarrow> length (sc_pendingCh s) \<le> m \<and> length (sc_finishedCh s) \<le> m \<and> length (sc_expiredCh s) \<le> m \<and> sc_unloadedCh s \<le> m"

lemma channels_load:
  assumes ok: "channels_ok m s" shows "channels_ok m (load_pending w q b s)"
proof -
  obtain s1 t evict where lo: "load_outcome w q s1 (t, evict)" and lp: "load_pending w q b s = ploop (after_load q b t evict) t"
    and s1: "s1 = s \<or> (\<exists>k. s1 = s\<lparr>sc_maxRunners := k\<rparr>)" by (rule load_pending_shape)
  show ?thesis using lo
    by cases (use ok s1 in \<open>auto simp: lp channels_ok_def same_but_load_def install_runner_def Let_def split: option.splits\<close>)
qed

lemma channels_step:
  assumes ok: "channels_ok m s" and st: "sched_step m s st = Some t"
  shows "channels_ok m t"
proof -
  have np: "\<not> sc_panicked s" using st by (auto simp: sched_step_def)
  note step = st[unfolded sched_step_unfold if_not_P[OF np]]
  have ex: "channels_ok m (expire_now r u)" if "channels_ok m u" "can_expire m r u" for r u
    using that by (auto simp: channels_ok_def can_expire_def expire_now_def Let_def)
  have pl: "channels_ok m (ploop p u) = channels_ok m u" for p u by (simp add: channels_ok_def)
  have us: "channels_ok m (useLoadedRunner q r u) = channels_ok m u" for q r u
    by (simp add: channels_ok_def useLoadedRunner_def Let_def split: option.splits)
  show ?thesis
  proof (cases st)
    case (LoadPending w)
    then obtain q b where "load_pending w q b s = t" using step by (auto split: pending_loop.splits if_splits)
    then show ?thesis using channels_load[OF ok, of w q b] by simp
  next
    case ExpirePending
    then show ?thesis using step ok by (auto simp: pl intro!: ex split: pending_loop.splits if_splits)
  next
    case EvictPending
    then show ?thesis using step ok by (auto simp: pl intro!: ex split: pending_loop.splits if_splits list.splits)
  next
    case (ExpireStep r)
    then show ?thesis using step ok
      by (auto intro!: ex simp: can_expire_def split: if_splits) (auto simp: channels_ok_def)
  next
    case CompleteFinished
    then show ?thesis using step ok
      by (auto simp: completed_finished_def finish_runner_def send_expired_def Let_def channels_ok_def
          split: if_splits list.splits option.splits)
  next
    case CompleteExpired
    then show ?thesis using step ok
      by (auto simp: completed_expired_def remove_loaded_def Let_def channels_ok_def split: if_splits list.splits option.splits)
  next
    case (Get q)
    then show ?thesis using step ok
      by (auto simp: get_runner_def enqueue_def Let_def channels_ok_def split: if_splits option.splits)
  next
    case (Check q p)
    then show ?thesis using step ok by (auto simp: enqueue_def channels_ok_def split: if_splits phase.splits)
  next
    case (Use q)
    then show ?thesis using step ok by (auto simp: us split: if_splits phase.splits)
  next
    case UsePending
    then show ?thesis using step ok by (auto simp: us pl split: if_splits pending_loop.splits)
  next
    case Take
    then show ?thesis using step ok by (auto simp: take_pending_def Let_def channels_ok_def split: if_splits list.splits)
  next
    case LookupPending
    then show ?thesis using step ok by (auto simp: lookup_pending_def pl split: pending_loop.splits option.splits if_splits)
  next
    case (CheckPending p)
    then show ?thesis using step ok by (auto simp: check_pending_def pl split: pending_loop.splits if_splits)
  next
    case ChoosePending
    then show ?thesis using step ok by (auto simp: choose_pending_def pl split: pending_loop.splits option.splits)
  qed (use step ok in \<open>auto simp: channels_ok_def Let_def split: if_splits pending_loop.splits phase.splits option.splits\<close>)
qed

interpretation channel_machine: guarded_machine "sched_step m" "\<lambda>_ _. True" "\<lambda>_. channels_ok m" n
  by unfold_locales (auto intro: channels_step)

lemma ok_run_True: "ok_run step (\<lambda>_ _. True) s as"
  by (induction as arbitrary: s) (auto split: option.splits)

text \<open>
  The channels are bounded in every run: no channel ever holds more than \<open>maxQueue\<close> entries, and a
  new request for a model that is not loaded is refused exactly when the queue of pending requests
  is full.
\<close>

theorem channels_bounded:
  assumes "sched_run maxQueue (InitScheduler k reqs) sts = Some s"
  shows "length (sc_pendingCh s) \<le> maxQueue \<and> length (sc_finishedCh s) \<le> maxQueue \<and> length (sc_expiredCh s) \<le> maxQueue
    \<and> sc_unloadedCh s \<le> maxQueue
    \<and> (loaded_at s (request_key s q) = None \<longrightarrow>
        sc_phase (get_runner maxQueue q s) q = (if length (sc_pendingCh s) = maxQueue then Failed else Queued))"
proof -
  have "channels_ok maxQueue (InitScheduler k reqs)" by (simp add: channels_ok_def InitScheduler_def)
  then have ok: "channels_ok maxQueue s"
    using channel_machine.run_keeps[of maxQueue "InitScheduler k reqs" 0 sts "length sts" s] assms
    by (simp add: sched_run_def ok_run_True)
  have "request_key (set_request q (prepare_request (sc_request s q)) s) q = request_key s q"
    by (simp add: request_key_def)
  then show ?thesis using ok by (auto simp: channels_ok_def get_runner_def enqueue_def Let_def)
qed

theorem channels_bounded_witness:
  "\<exists>s. sched_run 4 (InitScheduler 0 demo_requests) served_run = Some s \<and> length (sc_pendingCh s) \<le> 4"
proof -
  obtain s where s: "sched_run 4 (InitScheduler 0 demo_requests) served_run = Some s"
    using served_run_end(1) by (auto simp: map_option_eq_Some)
  show ?thesis using channels_bounded[OF s] s by blast
qed

section \<open>Two more runs that go wrong\<close>

lemma completed_install: "sc_completed (install_runner q x s) = sc_completed s"
  by (simp add: install_runner_def Let_def split: option.splits)

lemma completed_start: "sc_completed (fst (start_server w q f gs lo np sd rf s)) = sc_completed s"
  by (auto simp: start_server_def fail_request_def set_load_def completed_install Let_def split: load_result.splits option.splits bool.splits)

lemma completed_load: "sc_completed (fst (load w q gs rf s)) = sc_completed s"
  by (auto simp: load_def fail_request_def set_load_def completed_start Let_def split: option.splits prod.splits load_decision.splits)

lemma completed_load_pending: "sc_completed (load_pending w q b s) = sc_completed s"
proof -
  define s1 where "s1 = (if sc_maxRunners s = 0 then s\<lparr>sc_maxRunners := defaultModelsPerGPU * max (length (lw_gpus w)) 1\<rparr> else s)"
  define gpus where "gpus = updateFreeSpace (if ro_NumGPU (rq_opts (sq_load (sc_request s q))) = 0 then [] else lw_gpus w)
     (map (\<lambda>(k, r). Some (rr_vram (sc_runner s1 r))) (sc_loaded s1))"
  obtain t evict where r: "load w q gpus (\<not> b) s1 = (t, evict)" by (cases "load w q gpus (\<not> b) s1")
  have "sc_completed t = sc_completed s" using completed_load[of w q gpus "\<not> b" s1] r by (simp add: s1_def)
  then show ?thesis unfolding load_pending_def Let_def s1_def[symmetric] gpus_def[symmetric] r by simp
qed

lemma completed_stuck_step:
  assumes "sc_completed s = CStuck" "sched_step m s st = Some t"
  shows "sc_completed t = CStuck \<and> prefix (sc_finishedCh s) (sc_finishedCh t)"
proof -
  have np: "\<not> sc_panicked s" using assms(2) by (auto simp: sched_step_def)
  note step = assms(2)[unfolded sched_step_unfold if_not_P[OF np]]
  have ex: "sc_completed (expire_now r u) = sc_completed u" "sc_finishedCh (expire_now r u) = sc_finishedCh u" for r u
    by (auto simp: expire_now_def Let_def)
  have us: "sc_completed (useLoadedRunner q r u) = sc_completed u" for q r u
    by (simp add: useLoadedRunner_def Let_def split: option.splits)
  show ?thesis
  proof (cases st)
    case (LoadPending w)
    then obtain q b where t: "t = load_pending w q b s" using step by (auto split: pending_loop.splits if_splits)
    obtain s1 u evict where lo: "load_outcome w q s1 (u, evict)" and lp: "load_pending w q b s = ploop (after_load q b u evict) u"
      and s1: "s1 = s \<or> (\<exists>k. s1 = s\<lparr>sc_maxRunners := k\<rparr>)" by (rule load_pending_shape)
    have "sc_finishedCh u = sc_finishedCh s" using lo
      by cases (use s1 in \<open>auto simp: same_but_load_def install_runner_def Let_def split: option.splits\<close>)
    then show ?thesis using t lp completed_load_pending[of w q b s] assms(1) by simp
  next
    case (Get q)
    then show ?thesis using step assms(1) by (auto simp: get_runner_def enqueue_def Let_def split: if_splits option.splits)
  next
    case (Check q p)
    then show ?thesis using step assms(1) by (auto simp: enqueue_def split: if_splits phase.splits)
  next
    case (Use q)
    then show ?thesis using step assms(1) by (auto simp: us use_core(13) split: if_splits phase.splits)
  next
    case UsePending
    then show ?thesis using step assms(1) by (auto simp: us use_core(13) split: if_splits pending_loop.splits)
  next
    case Take
    then show ?thesis using step assms(1) by (auto simp: take_pending_def Let_def split: if_splits list.splits)
  next
    case LookupPending
    then show ?thesis using step assms(1) by (auto simp: lookup_pending_def split: pending_loop.splits option.splits if_splits)
  next
    case (CheckPending p)
    then show ?thesis using step assms(1) by (auto simp: check_pending_def split: pending_loop.splits if_splits)
  next
    case ChoosePending
    then show ?thesis using step assms(1) by (auto simp: choose_pending_def split: pending_loop.splits option.splits)
  next
    case ExpirePending
    then show ?thesis using step assms(1) by (auto simp: ex split: pending_loop.splits if_splits)
  next
    case EvictPending
    then show ?thesis using step assms(1) by (auto simp: ex split: pending_loop.splits if_splits list.splits)
  next
    case (ExpireStep r)
    then show ?thesis using step assms(1) by (auto simp: ex split: if_splits)
  next
    case (LoadReady q pid)
    then show ?thesis using step assms(1) by (auto simp: Let_def split: phase.splits)
  next
    case (ExpireModel k)
    then show ?thesis using step assms(1) by (auto split: option.splits)
  qed (use step assms(1) in \<open>auto split: if_splits pending_loop.splits phase.splits\<close>)
qed

lemma completed_stuck_run:
  "sc_completed s = CStuck \<Longrightarrow> run_steps (sched_step m) s sts = Some t \<Longrightarrow>
   sc_completed t = CStuck \<and> prefix (sc_finishedCh s) (sc_finishedCh t)"
proof (induction sts arbitrary: s)
  case (Cons st sts)
  then obtain u where u: "sched_step m s st = Some u" "run_steps (sched_step m) u sts = Some t" by (auto split: option.splits)
  show ?case using completed_stuck_step[OF Cons.prems(1) u(1)] Cons.IH[OF _ u(2)] by (auto intro: prefix_order.trans)
qed simp

definition stuck_run :: "step list" where
  "stuck_run = first_load @ [Done 0, CompleteFinished, TimerFires 0, Get 1, Check 1 True, Use 1, TimerRuns 0,
     ExpireModel ''a'', ExpireStep 0, Done 1, CompleteFinished]"

text \<open>
  The loop of completed requests can block itself. It sends expirations on the channel it alone
  receives from: with a queue of one, an expiration left over from a timer fills the channel, and the
  loop blocks when the last request ends; after that, in every continuation, it stays blocked and no
  finished request is ever received.
\<close>

theorem completed_loop_deadlock:
  "\<exists>s. sched_run 1 (InitScheduler 0 demo_requests) stuck_run = Some s \<and> sc_completed s = CStuck \<and>
     (\<forall>sts. case sched_run 1 s sts of None \<Rightarrow> True
        | Some t \<Rightarrow> sc_completed t = CStuck \<and> prefix (sc_finishedCh s) (sc_finishedCh t))"
proof -
  have "map_option sc_completed (sched_run 1 (InitScheduler 0 demo_requests) stuck_run) = Some CStuck" by code_simp
  then obtain s where s: "sched_run 1 (InitScheduler 0 demo_requests) stuck_run = Some s" "sc_completed s = CStuck"
    by (auto simp: map_option_eq_Some)
  then show ?thesis using completed_stuck_run[of s 1] by (auto simp: sched_run_def split: option.splits)
qed

definition starving_run :: "step list" where
  "starving_run = first_load @ [Get 3, Take, LookupPending, ChoosePending, ExpirePending, Get 2, Check 2 True, Use 2,
     Done 0, CompleteFinished, Done 2, CompleteFinished]"

lemma starving_run_end:
  "map_option (\<lambda>s. (sc_pending s, rr_refCount (sc_runner s 0), rr_sessionDuration (sc_runner s 0), rr_timer (sc_runner s 0)))
      (sched_run 4 (InitScheduler 1 demo_requests) starving_run) = Some (PWait 3, 0, 2 ^ 63 - 1, True)"
  by code_simp

lemma starving_run_quiet:
  "map_option (\<lambda>s. (sc_expiredCh s, sc_retry s, sc_fired s, sc_unloadedCh s))
      (sched_run 4 (InitScheduler 1 demo_requests) starving_run) = Some ([], [], [], 0)"
  by code_simp

lemma starving_run_calm: "calm_run 4 (InitScheduler 1 demo_requests) starving_run"
  by code_simp

text \<open>
  A waiting request can be starved. With room for one model, the loop of pending requests expires
  runner 0 to load another model and waits for its unloading; a caller is still given runner 0 and
  asks to keep it for ever, which overwrites the expiration; when both requests are over the runner
  is idle with that keep-alive, no event is under way, and the loop goes on waiting.
\<close>

theorem keep_alive_starves_pending:
  "\<exists>s. sched_run 4 (InitScheduler 1 demo_requests) starving_run = Some s \<and> calm_run 4 (InitScheduler 1 demo_requests) starving_run
    \<and> sc_pending s = PWait 3 \<and> rr_refCount (sc_runner s 0) = 0 \<and> rr_sessionDuration (sc_runner s 0) = 2 ^ 63 - 1
    \<and> rr_timer (sc_runner s 0) \<and> sc_expiredCh s = [] \<and> sc_retry s = [] \<and> sc_fired s = [] \<and> sc_unloadedCh s = 0"
  using starving_run_end starving_run_quiet starving_run_calm by (auto simp: map_option_eq_Some)

section \<open>A loaded runner serves the same request again\<close>

text \<open>
  A runner does not have to be reloaded for the request it was loaded for. Where the server takes
  the context the request asks for, cut to the trained one, a later request with the same model and
  options that reaches the open runner finds it usable.
\<close>

theorem same_request_needs_no_reload:
  assumes "sm_ModelPath (sq_model req) \<noteq> []" "0 < lw_contextLength w"
    and "lw_contextLength w = effectiveContext (ro_NumCtx (rq_opts (sq_load req))) (modelTrainContext f)"
    and "sq_load later = sq_load req" "sq_model later = sq_model req" "sq_shift later = sq_shift req"
  shows "\<not> needsReload True (new_runner w (settle_context w req) f d) later"
proof -
  have e: "effectiveContext (effectiveContext n t) t = effectiveContext n t" for n t
    by (simp add: effectiveContext_def)
  have m: "sq_model (settle_context w req) = sq_model req" "sq_shift (settle_context w req) = sq_shift req"
    by (simp_all add: settle_context_def)
  have "rq_opts (sq_load (settle_context w req)) = (rq_opts (sq_load req))\<lparr>ro_NumCtx := lw_contextLength w\<rparr>"
    "sq_contextShift (settle_context w req) = resolveContextShift (sq_shift req) (Some (sq_model req))"
    "rq_numCtxAuto (sq_load (settle_context w req)) = rq_numCtxAuto (sq_load req)"
    "rq_numBatchAuto (sq_load (settle_context w req)) = rq_numBatchAuto (sq_load req)"
    "rq_useMMapAuto (sq_load (settle_context w req)) = rq_useMMapAuto (sq_load req)"
    using assms(1,2) by (simp_all add: settle_context_def)
  then show ?thesis using assms by (simp add: needsReload_def new_runner_def m Let_def e)
qed

theorem same_request_needs_no_reload_witness:
  "\<not> needsReload True (new_runner (demo_world 7) (settle_context (demo_world 7) (demo_request ''a'' None)) (Some demo_meta) 300) (demo_request ''a'' None)"
proof -
  have "lw_contextLength (demo_world 7) =
      effectiveContext (ro_NumCtx (rq_opts (sq_load (demo_request ''a'' None)))) (modelTrainContext (Some demo_meta))" by code_simp
  moreover have "sm_ModelPath (sq_model (demo_request ''a'' None)) \<noteq> []" "0 < lw_contextLength (demo_world 7)"
    by (simp_all add: demo_request_def demo_model_def demo_world_def)
  ultimately show ?thesis using same_request_needs_no_reload by blast
qed

end
