(* ===== verification/Runes.thy ===== *)
theory Runes
  imports GoStrings
begin

text \<open>
  Prelude: strings as sequences of code points. The conversions \<^verbatim>\<open>[]rune(s)\<close> and
  \<^verbatim>\<open>string(runes)\<close> of Go, which strings they leave alone, and the facts about UTF-8 the
  tokenizers rest on: a code point is read back from its encoding whatever follows, and
  an encoded text occurs in another one only at a boundary between code points.
\<close>

section \<open>Conversions\<close>

text \<open>The code points that have an encoding.\<close>

definition scalar :: "nat \<Rightarrow> bool" where
  "scalar r \<longleftrightarrow> r < 0x110000 \<and> \<not> (0xD800 \<le> r \<and> r < 0xE000)"

text \<open>\<^verbatim>\<open>[]rune(s)\<close>, and \<^verbatim>\<open>range s\<close> without the offsets: a malformed byte is U+FFFD.\<close>

function runes_of :: "string \<Rightarrow> nat list" where
  "runes_of s =
     (if s = [] then [] else fst (decode_rune s) # runes_of (drop (snd (decode_rune s)) s))"
  by pat_completeness auto
termination
  by (relation "measure length") (auto dest: decode_rune_size_pos)

declare runes_of.simps [simp del]

text \<open>\<^verbatim>\<open>string(runes)\<close>.\<close>

definition string_of :: "nat list \<Rightarrow> string" where
  "string_of rs = concat (map encode_rune rs)"

text \<open>The strings the conversions leave alone: the well-formed UTF-8 texts.\<close>

definition valid_utf8 :: "string \<Rightarrow> bool" where
  "valid_utf8 s \<longleftrightarrow> string_of (runes_of s) = s"

section \<open>Reading back an encoded code point\<close>

lemma string_of_simps [simp]:
  "string_of [] = []" "string_of (r # rs) = encode_rune r @ string_of rs"
  "string_of (rs @ ks) = string_of rs @ string_of ks"
  by (simp_all add: string_of_def)

lemma runes_of_Nil [simp]: "runes_of [] = []"
  by (subst runes_of.simps) simp

lemma encode_rune_nonempty [simp]: "encode_rune r \<noteq> []" "[] \<noteq> encode_rune r"
  by (simp_all add: encode_rune_def)

lemma encode_rune_length_pos [simp]: "0 < length (encode_rune r)"
  by simp

lemma string_of_eq_Nil [simp]: "string_of rs = [] \<longleftrightarrow> rs = []"
  by (cases rs) simp_all

lemma encode1: "r < 0x80 \<Longrightarrow> encode_rune r = [char_of r]"
  by (simp add: encode_rune_def)

lemma encode2: "0x80 \<le> r \<Longrightarrow> r < 0x800 \<Longrightarrow>
  encode_rune r = [char_of (0xC0 + r div 64), char_of (0x80 + r mod 64)]"
  by (simp add: encode_rune_def)

lemma encode3: "0x800 \<le> r \<Longrightarrow> r < 0x10000 \<Longrightarrow> encode_rune r =
  [char_of (0xE0 + r div 4096), char_of (0x80 + r div 64 mod 64), char_of (0x80 + r mod 64)]"
  by (simp add: encode_rune_def)

lemma encode4: "0x10000 \<le> r \<Longrightarrow> encode_rune r =
  [char_of (0xF0 + r div 262144), char_of (0x80 + r div 4096 mod 64),
   char_of (0x80 + r div 64 mod 64), char_of (0x80 + r mod 64)]"
  by (simp add: encode_rune_def)

lemma byte_of_char: "n < 256 \<Longrightarrow> byte (char_of n :: char) = (n :: nat)"
  by simp

lemma decode_encode2:
  assumes "0x80 \<le> r" "r < 0x800"
  shows "decode_rune (encode_rune r @ t) = (r, 2)"
proof -
  define x y where "x = r div 64" and "y = r mod 64"
  have r: "r = x * 64 + y" "y < 64" by (simp_all add: x_def y_def)
  with assms have x: "2 \<le> x" "x < 32" by simp_all
  from assms have "encode_rune r = [char_of (0xC0 + x), char_of (0x80 + y)]"
    by (simp add: encode2 x_def y_def)
  with r x show ?thesis
    by (simp add: decode_rune.simps decode2_def in_range_def byte_of_char)
qed

text \<open>The base-64 digits of a code point.\<close>

lemma mult_64_64: "(64 :: nat) * 64 = 4096"
  by simp

lemma digits3: "(r :: nat) = r div 4096 * 4096 + r div 64 mod 64 * 64 + r mod 64"
proof -
  have "r div 4096 = r div 64 div 64" by (simp add: div_mult2_eq [symmetric])
  then have "r div 64 = r div 4096 * 64 + r div 64 mod 64" by simp
  moreover have "r = r div 64 * 64 + r mod 64" by simp
  ultimately show ?thesis by (metis (no_types) add_mult_distrib mult.assoc mult_64_64)
qed

lemma digits4: "(r :: nat) = r div 262144 * 262144 + r div 4096 mod 64 * 4096 + r div 64 mod 64 * 64 + r mod 64"
proof -
  have "r div 262144 = r div 4096 div 64" by (simp add: div_mult2_eq [symmetric])
  then have "r div 4096 = r div 262144 * 64 + r div 4096 mod 64" by simp
  with digits3 [of r] show ?thesis by simp
qed

lemma decode_encode3:
  assumes "0x800 \<le> r" "r < 0x10000" "\<not> (0xD800 \<le> r \<and> r < 0xE000)"
  shows "decode_rune (encode_rune r @ t) = (r, 3)"
proof -
  define x y z where d: "x = r div 4096" "y = r div 64 mod 64" "z = r mod 64"
  have r: "r = x * 4096 + y * 64 + z" using digits3 [of r] unfolding d .
  have yz: "y < 64" "z < 64" by (simp_all add: d)
  from assms r yz have x: "x < 16" "x = 0 \<Longrightarrow> 32 \<le> y" "x = 13 \<Longrightarrow> y < 32" by auto
  from assms have "encode_rune r = [char_of (0xE0 + x), char_of (0x80 + y), char_of (0x80 + z)]"
    by (simp add: encode3 d)
  then show ?thesis using x yz unfolding r
    by (auto simp: decode_rune.simps decode3_def in_range_def byte_of_char Let_def)
qed

lemma decode_encode4:
  assumes "0x10000 \<le> r" "r < 0x110000"
  shows "decode_rune (encode_rune r @ t) = (r, 4)"
proof -
  define w x y z where d: "w = r div 262144" "x = r div 4096 mod 64" "y = r div 64 mod 64" "z = r mod 64"
  have r: "r = w * 262144 + x * 4096 + y * 64 + z" using digits4 [of r] unfolding d .
  have xyz: "x < 64" "y < 64" "z < 64" by (simp_all add: d)
  from assms r xyz have w: "w \<le> 4" "w = 0 \<Longrightarrow> 16 \<le> x" "w = 4 \<Longrightarrow> x < 16" by auto
  from assms have "encode_rune r =
      [char_of (0xF0 + w), char_of (0x80 + x), char_of (0x80 + y), char_of (0x80 + z)]"
    by (simp add: encode4 d)
  then have d: "decode_rune (encode_rune r @ t) = decode_rune
      (char_of (0xF0 + w) # char_of (0x80 + x) # char_of (0x80 + y) # char_of (0x80 + z) # t)"
    by simp
  have m: "(0xF0 + w) mod 256 = 0xF0 + w" using w(1) by simp
  consider "w = 0" "16 \<le> x" | "0 < w" "w \<le> 3" | "w = 4" "x < 16"
    using w by (cases "w = 0"; cases "w = 4"; fastforce)
  then show ?thesis unfolding d
    by cases (use xyz m in \<open>simp_all add: r decode_rune.simps decode4_def in_range_def byte_of_char Let_def\<close>)
qed

lemma decode_encode:
  assumes "scalar r"
  shows "decode_rune (encode_rune r @ t) = (r, length (encode_rune r))"
proof -
  consider "r < 0x80" | "0x80 \<le> r" "r < 0x800" | "0x800 \<le> r" "r < 0x10000" | "0x10000 \<le> r"
    by linarith
  then show ?thesis
  proof cases
    case 1
    then show ?thesis by (simp add: encode1 decode_rune.simps)
  next
    case 2
    then show ?thesis using decode_encode2 [of r t] by (simp add: encode2)
  next
    case 3
    with assms have "\<not> (0xD800 \<le> r \<and> r < 0xE000)" by (simp add: scalar_def)
    with 3 show ?thesis using decode_encode3 [of r t] by (simp add: encode3)
  next
    case 4
    with assms have "r < 0x110000" by (simp add: scalar_def)
    with 4 show ?thesis using decode_encode4 [of r t] by (simp add: encode4)
  qed
qed

text \<open>What is decoded has an encoding.\<close>

lemma scalar_error [simp]: "scalar rune_error"
  by (simp add: scalar_def rune_error_def)

lemma scalar_decode2: "b0 \<le> 0xDF \<Longrightarrow> scalar (fst (decode2 b0 s))"
  by (cases s) (auto simp: decode2_def in_range_def scalar_def rune_error_def)

lemma scalar_decode3:
  assumes "b0 \<le> 0xEF" "hi \<le> 0xBF" "b0 = 0xED \<Longrightarrow> hi \<le> 0x9F"
  shows "scalar (fst (decode3 lo hi b0 s))"
proof (cases "decode3 lo hi b0 s = (rune_error, 1)")
  case False
  then obtain c1 c2 u where s: "s = c1 # c2 # u" "in_range lo hi c1" "in_range 0x80 0xBF c2"
    by (auto simp: decode3_def split: list.splits if_splits)
  define y z where yz: "y = byte c1 - 0x80" "z = byte c2 - (0x80 :: nat)"
  from s yz have yz': "z < 64" "y < 64" "b0 = 0xED \<Longrightarrow> y < 32" using assms by (auto simp: in_range_def)
  from s yz have "fst (decode3 lo hi b0 s) = (b0 - 0xE0) * 4096 + y * 64 + z" by (simp add: decode3_def)
  moreover have "b0 - 0xE0 \<le> 15" "b0 = 0xED \<Longrightarrow> b0 - 0xE0 = 13" "b0 \<noteq> 0xED \<Longrightarrow> b0 - 0xE0 \<le> 12 \<or> 14 \<le> b0 - 0xE0"
    using assms(1) by linarith+
  ultimately show ?thesis using yz' unfolding scalar_def by linarith
qed simp

lemma scalar_decode4:
  assumes "0xF0 \<le> b0" "b0 \<le> 0xF4" "hi \<le> 0xBF" "0x80 \<le> lo" "b0 = 0xF0 \<Longrightarrow> 0x90 \<le> lo"
    "b0 = 0xF4 \<Longrightarrow> hi \<le> 0x8F"
  shows "scalar (fst (decode4 lo hi b0 s))"
proof (cases "decode4 lo hi b0 s = (rune_error, 1)")
  case False
  then obtain c1 c2 c3 u where s: "s = c1 # c2 # c3 # u" "in_range lo hi c1"
      "in_range 0x80 0xBF c2" "in_range 0x80 0xBF c3"
    by (auto simp: decode4_def split: list.splits if_splits)
  define x y z where xyz: "x = byte c1 - 0x80" "y = byte c2 - 0x80" "z = byte c3 - (0x80 :: nat)"
  from s xyz have xyz': "z < 64" "y < 64" "x < 64" "b0 = 0xF4 \<Longrightarrow> x < 16"
    "b0 = 0xF0 \<Longrightarrow> 16 \<le> x" using assms by (auto simp: in_range_def)
  from s xyz have "fst (decode4 lo hi b0 s) = (b0 - 0xF0) * 262144 + x * 4096 + y * 64 + z"
    by (simp add: decode4_def)
  moreover have "b0 - 0xF0 \<le> 4" "b0 = 0xF0 \<or> 1 \<le> b0 - 0xF0" "b0 = 0xF4 \<or> b0 - 0xF0 \<le> 3"
    using assms(1,2) by linarith+
  ultimately show ?thesis using xyz' unfolding scalar_def by linarith
qed simp

lemma decode_scalar: "s \<noteq> [] \<Longrightarrow> scalar (fst (decode_rune s))"
  by (cases s) (auto simp: decode_rune.simps Let_def scalar_def [of "of_char _"]
      intro!: scalar_decode2 scalar_decode3 scalar_decode4)

lemma runes_of_scalar: "r \<in> set (runes_of s) \<Longrightarrow> scalar r"
proof (induction s rule: runes_of.induct)
  case (1 s)
  then show ?case by (cases "s = []") (auto simp: runes_of.simps [of s] decode_scalar)
qed

lemma runes_of_string: "\<forall>r \<in> set rs. scalar r \<Longrightarrow> runes_of (string_of rs @ t) = rs @ runes_of t"
proof (induction rs)
  case (Cons r rs)
  then have "decode_rune (encode_rune r @ string_of rs @ t) = (r, length (encode_rune r))"
    by (intro decode_encode) simp
  with Cons show ?case by (subst runes_of.simps) simp
qed simp

lemmas runes_of_string_of = runes_of_string [where t = "[]", simplified]

lemma valid_string_of: "\<forall>r \<in> set rs. scalar r \<Longrightarrow> valid_utf8 (string_of rs)"
  by (simp add: valid_utf8_def runes_of_string_of)

lemma valid_utf8E:
  assumes "valid_utf8 s"
  obtains rs where "s = string_of rs" "\<forall>r \<in> set rs. scalar r" "runes_of s = rs"
  using assms runes_of_scalar unfolding valid_utf8_def by metis

section \<open>Boundaries\<close>

text \<open>The bytes that continue a sequence never start one.\<close>

definition continues :: "char \<Rightarrow> bool" where
  "continues c \<longleftrightarrow> 0x80 \<le> byte c \<and> byte c < (0xC0 :: nat)"

lemma encode_rune_hd: "scalar r \<Longrightarrow> \<not> continues (hd (encode_rune r))"
  by (auto simp: encode_rune_def continues_def scalar_def byte_of_char)

lemma encode_rune_tl: "scalar r \<Longrightarrow> c \<in> set (tl (encode_rune r)) \<Longrightarrow> continues c"
  by (auto simp: encode_rune_def continues_def scalar_def byte_of_char split: if_splits)

text \<open>No encoding is a proper prefix of another text of code points.\<close>

lemma encode_rune_prefix:
  assumes "scalar r" "scalar k" "encode_rune r @ t = encode_rune k @ u"
  shows "r = k \<and> t = u"
  using decode_encode [OF assms(1), of t] decode_encode [OF assms(2), of u] assms(3) by simp

lemma string_of_prefix:
  assumes "\<forall>r \<in> set rs. scalar r" "\<forall>k \<in> set ks. scalar k" "string_of rs = string_of ks @ t"
  shows "\<exists>vs. rs = ks @ vs \<and> t = string_of vs"
  using assms
proof (induction ks arbitrary: rs)
  case (Cons k ks)
  then obtain r rs' where rs: "rs = r # rs'" by (cases rs) auto
  with Cons.prems have "r = k \<and> string_of rs' = string_of ks @ t"
    by (intro encode_rune_prefix) auto
  with Cons.IH [of rs'] Cons.prems rs show ?case by auto
qed simp

text \<open>An occurrence of a text of code points in another starts and ends between two of its
  code points.\<close>

lemma string_of_infix:
  assumes "\<forall>r \<in> set rs. scalar r" "\<forall>k \<in> set ks. scalar k" "ks \<noteq> []"
    "string_of rs = u @ string_of ks @ t"
  shows "\<exists>us vs. rs = us @ ks @ vs \<and> u = string_of us \<and> t = string_of vs"
  using assms
proof (induction rs arbitrary: u)
  case Nil
  then show ?case by simp
next
  case (Cons r rs)
  obtain k ks' where ks: "ks = k # ks'" using Cons.prems(3) by (cases ks) auto
  show ?case
  proof (cases "u = []")
    case True
    with string_of_prefix [OF Cons.prems(1,2), of t] Cons.prems(4) show ?thesis
      by (metis append_Nil string_of_simps(1))
  next
    case False
    consider w where "u = encode_rune r @ w" "string_of rs = w @ string_of ks @ t"
      | w where "encode_rune r = u @ w" "w \<noteq> []" "w @ string_of rs = string_of ks @ t"
      using Cons.prems(4) by (auto simp: append_eq_append_conv2) (metis append_Nil2 append_self_conv2)+
    then show ?thesis
    proof cases
      case 1
      with Cons.IH [of w] Cons.prems(1-3) obtain us vs
        where "rs = us @ ks @ vs" "w = string_of us" "t = string_of vs" by auto
      with 1 show ?thesis by (intro exI [of _ "r # us"] exI [of _ vs]) simp
    next
      case 2
      from 2(3) ks have "hd w = hd (encode_rune k)"
        using 2(2) by (metis append.assoc encode_rune_nonempty(1) hd_append2 string_of_simps(2))
      moreover from 2(1,2) False have "hd w \<in> set (tl (encode_rune r))"
        by (cases u) auto
      ultimately show ?thesis
        using encode_rune_tl [of r "hd w"] encode_rune_hd [of k] Cons.prems(1,2) ks by auto
    qed
  qed
qed

lemma valid_utf8_append: "valid_utf8 s \<Longrightarrow> valid_utf8 t \<Longrightarrow> valid_utf8 (s @ t)"
  by (elim valid_utf8E) (metis (no_types) Un_iff set_append string_of_simps(3) valid_string_of)

lemma valid_utf8_cut:
  assumes "valid_utf8 (u @ k @ t)" "valid_utf8 k" "k \<noteq> []"
  shows "valid_utf8 u \<and> valid_utf8 t"
proof -
  obtain rs where rs: "u @ k @ t = string_of rs" "\<forall>r \<in> set rs. scalar r"
    using assms(1) by (rule valid_utf8E)
  obtain ks where ks: "k = string_of ks" "\<forall>r \<in> set ks. scalar r"
    using assms(2) by (rule valid_utf8E)
  obtain us vs where "rs = us @ ks @ vs" "u = string_of us" "t = string_of vs"
    using string_of_infix [OF rs(2) ks(2), of u t] rs(1) ks assms(3) by auto
  with rs(2) show ?thesis by (auto intro!: valid_string_of)
qed

section \<open>Replacing a code point\<close>

text \<open>\<^verbatim>\<open>strings.ReplaceAll\<close> for a non-empty string to replace.\<close>

definition replace_all :: "string \<Rightarrow> string \<Rightarrow> string \<Rightarrow> string" where
  "replace_all s old new = join new (split_all s old)"

lemma index_rune:
  assumes "\<forall>r \<in> set (us @ k # vs). scalar r" "k \<notin> set us"
  shows "index (string_of (us @ k # vs)) (encode_rune k) = Some (length (string_of us))"
proof (rule index_SomeI)
  show "prefix (encode_rune k) (drop (length (string_of us)) (string_of (us @ k # vs)))"
    by simp
  fix j assume j: "j < length (string_of us)"
  show "\<not> prefix (encode_rune k) (drop j (string_of (us @ k # vs)))"
  proof
    assume "prefix (encode_rune k) (drop j (string_of (us @ k # vs)))"
    then obtain t where "drop j (string_of (us @ k # vs)) = encode_rune k @ t" by (rule prefixE)
    then have "string_of (us @ k # vs) = take j (string_of (us @ k # vs)) @ string_of [k] @ t"
      by (metis append_take_drop_id append_Nil2 string_of_simps(1,2))
    moreover have "\<forall>r \<in> set [k]. scalar r" using assms(1) by simp
    ultimately obtain us' vs' where *: "us @ k # vs = us' @ [k] @ vs'"
        "take j (string_of (us @ k # vs)) = string_of us'"
      using string_of_infix [OF assms(1), of "[k]"] by blast
    from assms(2) * (1) obtain ws where "us' = us @ ws"
      by (auto simp: append_eq_append_conv2 append_eq_Cons_conv)
    with * (2) j show False
      by (metis append_eq_conv_conj length_append length_take linorder_not_le min.strict_order_iff
          string_of_simps(3) take_add trans_le_add1 min_less_iff_conj not_add_less1)
  qed
qed simp

lemma index_rune_None:
  assumes "\<forall>r \<in> set rs. scalar r" "scalar k" "k \<notin> set rs"
  shows "index (string_of rs) (encode_rune k) = None"
proof (rule ccontr)
  assume "index (string_of rs) (encode_rune k) \<noteq> None"
  then obtain u v where "string_of rs = u @ string_of [k] @ v"
    using contains_iff [of "string_of rs" "encode_rune k"] by (auto simp: contains_def)
  with string_of_infix [of rs "[k]"] assms show False by fastforce
qed

lemma replace_all_rune:
  assumes "\<forall>r \<in> set rs. scalar r" "scalar k"
  shows "replace_all (string_of rs) (encode_rune k) new
    = concat (map (\<lambda>r. if r = k then new else encode_rune r) rs)"
  using assms(1)
proof (induction rs rule: length_induct)
  case (1 rs)
  have keep: "concat (map (\<lambda>r. if r = k then new else encode_rune r) us) = string_of us"
    if "k \<notin> set us" for us
    using that by (induction us) auto
  show ?case
  proof (cases "k \<in> set rs")
    case False
    then have "index (string_of rs) (encode_rune k) = None"
      using 1 assms by (intro index_rune_None) auto
    then have "split_all (string_of rs) (encode_rune k) = [string_of rs]"
      by (subst split_all.simps) simp
    with keep [OF False] show ?thesis by (simp add: replace_all_def)
  next
    case True
    then obtain us vs where rs: "rs = us @ k # vs" "k \<notin> set us"
      using split_list_first by metis
    with 1 have "index (string_of rs) (encode_rune k) = Some (length (string_of us))"
      by (simp add: index_rune del: string_of_simps)
    then have "split_all (string_of rs) (encode_rune k)
        = string_of us # split_all (string_of vs) (encode_rune k)"
      by (subst split_all.simps) (simp add: rs)
    moreover have "replace_all (string_of vs) (encode_rune k) new
        = concat (map (\<lambda>r. if r = k then new else encode_rune r) vs)"
      using 1 rs by auto
    ultimately show ?thesis using rs keep
      by (simp add: replace_all_def join_Cons split_all_nonempty)
  qed
qed

end
