(* ===== verification/GoHeap.thy ===== *)
theory GoHeap
  imports Main "HOL-Library.Multiset"
begin

text \<open>
  Prelude: priority queues. The interface a work queue offers, as a locale, and Go's
  package \<^verbatim>\<open>container/heap\<close>, a binary heap in a slice, with the proof that it offers
  that interface for any order of its elements.
\<close>

section \<open>The interface\<close>

text \<open>
  What a client of a work queue sees: the multiset of the queued elements, pushing adds
  one, popping removes one that no other queued element comes before. Which of several
  such elements is popped is left to the provider.
\<close>

locale priority_queue =
  fixes push :: "'c \<Rightarrow> 'q \<Rightarrow> 'q"
    and pop :: "'q \<Rightarrow> ('c \<times> 'q) option"
    and items :: "'q \<Rightarrow> 'c multiset"
    and ok :: "'q \<Rightarrow> bool"
    and before :: "'c \<Rightarrow> 'c \<Rightarrow> bool"
  assumes push_ok: "ok q \<Longrightarrow> ok (push c q)"
    and push_items: "ok q \<Longrightarrow> items (push c q) = add_mset c (items q)"
    and pop_None: "ok q \<Longrightarrow> pop q = None \<longleftrightarrow> items q = {#}"
    and pop_ok: "ok q \<Longrightarrow> pop q = Some (c, q') \<Longrightarrow> ok q'"
    and pop_items: "ok q \<Longrightarrow> pop q = Some (c, q') \<Longrightarrow> items q = add_mset c (items q')"
    and pop_least: "ok q \<Longrightarrow> pop q = Some (c, q') \<Longrightarrow> x \<in># items q' \<Longrightarrow> \<not> before x c"
begin

lemma pushes_ok: "ok q \<Longrightarrow> ok (fold push cs q)"
  by (induction cs arbitrary: q) (auto simp: push_ok)

lemma pushes_items: "ok q \<Longrightarrow> items (fold push cs q) = mset cs + items q"
  by (induction cs arbitrary: q) (auto simp: push_ok push_items)

end

section \<open>container/heap\<close>

definition swap :: "'c list \<Rightarrow> nat \<Rightarrow> nat \<Rightarrow> 'c list" where
  "swap h i j = h[i := h ! j, j := h ! i]"

abbreviation parent :: "nat \<Rightarrow> nat" where
  "parent j \<equiv> (j - 1) div 2"

text \<open>The two repair loops and the operations of the package; popping an empty heap is not
  defined (the package panics).\<close>

fun heap_up :: "('c \<Rightarrow> 'c \<Rightarrow> bool) \<Rightarrow> 'c list \<Rightarrow> nat \<Rightarrow> 'c list" where
  "heap_up before h j =
     (if j = 0 \<or> \<not> before (h ! j) (h ! parent j) then h
      else heap_up before (swap h (parent j) j) (parent j))"

definition least_child :: "('c \<Rightarrow> 'c \<Rightarrow> bool) \<Rightarrow> 'c list \<Rightarrow> nat \<Rightarrow> nat \<Rightarrow> nat" where
  "least_child before h i n =
     (if 2 * i + 2 < n \<and> before (h ! (2 * i + 2)) (h ! (2 * i + 1)) then 2 * i + 2 else 2 * i + 1)"

lemma least_child_less: "2 * i + 1 < n \<Longrightarrow> least_child before h i n < n \<and> i < least_child before h i n"
  by (simp add: least_child_def)

function heap_down :: "('c \<Rightarrow> 'c \<Rightarrow> bool) \<Rightarrow> 'c list \<Rightarrow> nat \<Rightarrow> nat \<Rightarrow> 'c list" where
  "heap_down before h i n =
     (if n \<le> 2 * i + 1 then h
      else let j = least_child before h i n in
           if before (h ! j) (h ! i) then heap_down before (swap h i j) j n else h)"
  by pat_completeness auto
termination
  proof (relation "measure (\<lambda>(before, h, i, n). n - i)", goal_cases)
  case (2 before h i n j)
  with least_child_less [of i n before h] show ?case by auto
qed simp

declare heap_up.simps [simp del] heap_down.simps [simp del]

definition heap_push :: "('c \<Rightarrow> 'c \<Rightarrow> bool) \<Rightarrow> 'c \<Rightarrow> 'c list \<Rightarrow> 'c list" where
  "heap_push before c h = heap_up before (h @ [c]) (length h)"

definition heap_pop :: "('c \<Rightarrow> 'c \<Rightarrow> bool) \<Rightarrow> 'c list \<Rightarrow> ('c \<times> 'c list) option" where
  "heap_pop before h =
     (if h = [] then None
      else let n = length h - 1; h' = heap_down before (swap h 0 n) 0 n
           in Some (last h', butlast h'))"

subsection \<open>Correctness\<close>

text \<open>The order must be a strict weak one; a heap has no element before its parent.\<close>

definition weak_order :: "('c \<Rightarrow> 'c \<Rightarrow> bool) \<Rightarrow> bool" where
  "weak_order before \<longleftrightarrow> (\<forall>x y. before x y \<longrightarrow> \<not> before y x)
     \<and> (\<forall>x y z. \<not> before y x \<longrightarrow> \<not> before z y \<longrightarrow> \<not> before z x)"

definition heap_below :: "('c \<Rightarrow> 'c \<Rightarrow> bool) \<Rightarrow> 'c list \<Rightarrow> nat \<Rightarrow> bool" where
  "heap_below before h n \<longleftrightarrow> (\<forall>j. 0 < j \<and> j < n \<longrightarrow> \<not> before (h ! j) (h ! parent j))"

definition heap_ok :: "('c \<Rightarrow> 'c \<Rightarrow> bool) \<Rightarrow> 'c list \<Rightarrow> bool" where
  "heap_ok before h \<longleftrightarrow> heap_below before h (length h)"

lemma weak_orderD:
  assumes "weak_order before"
  shows "before x y \<Longrightarrow> \<not> before y x" "\<not> before y x \<Longrightarrow> \<not> before z y \<Longrightarrow> \<not> before z x" "\<not> before x x"
  using assms unfolding weak_order_def by blast+

lemma parent_less: "0 < j \<Longrightarrow> parent j < j"
  by linarith

lemma parent_child: "parent j = i \<Longrightarrow> 0 < j \<Longrightarrow> j = 2 * i + 1 \<or> j = 2 * i + 2"
  by presburger

lemma swap_length [simp]: "length (swap h i j) = length h"
  by (simp add: swap_def)

lemma swap_mset: "i < length h \<Longrightarrow> j < length h \<Longrightarrow> mset (swap h i j) = mset h"
  unfolding swap_def by (rule mset_swap)

lemma swap_nth: "i < length h \<Longrightarrow> j < length h \<Longrightarrow> k < length h \<Longrightarrow>
  swap h i j ! k = (if k = j then h ! i else if k = i then h ! j else h ! k)"
  by (simp add: swap_def nth_list_update)

text \<open>Repairing upwards: the only element that may come before its parent is the one moved,
  and its children do not come before its parent.\<close>

definition rising :: "('c \<Rightarrow> 'c \<Rightarrow> bool) \<Rightarrow> 'c list \<Rightarrow> nat \<Rightarrow> bool" where
  "rising before h i \<longleftrightarrow> i < length h
     \<and> (\<forall>j. 0 < j \<and> j < length h \<and> j \<noteq> i \<longrightarrow> \<not> before (h ! j) (h ! parent j))
     \<and> (\<forall>j. 0 < j \<and> j < length h \<and> parent j = i \<and> 0 < i \<longrightarrow> \<not> before (h ! j) (h ! parent i))"

lemma rising_swap:
  assumes w: "weak_order before" and r: "rising before h i" and i: "0 < i" and l: "before (h ! i) (h ! parent i)"
  shows "rising before (swap h (parent i) i) (parent i)"
proof -
  have len: "i < length h" "parent i < length h" using r i by (auto simp: rising_def)
  have others: "\<not> before (h ! j) (h ! parent j)" if "0 < j" "j < length h" "j \<noteq> i" for j
    using r that by (auto simp: rising_def)
  have kids: "\<not> before (h ! j) (h ! parent i)" if "0 < j" "j < length h" "parent j = i" for j
    using r that i by (auto simp: rising_def)
  have up: "\<not> before (h ! parent i) (h ! parent (parent i))" if "0 < parent i"
    using others [of "parent i"] that len i by simp
  show ?thesis
    unfolding rising_def
  proof (intro conjI allI impI)
    show "parent i < length (swap h (parent i) i)" using len by simp
    fix j assume j: "0 < j \<and> j < length (swap h (parent i) i) \<and> j \<noteq> parent i"
    then have pj: "parent j < length h" "parent j < j" by auto
    show "\<not> before (swap h (parent i) i ! j) (swap h (parent i) i ! parent j)"
    proof (cases "j = i")
      case True
      moreover have "parent i \<noteq> i" using i by simp
      ultimately show ?thesis using len weak_orderD(1) [OF w l] by (simp add: swap_nth)
    next
      case False
      with j others [of j] have o: "\<not> before (h ! j) (h ! parent j)" by simp
      consider "parent j = i" | "parent j = parent i" "parent j \<noteq> i" | "parent j \<noteq> i" "parent j \<noteq> parent i"
        by blast
      then show ?thesis
      proof cases
        case 1
        with j False len kids [of j] show ?thesis by (simp add: swap_nth)
      next
        case 2
        have "\<not> before (h ! j) (h ! i)"
          using o 2 weak_orderD(2) [OF w] weak_orderD(1) [OF w l] by metis
        with j False len 2 show ?thesis by (simp add: swap_nth)
      next
        case 3
        with j False len o pj show ?thesis by (simp add: swap_nth)
      qed
    qed
  next
    fix j assume j: "0 < j \<and> j < length (swap h (parent i) i) \<and> parent j = parent i \<and> 0 < parent i"
    then have "parent (parent i) < parent i" by (intro parent_less) simp
    then have pp: "parent (parent i) < length h" "parent (parent i) \<noteq> i" "parent (parent i) \<noteq> parent i"
      using len i by auto
    have "j \<noteq> parent i" using j \<open>parent (parent i) < parent i\<close> by auto
    have "\<not> before (h ! j) (h ! parent (parent i))" if "j \<noteq> i"
    proof -
      have "\<not> before (h ! j) (h ! parent i)" using others [of j] that j by simp
      moreover have "\<not> before (h ! parent i) (h ! parent (parent i))" using up j by simp
      ultimately show ?thesis using weak_orderD(2) [OF w] by metis
    qed
    with j \<open>j \<noteq> parent i\<close> len pp up
    show "\<not> before (swap h (parent i) i ! j) (swap h (parent i) i ! parent (parent i))"
      by (simp add: swap_nth)
  qed
qed

lemma heap_up_ok:
  assumes "weak_order before" "rising before h i"
  shows "heap_ok before (heap_up before h i) \<and> mset (heap_up before h i) = mset h"
  using assms
proof (induction before h i rule: heap_up.induct)
  case (1 before h j)
  show ?case
  proof (cases "j = 0 \<or> \<not> before (h ! j) (h ! parent j)")
    case True
    then have "heap_ok before h"
      using 1(3) unfolding heap_ok_def heap_below_def rising_def by (metis bot_nat_0.not_eq_extremum)
    with True show ?thesis by (simp add: heap_up.simps [of before h])
  next
    case False
    with rising_swap [OF 1(2,3)] have "rising before (swap h (parent j) j) (parent j)" by simp
    moreover have "mset (swap h (parent j) j) = mset h"
      using 1(3) by (auto simp: rising_def intro!: swap_mset)
    ultimately show ?thesis using 1(1) [OF False 1(2)] False by (simp add: heap_up.simps [of before h])
  qed
qed

text \<open>Repairing downwards: the only element that its children may come before is the one
  moved, and its children do not come before its parent.\<close>

definition sinking :: "('c \<Rightarrow> 'c \<Rightarrow> bool) \<Rightarrow> 'c list \<Rightarrow> nat \<Rightarrow> nat \<Rightarrow> bool" where
  "sinking before h i n \<longleftrightarrow> n \<le> length h
     \<and> (\<forall>j. 0 < j \<and> j < n \<and> parent j \<noteq> i \<longrightarrow> \<not> before (h ! j) (h ! parent j))
     \<and> (\<forall>j. 0 < j \<and> j < n \<and> parent j = i \<and> 0 < i \<longrightarrow> \<not> before (h ! j) (h ! parent i))"

lemma least_child_least:
  assumes "weak_order before" "0 < j" "j < n" "parent j = i"
  shows "\<not> before (h ! j) (h ! least_child before h i n)"
  using parent_child [OF assms(4,2)] assms(3) weak_orderD(1) [OF assms(1)] weak_orderD(3) [OF assms(1)]
  by (auto simp: least_child_def)

lemma least_child_parent: "2 * i + 1 < n \<Longrightarrow> parent (least_child before h i n) = i \<and> 0 < least_child before h i n"
  by (auto simp: least_child_def)

lemma sinking_swap:
  assumes w: "weak_order before" and s: "sinking before h i n" and i: "2 * i + 1 < n"
    and k: "k = least_child before h i n" and l: "before (h ! k) (h ! i)"
  shows "sinking before (swap h i k) k n"
proof -
  have n: "n \<le> length h" using s by (auto simp: sinking_def)
  have kn: "k < n" "i < k" "parent k = i" "0 < k"
    using least_child_less [of i n before h] least_child_parent [of i n before h] i k by auto
  then have len: "i < length h" "k < length h" using n by auto
  have others: "\<not> before (h ! j) (h ! parent j)" if "0 < j" "j < n" "parent j \<noteq> i" for j
    using s that by (auto simp: sinking_def)
  show ?thesis
    unfolding sinking_def
  proof (intro conjI allI impI)
    show "n \<le> length (swap h i k)" using n by simp
    fix j assume j: "0 < j \<and> j < n \<and> parent j \<noteq> k"
    then have jl: "j < length h" "parent j < length h" using n by auto
    show "\<not> before (swap h i k ! j) (swap h i k ! parent j)"
    proof (cases "parent j = i")
      case True
      have "\<not> before (h ! j) (h ! k)" using least_child_least [OF w _ _ True] j k by simp
      moreover have "j \<noteq> i" using True j by auto
      ultimately show ?thesis using True jl len kn(2) weak_orderD(1) [OF w l]
        by (simp add: swap_nth)
    next
      case False
      then have "\<not> before (h ! j) (h ! parent j)" "j \<noteq> k" using others [of j] j kn by auto
      moreover have "\<not> before (h ! k) (h ! parent i)" if "j = i"
        using s that j kn by (auto simp: sinking_def)
      ultimately show ?thesis using False jl len j by (auto simp: swap_nth)
    qed
  next
    fix j assume j: "0 < j \<and> j < n \<and> parent j = k \<and> 0 < k"
    then have "\<not> before (h ! j) (h ! k)" "j \<noteq> k" "j \<noteq> i" using others [of j] kn by auto
    with j n len kn show "\<not> before (swap h i k ! j) (swap h i k ! parent k)"
      by (simp add: swap_nth)
  qed
qed

lemma heap_down_ok:
  assumes "weak_order before" "sinking before h i n"
  shows "heap_below before (heap_down before h i n) n \<and> mset (heap_down before h i n) = mset h
    \<and> drop n (heap_down before h i n) = drop n h"
  using assms
proof (induction before h i n rule: heap_down.induct)
  case (1 before h i n)
  define k where "k = least_child before h i n"
  show ?case
  proof (cases "2 * i + 1 < n \<and> before (h ! k) (h ! i)")
    case False
    have "\<not> before (h ! j) (h ! i)" if "0 < j" "j < n" "parent j = i" for j
    proof -
      from that have "2 * i + 1 < n" using parent_child [of j i] by auto
      with False have "\<not> before (h ! k) (h ! i)" by simp
      with least_child_least [OF 1(2) that, of h] weak_orderD(2) [OF 1(2)] show ?thesis
        unfolding k_def by blast
    qed
    with 1(3) have "heap_below before h n" unfolding sinking_def heap_below_def by metis
    moreover have "heap_down before h i n = h"
      using False by (auto simp: heap_down.simps [of before h] k_def Let_def)
    ultimately show ?thesis by simp
  next
    case True
    then have n: "\<not> n \<le> 2 * i + 1" by simp
    have kn: "k < n" "i < k" using True least_child_less [of i n before h] k_def by auto
    have "sinking before (swap h i k) k n"
      using sinking_swap [OF 1(2,3) _ k_def] True by simp
    from 1(1) [OF n k_def _ 1(2) this] True
    have "heap_below before (heap_down before (swap h i k) k n) n
        \<and> mset (heap_down before (swap h i k) k n) = mset (swap h i k)
        \<and> drop n (heap_down before (swap h i k) k n) = drop n (swap h i k)" by simp
    moreover have "mset (swap h i k) = mset h"
      using 1(3) kn by (auto simp: sinking_def intro!: swap_mset)
    moreover have "drop n (swap h i k) = drop n h" using kn by (simp add: swap_def)
    moreover have "heap_down before h i n = heap_down before (swap h i k) k n"
      using True by (simp add: heap_down.simps [of before h] k_def Let_def)
    ultimately show ?thesis by simp
  qed
qed

lemma heap_below_least:
  assumes "weak_order before" "heap_below before h n" "j < n"
  shows "\<not> before (h ! j) (h ! 0)"
  using assms(3)
proof (induction j rule: less_induct)
  case (less j)
  show ?case
  proof (cases "j = 0")
    case False
    then have "\<not> before (h ! j) (h ! parent j)" "\<not> before (h ! parent j) (h ! 0)"
      using less assms(2) by (auto simp: heap_below_def)
    then show ?thesis using weak_orderD(2) [OF assms(1)] by blast
  qed (use weak_orderD(3) [OF assms(1)] in simp)
qed

lemma heap_pop_ok:
  assumes w: "weak_order before" and h: "heap_ok before h" and pop: "heap_pop before h = Some (c, h')"
  shows "heap_ok before h' \<and> mset h = add_mset c (mset h') \<and> (\<forall>x \<in># mset h'. \<not> before x c)"
proof -
  from pop have ne: "h \<noteq> []" by (auto simp: heap_pop_def split: if_splits)
  define n where "n = length h - 1"
  define d where "d = heap_down before (swap h 0 n) 0 n"
  have n: "n < length h" "length h = Suc n" using ne by (simp_all add: n_def)
  have c: "c = last d" "h' = butlast d"
    using pop ne by (auto simp: heap_pop_def Let_def n_def d_def)
  have "sinking before (swap h 0 n) 0 n"
    unfolding sinking_def
  proof (intro conjI allI impI)
    fix j assume j: "0 < j \<and> j < n \<and> parent j \<noteq> 0"
    then have "parent j < n" by auto
    with j n h show "\<not> before (swap h 0 n ! j) (swap h 0 n ! parent j)"
      by (auto simp: swap_nth heap_ok_def heap_below_def)
  qed (use n in auto)
  note d = heap_down_ok [OF w this, folded d_def]
  have m: "mset (swap h 0 n) = mset h" using n by (intro swap_mset) auto
  then have len: "length d = Suc n" using d n by (metis size_mset)
  have "drop n (swap h 0 n) = [h ! 0]" using n by (simp add: swap_def drop_Cons' Cons_nth_drop_Suc [symmetric] nth_list_update)
  with d have "drop n d = [h ! 0]" by simp
  then have d': "d = take n d @ [h ! 0]" by (metis append_take_drop_id)
  then have ch: "c = h ! 0" "h' = take n d" using c by (metis last_snoc, metis butlast_snoc)
  have mh: "mset h = add_mset c (mset h')" using d m d' ch by (metis add.commute add_mset_add_single mset.simps mset_append union_mset_add_mset_right)
  have "heap_below before h' (length h')"
  proof -
    have "take n d ! j = d ! j" "take n d ! parent j = d ! parent j" if "j < n" for j
      using that by auto
    with d len show ?thesis by (auto simp: ch heap_below_def)
  qed
  moreover have "\<not> before x c" if x: "x \<in># mset h'" for x
  proof -
    from x mh have "x \<in> set h" by (metis insert_iff set_mset_add_mset_insert set_mset_mset)
    then obtain j where "j < length h" "x = h ! j" by (auto simp: in_set_conv_nth)
    with heap_below_least [OF w, of h "length h" j] h ch show ?thesis by (simp add: heap_ok_def)
  qed
  ultimately show ?thesis using mh by (simp add: heap_ok_def)
qed

lemma heap_push_ok:
  assumes "weak_order before" "heap_ok before h"
  shows "heap_ok before (heap_push before c h) \<and> mset (heap_push before c h) = add_mset c (mset h)"
proof -
  have "rising before (h @ [c]) (length h)"
    unfolding rising_def
  proof (intro conjI allI impI)
    fix j assume j: "0 < j \<and> j < length (h @ [c]) \<and> j \<noteq> length h"
    then have "j < length h" "parent j < length h" by auto
    with j assms(2) show "\<not> before ((h @ [c]) ! j) ((h @ [c]) ! parent j)"
      by (simp add: nth_append heap_ok_def heap_below_def)
  next
    fix j assume j: "0 < j \<and> j < length (h @ [c]) \<and> parent j = length h \<and> 0 < length h"
    then have "j \<le> length h" "parent j = length h" by simp_all
    then have False using j by linarith
    then show "\<not> before ((h @ [c]) ! j) ((h @ [c]) ! parent (length h))" ..
  qed simp
  from heap_up_ok [OF assms(1) this] show ?thesis by (simp add: heap_push_def)
qed

theorem heap_is_priority_queue:
  assumes "weak_order before"
  shows "priority_queue (heap_push before) (heap_pop before) mset (heap_ok before) before"
proof
  fix q :: "'a list" and c q' x
  show "heap_ok before q \<Longrightarrow> heap_ok before (heap_push before c q)"
    and "heap_ok before q \<Longrightarrow> mset (heap_push before c q) = add_mset c (mset q)"
    using heap_push_ok [OF assms] by blast+
  show "heap_pop before q = None \<longleftrightarrow> mset q = {#}"
    by (simp add: heap_pop_def Let_def)
  assume "heap_ok before q" "heap_pop before q = Some (c, q')"
  from heap_pop_ok [OF assms this]
  show "heap_ok before q'" "mset q = add_mset c (mset q')" "x \<in># mset q' \<Longrightarrow> \<not> before x c" by blast+
qed

lemma heap_ok_Nil [simp]: "heap_ok before []"
  by (simp add: heap_ok_def heap_below_def)

end
