(* ===== verification/MergeLoop.thy ===== *)
theory MergeLoop
  imports Runes GoHeap
begin

text \<open>
  The merge loop that \<^verbatim>\<open>BytePairEncoding.Encode\<close> and \<^verbatim>\<open>SentencePiece.Encode\<close> run on the
  code points of a word (\<^verbatim>\<open>tokenizer/bytepairencoding.go\<close>, \<^verbatim>\<open>tokenizer/sentencepiece.go\<close>):
  an array of entries that point to their live neighbours, and a priority queue of
  candidate merges of which stale ones are only discarded when they are popped. The two
  encoders differ in what a candidate is, which one comes first and which is dropped: these
  are the rules of a loop. The proofs show that the loop ends and does what the textbook
  algorithm does: as long as an adjacent pair can be merged, merge one that no other comes
  before.
\<close>

section \<open>The loop\<close>

record merge =
  mp :: int
  mn :: nat
  mrunes :: "nat list"

text \<open>
  What an encoder plugs into the loop: the candidate of two adjacent entries, given their
  positions and contents (the outer \<^const>\<open>None\<close> a panic, the inner one \<^verbatim>\<open>nil\<close>), the two
  entries of a candidate, whether it is out of date for their present contents, and
  whether the merged text may become an entry.
\<close>

record 'c merge_rules =
  propose :: "nat \<Rightarrow> nat \<Rightarrow> nat list \<Rightarrow> nat list \<Rightarrow> 'c option option"
  left_end :: "'c \<Rightarrow> nat"
  right_end :: "'c \<Rightarrow> nat"
  stale :: "'c \<Rightarrow> nat list \<Rightarrow> nat list \<Rightarrow> bool"
  accepted :: "'c \<Rightarrow> bool"

definition init_merges :: "nat list \<Rightarrow> merge list" where
  "init_merges runes =
     map (\<lambda>r. \<lparr>mp = int r - 1, mn = r + 1, mrunes = [runes ! r]\<rparr>) [0..<length runes]"

definition pairwise :: "'c merge_rules \<Rightarrow> merge list \<Rightarrow> int \<Rightarrow> nat \<Rightarrow> 'c option option" where
  "pairwise rules ms a b =
     (if a < 0 \<or> length ms \<le> b then Some None
      else propose rules (nat a) b (mrunes (ms ! nat a)) (mrunes (ms ! b)))"

definition push_some :: "('c \<Rightarrow> 'q \<Rightarrow> 'q) \<Rightarrow> 'c option \<Rightarrow> 'q \<Rightarrow> 'q" where
  "push_some push c q = (case c of None \<Rightarrow> q | Some c \<Rightarrow> push c q)"

fun queue_pairs :: "'c merge_rules \<Rightarrow> ('c \<Rightarrow> 'q \<Rightarrow> 'q) \<Rightarrow> merge list \<Rightarrow> nat list \<Rightarrow> 'q \<Rightarrow> 'q option" where
  "queue_pairs rules push ms [] q = Some q"
| "queue_pairs rules push ms (i # is) q =
     (case pairwise rules ms (int i) (i + 1) of
        None \<Rightarrow> None
      | Some c \<Rightarrow> queue_pairs rules push ms is (push_some push c q))"

text \<open>The entries after merging the one at \<^term>\<open>b\<close> into the one at \<^term>\<open>a\<close>.\<close>

definition merge_entries :: "merge list \<Rightarrow> nat \<Rightarrow> nat \<Rightarrow> merge list" where
  "merge_entries ms a b =
     (let left = ms ! a; right = ms ! b;
          ms = ms[a := (ms ! a)\<lparr>mrunes := mrunes left @ mrunes right\<rparr>];
          ms = ms[b := (ms ! b)\<lparr>mrunes := []\<rparr>];
          ms = ms[a := (ms ! a)\<lparr>mn := mn right\<rparr>]
      in if mn right < length ms then ms[mn right := (ms ! mn right)\<lparr>mp := int a\<rparr>] else ms)"

text \<open>One popped candidate.\<close>

definition merge_popped ::
  "'c merge_rules \<Rightarrow> ('c \<Rightarrow> 'q \<Rightarrow> 'q) \<Rightarrow> merge list \<Rightarrow> 'c \<Rightarrow> 'q \<Rightarrow> (merge list \<times> 'q) option" where
  "merge_popped rules push ms c q =
     (let a = left_end rules c; b = right_end rules c;
          left = mrunes (ms ! a); right = mrunes (ms ! b)
      in if left = [] \<or> right = [] \<or> stale rules c left right then Some (ms, q)
         else if \<not> accepted rules c then Some (ms, q)
         else let ms = merge_entries ms a b in
              case pairwise rules ms (mp (ms ! a)) a of
                None \<Rightarrow> None
              | Some c1 \<Rightarrow>
                  (case pairwise rules ms (int a) (mn (ms ! a)) of
                     None \<Rightarrow> None
                   | Some c2 \<Rightarrow> Some (ms, push_some push c2 (push_some push c1 q))))"

partial_function (option) merge_run ::
  "'c merge_rules \<Rightarrow> ('c \<Rightarrow> 'q \<Rightarrow> 'q) \<Rightarrow> ('q \<Rightarrow> ('c \<times> 'q) option) \<Rightarrow> merge list \<Rightarrow> 'q \<Rightarrow> merge list option" where
  "merge_run rules push pop ms q =
     (case pop q of
        None \<Rightarrow> Some ms
      | Some (c, q') \<Rightarrow>
          (case merge_popped rules push ms c q' of
             None \<Rightarrow> None
           | Some (ms', q'') \<Rightarrow> merge_run rules push pop ms' q''))"

declare merge_run.simps [code]

text \<open>The contents of the entries that are left when the loop is done.\<close>

definition live :: "merge list \<Rightarrow> nat list list" where
  "live ms = filter (\<lambda>s. s \<noteq> []) (map mrunes ms)"

definition merge_text ::
  "'c merge_rules \<Rightarrow> ('c \<Rightarrow> 'q \<Rightarrow> 'q) \<Rightarrow> ('q \<Rightarrow> ('c \<times> 'q) option) \<Rightarrow> 'q \<Rightarrow> nat list \<Rightarrow> nat list list option"
where
  "merge_text rules push pop q runes =
     (let ms = init_merges runes in
      case queue_pairs rules push ms [0..<length runes - 1] q of
        None \<Rightarrow> None
      | Some q \<Rightarrow> map_option live (merge_run rules push pop ms q))"

section \<open>The textbook algorithm\<close>

text \<open>The candidates of a segmented text: those of its adjacent segments.\<close>

definition candidate_at :: "'c merge_rules \<Rightarrow> nat list list \<Rightarrow> nat list list \<Rightarrow> 'c \<Rightarrow> bool" where
  "candidate_at rules segs xs c \<longleftrightarrow> (\<exists>l r ys. segs = xs @ l # r # ys
     \<and> propose rules (length (concat xs)) (length (concat xs) + length l) l r = Some (Some c)
     \<and> accepted rules c)"

definition candidates :: "'c merge_rules \<Rightarrow> nat list list \<Rightarrow> 'c set" where
  "candidates rules segs = {c. \<exists>xs. candidate_at rules segs xs c}"

text \<open>One step merges the two segments of a candidate that no other comes before.\<close>

inductive merge_step :: "'c merge_rules \<Rightarrow> ('c \<Rightarrow> 'c \<Rightarrow> bool) \<Rightarrow> nat list list \<Rightarrow> nat list list \<Rightarrow> bool"
  for rules before where
  "candidate_at rules (xs @ l # r # ys) xs c \<Longrightarrow>
   (\<And>x. x \<in> candidates rules (xs @ l # r # ys) \<Longrightarrow> \<not> before x c) \<Longrightarrow>
   merge_step rules before (xs @ l # r # ys) (xs @ (l @ r) # ys)"

section \<open>The entries represent a segmented text\<close>

text \<open>
  From position \<^term>\<open>i\<close>, whose entry points back to \<^term>\<open>p\<close>, to position \<^term>\<open>k\<close>, where the
  entry points back to \<^term>\<open>o'\<close>, the live entries hold the segments and point to each other.
\<close>

definition blank :: "merge list \<Rightarrow> nat \<Rightarrow> nat \<Rightarrow> bool" where
  "blank ms i k \<longleftrightarrow> (\<forall>j. i < j \<and> j < k \<longrightarrow> mrunes (ms ! j) = [])"

fun links :: "merge list \<Rightarrow> nat \<Rightarrow> int \<Rightarrow> nat list list \<Rightarrow> nat \<Rightarrow> int \<Rightarrow> bool" where
  "links ms i p [] k o' \<longleftrightarrow> i = k \<and> p = o'"
| "links ms i p (s # ss) k o' \<longleftrightarrow>
     s \<noteq> [] \<and> i + length s \<le> length ms \<and> mrunes (ms ! i) = s \<and> mp (ms ! i) = p
     \<and> mn (ms ! i) = i + length s \<and> blank ms i (i + length s)
     \<and> links ms (i + length s) (int i) ss k o'"

definition represents :: "merge list \<Rightarrow> nat list list \<Rightarrow> bool" where
  "represents ms segs \<longleftrightarrow> (\<exists>o'. links ms 0 (- 1) segs (length ms) o')"

lemma links_ConsD:
  assumes "links ms i p (s # ss) k o'"
  shows "s \<noteq> []" "i + length s \<le> length ms" "mrunes (ms ! i) = s" "mp (ms ! i) = p"
    "mn (ms ! i) = i + length s" "links ms (i + length s) (int i) ss k o'"
    "blank ms i (i + length s)"
  using assms by auto

lemma links_append:
  "links ms i p (xs @ ys) k o' \<longleftrightarrow> (\<exists>m o1. links ms i p xs m o1 \<and> links ms m o1 ys k o')"
  by (induction xs arbitrary: i p) auto

lemma links_end: "links ms i p segs k o' \<Longrightarrow> k = i + length (concat segs)"
proof (induction segs arbitrary: i p)
  case (Cons s ss)
  from Cons.IH [OF links_ConsD(6) [OF Cons.prems]] show ?case by simp
qed simp

lemma links_nonempty: "links ms i p segs k o' \<Longrightarrow> [] \<notin> set segs"
proof (induction segs arbitrary: i p)
  case (Cons s ss)
  from Cons.IH [OF links_ConsD(6) [OF Cons.prems]] links_ConsD(1) [OF Cons.prems] show ?case by simp
qed simp

lemma links_frame:
  assumes "links ms i p segs k o'" "length ms' = length ms" "\<And>j. i \<le> j \<Longrightarrow> j < k \<Longrightarrow> ms' ! j = ms ! j"
  shows "links ms' i p segs k o'"
  using assms
proof (induction segs arbitrary: i p)
  case (Cons s ss)
  have k: "k = i + length s + length (concat ss)" using links_end [OF Cons.prems(1)] by simp
  note c = links_ConsD [OF Cons.prems(1)]
  have same: "ms' ! j = ms ! j" if "i \<le> j" "j < i + length s" for j
    using Cons.prems(3) [of j] that k by simp
  have "links ms' (i + length s) (int i) ss k o'"
    using Cons.prems(2,3) c(6) by (intro Cons.IH) auto
  moreover have "ms' ! i = ms ! i" using same [of i] c(1) by simp
  moreover have "blank ms' i (i + length s)"
    using same c(7) by (simp add: blank_def)
  ultimately show ?case using Cons.prems(2) c(1-5) by (simp only: links.simps simp_thms)
qed simp

text \<open>A live entry is the start of a segment.\<close>

lemma links_live:
  assumes "links ms i p segs k o'" "i \<le> j" "j < k" "mrunes (ms ! j) \<noteq> []"
  shows "\<exists>xs ys. segs = xs @ mrunes (ms ! j) # ys \<and> j = i + length (concat xs)"
  using assms
proof (induction segs arbitrary: i p)
  case (Cons s ss)
  note c = links_ConsD [OF Cons.prems(1)]
  show ?case
  proof (cases "j = i")
    case True
    have "s # ss = [] @ mrunes (ms ! j) # ss" using True c(3) by simp
    with True show ?thesis by (metis add_0_right concat.simps(1) list.size(3))
  next
    case False
    with Cons.prems(2,4) c(7) have "i + length s \<le> j"
      unfolding blank_def by (metis le_neq_implies_less linorder_not_less)
    with Cons.prems c(6) obtain xs ys where "ss = xs @ mrunes (ms ! j) # ys" "j = i + length s + length (concat xs)"
      using Cons.IH by blast
    then show ?thesis by (intro exI [of _ "s # xs"] exI [of _ ys]) auto
  qed
qed simp

text \<open>What the entries say where two segments meet.\<close>

lemma links_pair:
  assumes "links ms i p (xs @ l # r # ys) k o'" "a = i + length (concat xs)"
  shows "a + length l + length r \<le> k" "mrunes (ms ! a) = l" "mrunes (ms ! (a + length l)) = r"
    "l \<noteq> []" "r \<noteq> []" "mn (ms ! a) = a + length l" "mn (ms ! (a + length l)) = a + length l + length r"
proof -
  from assms(1) obtain m o1 where x: "links ms i p xs m o1" "links ms m o1 (l # r # ys) k o'"
    unfolding links_append by blast
  from links_end [OF x(1)] assms(2) have m: "m = a" by simp
  from links_end [OF x(2)] m show "a + length l + length r \<le> k" by simp
  from x(2) m show "mrunes (ms ! a) = l" "mrunes (ms ! (a + length l)) = r" "l \<noteq> []" "r \<noteq> []"
    "mn (ms ! a) = a + length l" "mn (ms ! (a + length l)) = a + length l + length r" by auto
qed

lemma links_live_segs: "links ms i p segs k o' \<Longrightarrow> k \<le> length ms \<Longrightarrow>
  filter (\<lambda>s. s \<noteq> []) (map (\<lambda>j. mrunes (ms ! j)) [i..<k]) = segs"
proof (induction segs arbitrary: i p)
  case (Cons s ss)
  have k: "i + length s \<le> k" using links_end [OF Cons.prems(1)] by simp
  note c = links_ConsD [OF Cons.prems(1)]
  then have "0 < length s" by simp
  then have u: "[i..<k] = [i..<i + length s] @ [i + length s..<k]" "[i..<i + length s] = i # [i + 1..<i + length s]"
    using upt_add_eq_append [of i "i + length s" "k - (i + length s)"] k by (simp_all add: upt_conv_Cons)
  have "filter (\<lambda>s. s \<noteq> []) (map (\<lambda>j. mrunes (ms ! j)) [i + 1..<i + length s]) = []"
    using c(7) by (auto simp: filter_empty_conv blank_def)
  moreover have "filter (\<lambda>s. s \<noteq> []) (map (\<lambda>j. mrunes (ms ! j)) [i + length s..<k]) = ss"
    using Cons.prems(2) c(6) by (intro Cons.IH)
  ultimately show ?case using c(1,3) unfolding u by simp
qed simp

lemma represents_live: "represents ms segs \<Longrightarrow> live ms = segs"
  unfolding represents_def live_def
  using links_live_segs [of ms 0 "- 1" segs "length ms"]
  by (auto simp: map_nth [symmetric] simp del: map_nth) (metis (no_types, lifting) map_nth map_map comp_apply map_eq_conv order_refl)

lemma init_represents: "represents (init_merges runes) (map (\<lambda>r. [r]) runes)"
proof -
  have "links (init_merges runes) i (int i - 1) (map (\<lambda>r. [r]) (drop i runes)) (length runes) (int (length runes) - 1)"
    if "i \<le> length runes" for i
    using that
  proof (induction i rule: inc_induct)
    case (step i)
    then have "drop i runes = runes ! i # drop (Suc i) runes" by (simp add: Cons_nth_drop_Suc)
    with step show ?case by (auto simp: init_merges_def blank_def)
  qed simp
  from this [of 0] show ?thesis by (auto simp: represents_def init_merges_def)
qed

text \<open>Merging the entries of two adjacent segments merges the segments.\<close>

lemma merge_entries_nth:
  assumes "a < b" "b < length ms" "b < mn (ms ! b)"
  shows "length (merge_entries ms a b) = length ms"
    "merge_entries ms a b ! a = (ms ! a)\<lparr>mrunes := mrunes (ms ! a) @ mrunes (ms ! b), mn := mn (ms ! b)\<rparr>"
    "mrunes (merge_entries ms a b ! b) = []"
    "mn (ms ! b) < length ms \<Longrightarrow> merge_entries ms a b ! mn (ms ! b) = (ms ! mn (ms ! b))\<lparr>mp := int a\<rparr>"
    "\<And>j. j \<noteq> a \<Longrightarrow> j \<noteq> b \<Longrightarrow> j \<noteq> mn (ms ! b) \<Longrightarrow> merge_entries ms a b ! j = ms ! j"
    "\<And>j. j \<noteq> a \<Longrightarrow> j \<noteq> b \<Longrightarrow> mrunes (merge_entries ms a b ! j) = mrunes (ms ! j)"
  using assms by (auto simp: merge_entries_def Let_def nth_list_update)

lemma merge_represents:
  assumes "represents ms (xs @ l # r # ys)" "a = length (concat xs)"
  shows "represents (merge_entries ms a (a + length l)) (xs @ (l @ r) # ys)"
proof -
  define b e ms' where "b = a + length l" and "e = b + length r" and "ms' = merge_entries ms a b"
  from assms(1) obtain o' where li: "links ms 0 (- 1) (xs @ l # r # ys) (length ms) o'"
    by (auto simp: represents_def)
  then obtain m o1 where x: "links ms 0 (- 1) xs m o1" and lr: "links ms m o1 (l # r # ys) (length ms) o'"
    unfolding links_append by blast
  from links_end [OF x] assms(2) have m: "m = a" by simp
  note cl = links_ConsD [OF lr [unfolded m], folded b_def]
  note cr = links_ConsD [OF cl(6), folded e_def]
  have "0 < length l" "0 < length r" using cl(1) cr(1) by simp_all
  then have ab: "a < b" "b < e" "b < length ms" "e \<le> length ms" "b < mn (ms ! b)"
    using cr(2,5) unfolding b_def e_def by linarith+
  note nth = merge_entries_nth [OF ab(1,3,5), folded ms'_def, unfolded cr(5)]
  have "links ms' 0 (- 1) xs a o1"
    using x [unfolded m] nth(1,5) ab by (intro links_frame [OF x [unfolded m]]) auto
  moreover have "blank ms' a e"
    unfolding blank_def
  proof (intro allI impI)
    fix j assume j: "a < j \<and> j < e"
    with cl(7) cr(7) nth(3,6) show "mrunes (ms' ! j) = []"
      unfolding blank_def by (metis linorder_neqE_nat not_less_iff_gr_or_eq)
  qed
  moreover have "\<exists>o2. links ms' e (int a) ys (length ms') o2"
  proof (cases ys)
    case Nil
    with cr(6) nth(1) show ?thesis by auto
  next
    case (Cons y ys')
    note cy = links_ConsD [OF cr(6) [unfolded Cons]]
    have "e < length ms" using cy(1,2) by (cases y) auto
    then have e: "ms' ! e = (ms ! e)\<lparr>mp := int a\<rparr>" using nth(4) by simp
    have "links ms' (e + length y) (int e) ys' (length ms) o'"
    proof (rule links_frame [OF cy(6) nth(1)])
      fix j assume "e + length y \<le> j"
      moreover have "0 < length y" using cy(1) by simp
      ultimately show "ms' ! j = ms ! j" using ab by (intro nth(5)) linarith+
    qed
    moreover have "blank ms' e (e + length y)"
      using cy(7) nth(6) ab unfolding blank_def by (metis not_less_iff_gr_or_eq order_less_trans)
    ultimately have "links ms' e (int a) (y # ys') (length ms) o'"
      using cy(1-5) nth(1) e by simp
    with Cons nth(1) show ?thesis by auto
  qed
  moreover have "a + length (l @ r) = e" by (simp add: b_def e_def)
  ultimately obtain o2 where "links ms' 0 (- 1) xs a o1" "blank ms' a (a + length (l @ r))"
    "links ms' (a + length (l @ r)) (int a) ys (length ms') o2"
    by metis
  moreover have "links ms' a o1 ((l @ r) # ys) (length ms') o2"
    using calculation(2,3) nth(1,2) cl(1,3,4) cr(3) ab \<open>a + length (l @ r) = e\<close>
    by (simp del: length_append)
  ultimately have "links ms' 0 (- 1) (xs @ (l @ r) # ys) (length ms') o2"
    unfolding links_append by blast
  then show ?thesis unfolding represents_def ms'_def b_def by blast
qed

section \<open>The invariant of the loop\<close>

text \<open>
  A queued candidate was proposed for a segment and what then followed it; since then both
  may have been merged, but no new segment has started inside them.
\<close>

definition queued :: "'c merge_rules \<Rightarrow> nat list \<Rightarrow> merge list \<Rightarrow> 'c \<Rightarrow> bool" where
  "queued rules text ms c \<longleftrightarrow> (\<exists>l r. let a = left_end rules c; b = right_end rules c in
     propose rules a b l r = Some (Some c) \<and> l \<noteq> [] \<and> r \<noteq> [] \<and> b = a + length l
     \<and> prefix (l @ r) (drop a text) \<and> blank ms a b \<and> blank ms b (b + length r))"

definition loop_inv ::
  "'c merge_rules \<Rightarrow> nat list \<Rightarrow> merge list \<Rightarrow> nat list list \<Rightarrow> 'c multiset \<Rightarrow> bool" where
  "loop_inv rules text ms segs Q \<longleftrightarrow> represents ms segs \<and> concat segs = text
     \<and> (\<forall>c \<in># Q. queued rules text ms c) \<and> candidates rules segs \<subseteq> set_mset Q"

lemma represents_length: "represents ms segs \<Longrightarrow> length ms = length (concat segs)"
  using links_end by (fastforce simp: represents_def)

lemma representsD:
  assumes "represents ms (xs @ s # ys)" "a = length (concat xs)"
  shows "s \<noteq> []" "mrunes (ms ! a) = s" "mn (ms ! a) = a + length s" "blank ms a (a + length s)"
    "mp (ms ! a) = (if xs = [] then - 1 else int (length (concat (butlast xs))))"
proof -
  from assms(1) obtain o' where li: "links ms 0 (- 1) (xs @ s # ys) (length ms) o'"
    by (auto simp: represents_def)
  then obtain m o1 where x: "links ms 0 (- 1) xs m o1" and sy: "links ms m o1 (s # ys) (length ms) o'"
    unfolding links_append by blast
  from links_end [OF x] assms(2) have m: "m = a" by simp
  note c = links_ConsD [OF sy [unfolded m]]
  from c show "s \<noteq> []" "mrunes (ms ! a) = s" "mn (ms ! a) = a + length s" "blank ms a (a + length s)"
    by blast+
  have "o1 = (if xs = [] then - 1 else int (length (concat (butlast xs))))"
  proof (cases xs rule: rev_cases)
    case (snoc zs z)
    from x [unfolded snoc links_append] obtain m1 o2
      where z: "links ms 0 (- 1) zs m1 o2" "links ms m1 o2 [z] m o1" by blast
    from z(2) have "o1 = int m1" by simp
    with links_end [OF z(1)] snoc show ?thesis by simp
  qed (use x in simp)
  with c(4) show "mp (ms ! a) = (if xs = [] then - 1 else int (length (concat (butlast xs))))" by simp
qed

lemma represents_nonempty: "represents ms segs \<Longrightarrow> [] \<notin> set segs"
  using links_nonempty unfolding represents_def by blast

text \<open>What the loop proposes for a segment and its neighbours.\<close>

lemma pairwise_right:
  assumes "represents ms (xs @ s # ys)" "a = length (concat xs)"
  shows "pairwise rules ms (int a) (mn (ms ! a))
    = (case ys of [] \<Rightarrow> Some None | r # _ \<Rightarrow> propose rules a (a + length s) s r)"
proof -
  note s = representsD [OF assms] and len = represents_length [OF assms(1)]
  show ?thesis
  proof (cases ys)
    case Nil
    with s len assms(2) show ?thesis by (simp add: pairwise_def)
  next
    case (Cons r ys')
    have "represents ms ((xs @ [s]) @ r # ys')" using assms(1) Cons by simp
    note r = representsD [OF this refl]
    have "0 < length r" using r(1) by simp
    then show ?thesis using Cons s r len assms(2) by (simp add: pairwise_def)
  qed
qed

lemma pairwise_left:
  assumes "represents ms (xs @ s # ys)" "a = length (concat xs)"
  shows "pairwise rules ms (mp (ms ! a)) a
    = (if xs = [] then Some None else propose rules (length (concat (butlast xs))) a (last xs) s)"
proof -
  note s = representsD [OF assms] and len = represents_length [OF assms(1)]
  show ?thesis
  proof (cases xs rule: rev_cases)
    case Nil
    with s show ?thesis by (simp add: pairwise_def)
  next
    case (snoc zs z)
    have "represents ms (zs @ z # s # ys)" using assms(1) snoc by simp
    note z = representsD [OF this refl]
    have "a < length ms" using s(1) len assms(2) by simp
    with snoc s z show ?thesis by (simp add: pairwise_def)
  qed
qed

text \<open>A candidate of two present segments is queued for them.\<close>

lemma queuedI:
  assumes "represents ms (xs @ l # r # ys)" "a = length (concat xs)"
    "propose rules a (a + length l) l r = Some (Some c)" "left_end rules c = a" "right_end rules c = a + length l"
  shows "queued rules (concat (xs @ l # r # ys)) ms c"
proof -
  note l = representsD [OF assms(1,2)]
  have "represents ms ((xs @ [l]) @ r # ys)" using assms(1) by simp
  note r = representsD [OF this refl]
  show ?thesis
    unfolding queued_def Let_def
    by (rule exI [of _ l], rule exI [of _ r]) (use l r assms(2-) in simp)
qed

text \<open>
  If both entries of a queued candidate are live, they still are neighbours, the left one
  as it was, the right one possibly longer.
\<close>

lemma queued_current:
  assumes R: "represents ms segs" and q: "queued rules (concat segs) ms c"
    and a: "a = left_end rules c" "mrunes (ms ! a) \<noteq> []"
    and b: "b = right_end rules c" "mrunes (ms ! b) \<noteq> []"
  obtains xs l r0 r ys where "segs = xs @ l # r # ys" "a = length (concat xs)" "b = a + length l"
    "mrunes (ms ! a) = l" "mrunes (ms ! b) = r" "prefix r0 r"
    "propose rules a b l r0 = Some (Some c)"
proof -
  from q a(1) b(1) obtain l r0 where lr: "propose rules a b l r0 = Some (Some c)" "l \<noteq> []" "r0 \<noteq> []"
    "b = a + length l" "prefix (l @ r0) (drop a (concat segs))" "blank ms a b" "blank ms b (b + length r0)"
    by (auto simp: queued_def Let_def)
  note len = represents_length [OF R]
  have "length (l @ r0) \<le> length (concat segs) - a" using prefix_length_le [OF lr(5)] by simp
  moreover have "0 < length r0" using lr(3) by simp
  ultimately have fin: "b + length r0 \<le> length ms" "b < length ms" "a < length ms"
    using lr(4) len unfolding length_append by linarith+
  from R obtain o' where "links ms 0 (- 1) segs (length ms) o'" by (auto simp: represents_def)
  from links_live [OF this _ fin(3) a(2)] obtain xs ys where
    segs: "segs = xs @ mrunes (ms ! a) # ys" and ax: "a = length (concat xs)" by auto
  define s where "s = mrunes (ms ! a)"
  note segs = segs [folded s_def]
  note cs = representsD [OF R [unfolded segs] ax]
  have le: "length s \<le> length l"
  proof (rule ccontr)
    assume "\<not> length s \<le> length l"
    with lr(2,4) have "a < b" "b < a + length s" by auto
    with cs(4) b(2) show False by (simp add: blank_def)
  qed
  have "length ms = a + length s + length (concat ys)" using len segs ax by simp
  with fin(2) lr(4) le have "ys \<noteq> []" by auto
  then obtain r ys' where ys: "ys = r # ys'" by (cases ys) auto
  have "represents ms ((xs @ [s]) @ r # ys')" using R segs ys by simp
  note cr = representsD [OF this refl]
  have ge: "length l \<le> length s"
  proof (rule ccontr)
    assume "\<not> length l \<le> length s"
    with cs(1) lr(4) have "a < a + length s" "a + length s < b" by auto
    with lr(6) have "mrunes (ms ! (a + length s)) = []" by (simp add: blank_def)
    with cr(1,2) ax show False by simp
  qed
  have rest: "drop a (concat segs) = s @ r @ concat ys'" using segs ys ax by simp
  then have sl: "s = l" using le ge lr(5) by (auto simp: prefix_def append_eq_append_conv)
  then have bb: "length (concat (xs @ [s])) = b" using ax lr(4) by simp
  note cr = cr [unfolded bb]
  have "length r0 \<le> length r"
  proof (rule ccontr)
    assume g: "\<not> length r0 \<le> length r"
    have "length ms = b + length r + length (concat ys')" using len segs ys ax lr(4) sl by simp
    with g fin(1) have "ys' \<noteq> []" by auto
    then obtain r' ys'' where "ys' = r' # ys''" by (cases ys') auto
    then have "represents ms ((xs @ [s, r]) @ r' # ys'')" using R segs ys by simp
    have bb': "length (concat (xs @ [s, r])) = b + length r" using bb by simp
    note cr' = representsD [OF \<open>represents ms ((xs @ [s, r]) @ r' # ys'')\<close> bb' [symmetric]]
    have "b < b + length r" "b + length r < b + length r0" using g cr(1) by auto
    with lr(7) have "mrunes (ms ! (b + length r)) = []" by (simp add: blank_def)
    with cr'(1,2) show False by simp
  qed
  moreover from lr(5) rest sl have "prefix r0 (r @ concat ys')" by (auto simp: prefix_def)
  ultimately have "prefix r0 r" by (metis prefix_length_prefix prefixI)
  with that segs ys sl ax lr(1,4) cs(2) cr(2) show thesis by metis
qed

lemma adjacent_cases:
  assumes "us @ p # q # vs = xs @ m # ys"
  shows "(\<exists>ws. xs = us @ p # q # ws \<and> vs = ws @ m # ys) \<or> xs = us @ [p] \<and> q = m \<and> vs = ys
    \<or> us = xs \<and> p = m \<and> ys = q # vs \<or> (\<exists>ws. us = xs @ m # ws \<and> ys = ws @ p # q # vs)"
  using assms
proof (induction us arbitrary: xs)
  case Nil
  then show ?case
    by (cases xs; cases "tl xs") auto
next
  case (Cons u us)
  then show ?case
  proof (cases xs)
    case Nil
    with Cons.prems show ?thesis by auto
  next
    case (Cons x xs')
    with Cons.prems Cons.IH [of xs'] show ?thesis by auto
  qed
qed

lemma blank_merge:
  assumes "represents ms (xs @ l # r # ys)" "a = length (concat xs)" "blank ms i k"
  shows "blank (merge_entries ms a (a + length l)) i k"
proof -
  have R: "represents ms ((xs @ [l]) @ r # ys)" using assms(1) by simp
  have b: "a + length l = length (concat (xs @ [l]))" using assms(2) by simp
  note l = representsD [OF assms(1,2)] and r = representsD [OF R b]
  have "0 < length l" "0 < length r" using l(1) r(1) by simp_all
  moreover have "a + length l + length r \<le> length ms" using represents_length [OF R] b by simp
  ultimately have "a < a + length l" "a + length l < length ms" "a + length l < mn (ms ! (a + length l))"
    using r(3) by linarith+
  note nth = merge_entries_nth [OF this]
  have "mrunes (merge_entries ms a (a + length l) ! j) = []" if j: "i < j" "j < k" for j
  proof -
    have "mrunes (ms ! j) = []" using assms(3) j by (simp add: blank_def)
    moreover then have "j \<noteq> a" using l(1,2) by auto
    ultimately show ?thesis using nth(3,6) by metis
  qed
  then show ?thesis by (simp add: blank_def)
qed

lemma queued_merge:
  assumes "represents ms (xs @ l # r # ys)" "a = length (concat xs)" "queued rules text ms c"
  shows "queued rules text (merge_entries ms a (a + length l)) c"
  using assms(3) blank_merge [OF assms(1,2)] unfolding queued_def Let_def by meson

section \<open>Correctness of the loop\<close>

text \<open>
  The loop with the rules of an encoder: the ends of a candidate are those it was proposed
  for, and once its right segment has grown it is stale.
\<close>

locale merge_loop = priority_queue push pop items ok before
  for push :: "'c \<Rightarrow> 'q \<Rightarrow> 'q" and pop :: "'q \<Rightarrow> ('c \<times> 'q) option"
    and items :: "'q \<Rightarrow> 'c multiset" and ok :: "'q \<Rightarrow> bool" and before :: "'c \<Rightarrow> 'c \<Rightarrow> bool" +
  fixes rules :: "'c merge_rules" and wf :: bool
  assumes propose_total: "wf \<Longrightarrow> propose rules a b l r \<noteq> None"
    and propose_ends: "propose rules a b l r = Some (Some c) \<Longrightarrow> left_end rules c = a \<and> right_end rules c = b"
    and stale_iff: "propose rules a b l r0 = Some (Some c) \<Longrightarrow> prefix r0 r \<Longrightarrow> stale rules c l r \<longleftrightarrow> r \<noteq> r0"
    and before_irrefl: "\<not> before c c"
begin

lemma pairwise_total: "wf \<Longrightarrow> pairwise rules ms a b \<noteq> None"
  using propose_total by (simp add: pairwise_def)

lemma candidate_queued:
  assumes "represents ms (xs @ l # r # ys)"
    "propose rules (length (concat xs)) (length (concat xs) + length l) l r = Some (Some c)"
  shows "queued rules (concat (xs @ l # r # ys)) ms c"
  using queuedI [OF assms(1) refl assms(2)] propose_ends [OF assms(2)] by blast

text \<open>Merging two segments leaves the candidates of the pairs that do not involve them.\<close>

lemma candidates_merge:
  assumes "x \<in> candidates rules (xs @ (l @ r) # ys)"
    and old: "propose rules (length (concat xs)) (length (concat xs) + length l) l r = Some (Some c)"
    and ne: "[] \<notin> set (xs @ l # r # ys)"
  shows "x \<in> candidates rules (xs @ l # r # ys) \<and> x \<noteq> c
    \<or> (\<exists>zs. xs = zs @ [last xs] \<and> propose rules (length (concat zs)) (length (concat xs)) (last xs) (l @ r) = Some (Some x))
    \<or> (\<exists>q vs. ys = q # vs \<and> propose rules (length (concat xs)) (length (concat xs) + length (l @ r)) (l @ r) q = Some (Some x))"
proof -
  from assms(1) obtain us p q vs where segs: "xs @ (l @ r) # ys = us @ p # q # vs"
    and pr: "propose rules (length (concat us)) (length (concat us) + length p) p q = Some (Some x)"
    and acc: "accepted rules x"
    by (auto simp: candidates_def candidate_at_def)
  have ends: "left_end rules c = length (concat xs)" "left_end rules x = length (concat us)"
    using propose_ends [OF old] propose_ends [OF pr] by auto
  consider (left) ws where "xs = us @ p # q # ws" | (last) "xs = us @ [p]" "q = l @ r"
    | (first) "us = xs" "p = l @ r" "ys = q # vs" | (right) ws where "us = xs @ (l @ r) # ws" "ys = ws @ p # q # vs"
    using adjacent_cases [OF segs [symmetric]] by auto
  then show ?thesis
  proof cases
    case left
    then have "candidate_at rules (xs @ l # r # ys) us x"
      unfolding candidate_at_def by (intro exI [of _ p] exI [of _ q] exI [of _ "ws @ l # r # ys"]) (use pr acc in simp)
    moreover have "x \<noteq> c" using left ne ends by auto
    ultimately show ?thesis by (auto simp: candidates_def)
  next
    case last
    with pr show ?thesis by simp
  next
    case first
    with pr show ?thesis by simp
  next
    case right
    then have "candidate_at rules (xs @ l # r # ys) (xs @ l # r # ws) x"
      unfolding candidate_at_def by (intro exI [of _ p] exI [of _ q] exI [of _ vs]) (use pr acc in \<open>simp add: ac_simps\<close>)
    moreover have "x \<noteq> c" using right ne ends by auto
    ultimately show ?thesis by (auto simp: candidates_def)
  qed
qed

text \<open>One iteration.\<close>

lemma merge_popped_skip:
  assumes wf and inv: "loop_inv rules text ms segs (add_mset c (items q))"
    and skip: "mrunes (ms ! left_end rules c) = [] \<or> mrunes (ms ! right_end rules c) = []
      \<or> stale rules c (mrunes (ms ! left_end rules c)) (mrunes (ms ! right_end rules c)) \<or> \<not> accepted rules c"
  shows "merge_popped rules push ms c q = Some (ms, q) \<and> loop_inv rules text ms segs (items q)"
proof -
  have "c \<notin> candidates rules segs"
  proof
    assume "c \<in> candidates rules segs"
    then obtain xs l r ys where segs: "segs = xs @ l # r # ys"
      and pr: "propose rules (length (concat xs)) (length (concat xs) + length l) l r = Some (Some c)"
      and acc: "accepted rules c"
      by (auto simp: candidates_def candidate_at_def)
    have R: "represents ms (xs @ l # r # ys)" "represents ms ((xs @ [l]) @ r # ys)"
      using inv segs by (auto simp: loop_inv_def)
    note l = representsD [OF R(1) refl] and r = representsD [OF R(2) refl]
    have "\<not> stale rules c l r" using stale_iff [OF pr, of r] by simp
    with skip acc l(1,2) r(1,2) propose_ends [OF pr] show False by simp
  qed
  then have "loop_inv rules text ms segs (items q)"
    using inv by (auto simp: loop_inv_def)
  moreover have "merge_popped rules push ms c q = Some (ms, q)"
    using skip by (auto simp: merge_popped_def Let_def)
  ultimately show ?thesis by blast
qed

lemma push_some_items: "ok q \<Longrightarrow> ok (push_some push c q)
  \<and> items (push_some push c q) = (case c of None \<Rightarrow> {#} | Some c \<Rightarrow> {#c#}) + items q"
  by (auto simp: push_some_def push_ok push_items split: option.splits)

lemma merge_popped_merge:
  assumes wf and ok: "ok q" and inv: "loop_inv rules text ms segs (add_mset c (items q))"
    and least: "\<And>x. x \<in># items q \<Longrightarrow> \<not> before x c"
    and go: "mrunes (ms ! left_end rules c) \<noteq> []" "mrunes (ms ! right_end rules c) \<noteq> []"
      "\<not> stale rules c (mrunes (ms ! left_end rules c)) (mrunes (ms ! right_end rules c))" "accepted rules c"
  shows "\<exists>ms' q' segs'. merge_popped rules push ms c q = Some (ms', q') \<and> ok q'
    \<and> loop_inv rules text ms' segs' (items q') \<and> merge_step rules before segs segs'
    \<and> length segs = Suc (length segs') \<and> size (items q') \<le> size (items q) + 2"
proof -
  define a b where "a = left_end rules c" and "b = right_end rules c"
  have R0: "represents ms segs" and flat: "concat segs = text" and cq: "queued rules (concat segs) ms c"
    and qs: "\<And>x. x \<in># items q \<Longrightarrow> queued rules text ms x"
    and cov: "candidates rules segs \<subseteq> insert c (set_mset (items q))"
    using inv by (auto simp: loop_inv_def)
  from queued_current [OF R0 cq a_def go(1) [folded a_def] b_def go(2) [folded b_def]]
  obtain xs l r0 r ys where segs: "segs = xs @ l # r # ys" and a: "a = length (concat xs)"
    and b: "b = a + length l" and lr: "mrunes (ms ! a) = l" "mrunes (ms ! b) = r"
    and r0: "prefix r0 r" and pr0: "propose rules a b l r0 = Some (Some c)" by metis
  have "r = r0" using stale_iff [OF pr0 r0] go(3) lr unfolding a_def b_def by simp
  with pr0 a b have pr: "propose rules (length (concat xs)) (length (concat xs) + length l) l r = Some (Some c)" by simp
  have cand: "candidate_at rules (xs @ l # r # ys) xs c"
    using pr go(4) by (auto simp: candidate_at_def)
  have step: "merge_step rules before segs (xs @ (l @ r) # ys)"
    unfolding segs by (rule merge_step.intros [OF cand]) (use cov least before_irrefl segs in auto)
  define ms' where "ms' = merge_entries ms a b"
  have R: "represents ms' (xs @ (l @ r) # ys)"
    using merge_represents [OF R0 [unfolded segs] a] by (simp add: ms'_def b)
  have ne: "[] \<notin> set (xs @ l # r # ys)"
    using represents_nonempty [OF R0] segs by simp
  have pr1: "pairwise rules ms' (mp (ms' ! a)) a
      = (if xs = [] then Some None else propose rules (length (concat (butlast xs))) a (last xs) (l @ r))"
    by (rule pairwise_left [OF R a])
  have pr2: "pairwise rules ms' (int a) (mn (ms' ! a))
      = (case ys of [] \<Rightarrow> Some None | r' # _ \<Rightarrow> propose rules a (a + length (l @ r)) (l @ r) r')"
    by (rule pairwise_right [OF R a])
  obtain c1 where c1: "pairwise rules ms' (mp (ms' ! a)) a = Some c1"
    using pairwise_total [OF assms(1)] by blast
  obtain c2 where c2: "pairwise rules ms' (int a) (mn (ms' ! a)) = Some c2"
    using pairwise_total [OF assms(1)] by blast
  define q' where "q' = push_some push c2 (push_some push c1 q)"
  have popped: "merge_popped rules push ms c q = Some (ms', q')"
    using go c1 c2 by (simp add: merge_popped_def Let_def a_def [symmetric] b_def [symmetric] ms'_def q'_def)
  have okq: "ok q'" and itq: "items q' = (case c2 of None \<Rightarrow> {#} | Some c \<Rightarrow> {#c#})
      + (case c1 of None \<Rightarrow> {#} | Some c \<Rightarrow> {#c#}) + items q"
    using push_some_items [OF ok, of c1] push_some_items [of "push_some push c1 q" c2]
    by (auto simp: q'_def ac_simps)
  have flat': "concat (xs @ (l @ r) # ys) = text" using flat segs by simp
  have "queued rules text ms' x" if x: "x \<in># items q'" for x
  proof -
    consider "c1 = Some x" | "c2 = Some x" | "x \<in># items q"
      using x itq by (auto split: option.splits)
    then show ?thesis
    proof cases
      case 1
      with c1 pr1 obtain zs z where "xs = zs @ [z]"
        "propose rules (length (concat zs)) (length (concat zs) + length z) z (l @ r) = Some (Some x)"
        using a by (cases xs rule: rev_cases) auto
      with candidate_queued [of ms' zs z "l @ r" ys x] R flat' show ?thesis by simp
    next
      case 2
      with c2 pr2 obtain y vs where "ys = y # vs"
        "propose rules (length (concat xs)) (length (concat xs) + length (l @ r)) (l @ r) y = Some (Some x)"
        using a by (cases ys) auto
      with candidate_queued [of ms' xs "l @ r" y vs x] R flat' show ?thesis by simp
    next
      case 3
      from queued_merge [OF R0 [unfolded segs] a qs [OF 3]] show ?thesis by (simp add: ms'_def b)
    qed
  qed
  moreover have "candidates rules (xs @ (l @ r) # ys) \<subseteq> set_mset (items q')"
  proof
    fix x assume "x \<in> candidates rules (xs @ (l @ r) # ys)"
    from candidates_merge [OF this pr ne] consider "x \<in> candidates rules segs" "x \<noteq> c"
      | zs where "xs = zs @ [last xs]" "propose rules (length (concat zs)) (length (concat xs)) (last xs) (l @ r) = Some (Some x)"
      | y vs where "ys = y # vs" "propose rules (length (concat xs)) (length (concat xs) + length (l @ r)) (l @ r) y = Some (Some x)"
      unfolding segs by blast
    then show "x \<in># items q'"
    proof cases
      case 1
      with cov itq show ?thesis by auto
    next
      case 2
      have "xs \<noteq> []" "butlast xs = zs" using 2(1) by (metis snoc_eq_iff_butlast)+
      with 2(2) pr1 c1 a have "c1 = Some x" by simp
      with itq show ?thesis by simp
    next
      case 3
      with pr2 c2 a have "c2 = Some x" by simp
      with itq show ?thesis by simp
    qed
  qed
  ultimately have "loop_inv rules text ms' (xs @ (l @ r) # ys) (items q')"
    using R flat' by (simp add: loop_inv_def)
  moreover have "size (items q') \<le> size (items q) + 2"
    unfolding itq by (cases c1; cases c2) auto
  ultimately show ?thesis using popped okq step segs
    by (intro exI [of _ ms'] exI [of _ q'] exI [of _ "xs @ (l @ r) # ys"]) simp
qed

text \<open>The loop ends, in a segmentation without candidates that the algorithm reaches.\<close>

lemma merge_run_refines:
  assumes wf "ok q" "loop_inv rules text ms segs (items q)"
  shows "\<exists>ms' segs'. merge_run rules push pop ms q = Some ms' \<and> represents ms' segs'
    \<and> (merge_step rules before)\<^sup>*\<^sup>* segs segs' \<and> candidates rules segs' = {}"
  using assms(2,3)
proof (induction "3 * length segs + size (items q)" arbitrary: q ms segs rule: less_induct)
  case less
  show ?case
  proof (cases "pop q")
    case None
    with pop_None [OF less.prems(1)] less.prems(2) have "represents ms segs" "candidates rules segs = {}"
      by (auto simp: loop_inv_def)
    with None show ?thesis by (subst merge_run.simps) auto
  next
    case (Some cq)
    obtain c q1 where cq: "cq = (c, q1)" by fastforce
    note pop = Some [unfolded cq]
    note q1 = pop_ok [OF less.prems(1) pop] pop_items [OF less.prems(1) pop] pop_least [OF less.prems(1) pop]
    note inv = less.prems(2) [unfolded q1(2)]
    have run: "merge_run rules push pop ms q = (case merge_popped rules push ms c q1 of
        None \<Rightarrow> None | Some (ms', q'') \<Rightarrow> merge_run rules push pop ms' q'')"
      using pop by (subst merge_run.simps) simp
    show ?thesis
    proof (cases "mrunes (ms ! left_end rules c) = [] \<or> mrunes (ms ! right_end rules c) = []
        \<or> stale rules c (mrunes (ms ! left_end rules c)) (mrunes (ms ! right_end rules c)) \<or> \<not> accepted rules c")
      case True
      note sk = merge_popped_skip [OF assms(1) inv True]
      have "3 * length segs + size (items q1) < 3 * length segs + size (items q)" using q1(2) by simp
      from less.hyps [OF this q1(1)] sk run show ?thesis by simp
    next
      case False
      then obtain ms' q' segs' where st: "merge_popped rules push ms c q1 = Some (ms', q')" "ok q'"
        "loop_inv rules text ms' segs' (items q')" "merge_step rules before segs segs'"
        "length segs = Suc (length segs')" "size (items q') \<le> size (items q1) + 2"
        using merge_popped_merge [OF assms(1) q1(1) inv q1(3)] by blast
      then have "3 * length segs' + size (items q') < 3 * length segs + size (items q)" using q1(2) by simp
      from less.hyps [OF this st(2,3)] run st(1) obtain ms2 segs2
        where "merge_run rules push pop ms q = Some ms2" "represents ms2 segs2"
          "(merge_step rules before)\<^sup>*\<^sup>* segs' segs2" "candidates rules segs2 = {}" by auto
      with st(4) show ?thesis by (meson converse_rtranclp_into_rtranclp)
    qed
  qed
qed

lemma queue_pairs_items:
  assumes wf "ok q"
  shows "\<exists>q'. queue_pairs rules push ms is q = Some q' \<and> ok q' \<and> set_mset (items q')
    = set_mset (items q) \<union> {c. \<exists>i \<in> set is. pairwise rules ms (int i) (i + 1) = Some (Some c)}"
  using assms(2)
proof (induction "is" arbitrary: q)
  case (Cons i "is")
  obtain c where c: "pairwise rules ms (int i) (i + 1) = Some c"
    using pairwise_total [OF assms(1)] by blast
  from push_some_items [OF Cons.prems, of c]
  have q: "ok (push_some push c q)"
    "set_mset (items (push_some push c q)) = set_mset (items q) \<union> (case c of None \<Rightarrow> {} | Some c \<Rightarrow> {c})"
    by (auto split: option.splits)
  from Cons.IH [OF q(1)] c q(2) show ?case by (auto split: option.splits)
qed simp

lemma single_segments:
  assumes "map (\<lambda>r. [r]) runes = xs @ l # r # ys"
  shows "length (concat xs) + 1 < length runes \<and> l = [runes ! length (concat xs)]
    \<and> r = [runes ! (length (concat xs) + 1)]"
proof -
  have "concat (map (\<lambda>r. [r]) runes) = runes" by (induction runes) auto
  with assms have "runes = concat (xs @ l # r # ys)" by simp
  moreover have "l \<in> set (map (\<lambda>r. [r]) runes)" "r \<in> set (map (\<lambda>r. [r]) runes)"
    unfolding assms by simp_all
  then have "length l = 1" "length r = 1" by auto
  ultimately show ?thesis by (cases l; cases r) (auto simp: nth_append)
qed

lemma merge_text_refines:
  assumes wf "ok q" "items q = {#}"
  shows "\<exists>segs. merge_text rules push pop q runes = Some segs
    \<and> (merge_step rules before)\<^sup>*\<^sup>* (map (\<lambda>r. [r]) runes) segs \<and> candidates rules segs = {}"
proof -
  define ms segs where "ms = init_merges runes" and "segs = map (\<lambda>r. [r]) runes"
  obtain q' where q': "queue_pairs rules push ms [0..<length runes - 1] q = Some q'" "ok q'"
    "set_mset (items q') = {c. \<exists>i \<in> {0..<length runes - 1}. pairwise rules ms (int i) (i + 1) = Some (Some c)}"
    using queue_pairs_items [OF assms(1,2), of ms "[0..<length runes - 1]"] assms(3) by auto
  have R: "represents ms segs" unfolding ms_def segs_def by (rule init_represents)
  have pair: "pairwise rules ms (int i) (i + 1) = propose rules i (i + 1) [runes ! i] [runes ! (i + 1)]"
    if "i + 1 < length runes" for i
    using that by (simp add: pairwise_def ms_def init_merges_def)
  have split: "segs = take i segs @ [runes ! i] # [runes ! (i + 1)] # drop (i + 2) segs \<and> length (concat (take i segs)) = i"
    if "i + 1 < length runes" for i
  proof
    have "length segs = length runes" by (simp add: segs_def)
    then show "segs = take i segs @ [runes ! i] # [runes ! (i + 1)] # drop (i + 2) segs"
      using that by (metis (no_types, lifting) Cons_nth_drop_Suc Suc_eq_plus1 add_2_eq_Suc' add_lessD1 id_take_nth_drop nth_map segs_def)
    have "length (concat (map (\<lambda>r. [r]) xs)) = length xs" for xs :: "nat list" by (induction xs) auto
    then show "length (concat (take i segs)) = i" using that by (simp add: segs_def take_map)
  qed
  have "queued rules (concat segs) ms c" if "c \<in># items q'" for c
  proof -
    from that q'(3) obtain i where i: "i < length runes - 1" "pairwise rules ms (int i) (i + 1) = Some (Some c)"
      by auto
    then have i: "i + 1 < length runes" "pairwise rules ms (int i) (i + 1) = Some (Some c)" by simp_all
    with pair have "propose rules i (i + 1) [runes ! i] [runes ! (i + 1)] = Some (Some c)" by simp
    with split [OF i(1)] candidate_queued [of ms "take i segs" "[runes ! i]" "[runes ! (i + 1)]" "drop (i + 2) segs" c] R
    show ?thesis by (metis One_nat_def length_Cons list.size(3))
  qed
  moreover have "candidates rules segs \<subseteq> set_mset (items q')"
  proof
    fix c assume "c \<in> candidates rules segs"
    then obtain xs l r ys where x: "segs = xs @ l # r # ys"
      "propose rules (length (concat xs)) (length (concat xs) + length l) l r = Some (Some c)"
      by (auto simp: candidates_def candidate_at_def)
    note s = single_segments [OF x(1) [unfolded segs_def]]
    with x(2) pair have "pairwise rules ms (int (length (concat xs))) (length (concat xs) + 1) = Some (Some c)" by simp
    with s q'(3) show "c \<in># items q'" by auto
  qed
  ultimately have "loop_inv rules (concat segs) ms segs (items q')" using R by (simp add: loop_inv_def)
  from merge_run_refines [OF assms(1) q'(2) this] q'(1) represents_live show ?thesis
    by (auto simp: merge_text_def Let_def ms_def segs_def)
qed

end

section \<open>What the algorithm keeps\<close>

lemma merge_steps_concat:
  assumes "(merge_step rules before)\<^sup>*\<^sup>* segs segs'"
  shows "concat segs' = concat segs"
  using assms by induction (auto elim: merge_step.cases)

text \<open>A segment of more than one code point was accepted.\<close>

definition merged_ok :: "'c merge_rules \<Rightarrow> nat list \<Rightarrow> bool" where
  "merged_ok rules s \<longleftrightarrow> (\<exists>a l r c. s = l @ r \<and> propose rules a (a + length l) l r = Some (Some c) \<and> accepted rules c)"

lemma merge_steps_accepted:
  assumes "(merge_step rules before)\<^sup>*\<^sup>* (map (\<lambda>r. [r]) runes) segs" "s \<in> set segs"
  shows "(\<exists>r \<in> set runes. s = [r]) \<or> merged_ok rules s"
  using assms
proof (induction arbitrary: s)
  case (step segs segs')
  from step(2) obtain xs l r ys c where st: "segs = xs @ l # r # ys" "segs' = xs @ (l @ r) # ys"
    "candidate_at rules segs xs c" by cases auto
  then have "merged_ok rules (l @ r)" by (auto simp: merged_ok_def candidate_at_def)
  with st step(3,4) show ?case by auto
qed auto

section \<open>The algorithm as a function\<close>

text \<open>
  If of any two candidates one comes before the other, there is only one way to proceed,
  and the algorithm is a function: find the best adjacent pair by looking at all of them,
  merge it, start again.
\<close>

fun pairs_from :: "'c merge_rules \<Rightarrow> nat \<Rightarrow> nat \<Rightarrow> nat list list \<Rightarrow> (nat \<times> 'c) list" where
  "pairs_from rules i off (l # r # ss) =
     (case propose rules off (off + length l) l r of
        Some (Some c) \<Rightarrow> if accepted rules c then [(i, c)] else []
      | _ \<Rightarrow> []) @ pairs_from rules (i + 1) (off + length l) (r # ss)"
| "pairs_from rules i off ss = []"

fun best_of :: "('c \<Rightarrow> 'c \<Rightarrow> bool) \<Rightarrow> (nat \<times> 'c) list \<Rightarrow> (nat \<times> 'c) option" where
  "best_of before [] = None"
| "best_of before (x # xs) =
     (case best_of before xs of
        None \<Rightarrow> Some x
      | Some y \<Rightarrow> if before (snd y) (snd x) then Some y else Some x)"

lemma pairs_from_index: "(k, c) \<in> set (pairs_from rules i off segs) \<Longrightarrow> i \<le> k \<and> k + 1 < i + length segs"
proof (induction rules i off segs rule: pairs_from.induct)
  case (1 rules i off l r ss)
  then have "k = i \<or> (k, c) \<in> set (pairs_from rules (i + 1) (off + length l) (r # ss))"
    by (auto split: option.splits if_splits)
  with 1(1) show ?case by auto
qed auto

lemma best_of_mem: "best_of before xs = Some x \<Longrightarrow> x \<in> set xs"
  by (induction xs arbitrary: x) (auto split: option.splits if_splits)

function textbook :: "'c merge_rules \<Rightarrow> ('c \<Rightarrow> 'c \<Rightarrow> bool) \<Rightarrow> nat list list \<Rightarrow> nat list list" where
  "textbook rules before segs =
     (case best_of before (pairs_from rules 0 0 segs) of
        None \<Rightarrow> segs
      | Some (i, c) \<Rightarrow>
          textbook rules before (take i segs @ (segs ! i @ segs ! (i + 1)) # drop (i + 2) segs))"
  by pat_completeness auto
termination
  by (relation "measure (\<lambda>(rules, before, segs). length segs)")
    (auto dest!: best_of_mem pairs_from_index)

declare textbook.simps [simp del]

lemma pairs_from_iff:
  "(k, c) \<in> set (pairs_from rules i (length (concat xs)) segs) \<longleftrightarrow>
   (\<exists>us l r ys. segs = us @ l # r # ys \<and> k = i + length us \<and> accepted rules c
     \<and> propose rules (length (concat (xs @ us))) (length (concat (xs @ us)) + length l) l r = Some (Some c))"
proof (induction segs arbitrary: i xs)
  case (Cons l ss)
  show ?case
  proof (cases ss)
    case Nil
    then show ?thesis by (auto simp: append_eq_Cons_conv)
  next
    case (Cons r ss')
    have "(k, c) \<in> set (pairs_from rules i (length (concat xs)) (l # ss)) \<longleftrightarrow>
      (k = i \<and> accepted rules c \<and> propose rules (length (concat xs)) (length (concat xs) + length l) l r = Some (Some c))
      \<or> (k, c) \<in> set (pairs_from rules (i + 1) (length (concat (xs @ [l]))) ss)"
      using Cons by (auto split: option.splits)
    also have "\<dots> \<longleftrightarrow> (\<exists>us l' r ys. l # ss = us @ l' # r # ys \<and> k = i + length us \<and> accepted rules c
        \<and> propose rules (length (concat (xs @ us))) (length (concat (xs @ us)) + length l') l' r = Some (Some c))"
      (is "?here \<or> _ \<longleftrightarrow> ?R")
    proof
      assume "?here \<or> (k, c) \<in> set (pairs_from rules (i + 1) (length (concat (xs @ [l]))) ss)"
      then show ?R
      proof
        assume ?here
        then show ?R using Cons
          by (intro exI [of _ "[]"] exI [of _ l] exI [of _ r] exI [of _ ss']) simp
      next
        assume "(k, c) \<in> set (pairs_from rules (i + 1) (length (concat (xs @ [l]))) ss)"
        from this [unfolded Cons.IH] obtain us l' r ys where "ss = us @ l' # r # ys" "k = i + 1 + length us"
          "accepted rules c" "propose rules (length (concat ((xs @ [l]) @ us))) (length (concat ((xs @ [l]) @ us)) + length l') l' r = Some (Some c)"
          by blast
        then show ?R by (intro exI [of _ "l # us"]) simp
      qed
    next
      assume ?R
      then obtain us l' r' ys where u: "l # ss = us @ l' # r' # ys" "k = i + length us" "accepted rules c"
        "propose rules (length (concat (xs @ us))) (length (concat (xs @ us)) + length l') l' r' = Some (Some c)" by blast
      show "?here \<or> (k, c) \<in> set (pairs_from rules (i + 1) (length (concat (xs @ [l]))) ss)"
      proof (cases us)
        case Nil
        with u Cons show ?thesis by simp
      next
        case (Cons u' us')
        with u have "ss = us' @ l' # r' # ys" "k = i + 1 + length us'" "(xs @ [l]) @ us' = xs @ us" by auto
        with u(3,4) show ?thesis unfolding Cons.IH by metis
      qed
    qed
    finally show ?thesis .
  qed
qed simp

lemma pairs_candidate:
  "(k, c) \<in> set (pairs_from rules 0 0 segs) \<longleftrightarrow> k < length segs \<and> candidate_at rules segs (take k segs) c"
proof -
  have "candidate_at rules segs us c \<and> length us = k \<longleftrightarrow> k < length segs \<and> candidate_at rules segs (take k segs) c \<and> us = take k segs"
    for us by (auto simp: candidate_at_def)
  then show ?thesis using pairs_from_iff [of k c rules 0 "[]" segs]
    by (simp add: candidate_at_def) metis
qed

lemma best_of_least:
  assumes "weak_order before" "best_of before xs = Some x" "y \<in> set xs"
  shows "\<not> before (snd y) (snd x)"
  using assms(2,3)
proof (induction xs arbitrary: x)
  case (Cons z xs)
  show ?case
  proof (cases "best_of before xs")
    case None
    then have "xs = []" by (cases xs) (auto split: option.splits if_splits)
    with Cons.prems weak_orderD(3) [OF assms(1)] show ?thesis by auto
  next
    case (Some w)
    note w = Cons.IH [OF Some]
    show ?thesis
    proof (cases "before (snd w) (snd z)")
      case True
      with Cons.prems Some w weak_orderD(1) [OF assms(1) True] show ?thesis by auto
    next
      case False
      with Cons.prems Some have "x = z" by simp
      moreover have "\<not> before (snd y) (snd z)" if "y \<in> set xs"
        using w [OF that] False weak_orderD(2) [OF assms(1)] by metis
      ultimately show ?thesis using Cons.prems(2) weak_orderD(3) [OF assms(1)] by auto
    qed
  qed
qed simp

lemma best_of_None: "best_of before xs = None \<longleftrightarrow> xs = []"
  by (cases xs) (auto split: option.splits)

lemma candidates_pairs: "c \<in> candidates rules segs \<Longrightarrow> \<exists>k. (k, c) \<in> set (pairs_from rules 0 0 segs)"
proof -
  assume "c \<in> candidates rules segs"
  then obtain xs where xs: "candidate_at rules segs xs c" by (auto simp: candidates_def)
  then have "length xs < length segs" "take (length xs) segs = xs" by (auto simp: candidate_at_def)
  with xs show ?thesis unfolding pairs_candidate by metis
qed

lemma textbook_steps:
  assumes "weak_order before"
  shows "(merge_step rules before)\<^sup>*\<^sup>* segs (textbook rules before segs)
    \<and> candidates rules (textbook rules before segs) = {}"
proof (induction "length segs" arbitrary: segs rule: less_induct)
  case less
  show ?case
  proof (cases "best_of before (pairs_from rules 0 0 segs)")
    case None
    then have "pairs_from rules 0 0 segs = []" by (simp add: best_of_None)
    then have "candidates rules segs = {}" using candidates_pairs [of _ rules segs] by auto
    with None show ?thesis by (subst (1 2) textbook.simps) simp
  next
    case (Some x)
    obtain k c where x: "x = (k, c)" by fastforce
    note best = Some [unfolded x]
    from best_of_mem [OF best] have kc: "k < length segs" "candidate_at rules segs (take k segs) c"
      by (auto simp: pairs_candidate)
    define xs where "xs = take k segs"
    have k: "length xs = k" using kc(1) by (simp add: xs_def)
    from kc(2) obtain l r ys where segs: "segs = xs @ l # r # ys" by (auto simp: candidate_at_def xs_def)
    have "segs ! k = l" "segs ! (k + 1) = r" "drop (k + 2) segs = ys"
      by (simp_all add: segs nth_append k)
    note lr = this
    have "merge_step rules before (xs @ l # r # ys) (xs @ (l @ r) # ys)"
    proof (rule merge_step.intros)
      show "candidate_at rules (xs @ l # r # ys) xs c"
        using kc(2) [folded xs_def] by (simp only: segs [symmetric])
      fix y assume "y \<in> candidates rules (xs @ l # r # ys)"
      then have "y \<in> candidates rules segs" by (simp add: segs)
      from candidates_pairs [OF this] best_of_least [OF assms best] show "\<not> before y c" by fastforce
    qed
    then have st: "merge_step rules before segs (xs @ (l @ r) # ys)" by (simp add: segs)
    have t: "textbook rules before segs = textbook rules before (xs @ (l @ r) # ys)"
      using best lr by (subst textbook.simps) (simp only: option.simps prod.case xs_def [symmetric])
    have "length (xs @ (l @ r) # ys) < length segs" by (simp add: segs)
    from less.hyps [OF this] st show ?thesis unfolding t by (meson converse_rtranclp_into_rtranclp)
  qed
qed

text \<open>With candidates at different places always ordered, the steps are deterministic.\<close>

definition strict_rules :: "'c merge_rules \<Rightarrow> ('c \<Rightarrow> 'c \<Rightarrow> bool) \<Rightarrow> bool" where
  "strict_rules rules before \<longleftrightarrow> (\<forall>segs xs ys c d. [] \<notin> set segs \<longrightarrow> candidate_at rules segs xs c \<longrightarrow>
     candidate_at rules segs ys d \<longrightarrow> \<not> before c d \<longrightarrow> \<not> before d c \<longrightarrow> xs = ys)"

lemma merge_step_deterministic:
  assumes "strict_rules rules before" "[] \<notin> set segs" "merge_step rules before segs s" "merge_step rules before segs t"
  shows "s = t"
proof -
  from assms(3) obtain xs l r ys c where s: "segs = xs @ l # r # ys" "s = xs @ (l @ r) # ys"
    "candidate_at rules segs xs c" "\<And>x. x \<in> candidates rules segs \<Longrightarrow> \<not> before x c" by cases auto
  from assms(4) obtain us p q vs d where t: "segs = us @ p # q # vs" "t = us @ (p @ q) # vs"
    "candidate_at rules segs us d" "\<And>x. x \<in> candidates rules segs \<Longrightarrow> \<not> before x d" by cases auto
  have "c \<in> candidates rules segs" "d \<in> candidates rules segs"
    using s(3) t(3) by (auto simp: candidates_def)
  with s t assms(1,2) have "xs = us" unfolding strict_rules_def by blast
  with s t show ?thesis by simp
qed

lemma merge_step_nonempty: "merge_step rules before s t \<Longrightarrow> [] \<notin> set s \<Longrightarrow> [] \<notin> set t"
  by (auto elim!: merge_step.cases)

lemma merge_step_candidate: "merge_step rules before s t \<Longrightarrow> candidates rules s \<noteq> {}"
  by (auto elim!: merge_step.cases simp: candidates_def)

lemma normal_form_unique:
  assumes "strict_rules rules before" "(merge_step rules before)\<^sup>*\<^sup>* s t" "[] \<notin> set s"
    "(merge_step rules before)\<^sup>*\<^sup>* s u" "candidates rules t = {}" "candidates rules u = {}"
  shows "t = u"
  using assms(2-4)
proof (induction rule: converse_rtranclp_induct)
  case base
  from this(2) assms(5) show ?case by (cases rule: converse_rtranclpE) (auto dest: merge_step_candidate)
next
  case (step s s')
  from step(5) show ?case
  proof (cases rule: converse_rtranclpE)
    case base
    with step(1) assms(6) show ?thesis by (auto dest: merge_step_candidate)
  next
    case (step s'')
    with merge_step_deterministic [OF assms(1)] \<open>merge_step rules before s s'\<close> \<open>[] \<notin> set s\<close>
    have "s'' = s'" by blast
    with step \<open>[] \<notin> set s\<close> \<open>merge_step rules before s s'\<close>
      \<open>[] \<notin> set s' \<Longrightarrow> (merge_step rules before)\<^sup>*\<^sup>* s' u \<Longrightarrow> t = u\<close>
    show ?thesis using merge_step_nonempty by blast
  qed
qed

lemma textbook_unique:
  assumes "weak_order before" "strict_rules rules before"
    "(merge_step rules before)\<^sup>*\<^sup>* segs t" "[] \<notin> set segs" "candidates rules t = {}"
  shows "t = textbook rules before segs"
  using textbook_steps [OF assms(1)] normal_form_unique [OF assms(2,3,4) _ assms(5)] by blast

end
