(* ===== verification/Vocabulary.thy ===== *)
theory Vocabulary
  imports Complex_Main Runes
begin

text \<open>
  The vocabulary of a tokenizer (\<^verbatim>\<open>tokenizer/vocabulary.go\<close>) and the cutting of a text at
  the special tokens, which \<^verbatim>\<open>BytePairEncoding.Encode\<close> and \<^verbatim>\<open>SentencePiece.Encode\<close> do in
  the same way. The maps a vocabulary builds once, on first use, are recomputed from the
  lists they are built from. Token ids are \<^verbatim>\<open>int32\<close>, so the index of a value wraps; the
  theorems are about vocabularies of fewer than \<^term>\<open>2 ^ 31\<close> values. Scores are finite
  floating-point numbers, which the code only compares.
\<close>

section \<open>Vocabularies\<close>

datatype special = SpecialBOS | SpecialEOS | OtherSpecial int

record vocabulary =
  Values :: "string list"
  Types :: "int list"
  Scores :: "rat list"
  Merges :: "string list"
  BOS :: "int list"
  EOS :: "int list"
  AddBOS :: bool
  AddEOS :: bool

definition TOKEN_TYPE_NORMAL :: int where "TOKEN_TYPE_NORMAL = 1"
definition TOKEN_TYPE_UNKNOWN :: int where "TOKEN_TYPE_UNKNOWN = 2"
definition TOKEN_TYPE_CONTROL :: int where "TOKEN_TYPE_CONTROL = 3"
definition TOKEN_TYPE_USER_DEFINED :: int where "TOKEN_TYPE_USER_DEFINED = 4"
definition TOKEN_TYPE_UNUSED :: int where "TOKEN_TYPE_UNUSED = 5"
definition TOKEN_TYPE_BYTE :: int where "TOKEN_TYPE_BYTE = 6"

lemmas token_types = TOKEN_TYPE_NORMAL_def TOKEN_TYPE_UNKNOWN_def TOKEN_TYPE_CONTROL_def
  TOKEN_TYPE_USER_DEFINED_def TOKEN_TYPE_UNUSED_def TOKEN_TYPE_BYTE_def

text \<open>The conversion \<^verbatim>\<open>int32(i)\<close>.\<close>

definition int32 :: "nat \<Rightarrow> int" where
  "int32 i = (int i + 2 ^ 31) mod 2 ^ 32 - 2 ^ 31"

text \<open>A map from strings to their positions; of equal strings the last one counts.\<close>

definition position_map :: "string list \<Rightarrow> string \<Rightarrow> int option" where
  "position_map vs = fold (\<lambda>(i, v) m. m(v \<mapsto> int32 i)) (enumerate 0 vs) (\<lambda>_. None)"

definition vocab_encode :: "vocabulary \<Rightarrow> string \<Rightarrow> int" where
  "vocab_encode v s = (case position_map (Values v) s of Some i \<Rightarrow> i | None \<Rightarrow> - 1)"

text \<open>\<^verbatim>\<open>Decode\<close> indexes the values, which panics outside of them.\<close>

definition vocab_decode :: "vocabulary \<Rightarrow> int \<Rightarrow> string option" where
  "vocab_decode v i = (if 0 \<le> i \<and> nat i < length (Values v) then Some (Values v ! nat i) else None)"

definition vocab_merge :: "vocabulary \<Rightarrow> string \<Rightarrow> string \<Rightarrow> int" where
  "vocab_merge v l r = (case position_map (Merges v) (l @ '' '' @ r) of Some i \<Rightarrow> i | None \<Rightarrow> - 1)"

fun vocab_is :: "vocabulary \<Rightarrow> int \<Rightarrow> special \<Rightarrow> bool" where
  "vocab_is v i SpecialBOS = (i \<in> set (BOS v))"
| "vocab_is v i SpecialEOS = (i \<in> set (EOS v))"
| "vocab_is v i (OtherSpecial _) = False"

definition addSpecials :: "vocabulary \<Rightarrow> int list \<Rightarrow> int list" where
  "addSpecials v ids =
     (let ids = (if AddBOS v \<and> BOS v \<noteq> [] then hd (BOS v) # ids else ids)
      in if AddEOS v \<and> EOS v \<noteq> [] then ids @ [hd (EOS v)] else ids)"

text \<open>The values of the special types; a vocabulary with fewer types than values panics.\<close>

definition special_vocabulary :: "vocabulary \<Rightarrow> string list option" where
  "special_vocabulary v =
     (if length (Types v) < length (Values v) then None
      else Some (map fst (filter (\<lambda>(s, t). t = TOKEN_TYPE_CONTROL \<or> t = TOKEN_TYPE_USER_DEFINED)
                                 (zip (Values v) (Types v)))))"

section \<open>Cutting at special tokens\<close>

record fragment =
  fvalue :: string
  fids :: "int list"

abbreviation plain :: "string \<Rightarrow> fragment" where
  "plain s \<equiv> \<lparr>fvalue = s, fids = []\<rparr>"

definition cut_fragment :: "string \<Rightarrow> int \<Rightarrow> fragment \<Rightarrow> fragment list" where
  "cut_fragment sp i frag =
     (case index (fvalue frag) sp of
        None \<Rightarrow> [frag]
      | Some k \<Rightarrow>
          (let rest = drop (k + length sp) (fvalue frag) in
           (if 0 < k then [plain (take k (fvalue frag))] else [])
           @ \<lparr>fvalue = sp, fids = [i]\<rparr> # (if rest \<noteq> [] then [plain rest] else [])))"

text \<open>
  The loop over the fragments for one special token, with the fragments before the loop
  variable and those from it on. What is put in the place of a fragment is visited again,
  from its second part on.
\<close>

partial_function (option) cut_special ::
  "string \<Rightarrow> int \<Rightarrow> fragment list \<Rightarrow> fragment list \<Rightarrow> fragment list option" where
  "cut_special sp i before frags =
     (if frags = [] then Some before
      else if fids (hd frags) \<noteq> [] then cut_special sp i (before @ [hd frags]) (tl frags)
      else cut_special sp i (before @ [hd (cut_fragment sp i (hd frags))])
             (tl (cut_fragment sp i (hd frags)) @ tl frags))"

declare cut_special.simps [code]

fun cut_specials :: "vocabulary \<Rightarrow> string list \<Rightarrow> fragment list \<Rightarrow> fragment list option" where
  "cut_specials v [] frags = Some frags"
| "cut_specials v (sp # sps) frags =
     (case cut_special sp (vocab_encode v sp) [] frags of
        None \<Rightarrow> None
      | Some frags \<Rightarrow> cut_specials v sps frags)"

definition fragments_of :: "vocabulary \<Rightarrow> string \<Rightarrow> fragment list option" where
  "fragments_of v s =
     (case special_vocabulary v of
        None \<Rightarrow> None
      | Some sps \<Rightarrow> cut_specials v sps [plain s])"

section \<open>Encoding and decoding one value\<close>

definition small_vocab :: "vocabulary \<Rightarrow> bool" where
  "small_vocab v \<longleftrightarrow> length (Values v) < 2 ^ 31 \<and> length (Merges v) < 2 ^ 31"

lemma int32_small [simp]: "i < 2 ^ 31 \<Longrightarrow> int32 i = int i"
  by (simp add: int32_def)

lemma position_map_snoc:
  "position_map (vs @ [x]) = (position_map vs)(x \<mapsto> int32 (length vs))"
  by (simp add: position_map_def enumerate_append_eq)

lemma position_map_Nil [simp]: "position_map [] s = None"
  by (simp add: position_map_def)

lemma position_map_None: "position_map vs s = None \<longleftrightarrow> s \<notin> set vs"
  by (induction vs rule: rev_induct) (auto simp: position_map_snoc)

text \<open>The position found holds the string, and no later one does.\<close>

lemma position_map_Some:
  assumes "position_map vs s = Some i" "length vs < 2 ^ 31"
  shows "0 \<le> i \<and> nat i < length vs \<and> vs ! nat i = s \<and> (\<forall>j. nat i < j \<and> j < length vs \<longrightarrow> vs ! j \<noteq> s)"
  using assms
proof (induction vs rule: rev_induct)
  case (snoc x vs)
  show ?case
  proof (cases "s = x")
    case True
    with snoc.prems show ?thesis by (auto simp: position_map_snoc)
  next
    case False
    with snoc.prems have "position_map vs s = Some i" "length vs < 2 ^ 31" by (auto simp: position_map_snoc)
    from snoc.IH [OF this] False show ?thesis by (auto simp: nth_append less_Suc_eq)
  qed
qed simp

lemma vocab_encode_nonneg:
  assumes "small_vocab v"
  shows "0 \<le> vocab_encode v s \<longleftrightarrow> s \<in> set (Values v)"
  using position_map_None [of "Values v" s] position_map_Some [of "Values v" s] assms
  by (auto simp: vocab_encode_def small_vocab_def split: option.splits)

lemma vocab_decode_encode:
  assumes "small_vocab v" "0 \<le> vocab_encode v s"
  shows "vocab_decode v (vocab_encode v s) = Some s"
  using assms position_map_Some [of "Values v" s]
  by (auto simp: vocab_encode_def vocab_decode_def small_vocab_def split: option.splits)

lemma vocab_merge_nonneg:
  assumes "small_vocab v"
  shows "0 \<le> vocab_merge v l r \<longleftrightarrow> l @ '' '' @ r \<in> set (Merges v)"
  using position_map_None [of "Merges v" "l @ '' '' @ r"] position_map_Some [of "Merges v" "l @ '' '' @ r"] assms
  by (cases "position_map (Merges v) (l @ '' '' @ r)") (simp_all add: vocab_merge_def small_vocab_def)

section \<open>The cutting\<close>

text \<open>
  What the fragments are at every moment of the cutting: their values are the text, a plain
  one is a well-formed text without the special tokens that have been cut out, the others
  carry the id of their value, which is a special token.
\<close>

definition fragments_ok :: "vocabulary \<Rightarrow> string set \<Rightarrow> string set \<Rightarrow> fragment list \<Rightarrow> bool" where
  "fragments_ok v out sps frags \<longleftrightarrow> (\<forall>f \<in> set frags.
     if fids f = [] then valid_utf8 (fvalue f) \<and> (\<forall>sp \<in> out. \<not> contains (fvalue f) sp)
     else fids f = [vocab_encode v (fvalue f)] \<and> fvalue f \<in> sps)"

lemma fragments_ok_append: "fragments_ok v out sps (fs @ gs) \<longleftrightarrow> fragments_ok v out sps fs \<and> fragments_ok v out sps gs"
  by (auto simp: fragments_ok_def)

lemma not_contains_part: "\<not> contains (u @ s @ t) sp \<Longrightarrow> \<not> contains s sp"
  by (metis append.assoc contains_iff)

lemma not_contains_take:
  assumes "index s sp = Some k" "sp \<noteq> []"
  shows "\<not> contains (take k s) sp"
proof
  assume "contains (take k s) sp"
  then obtain u w where uw: "take k s = u @ sp @ w" by (auto simp: contains_iff)
  then have "s = u @ sp @ w @ drop k s" by (metis append.assoc append_take_drop_id)
  then have "prefix sp (drop (length u) s)" by (metis append_eq_conv_conj prefixI)
  moreover have "length u < k" using arg_cong [OF uw, of length] assms(2) by (cases sp) auto
  ultimately show False using index_Some_first [OF assms(1)] by blast
qed

text \<open>Cutting one fragment: the first part needs no further cutting.\<close>

lemma cut_fragment_parts:
  assumes "fids frag = []" "sp \<noteq> []" "fragments_ok v out sps [frag]" "valid_utf8 sp" "sp \<in> sps"
  defines "parts \<equiv> cut_fragment sp (vocab_encode v sp) frag"
  shows "parts \<noteq> []" "concat (map fvalue parts) = fvalue frag"
    "fragments_ok v (insert sp out) sps [hd parts]"
    "\<And>f. f \<in> set (tl parts) \<Longrightarrow> f = \<lparr>fvalue = sp, fids = [vocab_encode v sp]\<rparr> \<or>
      fids f = [] \<and> fragments_ok v out sps [f] \<and> length (fvalue f) < length (fvalue frag)"
    "length (tl parts) \<le> 2" "length (filter (\<lambda>f. fids f = []) (tl parts)) \<le> 1"
proof -
  show "parts \<noteq> []" by (simp add: parts_def cut_fragment_def Let_def split: option.splits)
  have ok: "valid_utf8 (fvalue frag)" "\<forall>sp \<in> out. \<not> contains (fvalue frag) sp"
    using assms(1,3) by (auto simp: fragments_ok_def)
  have "concat (map fvalue parts) = fvalue frag \<and> fragments_ok v (insert sp out) sps [hd parts]
    \<and> (\<forall>f \<in> set (tl parts). f = \<lparr>fvalue = sp, fids = [vocab_encode v sp]\<rparr> \<or>
      fids f = [] \<and> fragments_ok v out sps [f] \<and> length (fvalue f) < length (fvalue frag))
    \<and> length (tl parts) \<le> 2 \<and> length (filter (\<lambda>f. fids f = []) (tl parts)) \<le> 1"
  proof (cases "index (fvalue frag) sp")
    case None
    then have "parts = [frag]" by (simp add: parts_def cut_fragment_def)
    moreover have "\<not> contains (fvalue frag) sp" using None by (simp add: contains_def)
    ultimately show ?thesis using ok assms(1) by (simp add: fragments_ok_def)
  next
    case (Some k)
    define u t where "u = take k (fvalue frag)" and "t = drop (k + length sp) (fvalue frag)"
    have ut: "fvalue frag = u @ sp @ t" using index_Some_split [OF Some] by (simp add: u_def t_def)
    from valid_utf8_cut [of u sp t] ok(1) assms(2,4) ut have val: "valid_utf8 u" "valid_utf8 t" by auto
    have no: "\<not> contains u x" "\<not> contains t x" if "x \<in> out" for x
      using ok(2) that ut not_contains_part [of "[]" u "sp @ t" x] not_contains_part [of "u @ sp" t "[]" x] by auto
    have un: "\<not> contains u sp" unfolding u_def by (rule not_contains_take [OF Some assms(2)])
    have parts: "parts = (if u \<noteq> [] then [plain u] else [])
        @ \<lparr>fvalue = sp, fids = [vocab_encode v sp]\<rparr> # (if t \<noteq> [] then [plain t] else [])"
      using Some index_Some_split [OF Some]
      by (auto simp: parts_def cut_fragment_def Let_def u_def t_def)
    have "length t < length (fvalue frag)" using ut assms(2) by simp
    with val no un ut assms(5) show ?thesis
      unfolding parts by (cases "u = []"; cases "t = []") (simp_all add: fragments_ok_def)
  qed
  then show "concat (map fvalue parts) = fvalue frag" "fragments_ok v (insert sp out) sps [hd parts]"
    "\<And>f. f \<in> set (tl parts) \<Longrightarrow> f = \<lparr>fvalue = sp, fids = [vocab_encode v sp]\<rparr> \<or>
      fids f = [] \<and> fragments_ok v out sps [f] \<and> length (fvalue f) < length (fvalue frag)"
    "length (tl parts) \<le> 2" "length (filter (\<lambda>f. fids f = []) (tl parts)) \<le> 1" by blast+
qed

definition weight :: "fragment \<Rightarrow> nat" where
  "weight f = (if fids f = [] then 2 * length (fvalue f) + 2 else 1)"

lemma cut_fragment_weight:
  assumes "fids frag = []" "sp \<noteq> []" "fragments_ok v out sps [frag]" "valid_utf8 sp"
  shows "sum_list (map weight (tl (cut_fragment sp (vocab_encode v sp) frag))) < weight frag"
  by (auto simp: cut_fragment_def Let_def weight_def assms(1) split: option.splits)
    (use assms(2) in \<open>auto dest!: index_le simp flip: length_greater_0_conv\<close>)

lemma cut_special_ends:
  assumes "sp \<noteq> []" "valid_utf8 sp" "sp \<in> sps" "fragments_ok v (insert sp out) sps before" "fragments_ok v out sps frags"
  shows "\<exists>r. cut_special sp (vocab_encode v sp) before frags = Some r \<and> fragments_ok v (insert sp out) sps r
    \<and> concat (map fvalue r) = concat (map fvalue (before @ frags))"
  using assms(4,5)
proof (induction "sum_list (map weight frags)" arbitrary: before frags rule: less_induct)
  case less
  show ?case
  proof (cases frags)
    case Nil
    with less.prems(1) show ?thesis by (subst cut_special.simps) simp
  next
    case (Cons f rest)
    have f: "fragments_ok v out sps [f]" "fragments_ok v out sps rest"
      using less.prems(2) Cons by (auto simp: fragments_ok_def)
    show ?thesis
    proof (cases "fids f = []")
      case False
      then have "sum_list (map weight rest) < sum_list (map weight frags)" using Cons by (simp add: weight_def)
      moreover have "fragments_ok v (insert sp out) sps (before @ [f])"
        using less.prems(1) f(1) False by (auto simp: fragments_ok_def)
      ultimately show ?thesis using less.hyps [of rest "before @ [f]"] f(2) False Cons
        by (subst cut_special.simps) simp
    next
      case True
      define m where "m = cut_fragment sp (vocab_encode v sp) f"
      note parts = cut_fragment_parts [OF True assms(1) f(1) assms(2,3), folded m_def]
      have w: "sum_list (map weight (tl m @ rest)) < sum_list (map weight frags)"
        using cut_fragment_weight [OF True assms(1) f(1) assms(2)] Cons by (simp add: m_def)
      have "fragments_ok v out sps [g]" if "g \<in> set (tl m)" for g
        using parts(4) [OF that] assms(3) by (auto simp: fragments_ok_def)
      then have "fragments_ok v out sps (tl m)" by (simp add: fragments_ok_def)
      with less.prems(1) parts(3) f(2) have ok: "fragments_ok v (insert sp out) sps (before @ [hd m])"
        "fragments_ok v out sps (tl m @ rest)"
        by (simp_all add: fragments_ok_append)
      have eq: "concat (map fvalue ((before @ [hd m]) @ tl m @ rest)) = concat (map fvalue (before @ frags))"
        using parts(1,2) Cons by (cases m) auto
      have "cut_special sp (vocab_encode v sp) before frags
          = cut_special sp (vocab_encode v sp) (before @ [hd m]) (tl m @ rest)"
        using True Cons by (subst cut_special.simps) (simp add: m_def)
      with less.hyps [OF w ok, unfolded eq] show ?thesis by simp
    qed
  qed
qed

lemma cut_specials_ends:
  assumes "\<forall>sp \<in> set sps. sp \<noteq> [] \<and> valid_utf8 sp" "set sps \<subseteq> all" "fragments_ok v out all frags"
  shows "\<exists>r. cut_specials v sps frags = Some r \<and> fragments_ok v (set sps \<union> out) all r
    \<and> concat (map fvalue r) = concat (map fvalue frags)"
  using assms
proof (induction sps arbitrary: out frags)
  case (Cons sp sps)
  then obtain r where r: "cut_special sp (vocab_encode v sp) [] frags = Some r"
    "fragments_ok v (insert sp out) all r" "concat (map fvalue r) = concat (map fvalue frags)"
    using cut_special_ends [of sp all v out "[]" frags] by (auto simp: fragments_ok_def)
  from Cons.IH [OF _ _ r(2)] Cons.prems(1,2) r show ?case by auto
qed simp

lemma special_vocabulary_values: "special_vocabulary v = Some sps \<Longrightarrow> set sps \<subseteq> set (Values v)"
  by (auto simp: special_vocabulary_def split: if_splits) (meson set_zip_leftD)+

text \<open>
  The cutting of a whole text: it ends, the fragments make up the text, the special ones
  carry the id of their value and no special token is left in a plain one.
\<close>

lemma fragments_of_ends:
  assumes "special_vocabulary v = Some sps" "\<forall>sp \<in> set sps. sp \<noteq> [] \<and> valid_utf8 sp" "valid_utf8 s"
  shows "\<exists>frags. fragments_of v s = Some frags \<and> concat (map fvalue frags) = s
    \<and> fragments_ok v (set sps) (set sps) frags"
proof -
  have "fragments_ok v {} (set sps) [plain s]" using assms(3) by (simp add: fragments_ok_def)
  from cut_specials_ends [OF assms(2) subset_refl this] assms(1) show ?thesis
    by (auto simp: fragments_of_def)
qed

text \<open>An empty special token is found again and again in front of the same text.\<close>

lemma cut_special_empty:
  assumes "s \<noteq> []"
  shows "cut_special [] i before (plain s # rest) = None"
proof (rule ccontr)
  assume "cut_special [] i before (plain s # rest) \<noteq> None"
  then obtain r where r: "cut_special [] i before (plain s # rest) = Some r" by auto
  have "index s [] = Some 0" by (cases s) simp_all
  then have cut: "cut_fragment [] j (plain s) = [\<lparr>fvalue = [], fids = [j]\<rparr>, plain s]" for j
    using assms by (simp add: cut_fragment_def)
  have "\<not> (sp = [] \<and> hd frags = plain s \<and> frags \<noteq> [])" if "cut_special sp j bef frags = Some r'" for sp j bef frags r'
  proof (rule cut_special.raw_induct [OF _ that, where P = "\<lambda>sp j bef frags r'. \<not> (sp = [] \<and> hd frags = plain s \<and> frags \<noteq> [])"])
    fix cutting :: "string \<Rightarrow> int \<Rightarrow> fragment list \<Rightarrow> fragment list \<Rightarrow> fragment list option"
      and sp j bef frags r'
    assume hyp: "\<And>sp i bef frags r. cutting sp i bef frags = Some r \<Longrightarrow> \<not> (sp = [] \<and> hd frags = plain s \<and> frags \<noteq> [])"
      and body: "(if frags = [] then Some bef
         else if fids (hd frags) \<noteq> [] then cutting sp j (bef @ [hd frags]) (tl frags)
              else cutting sp j (bef @ [hd (cut_fragment sp j (hd frags))])
                    (tl (cut_fragment sp j (hd frags)) @ tl frags)) = Some r'"
    show "\<not> (sp = [] \<and> hd frags = plain s \<and> frags \<noteq> [])"
    proof
      assume c: "sp = [] \<and> hd frags = plain s \<and> frags \<noteq> []"
      with body cut have "cutting [] j (bef @ [\<lparr>fvalue = [], fids = [j]\<rparr>]) (plain s # tl frags) = Some r'" by simp
      from hyp [OF this] show False by simp
    qed
  qed
  from this [OF r] show False by simp
qed

end
