(* ===== verification/SentencePiece.thy ===== *)
theory SentencePiece
  imports MergeLoop Vocabulary
begin

text \<open>
  The SentencePiece tokenizer (\<^verbatim>\<open>tokenizer/sentencepiece.go\<close>): encoding with the merge loop
  over a \<^verbatim>\<open>container/heap\<close> of candidates, the fallback to byte tokens, and decoding. The
  properties are that the loop computes what the textbook algorithm does and that decoding
  gives an encoded text back, with the texts for which it does not.
\<close>

section \<open>Encoding\<close>

text \<open>\<^verbatim>\<open>spmWhitespaceSep\<close>, the code point U+2581.\<close>

definition spmWhitespaceSep :: string where
  "spmWhitespaceSep = encode_rune 0x2581"

record candidate =
  ca :: nat
  cb :: nat
  cscore :: rat
  csize :: nat

text \<open>The order of the queue: the higher score first, then the left one.\<close>

definition candidate_less :: "candidate \<Rightarrow> candidate \<Rightarrow> bool" where
  "candidate_less c d \<longleftrightarrow> cscore c > cscore d \<or> (cscore c = cscore d \<and> ca c < ca d)"

text \<open>A pair is a candidate if the vocabulary has its text; a value without a score panics.\<close>

definition spm_propose :: "vocabulary \<Rightarrow> nat \<Rightarrow> nat \<Rightarrow> nat list \<Rightarrow> nat list \<Rightarrow> candidate option option" where
  "spm_propose v a b l r =
     (let left = string_of l; right = string_of r; i = vocab_encode v (left @ right) in
      if 0 \<le> i then
        if nat i < length (Scores v)
        then Some (Some \<lparr>ca = a, cb = b, cscore = Scores v ! nat i, csize = length left + length right\<rparr>)
        else None
      else Some None)"

definition spm_rules :: "vocabulary \<Rightarrow> candidate merge_rules" where
  "spm_rules v = \<lparr>
     propose = spm_propose v,
     left_end = ca,
     right_end = cb,
     stale = (\<lambda>c l r. length (string_of l) + length (string_of r) \<noteq> csize c),
     accepted = (\<lambda>_. True)\<rparr>"

definition hex_digit :: "nat \<Rightarrow> char" where
  "hex_digit n = ''0123456789ABCDEF'' ! n"

text \<open>\<^verbatim>\<open>fmt.Sprintf("<0x%02X>", b)\<close>.\<close>

definition byte_token :: "char \<Rightarrow> string" where
  "byte_token b = ''<0x'' @ [hex_digit (byte b div 16), hex_digit (byte b mod 16)] @ ''>''"

definition spm_segment :: "vocabulary \<Rightarrow> nat list \<Rightarrow> int list" where
  "spm_segment v runes =
     (let token = string_of runes; i = vocab_encode v token in
      if 0 \<le> i then [i]
      else filter (\<lambda>i. 0 \<le> i) (map (\<lambda>b. vocab_encode v (byte_token b)) token))"

definition spm_merge :: "vocabulary \<Rightarrow> nat list \<Rightarrow> nat list list option" where
  "spm_merge v runes = merge_text (spm_rules v) (heap_push candidate_less) (heap_pop candidate_less) [] runes"

definition spm_encode_text :: "vocabulary \<Rightarrow> string \<Rightarrow> int list option" where
  "spm_encode_text v s =
     (let text = replace_all s '' '' spmWhitespaceSep; i = vocab_encode v text in
      if 0 \<le> i then Some [i]
      else map_option (\<lambda>segs. concat (map (spm_segment v) segs)) (spm_merge v (runes_of text)))"

fun encode_fragments :: "(string \<Rightarrow> int list option) \<Rightarrow> fragment list \<Rightarrow> int list option" where
  "encode_fragments encode [] = Some []"
| "encode_fragments encode (frag # frags) =
     (case (if fids frag \<noteq> [] then Some (fids frag) else encode (fvalue frag)) of
        None \<Rightarrow> None
      | Some ids \<Rightarrow> map_option (\<lambda>rest. ids @ rest) (encode_fragments encode frags))"

definition spm_encode :: "vocabulary \<Rightarrow> string \<Rightarrow> bool \<Rightarrow> int list option" where
  "spm_encode v s addSpecial =
     (case fragments_of v s of
        None \<Rightarrow> None
      | Some frags \<Rightarrow>
          map_option (\<lambda>ids. if addSpecial then addSpecials v ids else ids)
            (encode_fragments (spm_encode_text v) frags))"

section \<open>Decoding\<close>

definition hex_value :: "char \<Rightarrow> nat option" where
  "hex_value c =
     (let b = byte c in
      if 0x30 \<le> b \<and> b \<le> 0x39 then Some (b - 0x30)
      else if 0x41 \<le> b \<and> b \<le> 0x46 then Some (b - 0x37)
      else if 0x61 \<le> b \<and> b \<le> 0x66 then Some (b - 0x57)
      else None)"

text \<open>
  \<^verbatim>\<open>strconv.ParseUint\<close> of \<^verbatim>\<open>0x\<close> and two more characters with base 0, which accepts an
  underscore between the prefix and a digit.
\<close>

definition parse_hex_byte :: "char \<Rightarrow> char \<Rightarrow> nat option" where
  "parse_hex_byte c d =
     (case hex_value d of
        None \<Rightarrow> None
      | Some y \<Rightarrow>
          if c = CHR ''_'' then Some y
          else case hex_value c of None \<Rightarrow> None | Some x \<Rightarrow> Some (16 * x + y))"

definition is_byte_token :: "string \<Rightarrow> bool" where
  "is_byte_token data \<longleftrightarrow> length data = 6 \<and> has_prefix data ''<0x'' \<and> has_suffix data ''>''"

text \<open>The text of one token; \<^const>\<open>None\<close> is the error of an unreadable byte token.\<close>

definition spm_piece :: "string \<Rightarrow> string option" where
  "spm_piece data =
     (let data = replace_all data spmWhitespaceSep '' '' in
      if is_byte_token data
      then map_option (\<lambda>n. [char_of n]) (parse_hex_byte (data ! 3) (data ! 4))
      else Some data)"

datatype decoded = Panicked | Failed | Decoded string

fun spm_decode_from :: "vocabulary \<Rightarrow> string \<Rightarrow> int list \<Rightarrow> decoded" where
  "spm_decode_from v sb [] = Decoded sb"
| "spm_decode_from v sb (i # ids) =
     (case vocab_decode v i of
        None \<Rightarrow> Panicked
      | Some data \<Rightarrow>
          (case spm_piece data of
             None \<Rightarrow> Failed
           | Some t \<Rightarrow> spm_decode_from v (sb @ t) ids))"

definition spm_decode :: "vocabulary \<Rightarrow> int list \<Rightarrow> decoded" where
  "spm_decode v ids = spm_decode_from v [] ids"

section \<open>The merge loop is the textbook algorithm\<close>

lemma candidate_weak_order: "weak_order candidate_less"
  by (auto simp: weak_order_def candidate_less_def)

definition scored :: "vocabulary \<Rightarrow> bool" where
  "scored v \<longleftrightarrow> small_vocab v \<and> length (Values v) \<le> length (Scores v)"

lemma spm_propose_total: "scored v \<Longrightarrow> spm_propose v a b l r \<noteq> None"
  using position_map_Some [of "Values v" "string_of l @ string_of r"]
  by (auto simp: spm_propose_def Let_def scored_def small_vocab_def vocab_encode_def split: option.splits)

lemma spm_propose_Some:
  "spm_propose v a b l r = Some (Some c) \<Longrightarrow> ca c = a \<and> cb c = b
     \<and> csize c = length (string_of l) + length (string_of r) \<and> 0 \<le> vocab_encode v (string_of (l @ r))"
  by (auto simp: spm_propose_def Let_def split: if_splits)

lemma string_of_prefix_length:
  "prefix r0 r \<Longrightarrow> length (string_of r) = length (string_of r0) \<longleftrightarrow> r = r0"
  by (auto simp: prefix_def)

interpretation spm_loop: merge_loop "heap_push candidate_less" "heap_pop candidate_less" mset
  "heap_ok candidate_less" candidate_less "spm_rules v" "scored v" for v
proof (rule merge_loop.intro [OF heap_is_priority_queue [OF candidate_weak_order]], unfold_locales)
  show "propose (spm_rules v) a b l r \<noteq> None" if "scored v" for a b l r
    using spm_propose_total [OF that] by (simp add: spm_rules_def)
  show "left_end (spm_rules v) c = a \<and> right_end (spm_rules v) c = b"
    if "propose (spm_rules v) a b l r = Some (Some c)" for a b l r c
    using that spm_propose_Some by (fastforce simp: spm_rules_def)
  show "stale (spm_rules v) c l r \<longleftrightarrow> r \<noteq> r0"
    if "propose (spm_rules v) a b l r0 = Some (Some c)" "prefix r0 r" for a b l r0 c r
    using that string_of_prefix_length [OF that(2)] spm_propose_Some by (fastforce simp: spm_rules_def)
  show "\<not> candidate_less c c" for c by (simp add: candidate_less_def)
qed

lemma prefix_offset:
  assumes "segs = xs @ us" "segs = ys @ vs" "[] \<notin> set segs" "length (concat xs) = length (concat ys)"
  shows "xs = ys"
proof -
  have "ws = []" if "p = q @ ws" "[] \<notin> set p" "length (concat p) = length (concat q)" for p q ws :: "'a list list"
    using that by (cases ws) auto
  with assms show ?thesis by (auto simp: append_eq_append_conv2)
qed

lemma spm_strict: "strict_rules (spm_rules v) candidate_less"
  unfolding strict_rules_def
proof (intro allI impI)
  fix segs xs ys c d
  assume ne: "[] \<notin> set segs" and c: "candidate_at (spm_rules v) segs xs c"
    and d: "candidate_at (spm_rules v) segs ys d"
    and "\<not> candidate_less c d" "\<not> candidate_less d c"
  then have "ca c = ca d" by (auto simp: candidate_less_def)
  moreover have "ca c = length (concat xs)" "ca d = length (concat ys)"
    using c d spm_propose_Some by (fastforce simp: candidate_at_def spm_rules_def)+
  ultimately have "length (concat xs) = length (concat ys)" by simp
  moreover obtain us vs where "segs = xs @ us" "segs = ys @ vs"
    using c d unfolding candidate_at_def by blast
  ultimately show "xs = ys" using prefix_offset ne by blast
qed

lemma spm_merge_result:
  assumes "scored v"
  obtains segs where "spm_merge v runes = Some segs"
    "segs = textbook (spm_rules v) candidate_less (map (\<lambda>r. [r]) runes)"
    "concat segs = runes" "\<And>s. s \<in> set segs \<Longrightarrow> (\<exists>r \<in> set runes. s = [r]) \<or> 0 \<le> vocab_encode v (string_of s)"
proof -
  from spm_loop.merge_text_refines [OF assms, of "[]" runes] obtain segs where
    m: "spm_merge v runes = Some segs"
    and steps: "(merge_step (spm_rules v) candidate_less)\<^sup>*\<^sup>* (map (\<lambda>r. [r]) runes) segs"
    and fin: "candidates (spm_rules v) segs = {}"
    by (auto simp: spm_merge_def)
  have "concat (map (\<lambda>r. [r]) runes) = runes" by (induction runes) auto
  with merge_steps_concat [OF steps] have c: "concat segs = runes" by simp
  have acc: "(\<exists>r \<in> set runes. s = [r]) \<or> 0 \<le> vocab_encode v (string_of s)" if "s \<in> set segs" for s
    using merge_steps_accepted [OF steps that] spm_propose_Some
    by (fastforce simp: merged_ok_def spm_rules_def)
  have "segs = textbook (spm_rules v) candidate_less (map (\<lambda>r. [r]) runes)"
    using textbook_unique [OF candidate_weak_order spm_strict steps _ fin] by auto
  with that m c acc show thesis by blast
qed

section \<open>Decoding gives the text back\<close>

text \<open>
  A vocabulary that can spell every text: a token for the white-space marker, one for every
  byte, and a score for every value. A text is ordinary if it is well-formed and contains
  neither the marker nor the start of a byte token.
\<close>

definition spells_all :: "vocabulary \<Rightarrow> bool" where
  "spells_all v \<longleftrightarrow> scored v \<and> spmWhitespaceSep \<in> set (Values v) \<and> (\<forall>b. byte_token b \<in> set (Values v))"

definition ordinary :: "string \<Rightarrow> bool" where
  "ordinary s \<longleftrightarrow> valid_utf8 s \<and> \<not> contains s spmWhitespaceSep \<and> \<not> contains s ''<0x''"

definition to_sep :: "nat \<Rightarrow> nat" where
  "to_sep r = (if r = 0x20 then 0x2581 else r)"

definition from_sep :: "nat \<Rightarrow> nat" where
  "from_sep r = (if r = 0x2581 then 0x20 else r)"

lemma space_rune: "encode_rune 0x20 = '' ''"
  by code_simp

lemma concat_map_encode: "concat (map (\<lambda>r. encode_rune (f r)) rs) = string_of (map f rs)"
  by (simp add: string_of_def comp_def)

lemma replace_space:
  assumes "\<forall>r \<in> set rs. scalar r"
  shows "replace_all (string_of rs) '' '' spmWhitespaceSep = string_of (map to_sep rs)"
proof -
  have sp: "'' '' = encode_rune 0x20" by (simp add: space_rune)
  have "replace_all (string_of rs) '' '' spmWhitespaceSep
      = concat (map (\<lambda>r. if r = 0x20 then spmWhitespaceSep else encode_rune r) rs)"
    unfolding sp by (intro replace_all_rune assms) (simp add: scalar_def)
  also have "\<dots> = concat (map (\<lambda>r. encode_rune (to_sep r)) rs)"
    by (intro arg_cong [where f = concat] map_cong) (simp_all add: to_sep_def spmWhitespaceSep_def)
  finally show ?thesis by (simp add: concat_map_encode)
qed

lemma replace_sep:
  assumes "\<forall>r \<in> set rs. scalar r"
  shows "replace_all (string_of rs) spmWhitespaceSep '' '' = string_of (map from_sep rs)"
proof -
  have "replace_all (string_of rs) spmWhitespaceSep '' ''
      = concat (map (\<lambda>r. if r = 0x2581 then '' '' else encode_rune r) rs)"
    unfolding spmWhitespaceSep_def by (intro replace_all_rune assms) (simp add: scalar_def)
  also have "\<dots> = concat (map (\<lambda>r. encode_rune (from_sep r)) rs)"
    by (intro arg_cong [where f = concat] map_cong) (simp_all add: from_sep_def space_rune)
  finally show ?thesis by (simp add: concat_map_encode)
qed

lemma scalar_to_sep: "scalar r \<Longrightarrow> scalar (to_sep r)"
  by (simp add: to_sep_def scalar_def)

text \<open>A byte token decodes to its byte.\<close>

lemma string_of_ascii: "\<forall>r \<in> set rs. r < 0x80 \<Longrightarrow> string_of rs = map char_of rs"
  by (induction rs) (simp_all add: encode1)

lemma hex_digit_byte: "n < 16 \<Longrightarrow> byte (hex_digit n) = (if n < 10 then 0x30 + n else 0x37 + n)"
proof -
  have "\<forall>n \<in> set [0..<16]. byte (hex_digit n) = (if n < 10 then 0x30 + n else 0x37 + n)" by code_simp
  then show "n < 16 \<Longrightarrow> ?thesis" by simp
qed

lemma hex_value_digit: "n < 16 \<Longrightarrow> hex_value (hex_digit n) = Some n"
  by (auto simp: hex_value_def Let_def hex_digit_byte)

lemma hex_digit_not_underscore: "n < 16 \<Longrightarrow> hex_digit n \<noteq> CHR ''_''"
  using hex_digit_byte [of n] by (auto split: if_splits)

lemma parse_byte_token: "parse_hex_byte (hex_digit (byte b div 16)) (hex_digit (byte b mod 16)) = Some (byte b)"
proof -
  have "byte b < (256 :: nat)" by simp
  then have "byte b div 16 < (16 :: nat)" by linarith
  then show ?thesis by (simp add: parse_hex_byte_def hex_value_digit hex_digit_not_underscore)
qed

lemma byte_token_runes: "\<exists>rs. byte_token b = string_of rs \<and> (\<forall>r \<in> set rs. r < 0x80)"
proof -
  have d: "byte (hex_digit n) < (0x80 :: nat)" if "n < 16" for n using hex_digit_byte [OF that] that by auto
  define h l :: nat where "h = byte b div 16" and "l = byte b mod 16"
  have "byte b < (256 :: nat)" by simp
  then have hl: "h < 16" "l < 16" unfolding h_def l_def by linarith+
  define rs where "rs = [0x3C, 0x30, 0x78, byte (hex_digit h), byte (hex_digit l), 0x3E :: nat]"
  have ascii: "\<forall>r \<in> set rs. r < 0x80" using d hl by (simp add: rs_def)
  have "map char_of [0x3C, 0x30, 0x78 :: nat] = ''<0x''" "map char_of [0x3E :: nat] = ''>''" by code_simp+
  then have "byte_token b = map char_of rs"
    by (simp add: byte_token_def rs_def h_def l_def)
  with ascii string_of_ascii [OF ascii] show ?thesis by metis
qed

lemma map_from_sep_ascii: "\<forall>r \<in> set rs. r < 0x80 \<Longrightarrow> map from_sep rs = rs"
  by (induction rs) (auto simp: from_sep_def)

lemma ascii_scalar: "\<forall>r \<in> set rs. r < 0x80 \<Longrightarrow> \<forall>r \<in> set rs. scalar r"
  by (auto simp: scalar_def)

lemma spm_piece_byte: "spm_piece (byte_token b) = Some [b]"
proof -
  obtain rs where rs: "byte_token b = string_of rs" "\<forall>r \<in> set rs. r < 0x80" using byte_token_runes by blast
  have "replace_all (byte_token b) spmWhitespaceSep '' '' = byte_token b"
    unfolding rs(1) replace_sep [OF ascii_scalar [OF rs(2)]] map_from_sep_ascii [OF rs(2)] ..
  moreover have "is_byte_token (byte_token b)"
    unfolding is_byte_token_def byte_token_def has_prefix_def has_suffix_def suffix_def by auto
  moreover have "byte_token b ! 3 = hex_digit (byte b div 16)" "byte_token b ! 4 = hex_digit (byte b mod 16)"
    unfolding byte_token_def by (simp_all add: nth_append)
  ultimately show ?thesis using parse_byte_token [of b] by (simp add: spm_piece_def)
qed

text \<open>A token whose text is ordinary decodes to that text.\<close>

lemma spm_piece_text:
  assumes "\<forall>r \<in> set rs. scalar r" "\<not> contains (string_of (map from_sep rs)) ''<0x''"
  shows "spm_piece (string_of rs) = Some (string_of (map from_sep rs))"
proof -
  have "\<not> is_byte_token (string_of (map from_sep rs))"
  proof
    assume "is_byte_token (string_of (map from_sep rs))"
    then obtain t where "string_of (map from_sep rs) = ''<0x'' @ t"
      unfolding is_byte_token_def has_prefix_def by (auto elim: prefixE)
    with assms(2) show False by (metis append_Nil contains_iff)
  qed
  then show ?thesis by (simp add: spm_piece_def replace_sep [OF assms(1)])
qed

section \<open>Round trip\<close>

text \<open>What the ids of a list decode to, when they all do.\<close>

definition ids_text :: "vocabulary \<Rightarrow> int list \<Rightarrow> string option" where
  "ids_text v ids = (case spm_decode v ids of Decoded s \<Rightarrow> Some s | _ \<Rightarrow> None)"

lemma spm_decode_from_append:
  "spm_decode_from v sb ids = Decoded s \<Longrightarrow> spm_decode_from v sb (ids @ ids') = spm_decode_from v s ids'"
  by (induction ids arbitrary: sb) (auto split: option.splits)

lemma spm_decode_from_shift:
  "spm_decode_from v [] ids = Decoded s \<Longrightarrow> spm_decode_from v sb ids = Decoded (sb @ s)"
proof -
  have "spm_decode_from v (u @ w) ids = (case spm_decode_from v w ids of Decoded s \<Rightarrow> Decoded (u @ s) | d \<Rightarrow> d)"
    for u w by (induction ids arbitrary: w) (auto split: option.splits decoded.splits)
  from this [of sb "[]"] show "spm_decode_from v [] ids = Decoded s \<Longrightarrow> ?thesis" by simp
qed

lemma spm_decode_append:
  "spm_decode v ids = Decoded s \<Longrightarrow> spm_decode v ids' = Decoded t \<Longrightarrow> spm_decode v (ids @ ids') = Decoded (s @ t)"
  unfolding spm_decode_def using spm_decode_from_append spm_decode_from_shift by metis

lemma spm_decode_Nil [simp]: "spm_decode v [] = Decoded []"
  by (simp add: spm_decode_def)

lemma spm_decode_one:
  assumes "small_vocab v" "0 \<le> vocab_encode v t" "spm_piece t = Some s"
  shows "spm_decode v [vocab_encode v t] = Decoded s"
  using vocab_decode_encode [OF assms(1,2)] assms(3) by (simp add: spm_decode_def)

lemma spm_decode_concat:
  "(\<And>x. x \<in> set xs \<Longrightarrow> spm_decode v (f x) = Decoded (g x)) \<Longrightarrow>
   spm_decode v (concat (map f xs)) = Decoded (concat (map g xs))"
  by (induction xs) (auto intro: spm_decode_append)

lemma spm_segment_decodes:
  assumes v: "spells_all v" and rs: "\<forall>r \<in> set rs. scalar r" "\<not> contains (string_of (map from_sep rs)) ''<0x''"
    and one: "(\<exists>r. rs = [r]) \<or> 0 \<le> vocab_encode v (string_of rs)"
  shows "spm_decode v (spm_segment v rs) = Decoded (string_of (map from_sep rs))"
proof (cases "0 \<le> vocab_encode v (string_of rs)")
  case True
  with v spm_decode_one [OF _ True spm_piece_text [OF rs]] show ?thesis
    by (simp add: spm_segment_def Let_def spells_all_def scored_def)
next
  case False
  with one obtain r where r: "rs = [r]" by auto
  have small: "small_vocab v" using v by (simp add: spells_all_def scored_def)
  have "r \<noteq> 0x2581"
    using False v r vocab_encode_nonneg [OF small] by (auto simp: spells_all_def spmWhitespaceSep_def)
  then have t: "string_of (map from_sep rs) = string_of rs" using r by (simp add: from_sep_def)
  have b: "0 \<le> vocab_encode v (byte_token b)" for b
    using v vocab_encode_nonneg [OF small] by (simp add: spells_all_def)
  then have "spm_segment v rs = concat (map (\<lambda>b. [vocab_encode v (byte_token b)]) (string_of rs))"
    using False by (simp add: spm_segment_def Let_def filter_map comp_def)
  moreover have "spm_decode v \<dots> = Decoded (concat (map (\<lambda>b. [b]) (string_of rs)))"
    by (intro spm_decode_concat spm_decode_one [OF small b spm_piece_byte])
  ultimately show ?thesis unfolding t by (simp add: concat_map_singleton)
qed

lemma ordinary_part: "ordinary (u @ s @ t) \<Longrightarrow> valid_utf8 s \<Longrightarrow> ordinary s"
  unfolding ordinary_def using not_contains_part by blast

text \<open>The text of an ordinary string and of each of its segments, with and without markers.\<close>

lemma ordinary_runes:
  assumes "ordinary s"
  obtains rs' where "replace_all s '' '' spmWhitespaceSep = string_of rs'" "\<forall>r \<in> set rs'. scalar r"
    "string_of (map from_sep rs') = s"
proof -
  from assms obtain rs where rs: "s = string_of rs" "\<forall>r \<in> set rs. scalar r"
    unfolding ordinary_def by (auto elim: valid_utf8E)
  have "0x2581 \<notin> set rs"
  proof
    assume "0x2581 \<in> set rs"
    then obtain us vs where "rs = us @ 0x2581 # vs" by (auto simp: in_set_conv_decomp)
    then have "s = string_of us @ spmWhitespaceSep @ string_of vs" using rs by (simp add: spmWhitespaceSep_def)
    with assms show False unfolding ordinary_def contains_iff by blast
  qed
  then have "map from_sep (map to_sep rs) = rs"
    by (induction rs) (auto simp: from_sep_def to_sep_def)
  with that [of "map to_sep rs"] replace_space [OF rs(2)] rs show thesis
    by (auto simp: scalar_to_sep)
qed

lemma segment_ordinary:
  assumes "ordinary (string_of (map from_sep (concat segs)))" "g \<in> set segs"
  shows "\<not> contains (string_of (map from_sep g)) ''<0x''"
proof -
  from assms(2) obtain us vs where "segs = us @ g # vs" by (auto simp: in_set_conv_decomp)
  with assms(1) have "\<not> contains (string_of (map from_sep (concat us)) @ string_of (map from_sep g)
      @ string_of (map from_sep (concat vs))) ''<0x''"
    unfolding ordinary_def by simp
  then show ?thesis by (rule not_contains_part)
qed

lemma spm_text_roundtrip:
  assumes v: "spells_all v" and s: "ordinary s"
  shows "\<exists>ids. spm_encode_text v s = Some ids \<and> spm_decode v ids = Decoded s"
proof -
  obtain rs where rs: "replace_all s '' '' spmWhitespaceSep = string_of rs" "\<forall>r \<in> set rs. scalar r"
    "string_of (map from_sep rs) = s"
    using ordinary_runes [OF s] by auto
  have small: "small_vocab v" "scored v" using v by (auto simp: spells_all_def scored_def)
  show ?thesis
  proof (cases "0 \<le> vocab_encode v (string_of rs)")
    case True
    have "spm_piece (string_of rs) = Some s"
      using spm_piece_text [OF rs(2)] s rs(3) by (simp add: ordinary_def)
    from spm_decode_one [OF small(1) True this] True show ?thesis
      by (simp add: spm_encode_text_def Let_def rs(1))
  next
    case False
    from spm_merge_result [OF small(2), of rs] obtain segs where segs: "spm_merge v rs = Some segs"
      "concat segs = rs" "\<And>s. s \<in> set segs \<Longrightarrow> (\<exists>r \<in> set rs. s = [r]) \<or> 0 \<le> vocab_encode v (string_of s)"
      by metis
    have "spm_decode v (spm_segment v g) = Decoded (string_of (map from_sep g))" if g: "g \<in> set segs" for g
      by (rule spm_segment_decodes [OF v]) (use g segs rs s segment_ordinary in auto)
    from spm_decode_concat [of segs v "spm_segment v", OF this]
    have "spm_decode v (concat (map (spm_segment v) segs)) = Decoded (concat (map (\<lambda>g. string_of (map from_sep g)) segs))"
      by simp
    moreover have "concat (map (\<lambda>g. string_of (map from_sep g)) segs) = string_of (map from_sep (concat segs))"
      by (induction segs) simp_all
    moreover have "spm_encode_text v s = Some (concat (map (spm_segment v) segs))"
      using False segs(1) rs by (simp add: spm_encode_text_def Let_def runes_of_string_of)
    ultimately show ?thesis using segs(2) rs(3) by simp
  qed
qed

lemma encode_fragments_decodes:
  assumes "\<And>f. f \<in> set frags \<Longrightarrow> \<exists>ids. (if fids f \<noteq> [] then Some (fids f) else encode (fvalue f)) = Some ids
    \<and> spm_decode v ids = Decoded (fvalue f)"
  shows "\<exists>ids. encode_fragments encode frags = Some ids \<and> spm_decode v ids = Decoded (concat (map fvalue frags))"
  using assms
proof (induction frags)
  case (Cons f frags)
  from Cons.IH Cons.prems obtain rest where rest: "encode_fragments encode frags = Some rest"
    "spm_decode v rest = Decoded (concat (map fvalue frags))" by (metis list.set_intros(2))
  obtain ids where "(if fids f \<noteq> [] then Some (fids f) else encode (fvalue f)) = Some ids"
    "spm_decode v ids = Decoded (fvalue f)" using Cons.prems [of f] by auto
  with rest show ?case by (auto intro: spm_decode_append)
qed simp

section \<open>Properties\<close>

definition spm_example :: vocabulary where
  "spm_example = \<lparr>Values = [''<s>'', spmWhitespaceSep, ''a'', ''ab'', ''b''] @ map (\<lambda>n. byte_token (char_of n)) [0..<256],
     Types = [3, 1, 1, 1, 1] @ replicate 256 6, Scores = [0, 0, 0, 2, 1] @ replicate 256 0, Merges = [],
     BOS = [0], EOS = [], AddBOS = True, AddEOS = False\<rparr>"

text \<open>
  C9. Encoding and decoding with a vocabulary that can spell every text: whatever else the
  vocabulary holds and whatever the scores are, encoding a well-formed text that contains
  neither the white-space marker nor the start of a byte token returns ids, none of them
  panics and decoding them gives the text back, provided the special tokens are non-empty
  and decode to themselves.
\<close>

theorem sentencepiece_roundtrip:
  assumes "spells_all v" and "ordinary s"
    and "special_vocabulary v = Some sps" and "\<forall>sp \<in> set sps. sp \<noteq> [] \<and> valid_utf8 sp \<and> spm_piece sp = Some sp"
  shows "\<exists>ids. spm_encode v s False = Some ids \<and> spm_decode v ids = Decoded s"
proof -
  have small: "small_vocab v" using assms(1) by (simp add: spells_all_def scored_def)
  obtain frags where frags: "fragments_of v s = Some frags" "concat (map fvalue frags) = s"
    "fragments_ok v (set sps) (set sps) frags"
    using fragments_of_ends [OF assms(3)] assms(2,4) unfolding ordinary_def by blast
  have "\<exists>ids. (if fids f \<noteq> [] then Some (fids f) else spm_encode_text v (fvalue f)) = Some ids
      \<and> spm_decode v ids = Decoded (fvalue f)" if f: "f \<in> set frags" for f
  proof (cases "fids f = []")
    case True
    from f obtain us ws where "frags = us @ f # ws" by (auto simp: in_set_conv_decomp)
    then have "s = concat (map fvalue us) @ fvalue f @ concat (map fvalue ws)" using frags(2) by auto
    moreover have "valid_utf8 (fvalue f)" using frags(3) f True by (auto simp: fragments_ok_def)
    ultimately have "ordinary (fvalue f)" using assms(2) ordinary_part by metis
    from spm_text_roundtrip [OF assms(1) this] True show ?thesis by simp
  next
    case False
    with frags(3) f have i: "fids f = [vocab_encode v (fvalue f)]" "fvalue f \<in> set sps"
      by (auto simp: fragments_ok_def)
    then have "0 \<le> vocab_encode v (fvalue f)"
      using special_vocabulary_values [OF assms(3)] vocab_encode_nonneg [OF small] by auto
    from spm_decode_one [OF small this] i assms(4) show ?thesis by auto
  qed
  from encode_fragments_decodes [OF this] frags(1,2) show ?thesis
    by (auto simp: spm_encode_def)
qed

lemma spm_example_spells: "spells_all spm_example"
proof -
  have "byte_token b \<in> set (Values spm_example)" for b
  proof -
    have "byte_token (char_of (byte b :: nat)) \<in> (\<lambda>n :: nat. byte_token (char_of n)) ` {0..<256}"
      by (intro imageI) simp
    then show ?thesis by (simp add: spm_example_def)
  qed
  then show ?thesis by (simp add: spells_all_def scored_def small_vocab_def spm_example_def)
qed

lemma spm_example_specials: "special_vocabulary spm_example = Some [''<s>'']"
proof -
  have "filter (\<lambda>(s, t). t = TOKEN_TYPE_CONTROL \<or> t = TOKEN_TYPE_USER_DEFINED)
      (zip (map (\<lambda>n. byte_token (char_of n)) [0..<256]) (replicate 256 6)) = []"
    by (auto simp: filter_empty_conv token_types dest: set_zip_rightD)
  then show ?thesis
    by (simp add: special_vocabulary_def spm_example_def token_types del: upt_rec_numeral)
qed

theorem sentencepiece_roundtrip_witness:
  "\<exists>ids. spm_encode spm_example ''ab <s>a!'' False = Some ids \<and> spm_decode spm_example ids = Decoded ''ab <s>a!''"
proof (rule sentencepiece_roundtrip [OF spm_example_spells])
  show "ordinary ''ab <s>a!''" by code_simp
  show "special_vocabulary spm_example = Some [''<s>'']" by (rule spm_example_specials)
  have "''<s>'' \<noteq> [] \<and> valid_utf8 ''<s>'' \<and> spm_piece ''<s>'' = Some ''<s>''" by code_simp
  then show "\<forall>sp \<in> set [''<s>'']. sp \<noteq> [] \<and> valid_utf8 sp \<and> spm_piece sp = Some sp" by simp
qed

text \<open>
  C10. The merge loop, with its array of linked entries and its heap of partly outdated
  candidates, returns exactly what the textbook algorithm returns: merge the best-scored
  adjacent pair that is in the vocabulary, the leftmost of several, until there is none.
\<close>

theorem sentencepiece_is_textbook:
  assumes "length (Values v) < 2 ^ 31" "length (Merges v) < 2 ^ 31" "length (Values v) \<le> length (Scores v)"
  shows "spm_merge v runes = Some (textbook (spm_rules v) candidate_less (map (\<lambda>r. [r]) runes))"
  using spm_merge_result [of v runes] assms by (auto simp: scored_def small_vocab_def)

theorem sentencepiece_is_textbook_witness:
  "spm_merge spm_example [97, 98, 98] = Some (textbook (spm_rules spm_example) candidate_less [[97], [98], [98]])"
  using sentencepiece_is_textbook [of spm_example "[97, 98, 98]"] by (simp add: spm_example_def)

lemma encode_fragments_all:
  assumes "\<And>f. f \<in> set frags \<Longrightarrow> \<exists>ids. (if fids f \<noteq> [] then Some (fids f) else encode (fvalue f)) = Some ids
    \<and> (\<forall>i \<in> set ids. P i)"
  shows "\<exists>ids. encode_fragments encode frags = Some ids \<and> (\<forall>i \<in> set ids. P i)"
  using assms
proof (induction frags)
  case (Cons f frags)
  from Cons.IH Cons.prems obtain rest where "encode_fragments encode frags = Some rest" "\<forall>i \<in> set rest. P i"
    by (metis list.set_intros(2))
  with Cons.prems [of f] show ?case by auto
qed simp

lemma spm_text_valid:
  assumes "scored v"
  shows "\<exists>ids. spm_encode_text v s = Some ids \<and> (\<forall>i \<in> set ids. vocab_decode v i \<noteq> None)"
proof -
  have small: "small_vocab v" using assms by (simp add: scored_def)
  have one: "vocab_decode v (vocab_encode v t) \<noteq> None" if "0 \<le> vocab_encode v t" for t
    using vocab_decode_encode [OF small that] by simp
  obtain segs where "spm_merge v (runes_of (replace_all s '' '' spmWhitespaceSep)) = Some segs"
    using spm_merge_result [OF assms] by metis
  then show ?thesis using one
    by (auto simp: spm_encode_text_def spm_segment_def Let_def split: if_splits)
qed

text \<open>
  C25. Encoding a well-formed text always returns, and every id it returns is the index of a
  value, so that decoding does not panic: for every vocabulary with a score for each value,
  non-empty special tokens, and, when they are to be added, markers of the text within it.
\<close>

theorem sentencepiece_ids_valid:
  assumes "scored v" and "special_vocabulary v = Some sps" and "\<forall>sp \<in> set sps. sp \<noteq> [] \<and> valid_utf8 sp"
    and "valid_utf8 s" and "\<forall>i \<in> set (BOS v) \<union> set (EOS v). vocab_decode v i \<noteq> None"
  shows "\<exists>ids. spm_encode v s addSpecial = Some ids \<and> (\<forall>i \<in> set ids. vocab_decode v i \<noteq> None)"
proof -
  have small: "small_vocab v" using assms(1) by (simp add: scored_def)
  obtain frags where frags: "fragments_of v s = Some frags" "fragments_ok v (set sps) (set sps) frags"
    using fragments_of_ends [OF assms(2,3,4)] by blast
  have "\<exists>ids. (if fids f \<noteq> [] then Some (fids f) else spm_encode_text v (fvalue f)) = Some ids
      \<and> (\<forall>i \<in> set ids. vocab_decode v i \<noteq> None)" if f: "f \<in> set frags" for f
  proof (cases "fids f = []")
    case True
    with spm_text_valid [OF assms(1)] show ?thesis by simp
  next
    case False
    with frags(2) f have i: "fids f = [vocab_encode v (fvalue f)]" "fvalue f \<in> set sps"
      by (auto simp: fragments_ok_def)
    then have "0 \<le> vocab_encode v (fvalue f)"
      using special_vocabulary_values [OF assms(2)] vocab_encode_nonneg [OF small] by auto
    from vocab_decode_encode [OF small this] i show ?thesis by simp
  qed
  from encode_fragments_all [OF this] obtain ids where
    "encode_fragments (spm_encode_text v) frags = Some ids" "\<forall>i \<in> set ids. vocab_decode v i \<noteq> None" by blast
  with frags(1) assms(5) show ?thesis
    by (auto simp: spm_encode_def addSpecials_def Let_def)
qed

theorem sentencepiece_ids_valid_witness:
  "\<exists>ids. spm_encode spm_example ''b<s> a'' True = Some ids \<and> (\<forall>i \<in> set ids. vocab_decode spm_example i \<noteq> None)"
proof (rule sentencepiece_ids_valid [OF _ spm_example_specials])
  show "scored spm_example" using spm_example_spells by (simp add: spells_all_def)
  have "''<s>'' \<noteq> [] \<and> valid_utf8 ''<s>''" by code_simp
  then show "\<forall>sp \<in> set [''<s>'']. sp \<noteq> [] \<and> valid_utf8 sp" by simp
  show "valid_utf8 ''b<s> a''" by code_simp
  show "\<forall>i \<in> set (BOS spm_example) \<union> set (EOS spm_example). vocab_decode spm_example i \<noteq> None"
    by (simp add: spm_example_def vocab_decode_def)
qed

text \<open>
  Text that looks like a byte token is not given back: a vocabulary with byte tokens
  turns the six characters of \<^verbatim>\<open><0x41>\<close> into one id, which decodes to the letter A; and a token
  whose text only looks like a byte token makes decoding fail.
\<close>

theorem byte_token_text_is_lost:
  assumes "vocab_encode v ''<0x41>'' = i" "0 \<le> i" "small_vocab v"
  shows "spm_encode_text v ''<0x41>'' = Some [i] \<and> spm_decode v [i] = Decoded ''A''
    \<and> spm_piece ''<0xZZ>'' = None"
proof -
  have e: "replace_all ''<0x41>'' '' '' spmWhitespaceSep = ''<0x41>''" by code_simp
  have p: "spm_piece ''<0x41>'' = Some ''A''" "spm_piece ''<0xZZ>'' = None" by code_simp+
  from assms spm_decode_one [of v "''<0x41>''", OF _ _ p(1)] e p(2) show ?thesis
    by (simp add: spm_encode_text_def)
qed

theorem byte_token_text_is_lost_witness:
  "spm_encode_text (spm_example\<lparr>Values := [''a'', ''<0x41>'']\<rparr>) ''<0x41>'' = Some [1]
    \<and> spm_decode (spm_example\<lparr>Values := [''a'', ''<0x41>'']\<rparr>) [1] = Decoded ''A''
    \<and> spm_piece ''<0xZZ>'' = None"
  by (rule byte_token_text_is_lost)
    (simp_all add: small_vocab_def spm_example_def vocab_encode_def position_map_def)

text \<open>
  An empty control token makes encoding run forever: it is found in front of the text
  again and again, for every text.
\<close>

theorem empty_special_never_returns:
  assumes "special_vocabulary v = Some ([] # sps)" "s \<noteq> []"
  shows "spm_encode v s addSpecial = None"
  using cut_special_empty [OF assms(2)] assms(1) by (simp add: spm_encode_def fragments_of_def)

theorem empty_special_never_returns_witness:
  "spm_encode (spm_example\<lparr>Values := [[], ''a''], Types := [3, 1]\<rparr>) ''a'' True = None"
  by (rule empty_special_never_returns [where sps = "[]"]) (simp_all add: special_vocabulary_def token_types)

end
