(* ===== verification/BytePair.thy ===== *)
theory BytePair
  imports SentencePiece
begin

text \<open>
  The byte-pair tokenizer (\<^verbatim>\<open>tokenizer/bytepairencoding.go\<close>): the pretokenizer's splits, the
  byte-level normalization of GPT-2 and the one with white-space markers, the merge loop by
  rank, and decoding. Two parameters stand for code that is not here: the matches of the
  regular expressions of \<^verbatim>\<open>regexp2\<close>, in order and within the text, and the binary heap of
  \<^verbatim>\<open>gods\<close>, any priority queue for the ranks. The properties are that the loop is the
  textbook algorithm up to the choice among equal ranks, which is left to the heap, and
  that decoding gives an encoded text back.
\<close>

section \<open>Splitting\<close>

text \<open>A regular expression is the list of its matches in a text: their offsets and lengths.\<close>

type_synonym regexp = "nat list \<Rightarrow> (nat \<times> nat) list"

fun split_matches :: "nat list \<Rightarrow> nat \<Rightarrow> (nat \<times> nat) list \<Rightarrow> string list" where
  "split_matches r off [] = (if off < length r then [string_of (drop off r)] else [])"
| "split_matches r off ((i, n) # ms) =
     (if off \<noteq> i then [string_of (take (i - off) (drop off r))] else [])
     @ string_of (take n (drop i r)) # split_matches r (i + n) ms"

definition bpe_split :: "regexp list \<Rightarrow> string \<Rightarrow> string list" where
  "bpe_split regexps s =
     foldl (\<lambda>parts re. concat (map (\<lambda>part. split_matches (runes_of part) 0 (re (runes_of part))) parts))
       [s] regexps"

section \<open>Encoding\<close>

record pair =
  pa :: nat
  pb :: nat
  prank :: int
  pvalue :: string

definition bpe_propose :: "vocabulary \<Rightarrow> nat \<Rightarrow> nat \<Rightarrow> nat list \<Rightarrow> nat list \<Rightarrow> pair option option" where
  "bpe_propose v a b l r =
     (let left = string_of l; right = string_of r; rank = vocab_merge v left right in
      if rank < 0 then Some None
      else Some (Some \<lparr>pa = a, pb = b, prank = rank, pvalue = left @ right\<rparr>))"

definition bpe_rules :: "vocabulary \<Rightarrow> pair merge_rules" where
  "bpe_rules v = \<lparr>
     propose = bpe_propose v,
     left_end = pa,
     right_end = pb,
     stale = (\<lambda>c l r. string_of l @ string_of r \<noteq> pvalue c),
     accepted = (\<lambda>c. 0 \<le> vocab_encode v (pvalue c))\<rparr>"

definition rank_less :: "pair \<Rightarrow> pair \<Rightarrow> bool" where
  "rank_less c d \<longleftrightarrow> prank c < prank d"

text \<open>The byte-level alphabet: every byte as a printable code point.\<close>

definition byte_rune :: "char \<Rightarrow> nat" where
  "byte_rune b =
     (let r = byte b in
      if r = 0x00ad then 0x0143
      else if r \<le> 0x0020 then r + 0x0100
      else if 0x007f \<le> r \<and> r \<le> 0x00a0 then r + 0x00a2
      else r)"

definition bpe_normalize :: "bool \<Rightarrow> string \<Rightarrow> string" where
  "bpe_normalize spaceToSpmSep s =
     (if spaceToSpmSep then replace_all s '' '' spmWhitespaceSep
      else concat (map (\<lambda>b. encode_rune (byte_rune b)) s))"

text \<open>The operations of the heap.\<close>

record 'q heap_ops =
  h_new :: 'q
  h_push :: "pair \<Rightarrow> 'q \<Rightarrow> 'q"
  h_pop :: "'q \<Rightarrow> (pair \<times> 'q) option"

definition bpe_merge :: "'q heap_ops \<Rightarrow> vocabulary \<Rightarrow> nat list \<Rightarrow> nat list list option" where
  "bpe_merge h v runes = merge_text (bpe_rules v) (h_push h) (h_pop h) (h_new h) runes"

definition bpe_segment :: "vocabulary \<Rightarrow> bool \<Rightarrow> nat list \<Rightarrow> int list" where
  "bpe_segment v spaceToSpmSep runes =
     (let i = vocab_encode v (string_of runes) in
      if 0 \<le> i then [i]
      else if spaceToSpmSep
      then filter (\<lambda>i. 0 \<le> i) (map (\<lambda>b. vocab_encode v (byte_token b)) (string_of runes))
      else [])"

definition bpe_encode_split :: "'q heap_ops \<Rightarrow> vocabulary \<Rightarrow> bool \<Rightarrow> string \<Rightarrow> int list option" where
  "bpe_encode_split h v spaceToSpmSep s =
     (let normalized = bpe_normalize spaceToSpmSep s; i = vocab_encode v normalized in
      if 0 \<le> i then Some [i]
      else map_option (\<lambda>segs. concat (map (bpe_segment v spaceToSpmSep) segs))
             (bpe_merge h v (runes_of normalized)))"

fun encode_splits :: "(string \<Rightarrow> int list option) \<Rightarrow> string list \<Rightarrow> int list option" where
  "encode_splits encode [] = Some []"
| "encode_splits encode (s # ss) =
     (case encode s of
        None \<Rightarrow> None
      | Some ids \<Rightarrow> map_option (\<lambda>rest. ids @ rest) (encode_splits encode ss))"

definition bpe_encode ::
  "'q heap_ops \<Rightarrow> regexp list \<Rightarrow> vocabulary \<Rightarrow> bool \<Rightarrow> string \<Rightarrow> bool \<Rightarrow> int list option" where
  "bpe_encode h regexps v spaceToSpmSep s addSpecial =
     (case fragments_of v s of
        None \<Rightarrow> None
      | Some frags \<Rightarrow>
          map_option (\<lambda>ids. if addSpecial then addSpecials v ids else ids)
            (encode_fragments
               (\<lambda>value. encode_splits (bpe_encode_split h v spaceToSpmSep) (bpe_split regexps value))
               frags))"

section \<open>Decoding\<close>

text \<open>The text of one code point of a token: the byte it stands for, or itself.\<close>

definition unmap_rune :: "nat \<Rightarrow> string" where
  "unmap_rune r =
     (if r = 0x0100 then []
      else if r = 0x0143 then [char_of (0x00ad :: nat)]
      else if 0x0100 < r \<and> r \<le> 0x0120 then [char_of (r - 0x0100)]
      else if 0x0120 < r \<and> r \<le> 0x0142 then [char_of (r - 0x00a2)]
      else if 0x0143 < r then (if r = 0x2581 then '' '' else encode_rune r)
      else [char_of r])"

definition byte_level_piece :: "string \<Rightarrow> string" where
  "byte_level_piece data = concat (map unmap_rune (runes_of data))"

text \<open>\<^verbatim>\<open>strconv.ParseUint\<close> of two characters with base 16.\<close>

definition parse_hex2 :: "char \<Rightarrow> char \<Rightarrow> nat option" where
  "parse_hex2 c d =
     (case (hex_value c, hex_value d) of
        (Some x, Some y) \<Rightarrow> Some (16 * x + y)
      | _ \<Rightarrow> None)"

definition marker_piece :: "string \<Rightarrow> string" where
  "marker_piece data =
     (let text = concat (map (\<lambda>r. if r = 0x2581 then '' '' else encode_rune r) (runes_of data)) in
      if is_byte_token data
      then (case parse_hex2 (data ! 3) (data ! 4) of Some n \<Rightarrow> [char_of n] | None \<Rightarrow> text)
      else text)"

fun bpe_decode_from :: "vocabulary \<Rightarrow> bool \<Rightarrow> string \<Rightarrow> int list \<Rightarrow> string option" where
  "bpe_decode_from v spaceToSpmSep sb [] = Some sb"
| "bpe_decode_from v spaceToSpmSep sb (i # ids) =
     (case vocab_decode v i of
        None \<Rightarrow> None
      | Some data \<Rightarrow>
          bpe_decode_from v spaceToSpmSep
            (sb @ (if spaceToSpmSep then marker_piece data else byte_level_piece data)) ids)"

definition bpe_decode :: "vocabulary \<Rightarrow> bool \<Rightarrow> int list \<Rightarrow> string option" where
  "bpe_decode v spaceToSpmSep ids = bpe_decode_from v spaceToSpmSep [] ids"

section \<open>The merge loop\<close>

lemma bpe_propose_Some:
  "bpe_propose v a b l r = Some (Some c) \<Longrightarrow> pa c = a \<and> pb c = b \<and> pvalue c = string_of (l @ r)"
  by (auto simp: bpe_propose_def Let_def split: if_splits)

text \<open>What the code relies on of the heap: it is a priority queue for the ranks.\<close>

definition lawful_heap :: "'q heap_ops \<Rightarrow> ('q \<Rightarrow> pair multiset) \<Rightarrow> ('q \<Rightarrow> bool) \<Rightarrow> bool" where
  "lawful_heap h items ok \<longleftrightarrow> priority_queue (h_push h) (h_pop h) items ok rank_less
     \<and> ok (h_new h) \<and> items (h_new h) = {#}"

lemma bpe_loop:
  assumes "lawful_heap h items ok"
  shows "merge_loop (h_push h) (h_pop h) items ok rank_less (bpe_rules v) True"
proof (intro merge_loop.intro merge_loop_axioms.intro)
  show "priority_queue (h_push h) (h_pop h) items ok rank_less" using assms by (simp add: lawful_heap_def)
  show "propose (bpe_rules v) a b l r \<noteq> None" for a b l r
    by (simp add: bpe_rules_def bpe_propose_def Let_def)
  show "left_end (bpe_rules v) c = a \<and> right_end (bpe_rules v) c = b"
    if "propose (bpe_rules v) a b l r = Some (Some c)" for a b l r c
    using that bpe_propose_Some by (fastforce simp: bpe_rules_def)
  show "stale (bpe_rules v) c l r \<longleftrightarrow> r \<noteq> r0"
    if "propose (bpe_rules v) a b l r0 = Some (Some c)" "prefix r0 r" for a b l r0 c r
    using that string_of_prefix_length [OF that(2)] bpe_propose_Some by (fastforce simp: bpe_rules_def)
  show "\<not> rank_less c c" for c by (simp add: rank_less_def)
qed

lemma rank_weak_order: "weak_order rank_less"
  by (auto simp: weak_order_def rank_less_def)

lemma bpe_merge_result:
  assumes "lawful_heap h items ok"
  obtains segs where "bpe_merge h v runes = Some segs"
    "(merge_step (bpe_rules v) rank_less)\<^sup>*\<^sup>* (map (\<lambda>r. [r]) runes) segs" "candidates (bpe_rules v) segs = {}"
    "concat segs = runes" "\<And>s. s \<in> set segs \<Longrightarrow> (\<exists>r \<in> set runes. s = [r]) \<or> 0 \<le> vocab_encode v (string_of s)"
proof -
  have h: "ok (h_new h)" "items (h_new h) = {#}" using assms by (auto simp: lawful_heap_def)
  from merge_loop.merge_text_refines [OF bpe_loop [OF assms] TrueI h, of v runes] obtain segs where
    m: "bpe_merge h v runes = Some segs"
    and steps: "(merge_step (bpe_rules v) rank_less)\<^sup>*\<^sup>* (map (\<lambda>r. [r]) runes) segs"
    and fin: "candidates (bpe_rules v) segs = {}"
    by (auto simp: bpe_merge_def)
  have "concat (map (\<lambda>r. [r]) runes) = runes" by (induction runes) auto
  with merge_steps_concat [OF steps] have c: "concat segs = runes" by simp
  have "(\<exists>r \<in> set runes. s = [r]) \<or> 0 \<le> vocab_encode v (string_of s)" if "s \<in> set segs" for s
    using merge_steps_accepted [OF steps that] bpe_propose_Some
    by (fastforce simp: merged_ok_def bpe_rules_def)
  with that m steps fin c show thesis by blast
qed

section \<open>Splitting loses nothing\<close>

text \<open>What the code relies on of the matches: they come in order and lie within the text.\<close>

fun matches_ok :: "nat \<Rightarrow> (nat \<times> nat) list \<Rightarrow> nat \<Rightarrow> bool" where
  "matches_ok off [] n \<longleftrightarrow> True"
| "matches_ok off ((i, k) # ms) n \<longleftrightarrow> off \<le> i \<and> i + k \<le> n \<and> matches_ok (i + k) ms n"

definition lawful_regexp :: "regexp \<Rightarrow> bool" where
  "lawful_regexp re \<longleftrightarrow> (\<forall>r. matches_ok 0 (re r) (length r))"

lemma split_matches_concat:
  "matches_ok off ms (length r) \<Longrightarrow> concat (split_matches r off ms) = string_of (drop off r)"
proof (induction r off ms rule: split_matches.induct)
  case (2 r off i n ms)
  then have "drop off r = take (i - off) (drop off r) @ take n (drop i r) @ drop (i + n) r"
    by (metis append_take_drop_id drop_drop le_add_diff_inverse add.commute matches_ok.simps(2))
  then have "string_of (drop off r) = string_of (take (i - off) (drop off r)) @ string_of (take n (drop i r)) @ string_of (drop (i + n) r)"
    by (metis string_of_simps(3))
  with 2 show ?case by auto
qed simp

lemma split_matches_valid:
  "\<forall>k \<in> set r. scalar k \<Longrightarrow> p \<in> set (split_matches r off ms) \<Longrightarrow> valid_utf8 p"
proof (induction r off ms rule: split_matches.induct)
  case (1 r off)
  then show ?case by (auto split: if_splits intro!: valid_string_of dest: in_set_dropD)
next
  case (2 r off i n ms)
  then show ?case
    by (auto split: if_splits intro!: valid_string_of dest: in_set_takeD in_set_dropD)
qed

lemma bpe_split_concat:
  assumes "\<forall>re \<in> set regexps. lawful_regexp re" "valid_utf8 s"
  shows "concat (bpe_split regexps s) = s \<and> (\<forall>p \<in> set (bpe_split regexps s). valid_utf8 p)"
proof -
  have one: "concat (split_matches (runes_of p) 0 (re (runes_of p))) = p"
    "\<forall>q \<in> set (split_matches (runes_of p) 0 (re (runes_of p))). valid_utf8 q"
    if "lawful_regexp re" "valid_utf8 p" for re p
  proof -
    have "concat (split_matches (runes_of p) 0 (re (runes_of p))) = string_of (runes_of p)"
      using split_matches_concat [of 0 "re (runes_of p)" "runes_of p"] that(1) by (simp add: lawful_regexp_def)
    then show "concat (split_matches (runes_of p) 0 (re (runes_of p))) = p"
      using that(2) by (simp add: valid_utf8_def)
    have "\<forall>k \<in> set (runes_of p). scalar k" using runes_of_scalar by blast
    then show "\<forall>q \<in> set (split_matches (runes_of p) 0 (re (runes_of p))). valid_utf8 q"
      using split_matches_valid by blast
  qed
  have "concat (foldl (\<lambda>parts re. concat (map (\<lambda>part. split_matches (runes_of part) 0 (re (runes_of part))) parts)) ps regexps) = concat ps
     \<and> (\<forall>p \<in> set (foldl (\<lambda>parts re. concat (map (\<lambda>part. split_matches (runes_of part) 0 (re (runes_of part))) parts)) ps regexps). valid_utf8 p)"
    if "\<forall>p \<in> set ps. valid_utf8 p" for ps
    using assms(1) that
  proof (induction regexps arbitrary: ps)
    case (Cons re regexps)
    define qs where "qs = concat (map (\<lambda>part. split_matches (runes_of part) 0 (re (runes_of part))) ps)"
    have re: "lawful_regexp re" using Cons.prems(1) by simp
    have "\<forall>q \<in> set qs. valid_utf8 q" using one(2) [OF re] Cons.prems(2) by (auto simp: qs_def)
    moreover have "concat qs = concat ps"
      unfolding qs_def using Cons.prems(2) by (induction ps) (auto simp: one(1) [OF re])
    ultimately show ?case using Cons.IH [of qs] Cons.prems(1) by (simp add: qs_def [symmetric])
  qed simp
  from this [of "[s]"] assms(2) show ?thesis by (simp add: bpe_split_def)
qed

section \<open>Decoding gives the text back\<close>

lemma bpe_decode_from_shift:
  "bpe_decode_from v m (u @ w) ids = map_option (\<lambda>s. u @ s) (bpe_decode_from v m w ids)"
  by (induction ids arbitrary: w) (auto split: option.splits)

lemma bpe_decode_append:
  "bpe_decode v m ids = Some s \<Longrightarrow> bpe_decode v m ids' = Some t \<Longrightarrow> bpe_decode v m (ids @ ids') = Some (s @ t)"
proof -
  have "bpe_decode_from v m u (ids @ ids') = (case bpe_decode_from v m u ids of None \<Rightarrow> None | Some w \<Rightarrow> bpe_decode_from v m w ids')"
    for u by (induction ids arbitrary: u) (auto split: option.splits)
  moreover have "bpe_decode_from v m s ids' = map_option (\<lambda>w. s @ w) (bpe_decode_from v m [] ids')"
    using bpe_decode_from_shift [of v m s "[]"] by simp
  ultimately show "bpe_decode v m ids = Some s \<Longrightarrow> bpe_decode v m ids' = Some t \<Longrightarrow> ?thesis"
    by (simp add: bpe_decode_def)
qed

lemma bpe_decode_Nil [simp]: "bpe_decode v m [] = Some []"
  by (simp add: bpe_decode_def)

lemma bpe_decode_one:
  assumes "small_vocab v" "0 \<le> vocab_encode v t"
  shows "bpe_decode v m [vocab_encode v t] = Some (if m then marker_piece t else byte_level_piece t)"
  using vocab_decode_encode [OF assms] by (simp add: bpe_decode_def)

lemma bpe_decode_concat:
  "(\<And>x. x \<in> set xs \<Longrightarrow> bpe_decode v m (f x) = Some (g x)) \<Longrightarrow>
   bpe_decode v m (concat (map f xs)) = Some (concat (map g xs))"
  by (induction xs) (auto intro: bpe_decode_append)

lemma encode_splits_decodes:
  assumes "\<And>s. s \<in> set ss \<Longrightarrow> \<exists>ids. encode s = Some ids \<and> bpe_decode v m ids = Some (g s)"
  shows "\<exists>ids. encode_splits encode ss = Some ids \<and> bpe_decode v m ids = Some (concat (map g ss))"
  using assms
proof (induction ss)
  case (Cons s ss)
  then obtain ids rest where "encode s = Some ids" "bpe_decode v m ids = Some (g s)"
    "encode_splits encode ss = Some rest" "bpe_decode v m rest = Some (concat (map g ss))"
    by (metis list.set_intros)
  then show ?case by (auto intro: bpe_decode_append)
qed simp

lemma bpe_fragments_decode:
  assumes "\<And>f. f \<in> set frags \<Longrightarrow> \<exists>ids. (if fids f \<noteq> [] then Some (fids f) else encode (fvalue f)) = Some ids
    \<and> bpe_decode v m ids = Some (g f)"
  shows "\<exists>ids. encode_fragments encode frags = Some ids \<and> bpe_decode v m ids = Some (concat (map g frags))"
  using assms
proof (induction frags)
  case (Cons f frags)
  from Cons.IH Cons.prems obtain rest where rest: "encode_fragments encode frags = Some rest"
    "bpe_decode v m rest = Some (concat (map g frags))" by (metis list.set_intros(2))
  obtain ids where "(if fids f \<noteq> [] then Some (fids f) else encode (fvalue f)) = Some ids"
    "bpe_decode v m ids = Some (g f)" using Cons.prems [of f] by auto
  with rest show ?case by (auto intro: bpe_decode_append)
qed simp

subsection \<open>The byte-level alphabet\<close>

lemma byte_below: "byte b < (256 :: nat)"
  by simp

lemma byte_rune_less: "byte_rune b < 0x144"
  using byte_below [of b] unfolding byte_rune_def Let_def by (simp split: if_splits; linarith)

lemma byte_rune_scalar: "scalar (byte_rune b)"
  using byte_rune_less [of b] by (simp add: scalar_def)

lemma unmap_byte_rune: "unmap_rune (byte_rune b) = (if byte b = (0 :: nat) then [] else [b])"
proof -
  define r :: nat where "r = byte b"
  have b: "b = char_of r" by (simp add: r_def)
  then have ad: "r = 0xad \<Longrightarrow> char_of (0xad :: nat) = b" by simp
  have "r < 256" by (simp add: r_def)
  then consider "r = 0" | "0 < r" "r \<le> 0x20" | "0x20 < r" "r < 0x7f" | "0x7f \<le> r" "r \<le> 0xa0"
    | "r = 0xad" | "0xa0 < r" "r \<noteq> 0xad" "r < 256" by linarith
  then show ?thesis
    by cases (simp_all add: byte_rune_def Let_def r_def [symmetric] unmap_rune_def b [symmetric] ad)
qed

lemma byte_level_string: "\<forall>r \<in> set rs. scalar r \<Longrightarrow> byte_level_piece (string_of rs) = concat (map unmap_rune rs)"
  by (simp add: byte_level_piece_def runes_of_string_of)

lemma normalize_bytes: "bpe_normalize False s = string_of (map byte_rune s)"
  by (simp add: bpe_normalize_def string_of_def comp_def)

definition no_nul :: "string \<Rightarrow> string" where
  "no_nul s = filter (\<lambda>b. byte b \<noteq> (0 :: nat)) s"

lemma unmap_bytes: "concat (map unmap_rune (map byte_rune s)) = no_nul s"
  by (induction s) (auto simp: unmap_byte_rune no_nul_def)

definition spells_bytes :: "vocabulary \<Rightarrow> bool" where
  "spells_bytes v \<longleftrightarrow> small_vocab v \<and> (\<forall>b. encode_rune (byte_rune b) \<in> set (Values v))"

lemma bpe_bytes_roundtrip:
  assumes h: "lawful_heap h items ok" and v: "spells_bytes v"
  shows "\<exists>ids. bpe_encode_split h v False s = Some ids \<and> bpe_decode v False ids = Some (no_nul s)"
proof -
  define rs where "rs = map byte_rune s"
  have sc: "\<forall>r \<in> set rs. scalar r" by (auto simp: rs_def byte_rune_scalar)
  have small: "small_vocab v" using v by (simp add: spells_bytes_def)
  have norm: "bpe_normalize False s = string_of rs" by (simp add: normalize_bytes rs_def)
  show ?thesis
  proof (cases "0 \<le> vocab_encode v (string_of rs)")
    case True
    have "byte_level_piece (string_of rs) = no_nul s"
      using byte_level_string [OF sc] unmap_bytes [of s] by (simp add: rs_def)
    with bpe_decode_one [OF small True, of False] True show ?thesis
      by (simp add: bpe_encode_split_def Let_def norm)
  next
    case False
    from bpe_merge_result [OF h, of v rs] obtain segs where segs: "bpe_merge h v rs = Some segs"
      "concat segs = rs" "\<And>g. g \<in> set segs \<Longrightarrow> (\<exists>r \<in> set rs. g = [r]) \<or> 0 \<le> vocab_encode v (string_of g)"
      by metis
    have "bpe_decode v False (bpe_segment v False g) = Some (concat (map unmap_rune g))" if g: "g \<in> set segs" for g
    proof -
      have e: "0 \<le> vocab_encode v (string_of g)"
        using segs(3) [OF g] v vocab_encode_nonneg [OF small] by (auto simp: rs_def spells_bytes_def)
      have "\<forall>r \<in> set g. scalar r" using sc segs(2) g by auto
      with bpe_decode_one [OF small e, of False] e byte_level_string show ?thesis
        by (simp add: bpe_segment_def Let_def)
    qed
    from bpe_decode_concat [of segs v False "bpe_segment v False", OF this]
    have "bpe_decode v False (concat (map (bpe_segment v False) segs)) = Some (concat (map (\<lambda>g. concat (map unmap_rune g)) segs))"
      by simp
    moreover have "concat (map (\<lambda>g. concat (map unmap_rune g)) segs) = concat (map unmap_rune (concat segs))"
      by (induction segs) simp_all
    moreover have "concat (map unmap_rune (concat segs)) = no_nul s"
      using segs(2) unmap_bytes [of s] by (simp only: rs_def)
    moreover have "bpe_encode_split h v False s = Some (concat (map (bpe_segment v False) segs))"
      using False segs(1) sc by (simp add: bpe_encode_split_def Let_def norm runes_of_string_of)
    ultimately show ?thesis by simp
  qed
qed

subsection \<open>The white-space marker\<close>

lemma byte_token_start:
  assumes "\<forall>r \<in> set g. scalar r" "is_byte_token (string_of g)"
  shows "contains (string_of (map from_sep g)) ''<0x''"
proof -
  define k where "k = [0x3C, 0x30, 0x78 :: nat]"
  have k: "string_of k = ''<0x''" "map from_sep k = k" "\<forall>r \<in> set k. scalar r"
    unfolding k_def by (code_simp, simp add: from_sep_def, simp add: scalar_def)
  from assms(2) obtain t where "string_of g = string_of k @ t"
    unfolding is_byte_token_def has_prefix_def k(1) by (auto elim: prefixE)
  with string_of_prefix [OF assms(1) k(3)] obtain vs where "g = k @ vs" by blast
  then have "string_of (map from_sep g) = [] @ ''<0x'' @ string_of (map from_sep vs)"
    by (simp add: k(1,2))
  then show ?thesis unfolding contains_iff by blast
qed

lemma marker_piece_text:
  assumes "\<forall>r \<in> set rs. scalar r" "\<not> contains (string_of (map from_sep rs)) ''<0x''"
  shows "marker_piece (string_of rs) = string_of (map from_sep rs)"
proof -
  have "concat (map (\<lambda>r. if r = 0x2581 then '' '' else encode_rune r) rs) = concat (map (\<lambda>r. encode_rune (from_sep r)) rs)"
    by (intro arg_cong [where f = concat] map_cong) (simp_all add: from_sep_def space_rune)
  moreover have "\<not> is_byte_token (string_of rs)" using byte_token_start assms by blast
  ultimately show ?thesis
    by (simp add: marker_piece_def runes_of_string_of [OF assms(1)] concat_map_encode)
qed

lemma marker_piece_byte: "marker_piece (byte_token b) = [b]"
proof -
  have "is_byte_token (byte_token b)"
    unfolding is_byte_token_def byte_token_def has_prefix_def has_suffix_def suffix_def by auto
  moreover have "byte_token b ! 3 = hex_digit (byte b div 16)" "byte_token b ! 4 = hex_digit (byte b mod 16)"
    unfolding byte_token_def by (simp_all add: nth_append)
  moreover have "byte b div 16 < (16 :: nat)" using byte_below [of b] by linarith
  ultimately show ?thesis by (simp add: marker_piece_def parse_hex2_def hex_value_digit)
qed

definition spells_markers :: "vocabulary \<Rightarrow> bool" where
  "spells_markers v \<longleftrightarrow> small_vocab v \<and> spmWhitespaceSep \<in> set (Values v) \<and> (\<forall>b. byte_token b \<in> set (Values v))"

lemma marker_segment_decodes:
  assumes v: "spells_markers v" and rs: "\<forall>r \<in> set rs. scalar r" "\<not> contains (string_of (map from_sep rs)) ''<0x''"
    and one: "(\<exists>r. rs = [r]) \<or> 0 \<le> vocab_encode v (string_of rs)"
  shows "bpe_decode v True (bpe_segment v True rs) = Some (string_of (map from_sep rs))"
proof (cases "0 \<le> vocab_encode v (string_of rs)")
  case True
  have small: "small_vocab v" using v by (simp add: spells_markers_def)
  from bpe_decode_one [OF small True, of True] marker_piece_text [OF rs] True show ?thesis
    by (simp add: bpe_segment_def Let_def)
next
  case False
  with one obtain r where r: "rs = [r]" by auto
  have small: "small_vocab v" using v by (simp add: spells_markers_def)
  have "r \<noteq> 0x2581"
    using False v r vocab_encode_nonneg [OF small] by (auto simp: spells_markers_def spmWhitespaceSep_def)
  then have t: "string_of (map from_sep rs) = string_of rs" using r by (simp add: from_sep_def)
  have b: "0 \<le> vocab_encode v (byte_token b)" for b
    using v vocab_encode_nonneg [OF small] by (simp add: spells_markers_def)
  then have "bpe_segment v True rs = concat (map (\<lambda>b. [vocab_encode v (byte_token b)]) (string_of rs))"
    using False by (simp add: bpe_segment_def Let_def filter_map comp_def)
  moreover have "bpe_decode v True \<dots> = Some (concat (map (\<lambda>b. [b]) (string_of rs)))"
    by (intro bpe_decode_concat) (simp add: bpe_decode_one [OF small b] marker_piece_byte)
  ultimately show ?thesis unfolding t by (simp add: concat_map_singleton)
qed

lemma bpe_marker_roundtrip:
  assumes h: "lawful_heap h items ok" and v: "spells_markers v" and s: "ordinary s"
  shows "\<exists>ids. bpe_encode_split h v True s = Some ids \<and> bpe_decode v True ids = Some s"
proof -
  obtain rs where rs: "bpe_normalize True s = string_of rs" "\<forall>r \<in> set rs. scalar r"
    "string_of (map from_sep rs) = s"
    using ordinary_runes [OF s] by (auto simp: bpe_normalize_def)
  have small: "small_vocab v" using v by (simp add: spells_markers_def)
  show ?thesis
  proof (cases "0 \<le> vocab_encode v (string_of rs)")
    case True
    have "marker_piece (string_of rs) = s"
      using marker_piece_text [OF rs(2)] s rs(3) by (simp add: ordinary_def)
    with bpe_decode_one [OF small True, of True] True show ?thesis
      by (simp add: bpe_encode_split_def Let_def rs(1))
  next
    case False
    from bpe_merge_result [OF h, of v rs] obtain segs where segs: "bpe_merge h v rs = Some segs"
      "concat segs = rs" "\<And>g. g \<in> set segs \<Longrightarrow> (\<exists>r \<in> set rs. g = [r]) \<or> 0 \<le> vocab_encode v (string_of g)"
      by metis
    have "bpe_decode v True (bpe_segment v True g) = Some (string_of (map from_sep g))" if g: "g \<in> set segs" for g
      by (rule marker_segment_decodes [OF v]) (use g segs rs s segment_ordinary in auto)
    from bpe_decode_concat [of segs v True "bpe_segment v True", OF this]
    have "bpe_decode v True (concat (map (bpe_segment v True) segs)) = Some (concat (map (\<lambda>g. string_of (map from_sep g)) segs))"
      by simp
    moreover have "concat (map (\<lambda>g. string_of (map from_sep g)) segs) = string_of (map from_sep (concat segs))"
      by (induction segs) simp_all
    moreover have "bpe_encode_split h v True s = Some (concat (map (bpe_segment v True) segs))"
      using False segs(1) rs by (simp add: bpe_encode_split_def Let_def runes_of_string_of)
    ultimately show ?thesis using segs(2) rs(3) by simp
  qed
qed

section \<open>Properties\<close>

text \<open>A heap and a vocabulary to apply the properties to: the slices of \<^verbatim>\<open>container/heap\<close>, and
  one token for every byte with a few merges.\<close>

definition slice_heap :: "pair list heap_ops" where
  "slice_heap = \<lparr>h_new = [], h_push = heap_push rank_less, h_pop = heap_pop rank_less\<rparr>"

lemma slice_heap_lawful: "lawful_heap slice_heap mset (heap_ok rank_less)"
  using heap_is_priority_queue [OF rank_weak_order] by (simp add: lawful_heap_def slice_heap_def)

definition bytes_example :: vocabulary where
  "bytes_example = \<lparr>Values = [''ab'', ''<|end|>'', ''a b''] @ map (\<lambda>n. encode_rune (byte_rune (char_of n))) [0..<256],
     Types = [1, 3, 1] @ replicate 256 1, Scores = [], Merges = [''a b'', ''b c''],
     BOS = [], EOS = [1], AddBOS = False, AddEOS = True\<rparr>"

lemma bytes_example_spells: "spells_bytes bytes_example"
proof -
  have "encode_rune (byte_rune b) \<in> set (Values bytes_example)" for b
  proof -
    have "encode_rune (byte_rune (char_of (byte b :: nat))) \<in> (\<lambda>n :: nat. encode_rune (byte_rune (char_of n))) ` {0..<256}"
      by (intro imageI) simp
    then show ?thesis by (simp add: bytes_example_def)
  qed
  then show ?thesis by (simp add: spells_bytes_def small_vocab_def bytes_example_def)
qed

lemma bytes_example_specials: "special_vocabulary bytes_example = Some [''<|end|>'']"
proof -
  have "filter (\<lambda>(s, t). t = TOKEN_TYPE_CONTROL \<or> t = TOKEN_TYPE_USER_DEFINED)
      (zip (map (\<lambda>n. encode_rune (byte_rune (char_of n))) [0..<256]) (replicate 256 1)) = []"
    by (auto simp: filter_empty_conv token_types dest: set_zip_rightD)
  then show ?thesis
    by (simp add: special_vocabulary_def bytes_example_def token_types del: upt_rec_numeral)
qed

definition first_char :: regexp where
  "first_char r = (if r = [] then [] else [(0, 1)])"

lemma first_char_lawful: "lawful_regexp first_char"
  by (auto simp: lawful_regexp_def first_char_def Suc_le_eq)

text \<open>
  C11. Byte-level encoding and decoding: for every pretokenizer, every heap that is a priority
  queue and every vocabulary with a token for each byte, whatever its merges are, encoding a
  well-formed text without NUL bytes returns ids that decode to the text, provided the
  special tokens are non-empty and decode to themselves.
\<close>

theorem bytepair_roundtrip:
  assumes "lawful_heap h items ok" and "\<forall>re \<in> set regexps. lawful_regexp re" and "spells_bytes v"
    and "special_vocabulary v = Some sps"
    and "\<forall>sp \<in> set sps. sp \<noteq> [] \<and> valid_utf8 sp \<and> byte_level_piece sp = sp"
    and "valid_utf8 s" and "\<forall>b \<in> set s. byte b \<noteq> (0 :: nat)"
  shows "\<exists>ids. bpe_encode h regexps v False s False = Some ids \<and> bpe_decode v False ids = Some s"
proof -
  have small: "small_vocab v" using assms(3) by (simp add: spells_bytes_def)
  obtain frags where frags: "fragments_of v s = Some frags" "concat (map fvalue frags) = s"
    "fragments_ok v (set sps) (set sps) frags"
    using fragments_of_ends [OF assms(4) _ assms(6)] assms(5) by blast
  let ?encode = "\<lambda>value. encode_splits (bpe_encode_split h v False) (bpe_split regexps value)"
  have "\<exists>ids. (if fids f \<noteq> [] then Some (fids f) else ?encode (fvalue f)) = Some ids
      \<and> bpe_decode v False ids = Some (fvalue f)" if f: "f \<in> set frags" for f
  proof (cases "fids f = []")
    case True
    then have "valid_utf8 (fvalue f)" using frags(3) f by (auto simp: fragments_ok_def)
    note sp = bpe_split_concat [OF assms(2) this]
    from encode_splits_decodes [of "bpe_split regexps (fvalue f)" "bpe_encode_split h v False" v False no_nul]
      bpe_bytes_roundtrip [OF assms(1,3)]
    obtain ids where ids: "?encode (fvalue f) = Some ids"
      "bpe_decode v False ids = Some (concat (map no_nul (bpe_split regexps (fvalue f))))" by blast
    have "concat (map no_nul (bpe_split regexps (fvalue f))) = no_nul (concat (bpe_split regexps (fvalue f)))"
      by (simp add: no_nul_def [abs_def] filter_concat)
    also have "\<dots> = fvalue f"
      using sp f assms(7) frags(2) unfolding no_nul_def by (force simp: filter_id_conv)
    finally show ?thesis using ids True by simp
  next
    case False
    with frags(3) f have i: "fids f = [vocab_encode v (fvalue f)]" "fvalue f \<in> set sps"
      by (auto simp: fragments_ok_def)
    then have "0 \<le> vocab_encode v (fvalue f)"
      using special_vocabulary_values [OF assms(4)] vocab_encode_nonneg [OF small] by auto
    from bpe_decode_one [OF small this, of False] i assms(5) show ?thesis by auto
  qed
  from bpe_fragments_decode [OF this] frags(1,2) show ?thesis
    by (auto simp: bpe_encode_def)
qed

theorem bytepair_roundtrip_witness:
  "\<exists>ids. bpe_encode slice_heap [first_char] bytes_example False ''ab<|end|>a c'' False = Some ids
    \<and> bpe_decode bytes_example False ids = Some ''ab<|end|>a c''"
proof (rule bytepair_roundtrip [OF slice_heap_lawful _ bytes_example_spells bytes_example_specials])
  show "\<forall>re \<in> set [first_char]. lawful_regexp re" by (simp add: first_char_lawful)
  have "''<|end|>'' \<noteq> [] \<and> valid_utf8 ''<|end|>'' \<and> byte_level_piece ''<|end|>'' = ''<|end|>''" by code_simp
  then show "\<forall>sp \<in> set [''<|end|>'']. sp \<noteq> [] \<and> valid_utf8 sp \<and> byte_level_piece sp = sp" by simp
  show "valid_utf8 ''ab<|end|>a c''" by code_simp
qed simp

text \<open>
  C12. The loop is the byte-pair algorithm: for every heap that is a priority queue it ends, in
  a segmentation reached by merging, one at a time, an adjacent pair of least rank whose
  text is in the vocabulary, and no such pair is left.
\<close>

theorem bytepair_merges_least_rank:
  assumes "lawful_heap h items ok"
  shows "\<exists>segs. bpe_merge h v runes = Some segs
    \<and> (merge_step (bpe_rules v) rank_less)\<^sup>*\<^sup>* (map (\<lambda>r. [r]) runes) segs \<and> candidates (bpe_rules v) segs = {}"
  using bpe_merge_result [OF assms, of v runes] by metis

theorem bytepair_merges_least_rank_witness:
  "\<exists>segs. bpe_merge slice_heap bytes_example [97, 98, 99] = Some segs
    \<and> (merge_step (bpe_rules bytes_example) rank_less)\<^sup>*\<^sup>* [[97], [98], [99]] segs
    \<and> candidates (bpe_rules bytes_example) segs = {}"
  using bytepair_merges_least_rank [OF slice_heap_lawful, of bytes_example "[97, 98, 99]"] by simp

text \<open>
  Encoding with white-space markers and decoding: a well-formed text that contains neither
  the marker nor the start of a byte token comes back, for every pretokenizer, every heap
  that is a priority queue and every vocabulary with a marker token and byte tokens.
\<close>

theorem bytepair_marker_roundtrip:
  assumes "lawful_heap h items ok" and "\<forall>re \<in> set regexps. lawful_regexp re" and "spells_markers v"
    and "special_vocabulary v = Some sps"
    and "\<forall>sp \<in> set sps. sp \<noteq> [] \<and> valid_utf8 sp \<and> marker_piece sp = sp" and "ordinary s"
  shows "\<exists>ids. bpe_encode h regexps v True s False = Some ids \<and> bpe_decode v True ids = Some s"
proof -
  have small: "small_vocab v" using assms(3) by (simp add: spells_markers_def)
  have valid: "valid_utf8 s" using assms(6) by (simp add: ordinary_def)
  obtain frags where frags: "fragments_of v s = Some frags" "concat (map fvalue frags) = s"
    "fragments_ok v (set sps) (set sps) frags"
    using fragments_of_ends [OF assms(4) _ valid] assms(5) by blast
  let ?encode = "\<lambda>value. encode_splits (bpe_encode_split h v True) (bpe_split regexps value)"
  have "\<exists>ids. (if fids f \<noteq> [] then Some (fids f) else ?encode (fvalue f)) = Some ids
      \<and> bpe_decode v True ids = Some (fvalue f)" if f: "f \<in> set frags" for f
  proof (cases "fids f = []")
    case True
    then have val: "valid_utf8 (fvalue f)" using frags(3) f by (auto simp: fragments_ok_def)
    note sp = bpe_split_concat [OF assms(2) val]
    from f obtain us ws where "frags = us @ f # ws" by (auto simp: in_set_conv_decomp)
    then have "s = concat (map fvalue us) @ fvalue f @ concat (map fvalue ws)" using frags(2) by auto
    with assms(6) val have ord: "ordinary (fvalue f)" using ordinary_part by metis
    have "ordinary p" if p: "p \<in> set (bpe_split regexps (fvalue f))" for p
    proof -
      from p obtain us ws where "bpe_split regexps (fvalue f) = us @ p # ws" by (auto simp: in_set_conv_decomp)
      then have "fvalue f = concat us @ p @ concat ws" using sp by (metis concat.simps(2) concat_append)
      with ord sp p ordinary_part show ?thesis by metis
    qed
    from encode_splits_decodes [of "bpe_split regexps (fvalue f)" "bpe_encode_split h v True" v True "\<lambda>p. p"]
      bpe_marker_roundtrip [OF assms(1,3) this]
    obtain ids where ids: "?encode (fvalue f) = Some ids"
      "bpe_decode v True ids = Some (concat (map (\<lambda>p. p) (bpe_split regexps (fvalue f))))" by blast
    then show ?thesis using sp True by simp
  next
    case False
    with frags(3) f have i: "fids f = [vocab_encode v (fvalue f)]" "fvalue f \<in> set sps"
      by (auto simp: fragments_ok_def)
    then have "0 \<le> vocab_encode v (fvalue f)"
      using special_vocabulary_values [OF assms(4)] vocab_encode_nonneg [OF small] by auto
    from bpe_decode_one [OF small this, of True] i assms(5) show ?thesis by auto
  qed
  from bpe_fragments_decode [OF this] frags(1,2) show ?thesis
    by (auto simp: bpe_encode_def)
qed

theorem bytepair_marker_roundtrip_witness:
  "\<exists>ids. bpe_encode slice_heap [first_char] spm_example True ''ab <s>a!'' False = Some ids
    \<and> bpe_decode spm_example True ids = Some ''ab <s>a!''"
proof (rule bytepair_marker_roundtrip [OF slice_heap_lawful])
  show "\<forall>re \<in> set [first_char]. lawful_regexp re" by (simp add: first_char_lawful)
  show "spells_markers spm_example"
    using spm_example_spells by (simp add: spells_markers_def spells_all_def scored_def)
  show "special_vocabulary spm_example = Some [''<s>'']" by (rule spm_example_specials)
  have "''<s>'' \<noteq> [] \<and> valid_utf8 ''<s>'' \<and> marker_piece ''<s>'' = ''<s>''" by code_simp
  then show "\<forall>sp \<in> set [''<s>'']. sp \<noteq> [] \<and> valid_utf8 sp \<and> marker_piece sp = sp" by simp
  show "ordinary ''ab <s>a!''" by code_simp
qed

text \<open>
  A NUL byte does not survive: the byte-level alphabet has a letter for it, and decoding
  skips that letter, so a text without special tokens comes back without its NUL bytes.
\<close>

theorem bytepair_drops_nul:
  assumes "lawful_heap h items ok" and "spells_bytes v" and "special_vocabulary v = Some []"
  shows "\<exists>ids. bpe_encode h [] v False s False = Some ids \<and> bpe_decode v False ids = Some (filter (\<lambda>b. byte b \<noteq> (0 :: nat)) s)"
proof -
  obtain ids where "bpe_encode_split h v False s = Some ids" "bpe_decode v False ids = Some (no_nul s)"
    using bpe_bytes_roundtrip [OF assms(1,2)] by blast
  with assms(3) show ?thesis
    by (simp add: bpe_encode_def fragments_of_def bpe_split_def no_nul_def)
qed

theorem bytepair_drops_nul_witness:
  "\<exists>ids. bpe_encode slice_heap [] (bytes_example\<lparr>Types := replicate 259 1\<rparr>) False [char_of (0 :: nat), CHR ''a''] False = Some ids
    \<and> bpe_decode (bytes_example\<lparr>Types := replicate 259 1\<rparr>) False ids
      = Some (filter (\<lambda>b. byte b \<noteq> (0 :: nat)) [char_of (0 :: nat), CHR ''a''])"
proof (rule bytepair_drops_nul [OF slice_heap_lawful])
  show "spells_bytes (bytes_example\<lparr>Types := replicate 259 1\<rparr>)"
    using bytes_example_spells by (simp add: spells_bytes_def small_vocab_def vocab_encode_def)
  have "filter (\<lambda>(s, t). t = TOKEN_TYPE_CONTROL \<or> t = TOKEN_TYPE_USER_DEFINED)
      (zip (Values bytes_example) (replicate 259 1)) = []"
    by (auto simp: filter_empty_conv token_types dest: set_zip_rightD)
  then show "special_vocabulary (bytes_example\<lparr>Types := replicate 259 1\<rparr>) = Some []"
    by (simp add: special_vocabulary_def) (simp add: bytes_example_def)
qed

text \<open>A second heap for the ranks, which pops the latest of several candidates.\<close>

definition latest_pop :: "pair list \<Rightarrow> (pair \<times> pair list) option" where
  "latest_pop q =
     (case find (\<lambda>c. \<forall>d \<in> set q. prank c \<le> prank d) q of
        None \<Rightarrow> None
      | Some c \<Rightarrow> Some (c, remove1 c q))"

definition latest_heap :: "pair list heap_ops" where
  "latest_heap = \<lparr>h_new = [], h_push = (\<lambda>c q. c # q), h_pop = latest_pop\<rparr>"

definition ties_example :: vocabulary where
  "ties_example = \<lparr>Values = [''a'', ''aa''], Types = [1, 1], Scores = [], Merges = [''a a''],
     BOS = [], EOS = [], AddBOS = False, AddEOS = False\<rparr>"

lemma latest_heap_lawful: "lawful_heap latest_heap mset (\<lambda>_. True)"
proof -
  have some: "find (\<lambda>c. \<forall>d \<in> set q. prank c \<le> prank d) q \<noteq> None" if q: "q \<noteq> []" for q
  proof -
    have "\<exists>c \<in> set q. \<forall>d \<in> set q. prank c \<le> prank d"
      using q by (intro bexI [of _ "arg_min_list prank q"] ballI) (simp_all add: f_arg_min_list_f arg_min_list_in)
    then show ?thesis by (auto simp: find_None_iff)
  qed
  have "priority_queue (h_push latest_heap) (h_pop latest_heap) mset (\<lambda>_. True) rank_less"
  proof
    fix q c q' x
    show "h_pop latest_heap q = None \<longleftrightarrow> mset q = {#}"
      using some [of q] by (cases "q = []") (auto simp: latest_heap_def latest_pop_def split: option.splits)
    assume "h_pop latest_heap q = Some (c, q')"
    then have c: "c \<in> set q" "\<forall>d \<in> set q. prank c \<le> prank d" "q' = remove1 c q"
      by (auto simp: latest_heap_def latest_pop_def find_Some_iff split: option.splits)
    then show "mset q = add_mset c (mset q')" by simp
    show "\<not> rank_less x c" if "x \<in># mset q'"
      using that c by (auto simp: rank_less_def not_less dest!: in_diffD)
  qed (simp_all add: latest_heap_def)
  then show ?thesis by (simp add: lawful_heap_def latest_heap_def)
qed

lemma ties_slice: "bpe_encode slice_heap [] ties_example False ''aaa'' False = Some [1, 0]"
  by code_simp

lemma ties_latest: "bpe_encode latest_heap [] ties_example False ''aaa'' False = Some [0, 1]"
  by code_simp

text \<open>
  Candidates of equal rank are not ordered by their place in the text, unlike those of the
  SentencePiece tokenizer, so the ids depend on how the heap breaks ties: two heaps that
  both pop a least rank encode the same text differently, here three letters with one
  merge rule.
\<close>

theorem bytepair_ties_depend_on_heap:
  "lawful_heap slice_heap mset (heap_ok rank_less) \<and> lawful_heap latest_heap mset (\<lambda>_. True)
    \<and> bpe_encode slice_heap [] ties_example False ''aaa'' False = Some [1, 0]
    \<and> bpe_encode latest_heap [] ties_example False ''aaa'' False = Some [0, 1]"
  using slice_heap_lawful latest_heap_lawful ties_slice ties_latest by blast

end
