(* ===== verification/WordPiece.thy ===== *)
theory WordPiece
  imports Trimming Vocabulary
begin

text \<open>
  The WordPiece tokenizer of BERT models (\<^verbatim>\<open>tokenizer/wordpiece.go\<close>): cutting a text into
  words, cutting a word greedily into the longest pieces of the vocabulary, and decoding.
  The Unicode tables behind \<^verbatim>\<open>unicode.IsPunct\<close> and \<^verbatim>\<open>strings.ToLower\<close> are parameters.
\<close>

section \<open>Words\<close>

text \<open>The prefix of a piece at the start of a word, the code point U+2581.\<close>

definition ggmlPrefix :: string where
  "ggmlPrefix = encode_rune 0x2581"

definition is_cjk :: "nat \<Rightarrow> bool" where
  "is_cjk r \<longleftrightarrow> 0x4E00 \<le> r \<and> r \<le> 0x9FFF \<or> 0x3400 \<le> r \<and> r \<le> 0x4DBF
     \<or> 0x20000 \<le> r \<and> r \<le> 0x2A6DF \<or> 0x2A700 \<le> r \<and> r \<le> 0x2B73F
     \<or> 0x2B740 \<le> r \<and> r \<le> 0x2B81F \<or> 0x2B820 \<le> r \<and> r \<le> 0x2CEAF
     \<or> 0xF900 \<le> r \<and> r \<le> 0xFAFF \<or> 0x2F800 \<le> r \<and> r \<le> 0x2FA1F"

definition space_cjk :: "nat \<Rightarrow> nat list" where
  "space_cjk r = (if is_cjk r then [0x20, r, 0x20] else [r])"

text \<open>\<^verbatim>\<open>strings.IndexFunc\<close>, with \<^const>\<open>None\<close> for -1.\<close>

function index_func :: "(nat \<Rightarrow> bool) \<Rightarrow> string \<Rightarrow> nat option" where
  "index_func p s =
     (if s = [] then None
      else if p (fst (decode_rune s)) then Some 0
      else map_option (\<lambda>k. snd (decode_rune s) + k) (index_func p (drop (snd (decode_rune s)) s)))"
  by pat_completeness auto
termination
  by (relation "measure (\<lambda>(p, s). length s)") (auto dest: decode_rune_size_pos)

declare index_func.simps [simp del]

text \<open>How far the next part of a word goes: up to punctuation, or one byte if it starts with it.\<close>

definition part_end :: "(nat \<Rightarrow> bool) \<Rightarrow> string \<Rightarrow> nat" where
  "part_end is_punct w =
     (case index_func is_punct w of
        None \<Rightarrow> length w
      | Some k \<Rightarrow> if k = 0 then 1 else k)"

lemma part_end_pos: "w \<noteq> [] \<Longrightarrow> 0 < part_end is_punct w"
  by (auto simp: part_end_def split: option.splits)

function split_punct :: "(nat \<Rightarrow> bool) \<Rightarrow> string \<Rightarrow> string list" where
  "split_punct is_punct w =
     (if w = [] then []
      else take (part_end is_punct w) w # split_punct is_punct (drop (part_end is_punct w) w))"
  by pat_completeness auto
termination
  by (relation "measure (\<lambda>(p, w). length w)") (auto simp: part_end_pos)

declare split_punct.simps [simp del]

definition wpm_words :: "(nat \<Rightarrow> bool) \<Rightarrow> string \<Rightarrow> string list" where
  "wpm_words is_punct s =
     concat (map (split_punct is_punct)
               (Trimming.fields (string_of (concat (map space_cjk (runes_of s))))))"

section \<open>Encoding\<close>

definition subword :: "(string \<Rightarrow> string) \<Rightarrow> bool \<Rightarrow> nat \<Rightarrow> string \<Rightarrow> string" where
  "subword to_lower lowercase start piece =
     (let piece = (if start = 0 then ggmlPrefix @ piece else piece)
      in if lowercase then to_lower piece else piece)"

text \<open>The inner loop: the longest part of the rest that is in the vocabulary, with its id.\<close>

fun longest_piece :: "(string \<Rightarrow> int) \<Rightarrow> string \<Rightarrow> nat \<Rightarrow> (int \<times> nat) option" where
  "longest_piece encode rest 0 = None"
| "longest_piece encode rest (Suc k) =
     (let i = encode (take (Suc k) rest) in
      if 0 \<le> i then Some (i, Suc k) else longest_piece encode rest k)"

lemma longest_piece_pos: "longest_piece encode rest n = Some (i, k) \<Longrightarrow> 0 < k \<and> k \<le> n"
  by (induction n) (auto simp: Let_def split: if_splits)

text \<open>The outer loop; \<^const>\<open>None\<close> when some rest has no piece in the vocabulary.\<close>

function word_pieces ::
  "vocabulary \<Rightarrow> (string \<Rightarrow> string) \<Rightarrow> bool \<Rightarrow> string \<Rightarrow> nat \<Rightarrow> int list option" where
  "word_pieces v to_lower lowercase word start =
     (if length word \<le> start then Some []
      else case longest_piece (\<lambda>piece. vocab_encode v (subword to_lower lowercase start piece))
                  (drop start word) (length word - start) of
             None \<Rightarrow> None
           | Some (i, k) \<Rightarrow> map_option (\<lambda>ids. i # ids) (word_pieces v to_lower lowercase word (start + k)))"
  by pat_completeness auto
termination
  by (relation "measure (\<lambda>(v, tl, l, w, s). length w - s)") (auto dest: longest_piece_pos)

declare word_pieces.simps [simp del]

definition encode_word :: "vocabulary \<Rightarrow> (string \<Rightarrow> string) \<Rightarrow> bool \<Rightarrow> int \<Rightarrow> string \<Rightarrow> int list" where
  "encode_word v to_lower lowercase unk word =
     (case word_pieces v to_lower lowercase word 0 of
        Some (i # ids) \<Rightarrow> i # ids
      | _ \<Rightarrow> [unk])"

definition wpm_encode ::
  "(nat \<Rightarrow> bool) \<Rightarrow> (string \<Rightarrow> string) \<Rightarrow> vocabulary \<Rightarrow> bool \<Rightarrow> string \<Rightarrow> bool \<Rightarrow> int list" where
  "wpm_encode is_punct to_lower v lowercase s addSpecial =
     (let unk = vocab_encode v ''[UNK]'';
          ids = concat (map (encode_word v to_lower lowercase unk) (wpm_words is_punct s))
      in if addSpecial then addSpecials v ids else ids)"

section \<open>Decoding\<close>

text \<open>\<^verbatim>\<open>strings.Replacer\<close>: at every place the first pair that matches, without overlaps.\<close>

function replacer :: "(string \<times> string) list \<Rightarrow> string \<Rightarrow> string" where
  "replacer pairs s =
     (if s = [] then []
      else case find (\<lambda>(old, _). old \<noteq> [] \<and> prefix old s) pairs of
             Some (old, new) \<Rightarrow> new @ replacer pairs (drop (length old) s)
           | None \<Rightarrow> hd s # replacer pairs (tl s))"
  by pat_completeness auto
termination
  by (relation "measure (\<lambda>(pairs, s). length s)") (auto simp: find_Some_iff)

declare replacer.simps [simp del]

definition wordPieceReplacer :: "(string \<times> string) list" where
  "wordPieceReplacer = [('' .'', ''.''), ('' ?'', ''?''), ('' !'', ''!''), ('' ,'', '',''),
     ([CHR '' '', char_of (39 :: nat), CHR '' ''], [char_of (39 :: nat)]),
     ('' n'' @ char_of (39 :: nat) # ''t'', ''n'' @ char_of (39 :: nat) # ''t''),
     (CHR '' '' # char_of (39 :: nat) # ''m'', char_of (39 :: nat) # ''m''),
     ('' do not'', '' don'' @ char_of (39 :: nat) # ''t''),
     (CHR '' '' # char_of (39 :: nat) # ''s'', char_of (39 :: nat) # ''s''),
     (CHR '' '' # char_of (39 :: nat) # ''ve'', char_of (39 :: nat) # ''ve''),
     (CHR '' '' # char_of (39 :: nat) # ''re'', char_of (39 :: nat) # ''re'')]"

definition wpm_piece :: "bool \<Rightarrow> string \<Rightarrow> string" where
  "wpm_piece first piece =
     (let separator = (if \<not> first \<and> (has_prefix piece ggmlPrefix
                            \<or> has_prefix piece ''['' \<and> has_suffix piece '']'') then '' '' else [])
      in replacer wordPieceReplacer (separator @ trim_prefix piece ggmlPrefix))"

text \<open>An id outside of the vocabulary is an error, with nothing decoded.\<close>

fun wpm_decode_from :: "vocabulary \<Rightarrow> bool \<Rightarrow> int list \<Rightarrow> int + string" where
  "wpm_decode_from v first [] = Inr []"
| "wpm_decode_from v first (i # ids) =
     (if i < 0 \<or> length (Values v) \<le> nat i then Inl i
      else case wpm_decode_from v False ids of
             Inl e \<Rightarrow> Inl e
           | Inr s \<Rightarrow> Inr (wpm_piece first (Values v ! nat i) @ s))"

definition wpm_decode :: "vocabulary \<Rightarrow> int list \<Rightarrow> int + string" where
  "wpm_decode v ids = wpm_decode_from v True ids"

section \<open>Greedy longest match\<close>

lemma longest_piece_Some:
  "longest_piece encode rest n = Some (i, k) \<Longrightarrow> encode (take k rest) = i \<and> 0 \<le> i
     \<and> (\<forall>m. k < m \<and> m \<le> n \<longrightarrow> encode (take m rest) < 0)"
proof (induction n)
  case (Suc n)
  then show ?case by (auto simp: Let_def le_Suc_eq split: if_splits)
qed simp

lemma longest_piece_None:
  "longest_piece encode rest n = None \<longleftrightarrow> (\<forall>m. 0 < m \<and> m \<le> n \<longrightarrow> encode (take m rest) < 0)"
  by (induction n) (auto simp: Let_def le_Suc_eq)

text \<open>
  What the ids of a word are: the offsets at which its pieces start and end, every piece the
  longest from its start that the vocabulary has.
\<close>

fun greedy :: "(nat \<Rightarrow> string \<Rightarrow> int) \<Rightarrow> string \<Rightarrow> nat \<Rightarrow> int list \<Rightarrow> bool" where
  "greedy encode word start [] \<longleftrightarrow> length word \<le> start"
| "greedy encode word start (i # ids) \<longleftrightarrow> (\<exists>e. start < e \<and> e \<le> length word
     \<and> encode start (take (e - start) (drop start word)) = i \<and> 0 \<le> i
     \<and> (\<forall>m. e < m \<and> m \<le> length word \<longrightarrow> encode start (take (m - start) (drop start word)) < 0)
     \<and> greedy encode word e ids)"

lemma longest_piece_unique:
  assumes "0 < k" "k \<le> n" "0 \<le> encode (take k rest)" "\<forall>m. k < m \<and> m \<le> n \<longrightarrow> encode (take m rest) < 0"
  shows "longest_piece encode rest n = Some (encode (take k rest), k)"
proof (cases "longest_piece encode rest n")
  case None
  with longest_piece_None [of encode rest n] assms show ?thesis by force
next
  case (Some x)
  obtain i j where x: "x = (i, j)" by fastforce
  note s = longest_piece_Some [OF Some [unfolded x]] and p = longest_piece_pos [OF Some [unfolded x]]
  from s p assms have "j = k" by (metis linorder_neqE_nat not_less)
  with s Some x show ?thesis by simp
qed

lemma word_pieces_greedy:
  "word_pieces v to_lower lowercase word start = Some ids \<longleftrightarrow>
   greedy (\<lambda>start piece. vocab_encode v (subword to_lower lowercase start piece)) word start ids"
proof (induction ids arbitrary: start)
  case Nil
  then show ?case by (subst word_pieces.simps) (auto split: option.splits)
next
  case (Cons i ids)
  define E where "E = (\<lambda>start piece. vocab_encode v (subword to_lower lowercase start piece))"
  note IH = Cons.IH [folded E_def]
  have step: "word_pieces v to_lower lowercase word start = Some (i # ids) \<longleftrightarrow> start < length word \<and>
    (\<exists>k. longest_piece (E start) (drop start word) (length word - start) = Some (i, k)
      \<and> word_pieces v to_lower lowercase word (start + k) = Some ids)"
    by (subst word_pieces.simps) (auto simp: E_def split: option.splits)
  show ?case
    unfolding step E_def [symmetric]
  proof
    assume "start < length word \<and> (\<exists>k. longest_piece (E start) (drop start word) (length word - start) = Some (i, k)
      \<and> word_pieces v to_lower lowercase word (start + k) = Some ids)"
    then obtain k where k: "start < length word"
      "longest_piece (E start) (drop start word) (length word - start) = Some (i, k)" "greedy E word (start + k) ids"
      using IH by blast
    note s = longest_piece_Some [OF k(2)] and p = longest_piece_pos [OF k(2)]
    have "E start (take (m - start) (drop start word)) < 0" if "start + k < m" "m \<le> length word" for m
    proof -
      have "k < m - start" "m - start \<le> length word - start" using that by linarith+
      with s show ?thesis by blast
    qed
    moreover have "start + k \<le> length word" using p k(1) by linarith
    ultimately show "greedy E word start (i # ids)" using s p k(3) unfolding greedy.simps
      by (intro exI [of _ "start + k"]) simp
  next
    assume "greedy E word start (i # ids)"
    then obtain e where e: "start < e" "e \<le> length word" "E start (take (e - start) (drop start word)) = i" "0 \<le> i"
      "\<forall>m. e < m \<and> m \<le> length word \<longrightarrow> E start (take (m - start) (drop start word)) < 0" "greedy E word e ids"
      by auto
    have "E start (take m (drop start word)) < 0" if "e - start < m" "m \<le> length word - start" for m
    proof -
      have "e < start + m" "start + m \<le> length word" using that e(1,2) by linarith+
      with e(5) show ?thesis by (metis add_diff_cancel_left')
    qed
    with e have "longest_piece (E start) (drop start word) (length word - start) = Some (i, e - start)"
      using longest_piece_unique [of "e - start" "length word - start" "E start" "drop start word"] by auto
    with e IH [of e] show "start < length word \<and> (\<exists>k. longest_piece (E start) (drop start word) (length word - start) = Some (i, k)
      \<and> word_pieces v to_lower lowercase word (start + k) = Some ids)" by auto
  qed
qed

text \<open>
  C26. A word is cut greedily: its ids are those of consecutive pieces that make up the whole
  word, each in the vocabulary (the first with the word prefix, lower-cased if the model
  asks for it) and the longest such piece from its start; a word is the unknown token
  only if it cannot be cut like this.
\<close>

theorem wordpiece_greedy:
  assumes "word \<noteq> []"
  shows "greedy (\<lambda>start piece. vocab_encode v (subword to_lower lowercase start piece)) word 0
      (encode_word v to_lower lowercase unk word)
    \<or> (\<nexists>ids. greedy (\<lambda>start piece. vocab_encode v (subword to_lower lowercase start piece)) word 0 ids)
      \<and> encode_word v to_lower lowercase unk word = [unk]"
proof (cases "word_pieces v to_lower lowercase word 0")
  case None
  then show ?thesis using word_pieces_greedy [of v to_lower lowercase word 0] by (simp add: encode_word_def)
next
  case (Some ids)
  from Some [unfolded word_pieces_greedy] assms have "ids \<noteq> []" by auto
  with Some have "encode_word v to_lower lowercase unk word = ids"
    by (auto simp: encode_word_def split: list.splits)
  with Some [unfolded word_pieces_greedy] show ?thesis by blast
qed

definition wpm_example :: vocabulary where
  "wpm_example = \<lparr>Values = [''[UNK]'', ggmlPrefix @ ''un'', ggmlPrefix @ ''u'', ''able'', ''a'', ''ble''],
     Types = [2, 1, 1, 1, 1, 1], Scores = [], Merges = [], BOS = [], EOS = [], AddBOS = False, AddEOS = False\<rparr>"

theorem wordpiece_greedy_witness:
  "greedy (\<lambda>start piece. vocab_encode wpm_example (subword (\<lambda>s. s) False start piece)) ''unable'' 0
      (encode_word wpm_example (\<lambda>s. s) False 0 ''unable'')
    \<or> (\<nexists>ids. greedy (\<lambda>start piece. vocab_encode wpm_example (subword (\<lambda>s. s) False start piece)) ''unable'' 0 ids)
      \<and> encode_word wpm_example (\<lambda>s. s) False 0 ''unable'' = [0]"
  by (rule wordpiece_greedy) simp

text \<open>
  C39. Decoding fails exactly if an id is outside of the vocabulary, and names the first one.
\<close>

theorem wordpiece_decode_error:
  "wpm_decode v ids = Inl e \<longleftrightarrow> find (\<lambda>i. i < 0 \<or> length (Values v) \<le> nat i) ids = Some e"
proof -
  have "wpm_decode_from v first ids = Inl e \<longleftrightarrow> find (\<lambda>i. i < 0 \<or> length (Values v) \<le> nat i) ids = Some e" for first
    by (induction ids arbitrary: first) (auto split: sum.splits)
  then show ?thesis by (simp add: wpm_decode_def)
qed

lemma decode_continues: "continues c \<Longrightarrow> decode_rune (c # t) = (rune_error, 1)"
  by (simp add: continues_def decode_rune.simps)

lemma index_func_continues:
  "\<forall>c \<in> set t. continues c \<Longrightarrow> \<not> p rune_error \<Longrightarrow> index_func p t = None"
proof (induction t)
  case (Cons c t)
  then show ?case by (subst index_func.simps) (simp add: decode_continues)
qed (simp add: index_func.simps)

lemma valid_utf8_hd: "valid_utf8 s \<Longrightarrow> s \<noteq> [] \<Longrightarrow> \<not> continues (hd s)"
proof (elim valid_utf8E)
  fix rs assume "s = string_of rs" "\<forall>r \<in> set rs. scalar r" "s \<noteq> []"
  then show "\<not> continues (hd s)" by (cases rs) (auto simp: encode_rune_hd)
qed

lemma valid_utf8_single: "valid_utf8 [c] \<Longrightarrow> byte c < (0x80 :: nat)"
proof (elim valid_utf8E)
  fix rs assume c: "[c] = string_of rs" "\<forall>r \<in> set rs. scalar r"
  then obtain r rs' where r: "rs = r # rs'" by (cases rs) auto
  with c(1) have "length (encode_rune r) \<le> 1" by (metis length_append length_Cons list.size(3) One_nat_def le_add1 string_of_simps(2))
  then have "r < 0x80" by (auto simp: encode_rune_def split: if_splits)
  with r c show "byte c < (0x80 :: nat)" by (simp add: encode1)
qed

text \<open>
  C40. A punctuation mark outside of ASCII is cut into its first byte and the rest. Neither part
  is well-formed, so a vocabulary entry for the mark is never found.
\<close>

theorem wordpiece_breaks_punctuation:
  assumes "scalar r" "0x80 \<le> r" "is_punct r" "\<not> is_punct rune_error"
  shows "split_punct is_punct (encode_rune r) = [take 1 (encode_rune r), drop 1 (encode_rune r)]
    \<and> \<not> valid_utf8 (take 1 (encode_rune r)) \<and> \<not> valid_utf8 (drop 1 (encode_rune r))"
proof -
  obtain c t where e: "encode_rune r = c # t" by (cases "encode_rune r") auto
  have t: "t \<noteq> []" "0x80 \<le> (byte c :: nat)"
    using e assms(1,2) by (auto simp: encode_rune_def scalar_def byte_of_char split: if_splits)
  have cont: "\<forall>c \<in> set t. continues c" using encode_rune_tl [OF assms(1)] e by simp
  have "index_func is_punct (encode_rune r) = Some 0"
    using decode_encode [OF assms(1), of "[]"] assms(3) by (subst index_func.simps) simp
  then have "split_punct is_punct (encode_rune r) = [c] # split_punct is_punct t"
    by (subst split_punct.simps) (simp add: e part_end_def)
  moreover have "split_punct is_punct t = [t]"
  proof -
    have "part_end is_punct t = length t" using index_func_continues [of t is_punct] cont assms(4) by (simp add: part_end_def)
    then show ?thesis using t(1) by (subst split_punct.simps) (simp add: split_punct.simps [of _ "[]"])
  qed
  moreover have "\<not> valid_utf8 [c]" using valid_utf8_single t(2) by fastforce
  moreover have "\<not> valid_utf8 t" using valid_utf8_hd [of t] t(1) cont hd_in_set [of t] by blast
  ultimately show ?thesis by (simp add: e)
qed

theorem wordpiece_breaks_punctuation_witness:
  "split_punct (\<lambda>r. r = 0x201C) (encode_rune 0x201C) = [take 1 (encode_rune 0x201C), drop 1 (encode_rune 0x201C)]
    \<and> \<not> valid_utf8 (take 1 (encode_rune 0x201C)) \<and> \<not> valid_utf8 (drop 1 (encode_rune 0x201C))"
  by (rule wordpiece_breaks_punctuation) (simp_all add: scalar_def rune_error_def)

end
