(* ===== verification/Modelfile.thy ===== *)
theory Modelfile
  imports Runes ModelRef
begin

text \<open>
  The Modelfile language (\<^verbatim>\<open>parser/parser.go\<close>): the commands, their printing, and the parser,
  a state machine over the code points of the file. The decoder in front of it
  (\<^verbatim>\<open>golang.org/x/text\<close>, which also strips a byte order mark) is outside of the repository; the
  input of the model is what it delivers, a list of code points and how the reading ends.
\<close>

section \<open>Characters\<close>

definition isAlpha :: "nat \<Rightarrow> bool" where
  "isAlpha r \<longleftrightarrow> (97 \<le> r \<and> r \<le> 122) \<or> (65 \<le> r \<and> r \<le> 90)"

definition isNumber :: "nat \<Rightarrow> bool" where
  "isNumber r \<longleftrightarrow> 48 \<le> r \<and> r \<le> 57"

definition isSpace :: "nat \<Rightarrow> bool" where
  "isSpace r \<longleftrightarrow> r = 32 \<or> r = 9"

definition isNewline :: "nat \<Rightarrow> bool" where
  "isNewline r \<longleftrightarrow> r = 13 \<or> r = 10"

text \<open>\<^verbatim>\<open>strconv.IsPrint\<close>: exact up to U+00FF; \<open>uni\<close> stands for the tables above it.\<close>

definition is_print :: "(nat \<Rightarrow> bool) \<Rightarrow> nat \<Rightarrow> bool" where
  "is_print uni r =
     (if r \<le> 0xFF then (0x20 \<le> r \<and> r < 0x7F) \<or> (0xA1 \<le> r \<and> r \<noteq> 0xAD) else uni r)"

definition upper_char :: "char \<Rightarrow> char" where
  "upper_char c = (if 97 \<le> byte c \<and> byte c \<le> (122 :: nat) then char_of (byte c - (32 :: nat)) else c)"

text \<open>\<^verbatim>\<open>strings.ToUpper\<close> of an ASCII string; it is applied to eight constants only.\<close>

definition to_upper :: "string \<Rightarrow> string" where
  "to_upper s = map upper_char s"

section \<open>Commands and their printing\<close>

record mf_command =
  cmd_name :: string
  cmd_args :: string

type_synonym modelfile = "mf_command list"

definition quote :: "string \<Rightarrow> string" where
  "quote s =
     (if contains s [CHR 0x0A] \<or> has_prefix s '' '' \<or> has_suffix s '' '' then
        (if contains s [CHR 0x22]
         then [CHR 0x22, CHR 0x22, CHR 0x22] @ s @ [CHR 0x22, CHR 0x22, CHR 0x22]
         else [CHR 0x22] @ s @ [CHR 0x22])
      else s)"

definition unquote :: "string \<Rightarrow> string \<times> bool" where
  "unquote s =
     (if 3 \<le> length s \<and> take 3 s = [CHR 0x22, CHR 0x22, CHR 0x22] then
        (if 6 \<le> length s \<and> drop (length s - 3) s = [CHR 0x22, CHR 0x22, CHR 0x22]
         then (take (length s - 6) (drop 3 s), True)
         else ([], False))
      else if 1 \<le> length s \<and> s ! 0 = CHR 0x22 then
        (if 2 \<le> length s \<and> s ! (length s - 1) = CHR 0x22
         then (take (length s - 2) (drop 1 s), True)
         else ([], False))
      else (s, True))"

definition command_string :: "mf_command \<Rightarrow> string" where
  "command_string c =
     (if cmd_name c = ''model'' then ''FROM '' @ cmd_args c
      else if cmd_name c \<in> set [''license'', ''template'', ''system'', ''adapter'', ''renderer'',
                               ''parser'', ''requires'', ''draft'']
      then to_upper (cmd_name c) @ '' '' @ quote (cmd_args c)
      else if cmd_name c = ''message''
      then (case cut (cmd_args c) '': '' of
              (role, message, _) \<Rightarrow> ''MESSAGE '' @ role @ '' '' @ quote message)
      else ''PARAMETER '' @ cmd_name c @ '' '' @ quote (cmd_args c))"

definition modelfile_string :: "modelfile \<Rightarrow> string" where
  "modelfile_string f = concat (map (\<lambda>c. command_string c @ [CHR 0x0A]) f)"

section \<open>The parser\<close>

datatype mf_state = StateNil | StateName | StateValue | StateParameter | StateMessage | StateComment

text \<open>The errors: \<^verbatim>\<open>io.ErrUnexpectedEOF\<close>, alone or wrapped around the buffer, a \<^verbatim>\<open>ParserError\<close>,
  \<^verbatim>\<open>errMissingFrom\<close>, and an error of the reader.\<close>

datatype mf_error =
    UnexpectedEOF "string option"
  | ParserError int string
  | MissingFrom
  | ReadError string

definition errInvalidCommand :: string where
  "errInvalidCommand = ''command must be one of '' @ join '', ''
     (map (\<lambda>w. [CHR 0x22] @ w @ [CHR 0x22]) [''from'', ''license'', ''template'', ''system'', ''adapter'',
        ''draft'', ''renderer'', ''parser'', ''parameter'', ''message'']) @ '', or '' @ [CHR 0x22] @ ''requires'' @ [CHR 0x22]"

definition errInvalidMessageRole :: string where
  "errInvalidMessageRole = ''message role must be one of '' @ [CHR 0x22] @ ''system'' @ [CHR 0x22] @ '', ''
     @ [CHR 0x22] @ ''user'' @ [CHR 0x22] @ '', or '' @ [CHR 0x22] @ ''assistant'' @ [CHR 0x22]"

definition isValidMessageRole :: "string \<Rightarrow> bool" where
  "isValidMessageRole role \<longleftrightarrow> role = ''system'' \<or> role = ''user'' \<or> role = ''assistant''"

definition valid_commands :: "string list" where
  "valid_commands = [''from'', ''license'', ''template'', ''system'', ''adapter'', ''draft'', ''renderer'',
     ''parser'', ''parameter'', ''message'', ''requires'']"

definition isValidCommand :: "string \<Rightarrow> bool" where
  "isValidCommand cmd \<longleftrightarrow> to_lower cmd \<in> set valid_commands"

text \<open>The errors of \<^verbatim>\<open>parseRuneForState\<close>: \<^verbatim>\<open>io.ErrUnexpectedEOF\<close> or another one with its message.\<close>

datatype rune_fault = FaultEOF | FaultOther string

definition parseRuneForState :: "nat \<Rightarrow> mf_state \<Rightarrow> rune_fault + mf_state \<times> nat" where
  "parseRuneForState r cs = (case cs of
     StateNil \<Rightarrow>
       if r = byte (CHR ''#'') then Inr (StateComment, 0)
       else if isSpace r \<or> isNewline r then Inr (StateNil, 0)
       else Inr (StateName, r)
   | StateName \<Rightarrow>
       if isAlpha r then Inr (StateName, r)
       else if isSpace r then Inr (StateValue, 0)
       else Inl (FaultOther errInvalidCommand)
   | StateValue \<Rightarrow>
       if isNewline r then Inr (StateNil, r)
       else if isSpace r then Inr (StateNil, r)
       else Inr (StateValue, r)
   | StateParameter \<Rightarrow>
       if isAlpha r \<or> isNumber r \<or> r = byte (CHR ''_'') then Inr (StateParameter, r)
       else if isSpace r then Inr (StateValue, 0)
       else Inl FaultEOF
   | StateMessage \<Rightarrow>
       if isAlpha r then Inr (StateMessage, r)
       else if isSpace r then Inr (StateValue, 0)
       else Inl FaultEOF
   | StateComment \<Rightarrow>
       if isNewline r then Inr (StateNil, 0) else Inr (StateComment, 0))"

text \<open>The local variables of \<^verbatim>\<open>ParseFile\<close>.\<close>

record mf_vars =
  pf_cmd :: mf_command
  pf_curr :: mf_state
  pf_line :: int
  pf_buf :: string
  pf_role :: string
  pf_file :: modelfile

definition pf_init :: mf_vars where
  "pf_init = \<lparr>pf_cmd = \<lparr>cmd_name = [], cmd_args = []\<rparr>, pf_curr = StateNil, pf_line = 1, pf_buf = [],
     pf_role = [], pf_file = []\<rparr>"

text \<open>The completed command: the arguments with the role of a message, appended to the file.\<close>

definition emit :: "string \<Rightarrow> mf_vars \<Rightarrow> mf_vars" where
  "emit s v =
     (let s' = (if pf_role v \<noteq> [] then pf_role v @ '': '' @ s else s);
          c = (pf_cmd v)\<lparr>cmd_args := s'\<rparr>
      in v\<lparr>pf_role := [], pf_cmd := c, pf_file := pf_file v @ [c]\<rparr>)"

text \<open>The \<^verbatim>\<open>switch\<close> on a change of state. The left of the inner sum is the \<^verbatim>\<open>continue\<close>, the right the
  state to go to.\<close>

definition leave_state :: "mf_state \<Rightarrow> nat \<Rightarrow> mf_vars \<Rightarrow> mf_error + (mf_vars + mf_state \<times> mf_vars)" where
  "leave_state next r v = (case pf_curr v of
     StateName \<Rightarrow>
       if \<not> isValidCommand (pf_buf v) then Inl (ParserError (pf_line v) errInvalidCommand)
       else let s = to_lower (pf_buf v) in
         if s = ''from'' then Inr (Inr (next, v\<lparr>pf_cmd := (pf_cmd v)\<lparr>cmd_name := ''model''\<rparr>\<rparr>))
         else if s = ''parameter'' then Inr (Inr (StateParameter, v))
         else if s = ''message'' then Inr (Inr (StateMessage, v\<lparr>pf_cmd := (pf_cmd v)\<lparr>cmd_name := s\<rparr>\<rparr>))
         else Inr (Inr (next, v\<lparr>pf_cmd := (pf_cmd v)\<lparr>cmd_name := s\<rparr>\<rparr>))
   | StateParameter \<Rightarrow> Inr (Inr (next, v\<lparr>pf_cmd := (pf_cmd v)\<lparr>cmd_name := pf_buf v\<rparr>\<rparr>))
   | StateMessage \<Rightarrow>
       if \<not> isValidMessageRole (pf_buf v) then Inl (ParserError (pf_line v) errInvalidMessageRole)
       else Inr (Inr (next, v\<lparr>pf_role := pf_buf v\<rparr>))
   | StateComment \<Rightarrow> Inr (Inr (next, v))
   | StateNil \<Rightarrow> Inr (Inr (next, v))
   | StateValue \<Rightarrow>
       (case unquote (trim_space (pf_buf v)) of (s, ok) \<Rightarrow>
          if \<not> ok \<or> isSpace r then Inr (Inl (v\<lparr>pf_buf := pf_buf v @ encode_rune r\<rparr>))
          else Inr (Inr (next, emit s v))))"

definition write_rune :: "(nat \<Rightarrow> bool) \<Rightarrow> nat \<Rightarrow> mf_vars \<Rightarrow> mf_vars" where
  "write_rune uni r v = (if is_print uni r then v\<lparr>pf_buf := pf_buf v @ encode_rune r\<rparr> else v)"

definition parse_rune :: "(nat \<Rightarrow> bool) \<Rightarrow> nat \<Rightarrow> mf_vars \<Rightarrow> mf_error + mf_vars" where
  "parse_rune uni r v0 =
     (let v = (if isNewline r then v0\<lparr>pf_line := pf_line v0 + 1\<rparr> else v0) in
      case parseRuneForState r (pf_curr v) of
        Inl FaultEOF \<Rightarrow> Inl (UnexpectedEOF (Some (pf_buf v)))
      | Inl (FaultOther msg) \<Rightarrow> Inl (ParserError (pf_line v) msg)
      | Inr (next, r') \<Rightarrow>
          if next \<noteq> pf_curr v then
            (case leave_state next r' v of
               Inl e \<Rightarrow> Inl e
             | Inr (Inl v') \<Rightarrow> Inr v'
             | Inr (Inr (next', v')) \<Rightarrow> Inr (write_rune uni r' (v'\<lparr>pf_buf := [], pf_curr := next'\<rparr>)))
          else Inr (write_rune uni r' v))"

fun parse_runes :: "(nat \<Rightarrow> bool) \<Rightarrow> nat list \<Rightarrow> mf_vars \<Rightarrow> mf_error + mf_vars" where
  "parse_runes uni [] v = Inr v"
| "parse_runes uni (r # rs) v =
     (case parse_rune uni r v of Inl e \<Rightarrow> Inl e | Inr v' \<Rightarrow> parse_runes uni rs v')"

text \<open>The flush at the end of the file.\<close>

definition flush :: "mf_vars \<Rightarrow> mf_error + mf_vars" where
  "flush v = (case pf_curr v of
     StateComment \<Rightarrow> Inr v
   | StateNil \<Rightarrow> Inr v
   | StateValue \<Rightarrow> (case unquote (trim_space (pf_buf v)) of (s, ok) \<Rightarrow>
        if \<not> ok then Inl (UnexpectedEOF None) else Inr (emit s v))
   | _ \<Rightarrow> Inl (UnexpectedEOF None))"

definition ParseFile :: "(nat \<Rightarrow> bool) \<Rightarrow> nat list \<Rightarrow> string option \<Rightarrow> mf_error + modelfile" where
  "ParseFile uni rs failure = (case parse_runes uni rs pf_init of
     Inl e \<Rightarrow> Inl e
   | Inr v \<Rightarrow> (case failure of
        Some e \<Rightarrow> Inl (ReadError e)
      | None \<Rightarrow> (case flush v of
           Inl e \<Rightarrow> Inl e
         | Inr v' \<Rightarrow>
             if \<exists>c \<in> set (pf_file v'). cmd_name c = ''model'' then Inr (pf_file v') else Inl MissingFrom)))"

abbreviation parse_text :: "(nat \<Rightarrow> bool) \<Rightarrow> string \<Rightarrow> mf_error + modelfile" where
  "parse_text uni s \<equiv> ParseFile uni (runes_of s) None"

section \<open>Quotation marks\<close>

lemma take_three: "take 3 (c # u) = [c, d, e] \<longleftrightarrow> prefix [d, e] u"
  by (cases u; cases "tl u") (auto simp: numeral_eq_Suc)

lemma unquote_mark:
  assumes "\<not> prefix [CHR 0x22, CHR 0x22] u"
  shows "unquote (CHR 0x22 # u) = (if u \<noteq> [] \<and> last u = CHR 0x22 then (butlast u, True) else ([], False))"
proof -
  have "take 3 (CHR 0x22 # u) \<noteq> [CHR 0x22, CHR 0x22, CHR 0x22]"
    using assms unfolding take_three .
  moreover have "u \<noteq> [] \<Longrightarrow> (CHR 0x22 # u) ! length u = last u"
    by (cases u rule: rev_cases) (simp_all add: nth_append)
  ultimately show ?thesis
    by (auto simp: unquote_def butlast_conv_take Suc_le_eq)
qed

lemma unquote_triple:
  "unquote ([CHR 0x22, CHR 0x22, CHR 0x22] @ u) =
     (if suffix [CHR 0x22, CHR 0x22, CHR 0x22] u then (take (length u - 3) u, True) else ([], False))"
proof -
  have "suffix q u \<longleftrightarrow> length q \<le> length u \<and> drop (length u - length q) u = q" for q :: string
    by (metis append_eq_conv_conj append_take_drop_id diff_diff_cancel length_drop suffix_def
        suffix_drop suffix_length_le length_append add_diff_cancel_right')
  from this [of "[CHR 0x22, CHR 0x22, CHR 0x22]"] have u:
      "suffix [CHR 0x22, CHR 0x22, CHR 0x22] u
        \<longleftrightarrow> 3 \<le> length u \<and> drop (length u - 3) u = [CHR 0x22, CHR 0x22, CHR 0x22]"
    by (simp add: numeral_3_eq_3)
  define q where "q = [CHR 0x22, CHR 0x22, CHR 0x22]"
  have q: "length q = 3" by (simp add: q_def)
  have "drop (length u) (q @ u) = drop (length u - 3) u" if "3 \<le> length u"
    using that q by simp
  with u q show ?thesis
    unfolding unquote_def q_def [symmetric] by (auto simp: Suc_diff_le)
qed

lemma unquote_open: "CHR 0x22 \<notin> set u \<Longrightarrow> \<not> snd (unquote (CHR 0x22 # u))"
  by (subst unquote_mark) (auto simp: prefix_def dest: last_in_set)

lemma unquote_closed:
  "CHR 0x22 \<notin> set u \<Longrightarrow> u \<noteq> [] \<Longrightarrow> unquote (CHR 0x22 # u @ [CHR 0x22]) = (u, True)"
  by (subst unquote_mark; cases u) (auto simp: prefix_def)

lemma unquote_triple_open:
  "\<not> suffix [CHR 0x22, CHR 0x22, CHR 0x22] u
    \<Longrightarrow> \<not> snd (unquote ([CHR 0x22, CHR 0x22, CHR 0x22] @ u))"
  by (simp only: unquote_triple) simp

lemma unquote_triple_closed:
  "unquote ([CHR 0x22, CHR 0x22, CHR 0x22] @ u @ [CHR 0x22, CHR 0x22, CHR 0x22]) = (u, True)"
  by (simp only: unquote_triple) (simp add: suffix_def)

lemma unquote_bare: "\<not> has_prefix s [CHR 0x22] \<Longrightarrow> unquote s = (s, True)"
  by (cases s) (auto simp: unquote_def has_prefix_def numeral_3_eq_3)

text \<open>White space next to a quotation mark.\<close>

lemma mark_not_ws: "t \<in> set ws_tokens \<Longrightarrow> CHR 0x22 \<notin> set t"
proof -
  have "\<forall>t \<in> set ws_tokens. CHR 0x22 \<notin> set t" by code_simp
  then show "t \<in> set ws_tokens \<Longrightarrow> ?thesis" by blast
qed

lemma end_ok_mark: "end_ok (u @ [CHR 0x22])"
  using ws_token_nonempty mark_not_ws
  by (auto simp: end_ok_def suffix_def) (metis last_in_set last_snoc last_appendR)

lemma lead_ok_mark: "lead_ok (CHR 0x22 # u)"
  using ws_token_nonempty mark_not_ws
  by (auto simp: lead_ok_def prefix_def) (metis hd_in_set hd_append2 list.sel(1))

lemma trim_space_closed: "trim_space (CHR 0x22 # u @ [CHR 0x22]) = CHR 0x22 # u @ [CHR 0x22]"
  using trim_left_lead_ok [OF lead_ok_mark] trim_right_end_ok [OF end_ok_mark, of "CHR 0x22 # u"]
  by (simp add: trim_space_def)

lemma trim_space_open:
  assumes "set q \<subseteq> {CHR 0x22}" "q \<noteq> []"
  shows "trim_space (q @ u) = q @ trim_right u"
proof -
  obtain p where p: "q = p @ [CHR 0x22]"
    using assms by (metis append_butlast_last_id last_in_set singletonD subsetD)
  obtain t where t: "q = CHR 0x22 # t" using assms by (cases q) auto
  have "end_ok q" unfolding p by (rule end_ok_mark)
  moreover have "whole q" unfolding p by (rule whole_ascii_end) simp_all
  ultimately have "trim_right (q @ u) = q @ trim_right u" by (intro trim_right_append) auto
  moreover have "trim_left (q @ u) = q @ u" unfolding t by (simp add: trim_left_lead_ok lead_ok_mark)
  ultimately show ?thesis by (simp add: trim_space_def)
qed

section \<open>Running over a value\<close>

lemma parse_runes_append:
  "parse_runes uni (xs @ ys) v =
     (case parse_runes uni xs v of Inl e \<Rightarrow> Inl e | Inr v' \<Rightarrow> parse_runes uni ys v')"
  by (induction xs arbitrary: v) (auto split: sum.splits)

text \<open>Code points that leave the state alone and are printable go to the buffer.\<close>

lemma parse_runes_stay:
  assumes "pf_curr v = cs"
    "\<forall>r \<in> set rs. parseRuneForState r cs = Inr (cs, r) \<and> is_print uni r \<and> \<not> isNewline r"
  shows "parse_runes uni rs v = Inr (v\<lparr>pf_buf := pf_buf v @ string_of rs\<rparr>)"
  using assms by (induction rs arbitrary: v) (simp_all add: parse_rune_def write_rune_def)

definition text_rune :: "(nat \<Rightarrow> bool) \<Rightarrow> nat \<Rightarrow> bool" where
  "text_rune uni r \<longleftrightarrow> is_print uni r \<or> isSpace r \<or> isNewline r"

lemma parse_rune_value:
  assumes "pf_curr v = StateValue" "text_rune uni r"
    "isNewline r \<Longrightarrow> \<not> snd (unquote (trim_space (pf_buf v)))"
  shows "\<exists>n. parse_rune uni r v = Inr (v\<lparr>pf_buf := pf_buf v @ encode_rune r, pf_line := n\<rparr>)"
proof -
  have n: "isNewline r \<Longrightarrow> \<not> isSpace r" by (auto simp: isNewline_def isSpace_def)
  define v' where "v' = (if isNewline r then v\<lparr>pf_line := pf_line v + 1\<rparr> else v)"
  have v': "pf_curr v' = StateValue" "pf_buf v' = pf_buf v" "v' = v\<lparr>pf_line := pf_line v'\<rparr>"
    using assms(1) by (simp_all add: v'_def)
  have "parse_rune uni r v = Inr (v'\<lparr>pf_buf := pf_buf v' @ encode_rune r\<rparr>)"
  proof (cases "isNewline r \<or> isSpace r")
    case True
    with v' (1,2) assms(3) n show ?thesis
      unfolding parse_rune_def Let_def v'_def [symmetric]
      by (auto simp: parseRuneForState_def leave_state_def split: prod.splits)
  next
    case False
    with v' (1) assms(2) show ?thesis
      unfolding parse_rune_def Let_def v'_def [symmetric]
      by (simp add: parseRuneForState_def write_rune_def text_rune_def)
  qed
  moreover have "v'\<lparr>pf_buf := pf_buf v' @ encode_rune r\<rparr>
      = v\<lparr>pf_buf := pf_buf v @ encode_rune r, pf_line := pf_line v'\<rparr>"
    by (simp add: v'_def)
  ultimately show ?thesis by auto
qed

lemma parse_runes_value:
  assumes "pf_curr v = StateValue" "\<forall>r \<in> set rs. text_rune uni r"
    "\<And>us r zs. rs = us @ r # zs \<Longrightarrow> isNewline r
       \<Longrightarrow> \<not> snd (unquote (trim_space (pf_buf v @ string_of us)))"
  shows "\<exists>n. parse_runes uni rs v = Inr (v\<lparr>pf_buf := pf_buf v @ string_of rs, pf_line := n\<rparr>)"
  using assms
proof (induction rs arbitrary: v)
  case Nil
  show ?case by (rule exI [of _ "pf_line v"]) simp
next
  case (Cons r rs)
  from Cons.prems(3) [of "[]"] have "isNewline r \<Longrightarrow> \<not> snd (unquote (trim_space (pf_buf v)))" by simp
  with parse_rune_value [of v uni r] Cons.prems(1,2) obtain n
    where n: "parse_rune uni r v = Inr (v\<lparr>pf_buf := pf_buf v @ encode_rune r, pf_line := n\<rparr>)" by auto
  let ?v = "v\<lparr>pf_buf := pf_buf v @ encode_rune r, pf_line := n\<rparr>"
  have "\<exists>m. parse_runes uni rs ?v = Inr (?v\<lparr>pf_buf := pf_buf ?v @ string_of rs, pf_line := m\<rparr>)"
  proof (rule Cons.IH)
    fix us k zs assume "rs = us @ k # zs" "isNewline k"
    with Cons.prems(3) [of "r # us" k zs]
    show "\<not> snd (unquote (trim_space (pf_buf ?v @ string_of us)))" by simp
  qed (use Cons.prems in auto)
  with n show ?case by simp
qed

lemma parse_rune_end:
  assumes "pf_curr v = StateValue" "unquote (trim_space (pf_buf v)) = (s, True)"
  shows "parse_rune uni 0x0A v =
    Inr ((emit s (v\<lparr>pf_line := pf_line v + 1\<rparr>))\<lparr>pf_buf := [], pf_curr := StateNil\<rparr>)"
  using assms by (simp add: parse_rune_def parseRuneForState_def leave_state_def write_rune_def
      isNewline_def isSpace_def is_print_def)

section \<open>Values that survive printing\<close>

definition needs_quotes :: "string \<Rightarrow> bool" where
  "needs_quotes s \<longleftrightarrow> CHR 0x0A \<in> set s \<or> has_prefix s '' '' \<or> has_suffix s '' ''"

text \<open>A value the printer leaves without quotation marks, and the parser reads back as it is.\<close>

definition bare_value :: "string \<Rightarrow> bool" where
  "bare_value s \<longleftrightarrow> CHR 0x0A \<notin> set s \<and> CHR 0x0D \<notin> set s \<and> trim_space s = s
     \<and> \<not> has_prefix s [CHR 0x22]"

definition text_of_file :: "(nat \<Rightarrow> bool) \<Rightarrow> string \<Rightarrow> bool" where
  "text_of_file uni s \<longleftrightarrow> valid_utf8 s \<and> (\<forall>r \<in> set (runes_of s). text_rune uni r)"

definition clean_value :: "(nat \<Rightarrow> bool) \<Rightarrow> string \<Rightarrow> bool" where
  "clean_value uni s \<longleftrightarrow> text_of_file uni s
     \<and> (bare_value s \<or> needs_quotes s \<and> \<not> contains s [CHR 0x22, CHR 0x22, CHR 0x22])"

text \<open>The text \<open>w\<close> of a value, closed by a newline, is read as \<open>s\<close>.\<close>

definition reads_as :: "(nat \<Rightarrow> bool) \<Rightarrow> string \<Rightarrow> string \<Rightarrow> bool" where
  "reads_as uni w s \<longleftrightarrow> text_of_file uni w \<and> unquote (trim_space w) = (s, True)
     \<and> (\<forall>us r zs. runes_of w = us @ r # zs \<longrightarrow> isNewline r
          \<longrightarrow> \<not> snd (unquote (trim_space (string_of us))))"

lemma encode_literals:
  "encode_rune 0x22 = [CHR 0x22]" "encode_rune 0x0A = [CHR 0x0A]" "encode_rune 0x0D = [CHR 0x0D]"
  by code_simp+

lemma encode_newline: "scalar r \<Longrightarrow> isNewline r \<Longrightarrow> encode_rune r = [CHR 0x0A] \<or> encode_rune r = [CHR 0x0D]"
  by (auto simp: isNewline_def encode_literals)

lemma reads_as_bare: "text_of_file uni s \<Longrightarrow> bare_value s \<Longrightarrow> reads_as uni s s"
proof -
  assume a: "text_of_file uni s" "bare_value s"
  then obtain rs where rs: "s = string_of rs" "\<forall>r \<in> set rs. scalar r" "runes_of s = rs"
    by (auto simp: text_of_file_def elim: valid_utf8E)
  have "\<not> isNewline r" if "r \<in> set rs" for r
  proof
    assume "isNewline r"
    with that rs(2) have "encode_rune r = [CHR 0x0A] \<or> encode_rune r = [CHR 0x0D]"
      by (auto dest: encode_newline)
    with that a(2) rs(1) show False by (fastforce simp: bare_value_def string_of_def)
  qed
  with a rs show ?thesis by (auto simp: reads_as_def bare_value_def unquote_bare)
qed

text \<open>A value between marks \<open>q\<close>: the beginnings of it must stay open.\<close>

lemma reads_as_quoted:
  assumes s: "text_of_file uni s" and q: "q = string_of qs" "set qs \<subseteq> {0x22}" "qs \<noteq> []"
    and closed: "unquote (q @ s @ q) = (s, True)"
    and opened: "\<And>u. prefix u s \<Longrightarrow> \<not> snd (unquote (q @ u))"
  shows "reads_as uni (q @ s @ q) s"
proof -
  from s obtain rs where rs: "s = string_of rs" "\<forall>r \<in> set rs. scalar r" "runes_of s = rs"
    by (auto simp: text_of_file_def elim: valid_utf8E)
  let ?ws = "qs @ rs @ qs"
  have sc: "\<forall>r \<in> set ?ws. scalar r" using rs(2) q(2) by (auto simp: scalar_def)
  have w: "q @ s @ q = string_of ?ws" using q rs by simp
  have ws: "runes_of (q @ s @ q) = ?ws" unfolding w using sc by (rule runes_of_string_of)
  note e = encode_literals(1)
  have q1: "set q \<subseteq> {CHR 0x22}" "q \<noteq> []"
    using q e by (auto simp: string_of_def)
  have "valid_utf8 (q @ s @ q)" unfolding w using sc by (rule valid_string_of)
  then have "text_of_file uni (q @ s @ q)"
    unfolding text_of_file_def ws using s rs(1,3) q(2)
    by (auto simp: text_of_file_def text_rune_def is_print_def)
  moreover obtain p p' where "q = p @ [CHR 0x22]" "q = CHR 0x22 # p'"
    using q1 by (metis append_butlast_last_id last_in_set list.exhaust list.set_intros(1) singletonD subsetD)
  then have "trim_space (q @ s @ q) = q @ s @ q"
    by (metis append.assoc append_Cons trim_space_closed)
  moreover have "\<not> snd (unquote (trim_space (string_of us)))"
    if u: "?ws = us @ r # zs" "isNewline r" for us r zs
  proof -
    have "r \<notin> set qs" using u(2) q(2) by (auto simp: isNewline_def)
    with u(1) obtain us' where us': "us = qs @ us'" "prefix us' rs"
      by (auto simp: append_eq_append_conv2 append_eq_Cons_conv prefix_def)
    then have p: "prefix (string_of us') s" using rs by (auto simp: prefix_def)
    have "trim_space (string_of us) = q @ trim_right (string_of us')"
      using trim_space_open [OF q1] us' q by simp
    moreover have "prefix (trim_right (string_of us')) s"
      using p prefix_trim_right prefix_order.trans by blast
    ultimately show ?thesis using opened by simp
  qed
  ultimately show ?thesis using closed unfolding reads_as_def ws by simp
qed

lemma reads_as_quote:
  assumes "clean_value uni s"
  shows "reads_as uni (quote s) s"
proof (cases "needs_quotes s")
  case False
  with assms show ?thesis
    by (auto simp: clean_value_def quote_def needs_quotes_def contains_char intro: reads_as_bare)
next
  case True
  have "\<not> bare_value s"
  proof
    assume b: "bare_value s"
    then have t: "trim_right (trim_left s) = s" by (simp add: bare_value_def trim_space_def)
    then have "length s \<le> length (trim_left s)" using length_trim_right [of "trim_left s"] by simp
    with suffix_trim_left [of s] have "trim_left s = s"
      by (metis suffix_length_le le_antisym suffix_order.antisym suffixE append_eq_append_conv self_append_conv2 length_append add_cancel_left_left append_Nil length_0_conv)
    with t have l: "lead_ok s" "end_ok s"
      using lead_ok_trim_left [of s] end_ok_trim_right [of s] by simp_all
    have "'' '' \<in> set ws_tokens" by code_simp
    with l have "\<not> has_prefix s '' ''" "\<not> has_suffix s '' ''"
      by (auto simp: lead_ok_def end_ok_def has_prefix_def has_suffix_def)
    with b True show False by (simp add: bare_value_def needs_quotes_def)
  qed
  with assms have s: "text_of_file uni s" "\<not> contains s [CHR 0x22, CHR 0x22, CHR 0x22]"
    by (auto simp: clean_value_def)
  note e = encode_literals(1)
  have ne: "s \<noteq> []" using True by (auto simp: needs_quotes_def has_prefix_def has_suffix_def)
  show ?thesis
  proof (cases "CHR 0x22 \<in> set s")
    case False
    have "\<not> snd (unquote ([CHR 0x22] @ u))" if "prefix u s" for u
      using unquote_open [of u] set_mono_prefix [OF that] False by auto
    then have "reads_as uni ([CHR 0x22] @ s @ [CHR 0x22]) s"
      using unquote_closed [OF False ne] False s(1) e
      by (intro reads_as_quoted [where qs = "[0x22]"]) auto
    with True False show ?thesis
      by (simp add: quote_def needs_quotes_def contains_char)
  next
    case m: True
    have "\<not> snd (unquote ([CHR 0x22, CHR 0x22, CHR 0x22] @ u))" if pre: "prefix u s" for u
    proof (rule unquote_triple_open, rule notI)
      assume "suffix [CHR 0x22, CHR 0x22, CHR 0x22] u"
      then obtain z where "u = z @ [CHR 0x22, CHR 0x22, CHR 0x22]" by (auto simp: suffix_def)
      moreover obtain t where "s = u @ t" using pre by (auto simp: prefix_def)
      ultimately have "s = z @ [CHR 0x22, CHR 0x22, CHR 0x22] @ t" by simp
      with s(2) show False unfolding contains_iff by blast
    qed
    then have "reads_as uni ([CHR 0x22, CHR 0x22, CHR 0x22] @ s @ [CHR 0x22, CHR 0x22, CHR 0x22]) s"
      using s(1) e unquote_triple_closed [of s]
      by (intro reads_as_quoted [where qs = "[0x22, 0x22, 0x22]"]) auto
    with True m show ?thesis by (simp add: quote_def needs_quotes_def contains_char)
  qed
qed

section \<open>Commands that survive printing\<close>

definition quoted_commands :: "string list" where
  "quoted_commands = [''license'', ''template'', ''system'', ''adapter'', ''renderer'', ''parser'',
     ''requires'', ''draft'']"

definition parameter_name :: "string \<Rightarrow> bool" where
  "parameter_name n \<longleftrightarrow> (\<forall>c \<in> set n. isAlpha (byte c) \<or> isNumber (byte c) \<or> c = CHR ''_'')"

definition clean_command :: "(nat \<Rightarrow> bool) \<Rightarrow> mf_command \<Rightarrow> bool" where
  "clean_command uni c \<longleftrightarrow>
     (if cmd_name c = ''model'' then text_of_file uni (cmd_args c) \<and> bare_value (cmd_args c)
      else if cmd_name c \<in> set quoted_commands then clean_value uni (cmd_args c)
      else if cmd_name c = ''message''
      then (case cut (cmd_args c) '': '' of
              (role, message, found) \<Rightarrow> found \<and> isValidMessageRole role \<and> clean_value uni message)
      else parameter_name (cmd_name c) \<and> clean_value uni (cmd_args c))"

text \<open>A value after its keyword, up to the newline, becomes the command's argument.\<close>

lemma parse_runes_line:
  assumes "pf_curr v = StateValue" "pf_buf v = []" "reads_as uni w s"
  shows "\<exists>v'. parse_runes uni (runes_of w @ [0x0A]) v = Inr v' \<and> pf_curr v' = StateNil
    \<and> pf_role v' = []
    \<and> pf_file v' = pf_file v @ [\<lparr>cmd_name = cmd_name (pf_cmd v),
        cmd_args = if pf_role v \<noteq> [] then pf_role v @ '': '' @ s else s\<rparr>]"
proof -
  from assms(3) have w: "string_of (runes_of w) = w"
    by (simp add: reads_as_def text_of_file_def valid_utf8_def)
  have "\<exists>n. parse_runes uni (runes_of w) v
      = Inr (v\<lparr>pf_buf := pf_buf v @ string_of (runes_of w), pf_line := n\<rparr>)"
    using assms by (intro parse_runes_value) (auto simp: reads_as_def text_of_file_def)
  then obtain n where n: "parse_runes uni (runes_of w) v = Inr (v\<lparr>pf_buf := w, pf_line := n\<rparr>)"
    using assms(2) w by auto
  let ?v = "v\<lparr>pf_buf := w, pf_line := n\<rparr>"
  have "parse_rune uni 0x0A ?v
      = Inr ((emit s (?v\<lparr>pf_line := pf_line ?v + 1\<rparr>))\<lparr>pf_buf := [], pf_curr := StateNil\<rparr>)"
    using assms by (intro parse_rune_end) (simp_all add: reads_as_def)
  with n show ?thesis
    by (simp add: parse_runes_append emit_def Let_def mf_command.defs)
qed

lemma byte_ascii_runes: "\<forall>c \<in> set s. byte c < (0x80 :: nat) \<Longrightarrow> valid_utf8 s \<and> runes_of s = map byte s"
proof -
  assume a: "\<forall>c \<in> set s. byte c < (0x80 :: nat)"
  then have "s = string_of (map byte s)"
    by (induction s) (simp_all add: encode1)
  moreover have "\<forall>r \<in> set (map byte s). scalar r" using a by (auto simp: scalar_def)
  ultimately show ?thesis by (metis runes_of_string_of valid_string_of)
qed

lemma runes_of_append: "valid_utf8 s \<Longrightarrow> runes_of (s @ t) = runes_of s @ runes_of t"
  by (metis runes_of_string valid_utf8E)

text \<open>The code points of a word in a state that accepts them.\<close>

lemma parse_runes_word:
  assumes "pf_curr v = cs" "\<forall>c \<in> set w. byte c < (0x7F :: nat) \<and> parseRuneForState (byte c) cs = Inr (cs, byte c)
      \<and> 0x20 \<le> byte c"
  shows "parse_runes uni (map byte w) v = Inr (v\<lparr>pf_buf := pf_buf v @ w\<rparr>)"
proof -
  have "string_of (map byte w) = w" using assms(2) by (induction w) (simp_all add: encode1)
  moreover have "parse_runes uni (map byte w) v = Inr (v\<lparr>pf_buf := pf_buf v @ string_of (map byte w)\<rparr>)"
    using assms by (intro parse_runes_stay) (auto simp: is_print_def isNewline_def)
  ultimately show ?thesis by simp
qed

lemma alpha_runes: "isAlpha r \<Longrightarrow> 0x20 \<le> r \<and> r < 0x7F \<and> \<not> isSpace r \<and> \<not> isNewline r \<and> r \<noteq> byte (CHR ''#'')"
  by (auto simp: isAlpha_def isSpace_def isNewline_def)

lemma parse_runes_keyword:
  assumes "pf_curr v = StateNil" "kw \<noteq> []" "\<forall>c \<in> set kw. isAlpha (byte c)"
  shows "parse_runes uni (map byte kw) v = Inr (v\<lparr>pf_buf := kw, pf_curr := StateName\<rparr>)"
proof -
  obtain c w where kw: "kw = c # w" using assms(2) by (cases kw) auto
  have c: "parse_rune uni (byte c) v = Inr (v\<lparr>pf_buf := [c], pf_curr := StateName\<rparr>)"
    using assms kw alpha_runes [of "byte c"]
    by (simp add: parse_rune_def parseRuneForState_def leave_state_def write_rune_def is_print_def encode1)
  have "parse_runes uni (map byte w) (v\<lparr>pf_buf := [c], pf_curr := StateName\<rparr>)
      = Inr (v\<lparr>pf_buf := [c] @ w, pf_curr := StateName\<rparr>)"
    using assms(3) kw
    by (subst parse_runes_word [where cs = StateName])
      (auto simp: parseRuneForState_def dest: alpha_runes)
  with c kw show ?thesis by simp
qed

text \<open>The space after a keyword.\<close>

lemma parse_rune_after_keyword:
  assumes "pf_curr v = StateName" "isValidCommand (pf_buf v)"
  shows "parse_rune uni 0x20 v =
    (let s = to_lower (pf_buf v) in Inr (v\<lparr>pf_buf := [],
       pf_curr := (if s = ''parameter'' then StateParameter else if s = ''message'' then StateMessage else StateValue),
       pf_cmd := (if s = ''from'' then (pf_cmd v)\<lparr>cmd_name := ''model''\<rparr>
         else if s = ''parameter'' then pf_cmd v else (pf_cmd v)\<lparr>cmd_name := s\<rparr>)\<rparr>))"
  using assms by (auto simp: parse_rune_def parseRuneForState_def leave_state_def write_rune_def
      isNewline_def isSpace_def isAlpha_def is_print_def Let_def)

lemma parse_runes_command:
  assumes "pf_curr v = StateNil" "kw \<noteq> []" "\<forall>c \<in> set kw. isAlpha (byte c)" "isValidCommand kw"
  shows "parse_runes uni (runes_of (kw @ '' '' @ t)) v =
    (let s = to_lower kw in parse_runes uni (runes_of t) (v\<lparr>pf_buf := [],
       pf_curr := (if s = ''parameter'' then StateParameter else if s = ''message'' then StateMessage else StateValue),
       pf_cmd := (if s = ''from'' then (pf_cmd v)\<lparr>cmd_name := ''model''\<rparr>
         else if s = ''parameter'' then pf_cmd v else (pf_cmd v)\<lparr>cmd_name := s\<rparr>)\<rparr>))"
proof -
  have "\<forall>c \<in> set (kw @ '' ''). byte c < (0x80 :: nat)"
    using assms(3) by (auto dest!: alpha_runes)
  from byte_ascii_runes [OF this] have "runes_of (kw @ '' '' @ t) = map byte kw @ 0x20 # runes_of t"
    using runes_of_append [of "kw @ '' ''" t] by simp
  then show ?thesis
    using assms by (simp add: parse_runes_append parse_runes_keyword parse_rune_after_keyword Let_def)
qed

text \<open>The space after the role of a message or the name of a parameter.\<close>

lemma parse_rune_after_name:
  assumes "pf_curr v = StateParameter"
  shows "parse_rune uni 0x20 v =
    Inr (v\<lparr>pf_buf := [], pf_curr := StateValue, pf_cmd := (pf_cmd v)\<lparr>cmd_name := pf_buf v\<rparr>\<rparr>)"
  using assms by (simp add: parse_rune_def parseRuneForState_def leave_state_def write_rune_def
      isNewline_def isSpace_def isAlpha_def isNumber_def is_print_def)

lemma parse_rune_after_role:
  assumes "pf_curr v = StateMessage" "isValidMessageRole (pf_buf v)"
  shows "parse_rune uni 0x20 v =
    Inr (v\<lparr>pf_buf := [], pf_curr := StateValue, pf_role := pf_buf v\<rparr>)"
  using assms by (simp add: parse_rune_def parseRuneForState_def leave_state_def write_rune_def
      isNewline_def isSpace_def isAlpha_def is_print_def)

lemma parse_runes_argument:
  assumes "\<forall>c \<in> set w. byte c < (0x7F :: nat) \<and> parseRuneForState (byte c) cs = Inr (cs, byte c) \<and> 0x20 \<le> byte c"
    "pf_curr v = cs" "pf_buf v = []"
  shows "parse_runes uni (runes_of (w @ '' '' @ t)) v =
    (case parse_rune uni 0x20 (v\<lparr>pf_buf := w\<rparr>) of Inl e \<Rightarrow> Inl e | Inr v' \<Rightarrow> parse_runes uni (runes_of t) v')"
proof -
  have "\<forall>c \<in> set (w @ '' ''). byte c < (0x80 :: nat)"
    using assms(1) by auto
  from byte_ascii_runes [OF this] have "runes_of (w @ '' '' @ t) = map byte w @ 0x20 # runes_of t"
    using runes_of_append [of "w @ '' ''" t] by simp
  then show ?thesis
    using assms parse_runes_word [of v cs w uni] by (simp add: parse_runes_append)
qed

lemma cut_found: "cut s sep = (a, b, True) \<Longrightarrow> s = a @ sep @ b"
  by (auto simp: cut_def dest!: index_Some_split split: option.splits)

definition after_command :: "mf_vars \<Rightarrow> mf_command \<Rightarrow> mf_error + mf_vars \<Rightarrow> bool" where
  "after_command v c res \<longleftrightarrow> (\<exists>v'. res = Inr v' \<and> pf_curr v' = StateNil \<and> pf_role v' = []
     \<and> pf_file v' = pf_file v @ [c])"

lemma parse_runes_value_line:
  assumes "pf_curr v = StateValue" "pf_buf v = []" "reads_as uni w s"
    "cmd_name c = cmd_name (pf_cmd v)"
    "cmd_args c = (if pf_role v \<noteq> [] then pf_role v @ '': '' @ s else s)" "pf_file v = pf_file v0"
  shows "after_command v0 c (parse_runes uni (runes_of (w @ [CHR 0x0A])) v)"
proof -
  have "valid_utf8 w" using assms(3) by (simp add: reads_as_def text_of_file_def)
  then have "runes_of (w @ [CHR 0x0A]) = runes_of w @ [0x0A]"
    using byte_ascii_runes [of "[CHR 0x0A]"] by (simp add: runes_of_append)
  moreover have "c = \<lparr>cmd_name = cmd_name (pf_cmd v), cmd_args = cmd_args c\<rparr>"
    using assms(4) by simp
  moreover obtain v' where "parse_runes uni (runes_of w @ [0x0A]) v = Inr v'" "pf_curr v' = StateNil"
    "pf_role v' = []" "pf_file v' = pf_file v @ [\<lparr>cmd_name = cmd_name (pf_cmd v),
        cmd_args = if pf_role v \<noteq> [] then pf_role v @ '': '' @ s else s\<rparr>]"
    using parse_runes_line [OF assms(1-3)] by blast
  ultimately show ?thesis
    using assms(5,6) unfolding after_command_def by simp
qed

lemma keyword_alpha:
  "\<forall>kw \<in> set ([''FROM'', ''PARAMETER'', ''MESSAGE''] @ map to_upper quoted_commands).
     kw \<noteq> [] \<and> (\<forall>c \<in> set kw. isAlpha (byte c)) \<and> isValidCommand kw"
  by code_simp

lemma keyword_lower:
  "to_lower ''FROM'' = ''from''" "to_lower ''PARAMETER'' = ''parameter''" "to_lower ''MESSAGE'' = ''message''"
  "\<forall>n \<in> set quoted_commands. to_lower (to_upper n) = n \<and> n \<noteq> ''parameter'' \<and> n \<noteq> ''message''
     \<and> n \<noteq> ''from'' \<and> n \<noteq> ''model''"
  by code_simp+

lemma role_runes:
  assumes "isValidMessageRole role"
  shows "role \<noteq> []" "\<forall>c \<in> set role. byte c < (0x7F :: nat)
     \<and> parseRuneForState (byte c) StateMessage = Inr (StateMessage, byte c) \<and> 0x20 \<le> byte c"
proof -
  have "\<forall>role \<in> set [''system'', ''user'', ''assistant'']. role \<noteq> [] \<and> (\<forall>c \<in> set role. byte c < (0x7F :: nat)
     \<and> parseRuneForState (byte c) StateMessage = Inr (StateMessage, byte c) \<and> 0x20 \<le> (byte c :: nat))"
    by code_simp
  moreover have "role \<in> set [''system'', ''user'', ''assistant'']"
    using assms unfolding isValidMessageRole_def by simp
  ultimately show "role \<noteq> []" "\<forall>c \<in> set role. byte c < (0x7F :: nat)
     \<and> parseRuneForState (byte c) StateMessage = Inr (StateMessage, byte c) \<and> 0x20 \<le> byte c"
    by blast+
qed

lemma name_rune:
  "isAlpha r \<or> isNumber r \<or> r = 95 \<Longrightarrow>
     r < 0x7F \<and> parseRuneForState r StateParameter = Inr (StateParameter, r) \<and> 0x20 \<le> r"
  by (auto simp: parseRuneForState_def) (auto simp: isAlpha_def isNumber_def)

lemma name_runes:
  assumes "parameter_name n"
  shows "\<forall>c \<in> set n. byte c < (0x7F :: nat)
     \<and> parseRuneForState (byte c) StateParameter = Inr (StateParameter, byte c) \<and> 0x20 \<le> byte c"
proof
  fix c assume "c \<in> set n"
  moreover have "byte (CHR ''_'') = (95 :: nat)" by code_simp
  ultimately have "isAlpha (byte c) \<or> isNumber (byte c) \<or> byte c = (95 :: nat)"
    using assms unfolding parameter_name_def by metis
  then show "byte c < (0x7F :: nat)
     \<and> parseRuneForState (byte c) StateParameter = Inr (StateParameter, byte c) \<and> 0x20 \<le> byte c"
    by (rule name_rune)
qed

text \<open>The five kinds of lines.\<close>

lemma keyword_line:
  assumes "pf_curr v = StateNil" "kw \<in> set ([''FROM'', ''PARAMETER'', ''MESSAGE''] @ map to_upper quoted_commands)"
    "to_lower kw = s"
    "after_command v c (parse_runes uni (runes_of t) (v\<lparr>pf_buf := [],
       pf_curr := (if s = ''parameter'' then StateParameter else if s = ''message'' then StateMessage else StateValue),
       pf_cmd := (if s = ''from'' then (pf_cmd v)\<lparr>cmd_name := ''model''\<rparr>
         else if s = ''parameter'' then pf_cmd v else (pf_cmd v)\<lparr>cmd_name := s\<rparr>)\<rparr>))"
  shows "after_command v c (parse_runes uni (runes_of (kw @ '' '' @ t)) v)"
proof -
  have "kw \<noteq> []" "\<forall>c \<in> set kw. isAlpha (byte c)" "isValidCommand kw"
    using assms(2) keyword_alpha by blast+
  from parse_runes_command [OF assms(1) this, of uni t] assms(3,4) show ?thesis
    by (simp add: Let_def)
qed

lemma argument_line:
  assumes "\<forall>c \<in> set w. byte c < (0x7F :: nat) \<and> parseRuneForState (byte c) cs = Inr (cs, byte c) \<and> 0x20 \<le> byte c"
    "pf_curr v = cs" "pf_buf v = []" "parse_rune uni 0x20 (v\<lparr>pf_buf := w\<rparr>) = Inr v'"
    "after_command v0 c (parse_runes uni (runes_of t) v')"
  shows "after_command v0 c (parse_runes uni (runes_of (w @ '' '' @ t)) v)"
  using parse_runes_argument [OF assms(1-3), of uni t] assms(4,5) by simp

lemma parse_from:
  assumes "pf_curr v = StateNil" "pf_role v = []" "cmd_name c = ''model''" "reads_as uni w (cmd_args c)"
  shows "after_command v c (parse_runes uni (runes_of (''FROM'' @ '' '' @ w @ [CHR 0x0A])) v)"
proof (rule keyword_line [OF assms(1) _ keyword_lower(1)])
  show "''FROM'' \<in> set ([''FROM'', ''PARAMETER'', ''MESSAGE''] @ map to_upper quoted_commands)" by simp
qed (rule parse_runes_value_line [OF _ _ assms(4)]; use assms in simp)

lemma parse_quoted:
  assumes "pf_curr v = StateNil" "pf_role v = []" "cmd_name c \<in> set quoted_commands"
    "reads_as uni w (cmd_args c)"
  shows "after_command v c (parse_runes uni (runes_of (to_upper (cmd_name c) @ '' '' @ w @ [CHR 0x0A])) v)"
proof -
  have n: "to_lower (to_upper (cmd_name c)) = cmd_name c" "cmd_name c \<noteq> ''parameter''"
      "cmd_name c \<noteq> ''message''" "cmd_name c \<noteq> ''from''"
    using assms(3) keyword_lower(4) by blast+
  show ?thesis
  proof (rule keyword_line [OF assms(1) _ n(1)])
    show "to_upper (cmd_name c) \<in> set ([''FROM'', ''PARAMETER'', ''MESSAGE''] @ map to_upper quoted_commands)"
      using assms(3) by simp
  qed (rule parse_runes_value_line [OF _ _ assms(4)]; use assms n in simp)
qed

lemma parse_message:
  assumes "pf_curr v = StateNil" "pf_role v = []" "cmd_name c = ''message''" "isValidMessageRole role"
    "cmd_args c = role @ '': '' @ msg" "reads_as uni w msg"
  shows "after_command v c (parse_runes uni (runes_of (''MESSAGE'' @ '' '' @ role @ '' '' @ w @ [CHR 0x0A])) v)"
proof (rule keyword_line [OF assms(1) _ keyword_lower(3)])
  show "''MESSAGE'' \<in> set ([''FROM'', ''PARAMETER'', ''MESSAGE''] @ map to_upper quoted_commands)" by simp
qed (rule argument_line [OF role_runes(2) [OF assms(4)] _ _ parse_rune_after_role];
  (rule parse_runes_value_line [OF _ _ assms(6)])?; use assms role_runes(1) in simp)

lemma parse_parameter:
  assumes "pf_curr v = StateNil" "pf_role v = []" "parameter_name (cmd_name c)" "reads_as uni w (cmd_args c)"
  shows "after_command v c (parse_runes uni (runes_of (''PARAMETER'' @ '' '' @ cmd_name c @ '' '' @ w @ [CHR 0x0A])) v)"
proof (rule keyword_line [OF assms(1) _ keyword_lower(2)])
  show "''PARAMETER'' \<in> set ([''FROM'', ''PARAMETER'', ''MESSAGE''] @ map to_upper quoted_commands)" by simp
qed (rule argument_line [OF name_runes [OF assms(3)] _ _ parse_rune_after_name];
  (rule parse_runes_value_line [OF _ _ assms(4)])?; use assms in simp)

lemma parse_command:
  assumes v: "pf_curr v = StateNil" "pf_role v = []" and c: "clean_command uni c"
  shows "after_command v c (parse_runes uni (runes_of (command_string c @ [CHR 0x0A])) v)"
proof -
  have q: "''message'' \<notin> set quoted_commands" "''model'' \<notin> set quoted_commands"
    using keyword_lower(4) by blast+
  consider "cmd_name c = ''model''" | "cmd_name c \<in> set quoted_commands" "cmd_name c \<noteq> ''model''"
    | "cmd_name c = ''message''" "cmd_name c \<notin> set quoted_commands" "cmd_name c \<noteq> ''model''"
    | "cmd_name c \<noteq> ''model''" "cmd_name c \<noteq> ''message''" "cmd_name c \<notin> set quoted_commands"
    using q by auto
  then show ?thesis
  proof cases
    case 1
    then have "command_string c @ [CHR 0x0A] = ''FROM'' @ '' '' @ cmd_args c @ [CHR 0x0A]"
      by (simp add: command_string_def)
    with parse_from [OF v 1] c 1 show ?thesis by (simp only: clean_command_def reads_as_bare if_True)
  next
    case 2
    then have "command_string c @ [CHR 0x0A] = to_upper (cmd_name c) @ '' '' @ quote (cmd_args c) @ [CHR 0x0A]"
      by (simp add: command_string_def quoted_commands_def)
    with parse_quoted [OF v 2(1)] c 2 show ?thesis
      by (simp only: clean_command_def reads_as_quote if_True if_False)
  next
    case 3
    obtain role msg where cut: "cut (cmd_args c) '': '' = (role, msg, True)"
      and r: "isValidMessageRole role" and msg: "clean_value uni msg"
      using c 3 by (auto simp: clean_command_def split: prod.splits)
    have "command_string c @ [CHR 0x0A] = ''MESSAGE'' @ '' '' @ role @ '' '' @ quote msg @ [CHR 0x0A]"
      using 3 cut by (simp add: command_string_def quoted_commands_def)
    with parse_message [OF v 3(1) r cut_found [OF cut] reads_as_quote [OF msg]] show ?thesis
      by (simp only:)
  next
    case 4
    then have "command_string c @ [CHR 0x0A]
        = ''PARAMETER'' @ '' '' @ cmd_name c @ '' '' @ quote (cmd_args c) @ [CHR 0x0A]"
      by (simp add: command_string_def quoted_commands_def)
    moreover have p: "parameter_name (cmd_name c)" and a: "clean_value uni (cmd_args c)"
      using c 4 by (simp_all add: clean_command_def)
    ultimately show ?thesis
      using parse_parameter [OF v p reads_as_quote [OF a]] by (simp only:)
  qed
qed

lemma valid_utf8_ascii: "\<forall>c \<in> set s. byte c < (0x80 :: nat) \<Longrightarrow> valid_utf8 s"
  using byte_ascii_runes by blast

lemma valid_line:
  assumes "\<forall>c \<in> set a. byte c < (0x80 :: nat)" "valid_utf8 w"
  shows "valid_utf8 (a @ '' '' @ w @ [CHR 0x0A])"
  using assms by (intro valid_utf8_append) (simp_all add: valid_utf8_ascii)

lemma reads_as_valid: "reads_as uni w s \<Longrightarrow> valid_utf8 w"
  by (simp add: reads_as_def text_of_file_def)

lemma keyword_ascii:
  "\<forall>kw \<in> set ([''FROM'', ''PARAMETER'', ''MESSAGE''] @ map to_upper quoted_commands).
     \<forall>c \<in> set kw. byte c < (0x80 :: nat)"
  by code_simp

lemma valid_command:
  assumes c: "clean_command uni c"
  shows "valid_utf8 (command_string c @ [CHR 0x0A])"
proof -
  have q: "''message'' \<notin> set quoted_commands" "''model'' \<notin> set quoted_commands"
    using keyword_lower(4) by blast+
  consider "cmd_name c = ''model''" | "cmd_name c \<in> set quoted_commands" "cmd_name c \<noteq> ''model''"
    | "cmd_name c = ''message''" "cmd_name c \<notin> set quoted_commands" "cmd_name c \<noteq> ''model''"
    | "cmd_name c \<noteq> ''model''" "cmd_name c \<noteq> ''message''" "cmd_name c \<notin> set quoted_commands"
    using q by auto
  then show ?thesis
  proof cases
    case 1
    then have "command_string c @ [CHR 0x0A] = ''FROM'' @ '' '' @ cmd_args c @ [CHR 0x0A]"
      by (simp add: command_string_def)
    moreover have "valid_utf8 (''FROM'' @ '' '' @ cmd_args c @ [CHR 0x0A])"
      using c 1 keyword_ascii by (intro valid_line) (simp_all add: clean_command_def text_of_file_def)
    ultimately show ?thesis by (simp only:)
  next
    case 2
    then have "command_string c @ [CHR 0x0A] = to_upper (cmd_name c) @ '' '' @ quote (cmd_args c) @ [CHR 0x0A]"
      by (simp add: command_string_def quoted_commands_def)
    moreover have "clean_value uni (cmd_args c)" using c 2 by (simp add: clean_command_def)
    then have "valid_utf8 (to_upper (cmd_name c) @ '' '' @ quote (cmd_args c) @ [CHR 0x0A])"
      using 2(1) keyword_ascii reads_as_valid [OF reads_as_quote] by (intro valid_line) auto
    ultimately show ?thesis by (simp only:)
  next
    case 3
    obtain role msg where cut: "cut (cmd_args c) '': '' = (role, msg, True)"
      and r: "isValidMessageRole role" and msg: "clean_value uni msg"
      using c 3 by (auto simp: clean_command_def split: prod.splits)
    have "command_string c @ [CHR 0x0A] = (''MESSAGE'' @ '' '' @ role) @ '' '' @ quote msg @ [CHR 0x0A]"
      using 3 cut by (simp add: command_string_def quoted_commands_def)
    moreover have "\<forall>c \<in> set (''MESSAGE'' @ '' '' @ role). byte c < (0x80 :: nat)"
      using role_runes(2) [OF r] by auto
    then have "valid_utf8 ((''MESSAGE'' @ '' '' @ role) @ '' '' @ quote msg @ [CHR 0x0A])"
      using reads_as_valid [OF reads_as_quote [OF msg]] by (intro valid_line)
    ultimately show ?thesis by (simp only:)
  next
    case 4
    then have "command_string c @ [CHR 0x0A]
        = (''PARAMETER'' @ '' '' @ cmd_name c) @ '' '' @ quote (cmd_args c) @ [CHR 0x0A]"
      by (simp add: command_string_def quoted_commands_def)
    moreover have p: "parameter_name (cmd_name c)" and a: "clean_value uni (cmd_args c)"
      using c 4 by (simp_all add: clean_command_def)
    moreover have "\<forall>c \<in> set (''PARAMETER'' @ '' '' @ cmd_name c). byte c < (0x80 :: nat)"
      using name_runes [OF p] by auto
    then have "valid_utf8 ((''PARAMETER'' @ '' '' @ cmd_name c) @ '' '' @ quote (cmd_args c) @ [CHR 0x0A])"
      using reads_as_valid [OF reads_as_quote [OF a]] by (intro valid_line)
    ultimately show ?thesis by (simp only:)
  qed
qed

section \<open>Printing and parsing\<close>

lemma parse_runes_file:
  assumes "pf_curr v = StateNil" "pf_role v = []" "\<forall>c \<in> set f. clean_command uni c"
  shows "\<exists>v'. parse_runes uni (runes_of (modelfile_string f)) v = Inr v' \<and> pf_curr v' = StateNil
    \<and> pf_file v' = pf_file v @ f"
  using assms
proof (induction f arbitrary: v)
  case Nil
  then show ?case by (simp add: modelfile_string_def)
next
  case (Cons c f)
  let ?l = "command_string c @ [CHR 0x0A]"
  from Cons.prems obtain v' where v': "parse_runes uni (runes_of ?l) v = Inr v'"
      "pf_curr v' = StateNil" "pf_role v' = []" "pf_file v' = pf_file v @ [c]"
    using parse_command [of v uni c] by (auto simp: after_command_def)
  have "valid_utf8 ?l" using Cons.prems(3) by (intro valid_command [of uni]) simp
  then have "runes_of (modelfile_string (c # f)) = runes_of ?l @ runes_of (modelfile_string f)"
    by (simp add: modelfile_string_def runes_of_append flip: append_assoc)
  with Cons.IH [of v'] v' Cons.prems(3) show ?case by (simp add: parse_runes_append)
qed

text \<open>
  C13. A Modelfile that is printed and parsed again gives the commands back, for commands the
  format can express: code points the parser keeps; a value without line breaks or white space
  at its ends, not starting with a quotation mark, or else a value the printer quotes and that
  does not contain three quotation marks in a row; a role of the three; a parameter name of
  letters, digits and underscores; and a \<^verbatim>\<open>FROM\<close> among them.
\<close>

theorem modelfile_roundtrip:
  assumes "\<forall>c \<in> set f. clean_command uni c" "\<exists>c \<in> set f. cmd_name c = ''model''"
  shows "ParseFile uni (runes_of (modelfile_string f)) None = Inr f"
proof -
  obtain v where "parse_runes uni (runes_of (modelfile_string f)) pf_init = Inr v"
      "pf_curr v = StateNil" "pf_file v = f"
    using parse_runes_file [of pf_init f uni] assms(1) by (auto simp: pf_init_def)
  with assms(2) show ?thesis by (simp add: ParseFile_def flush_def)
qed

theorem modelfile_roundtrip_witness:
  "let f = [\<lparr>cmd_name = ''model'', cmd_args = ''llama3.2:1b''\<rparr>,
            \<lparr>cmd_name = ''system'', cmd_args = ''Say '' @ [CHR 0x22] @ ''hi'' @ [CHR 0x22, CHR 0x0A, CHR 0x09] @ ''twice.''\<rparr>,
            \<lparr>cmd_name = ''message'', cmd_args = ''user: hello ''\<rparr>,
            \<lparr>cmd_name = ''num_ctx'', cmd_args = ''4096''\<rparr>]
   in ParseFile (\<lambda>_. False) (runes_of (modelfile_string f)) None = Inr f"
  unfolding Let_def by (rule modelfile_roundtrip; code_simp)

section \<open>What is accepted\<close>

definition names_ok :: "mf_vars \<Rightarrow> bool" where
  "names_ok v \<longleftrightarrow> parameter_name (cmd_name (pf_cmd v))
     \<and> (pf_curr v = StateParameter \<longrightarrow> parameter_name (pf_buf v))
     \<and> (\<forall>c \<in> set (pf_file v). parameter_name (cmd_name c))"

lemma command_names: "isValidCommand s \<Longrightarrow> parameter_name (to_lower s)"
proof -
  have "\<forall>s \<in> set valid_commands. parameter_name s" by code_simp
  then show "isValidCommand s \<Longrightarrow> ?thesis" by (simp add: isValidCommand_def)
qed

lemma names_constant [simp]: "parameter_name ''model''" "parameter_name ''message''"
  by code_simp+

lemma names_Nil [simp]: "parameter_name []"
  by (simp add: parameter_name_def)

lemma names_emit: "names_ok v \<Longrightarrow> pf_curr v = StateValue \<Longrightarrow> names_ok (emit s v)"
  by (simp add: names_ok_def emit_def Let_def)

lemma names_leave:
  assumes "names_ok v"
  shows "leave_state next r v = Inr (Inl v') \<Longrightarrow> names_ok v'"
    "leave_state next r v = Inr (Inr (next', v')) \<Longrightarrow> names_ok (v'\<lparr>pf_buf := [], pf_curr := next'\<rparr>)"
  using assms
  by (auto simp: leave_state_def names_ok_def emit_def Let_def command_names
      split: mf_state.splits if_splits prod.splits)

lemma names_write:
  assumes "names_ok v" "pf_curr v = StateParameter \<Longrightarrow> is_print uni r \<Longrightarrow> isAlpha r \<or> isNumber r \<or> r = 95"
  shows "names_ok (write_rune uni r v)"
proof -
  have "parameter_name (encode_rune r)" if "isAlpha r \<or> isNumber r \<or> r = 95"
  proof -
    from that have "encode_rune r = [char_of r]" "r < 256"
      by (auto simp: encode_rune_def isAlpha_def isNumber_def)
    moreover have "char_of (95 :: nat) = CHR ''_''" by code_simp
    ultimately show ?thesis using that by (auto simp: parameter_name_def)
  qed
  with assms show ?thesis
    by (auto simp: write_rune_def names_ok_def parameter_name_def)
qed

lemma names_parse_rune:
  assumes "names_ok v0" "parse_rune uni r v0 = Inr v1"
  shows "names_ok v1"
proof -
  define v where "v = (if isNewline r then v0\<lparr>pf_line := pf_line v0 + 1\<rparr> else v0)"
  have v: "names_ok v" using assms(1) by (simp add: v_def names_ok_def)
  note step = assms(2) [unfolded parse_rune_def Let_def v_def [symmetric]]
  from step obtain st r' where p: "parseRuneForState r (pf_curr v) = Inr (st, r')"
    by (auto split: sum.splits rune_fault.splits)
  have b: "byte (CHR ''_'') = (95 :: nat)" by code_simp
  show ?thesis
  proof (cases "st = pf_curr v")
    case True
    with step p have "v1 = write_rune uni r' v" by simp
    moreover have "isAlpha r' \<or> isNumber r' \<or> r' = 95" if "pf_curr v = StateParameter"
      using p that True b by (auto simp: parseRuneForState_def split: if_splits)
    ultimately show ?thesis using v by (auto intro: names_write)
  next
    case False
    with step p consider "leave_state st r' v = Inr (Inl v1)"
      | st' v' where "leave_state st r' v = Inr (Inr (st', v'))"
        "v1 = write_rune uni r' (v'\<lparr>pf_buf := [], pf_curr := st'\<rparr>)"
      by (auto split: sum.splits)
    then show ?thesis
    proof cases
      case 1
      with v show ?thesis by (rule names_leave)
    next
      case 2
      have "\<not> is_print uni r'" if "st' = StateParameter"
        using that 2(1) p False
        by (auto simp: leave_state_def parseRuneForState_def is_print_def
            split: mf_state.splits if_splits prod.splits)
      with 2 names_leave(2) [OF v 2(1)] show ?thesis by (auto intro: names_write)
    qed
  qed
qed

lemma names_parse_runes: "names_ok v \<Longrightarrow> parse_runes uni rs v = Inr v' \<Longrightarrow> names_ok v'"
  by (induction rs arbitrary: v) (auto split: sum.splits dest: names_parse_rune)

text \<open>
  Whatever the input, an accepted Modelfile has a \<^verbatim>\<open>FROM\<close>, and the names of its commands are made
  of ASCII letters, digits and underscores.
\<close>

theorem modelfile_accepted:
  "case ParseFile uni rs failure of
     Inr f \<Rightarrow> (\<exists>c \<in> set f. cmd_name c = ''model'') \<and> (\<forall>c \<in> set f. parameter_name (cmd_name c))
   | Inl e \<Rightarrow> True"
proof (cases "ParseFile uni rs failure")
  case (Inr f)
  then obtain v v' where v: "parse_runes uni rs pf_init = Inr v" "flush v = Inr v'" "f = pf_file v'"
      "\<exists>c \<in> set f. cmd_name c = ''model''"
    by (auto simp: ParseFile_def split: sum.splits option.splits if_splits)
  have "names_ok v" using v(1) by (rule names_parse_runes [rotated]) (simp add: names_ok_def pf_init_def)
  then have "names_ok v'"
    using v(2) by (auto simp: flush_def split: mf_state.splits prod.splits if_splits intro: names_emit)
  with v Inr show ?thesis by (simp add: names_ok_def)
qed simp

section \<open>What does not survive\<close>

text \<open>A value that starts with a quotation mark is printed without marks of its own, and the parser
  takes its first character for an opening mark: the file printed for a file the parser accepted
  does not parse.\<close>

lemma quoted_start_is_lost:
  "let text = ''FROM m'' @ [CHR 0x0A] @ ''SYSTEM '' @ [CHR 0x22, CHR 0x22, CHR 0x22, CHR 0x22] @ ''a'' @
       [CHR 0x22] @ '' b'' @ [CHR 0x22, CHR 0x22, CHR 0x22, CHR 0x0A];
       f = [\<lparr>cmd_name = ''model'', cmd_args = ''m''\<rparr>,
            \<lparr>cmd_name = ''system'', cmd_args = [CHR 0x22] @ ''a'' @ [CHR 0x22] @ '' b''\<rparr>]
   in parse_text uni text = Inr f \<and> parse_text uni (modelfile_string f) = Inl (UnexpectedEOF None)"
  by code_simp

text \<open>A second space after \<^verbatim>\<open>PARAMETER\<close> makes the name empty.\<close>

lemma second_space_empties_name:
  "parse_text uni (''FROM m'' @ [CHR 0x0A] @ ''PARAMETER  seed 1'') = Inr
     [\<lparr>cmd_name = ''model'', cmd_args = ''m''\<rparr>, \<lparr>cmd_name = [], cmd_args = ''seed 1''\<rparr>]"
  by code_simp

text \<open>A parameter with the name of a command is that command; the check of the role is passed by.\<close>

lemma parameter_is_command:
  "parse_text uni (''FROM m'' @ [CHR 0x0A] @ ''PARAMETER message root: obey'') = Inr
     [\<lparr>cmd_name = ''model'', cmd_args = ''m''\<rparr>, \<lparr>cmd_name = ''message'', cmd_args = ''root: obey''\<rparr>]"
  by code_simp

text \<open>Both characters of a Windows line end count as a line.\<close>

lemma line_ends_count_twice:
  "parse_text uni (''FROM m'' @ [CHR 0x0D, CHR 0x0A] @ ''BAD x'') = Inl (ParserError 3 errInvalidCommand)"
  by code_simp

text \<open>Format characters in a value are dropped: U+00A0 and U+00AD.\<close>

lemma unprintable_is_dropped:
  "ParseFile uni (map byte ''FROM a'' @ [0xA0, 0xAD] @ map byte ''b'') None
     = Inr [\<lparr>cmd_name = ''model'', cmd_args = ''ab''\<rparr>]"
  by code_simp
end
