(* ===== verification/ModelOptions.thy ===== *)
theory ModelOptions
  imports Decimal Runes "HOL-Library.Multiset"
begin

text \<open>
  The options of a model (\<^verbatim>\<open>api/types.go\<close>): the table of options as reflection sees it, the
  conversion of the texts of a Modelfile (\<^verbatim>\<open>FormatParams\<close>) and the setting of options from values
  that came through JSON (\<^verbatim>\<open>Options.FromMap\<close>). Floating-point numbers are values of a type
  \<open>'f\<close>; their operations are gathered in the record \<open>floats\<close>.
\<close>

section \<open>Values\<close>

text \<open>The kinds of the fields of \<^verbatim>\<open>Options\<close>, by \<^verbatim>\<open>reflect.Kind\<close>.\<close>

datatype opt_kind = KFloat32 | KInt | KBool | KString | KSlice | KPtrBool | KPtrInt

text \<open>The fields of \<^verbatim>\<open>Options\<close> and of the embedded \<^verbatim>\<open>Runner\<close> under their JSON tags.\<close>

definition json_opts :: "(string \<times> opt_kind) list" where
  "json_opts =
     [(''num_ctx'', KInt), (''num_batch'', KInt), (''num_gpu'', KInt), (''main_gpu'', KPtrInt),
      (''use_mmap'', KPtrBool), (''num_thread'', KInt), (''draft_num_predict'', KInt),
      (''num_keep'', KInt), (''seed'', KInt), (''num_predict'', KInt), (''top_k'', KInt),
      (''top_p'', KFloat32), (''min_p'', KFloat32), (''typical_p'', KFloat32),
      (''repeat_last_n'', KInt), (''temperature'', KFloat32), (''repeat_penalty'', KFloat32),
      (''presence_penalty'', KFloat32), (''frequency_penalty'', KFloat32), (''stop'', KSlice)]"

text \<open>The dynamic values that occur: what \<^verbatim>\<open>FormatParams\<close> builds and what decoded JSON consists of.\<close>

datatype 'f go_value =
    GNil
  | GInt64 int
  | GFloat64 'f
  | GFloat32 'f
  | GBool bool
  | GPtrBool bool
  | GString string
  | GStrings "string list"
  | GArray "'f go_value list"
  | GObject

text \<open>The content of a field of \<^verbatim>\<open>Options\<close>.\<close>

datatype 'f field_value =
    FInt int
  | FFloat32 'f
  | FBool bool
  | FString string
  | FStrings "string list"
  | FPtrBool "bool option"
  | FPtrInt "int option"

type_synonym 'f options = "string \<Rightarrow> 'f field_value option"

text \<open>\<^verbatim>\<open>strconv.ParseFloat(s, 32)\<close>, the conversions between \<^verbatim>\<open>int64\<close>, \<^verbatim>\<open>float32\<close> and \<^verbatim>\<open>float64\<close>, and the
  \<^verbatim>\<open>float64\<close> that decoding gives for what encoding writes for a \<^verbatim>\<open>float32\<close> or an \<^verbatim>\<open>int64\<close>. \<^verbatim>\<open>ParseFloat\<close> also reads infinities and
  not-a-number, which \<^verbatim>\<open>encoding/json\<close> refuses to write: \<open>fl_json32\<close> is then \<^const>\<open>None\<close>.\<close>

record 'f floats =
  fl_parse32 :: "string \<Rightarrow> 'f option"
  fl_to32 :: "'f \<Rightarrow> 'f"
  fl_to_int :: "'f \<Rightarrow> int"
  fl_json32 :: "'f \<Rightarrow> 'f option"
  fl_json_int :: "int \<Rightarrow> 'f"

section \<open>Texts\<close>

text \<open>\<^verbatim>\<open>strconv.ParseInt(s, 10, 64)\<close> and \<^verbatim>\<open>strconv.ParseBool\<close>; \<^const>\<open>None\<close> is the error.\<close>

definition all_digits :: "string \<Rightarrow> bool" where
  "all_digits s \<longleftrightarrow> s \<noteq> [] \<and> (\<forall>c \<in> set s. 48 \<le> byte c \<and> byte c \<le> (57 :: nat))"

definition parse_int :: "string \<Rightarrow> int option" where
  "parse_int s =
     (let neg = has_prefix s ''-'';
          ds = (if neg \<or> has_prefix s ''+'' then drop 1 s else s);
          n = int (atoi ds);
          v = (if neg then - n else n)
      in if all_digits ds \<and> - (2 ^ 63) \<le> v \<and> v < 2 ^ 63 then Some v else None)"

definition parse_bool :: "string \<Rightarrow> bool option" where
  "parse_bool s =
     (if s \<in> set [''1'', ''t'', ''T'', ''TRUE'', ''true'', ''True''] then Some True
      else if s \<in> set [''0'', ''f'', ''F'', ''FALSE'', ''false'', ''False''] then Some False
      else None)"

datatype param_error =
    UnknownParameter string
  | InvalidFloat "string list"
  | InvalidInt "string list"
  | InvalidBool "string list"
  | IndexOutOfRange

text \<open>The value of one parameter, by the kind of its field.\<close>

definition format_value :: "'f floats \<Rightarrow> opt_kind \<Rightarrow> string list \<Rightarrow> param_error + 'f go_value" where
  "format_value fl kind vals =
     (case kind of
        KSlice \<Rightarrow> Inr (GStrings vals)
      | _ \<Rightarrow> (case vals of
          [] \<Rightarrow> Inl IndexOutOfRange
        | val # _ \<Rightarrow> (case kind of
            KFloat32 \<Rightarrow> (case fl_parse32 fl val of
              None \<Rightarrow> Inl (InvalidFloat vals) | Some x \<Rightarrow> Inr (GFloat32 x))
          | KInt \<Rightarrow> (case parse_int val of
              None \<Rightarrow> Inl (InvalidInt vals) | Some i \<Rightarrow> Inr (GInt64 i))
          | KBool \<Rightarrow> (case parse_bool val of
              None \<Rightarrow> Inl (InvalidBool vals) | Some b \<Rightarrow> Inr (GBool b))
          | KString \<Rightarrow> Inr (GString val)
          | KPtrBool \<Rightarrow> (case parse_bool val of
              None \<Rightarrow> Inl (InvalidBool vals) | Some b \<Rightarrow> Inr (GPtrBool b))
          | KPtrInt \<Rightarrow> (case parse_int val of
              None \<Rightarrow> Inl (InvalidInt vals) | Some i \<Rightarrow> Inr (GInt64 i)))))"

text \<open>\<^verbatim>\<open>FormatParams\<close>: \<open>params\<close> lists the map in the order of its iteration.\<close>

fun FormatParams :: "'f floats \<Rightarrow> (string \<times> string list) list
    \<Rightarrow> param_error + (string \<rightharpoonup> 'f go_value)" where
  "FormatParams fl [] = Inr Map.empty"
| "FormatParams fl ((key, vals) # params) =
     (case map_of json_opts key of
        None \<Rightarrow> Inl (UnknownParameter key)
      | Some kind \<Rightarrow> (case format_value fl kind vals of
          Inl e \<Rightarrow> Inl e
        | Inr x \<Rightarrow> (case FormatParams fl params of
            Inl e \<Rightarrow> Inl e
          | Inr out \<Rightarrow> Inr (if out key \<noteq> None then out else out(key \<mapsto> x)))))"

section \<open>Setting options\<close>

datatype option_error = MustBeInteger | MustBeBoolean | MustBeFloat32 | MustBeString | MustBeArray
  | MustBeStrings

fun strings_of :: "'f go_value list \<Rightarrow> string list option" where
  "strings_of [] = Some []"
| "strings_of (GString s # xs) = (case strings_of xs of None \<Rightarrow> None | Some ss \<Rightarrow> Some (s # ss))"
| "strings_of (_ # xs) = None"

definition int_value :: "'f floats \<Rightarrow> 'f go_value \<Rightarrow> int option" where
  "int_value fl val = (case val of
     GInt64 t \<Rightarrow> Some t
   | GFloat64 t \<Rightarrow> Some (fl_to_int fl t)
   | _ \<Rightarrow> None)"

definition field_of :: "'f floats \<Rightarrow> opt_kind \<Rightarrow> 'f go_value \<Rightarrow> option_error + 'f field_value" where
  "field_of fl kind val = (case kind of
     KInt \<Rightarrow> (case int_value fl val of None \<Rightarrow> Inl MustBeInteger | Some t \<Rightarrow> Inr (FInt t))
   | KBool \<Rightarrow> (case val of GBool b \<Rightarrow> Inr (FBool b) | _ \<Rightarrow> Inl MustBeBoolean)
   | KFloat32 \<Rightarrow> (case val of GFloat64 x \<Rightarrow> Inr (FFloat32 (fl_to32 fl x)) | _ \<Rightarrow> Inl MustBeFloat32)
   | KString \<Rightarrow> (case val of GString s \<Rightarrow> Inr (FString s) | _ \<Rightarrow> Inl MustBeString)
   | KSlice \<Rightarrow> (case val of
       GArray xs \<Rightarrow> (case strings_of xs of None \<Rightarrow> Inl MustBeStrings | Some ss \<Rightarrow> Inr (FStrings ss))
     | _ \<Rightarrow> Inl MustBeArray)
   | KPtrBool \<Rightarrow> (case val of GBool b \<Rightarrow> Inr (FPtrBool (Some b)) | _ \<Rightarrow> Inl MustBeBoolean)
   | KPtrInt \<Rightarrow> (case int_value fl val of None \<Rightarrow> Inl MustBeInteger | Some t \<Rightarrow> Inr (FPtrInt (Some t))))"

text \<open>\<^verbatim>\<open>FromMap\<close> changes the options in place, so an error leaves the entries set before it. The
  error comes with its key.\<close>

fun FromMap :: "'f floats \<Rightarrow> (string \<times> 'f go_value) list \<Rightarrow> 'f options
    \<Rightarrow> 'f options \<times> (string \<times> option_error) option" where
  "FromMap fl [] opts = (opts, None)"
| "FromMap fl ((key, val) # m) opts =
     (case map_of json_opts key of
        None \<Rightarrow> FromMap fl m opts
      | Some kind \<Rightarrow>
          if val = GNil then FromMap fl m opts
          else (case field_of fl kind val of
            Inl e \<Rightarrow> (opts, Some (key, e))
          | Inr f \<Rightarrow> FromMap fl m (opts(key \<mapsto> f))))"


section \<open>Through JSON and the order of a map\<close>

text \<open>
  What decoding gives for an encoded value of \<^verbatim>\<open>FormatParams\<close>: every number is a \<^verbatim>\<open>float64\<close>, and bytes
  that are not UTF-8 are replaced. Encoding fails (\<^const>\<open>None\<close>) on a number JSON has no text for.
\<close>

definition json_text :: "string \<Rightarrow> string" where
  "json_text s = string_of (runes_of s)"

definition through_json :: "'f floats \<Rightarrow> 'f go_value \<Rightarrow> 'f go_value option" where
  "through_json fl v = (case v of
     GInt64 i \<Rightarrow> Some (GFloat64 (fl_json_int fl i))
   | GFloat32 x \<Rightarrow> map_option GFloat64 (fl_json32 fl x)
   | GPtrBool b \<Rightarrow> Some (GBool b)
   | GString s \<Rightarrow> Some (GString (json_text s))
   | GStrings ss \<Rightarrow> Some (GArray (map (\<lambda>s. GString (json_text s)) ss))
   | _ \<Rightarrow> Some v)"

text \<open>The encoded and decoded map, listed in the order of \<open>keys\<close>; one value that fails fails it all.\<close>

fun json_map :: "'f floats \<Rightarrow> (string \<rightharpoonup> 'f go_value) \<Rightarrow> string list \<Rightarrow> (string \<times> 'f go_value) list option" where
  "json_map fl out [] = Some []"
| "json_map fl out (key # keys) =
     (case out key of
        None \<Rightarrow> json_map fl out keys
      | Some x \<Rightarrow> (case (through_json fl x, json_map fl out keys) of
          (Some y, Some m) \<Rightarrow> Some ((key, y) # m)
        | _ \<Rightarrow> None))"

text \<open>What the text of a parameter means, with no regard to the ways it takes.\<close>

definition meant :: "'f floats \<Rightarrow> opt_kind \<Rightarrow> string list \<Rightarrow> 'f field_value option" where
  "meant fl kind vals = (case kind of
     KInt \<Rightarrow> map_option FInt (parse_int (hd vals))
   | KPtrInt \<Rightarrow> map_option (\<lambda>i. FPtrInt (Some i)) (parse_int (hd vals))
   | KFloat32 \<Rightarrow> map_option FFloat32 (fl_parse32 fl (hd vals))
   | KBool \<Rightarrow> map_option FBool (parse_bool (hd vals))
   | KPtrBool \<Rightarrow> map_option (\<lambda>b. FPtrBool (Some b)) (parse_bool (hd vals))
   | KString \<Rightarrow> Some (FString (hd vals))
   | KSlice \<Rightarrow> Some (FStrings vals))"

text \<open>
  The documented behaviour of the conversions: the shortest text of a \<^verbatim>\<open>float32\<close> that JSON can write
  reads back as it, and a \<^verbatim>\<open>float64\<close> is exact on integers up to \<open>2 ^ 53\<close>.
\<close>

definition faithful_floats :: "'f floats \<Rightarrow> bool" where
  "faithful_floats fl \<longleftrightarrow>
     (\<forall>x y. fl_json32 fl x = Some y \<longrightarrow> fl_to32 fl y = x)
     \<and> (\<forall>i. \<bar>i\<bar> \<le> 2 ^ 53 \<longrightarrow> fl_to_int fl (fl_json_int fl i) = i)"

text \<open>The parameters JSON carries exactly: integers that a \<^verbatim>\<open>float64\<close> holds, texts in UTF-8.\<close>

definition exact_param :: "string \<Rightarrow> string list \<Rightarrow> bool" where
  "exact_param key vals \<longleftrightarrow> (case map_of json_opts key of
     Some KInt \<Rightarrow> (case parse_int (hd vals) of None \<Rightarrow> True | Some i \<Rightarrow> \<bar>i\<bar> \<le> 2 ^ 53)
   | Some KPtrInt \<Rightarrow> (case parse_int (hd vals) of None \<Rightarrow> True | Some i \<Rightarrow> \<bar>i\<bar> \<le> 2 ^ 53)
   | Some KString \<Rightarrow> valid_utf8 (hd vals)
   | Some KSlice \<Rightarrow> list_all valid_utf8 vals
   | _ \<Rightarrow> True)"

text \<open>A parameter whose text is a number that JSON has no text for.\<close>

definition unwritable_param :: "'f floats \<Rightarrow> string \<Rightarrow> string list \<Rightarrow> bool" where
  "unwritable_param fl key vals \<longleftrightarrow> map_of json_opts key = Some KFloat32
     \<and> (case fl_parse32 fl (hd vals) of None \<Rightarrow> False | Some x \<Rightarrow> fl_json32 fl x = None)"

lemma json_text_valid: "valid_utf8 s \<Longrightarrow> json_text s = s"
  by (simp add: json_text_def valid_utf8_def)

lemma strings_of_json: "list_all valid_utf8 ss \<Longrightarrow> strings_of (map (\<lambda>s. GString (json_text s)) ss) = Some ss"
  by (induction ss) (simp_all add: json_text_valid)

lemma format_value_json:
  assumes "map_of json_opts key = Some kind" "format_value fl kind vals = Inr x"
  shows "through_json fl x = None \<longleftrightarrow> unwritable_param fl key vals"
  using assms
  by (auto simp: format_value_def through_json_def unwritable_param_def
      split: opt_kind.splits list.splits option.splits)

lemma format_value_meant:
  assumes "faithful_floats fl" "map_of json_opts key = Some kind" "exact_param key vals"
    "format_value fl kind vals = Inr x" "through_json fl x = Some y"
  shows "y \<noteq> GNil \<and> (\<exists>f. field_of fl kind y = Inr f \<and> meant fl kind vals = Some f)"
  using assms
  by (auto simp: format_value_def through_json_def field_of_def meant_def int_value_def faithful_floats_def
      exact_param_def strings_of_json json_text_valid
      split: opt_kind.splits list.splits option.splits)

text \<open>What one entry does to its option.\<close>

definition option_after :: "'f floats \<Rightarrow> string \<Rightarrow> 'f go_value \<Rightarrow> 'f field_value option \<Rightarrow> 'f field_value option" where
  "option_after fl key val old = (case map_of json_opts key of
     None \<Rightarrow> old
   | Some kind \<Rightarrow> if val = GNil then old
       else (case field_of fl kind val of Inl e \<Rightarrow> old | Inr f \<Rightarrow> Some f))"

definition acceptable :: "'f floats \<Rightarrow> string \<Rightarrow> 'f go_value \<Rightarrow> bool" where
  "acceptable fl key val \<longleftrightarrow> (case map_of json_opts key of
     None \<Rightarrow> True | Some kind \<Rightarrow> val = GNil \<or> (\<exists>f. field_of fl kind val = Inr f))"

lemma FromMap_step:
  "acceptable fl key val
     \<Longrightarrow> FromMap fl ((key, val) # m) opts = FromMap fl m (opts(key := option_after fl key val (opts key)))"
  by (auto simp: acceptable_def option_after_def split: option.splits)

lemma FromMap_stop: "\<not> acceptable fl key val \<Longrightarrow> snd (FromMap fl ((key, val) # m) opts) \<noteq> None"
  by (auto simp: acceptable_def split: option.splits sum.splits)

lemma FromMap_accepts: "snd (FromMap fl m opts) = None \<longleftrightarrow> (\<forall>(key, val) \<in> set m. acceptable fl key val)"
proof (induction m arbitrary: opts)
  case (Cons e m)
  obtain k val where e: "e = (k, val)" by (cases e)
  show ?case
  proof (cases "acceptable fl k val")
    case True
    then show ?thesis unfolding e by (simp add: FromMap_step Cons.IH del: FromMap.simps)
  next
    case False
    then show ?thesis unfolding e using FromMap_stop [OF False] by auto
  qed
qed simp

lemma FromMap_sets:
  "snd (FromMap fl m opts) = None \<Longrightarrow> distinct (map fst m) \<Longrightarrow>
     fst (FromMap fl m opts) key = (case map_of m key of None \<Rightarrow> opts key | Some val \<Rightarrow> option_after fl key val (opts key))"
proof (induction m arbitrary: opts)
  case (Cons e m)
  obtain k val where e: "e = (k, val)" by (cases e)
  have "k \<notin> dom (map_of m)" using Cons.prems(2) e by (simp add: dom_map_of_conv_image_fst)
  then have k: "map_of m k = None" by (simp add: domIff)
  have a: "acceptable fl k val" using Cons.prems(1) FromMap_stop unfolding e by blast
  let ?o = "opts(k := option_after fl k val (opts k))"
  have "fst (FromMap fl m ?o) key = (case map_of m key of None \<Rightarrow> ?o key | Some val \<Rightarrow> option_after fl key val (?o key))"
    using Cons.prems a by (intro Cons.IH [of ?o]) (simp_all only: e FromMap_step list.map fst_conv distinct.simps)
  with a k show ?case unfolding e by (auto simp: FromMap_step simp del: FromMap.simps split: option.splits)
qed simp

text \<open>
  Setting options from a map does not depend on the order in which the map is iterated: whether
  there is an error does not, and without one the options do not.
\<close>

theorem FromMap_order:
  assumes "mset m = mset m'" "distinct (map fst m)"
  shows "(snd (FromMap fl m opts) = None) = (snd (FromMap fl m' opts) = None)
    \<and> (snd (FromMap fl m opts) = None \<longrightarrow> fst (FromMap fl m opts) = fst (FromMap fl m' opts))"
proof -
  have s: "set m = set m'" using assms(1) by (rule mset_eq_setD)
  then have eq: "(snd (FromMap fl m opts) = None) = (snd (FromMap fl m' opts) = None)"
    by (simp add: FromMap_accepts)
  have d: "distinct (map fst m')"
    using assms by (metis mset_eq_imp_distinct_iff mset_map)
  then have "map_of m = map_of m'"
    using assms(2) s by (metis map_of_inject_set)
  then show ?thesis
    using eq assms(2) d by (auto intro!: ext simp: FromMap_sets)
qed

text \<open>Numbers that are integers or not a number (\<^const>\<open>None\<close>), for examples.\<close>

definition int_floats :: "int option floats" where
  "int_floats = \<lparr>fl_parse32 = (\<lambda>s. if s = ''nan'' then Some None else map_option Some (parse_int s)),
     fl_to32 = id, fl_to_int = (\<lambda>x. case x of None \<Rightarrow> - (2 ^ 63) | Some i \<Rightarrow> i),
     fl_json32 = (\<lambda>x. map_option Some x), fl_json_int = Some\<rparr>"

theorem FromMap_order_witness:
  "let m = [(''seed'', GFloat64 (Some 7)), (''stop'', GArray [GString ''x'']), (''colour'', GObject)] in
   (snd (FromMap int_floats m Map.empty) = None) = (snd (FromMap int_floats (rev m) Map.empty) = None)
   \<and> (snd (FromMap int_floats m Map.empty) = None
        \<longrightarrow> fst (FromMap int_floats m Map.empty) = fst (FromMap int_floats (rev m) Map.empty))"
  unfolding Let_def by (rule FromMap_order) simp_all

text \<open>With an error the options that were set depend on the order.\<close>

lemma FromMap_error_order:
  "let m = [(''seed'', GFloat64 (Some 7)), (''stop'', GObject)] in
   fst (FromMap int_floats m Map.empty) ''seed'' = Some (FInt 7)
   \<and> fst (FromMap int_floats (rev m) Map.empty) ''seed'' = None
   \<and> snd (FromMap int_floats m Map.empty) = Some (''stop'', MustBeArray)"
  by code_simp

lemma FormatParams_all:
  assumes "FormatParams fl params = Inr out" "distinct (map fst params)" "(key, vals) \<in> set params"
  shows "\<exists>kind x. map_of json_opts key = Some kind \<and> format_value fl kind vals = Inr x \<and> out key = Some x"
  using assms
proof (induction fl params arbitrary: out rule: FormatParams.induct)
  case (2 fl k vs params)
  then obtain kind x out' where *: "map_of json_opts k = Some kind" "format_value fl kind vs = Inr x"
      "FormatParams fl params = Inr out'" "out = (if out' k \<noteq> None then out' else out'(k \<mapsto> x))"
    by (auto split: option.splits sum.splits)
  have "dom out' \<subseteq> fst ` set params" using *(3)
  proof (induction fl params arbitrary: out' rule: FormatParams.induct)
    case (2 fl k vs params)
    then show ?case by (fastforce split: option.splits sum.splits if_splits)
  qed simp
  with 2(3) have k: "out' k = None" by (auto simp: domIff)
  show ?case
  proof (cases "key = k")
    case True
    with 2(3,4) have "vals = vs" by (force simp: image_iff)
    with True * k show ?thesis by auto
  next
    case False
    with 2 * have "\<exists>kind x. map_of json_opts key = Some kind \<and> format_value fl kind vals = Inr x \<and> out' key = Some x"
      by auto
    with * k False show ?thesis by auto
  qed
qed simp

lemma json_map_None:
  "json_map fl out keys = None \<longleftrightarrow> (\<exists>key \<in> set keys. \<exists>x. out key = Some x \<and> through_json fl x = None)"
  by (induction keys) (auto split: option.splits)

lemma json_map_Some:
  "json_map fl out keys = Some m \<Longrightarrow>
     map fst m = filter (\<lambda>key. out key \<noteq> None) keys
     \<and> (\<forall>(key, y) \<in> set m. \<exists>x. out key = Some x \<and> through_json fl x = Some y)"
  by (induction keys arbitrary: m) (auto split: option.splits)

text \<open>
  C29. The parameters \<^verbatim>\<open>FormatParams\<close> accepts, encoded as JSON, decoded and given to \<^verbatim>\<open>FromMap\<close>: encoding
  fails exactly when one of them spells a floating-point number that JSON has no text for (an infinity
  or not-a-number); otherwise there is no error and every option is set to what its text means, when the
  integers are ones a \<^verbatim>\<open>float64\<close> holds and the texts are UTF-8.
\<close>

theorem parameters_reach_options:
  assumes "FormatParams fl params = Inr out" "distinct (map fst params)" "faithful_floats fl"
    "\<forall>(key, vals) \<in> set params. exact_param key vals"
  shows "case json_map fl out (map fst params) of
      None \<Rightarrow> \<exists>(key, vals) \<in> set params. unwritable_param fl key vals
    | Some m \<Rightarrow> (\<forall>(key, vals) \<in> set params. \<not> unwritable_param fl key vals)
        \<and> snd (FromMap fl m opts) = None
        \<and> (\<forall>(key, vals) \<in> set params. \<exists>kind. map_of json_opts key = Some kind
             \<and> fst (FromMap fl m opts) key = meant fl kind vals \<and> meant fl kind vals \<noteq> None)"
proof (cases "json_map fl out (map fst params)")
  case None
  then obtain key vals x where kv: "(key, vals) \<in> set params" and x: "out key = Some x" "through_json fl x = None"
    unfolding json_map_None by auto
  with FormatParams_all [OF assms(1,2) kv] have "unwritable_param fl key vals"
    by (auto simp: format_value_json)
  with None kv show ?thesis by auto
next
  case (Some m)
  have keys: "map fst m = filter (\<lambda>key. out key \<noteq> None) (map fst params)"
    and vals: "\<forall>(key, y) \<in> set m. \<exists>x. out key = Some x \<and> through_json fl x = Some y"
    using json_map_Some [OF Some] by blast+
  have d: "distinct (map fst m)" unfolding keys using assms(2) by (rule distinct_filter)
  have one: "\<exists>kind y f. (key, y) \<in> set m \<and> map_of json_opts key = Some kind \<and> meant fl kind vals = Some f
      \<and> y \<noteq> GNil \<and> field_of fl kind y = Inr f \<and> \<not> unwritable_param fl key vals"
    if kv: "(key, vals) \<in> set params" for key vals
  proof -
    obtain kind x where x: "map_of json_opts key = Some kind" "format_value fl kind vals = Inr x" "out key = Some x"
      using FormatParams_all [OF assms(1,2) kv] by blast
    have "key \<in> set (map fst m)" unfolding keys using kv x(3) by force
    then obtain y where y: "(key, y) \<in> set m" by auto
    with bspec [OF vals y] x(3) have t: "through_json fl x = Some y" by simp
    have e: "exact_param key vals" using assms(4) kv by blast
    from format_value_meant [OF assms(3) x(1) e x(2) t] obtain f
      where "y \<noteq> GNil" "field_of fl kind y = Inr f" "meant fl kind vals = Some f" by blast
    with x(1) y format_value_json [OF x(1,2)] t show ?thesis by auto
  qed
  have none: "snd (FromMap fl m opts) = None"
    unfolding FromMap_accepts
  proof (clarify)
    fix key y assume my: "(key, y) \<in> set m"
    then have "key \<in> set (map fst m)" by force
    then obtain vals where kv: "(key, vals) \<in> set params" unfolding keys by auto
    from one [OF kv] my d show "acceptable fl key y"
      by (auto simp: acceptable_def dest: map_of_is_SomeI [OF d])
  qed
  have "\<exists>kind. map_of json_opts key = Some kind
       \<and> fst (FromMap fl m opts) key = meant fl kind vals \<and> meant fl kind vals \<noteq> None"
    if kv: "(key, vals) \<in> set params" for key vals
  proof -
    obtain kind y f where f: "(key, y) \<in> set m" "map_of json_opts key = Some kind" "meant fl kind vals = Some f"
      "y \<noteq> GNil" "field_of fl kind y = Inr f"
      using one [OF kv] by blast
    have "map_of m key = Some y" using f(1) d by (simp add: map_of_is_SomeI)
    with f none d show ?thesis by (simp add: FromMap_sets option_after_def)
  qed
  with none one Some show ?thesis by fastforce
qed

text \<open>Both outcomes: a temperature, an integer, a list and a flag arrive; a temperature \<^verbatim>\<open>nan\<close> cannot be encoded.\<close>

theorem parameters_reach_options_witness:
  "(let params = [(''temperature'', [''1'']), (''seed'', [''-12'']), (''stop'', [''a'', ''b'']), (''use_mmap'', [''true''])] in
    case FormatParams int_floats params of
      Inl e \<Rightarrow> False
    | Inr out \<Rightarrow> (case json_map int_floats out (map fst params) of
        None \<Rightarrow> False
      | Some m \<Rightarrow> snd (FromMap int_floats m Map.empty) = None
          \<and> fst (FromMap int_floats m Map.empty) ''temperature'' = Some (FFloat32 (Some 1))
          \<and> fst (FromMap int_floats m Map.empty) ''seed'' = Some (FInt (- 12))))
   \<and> (case FormatParams int_floats [(''temperature'', [''nan''])] of
        Inl e \<Rightarrow> False
      | Inr out \<Rightarrow> json_map int_floats out [''temperature''] = None)"
proof -
  have ff: "faithful_floats int_floats" by (auto simp: faithful_floats_def int_floats_def)
  let ?p = "[(''temperature'', [''1'']), (''seed'', [''-12'']), (''stop'', [''a'', ''b'']), (''use_mmap'', [''true''])]"
  let ?out = "Map.empty(''use_mmap'' \<mapsto> GPtrBool True, ''stop'' \<mapsto> GStrings [''a'', ''b''],
      ''seed'' \<mapsto> GInt64 (- 12), ''temperature'' \<mapsto> GFloat32 (Some 1))"
  have num: "parse_int ''1'' = Some 1" "parse_int ''-12'' = Some (- 12)" by code_simp+
  have out: "FormatParams int_floats ?p = Inr ?out"
    by (simp add: json_opts_def format_value_def parse_bool_def int_floats_def num)
  have nan: "FormatParams int_floats [(''temperature'', [''nan''])] = Inr (Map.empty(''temperature'' \<mapsto> GFloat32 None))"
    by (simp add: json_opts_def format_value_def int_floats_def)
  have ex: "\<forall>(key, vals) \<in> set ?p. exact_param key vals" by code_simp
  have un: "\<forall>(key, vals) \<in> set ?p. \<not> unwritable_param int_floats key vals"
    by (simp add: unwritable_param_def json_opts_def int_floats_def num)
  obtain m where m: "json_map int_floats ?out (map fst ?p) = Some m"
    using parameters_reach_options[OF out _ ff ex, of Map.empty] un
    by (cases "json_map int_floats ?out (map fst ?p)") auto
  have "snd (FromMap int_floats m Map.empty) = None
      \<and> fst (FromMap int_floats m Map.empty) ''temperature'' = meant int_floats KFloat32 [''1'']
      \<and> fst (FromMap int_floats m Map.empty) ''seed'' = meant int_floats KInt [''-12'']"
    using parameters_reach_options[OF out _ ff ex, of Map.empty] m by (simp add: json_opts_def)
  moreover have "json_map int_floats (Map.empty(''temperature'' \<mapsto> GFloat32 None)) [''temperature''] = None"
    by (simp add: through_json_def int_floats_def)
  ultimately show ?thesis
    unfolding Let_def out nan using m by (simp add: meant_def int_floats_def num)
qed

end
