(* ===== verification/ModelfileRequest.thy ===== *)
theory ModelfileRequest
  imports Modelfile ModelOptions ApiTypes "HOL-Library.AList"
begin

text \<open>
  From a Modelfile to a request (\<^verbatim>\<open>parser/parser.go\<close>): expansion of paths, the files of a model and
  their digests, the check that a draft model is not the model itself, and \<^verbatim>\<open>CreateRequest\<close>. The
  file system and the users of the machine are a record of functions.
\<close>

section \<open>The machine\<close>

text \<open>An error of the system: the file does not exist (\<^verbatim>\<open>os.ErrNotExist\<close>), or another one.\<close>

datatype io_error = NotExist | OtherError

text \<open>The home directories, the working directory, the file system (links, \<^verbatim>\<open>filepath.Glob\<close>, the
  detected content type and the digest of a file), the order in which goroutines finish, and
  \<^verbatim>\<open>semver.IsValid\<close> of another module.\<close>

record machine_env =
  me_home :: "string option"
  me_user_home :: "string \<Rightarrow> string option"
  me_cwd :: "string option"
  me_stat :: "string \<Rightarrow> io_error + bool"
  me_symlinks :: "string \<Rightarrow> io_error + string"
  me_glob :: "string \<Rightarrow> string list option"
  me_content_type :: "string \<Rightarrow> io_error + string"
  me_digest :: "string \<Rightarrow> io_error + string"
  me_finish :: "string list \<Rightarrow> string list"
  me_valid_semver :: "string \<Rightarrow> bool"

datatype request_error =
    NoUser
  | NoCwd
  | BadPattern
  | NotRelative
  | IOError io_error
  | InsecurePath string
  | ContentType string
  | ModelNotFound
  | SamePath string string
  | BadVersion
  | BadParameter param_error

section \<open>Paths\<close>

definition is_abs :: "string \<Rightarrow> bool" where
  "is_abs path = has_prefix path ''/''"

text \<open>\<^verbatim>\<open>filepath.Abs\<close>.\<close>

definition path_abs :: "machine_env \<Rightarrow> string \<Rightarrow> request_error + string" where
  "path_abs env path =
     (if is_abs path then Inr (path_clean path)
      else case me_cwd env of None \<Rightarrow> Inl NoCwd | Some wd \<Rightarrow> Inr (path_join [wd, path]))"

definition expandPathImpl :: "machine_env \<Rightarrow> string \<Rightarrow> string \<Rightarrow> request_error + string" where
  "expandPathImpl env path relativeDir =
     (if is_abs path \<or> has_prefix path [CHR 0x5C] \<or> has_prefix path ''/'' then path_abs env path
      else if has_prefix path ''~'' then
        (if path = ''~'' \<or> has_prefix path ''~/'' then
           (case me_home env of
              None \<Rightarrow> Inl NoUser
            | Some homeDir \<Rightarrow> path_abs env (path_join [homeDir, trim_prefix path ''~'']))
         else
           let parts = splitn2 (drop 1 path) ''/'' in
           (case me_user_home env (hd parts) of
              None \<Rightarrow> Inl NoUser
            | Some homeDir \<Rightarrow>
                path_abs env (path_join [homeDir, if 1 < length parts then ''/'' @ parts ! 1 else []])))
      else path_abs env (path_join [relativeDir, path]))"

abbreviation "expandPath \<equiv> expandPathImpl"

text \<open>\<^verbatim>\<open>filepath.Rel\<close> and \<^verbatim>\<open>filepath.IsLocal\<close> on Unix, on the elements of the cleaned paths.\<close>

definition path_elems :: "string \<Rightarrow> string list" where
  "path_elems path = foldl (clean_step (has_prefix path ''/'')) [] (split_all path ''/'')"

fun strip_common :: "string list \<Rightarrow> string list \<Rightarrow> string list \<times> string list" where
  "strip_common (b # bs) (t # ts) = (if b = t then strip_common bs ts else (b # bs, t # ts))"
| "strip_common bs ts = (bs, ts)"

definition path_rel :: "string \<Rightarrow> string \<Rightarrow> request_error + string" where
  "path_rel base targ =
     (if path_clean targ = path_clean base then Inr ''.''
      else if has_prefix base ''/'' \<noteq> has_prefix targ ''/'' then Inl NotRelative
      else case strip_common (path_elems base) (path_elems targ) of
        (bs, ts) \<Rightarrow>
          if bs \<noteq> [] \<and> hd bs = ''..'' then Inl NotRelative
          else Inr (join ''/'' (replicate (length bs) ''..'' @ ts)))"

definition is_local :: "string \<Rightarrow> bool" where
  "is_local path \<longleftrightarrow> path \<noteq> [] \<and> \<not> is_abs path
     \<and> (let p = path_clean path in p \<noteq> ''..'' \<and> \<not> has_prefix p ''../'')"

section \<open>The files of a model\<close>

text \<open>\<^verbatim>\<open>glob\<close>: all matches, if they have the expected content type.\<close>

definition check_type :: "machine_env \<Rightarrow> string \<Rightarrow> string \<Rightarrow> request_error option" where
  "check_type env contentType m =
     (case me_content_type env m of
        Inl e \<Rightarrow> Some (IOError e)
      | Inr ct \<Rightarrow> if 0 < length contentType \<and> fst (cut ct '';'') \<noteq> contentType
                  then Some (ContentType m) else None)"

fun first_error :: "('a \<Rightarrow> 'e option) \<Rightarrow> 'a list \<Rightarrow> 'e option" where
  "first_error f [] = None"
| "first_error f (x # xs) = (case f x of Some e \<Rightarrow> Some e | None \<Rightarrow> first_error f xs)"

definition glob_type :: "machine_env \<Rightarrow> string \<Rightarrow> string \<Rightarrow> request_error + string list" where
  "glob_type env pattern contentType =
     (case me_glob env pattern of
        None \<Rightarrow> Inl BadPattern
      | Some matches \<Rightarrow> (case first_error (check_type env contentType) matches of
          Some e \<Rightarrow> Inl e | None \<Rightarrow> Inr matches))"

text \<open>\<^verbatim>\<open>st, _ := glob(...)\<close>: an error is taken for no match.\<close>

definition glob_quiet :: "machine_env \<Rightarrow> string \<Rightarrow> string \<Rightarrow> string list" where
  "glob_quiet env pattern contentType =
     (case glob_type env pattern contentType of Inl e \<Rightarrow> [] | Inr ms \<Rightarrow> ms)"

text \<open>The weights of a model: the first of six kinds of files that is there.\<close>

definition weight_files :: "machine_env \<Rightarrow> string \<Rightarrow> request_error + string list" where
  "weight_files env path =
     (let g = (\<lambda>pattern. glob_quiet env (path_join [path, pattern])) in
      if 0 < length (g ''model*.safetensors'' []) then
        (case glob_type env (path_join [path, ''*'', ''model*.safetensors'']) [] of
           Inl e \<Rightarrow> Inl e
         | Inr nested \<Rightarrow> Inr (g ''model*.safetensors'' [] @ nested))
      else if 0 < length (g ''consolidated*.safetensors'' []) then Inr (g ''consolidated*.safetensors'' [])
      else if 0 < length (g ''pytorch_model*.bin'' ''application/zip'')
        then Inr (g ''pytorch_model*.bin'' ''application/zip'')
      else if 0 < length (g ''consolidated*.pth'' ''application/zip'')
        then Inr (g ''consolidated*.pth'' ''application/zip'')
      else if 0 < length (g ''*.gguf'' ''application/octet-stream'')
        then Inr (g ''*.gguf'' ''application/octet-stream'')
      else if 0 < length (g ''*.bin'' ''application/octet-stream'')
        then Inr (g ''*.bin'' ''application/octet-stream'')
      else Inl ModelNotFound)"

definition tokenizer_files :: "machine_env \<Rightarrow> string \<Rightarrow> string list" where
  "tokenizer_files env path =
     (let tks = glob_quiet env (path_join [path, ''tokenizer.model'']) ''application/octet-stream'' in
      if 0 < length tks then tks
      else glob_quiet env (path_join [path, ''**/tokenizer.model'']) ''text/plain'')"

definition filesForModel :: "machine_env \<Rightarrow> string \<Rightarrow> request_error + string list" where
  "filesForModel env path =
     (case weight_files env path of
        Inl e \<Rightarrow> Inl e
      | Inr files \<Rightarrow> (case glob_type env (path_join [path, ''*.json'']) ''text/plain'' of
          Inl e \<Rightarrow> Inl e
        | Inr js \<Rightarrow> (case glob_type env (path_join [path, ''**/*.json'']) ''text/plain'' of
            Inl e \<Rightarrow> Inl e
          | Inr js' \<Rightarrow> (case glob_type env (path_join [path, ''chat_template.jinja'']) ''text/plain'' of
              Inl e \<Rightarrow> Inl e
            | Inr chatTemplates \<Rightarrow>
                Inr (files @ js @ js' @ chatTemplates @ tokenizer_files env path)))))"

text \<open>The loop over the files of a directory: links are resolved, and what they lead to has to be
  below the directory.\<close>

fun resolve_files :: "machine_env \<Rightarrow> string \<Rightarrow> string list \<Rightarrow> request_error + string list" where
  "resolve_files env path [] = Inr []"
| "resolve_files env path (f0 # fs) =
     (case me_symlinks env f0 of
        Inl e \<Rightarrow> Inl (IOError e)
      | Inr f \<Rightarrow> (case path_rel path f of
          Inl e \<Rightarrow> Inl e
        | Inr rel \<Rightarrow>
            if \<not> is_local rel then Inl (InsecurePath rel)
            else (case resolve_files env path fs of Inl e \<Rightarrow> Inl e | Inr fs' \<Rightarrow> Inr (f # fs'))))"

definition digestForFile :: "machine_env \<Rightarrow> string \<Rightarrow> request_error + string" where
  "digestForFile env filename =
     (case me_symlinks env filename of
        Inl e \<Rightarrow> Inl (IOError e)
      | Inr path \<Rightarrow> (case me_digest env path of Inl e \<Rightarrow> Inl (IOError e) | Inr d \<Rightarrow> Inr d))"

text \<open>The digests, computed by goroutines: \<^verbatim>\<open>fl[f] = digest\<close> is one step under the lock, and the group
  keeps the first error in the order in which they finish.\<close>

fun digest_files :: "machine_env \<Rightarrow> string list \<Rightarrow> request_error + (string \<rightharpoonup> string)" where
  "digest_files env [] = Inr Map.empty"
| "digest_files env (f # fs) =
     (case digestForFile env f of
        Inl e \<Rightarrow> Inl e
      | Inr d \<Rightarrow> (case digest_files env fs of Inl e \<Rightarrow> Inl e | Inr fl \<Rightarrow> Inr (fl(f \<mapsto> d))))"

definition fileDigestMap :: "machine_env \<Rightarrow> string \<Rightarrow> request_error + (string \<rightharpoonup> string)" where
  "fileDigestMap env path =
     (case me_stat env path of
        Inl e \<Rightarrow> Inl (IOError e)
      | Inr isDir \<Rightarrow>
          if isDir then
            (case filesForModel env path of
               Inl e \<Rightarrow> Inl e
             | Inr fs \<Rightarrow> (case resolve_files env path fs of
                 Inl e \<Rightarrow> Inl e
               | Inr files \<Rightarrow> digest_files env (me_finish env files)))
          else digest_files env (me_finish env [path]))"

section \<open>Draft models\<close>

definition canonicalLocalPath :: "machine_env \<Rightarrow> string \<Rightarrow> request_error + string" where
  "canonicalLocalPath env path =
     (case path_abs env path of
        Inl e \<Rightarrow> Inl e
      | Inr apath \<Rightarrow> (case me_symlinks env apath of Inl e \<Rightarrow> Inl (IOError e) | Inr p \<Rightarrow> Inr p))"

definition sameLocalPath :: "machine_env \<Rightarrow> string \<Rightarrow> string \<Rightarrow> request_error + bool" where
  "sameLocalPath env a b =
     (case canonicalLocalPath env a of
        Inl e \<Rightarrow> Inl e
      | Inr aa \<Rightarrow> (case canonicalLocalPath env b of Inl e \<Rightarrow> Inl e | Inr bb \<Rightarrow> Inr (aa = bb)))"

fun rejectMatchingLocalPath :: "machine_env \<Rightarrow> string \<Rightarrow> string \<Rightarrow> string list \<Rightarrow> request_error option" where
  "rejectMatchingLocalPath env name path [] = None"
| "rejectMatchingLocalPath env name path (candidate # existing) =
     (case sameLocalPath env path candidate of
        Inl e \<Rightarrow> Some e
      | Inr same \<Rightarrow> if same then Some (SamePath name path)
                   else rejectMatchingLocalPath env name path existing)"

section \<open>The request\<close>

text \<open>The fields of \<^verbatim>\<open>api.CreateRequest\<close> that \<^verbatim>\<open>CreateRequest\<close> sets. A nil map, slice or interface is
  \<^const>\<open>None\<close>.\<close>

record ('f, 'a) create_request =
  cr_From :: string
  cr_Files :: "(string \<rightharpoonup> string) option"
  cr_DraftFiles :: "(string \<rightharpoonup> string) option"
  cr_Adapters :: "(string \<rightharpoonup> string) option"
  cr_Template :: string
  cr_License :: "string list option"
  cr_System :: string
  cr_Parameters :: "(string \<times> 'f go_value) list option"
  cr_Messages :: "'a message list option"
  cr_Renderer :: string
  cr_Parser :: string
  cr_Requires :: string

text \<open>The request and the local variables beside it.\<close>

record ('f, 'a) request_vars =
  rv_req :: "('f, 'a) create_request"
  rv_messages :: "'a message list"
  rv_licenses :: "string list"
  rv_params :: "(string \<times> 'f go_value) list"
  rv_modelPaths :: "string list"
  rv_draftPaths :: "string list"

definition request_init :: "('f, 'a) request_vars" where
  "request_init = \<lparr>rv_req = \<lparr>cr_From = [], cr_Files = None, cr_DraftFiles = None, cr_Adapters = None,
       cr_Template = [], cr_License = None, cr_System = [], cr_Parameters = None, cr_Messages = None,
       cr_Renderer = [], cr_Parser = [], cr_Requires = []\<rparr>,
     rv_messages = [], rv_licenses = [], rv_params = [], rv_modelPaths = [], rv_draftPaths = []\<rparr>"

definition deprecatedParameters :: "string list" where
  "deprecatedParameters = [''penalize_newline'', ''low_vram'', ''f16_kv'', ''logits_all'', ''vocab_only'',
     ''use_mlock'', ''mirostat'', ''mirostat_tau'', ''mirostat_eta'']"

definition plain_message :: "string \<Rightarrow> string \<Rightarrow> 'a message" where
  "plain_message role content = \<lparr>msg_Role = role, msg_Content = content, msg_Thinking = [], msg_Images = [],
     msg_ToolCalls = [], msg_ToolName = [], msg_ToolCallID = []\<rparr>"

text \<open>A map extended by another one: assigned when nil, otherwise copied into.\<close>

definition add_files :: "(string \<rightharpoonup> string) option \<Rightarrow> (string \<rightharpoonup> string) \<Rightarrow> (string \<rightharpoonup> string) option" where
  "add_files files digestMap = (case files of None \<Rightarrow> Some digestMap | Some fl \<Rightarrow> Some (fl ++ digestMap))"

text \<open>One parameter into \<^verbatim>\<open>params\<close>, a map kept as an association list: lists of strings are appended to.\<close>

definition merge_param :: "(string \<times> 'f go_value) list \<Rightarrow> string \<Rightarrow> 'f go_value \<Rightarrow> (string \<times> 'f go_value) list" where
  "merge_param params k v =
     (case (map_of params k, v) of
        (Some (GStrings ks), GStrings vs) \<Rightarrow> AList.update k (GStrings (ks @ vs)) params
      | _ \<Rightarrow> AList.update k v params)"

definition request_model :: "machine_env \<Rightarrow> string \<Rightarrow> string \<Rightarrow> ('f, 'a) request_vars
    \<Rightarrow> request_error + ('f, 'a) request_vars" where
  "request_model env relativeDir args v =
     (case expandPath env args relativeDir of
        Inl e \<Rightarrow> Inl e
      | Inr path \<Rightarrow> (case fileDigestMap env path of
          Inl e \<Rightarrow> if e = IOError NotExist then Inr (v\<lparr>rv_req := (rv_req v)\<lparr>cr_From := args\<rparr>\<rparr>) else Inl e
        | Inr digestMap \<Rightarrow> (case rejectMatchingLocalPath env ''DRAFT'' path (rv_draftPaths v) of
            Some e \<Rightarrow> Inl e
          | None \<Rightarrow> Inr (v\<lparr>rv_modelPaths := rv_modelPaths v @ [path],
              rv_req := (rv_req v)\<lparr>cr_Files := add_files (cr_Files (rv_req v)) digestMap\<rparr>\<rparr>))))"

definition request_draft :: "machine_env \<Rightarrow> string \<Rightarrow> string \<Rightarrow> ('f, 'a) request_vars
    \<Rightarrow> request_error + ('f, 'a) request_vars" where
  "request_draft env relativeDir args v =
     (case expandPath env args relativeDir of
        Inl e \<Rightarrow> Inl e
      | Inr path \<Rightarrow> (case fileDigestMap env path of
          Inl e \<Rightarrow> Inl e
        | Inr digestMap \<Rightarrow> (case rejectMatchingLocalPath env ''DRAFT'' path (rv_modelPaths v) of
            Some e \<Rightarrow> Inl e
          | None \<Rightarrow> Inr (v\<lparr>rv_draftPaths := rv_draftPaths v @ [path],
              rv_req := (rv_req v)\<lparr>cr_DraftFiles := add_files (cr_DraftFiles (rv_req v)) digestMap\<rparr>\<rparr>))))"

definition request_adapter :: "machine_env \<Rightarrow> string \<Rightarrow> string \<Rightarrow> ('f, 'a) request_vars
    \<Rightarrow> request_error + ('f, 'a) request_vars" where
  "request_adapter env relativeDir args v =
     (case expandPath env args relativeDir of
        Inl e \<Rightarrow> Inl e
      | Inr path \<Rightarrow> (case fileDigestMap env path of
          Inl e \<Rightarrow> Inl e
        | Inr digestMap \<Rightarrow> Inr (v\<lparr>rv_req := (rv_req v)\<lparr>cr_Adapters := Some digestMap\<rparr>\<rparr>)))"

definition request_requires :: "machine_env \<Rightarrow> string \<Rightarrow> ('f, 'a) request_vars
    \<Rightarrow> request_error + ('f, 'a) request_vars" where
  "request_requires env args v =
     (let requires = (if \<not> has_prefix args ''v'' then ''v'' @ args else args) in
      if \<not> me_valid_semver env requires then Inl BadVersion
      else Inr (v\<lparr>rv_req := (rv_req v)\<lparr>cr_Requires := trim_prefix requires ''v''\<rparr>\<rparr>))"

definition request_parameter :: "'f floats \<Rightarrow> mf_command \<Rightarrow> ('f, 'a) request_vars
    \<Rightarrow> request_error + ('f, 'a) request_vars" where
  "request_parameter fl c v =
     (if cmd_name c \<in> set deprecatedParameters then Inr v
      else case FormatParams fl [(cmd_name c, [cmd_args c])] of
        Inl e \<Rightarrow> Inl (BadParameter e)
      | Inr ps \<Rightarrow> (case ps (cmd_name c) of
          None \<Rightarrow> Inr v
        | Some x \<Rightarrow> Inr (v\<lparr>rv_params := merge_param (rv_params v) (cmd_name c) x\<rparr>)))"

definition request_step :: "machine_env \<Rightarrow> 'f floats \<Rightarrow> string \<Rightarrow> mf_command \<Rightarrow> ('f, 'a) request_vars
    \<Rightarrow> request_error + ('f, 'a) request_vars" where
  "request_step env fl relativeDir c v =
     (let req = rv_req v; args = cmd_args c in
      if cmd_name c = ''model'' then request_model env relativeDir args v
      else if cmd_name c = ''draft'' then request_draft env relativeDir args v
      else if cmd_name c = ''adapter'' then request_adapter env relativeDir args v
      else if cmd_name c = ''template'' then Inr (v\<lparr>rv_req := req\<lparr>cr_Template := args\<rparr>\<rparr>)
      else if cmd_name c = ''system'' then Inr (v\<lparr>rv_req := req\<lparr>cr_System := args\<rparr>\<rparr>)
      else if cmd_name c = ''license'' then Inr (v\<lparr>rv_licenses := rv_licenses v @ [args]\<rparr>)
      else if cmd_name c = ''renderer'' then Inr (v\<lparr>rv_req := req\<lparr>cr_Renderer := args\<rparr>\<rparr>)
      else if cmd_name c = ''parser'' then Inr (v\<lparr>rv_req := req\<lparr>cr_Parser := args\<rparr>\<rparr>)
      else if cmd_name c = ''requires'' then request_requires env args v
      else if cmd_name c = ''message''
      then (case cut args '': '' of
              (role, msg, _) \<Rightarrow> Inr (v\<lparr>rv_messages := rv_messages v @ [plain_message role msg]\<rparr>))
      else request_parameter fl c v)"

fun request_steps :: "machine_env \<Rightarrow> 'f floats \<Rightarrow> string \<Rightarrow> modelfile \<Rightarrow> ('f, 'a) request_vars
    \<Rightarrow> request_error + ('f, 'a) request_vars" where
  "request_steps env fl relativeDir [] v = Inr v"
| "request_steps env fl relativeDir (c # f) v =
     (case request_step env fl relativeDir c v of
        Inl e \<Rightarrow> Inl e
      | Inr v' \<Rightarrow> request_steps env fl relativeDir f v')"

definition request_finish :: "('f, 'a) request_vars \<Rightarrow> ('f, 'a) create_request" where
  "request_finish v = (rv_req v)\<lparr>
     cr_Parameters := (if 0 < length (rv_params v) then Some (rv_params v) else cr_Parameters (rv_req v)),
     cr_Messages := (if 0 < length (rv_messages v) then Some (rv_messages v) else cr_Messages (rv_req v)),
     cr_License := (if 0 < length (rv_licenses v) then Some (rv_licenses v) else cr_License (rv_req v))\<rparr>"

definition CreateRequest :: "machine_env \<Rightarrow> 'f floats \<Rightarrow> string \<Rightarrow> modelfile
    \<Rightarrow> request_error + ('f, 'a) create_request" where
  "CreateRequest env fl relativeDir f =
     (case request_steps env fl relativeDir f request_init of
        Inl e \<Rightarrow> Inl e
      | Inr v \<Rightarrow> Inr (request_finish v))"
section \<open>A draft is not the model\<close>

definition canonical :: "machine_env \<Rightarrow> string \<Rightarrow> string option" where
  "canonical env path = (case canonicalLocalPath env path of Inl e \<Rightarrow> None | Inr p \<Rightarrow> Some p)"

definition apart :: "machine_env \<Rightarrow> string \<Rightarrow> string \<Rightarrow> bool" where
  "apart env p q \<longleftrightarrow> canonical env p \<noteq> None \<and> canonical env q \<noteq> None \<and> canonical env p \<noteq> canonical env q"

lemma apart_sym: "apart env p q \<Longrightarrow> apart env q p"
  by (auto simp: apart_def)

lemma rejectMatchingLocalPath_None:
  "rejectMatchingLocalPath env name path existing = None \<Longrightarrow> q \<in> set existing \<Longrightarrow> apart env path q"
  by (induction existing)
    (auto simp: sameLocalPath_def apart_def canonical_def split: sum.splits if_splits)

lemma rejectMatchingLocalPath_None':
  "rejectMatchingLocalPath env name path existing = None \<Longrightarrow> q \<in> set existing \<Longrightarrow> apart env q path"
  by (blast intro: apart_sym rejectMatchingLocalPath_None)

text \<open>The local paths of the commands with the name \<open>n\<close>.\<close>

definition local_path :: "machine_env \<Rightarrow> string \<Rightarrow> string \<Rightarrow> mf_command \<Rightarrow> string \<Rightarrow> bool" where
  "local_path env relativeDir n c path \<longleftrightarrow> cmd_name c = n \<and> expandPath env (cmd_args c) relativeDir = Inr path
     \<and> (\<exists>m. fileDigestMap env path = Inr m)"

definition paths_ok :: "machine_env \<Rightarrow> string \<Rightarrow> modelfile \<Rightarrow> ('f, 'a) request_vars \<Rightarrow> bool" where
  "paths_ok env relativeDir f v \<longleftrightarrow>
     (\<forall>p \<in> set (rv_modelPaths v). \<forall>q \<in> set (rv_draftPaths v). apart env p q)
     \<and> (\<forall>c \<in> set f. \<forall>p. local_path env relativeDir ''model'' c p \<longrightarrow> p \<in> set (rv_modelPaths v))
     \<and> (\<forall>c \<in> set f. \<forall>p. local_path env relativeDir ''draft'' c p \<longrightarrow> p \<in> set (rv_draftPaths v))"

lemma request_step_paths:
  assumes "request_step env fl relativeDir c v = Inr v'" "cmd_name c \<noteq> ''model''" "cmd_name c \<noteq> ''draft''"
  shows "rv_modelPaths v' = rv_modelPaths v \<and> rv_draftPaths v' = rv_draftPaths v"
  using assms
  by (auto simp: request_step_def request_adapter_def request_requires_def request_parameter_def Let_def
      split: sum.splits if_splits prod.splits option.splits)

lemma paths_ok_step:
  assumes "paths_ok env relativeDir f v" "request_step env fl relativeDir c v = Inr v'"
  shows "paths_ok env relativeDir (f @ [c]) v'"
proof -
  consider "cmd_name c = ''model''" | "cmd_name c = ''draft''" | "cmd_name c \<noteq> ''model''" "cmd_name c \<noteq> ''draft''"
    by auto
  then show ?thesis
  proof cases
    case 1
    then have "request_model env relativeDir (cmd_args c) v = Inr v'"
      using assms(2) by (simp add: request_step_def Let_def)
    with 1 assms(1) show ?thesis
      by (auto simp: request_model_def paths_ok_def local_path_def
          split: sum.splits option.splits if_splits
          dest: rejectMatchingLocalPath_None)
  next
    case 2
    then have "request_draft env relativeDir (cmd_args c) v = Inr v'"
      using assms(2) by (simp add: request_step_def Let_def)
    with 2 assms(1) show ?thesis
      by (auto simp: request_draft_def paths_ok_def local_path_def
          split: sum.splits option.splits
          dest: rejectMatchingLocalPath_None')
  next
    case 3
    with request_step_paths [OF assms(2)] assms(1) show ?thesis
      by (auto simp: paths_ok_def local_path_def)
  qed
qed

lemma paths_ok_steps:
  "paths_ok env relativeDir f v \<Longrightarrow> request_steps env fl relativeDir g v = Inr v'
     \<Longrightarrow> paths_ok env relativeDir (f @ g) v'"
proof (induction g arbitrary: f v)
  case (Cons c g)
  then obtain v1 where "request_step env fl relativeDir c v = Inr v1" "request_steps env fl relativeDir g v1 = Inr v'"
    by (auto split: sum.splits)
  with Cons.IH [of "f @ [c]" v1] Cons.prems(1) show ?case by (auto dest: paths_ok_step)
qed simp

text \<open>
  C22. When a request is made from a Modelfile, no local \<^verbatim>\<open>DRAFT\<close> path leads to the same file or
  directory as a local \<^verbatim>\<open>FROM\<close> path, in whatever order the commands come.
\<close>

theorem draft_is_not_model:
  fixes req :: "('f, 'a) create_request"
  assumes "CreateRequest env fl relativeDir f = Inr req"
    "c \<in> set f" "local_path env relativeDir ''model'' c p"
    "d \<in> set f" "local_path env relativeDir ''draft'' d q"
  shows "\<exists>a b. canonicalLocalPath env p = Inr a \<and> canonicalLocalPath env q = Inr b \<and> a \<noteq> b"
proof -
  obtain v :: "('f, 'a) request_vars" where "request_steps env fl relativeDir f request_init = Inr v"
    using assms(1) by (auto simp: CreateRequest_def split: sum.splits)
  moreover have "paths_ok env relativeDir [] (request_init :: ('f, 'a) request_vars)"
    by (simp add: paths_ok_def request_init_def)
  ultimately have "paths_ok env relativeDir f v" using paths_ok_steps [of _ _ "[]"] by fastforce
  with assms(2-5) have "apart env p q" by (simp add: paths_ok_def)
  then show ?thesis by (auto simp: apart_def canonical_def split: sum.splits)
qed

text \<open>A machine where every path is a file.\<close>

definition demo_env :: machine_env where
  "demo_env = \<lparr>me_home = Some ''/home/u'', me_user_home = (\<lambda>_. None), me_cwd = Some ''/w'',
     me_stat = (\<lambda>p. Inr (p = ''/w/dir'')), me_symlinks = Inr, me_glob = (\<lambda>p. Some (if p = ''/w/dir/*.gguf'' then [''/w/dir/a.gguf''] else [])),
     me_content_type = (\<lambda>_. Inr ''application/octet-stream''), me_digest = (\<lambda>p. Inr (''sha256:'' @ p)), me_finish = rev,
     me_valid_semver = (\<lambda>_. True)\<rparr>"

theorem draft_is_not_model_witness:
  "\<exists>a b. canonicalLocalPath demo_env ''/w/m.gguf'' = Inr a \<and> canonicalLocalPath demo_env ''/w/d.gguf'' = Inr b \<and> a \<noteq> b"
proof -
  let ?c = "\<lparr>cmd_name = ''model'', cmd_args = ''./m.gguf''\<rparr>"
  let ?d = "\<lparr>cmd_name = ''draft'', cmd_args = ''../w/d.gguf''\<rparr>"
  let ?r = "CreateRequest demo_env int_floats ''/w'' [?c, ?d] :: request_error + (int option, unit) create_request"
  have "\<not> isl ?r" by code_simp
  then obtain req where "?r = Inr req" by (cases ?r) auto
  then show ?thesis
  proof (rule draft_is_not_model [where c = "?c" and d = "?d"])
    have m: "expandPath demo_env ''./m.gguf'' ''/w'' = Inr ''/w/m.gguf''"
      "\<not> isl (fileDigestMap demo_env ''/w/m.gguf'')"
      "expandPath demo_env ''../w/d.gguf'' ''/w'' = Inr ''/w/d.gguf''"
      "\<not> isl (fileDigestMap demo_env ''/w/d.gguf'')"
      by code_simp+
    show "local_path demo_env ''/w'' ''model'' ?c ''/w/m.gguf''" "local_path demo_env ''/w'' ''draft'' ?d ''/w/d.gguf''"
      using m by (simp_all add: local_path_def) (auto simp: isl_def split: sum.splits; meson sum.exhaust_sel)+
  qed simp_all
qed

section \<open>The files of a directory\<close>

lemma clean_up: "out \<noteq> [] \<Longrightarrow> hd out = ''..'' \<Longrightarrow>
  foldl (clean_step False) out es \<noteq> [] \<and> hd (foldl (clean_step False) out es) = ''..''"
proof (induction es arbitrary: out)
  case (Cons e es)
  have "clean_step False out e \<noteq> [] \<and> hd (clean_step False out e) = ''..''"
    using Cons.prems by (cases out; cases "tl out" rule: rev_cases) auto
  then show ?case using Cons.IH by (simp del: clean_step.simps)
qed simp

lemma split_all_slash: "split_all (''..'' @ ''/'' @ rest) ''/'' = ''..'' # split_all rest ''/''"
  by (subst split_all.simps) (simp add: numeral_eq_Suc)

lemma upwards_not_local: "\<not> is_local (join ''/'' (''..'' # ts))"
proof (cases ts)
  case Nil
  have "\<not> is_local ''..''" by code_simp
  with Nil show ?thesis by simp
next
  case (Cons t ts')
  let ?rest = "join ''/'' ts"
  have j: "join ''/'' (''..'' # ts) = ''..'' @ ''/'' @ ?rest" using Cons by simp
  define out where "out = foldl (clean_step False) [''..''] (split_all ?rest ''/'')"
  have o: "out \<noteq> [] \<and> hd out = ''..''" unfolding out_def by (rule clean_up) simp_all
  have c: "clean_step False [] ''..'' = [''..'']" by simp
  have "path_clean (''..'' @ ''/'' @ ?rest) = join ''/'' out"
    using o unfolding path_clean_def split_all_slash foldl.simps c Let_def
    by (simp add: has_prefix_def c flip: out_def)
  moreover have "join ''/'' out = ''..'' \<or> has_prefix (join ''/'' out) ''../''"
    using o by (cases out; cases "tl out") (auto simp: has_prefix_def)
  ultimately show ?thesis unfolding j is_local_def Let_def by auto
qed

lemma strip_common_prefix: "strip_common bs ts = ([], us) \<Longrightarrow> ts = bs @ us"
  by (induction bs ts rule: strip_common.induct) (auto split: if_splits)

text \<open>A path below a directory: its elements begin with those of the directory.\<close>

definition below :: "string \<Rightarrow> string \<Rightarrow> bool" where
  "below dir f \<longleftrightarrow> path_clean f = path_clean dir
     \<or> (has_prefix f ''/'' = has_prefix dir ''/'' \<and> prefix (path_elems dir) (path_elems f))"

lemma local_below:
  assumes "path_rel dir f = Inr rel" "is_local rel"
  shows "below dir f"
proof (cases "path_clean f = path_clean dir")
  case False
  with assms(1) obtain bs ts where *: "has_prefix dir ''/'' = has_prefix f ''/''"
      "strip_common (path_elems dir) (path_elems f) = (bs, ts)"
      "rel = join ''/'' (replicate (length bs) ''..'' @ ts)"
    by (auto simp: path_rel_def split: if_splits prod.splits)
  have "bs = []"
  proof (rule ccontr)
    assume "bs \<noteq> []"
    then have "replicate (length bs) ''..'' @ ts = ''..'' # (replicate (length bs - 1) ''..'' @ ts)"
      by (cases bs) simp_all
    with * (3) assms(2) upwards_not_local show False by metis
  qed
  with * show ?thesis by (auto simp: below_def dest!: strip_common_prefix)
qed (simp add: below_def)

lemma resolve_files_below: "resolve_files env dir fs = Inr files \<Longrightarrow> f \<in> set files \<Longrightarrow> below dir f"
  by (induction fs arbitrary: files) (auto split: sum.splits if_splits dest: local_below)

lemma digest_files_dom: "digest_files env fs = Inr m \<Longrightarrow> dom m = set fs"
proof (induction fs arbitrary: m)
  case (Cons f fs)
  then obtain d m' where "digest_files env fs = Inr m'" "m = m'(f \<mapsto> d)" by (auto split: sum.splits)
  with Cons.IH show ?case by (metis dom_fun_upd list.simps(15) option.distinct(1))
qed simp

definition lawful_finish :: "machine_env \<Rightarrow> bool" where
  "lawful_finish env \<longleftrightarrow> (\<forall>fs. mset (me_finish env fs) = mset fs)"

lemma resolve_files_set:
  "resolve_files env path fs = Inr files \<Longrightarrow> set files = {g. \<exists>f \<in> set fs. me_symlinks env f = Inr g}"
  by (induction fs arbitrary: files) (auto split: sum.splits if_splits)

lemma digest_files_digest: "digest_files env gs = Inr m \<Longrightarrow> m g = Some d \<Longrightarrow> digestForFile env g = Inr d"
  by (induction gs arbitrary: m) (auto split: sum.splits if_splits)

text \<open>
  C21. The files of a model directory that are named in a request: the paths are exactly those the
  files chosen for the model lead to once links have been followed; each lies below the directory, and
  comes with the digest of its content, in whatever order the goroutines finish.
\<close>

theorem digest_map_below:
  assumes "fileDigestMap env path = Inr m" "me_stat env path = Inr True" "lawful_finish env"
  shows "\<exists>fs. filesForModel env path = Inr fs
    \<and> dom m = {g. \<exists>f \<in> set fs. me_symlinks env f = Inr g}
    \<and> (\<forall>f d. m f = Some d \<longrightarrow> below path f \<and> digestForFile env f = Inr d)"
proof -
  obtain fs files where fs: "filesForModel env path = Inr fs" "resolve_files env path fs = Inr files"
      "digest_files env (me_finish env files) = Inr m"
    using assms(1,2) by (auto simp: fileDigestMap_def split: sum.splits)
  have "set (me_finish env files) = set files"
    using assms(3) by (metis lawful_finish_def mset_eq_setD)
  with digest_files_dom [OF fs(3)] have dom: "dom m = set files" by simp
  have "below path f \<and> digestForFile env f = Inr d" if "m f = Some d" for f d
    using dom that resolve_files_below [OF fs(2)] digest_files_digest [OF fs(3) that] by blast
  with fs(1) dom resolve_files_set [OF fs(2)] show ?thesis by auto
qed

theorem digest_map_below_witness:
  "\<exists>fs m. fileDigestMap demo_env ''/w/dir'' = Inr m \<and> filesForModel demo_env ''/w/dir'' = Inr fs
    \<and> ''/w/dir/a.gguf'' \<in> dom m \<and> dom m = {g. \<exists>f \<in> set fs. me_symlinks demo_env f = Inr g}
    \<and> below ''/w/dir'' ''/w/dir/a.gguf'' \<and> digestForFile demo_env ''/w/dir/a.gguf'' = Inr ''sha256:/w/dir/a.gguf''"
proof -
  have "case fileDigestMap demo_env ''/w/dir'' of Inl e \<Rightarrow> False | Inr m \<Rightarrow> m ''/w/dir/a.gguf'' = Some ''sha256:/w/dir/a.gguf''"
    and s: "me_stat demo_env ''/w/dir'' = Inr True" by code_simp+
  then obtain m where m: "fileDigestMap demo_env ''/w/dir'' = Inr m" "m ''/w/dir/a.gguf'' = Some ''sha256:/w/dir/a.gguf''"
    by (auto split: sum.splits)
  have l: "lawful_finish demo_env" by (simp add: lawful_finish_def demo_env_def)
  from digest_map_below [OF m(1) s l] m show ?thesis by blast
qed

section \<open>What a request collects\<close>

definition args_of :: "string \<Rightarrow> modelfile \<Rightarrow> string list" where
  "args_of n f = map cmd_args (filter (\<lambda>c. cmd_name c = n) f)"

lemma args_of_snoc: "args_of n (f @ [c]) = args_of n f @ (if cmd_name c = n then [cmd_args c] else [])"
  by (simp add: args_of_def)

definition last_or :: "string list \<Rightarrow> string" where
  "last_or xs = (if xs = [] then [] else last xs)"

text \<open>The message of a \<^verbatim>\<open>MESSAGE\<close> command.\<close>

definition message_of :: "string \<Rightarrow> 'a message" where
  "message_of args = (case cut args '': '' of (role, msg, _) \<Rightarrow> plain_message role msg)"

lemmas request_step_defs = request_step_def request_model_def request_draft_def request_adapter_def
  request_requires_def request_parameter_def Let_def

lemma request_step_licenses:
  "request_step env fl relativeDir c v = Inr v' \<Longrightarrow>
     rv_licenses v' = rv_licenses v @ (if cmd_name c = ''license'' then [cmd_args c] else [])"
  by (auto simp: request_step_defs split: sum.splits if_splits prod.splits option.splits)

lemma request_step_messages:
  "request_step env fl relativeDir c v = Inr v' \<Longrightarrow>
     rv_messages v' = rv_messages v @ (if cmd_name c = ''message'' then [message_of (cmd_args c)] else [])"
  by (auto simp: request_step_defs message_of_def split: sum.splits if_splits prod.splits option.splits)

lemma request_step_system:
  "request_step env fl relativeDir c v = Inr v' \<Longrightarrow>
     cr_System (rv_req v') = (if cmd_name c = ''system'' then cmd_args c else cr_System (rv_req v))
     \<and> cr_Template (rv_req v') = (if cmd_name c = ''template'' then cmd_args c else cr_Template (rv_req v))"
  by (auto simp: request_step_defs split: sum.splits if_splits prod.splits option.splits)

text \<open>The stop words so far.\<close>

definition stop_words :: "(string \<times> 'f go_value) list \<Rightarrow> string list option" where
  "stop_words params = (case map_of params ''stop'' of Some (GStrings ss) \<Rightarrow> Some ss | _ \<Rightarrow> None)"

lemma merge_param_other: "k \<noteq> n \<Longrightarrow> map_of (merge_param params k v) n = map_of params n"
  by (auto simp: merge_param_def update_conv' split: option.splits go_value.splits)

lemma merge_param_stop:
  "map_of (merge_param params k (GStrings us)) k = Some (GStrings
     ((case map_of params k of Some (GStrings ss) \<Rightarrow> ss | _ \<Rightarrow> []) @ us))"
  by (auto simp: merge_param_def update_conv' split: option.splits go_value.splits)

lemma stop_kind: "''stop'' \<notin> set deprecatedParameters" "map_of json_opts ''stop'' = Some KSlice"
  by code_simp+

lemma request_step_stop:
  assumes "request_step env fl relativeDir c v = Inr v'"
  shows "map_of (rv_params v') ''stop'' = (if cmd_name c = ''stop''
     then Some (GStrings ((case map_of (rv_params v) ''stop'' of Some (GStrings ss) \<Rightarrow> ss | _ \<Rightarrow> []) @ [cmd_args c]))
     else map_of (rv_params v) ''stop'')"
proof (cases "cmd_name c = ''stop''")
  case True
  then have "request_parameter fl c v = Inr v'" using assms by (simp add: request_step_def Let_def)
  then have "v' = v\<lparr>rv_params := merge_param (rv_params v) ''stop'' (GStrings [cmd_args c])\<rparr>"
    using True stop_kind by (simp add: request_parameter_def format_value_def)
  with True show ?thesis by (simp add: merge_param_stop)
next
  case False
  with assms show ?thesis
    by (auto simp: request_step_defs merge_param_other split: sum.splits if_splits prod.splits option.splits)
qed

definition collected :: "modelfile \<Rightarrow> ('f, 'a) request_vars \<Rightarrow> bool" where
  "collected f v \<longleftrightarrow> rv_licenses v = args_of ''license'' f
     \<and> rv_messages v = map message_of (args_of ''message'' f)
     \<and> cr_System (rv_req v) = last_or (args_of ''system'' f)
     \<and> cr_Template (rv_req v) = last_or (args_of ''template'' f)
     \<and> map_of (rv_params v) ''stop''
         = (if args_of ''stop'' f = [] then None else Some (GStrings (args_of ''stop'' f)))"

lemma collected_step:
  assumes "collected f v" "request_step env fl relativeDir c v = Inr v'"
  shows "collected (f @ [c]) v'"
  using assms(1) request_step_licenses [OF assms(2)] request_step_messages [OF assms(2)]
    request_step_system [OF assms(2)] request_step_stop [OF assms(2)]
  unfolding collected_def args_of_snoc by (auto simp: last_or_def)

lemma collected_steps:
  "collected f v \<Longrightarrow> request_steps env fl relativeDir g v = Inr v' \<Longrightarrow> collected (f @ g) v'"
proof (induction g arbitrary: f v)
  case (Cons c g)
  then obtain v1 where "request_step env fl relativeDir c v = Inr v1" "request_steps env fl relativeDir g v1 = Inr v'"
    by (auto split: sum.splits)
  with Cons.IH [of "f @ [c]" v1] Cons.prems(1) show ?case by (auto dest: collected_step)
qed simp

text \<open>
  C30. A request collects all licenses, messages and stop words of the Modelfile in their order; of
  \<^verbatim>\<open>SYSTEM\<close> and \<^verbatim>\<open>TEMPLATE\<close> the last one counts.
\<close>

theorem request_collects:
  fixes req :: "('f, 'a) create_request"
  assumes "CreateRequest env fl relativeDir f = Inr req"
  shows "cr_System req = last_or (args_of ''system'' f) \<and> cr_Template req = last_or (args_of ''template'' f)
    \<and> cr_License req = (if args_of ''license'' f = [] then None else Some (args_of ''license'' f))
    \<and> cr_Messages req = (if args_of ''message'' f = [] then None else Some (map message_of (args_of ''message'' f)))
    \<and> (args_of ''stop'' f \<noteq> [] \<longrightarrow> (\<exists>params. cr_Parameters req = Some params
         \<and> map_of params ''stop'' = Some (GStrings (args_of ''stop'' f))))"
proof -
  obtain v :: "('f, 'a) request_vars" where v: "request_steps env fl relativeDir f request_init = Inr v"
      "req = request_finish v"
    using assms(1) by (auto simp: CreateRequest_def split: sum.splits)
  have "collected [] (request_init :: ('f, 'a) request_vars)"
    by (simp add: collected_def request_init_def args_of_def last_or_def)
  with collected_steps v(1) have c: "collected f v" by fastforce
  have n: "cr_License (rv_req v) = None \<and> cr_Messages (rv_req v) = None"
    using v(1)
  proof -
    have step: "cr_License (rv_req w') = cr_License (rv_req w) \<and> cr_Messages (rv_req w') = cr_Messages (rv_req w)"
      if "request_step env fl relativeDir d w = Inr w'" for d and w w' :: "('f, 'a) request_vars"
      using that by (auto simp: request_step_defs split: sum.splits if_splits prod.splits option.splits)
    have "cr_License (rv_req w') = cr_License (rv_req w) \<and> cr_Messages (rv_req w') = cr_Messages (rv_req w)"
      if "request_steps env fl relativeDir g w = Inr w'" for g and w w' :: "('f, 'a) request_vars"
      using that by (induction g arbitrary: w) (auto split: sum.splits dest: step)
    from this [OF v(1)] show ?thesis by (simp add: request_init_def)
  qed
  have p: "map_of ps k = Some x \<Longrightarrow> 0 < length ps" for ps :: "(string \<times> 'f go_value) list" and k x
    by (cases ps) auto
  from c n show ?thesis unfolding v(2) request_finish_def collected_def by (auto dest: p)
qed

theorem request_collects_witness:
  "let f = [\<lparr>cmd_name = ''model'', cmd_args = ''m''\<rparr>, \<lparr>cmd_name = ''stop'', cmd_args = ''a''\<rparr>,
            \<lparr>cmd_name = ''system'', cmd_args = ''x''\<rparr>, \<lparr>cmd_name = ''license'', cmd_args = ''MIT''\<rparr>,
            \<lparr>cmd_name = ''stop'', cmd_args = ''b''\<rparr>];
       res = CreateRequest demo_env int_floats ''/w'' f :: request_error + (int option, unit) create_request in
   \<exists>req. res = Inr req \<and> cr_System req = ''x'' \<and> cr_License req = Some [''MIT'']
     \<and> (\<exists>params. cr_Parameters req = Some params \<and> map_of params ''stop'' = Some (GStrings [''a'', ''b'']))"
proof -
  let ?f = "[\<lparr>cmd_name = ''model'', cmd_args = ''m''\<rparr>, \<lparr>cmd_name = ''stop'', cmd_args = ''a''\<rparr>,
            \<lparr>cmd_name = ''system'', cmd_args = ''x''\<rparr>, \<lparr>cmd_name = ''license'', cmd_args = ''MIT''\<rparr>,
            \<lparr>cmd_name = ''stop'', cmd_args = ''b''\<rparr>]"
  let ?r = "CreateRequest demo_env int_floats ''/w'' ?f :: request_error + (int option, unit) create_request"
  have "\<not> isl ?r" by code_simp
  then obtain req where r: "?r = Inr req" by (cases ?r) auto
  from request_collects [OF r] r show ?thesis by (auto simp: args_of_def last_or_def)
qed

section \<open>A broken link in a model directory\<close>

text \<open>The error of a file inside of the directory says that it does not exist, and \<^verbatim>\<open>CreateRequest\<close> takes it
  for the absence of the directory: the path becomes the name of a model and no files are sent.\<close>

lemma broken_link_hides_model:
  "let env = demo_env\<lparr>me_glob := (\<lambda>p. Some (if p = ''/w/dir/*.gguf'' then [''/w/dir/a.gguf'']
                                            else if p = ''/w/dir/*.json'' then [''/w/dir/config.json''] else [])),
       me_content_type := (\<lambda>p. if p = ''/w/dir/config.json'' then Inl NotExist else Inr ''application/octet-stream'')\<rparr>;
       res = CreateRequest env int_floats ''/w'' [\<lparr>cmd_name = ''model'', cmd_args = ''./dir''\<rparr>]
         :: request_error + (int option, unit) create_request in
   case res of Inl e \<Rightarrow> False | Inr req \<Rightarrow> cr_From req = ''./dir'' \<and> cr_Files req = None"
  unfolding Let_def by code_simp
end
