(* ===== verification/Tools.thy ===== *)
theory Tools
  imports Streaming ApiTypes Runes
begin

text \<open>
  The parser of tool calls that is derived from a chat template (\<^verbatim>\<open>tools/tools.go\<close>,
  \<^verbatim>\<open>tools/template.go\<close>): the search for the tag in the template, the passing on of content up to the
  tag, and the reading of calls from the text behind it. \<^verbatim>\<open>json.Unmarshal\<close> is the parameter
  \<open>unmarshal\<close>: \<^const>\<open>None\<close> is an error, \<open>Some None\<close> a nil map, and a map is listed in the order in
  which \<^verbatim>\<open>range\<close> iterates over it.
\<close>

type_synonym json_map = "(string \<times> any) list"
type_synonym unmarshal = "string \<Rightarrow> json_map option option"

section \<open>The tag of a template\<close>

text \<open>The nodes of a parsed template. An argument in the pipeline of a node is the path of a field
  or, as \<^const>\<open>None\<close>, something else.\<close>

type_synonym pipe = "string list option list list"

datatype tmpl_node =
    TextNode string
  | IfNode pipe "tmpl_node list" "tmpl_node list option"
  | RangeNode "tmpl_node list" "tmpl_node list option"
  | WithNode "tmpl_node list" "tmpl_node list option"
  | ListNode "tmpl_node list"
  | ActionNode
  | OtherNode

definition isToolCallsNode :: "pipe \<Rightarrow> bool" where
  "isToolCallsNode cmds \<longleftrightarrow>
     (\<exists>args \<in> set cmds. \<exists>arg \<in> set args. case arg of None \<Rightarrow> False | Some ident \<Rightarrow> ''ToolCalls'' \<in> set ident)"

text \<open>Of the node that is found only the list of its first branch is used.\<close>

fun findToolCallNode :: "tmpl_node list \<Rightarrow> tmpl_node list option" where
  "findToolCallNode [] = None"
| "findToolCallNode (IfNode p l e # ns) =
     (if isToolCallsNode p then Some l
      else case findToolCallNode l of Some r \<Rightarrow> Some r
        | None \<Rightarrow> (case (case e of Some els \<Rightarrow> findToolCallNode els | None \<Rightarrow> None) of Some r \<Rightarrow> Some r
          | None \<Rightarrow> findToolCallNode ns))"
| "findToolCallNode (ListNode l # ns) =
     (case findToolCallNode l of Some r \<Rightarrow> Some r | None \<Rightarrow> findToolCallNode ns)"
| "findToolCallNode (RangeNode l e # ns) =
     (case findToolCallNode l of Some r \<Rightarrow> Some r
        | None \<Rightarrow> (case (case e of Some els \<Rightarrow> findToolCallNode els | None \<Rightarrow> None) of Some r \<Rightarrow> Some r
          | None \<Rightarrow> findToolCallNode ns))"
| "findToolCallNode (WithNode l e # ns) =
     (case findToolCallNode l of Some r \<Rightarrow> Some r
        | None \<Rightarrow> (case (case e of Some els \<Rightarrow> findToolCallNode els | None \<Rightarrow> None) of Some r \<Rightarrow> Some r
          | None \<Rightarrow> findToolCallNode ns))"
| "findToolCallNode (_ # ns) = findToolCallNode ns"

fun findTextNode :: "tmpl_node list \<Rightarrow> string option" where
  "findTextNode [] = None"
| "findTextNode (TextNode t # ns) = (if length (trim_space t) = 0 then findTextNode ns else Some t)"
| "findTextNode (IfNode p l e # ns) =
     (case findTextNode l of Some t \<Rightarrow> Some t
      | None \<Rightarrow> (case e of Some els \<Rightarrow> findTextNode els | None \<Rightarrow> None))"
| "findTextNode (ListNode l # ns) =
     (case findTextNode l of Some t \<Rightarrow> Some t | None \<Rightarrow> findTextNode ns)"
| "findTextNode (RangeNode l e # ns) =
     (case findTextNode l of Some t \<Rightarrow> Some t
      | None \<Rightarrow> (case e of Some els \<Rightarrow> findTextNode els | None \<Rightarrow> None))"
| "findTextNode (WithNode l e # ns) =
     (case findTextNode l of Some t \<Rightarrow> Some t
      | None \<Rightarrow> (case e of Some els \<Rightarrow> findTextNode els | None \<Rightarrow> None))"
| "findTextNode (ActionNode # ns) = None"
| "findTextNode (OtherNode # ns) = findTextNode ns"

text \<open>A template without a tree is \<^const>\<open>None\<close>.\<close>

definition parseTag :: "tmpl_node list option \<Rightarrow> string" where
  "parseTag tmpl = (case tmpl of
     None \<Rightarrow> ''{''
   | Some nodes \<Rightarrow> (case findToolCallNode nodes of
       None \<Rightarrow> ''{''
     | Some tc \<Rightarrow> (case findTextNode tc of
         None \<Rightarrow> ''{''
       | Some tn \<Rightarrow>
           (let tag = trim_space (fst (cut (replace_all tn [CHR 0x0D, CHR 0x0A] [CHR 0x0A]) ''{''))
            in if tag = [] then ''{'' else tag))))"

section \<open>The parser\<close>

datatype tools_state = LookingForTag | ToolCalling | Done

record tool_parser =
  tp_tag :: string
  tp_tools :: "tool list"
  tp_state :: tools_state
  tp_buffer :: string
  tp_n :: nat

definition NewParserWithTag :: "tool list \<Rightarrow> string \<Rightarrow> tool_parser" where
  "NewParserWithTag tools tag =
     \<lparr>tp_tag = tag, tp_tools = tools, tp_state = LookingForTag, tp_buffer = [], tp_n = 0\<rparr>"

definition NewParser :: "tmpl_node list option \<Rightarrow> tool list \<Rightarrow> tool_parser" where
  "NewParser tmpl tools = NewParserWithTag tools (parseTag tmpl)"

text \<open>The position of the tag or of its beginning at the end of the buffer; \<^const>\<open>None\<close> is \<open>-1\<close>. The
  loop is that of \<^verbatim>\<open>overlap\<close>.\<close>

definition findTag :: "tool_parser \<Rightarrow> nat option \<times> bool" where
  "findTag p = (case index (tp_buffer p) (tp_tag p) of
     Some i \<Rightarrow> (Some i, True)
   | None \<Rightarrow>
       let i = overlap_from (tp_buffer p) (tp_tag p) (min (length (tp_buffer p)) (length (tp_tag p))) in
       if 0 < i then (Some (length (tp_buffer p) - i), False) else (None, False))"

subsection \<open>Finding a tool\<close>

text \<open>Whether the buffer ends in a proper, non-empty prefix of the name of a tool.\<close>

definition partial_name :: "tool list \<Rightarrow> string \<Rightarrow> bool" where
  "partial_name tools buf \<longleftrightarrow>
     (let longest = foldl (\<lambda>m t. if length (tool_name t) > length m then tool_name t else m) [] tools in
      \<exists>i \<in> set [1..<Suc (min (length buf) (length longest))]. \<exists>t \<in> set tools.
        let tail = drop (length buf - i) buf in
        length tail < length (tool_name t) \<and> has_prefix (tool_name t) tail)"

text \<open>The loop over the tools, with the tool found so far, its position and its end.\<close>

fun best_tool :: "string \<Rightarrow> (tool \<times> nat \<times> nat) option \<Rightarrow> tool list \<Rightarrow> (tool \<times> nat \<times> nat) option" where
  "best_tool buf found [] = found"
| "best_tool buf found (t # ts) =
     (case index buf (tool_name t) of
        None \<Rightarrow> best_tool buf found ts
      | Some pos \<Rightarrow>
          (case found of
             Some (f, start, _) \<Rightarrow>
               if pos > start then best_tool buf found ts
               else if pos = start \<and> length (tool_name t) \<le> length (tool_name f) then best_tool buf found ts
               else best_tool buf (Some (t, pos, pos + length (tool_name t))) ts
           | None \<Rightarrow> best_tool buf (Some (t, pos, pos + length (tool_name t))) ts))"

definition findTool :: "tool list \<Rightarrow> string \<Rightarrow> (tool \<times> nat) option" where
  "findTool tools buf =
     (if length buf = 0 then None
      else if partial_name tools buf then None
      else case best_tool buf None tools of
        Some (t, _, e) \<Rightarrow> Some (t, e)
      | None \<Rightarrow> None)"

subsection \<open>Finding the arguments\<close>

definition find_map :: "unmarshal \<Rightarrow> string \<Rightarrow> json_map \<Rightarrow> json_map option option" where
  "find_map unmarshal name obj = (case map_of obj name of
     Some (AnyMap args) \<Rightarrow> Some (Some args)
   | Some (AnyString s) \<Rightarrow> unmarshal s
   | _ \<Rightarrow> None)"

text \<open>\<^verbatim>\<open>findObject\<close> and its loops over the entries of a map and the items of a list. \<^const>\<open>None\<close> is
  \<^verbatim>\<open>nil, false\<close>, \<open>Some None\<close> is \<^verbatim>\<open>nil, true\<close>.\<close>

function (sequential) find_object :: "unmarshal \<Rightarrow> string \<Rightarrow> json_map \<Rightarrow> json_map option option"
  and find_in_entries :: "unmarshal \<Rightarrow> string \<Rightarrow> json_map \<Rightarrow> json_map option option"
  and find_in_items :: "unmarshal \<Rightarrow> string \<Rightarrow> any list \<Rightarrow> json_map option option" where
  "find_object unmarshal name obj =
     (if map_of obj ''name'' \<noteq> None then
        (case find_map unmarshal ''arguments'' obj of
           Some args \<Rightarrow> Some args
         | None \<Rightarrow> (case find_map unmarshal ''parameters'' obj of
             Some args \<Rightarrow> Some args
           | None \<Rightarrow> Some None))
      else case find_map unmarshal name obj of
        Some args \<Rightarrow> Some args
      | None \<Rightarrow> find_in_entries unmarshal name obj)"
| "find_in_entries unmarshal name [] = None"
| "find_in_entries unmarshal name ((k, AnyMap child) # es) =
     (case find_object unmarshal name child of
        Some r \<Rightarrow> Some r | None \<Rightarrow> find_in_entries unmarshal name es)"
| "find_in_entries unmarshal name ((k, AnyList items) # es) =
     (case find_in_items unmarshal name items of
        Some r \<Rightarrow> Some r | None \<Rightarrow> find_in_entries unmarshal name es)"
| "find_in_entries unmarshal name (e # es) = find_in_entries unmarshal name es"
| "find_in_items unmarshal name [] = None"
| "find_in_items unmarshal name (AnyMap child # items) =
     (case find_object unmarshal name child of
        Some r \<Rightarrow> Some r | None \<Rightarrow> find_in_items unmarshal name items)"
| "find_in_items unmarshal name (x # items) = find_in_items unmarshal name items"
  by pat_completeness auto
termination
  by (relation "measure (\<lambda>x. case x of
       Inl (_, _, obj) \<Rightarrow> 2 * size_list (size_prod (\<lambda>_. 0) size) obj + 1
     | Inr (Inl (_, _, es)) \<Rightarrow> 2 * size_list (size_prod (\<lambda>_. 0) size) es
     | Inr (Inr (_, _, items)) \<Rightarrow> 2 * size_list size items)") auto

record arg_scan =
  as_start :: "nat option"
  as_braces :: int
  as_inString :: bool
  as_escaped :: bool

text \<open>The loop over the buffer at position \<open>i\<close>. The result is the arguments, \<^const>\<open>None\<close> for nil,
  and the position.\<close>

fun scan_arguments :: "unmarshal \<Rightarrow> string \<Rightarrow> string \<Rightarrow> nat \<Rightarrow> string \<Rightarrow> arg_scan \<Rightarrow> json_map option \<times> nat" where
  "scan_arguments unmarshal name buffer i [] v = (None, 0)"
| "scan_arguments unmarshal name buffer i (c # rest) v =
     (if as_escaped v then scan_arguments unmarshal name buffer (i + 1) rest (v\<lparr>as_escaped := False\<rparr>)
      else if c = CHR 0x5C then scan_arguments unmarshal name buffer (i + 1) rest (v\<lparr>as_escaped := True\<rparr>)
      else if c = CHR 0x22
      then scan_arguments unmarshal name buffer (i + 1) rest (v\<lparr>as_inString := \<not> as_inString v\<rparr>)
      else if as_inString v then scan_arguments unmarshal name buffer (i + 1) rest v
      else if c = CHR ''{'' then
        scan_arguments unmarshal name buffer (i + 1) rest
          (v\<lparr>as_start := (if as_braces v = 0 then Some i else as_start v), as_braces := as_braces v + 1\<rparr>)
      else if c = CHR ''}'' then
        (let b = as_braces v - 1;
             v' = v\<lparr>as_braces := (if b < 0 then 0 else b)\<rparr> in
         case as_start v of
           None \<Rightarrow> scan_arguments unmarshal name buffer (i + 1) rest v'
         | Some start \<Rightarrow>
             if b = 0 then
               (case unmarshal (drop start (take (i + 1) buffer)) of
                  None \<Rightarrow> scan_arguments unmarshal name buffer (i + 1) rest (v'\<lparr>as_start := None\<rparr>)
                | Some data \<Rightarrow>
                    (case (case data of None \<Rightarrow> None | Some obj \<Rightarrow> find_object unmarshal name obj) of
                       Some args \<Rightarrow> (args, i)
                     | None \<Rightarrow> (data, i)))
             else scan_arguments unmarshal name buffer (i + 1) rest v')
      else scan_arguments unmarshal name buffer (i + 1) rest v)"

definition findArguments :: "unmarshal \<Rightarrow> string \<Rightarrow> string \<Rightarrow> json_map option \<times> nat" where
  "findArguments unmarshal name buffer =
     (if length buffer = 0 then (None, 0)
      else scan_arguments unmarshal name buffer 0 buffer
        \<lparr>as_start = None, as_braces = 0, as_inString = False, as_escaped = False\<rparr>)"

subsection \<open>The steps\<close>

text \<open>\<^verbatim>\<open>ToolCallFunctionArguments.Set\<close>: a new key goes to the end, an old one keeps its place.\<close>

fun set_arg :: "json_map \<Rightarrow> string \<Rightarrow> any \<Rightarrow> json_map" where
  "set_arg [] k v = [(k, v)]"
| "set_arg ((l, w) # args) k v = (if l = k then (k, v) # args else (l, w) # set_arg args k v)"

definition parseToolCall :: "unmarshal \<Rightarrow> tool_parser \<Rightarrow> (json_map tool_call \<times> tool_parser) option" where
  "parseToolCall unmarshal p = (case findTool (tp_tools p) (tp_buffer p) of
     None \<Rightarrow> None
   | Some (tool, e0) \<Rightarrow> (case findArguments unmarshal (tool_name tool) (tp_buffer p) of
       (None, _) \<Rightarrow> None
     | (Some argsMap, i) \<Rightarrow>
         let e = (if i > e0 then i else e0);
             args = foldl (\<lambda>a (k, v). set_arg a k v) [] argsMap in
         Some (\<lparr>tc_ID = [], tc_Function = \<lparr>tcf_Index = tp_n p, tcf_Name = tool_name tool, tcf_Arguments = args\<rparr>\<rparr>,
               p\<lparr>tp_n := tp_n p + 1, tp_buffer := drop e (tp_buffer p)\<rparr>)))"

text \<open>The closing scan of \<^verbatim>\<open>done\<close>, with the counter and the flags of strings and escapes.\<close>

fun scan_done :: "char \<Rightarrow> char \<Rightarrow> int \<Rightarrow> bool \<Rightarrow> bool \<Rightarrow> string \<Rightarrow> bool" where
  "scan_done open close count inString escaped [] = False"
| "scan_done open close count inString escaped (c # cs) =
     (if escaped then scan_done open close count inString False cs
      else if c = CHR 0x5C then scan_done open close count inString True cs
      else if c = CHR 0x22 then scan_done open close count (\<not> inString) False cs
      else if inString then scan_done open close count inString False cs
      else if c = open then scan_done open close (count + 1) inString False cs
      else if c = close then
        (if count - 1 = 0 then True else scan_done open close (count - 1) inString False cs)
      else scan_done open close count inString False cs)"

definition parser_done :: "tool_parser \<Rightarrow> bool" where
  "parser_done p =
     (if tp_tag p = ''{'' then scan_done (CHR ''{'') (CHR ''}'') 0 False False (tp_buffer p)
      else if tp_tag p = ''['' then scan_done (CHR ''['') (CHR '']'') 0 False False (tp_buffer p)
      else False)"

text \<open>A call removes at least a character, so the loop over the calls ends.\<close>

text \<open>A step of the scan goes on, or returns at a closing brace of an object that was decoded.\<close>

lemma scan_arguments_step:
  assumes "scan_arguments unmarshal name buffer i (c # rest) v = (Some args, j)"
  shows "(\<exists>v'. scan_arguments unmarshal name buffer (i + 1) rest v' = (Some args, j)
      \<and> (as_start v' = as_start v \<or> as_start v' = None \<or> as_start v' = Some i \<and> c = CHR ''{''))
    \<or> (j = i \<and> c = CHR ''}'' \<and> (\<exists>start obj. as_start v = Some start
         \<and> unmarshal (drop start (take (i + 1) buffer)) = Some (Some obj)
         \<and> (find_object unmarshal name obj = Some (Some args)
            \<or> find_object unmarshal name obj = None \<and> args = obj)))"
proof -
  consider (skip) v' where "scan_arguments unmarshal name buffer i (c # rest) v
        = scan_arguments unmarshal name buffer (i + 1) rest v'" "as_start v' = as_start v \<or> as_start v' = None"
    | (start) v' where "scan_arguments unmarshal name buffer i (c # rest) v
        = scan_arguments unmarshal name buffer (i + 1) rest v'" "as_start v' = as_start v \<or> as_start v' = Some i"
        "c = CHR ''{''"
    | (brace) start data where "c = CHR ''}''" "as_start v = Some start"
        "unmarshal (drop start (take (i + 1) buffer)) = Some data"
        "scan_arguments unmarshal name buffer i (c # rest) v
          = (case (case data of None \<Rightarrow> None | Some obj \<Rightarrow> find_object unmarshal name obj) of
                       Some args \<Rightarrow> (args, i) | None \<Rightarrow> (data, i))"
  proof (cases "as_escaped v \<or> c = CHR 0x5C \<or> c = CHR 0x22 \<or> as_inString v")
    case True
    then consider "as_escaped v" | "\<not> as_escaped v" "c = CHR 0x5C" | "\<not> as_escaped v" "c = CHR 0x22"
      | "\<not> as_escaped v" "c \<noteq> CHR 0x5C" "c \<noteq> CHR 0x22" "as_inString v"
      by blast
    then show thesis
    proof cases
      case 1 then show thesis by (intro skip) (simp, simp)
    next
      case 2 then show thesis by (intro skip) (simp, simp)
    next
      case 3 then show thesis by (intro skip) (simp, simp)
    next
      case 4 then show thesis by (intro skip) (simp, simp)
    qed
  next
    case False
    note esc = this
    show thesis
    proof (cases "c = CHR ''{''")
      case True
      with esc show thesis by (intro start) (simp, simp_all)
    next
      case nopen: False
      show thesis
      proof (cases "c = CHR ''}''")
        case True
        show thesis
        proof (cases "as_start v")
          case None
          with True esc show thesis by (intro skip) (simp add: Let_def, simp)
        next
          case (Some start)
          show thesis
          proof (cases "as_braces v - 1 = 0")
            case zero: True
            show thesis
            proof (cases "unmarshal (drop start (take (i + 1) buffer))")
              case None
              with Some zero True esc show thesis by (intro skip) (simp add: Let_def, simp)
            next
              case (Some data)
              with \<open>as_start v = Some start\<close> zero True esc show thesis by (intro brace) (simp_all add: Let_def)
            qed
          next
            case False
            with Some True esc show thesis by (intro skip) (simp add: Let_def, simp)
          qed
        qed
      next
        case False
        with esc nopen show thesis by (intro skip) (simp, simp)
      qed
    qed
  qed
  then show ?thesis
  proof cases
    case skip
    with assms show ?thesis by metis
  next
    case start
    with assms show ?thesis by metis
  next
    case brace
    have "(case (case data of None \<Rightarrow> None | Some obj \<Rightarrow> find_object unmarshal name obj) of
        Some args \<Rightarrow> (args, i) | None \<Rightarrow> (data, i)) = (Some args, j)"
      using assms brace(4) by (simp only:)
    with brace(1-3) show ?thesis by (auto simp del: find_object.simps split: option.splits)
  qed
qed

lemma scan_arguments_pos:
  "scan_arguments unmarshal name buffer i rest v = (Some args, j) \<Longrightarrow>
     (\<forall>s. as_start v = Some s \<longrightarrow> s < i) \<Longrightarrow> 0 < j \<and> j < i + length rest"
proof (induction rest arbitrary: i v)
  case (Cons c rest)
  from scan_arguments_step [OF Cons.prems(1)] consider
      v' where "scan_arguments unmarshal name buffer (i + 1) rest v' = (Some args, j)"
        "as_start v' = as_start v \<or> as_start v' = None \<or> as_start v' = Some i"
    | start where "j = i" "as_start v = Some start"
    by blast
  then show ?case
  proof cases
    case 1
    have "\<forall>s. as_start v' = Some s \<longrightarrow> s < i + 1" using 1(2) Cons.prems(2) by fastforce
    from Cons.IH [OF 1(1) this] show ?thesis by simp
  next
    case 2
    with Cons.prems(2) have "start < i" by blast
    with 2(1) show ?thesis by simp
  qed
qed simp

lemma findArguments_pos: "findArguments unmarshal name buffer = (Some args, j) \<Longrightarrow> 0 < j \<and> j < length buffer"
  by (auto simp: findArguments_def dest: scan_arguments_pos split: if_splits)

lemma parseToolCall_Some:
  assumes "parseToolCall unmarshal p = Some (call, p')"
  obtains tool e argsMap i where "findTool (tp_tools p) (tp_buffer p) = Some (tool, e)"
    "findArguments unmarshal (tool_name tool) (tp_buffer p) = (Some argsMap, i)"
    "p' = p\<lparr>tp_n := tp_n p + 1, tp_buffer := drop (max i e) (tp_buffer p)\<rparr>"
    "call = \<lparr>tc_ID = [], tc_Function = \<lparr>tcf_Index = tp_n p, tcf_Name = tool_name tool,
       tcf_Arguments = foldl (\<lambda>a (k, v). set_arg a k v) [] argsMap\<rparr>\<rparr>"
  using assms by (auto simp: parseToolCall_def Let_def max_def not_less split: option.splits prod.splits if_splits)

lemma parseToolCall_shorter:
  assumes "parseToolCall unmarshal p = Some (call, p')"
  shows "length (tp_buffer p') < length (tp_buffer p)"
proof -
  obtain tool e argsMap i where "findArguments unmarshal (tool_name tool) (tp_buffer p) = (Some argsMap, i)"
      "tp_buffer p' = drop (max i e) (tp_buffer p)"
    using assms by (elim parseToolCall_Some) simp
  then show ?thesis by (auto dest!: findArguments_pos)
qed

function parse_calls :: "unmarshal \<Rightarrow> tool_parser \<Rightarrow> json_map tool_call list \<times> tool_parser" where
  "parse_calls unmarshal p = (case parseToolCall unmarshal p of
     None \<Rightarrow> ([], p)
   | Some (call, p') \<Rightarrow> (case parse_calls unmarshal p' of (calls, p'') \<Rightarrow> (call # calls, p'')))"
  by pat_completeness auto
termination
  by (relation "measure (\<lambda>(u, p). length (tp_buffer p))") (auto dest: parseToolCall_shorter)

declare parse_calls.simps [simp del]

text \<open>The part of \<^verbatim>\<open>Add\<close> behind the search for the tag.\<close>

definition add_calls :: "unmarshal \<Rightarrow> string \<Rightarrow> tool_parser \<Rightarrow> json_map tool_call list \<times> string \<times> tool_parser" where
  "add_calls unmarshal content p0 = (case parse_calls unmarshal p0 of
     (calls, p) \<Rightarrow> if parser_done p then (calls, tp_buffer p, p\<lparr>tp_state := Done, tp_buffer := []\<rparr>)
                  else (calls, content, p))"

definition Add :: "unmarshal \<Rightarrow> tool_parser \<Rightarrow> string \<Rightarrow> json_map tool_call list \<times> string \<times> tool_parser" where
  "Add unmarshal p0 s =
     (if tp_state p0 = Done then ([], s, p0)
      else
        let p1 = p0\<lparr>tp_buffer := tp_buffer p0 @ s\<rparr> in
        if tp_state p1 = LookingForTag then
          (case findTag p1 of (i, found) \<Rightarrow>
             let content = (case i of None \<Rightarrow> tp_buffer p1 | Some k \<Rightarrow> take k (tp_buffer p1));
                 p = p1\<lparr>tp_buffer := (case i of None \<Rightarrow> [] | Some k \<Rightarrow> drop k (tp_buffer p1))\<rparr> in
             if (tp_tag p = ''{'' \<or> tp_tag p = ''['') \<and> trim_space content \<noteq> []
             then ([], content @ tp_buffer p, p\<lparr>tp_state := Done\<rparr>)
             else if \<not> found then ([], content, p)
             else add_calls unmarshal content (p\<lparr>tp_state := ToolCalling\<rparr>))
        else add_calls unmarshal [] p1)"

definition Content :: "tool_parser \<Rightarrow> string" where
  "Content p = (if 0 < tp_n p then []
     else if tp_tag p = ''{'' \<or> tp_tag p = ''['' then tp_buffer p else [])"

text \<open>A stream of chunks: all calls, the content chunk by chunk, and the parser at the end.\<close>

fun add_all :: "unmarshal \<Rightarrow> tool_parser \<Rightarrow> string list \<Rightarrow> json_map tool_call list \<times> string list \<times> tool_parser" where
  "add_all unmarshal p [] = ([], [], p)"
| "add_all unmarshal p (s # ss) = (case Add unmarshal p s of
     (calls, content, p') \<Rightarrow> (case add_all unmarshal p' ss of
        (calls', contents, p'') \<Rightarrow> (calls @ calls', content # contents, p'')))"
section \<open>The tag\<close>

lemma trim_space_idem: "trim_space (trim_space s) = trim_space s"
proof -
  let ?t = "trim_right (trim_left s)"
  have "lead_ok ?t"
    using lead_ok_trim_left [of s] prefix_trim_right [of "trim_left s"]
    unfolding lead_ok_def by (blast intro: prefix_order.trans)
  then show ?thesis by (simp add: trim_space_def trim_left_lead_ok)
qed

lemma set_trim_space: "set (trim_space s) \<subseteq> set s"
  using set_mono_suffix [OF suffix_trim_left [of s]] set_mono_prefix [OF prefix_trim_right [of "trim_left s"]]
  by (auto simp: trim_space_def)

lemma cut_before_char: "c \<notin> set (fst (cut s [c]))"
proof (cases "index s [c]")
  case None
  then have "\<not> contains s [c]" by (simp add: contains_def)
  then have "c \<notin> set s" by (simp add: contains_char)
  with None show ?thesis by (simp add: cut_def)
next
  case (Some i)
  then have "\<not> contains (take i s) [c]" by (intro first_free) simp_all
  then have "c \<notin> set (take i s)" by (simp add: contains_char)
  with Some show ?thesis by (simp add: cut_def)
qed

text \<open>
  The tag of a template is a brace, or a text without a brace and without white space at its
  ends; it is never empty.
\<close>

theorem parseTag_form:
  "parseTag tmpl = ''{'' \<or>
     (parseTag tmpl \<noteq> [] \<and> CHR ''{'' \<notin> set (parseTag tmpl) \<and> trim_space (parseTag tmpl) = parseTag tmpl)"
proof -
  have "CHR ''{'' \<notin> set (trim_space (fst (cut t ''{'')))" for t
    using set_trim_space cut_before_char by blast
  then show ?thesis
    by (auto simp: parseTag_def Let_def trim_space_idem split: option.splits)
qed

section \<open>Content\<close>

lemma parse_calls_induct [case_names Stop More]:
  assumes "\<And>p. parseToolCall u p = None \<Longrightarrow> P p ([], p)"
    "\<And>p call p' calls p''. parseToolCall u p = Some (call, p') \<Longrightarrow> parse_calls u p' = (calls, p'')
       \<Longrightarrow> P p' (calls, p'') \<Longrightarrow> P p (call # calls, p'')"
  shows "P p (parse_calls u p)"
proof (induction "length (tp_buffer p)" arbitrary: p rule: less_induct)
  case less
  show ?case
  proof (cases "parseToolCall u p")
    case None
    then show ?thesis using assms(1) by (simp add: parse_calls.simps [of u p])
  next
    case (Some x)
    obtain call p' where x: "x = (call, p')" by (cases x)
    obtain calls p'' where r: "parse_calls u p' = (calls, p'')" by (cases "parse_calls u p'")
    have "P p' (calls, p'')" using less [of p'] parseToolCall_shorter Some x r by fastforce
    with Some x r assms(2) show ?thesis by (simp add: parse_calls.simps [of u p])
  qed
qed

lemma parseToolCall_keeps:
  "parseToolCall u p = Some (call, p') \<Longrightarrow>
     tp_tag p' = tp_tag p \<and> tp_tools p' = tp_tools p \<and> tp_state p' = tp_state p"
  by (erule parseToolCall_Some) simp

lemma parse_calls_keeps:
  "tp_tag (snd (parse_calls u p)) = tp_tag p \<and> tp_tools (snd (parse_calls u p)) = tp_tools p
     \<and> tp_state (snd (parse_calls u p)) = tp_state p"
  by (induction p rule: parse_calls_induct [of u]) (auto dest: parseToolCall_keeps)

definition plain_tag :: "string \<Rightarrow> bool" where
  "plain_tag tag \<longleftrightarrow> tag \<noteq> [] \<and> tag \<noteq> ''{'' \<and> tag \<noteq> ''[''"

lemma add_calls_plain:
  assumes "plain_tag (tp_tag p)"
  shows "add_calls u content p = (fst (parse_calls u p), content, snd (parse_calls u p))"
proof -
  have "tp_tag (snd (parse_calls u p)) = tp_tag p" using parse_calls_keeps [of u p] by blast
  then have "\<not> parser_done (snd (parse_calls u p))"
    using assms by (simp add: parser_done_def plain_tag_def)
  then show ?thesis by (simp add: add_calls_def case_prod_unfold)
qed

text \<open>What is passed on of a text: up to the tag, or up to what may become one.\<close>

definition shown :: "string \<Rightarrow> string \<Rightarrow> string" where
  "shown tag w = (case index w tag of
     Some i \<Rightarrow> take i w
   | None \<Rightarrow> take (length w - overlap w tag) w)"

definition follows :: "string \<Rightarrow> string \<Rightarrow> string \<Rightarrow> tool_parser \<Rightarrow> bool" where
  "follows tag w out p \<longleftrightarrow> tp_tag p = tag \<and> out = shown tag w \<and>
     (case index w tag of
        None \<Rightarrow> tp_state p = LookingForTag \<and> tp_buffer p = drop (length w - overlap w tag) w
      | Some i \<Rightarrow> tp_state p = ToolCalling)"

lemma findTag_eq:
  "findTag p = (case index (tp_buffer p) (tp_tag p) of
     Some i \<Rightarrow> (Some i, True)
   | None \<Rightarrow> (if 0 < overlap (tp_buffer p) (tp_tag p)
       then Some (length (tp_buffer p) - overlap (tp_buffer p) (tp_tag p)) else None, False))"
  by (auto simp: findTag_def overlap_def Let_def min.commute split: option.splits)

lemma follows_step:
  assumes f: "follows tag w out p" and tag: "plain_tag tag" and a: "Add u p s = (calls, content, p')"
  shows "follows tag (w @ s) (out @ content) p'"
proof (cases "index w tag")
  case (Some i)
  with f have p: "tp_tag p = tag" "tp_state p = ToolCalling" "out = take i w"
    by (auto simp: follows_def shown_def)
  let ?p = "p\<lparr>tp_buffer := tp_buffer p @ s\<rparr>"
  from p a tag have "content = []" "p' = snd (parse_calls u ?p)"
    by (auto simp: Add_def add_calls_plain Let_def)
  moreover have "index (w @ s) tag = Some i" using Some by (rule index_append_left)
  moreover have "i \<le> length w" using index_le [OF Some] by simp
  ultimately show ?thesis using p parse_calls_keeps [of u ?p] by (simp add: follows_def shown_def)
next
  case None
  let ?n = "length w - overlap w tag"
  let ?b = "drop ?n w @ s"
  from f None have p: "tp_tag p = tag" "tp_state p = LookingForTag" "tp_buffer p = drop ?n w" "out = take ?n w"
    by (auto simp: follows_def shown_def)
  have cut: "safe_cut ?n w tag" using None by (intro safe_cutI) simp_all
  have idx: "index (w @ s) tag = map_option ((+) ?n) (index ?b tag)" using cut by (rule index_safe_cut)
  have ov: "overlap (w @ s) tag = overlap ?b tag" using cut by (rule overlap_safe_cut)
  have le: "overlap ?b tag \<le> length ?b" by (rule overlap_le)
  have tags: "tag \<noteq> ''{''" "tag \<noteq> ''[''" using tag by (simp_all add: plain_tag_def)
  have n: "?n \<le> length w" by simp
  show ?thesis
  proof (cases "index ?b tag")
    case (Some i)
    let ?p = "p\<lparr>tp_buffer := drop i ?b, tp_state := ToolCalling\<rparr>"
    from a p Some tags have "(calls, content, p') = add_calls u (take i ?b) ?p"
      by (simp add: Add_def findTag_eq Let_def)
    then have "content = take i ?b" "p' = snd (parse_calls u ?p)"
      using p tag by (auto simp: add_calls_plain)
    with idx Some p cut_take [OF n, of i s] parse_calls_keeps [of u ?p] show ?thesis
      by (simp add: follows_def shown_def)
  next
    case none: None
    define m where "m = length ?b - overlap ?b tag"
    from a p none tags have c: "content = take m ?b" "p' = p\<lparr>tp_buffer := drop m ?b\<rparr>"
      by (auto simp: Add_def findTag_eq Let_def m_def split: if_splits)
    have len: "length (w @ s) - overlap (w @ s) tag = ?n + m"
      using ov le n by (simp add: m_def)
    have i: "index (w @ s) tag = None" using idx none by simp
    have "shown tag (w @ s) = out @ content"
      unfolding shown_def i len by (simp only: option.case cut_take [OF n] p c)
    moreover have "tp_buffer p' = drop (length (w @ s) - overlap (w @ s) tag) (w @ s)"
      unfolding len by (simp only: cut_drop [OF n] c) simp
    ultimately show ?thesis using i p c by (simp add: follows_def)
  qed
qed

lemma follows_all:
  "follows tag w out p \<Longrightarrow> plain_tag tag \<Longrightarrow> add_all u p ss = (calls, contents, p')
     \<Longrightarrow> follows tag (w @ concat ss) (out @ concat contents) p'"
proof (induction ss arbitrary: w out p calls contents)
  case (Cons s ss)
  obtain c content p1 where 1: "Add u p s = (c, content, p1)" by (cases "Add u p s")
  obtain calls' contents' where 2: "add_all u p1 ss = (calls', contents', p')" "contents = content # contents'"
    using Cons.prems(3) 1 by (auto split: prod.splits)
  from Cons.IH [OF follows_step [OF Cons.prems(1,2) 1] Cons.prems(2) 2(1)] 2(2) show ?case by simp
qed simp

text \<open>A decoder for two texts, and a tool.\<close>

definition demo_unmarshal :: unmarshal where
  "demo_unmarshal s =
     (if s = ''{a}'' then Some (Some [(''city'', AnyString ''Rome''), (''day'', AnyNumber ''1'')])
      else if s = ''{n}'' then Some (Some [(''name'', AnyString ''get'')])
      else None)"

definition demo_tool :: "string \<Rightarrow> tool" where
  "demo_tool n = \<lparr>tool_Type = ''function'', tool_Items = AnyNil,
     tool_Function = \<lparr>tf_Name = n, tf_Description = [],
       tf_Parameters = \<lparr>tfp_Type = ''object'', tfp_Defs = AnyNil, tfp_Items = AnyNil, tfp_Required = [], tfp_Properties = None\<rparr>\<rparr>\<rparr>"

text \<open>
  C19. With a tag other than a brace or a bracket, the content passed on is, however the stream is cut
  into chunks, the text up to the first occurrence of the tag; without one, all the text but the
  longest end of it that is the beginning of the tag.
\<close>

theorem content_before_tag:
  assumes "plain_tag tag"
  shows "concat (fst (snd (add_all u (NewParserWithTag tools tag) ss))) = shown tag (concat ss)"
proof -
  obtain calls contents p where r: "add_all u (NewParserWithTag tools tag) ss = (calls, contents, p)"
    by (cases "add_all u (NewParserWithTag tools tag) ss")
  have "tag \<noteq> []" using assms by (simp add: plain_tag_def)
  then have "index [] tag = None" by simp
  moreover have "overlap [] tag = 0" using overlap_le(1) [of "[]" tag] by simp
  ultimately have "follows tag [] [] (NewParserWithTag tools tag)"
    by (simp add: follows_def shown_def NewParserWithTag_def)
  from follows_all [OF this assms r] r show ?thesis by (simp add: follows_def)
qed

theorem content_before_tag_witness:
  "concat (fst (snd (add_all demo_unmarshal (NewParserWithTag [demo_tool ''get''] ''[T]'') [''Hi ['', ''X [T'', ''] get {a}''])))
     = shown ''[T]'' (concat [''Hi ['', ''X [T'', ''] get {a}''])
   \<and> shown ''[T]'' (concat [''Hi ['', ''X [T'', ''] get {a}'']) = ''Hi [X ''"
  using content_before_tag [of "''[T]''" demo_unmarshal "[demo_tool ''get'']" "[''Hi ['', ''X [T'', ''] get {a}'']"]
  by (simp add: plain_tag_def shown_def)

section \<open>Calls\<close>

lemma best_tool_best:
  assumes "best_tool buf found ts = Some (t, s, e)"
    "\<And>f s0 e0. found = Some (f, s0, e0) \<Longrightarrow> index buf (tool_name f) = Some s0 \<and> e0 = s0 + length (tool_name f)"
  shows "index buf (tool_name t) = Some s \<and> e = s + length (tool_name t)
    \<and> (t \<in> set ts \<or> (\<exists>s0 e0. found = Some (t, s0, e0)))
    \<and> (\<forall>u \<in> set ts. \<forall>i. index buf (tool_name u) = Some i
         \<longrightarrow> s < i \<or> s = i \<and> length (tool_name u) \<le> length (tool_name t))
    \<and> (\<forall>f s0 e0. found = Some (f, s0, e0) \<longrightarrow> s < s0 \<or> s = s0 \<and> length (tool_name f) \<le> length (tool_name t))"
  using assms
proof (induction ts arbitrary: found)
  case Nil
  then show ?case by auto
next
  case (Cons x ts)
  show ?case
  proof (cases "index buf (tool_name x)")
    case None
    with Cons.prems(1) have "best_tool buf found ts = Some (t, s, e)" by simp
    from Cons.IH [OF this Cons.prems(2)] None show ?thesis by auto
  next
    case (Some pos)
    let ?new = "Some (x, pos, pos + length (tool_name x))"
    consider (skip) f s0 e0 where "found = Some (f, s0, e0)" "best_tool buf found ts = Some (t, s, e)"
        "s0 < pos \<or> s0 = pos \<and> length (tool_name x) \<le> length (tool_name f)"
      | (take) "best_tool buf ?new ts = Some (t, s, e)"
        "\<And>f s0 e0. found = Some (f, s0, e0) \<Longrightarrow> pos < s0 \<or> pos = s0 \<and> length (tool_name f) \<le> length (tool_name x)"
    proof (cases found)
      case None
      with Cons.prems(1) Some show thesis by (intro take) simp_all
    next
      case (Some q)
      obtain f s0 e0 where q: "q = (f, s0, e0)" by (cases q)
      with Some Cons.prems(1) \<open>index buf (tool_name x) = Some pos\<close> show thesis
        by (cases "pos > s0 \<or> pos = s0 \<and> length (tool_name x) \<le> length (tool_name f)")
          (auto intro: skip take)
    qed
    then show ?thesis
    proof cases
      case skip
      have ih: "index buf (tool_name t) = Some s \<and> e = s + length (tool_name t)"
        "t \<in> set ts \<or> (\<exists>s0 e0. found = Some (t, s0, e0))"
        "\<forall>u \<in> set ts. \<forall>i. index buf (tool_name u) = Some i
             \<longrightarrow> s < i \<or> s = i \<and> length (tool_name u) \<le> length (tool_name t)"
        "s < s0 \<or> s = s0 \<and> length (tool_name f) \<le> length (tool_name t)"
        using Cons.IH [OF skip(2) Cons.prems(2)] skip(1) by auto
      have "s < pos \<or> s = pos \<and> length (tool_name x) \<le> length (tool_name t)"
        using skip(3) ih(4) by linarith
      with ih skip(1) Some show ?thesis by auto
    next
      case take
      have ih: "index buf (tool_name t) = Some s \<and> e = s + length (tool_name t)"
        "t \<in> set ts \<or> (\<exists>s0 e0. ?new = Some (t, s0, e0))"
        "\<forall>u \<in> set ts. \<forall>i. index buf (tool_name u) = Some i
             \<longrightarrow> s < i \<or> s = i \<and> length (tool_name u) \<le> length (tool_name t)"
        "s < pos \<or> s = pos \<and> length (tool_name x) \<le> length (tool_name t)"
        using Cons.IH [OF take(1)] Some by auto
      have "s < s0 \<or> s = s0 \<and> length (tool_name f) \<le> length (tool_name t)" if "found = Some (f, s0, e0)" for f s0 e0
        using take(2) [OF that] ih(4) by linarith
      with ih Some show ?thesis by auto
    qed
  qed
qed









text \<open>The arguments come from an object in the buffer, from brace to brace.\<close>

definition object_args :: "unmarshal \<Rightarrow> string \<Rightarrow> string \<Rightarrow> json_map \<Rightarrow> bool" where
  "object_args u name obj_text m \<longleftrightarrow> (\<exists>obj. u obj_text = Some (Some obj)
     \<and> (find_object u name obj = Some (Some m) \<or> find_object u name obj = None \<and> m = obj))"

definition braced :: "string \<Rightarrow> bool" where
  "braced s \<longleftrightarrow> s \<noteq> [] \<and> hd s = CHR ''{'' \<and> last s = CHR ''}''"

lemma braced_slice:
  assumes "start < j" "j < length buffer" "buffer ! start = CHR ''{''" "buffer ! j = CHR ''}''"
  shows "braced (drop start (take (j + 1) buffer))"
proof -
  let ?s = "drop start (take (j + 1) buffer)"
  have l: "length ?s = j + 1 - start" using assms by simp
  then have n: "?s \<noteq> []" using assms(1) by (metis Suc_eq_plus1 diff_is_0_eq leD less_SucI list.size(3))
  have "hd ?s = buffer ! start" using n assms by (simp add: hd_conv_nth)
  moreover have "last ?s = buffer ! j" using n l assms by (simp add: last_conv_nth)
  ultimately show ?thesis using n assms by (simp add: braced_def)
qed

lemma scan_arguments_sound:
  assumes "scan_arguments u name buffer i rest v = (Some m, j)" "drop i buffer = rest"
    "\<forall>s. as_start v = Some s \<longrightarrow> s < i \<and> buffer ! s = CHR ''{''"
  shows "\<exists>start. start < j \<and> j < length buffer \<and> buffer ! start = CHR ''{'' \<and> buffer ! j = CHR ''}''
    \<and> object_args u name (drop start (take (j + 1) buffer)) m"
  using assms
proof (induction rest arbitrary: i v)
  case (Cons c rest)
  have c: "i < length buffer" "buffer ! i = c" "drop (i + 1) buffer = rest"
    using Cons.prems(2) by (metis drop_all linorder_not_le list.distinct(1), metis nth_via_drop,
      metis Suc_eq_plus1 drop_Suc list.sel(3) tl_drop)
  from scan_arguments_step [OF Cons.prems(1)] consider
      v' where "scan_arguments u name buffer (i + 1) rest v' = (Some m, j)"
        "as_start v' = as_start v \<or> as_start v' = None \<or> as_start v' = Some i \<and> c = CHR ''{''"
    | start where "j = i" "c = CHR ''}''" "as_start v = Some start"
        "object_args u name (drop start (take (i + 1) buffer)) m"
    unfolding object_args_def by blast
  then show ?case
  proof cases
    case 1
    have "\<forall>s. as_start v' = Some s \<longrightarrow> s < i + 1 \<and> buffer ! s = CHR ''{''"
      using 1(2) Cons.prems(3) c(2) by fastforce
    from Cons.IH [OF 1(1) c(3) this] show ?thesis .
  next
    case 2
    with Cons.prems(3) c show ?thesis by blast
  qed
qed simp

lemma findArguments_sound:
  assumes "findArguments u name buffer = (Some m, j)"
  shows "\<exists>t. sublist t buffer \<and> braced t \<and> object_args u name t m"
proof -
  have "scan_arguments u name buffer 0 buffer
      \<lparr>as_start = None, as_braces = 0, as_inString = False, as_escaped = False\<rparr> = (Some m, j)"
    using assms by (simp add: findArguments_def split: if_splits)
  from scan_arguments_sound [OF this] obtain start where *: "start < j" "j < length buffer"
      "buffer ! start = CHR ''{''" "buffer ! j = CHR ''}''"
      "object_args u name (drop start (take (j + 1) buffer)) m" by auto
  have "sublist (drop start (take (j + 1) buffer)) buffer"
    by (meson sublist_drop sublist_take sublist_order.order_trans)
  with * braced_slice show ?thesis by blast
qed

lemma index_sublist: "index s sub = Some i \<Longrightarrow> sublist sub s"
  using index_Some_split [of s sub i] unfolding sublist_def by blast

text \<open>A call that a parser may return for a text: the name of its tool occurs in it, and so does the object.\<close>

definition sound_call :: "unmarshal \<Rightarrow> tool list \<Rightarrow> string \<Rightarrow> json_map tool_call \<Rightarrow> bool" where
  "sound_call u tools w call \<longleftrightarrow>
     (\<exists>t \<in> set tools. tool_name t = tcf_Name (tc_Function call) \<and> sublist (tool_name t) w
        \<and> (\<exists>obj_text m. sublist obj_text w \<and> braced obj_text \<and> object_args u (tool_name t) obj_text m
             \<and> tcf_Arguments (tc_Function call) = foldl (\<lambda>a (k, v). set_arg a k v) [] m))"

lemma sound_call_mono: "sound_call u tools w call \<Longrightarrow> sublist w w' \<Longrightarrow> sound_call u tools w' call"
  unfolding sound_call_def by (meson sublist_order.order_trans)

abbreviation call_index :: "json_map tool_call \<Rightarrow> nat" where
  "call_index call \<equiv> tcf_Index (tc_Function call)"

lemma parseToolCall_sound:
  assumes "parseToolCall u p = Some (call, p')"
  shows "sound_call u (tp_tools p) (tp_buffer p) call \<and> call_index call = tp_n p \<and> tp_n p' = tp_n p + 1
    \<and> suffix (tp_buffer p') (tp_buffer p)"
proof -
  obtain tool e m i where *: "findTool (tp_tools p) (tp_buffer p) = Some (tool, e)"
    "findArguments u (tool_name tool) (tp_buffer p) = (Some m, i)"
    "p' = p\<lparr>tp_n := tp_n p + 1, tp_buffer := drop (max i e) (tp_buffer p)\<rparr>"
    "call = \<lparr>tc_ID = [], tc_Function = \<lparr>tcf_Index = tp_n p, tcf_Name = tool_name tool,
       tcf_Arguments = foldl (\<lambda>a (k, v). set_arg a k v) [] m\<rparr>\<rparr>"
    using assms by (rule parseToolCall_Some)
  obtain s where "best_tool (tp_buffer p) None (tp_tools p) = Some (tool, s, e)"
    using * (1) by (auto simp: findTool_def split: if_splits option.splits)
  from best_tool_best [OF this] have "tool \<in> set (tp_tools p)" "index (tp_buffer p) (tool_name tool) = Some s" by auto
  with findArguments_sound [OF * (2)] * (3,4) show ?thesis
    by (auto simp: sound_call_def suffix_drop intro: index_sublist)
qed

lemma parse_calls_sound:
  "(\<forall>call \<in> set (fst (parse_calls u p)). sound_call u (tp_tools p) (tp_buffer p) call)
    \<and> map call_index (fst (parse_calls u p)) = [tp_n p..<tp_n (snd (parse_calls u p))]
    \<and> tp_n (snd (parse_calls u p)) = tp_n p + length (fst (parse_calls u p))
    \<and> suffix (tp_buffer (snd (parse_calls u p))) (tp_buffer p)"
proof (induction p rule: parse_calls_induct [of u])
  case (More p call p' calls p'')
  from parseToolCall_sound [OF More(1)] parseToolCall_keeps [OF More(1)]
  have 1: "sound_call u (tp_tools p) (tp_buffer p) call" "call_index call = tp_n p" "tp_n p' = tp_n p + 1"
    "suffix (tp_buffer p') (tp_buffer p)" "tp_tools p' = tp_tools p" by auto
  have "[tp_n p..<tp_n p''] = tp_n p # [tp_n p + 1..<tp_n p'']"
    using More(3) 1(3) by (subst upt_conv_Cons) simp_all
  moreover have "sublist (tp_buffer p') (tp_buffer p)" using 1(4) by (rule suffix_imp_sublist)
  ultimately show ?case
    using More(3) 1 sound_call_mono by (auto intro: suffix_order.trans)
qed simp

definition numbered :: "unmarshal \<Rightarrow> tool list \<Rightarrow> string \<Rightarrow> json_map tool_call list \<Rightarrow> tool_parser \<Rightarrow> bool" where
  "numbered u tools w calls p \<longleftrightarrow> tp_tools p = tools
     \<and> (tp_state p \<noteq> Done \<longrightarrow> suffix (tp_buffer p) w)
     \<and> map call_index calls = [0..<tp_n p] \<and> (\<forall>call \<in> set calls. sound_call u tools w call)"

lemma numbered_parse_calls:
  assumes "numbered u tools w calls p" "suffix (tp_buffer p) w"
  shows "map call_index (calls @ fst (parse_calls u p)) = [0..<tp_n (snd (parse_calls u p))]
    \<and> (\<forall>call \<in> set (calls @ fst (parse_calls u p)). sound_call u tools w call)
    \<and> suffix (tp_buffer (snd (parse_calls u p))) w \<and> tp_tools (snd (parse_calls u p)) = tools"
proof -
  have "sublist (tp_buffer p) w" using assms(2) by (rule suffix_imp_sublist)
  then have "\<forall>call \<in> set (fst (parse_calls u p)). sound_call u tools w call"
    using parse_calls_sound [of u p] assms(1) sound_call_mono unfolding numbered_def by blast
  moreover have "[0..<tp_n (snd (parse_calls u p))] = [0..<tp_n p] @ [tp_n p..<tp_n (snd (parse_calls u p))]"
    using parse_calls_sound [of u p] by (metis le_add1 le0 upt_add_eq_append le_add_diff_inverse)
  ultimately show ?thesis
    using assms parse_calls_sound [of u p] parse_calls_keeps [of u p]
    by (auto simp: numbered_def intro: suffix_order.trans)
qed

lemma numbered_add_calls:
  assumes "numbered u tools w calls p" "suffix (tp_buffer p) w" "add_calls u content p = (calls', content', p')"
  shows "numbered u tools w (calls @ calls') p'"
proof -
  let ?r = "parse_calls u p"
  have "calls' = fst ?r" "p' = (if parser_done (snd ?r) then (snd ?r)\<lparr>tp_state := Done, tp_buffer := []\<rparr> else snd ?r)"
    using assms(3) by (auto simp: add_calls_def split: prod.splits if_splits)
  with numbered_parse_calls [OF assms(1,2)] show ?thesis
    by (simp add: numbered_def)
qed

lemma numbered_Add:
  assumes "numbered u tools w calls p" "Add u p s = (calls', content, p')"
  shows "numbered u tools (w @ s) (calls @ calls') p'"
proof -
  have mono: "\<forall>call \<in> set calls. sound_call u tools (w @ s) call"
    using assms(1) sound_call_mono [of u tools w] unfolding numbered_def by (meson sublist_appendI prefix_imp_sublist prefixI)
  show ?thesis
  proof (cases "tp_state p = Done")
    case True
    with assms mono show ?thesis by (simp add: Add_def numbered_def)
  next
    case False
    define p1 where "p1 = p\<lparr>tp_buffer := tp_buffer p @ s\<rparr>"
    have p1: "suffix (tp_buffer p1) (w @ s)" "tp_tools p1 = tools" "tp_n p1 = tp_n p"
      "tp_state p1 = tp_state p" "map call_index calls = [0..<tp_n p]"
      using assms(1) False by (auto simp: p1_def numbered_def suffix_def)
    have keep: "numbered u tools (w @ s) calls (p1\<lparr>tp_buffer := b, tp_state := st\<rparr>)"
      if "suffix b (tp_buffer p1)" for b st
      using that p1 mono by (auto simp: numbered_def intro: suffix_order.trans)
    show ?thesis
    proof (cases "tp_state p = LookingForTag")
      case True
      obtain i found where t: "findTag p1 = (i, found)" by (cases "findTag p1")
      define content0 where "content0 = (case i of None \<Rightarrow> tp_buffer p1 | Some k \<Rightarrow> take k (tp_buffer p1))"
      define b where "b = (case i of None \<Rightarrow> [] | Some k \<Rightarrow> drop k (tp_buffer p1))"
      have b: "suffix b (tp_buffer p1)" by (auto simp: b_def suffix_drop split: option.splits)
      define q where "q = p1\<lparr>tp_buffer := b\<rparr>"
      have "Add u p s =
          (if (tp_tag q = ''{'' \<or> tp_tag q = ''['') \<and> trim_space content0 \<noteq> []
           then ([], content0 @ tp_buffer q, q\<lparr>tp_state := Done\<rparr>)
           else if \<not> found then ([], content0, q)
           else add_calls u content0 (q\<lparr>tp_state := ToolCalling\<rparr>))"
        using False True t p1(4) unfolding Add_def Let_def p1_def [symmetric]
        by (simp add: q_def b_def content0_def)
      then consider "calls' = []" "p' = q\<lparr>tp_state := Done\<rparr>" | "calls' = []" "p' = q\<lparr>tp_state := tp_state p1\<rparr>"
        | "add_calls u content0 (q\<lparr>tp_state := ToolCalling\<rparr>) = (calls', content, p')"
        using assms(2) by (auto simp: q_def split: if_splits)
      then have "calls' = [] \<and> (\<exists>st. p' = p1\<lparr>tp_buffer := b, tp_state := st\<rparr>)
          \<or> add_calls u content0 (p1\<lparr>tp_buffer := b, tp_state := ToolCalling\<rparr>) = (calls', content, p')"
        by cases (auto simp: q_def intro: exI [of _ "tp_state p1"])
      then show ?thesis
      proof
        assume "calls' = [] \<and> (\<exists>st. p' = p1\<lparr>tp_buffer := b, tp_state := st\<rparr>)"
        with keep [OF b] show ?thesis by auto
      next
        assume "add_calls u content0 (p1\<lparr>tp_buffer := b, tp_state := ToolCalling\<rparr>) = (calls', content, p')"
        with keep [OF b] b p1(1) show ?thesis
          by (intro numbered_add_calls) (auto intro: suffix_order.trans)
      qed
    next
      case tool: False
      then have "add_calls u [] p1 = (calls', content, p')"
        using assms(2) False by (simp add: Add_def Let_def p1_def)
      moreover have "numbered u tools (w @ s) calls p1" using keep [of "tp_buffer p1" "tp_state p1"] by simp
      ultimately show ?thesis using p1(1) by (intro numbered_add_calls)
    qed
  qed
qed

text \<open>
  C20. The calls of a stream are numbered from 0 in their order; each has the name of a tool on the
  list, the name occurs in the stream, and its arguments are read from an object of the stream, from brace to brace, that decodes,
  whatever the tag and the cutting into chunks.
\<close>

theorem tool_calls_sound:
  assumes "add_all u (NewParserWithTag tools tag) ss = (calls, contents, p)"
  shows "map call_index calls = [0..<length calls] \<and> tp_n p = length calls
    \<and> (\<forall>call \<in> set calls. sound_call u tools (concat ss) call)"
proof -
  have all: "numbered u tools (w @ concat ss) (calls0 @ calls) p"
    if "numbered u tools w calls0 q" "add_all u q ss = (calls, contents, p)" for w calls0 q calls contents ss
    using that
  proof (induction ss arbitrary: w calls0 q calls contents)
    case (Cons s ss)
    obtain c content q1 where 1: "Add u q s = (c, content, q1)" by (cases "Add u q s")
    obtain calls' contents' where 2: "add_all u q1 ss = (calls', contents', p)" "calls = c @ calls'"
      using Cons.prems(2) 1 by (auto split: prod.splits)
    from Cons.IH [OF numbered_Add [OF Cons.prems(1) 1] 2(1)] 2(2) show ?case by simp
  qed simp
  have "numbered u tools [] [] (NewParserWithTag tools tag)"
    by (simp add: numbered_def NewParserWithTag_def)
  from all [OF this assms] have n: "numbered u tools (concat ss) calls p" by simp
  then have "map call_index calls = [0..<tp_n p]" by (simp add: numbered_def)
  moreover from arg_cong [OF this, of length] have "tp_n p = length calls" by simp
  ultimately show ?thesis using n by (simp add: numbered_def)
qed

theorem tool_calls_sound_witness:
  "\<exists>calls contents p. add_all demo_unmarshal (NewParserWithTag [demo_tool ''get''] ''[T]'') [''Hi [T] get {'', ''a} get {a}.'']
       = (calls, contents, p)
     \<and> length calls = 2 \<and> map call_index calls = [0, 1]
     \<and> (\<forall>call \<in> set calls. sound_call demo_unmarshal [demo_tool ''get''] ''Hi [T] get {a} get {a}.'' call)"
proof -
  let ?r = "add_all demo_unmarshal (NewParserWithTag [demo_tool ''get''] ''[T]'') [''Hi [T] get {'', ''a} get {a}.'']"
  obtain calls contents p where r: "?r = (calls, contents, p)" by (cases ?r)
  have "length (fst ?r) = 2" by code_simp
  with r tool_calls_sound [OF r] show ?thesis by (auto simp: numeral_2_eq_2)
qed

section \<open>What the parser misses\<close>

text \<open>A stream that ends in a proper beginning of a tool's name loses its calls.\<close>

lemma partial_name_loses_call:
  "fst (add_all demo_unmarshal (NewParserWithTag [demo_tool ''get''] ''[T]'') [''[T] get {a} g'']) = []
   \<and> length (fst (add_all demo_unmarshal (NewParserWithTag [demo_tool ''get''] ''[T]'') [''[T] get {a} x''])) = 1"
  by code_simp

text \<open>A call without arguments hides the calls behind it.\<close>

lemma missing_arguments_hide_calls:
  "fst (add_all demo_unmarshal (NewParserWithTag [demo_tool ''get''] ''[T]'') [''[T] get {n} get {a}.'']) = []"
  by code_simp

text \<open>The order of the arguments, and which of two nested calls gives them, follow the iteration over a
  Go map, which is random.\<close>

lemma arguments_depend_on_map_order:
  "let obj = [(''p'', AnyMap [(''name'', AnyString ''get''), (''arguments'', AnyMap [(''x'', AnyNumber ''1'')])]),
              (''q'', AnyMap [(''name'', AnyString ''get''), (''arguments'', AnyMap [(''x'', AnyNumber ''2'')])])];
       args = (\<lambda>u. map (\<lambda>c. tcf_Arguments (tc_Function c))
                 (fst (add_all u (NewParserWithTag [demo_tool ''get''] ''[T]'') [''[T] get {a}.''])))
   in args (\<lambda>_. Some (Some obj)) = [[(''x'', AnyNumber ''1'')]]
      \<and> args (\<lambda>_. Some (Some (rev obj))) = [[(''x'', AnyNumber ''2'')]]
      \<and> args demo_unmarshal \<noteq> args (\<lambda>s. map_option (map_option rev) (demo_unmarshal s))"
  by code_simp
end
