(* ===== verification/Spec2Isabelle.thy ===== *)
theory Spec2Isabelle
  imports Thinking ApiTypes Qwen3VL Qwen3 ModelName ModelRef Decimal Harmony Cogito DeepSeek3
    JsonScan Ministral Cohere Olmo3Think CacheTrie TrieInsert TrieEvict PrefixCache
    PrefixCacheProofs PrefixSession KVCache PromptCache RotatingCache RotatingProofs RecurrentCache RecurrentProofs
    SchedPlacement Sched SchedProofs Scheduler
    Runes GoHeap MergeLoop Vocabulary SentencePiece BytePair WordPiece Modelfile
    ModelOptions ModelfileRequest Tools
begin

text \<open>
  A model of the core of a language-model server written in Go: the text that goes into a model
  and comes out of it, the models it names, and the memory in which it keeps them and their
  prompts. The sources are under \<^verbatim>\<open>src/\<close>; every definition that translates code keeps the name
  of what it translates where Isabelle allows it.

  \<^bold>\<open>The parts and how they meet.\<close> A request names a model (\<^verbatim>\<open>types/model/name.go\<close>, with the source
  suffixes of \<^verbatim>\<open>internal/modelref\<close>). The scheduler (\<^verbatim>\<open>server/sched.go\<close>) finds or loads a runner for
  it, evicting others when memory is short. The runner encodes the prompt with a tokenizer
  (\<^verbatim>\<open>tokenizer/\<close>), looks the tokens up in a prompt cache (\<^verbatim>\<open>x/mlxrunner\<close>: a prefix trie over the
  snapshots of the layers' key/value caches), evaluates what is not stored, decodes the new
  tokens, and streams the text. A parser for the model's format (\<^verbatim>\<open>thinking/\<close>, \<^verbatim>\<open>harmony/\<close>,
  \<^verbatim>\<open>model/parsers/\<close>), or the parser of \<^verbatim>\<open>tools/\<close> driven by the template of the model, separates
  thinking, content and tool calls in the stream. Models are made from Modelfiles (\<^verbatim>\<open>parser/\<close>).

  \<^bold>\<open>Prelude.\<close> GoStrings: Go's strings and the standard functions on them, as lists of bytes.
  Trimming: the laws of trimming white space. Runes: strings as sequences of code points, and
  where one well-formed text can occur in another. Decimal: printing of numbers. GoHeap: the
  interface \<open>priority_queue\<close> and \<^verbatim>\<open>container/heap\<close>, which implements it. Machine: runs of a partial
  step function, and the interface \<open>guarded_machine\<close> of an invariant under a side condition.
  ApiTypes: \<^verbatim>\<open>api/types.go\<close>, messages, tool calls and their printing. Streaming and TextEvents:
  the helpers the parsers share (\<^verbatim>\<open>overlap\<close>, \<^verbatim>\<open>splitAtTag\<close>) and their events. JsonScan: how far a
  JSON value reaches (\<^verbatim>\<open>findJSONEnd\<close>, \<^verbatim>\<open>scanJSONObjects\<close>).

  \<^bold>\<open>Parsers.\<close> Thinking, Olmo3Think, Qwen3, Qwen3VL, Cogito, DeepSeek3, Ministral, Cohere and
  Harmony model one parser each: its state as a record, its step, and the loop over a chunk of
  text. The lemmas show that the cutting of the stream into chunks does not matter (up to the
  white space that some parsers pass on early), that thinking is what an abstract
  specification says, that no text is lost, which tags cannot appear in the output, and what
  happens to unfinished tags. JSON decoding of a call and the non-ASCII Unicode tables are
  parameters.

  \<^bold>\<open>Tool calls by template.\<close> Tools: the tag that precedes the calls in a template (\<^verbatim>\<open>tools/template.go\<close>)
  and the parser of calls (\<^verbatim>\<open>tools/tools.go\<close>), with the loop over the levels of braces that finds the
  arguments. The lemmas show that content is what precedes the tag however the text is cut, that
  every call names a tool and carries arguments that are in the text, and which of several names
  is taken.

  \<^bold>\<open>Modelfiles.\<close> Modelfile: the language, as the state machine of \<^verbatim>\<open>ParseFile\<close> over code points, and
  its printing; the lemmas are the round trip for the files in which a value survives quoting, and
  examples of those in which it does not. ModelOptions: \<^verbatim>\<open>FormatParams\<close> and \<^verbatim>\<open>Options.FromMap\<close> of
  \<^verbatim>\<open>api/types.go\<close>, and the way of a parameter through JSON. ModelfileRequest: \<^verbatim>\<open>CreateRequest\<close> and
  the files it digests; what is collected, and that no file outside the directory and no draft that
  is the model itself is sent.

  \<^bold>\<open>Names.\<close> ModelName and ModelRef: parsing, printing, merging and validity of names, file paths,
  and the resolution of references; the lemmas are the round trips and the soundness of what is
  resolved.

  \<^bold>\<open>Tokenizers.\<close> Vocabulary: values, special tokens and the cutting of a text at them. MergeLoop:
  the loop over linked entries and a queue of partly outdated candidates, shared by two
  encoders; the interface \<open>merge_loop\<close> says what an encoder plugs in, and its lemmas that the
  loop ends and refines the textbook algorithm. SentencePiece and BytePair: the encoders, with
  the exact algorithm for the first and the round trips for both. WordPiece: greedy longest
  match. The matches of the regular expressions and the heap of the byte-pair encoder are
  parameters with the documented behaviour as hypotheses (\<open>lawful_regexp\<close>, \<open>lawful_heap\<close>).

  \<^bold>\<open>Prompt cache.\<close> CacheTrie, TrieInsert and TrieEvict: the trie of \<^verbatim>\<open>cache_trie.go\<close> on a store of
  nodes. KVCache: the cache of a layer and its lazy snapshots (\<^verbatim>\<open>cache/kvcache.go\<close>, \<^verbatim>\<open>cache/cache.go\<close>).
  PrefixCache, PrefixCacheProofs and PrefixSession: \<^verbatim>\<open>prefix_cache.go\<close> over the interface
  \<open>layer_cache\<close>, which says what restoring, freeing and taking snapshots of a layer do and when they
  cannot panic. PromptCache states what follows for key/value caches: the longest stored prefix is
  found, a session stores what it evaluated and leaves a token to evaluate, eviction ends and
  spares the active path. RotatingCache and RotatingProofs: the cache of a sliding window
  (\<^verbatim>\<open>cache/rotating.go\<close>), a ring after single writes and a list after batched ones, refines an
  append-only history of which the window is visible. RecurrentCache and RecurrentProofs: the cache of a
  recurrent state (\<^verbatim>\<open>cache/recurrent.go\<close>, \<^verbatim>\<open>x/models/nn/recurrent.go\<close>), whose segmented forward pass
  continues the recurrence over the history. All three interpret \<open>layer_cache\<close>, with all their panics.

  \<^bold>\<open>Scheduler.\<close> SchedPlacement: the decisions of a load (\<^verbatim>\<open>server/sched.go\<close>, with parts of
  \<^verbatim>\<open>llm/llama_server.go\<close> and \<^verbatim>\<open>ml/device.go\<close>), with the wrap-around of \<^verbatim>\<open>uint64\<close> sizes. Sched: runners,
  requests, channels, both loops, timers and loads as atomic steps between locks and channel
  operations. SchedProofs: the invariant of all runs and that of calm runs, in which a runner is
  not unloaded between being looked up and being used. Scheduler: what follows, and three runs
  in which an interleaving breaks what the code means to do.

  \<^bold>\<open>Loops.\<close> Most loops are structural or have a measure: the length of what is left to read, the
  position in a heap, the distance to a bound. The walk over the trie has fuel, one more
  than the largest end offset of a node, which is enough as the offsets grow downwards; eviction
  has the number of nodes, of which every round takes one away. The merge
  loop and the cutting at special tokens are partial functions: that they return is a theorem
  (three times the segments plus the queued candidates falls; the weight of the fragments left
  falls), and for an empty special token that they do not. The bound of \<^term>\<open>2 ^ 64\<close> steps on
  scheduler runs keeps its counters from wrapping.

  \<^bold>\<open>Parameters.\<close> JSON decoding, Unicode tables, the order in which a Go map is walked, floating-point
  conversions, the file system with its links, hashing, the sniffing of contents and the version syntax,
  the kernels of convolutions and recurrences, the clock, file sizes and free memory as the
  operating system reports them, whether a runner answers a ping, the arrays of a layer, regular
  expressions and third-party containers. A panic is \<^const>\<open>None\<close> or a result of its own.

  \<^bold>\<open>Not modelled.\<close> The HTTP handlers, the processes of the runners, the command line, the desktop
  application, the bindings to MLX and the conversion of models are input and output or bindings.
  Of the modelled parts: shutting the scheduler down and the wait for the recovery of video
  memory, which only delays; a queue of pending requests of size 0; the allocation and the debug
  dump of a prompt cache; closing the snapshots of a layer when the trie drops them, and the merging
  and splitting of snapshots the trie asks of the layers, which are functions of their own there;
  logging everywhere.

  \<^bold>\<open>Plan.\<close> Next: one store for the snapshots of the trie and of the layers, ordered maps and the
  truncation of prompts, speculative decoding.
\<close>

end
